(* ===== verification/Prelude.thy ===== *)
theory Prelude
  imports Complex_Main "HOL-Library.Word" "HOL-Library.Monad_Syntax"
begin

text \<open>
  Shared vocabulary of the development: the machine integer types of the C sources, arrays with
  C indices, C loops as folds in the option monad, and the XOR sums of the Mojette transform.

  In every model \<^term>\<open>None\<close> stands for an execution that leaves the C standard: an array access
  outside its bounds, a failed \<^verbatim>\<open>assert\<close>, or a misaligned vector load. A theorem whose conclusion
  is \<open>f x = Some y\<close> therefore also says that the code does none of these on \<open>x\<close>.
\<close>

unbundle bit_operations_syntax

named_theorems arr_simps \<open>bounds-checked array accesses\<close>
named_theorems foldM_simps \<open>loops in the option monad\<close>

type_synonym u8 = "8 word"
type_synonym u16 = "16 word"
type_synonym u32 = "32 word"
type_synonym u64 = "64 word"
type_synonym u128 = "128 word"

subsection \<open>Arrays with C indices\<close>

definition arr_get :: "'a list \<Rightarrow> int \<Rightarrow> 'a option" where
  "arr_get xs i = (if 0 \<le> i \<and> i < int (length xs) then Some (xs ! nat i) else None)"

definition arr_set :: "'a list \<Rightarrow> int \<Rightarrow> 'a \<Rightarrow> 'a list option" where
  "arr_set xs i v = (if 0 \<le> i \<and> i < int (length xs) then Some (xs[nat i := v]) else None)"

lemma arr_get_in [arr_simps]: "0 \<le> i \<Longrightarrow> i < int (length xs) \<Longrightarrow> arr_get xs i = Some (xs ! nat i)"
  by (simp add: arr_get_def)

lemma arr_set_in [arr_simps]: "0 \<le> i \<Longrightarrow> i < int (length xs) \<Longrightarrow> arr_set xs i v = Some (xs[nat i := v])"
  by (simp add: arr_set_def)

lemma arr_get_out [arr_simps]: "i < 0 \<or> int (length xs) \<le> i \<Longrightarrow> arr_get xs i = None"
  by (auto simp: arr_get_def)

lemma arr_get_Some_iff: "arr_get xs i = Some v \<longleftrightarrow> 0 \<le> i \<and> i < int (length xs) \<and> xs ! nat i = v"
  by (auto simp: arr_get_def)

lemma arr_set_Some_iff:
  "arr_set xs i v = Some ys \<longleftrightarrow> 0 \<le> i \<and> i < int (length xs) \<and> ys = xs[nat i := v]"
  by (auto simp: arr_set_def)

lemma arr_set_length: "arr_set xs i v = Some ys \<Longrightarrow> length ys = length xs"
  by (simp add: arr_set_Some_iff)

lemma arr_get_set:
  "arr_set xs i v = Some ys \<Longrightarrow> arr_get ys j = (if j = i then Some v else arr_get xs j)"
  by (auto simp: arr_set_Some_iff arr_get_def nth_list_update)

subsection \<open>C loops\<close>

text \<open>
  A \<^verbatim>\<open>for\<close> loop runs its body over the list of its index values; a fault of the body ends it.
\<close>

primrec foldM :: "('a \<Rightarrow> 's \<Rightarrow> 's option) \<Rightarrow> 'a list \<Rightarrow> 's \<Rightarrow> 's option" where
  "foldM f [] s = Some s"
| "foldM f (x # xs) s = do { s' \<leftarrow> f x s; foldM f xs s' }"

lemma foldM_append [foldM_simps]: "foldM f (xs @ ys) s = do { s' \<leftarrow> foldM f xs s; foldM f ys s' }"
  by (induction xs arbitrary: s) (simp_all add: Option.bind_assoc)

lemma foldM_map [foldM_simps]: "foldM f (map g xs) = foldM (\<lambda>x. f (g x)) xs"
proof
  show "foldM f (map g xs) s = foldM (\<lambda>x. f (g x)) xs s" for s
    by (induction xs arbitrary: s) simp_all
qed

lemma foldM_concat [foldM_simps]: "foldM f (concat xss) = foldM (foldM f) xss"
proof
  show "foldM f (concat xss) s = foldM (foldM f) xss s" for s
    by (induction xss arbitrary: s) (simp_all add: foldM_append)
qed

lemma foldM_filter [foldM_simps]:
  "foldM f (filter P xs) = foldM (\<lambda>x s. if P x then f x s else Some s) xs"
proof
  show "foldM f (filter P xs) s = foldM (\<lambda>x s. if P x then f x s else Some s) xs s" for s
    by (induction xs arbitrary: s) simp_all
qed

lemma foldM_cong [fundef_cong]:
  "xs = ys \<Longrightarrow> s = t \<Longrightarrow> (\<And>x u. x \<in> set ys \<Longrightarrow> f x u = g x u) \<Longrightarrow> foldM f xs s = foldM g ys t"
proof (induction ys arbitrary: xs s t)
  case (Cons y ys)
  then show ?case by (cases "g y t") auto
qed simp

text \<open>
  The loop rule: an invariant indexed by the part of the index list already run. Each step must
  return and extend the invariant; then the whole loop returns.
\<close>

lemma foldM_invariant:
  assumes "I [] s"
    and "\<And>pre x post t. xs = pre @ x # post \<Longrightarrow> I pre t \<Longrightarrow> \<exists>t'. f x t = Some t' \<and> I (pre @ [x]) t'"
  shows "\<exists>t. foldM f xs s = Some t \<and> I xs t"
proof -
  have "\<exists>t. foldM f ys s = Some t \<and> I ys t" if "xs = ys @ zs" for ys zs
    using that
  proof (induction ys arbitrary: zs rule: rev_induct)
    case Nil
    then show ?case using assms(1) by simp
  next
    case (snoc y ys)
    then obtain t where t: "foldM f ys s = Some t" "I ys t" by auto
    with snoc.prems assms(2)[of ys y zs t] obtain t' where "f y t = Some t'" "I (ys @ [y]) t'" by auto
    with t show ?case by (simp add: foldM_append)
  qed
  from this[of xs "[]"] show ?thesis by simp
qed

lemma foldM_preserves:
  assumes "foldM f xs s = Some t" and "P s"
    and "\<And>x u v. x \<in> set xs \<Longrightarrow> P u \<Longrightarrow> f x u = Some v \<Longrightarrow> P v"
  shows "P t"
  using assms
proof (induction xs arbitrary: s)
  case (Cons x xs)
  then obtain u where "f x s = Some u" "foldM f xs u = Some t" by (auto split: bind_splits)
  with Cons show ?case by (metis list.set_intros)
qed simp

text \<open>A loop that rewrites the first \<open>n\<close> cells of an array in place, each from its own old value.\<close>

lemma foldM_arr_update:
  assumes "n \<le> int (length xs)"
    and "\<And>i. 0 \<le> i \<Longrightarrow> i < n \<Longrightarrow> g i (xs ! nat i) = Some (h i)"
  shows "\<exists>ys. foldM (\<lambda>i ys. do { u \<leftarrow> arr_get ys i; v \<leftarrow> g i u; arr_set ys i v }) [0..n - 1] xs = Some ys
     \<and> length ys = length xs
     \<and> (\<forall>i. 0 \<le> i \<and> i < int (length xs) \<longrightarrow> ys ! nat i = (if i < n then h i else xs ! nat i))"
    (is "\<exists>ys. foldM ?f _ _ = Some ys \<and> _")
proof -
  define I where "I pre ys \<longleftrightarrow> length ys = length xs \<and>
    (\<forall>i. 0 \<le> i \<and> i < int (length xs) \<longrightarrow> ys ! nat i = (if i \<in> set pre then h i else xs ! nat i))"
    for pre :: "int list" and ys
  have "\<exists>ys. foldM ?f [0..n - 1] xs = Some ys \<and> I [0..n - 1] ys"
  proof (rule foldM_invariant)
    show "I [] xs" by (simp add: I_def)
    fix pre x post ys assume split: "[0..n - 1] = pre @ x # post" and "I pre ys"
    have "x \<in> set [0..n - 1]" "distinct (pre @ x # post)"
      unfolding split by (simp, metis split distinct_upto)
    then have x: "0 \<le> x" "x < n" "x \<notin> set pre" by simp_all
    with \<open>I pre ys\<close> show "\<exists>t'. ?f x ys = Some t' \<and> I (pre @ [x]) t'"
      using assms by (simp add: I_def arr_get_in arr_set_in nth_list_update nat_eq_iff)
  qed
  then show ?thesis by (auto simp: I_def)
qed

subsection \<open>Integer ranges\<close>

lemma upto_split: "a \<le> b \<Longrightarrow> b \<le> c + 1 \<Longrightarrow> [a..c] = [a..b - 1] @ [b..c]" for a b c :: int
  using upto_split1[of a b c] by (cases "b = c + 1") auto

lemma upto_snoc: "a \<le> b \<Longrightarrow> [a..b] = [a..b - 1] @ [b]" for a b :: int
  by (rule upto_rec2)

lemma sorted_wrt_upto: "sorted_wrt (<) [a..b]" for a b :: int
  by (simp add: sorted_wrt_iff_nth_less)

lemma upto_shift: "[a + d..b + d] = map (\<lambda>i. i + d) [a..b]" for a b d :: int
  by (rule nth_equalityI) auto

subsection \<open>XOR sums\<close>

interpretation xors: comm_monoid_set "(XOR) :: 'a::len word \<Rightarrow> 'a word \<Rightarrow> 'a word" "0"
  by unfold_locales (simp_all add: ac_simps)

abbreviation xor_sum :: "('b \<Rightarrow> 'a::len word) \<Rightarrow> 'b set \<Rightarrow> 'a word" where
  "xor_sum \<equiv> xors.F"

lemma xor_self_cancel [simp]: "(a XOR b) XOR b = a" for a b :: "'a::len word"
  by (simp add: xor.assoc)

lemma xor_sum_remove:
  "finite A \<Longrightarrow> x \<in> A \<Longrightarrow> xor_sum f (A - {x}) = xor_sum f A XOR f x"
  by (simp add: xors.remove[of A x] ac_simps)

lemma xor_sum_insert:
  "finite A \<Longrightarrow> x \<notin> A \<Longrightarrow> xor_sum f (insert x A) = xor_sum f A XOR f x"
  by (simp add: ac_simps)

subsection \<open>XOR into an array cell\<close>

definition xor_at :: "'a::len word list \<Rightarrow> int \<Rightarrow> 'a word \<Rightarrow> 'a word list option" where
  "xor_at bs i v = do { b \<leftarrow> arr_get bs i; arr_set bs i (b XOR v) }"

lemma xor_at_in [arr_simps]:
  "0 \<le> i \<Longrightarrow> i < int (length bs) \<Longrightarrow> xor_at bs i v = Some (bs[nat i := (bs ! nat i) XOR v])"
  by (simp add: xor_at_def arr_simps)

lemma xor_scatter:
  assumes "distinct xs" and "\<And>x. x \<in> set xs \<Longrightarrow> 0 \<le> ix x \<and> ix x < int (length bs)"
  shows "\<exists>bs'. foldM (\<lambda>x bs. xor_at bs (ix x) (v x)) xs bs = Some bs' \<and> length bs' = length bs
     \<and> (\<forall>b. 0 \<le> b \<and> b < int (length bs) \<longrightarrow> bs' ! nat b = (bs ! nat b) XOR xor_sum v {x \<in> set xs. ix x = b})"
proof -
  define I where "I pre bs' \<longleftrightarrow> length bs' = length bs \<and> (\<forall>b. 0 \<le> b \<and> b < int (length bs) \<longrightarrow>
    bs' ! nat b = (bs ! nat b) XOR xor_sum v {x \<in> set pre. ix x = b})" for pre bs'
  have "\<exists>bs'. foldM (\<lambda>x bs. xor_at bs (ix x) (v x)) xs bs = Some bs' \<and> I xs bs'"
  proof (rule foldM_invariant)
    show "I [] bs" by (simp add: I_def)
    fix pre x post t assume split: "xs = pre @ x # post" and t: "I pre t"
    have x: "x \<notin> set pre" "0 \<le> ix x" "ix x < int (length t)"
      using split assms t by (auto simp: I_def)
    have "{y \<in> set (pre @ [x]). ix y = b} =
        (if ix x = b then insert x {y \<in> set pre. ix y = b} else {y \<in> set pre. ix y = b})" for b
      by auto
    then have "I (pre @ [x]) (t[nat (ix x) := (t ! nat (ix x)) XOR v x])"
      using t x by (auto simp: I_def nth_list_update nat_eq_iff xor_sum_insert ac_simps)
    then show "\<exists>t'. xor_at t (ix x) (v x) = Some t' \<and> I (pre @ [x]) t'"
      using x by (simp add: xor_at_in)
  qed
  then show ?thesis by (auto simp: I_def)
qed

end
