(* ===== verification/Mojette_Geometry.thy ===== *)
theory Mojette_Geometry
  imports Prelude
begin

text \<open>
  The discrete geometry behind the Mojette transform, shared by its 64-bit and 128-bit
  implementations. A block is an image of \<open>R\<close> rows and \<open>C\<close> columns; a projection of angle \<open>p\<close>
  (with \<open>q = 1\<close>) sums by XOR the pixels of each line \<open>c + l * p\<close>. The decoder sorts the projections
  by decreasing angle, gives row \<open>l\<close> to projection \<open>l\<close> and visits pixel \<open>(l, k + koff l)\<close> at time
  \<open>k\<close>. The theory proves that this order always finds a bin with a single pixel left.
\<close>

subsection \<open>Bins\<close>

definition bin_offset :: "int \<Rightarrow> int \<Rightarrow> int" where
  "bin_offset rows p = (if p < 0 then (rows - 1) * p else 0)"

definition bin_index :: "int \<Rightarrow> int \<Rightarrow> int \<Rightarrow> int \<Rightarrow> int" where
  "bin_index rows p l c = c + l * p - bin_offset rows p"

definition pixels :: "int \<Rightarrow> int \<Rightarrow> (int \<times> int) set" where
  "pixels R C = {0..<R} \<times> {0..<C}"

definition on_bin :: "int \<Rightarrow> int \<Rightarrow> int \<Rightarrow> int \<Rightarrow> (int \<times> int) set" where
  "on_bin R C p b = {(l, c). (l, c) \<in> pixels R C \<and> bin_index R p l c = b}"

lemma finite_pixels [simp]: "finite (pixels R C)"
  by (simp add: pixels_def)

lemma mem_pixels [simp]: "(l, c) \<in> pixels R C \<longleftrightarrow> 0 \<le> l \<and> l < R \<and> 0 \<le> c \<and> c < C"
  by (auto simp: pixels_def)

lemma mem_on_bin [simp]: "(l, c) \<in> on_bin R C p b \<longleftrightarrow> (l, c) \<in> pixels R C \<and> bin_index R p l c = b"
  by (auto simp: on_bin_def)

lemma finite_on_bin [simp]: "finite (on_bin R C p b)"
  by (rule finite_subset[of _ "pixels R C"]) auto

lemma bin_index_nonneg: "0 \<le> l \<Longrightarrow> l < R \<Longrightarrow> 0 \<le> c \<Longrightarrow> 0 \<le> bin_index R p l c"
proof (cases "p < 0")
  case True
  assume a: "0 \<le> l" "l < R" "0 \<le> c"
  have "(R - 1) * p \<le> l * p" using a True by (intro mult_right_mono_neg) auto
  with a True show ?thesis by (simp add: bin_index_def bin_offset_def algebra_simps)
qed (simp add: bin_index_def bin_offset_def)

lemma bin_index_upper:
  assumes "0 \<le> l" "l < R" "c < C"
  shows "bin_index R p l c < C + \<bar>p\<bar> * (R - 1)"
proof (cases "p < 0")
  case True
  then have "0 \<le> l * - p" using assms by (simp add: mult_nonneg_nonpos)
  with True assms show ?thesis by (simp add: bin_index_def bin_offset_def algebra_simps)
next
  case False
  then have "l * p \<le> (R - 1) * p" using assms by (simp add: mult_right_mono)
  with False assms show ?thesis by (simp add: bin_index_def bin_offset_def algebra_simps)
qed

lemma bin_index_eq_iff: "bin_index R p l' c' = bin_index R p l c \<longleftrightarrow> c' = c + (l - l') * p"
  by (auto simp: bin_index_def algebra_simps)

subsection \<open>The reconstruction path\<close>

definition dec_angles :: "int \<Rightarrow> (int \<Rightarrow> int) \<Rightarrow> bool" where
  "dec_angles R pa \<longleftrightarrow> (\<forall>i j. 0 \<le> i \<and> i < j \<and> j < R \<longrightarrow> pa j < pa i)"

definition koff_rdv :: "int \<Rightarrow> (int \<Rightarrow> int) \<Rightarrow> int" where
  "koff_rdv R pa = max (max 0 (- pa (R - 1)) + (\<Sum>j\<in>{1..R - 2}. max 0 (- pa j)))
                       (max 0 (pa (R - 1)) + (\<Sum>j\<in>{1..R - 2}. max 0 (pa j)))"

definition koff :: "int \<Rightarrow> (int \<Rightarrow> int) \<Rightarrow> int \<Rightarrow> int" where
  "koff R pa l = koff_rdv R pa + (\<Sum>j\<in>{l + 1..R - 1}. pa j)"

definition kmax :: "int \<Rightarrow> (int \<Rightarrow> int) \<Rightarrow> int" where
  "kmax R pa = max (koff R pa 0) (koff R pa (R - 1))"

lemma koff_cong:
  assumes "0 < R" "0 \<le> l" "\<And>j. 0 \<le> j \<Longrightarrow> j < R \<Longrightarrow> pa j = pb j"
  shows "koff R pa l = koff R pb l"
  using assms by (simp add: koff_def koff_rdv_def cong: sum.cong_simp)

lemma dec_anglesD: "dec_angles R pa \<Longrightarrow> 0 \<le> i \<Longrightarrow> i < j \<Longrightarrow> j < R \<Longrightarrow> pa j < pa i"
  by (simp add: dec_angles_def)

lemma dec_angles_leD: "dec_angles R pa \<Longrightarrow> 0 \<le> i \<Longrightarrow> i \<le> j \<Longrightarrow> j < R \<Longrightarrow> pa j \<le> pa i"
  by (cases "i = j") (auto dest: dec_anglesD[of R pa i j])

lemma int_ivl_split: "a \<le> b + 1 \<Longrightarrow> b \<le> c \<Longrightarrow> {a..c} = {a..b} \<union> {b + 1..c}" for a b c :: int
  by auto

lemma sum_ivl_split:
  "a \<le> b + 1 \<Longrightarrow> b \<le> c \<Longrightarrow> (\<Sum>j\<in>{a..c}. g j) = (\<Sum>j\<in>{a..b}. g j) + (\<Sum>j\<in>{b + 1..c}. g j :: int)"
  for a b c :: int
  by (simp add: int_ivl_split[of a b c] sum.union_disjoint)

lemma koff_step: "l < R - 1 \<Longrightarrow> koff R pa l = koff R pa (l + 1) + pa (l + 1)"
  using sum_ivl_split[of "l + 1" "l + 1" "R - 1" pa] by (simp add: koff_def)

lemma koff_diff: "l \<le> l' \<Longrightarrow> l' \<le> R - 1 \<Longrightarrow> koff R pa l - koff R pa l' = (\<Sum>j\<in>{l + 1..l'}. pa j)"
  using sum_ivl_split[of "l + 1" l' "R - 1" pa] by (simp add: koff_def)

lemma koff_nonneg:
  assumes "0 \<le> l" "l < R"
  shows "0 \<le> koff R pa l"
proof (cases "l = R - 1")
  case True
  then show ?thesis by (simp add: koff_def koff_rdv_def max_def sum_nonneg)
next
  case False
  with assms have l: "0 \<le> l" "l < R - 1" by auto
  have "(\<Sum>j\<in>{l + 1..R - 1}. - pa j) \<le> (\<Sum>j\<in>{l + 1..R - 1}. max 0 (- pa j))"
    by (rule sum_mono) simp
  also have "\<dots> \<le> (\<Sum>j\<in>{1..R - 1}. max 0 (- pa j))"
    using l by (intro sum_mono2) auto
  also have "\<dots> = (\<Sum>j\<in>{1..R - 2}. max 0 (- pa j)) + max 0 (- pa (R - 1))"
    using sum_ivl_split[of 1 "R - 2" "R - 1" "\<lambda>j. max 0 (- pa j)"] l by simp
  also have "\<dots> \<le> koff_rdv R pa" by (simp add: koff_rdv_def)
  finally show ?thesis by (simp add: koff_def sum_negf)
qed

lemma koff_le_kmax:
  assumes "dec_angles R pa" "0 \<le> l" "l < R"
  shows "koff R pa l \<le> kmax R pa"
proof (cases "0 \<le> pa l")
  case True
  have "0 \<le> (\<Sum>j\<in>{0 + 1..l}. pa j)"
  proof (rule sum_nonneg)
    fix j assume "j \<in> {0 + 1..l}"
    then have "pa l \<le> pa j" using dec_angles_leD[OF assms(1), of j l] assms by simp
    with True show "0 \<le> pa j" by simp
  qed
  then have "koff R pa l \<le> koff R pa 0" using koff_diff[of 0 l R pa] assms by linarith
  then show ?thesis by (simp add: kmax_def)
next
  case False
  have "(\<Sum>j\<in>{l + 1..R - 1}. pa j) \<le> 0"
  proof (rule sum_nonpos)
    fix j assume "j \<in> {l + 1..R - 1}"
    then have "pa j \<le> pa l" using dec_angles_leD[OF assms(1), of l j] assms by simp
    with False show "pa j \<le> 0" by simp
  qed
  then have "koff R pa l \<le> koff R pa (R - 1)" using koff_diff[of l "R - 1" R pa] assms by linarith
  then show ?thesis by (simp add: kmax_def)
qed

text \<open>
  The heart of the algorithm: every other pixel on the bin that projection \<open>l\<close> uses for pixel
  \<open>(l, c)\<close> has been visited before.
\<close>

lemma bin_mates_precede:
  assumes "dec_angles R pa" "0 \<le> l" "l < R" "0 \<le> l'" "l' < R"
    and "bin_index R (pa l) l' c' = bin_index R (pa l) l c" and "l' \<noteq> l"
  shows "c' - koff R pa l' < c - koff R pa l
       \<or> c' - koff R pa l' = c - koff R pa l \<and> l' < l"
proof -
  have c': "c' = c + (l - l') * pa l" using assms(6) by (simp add: bin_index_eq_iff)
  show ?thesis
  proof (cases "l < l'")
    case True
    have "(\<Sum>j\<in>{l + 1..l'}. pa j - pa l) < (\<Sum>j\<in>{l + 1..l'}. 0)"
      using assms True by (intro sum_strict_mono) (auto intro: dec_anglesD)
    then have "(\<Sum>j\<in>{l + 1..l'}. pa j) < (l' - l) * pa l" using True by (simp add: sum_subtractf)
    then show ?thesis using koff_diff[of l l' R pa] True assms(5) c'
      by (simp add: algebra_simps)
  next
    case False
    then have lt: "l' < l" using assms by simp
    have "(\<Sum>j\<in>{l' + 1..l}. pa l - pa j) \<le> (\<Sum>j\<in>{l' + 1..l}. 0)"
      using assms lt by (intro sum_mono) (simp add: dec_angles_leD)
    then have "(l - l') * pa l \<le> (\<Sum>j\<in>{l' + 1..l}. pa j)" using lt by (simp add: sum_subtractf)
    moreover have "koff R pa l' - koff R pa l = (\<Sum>j\<in>{l' + 1..l}. pa j)"
      using koff_diff[of l' l R pa] lt assms(3) by simp
    ultimately have "c' - koff R pa l' \<le> c - koff R pa l" using c' by linarith
    with lt show ?thesis by auto
  qed
qed

definition mojette_path :: "int \<Rightarrow> int \<Rightarrow> (int \<Rightarrow> int) \<Rightarrow> (int \<times> int) list" where
  "mojette_path R C pa = concat (map (\<lambda>k. map (Pair k)
     (filter (\<lambda>l. 0 \<le> k + koff R pa l \<and> k + koff R pa l < C) [0..R - 1])) [- kmax R pa..C - 1])"

definition pixel_at :: "int \<Rightarrow> (int \<Rightarrow> int) \<Rightarrow> int \<times> int \<Rightarrow> int \<times> int" where
  "pixel_at R pa x = (snd x, fst x + koff R pa (snd x))"

definition visit_less :: "int \<times> int \<Rightarrow> int \<times> int \<Rightarrow> bool" where
  "visit_less x y \<longleftrightarrow> fst x < fst y \<or> fst x = fst y \<and> snd x < snd y"

lemma sorted_wrt_concat_pairs:
  "sorted_wrt (<) ks \<Longrightarrow> (\<And>k. k \<in> set ks \<Longrightarrow> sorted_wrt (<) (ls k)) \<Longrightarrow>
   sorted_wrt visit_less (concat (map (\<lambda>k. map (Pair k) (ls k)) ks))"
  by (induction ks) (auto simp: sorted_wrt_append sorted_wrt_map visit_less_def)

lemma mojette_path_sorted: "sorted_wrt visit_less (mojette_path R C pa)"
  unfolding mojette_path_def
  by (rule sorted_wrt_concat_pairs) (auto intro: sorted_wrt_filter sorted_wrt_upto)

lemma mem_mojette_path:
  assumes "dec_angles R pa"
  shows "(k, l) \<in> set (mojette_path R C pa) \<longleftrightarrow> (l, k + koff R pa l) \<in> pixels R C"
proof -
  have "- kmax R pa \<le> k \<and> k \<le> C - 1" if "0 \<le> l" "l < R" "0 \<le> k + koff R pa l" "k + koff R pa l < C"
    using koff_le_kmax[OF assms that(1,2)] koff_nonneg[OF that(1,2), of pa] that by auto
  then show ?thesis by (auto simp: mojette_path_def)
qed

lemma pixel_at_path:
  assumes "dec_angles R pa"
  shows "pixel_at R pa ` set (mojette_path R C pa) = pixels R C"
proof -
  have "(l, c) \<in> pixel_at R pa ` set (mojette_path R C pa)" if "(l, c) \<in> pixels R C" for l c
    using that by (intro image_eqI[of _ _ "(c - koff R pa l, l)"])
      (simp_all add: pixel_at_def mem_mojette_path[OF assms])
  then show ?thesis by (auto simp: pixel_at_def mem_mojette_path[OF assms])
qed

lemma path_before:
  assumes "mojette_path R C pa = pre @ x # post" "y \<in> set (mojette_path R C pa)" "visit_less y x"
  shows "y \<in> set pre"
proof -
  have "visit_less x z" if "z \<in> set post" for z
    using that mojette_path_sorted[of R C pa] by (simp add: assms(1) sorted_wrt_append)
  moreover have "\<not> (visit_less x y \<and> visit_less y x)" by (auto simp: visit_less_def)
  moreover have "\<not> visit_less x x" by (simp add: visit_less_def)
  ultimately show ?thesis using assms by (metis Un_iff set_append set_ConsD)
qed

lemma path_not_before:
  assumes "mojette_path R C pa = pre @ x # post"
  shows "pixel_at R pa x \<notin> pixel_at R pa ` set pre"
proof
  assume "pixel_at R pa x \<in> pixel_at R pa ` set pre"
  then obtain y where y: "y \<in> set pre" "pixel_at R pa x = pixel_at R pa y" by auto
  then have "x = y" by (auto simp: pixel_at_def prod_eq_iff)
  moreover have "visit_less y x"
    using y(1) mojette_path_sorted[of R C pa] by (simp add: assms sorted_wrt_append)
  ultimately show False by (simp add: visit_less_def)
qed

text \<open>When pixel \<open>x\<close> is visited, it is the only one left on the bin that projection \<open>l\<close> uses.\<close>

lemma single_pixel_left:
  assumes dec: "dec_angles R pa" and path: "mojette_path R C pa = pre @ (k, l) # post"
  defines "c \<equiv> k + koff R pa l"
  shows "on_bin R C (pa l) (bin_index R (pa l) l c) - pixel_at R pa ` set pre = {(l, c)}"
proof -
  have x: "(l, c) \<in> pixels R C"
    using mem_mojette_path[OF dec, of k l C] path by (simp add: c_def)
  have new: "(l, c) \<notin> pixel_at R pa ` set pre"
    using path_not_before[OF path] by (simp add: pixel_at_def c_def)
  have "(l', c') \<in> pixel_at R pa ` set pre"
    if m: "(l', c') \<in> pixels R C" "bin_index R (pa l) l' c' = bin_index R (pa l) l c" "(l', c') \<noteq> (l, c)"
    for l' c'
  proof -
    have "l' \<noteq> l" using m(2,3) by (auto simp: bin_index_eq_iff)
    then have "visit_less (c' - koff R pa l', l') (k, l)"
      using bin_mates_precede[OF dec, of l l' c' c] m x by (auto simp: visit_less_def c_def)
    then have "(c' - koff R pa l', l') \<in> set pre"
      using path_before[OF path] mem_mojette_path[OF dec] m(1) by simp
    then show ?thesis by (auto simp: pixel_at_def intro!: image_eqI)
  qed
  with x new show ?thesis by auto
qed

subsection \<open>What the decoder keeps true of its bins\<close>

text \<open>
  \<open>m l b\<close> is bin \<open>b\<close> of projection \<open>l\<close>. The invariant constrains only the bins that are still to
  be read: bin \<open>(l, c)\<close> of projection \<open>l\<close> is the XOR of the pixels of its line not yet decoded.
\<close>

definition bins_ok ::
  "int \<Rightarrow> int \<Rightarrow> (int \<Rightarrow> int) \<Rightarrow> (int \<times> int \<Rightarrow> 'a::len word) \<Rightarrow> (int \<times> int) set \<Rightarrow> (int \<Rightarrow> int \<Rightarrow> 'a word) \<Rightarrow> bool"
where
  "bins_ok R C pa f D m \<longleftrightarrow> (\<forall>l c. (l, c) \<in> pixels R C \<and> (l, c) \<notin> D \<longrightarrow>
     m l (bin_index R (pa l) l c) = xor_sum f (on_bin R C (pa l) (bin_index R (pa l) l c) - D))"

lemma bins_ok_read:
  assumes "dec_angles R pa" "mojette_path R C pa = pre @ (k, l) # post"
    and "bins_ok R C pa f (pixel_at R pa ` set pre) m"
  shows "m l (bin_index R (pa l) l (k + koff R pa l)) = f (l, k + koff R pa l)"
proof -
  let ?c = "k + koff R pa l"
  have "(l, ?c) \<in> pixels R C" using mem_mojette_path[OF assms(1), of k l C] assms(2) by simp
  moreover have "(l, ?c) \<notin> pixel_at R pa ` set pre"
    using path_not_before[OF assms(2)] by (simp add: pixel_at_def)
  ultimately have "m l (bin_index R (pa l) l ?c)
      = xor_sum f (on_bin R C (pa l) (bin_index R (pa l) l ?c) - pixel_at R pa ` set pre)"
    using assms(3) by (simp add: bins_ok_def)
  then show ?thesis by (simp add: single_pixel_left[OF assms(1,2)])
qed

lemma bins_ok_step:
  assumes "bins_ok R C pa f D m" and x: "(l, c) \<in> pixels R C" "(l, c) \<notin> D"
    and upd: "\<And>l2 c2. (l2, c2) \<in> pixels R C \<Longrightarrow> (l2, c2) \<notin> D \<Longrightarrow> (l2, c2) \<noteq> (l, c) \<Longrightarrow>
      m' l2 (bin_index R (pa l2) l2 c2) =
        (if bin_index R (pa l2) l c = bin_index R (pa l2) l2 c2
         then m l2 (bin_index R (pa l2) l2 c2) XOR f (l, c) else m l2 (bin_index R (pa l2) l2 c2))"
  shows "bins_ok R C pa f (insert (l, c) D) m'"
  unfolding bins_ok_def
proof (intro allI impI)
  fix l2 c2 assume a: "(l2, c2) \<in> pixels R C \<and> (l2, c2) \<notin> insert (l, c) D"
  let ?b = "bin_index R (pa l2) l2 c2" let ?S = "on_bin R C (pa l2) ?b"
  have m: "m l2 ?b = xor_sum f (?S - D)" using assms(1) a by (simp add: bins_ok_def)
  have ins: "?S - insert (l, c) D = (?S - D) - {(l, c)}" by auto
  show "m' l2 ?b = xor_sum f (?S - insert (l, c) D)"
  proof (cases "bin_index R (pa l2) l c = ?b")
    case True
    then have "(l, c) \<in> ?S - D" using x by simp
    then show ?thesis using upd[of l2 c2] a True m by (simp add: ins xor_sum_remove)
  next
    case False
    then have "(l, c) \<notin> ?S - D" by simp
    then show ?thesis using upd[of l2 c2] a False m by (simp add: ins)
  qed
qed

subsection \<open>The support array\<close>

lemma distinct_pixel_list: "distinct (List.product [0..R - 1] [0..C - 1])"
  by (rule distinct_product) simp_all

lemma set_pixel_list: "set (List.product [0..R - 1] [0..C - 1]) = pixels R C"
  by (auto simp: pixels_def)

text \<open>The image a support array holds, row by row.\<close>

definition image_of :: "'a list \<Rightarrow> int \<Rightarrow> int \<times> int \<Rightarrow> 'a" where
  "image_of support cols x = support ! nat (fst x * cols + snd x)"

lemma pixel_address:
  fixes l R c C :: int
  assumes "0 \<le> l" "l < R" "0 \<le> c" "c < C"
  shows "0 \<le> l * C + c" "l * C + c < R * C"
proof -
  have "l * C + c < (l + 1) * C" using assms by (simp add: algebra_simps)
  also have "\<dots> \<le> R * C" using assms by (intro mult_right_mono) auto
  finally show "l * C + c < R * C" .
qed (use assms in simp)

lemma pixel_address_inj:
  fixes l l' c c' C :: int
  assumes "0 \<le> c" "c < C" "0 \<le> c'" "c' < C" "l * C + c = l' * C + c'"
  shows "l = l' \<and> c = c'"
proof -
  have "C \<noteq> 0" using assms by auto
  then have "(l * C + c) div C = l" "(l' * C + c') div C = l'" using assms(1-4) by simp_all
  then have "l = l'" unfolding assms(5) by simp
  with assms(5) show ?thesis by simp
qed

definition support_ok :: "int \<Rightarrow> (int \<times> int \<Rightarrow> 'a) \<Rightarrow> (int \<times> int) set \<Rightarrow> 'a list \<Rightarrow> bool" where
  "support_ok C f D supp \<longleftrightarrow> (\<forall>l c. (l, c) \<in> D \<longrightarrow> supp ! nat (l * C + c) = f (l, c))"

lemma support_ok_step:
  assumes "support_ok C f D supp" "D \<subseteq> pixels R C" "(l, c) \<in> pixels R C" "int (length supp) = R * C"
  shows "support_ok C f (insert (l, c) D) (supp[nat (l * C + c) := f (l, c)])"
  unfolding support_ok_def
proof (intro allI impI)
  fix l' c' assume d: "(l', c') \<in> insert (l, c) D"
  have ad: "0 \<le> l * C + c" "l * C + c < int (length supp)"
    using pixel_address[of l R c C] assms(3,4) by auto
  show "(supp[nat (l * C + c) := f (l, c)]) ! nat (l' * C + c') = f (l', c')"
  proof (cases "(l', c') = (l, c)")
    case False
    with d have "(l', c') \<in> D" by auto
    moreover from this have "(l', c') \<in> pixels R C" using assms(2) by auto
    then have "nat (l' * C + c') \<noteq> nat (l * C + c)"
      using False assms(3) pixel_address_inj[of c C c' l l'] pixel_address[of l' R c' C] ad
      by (auto simp: eq_nat_nat_iff)
    ultimately show ?thesis using assms(1) by (simp add: support_ok_def)
  qed (use ad in simp)
qed

lemma support_ok_all:
  assumes "support_ok C f (pixels R C) supp" "int (length supp) = R * C" "int (length supp') = R * C"
    and "f = image_of supp' C" "0 \<le> R" "0 < C"
  shows "supp = supp'"
proof (rule nth_equalityI)
  show "length supp = length supp'" using assms(2,3) by simp
  fix i assume i: "i < length supp"
  let ?l = "int i div C" let ?c = "int i mod C"
  have "int i < R * C" using i assms(2) by simp
  have "?l < R"
  proof (rule ccontr)
    assume "\<not> ?l < R"
    then have "R * C \<le> ?l * C" using assms(6) by (intro mult_right_mono) auto
    also have "\<dots> \<le> int i" using assms(6) div_mult_mod_eq[of "int i" C] pos_mod_sign[of C "int i"] by linarith
    finally show False using \<open>int i < R * C\<close> by simp
  qed
  then have "(?l, ?c) \<in> pixels R C" using assms(6) by (simp add: pos_imp_zdiv_nonneg_iff)
  then have "supp ! nat (?l * C + ?c) = supp' ! nat (?l * C + ?c)"
    using assms(1)[unfolded support_ok_def, rule_format, of ?l ?c] assms(4) by (simp only: image_of_def fst_conv snd_conv)
  then show "supp ! i = supp' ! i" by simp
qed

end
