(* ===== verification/Mojette.thy ===== *)
theory Mojette
  imports Mojette_Geometry "HOL-Library.Multiset"
begin

text \<open>
  The 64-bit Mojette transform of \<^verbatim>\<open>rozofs/common/transform.c\<close> and \<^verbatim>\<open>transform.h\<close>: the forward
  transform of a block into projections and the inverse transform that rebuilds the block from as
  many projections as it has rows. A projection owns its \<^verbatim>\<open>bins\<close> array; every access is checked
  against the length of that array. \<^verbatim>\<open>int\<close> values are unbounded here: indices stay below the size
  of the arrays they index.
\<close>

subsection \<open>Data\<close>

record angle_t =
  ang_p :: int
  ang_q :: int

text \<open>
  The \<^verbatim>\<open>bins\<close> pointer of a projection is the array it points to (a list of 64-bit or 128-bit bins)
  or, where several projections share one buffer, an offset into that buffer.
\<close>

record 'b projection_t =
  angle :: angle_t
  psize :: int
  bins :: 'b

type_synonym prj64 = "u64 list projection_t"

abbreviation prj_p :: "'b projection_t \<Rightarrow> int" where
  "prj_p pr \<equiv> ang_p (angle pr)"

abbreviation prj_q :: "'b projection_t \<Rightarrow> int" where
  "prj_q pr \<equiv> ang_q (angle pr)"

subsection \<open>Forward transform\<close>

text \<open>The loop that zeroes \<^verbatim>\<open>size\<close> bins.\<close>

definition clear_bins :: "int \<Rightarrow> 'a::len word list \<Rightarrow> 'a word list option" where
  "clear_bins sz bs = foldM (\<lambda>len bs. arr_set bs len 0) [0..sz - 1] bs"

text \<open>Eight pixels XORed into eight consecutive bins: the body of the innermost loop.\<close>

definition forward_chunk :: "u64 list \<Rightarrow> int \<Rightarrow> int \<Rightarrow> u64 list \<Rightarrow> u64 list option" where
  "forward_chunk support ppix pbin bs =
     foldM (\<lambda>j bs. do { v \<leftarrow> arr_get support (ppix + j); xor_at bs (pbin + j) v }) [0..7] bs"

primrec forward_row :: "u64 list \<Rightarrow> nat \<Rightarrow> int \<Rightarrow> int \<Rightarrow> u64 list \<Rightarrow> (u64 list \<times> int) option" where
  "forward_row support 0 ppix pbin bs = Some (bs, ppix)"
| "forward_row support (Suc k) ppix pbin bs = do {
     bs \<leftarrow> forward_chunk support ppix pbin bs;
     forward_row support k (ppix + 8) (pbin + 8) bs }"

definition forward_rows :: "u64 list \<Rightarrow> int \<Rightarrow> int \<Rightarrow> int \<Rightarrow> int \<Rightarrow> u64 list \<Rightarrow> u64 list option" where
  "forward_rows support rows cols p off bs =
     map_option fst (foldM (\<lambda>l (bs, ppix). forward_row support (nat (cols div 8)) ppix (l * p - off) bs)
       [0..rows - 1] (bs, 0))"

definition transform_forward ::
  "u64 list \<Rightarrow> int \<Rightarrow> int \<Rightarrow> int \<Rightarrow> prj64 list \<Rightarrow> prj64 list option"
where
  "transform_forward support rows cols np projections = do {
     (if np \<le> 1024 then Some () else None); \<comment> \<open>\<^verbatim>\<open>transform_buf_offset[1024]\<close>\<close>
     projections \<leftarrow> foldM (\<lambda>i prjs. do {
         pr \<leftarrow> arr_get prjs i;
         pr \<leftarrow> do { bs \<leftarrow> clear_bins (psize pr) (bins pr); Some (pr\<lparr>bins := bs\<rparr>) };
         arr_set prjs i pr }) [0..np - 1] projections;
     (if cols mod 8 = 0 then Some () else None);
     foldM (\<lambda>i prjs. do {
         pr \<leftarrow> arr_get prjs i;
         pr \<leftarrow> do { bs \<leftarrow> forward_rows support rows cols (prj_p pr) (bin_offset rows (prj_p pr)) (bins pr);
                   Some (pr\<lparr>bins := bs\<rparr>) };
         arr_set prjs i pr }) [0..np - 1] projections }"

definition transform_forward_one_proj ::
  "u64 list \<Rightarrow> int \<Rightarrow> int \<Rightarrow> int \<Rightarrow> prj64 list \<Rightarrow> prj64 list option"
where
  "transform_forward_one_proj support rows cols proj_id projections = do {
     pr \<leftarrow> arr_get projections proj_id;
     bs \<leftarrow> clear_bins (psize pr) (bins pr);
     (if cols mod 8 = 0 then Some () else None);
     bs \<leftarrow> forward_rows support rows cols (prj_p pr) (bin_offset rows (prj_p pr)) bs;
     arr_set projections proj_id (pr\<lparr>bins := bs\<rparr>) }"

subsection \<open>Sorting\<close>

text \<open>
  The quotients of \<^verbatim>\<open>compare_slope\<close> are doubles in C and rationals here: they are the same number
  for \<open>q = 1\<close>, the only value the layouts use. The C library's \<^verbatim>\<open>qsort\<close> is an insertion sort over
  the comparison function; the order it leaves equal elements in is not specified by C, and the
  theorems only use it on projections of distinct slopes, where it does not matter.
\<close>

definition compare_slope :: "'b projection_t \<Rightarrow> 'b projection_t \<Rightarrow> int" where
  "compare_slope p1 p2 =
     (let a = of_int (prj_p p1) / of_int (prj_q p1) :: rat;
          b = of_int (prj_p p2) / of_int (prj_q p2)
      in if a < b then 1 else if b < a then -1 else 0)"

fun qsort_insert :: "('a \<Rightarrow> 'a \<Rightarrow> int) \<Rightarrow> 'a \<Rightarrow> 'a list \<Rightarrow> 'a list" where
  "qsort_insert cmp x [] = [x]"
| "qsort_insert cmp x (y # ys) = (if cmp x y \<le> 0 then x # y # ys else y # qsort_insert cmp x ys)"

definition qsort :: "('a \<Rightarrow> 'a \<Rightarrow> int) \<Rightarrow> 'a list \<Rightarrow> 'a list" where
  "qsort cmp xs = foldr (qsort_insert cmp) xs []"

definition max_c :: "int \<Rightarrow> int \<Rightarrow> int" where
  "max_c a b = (if a > b then a else b)"

subsection \<open>Inverse transform\<close>

text \<open>The initial column offset of each row, up to the comment ``Reconstruct''.\<close>

definition inverse_k_offsets :: "int \<Rightarrow> int \<Rightarrow> int list \<Rightarrow> int list option" where
  "inverse_k_offsets rows np ps = do {
     (s_minus, s_plus) \<leftarrow> foldM (\<lambda>i (s_minus, s_plus). do {
         p \<leftarrow> arr_get ps i;
         Some (s_minus + max_c 0 (- p), s_plus + max_c 0 p) }) [1..rows - 2] (0, 0);
     let rdv = rows - 1;
     p \<leftarrow> arr_get ps rdv;
     ko \<leftarrow> arr_set (replicate (nat np) 0) rdv (max_c (max_c 0 (- p) + s_minus) (max_c 0 p + s_plus));
     ko \<leftarrow> foldM (\<lambda>i ko. do {
         k \<leftarrow> arr_get ko (i - 1); p \<leftarrow> arr_get ps (i - 1); arr_set ko i (k + p) }) [rdv + 1..rows - 1] ko;
     foldM (\<lambda>i ko. do {
         k \<leftarrow> arr_get ko (i + 1); p \<leftarrow> arr_get ps (i + 1); arr_set ko i (k + p) }) (rev [0..rdv - 1]) ko }"

text \<open>One pixel: read its bin, store it in the support, remove it from every projection.\<close>

definition inverse_pixel ::
  "int \<Rightarrow> int \<Rightarrow> int list \<Rightarrow> int list \<Rightarrow> int \<Rightarrow> int \<Rightarrow> u64 list \<times> prj64 list
   \<Rightarrow> (u64 list \<times> prj64 list) option"
where
  "inverse_pixel rows cols k_offsets offsets k l = (\<lambda>(support, prjs). do {
     kl \<leftarrow> arr_get k_offsets l;
     pr \<leftarrow> arr_get prjs l;
     off \<leftarrow> arr_get offsets l;
     bin \<leftarrow> arr_get (bins pr) ((k + kl) * prj_q pr + l * prj_p pr - off);
     support \<leftarrow> arr_set support (l * cols + k + kl) bin;
     prjs \<leftarrow> foldM (\<lambda>i prjs. do {
         updated \<leftarrow> arr_get prjs i;
         updated \<leftarrow> do {
           off \<leftarrow> arr_get offsets i;
           bs \<leftarrow> xor_at (bins updated) ((k + kl) * prj_q updated + l * prj_p updated - off) bin;
           Some (updated\<lparr>bins := bs\<rparr>) };
         arr_set prjs i updated }) [0..rows - 1] prjs;
     Some (support, prjs) })"

text \<open>
  The two row loops at one \<open>k\<close>: up to the rendez-vous row, then down to it; \<open>guard\<close> is the
  condition under which the phase treats row \<open>l\<close>.
\<close>

definition inverse_column ::
  "(int \<Rightarrow> bool) \<Rightarrow> int \<Rightarrow> int \<Rightarrow> int \<Rightarrow> int list \<Rightarrow> int list \<Rightarrow> int \<Rightarrow> u64 list \<times> prj64 list
   \<Rightarrow> (u64 list \<times> prj64 list) option"
where
  "inverse_column guard rdv rows cols k_offsets offsets k st = do {
     st \<leftarrow> foldM (\<lambda>l st. do { kl \<leftarrow> arr_get k_offsets l;
         if guard (k + kl) then inverse_pixel rows cols k_offsets offsets k l st else Some st }) [0..rdv - 1] st;
     foldM (\<lambda>l st. do { kl \<leftarrow> arr_get k_offsets l;
         if guard (k + kl) then inverse_pixel rows cols k_offsets offsets k l st else Some st }) (rev [rdv..rows - 1]) st }"

text \<open>The three reconstruction loops: guarded below, unguarded, guarded above.\<close>

definition inverse_reconstruct ::
  "int \<Rightarrow> int \<Rightarrow> int list \<Rightarrow> int list \<Rightarrow> u64 list \<Rightarrow> prj64 list \<Rightarrow> (u64 list \<times> prj64 list) option"
where
  "inverse_reconstruct rows cols ko offsets support prjs = do {
     let rdv = rows - 1;
     k0 \<leftarrow> arr_get ko 0;
     k1 \<leftarrow> arr_get ko (rows - 1);
     let m = max_c k0 k1;
     st \<leftarrow> foldM (inverse_column (\<lambda>c. c \<ge> 0) rdv rows cols ko offsets) [- m..-1] (support, prjs);
     st \<leftarrow> foldM (inverse_column (\<lambda>c. True) rdv rows cols ko offsets) [0..cols - m - 1] st;
     foldM (inverse_column (\<lambda>c. c < cols) rdv rows cols ko offsets) [cols - m..cols - 1] st }"

definition transform_inverse ::
  "u64 list \<Rightarrow> int \<Rightarrow> int \<Rightarrow> int \<Rightarrow> prj64 list \<Rightarrow> (u64 list \<times> prj64 list) option"
where
  "transform_inverse support rows cols np projections = do {
     (if int (length projections) < np then None else Some ());
     let prjs = qsort compare_slope (take (nat np) projections) @ drop (nat np) projections;
     let offsets = map (\<lambda>pr. bin_offset rows (prj_p pr)) (take (nat np) prjs);
     ko \<leftarrow> inverse_k_offsets rows np (map prj_p prjs);
     inverse_reconstruct rows cols ko offsets support prjs }"

text \<open>
  The header's inline copy works on fixed arrays of 1024 offsets instead of allocated ones and is
  otherwise the same code.
\<close>

definition transform_inverse_inline ::
  "u64 list \<Rightarrow> int \<Rightarrow> int \<Rightarrow> int \<Rightarrow> prj64 list \<Rightarrow> (u64 list \<times> prj64 list) option"
where
  "transform_inverse_inline support rows cols np projections = do {
     (if int (length projections) < np \<or> 1024 < np then None else Some ());
     let prjs = qsort compare_slope (take (nat np) projections) @ drop (nat np) projections;
     let offsets = map (\<lambda>pr. bin_offset rows (prj_p pr)) (take (nat np) prjs);
     ko \<leftarrow> inverse_k_offsets rows 1024 (map prj_p prjs);
     inverse_reconstruct rows cols ko offsets support prjs }"

subsection \<open>The forward transform computes XOR sums of lines\<close>

lemma clear_bins_spec:
  assumes "sz \<le> int (length bs)"
  shows "\<exists>bs'. clear_bins sz bs = Some bs' \<and> length bs' = length bs
    \<and> (\<forall>b. 0 \<le> b \<and> b < int (length bs) \<longrightarrow> bs' ! nat b = (if b < sz then 0 else bs ! nat b))"
proof -
  have "clear_bins sz bs = foldM (\<lambda>i ys. do { u \<leftarrow> arr_get ys i; v \<leftarrow> Some 0; arr_set ys i v }) [0..sz - 1] bs"
    unfolding clear_bins_def
    by (rule foldM_cong) (auto simp: arr_get_def arr_set_def)
  then show ?thesis using foldM_arr_update[of sz bs "\<lambda>i u. Some 0" "\<lambda>i. 0"] assms by simp
qed

definition forward_pixel :: "u64 list \<Rightarrow> int \<Rightarrow> int \<Rightarrow> int \<Rightarrow> int \<times> int \<Rightarrow> u64 list \<Rightarrow> u64 list option" where
  "forward_pixel support cols p off x bs =
     do { v \<leftarrow> arr_get support (fst x * cols + snd x); xor_at bs (snd x + fst x * p - off) v }"

lemma forward_row_eq:
  "forward_row support k ppix pbin bs = map_option (\<lambda>bs. (bs, ppix + 8 * int k))
     (foldM (\<lambda>j bs. do { v \<leftarrow> arr_get support (ppix + j); xor_at bs (pbin + j) v }) [0..8 * int k - 1] bs)"
proof (induction k arbitrary: ppix pbin bs)
  case (Suc k)
  have "[0..8 * int (Suc k) - 1] = [0..7] @ map (\<lambda>j. j + 8) [0..8 * int k - 1]"
    using upto_split[of 0 8 "8 * int (Suc k) - 1"] upto_shift[of 0 8 "8 * int k - 1"]
    by (simp add: algebra_simps)
  then show ?case
    by (simp add: Suc.IH forward_chunk_def foldM_append foldM_map algebra_simps map_option_bind
        split: bind_splits)
qed simp

lemma fold_rows_accumulate:
  fixes c :: int
  assumes "\<And>l bs. 0 \<le> l \<Longrightarrow> g l (l * c) bs = map_option (\<lambda>bs. (bs, (l + 1) * c)) (h l bs)"
  shows "foldM (\<lambda>l (bs, ppix). g l ppix bs) [0..int n - 1] (bs, 0) =
     map_option (\<lambda>bs. (bs, int n * c)) (foldM h [0..int n - 1] bs)"
proof (induction n)
  case (Suc n)
  have "[0..int (Suc n) - 1] = [0..int n - 1] @ [int n]" using upto_snoc[of 0 "int n"] by simp
  moreover have "g (int n) (int n * c) bs = map_option (\<lambda>bs. (bs, int (Suc n) * c)) (h (int n) bs)" for bs
    using assms[of "int n" bs] by (simp add: add.commute)
  ultimately show ?case by (simp only: foldM_append Suc.IH) (simp split: bind_splits)
qed simp

lemma forward_rows_eq:
  assumes "cols mod 8 = 0" "0 \<le> cols" "0 \<le> rows"
  shows "forward_rows support rows cols p off bs =
    foldM (forward_pixel support cols p off) (List.product [0..rows - 1] [0..cols - 1]) bs"
proof -
  obtain k where cols: "cols = 8 * int k"
    using assms by (metis dvd_def mod_0_imp_dvd nonneg_int_cases zero_le_mult_iff zero_less_numeral not_less)
  have "foldM (\<lambda>l (bs, ppix). forward_row support (nat (cols div 8)) ppix (l * p - off) bs) [0..int (nat rows) - 1] (bs, 0)
    = map_option (\<lambda>bs. (bs, int (nat rows) * cols)) (foldM (\<lambda>l. foldM (\<lambda>c. forward_pixel support cols p off (l, c)) [0..cols - 1])
        [0..int (nat rows) - 1] bs)"
    by (rule fold_rows_accumulate)
      (simp add: forward_row_eq cols forward_pixel_def[abs_def] algebra_simps)
  then show ?thesis
    using assms(3) by (simp add: forward_rows_def product_concat_map foldM_concat foldM_map option.map_comp comp_def option.map_ident)
qed

lemma forward_rows_spec:
  assumes "cols mod 8 = 0" "0 \<le> cols" "0 \<le> rows" "int (length support) = rows * cols"
    and "cols + \<bar>p\<bar> * (rows - 1) \<le> int (length bs)"
  shows "\<exists>bs'. forward_rows support rows cols p (bin_offset rows p) bs = Some bs' \<and> length bs' = length bs
    \<and> (\<forall>b. 0 \<le> b \<and> b < int (length bs) \<longrightarrow>
         bs' ! nat b = (bs ! nat b) XOR xor_sum (image_of support cols) (on_bin rows cols p b))"
proof -
  let ?xs = "List.product [0..rows - 1] [0..cols - 1]"
  let ?ix = "\<lambda>x. bin_index rows p (fst x) (snd x)"
  have pix: "forward_pixel support cols p (bin_offset rows p) x bs' = xor_at bs' (?ix x) (image_of support cols x)"
    if "x \<in> set ?xs" for x bs'
    using that pixel_address[of "fst x" rows "snd x" cols] assms(4)
    by (simp add: set_pixel_list forward_pixel_def bin_index_def image_of_def arr_get_in pixels_def mem_Times_iff)
  have "0 \<le> ?ix x \<and> ?ix x < int (length bs)" if "x \<in> set ?xs" for x
    using that bin_index_nonneg[of "fst x" rows "snd x" p] bin_index_upper[of "fst x" rows "snd x" cols p] assms(5)
    by (auto simp: set_pixel_list pixels_def)
  from xor_scatter[of ?xs ?ix bs "image_of support cols", OF distinct_pixel_list this]
  obtain bs' where "foldM (\<lambda>x bs. xor_at bs (?ix x) (image_of support cols x)) ?xs bs = Some bs'"
    and "length bs' = length bs"
    and b: "\<forall>b. 0 \<le> b \<and> b < int (length bs) \<longrightarrow>
       bs' ! nat b = (bs ! nat b) XOR xor_sum (image_of support cols) {x \<in> set ?xs. ?ix x = b}" by auto
  moreover have "{x \<in> set ?xs. ?ix x = b} = on_bin rows cols p b" for b
    by (auto simp: set_pixel_list on_bin_def)
  moreover have "forward_rows support rows cols p (bin_offset rows p) bs
      = foldM (\<lambda>x bs. xor_at bs (?ix x) (image_of support cols x)) ?xs bs"
    unfolding forward_rows_eq[OF assms(1-3)] by (rule foldM_cong) (simp_all only: pix)
  ultimately show ?thesis by simp
qed

text \<open>The projection \<open>pr\<close> of the block \<open>support\<close>: each of its bins is the XOR of a line of pixels.\<close>

definition is_projection :: "u64 list \<Rightarrow> int \<Rightarrow> int \<Rightarrow> prj64 \<Rightarrow> bool" where
  "is_projection support rows cols pr \<longleftrightarrow> psize pr \<le> int (length (bins pr)) \<and>
     (\<forall>b. 0 \<le> b \<and> b < psize pr \<longrightarrow>
        bins pr ! nat b = xor_sum (image_of support cols) (on_bin rows cols (prj_p pr) b))"

definition fits :: "int \<Rightarrow> int \<Rightarrow> prj64 \<Rightarrow> bool" where
  "fits rows cols pr \<longleftrightarrow> cols + \<bar>prj_p pr\<bar> * (rows - 1) \<le> psize pr \<and> psize pr \<le> int (length (bins pr))"

lemma transform_forward_projects:
  assumes "cols mod 8 = 0" "0 \<le> cols" "0 \<le> rows" "int (length support) = rows * cols"
    and "length prjs \<le> 1024" and fit: "\<And>pr. pr \<in> set prjs \<Longrightarrow> fits rows cols pr"
  shows "\<exists>prjs'. transform_forward support rows cols (int (length prjs)) prjs = Some prjs'
    \<and> length prjs' = length prjs
    \<and> (\<forall>i < length prjs. angle (prjs' ! i) = angle (prjs ! i) \<and> psize (prjs' ! i) = psize (prjs ! i)
         \<and> length (bins (prjs' ! i)) = length (bins (prjs ! i))
         \<and> is_projection support rows cols (prjs' ! i))"
proof -
  let ?n = "int (length prjs)"
  let ?clear = "\<lambda>(i::int) pr. do { bs \<leftarrow> clear_bins (psize pr) (bins pr); Some (pr\<lparr>bins := bs\<rparr>) }"
  let ?sum = "\<lambda>(i::int) pr. do { bs \<leftarrow> forward_rows support rows cols (prj_p pr) (bin_offset rows (prj_p pr)) (bins pr);
                 Some (pr\<lparr>bins := bs\<rparr>) }"
  define h where "h i = the (?clear i (prjs ! nat i))" for i
  have in1: "fits rows cols (prjs ! nat i)" if "0 \<le> i" "i < ?n" for i
    using fit that by (simp add: nat_less_iff)
  have c: "?clear i (prjs ! nat i) = Some (h i) \<and> angle (h i) = angle (prjs ! nat i)
      \<and> psize (h i) = psize (prjs ! nat i) \<and> length (bins (h i)) = length (bins (prjs ! nat i))
      \<and> (\<forall>b. 0 \<le> b \<and> b < psize (h i) \<longrightarrow> bins (h i) ! nat b = 0)" if "0 \<le> i" "i < ?n" for i
    using in1[OF that] clear_bins_spec[of "psize (prjs ! nat i)" "bins (prjs ! nat i)"]
    by (auto simp: h_def fits_def)
  then obtain ys where ys: "foldM (\<lambda>i prjs. do { pr \<leftarrow> arr_get prjs i; pr \<leftarrow> ?clear i pr; arr_set prjs i pr })
        [0..?n - 1] prjs = Some ys" "length ys = length prjs"
      "\<And>i. 0 \<le> i \<Longrightarrow> i < ?n \<Longrightarrow> ys ! nat i = h i"
    using foldM_arr_update[of ?n prjs ?clear h] by auto
  define g where "g i = the (?sum i (ys ! nat i))" for i
  have s: "?sum i (ys ! nat i) = Some (g i) \<and> angle (g i) = angle (prjs ! nat i)
      \<and> psize (g i) = psize (prjs ! nat i) \<and> length (bins (g i)) = length (bins (prjs ! nat i))
      \<and> is_projection support rows cols (g i)" if "0 \<le> i" "i < ?n" for i
    using c[OF that] in1[OF that] ys(3)[OF that]
      forward_rows_spec[OF assms(1-4), of "prj_p (h i)" "bins (h i)"]
    by (auto simp: g_def fits_def is_projection_def)
  then obtain zs where zs: "foldM (\<lambda>i prjs. do { pr \<leftarrow> arr_get prjs i; pr \<leftarrow> ?sum i pr; arr_set prjs i pr })
        [0..?n - 1] ys = Some zs" "length zs = length prjs"
      "\<And>i. 0 \<le> i \<Longrightarrow> i < ?n \<Longrightarrow> zs ! nat i = g i"
    using foldM_arr_update[of ?n ys ?sum g] ys(2) by auto
  have "zs ! i = g (int i)" if "i < length prjs" for i using zs(3)[of "int i"] that by simp
  then show ?thesis
    using ys(1) zs(1,2) s assms(1,5) by (auto simp: transform_forward_def)
qed

subsection \<open>The decoder's column offsets\<close>

lemma max_c_eq [simp]: "max_c = max"
  by (simp add: fun_eq_iff max_c_def)

lemma s_sums_eq:
  assumes "int n + 1 \<le> int (length ps)"
  shows "foldM (\<lambda>i (s_minus, s_plus). do { p \<leftarrow> arr_get ps i; Some (s_minus + max 0 (- p), s_plus + max 0 p) })
      [1..int n] (0, 0) = Some (\<Sum>j\<in>{1..int n}. max 0 (- (ps ! nat j)), \<Sum>j\<in>{1..int n}. max 0 (ps ! nat j))"
  using assms
proof (induction n)
  case (Suc n)
  have "[1..int (Suc n)] = [1..int n] @ [int (Suc n)]" using upto_snoc[of 1 "int (Suc n)"] by simp
  moreover have "{1..int (Suc n)} = insert (int (Suc n)) {1..int n}" by auto
  ultimately show ?case using Suc by (simp add: foldM_append arr_get_in add.commute del: of_nat_Suc)
qed simp

lemma k_offset_descent:
  assumes "int m < rows" "rows \<le> int (length ps)" "rows \<le> int (length ko)"
    and "\<And>l. int m \<le> l \<Longrightarrow> l < rows \<Longrightarrow> ko ! nat l = koff rows (\<lambda>l. ps ! nat l) l"
  shows "\<exists>ko'. foldM (\<lambda>i ko. do { k \<leftarrow> arr_get ko (i + 1); p \<leftarrow> arr_get ps (i + 1); arr_set ko i (k + p) })
      (rev [0..int m - 1]) ko = Some ko' \<and> length ko' = length ko
    \<and> (\<forall>l. 0 \<le> l \<and> l < rows \<longrightarrow> ko' ! nat l = koff rows (\<lambda>l. ps ! nat l) l)"
  using assms
proof (induction m arbitrary: ko)
  case (Suc m)
  let ?k = "koff rows (\<lambda>l. ps ! nat l)"
  have rev: "rev [0..int m] = int m # rev [0..int m - 1]" using upto_snoc[of 0 "int m"] by simp
  have step: "?k (int m) = ?k (int m + 1) + ps ! nat (int m + 1)" using Suc.prems(1) by (intro koff_step) simp
  have "ko ! nat (int m + 1) = ?k (int m + 1)" using Suc.prems(4)[of "int m + 1"] Suc.prems(1) by simp
  then have "do { k \<leftarrow> arr_get ko (int m + 1); p \<leftarrow> arr_get ps (int m + 1); arr_set ko (int m) (k + p) }
      = Some (ko[m := ?k (int m)])"
    using Suc.prems step by (simp add: arr_get_in arr_set_in)
  moreover have "(ko[m := ?k (int m)]) ! nat l = ?k l" if "int m \<le> l" "l < rows" for l
    using that Suc.prems by (cases "l = int m") (auto simp: nth_list_update nat_eq_iff)
  ultimately show ?case using Suc.IH[of "ko[m := ?k (int m)]"] Suc.prems(1-3) by (simp add: rev)
qed simp

lemma inverse_k_offsets_eq:
  assumes "0 < rows" "rows \<le> np" "rows \<le> int (length ps)"
  shows "\<exists>ko. inverse_k_offsets rows np ps = Some ko \<and> length ko = nat np
    \<and> (\<forall>l. 0 \<le> l \<and> l < rows \<longrightarrow> ko ! nat l = koff rows (\<lambda>l. ps ! nat l) l)"
proof -
  let ?pa = "\<lambda>l. ps ! nat l"
  let ?ko = "(replicate (nat np) 0)[nat (rows - 1) := koff rows ?pa (rows - 1)]"
  have sums: "foldM (\<lambda>i (s_minus, s_plus). do { p \<leftarrow> arr_get ps i; Some (s_minus + max 0 (- p), s_plus + max 0 p) })
      [1..rows - 2] (0, 0) = Some (\<Sum>j\<in>{1..rows - 2}. max 0 (- ?pa j), \<Sum>j\<in>{1..rows - 2}. max 0 (?pa j))"
    using s_sums_eq[of "nat (rows - 2)" ps] assms by (cases "rows = 1") simp_all
  have rdv: "?ko ! nat l = koff rows ?pa l" if "int (nat (rows - 1)) \<le> l" "l < rows" for l
  proof -
    have "l = rows - 1" using that assms(1) by linarith
    then show ?thesis using assms by simp
  qed
  from k_offset_descent[of "nat (rows - 1)" rows ps ?ko] rdv assms
  obtain ko where ko: "foldM (\<lambda>i ko. do { k \<leftarrow> arr_get ko (i + 1); p \<leftarrow> arr_get ps (i + 1); arr_set ko i (k + p) })
      (rev [0..rows - 2]) ?ko = Some ko" "length ko = nat np"
    "\<forall>l. 0 \<le> l \<and> l < rows \<longrightarrow> ko ! nat l = koff rows ?pa l"
    by auto
  then show ?thesis
    using assms by (simp add: inverse_k_offsets_def sums arr_get_in arr_set_in koff_def koff_rdv_def Let_def)
qed

subsection \<open>The decoder recovers the block\<close>

definition inverse_inv ::
  "int \<Rightarrow> int \<Rightarrow> (int \<times> int \<Rightarrow> u64) \<Rightarrow> prj64 list \<Rightarrow> nat \<Rightarrow> (int \<times> int) set
   \<Rightarrow> u64 list \<times> prj64 list \<Rightarrow> bool"
where
  "inverse_inv R C f prjs0 len D = (\<lambda>(supp, prjs). length supp = len \<and> length prjs = length prjs0
     \<and> (\<forall>i. 0 \<le> i \<and> i < int (length prjs0) \<longrightarrow> angle (prjs ! nat i) = angle (prjs0 ! nat i)
          \<and> length (bins (prjs ! nat i)) = length (bins (prjs0 ! nat i)))
     \<and> bins_ok R C (\<lambda>l. prj_p (prjs0 ! nat l)) f D (\<lambda>l b. bins (prjs ! nat l) ! nat b)
     \<and> support_ok C f D supp)"

text \<open>What the decoder may assume of its working arrays at each pixel.\<close>

definition inverse_setup :: "int \<Rightarrow> int \<Rightarrow> prj64 list \<Rightarrow> int list \<Rightarrow> int list \<Rightarrow> bool" where
  "inverse_setup R C prjs ko offs \<longleftrightarrow>
     dec_angles R (\<lambda>l. prj_p (prjs ! nat l)) \<and>
     R \<le> int (length prjs) \<and> R \<le> int (length ko) \<and> R \<le> int (length offs) \<and>
     (\<forall>l. 0 \<le> l \<and> l < R \<longrightarrow>
        ko ! nat l = koff R (\<lambda>l. prj_p (prjs ! nat l)) l \<and>
        offs ! nat l = bin_offset R (prj_p (prjs ! nat l)) \<and>
        prj_q (prjs ! nat l) = 1 \<and>
        C + \<bar>prj_p (prjs ! nat l)\<bar> * (R - 1) \<le> int (length (bins (prjs ! nat l))))"

lemma inverse_update_loop:
  assumes su: "inverse_setup R C prjs0 ko offs" and inv: "inverse_inv R C f prjs0 len D (supp, prjs)"
    and x: "(l, c) \<in> pixels R C"
  defines "ix \<equiv> \<lambda>i. bin_index R (prj_p (prjs0 ! nat i)) l c"
  shows "\<exists>prjs'. foldM (\<lambda>i prjs. do { u \<leftarrow> arr_get prjs i;
        u \<leftarrow> do { off \<leftarrow> arr_get offs i; bs \<leftarrow> xor_at (bins u) (c * prj_q u + l * prj_p u - off) v; Some (u\<lparr>bins := bs\<rparr>) };
        arr_set prjs i u }) [0..R - 1] prjs = Some prjs'
    \<and> length prjs' = length prjs
    \<and> (\<forall>i. 0 \<le> i \<and> i < int (length prjs) \<longrightarrow> prjs' ! nat i = (if i < R then (prjs ! nat i)\<lparr>bins :=
          (bins (prjs ! nat i))[nat (ix i) := (bins (prjs ! nat i) ! nat (ix i)) XOR v]\<rparr> else prjs ! nat i))"
proof (rule foldM_arr_update)
  have lens: "length prjs = length prjs0" using inv by (simp add: inverse_inv_def)
  then show "R \<le> int (length prjs)" using su by (simp add: inverse_setup_def)
  fix i assume i: "0 \<le> i" "i < R"
  then have eq: "angle (prjs ! nat i) = angle (prjs0 ! nat i)" "prj_q (prjs0 ! nat i) = 1"
    "offs ! nat i = bin_offset R (prj_p (prjs0 ! nat i))" "i < int (length offs)"
    "length (bins (prjs ! nat i)) = length (bins (prjs0 ! nat i))"
    using inv su by (auto simp: inverse_inv_def inverse_setup_def)
  have "0 \<le> ix i" "ix i < int (length (bins (prjs ! nat i)))"
    using x i bin_index_nonneg[of l R c "prj_p (prjs0 ! nat i)"] bin_index_upper[of l R c C "prj_p (prjs0 ! nat i)"]
      su eq(5) by (auto simp: inverse_setup_def ix_def)
  then show "do { off \<leftarrow> arr_get offs i;
        bs \<leftarrow> xor_at (bins (prjs ! nat i)) (c * prj_q (prjs ! nat i) + l * prj_p (prjs ! nat i) - off) v;
        Some ((prjs ! nat i)\<lparr>bins := bs\<rparr>) } = Some ((prjs ! nat i)\<lparr>bins :=
          (bins (prjs ! nat i))[nat (ix i) := (bins (prjs ! nat i) ! nat (ix i)) XOR v]\<rparr>)"
    using i eq by (simp add: arr_get_in xor_at_in bin_index_def ix_def)
qed

lemma inverse_pixel_step:
  fixes prjs0 :: "prj64 list" and R :: int
  defines "pa \<equiv> \<lambda>l. prj_p (prjs0 ! nat l)"
  assumes su: "inverse_setup R C prjs0 ko offs" and path: "mojette_path R C pa = pre @ (k, l) # post"
    and len: "int len = R * C"
    and inv: "inverse_inv R C f prjs0 len (pixel_at R pa ` set pre) st"
  shows "\<exists>st'. inverse_pixel R C ko offs k l st = Some st'
    \<and> inverse_inv R C f prjs0 len (pixel_at R pa ` set (pre @ [(k, l)])) st'"
proof -
  obtain supp prjs where st: "st = (supp, prjs)" by fastforce
  define c where "c = k + koff R pa l"
  let ?D = "pixel_at R pa ` set pre" and ?m = "\<lambda>l b. bins (prjs ! nat l) ! nat b"
  have dec: "dec_angles R pa" using su by (simp add: inverse_setup_def pa_def)
  have x: "(l, c) \<in> pixels R C" using mem_mojette_path[OF dec, of k l C] path by (simp add: c_def)
  have new: "(l, c) \<notin> ?D" using path_not_before[OF path] by (simp add: pixel_at_def c_def)
  have D: "?D \<subseteq> pixels R C" using pixel_at_path[OF dec, of C] path by auto
  have lens: "length supp = len" "length prjs = length prjs0" and ok: "bins_ok R C pa f ?D ?m"
    using inv by (auto simp: inverse_inv_def st pa_def)
  have rd: "?m l (bin_index R (pa l) l c) = f (l, c)" using bins_ok_read[OF dec path ok] by (simp add: c_def)
  obtain prjs' where upd: "foldM (\<lambda>i prjs. do { u \<leftarrow> arr_get prjs i;
        u \<leftarrow> do { off \<leftarrow> arr_get offs i; bs \<leftarrow> xor_at (bins u) (c * prj_q u + l * prj_p u - off) (f (l, c)); Some (u\<lparr>bins := bs\<rparr>) };
        arr_set prjs i u }) [0..R - 1] prjs = Some prjs'" "length prjs' = length prjs"
    "\<And>i. 0 \<le> i \<Longrightarrow> i < int (length prjs) \<Longrightarrow> prjs' ! nat i = (if i < R then (prjs ! nat i)\<lparr>bins :=
          (bins (prjs ! nat i))[nat (bin_index R (pa i) l c) := ?m i (bin_index R (pa i) l c) XOR f (l, c)]\<rparr> else prjs ! nat i)"
    using inverse_update_loop[OF su _ x, of f len ?D supp prjs "f (l, c)"] inv
    unfolding st pa_def by auto
  have idx: "0 \<le> bin_index R (pa i) l c" "bin_index R (pa i) l c < int (length (bins (prjs ! nat i)))"
    if "0 \<le> i" "i < R" for i
    using x that bin_index_nonneg[of l R c "pa i"] bin_index_upper[of l R c C "pa i"] su inv
    by (auto simp: inverse_setup_def inverse_inv_def pa_def st)
  have "0 \<le> l * C + c" "l * C + c < int (length supp)"
    using pixel_address[of l R c C] x len lens by auto
  then have body: "inverse_pixel R C ko offs k l st = Some (supp[nat (l * C + c) := f (l, c)], prjs')"
    using x upd(1) rd idx[of l] su inv lens
    by (auto simp: inverse_setup_def inverse_inv_def st inverse_pixel_def arr_get_in arr_set_in bin_index_def pa_def c_def add.assoc)
  have "bins_ok R C pa f (insert (l, c) ?D) (\<lambda>l b. bins (prjs' ! nat l) ! nat b)"
  proof (rule bins_ok_step[OF ok x new])
    fix l2 c2 assume "(l2, c2) \<in> pixels R C"
    then have "0 \<le> l2" "l2 < R" "0 \<le> bin_index R (pa l2) l2 c2"
      using bin_index_nonneg[of l2 R c2 "pa l2"] by auto
    then show "bins (prjs' ! nat l2) ! nat (bin_index R (pa l2) l2 c2) =
        (if bin_index R (pa l2) l c = bin_index R (pa l2) l2 c2
         then ?m l2 (bin_index R (pa l2) l2 c2) XOR f (l, c) else ?m l2 (bin_index R (pa l2) l2 c2))"
      using idx[of l2] upd(3)[of l2] su lens by (auto simp: inverse_setup_def nth_list_update eq_nat_nat_iff)
  qed
  moreover have "support_ok C f (insert (l, c) ?D) (supp[nat (l * C + c) := f (l, c)])"
    using inv lens len by (intro support_ok_step[OF _ D x]) (simp_all add: inverse_inv_def st)
  ultimately have "inverse_inv R C f prjs0 len (insert (l, c) ?D) (supp[nat (l * C + c) := f (l, c)], prjs')"
    using lens upd(2,3) inv by (auto simp: inverse_inv_def st pa_def)
  then show ?thesis using body by (simp add: pixel_at_def c_def)
qed

lemma inverse_column_eq:
  assumes "0 < rows"
  shows "inverse_column guard (rows - 1) rows cols ko offs k =
     foldM (\<lambda>l st. do { kl \<leftarrow> arr_get ko l; if guard (k + kl) then inverse_pixel rows cols ko offs k l st else Some st })
       [0..rows - 1]"
proof
  have "[0..rows - 1] = [0..rows - 1 - 1] @ rev [rows - 1..rows - 1]"
    using assms upto_snoc[of 0 "rows - 1"] by simp
  then show "inverse_column guard (rows - 1) rows cols ko offs k st = foldM (\<lambda>l st. do { kl \<leftarrow> arr_get ko l;
      if guard (k + kl) then inverse_pixel rows cols ko offs k l st else Some st }) [0..rows - 1] st" for st
    by (simp add: inverse_column_def foldM_append)
qed

lemma inverse_column_phase:
  assumes su: "inverse_setup R C prjs ko offs" "0 < R"
    and guard: "\<And>k l. k \<in> set ks \<Longrightarrow> 0 \<le> l \<Longrightarrow> l < R \<Longrightarrow>
      guard (k + koff R (\<lambda>l. prj_p (prjs ! nat l)) l)
        = (0 \<le> k + koff R (\<lambda>l. prj_p (prjs ! nat l)) l \<and> k + koff R (\<lambda>l. prj_p (prjs ! nat l)) l < C)"
  shows "foldM (inverse_column guard (R - 1) R C ko offs) ks st =
    foldM (\<lambda>k. foldM (\<lambda>l st. if 0 \<le> k + koff R (\<lambda>l. prj_p (prjs ! nat l)) l
        \<and> k + koff R (\<lambda>l. prj_p (prjs ! nat l)) l < C then inverse_pixel R C ko offs k l st else Some st) [0..R - 1]) ks st"
proof (rule foldM_cong)
  fix k st assume k: "k \<in> set ks"
  show "inverse_column guard (R - 1) R C ko offs k st = foldM (\<lambda>l st. if 0 \<le> k + koff R (\<lambda>l. prj_p (prjs ! nat l)) l
      \<and> k + koff R (\<lambda>l. prj_p (prjs ! nat l)) l < C then inverse_pixel R C ko offs k l st else Some st) [0..R - 1] st"
    unfolding inverse_column_eq[OF su(2)]
    by (rule foldM_cong) (use su k guard in \<open>auto simp: inverse_setup_def arr_get_in\<close>)
qed simp_all

lemma foldM_mojette_path:
  "foldM (\<lambda>k. foldM (\<lambda>l st. if 0 \<le> k + koff R pa l \<and> k + koff R pa l < C then g k l st else Some st) [0..R - 1])
     [- kmax R pa..C - 1] st = foldM (\<lambda>x. g (fst x) (snd x)) (mojette_path R C pa) st"
  by (simp add: mojette_path_def foldM_concat foldM_map foldM_filter)

lemma kmax_nonneg: "0 < R \<Longrightarrow> 0 \<le> kmax R pa"
  using koff_nonneg[of 0 R pa] by (simp add: kmax_def)

text \<open>The three phases of the decoder together walk the reconstruction path.\<close>

lemma three_phases:
  fixes prjs :: "prj64 list"
  defines "pa \<equiv> \<lambda>l. prj_p (prjs ! nat l)"
  assumes su: "inverse_setup R C prjs ko offs" "0 < R" and M: "kmax R pa \<le> C"
  shows "do { st \<leftarrow> foldM (inverse_column (\<lambda>c. c \<ge> 0) (R - 1) R C ko offs) [- kmax R pa..-1] st;
      st \<leftarrow> foldM (inverse_column (\<lambda>c. True) (R - 1) R C ko offs) [0..C - kmax R pa - 1] st;
      foldM (inverse_column (\<lambda>c. c < C) (R - 1) R C ko offs) [C - kmax R pa..C - 1] st }
    = foldM (\<lambda>x. inverse_pixel R C ko offs (fst x) (snd x)) (mojette_path R C pa) st"
proof -
  let ?M = "kmax R pa"
  let ?col = "\<lambda>k. foldM (\<lambda>l st. if 0 \<le> k + koff R pa l \<and> k + koff R pa l < C
      then inverse_pixel R C ko offs k l st else Some st) [0..R - 1]"
  have dec: "dec_angles R pa" using su by (simp add: inverse_setup_def pa_def)
  note ko = koff_nonneg[of _ R pa] koff_le_kmax[OF dec]
  note phase = inverse_column_phase[OF su, folded pa_def]
  have "[- ?M..C - 1] = [- ?M..-1] @ [0..C - ?M - 1] @ [C - ?M..C - 1]"
    using upto_split[of "- ?M" 0 "C - 1"] upto_split[of 0 "C - ?M" "C - 1"] M kmax_nonneg[OF su(2), of pa] by simp
  then have "foldM ?col [- ?M..C - 1] st = do { st \<leftarrow> foldM ?col [- ?M..-1] st;
      st \<leftarrow> foldM ?col [0..C - ?M - 1] st; foldM ?col [C - ?M..C - 1] st }"
    by (simp add: foldM_append Option.bind_assoc)
  moreover have "foldM (inverse_column (\<lambda>c. c \<ge> 0) (R - 1) R C ko offs) [- ?M..-1] st = foldM ?col [- ?M..-1] st" for st
    by (rule phase) (use ko M in fastforce)
  moreover have "foldM (inverse_column (\<lambda>c. True) (R - 1) R C ko offs) [0..C - ?M - 1] st = foldM ?col [0..C - ?M - 1] st" for st
    by (rule phase) (use ko in fastforce)
  moreover have "foldM (inverse_column (\<lambda>c. c < C) (R - 1) R C ko offs) [C - ?M..C - 1] st = foldM ?col [C - ?M..C - 1] st" for st
    by (rule phase) (use ko M in fastforce)
  ultimately show ?thesis by (simp only: foldM_mojette_path)
qed

lemma inverse_path_recovers:
  fixes prjs :: "prj64 list"
  defines "pa \<equiv> \<lambda>l. prj_p (prjs ! nat l)"
  assumes su: "inverse_setup R C prjs ko offs" and len: "int (length supp0) = R * C"
    and ok: "bins_ok R C pa f {} (\<lambda>l b. bins (prjs ! nat l) ! nat b)"
  shows "\<exists>supp prjs'. foldM (\<lambda>x. inverse_pixel R C ko offs (fst x) (snd x)) (mojette_path R C pa) (supp0, prjs)
      = Some (supp, prjs') \<and> length supp = length supp0 \<and> support_ok C f (pixels R C) supp"
proof -
  have dec: "dec_angles R pa" using su by (simp add: inverse_setup_def pa_def)
  have "\<exists>st. foldM (\<lambda>x. inverse_pixel R C ko offs (fst x) (snd x)) (mojette_path R C pa) (supp0, prjs) = Some st
    \<and> inverse_inv R C f prjs (length supp0) (pixel_at R pa ` set (mojette_path R C pa)) st"
  proof (rule foldM_invariant[where I = "\<lambda>pre. inverse_inv R C f prjs (length supp0) (pixel_at R pa ` set pre)"])
    show "inverse_inv R C f prjs (length supp0) (pixel_at R pa ` set []) (supp0, prjs)"
      using ok by (simp add: inverse_inv_def support_ok_def pa_def)
    show "\<exists>t'. inverse_pixel R C ko offs (fst x) (snd x) t = Some t'
        \<and> inverse_inv R C f prjs (length supp0) (pixel_at R pa ` set (pre @ [x])) t'"
      if "mojette_path R C pa = pre @ x # post" "inverse_inv R C f prjs (length supp0) (pixel_at R pa ` set pre) t"
      for pre x post t
      using inverse_pixel_step[OF su _ len, of pre "fst x" "snd x" post f t] that unfolding pa_def by simp
  qed
  then show ?thesis by (auto simp: inverse_inv_def pixel_at_path[OF dec])
qed

subsection \<open>Sorting by slope\<close>

lemma mset_qsort [simp]: "mset (qsort cmp xs) = mset xs"
proof -
  have "mset (qsort_insert cmp x ys) = add_mset x (mset ys)" for x and ys :: "'a list"
    by (induction ys) auto
  then show ?thesis by (induction xs) (simp_all add: qsort_def)
qed

lemma set_qsort [simp]: "set (qsort cmp xs) = set xs"
  by (metis mset_qsort set_mset_mset)

lemma length_qsort [simp]: "length (qsort cmp xs) = length xs"
  by (metis mset_qsort size_mset)

lemma qsort_sorted:
  fixes key :: "'a \<Rightarrow> 'b::linorder"
  assumes "\<And>x y. x \<in> set xs \<Longrightarrow> y \<in> set xs \<Longrightarrow> (cmp x y \<le> 0) = (key y \<le> key x)"
  shows "sorted_wrt (\<lambda>x y. key y \<le> key x) (qsort cmp xs)"
  using assms
proof (induction xs)
  case (Cons x xs)
  have "sorted_wrt (\<lambda>x y. key y \<le> key x) (qsort_insert cmp x ys)"
    if "sorted_wrt (\<lambda>x y. key y \<le> key x) ys" "set ys \<subseteq> set xs" for ys
    using that
  proof (induction ys)
    case (Cons y ys)
    have "set (qsort_insert cmp x ys) = insert x (set ys)" by (induction ys) auto
    then show ?case using Cons \<open>\<And>a b. a \<in> set (x # xs) \<Longrightarrow> b \<in> set (x # xs) \<Longrightarrow> (cmp a b \<le> 0) = (key b \<le> key a)\<close>
      by auto
  qed simp
  then show ?case using Cons set_qsort[of cmp xs] by (simp add: qsort_def)
qed (simp add: qsort_def)

lemma qsort_slope_angles:
  assumes "\<And>pr. pr \<in> set prjs \<Longrightarrow> prj_q pr = 1"
  shows "map prj_p (qsort compare_slope prjs) = rev (sort (map prj_p prjs))"
proof -
  have "sorted_wrt (\<lambda>x y. prj_p y \<le> prj_p x) (qsort compare_slope prjs)"
    by (rule qsort_sorted) (use assms in \<open>auto simp: compare_slope_def Let_def\<close>)
  then have "sorted (rev (map prj_p (qsort compare_slope prjs)))"
    by (simp add: sorted_wrt_rev sorted_wrt_map)
  moreover have "mset (rev (map prj_p (qsort compare_slope prjs))) = mset (map prj_p prjs)" by simp
  ultimately have "sort (map prj_p prjs) = rev (map prj_p (qsort compare_slope prjs))"
    by (metis properties_for_sort)
  then show ?thesis by simp
qed

lemma dec_angles_sorted:
  assumes "distinct ps" "R \<le> int (length ps)"
  shows "dec_angles R (\<lambda>l. rev (sort ps) ! nat l)"
  unfolding dec_angles_def
proof (intro allI impI)
  fix i j :: int assume ij: "0 \<le> i \<and> i < j \<and> j < R"
  have "sorted_wrt (<) (sort ps)" using assms(1) by (simp add: strict_sorted_iff)
  then have "sorted_wrt (\<lambda>x y. y < x) (rev (sort ps))" by (simp add: sorted_wrt_rev)
  then show "rev (sort ps) ! nat j < rev (sort ps) ! nat i"
    by (rule sorted_wrt_nth_less) (use ij assms(2) in auto)
qed

text \<open>Inverse transform of any \<open>rows\<close> projections of distinct slopes gives the block back.\<close>

definition decodable :: "u64 list \<Rightarrow> int \<Rightarrow> int \<Rightarrow> prj64 list \<Rightarrow> bool" where
  "decodable support rows cols prjs \<longleftrightarrow> 0 < rows \<and> 0 < cols \<and> int (length prjs) = rows \<and>
     int (length support) = rows * cols \<and>
     (\<forall>pr\<in>set prjs. prj_q pr = 1 \<and> fits rows cols pr \<and> is_projection support rows cols pr) \<and>
     distinct (map prj_p prjs) \<and> kmax rows (\<lambda>l. rev (sort (map prj_p prjs)) ! nat l) \<le> cols"

lemma sorted_projections_ready:
  fixes prjs :: "prj64 list"
  defines "s \<equiv> qsort compare_slope prjs"
  assumes dp: "decodable support rows cols prjs" and "rows \<le> np"
  shows "\<exists>ko. inverse_k_offsets rows np (map prj_p s) = Some ko \<and> length ko = nat np
    \<and> inverse_setup rows cols s ko (map (\<lambda>pr. bin_offset rows (prj_p pr)) s)
    \<and> kmax rows (\<lambda>l. prj_p (s ! nat l)) \<le> cols
    \<and> bins_ok rows cols (\<lambda>l. prj_p (s ! nat l)) (image_of support cols) {} (\<lambda>l b. bins (s ! nat l) ! nat b)"
proof -
  let ?pa = "\<lambda>l. prj_p (s ! nat l)"
  have r: "0 < rows" "int (length s) = rows" using dp by (auto simp: decodable_def s_def)
  have ok: "prj_q (s ! nat l) = 1 \<and> fits rows cols (s ! nat l) \<and> is_projection support rows cols (s ! nat l)"
    if "0 \<le> l" "l < rows" for l
    using that dp nth_mem[of "nat l" s] r by (auto simp: decodable_def s_def nat_less_iff)
  have "map prj_p s = rev (sort (map prj_p prjs))"
    unfolding s_def by (rule qsort_slope_angles) (use dp in \<open>simp add: decodable_def\<close>)
  moreover have pa: "?pa l = map prj_p s ! nat l" if "0 \<le> l" "l < rows" for l
    using that r by (simp add: nat_less_iff)
  ultimately have "dec_angles rows ?pa"
    using dec_angles_sorted[of "map prj_p prjs" rows] dp by (simp add: dec_angles_def decodable_def)
  moreover obtain ko where ko: "inverse_k_offsets rows np (map prj_p s) = Some ko" "length ko = nat np"
    "\<And>l. 0 \<le> l \<Longrightarrow> l < rows \<Longrightarrow> ko ! nat l = koff rows (\<lambda>l. map prj_p s ! nat l) l"
    using inverse_k_offsets_eq[of rows np "map prj_p s"] r assms(3) by auto
  moreover have kc: "koff rows (\<lambda>l. map prj_p s ! nat l) l = koff rows ?pa l" if "0 \<le> l" for l
    by (rule koff_cong) (use pa that r in auto)
  ultimately have "inverse_setup rows cols s ko (map (\<lambda>pr. bin_offset rows (prj_p pr)) s)"
    using r ok assms(3) by (fastforce simp: inverse_setup_def fits_def nat_less_iff)
  moreover have "kmax rows ?pa \<le> cols"
    using dp kc[of 0] kc[of "rows - 1"] r \<open>map prj_p s = _\<close> by (simp add: kmax_def decodable_def)
  moreover have "bins (s ! nat l) ! nat (bin_index rows (?pa l) l c) =
      xor_sum (image_of support cols) (on_bin rows cols (?pa l) (bin_index rows (?pa l) l c))"
    if "(l, c) \<in> pixels rows cols" for l c
    using that ok[of l] bin_index_nonneg[of l rows c "?pa l"] bin_index_upper[of l rows c cols "?pa l"]
    by (simp add: is_projection_def fits_def)
  ultimately show ?thesis using ko by (auto simp: bins_ok_def)
qed

lemma inverse_reconstruct_recovers:
  assumes su: "inverse_setup R C prjs ko offs" "0 < R" "0 < C" "int (length out) = R * C" "int (length support) = R * C"
    and ok: "bins_ok R C (\<lambda>l. prj_p (prjs ! nat l)) (image_of support C) {} (\<lambda>l b. bins (prjs ! nat l) ! nat b)"
    and M: "kmax R (\<lambda>l. prj_p (prjs ! nat l)) \<le> C"
  shows "\<exists>prjs'. inverse_reconstruct R C ko offs out prjs = Some (support, prjs')"
proof -
  obtain supp prjs' where run: "foldM (\<lambda>x. inverse_pixel R C ko offs (fst x) (snd x))
      (mojette_path R C (\<lambda>l. prj_p (prjs ! nat l))) (out, prjs) = Some (supp, prjs')"
    "length supp = length out" "support_ok C (image_of support C) (pixels R C) supp"
    using inverse_path_recovers[OF su(1,4) ok] by blast
  have "supp = support" using support_ok_all[OF run(3), of support] run(2) su(2-5) by simp
  moreover have "arr_get ko 0 = Some (koff R (\<lambda>l. prj_p (prjs ! nat l)) 0)"
    "arr_get ko (R - 1) = Some (koff R (\<lambda>l. prj_p (prjs ! nat l)) (R - 1))"
    using su(1,2) by (auto simp: inverse_setup_def arr_get_def)
  ultimately show ?thesis
    using three_phases[OF su(1,2) M, of "(out, prjs)"] run(1)
    by (simp add: inverse_reconstruct_def Let_def kmax_def)
qed

lemma transform_inverse_recovers:
  assumes dp: "decodable support rows cols prjs" and "int (length out) = rows * cols"
  shows "\<exists>prjs'. transform_inverse out rows cols rows prjs = Some (support, prjs')"
proof -
  have r: "0 < rows" "0 < cols" "rows = int (length prjs)" "int (length support) = rows * cols"
    using dp by (auto simp: decodable_def)
  obtain ko where ko: "inverse_k_offsets rows rows (map prj_p (qsort compare_slope prjs)) = Some ko"
    and rec: "\<exists>prjs'. inverse_reconstruct rows cols ko (map (\<lambda>pr. bin_offset rows (prj_p pr)) (qsort compare_slope prjs))
       out (qsort compare_slope prjs) = Some (support, prjs')"
    using sorted_projections_ready[OF dp, of rows] inverse_reconstruct_recovers[OF _ r(1,2) assms(2) r(4)] by blast
  then show ?thesis using r by (simp add: transform_inverse_def Let_def)
qed

lemma transform_inverse_inline_recovers:
  assumes dp: "decodable support rows cols prjs" and "int (length out) = rows * cols" and "length prjs \<le> 1024"
  shows "\<exists>prjs'. transform_inverse_inline out rows cols rows prjs = Some (support, prjs')"
proof -
  have r: "0 < rows" "0 < cols" "rows = int (length prjs)" "int (length support) = rows * cols" "rows \<le> 1024"
    using dp assms(3) by (auto simp: decodable_def)
  obtain ko where ko: "inverse_k_offsets rows 1024 (map prj_p (qsort compare_slope prjs)) = Some ko"
    and rec: "\<exists>prjs'. inverse_reconstruct rows cols ko (map (\<lambda>pr. bin_offset rows (prj_p pr)) (qsort compare_slope prjs))
       out (qsort compare_slope prjs) = Some (support, prjs')"
    using sorted_projections_ready[OF dp r(5)] inverse_reconstruct_recovers[OF _ r(1,2) assms(2) r(4)] by blast
  then show ?thesis using r by (simp add: transform_inverse_inline_def Let_def)
qed

text \<open>
  C27. Erasure-code round trip of the 64-bit codec: encode a block into any number of projections
  with \<^const>\<open>transform_forward\<close>, keep any \<open>rows\<close> of them with pairwise distinct slopes, in any
  order, and both \<^const>\<open>transform_inverse\<close> and its inline copy give the block back, whatever the
  output buffer held. No call accesses an array out of its bounds.
\<close>

theorem transform_roundtrip:
  assumes "0 < rows" "0 < cols" "cols mod 8 = 0" "int (length support) = rows * cols" "int (length out) = rows * cols"
    and "length prjs \<le> 1024" "\<forall>pr\<in>set prjs. prj_q pr = 1 \<and> fits rows cols pr"
    and "int (length sel) = rows" "\<forall>i\<in>set sel. i < length prjs" "distinct (map (\<lambda>i. prj_p (prjs ! i)) sel)"
    and "kmax rows (\<lambda>l. rev (sort (map (\<lambda>i. prj_p (prjs ! i)) sel)) ! nat l) \<le> cols"
  shows "\<exists>prjs'. transform_forward support rows cols (int (length prjs)) prjs = Some prjs'
    \<and> (\<exists>left. transform_inverse out rows cols rows (map ((!) prjs') sel) = Some (support, left))
    \<and> (\<exists>left. transform_inverse_inline out rows cols rows (map ((!) prjs') sel) = Some (support, left))"
proof -
  obtain prjs' where fwd: "transform_forward support rows cols (int (length prjs)) prjs = Some prjs'"
    and ok: "\<And>i. i < length prjs \<Longrightarrow> angle (prjs' ! i) = angle (prjs ! i) \<and> psize (prjs' ! i) = psize (prjs ! i)
       \<and> length (bins (prjs' ! i)) = length (bins (prjs ! i)) \<and> is_projection support rows cols (prjs' ! i)"
    using transform_forward_projects[of cols rows support prjs] assms(1-4,6,7) by auto
  have ang: "map prj_p (map ((!) prjs') sel) = map (\<lambda>i. prj_p (prjs ! i)) sel"
    using ok assms(9) by simp
  have "decodable support rows cols (map ((!) prjs') sel)"
    unfolding decodable_def ang using assms ok by (auto simp: fits_def)
  moreover have "length sel \<le> length prjs"
    using distinct_card[of sel] card_mono[of "{..<length prjs}" "set sel"] assms(9,10) by (auto simp: distinct_map)
  ultimately show ?thesis
    using fwd transform_inverse_recovers[of support rows cols "map ((!) prjs') sel" out]
      transform_inverse_inline_recovers[of support rows cols "map ((!) prjs') sel" out] assms(5,6) by auto
qed

theorem transform_roundtrip_witness:
  "\<exists>prjs'. transform_forward (map word_of_nat [0..<16]) 2 8 3
       (map (\<lambda>p. \<lparr>angle = \<lparr>ang_p = p, ang_q = 1\<rparr>, psize = 9, bins = replicate 9 7\<rparr>) [-1, 0, 1]) = Some prjs'
    \<and> (\<exists>left. transform_inverse (replicate 16 3) 2 8 2 (map ((!) prjs') [2, 0]) = Some (map word_of_nat [0..<16], left))"
proof -
  let ?prjs = "map (\<lambda>p. \<lparr>angle = \<lparr>ang_p = p, ang_q = 1\<rparr>, psize = 9, bins = replicate 9 7\<rparr> :: prj64) [-1, 0, 1]"
  have "kmax 2 (\<lambda>l. rev (sort (map (\<lambda>i. prj_p (?prjs ! i)) [2, 0])) ! nat l) \<le> 8"
    by (simp add: kmax_def koff_def koff_rdv_def)
  then show ?thesis
    using transform_roundtrip[of 2 8 "map word_of_nat [0..<16]" "replicate 16 3" ?prjs "[2, 0]"]
    by (auto simp add: fits_def)
qed

end
