(* ===== verification/Mojette128.thy ===== *)
theory Mojette128
  imports Mojette "HOL-Library.Signed_Division"
begin

text \<open>
  The 128-bit Mojette transform of \<^verbatim>\<open>rozofs/common/mojette_transform128.c\<close>, the codec the storage
  clients and the rebuilder run. A \<^verbatim>\<open>__m128\<close> is a 128-bit word and an array of bins a list of such
  words: the C code always moves by two 64-bit bins at a time, so pixel and bin numbers below count
  128-bit words. The encoder writes only the \<^verbatim>\<open>size\<close> first bins of a projection and drops the
  others. The decoder works on pointers into one flat memory, since its updates may run past the
  end of a projection into its neighbour.
\<close>

type_synonym prj128 = "u128 list projection_t"
type_synonym ptr128 = "int projection_t"

subsection \<open>Forward transform\<close>

primrec forward128_single :: "u128 list \<Rightarrow> nat \<Rightarrow> int \<Rightarrow> int \<Rightarrow> u128 list \<Rightarrow> u128 list option" where
  "forward128_single support 0 ppix pbin bs = Some bs"
| "forward128_single support (Suc k) ppix pbin bs = do {
     v \<leftarrow> arr_get support ppix;
     bs \<leftarrow> xor_at bs pbin v;
     forward128_single support k (ppix + 1) (pbin + 1) bs }"

definition forward128_chunk :: "u128 list \<Rightarrow> int \<Rightarrow> int \<Rightarrow> u128 list \<Rightarrow> u128 list option" where
  "forward128_chunk support ppix pbin bs =
     foldM (\<lambda>j bs. do { v \<leftarrow> arr_get support (ppix + j); xor_at bs (pbin + j) v }) [0..7] bs"

primrec forward128_chunks ::
  "u128 list \<Rightarrow> nat \<Rightarrow> int \<Rightarrow> int \<Rightarrow> u128 list \<Rightarrow> (u128 list \<times> int \<times> int) option"
where
  "forward128_chunks support 0 ppix pbin bs = Some (bs, ppix, pbin)"
| "forward128_chunks support (Suc k) ppix pbin bs = do {
     bs \<leftarrow> forward128_chunk support ppix pbin bs;
     forward128_chunks support k (ppix + 8) (pbin + 8) bs }"

text \<open>One row: at most \<^verbatim>\<open>cols\<close> pixels, and no bin at or beyond \<open>sz\<close>.\<close>

definition forward128_row ::
  "u128 list \<Rightarrow> int \<Rightarrow> int \<Rightarrow> int \<Rightarrow> int \<Rightarrow> int \<Rightarrow> u128 list \<Rightarrow> u128 list option"
where
  "forward128_row support cols sz p off l bs = do {
     let support_idx = 2 * (l * p - off);
     let loop = (2 * sz - support_idx) sdiv 2;
     let loop = (if loop > cols then cols else loop);
     (bs, ppix, pbin) \<leftarrow> forward128_chunks support (nat (loop sdiv 8)) (l * cols) (l * p - off) bs;
     forward128_single support (nat (loop smod 8)) ppix pbin bs }"

definition forward128_rows :: "u128 list \<Rightarrow> int \<Rightarrow> int \<Rightarrow> int \<Rightarrow> int \<Rightarrow> u128 list \<Rightarrow> u128 list option" where
  "forward128_rows support rows cols sz p bs =
     foldM (forward128_row support cols sz p (bin_offset rows p)) [0..rows - 1] bs"

definition transform128_forward ::
  "u128 list \<Rightarrow> int \<Rightarrow> int \<Rightarrow> int \<Rightarrow> prj128 list \<Rightarrow> prj128 list option"
where
  "transform128_forward support rows cols64 np projections = do {
     let cols = cols64 sdiv 2;
     (if np \<le> 1024 then Some () else None);
     projections \<leftarrow> foldM (\<lambda>i prjs. do {
         pr \<leftarrow> arr_get prjs i;
         pr \<leftarrow> do { bs \<leftarrow> clear_bins (psize pr) (bins pr); Some (pr\<lparr>bins := bs\<rparr>) };
         arr_set prjs i pr }) [0..np - 1] projections;
     foldM (\<lambda>i prjs. do {
         pr \<leftarrow> arr_get prjs i;
         pr \<leftarrow> do { bs \<leftarrow> forward128_rows support rows cols (psize pr) (prj_p pr) (bins pr); Some (pr\<lparr>bins := bs\<rparr>) };
         arr_set prjs i pr }) [0..np - 1] projections }"

text \<open>The encoder of one projection has its own copy of the loops.\<close>

primrec one_proj_single :: "u128 list \<Rightarrow> nat \<Rightarrow> int \<Rightarrow> int \<Rightarrow> u128 list \<Rightarrow> u128 list option" where
  "one_proj_single support 0 ppix pbin bs = Some bs"
| "one_proj_single support (Suc k) ppix pbin bs = do {
     v \<leftarrow> arr_get support ppix;
     bs \<leftarrow> xor_at bs pbin v;
     one_proj_single support k (ppix + 1) (pbin + 1) bs }"

primrec one_proj_chunks :: "u128 list \<Rightarrow> nat \<Rightarrow> int \<Rightarrow> int \<Rightarrow> u128 list \<Rightarrow> (u128 list \<times> int \<times> int) option" where
  "one_proj_chunks support 0 ppix pbin bs = Some (bs, ppix, pbin)"
| "one_proj_chunks support (Suc k) ppix pbin bs = do {
     bs \<leftarrow> foldM (\<lambda>j bs. do { v \<leftarrow> arr_get support (ppix + j); xor_at bs (pbin + j) v }) [0, 1, 2, 3, 4, 5, 6, 7] bs;
     one_proj_chunks support k (ppix + 8) (pbin + 8) bs }"

text \<open>One row; the result has the address of the first pixel of the next row.\<close>

definition one_proj_row :: "u128 list \<Rightarrow> int \<Rightarrow> int \<Rightarrow> int \<Rightarrow> int \<Rightarrow> int \<Rightarrow> u128 list \<times> int \<Rightarrow> (u128 list \<times> int) option" where
  "one_proj_row support cols sz p offset l = (\<lambda>(bs, ppix). do {
     let pbin = l * p - offset;
     let support_idx = 2 * (l * p - offset);
     let loop = (2 * sz - support_idx) sdiv 2;
     let loop = (if loop > cols then cols else loop);
     (bs, ppix, pbin) \<leftarrow> one_proj_chunks support (nat (loop sdiv 8)) ppix pbin bs;
     bs \<leftarrow> one_proj_single support (nat (loop smod 8)) ppix pbin bs;
     Some (bs, (l + 1) * cols) })"

definition transform128_forward_one_proj ::
  "u128 list \<Rightarrow> int \<Rightarrow> int \<Rightarrow> u8 \<Rightarrow> prj128 list \<Rightarrow> prj128 list option"
where
  "transform128_forward_one_proj support rows cols64 proj_id projections = do {
     let cols = cols64 sdiv 2;
     pr \<leftarrow> arr_get projections (uint proj_id);
     let offset = (if prj_p pr < 0 then (rows - 1) * prj_p pr else 0);
     bs \<leftarrow> clear_bins (psize pr) (bins pr);
     (bs, _) \<leftarrow> foldM (one_proj_row support cols (psize pr) (prj_p pr) offset) [0..rows - 1] (bs, 0);
     arr_set projections (uint proj_id) (pr\<lparr>bins := bs\<rparr>) }"

subsection \<open>Memory\<close>

text \<open>
  A flat memory of 128-bit cells, addressed in bytes from its start, which is aligned on 16 bytes.
  The vector loads and stores of the C code fault on other alignments.
\<close>

definition mm_load :: "u128 list \<Rightarrow> int \<Rightarrow> u128 option" where
  "mm_load mem a = (if a mod 16 = 0 then arr_get mem (a div 16) else None)"

definition mm_store :: "u128 list \<Rightarrow> int \<Rightarrow> u128 \<Rightarrow> u128 list option" where
  "mm_store mem a v = (if a mod 16 = 0 then arr_set mem (a div 16) v else None)"

definition xor128_1 :: "u128 list \<Rightarrow> int \<Rightarrow> u128 \<Rightarrow> u128 list option" where
  "xor128_1 mem a v = do { w \<leftarrow> mm_load mem a; mm_store mem a (w XOR v) }"

definition memcpy128 :: "u128 list \<Rightarrow> int \<Rightarrow> u128 list \<Rightarrow> int \<Rightarrow> u128 list option" where
  "memcpy128 mem dst src n =
     foldM (\<lambda>j mem. do { v \<leftarrow> arr_get src j; mm_store mem (dst + 16 * j) v }) [0..n - 1] mem"

subsection \<open>Inverse transform\<close>

text \<open>The address of the 128-bit word \<open>x\<close> of a projection: \<^verbatim>\<open>ppbin + 2*x\<close> on \<^verbatim>\<open>uint64_t *ppbin\<close>.\<close>

definition bin_ptr :: "ptr128 \<Rightarrow> int \<Rightarrow> int" where
  "bin_ptr pr x = bins pr + 16 * x"

definition inverse128_pixel ::
  "int \<Rightarrow> int \<Rightarrow> ptr128 list \<Rightarrow> int list \<Rightarrow> int list \<Rightarrow> int \<Rightarrow> int \<Rightarrow> u128 list \<times> u128 list
   \<Rightarrow> (u128 list \<times> u128 list) option"
where
  "inverse128_pixel rows cols prjs k_offsets offsets k l = (\<lambda>(support, mem). do {
     kl \<leftarrow> arr_get k_offsets l;
     pr \<leftarrow> arr_get prjs l;
     off \<leftarrow> arr_get offsets l;
     bin \<leftarrow> mm_load mem (bin_ptr pr ((k + kl) + l * prj_p pr - off));
     support \<leftarrow> arr_set support (l * cols + k + kl) bin;
     mem \<leftarrow> foldM (\<lambda>i mem. if i = l then Some mem else do {
         updated \<leftarrow> arr_get prjs i;
         off \<leftarrow> arr_get offsets i;
         xor128_1 mem (bin_ptr updated ((k + kl) + l * prj_p updated - off)) bin }) [0..rows - 1] mem;
     Some (support, mem) })"

definition inverse128_column ::
  "(int \<Rightarrow> bool) \<Rightarrow> int \<Rightarrow> int \<Rightarrow> ptr128 list \<Rightarrow> int list \<Rightarrow> int list \<Rightarrow> int \<Rightarrow> u128 list \<times> u128 list
   \<Rightarrow> (u128 list \<times> u128 list) option"
where
  "inverse128_column guard rows cols prjs k_offsets offsets k st =
     foldM (\<lambda>l st. do { kl \<leftarrow> arr_get k_offsets l;
       if guard (k + kl) then inverse128_pixel rows cols prjs k_offsets offsets k l st else Some st }) [0..rows - 1] st"

definition inverse128_reconstruct ::
  "int \<Rightarrow> int \<Rightarrow> ptr128 list \<Rightarrow> int list \<Rightarrow> int list \<Rightarrow> u128 list \<Rightarrow> u128 list \<Rightarrow> (u128 list \<times> u128 list) option"
where
  "inverse128_reconstruct rows cols prjs ko offsets support mem = do {
     k0 \<leftarrow> arr_get ko 0;
     k1 \<leftarrow> arr_get ko (rows - 1);
     let m = max_c k0 k1;
     st \<leftarrow> foldM (inverse128_column (\<lambda>c. c \<ge> 0) rows cols prjs ko offsets) [- m..-1] (support, mem);
     st \<leftarrow> foldM (inverse128_column (\<lambda>c. True) rows cols prjs ko offsets) [0..cols - m - 1] st;
     foldM (inverse128_column (\<lambda>c. c < cols) rows cols prjs ko offsets) [cols - m..cols - 1] st }"

definition transform128_inverse ::
  "u128 list \<Rightarrow> int \<Rightarrow> int \<Rightarrow> int \<Rightarrow> ptr128 list \<Rightarrow> u128 list \<Rightarrow> (u128 list \<times> ptr128 list \<times> u128 list) option"
where
  "transform128_inverse support rows cols64 np projections mem = do {
     let cols = cols64 sdiv 2;
     (if int (length projections) < np \<or> 1024 < np then None else Some ());
     let prjs = qsort compare_slope (take (nat np) projections) @ drop (nat np) projections;
     let offsets = map (\<lambda>pr. bin_offset rows (prj_p pr)) (take (nat np) prjs);
     ko \<leftarrow> inverse_k_offsets rows 1024 (map prj_p prjs);
     (support, mem) \<leftarrow> inverse128_reconstruct rows cols prjs ko offsets support mem;
     Some (support, prjs, mem) }"

text \<open>
  \<^verbatim>\<open>transform128_inverse_copy\<close> first copies the projections into a buffer on the stack,
  \<^verbatim>\<open>char buff_all_bins[1024*18]\<close>, at a distance of \<^verbatim>\<open>max_prj_sz_intf + 512\<close> bytes from one another,
  and then runs the code of \<^verbatim>\<open>transform128_inverse\<close> on the copies. \<open>buff\<close> is the buffer with what the
  stack held (1152 cells), \<open>16 * slot\<close> its address.
\<close>

definition copy_projections ::
  "int \<Rightarrow> int \<Rightarrow> prj128 list \<Rightarrow> int \<Rightarrow> u128 list \<Rightarrow> (ptr128 list \<times> u128 list) option"
where
  "copy_projections np max_prj_sz projections start buff =
     foldM (\<lambda>i (prjs, buff). do {
         pr \<leftarrow> arr_get projections i;
         buff \<leftarrow> memcpy128 buff (start + i * max_prj_sz) (bins pr) (psize pr);
         Some (prjs @ [\<lparr>angle = angle pr, psize = psize pr, bins = start + i * max_prj_sz\<rparr>], buff) })
       [0..np - 1] ([], buff)"

definition transform128_inverse_copy ::
  "u128 list \<Rightarrow> int \<Rightarrow> int \<Rightarrow> int \<Rightarrow> prj128 list \<Rightarrow> int \<Rightarrow> int \<Rightarrow> u128 list
   \<Rightarrow> (u128 list \<times> ptr128 list \<times> u128 list) option"
where
  "transform128_inverse_copy support rows cols64 np projections max_prj_sz_intf slot buff = do {
     let max_prj_sz = max_prj_sz_intf + 512;
     let start = ((16 * slot + 64) div 32) * 32 - 16 * slot;
     (prjs, buff) \<leftarrow> copy_projections np max_prj_sz projections start buff;
     transform128_inverse support rows cols64 np prjs buff }"

subsection \<open>The encoder computes the first bins of each projection\<close>

definition forward128_pixel :: "u128 list \<Rightarrow> int \<Rightarrow> int \<Rightarrow> int \<Rightarrow> int \<times> int \<Rightarrow> u128 list \<Rightarrow> u128 list option" where
  "forward128_pixel support cols p off x bs =
     do { v \<leftarrow> arr_get support (fst x * cols + snd x); xor_at bs (snd x + fst x * p - off) v }"

lemma sdiv_two [simp]: "(2 * x) sdiv 2 = x" for x :: int
  by (simp add: signed_divide_int_def abs_mult sgn_mult mult_sgn_abs)

lemma sdiv_nonneg: "0 \<le> n \<Longrightarrow> 0 < d \<Longrightarrow> n sdiv d = n div d" for n d :: int
  by (cases "n = 0") (simp_all add: signed_divide_int_def)

lemma sdiv_smod_eight: "8 * int (nat (n sdiv 8)) + int (nat (n smod 8)) = (if 0 \<le> n then n else 0)" for n :: int
proof (cases "0 \<le> n")
  case True
  then show ?thesis
    by (cases "n = 0") (simp_all add: signed_divide_int_def signed_modulo_int_def pos_imp_zdiv_nonneg_iff)
next
  case False
  then have "n sdiv 8 \<le> 0" "n smod 8 \<le> 0"
    by (simp_all add: signed_divide_int_def signed_modulo_int_def pos_imp_zdiv_nonneg_iff)
  then show ?thesis using False by simp
qed

lemma forward128_chunks_eq:
  "forward128_chunks support k ppix pbin bs = map_option (\<lambda>bs. (bs, ppix + 8 * int k, pbin + 8 * int k))
     (foldM (\<lambda>j bs. do { v \<leftarrow> arr_get support (ppix + j); xor_at bs (pbin + j) v }) [0..8 * int k - 1] bs)"
proof (induction k arbitrary: ppix pbin bs)
  case (Suc k)
  have "[0..8 * int (Suc k) - 1] = [0..7] @ map (\<lambda>j. j + 8) [0..8 * int k - 1]"
    using upto_split[of 0 8 "8 * int (Suc k) - 1"] upto_shift[of 0 8 "8 * int k - 1"]
    by (simp add: algebra_simps)
  then show ?case
    by (simp add: Suc.IH forward128_chunk_def foldM_append foldM_map algebra_simps map_option_bind
        split: bind_splits)
qed simp

lemma forward128_single_eq:
  "forward128_single support k ppix pbin bs =
     foldM (\<lambda>j bs. do { v \<leftarrow> arr_get support (ppix + j); xor_at bs (pbin + j) v }) [0..int k - 1] bs"
proof (induction k arbitrary: ppix pbin bs)
  case (Suc k)
  have "[0..int (Suc k) - 1] = 0 # map (\<lambda>j. j + 1) [0..int k - 1]"
    using upto_split[of 0 1 "int k"] upto_shift[of 0 1 "int k - 1"] by (simp add: upto_rec1)
  then show ?case by (simp add: Suc.IH foldM_map algebra_simps del: of_nat_Suc split: bind_splits)
qed simp

lemma forward128_row_eq:
  assumes "0 \<le> cols"
  shows "forward128_row support cols sz p off l bs =
    foldM (\<lambda>c. forward128_pixel support cols p off (l, c)) (filter (\<lambda>c. c + l * p - off < sz) [0..cols - 1]) bs"
proof -
  define idx where "idx = l * p - off"
  define n where "n = (if sz - idx > cols then cols else sz - idx)"
  define m where "m = (if 0 \<le> n then n else 0)"
  let ?f = "\<lambda>j bs. do { v \<leftarrow> arr_get support (l * cols + j); xor_at bs (idx + j) v }"
  define k r where "k = nat (n sdiv 8)" and "r = nat (n smod 8)"
  have m: "8 * int k + int r = m" using sdiv_smod_eight[of n] by (simp only: m_def k_def r_def)
  have "[0..m - 1] = [0..8 * int k - 1] @ map (\<lambda>j. j + 8 * int k) [0..int r - 1]"
    using upto_split[of 0 "8 * int k" "m - 1"] upto_shift[of 0 "8 * int k" "int r - 1"] m by (simp add: algebra_simps)
  then have "foldM ?f [0..m - 1] bs = do { bs \<leftarrow> foldM ?f [0..8 * int k - 1] bs;
      foldM (\<lambda>j. ?f (8 * int k + j)) [0..int r - 1] bs }"
    by (simp add: foldM_append foldM_map add.commute)
  moreover have "(2 * sz - 2 * idx) sdiv 2 = sz - idx"
    using sdiv_two[of "sz - idx"] by (simp only: right_diff_distrib)
  then have "forward128_row support cols sz p off l bs = do {
      (bs, ppix, pbin) \<leftarrow> forward128_chunks support k (l * cols) idx bs; forward128_single support r ppix pbin bs }"
    by (simp only: forward128_row_def Let_def k_def r_def n_def flip: idx_def)
  ultimately have "forward128_row support cols sz p off l bs = foldM ?f [0..m - 1] bs"
    by (simp add: forward128_chunks_eq forward128_single_eq add.assoc split: bind_splits)
  moreover have "[0..m - 1] = filter (\<lambda>c. c + l * p - off < sz) [0..cols - 1]"
  proof -
    have "[0..cols - 1] = [0..m - 1] @ [m..cols - 1]"
      using assms upto_split[of 0 m "cols - 1"] by (simp add: m_def n_def)
    moreover have "filter (\<lambda>c. c + l * p - off < sz) [0..m - 1] = [0..m - 1]"
      by (rule filter_True) (auto simp: m_def n_def idx_def split: if_splits)
    moreover have "filter (\<lambda>c. c + l * p - off < sz) [m..cols - 1] = []"
      by (rule filter_False) (auto simp: m_def n_def idx_def split: if_splits)
    ultimately show ?thesis by simp
  qed
  ultimately show ?thesis by (simp add: forward128_pixel_def[abs_def] idx_def algebra_simps)
qed

lemma forward128_rows_spec:
  assumes "0 \<le> cols" "0 \<le> rows" "int (length support) = rows * cols" "sz \<le> int (length bs)"
  shows "\<exists>bs'. forward128_rows support rows cols sz p bs = Some bs' \<and> length bs' = length bs
    \<and> (\<forall>b. 0 \<le> b \<and> b < sz \<longrightarrow>
         bs' ! nat b = (bs ! nat b) XOR xor_sum (image_of support cols) (on_bin rows cols p b))"
proof -
  let ?P = "\<lambda>x. bin_index rows p (fst x) (snd x) < sz"
  let ?xs = "filter ?P (List.product [0..rows - 1] [0..cols - 1])"
  let ?ix = "\<lambda>x. bin_index rows p (fst x) (snd x)"
  have set: "set ?xs = {x \<in> pixels rows cols. ?P x}" by (simp only: set_filter set_pixel_list)
  have pix: "forward128_pixel support cols p (bin_offset rows p) x bs' = xor_at bs' (?ix x) (image_of support cols x)"
    if "x \<in> set ?xs" for x bs'
    using that pixel_address[of "fst x" rows "snd x" cols] assms(3) unfolding set
    by (simp add: forward128_pixel_def bin_index_def image_of_def arr_get_in pixels_def mem_Times_iff)
  have "0 \<le> ?ix x \<and> ?ix x < int (length bs)" if "x \<in> set ?xs" for x
    using that bin_index_nonneg[of "fst x" rows "snd x" p] assms(4) unfolding set by (auto simp: pixels_def)
  from xor_scatter[of ?xs ?ix bs "image_of support cols", OF distinct_filter[OF distinct_pixel_list] this]
  obtain bs' where bs': "foldM (\<lambda>x bs. xor_at bs (?ix x) (image_of support cols x)) ?xs bs = Some bs'"
    "length bs' = length bs"
    "\<And>b. 0 \<le> b \<Longrightarrow> b < int (length bs) \<Longrightarrow>
       bs' ! nat b = (bs ! nat b) XOR xor_sum (image_of support cols) {x \<in> set ?xs. ?ix x = b}" by auto
  moreover have "{x \<in> set ?xs. ?ix x = b} = on_bin rows cols p b" if "b < sz" for b
    unfolding set using that by (auto simp: on_bin_def)
  moreover have "forward128_rows support rows cols sz p bs
      = foldM (\<lambda>x bs. xor_at bs (?ix x) (image_of support cols x)) ?xs bs"
  proof -
    have "forward128_rows support rows cols sz p bs = foldM (forward128_pixel support cols p (bin_offset rows p)) ?xs bs"
      by (simp add: forward128_rows_def forward128_row_eq[OF assms(1)] product_concat_map foldM_concat
          foldM_map foldM_filter bin_index_def cong: foldM_cong)
    also have "\<dots> = foldM (\<lambda>x bs. xor_at bs (?ix x) (image_of support cols x)) ?xs bs"
      by (rule foldM_cong) (simp_all only: pix)
    finally show ?thesis .
  qed
  ultimately show ?thesis using assms(4) by (auto intro!: exI[of _ bs'])
qed

definition is_projection128 :: "u128 list \<Rightarrow> int \<Rightarrow> int \<Rightarrow> prj128 \<Rightarrow> bool" where
  "is_projection128 support rows cols pr \<longleftrightarrow> psize pr \<le> int (length (bins pr)) \<and>
     (\<forall>b. 0 \<le> b \<and> b < psize pr \<longrightarrow>
        bins pr ! nat b = xor_sum (image_of support cols) (on_bin rows cols (prj_p pr) b))"

lemma encode_one_projection:
  assumes "0 \<le> cols" "0 \<le> rows" "int (length support) = rows * cols" "psize pr \<le> int (length (bins pr))"
  shows "\<exists>bs bs'. clear_bins (psize pr) (bins pr) = Some bs
    \<and> forward128_rows support rows cols (psize pr) (prj_p pr) bs = Some bs'
    \<and> length bs' = length (bins pr) \<and> is_projection128 support rows cols (pr\<lparr>bins := bs'\<rparr>)"
proof -
  obtain bs where bs: "clear_bins (psize pr) (bins pr) = Some bs" "length bs = length (bins pr)"
    "\<And>b. 0 \<le> b \<Longrightarrow> b < psize pr \<Longrightarrow> bs ! nat b = 0"
    using clear_bins_spec[OF assms(4)] assms(4) by force
  moreover obtain bs' where "forward128_rows support rows cols (psize pr) (prj_p pr) bs = Some bs'"
    "length bs' = length bs" "\<And>b. 0 \<le> b \<Longrightarrow> b < psize pr \<Longrightarrow>
       bs' ! nat b = (bs ! nat b) XOR xor_sum (image_of support cols) (on_bin rows cols (prj_p pr) b)"
    using forward128_rows_spec[of cols rows support "psize pr" bs "prj_p pr"] assms bs by auto
  ultimately show ?thesis using assms(4) by (auto simp: is_projection128_def)
qed

lemma transform128_forward_projects:
  assumes "0 \<le> cols" "0 \<le> rows" "int (length support) = rows * cols" "length prjs \<le> 1024"
    and fit: "\<And>pr. pr \<in> set prjs \<Longrightarrow> psize pr \<le> int (length (bins pr))"
  shows "\<exists>prjs'. transform128_forward support rows (2 * cols) (int (length prjs)) prjs = Some prjs'
    \<and> length prjs' = length prjs
    \<and> (\<forall>i < length prjs. angle (prjs' ! i) = angle (prjs ! i) \<and> psize (prjs' ! i) = psize (prjs ! i)
         \<and> length (bins (prjs' ! i)) = length (bins (prjs ! i))
         \<and> is_projection128 support rows cols (prjs' ! i))"
proof -
  let ?n = "int (length prjs)"
  let ?clear = "\<lambda>(i::int) pr. do { bs \<leftarrow> clear_bins (psize pr) (bins pr); Some (pr\<lparr>bins := bs\<rparr>) }"
  let ?sum = "\<lambda>(i::int) pr. do { bs \<leftarrow> forward128_rows support rows cols (psize pr) (prj_p pr) (bins pr); Some (pr\<lparr>bins := bs\<rparr>) }"
  define h where "h i = the (?clear i (prjs ! nat i))" for i
  define g where "g i = the (?sum i (h i))" for i
  have hg: "?clear i (prjs ! nat i) = Some (h i) \<and> ?sum i (h i) = Some (g i) \<and> angle (g i) = angle (prjs ! nat i)
      \<and> psize (g i) = psize (prjs ! nat i) \<and> length (bins (g i)) = length (bins (prjs ! nat i))
      \<and> is_projection128 support rows cols (g i)" if "0 \<le> i" "i < ?n" for i
    using encode_one_projection[OF assms(1-3) fit[of "prjs ! nat i"]] that
    by (auto simp: h_def g_def nat_less_iff)
  then obtain ys where ys: "foldM (\<lambda>i prjs. do { pr \<leftarrow> arr_get prjs i; pr \<leftarrow> ?clear i pr; arr_set prjs i pr })
        [0..?n - 1] prjs = Some ys" "length ys = length prjs" "\<And>i. 0 \<le> i \<Longrightarrow> i < ?n \<Longrightarrow> ys ! nat i = h i"
    using foldM_arr_update[of ?n prjs ?clear h] by auto
  then obtain zs where zs: "foldM (\<lambda>i prjs. do { pr \<leftarrow> arr_get prjs i; pr \<leftarrow> ?sum i pr; arr_set prjs i pr })
        [0..?n - 1] ys = Some zs" "length zs = length prjs" "\<And>i. 0 \<le> i \<Longrightarrow> i < ?n \<Longrightarrow> zs ! nat i = g i"
    using foldM_arr_update[of ?n ys ?sum g] hg by auto
  have "zs ! i = g (int i)" if "i < length prjs" for i using zs(3)[of "int i"] that by simp
  then show ?thesis using ys(1) zs(1,2) hg assms(4) by (auto simp: transform128_forward_def Let_def)
qed

subsection \<open>The decoder on a flat memory\<close>

abbreviation cell_base :: "ptr128 list \<Rightarrow> int \<Rightarrow> int" where
  "cell_base prjs l \<equiv> bins (prjs ! nat l) div 16"

abbreviation angles_of :: "'b projection_t list \<Rightarrow> int \<Rightarrow> int" where
  "angles_of prjs l \<equiv> prj_p (prjs ! nat l)"

definition inverse128_setup :: "int \<Rightarrow> int \<Rightarrow> ptr128 list \<Rightarrow> int list \<Rightarrow> int list \<Rightarrow> nat \<Rightarrow> bool" where
  "inverse128_setup R C prjs ko offs mlen \<longleftrightarrow> dec_angles R (angles_of prjs)
     \<and> R \<le> int (length prjs) \<and> R \<le> int (length ko) \<and> R \<le> int (length offs)
     \<and> (\<forall>l. 0 \<le> l \<and> l < R \<longrightarrow> ko ! nat l = koff R (angles_of prjs) l
          \<and> offs ! nat l = bin_offset R (angles_of prjs l) \<and> bins (prjs ! nat l) mod 16 = 0)
     \<and> (\<forall>i l c. 0 \<le> i \<and> i < R \<and> (l, c) \<in> pixels R C \<longrightarrow>
          0 \<le> cell_base prjs i + bin_index R (angles_of prjs i) l c
          \<and> cell_base prjs i + bin_index R (angles_of prjs i) l c < int mlen)"

text \<open>
  No update of an earlier pixel may reach, through another projection, a cell that is still to be
  read: projections may overlap in memory only where it does no harm.
\<close>

definition no_alias :: "int \<Rightarrow> int \<Rightarrow> ptr128 list \<Rightarrow> bool" where
  "no_alias R C prjs \<longleftrightarrow> (\<forall>l c l2 c2 i. (l, c) \<in> pixels R C \<and> (l2, c2) \<in> pixels R C
     \<and> visit_less (c - koff R (angles_of prjs) l, l) (c2 - koff R (angles_of prjs) l2, l2)
     \<and> 0 \<le> i \<and> i < R \<and> i \<noteq> l2 \<longrightarrow>
     cell_base prjs i + bin_index R (angles_of prjs i) l c
       \<noteq> cell_base prjs l2 + bin_index R (angles_of prjs l2) l2 c2)"

definition inverse128_inv ::
  "int \<Rightarrow> int \<Rightarrow> (int \<times> int \<Rightarrow> u128) \<Rightarrow> ptr128 list \<Rightarrow> nat \<Rightarrow> nat \<Rightarrow> (int \<times> int) set
   \<Rightarrow> u128 list \<times> u128 list \<Rightarrow> bool"
where
  "inverse128_inv R C f prjs len mlen D = (\<lambda>(supp, mem). length supp = len \<and> length mem = mlen
     \<and> bins_ok R C (angles_of prjs) f D (\<lambda>l b. mem ! nat (cell_base prjs l + b))
     \<and> support_ok C f D supp)"

lemma mm_cell [arr_simps]:
  assumes "bins pr mod 16 = 0"
  shows "mm_load mem (bin_ptr pr x) = arr_get mem (bins pr div 16 + x)"
    and "xor128_1 mem (bin_ptr pr x) v = xor_at mem (bins pr div 16 + x) v"
proof -
  have "bin_ptr pr x mod 16 = 0" "bin_ptr pr x div 16 = bins pr div 16 + x"
    using assms by (auto simp: bin_ptr_def)
  then show "mm_load mem (bin_ptr pr x) = arr_get mem (bins pr div 16 + x)"
    and "xor128_1 mem (bin_ptr pr x) v = xor_at mem (bins pr div 16 + x) v"
    by (simp_all add: mm_load_def mm_store_def xor128_1_def xor_at_def)
qed

lemma inverse128_update_loop:
  assumes su: "inverse128_setup R C prjs ko offs (length mem)" and x: "(l, c) \<in> pixels R C"
  shows "\<exists>mem'. foldM (\<lambda>i mem. if i = l then Some mem else do { u \<leftarrow> arr_get prjs i; off \<leftarrow> arr_get offs i;
        xor128_1 mem (bin_ptr u (c + l * prj_p u - off)) v }) [0..R - 1] mem = Some mem' \<and> length mem' = length mem
    \<and> (\<forall>a. 0 \<le> a \<and> a < int (length mem) \<longrightarrow> mem' ! nat a = (mem ! nat a) XOR
         xor_sum (\<lambda>i. v) {i. 0 \<le> i \<and> i < R \<and> i \<noteq> l \<and> cell_base prjs i + bin_index R (angles_of prjs i) l c = a})"
proof -
  let ?ix = "\<lambda>i. cell_base prjs i + bin_index R (angles_of prjs i) l c"
  let ?xs = "filter (\<lambda>i. i \<noteq> l) [0..R - 1]"
  have "foldM (\<lambda>i mem. if i = l then Some mem else do { u \<leftarrow> arr_get prjs i; off \<leftarrow> arr_get offs i;
        xor128_1 mem (bin_ptr u (c + l * prj_p u - off)) v }) [0..R - 1] mem
      = foldM (\<lambda>i mem. xor_at mem (?ix i) v) ?xs mem"
    unfolding foldM_filter
    by (rule foldM_cong) (use su in \<open>auto simp: inverse128_setup_def arr_get_in mm_cell bin_index_def\<close>)
  moreover have "0 \<le> ?ix i \<and> ?ix i < int (length mem)" if "i \<in> set ?xs" for i
    using that su x by (simp add: inverse128_setup_def)
  moreover have "{i \<in> set ?xs. ?ix i = a} = {i. 0 \<le> i \<and> i < R \<and> i \<noteq> l \<and> ?ix i = a}" for a by auto
  ultimately show ?thesis using xor_scatter[of ?xs ?ix mem "\<lambda>i. v"] by simp
qed

lemma inverse128_pixel_step:
  fixes prjs :: "ptr128 list"
  assumes su: "inverse128_setup R C prjs ko offs mlen" and na: "no_alias R C prjs"
    and path: "mojette_path R C (angles_of prjs) = pre @ (k, l) # post"
    and len: "int len = R * C"
    and inv: "inverse128_inv R C f prjs len mlen (pixel_at R (angles_of prjs) ` set pre) st"
  shows "\<exists>st'. inverse128_pixel R C prjs ko offs k l st = Some st'
    \<and> inverse128_inv R C f prjs len mlen (pixel_at R (angles_of prjs) ` set (pre @ [(k, l)])) st'"
proof -
  let ?pa = "angles_of prjs" let ?D = "pixel_at R ?pa ` set pre"
  obtain supp mem where st: "st = (supp, mem)" by fastforce
  define c where "c = k + koff R ?pa l"
  have dec: "dec_angles R ?pa" using su by (simp add: inverse128_setup_def)
  have x: "(l, c) \<in> pixels R C" using mem_mojette_path[OF dec, of k l C] path by (simp add: c_def)
  have new: "(l, c) \<notin> ?D" using path_not_before[OF path] by (simp add: pixel_at_def c_def)
  have D: "?D \<subseteq> pixels R C" using pixel_at_path[OF dec, of C] path by auto
  have lens: "length supp = len" "length mem = mlen"
    and ok: "bins_ok R C ?pa f ?D (\<lambda>l b. mem ! nat (cell_base prjs l + b))"
    using inv by (auto simp: inverse128_inv_def st)
  have rd: "mem ! nat (cell_base prjs l + bin_index R (?pa l) l c) = f (l, c)"
    using bins_ok_read[OF dec path ok] by (simp add: c_def)
  obtain mem' where upd: "foldM (\<lambda>i mem. if i = l then Some mem else do { u \<leftarrow> arr_get prjs i; off \<leftarrow> arr_get offs i;
        xor128_1 mem (bin_ptr u (c + l * prj_p u - off)) (f (l, c)) }) [0..R - 1] mem = Some mem'" "length mem' = mlen"
    "\<And>a. 0 \<le> a \<Longrightarrow> a < int mlen \<Longrightarrow> mem' ! nat a = (mem ! nat a) XOR
         xor_sum (\<lambda>i. f (l, c)) {i. 0 \<le> i \<and> i < R \<and> i \<noteq> l \<and> cell_base prjs i + bin_index R (?pa i) l c = a}"
    using inverse128_update_loop[of R C prjs ko offs mem l c "f (l, c)"] su x lens by auto
  have "0 \<le> l * C + c" "l * C + c < int (length supp)"
    using pixel_address[of l R c C] x len lens by auto
  moreover have "arr_get mem (cell_base prjs l + (c + l * ?pa l - bin_offset R (?pa l))) = Some (f (l, c))"
    using su x rd lens by (simp add: inverse128_setup_def arr_get_in bin_index_def)
  moreover have "koff R ?pa l = c - k" by (simp add: c_def)
  ultimately have body: "inverse128_pixel R C prjs ko offs k l st = Some (supp[nat (l * C + c) := f (l, c)], mem')"
    using x upd(1) su
    by (simp add: inverse128_setup_def st inverse128_pixel_def arr_get_in arr_set_in mm_cell cong: if_cong)
  have "bins_ok R C ?pa f (insert (l, c) ?D) (\<lambda>l b. mem' ! nat (cell_base prjs l + b))"
  proof (rule bins_ok_step[OF ok x new])
    fix l2 c2 assume p2: "(l2, c2) \<in> pixels R C" "(l2, c2) \<notin> ?D" "(l2, c2) \<noteq> (l, c)"
    let ?a = "cell_base prjs l2 + bin_index R (?pa l2) l2 c2"
    have "(c2 - koff R ?pa l2, l2) \<in> set post"
      using p2 path mem_mojette_path[OF dec, of "c2 - koff R ?pa l2" l2 C] by (force simp: pixel_at_def c_def)
    then have "visit_less (k, l) (c2 - koff R ?pa l2, l2)"
      using mojette_path_sorted[of R C ?pa] path by (simp add: sorted_wrt_append)
    moreover have "c - koff R ?pa l = k" by (simp add: c_def)
    ultimately have only: "i = l2" if "0 \<le> i" "i < R" "cell_base prjs i + bin_index R (?pa i) l c = ?a" for i
      using na[unfolded no_alias_def, rule_format, of l c l2 c2 i] x p2(1) that by auto
    have "(0 \<le> i \<and> i < R \<and> i \<noteq> l \<and> cell_base prjs i + bin_index R (?pa i) l c = ?a)
        = (i = l2 \<and> l2 \<noteq> l \<and> bin_index R (?pa l2) l c = bin_index R (?pa l2) l2 c2)" for i
      using only[of i] p2(1) by auto
    then have "{i. 0 \<le> i \<and> i < R \<and> i \<noteq> l \<and> cell_base prjs i + bin_index R (?pa i) l c = ?a}
        = (if l2 \<noteq> l \<and> bin_index R (?pa l2) l c = bin_index R (?pa l2) l2 c2 then {l2} else {})" by simp
    moreover have "l2 \<noteq> l" if "bin_index R (?pa l2) l c = bin_index R (?pa l2) l2 c2"
      using that p2(3) by (auto simp: bin_index_eq_iff)
    moreover have "0 \<le> ?a" "?a < int mlen" using su p2(1) by (auto simp: inverse128_setup_def)
    ultimately show "mem' ! nat ?a = (if bin_index R (?pa l2) l c = bin_index R (?pa l2) l2 c2
        then (mem ! nat ?a) XOR f (l, c) else mem ! nat ?a)"
      using upd(3)[of ?a] by auto
  qed
  moreover have "support_ok C f (insert (l, c) ?D) (supp[nat (l * C + c) := f (l, c)])"
    using inv lens len by (intro support_ok_step[OF _ D x]) (simp_all add: inverse128_inv_def st)
  ultimately show ?thesis using body upd(2) lens by (simp add: inverse128_inv_def pixel_at_def c_def)
qed

lemma inverse128_column_phase:
  assumes su: "inverse128_setup R C prjs ko offs mlen"
    and guard: "\<And>k l. k \<in> set ks \<Longrightarrow> 0 \<le> l \<Longrightarrow> l < R \<Longrightarrow> guard (k + koff R (angles_of prjs) l)
        = (0 \<le> k + koff R (angles_of prjs) l \<and> k + koff R (angles_of prjs) l < C)"
  shows "foldM (inverse128_column guard R C prjs ko offs) ks st =
    foldM (\<lambda>k. foldM (\<lambda>l st. if 0 \<le> k + koff R (angles_of prjs) l \<and> k + koff R (angles_of prjs) l < C
        then inverse128_pixel R C prjs ko offs k l st else Some st) [0..R - 1]) ks st"
proof (rule foldM_cong)
  fix k st assume "k \<in> set ks"
  then show "inverse128_column guard R C prjs ko offs k st = foldM (\<lambda>l st. if 0 \<le> k + koff R (angles_of prjs) l
      \<and> k + koff R (angles_of prjs) l < C then inverse128_pixel R C prjs ko offs k l st else Some st) [0..R - 1] st"
    unfolding inverse128_column_def
    by (intro foldM_cong) (use su guard in \<open>auto simp: inverse128_setup_def arr_get_in\<close>)
qed simp_all

lemma three_phases128:
  fixes prjs :: "ptr128 list" and R :: int
  defines "M \<equiv> kmax R (angles_of prjs)"
  assumes su: "inverse128_setup R C prjs ko offs mlen" "0 < R" and M: "M \<le> C"
  shows "do { st \<leftarrow> foldM (inverse128_column (\<lambda>c. c \<ge> 0) R C prjs ko offs) [- M..-1] st;
      st \<leftarrow> foldM (inverse128_column (\<lambda>c. True) R C prjs ko offs) [0..C - M - 1] st;
      foldM (inverse128_column (\<lambda>c. c < C) R C prjs ko offs) [C - M..C - 1] st }
    = foldM (\<lambda>x. inverse128_pixel R C prjs ko offs (fst x) (snd x)) (mojette_path R C (angles_of prjs)) st"
proof -
  let ?pa = "angles_of prjs"
  let ?col = "\<lambda>k. foldM (\<lambda>l st. if 0 \<le> k + koff R ?pa l \<and> k + koff R ?pa l < C
      then inverse128_pixel R C prjs ko offs k l st else Some st) [0..R - 1]"
  have dec: "dec_angles R ?pa" using su by (simp add: inverse128_setup_def)
  note ko = koff_nonneg[of _ R ?pa] koff_le_kmax[OF dec, folded M_def]
  note phase = inverse128_column_phase[OF su(1)]
  have "[- M..C - 1] = [- M..-1] @ [0..C - M - 1] @ [C - M..C - 1]"
    using upto_split[of "- M" 0 "C - 1"] upto_split[of 0 "C - M" "C - 1"] M kmax_nonneg[OF su(2), of ?pa]
    by (simp add: M_def)
  then have "foldM ?col [- M..C - 1] st = do { st \<leftarrow> foldM ?col [- M..-1] st;
      st \<leftarrow> foldM ?col [0..C - M - 1] st; foldM ?col [C - M..C - 1] st }"
    by (simp add: foldM_append Option.bind_assoc)
  moreover have "foldM (inverse128_column (\<lambda>c. c \<ge> 0) R C prjs ko offs) [- M..-1] st = foldM ?col [- M..-1] st" for st
    by (rule phase) (use ko M in fastforce)
  moreover have "foldM (inverse128_column (\<lambda>c. True) R C prjs ko offs) [0..C - M - 1] st = foldM ?col [0..C - M - 1] st" for st
    by (rule phase) (use ko in fastforce)
  moreover have "foldM (inverse128_column (\<lambda>c. c < C) R C prjs ko offs) [C - M..C - 1] st = foldM ?col [C - M..C - 1] st" for st
    by (rule phase) (use ko M in fastforce)
  ultimately show ?thesis by (simp only: M_def foldM_mojette_path)
qed

lemma inverse128_path_recovers:
  fixes prjs :: "ptr128 list"
  assumes su: "inverse128_setup R C prjs ko offs (length mem)" and na: "no_alias R C prjs"
    and len: "int (length supp0) = R * C"
    and ok: "bins_ok R C (angles_of prjs) f {} (\<lambda>l b. mem ! nat (cell_base prjs l + b))"
  shows "\<exists>supp mem'. foldM (\<lambda>x. inverse128_pixel R C prjs ko offs (fst x) (snd x)) (mojette_path R C (angles_of prjs)) (supp0, mem)
      = Some (supp, mem') \<and> length supp = length supp0 \<and> support_ok C f (pixels R C) supp"
proof -
  let ?pa = "angles_of prjs"
  have dec: "dec_angles R ?pa" using su by (simp add: inverse128_setup_def)
  have "\<exists>st. foldM (\<lambda>x. inverse128_pixel R C prjs ko offs (fst x) (snd x)) (mojette_path R C ?pa) (supp0, mem) = Some st
    \<and> inverse128_inv R C f prjs (length supp0) (length mem) (pixel_at R ?pa ` set (mojette_path R C ?pa)) st"
  proof (rule foldM_invariant[where I = "\<lambda>pre. inverse128_inv R C f prjs (length supp0) (length mem) (pixel_at R ?pa ` set pre)"])
    show "inverse128_inv R C f prjs (length supp0) (length mem) (pixel_at R ?pa ` set []) (supp0, mem)"
      using ok by (simp add: inverse128_inv_def support_ok_def)
    show "\<exists>t'. inverse128_pixel R C prjs ko offs (fst x) (snd x) t = Some t'
        \<and> inverse128_inv R C f prjs (length supp0) (length mem) (pixel_at R ?pa ` set (pre @ [x])) t'"
      if "mojette_path R C ?pa = pre @ x # post"
        "inverse128_inv R C f prjs (length supp0) (length mem) (pixel_at R ?pa ` set pre) t" for pre x post t
      using inverse128_pixel_step[OF su na _ len, of pre "fst x" "snd x" post f t] that by simp
  qed
  then show ?thesis by (auto simp: inverse128_inv_def pixel_at_path[OF dec])
qed

subsection \<open>Copying the projections to the stack\<close>

text \<open>Projection \<open>i\<close> goes to cell \<open>s0 + i * S\<close> of the buffer.\<close>

definition copied :: "int \<Rightarrow> int \<Rightarrow> prj128 list \<Rightarrow> nat \<Rightarrow> ptr128" where
  "copied s0 S prjs i = \<lparr>angle = angle (prjs ! i), psize = psize (prjs ! i), bins = 16 * (s0 + int i * S)\<rparr>"

lemma copied_sel [simp]:
  "prj_p (copied s0 S prjs i) = prj_p (prjs ! i)" "prj_q (copied s0 S prjs i) = prj_q (prjs ! i)"
  "bins (copied s0 S prjs i) = 16 * (s0 + int i * S)"
  by (simp_all add: copied_def)

lemma memcpy128_spec:
  assumes "0 \<le> d" "n \<le> int (length src)" "d + n \<le> int (length mem)"
  shows "\<exists>mem'. memcpy128 mem (16 * d) src n = Some mem' \<and> length mem' = length mem
     \<and> (\<forall>a. 0 \<le> a \<and> a < int (length mem) \<longrightarrow>
          mem' ! nat a = (if d \<le> a \<and> a < d + n then src ! nat (a - d) else mem ! nat a))"
proof -
  define I where "I pre m \<longleftrightarrow> length m = length mem \<and> (\<forall>a. 0 \<le> a \<and> a < int (length mem) \<longrightarrow>
     m ! nat a = (if a - d \<in> set pre then src ! nat (a - d) else mem ! nat a))" for pre :: "int list" and m
  have "\<exists>m. foldM (\<lambda>j mem. do { v \<leftarrow> arr_get src j; mm_store mem (16 * d + 16 * j) v }) [0..n - 1] mem = Some m \<and> I [0..n - 1] m"
  proof (rule foldM_invariant)
    show "I [] mem" by (simp add: I_def)
    fix pre j post m assume split: "[0..n - 1] = pre @ j # post" and "I pre m"
    have "j \<in> set [0..n - 1]" unfolding split by simp
    then have j: "0 \<le> j" "j < n" by auto
    have "(16 * d + 16 * j) mod 16 = 0" "(16 * d + 16 * j) div 16 = d + j" by auto
    with j assms \<open>I pre m\<close> show "\<exists>m'. do { v \<leftarrow> arr_get src j; mm_store m (16 * d + 16 * j) v } = Some m' \<and> I (pre @ [j]) m'"
      by (auto simp: I_def mm_store_def arr_get_in arr_set_in nth_list_update nat_eq_iff)
  qed
  then show ?thesis by (auto simp: memcpy128_def I_def)
qed

definition slots_filled :: "int \<Rightarrow> int \<Rightarrow> prj128 list \<Rightarrow> nat \<Rightarrow> u128 list \<Rightarrow> bool" where
  "slots_filled s0 S prjs n mem \<longleftrightarrow> (\<forall>i j. i < n \<and> 0 \<le> j \<and> j < psize (prjs ! i) \<longrightarrow>
     mem ! nat (s0 + int i * S + j) = bins (prjs ! i) ! nat j)"

lemma slots_filled_step:
  assumes "slots_filled s0 S prjs n mem" "0 \<le> s0" "0 \<le> S" and mem: "s0 + int n * S + psize (prjs ! n) \<le> int (length mem)"
    and fit: "\<And>i. i \<le> n \<Longrightarrow> psize (prjs ! i) \<le> S \<and> psize (prjs ! i) \<le> int (length (bins (prjs ! i)))"
    and psz: "0 \<le> psize (prjs ! n)"
  shows "\<exists>mem'. memcpy128 mem (16 * (s0 + int n * S)) (bins (prjs ! n)) (psize (prjs ! n)) = Some mem'
     \<and> length mem' = length mem \<and> slots_filled s0 S prjs (Suc n) mem'"
proof -
  obtain mem' where m: "memcpy128 mem (16 * (s0 + int n * S)) (bins (prjs ! n)) (psize (prjs ! n)) = Some mem'"
    "length mem' = length mem" "\<And>a. 0 \<le> a \<Longrightarrow> a < int (length mem) \<Longrightarrow> mem' ! nat a =
       (if s0 + int n * S \<le> a \<and> a < s0 + int n * S + psize (prjs ! n) then bins (prjs ! n) ! nat (a - (s0 + int n * S)) else mem ! nat a)"
    using memcpy128_spec[of "s0 + int n * S" "psize (prjs ! n)" "bins (prjs ! n)" mem] assms(2,3) mem fit[of n] by auto
  have "mem' ! nat (s0 + int i * S + j) = bins (prjs ! i) ! nat j" if "i < Suc n" "0 \<le> j" "j < psize (prjs ! i)" for i j
  proof (cases "i = n")
    case True
    then show ?thesis using m(3)[of "s0 + int n * S + j"] that mem assms(2,3) by simp
  next
    case False
    then have "int (Suc i) * S \<le> int n * S" using that assms(3) by (intro mult_right_mono) auto
    then have "s0 + int i * S + j < s0 + int n * S" using fit[of i] that by (simp add: algebra_simps)
    moreover have "0 \<le> s0 + int i * S + j" using assms(2,3) that by simp
    ultimately show ?thesis using m(3)[of "s0 + int i * S + j"] mem psz assms(1) that False by (simp add: slots_filled_def)
  qed
  with m show ?thesis by (simp add: slots_filled_def)
qed

lemma copy_projections_spec:
  assumes "0 \<le> s0" "0 \<le> S" "s0 + int (length prjs) * S \<le> int (length buff)"
    and fit: "\<And>pr. pr \<in> set prjs \<Longrightarrow> 0 \<le> psize pr \<and> psize pr \<le> S \<and> psize pr \<le> int (length (bins pr))"
  shows "\<exists>mem. copy_projections (int (length prjs)) (16 * S) prjs (16 * s0) buff
       = Some (map (copied s0 S prjs) [0..<length prjs], mem)
     \<and> length mem = length buff \<and> slots_filled s0 S prjs (length prjs) mem"
proof -
  let ?f = "\<lambda>i (qs, buff). do { pr \<leftarrow> arr_get prjs i; buff \<leftarrow> memcpy128 buff (16 * s0 + i * (16 * S)) (bins pr) (psize pr);
         Some (qs @ [\<lparr>angle = angle pr, psize = psize pr, bins = 16 * s0 + i * (16 * S)\<rparr>], buff) }"
  have "\<exists>mem. foldM ?f [0..int n - 1] ([], buff) = Some (map (copied s0 S prjs) [0..<n], mem)
      \<and> length mem = length buff \<and> slots_filled s0 S prjs n mem" if "n \<le> length prjs" for n
    using that
  proof (induction n)
    case 0
    then show ?case by (simp add: slots_filled_def)
  next
    case (Suc n)
    then obtain mem where m: "foldM ?f [0..int n - 1] ([], buff) = Some (map (copied s0 S prjs) [0..<n], mem)"
      "length mem = length buff" "slots_filled s0 S prjs n mem" by auto
    have ok: "0 \<le> psize (prjs ! i) \<and> psize (prjs ! i) \<le> S \<and> psize (prjs ! i) \<le> int (length (bins (prjs ! i)))" if "i \<le> n" for i
      using fit Suc.prems that by simp
    have "int (Suc n) * S \<le> int (length prjs) * S" using Suc.prems assms(2) by (intro mult_right_mono) auto
    then have "s0 + int n * S + psize (prjs ! n) \<le> int (length mem)"
      using ok[of n] assms(3) m(2) by (simp add: algebra_simps)
    then obtain mem' where "memcpy128 mem (16 * (s0 + int n * S)) (bins (prjs ! n)) (psize (prjs ! n)) = Some mem'"
      "length mem' = length mem" "slots_filled s0 S prjs (Suc n) mem'"
      using slots_filled_step[OF m(3) assms(1,2)] ok by auto
    moreover have "[0..int (Suc n) - 1] = [0..int n - 1] @ [int n]" using upto_snoc[of 0 "int n"] by simp
    ultimately show ?case using m Suc.prems
      by (simp add: foldM_append arr_get_in copied_def algebra_simps del: of_nat_Suc)
  qed
  then show ?thesis by (simp add: copy_projections_def)
qed

subsection \<open>Decoding the copies\<close>

text \<open>
  What the decoder needs of the projections it is given: as many as rows, of distinct slopes, each
  long enough for the bins that are read on its row, and steps that stay clear of each other.
\<close>

definition decodable128 :: "u128 list \<Rightarrow> int \<Rightarrow> int \<Rightarrow> int \<Rightarrow> prj128 list \<Rightarrow> bool" where
  "decodable128 support rows cols S prjs \<longleftrightarrow> 0 < rows \<and> rows \<le> 1024 \<and> int (length prjs) = rows
     \<and> int (length support) = rows * cols
     \<and> (\<forall>pr\<in>set prjs. prj_q pr = 1 \<and> is_projection128 support rows cols pr \<and> 0 \<le> psize pr \<and> psize pr \<le> S
          \<and> cols - 1 + \<bar>prj_p pr\<bar> * (rows - 1) \<le> S)
     \<and> distinct (map prj_p prjs)
     \<and> (\<forall>pr\<in>set prjs. \<forall>l c. (l, c) \<in> pixels rows cols \<and> rev (sort (map prj_p prjs)) ! nat l = prj_p pr \<longrightarrow>
          bin_index rows (prj_p pr) l c < psize pr)
     \<and> kmax rows (\<lambda>l. rev (sort (map prj_p prjs)) ! nat l) < cols - 1"

text \<open>The sorted copies: each sits in a slot of its own.\<close>

definition in_slots :: "int \<Rightarrow> int \<Rightarrow> int \<Rightarrow> prj128 list \<Rightarrow> ptr128 list \<Rightarrow> bool" where
  "in_slots R s0 S prjs qs \<longleftrightarrow> int (length qs) = R \<and> (\<forall>l. 0 \<le> l \<and> l < R \<longrightarrow> (\<exists>i < length prjs. qs ! nat l = copied s0 S prjs i))"

lemma sorted_copies_in_slots:
  assumes "int (length prjs) = R"
  shows "in_slots R s0 S prjs (qsort compare_slope (map (copied s0 S prjs) [0..<length prjs]))"
  unfolding in_slots_def
proof (intro conjI allI impI)
  let ?qs = "qsort compare_slope (map (copied s0 S prjs) [0..<length prjs])"
  fix l assume "0 \<le> l \<and> l < R"
  then have "?qs ! nat l \<in> set ?qs" using assms by (intro nth_mem) (auto simp: nat_less_iff)
  then show "\<exists>i<length prjs. ?qs ! nat l = copied s0 S prjs i" by auto
qed (use assms in simp)

lemma sorted_copies_angles:
  assumes "\<And>pr. pr \<in> set prjs \<Longrightarrow> prj_q pr = 1"
  shows "map prj_p (qsort compare_slope (map (copied s0 S prjs) [0..<length prjs])) = rev (sort (map prj_p prjs))"
proof -
  have "map prj_p (map (copied s0 S prjs) [0..<length prjs]) = map prj_p prjs" by (rule nth_equalityI) simp_all
  moreover have "prj_q q = 1" if "q \<in> set (map (copied s0 S prjs) [0..<length prjs])" for q using that assms by auto
  ultimately show ?thesis using qsort_slope_angles[of "map (copied s0 S prjs) [0..<length prjs]"] by simp
qed

lemma slot_overlap:
  fixes S :: int
  assumes "d * S = b - b2" "0 \<le> b" "b \<le> S" "0 \<le> b2" "b2 < S" and "d \<noteq> 0"
  shows "b = S \<and> b2 = 0"
proof -
  have S: "0 < S" using assms by simp
  have "\<not> d \<le> -1" using mult_right_mono[of d "-1" S] S assms by auto
  moreover have "\<not> 2 \<le> d" using mult_right_mono[of 2 d S] S assms by auto
  ultimately have "d = 1" using assms(6) by simp
  with assms show ?thesis by simp
qed

lemma slots_no_alias:
  fixes qs :: "ptr128 list"
  assumes sl: "in_slots R s0 S prjs qs" and dec: "dec_angles R (angles_of qs)"
    and wide: "\<And>pr. pr \<in> set prjs \<Longrightarrow> C - 1 + \<bar>prj_p pr\<bar> * (R - 1) \<le> S"
    and rd: "\<And>l c. (l, c) \<in> pixels R C \<Longrightarrow> bin_index R (angles_of qs l) l c < S"
    and km: "kmax R (angles_of qs) < C - 1" and "0 \<le> S"
  shows "no_alias R C qs"
  unfolding no_alias_def
proof (intro allI impI notI)
  let ?pa = "angles_of qs"
  fix l c l2 c2 i
  assume a: "(l, c) \<in> pixels R C \<and> (l2, c2) \<in> pixels R C \<and> visit_less (c - koff R ?pa l, l) (c2 - koff R ?pa l2, l2)
      \<and> 0 \<le> i \<and> i < R \<and> i \<noteq> l2"
    and eq: "cell_base qs i + bin_index R (?pa i) l c = cell_base qs l2 + bin_index R (?pa l2) l2 c2"
  obtain si sj where s: "si < length prjs" "qs ! nat i = copied s0 S prjs si" "sj < length prjs" "qs ! nat l2 = copied s0 S prjs sj"
    using sl a unfolding in_slots_def by (metis mem_pixels)
  have "?pa i \<noteq> ?pa l2" using dec_anglesD[OF dec, of i l2] dec_anglesD[OF dec, of l2 i] a by fastforce
  then have ne: "si \<noteq> sj" using s by auto
  let ?b = "bin_index R (?pa i) l c" and ?b2 = "bin_index R (?pa l2) l2 c2"
  have b: "0 \<le> ?b" "?b \<le> S" "0 \<le> ?b2" "?b2 < S"
    using bin_index_nonneg[of _ R] bin_index_upper[of l R c C "?pa i"] wide[of "prjs ! si"] rd[of l2 c2] a s by (auto simp: algebra_simps)
  have "(int sj - int si) * S = ?b - ?b2" using eq s by (simp add: algebra_simps)
  from slot_overlap[OF this b] ne have "?b = S" "?b2 = 0" by auto
  moreover have "?b \<le> c + \<bar>?pa i\<bar> * (R - 1)" using bin_index_upper[of l R c "c + 1" "?pa i"] a by simp
  moreover have "c2 \<le> ?b2" using bin_index_nonneg[of l2 R 0 "?pa l2"] a by (simp add: bin_index_def)
  ultimately have "C - 1 \<le> c" "c2 \<le> 0" using wide[of "prjs ! si"] s by auto
  moreover have "koff R ?pa l \<le> kmax R ?pa" "0 \<le> koff R ?pa l2"
    using koff_le_kmax[OF dec] koff_nonneg a by auto
  ultimately show False using a km by (auto simp: visit_less_def)
qed

lemma stack_alignment: "((16 * slot + 64) div 32) * 32 - 16 * slot = 16 * (4 - slot mod 2)" for slot :: int
proof -
  obtain k b where s: "slot = 2 * k + b" "b = 0 \<or> b = 1"
    using mult_div_mod_eq[of 2 slot, symmetric] by (metis mod_2_eq_odd of_bool_eq)
  then have "(16 * slot + 64) div 32 = k + 2" "slot mod 2 = b" by auto
  with s show ?thesis by simp
qed

lemma copies_ready:
  fixes prjs :: "prj128 list"
  defines "qs s0 S \<equiv> qsort compare_slope (map (copied s0 S prjs) [0..<length prjs])"
  assumes dp: "decodable128 support rows cols S prjs" and mem: "slots_filled s0 S prjs (length prjs) mem"
    and s0: "0 \<le> s0" "s0 + rows * S < int (length mem)"
  shows "\<exists>ko. inverse_k_offsets rows 1024 (map prj_p (qs s0 S)) = Some ko
    \<and> inverse128_setup rows cols (qs s0 S) ko (map (\<lambda>pr. bin_offset rows (prj_p pr)) (qs s0 S)) (length mem)
    \<and> kmax rows (angles_of (qs s0 S)) < cols - 1
    \<and> no_alias rows cols (qs s0 S)
    \<and> bins_ok rows cols (angles_of (qs s0 S)) (image_of support cols) {} (\<lambda>l b. mem ! nat (cell_base (qs s0 S) l + b))"
proof -
  let ?q = "qs s0 S" let ?pa = "angles_of (qs s0 S)"
  have r: "0 < rows" "int (length prjs) = rows" "rows \<le> 1024" "int (length ?q) = rows"
    using dp by (auto simp: decodable128_def qs_def)
  have sl: "in_slots rows s0 S prjs ?q" unfolding qs_def by (rule sorted_copies_in_slots) (rule r)
  have ang: "map prj_p ?q = rev (sort (map prj_p prjs))"
    unfolding qs_def by (rule sorted_copies_angles) (use dp in \<open>simp add: decodable128_def\<close>)
  have pa: "?pa l = rev (sort (map prj_p prjs)) ! nat l" if "0 \<le> l" "l < rows" for l
    using that r unfolding ang[symmetric] by (simp add: nat_less_iff)
  have dec: "dec_angles rows ?pa"
    using dec_angles_sorted[of "map prj_p prjs" rows] dp pa by (simp add: dec_angles_def decodable128_def)
  have slot: "\<exists>i < length prjs. ?q ! nat l = copied s0 S prjs i" if "0 \<le> l" "l < rows" for l
    using sl that by (simp add: in_slots_def)
  have S: "cols - 1 + \<bar>prj_p pr\<bar> * (rows - 1) \<le> S \<and> psize pr \<le> S \<and> 0 \<le> S" if "pr \<in> set prjs" for pr
    using dp that by (fastforce simp: decodable128_def)
  have rd: "bin_index rows (?pa l) l c < psize (prjs ! i)"
    if "(l, c) \<in> pixels rows cols" "i < length prjs" "?q ! nat l = copied s0 S prjs i" for l c i
    using dp[unfolded decodable128_def] nth_mem[OF that(2)] that pa[of l] by (metis copied_sel(1) mem_pixels)
  have bnd: "0 \<le> cell_base ?q i + bin_index rows (?pa i) l c \<and> cell_base ?q i + bin_index rows (?pa i) l c < int (length mem)"
    if lc: "(l, c) \<in> pixels rows cols" and i: "0 \<le> i" "i < rows" for i l c
  proof -
    obtain j where j: "j < length prjs" "?q ! nat i = copied s0 S prjs j" using slot[OF i] by auto
    have "int (Suc j) * S \<le> rows * S" using j r S[of "prjs ! j"] by (intro mult_right_mono) auto
    moreover have "bin_index rows (?pa i) l c \<le> S" "0 \<le> bin_index rows (?pa i) l c" "0 \<le> int j * S"
      using bin_index_upper[of l rows c cols "?pa i"] bin_index_nonneg[of l rows c] S[of "prjs ! j"] lc j by auto
    ultimately show ?thesis using j s0 by (simp add: algebra_simps)
  qed
  obtain ko where ko: "inverse_k_offsets rows 1024 (map prj_p ?q) = Some ko" "length ko = 1024"
    "\<And>l. 0 \<le> l \<Longrightarrow> l < rows \<Longrightarrow> ko ! nat l = koff rows (\<lambda>l. map prj_p ?q ! nat l) l"
    using inverse_k_offsets_eq[of rows 1024 "map prj_p ?q"] r by auto
  have kc: "koff rows (\<lambda>l. map prj_p ?q ! nat l) l = koff rows ?pa l" if "0 \<le> l" for l
    by (rule koff_cong) (use that r in \<open>auto simp: nat_less_iff\<close>)
  have "bins (?q ! nat l) mod 16 = 0" if "0 \<le> l" "l < rows" for l using slot[OF that] by auto
  then have su: "inverse128_setup rows cols ?q ko (map (\<lambda>pr. bin_offset rows (prj_p pr)) ?q) (length mem)"
    using dec r ko kc bnd by (simp add: inverse128_setup_def nat_less_iff)
  have km: "kmax rows ?pa < cols - 1"
    using dp kc[of 0] kc[of "rows - 1"] r ang by (simp add: kmax_def decodable128_def)
  have "no_alias rows cols ?q"
  proof (rule slots_no_alias[OF sl dec _ _ km])
    show "bin_index rows (?pa l) l c < S" if lc: "(l, c) \<in> pixels rows cols" for l c
    proof -
      obtain i where i: "i < length prjs" "?q ! nat l = copied s0 S prjs i"
        using slot[of l] lc by auto
      show ?thesis using rd[OF lc i] S[OF nth_mem[OF i(1)]] by simp
    qed
    show "0 \<le> S" using S[of "prjs ! 0"] r by auto
  qed (use S in auto)
  moreover have "mem ! nat (cell_base ?q l + bin_index rows (?pa l) l c)
      = xor_sum (image_of support cols) (on_bin rows cols (?pa l) (bin_index rows (?pa l) l c))"
    if lc: "(l, c) \<in> pixels rows cols" for l c
  proof -
    obtain i where i: "i < length prjs" "?q ! nat l = copied s0 S prjs i" using slot[of l] lc by auto
    then have "is_projection128 support rows cols (prjs ! i)" using dp by (simp add: decodable128_def)
    then show ?thesis using rd[OF lc i] bin_index_nonneg[of l rows c "?pa l"] lc i mem
      by (simp add: slots_filled_def is_projection128_def)
  qed
  ultimately show ?thesis using ko(1) su km by (auto simp: bins_ok_def)
qed

lemma inverse128_reconstruct_recovers:
  assumes su: "inverse128_setup R C qs ko offs (length mem)" "0 < R" "int (length out) = R * C" "int (length support) = R * C"
    and km: "kmax R (angles_of qs) < C - 1" and na: "no_alias R C qs"
    and ok: "bins_ok R C (angles_of qs) (image_of support C) {} (\<lambda>l b. mem ! nat (cell_base qs l + b))"
  shows "\<exists>mem'. inverse128_reconstruct R C qs ko offs out mem = Some (support, mem')"
proof -
  obtain supp mem' where run: "foldM (\<lambda>x. inverse128_pixel R C qs ko offs (fst x) (snd x))
      (mojette_path R C (angles_of qs)) (out, mem) = Some (supp, mem')"
    "length supp = length out" "support_ok C (image_of support C) (pixels R C) supp"
    using inverse128_path_recovers[OF su(1) na su(3) ok] by blast
  have "0 < C" using km kmax_nonneg[OF su(2), of "angles_of qs"] by linarith
  then have "supp = support" using support_ok_all[OF run(3), of support] run(2) su by simp
  moreover have "arr_get ko 0 = Some (koff R (angles_of qs) 0)" "arr_get ko (R - 1) = Some (koff R (angles_of qs) (R - 1))"
    using su by (auto simp: inverse128_setup_def arr_get_def)
  ultimately show ?thesis
    using three_phases128[OF su(1,2), of "(out, mem)"] run(1) km
    by (simp add: inverse128_reconstruct_def Let_def kmax_def)
qed

lemma transform128_inverse_copy_recovers:
  assumes dp: "decodable128 support rows cols S prjs" and out: "int (length out) = rows * cols"
    and buff: "4 + rows * S < int (length buff)"
  shows "\<exists>left mem. transform128_inverse_copy out rows (2 * cols) rows prjs (16 * (S - 32)) slot buff = Some (support, left, mem)"
proof -
  define s0 where "s0 = 4 - slot mod 2"
  have s0: "0 \<le> s0" "s0 \<le> 4" unfolding s0_def by auto
  have r: "0 < rows" "int (length prjs) = rows" "rows \<le> 1024" "int (length support) = rows * cols"
    using dp by (auto simp: decodable128_def)
  have fit: "0 \<le> psize pr \<and> psize pr \<le> S \<and> psize pr \<le> int (length (bins pr))" if "pr \<in> set prjs" for pr
    using dp that by (auto simp: decodable128_def is_projection128_def)
  moreover obtain pr where "pr \<in> set prjs" using r by (cases prjs) auto
  ultimately have "0 \<le> S" by force
  with fit obtain mem where cp: "copy_projections rows (16 * S) prjs (16 * s0) buff
       = Some (map (copied s0 S prjs) [0..<length prjs], mem)" "length mem = length buff" "slots_filled s0 S prjs (length prjs) mem"
    using copy_projections_spec[OF s0(1), of S prjs buff] fit r s0 buff by auto
  define qs where "qs = qsort compare_slope (map (copied s0 S prjs) [0..<length prjs])"
  obtain ko where ko: "inverse_k_offsets rows 1024 (map prj_p qs) = Some ko"
    and su: "inverse128_setup rows cols qs ko (map (\<lambda>pr. bin_offset rows (prj_p pr)) qs) (length mem)"
    and rest: "kmax rows (angles_of qs) < cols - 1" "no_alias rows cols qs"
      "bins_ok rows cols (angles_of qs) (image_of support cols) {} (\<lambda>l b. mem ! nat (cell_base qs l + b))"
    unfolding qs_def using copies_ready[OF dp cp(3)] s0 buff cp(2) by auto
  have "\<exists>mem'. inverse128_reconstruct rows cols qs ko (map (\<lambda>pr. bin_offset rows (prj_p pr)) qs) out mem = Some (support, mem')"
    by (rule inverse128_reconstruct_recovers[OF su r(1) out r(4) rest])
  then show ?thesis using ko cp(1) r
    by (auto simp: transform128_inverse_copy_def transform128_inverse_def Let_def stack_alignment simp flip: s0_def qs_def)
qed

subsection \<open>Encoding one projection\<close>

lemma one_proj_single_eq: "one_proj_single support k ppix pbin bs = forward128_single support k ppix pbin bs"
  by (induction k arbitrary: ppix pbin bs) simp_all

lemma one_proj_chunks_eq: "one_proj_chunks support k ppix pbin bs = forward128_chunks support k ppix pbin bs"
proof -
  have "[0..7] = [0, 1, 2, 3, 4, 5, 6, 7 :: int]" by (simp add: upto_rec1)
  then show ?thesis by (induction k arbitrary: ppix pbin bs) (simp_all add: forward128_chunk_def cong: Option.bind_cong)
qed

lemma one_proj_rows_eq:
  "0 \<le> a \<Longrightarrow> foldM (one_proj_row support cols sz p off) [a..a + int n - 1] (bs, a * cols)
     = map_option (\<lambda>bs. (bs, (a + int n) * cols)) (foldM (forward128_row support cols sz p off) [a..a + int n - 1] bs)"
proof (induction n arbitrary: a bs)
  case (Suc n)
  have u: "[a..a + int (Suc n) - 1] = a # [a + 1..(a + 1) + int n - 1]" by (subst upto_rec1) simp_all
  have r: "one_proj_row support cols sz p off a (bs, a * cols) = map_option (\<lambda>bs. (bs, (a + 1) * cols)) (forward128_row support cols sz p off a bs)"
    by (simp add: one_proj_row_def forward128_row_def Let_def one_proj_single_eq one_proj_chunks_eq map_option_bind split: bind_splits)
  show ?case unfolding u foldM.simps r
  proof (cases "forward128_row support cols sz p off a bs")
    case (Some bs')
    then show "do { x \<leftarrow> map_option (\<lambda>bs. (bs, (a + 1) * cols)) (forward128_row support cols sz p off a bs); foldM (one_proj_row support cols sz p off) [a + 1..(a + 1) + int n - 1] x }
      = map_option (\<lambda>bs. (bs, (a + int (Suc n)) * cols)) (do { bs \<leftarrow> forward128_row support cols sz p off a bs; foldM (forward128_row support cols sz p off) [a + 1..(a + 1) + int n - 1] bs })"
      using Suc.IH[of "a + 1" bs'] Suc.prems by (simp add: add.assoc)
  qed simp
qed simp

text \<open>
  C30. Rebuilding one projection (\<^const>\<open>transform128_forward_one_proj\<close>), which has loops of its own, gives the bins of the Mojette projection of the block, each the exclusive or of the pixels on its line; these are the bins
  that encoding the whole block gives for it, and no other projection is touched.
\<close>

theorem transform128_forward_one_proj_agrees:
  assumes "0 \<le> cols" "0 \<le> rows" "int (length support) = rows * cols" "length prjs \<le> 1024"
    and "\<forall>pr\<in>set prjs. psize pr = int (length (bins pr))" and "unat proj_id < length prjs"
  shows "\<exists>prjs'. transform128_forward support rows (2 * cols) (int (length prjs)) prjs = Some prjs'
    \<and> transform128_forward_one_proj support rows (2 * cols) proj_id prjs = Some (prjs[unat proj_id := prjs' ! unat proj_id])
    \<and> (\<forall>b. 0 \<le> b \<and> b < psize (prjs ! unat proj_id) \<longrightarrow>
         bins (prjs' ! unat proj_id) ! nat b = xor_sum (image_of support cols) (on_bin rows cols (prj_p (prjs ! unat proj_id)) b))"
proof -
  let ?i = "unat proj_id"
  obtain prjs' where f: "transform128_forward support rows (2 * cols) (int (length prjs)) prjs = Some prjs'"
    "\<forall>j < length prjs. angle (prjs' ! j) = angle (prjs ! j) \<and> psize (prjs' ! j) = psize (prjs ! j)
         \<and> length (bins (prjs' ! j)) = length (bins (prjs ! j)) \<and> is_projection128 support rows cols (prjs' ! j)"
    using transform128_forward_projects[OF assms(1-4)] assms(5) by auto
  obtain bs bs' where e: "clear_bins (psize (prjs ! ?i)) (bins (prjs ! ?i)) = Some bs"
    "forward128_rows support rows cols (psize (prjs ! ?i)) (prj_p (prjs ! ?i)) bs = Some bs'"
    "length bs' = length (bins (prjs ! ?i))" "is_projection128 support rows cols ((prjs ! ?i)\<lparr>bins := bs'\<rparr>)"
    using encode_one_projection[OF assms(1-3), of "prjs ! ?i"] assms(5,6) by auto
  have "bins (prjs' ! ?i) = bs'"
  proof (rule nth_equalityI)
    fix b assume "b < length (bins (prjs' ! ?i))"
    then show "bins (prjs' ! ?i) ! b = bs' ! b"
      using f(2)[rule_format, OF assms(6)] e(3,4) assms(5,6) nth_mem[OF assms(6)]
      by (auto simp: is_projection128_def dest!: spec[of _ "int b"])
  qed (use f(2) e(3) assms(6) in simp)
  then have p: "(prjs ! ?i)\<lparr>bins := bs'\<rparr> = prjs' ! ?i" using f(2) assms(6) by simp
  let ?off = "if prj_p (prjs ! ?i) < 0 then (rows - 1) * prj_p (prjs ! ?i) else 0"
  have off: "?off = bin_offset rows (prj_p (prjs ! ?i))" by (simp add: bin_offset_def)
  have "foldM (one_proj_row support cols (psize (prjs ! ?i)) (prj_p (prjs ! ?i)) ?off) [0..rows - 1] (bs, 0) = Some (bs', rows * cols)"
    using one_proj_rows_eq[of 0 support cols "psize (prjs ! ?i)" "prj_p (prjs ! ?i)" ?off "nat rows" bs] e(2) assms(2) unfolding off by (simp add: forward128_rows_def)
  moreover have u: "uint proj_id = int ?i" by simp
  have "uint proj_id < int (length prjs)" using assms(6) u by linarith
  then have g: "arr_get prjs (uint proj_id) = Some (prjs ! ?i)" "arr_set prjs (uint proj_id) x = Some (prjs[?i := x])" for x
    by (simp_all add: arr_get_in arr_set_in)
  ultimately have "transform128_forward_one_proj support rows (2 * cols) proj_id prjs = Some (prjs[?i := prjs' ! ?i])"
    using e(1) p g by (simp add: transform128_forward_one_proj_def Let_def)
  moreover have "bins (prjs' ! ?i) ! nat b = xor_sum (image_of support cols) (on_bin rows cols (prj_p (prjs ! ?i)) b)" if "0 \<le> b" "b < psize (prjs ! ?i)" for b
    using f(2)[rule_format, OF assms(6)] that by (auto simp: is_projection128_def)
  ultimately show ?thesis using f(1) by blast
qed

theorem transform128_forward_one_proj_agrees_witness:
  "\<exists>prjs'. transform128_forward [1, 2, 3, 4] 2 4 2 [\<lparr>angle = \<lparr>ang_p = 0, ang_q = 1\<rparr>, psize = 2, bins = [9, 9]\<rparr>,
       \<lparr>angle = \<lparr>ang_p = 1, ang_q = 1\<rparr>, psize = 3, bins = [9, 9, 9]\<rparr>] = Some prjs'
    \<and> transform128_forward_one_proj [1, 2, 3, 4] 2 4 1 [\<lparr>angle = \<lparr>ang_p = 0, ang_q = 1\<rparr>, psize = 2, bins = [9, 9]\<rparr>,
       \<lparr>angle = \<lparr>ang_p = 1, ang_q = 1\<rparr>, psize = 3, bins = [9, 9, 9]\<rparr>] = Some [\<lparr>angle = \<lparr>ang_p = 0, ang_q = 1\<rparr>, psize = 2, bins = [9, 9]\<rparr>, prjs' ! 1]"
  using transform128_forward_one_proj_agrees[of 2 2 "[1, 2, 3, 4]" "[\<lparr>angle = \<lparr>ang_p = 0, ang_q = 1\<rparr>, psize = 2, bins = [9, 9]\<rparr>,
       \<lparr>angle = \<lparr>ang_p = 1, ang_q = 1\<rparr>, psize = 3, bins = [9, 9, 9]\<rparr>]" 1] by auto



end
