(* ===== verification/Layout.thy ===== *)
theory Layout
  imports Mojette128
begin

text \<open>
  The erasure-code layouts of \<^verbatim>\<open>rozofs/rozofs_srv.c\<close> and \<^verbatim>\<open>rozofs/rozofs_srv.h\<close>: for each layout how many
  projections are written (\<^verbatim>\<open>rozofs_forward\<close>) and how many give a block back (\<^verbatim>\<open>rozofs_inverse\<close>), the
  angles, and the number of bins of each projection that are kept on disk. The theory proves that the
  kept bins are exactly those some set of \<^verbatim>\<open>rozofs_inverse\<close> projections needs, and that the 128-bit codec
  run with these sizes recovers every block.
\<close>

section \<open>Model\<close>

text \<open>\<^verbatim>\<open>uint16_t\<close> fields are integers reduced modulo \<open>2 ^ 16\<close>. The two redundancy coefficients, of type
  \<^verbatim>\<open>float\<close> and read only by the displays, are left out.\<close>

record rozofs_conf_psizes_t =
  rozofs_psizes_max :: int
  rozofs_eff_psizes_max :: int
  rozofs_psizes :: "int list"
  rozofs_eff_psizes :: "int list"
  rozofs_128bits_psizes :: "int list"
  rozofs_128bits_psizes_max :: int

record rozofs_conf_layout_t =
  rozofs_safe :: int
  rozofs_forward :: int
  rozofs_inverse :: int
  rozofs_angles :: "angle_t list"
  sizes :: "rozofs_conf_psizes_t list"

definition to_u16 :: "int \<Rightarrow> int" where
  "to_u16 x = x mod 65536"

abbreviation (input) LAYOUT_MAX :: int where "LAYOUT_MAX \<equiv> 3"
abbreviation (input) ROZOFS_BSIZE_8K :: int where "ROZOFS_BSIZE_8K \<equiv> 1"
abbreviation (input) ROZOFS_BSIZE_MAX :: int where "ROZOFS_BSIZE_MAX \<equiv> 3"

definition ROZOFS_BSIZE_BYTES :: "int \<Rightarrow> int" where
  "ROZOFS_BSIZE_BYTES v = 4 * 1024 * 2 ^ nat v"

definition layout0_128bits_tb :: "int list list" where
  "layout0_128bits_tb = [[64, 64, 64], [128, 128, 128], [256, 256, 256]]"

definition layout1_128bits_tb :: "int list list" where
  "layout1_128bits_tb = [[32, 34, 34, 32, 33, 32], [64, 66, 66, 64, 65, 64], [128, 130, 130, 128, 129, 128]]"

definition layout2_128bits_tb :: "int list list" where
  "layout2_128bits_tb =
     [[16, 21, 24, 25, 24, 21, 16, 20, 22, 22, 20, 16],
      [32, 37, 40, 41, 40, 37, 32, 36, 38, 38, 36, 32],
      [64, 69, 72, 73, 72, 69, 64, 68, 70, 70, 68, 64]]"

text \<open>
  One turn of the loop over the projections. \<open>tb\<close> is \<^verbatim>\<open>cur_prj_sz_tb\<close>, the row \<^verbatim>\<open>local_tb[bsize+1]\<close>: beyond
  8K there is none, the pointer read is indeterminate (\<^const>\<open>None\<close>), and following it would be a fault.
\<close>

definition layout_psize_step ::
  "int \<Rightarrow> int \<Rightarrow> int \<Rightarrow> int list option \<Rightarrow> int \<Rightarrow> rozofs_conf_psizes_t \<Rightarrow> rozofs_conf_psizes_t option"
where
  "layout_psize_step nfwd ninv bsize tb i s = do {
     let ps = to_u16 (\<bar>i - nfwd div 2\<bar> * (ninv - 1) + (ROZOFS_BSIZE_BYTES bsize div 8 div ninv - 1) + 1);
     let ps128 = to_u16 (\<bar>i - nfwd div 2\<bar> * (ninv - 1) + (ROZOFS_BSIZE_BYTES bsize div (2 * 8) div ninv - 1) + 1);
     let max128 = (if ps128 > rozofs_128bits_psizes_max s then ps128 else rozofs_128bits_psizes_max s);
     let modulo = (ps * 8) mod 16;
     let ps = (if modulo \<noteq> 0 then to_u16 (ps + 1) else ps);
     let pmax = (if ps > rozofs_psizes_max s then ps else rozofs_psizes_max s);
     let s = s\<lparr>rozofs_psizes := rozofs_psizes s @ [ps], rozofs_psizes_max := pmax,
               rozofs_128bits_psizes := rozofs_128bits_psizes s @ [ps128], rozofs_128bits_psizes_max := max128\<rparr>;
     if bsize > ROZOFS_BSIZE_8K
     then Some (s\<lparr>rozofs_eff_psizes := rozofs_eff_psizes s @ [0], rozofs_eff_psizes_max := 0\<rparr>)
     else do {
       row \<leftarrow> tb;
       v \<leftarrow> arr_get row i;
       let eff = to_u16 v;
       Some (s\<lparr>rozofs_eff_psizes := rozofs_eff_psizes s @ [eff],
               rozofs_eff_psizes_max := (if eff > rozofs_eff_psizes_max s then eff else rozofs_eff_psizes_max s)\<rparr>) } }"

definition layout_psizes :: "int \<Rightarrow> int \<Rightarrow> int list list \<Rightarrow> int \<Rightarrow> rozofs_conf_psizes_t option" where
  "layout_psizes nfwd ninv local_tb bsize =
     foldM (layout_psize_step nfwd ninv bsize (arr_get local_tb (bsize + 1))) [0..nfwd - 1]
       \<lparr>rozofs_psizes_max = 0, rozofs_eff_psizes_max = 0, rozofs_psizes = [], rozofs_eff_psizes = [],
        rozofs_128bits_psizes = [], rozofs_128bits_psizes_max = 0\<rparr>"

definition layout_entry :: "int \<Rightarrow> int \<Rightarrow> int \<Rightarrow> int list list \<Rightarrow> rozofs_conf_layout_t option" where
  "layout_entry safe nfwd ninv local_tb = do {
     sz \<leftarrow> foldM (\<lambda>bsize acc. do { s \<leftarrow> layout_psizes nfwd ninv local_tb bsize; Some (acc @ [s]) }) [0..ROZOFS_BSIZE_MAX] [];
     Some \<lparr>rozofs_safe = safe, rozofs_forward = nfwd, rozofs_inverse = ninv,
       rozofs_angles = map (\<lambda>i. \<lparr>ang_p = i - nfwd div 2, ang_q = 1\<rparr>) [0..nfwd - 1], sizes = sz\<rparr> }"

definition rozofs_layout_initialize :: "rozofs_conf_layout_t list option" where
  "rozofs_layout_initialize = foldM (\<lambda>layout tbl. do {
     e \<leftarrow> (if layout = 0 then layout_entry 4 3 2 layout0_128bits_tb
           else if layout = 1 then layout_entry 8 6 4 layout1_128bits_tb
           else if layout = 2 then layout_entry 16 12 8 layout2_128bits_tb
           else None);
     Some (tbl @ [e]) }) [0..LAYOUT_MAX - 1] []"

text \<open>The table as the programs see it after \<^verbatim>\<open>rozofs_layout_initialize()\<close>.\<close>

definition rozofs_conf_layout_table :: "rozofs_conf_layout_t list" where
  "rozofs_conf_layout_table = (case rozofs_layout_initialize of Some t \<Rightarrow> t | None \<Rightarrow> [])"

text \<open>The values that the initialisation computes.\<close>

lemma rozofs_conf_layout_table_eq [code]:
  "rozofs_conf_layout_table =
   [\<lparr>rozofs_safe = 4, rozofs_forward = 3, rozofs_inverse = 2,
     rozofs_angles = map (\<lambda>p. \<lparr>ang_p = p, ang_q = 1\<rparr>) [- 1, 0, 1],
     sizes =
      [\<lparr>rozofs_psizes_max = 258, rozofs_eff_psizes_max = 128,
       rozofs_psizes = [258, 256, 258],
       rozofs_eff_psizes = [128, 128, 128],
       rozofs_128bits_psizes = [129, 128, 129], rozofs_128bits_psizes_max = 129\<rparr>,
       \<lparr>rozofs_psizes_max = 514, rozofs_eff_psizes_max = 256,
       rozofs_psizes = [514, 512, 514],
       rozofs_eff_psizes = [256, 256, 256],
       rozofs_128bits_psizes = [257, 256, 257], rozofs_128bits_psizes_max = 257\<rparr>,
       \<lparr>rozofs_psizes_max = 1026, rozofs_eff_psizes_max = 0,
       rozofs_psizes = [1026, 1024, 1026],
       rozofs_eff_psizes = [0, 0, 0],
       rozofs_128bits_psizes = [513, 512, 513], rozofs_128bits_psizes_max = 513\<rparr>,
       \<lparr>rozofs_psizes_max = 2050, rozofs_eff_psizes_max = 0,
       rozofs_psizes = [2050, 2048, 2050],
       rozofs_eff_psizes = [0, 0, 0],
       rozofs_128bits_psizes = [1025, 1024, 1025], rozofs_128bits_psizes_max = 1025\<rparr>]\<rparr>,
    \<lparr>rozofs_safe = 8, rozofs_forward = 6, rozofs_inverse = 4,
     rozofs_angles = map (\<lambda>p. \<lparr>ang_p = p, ang_q = 1\<rparr>) [- 3, - 2, - 1, 0, 1, 2],
     sizes =
      [\<lparr>rozofs_psizes_max = 138, rozofs_eff_psizes_max = 66,
       rozofs_psizes = [138, 134, 132, 128, 132, 134],
       rozofs_eff_psizes = [64, 66, 66, 64, 65, 64],
       rozofs_128bits_psizes = [73, 70, 67, 64, 67, 70], rozofs_128bits_psizes_max = 73\<rparr>,
       \<lparr>rozofs_psizes_max = 266, rozofs_eff_psizes_max = 130,
       rozofs_psizes = [266, 262, 260, 256, 260, 262],
       rozofs_eff_psizes = [128, 130, 130, 128, 129, 128],
       rozofs_128bits_psizes = [137, 134, 131, 128, 131, 134], rozofs_128bits_psizes_max = 137\<rparr>,
       \<lparr>rozofs_psizes_max = 522, rozofs_eff_psizes_max = 0,
       rozofs_psizes = [522, 518, 516, 512, 516, 518],
       rozofs_eff_psizes = [0, 0, 0, 0, 0, 0],
       rozofs_128bits_psizes = [265, 262, 259, 256, 259, 262], rozofs_128bits_psizes_max = 265\<rparr>,
       \<lparr>rozofs_psizes_max = 1034, rozofs_eff_psizes_max = 0,
       rozofs_psizes = [1034, 1030, 1028, 1024, 1028, 1030],
       rozofs_eff_psizes = [0, 0, 0, 0, 0, 0],
       rozofs_128bits_psizes = [521, 518, 515, 512, 515, 518], rozofs_128bits_psizes_max = 521\<rparr>]\<rparr>,
    \<lparr>rozofs_safe = 16, rozofs_forward = 12, rozofs_inverse = 8,
     rozofs_angles = map (\<lambda>p. \<lparr>ang_p = p, ang_q = 1\<rparr>) [- 6, - 5, - 4, - 3, - 2, - 1, 0, 1, 2, 3, 4, 5],
     sizes =
      [\<lparr>rozofs_psizes_max = 106, rozofs_eff_psizes_max = 41,
       rozofs_psizes = [106, 100, 92, 86, 78, 72, 64, 72, 78, 86, 92, 100],
       rozofs_eff_psizes = [32, 37, 40, 41, 40, 37, 32, 36, 38, 38, 36, 32],
       rozofs_128bits_psizes = [74, 67, 60, 53, 46, 39, 32, 39, 46, 53, 60, 67], rozofs_128bits_psizes_max = 74\<rparr>,
       \<lparr>rozofs_psizes_max = 170, rozofs_eff_psizes_max = 73,
       rozofs_psizes = [170, 164, 156, 150, 142, 136, 128, 136, 142, 150, 156, 164],
       rozofs_eff_psizes = [64, 69, 72, 73, 72, 69, 64, 68, 70, 70, 68, 64],
       rozofs_128bits_psizes = [106, 99, 92, 85, 78, 71, 64, 71, 78, 85, 92, 99], rozofs_128bits_psizes_max = 106\<rparr>,
       \<lparr>rozofs_psizes_max = 298, rozofs_eff_psizes_max = 0,
       rozofs_psizes = [298, 292, 284, 278, 270, 264, 256, 264, 270, 278, 284, 292],
       rozofs_eff_psizes = [0, 0, 0, 0, 0, 0, 0, 0, 0, 0, 0, 0],
       rozofs_128bits_psizes = [170, 163, 156, 149, 142, 135, 128, 135, 142, 149, 156, 163], rozofs_128bits_psizes_max = 170\<rparr>,
       \<lparr>rozofs_psizes_max = 554, rozofs_eff_psizes_max = 0,
       rozofs_psizes = [554, 548, 540, 534, 526, 520, 512, 520, 526, 534, 540, 548],
       rozofs_eff_psizes = [0, 0, 0, 0, 0, 0, 0, 0, 0, 0, 0, 0],
       rozofs_128bits_psizes = [298, 291, 284, 277, 270, 263, 256, 263, 270, 277, 284, 291], rozofs_128bits_psizes_max = 298\<rparr>]\<rparr>]"
  by code_simp

subsection \<open>Accessors\<close>

definition layout_field :: "(rozofs_conf_layout_t \<Rightarrow> int) \<Rightarrow> int \<Rightarrow> int" where
  "layout_field f layout = (if layout \<ge> LAYOUT_MAX then 0 else f (rozofs_conf_layout_table ! nat layout))"

definition rozofs_get_rozofs_inverse :: "int \<Rightarrow> int" where
  "rozofs_get_rozofs_inverse = layout_field rozofs_inverse"

definition rozofs_get_rozofs_forward :: "int \<Rightarrow> int" where
  "rozofs_get_rozofs_forward = layout_field rozofs_forward"

definition rozofs_get_rozofs_safe :: "int \<Rightarrow> int" where
  "rozofs_get_rozofs_safe = layout_field rozofs_safe"

text \<open>This accessor reads the table first and checks the layout afterwards.\<close>

definition rozofs_get_rozofs_invers_forward_safe :: "int \<Rightarrow> (int \<times> int \<times> int \<times> int) option" where
  "rozofs_get_rozofs_invers_forward_safe layout = do {
     e \<leftarrow> arr_get rozofs_conf_layout_table layout;
     Some (rozofs_inverse e, rozofs_forward e, rozofs_safe e, if layout \<ge> LAYOUT_MAX then -1 else 0) }"

definition angle_field :: "(angle_t \<Rightarrow> int) \<Rightarrow> int \<Rightarrow> int \<Rightarrow> int" where
  "angle_field f layout projection_id =
     (if layout \<ge> LAYOUT_MAX then 0
      else let e = rozofs_conf_layout_table ! nat layout in
        if projection_id \<ge> rozofs_forward e then 0 else f (rozofs_angles e ! nat projection_id))"

definition rozofs_get_angles_p :: "int \<Rightarrow> int \<Rightarrow> int" where
  "rozofs_get_angles_p = angle_field ang_p"

definition rozofs_get_angles_q :: "int \<Rightarrow> int \<Rightarrow> int" where
  "rozofs_get_angles_q = angle_field ang_q"

definition psize_field :: "(rozofs_conf_psizes_t \<Rightarrow> int list) \<Rightarrow> int \<Rightarrow> int \<Rightarrow> int \<Rightarrow> int option" where
  "psize_field f layout bsize projection_id =
     (if layout \<ge> LAYOUT_MAX then None
      else if bsize > ROZOFS_BSIZE_MAX then None
      else let e = rozofs_conf_layout_table ! nat layout in
        if projection_id \<ge> rozofs_forward e then None else Some (f (sizes e ! nat bsize) ! nat projection_id))"

definition rozofs_get_psizes :: "int \<Rightarrow> int \<Rightarrow> int \<Rightarrow> int" where
  "rozofs_get_psizes layout bsize projection_id =
     (case psize_field rozofs_eff_psizes layout bsize projection_id of None \<Rightarrow> 0 | Some s \<Rightarrow> 2 * s)"

definition rozofs_get_legacy_psizes :: "int \<Rightarrow> int \<Rightarrow> int \<Rightarrow> int" where
  "rozofs_get_legacy_psizes layout bsize projection_id =
     (case psize_field rozofs_psizes layout bsize projection_id of None \<Rightarrow> 0 | Some s \<Rightarrow> s)"

definition rozofs_get_128bits_psizes :: "int \<Rightarrow> int \<Rightarrow> int \<Rightarrow> int" where
  "rozofs_get_128bits_psizes layout bsize projection_id =
     (case psize_field rozofs_eff_psizes layout bsize projection_id of None \<Rightarrow> 0 | Some s \<Rightarrow> s)"

text \<open>\<^verbatim>\<open>sizeof(bin_t)\<close> is 8, \<^verbatim>\<open>sizeof(rozofs_stor_bins_hdr_t)\<close> 16 and \<^verbatim>\<open>sizeof(rozofs_stor_bins_footer_t)\<close> 8.\<close>

definition rozofs_get_psizes_on_disk :: "int \<Rightarrow> int \<Rightarrow> int \<Rightarrow> int" where
  "rozofs_get_psizes_on_disk layout bsize projection_id =
     (case psize_field rozofs_eff_psizes layout bsize projection_id of None \<Rightarrow> 0 | Some s \<Rightarrow> 2 * s * 8 + 16 + 8)"

definition max_psize_field :: "(rozofs_conf_psizes_t \<Rightarrow> int) \<Rightarrow> int \<Rightarrow> int \<Rightarrow> int option" where
  "max_psize_field f layout bsize =
     (if layout \<ge> LAYOUT_MAX then None
      else if bsize > ROZOFS_BSIZE_MAX then None
      else Some (f (sizes (rozofs_conf_layout_table ! nat layout) ! nat bsize)))"

definition rozofs_get_max_psize :: "int \<Rightarrow> int \<Rightarrow> int" where
  "rozofs_get_max_psize layout bsize =
     (case max_psize_field rozofs_eff_psizes_max layout bsize of None \<Rightarrow> 0 | Some s \<Rightarrow> 2 * s)"

definition rozofs_get_max_psize_128bits :: "int \<Rightarrow> int \<Rightarrow> int" where
  "rozofs_get_max_psize_128bits layout bsize =
     (case max_psize_field rozofs_128bits_psizes_max layout bsize of None \<Rightarrow> 0 | Some s \<Rightarrow> s)"

definition rozofs_get_max_psize_in_msg :: "int \<Rightarrow> int \<Rightarrow> int" where
  "rozofs_get_max_psize_in_msg layout bsize =
     (case max_psize_field rozofs_eff_psizes_max layout bsize of None \<Rightarrow> 0
      | Some s \<Rightarrow> let sz = 2 * s * 8 + 16 + 8 in if sz mod 16 \<noteq> 0 then sz + (16 - sz mod 16) else sz)"

definition rozofs_get_max_psize_on_disk :: "int \<Rightarrow> int \<Rightarrow> int" where
  "rozofs_get_max_psize_on_disk = rozofs_get_max_psize_in_msg"

section \<open>The layout tables\<close>

text \<open>The number of extra bins that projection \<open>i\<close> of \<open>F\<close> can need, beyond one per column, in some set of
  \<open>R\<close> projections: at most \<open>F - 1 - i\<close> of them have a larger angle, at most \<open>i\<close> a smaller one.\<close>

definition extra_bins :: "int \<Rightarrow> int \<Rightarrow> int \<Rightarrow> int" where
  "extra_bins R F i = (let p = i - F div 2 in
     if p < 0 then - p * min (R - 1) i else p * min (R - 1) (F - 1 - i))"

definition block_cols :: "int \<Rightarrow> int \<Rightarrow> int" where
  "block_cols layout bsize = ROZOFS_BSIZE_BYTES bsize div 16 div rozofs_get_rozofs_inverse layout"

lemma small_layout_cases:
  fixes layout :: int
  assumes "0 \<le> layout" "layout < 3"
  obtains "layout = 0" | "layout = 1" | "layout = 2"
  using assms by force

lemma layout_params:
  "rozofs_get_rozofs_inverse 0 = 2" "rozofs_get_rozofs_inverse 1 = 4" "rozofs_get_rozofs_inverse 2 = 8"
  "rozofs_get_rozofs_forward 0 = 3" "rozofs_get_rozofs_forward 1 = 6" "rozofs_get_rozofs_forward 2 = 12"
  "rozofs_get_rozofs_safe 0 = 4" "rozofs_get_rozofs_safe 1 = 8" "rozofs_get_rozofs_safe 2 = 16"
  by code_simp+

lemma layout_table_facts:
  "list_all (\<lambda>layout. let F = rozofs_get_rozofs_forward layout; R = rozofs_get_rozofs_inverse layout in
     list_all (\<lambda>i. rozofs_get_angles_p layout i = i - F div 2 \<and> rozofs_get_angles_q layout i = 1) [0..F - 1] \<and>
     list_all (\<lambda>bsize. let C = block_cols layout bsize; S = rozofs_get_max_psize layout bsize div 2 + 32 in
       rozofs_get_max_psize layout bsize mod 2 = 0 \<and> R * C = ROZOFS_BSIZE_BYTES bsize div 16 \<and>
       2 * C = ROZOFS_BSIZE_BYTES bsize div R div 8 \<and> 32 \<le> C \<and> 4 + R * S < 1152 \<and> C - 1 + F div 2 * (R - 1) \<le> S \<and>
       list_all (\<lambda>i. rozofs_get_128bits_psizes layout bsize i = C + extra_bins R F i
          \<and> rozofs_get_128bits_psizes layout bsize i + 32 \<le> S) [0..F - 1]) [0, 1]) [0, 1, 2]"
  by code_simp

section \<open>Angles and path length of a set of projections\<close>

lemma dec_angles_gap:
  assumes "dec_angles R pa" "0 \<le> i" "i \<le> j" "j < R"
  shows "pa j + (j - i) \<le> pa i"
proof -
  have "pa (i + int n) + int n \<le> pa i" if "i + int n < R" for n
    using that
  proof (induction n)
    case (Suc n)
    then have "pa (i + int (Suc n)) < pa (i + int n)" using assms(2) by (intro dec_anglesD[OF assms(1)]) auto
    with Suc show ?case by simp
  qed simp
  from this[of "nat (j - i)"] assms show ?thesis by simp
qed

lemma dec_angles_range:
  assumes "dec_angles R pa" "\<And>l. 0 \<le> l \<Longrightarrow> l < R \<Longrightarrow> lo \<le> pa l \<and> pa l \<le> hi" "0 \<le> l" "l < R"
  shows "pa l \<le> hi - l \<and> lo + (R - 1 - l) \<le> pa l"
  using dec_angles_gap[OF assms(1), of 0 l] dec_angles_gap[OF assms(1), of l "R - 1"]
    assms(2)[of 0] assms(2)[of "R - 1"] assms(3,4) by auto

definition path_bound :: "int \<Rightarrow> int \<Rightarrow> int \<Rightarrow> int" where
  "path_bound R lo hi = max (\<Sum>j\<leftarrow>[1..R - 1]. max 0 (- (lo + (R - 1 - j)))) (2 * (\<Sum>j\<leftarrow>[1..R - 1]. max 0 (hi - j)))"

lemma kmax_le_path_bound:
  assumes dec: "dec_angles R pa" and r: "\<And>l. 0 \<le> l \<Longrightarrow> l < R \<Longrightarrow> lo \<le> pa l \<and> pa l \<le> hi" and "1 < R"
  shows "kmax R pa \<le> path_bound R lo hi"
proof -
  define N P where "N = (\<Sum>j\<in>{1..R - 1}. max 0 (- pa j))" and "P = (\<Sum>j\<in>{1..R - 1}. max 0 (pa j))"
  have range: "pa j \<le> hi - j \<and> lo + (R - 1 - j) \<le> pa j" if "1 \<le> j" "j \<le> R - 1" for j
    using dec_angles_range[OF dec r, of j] that by auto
  have split: "(\<Sum>j\<in>{1..R - 1}. g j) = (\<Sum>j\<in>{1..R - 2}. g j) + g (R - 1)" for g :: "int \<Rightarrow> int"
    using sum_ivl_split[of 1 "R - 2" "R - 1" g] assms(3) by simp
  have "(\<Sum>j\<in>{1..R - 1}. pa j) = P - N"
    by (simp add: P_def N_def flip: sum_subtractf) (rule sum.cong, auto)
  moreover have "koff_rdv R pa = max N P" by (simp add: koff_rdv_def N_def P_def split add.commute)
  ultimately have "kmax R pa = max (max N P + (P - N)) (max N P)" by (simp add: kmax_def koff_def)
  moreover have "0 \<le> P" "0 \<le> N" by (simp_all add: P_def N_def sum_nonneg)
  ultimately have "kmax R pa \<le> max N (2 * P)" by auto
  moreover have "N \<le> (\<Sum>j\<in>{1..R - 1}. max 0 (- (lo + (R - 1 - j))))"
    unfolding N_def using range by (intro sum_mono max.mono) force+
  moreover have "P \<le> (\<Sum>j\<in>{1..R - 1}. max 0 (hi - j))"
    unfolding P_def using range by (intro sum_mono max.mono) force+
  ultimately show ?thesis by (auto simp: path_bound_def simp flip: sum_set_upto_conv_sum_list_int)
qed

text \<open>Row \<open>l\<close> reads its projection only in the bins that are kept.\<close>

lemma read_bins_kept:
  assumes dec: "dec_angles R pa"
    and r: "\<And>l. 0 \<le> l \<Longrightarrow> l < R \<Longrightarrow> - (F div 2) \<le> pa l \<and> pa l \<le> F - 1 - F div 2"
    and l: "0 \<le> l" "l < R" "c < C" and i: "pa l = i - F div 2"
  shows "bin_index R (pa l) l c < C + extra_bins R F i"
proof (cases "pa l < 0")
  case True
  have "(R - 1 - l) * - pa l \<le> min (R - 1) i * - pa l"
    using dec_angles_range[OF dec r, of l] l i True by (intro mult_right_mono) auto
  moreover have "extra_bins R F i = min (R - 1) i * - pa l" using True i by (simp add: extra_bins_def Let_def)
  moreover have "bin_index R (pa l) l c = c + (R - 1 - l) * - pa l"
    using True by (simp add: bin_index_def bin_offset_def algebra_simps)
  ultimately show ?thesis using l by linarith
next
  case False
  have "l * pa l \<le> min (R - 1) (F - 1 - i) * pa l"
    using dec_angles_range[OF dec r, of l] l i False by (intro mult_right_mono) auto
  moreover have "extra_bins R F i = min (R - 1) (F - 1 - i) * pa l" using False i by (simp add: extra_bins_def Let_def)
  moreover have "bin_index R (pa l) l c = c + l * pa l" using False by (simp add: bin_index_def bin_offset_def)
  ultimately show ?thesis using l by linarith
qed

lemma extra_bins_nonneg: "1 \<le> R \<Longrightarrow> 0 \<le> i \<Longrightarrow> i < F \<Longrightarrow> 0 \<le> extra_bins R F i"
  by (auto simp: extra_bins_def Let_def intro!: mult_nonneg_nonneg mult_nonpos_nonneg)

section \<open>The deployed codec\<close>

text \<open>The projections \<open>sel\<close> of a layout, with bins \<open>bs\<close>: what the callers put in the table of projections.\<close>

definition layout_projection :: "int \<Rightarrow> int \<Rightarrow> int \<Rightarrow> 'b \<Rightarrow> 'b projection_t" where
  "layout_projection layout bsize i bs =
     \<lparr>angle = \<lparr>ang_p = rozofs_get_angles_p layout i, ang_q = rozofs_get_angles_q layout i\<rparr>,
      psize = rozofs_get_128bits_psizes layout bsize i, bins = bs\<rparr>"

definition layout_step :: "int \<Rightarrow> int \<Rightarrow> int" where
  "layout_step layout bsize = rozofs_get_max_psize layout bsize div 2 + 32"

lemma layout_facts:
  assumes "0 \<le> layout" "layout < 3" "bsize = 0 \<or> bsize = 1"
  defines "R \<equiv> rozofs_get_rozofs_inverse layout" and "F \<equiv> rozofs_get_rozofs_forward layout"
    and "C \<equiv> block_cols layout bsize" and "S \<equiv> layout_step layout bsize"
  shows "1 < R" "R \<le> F" "F \<le> 12" "R * C = ROZOFS_BSIZE_BYTES bsize div 16" "2 * C = ROZOFS_BSIZE_BYTES bsize div R div 8"
    "rozofs_get_max_psize layout bsize * 8 = 16 * (S - 32)" "4 + R * S < 1152" "C - 1 + F div 2 * (R - 1) \<le> S"
    "path_bound R (- (F div 2)) (F - 1 - F div 2) < C - 1" "32 \<le> C"
    and "\<And>i. 0 \<le> i \<Longrightarrow> i < F \<Longrightarrow> rozofs_get_angles_p layout i = i - F div 2 \<and> rozofs_get_angles_q layout i = 1
      \<and> rozofs_get_128bits_psizes layout bsize i = C + extra_bins R F i \<and> rozofs_get_128bits_psizes layout bsize i + 32 \<le> S"
proof -
  have "layout \<in> set [0, 1, 2]" "bsize \<in> set [0, 1]" using assms by auto
  note t = layout_table_facts[unfolded list_all_iff Let_def, rule_format, OF this(1), THEN conjunct1, rule_format]
    layout_table_facts[unfolded list_all_iff Let_def, rule_format, OF this(1), THEN conjunct2, rule_format, OF this(2)]
  show "1 < R" "R \<le> F" "F \<le> 12" unfolding R_def F_def
    by (rule small_layout_cases[OF assms(1,2)]; simp add: layout_params)+
  show "R * C = ROZOFS_BSIZE_BYTES bsize div 16" "2 * C = ROZOFS_BSIZE_BYTES bsize div R div 8"
    "rozofs_get_max_psize layout bsize * 8 = 16 * (S - 32)" "4 + R * S < 1152" "C - 1 + F div 2 * (R - 1) \<le> S"
    using t(2) by (auto simp: R_def F_def C_def S_def layout_step_def)
  have "path_bound R (- (F div 2)) (F - 1 - F div 2) \<le> 21" unfolding R_def F_def
    by (rule small_layout_cases[OF assms(1,2)]; simp add: layout_params; code_simp)
  then show "path_bound R (- (F div 2)) (F - 1 - F div 2) < C - 1" "32 \<le> C" using t(2) by (simp_all add: C_def)
  show "rozofs_get_angles_p layout i = i - F div 2 \<and> rozofs_get_angles_q layout i = 1
      \<and> rozofs_get_128bits_psizes layout bsize i = C + extra_bins R F i \<and> rozofs_get_128bits_psizes layout bsize i + 32 \<le> S"
    if "0 \<le> i" "i < F" for i
    using t(1)[of i] t(2) that by (auto simp: R_def F_def C_def S_def layout_step_def dest!: bspec[of _ _ i])
qed

lemma layout_decodable:
  fixes sel :: "int list"
  assumes lb: "0 \<le> layout" "layout < 3" "bsize = 0 \<or> bsize = 1"
    and sel: "int (length sel) = rozofs_get_rozofs_inverse layout" "distinct sel"
      "\<And>i. i \<in> set sel \<Longrightarrow> 0 \<le> i \<and> i < rozofs_get_rozofs_forward layout"
    and supp: "int (length support) = ROZOFS_BSIZE_BYTES bsize div 16"
    and prj: "\<And>i. i \<in> set sel \<Longrightarrow> is_projection128 support (rozofs_get_rozofs_inverse layout) (block_cols layout bsize)
       (layout_projection layout bsize i (bs i))"
  shows "decodable128 support (rozofs_get_rozofs_inverse layout) (block_cols layout bsize) (layout_step layout bsize)
     (map (\<lambda>i. layout_projection layout bsize i (bs i)) sel)"
proof -
  define R F C S where "R = rozofs_get_rozofs_inverse layout" and "F = rozofs_get_rozofs_forward layout"
    and "C = block_cols layout bsize" and "S = layout_step layout bsize"
  note f = layout_facts[OF lb, folded R_def F_def C_def S_def]
  note sel = sel[folded R_def F_def]
  let ?pr = "\<lambda>i. layout_projection layout bsize i (bs i)"
  have ang: "map prj_p (map ?pr sel) = map (\<lambda>i. i - F div 2) sel"
    using f(11) sel(3) by (simp add: layout_projection_def)
  define pa where "pa = (\<lambda>l. rev (sort (map (\<lambda>i. i - F div 2) sel)) ! nat l)"
  have d: "distinct (map (\<lambda>i. i - F div 2) sel)" using sel(2) by (simp add: distinct_map inj_on_def)
  have dec: "dec_angles R pa" unfolding pa_def by (rule dec_angles_sorted[OF d]) (use sel in simp)
  have "pa l \<in> set (map (\<lambda>i. i - F div 2) sel)" if "0 \<le> l" "l < R" for l
    using nth_mem[of "nat l" "rev (sort (map (\<lambda>i. i - F div 2) sel))"] that sel(1) by (simp add: pa_def nat_less_iff)
  then have range: "- (F div 2) \<le> pa l \<and> pa l \<le> F - 1 - F div 2" if "0 \<le> l" "l < R" for l
    using that sel(3) by fastforce
  have "kmax R pa < C - 1" using kmax_le_path_bound[OF dec range] f(1,9) by simp
  moreover have "bin_index R (i - F div 2) l c < psize (?pr i)"
    if "i \<in> set sel" "(l, c) \<in> pixels R C" "pa l = i - F div 2" for i l c
    using read_bins_kept[OF dec range, of l c C i] f(11)[of i] sel(3)[OF that(1)] that by (simp add: layout_projection_def)
  moreover have "prj_q (?pr i) = 1 \<and> 0 \<le> psize (?pr i) \<and> psize (?pr i) \<le> S \<and> C - 1 + \<bar>prj_p (?pr i)\<bar> * (R - 1) \<le> S"
    if "i \<in> set sel" for i
  proof -
    have i: "0 \<le> i" "i < F" using sel(3)[OF that] by auto
    have "\<bar>i - F div 2\<bar> * (R - 1) \<le> F div 2 * (R - 1)" using i f(1) by (intro mult_right_mono) auto
    then have "C - 1 + \<bar>i - F div 2\<bar> * (R - 1) \<le> S" using f(8) by linarith
    then show ?thesis using f(1,10) f(11)[OF i] extra_bins_nonneg[of R i F] i by (auto simp: layout_projection_def)
  qed
  ultimately have "decodable128 support R C S (map ?pr sel)"
    unfolding decodable128_def ang using f(1-4) sel d prj supp
    by (auto simp: layout_projection_def pa_def f(11) R_def C_def)
  then show ?thesis by (simp only: R_def C_def S_def)
qed

text \<open>
  C3. Erasure-code round trip of the deployed codec: for each of the three layouts, with blocks of 4K or
  8K, encode a block with \<^const>\<open>transform128_forward\<close> keeping only the bins of the layout tables, take any
  \<^verbatim>\<open>rozofs_inverse\<close> of the \<^verbatim>\<open>rozofs_forward\<close> projections, in any order, and
  \<^const>\<open>transform128_inverse_copy\<close> gives the block back, whatever the output buffer and the stack
  buffer held and wherever the stack is. No access leaves its array or is misaligned.
\<close>

theorem layout_codec_roundtrip:
  fixes sel :: "int list" and bufs :: "u128 list list"
  assumes lb: "0 \<le> layout" "layout < 3" "bsize = 0 \<or> bsize = 1"
    and "int (length support) = ROZOFS_BSIZE_BYTES bsize div 16" "length out = length support" "length buff = 1152"
    and "int (length bufs) = rozofs_get_rozofs_forward layout"
    and "\<forall>i < length bufs. rozofs_get_128bits_psizes layout bsize (int i) \<le> int (length (bufs ! i))"
    and sel: "int (length sel) = rozofs_get_rozofs_inverse layout" "distinct sel"
      "\<forall>i\<in>set sel. 0 \<le> i \<and> i < rozofs_get_rozofs_forward layout"
  defines "R \<equiv> rozofs_get_rozofs_inverse layout"
    and "prjs \<equiv> map (\<lambda>i. layout_projection layout bsize (int i) (bufs ! i)) [0..<length bufs]"
  shows "\<exists>prjs'. transform128_forward support R (ROZOFS_BSIZE_BYTES bsize div R div 8) (rozofs_get_rozofs_forward layout) prjs = Some prjs'
    \<and> (\<exists>left mem. transform128_inverse_copy out R (ROZOFS_BSIZE_BYTES bsize div R div 8) R (map (\<lambda>i. prjs' ! nat i) sel)
         (rozofs_get_max_psize layout bsize * 8) slot buff = Some (support, left, mem))"
proof -
  define C where "C = block_cols layout bsize"
  note f = layout_facts[OF lb, folded R_def C_def]
  have supp: "int (length support) = R * C" using assms(4) f(4) by simp
  have "psize pr \<le> int (length (bins pr))" if "pr \<in> set prjs" for pr
    using that assms(8) by (auto simp: prjs_def layout_projection_def)
  then obtain prjs' where fw: "transform128_forward support R (2 * C) (int (length prjs)) prjs = Some prjs'"
    and ok: "\<And>i. i < length prjs \<Longrightarrow> angle (prjs' ! i) = angle (prjs ! i) \<and> psize (prjs' ! i) = psize (prjs ! i)
        \<and> is_projection128 support R C (prjs' ! i)"
    using transform128_forward_projects[of C R support prjs] supp f(1,3,10) assms(7)
    by (auto simp: prjs_def)
  have pr: "prjs' ! nat i = layout_projection layout bsize i (bins (prjs' ! nat i)) \<and> is_projection128 support R C (prjs' ! nat i)"
    if "i \<in> set sel" for i
    using ok[of "nat i"] sel(3) that assms(7) by (auto simp: prjs_def layout_projection_def nat_less_iff)
  have "map (\<lambda>i. prjs' ! nat i) sel = map (\<lambda>i. layout_projection layout bsize i (bins (prjs' ! nat i))) sel"
    using pr by auto
  moreover have "decodable128 support R C (layout_step layout bsize) (map (\<lambda>i. layout_projection layout bsize i (bins (prjs' ! nat i))) sel)"
    unfolding R_def C_def by (rule layout_decodable[OF lb sel(1,2) _ assms(4)]) (use sel(3) pr in \<open>auto simp: R_def C_def\<close>)
  ultimately have "decodable128 support R C (layout_step layout bsize) (map (\<lambda>i. prjs' ! nat i) sel)" by (simp only:)
  from transform128_inverse_copy_recovers[OF this, of out buff slot] show ?thesis
    using fw supp assms(5-7) f(5-7) by (simp add: prjs_def)
qed

theorem layout_codec_roundtrip_witness:
  "\<exists>prjs'. transform128_forward (map word_of_nat [0..<256]) 2 256 3
       (map (\<lambda>i. layout_projection 0 0 (int i) (replicate 3 (replicate 128 9) ! i)) [0..<3]) = Some prjs'
    \<and> (\<exists>left mem. transform128_inverse_copy (replicate 256 3) 2 256 2 (map (\<lambda>i. prjs' ! nat i) [2, 0]) 2048 5 (replicate 1152 1)
         = Some (map word_of_nat [0..<256], left, mem))"
proof -
  let ?bufs = "replicate 3 (replicate 128 9) :: u128 list list"
  have e: "rozofs_get_128bits_psizes 0 0 0 = 128" "rozofs_get_128bits_psizes 0 0 1 = 128" "rozofs_get_128bits_psizes 0 0 2 = 128"
    "rozofs_get_max_psize 0 0 = 256" "ROZOFS_BSIZE_BYTES 0 = 4096" by code_simp+
  have "\<forall>i < length ?bufs. rozofs_get_128bits_psizes 0 0 (int i) \<le> int (length (?bufs ! i))"
    using e by (auto simp: less_Suc_eq numeral_3_eq_3)
  then show ?thesis
    using layout_codec_roundtrip[of 0 0 "map word_of_nat [0..<256]" "replicate 256 3" "replicate 1152 1" ?bufs "[2, 0]" 5] e
    by (simp add: layout_params del: upt_rec_numeral upt_conv_Cons)
qed

section \<open>The kept bins are all needed\<close>

text \<open>The projections around \<open>i\<close> that make the decoder read the furthest into projection \<open>i\<close>.\<close>

definition worst_set :: "int \<Rightarrow> int \<Rightarrow> int \<Rightarrow> int list" where
  "worst_set R F i = (let lo = (if i - F div 2 < 0 then i - min (R - 1) i else i - (R - 1 - min (R - 1) (F - 1 - i)))
     in [lo..lo + R - 1])"

definition reads_last_bin :: "int \<Rightarrow> int \<Rightarrow> int \<Rightarrow> int list \<Rightarrow> bool" where
  "reads_last_bin layout bsize i sel =
     (let R = rozofs_get_rozofs_inverse layout; p = rozofs_get_angles_p layout i;
          order = rev (sort (map (rozofs_get_angles_p layout) sel))
      in list_ex (\<lambda>l. order ! nat l = p \<and>
           bin_index R p l (block_cols layout bsize - 1) = rozofs_get_128bits_psizes layout bsize i - 1) [0..R - 1])"

lemma worst_sets:
  "list_all (\<lambda>layout. let F = rozofs_get_rozofs_forward layout; R = rozofs_get_rozofs_inverse layout in
     list_all (\<lambda>bsize. list_all (\<lambda>i. let sel = worst_set R F i in
       int (length sel) = R \<and> distinct sel \<and> list_all (\<lambda>j. 0 \<le> j \<and> j < F) sel \<and> reads_last_bin layout bsize i sel)
       [0..F - 1]) [0, 1]) [0, 1, 2]"
  by code_simp

text \<open>
  The sizes of the layout tables are tight: for every projection of every layout there is a set of
  \<^verbatim>\<open>rozofs_inverse\<close> projections whose decoding reads the last kept bin of that projection.
\<close>

theorem kept_bins_needed:
  assumes "0 \<le> layout" "layout < 3" "bsize = 0 \<or> bsize = 1" "0 \<le> i" "i < rozofs_get_rozofs_forward layout"
  shows "\<exists>sel. int (length sel) = rozofs_get_rozofs_inverse layout \<and> distinct sel
    \<and> (\<forall>j\<in>set sel. 0 \<le> j \<and> j < rozofs_get_rozofs_forward layout) \<and> reads_last_bin layout bsize i sel"
proof -
  have "layout \<in> set [0, 1, 2]" "bsize \<in> set [0, 1]" using assms by auto
  note w = worst_sets[unfolded list_all_iff Let_def, rule_format, OF this, of i]
  show ?thesis
    by (rule exI[of _ "worst_set (rozofs_get_rozofs_inverse layout) (rozofs_get_rozofs_forward layout) i"])
      (use w assms(4,5) in simp)
qed

theorem kept_bins_needed_witness: "\<exists>sel. int (length sel) = 8 \<and> distinct sel \<and> reads_last_bin 2 0 3 sel"
  using kept_bins_needed[of 2 0 3] by (auto simp: layout_params)

text \<open>
  Blocks larger than 8K, which the configuration accepts, are never stored: every projection of
  every layout keeps no bin at all of such a block.
\<close>

theorem large_blocks_have_no_bins:
  assumes "0 \<le> layout" "layout < 3" "bsize = 2 \<or> bsize = 3" "0 \<le> i" "i < rozofs_get_rozofs_forward layout"
  shows "rozofs_get_128bits_psizes layout bsize i = 0 \<and> rozofs_get_max_psize layout bsize = 0"
proof -
  have "list_all (\<lambda>layout. list_all (\<lambda>bsize. list_all (\<lambda>i. rozofs_get_128bits_psizes layout bsize i = 0
      \<and> rozofs_get_max_psize layout bsize = 0) [0..rozofs_get_rozofs_forward layout - 1]) [2, 3]) [0, 1, 2]"
    by code_simp
  moreover have "layout \<in> set [0, 1, 2]" "bsize \<in> set [2, 3]" using assms by auto
  ultimately show ?thesis using assms(4,5) unfolding list_all_iff by auto
qed

theorem large_blocks_have_no_bins_witness: "rozofs_get_128bits_psizes 1 2 5 = 0 \<and> rozofs_get_max_psize 1 2 = 0"
  using large_blocks_have_no_bins[of 1 2 5] by (simp add: layout_params)

end
