(* ===== verification/Fid_Bitmap.thy ===== *)
theory Fid_Bitmap
  imports Prelude
begin

text \<open>
  Bit-level data of \<^verbatim>\<open>rozofs/rozofs.h\<close>: the bitmaps built on arrays of \<^verbatim>\<open>uint64_t\<close> that track the blocks
  of a message, and the bit fields of a file identifier (\<^verbatim>\<open>rozofs_inode_t\<close>, laid over a \<^verbatim>\<open>fid_t\<close>).
\<close>

section \<open>Bitmaps over 64-bit words\<close>

definition ROZOFS_BITMAP64_BIT :: "int \<Rightarrow> u64" where
  "ROZOFS_BITMAP64_BIT n = push_bit (nat (n mod 64)) 1"

definition ROZOFS_BITMAP64_IDX :: "int \<Rightarrow> int" where
  "ROZOFS_BITMAP64_IDX n = n div 64"

definition ROZOFS_BITMAP64_SET :: "int \<Rightarrow> u64 list \<Rightarrow> u64 list option" where
  "ROZOFS_BITMAP64_SET n bm = do {
     w \<leftarrow> arr_get bm (ROZOFS_BITMAP64_IDX n);
     arr_set bm (ROZOFS_BITMAP64_IDX n) (w OR ROZOFS_BITMAP64_BIT n) }"

definition ROZOFS_BITMAP64_RESET :: "int \<Rightarrow> u64 list \<Rightarrow> u64 list option" where
  "ROZOFS_BITMAP64_RESET n bm = do {
     w \<leftarrow> arr_get bm (ROZOFS_BITMAP64_IDX n);
     arr_set bm (ROZOFS_BITMAP64_IDX n) (w AND NOT (ROZOFS_BITMAP64_BIT n)) }"

definition ROZOFS_BITMAP64_TEST0 :: "int \<Rightarrow> u64 list \<Rightarrow> bool option" where
  "ROZOFS_BITMAP64_TEST0 n bm = do {
     w \<leftarrow> arr_get bm (ROZOFS_BITMAP64_IDX n); Some (w AND ROZOFS_BITMAP64_BIT n = 0) }"

definition ROZOFS_BITMAP64_TEST1 :: "int \<Rightarrow> u64 list \<Rightarrow> bool option" where
  "ROZOFS_BITMAP64_TEST1 n bm = do {
     w \<leftarrow> arr_get bm (ROZOFS_BITMAP64_IDX n); Some (w AND ROZOFS_BITMAP64_BIT n \<noteq> 0) }"

definition ROZOFS_BITMAP64_NB_UINT64 :: "int \<Rightarrow> int" where
  "ROZOFS_BITMAP64_NB_UINT64 nb = ROZOFS_BITMAP64_IDX (nb - 1) + 1"

definition ROZOFS_BITMAP64_ALL_RESET :: "u64 list \<Rightarrow> u64 list" where
  "ROZOFS_BITMAP64_ALL_RESET bm = map (\<lambda>_. 0) bm"

definition ROZOFS_BITMAP64_ALL_SET :: "u64 list \<Rightarrow> u64 list" where
  "ROZOFS_BITMAP64_ALL_SET bm = map (\<lambda>_. 0xFFFFFFFFFFFFFFFF) bm"

text \<open>The \<^verbatim>\<open>while(--sz64>=0)\<close> loops, from the last word down.\<close>

primrec bitmap64_all :: "u64 \<Rightarrow> nat \<Rightarrow> u64 list \<Rightarrow> bool option" where
  "bitmap64_all v 0 bm = Some True"
| "bitmap64_all v (Suc n) bm = do {
     w \<leftarrow> arr_get bm (int n);
     if w \<noteq> v then Some False else bitmap64_all v n bm }"

definition ROZOFS_BITMAP64_TEST_ALL1_FUNC :: "u64 list \<Rightarrow> int \<Rightarrow> bool option" where
  "ROZOFS_BITMAP64_TEST_ALL1_FUNC bm sz64 = bitmap64_all 0xFFFFFFFF (nat sz64) bm"

definition ROZOFS_BITMAP64_TEST_ALL0_FUNC :: "u64 list \<Rightarrow> int \<Rightarrow> bool option" where
  "ROZOFS_BITMAP64_TEST_ALL0_FUNC bm sz64 = bitmap64_all 0 (nat sz64) bm"

text \<open>The counting loops run over bytes; each tries the eight masks.\<close>

definition byte_count :: "bool \<Rightarrow> u8 \<Rightarrow> int" where
  "byte_count b p8 = foldl (\<lambda>n i. if ((push_bit i 1 AND p8) \<noteq> 0) = b then n + 1 else n) 0 [0..<8]"

definition ROZOFS_BITMAP64_NB_BIT1_FUNC :: "u8 list \<Rightarrow> int" where
  "ROZOFS_BITMAP64_NB_BIT1_FUNC bytes = foldl (\<lambda>count p8. if p8 \<noteq> 0 then count + byte_count True p8 else count) 0 bytes"

definition ROZOFS_BITMAP64_NB_BIT0_FUNC :: "u8 list \<Rightarrow> int" where
  "ROZOFS_BITMAP64_NB_BIT0_FUNC bytes = foldl (\<lambda>count p8. if p8 \<noteq> 0xFF then count + byte_count False p8 else count) 0 bytes"

subsection \<open>A bitmap is a set of block numbers\<close>

text \<open>What the clients of a bitmap rely on.\<close>

locale bit_set =
  fixes size_of :: "'m \<Rightarrow> int"
    and bset :: "int \<Rightarrow> 'm \<Rightarrow> 'm option"
    and breset :: "int \<Rightarrow> 'm \<Rightarrow> 'm option"
    and btest :: "int \<Rightarrow> 'm \<Rightarrow> bool option"
  assumes set_ok: "0 \<le> n \<Longrightarrow> n < size_of m \<Longrightarrow> \<exists>m'. bset n m = Some m' \<and> size_of m' = size_of m
      \<and> (\<forall>k. 0 \<le> k \<and> k < size_of m \<longrightarrow> btest k m' = (if k = n then Some True else btest k m))"
    and reset_ok: "0 \<le> n \<Longrightarrow> n < size_of m \<Longrightarrow> \<exists>m'. breset n m = Some m' \<and> size_of m' = size_of m
      \<and> (\<forall>k. 0 \<le> k \<and> k < size_of m \<longrightarrow> btest k m' = (if k = n then Some False else btest k m))"
    and test_ok: "0 \<le> n \<Longrightarrow> n < size_of m \<Longrightarrow> \<exists>b. btest n m = Some b"
begin

definition members :: "'m \<Rightarrow> int set" where
  "members m = {n. 0 \<le> n \<and> n < size_of m \<and> btest n m = Some True}"

lemma members_bset:
  "0 \<le> n \<Longrightarrow> n < size_of m \<Longrightarrow> \<exists>m'. bset n m = Some m' \<and> size_of m' = size_of m \<and> members m' = insert n (members m)"
  using set_ok[of n m] by (auto simp: members_def)

lemma members_breset:
  "0 \<le> n \<Longrightarrow> n < size_of m \<Longrightarrow> \<exists>m'. breset n m = Some m' \<and> size_of m' = size_of m \<and> members m' = members m - {n}"
  using reset_ok[of n m] by (auto simp: members_def split: if_splits)

lemma members_bset_all:
  assumes "\<And>n. n \<in> set ns \<Longrightarrow> 0 \<le> n \<and> n < size_of m"
  shows "\<exists>m'. foldM bset ns m = Some m' \<and> size_of m' = size_of m \<and> members m' = members m \<union> set ns"
  using assms
proof (induction ns arbitrary: m)
  case (Cons n ns)
  obtain m1 where m1: "bset n m = Some m1" "size_of m1 = size_of m" "members m1 = insert n (members m)"
    using members_bset[of n m] Cons.prems by auto
  with Cons.IH[of m1] Cons.prems show ?case by auto
qed simp

end

lemma bitmap_idx: "0 \<le> n \<Longrightarrow> n < 64 * int (length bm) \<Longrightarrow> 0 \<le> n div 64 \<and> n div 64 < int (length bm)"
  by (simp add: pos_imp_zdiv_nonneg_iff div_less_iff_less_mult mult.commute)

lemma and_bit64: "(w AND ROZOFS_BITMAP64_BIT n \<noteq> 0) = bit w (nat (n mod 64))"
  by (simp add: ROZOFS_BITMAP64_BIT_def bit_iff_and_push_bit_not_eq_0)

lemma test1_bit:
  assumes "0 \<le> n" "n < 64 * int (length bm)"
  shows "ROZOFS_BITMAP64_TEST1 n bm = Some (bit (bm ! nat (n div 64)) (nat (n mod 64)))"
  using bitmap_idx[OF assms] by (simp add: ROZOFS_BITMAP64_TEST1_def ROZOFS_BITMAP64_IDX_def arr_get_in and_bit64)

lemma bit_number_eq: "k div 64 = n div 64 \<Longrightarrow> nat (k mod 64) = nat (n mod 64) \<Longrightarrow> k = n" for k n :: int
  by (metis eq_nat_nat_iff mult_div_mod_eq pos_mod_sign zero_less_numeral)

interpretation bm64: bit_set "\<lambda>bm. 64 * int (length bm)" ROZOFS_BITMAP64_SET ROZOFS_BITMAP64_RESET ROZOFS_BITMAP64_TEST1
proof
  fix n m assume n: "0 \<le> n" "n < 64 * int (length (m :: u64 list))"
  note ix = bitmap_idx[OF n]
  show "\<exists>b. ROZOFS_BITMAP64_TEST1 n m = Some b" using test1_bit[OF n] by simp
  have upd: "ROZOFS_BITMAP64_TEST1 k (m[nat (n div 64) := w]) = (if k = n then Some b else ROZOFS_BITMAP64_TEST1 k m)"
    if k: "0 \<le> k" "k < 64 * int (length m)" and w: "\<And>j. j < 64 \<Longrightarrow>
      bit w j = (if j = nat (n mod 64) then b else bit (m ! nat (n div 64)) j)" for k w b
  proof -
    have t: "ROZOFS_BITMAP64_TEST1 k (m[nat (n div 64) := w]) = Some (bit (m[nat (n div 64) := w] ! nat (k div 64)) (nat (k mod 64)))"
      using test1_bit[of k "m[nat (n div 64) := w]"] k by simp
    show ?thesis
    proof (cases "k div 64 = n div 64")
      case True
      then have "m[nat (n div 64) := w] ! nat (k div 64) = w" using ix by (simp add: nat_less_iff)
      then show ?thesis using t test1_bit[OF k] w[of "nat (k mod 64)"] bit_number_eq[OF True] True by auto
    next
      case False
      then have "m[nat (n div 64) := w] ! nat (k div 64) = m ! nat (k div 64)"
        using ix bitmap_idx[OF k] by (simp add: nth_list_update_neq nat_eq_iff)
      then show ?thesis using t test1_bit[OF k] False by auto
    qed
  qed
  show "\<exists>m'. ROZOFS_BITMAP64_SET n m = Some m' \<and> 64 * int (length m') = 64 * int (length m)
      \<and> (\<forall>k. 0 \<le> k \<and> k < 64 * int (length m) \<longrightarrow> ROZOFS_BITMAP64_TEST1 k m' = (if k = n then Some True else ROZOFS_BITMAP64_TEST1 k m))"
    using ix upd[of _ "(m ! nat (n div 64)) OR ROZOFS_BITMAP64_BIT n" True]
    by (auto simp: ROZOFS_BITMAP64_SET_def ROZOFS_BITMAP64_IDX_def arr_get_in arr_set_in ROZOFS_BITMAP64_BIT_def bit_simps)
  show "\<exists>m'. ROZOFS_BITMAP64_RESET n m = Some m' \<and> 64 * int (length m') = 64 * int (length m)
      \<and> (\<forall>k. 0 \<le> k \<and> k < 64 * int (length m) \<longrightarrow> ROZOFS_BITMAP64_TEST1 k m' = (if k = n then Some False else ROZOFS_BITMAP64_TEST1 k m))"
    using ix upd[of _ "(m ! nat (n div 64)) AND NOT (ROZOFS_BITMAP64_BIT n)" False]
    by (auto simp: ROZOFS_BITMAP64_RESET_def ROZOFS_BITMAP64_IDX_def arr_get_in arr_set_in ROZOFS_BITMAP64_BIT_def bit_simps)
qed

abbreviation bitmap_members :: "u64 list \<Rightarrow> int set" where
  "bitmap_members \<equiv> bm64.members"

lemma bitmap64_all_eq:
  "n \<le> length bm \<Longrightarrow> bitmap64_all v n bm = Some (\<forall>i < n. bm ! i = v)"
  by (induction n) (auto simp: arr_get_in less_Suc_eq)

lemma bitmap_members_empty: "bitmap_members bm = {} \<longleftrightarrow> (\<forall>i < length bm. bm ! i = 0)"
proof
  assume e: "bitmap_members bm = {}"
  show "\<forall>i < length bm. bm ! i = 0"
  proof (intro allI impI bit_word_eqI)
    fix i j assume i: "i < length bm" and j: "j < LENGTH(64)"
    define n where "n = 64 * int i + int j"
    have n: "0 \<le> n" "n < 64 * int (length bm)" "n div 64 = int i" "n mod 64 = int j" using i j by (auto simp: n_def)
    then have "\<not> bit (bm ! i) j" using e test1_bit[OF n(1,2)] by (auto simp: bm64.members_def)
    then show "bit (bm ! i) j = bit 0 j" by simp
  qed
next
  assume z: "\<forall>i < length bm. bm ! i = 0"
  have "ROZOFS_BITMAP64_TEST1 n bm \<noteq> Some True" if "0 \<le> n" "n < 64 * int (length bm)" for n
    using test1_bit[OF that] z bitmap_idx[OF that] by (simp add: nat_less_iff)
  then show "bitmap_members bm = {}" by (auto simp: bm64.members_def)
qed

lemma byte_count_card: "byte_count b p8 = int (card {i. i < 8 \<and> bit p8 i = b})"
proof -
  have "foldl (\<lambda>n i. if P i then n + 1 else n) k xs = k + int (length (filter P xs))" for P k and xs :: "nat list"
    by (induction xs arbitrary: k) auto
  moreover have "(push_bit i 1 AND p8 \<noteq> 0) = bit p8 i" for i
    by (subst and.commute) (simp only: bit_iff_and_push_bit_not_eq_0)
  ultimately have "byte_count b p8 = int (length (filter (\<lambda>i. bit p8 i = b) [0..<8]))"
    by (simp only: byte_count_def)
  also have "filter (\<lambda>i. bit p8 i = b) [0..<8] = filter (\<lambda>i. i \<in> {i. i < 8 \<and> bit p8 i = b}) [0..<8]"
    by (rule filter_cong) auto
  also have "length \<dots> = card {i. i < 8 \<and> bit p8 i = b}"
    by (subst distinct_card[symmetric]) (auto intro!: arg_cong[of _ _ card])
  finally show ?thesis .
qed

lemma foldl_add_map: "foldl (\<lambda>n x. n + f x) k xs = k + (\<Sum>x\<leftarrow>xs. f x)" for k :: int
  by (induction xs arbitrary: k) auto

lemma nb_bit_sum:
  "ROZOFS_BITMAP64_NB_BIT1_FUNC bytes = (\<Sum>b\<leftarrow>bytes. byte_count True b)"
  "ROZOFS_BITMAP64_NB_BIT0_FUNC bytes = (\<Sum>b\<leftarrow>bytes. byte_count False b)"
proof -
  have "byte_count True 0 = 0" "byte_count False 0xFF = 0" by code_simp+
  then have "(\<lambda>count p8. if p8 \<noteq> 0 then count + byte_count True p8 else count) = (\<lambda>count p8. count + byte_count True p8)"
    "(\<lambda>count p8. if p8 \<noteq> 0xFF then count + byte_count False p8 else count) = (\<lambda>count p8. count + byte_count False p8)"
    by (auto simp: fun_eq_iff)
  then show "ROZOFS_BITMAP64_NB_BIT1_FUNC bytes = (\<Sum>b\<leftarrow>bytes. byte_count True b)"
    and "ROZOFS_BITMAP64_NB_BIT0_FUNC bytes = (\<Sum>b\<leftarrow>bytes. byte_count False b)"
    by (simp_all only: ROZOFS_BITMAP64_NB_BIT1_FUNC_def ROZOFS_BITMAP64_NB_BIT0_FUNC_def foldl_add_map add_0)
qed

text \<open>
  Bitmaps behave as sets of block numbers: after setting the bits \<open>ns\<close> of a bitmap exactly those
  members are added, whatever the order; the all-zero test answers whether the set is empty.
\<close>

theorem bitmap_set_all:
  assumes "\<forall>n\<in>set ns. 0 \<le> n \<and> n < 64 * int (length bm)"
  shows "\<exists>bm'. foldM ROZOFS_BITMAP64_SET ns bm = Some bm' \<and> bitmap_members bm' = bitmap_members bm \<union> set ns
    \<and> ROZOFS_BITMAP64_TEST_ALL0_FUNC bm' (int (length bm')) = Some (bitmap_members bm \<union> set ns = {})"
proof -
  obtain bm' where "foldM ROZOFS_BITMAP64_SET ns bm = Some bm'" "bitmap_members bm' = bitmap_members bm \<union> set ns"
    using bm64.members_bset_all[of ns bm] assms by auto
  then show ?thesis
    by (auto simp: ROZOFS_BITMAP64_TEST_ALL0_FUNC_def bitmap64_all_eq simp flip: bitmap_members_empty)
qed

theorem bitmap_set_all_witness:
  "\<exists>bm'. foldM ROZOFS_BITMAP64_SET [3, 70, 3] [0, 0] = Some bm' \<and> ROZOFS_BITMAP64_TEST_ALL0_FUNC bm' (int (length bm')) = Some False"
  using bitmap_set_all[of "[3, 70, 3]" "[0, 0]"] by auto

text \<open>
  The two population counts are right: ones and zeros partition the bits, and the first is the number
  of set bits.
\<close>

theorem bitmap_population:
  "ROZOFS_BITMAP64_NB_BIT1_FUNC bytes = (\<Sum>b\<leftarrow>bytes. int (card {i. i < 8 \<and> bit b i}))
   \<and> ROZOFS_BITMAP64_NB_BIT1_FUNC bytes + ROZOFS_BITMAP64_NB_BIT0_FUNC bytes = 8 * int (length bytes)"
proof -
  have "byte_count True b + byte_count False b = 8" for b
  proof -
    have "{i. i < 8 \<and> bit b i} \<union> {i. i < 8 \<and> \<not> bit b i} = {..<8}" by auto
    then have "card {i. i < 8 \<and> bit b i} + card {i. i < 8 \<and> \<not> bit b i} = 8"
      by (subst card_Un_disjoint[symmetric]) auto
    then show ?thesis by (simp add: byte_count_card flip: of_nat_add)
  qed
  then have "(\<Sum>b\<leftarrow>bytes. byte_count True b) + (\<Sum>b\<leftarrow>bytes. byte_count False b) = 8 * int (length bytes)"
    by (induction bytes) (auto simp: algebra_simps)
  then show ?thesis by (simp add: nb_bit_sum byte_count_card)
qed

text \<open>
  The all-ones test compares each 64-bit word with a 32-bit constant, so it rejects a bitmap whose
  bits are all set.
\<close>

theorem all1_rejects_full_bitmap:
  assumes "bm \<noteq> []"
  shows "ROZOFS_BITMAP64_TEST_ALL1_FUNC (ROZOFS_BITMAP64_ALL_SET bm) (int (length bm)) = Some False
    \<and> bitmap_members (ROZOFS_BITMAP64_ALL_SET bm) = {0..<64 * int (length bm)}"
proof -
  have "ROZOFS_BITMAP64_TEST1 n (ROZOFS_BITMAP64_ALL_SET bm) = Some True" if n: "0 \<le> n" "n < 64 * int (length bm)" for n
  proof -
    have "nat (n mod 64) < 64" by simp
    then have "bit (mask 64 :: u64) (nat (n mod 64))" by (simp add: bit_mask_iff)
    moreover have "(mask 64 :: u64) = 0xFFFFFFFFFFFFFFFF" by (simp add: mask_eq_exp_minus_1)
    ultimately have "bit (0xFFFFFFFFFFFFFFFF :: u64) (nat (n mod 64))" by metis
    then show ?thesis using test1_bit[of n "ROZOFS_BITMAP64_ALL_SET bm"] n bitmap_idx[OF n]
      by (simp add: ROZOFS_BITMAP64_ALL_SET_def nat_less_iff)
  qed
  then have "bitmap_members (ROZOFS_BITMAP64_ALL_SET bm) = {0..<64 * int (length bm)}"
    by (auto simp: bm64.members_def ROZOFS_BITMAP64_ALL_SET_def)
  then show ?thesis using assms
    by (auto simp: ROZOFS_BITMAP64_TEST_ALL1_FUNC_def bitmap64_all_eq ROZOFS_BITMAP64_ALL_SET_def)
qed

theorem all1_rejects_full_bitmap_witness: "ROZOFS_BITMAP64_TEST_ALL1_FUNC (ROZOFS_BITMAP64_ALL_SET [0, 0]) 2 = Some False"
  using all1_rejects_full_bitmap[of "[0, 0]"] by simp

section \<open>Bit fields of a file identifier\<close>

text \<open>
  A \<^verbatim>\<open>fid_t\<close> seen as a \<^verbatim>\<open>rozofs_inode_t\<close>: two 64-bit words of bit fields, allocated from the least
  significant bit. A field is its word, its first bit and its width.
\<close>

type_synonym fid_t = "u64 \<times> u64"

datatype fid_field = Lo nat nat | Hi nat nat

definition fid_vers :: fid_field where "fid_vers = Lo 0 4"
definition fid_mover_idx :: fid_field where "fid_mover_idx = Lo 4 8"
definition fid_high :: fid_field where "fid_high = Lo 12 33"
definition fid_recycle_cpt :: fid_field where "fid_recycle_cpt = Lo 45 2"
definition fid_opcode :: fid_field where "fid_opcode = Lo 47 4"
definition fid_exp_id :: fid_field where "fid_exp_id = Lo 51 3"
definition fid_eid :: fid_field where "fid_eid = Lo 54 10"
definition fid_usr_id :: fid_field where "fid_usr_id = Hi 0 8"
definition fid_file_id :: fid_field where "fid_file_id = Hi 8 40"
definition fid_idx :: fid_field where "fid_idx = Hi 48 11"
definition fid_key :: fid_field where "fid_key = Hi 59 4"
definition fid_del :: fid_field where "fid_del = Hi 63 1"

definition all_fid_fields :: "fid_field list" where
  "all_fid_fields = [fid_vers, fid_mover_idx, fid_high, fid_recycle_cpt, fid_opcode, fid_exp_id, fid_eid,
     fid_usr_id, fid_file_id, fid_idx, fid_key, fid_del]"

definition bits_get :: "nat \<Rightarrow> nat \<Rightarrow> u64 \<Rightarrow> u64" where
  "bits_get lo n w = take_bit n (drop_bit lo w)"

definition bits_set :: "nat \<Rightarrow> nat \<Rightarrow> u64 \<Rightarrow> u64 \<Rightarrow> u64" where
  "bits_set lo n v w = (w AND NOT (push_bit lo (mask n))) OR push_bit lo (take_bit n v)"

fun fid_get :: "fid_field \<Rightarrow> fid_t \<Rightarrow> u64" where
  "fid_get (Lo b n) (w0, w1) = bits_get b n w0"
| "fid_get (Hi b n) (w0, w1) = bits_get b n w1"

fun fid_set :: "fid_field \<Rightarrow> u64 \<Rightarrow> fid_t \<Rightarrow> fid_t" where
  "fid_set (Lo b n) v (w0, w1) = (bits_set b n v w0, w1)"
| "fid_set (Hi b n) v (w0, w1) = (w0, bits_set b n v w1)"

definition rozofs_get_recycle_from_fid :: "fid_t \<Rightarrow> int" where
  "rozofs_get_recycle_from_fid fid = uint (fid_get fid_recycle_cpt fid)"

definition rozofs_get_eid_from_fid :: "fid_t \<Rightarrow> int" where
  "rozofs_get_eid_from_fid fid = uint (fid_get fid_eid fid)"

definition rozofs_set_recycle_on_fid :: "fid_t \<Rightarrow> int \<Rightarrow> fid_t" where
  "rozofs_set_recycle_on_fid fid v = fid_set fid_recycle_cpt (word_of_int v) fid"

definition rozofs_inode_is_del_pending :: "fid_t \<Rightarrow> bool" where
  "rozofs_inode_is_del_pending fid = (fid_get fid_del fid \<noteq> 0)"

definition rozofs_inode_set_trash :: "fid_t \<Rightarrow> fid_t" where
  "rozofs_inode_set_trash fid = fid_set fid_key 1 fid"

definition rozofs_inode_set_dir :: "fid_t \<Rightarrow> fid_t" where
  "rozofs_inode_set_dir fid = fid_set fid_key 3 fid"

definition rozofs_inode_is_trash :: "fid_t \<Rightarrow> bool" where
  "rozofs_inode_is_trash fid = (fid_get fid_key fid = 1)"

definition rozofs_reset_recycle_on_fid :: "fid_t \<Rightarrow> fid_t" where
  "rozofs_reset_recycle_on_fid fid = rozofs_set_recycle_on_fid fid 0"

definition rozofs_inc_recycle_on_fid :: "fid_t \<Rightarrow> fid_t" where
  "rozofs_inc_recycle_on_fid fid = fid_set fid_recycle_cpt (fid_get fid_recycle_cpt fid + 1) fid"

fun field_disjoint :: "fid_field \<Rightarrow> fid_field \<Rightarrow> bool" where
  "field_disjoint (Lo a n) (Lo b m) = (a + n \<le> b \<or> b + m \<le> a)"
| "field_disjoint (Hi a n) (Hi b m) = (a + n \<le> b \<or> b + m \<le> a)"
| "field_disjoint _ _ = True"

fun field_width :: "fid_field \<Rightarrow> nat" where
  "field_width (Lo a n) = n" | "field_width (Hi a n) = n"

fun field_fits :: "fid_field \<Rightarrow> bool" where
  "field_fits (Lo a n) = (a + n \<le> 64)" | "field_fits (Hi a n) = (a + n \<le> 64)"

lemma bits_get_set_same: "lo + n \<le> 64 \<Longrightarrow> bits_get lo n (bits_set lo n v w) = take_bit n v"
  by (rule bit_word_eqI) (auto simp: bits_get_def bits_set_def bit_simps)

lemma bits_get_set_other: "a + n \<le> b \<or> b + m \<le> a \<Longrightarrow> bits_get a n (bits_set b m v w) = bits_get a n w"
  by (rule bit_word_eqI) (auto simp: bits_get_def bits_set_def bit_simps dest: bit_imp_le_length)

lemma fid_get_set_same: "field_fits f \<Longrightarrow> fid_get f (fid_set f v x) = take_bit (field_width f) v"
  by (cases f; cases x) (auto simp: bits_get_set_same)

lemma fid_get_set_other: "field_disjoint f g \<Longrightarrow> fid_get f (fid_set g v x) = fid_get f x"
  by (cases f; cases g; cases x) (auto simp: bits_get_set_other)

lemma fid_fields_layout:
  "list_all field_fits all_fid_fields" "pairwise (\<lambda>f g. field_disjoint f g) (set all_fid_fields)"
proof -
  have "list_all (\<lambda>f. list_all (\<lambda>g. f = g \<or> field_disjoint f g) all_fid_fields) all_fid_fields" by code_simp
  then show "pairwise (\<lambda>f g. field_disjoint f g) (set all_fid_fields)" by (auto simp: list_all_iff pairwise_def)
qed code_simp

text \<open>
  The bit fields of a file identifier are independent: writing a field gives it the value modulo its
  width and leaves every other field as it was.
\<close>

theorem fid_set_field:
  assumes "f \<in> set all_fid_fields" "g \<in> set all_fid_fields"
  shows "fid_get f (fid_set g v x) = (if f = g then take_bit (field_width g) v else fid_get f x)"
  using assms fid_fields_layout fid_get_set_same[of g v x] fid_get_set_other[of f g v x]
  by (auto simp: list_all_iff pairwise_def)

theorem fid_set_field_witness: "fid_get fid_key (fid_set fid_eid 5 (0, 0)) = fid_get fid_key (0, 0)"
  using fid_set_field[of fid_key fid_eid 5 "(0, 0)"]
  by (simp add: all_fid_fields_def fid_key_def fid_eid_def)

text \<open>
  Recycling a file increments its two-bit recycle counter modulo 4 and touches no other field: the
  export identifier, the key and the deletion mark survive.
\<close>

theorem inc_recycle_wraps:
  "rozofs_get_recycle_from_fid (rozofs_inc_recycle_on_fid fid) = (rozofs_get_recycle_from_fid fid + 1) mod 4
   \<and> (\<forall>f\<in>set all_fid_fields. f \<noteq> fid_recycle_cpt \<longrightarrow> fid_get f (rozofs_inc_recycle_on_fid fid) = fid_get f fid)"
proof
  have "fid_get fid_recycle_cpt (rozofs_inc_recycle_on_fid fid) = (fid_get fid_recycle_cpt fid + 1) mod 4"
    unfolding rozofs_inc_recycle_on_fid_def by (subst fid_get_set_same) (simp_all add: fid_recycle_cpt_def take_bit_eq_mod)
  note new = this
  have "fid_get fid_recycle_cpt fid = take_bit 2 (fid_get fid_recycle_cpt fid)"
    by (cases fid) (simp add: fid_recycle_cpt_def bits_get_def)
  moreover have "uint (take_bit 2 x) < 4" for x :: u64
    using take_bit_int_less_exp[of 2 "uint x"] by (simp add: unsigned_take_bit_eq)
  ultimately have "uint (fid_get fid_recycle_cpt fid) < 4" by metis
  then have "uint (fid_get fid_recycle_cpt fid + 1) = uint (fid_get fid_recycle_cpt fid) + 1"
    by (intro uint_plus_simple_iff[THEN iffD1, THEN trans]) (auto simp: word_le_def uint_word_arith_bintrs take_bit_eq_mod)
  with new show "rozofs_get_recycle_from_fid (rozofs_inc_recycle_on_fid fid) = (rozofs_get_recycle_from_fid fid + 1) mod 4"
    by (simp add: rozofs_get_recycle_from_fid_def uint_mod)
  show "\<forall>f\<in>set all_fid_fields. f \<noteq> fid_recycle_cpt \<longrightarrow> fid_get f (rozofs_inc_recycle_on_fid fid) = fid_get f fid"
    using fid_fields_layout(2) fid_get_set_other[of _ fid_recycle_cpt]
    by (auto simp: rozofs_inc_recycle_on_fid_def pairwise_def all_fid_fields_def)
qed

theorem inc_recycle_wraps_witness:
  "rozofs_get_recycle_from_fid (rozofs_inc_recycle_on_fid (0, 5)) = 1 \<and> fid_get fid_key (rozofs_inc_recycle_on_fid (0, 5)) = fid_get fid_key (0, 5)"
proof -
  have "rozofs_get_recycle_from_fid (0, 5) = 0" "fid_key \<in> set all_fid_fields" "fid_key \<noteq> fid_recycle_cpt" by code_simp+
  then show ?thesis using inc_recycle_wraps[of "(0, 5)"] by auto
qed

end
