(* ===== verification/Storcli_Ctx.thy ===== *)
theory Storcli_Ctx
  imports Layout Fid_Bitmap
begin

text \<open>
  How the storage client decides which projections of a block to decode
  (\<^verbatim>\<open>src/storcli/rozofs_storcli_transform_utility.c\<close>, \<^verbatim>\<open>rozofs_storcli_transform.h\<close> and
  \<^verbatim>\<open>rozofs_storcli_rebuild_prj.c\<close>). Storages may return old blocks, short files, damaged blocks or the same
  projection twice; the check must pick \<^verbatim>\<open>rozofs_inverse\<close> different projections of one and the same write,
  and mark the contexts whose content has to be rebuilt.
\<close>

section \<open>Headers\<close>

record rozofs_stor_bins_hdr_t =
  timestamp :: u64
  effective_length :: u16
  projection_id :: u8
  version :: u8
  filler :: u32

text \<open>
  A header fills one 128-bit cell, its bit fields from the least significant bit; a footer is the low
  half of a cell.
\<close>

definition hdr_load :: "u128 \<Rightarrow> rozofs_stor_bins_hdr_t" where
  "hdr_load c = \<lparr>timestamp = ucast c, effective_length = ucast (drop_bit 64 c), projection_id = ucast (drop_bit 80 c),
     version = ucast (drop_bit 88 c), filler = ucast (drop_bit 96 c)\<rparr>"

definition hdr_store :: "rozofs_stor_bins_hdr_t \<Rightarrow> u128" where
  "hdr_store h = ucast (timestamp h) OR push_bit 64 (ucast (effective_length h)) OR push_bit 80 (ucast (projection_id h))
     OR push_bit 88 (ucast (version h)) OR push_bit 96 (ucast (filler h))"

definition foot_load :: "u128 \<Rightarrow> u64" where
  "foot_load c = ucast c"

definition foot_store :: "u64 \<Rightarrow> u128 \<Rightarrow> u128" where
  "foot_store ts c = (c AND NOT (mask 64)) OR ucast ts"

lemma hdr_load_store [simp]: "hdr_load (hdr_store h) = h"
proof -
  have "ucast (hdr_store h) = timestamp h" "ucast (drop_bit 64 (hdr_store h)) = effective_length h"
    "ucast (drop_bit 80 (hdr_store h)) = projection_id h" "ucast (drop_bit 88 (hdr_store h)) = version h"
    "ucast (drop_bit 96 (hdr_store h)) = filler h"
    by (rule bit_word_eqI; auto simp: hdr_store_def bit_simps dest: bit_imp_le_length)+
  then show ?thesis by (simp add: hdr_load_def)
qed

lemma foot_load_store [simp]: "foot_load (foot_store ts c) = ts"
  by (rule bit_word_eqI) (auto simp: foot_load_def foot_store_def bit_simps)

section \<open>Contexts\<close>

datatype rozofs_read_req_state_e =
  ROZOFS_PRJ_READ_IDLE | ROZOFS_PRJ_READ_IN_PRG | ROZOFS_PRJ_READ_DONE | ROZOFS_PRJ_READ_ERROR | ROZOFS_PRJ_READ_ENOENT

datatype rozofs_blk_transform_state_e = ROZOFS_BLK_TRANSFORM_REQ | ROZOFS_BLK_TRANSFORM_DONE | ROZOFS_BLK_ERROR

text \<open>
  The fields of a projection context that the transform code reads or writes; \<^verbatim>\<open>bins\<close> is the message
  payload, in 128-bit cells.
\<close>

record rozofs_storcli_projection_ctx_t =
  stor_idx :: int
  rebuild_req :: bool
  prj_state :: rozofs_read_req_state_e
  prj_bins :: "u128 list"
  block_hdr_tab :: "rozofs_stor_bins_hdr_t list"
  rcv_hdr :: "rozofs_stor_bins_hdr_t list"
  raw_file_size :: u64
  crc_err_bitmap :: "u64 list"

record rozofs_storcli_inverse_block_t =
  blk_state :: rozofs_blk_transform_state_e
  blk_effective_length :: u16
  blk_timestamp :: u64

text \<open>An entry of the timestamp table; \<open>prj_idx_tb\<close> holds the \<^verbatim>\<open>count\<close> first entries of the C array.\<close>

record rozofs_storcli_timestamp_ctx_t =
  ts_timestamp :: u64
  ts_effective_length :: u16
  prj_idx_tb :: "nat list"
  prjid_bitmap :: u32

abbreviation ts_count :: "rozofs_storcli_timestamp_ctx_t \<Rightarrow> nat" where
  "ts_count e \<equiv> length (prj_idx_tb e)"

abbreviation (input) ROZOFS_SAFE_MAX_STORCLI :: nat where "ROZOFS_SAFE_MAX_STORCLI \<equiv> 16"

text \<open>Cells of one block in a message: header, bins and footer.\<close>

definition msg_cells :: "int \<Rightarrow> int \<Rightarrow> int" where
  "msg_cells layout bsize = rozofs_get_max_psize_in_msg layout bsize div 16"

section \<open>Validating the received headers\<close>

definition hole_hdr :: "int \<Rightarrow> rozofs_stor_bins_hdr_t \<Rightarrow> rozofs_stor_bins_hdr_t" where
  "hole_hdr bbytes h = h\<lparr>projection_id := 0, timestamp := 0, effective_length := word_of_int bbytes\<rparr>"

text \<open>One returned block: \<open>old\<close> is the previous entry of \<^verbatim>\<open>block_hdr_tab\<close>; the boolean asks for a CRC error mark.\<close>

definition check_received_block ::
  "int \<Rightarrow> int \<Rightarrow> u128 list \<Rightarrow> int \<Rightarrow> rozofs_stor_bins_hdr_t \<Rightarrow> (rozofs_stor_bins_hdr_t \<times> bool) option"
where
  "check_received_block layout bsize payload block_idx old = do {
     let bbytes = ROZOFS_BSIZE_BYTES bsize;
     let base = msg_cells layout bsize * block_idx;
     c \<leftarrow> arr_get payload base;
     let h = hdr_load c;
     if projection_id h = 0xff then Some (hole_hdr bbytes old, True)
     else if timestamp h = 0 then Some (hole_hdr bbytes old, False)
     else do {
       let sz = rozofs_get_psizes layout bsize (uint (projection_id h));
       if sz = 0 then Some (hole_hdr bbytes old, False)
       else do {
         f \<leftarrow> arr_get payload (base + 1 + sz div 2);
         if foot_load f \<noteq> timestamp h then Some (hole_hdr bbytes old, False)
         else Some (old\<lparr>projection_id := projection_id h, timestamp := timestamp h, effective_length := effective_length h\<rparr>, False) } } }"

definition rozofs_storcli_transform_update_headers ::
  "rozofs_storcli_projection_ctx_t \<Rightarrow> int \<Rightarrow> int \<Rightarrow> int \<Rightarrow> int \<Rightarrow> u64 \<Rightarrow> rozofs_storcli_projection_ctx_t option"
where
  "rozofs_storcli_transform_update_headers ctx layout bsize returned requested rsize = do {
     let ctx = ctx\<lparr>raw_file_size := rsize\<rparr>;
     ctx \<leftarrow> foldM (\<lambda>block_idx ctx. do {
         c \<leftarrow> arr_get (prj_bins ctx) (msg_cells layout bsize * block_idx);
         rcv \<leftarrow> arr_set (rcv_hdr ctx) block_idx (hdr_load c);
         old \<leftarrow> arr_get (block_hdr_tab ctx) block_idx;
         (h, crc) \<leftarrow> check_received_block layout bsize (prj_bins ctx) block_idx old;
         bm \<leftarrow> (if crc then ROZOFS_BITMAP64_SET block_idx (crc_err_bitmap ctx) else Some (crc_err_bitmap ctx));
         tab \<leftarrow> arr_set (block_hdr_tab ctx) block_idx h;
         Some (ctx\<lparr>rcv_hdr := rcv, block_hdr_tab := tab, crc_err_bitmap := bm\<rparr>) }) [0..returned - 1] ctx;
     foldM (\<lambda>block_idx ctx. do {
         old \<leftarrow> arr_get (block_hdr_tab ctx) block_idx;
         tab \<leftarrow> arr_set (block_hdr_tab ctx) block_idx (old\<lparr>projection_id := 0, timestamp := 0, effective_length := 0\<rparr>);
         Some (ctx\<lparr>block_hdr_tab := tab\<rparr>) }) [returned..requested - 1] ctx }"

section \<open>Rebuild marks\<close>

definition mark_one :: "nat \<Rightarrow> rozofs_storcli_projection_ctx_t list \<Rightarrow> rozofs_storcli_projection_ctx_t list option" where
  "mark_one i ctxs = do {
     c \<leftarrow> arr_get ctxs (int i);
     if stor_idx c = int i then arr_set ctxs (int i) (c\<lparr>rebuild_req := True\<rparr>) else Some ctxs }"

definition rozofs_storcli_mark_projection2rebuild ::
  "rozofs_storcli_projection_ctx_t list \<Rightarrow> rozofs_storcli_timestamp_ctx_t list \<Rightarrow> int \<Rightarrow> int
   \<Rightarrow> rozofs_storcli_projection_ctx_t list option"
where
  "rozofs_storcli_mark_projection2rebuild ctxs tb found nb =
     foldM (\<lambda>i ctxs. if i = found then Some ctxs else do {
         p \<leftarrow> arr_get tb i;
         foldM mark_one (prj_idx_tb p) ctxs }) [0..nb - 1] ctxs"

definition rozofs_storcli_check_projection2rebuild :: "rozofs_storcli_projection_ctx_t list \<Rightarrow> int \<Rightarrow> int option" where
  "rozofs_storcli_check_projection2rebuild ctxs safe =
     foldM (\<lambda>i n. do { c \<leftarrow> arr_get ctxs i; Some (if rebuild_req c then n + 1 else n) }) [0..safe - 1] 0"

section \<open>Choosing the projections of a block\<close>

text \<open>
  \<^verbatim>\<open>1 << prjid\<close> on an \<^verbatim>\<open>int\<close>, kept in a \<^verbatim>\<open>uint32_t\<close>; shifts beyond the width are undefined in C.
\<close>

definition prjid_bit :: "u8 \<Rightarrow> u32 option" where
  "prjid_bit prjid = (if unat prjid < 31 then Some (push_bit (unat prjid) 1) else None)"

text \<open>The state of the first pass: the reference entry, its row of indices and the indices that differ.\<close>

record check_st =
  ref_ctx :: rozofs_storcli_timestamp_ctx_t
  others :: "nat list"

text \<open>The contexts are seen as (index, state, header of the block).\<close>

type_synonym prj_view = "nat \<times> rozofs_read_req_state_e \<times> rozofs_stor_bins_hdr_t"

definition new_entry :: "nat \<Rightarrow> rozofs_stor_bins_hdr_t \<Rightarrow> u32 \<Rightarrow> rozofs_storcli_timestamp_ctx_t" where
  "new_entry i h b = \<lparr>ts_timestamp = timestamp h, ts_effective_length = effective_length h, prj_idx_tb = [i], prjid_bitmap = b\<rparr>"

definition join_entry :: "nat \<Rightarrow> u32 \<Rightarrow> rozofs_storcli_timestamp_ctx_t \<Rightarrow> rozofs_storcli_timestamp_ctx_t" where
  "join_entry i b e = e\<lparr>prj_idx_tb := prj_idx_tb e @ [i], prjid_bitmap := prjid_bitmap e OR b\<rparr>"

definition same_write :: "rozofs_stor_bins_hdr_t \<Rightarrow> rozofs_storcli_timestamp_ctx_t \<Rightarrow> bool" where
  "same_write h e = (timestamp h = ts_timestamp e \<and> effective_length h = ts_effective_length e)"

fun inverse_check_loop :: "int \<Rightarrow> prj_view list \<Rightarrow> check_st \<Rightarrow> (check_st \<times> bool) option" where
  "inverse_check_loop inv_nb [] s = Some (s, False)"
| "inverse_check_loop inv_nb ((i, st, h) # vs) s =
     (if st \<noteq> ROZOFS_PRJ_READ_DONE then inverse_check_loop inv_nb vs s
      else if timestamp h = 0 \<and> effective_length h = 0 then inverse_check_loop inv_nb vs s
      else if projection_id h = 0xff then inverse_check_loop inv_nb vs s
      else do {
        b \<leftarrow> prjid_bit (projection_id h);
        if ts_count (ref_ctx s) = 0 then inverse_check_loop inv_nb vs (s\<lparr>ref_ctx := new_entry i h b\<rparr>)
        else if same_write h (ref_ctx s) then
          (if timestamp h \<noteq> 0 \<and> (prjid_bitmap (ref_ctx s) AND b) \<noteq> 0 then inverse_check_loop inv_nb vs s
           else let s = s\<lparr>ref_ctx := join_entry i b (ref_ctx s)\<rparr> in
             if int (ts_count (ref_ctx s)) = inv_nb then Some (s, True) else inverse_check_loop inv_nb vs s)
        else inverse_check_loop inv_nb vs (s\<lparr>others := others s @ [i]\<rparr>) })"

text \<open>
  The second pass keeps one table entry per timestamp and length. \<open>tb_insert\<close> is the inner loop over the
  entries: the new table and, when an entry reaches \<^verbatim>\<open>rozofs_inverse\<close> projections, its index.
\<close>

fun tb_insert ::
  "int \<Rightarrow> nat \<Rightarrow> rozofs_stor_bins_hdr_t \<Rightarrow> u32 \<Rightarrow> rozofs_storcli_timestamp_ctx_t list
   \<Rightarrow> rozofs_storcli_timestamp_ctx_t list \<times> nat option"
where
  "tb_insert inv_nb i h b [] = ([new_entry i h b], None)"
| "tb_insert inv_nb i h b (p # tb) =
     (if \<not> same_write h p then
        (case tb_insert inv_nb i h b tb of (tb', r) \<Rightarrow> (p # tb', map_option Suc r))
      else if timestamp h \<noteq> 0 \<and> (prjid_bitmap p AND b) \<noteq> 0 then (p # tb, None)
      else let p = join_entry i b p in (p # tb, if int (ts_count p) = inv_nb then Some 0 else None))"

fun timestamp_tb_loop ::
  "int \<Rightarrow> prj_view list \<Rightarrow> int \<Rightarrow> rozofs_storcli_timestamp_ctx_t list
   \<Rightarrow> (int \<times> rozofs_storcli_timestamp_ctx_t list \<times> nat option) option"
where
  "timestamp_tb_loop inv_nb [] left tb = Some (left, tb, None)"
| "timestamp_tb_loop inv_nb ((i, st, h) # vs) left tb =
     (if st = ROZOFS_PRJ_READ_ENOENT then timestamp_tb_loop inv_nb vs (left - 1) tb
      else if st \<noteq> ROZOFS_PRJ_READ_DONE then timestamp_tb_loop inv_nb vs left tb
      else if projection_id h = 0xff then timestamp_tb_loop inv_nb vs (left - 1) tb
      else do {
        b \<leftarrow> prjid_bit (projection_id h);
        case tb_insert inv_nb i h b tb of
          (tb', Some e) \<Rightarrow> Some (left - 1, tb', Some e)
        | (tb', None) \<Rightarrow> timestamp_tb_loop inv_nb vs (left - 1) tb' })"

text \<open>What a check returns: the C return value, the row of chosen indices, and the two outputs.\<close>

record check_result =
  ret :: int
  chosen :: "nat list"
  res_timestamp :: u64
  res_length :: u16
  corrupted :: nat
  ctxs_after :: "rozofs_storcli_projection_ctx_t list"

definition block_views :: "rozofs_storcli_projection_ctx_t list \<Rightarrow> int \<Rightarrow> int \<Rightarrow> prj_view list option" where
  "block_views ctxs safe block_idx =
     foldM (\<lambda>i vs. do {
         c \<leftarrow> arr_get ctxs i;
         h \<leftarrow> arr_get (block_hdr_tab c) block_idx;
         Some (vs @ [(nat i, prj_state c, h)]) }) [0..safe - 1] []"

definition rozofs_storcli_transform_inverse_check_timestamp_tb ::
  "rozofs_storcli_projection_ctx_t list \<Rightarrow> int \<Rightarrow> int \<Rightarrow> int \<Rightarrow> nat list \<Rightarrow> u16 \<Rightarrow> nat \<Rightarrow> check_result option"
where
  "rozofs_storcli_transform_inverse_check_timestamp_tb ctxs layout bsize block_idx row len corr = do {
     let inv_nb = rozofs_get_rozofs_inverse layout;
     let safe = rozofs_get_rozofs_safe layout;
     vs \<leftarrow> block_views ctxs safe block_idx;
     (left, tb, found) \<leftarrow> timestamp_tb_loop inv_nb vs safe [];
     case found of
       Some e \<Rightarrow> do {
         ctxs \<leftarrow> rozofs_storcli_mark_projection2rebuild ctxs tb (int e) (int (length tb));
         Some \<lparr>ret = 1, chosen = prj_idx_tb (tb ! e), res_timestamp = ts_timestamp (tb ! e),
               res_length = ts_effective_length (tb ! e), corrupted = corr, ctxs_after = ctxs\<rparr> }
     | None \<Rightarrow>
         if tb = [] then Some \<lparr>ret = 0, chosen = row, res_timestamp = 0, res_length = len, corrupted = corr, ctxs_after = ctxs\<rparr>
         else if \<exists>p\<in>set tb. left + int (ts_count p) \<ge> rozofs_get_rozofs_forward layout
         then Some \<lparr>ret = -1, chosen = row, res_timestamp = 0, res_length = len, corrupted = corr, ctxs_after = ctxs\<rparr>
         else Some \<lparr>ret = 0, chosen = row, res_timestamp = 0, res_length = word_of_int (ROZOFS_BSIZE_BYTES bsize),
               corrupted = corr + 1, ctxs_after = ctxs\<rparr> }"

definition no_entry :: rozofs_storcli_timestamp_ctx_t where
  "no_entry = \<lparr>ts_timestamp = 0, ts_effective_length = 0, prj_idx_tb = [], prjid_bitmap = 0\<rparr>"

definition rozofs_storcli_transform_inverse_check ::
  "rozofs_storcli_projection_ctx_t list \<Rightarrow> int \<Rightarrow> int \<Rightarrow> int \<Rightarrow> nat \<Rightarrow> check_result option"
where
  "rozofs_storcli_transform_inverse_check ctxs layout bsize block_idx corr = do {
     let inv_nb = rozofs_get_rozofs_inverse layout;
     vs \<leftarrow> block_views ctxs (rozofs_get_rozofs_safe layout) block_idx;
     (s, found) \<leftarrow> inverse_check_loop inv_nb vs \<lparr>ref_ctx = no_entry, others = []\<rparr>;
     if found then do {
       ctxs \<leftarrow> (if others s \<noteq> []
         then rozofs_storcli_mark_projection2rebuild ctxs [no_entry\<lparr>prj_idx_tb := others s\<rparr>] 2 1 else Some ctxs);
       Some \<lparr>ret = inv_nb, chosen = prj_idx_tb (ref_ctx s), res_timestamp = ts_timestamp (ref_ctx s),
             res_length = ts_effective_length (ref_ctx s), corrupted = corr, ctxs_after = ctxs\<rparr> }
     else if ts_count (ref_ctx s) = 0
     then Some \<lparr>ret = 0, chosen = [], res_timestamp = 0, res_length = 0, corrupted = corr, ctxs_after = ctxs\<rparr>
     else rozofs_storcli_transform_inverse_check_timestamp_tb ctxs layout bsize block_idx (prj_idx_tb (ref_ctx s)) 0 corr }"

text \<open>
  The loop over the blocks. The result is the C return value with the number of blocks, the block
  contexts, the rows of the index table (one per block), the count of corrupted blocks and the contexts.
\<close>

type_synonym check_state =
  "rozofs_storcli_inverse_block_t list \<times> (int \<Rightarrow> nat list) \<times> nat \<times> rozofs_storcli_projection_ctx_t list"

fun check_blocks :: "int \<Rightarrow> int \<Rightarrow> int list \<Rightarrow> check_state \<Rightarrow> ((int \<times> int) option \<times> check_state) option" where
  "check_blocks layout bsize [] st = Some (None, st)"
| "check_blocks layout bsize (block_idx # bs) (blks, tbl, corr, ctxs) = do {
     blk \<leftarrow> arr_get blks block_idx;
     if blk_state blk = ROZOFS_BLK_TRANSFORM_DONE then check_blocks layout bsize bs (blks, tbl, corr, ctxs)
     else do {
       r \<leftarrow> rozofs_storcli_transform_inverse_check ctxs layout bsize block_idx corr;
       blks \<leftarrow> arr_set blks block_idx (blk\<lparr>blk_timestamp := res_timestamp r, blk_effective_length := res_length r\<rparr>);
       let st = (blks, tbl(block_idx := chosen r), corrupted r, ctxs_after r);
       if ret r < 0 then Some (Some (-1, 0), st)
       else if res_timestamp r = 0 \<and> res_length r = 0 then Some (Some (0, block_idx), st)
       else check_blocks layout bsize bs st } }"

definition rozofs_storcli_transform_inverse_check_for_thread ::
  "int \<Rightarrow> int \<Rightarrow> int \<Rightarrow> check_state \<Rightarrow> ((int \<times> int) \<times> check_state) option"
where
  "rozofs_storcli_transform_inverse_check_for_thread layout bsize number_of_blocks st = do {
     (r, st) \<leftarrow> check_blocks layout bsize [0..number_of_blocks - 1] st;
     Some (case r of Some x \<Rightarrow> x | None \<Rightarrow> (0, number_of_blocks), st) }"

section \<open>Choosing a block to repair\<close>

text \<open>
  The double loop over blocks and contexts, as one list of index pairs. It remembers the first missing
  block and gives up at the second (\<^term>\<open>Some None\<close>).
\<close>

fun repair_scan ::
  "rozofs_storcli_projection_ctx_t list \<Rightarrow> int \<Rightarrow> int \<Rightarrow> rozofs_storcli_inverse_block_t list
   \<Rightarrow> (int \<times> int) list \<Rightarrow> (int \<times> int) option \<Rightarrow> (int \<times> int) option option option"
where
  "repair_scan ctxs nfwd cells blks [] found = Some (Some found)"
| "repair_scan ctxs nfwd cells blks ((b, i) # ixs) found = do {
     blk \<leftarrow> arr_get blks b;
     if blk_timestamp blk = 0 then repair_scan ctxs nfwd cells blks ixs found
     else do {
       c \<leftarrow> arr_get ctxs i;
       if prj_state c \<noteq> ROZOFS_PRJ_READ_DONE then repair_scan ctxs nfwd cells blks ixs found
       else if stor_idx c \<ge> nfwd then repair_scan ctxs nfwd cells blks ixs found
       else do {
         h \<leftarrow> arr_get (prj_bins c) (cells * b);
         if timestamp (hdr_load h) = 0
         then (case found of None \<Rightarrow> repair_scan ctxs nfwd cells blks ixs (Some (b, i)) | Some _ \<Rightarrow> Some None)
         else repair_scan ctxs nfwd cells blks ixs found } } }"

definition rozofs_storcli_check_block_2_repair ::
  "rozofs_storcli_projection_ctx_t list \<Rightarrow> int \<Rightarrow> int \<Rightarrow> int \<Rightarrow> int \<Rightarrow> int \<Rightarrow> rozofs_storcli_inverse_block_t list
   \<Rightarrow> rozofs_storcli_projection_ctx_t list option"
where
  "rozofs_storcli_check_block_2_repair ctxs inv_nb nfwd safe cells number_of_blocks blks =
     (if number_of_blocks < 5 then Some ctxs else do {
        received \<leftarrow> foldM (\<lambda>i n. do { c \<leftarrow> arr_get ctxs i;
          Some (if prj_state c = ROZOFS_PRJ_READ_DONE then n + 1 else n) }) [0..safe - 1] 0;
        if received \<le> inv_nb then Some ctxs else do {
          found \<leftarrow> repair_scan ctxs nfwd cells blks (List.product [0..number_of_blocks - 1] [0..safe - 1]) None;
          case found of
            Some (Some (b, i)) \<Rightarrow> do {
              c \<leftarrow> arr_get ctxs i;
              bm \<leftarrow> ROZOFS_BITMAP64_SET b (crc_err_bitmap c);
              arr_set ctxs i (c\<lparr>crc_err_bitmap := bm\<rparr>) }
          | _ \<Rightarrow> Some ctxs } })"

end
