(* ===== verification/Storcli_Check.thy ===== *)
theory Storcli_Check
  imports Storcli_Ctx
begin

text \<open>
  Correctness of the choice of projections: the check of a block is sound (it never mixes two writes nor
  counts a projection twice), complete (it succeeds as soon as enough projections of some write were
  read) and declares a block corrupted only when it is incomplete; received headers are validated; at most
  one block is scheduled for repair.
\<close>

section \<open>The chosen projections belong together\<close>

text \<open>
  \<open>st\<close> and \<open>hdr\<close> are the state and the header of each context; \<open>A\<close> is the set of contexts already scanned.
  An entry is sound when its contexts have answered, carry its timestamp and length, and, for data, are
  projections of different numbers, exactly those of its bitmap.
\<close>

definition entry_ok ::
  "(nat \<Rightarrow> rozofs_read_req_state_e) \<Rightarrow> (nat \<Rightarrow> rozofs_stor_bins_hdr_t) \<Rightarrow> nat set \<Rightarrow> rozofs_storcli_timestamp_ctx_t \<Rightarrow> bool"
where
  "entry_ok st hdr A e \<longleftrightarrow> prj_idx_tb e \<noteq> [] \<and> distinct (prj_idx_tb e) \<and> set (prj_idx_tb e) \<subseteq> A
     \<and> (\<forall>i\<in>set (prj_idx_tb e). st i = ROZOFS_PRJ_READ_DONE \<and> same_write (hdr i) e \<and> unat (projection_id (hdr i)) < 31)
     \<and> (ts_timestamp e \<noteq> 0 \<longrightarrow> inj_on (\<lambda>i. projection_id (hdr i)) (set (prj_idx_tb e)))
     \<and> (\<forall>k. bit (prjid_bitmap e) k \<longleftrightarrow> (\<exists>i\<in>set (prj_idx_tb e). unat (projection_id (hdr i)) = k))"

lemma prjid_bitD: "prjid_bit q = Some b \<Longrightarrow> unat q < 31 \<and> (\<forall>k. bit b k \<longleftrightarrow> unat q = k)"
  by (auto simp: prjid_bit_def bit_simps split: if_splits)

lemma entry_ok_mono: "entry_ok st hdr A e \<Longrightarrow> A \<subseteq> B \<Longrightarrow> entry_ok st hdr B e"
  by (auto simp: entry_ok_def)

lemma entry_ok_new:
  "st i = ROZOFS_PRJ_READ_DONE \<Longrightarrow> prjid_bit (projection_id (hdr i)) = Some b \<Longrightarrow> i \<in> A \<Longrightarrow> entry_ok st hdr A (new_entry i (hdr i) b)"
  by (auto simp: entry_ok_def new_entry_def same_write_def dest: prjid_bitD)

lemma bitmap_hit:
  assumes "prjid_bit q = Some b"
  shows "(m AND b \<noteq> 0) = bit m (unat q)"
proof -
  have "b = push_bit (unat q) 1" using assms by (simp add: prjid_bit_def split: if_splits)
  then show ?thesis by (simp add: bit_iff_and_push_bit_not_eq_0)
qed

lemma entry_ok_join:
  assumes e: "entry_ok st hdr A e" and "st i = ROZOFS_PRJ_READ_DONE" "prjid_bit (projection_id (hdr i)) = Some b" "i \<notin> A"
    and "same_write (hdr i) e" "\<not> (timestamp (hdr i) \<noteq> 0 \<and> prjid_bitmap e AND b \<noteq> 0)"
  shows "entry_ok st hdr (insert i A) (join_entry i b e)"
proof -
  have "\<And>k. bit b k \<longleftrightarrow> unat (projection_id (hdr i)) = k" "unat (projection_id (hdr i)) < 31"
    using prjid_bitD[OF assms(3)] by auto
  moreover have "projection_id (hdr i) \<notin> (\<lambda>i. projection_id (hdr i)) ` set (prj_idx_tb e)" if "ts_timestamp e \<noteq> 0"
    using that e assms(5,6) bitmap_hit[OF assms(3), of "prjid_bitmap e"] by (auto simp: entry_ok_def same_write_def)
  ultimately show ?thesis
    using e assms by (auto simp: entry_ok_def join_entry_def same_write_def bit_simps)
qed

definition check_inv ::
  "(nat \<Rightarrow> rozofs_read_req_state_e) \<Rightarrow> (nat \<Rightarrow> rozofs_stor_bins_hdr_t) \<Rightarrow> nat set \<Rightarrow> check_st \<Rightarrow> bool"
where
  "check_inv st hdr A s \<longleftrightarrow> (ts_count (ref_ctx s) = 0 \<or> entry_ok st hdr A (ref_ctx s))
     \<and> set (others s) \<subseteq> A \<and> set (others s) \<inter> set (prj_idx_tb (ref_ctx s)) = {}"

lemma check_inv_step:
  assumes inv: "check_inv st hdr A s" and i: "i \<notin> A" "st i = ROZOFS_PRJ_READ_DONE" "prjid_bit (projection_id (hdr i)) = Some b"
  shows "check_inv st hdr (insert i A) s"
    and "ts_count (ref_ctx s) = 0 \<Longrightarrow> check_inv st hdr (insert i A) (s\<lparr>ref_ctx := new_entry i (hdr i) b\<rparr>)"
    and "ts_count (ref_ctx s) \<noteq> 0 \<Longrightarrow> check_inv st hdr (insert i A) (s\<lparr>others := others s @ [i]\<rparr>)"
    and "ts_count (ref_ctx s) \<noteq> 0 \<Longrightarrow> same_write (hdr i) (ref_ctx s) \<Longrightarrow>
      \<not> (timestamp (hdr i) \<noteq> 0 \<and> prjid_bitmap (ref_ctx s) AND b \<noteq> 0) \<Longrightarrow>
      check_inv st hdr (insert i A) (s\<lparr>ref_ctx := join_entry i b (ref_ctx s)\<rparr>)"
proof -
  have mono: "entry_ok st hdr A e \<Longrightarrow> entry_ok st hdr (insert i A) e" for e by (rule entry_ok_mono) auto
  show "check_inv st hdr (insert i A) s" using inv mono by (auto simp: check_inv_def)
  show "check_inv st hdr (insert i A) (s\<lparr>ref_ctx := new_entry i (hdr i) b\<rparr>)" if "ts_count (ref_ctx s) = 0"
    using inv i entry_ok_new[of st i hdr b "insert i A"] by (auto simp: check_inv_def new_entry_def)
  show "check_inv st hdr (insert i A) (s\<lparr>others := others s @ [i]\<rparr>)" if "ts_count (ref_ctx s) \<noteq> 0"
    using inv i that mono by (auto simp: check_inv_def entry_ok_def)
  show "check_inv st hdr (insert i A) (s\<lparr>ref_ctx := join_entry i b (ref_ctx s)\<rparr>)"
    if "ts_count (ref_ctx s) \<noteq> 0" "same_write (hdr i) (ref_ctx s)" "\<not> (timestamp (hdr i) \<noteq> 0 \<and> prjid_bitmap (ref_ctx s) AND b \<noteq> 0)"
    using inv i that entry_ok_join[of st hdr A "ref_ctx s" i b] by (auto simp: check_inv_def join_entry_def)
qed

lemma inverse_check_loop_sound:
  assumes "inverse_check_loop R (map (\<lambda>i. (i, st i, hdr i)) is) s = Some (s', found)" "distinct is" "set is \<inter> A = {}"
    and "check_inv st hdr A s"
  shows "check_inv st hdr (A \<union> set is) s' \<and> (found \<longrightarrow> int (ts_count (ref_ctx s')) = R \<and> ts_count (ref_ctx s') \<noteq> 0)"
  using assms
proof (induction "is" arbitrary: s A)
  case (Cons i "is")
  let ?V = "map (\<lambda>i. (i, st i, hdr i)) is"
  have ih: ?case if "inverse_check_loop R ?V t = Some (s', found)" "check_inv st hdr (insert i A) t" for t
    using Cons.IH[OF that(1) _ _ that(2)] Cons.prems(2,3) by auto
  have i: "i \<notin> A" using Cons.prems(3) by simp
  show ?case
  proof (cases "st i \<noteq> ROZOFS_PRJ_READ_DONE \<or> timestamp (hdr i) = 0 \<and> effective_length (hdr i) = 0 \<or> projection_id (hdr i) = 0xff")
    case True
    then have "inverse_check_loop R ?V s = Some (s', found)" using Cons.prems(1) by (auto split: if_splits)
    moreover have "check_inv st hdr (insert i A) s"
      using Cons.prems(4) entry_ok_mono[of st hdr A _ "insert i A"] by (auto simp: check_inv_def)
    ultimately show ?thesis using ih by blast
  next
    case False
    then obtain b where b: "prjid_bit (projection_id (hdr i)) = Some b" and st: "st i = ROZOFS_PRJ_READ_DONE"
      using Cons.prems(1) by (auto split: bind_splits)
    note body = Cons.prems(1)[simplified list.map inverse_check_loop.simps b Option.bind.bind_lunit]
    note step = check_inv_step[OF Cons.prems(4) i st b]
    let ?j = "s\<lparr>ref_ctx := join_entry i b (ref_ctx s)\<rparr>"
    consider "ts_count (ref_ctx s) = 0" | "ts_count (ref_ctx s) \<noteq> 0" "\<not> same_write (hdr i) (ref_ctx s)"
      | "ts_count (ref_ctx s) \<noteq> 0" "same_write (hdr i) (ref_ctx s)" "timestamp (hdr i) \<noteq> 0 \<and> prjid_bitmap (ref_ctx s) AND b \<noteq> 0"
      | "ts_count (ref_ctx s) \<noteq> 0" "same_write (hdr i) (ref_ctx s)" "\<not> (timestamp (hdr i) \<noteq> 0 \<and> prjid_bitmap (ref_ctx s) AND b \<noteq> 0)" by blast
    then show ?thesis
    proof cases
      case 4
      show ?thesis
      proof (cases "int (ts_count (ref_ctx ?j)) = R")
        case True
        then have "s' = ?j" "found" using body False 4 by (auto simp: Let_def)
        moreover have "check_inv st hdr (A \<union> set (i # is)) ?j"
          using step(4)[OF 4] entry_ok_mono[of st hdr "insert i A" _ "A \<union> set (i # is)"] by (auto simp: check_inv_def)
        ultimately show ?thesis using True by (simp add: join_entry_def)
      next
        case n: False
        then show ?thesis using ih[OF _ step(4)[OF 4]] body False 4 by (auto simp: Let_def)
      qed
    qed (use ih[OF _ step(1)] ih[OF _ step(2)] ih[OF _ step(3)] body False in \<open>auto split: if_splits\<close>)
  qed
qed simp

section \<open>The table of timestamps\<close>

text \<open>The three things an insertion can do: open an entry, meet a known projection, join an entry.\<close>

inductive tb_step ::
  "int \<Rightarrow> nat \<Rightarrow> rozofs_stor_bins_hdr_t \<Rightarrow> u32 \<Rightarrow> rozofs_storcli_timestamp_ctx_t list
   \<Rightarrow> rozofs_storcli_timestamp_ctx_t list \<Rightarrow> nat option \<Rightarrow> bool"
  for R i h b
where
  fresh: "\<forall>p\<in>set tb. \<not> same_write h p \<Longrightarrow> tb_step R i h b tb (tb @ [new_entry i h b]) None"
| dup: "p \<in> set tb \<Longrightarrow> same_write h p \<Longrightarrow> timestamp h \<noteq> 0 \<Longrightarrow> prjid_bitmap p AND b \<noteq> 0 \<Longrightarrow> tb_step R i h b tb tb None"
| join: "same_write h p \<Longrightarrow> \<not> (timestamp h \<noteq> 0 \<and> prjid_bitmap p AND b \<noteq> 0) \<Longrightarrow>
    r = (if int (ts_count (join_entry i b p)) = R then Some (length xs) else None) \<Longrightarrow>
    tb_step R i h b (xs @ p # ys) (xs @ join_entry i b p # ys) r"

lemma tb_step_Cons:
  assumes "tb_step R i h b tb tb' r" "\<not> same_write h p"
  shows "tb_step R i h b (p # tb) (p # tb') (map_option Suc r)"
  using assms(1)
proof (cases rule: tb_step.cases)
  case fresh
  then show ?thesis using tb_step.fresh[of "p # tb" h R i b] assms(2) by simp
next
  case (dup q)
  then show ?thesis using tb_step.dup[of q "p # tb" h b R i] by simp
next
  case (join q xs ys)
  then show ?thesis using tb_step.join[of h q b "map_option Suc r" i R "p # xs" ys] by (auto split: if_splits)
qed

lemma tb_insert_step: "tb_insert R i h b tb = (tb', r) \<Longrightarrow> tb_step R i h b tb tb' r"
proof (induction tb arbitrary: tb' r)
  case Nil
  then show ?case using tb_step.fresh[of "[]" h R i b] by simp
next
  case (Cons p tb)
  obtain tb1 r1 where rec: "tb_insert R i h b tb = (tb1, r1)" by fastforce
  consider "\<not> same_write h p" | "same_write h p" "timestamp h \<noteq> 0 \<and> prjid_bitmap p AND b \<noteq> 0"
    | "same_write h p" "\<not> (timestamp h \<noteq> 0 \<and> prjid_bitmap p AND b \<noteq> 0)" by blast
  then show ?case
  proof cases
    case 1
    then have "tb' = p # tb1" "r = map_option Suc r1" using Cons.prems rec by auto
    then show ?thesis using tb_step_Cons[OF Cons.IH[OF rec] 1] by simp
  next
    case 2
    then show ?thesis using Cons.prems tb_step.dup[of p "p # tb" h b R i] by auto
  next
    case 3
    then show ?thesis using Cons.prems tb_step.join[of h p b r i R "[]" tb] by (auto simp: Let_def)
  qed
qed

definition tb_sound ::
  "(nat \<Rightarrow> rozofs_read_req_state_e) \<Rightarrow> (nat \<Rightarrow> rozofs_stor_bins_hdr_t) \<Rightarrow> nat set \<Rightarrow> rozofs_storcli_timestamp_ctx_t list \<Rightarrow> bool"
where
  "tb_sound st hdr A tb \<longleftrightarrow> (\<forall>e\<in>set tb. entry_ok st hdr A e) \<and> distinct (concat (map prj_idx_tb tb))
     \<and> distinct (map (\<lambda>e. (ts_timestamp e, ts_effective_length e)) tb)"

text \<open>Every scanned context that answered is in the table, itself or a projection of the same number.\<close>

definition tb_covers ::
  "(nat \<Rightarrow> rozofs_read_req_state_e) \<Rightarrow> (nat \<Rightarrow> rozofs_stor_bins_hdr_t) \<Rightarrow> nat set \<Rightarrow> rozofs_storcli_timestamp_ctx_t list \<Rightarrow> bool"
where
  "tb_covers st hdr A tb \<longleftrightarrow> (\<forall>i\<in>A. st i = ROZOFS_PRJ_READ_DONE \<and> projection_id (hdr i) \<noteq> 0xff \<longrightarrow>
     (\<exists>e\<in>set tb. same_write (hdr i) e \<and> bit (prjid_bitmap e) (unat (projection_id (hdr i)))))"

lemma tb_insert_sound:
  assumes ins: "tb_insert R i (hdr i) b tb = (tb', r)" and ok: "tb_sound st hdr A tb"
    and i: "i \<notin> A" "st i = ROZOFS_PRJ_READ_DONE" "prjid_bit (projection_id (hdr i)) = Some b"
  shows "tb_sound st hdr (insert i A) tb' \<and> (\<forall>e. r = Some e \<longrightarrow> e < length tb' \<and> int (ts_count (tb' ! e)) = R)"
proof -
  have mono: "entry_ok st hdr (insert i A) e" if "e \<in> set tb" for e
    using ok that entry_ok_mono[of st hdr A e "insert i A"] by (auto simp: tb_sound_def)
  have sub: "set (concat (map prj_idx_tb tb)) \<subseteq> A" using ok by (auto simp: tb_sound_def entry_ok_def)
  show ?thesis using tb_insert_step[OF ins]
  proof (cases rule: tb_step.cases)
    case fresh
    then show ?thesis using ok mono sub i(1) entry_ok_new[of st i hdr b "insert i A"] i
      by (auto simp: tb_sound_def new_entry_def same_write_def)
  next
    case (dup p)
    then show ?thesis using ok mono by (simp add: tb_sound_def)
  next
    case (join p xs ys)
    then have "entry_ok st hdr (insert i A) (join_entry i b p)"
      using entry_ok_join[of st hdr A p i b] ok i by (simp add: tb_sound_def)
    then show ?thesis using join ok mono sub i(1)
      by (auto simp: tb_sound_def join_entry_def split: if_splits)
  qed
qed

lemma tb_insert_covers:
  assumes ins: "tb_insert R i (hdr i) b tb = (tb', r)" and cov: "tb_covers st hdr A tb"
    and b: "prjid_bit (projection_id (hdr i)) = Some b"
  shows "tb_covers st hdr (insert i A) tb'"
proof -
  have bi: "bit b (unat (projection_id (hdr i)))" using prjid_bitD[OF b] by simp
  show ?thesis using tb_insert_step[OF ins]
  proof (cases rule: tb_step.cases)
    case fresh
    then show ?thesis using cov bi by (auto simp: tb_covers_def new_entry_def same_write_def)
  next
    case (dup p)
    then show ?thesis using cov bitmap_hit[OF b, of "prjid_bitmap p"] by (auto simp: tb_covers_def)
  next
    case (join p xs ys)
    then show ?thesis using cov bi by (fastforce simp: tb_covers_def join_entry_def same_write_def bit_simps)
  qed
qed

lemma tb_insert_counts:
  assumes "tb_insert R i h b tb = (tb', None)" "\<forall>e\<in>set tb. int (ts_count e) < R" "1 < R"
  shows "\<forall>e\<in>set tb'. int (ts_count e) < R"
  using tb_insert_step[OF assms(1)]
proof (cases rule: tb_step.cases)
  case (join p xs ys)
  then have "int (ts_count (join_entry i b p)) \<noteq> R" by auto
  then show ?thesis using join assms(2) by (auto simp: join_entry_def)
qed (use assms in \<open>auto simp: new_entry_def\<close>)

lemma timestamp_tb_loop_sound:
  assumes "timestamp_tb_loop R (map (\<lambda>i. (i, st i, hdr i)) is) left tb = Some (left', tb', found)"
    and "distinct is" "set is \<inter> A = {}" "tb_sound st hdr A tb"
  shows "tb_sound st hdr (A \<union> set is) tb' \<and> (\<forall>e. found = Some e \<longrightarrow> e < length tb' \<and> int (ts_count (tb' ! e)) = R)"
  using assms
proof (induction "is" arbitrary: A left tb)
  case (Cons i "is")
  have mono: "tb_sound st hdr (insert i A) tb"
    using Cons.prems(4) by (auto simp: tb_sound_def intro: entry_ok_mono[of st hdr A _ "insert i A"])
  have ih: ?case if "timestamp_tb_loop R (map (\<lambda>i. (i, st i, hdr i)) is) l t = Some (left', tb', found)" "tb_sound st hdr (insert i A) t" for l t
    using Cons.IH[OF that(1) _ _ that(2)] Cons.prems(2,3) by auto
  show ?case
  proof (cases "st i \<noteq> ROZOFS_PRJ_READ_DONE \<or> projection_id (hdr i) = 0xff")
    case True
    then have "\<exists>l. timestamp_tb_loop R (map (\<lambda>i. (i, st i, hdr i)) is) l tb = Some (left', tb', found)"
      using Cons.prems(1) by (auto split: if_splits)
    then show ?thesis using ih mono by blast
  next
    case False
    then obtain b where b: "prjid_bit (projection_id (hdr i)) = Some b" and st: "st i = ROZOFS_PRJ_READ_DONE"
      using Cons.prems(1) by (auto split: bind_splits)
    obtain tb1 r where ins: "tb_insert R i (hdr i) b tb = (tb1, r)" by fastforce
    have s: "tb_sound st hdr (insert i A) tb1 \<and> (\<forall>e. r = Some e \<longrightarrow> e < length tb1 \<and> int (ts_count (tb1 ! e)) = R)"
      by (rule tb_insert_sound[OF ins Cons.prems(4) _ st b]) (use Cons.prems(3) in simp)
    show ?thesis
    proof (cases r)
      case None
      then show ?thesis using ih[of "left - 1" tb1] s Cons.prems(1) False b ins st by simp
    next
      case (Some e)
      then have "tb' = tb1" "found = Some e" using Cons.prems(1) False b ins st by auto
      then show ?thesis using s Some by (auto simp: tb_sound_def intro: entry_ok_mono[of st hdr "insert i A"])
    qed
  qed
qed simp

lemma timestamp_tb_loop_covers:
  assumes "timestamp_tb_loop R (map (\<lambda>i. (i, st i, hdr i)) is) left tb = Some (left', tb', None)"
    and "tb_covers st hdr A tb" "\<forall>e\<in>set tb. int (ts_count e) < R" "1 < R"
  shows "tb_covers st hdr (A \<union> set is) tb' \<and> (\<forall>e\<in>set tb'. int (ts_count e) < R)
    \<and> left' = left - int (length (filter (\<lambda>i. st i = ROZOFS_PRJ_READ_DONE \<or> st i = ROZOFS_PRJ_READ_ENOENT) is))"
  using assms
proof (induction "is" arbitrary: A left tb)
  case (Cons i "is")
  let ?f = "\<lambda>is. int (length (filter (\<lambda>i. st i = ROZOFS_PRJ_READ_DONE \<or> st i = ROZOFS_PRJ_READ_ENOENT) is))"
  have ih: ?case if "timestamp_tb_loop R (map (\<lambda>i. (i, st i, hdr i)) is) (left - (?f (i # is) - ?f is)) t = Some (left', tb', None)"
    "tb_covers st hdr (insert i A) t" "\<forall>e\<in>set t. int (ts_count e) < R" for t
    using Cons.IH[OF that Cons.prems(4)] by simp
  show ?case
  proof (cases "st i \<noteq> ROZOFS_PRJ_READ_DONE \<or> projection_id (hdr i) = 0xff")
    case True
    then have "tb_covers st hdr (insert i A) tb" using Cons.prems(2) by (auto simp: tb_covers_def)
    with True show ?thesis using ih[of tb] Cons.prems(1,3) by (auto split: if_splits)
  next
    case False
    then obtain b where b: "prjid_bit (projection_id (hdr i)) = Some b" and st: "st i = ROZOFS_PRJ_READ_DONE"
      using Cons.prems(1) by (auto split: bind_splits)
    obtain tb1 r where ins: "tb_insert R i (hdr i) b tb = (tb1, r)" by fastforce
    then have r: "r = None" using Cons.prems(1) False b st by (cases r) auto
    show ?thesis
      using ih[of tb1] tb_insert_covers[OF ins Cons.prems(2) b] tb_insert_counts[OF ins[unfolded r] Cons.prems(3,4)]
        Cons.prems(1) False b ins st r by simp
  qed
qed simp

section \<open>Checking a block\<close>

definition ctx_hdr :: "rozofs_storcli_projection_ctx_t list \<Rightarrow> int \<Rightarrow> nat \<Rightarrow> rozofs_stor_bins_hdr_t" where
  "ctx_hdr ctxs b i = block_hdr_tab (ctxs ! i) ! nat b"

definition ctx_state :: "rozofs_storcli_projection_ctx_t list \<Rightarrow> nat \<Rightarrow> rozofs_read_req_state_e" where
  "ctx_state ctxs i = prj_state (ctxs ! i)"

definition ctxs_ready :: "rozofs_storcli_projection_ctx_t list \<Rightarrow> int \<Rightarrow> int \<Rightarrow> bool" where
  "ctxs_ready ctxs safe b \<longleftrightarrow> safe \<le> int (length ctxs) \<and> 0 \<le> b \<and> (\<forall>c\<in>set ctxs. b < int (length (block_hdr_tab c)))"

abbreviation views :: "rozofs_storcli_projection_ctx_t list \<Rightarrow> int \<Rightarrow> int \<Rightarrow> prj_view list" where
  "views ctxs safe b \<equiv> map (\<lambda>i. (i, ctx_state ctxs i, ctx_hdr ctxs b i)) [0..<nat safe]"

lemma block_views_eq:
  assumes "block_views ctxs safe b = Some vs"
  shows "vs = views ctxs safe b \<and> safe \<le> int (length ctxs)"
proof -
  let ?f = "\<lambda>i vs. do { c \<leftarrow> arr_get ctxs i; h \<leftarrow> arr_get (block_hdr_tab c) b; Some (vs @ [(nat i, prj_state c, h)]) }"
  have "foldM ?f [0..int n - 1] [] = Some vs \<Longrightarrow> vs = map (\<lambda>i. (i, ctx_state ctxs i, ctx_hdr ctxs b i)) [0..<n] \<and> n \<le> length ctxs" for n vs
  proof (induction n arbitrary: vs)
    case (Suc n)
    have "[0..int (Suc n) - 1] = [0..int n - 1] @ [int n]" using upto_snoc[of 0 "int n"] by simp
    then show ?case using Suc by (auto simp: foldM_append ctx_state_def ctx_hdr_def arr_get_Some_iff split: bind_splits simp del: of_nat_Suc)
  qed simp
  from this[of "nat safe" vs] show ?thesis using assms by (cases "0 \<le> safe") (auto simp: block_views_def nat_le_iff)
qed

lemma block_views_ready:
  assumes "ctxs_ready ctxs safe b" "0 \<le> safe"
  shows "block_views ctxs safe b = Some (views ctxs safe b)"
proof -
  let ?f = "\<lambda>i vs. do { c \<leftarrow> arr_get ctxs i; h \<leftarrow> arr_get (block_hdr_tab c) b; Some (vs @ [(nat i, prj_state c, h)]) }"
  have "n \<le> length ctxs \<Longrightarrow> foldM ?f [0..int n - 1] [] = Some (map (\<lambda>i. (i, ctx_state ctxs i, ctx_hdr ctxs b i)) [0..<n])" for n
  proof (induction n)
    case (Suc n)
    have "[0..int (Suc n) - 1] = [0..int n - 1] @ [int n]" using upto_snoc[of 0 "int n"] by simp
    then show ?case using Suc assms(1) by (simp add: foldM_append ctx_state_def ctx_hdr_def arr_get_in ctxs_ready_def del: of_nat_Suc)
  qed simp
  from this[of "nat safe"] show ?thesis using assms by (simp add: block_views_def ctxs_ready_def nat_le_iff)
qed

lemma distinct_concat_nth:
  "distinct (concat xss) \<Longrightarrow> i < length xss \<Longrightarrow> j < length xss \<Longrightarrow> i \<noteq> j \<Longrightarrow> set (xss ! i) \<inter> set (xss ! j) = {}"
proof (induction xss arbitrary: i j)
  case (Cons xs xss)
  have d: "set xs \<inter> set (xss ! k) = {}" if "k < length xss" for k
    using Cons.prems(1) nth_mem[OF that] by auto
  show ?case
  proof (cases i)
    case 0
    then show ?thesis using d[of "j - 1"] Cons.prems by (cases j) auto
  next
    case (Suc i')
    then show ?thesis using d[of i'] Cons.IH[of i' "j - 1"] Cons.prems by (cases j) (auto simp: Int_commute)
  qed
qed simp

text \<open>Marking changes rebuild marks only, and only of the listed contexts.\<close>

definition only_marks :: "nat set \<Rightarrow> rozofs_storcli_projection_ctx_t list \<Rightarrow> rozofs_storcli_projection_ctx_t list \<Rightarrow> bool" where
  "only_marks A ctxs ctxs' \<longleftrightarrow> length ctxs' = length ctxs
     \<and> (\<forall>i < length ctxs. ctxs' ! i = ctxs ! i \<or> i \<in> A \<and> ctxs' ! i = (ctxs ! i)\<lparr>rebuild_req := True\<rparr>)"

lemma only_marks_refl: "only_marks A ctxs ctxs"
  by (simp add: only_marks_def)

lemma only_marks_trans: "only_marks A x y \<Longrightarrow> only_marks A y z \<Longrightarrow> only_marks A x z"
proof -
  assume a: "only_marks A x y" "only_marks A y z"
  have "z ! i = x ! i \<or> i \<in> A \<and> z ! i = (x ! i)\<lparr>rebuild_req := True\<rparr>" if "i < length x" for i
    using a that unfolding only_marks_def by (elim conjE allE[of _ i]) auto
  then show ?thesis using a by (simp add: only_marks_def)
qed

lemma mark_one_only: "mark_one i ctxs = Some ctxs' \<Longrightarrow> i \<in> A \<Longrightarrow> only_marks A ctxs ctxs'"
  by (auto simp: mark_one_def only_marks_def arr_get_Some_iff arr_set_Some_iff nth_list_update split: bind_splits if_splits)

lemma mark_list_only: "foldM mark_one is ctxs = Some ctxs' \<Longrightarrow> set is \<subseteq> A \<Longrightarrow> only_marks A ctxs ctxs'"
  by (rule foldM_preserves[where P = "only_marks A ctxs"])
    (auto intro: only_marks_refl only_marks_trans mark_one_only)

lemma mark_only:
  assumes "rozofs_storcli_mark_projection2rebuild ctxs tb found nb = Some ctxs'"
    and "\<And>i. 0 \<le> i \<Longrightarrow> i < nb \<Longrightarrow> i \<noteq> found \<Longrightarrow> set (prj_idx_tb (tb ! nat i)) \<subseteq> A"
  shows "only_marks A ctxs ctxs'"
  using assms(1) unfolding rozofs_storcli_mark_projection2rebuild_def
proof (rule foldM_preserves[where P = "only_marks A ctxs"])
  show "only_marks A ctxs v" if "x \<in> set [0..nb - 1]" "only_marks A ctxs u"
    "(if x = found then Some u else do { p \<leftarrow> arr_get tb x; foldM mark_one (prj_idx_tb p) u }) = Some v" for x u v
    using that assms(2)[of x] mark_list_only[of _ u v A]
    by (auto simp: arr_get_Some_iff intro: only_marks_trans split: bind_splits if_splits)
qed (rule only_marks_refl)

lemma mark_one_total: "i < length ctxs \<Longrightarrow> \<exists>ctxs'. mark_one i ctxs = Some ctxs' \<and> length ctxs' = length ctxs"
  by (auto simp: mark_one_def arr_get_in arr_set_in)

lemma mark_list_total:
  "\<forall>i\<in>set is. i < length ctxs \<Longrightarrow> \<exists>ctxs'. foldM mark_one is ctxs = Some ctxs' \<and> length ctxs' = length ctxs"
proof (induction "is" arbitrary: ctxs)
  case (Cons i "is")
  obtain c where c: "mark_one i ctxs = Some c" "length c = length ctxs" using mark_one_total[of i ctxs] Cons.prems by auto
  with Cons.IH[of c] Cons.prems show ?case by auto
qed simp

lemma mark_total:
  assumes "\<And>e. e \<in> set tb \<Longrightarrow> \<forall>i\<in>set (prj_idx_tb e). i < length ctxs" "nb \<le> int (length tb)"
  shows "\<exists>ctxs'. rozofs_storcli_mark_projection2rebuild ctxs tb found nb = Some ctxs'"
proof -
  have "\<exists>t. foldM (\<lambda>i ctxs. if i = found then Some ctxs else do { p \<leftarrow> arr_get tb i; foldM mark_one (prj_idx_tb p) ctxs }) [0..nb - 1] ctxs = Some t
    \<and> length t = length ctxs"
  proof (rule foldM_invariant[where I = "\<lambda>_ t. length t = length ctxs"])
    fix pre x post and t :: "rozofs_storcli_projection_ctx_t list"
    assume split: "[0..nb - 1] = pre @ x # post" and t: "length t = length ctxs"
    have "x \<in> set [0..nb - 1]" unfolding split by simp
    then have "0 \<le> x" "x < int (length tb)" using assms(2) by auto
    moreover then have "\<forall>i\<in>set (prj_idx_tb (tb ! nat x)). i < length t" using assms(1)[of "tb ! nat x"] t by (simp add: nat_less_iff)
    ultimately show "\<exists>t'. (if x = found then Some t else do { p \<leftarrow> arr_get tb x; foldM mark_one (prj_idx_tb p) t }) = Some t' \<and> length t' = length ctxs"
      using mark_list_total[of "prj_idx_tb (tb ! nat x)" t] t by (auto simp: arr_get_in)
  qed simp
  then show ?thesis by (auto simp: rozofs_storcli_mark_projection2rebuild_def)
qed

lemma layout_small: "0 \<le> layout \<Longrightarrow> layout < 3 \<Longrightarrow>
   1 < rozofs_get_rozofs_inverse layout \<and> rozofs_get_rozofs_inverse layout \<le> rozofs_get_rozofs_forward layout
   \<and> rozofs_get_rozofs_forward layout \<le> rozofs_get_rozofs_safe layout \<and> rozofs_get_rozofs_safe layout \<le> 16"
  by (rule small_layout_cases[of layout]) (auto simp: layout_params)

text \<open>A choice is good when it is made of \<open>R\<close> different projections of one write.\<close>

definition good_choice ::
  "rozofs_storcli_projection_ctx_t list \<Rightarrow> int \<Rightarrow> int \<Rightarrow> int \<Rightarrow> nat list \<Rightarrow> u64 \<Rightarrow> u16 \<Rightarrow> bool"
where
  "good_choice ctxs R safe b is ts len \<longleftrightarrow> int (length is) = R \<and> distinct is
     \<and> (\<forall>i\<in>set is. int i < safe \<and> ctx_state ctxs i = ROZOFS_PRJ_READ_DONE
          \<and> timestamp (ctx_hdr ctxs b i) = ts \<and> effective_length (ctx_hdr ctxs b i) = len)
     \<and> (ts \<noteq> 0 \<longrightarrow> inj_on (\<lambda>i. projection_id (ctx_hdr ctxs b i)) (set is))"

lemma entry_good:
  assumes "entry_ok (ctx_state ctxs) (ctx_hdr ctxs b) {0..<nat safe} e" "int (ts_count e) = R"
  shows "good_choice ctxs R safe b (prj_idx_tb e) (ts_timestamp e) (ts_effective_length e)"
  using assms by (auto simp: entry_ok_def good_choice_def same_write_def)

lemma timestamp_tb_check_sound:
  assumes run: "rozofs_storcli_transform_inverse_check_timestamp_tb ctxs layout bsize b row len corr = Some r" and "0 < ret r"
  shows "good_choice ctxs (rozofs_get_rozofs_inverse layout) (rozofs_get_rozofs_safe layout) b (chosen r) (res_timestamp r) (res_length r)
    \<and> only_marks (- set (chosen r)) ctxs (ctxs_after r)"
proof -
  let ?R = "rozofs_get_rozofs_inverse layout" and ?S = "rozofs_get_rozofs_safe layout"
  obtain left tb found where loop: "timestamp_tb_loop ?R (views ctxs ?S b) ?S [] = Some (left, tb, found)"
    using run block_views_eq[of ctxs ?S b] by (auto simp: rozofs_storcli_transform_inverse_check_timestamp_tb_def Let_def split: bind_splits)
  have snd: "tb_sound (ctx_state ctxs) (ctx_hdr ctxs b) ({} \<union> set [0..<nat ?S]) tb
      \<and> (\<forall>e. found = Some e \<longrightarrow> e < length tb \<and> int (ts_count (tb ! e)) = ?R)"
    by (rule timestamp_tb_loop_sound[OF loop]) (auto simp: tb_sound_def)
  obtain e where e: "found = Some e" and res: "chosen r = prj_idx_tb (tb ! e)" "res_timestamp r = ts_timestamp (tb ! e)"
      "res_length r = ts_effective_length (tb ! e)"
      "rozofs_storcli_mark_projection2rebuild ctxs tb (int e) (int (length tb)) = Some (ctxs_after r)"
    using run assms(2) loop block_views_eq[of ctxs ?S b]
    by (auto simp: rozofs_storcli_transform_inverse_check_timestamp_tb_def Let_def split: bind_splits option.splits if_splits)
  have el: "e < length tb" using snd e by simp
  have "only_marks (- set (chosen r)) ctxs (ctxs_after r)"
  proof (rule mark_only[OF res(4)])
    fix i :: int assume i: "0 \<le> i" "i < int (length tb)" "i \<noteq> int e"
    have "set (map prj_idx_tb tb ! nat i) \<inter> set (map prj_idx_tb tb ! e) = {}"
      using snd i el by (intro distinct_concat_nth) (auto simp: tb_sound_def nat_less_iff)
    then show "set (prj_idx_tb (tb ! nat i)) \<subseteq> - set (chosen r)" using res(1) i el by (auto simp: nat_less_iff)
  qed
  then show ?thesis using entry_good[of ctxs b ?S "tb ! e" ?R] snd e el res by (auto simp: tb_sound_def atLeast0LessThan)
qed

lemma inverse_check_good:
  assumes run: "rozofs_storcli_transform_inverse_check ctxs layout bsize b corr = Some r" and "0 < ret r"
  shows "good_choice ctxs (rozofs_get_rozofs_inverse layout) (rozofs_get_rozofs_safe layout) b (chosen r) (res_timestamp r) (res_length r)
    \<and> only_marks (- set (chosen r)) ctxs (ctxs_after r)"
proof -
  let ?R = "rozofs_get_rozofs_inverse layout" and ?S = "rozofs_get_rozofs_safe layout"
  obtain s found where loop: "inverse_check_loop ?R (views ctxs ?S b) \<lparr>ref_ctx = no_entry, others = []\<rparr> = Some (s, found)"
    using run block_views_eq[of ctxs ?S b] by (auto simp: rozofs_storcli_transform_inverse_check_def Let_def split: bind_splits)
  have inv: "check_inv (ctx_state ctxs) (ctx_hdr ctxs b) ({} \<union> set [0..<nat ?S]) s \<and> (found \<longrightarrow> int (ts_count (ref_ctx s)) = ?R \<and> ts_count (ref_ctx s) \<noteq> 0)"
    by (rule inverse_check_loop_sound[OF loop]) (auto simp: check_inv_def no_entry_def)
  show ?thesis
  proof (cases found)
    case True
    then have e: "entry_ok (ctx_state ctxs) (ctx_hdr ctxs b) {0..<nat ?S} (ref_ctx s)" "int (ts_count (ref_ctx s)) = ?R"
      using inv by (auto simp: check_inv_def atLeast0LessThan)
    have res: "chosen r = prj_idx_tb (ref_ctx s)" "res_timestamp r = ts_timestamp (ref_ctx s)" "res_length r = ts_effective_length (ref_ctx s)"
      "ctxs_after r = ctxs \<or> rozofs_storcli_mark_projection2rebuild ctxs [no_entry\<lparr>prj_idx_tb := others s\<rparr>] 2 1 = Some (ctxs_after r)"
      using run True loop block_views_eq[of ctxs ?S b]
      by (auto simp: rozofs_storcli_transform_inverse_check_def Let_def split: bind_splits if_splits)
    have "only_marks (- set (chosen r)) ctxs (ctxs_after r)"
      using res(4)
    proof
      assume "rozofs_storcli_mark_projection2rebuild ctxs [no_entry\<lparr>prj_idx_tb := others s\<rparr>] 2 1 = Some (ctxs_after r)"
      then show ?thesis
        by (rule mark_only) (use inv res(1) in \<open>auto simp: check_inv_def\<close>)
    qed (simp add: only_marks_refl)
    then show ?thesis using entry_good[OF e] res by simp
  next
    case False
    then have "rozofs_storcli_transform_inverse_check_timestamp_tb ctxs layout bsize b (prj_idx_tb (ref_ctx s)) 0 corr = Some r"
      using run assms(2) loop block_views_eq[of ctxs ?S b]
      by (auto simp: rozofs_storcli_transform_inverse_check_def Let_def split: bind_splits if_splits)
    then show ?thesis by (rule timestamp_tb_check_sound) (rule assms(2))
  qed
qed

text \<open>
  C4. Soundness of the choice of projections: whenever the check of a block succeeds, the contexts it
  chose are \<^verbatim>\<open>rozofs_inverse\<close> different contexts that answered, all carry the timestamp and the length that
  are returned, and (for a block with data) hold pairwise different projections. The check changes
  nothing but rebuild marks, and never marks a chosen context.
\<close>

theorem inverse_check_sound:
  assumes run: "rozofs_storcli_transform_inverse_check ctxs layout bsize b corr = Some r" and "0 < ret r"
  shows "good_choice ctxs (rozofs_get_rozofs_inverse layout) (rozofs_get_rozofs_safe layout) b (chosen r) (res_timestamp r) (res_length r)
    \<and> only_marks (- set (chosen r)) ctxs (ctxs_after r)"
  using assms by (rule inverse_check_good)

text \<open>Faults of the two loops: only a shift beyond the width.\<close>

definition prjids_ok :: "rozofs_storcli_projection_ctx_t list \<Rightarrow> int \<Rightarrow> int \<Rightarrow> bool" where
  "prjids_ok ctxs safe b \<longleftrightarrow> (\<forall>i. int i < safe \<and> ctx_state ctxs i = ROZOFS_PRJ_READ_DONE \<longrightarrow>
     unat (projection_id (ctx_hdr ctxs b i)) < 31 \<or> projection_id (ctx_hdr ctxs b i) = 0xff)"

lemma inverse_check_loop_total:
  assumes "\<And>i. i \<in> set is \<Longrightarrow> st i = ROZOFS_PRJ_READ_DONE \<Longrightarrow> unat (projection_id (hdr i)) < 31 \<or> projection_id (hdr i) = 0xff"
  shows "inverse_check_loop R (map (\<lambda>i. (i, st i, hdr i)) is) s \<noteq> None"
  using assms
proof (induction "is" arbitrary: s)
  case (Cons i "is")
  show ?case
  proof (cases "st i = ROZOFS_PRJ_READ_DONE \<and> projection_id (hdr i) \<noteq> 0xff")
    case True
    then obtain b where "prjid_bit (projection_id (hdr i)) = Some b" using Cons.prems[of i] by (auto simp: prjid_bit_def)
    then show ?thesis using Cons by (auto simp: Let_def)
  qed (use Cons in auto)
qed simp

lemma timestamp_tb_loop_total:
  assumes "\<And>i. i \<in> set is \<Longrightarrow> st i = ROZOFS_PRJ_READ_DONE \<Longrightarrow> unat (projection_id (hdr i)) < 31 \<or> projection_id (hdr i) = 0xff"
  shows "timestamp_tb_loop R (map (\<lambda>i. (i, st i, hdr i)) is) left tb \<noteq> None"
  using assms
proof (induction "is" arbitrary: left tb)
  case (Cons i "is")
  show ?case
  proof (cases "st i = ROZOFS_PRJ_READ_DONE \<and> projection_id (hdr i) \<noteq> 0xff")
    case True
    then obtain b where "prjid_bit (projection_id (hdr i)) = Some b" using Cons.prems[of i] by (auto simp: prjid_bit_def)
    then show ?thesis using Cons True by (auto split: prod.splits option.splits)
  qed (use Cons in auto)
qed simp

lemma inverse_check_loop_nonempty:
  "inverse_check_loop R vs s = Some (s', found) \<Longrightarrow> ts_count (ref_ctx s) \<noteq> 0 \<Longrightarrow> ts_count (ref_ctx s') \<noteq> 0"
proof (induction R vs s rule: inverse_check_loop.induct)
  case (2 R i st h vs s)
  then show ?case by (fastforce simp: join_entry_def Let_def split: if_splits bind_splits)
qed simp

lemma inverse_check_loop_empty:
  assumes "inverse_check_loop R (map (\<lambda>i. (i, st i, hdr i)) is) s = Some (s', found)" "ts_count (ref_ctx s') = 0"
  shows "\<forall>i\<in>set is. st i = ROZOFS_PRJ_READ_DONE \<and> projection_id (hdr i) \<noteq> 0xff \<longrightarrow> timestamp (hdr i) = 0 \<and> effective_length (hdr i) = 0"
  using assms
proof (induction "is" arbitrary: s)
  case (Cons i "is")
  show ?case
  proof (cases "st i = ROZOFS_PRJ_READ_DONE \<and> projection_id (hdr i) \<noteq> 0xff \<and> \<not> (timestamp (hdr i) = 0 \<and> effective_length (hdr i) = 0)")
    case True
    then obtain b where b: "prjid_bit (projection_id (hdr i)) = Some b" using Cons.prems(1) by (auto split: bind_splits)
    have ne: "ts_count (ref_ctx t) = 0" if "inverse_check_loop R (map (\<lambda>i. (i, st i, hdr i)) is) t = Some (s', found)" for t
      using inverse_check_loop_nonempty[OF that] Cons.prems(2) by blast
    have False using Cons.prems True b ne[of "s\<lparr>ref_ctx := new_entry i (hdr i) b\<rparr>"] ne[of s] ne[of "s\<lparr>others := others s @ [i]\<rparr>"]
        ne[of "s\<lparr>ref_ctx := join_entry i b (ref_ctx s)\<rparr>"]
      by (cases "ts_count (ref_ctx s) = 0") (auto simp: new_entry_def join_entry_def Let_def split: if_splits)
    then show ?thesis ..
  next
    case False
    then have "inverse_check_loop R (map (\<lambda>i. (i, st i, hdr i)) is) s = Some (s', found)"
      using Cons.prems(1) by (auto split: if_splits)
    then show ?thesis using Cons.IH Cons.prems(2) False by auto
  qed
qed simp

text \<open>The contexts that hold a projection of the write \<open>(ts, len)\<close>, and its projection numbers.\<close>

definition holders :: "rozofs_storcli_projection_ctx_t list \<Rightarrow> int \<Rightarrow> int \<Rightarrow> u64 \<Rightarrow> u16 \<Rightarrow> nat set" where
  "holders ctxs safe b ts len = {i. int i < safe \<and> ctx_state ctxs i = ROZOFS_PRJ_READ_DONE
     \<and> projection_id (ctx_hdr ctxs b i) \<noteq> 0xff \<and> timestamp (ctx_hdr ctxs b i) = ts \<and> effective_length (ctx_hdr ctxs b i) = len}"

definition available :: "rozofs_storcli_projection_ctx_t list \<Rightarrow> int \<Rightarrow> int \<Rightarrow> u64 \<Rightarrow> u16 \<Rightarrow> int" where
  "available ctxs safe b ts len = int (card ((\<lambda>i. projection_id (ctx_hdr ctxs b i)) ` holders ctxs safe b ts len))"

lemma covered_available:
  assumes snd: "tb_sound (ctx_state ctxs) (ctx_hdr ctxs b) {0..<nat safe} tb"
    and cov: "tb_covers (ctx_state ctxs) (ctx_hdr ctxs b) {0..<nat safe} tb" and "holders ctxs safe b ts len \<noteq> {}"
  shows "\<exists>e\<in>set tb. available ctxs safe b ts len \<le> int (ts_count e)"
proof -
  let ?h = "ctx_hdr ctxs b" let ?p = "\<lambda>i. projection_id (?h i)" let ?H = "holders ctxs safe b ts len"
  have ex: "\<exists>e\<in>set tb. ts_timestamp e = ts \<and> ts_effective_length e = len \<and> bit (prjid_bitmap e) (unat (?p i))" if "i \<in> ?H" for i
    using cov that by (fastforce simp: tb_covers_def holders_def same_write_def)
  obtain e where e: "e \<in> set tb" "ts_timestamp e = ts" "ts_effective_length e = len" using ex assms(3) by blast
  have uniq: "e' = e" if "e' \<in> set tb" "ts_timestamp e' = ts" "ts_effective_length e' = len" for e'
    using snd that e by (auto simp: tb_sound_def distinct_map inj_on_def)
  have "?p ` ?H \<subseteq> ?p ` set (prj_idx_tb e)"
  proof
    fix q assume "q \<in> ?p ` ?H"
    then obtain i where i: "i \<in> ?H" "q = ?p i" by auto
    then have "bit (prjid_bitmap e) (unat q)" using ex[OF i(1)] uniq by auto
    then obtain j where "j \<in> set (prj_idx_tb e)" "unat (?p j) = unat q"
      using snd e(1) by (auto simp: tb_sound_def entry_ok_def)
    then show "q \<in> ?p ` set (prj_idx_tb e)" by (metis imageI word_unat_eq_iff)
  qed
  then have "card (?p ` ?H) \<le> card (set (prj_idx_tb e))" by (meson List.finite_set card_image_le card_mono finite_imageI le_trans)
  also have "\<dots> \<le> ts_count e" by (rule card_length)
  finally show ?thesis using e(1) by (auto simp: available_def)
qed

lemma tb_final:
  assumes loop: "timestamp_tb_loop R (views ctxs safe b) left0 [] = Some (left, tb, None)" and "1 < R" "holders ctxs safe b ts len \<noteq> {}"
  shows "\<exists>e\<in>set tb. available ctxs safe b ts len \<le> int (ts_count e) \<and> int (ts_count e) < R"
proof -
  have "tb_covers (ctx_state ctxs) (ctx_hdr ctxs b) ({} \<union> set [0..<nat safe]) tb \<and> (\<forall>e\<in>set tb. int (ts_count e) < R)
    \<and> left = left0 - int (length (filter (\<lambda>i. ctx_state ctxs i = ROZOFS_PRJ_READ_DONE \<or> ctx_state ctxs i = ROZOFS_PRJ_READ_ENOENT) [0..<nat safe]))"
    by (rule timestamp_tb_loop_covers[OF loop]) (use assms in \<open>auto simp: tb_covers_def\<close>)
  moreover have "tb_sound (ctx_state ctxs) (ctx_hdr ctxs b) ({} \<union> set [0..<nat safe]) tb
      \<and> (\<forall>e. None = Some e \<longrightarrow> e < length tb \<and> int (ts_count (tb ! e)) = R)"
    by (rule timestamp_tb_loop_sound[OF loop]) (auto simp: tb_sound_def)
  ultimately show ?thesis using covered_available[of ctxs b safe tb ts len] assms(3) by auto
qed

lemma inverse_check_available:
  assumes lay: "0 \<le> layout" "layout < 3" and ready: "ctxs_ready ctxs (rozofs_get_rozofs_safe layout) b"
    and ids: "prjids_ok ctxs (rozofs_get_rozofs_safe layout) b"
    and av: "rozofs_get_rozofs_inverse layout \<le> available ctxs (rozofs_get_rozofs_safe layout) b ts len" and ts: "ts \<noteq> 0"
  shows "\<exists>r. rozofs_storcli_transform_inverse_check ctxs layout bsize b corr = Some r \<and> 0 < ret r"
proof -
  let ?R = "rozofs_get_rozofs_inverse layout" and ?S = "rozofs_get_rozofs_safe layout"
  have R: "1 < ?R" "0 \<le> ?S" using layout_small[OF lay] by auto
  note v = block_views_ready[OF ready R(2)]
  have total: "unat (projection_id (ctx_hdr ctxs b i)) < 31 \<or> projection_id (ctx_hdr ctxs b i) = 0xff"
    if "i \<in> set [0..<nat ?S]" "ctx_state ctxs i = ROZOFS_PRJ_READ_DONE" for i
    using ids that by (auto simp: prjids_ok_def)
  obtain x where "inverse_check_loop ?R (views ctxs ?S b) \<lparr>ref_ctx = no_entry, others = []\<rparr> = Some x"
    using inverse_check_loop_total[of "[0..<nat ?S]" "ctx_state ctxs" "ctx_hdr ctxs b" ?R, OF total] by blast
  then obtain s found where loop: "inverse_check_loop ?R (views ctxs ?S b) \<lparr>ref_ctx = no_entry, others = []\<rparr> = Some (s, found)"
    by (cases x) simp
  have inv: "check_inv (ctx_state ctxs) (ctx_hdr ctxs b) ({} \<union> set [0..<nat ?S]) s \<and> (found \<longrightarrow> int (ts_count (ref_ctx s)) = ?R \<and> ts_count (ref_ctx s) \<noteq> 0)"
    by (rule inverse_check_loop_sound[OF loop]) (auto simp: check_inv_def no_entry_def)
  have len: "nat ?S \<le> length ctxs" using ready by (simp add: ctxs_ready_def nat_le_iff)
  show ?thesis
  proof (cases found)
    case True
    have "\<exists>c. rozofs_storcli_mark_projection2rebuild ctxs [no_entry\<lparr>prj_idx_tb := others s\<rparr>] 2 1 = Some c"
      by (rule mark_total) (use inv len in \<open>auto simp: check_inv_def\<close>)
    then show ?thesis using True loop v R by (auto simp: rozofs_storcli_transform_inverse_check_def Let_def)
  next
    case False
    obtain y where "timestamp_tb_loop ?R (views ctxs ?S b) ?S [] = Some y"
      using timestamp_tb_loop_total[of "[0..<nat ?S]" "ctx_state ctxs" "ctx_hdr ctxs b" ?R, OF total] by blast
    then obtain left tb f2 where loop2: "timestamp_tb_loop ?R (views ctxs ?S b) ?S [] = Some (left, tb, f2)"
      by (cases y) simp
    have ne: "holders ctxs ?S b ts len \<noteq> {}" using av R by (auto simp: available_def)
    have "f2 \<noteq> None"
    proof
      assume "f2 = None"
      then obtain e where "available ctxs ?S b ts len \<le> int (ts_count e)" "int (ts_count e) < ?R"
        using tb_final[of ?R ctxs b ?S ?S left tb ts len] loop2 R(1) ne by blast
      then show False using av by linarith
    qed
    then obtain e where e: "f2 = Some e" by auto
    have snd: "tb_sound (ctx_state ctxs) (ctx_hdr ctxs b) ({} \<union> set [0..<nat ?S]) tb \<and> (\<forall>e. f2 = Some e \<longrightarrow> e < length tb \<and> int (ts_count (tb ! e)) = ?R)"
      by (rule timestamp_tb_loop_sound[OF loop2]) (auto simp: tb_sound_def)
    have "\<exists>c. rozofs_storcli_mark_projection2rebuild ctxs tb (int e) (int (length tb)) = Some c"
    proof (rule mark_total)
      show "\<forall>i\<in>set (prj_idx_tb e). i < length ctxs" if "e \<in> set tb" for e
      proof -
        have "set (prj_idx_tb e) \<subseteq> {0..<nat ?S}" using snd that by (simp add: tb_sound_def entry_ok_def)
        then show ?thesis using len by auto
      qed
    qed simp
    moreover have "ts_count (ref_ctx s) \<noteq> 0"
      using inverse_check_loop_empty[OF loop] ne ts by (auto simp: holders_def)
    ultimately show ?thesis using False loop loop2 e v
      by (auto simp: rozofs_storcli_transform_inverse_check_def rozofs_storcli_transform_inverse_check_timestamp_tb_def Let_def)
  qed
qed

text \<open>
  C9. Availability: if the contexts that answered hold \<^verbatim>\<open>rozofs_inverse\<close> different projections of some write,
  the check succeeds, whatever else the other storages returned: it finds a set of projections and no
  further read is asked for.
\<close>

theorem inverse_check_complete:
  assumes lay: "0 \<le> layout" "layout < 3" and ready: "ctxs_ready ctxs (rozofs_get_rozofs_safe layout) b"
    and ids: "prjids_ok ctxs (rozofs_get_rozofs_safe layout) b"
    and av: "rozofs_get_rozofs_inverse layout \<le> available ctxs (rozofs_get_rozofs_safe layout) b ts len" and ts: "ts \<noteq> 0"
  shows "\<exists>r. rozofs_storcli_transform_inverse_check ctxs layout bsize b corr = Some r \<and> 0 < ret r"
  using assms by (rule inverse_check_available)

definition unanswered :: "rozofs_storcli_projection_ctx_t list \<Rightarrow> int \<Rightarrow> int" where
  "unanswered ctxs safe = safe - int (length (filter (\<lambda>i. ctx_state ctxs i = ROZOFS_PRJ_READ_DONE
     \<or> ctx_state ctxs i = ROZOFS_PRJ_READ_ENOENT) [0..<nat safe]))"

text \<open>
  C18. A block is declared corrupted only when it cannot be complete: for every write, the different
  projections of it that were read, plus all the storages that have not answered, are fewer than the
  \<^verbatim>\<open>rozofs_forward\<close> projections a completed write leaves. The block is then reported as a hole of full length.
\<close>

theorem corrupted_only_if_incomplete:
  assumes run: "rozofs_storcli_transform_inverse_check ctxs layout bsize b corr = Some r" and cor: "corrupted r \<noteq> corr"
    and lay: "0 \<le> layout" "layout < 3"
  shows "corrupted r = corr + 1 \<and> ret r = 0 \<and> res_timestamp r = 0 \<and> res_length r = word_of_int (ROZOFS_BSIZE_BYTES bsize)
    \<and> available ctxs (rozofs_get_rozofs_safe layout) b ts len + unanswered ctxs (rozofs_get_rozofs_safe layout)
        < rozofs_get_rozofs_forward layout"
proof -
  let ?R = "rozofs_get_rozofs_inverse layout" and ?S = "rozofs_get_rozofs_safe layout" and ?F = "rozofs_get_rozofs_forward layout"
  have R: "1 < ?R" using layout_small[OF lay] by auto
  obtain row where tb_run: "rozofs_storcli_transform_inverse_check_timestamp_tb ctxs layout bsize b row 0 corr = Some r"
    using run cor by (auto simp: rozofs_storcli_transform_inverse_check_def Let_def split: bind_splits if_splits)
  then obtain left tb where loop: "timestamp_tb_loop ?R (views ctxs ?S b) ?S [] = Some (left, tb, None)" and "tb \<noteq> []"
    and lost: "\<forall>p\<in>set tb. \<not> ?F \<le> left + int (ts_count p)"
    and res: "corrupted r = corr + 1" "ret r = 0" "res_timestamp r = 0" "res_length r = word_of_int (ROZOFS_BSIZE_BYTES bsize)"
    using cor block_views_eq[of ctxs ?S b]
    by (auto simp: rozofs_storcli_transform_inverse_check_timestamp_tb_def Let_def split: bind_splits if_splits option.splits)
  have left: "left = unanswered ctxs ?S"
    using timestamp_tb_loop_covers[of ?R "ctx_state ctxs" "ctx_hdr ctxs b" "[0..<nat ?S]" ?S "[]" left tb "{}"] loop R
    by (simp add: tb_covers_def unanswered_def)
  have "\<exists>e\<in>set tb. available ctxs ?S b ts len \<le> int (ts_count e)"
  proof (cases "holders ctxs ?S b ts len = {}")
    case True
    then show ?thesis using \<open>tb \<noteq> []\<close> by (cases tb) (auto simp: available_def)
  next
    case False
    then show ?thesis using tb_final[of ?R ctxs b ?S ?S left tb ts len] loop R by blast
  qed
  then show ?thesis using lost left res by fastforce
qed

lemma all_holes_loop:
  assumes "\<And>i. i \<in> set is \<Longrightarrow> st i = ROZOFS_PRJ_READ_DONE \<Longrightarrow> timestamp (hdr i) = 0 \<and> projection_id (hdr i) = 0 \<and> effective_length (hdr i) = len"
    and "len \<noteq> 0" "ts_count (ref_ctx s) \<noteq> 0 \<longrightarrow> ts_timestamp (ref_ctx s) = 0 \<and> ts_effective_length (ref_ctx s) = len"
    and "int (ts_count (ref_ctx s)) < R" "R \<le> int (ts_count (ref_ctx s)) + int (length (filter (\<lambda>i. st i = ROZOFS_PRJ_READ_DONE) is))"
    and "1 < R" "others s = []"
  shows "\<exists>s'. inverse_check_loop R (map (\<lambda>i. (i, st i, hdr i)) is) s = Some (s', True) \<and> ts_timestamp (ref_ctx s') = 0
     \<and> ts_effective_length (ref_ctx s') = len \<and> others s' = []"
  using assms
proof (induction "is" arbitrary: s)
  case (Cons i "is")
  show ?case
  proof (cases "st i = ROZOFS_PRJ_READ_DONE")
    case True
    then have h: "timestamp (hdr i) = 0" "projection_id (hdr i) = 0" "effective_length (hdr i) = len" using Cons.prems(1)[of i] by auto
    have b: "prjid_bit 0 = Some 1" by (simp add: prjid_bit_def)
    let ?n = "s\<lparr>ref_ctx := new_entry i (hdr i) 1\<rparr>" and ?j = "s\<lparr>ref_ctx := join_entry i 1 (ref_ctx s)\<rparr>"
    show ?thesis
    proof (cases "ts_count (ref_ctx s) = 0")
      case z: True
      then show ?thesis using Cons.IH[of ?n] Cons.prems True h b by (simp add: new_entry_def)
    next
      case nz: False
      then show ?thesis using Cons.IH[of ?j] Cons.prems True h b by (auto simp: join_entry_def same_write_def Let_def)
    qed
  next
    case False
    then show ?thesis using Cons by simp
  qed
qed simp

lemma holes_check:
  assumes lay: "0 \<le> layout" "layout < 3" "0 \<le> bsize" "bsize \<le> 3" and ready: "ctxs_ready ctxs (rozofs_get_rozofs_safe layout) b"
    and rec: "\<forall>i. int i < rozofs_get_rozofs_safe layout \<and> ctx_state ctxs i = ROZOFS_PRJ_READ_DONE
       \<longrightarrow> (\<exists>old. ctx_hdr ctxs b i = hole_hdr (ROZOFS_BSIZE_BYTES bsize) old)"
    and nb: "rozofs_get_rozofs_inverse layout \<le> int (length (filter (\<lambda>i. ctx_state ctxs i = ROZOFS_PRJ_READ_DONE) [0..<nat (rozofs_get_rozofs_safe layout)]))"
  shows "\<exists>r. rozofs_storcli_transform_inverse_check ctxs layout bsize b corr = Some r \<and> ret r = rozofs_get_rozofs_inverse layout
    \<and> res_timestamp r = 0 \<and> res_length r = word_of_int (ROZOFS_BSIZE_BYTES bsize) \<and> corrupted r = corr"
proof -
  let ?R = "rozofs_get_rozofs_inverse layout" and ?S = "rozofs_get_rozofs_safe layout"
  have R: "1 < ?R" "0 \<le> ?S" using layout_small[OF lay(1,2)] by auto
  have "bsize \<in> set [0, 1, 2, 3]" using lay(3,4) by auto
  then have len: "(word_of_int (ROZOFS_BSIZE_BYTES bsize) :: u16) \<noteq> 0" by (auto simp: ROZOFS_BSIZE_BYTES_def)
  have "\<exists>s'. inverse_check_loop ?R (views ctxs ?S b) \<lparr>ref_ctx = no_entry, others = []\<rparr> = Some (s', True)
    \<and> ts_timestamp (ref_ctx s') = 0 \<and> ts_effective_length (ref_ctx s') = word_of_int (ROZOFS_BSIZE_BYTES bsize) \<and> others s' = []"
    by (rule all_holes_loop[OF _ len]) (use rec nb R in \<open>force simp: hole_hdr_def no_entry_def\<close>)+
  then show ?thesis
    using block_views_ready[OF ready R(2)] by (auto simp: rozofs_storcli_transform_inverse_check_def Let_def)
qed

text \<open>
  Blocks that the storages flag as damaged (CRC errors) are recorded like holes. When every context
  that answered has such a record, at least \<^verbatim>\<open>rozofs_inverse\<close> of them, the check succeeds with a hole: the
  damage is not counted as corruption and the reader gets zeroes.
\<close>

theorem damaged_blocks_read_as_hole:
  assumes lay: "0 \<le> layout" "layout < 3" "0 \<le> bsize" "bsize \<le> 3" and ready: "ctxs_ready ctxs (rozofs_get_rozofs_safe layout) b"
    and rec: "\<forall>i. int i < rozofs_get_rozofs_safe layout \<and> ctx_state ctxs i = ROZOFS_PRJ_READ_DONE
       \<longrightarrow> (\<exists>old. ctx_hdr ctxs b i = hole_hdr (ROZOFS_BSIZE_BYTES bsize) old)"
    and nb: "rozofs_get_rozofs_inverse layout \<le> int (length (filter (\<lambda>i. ctx_state ctxs i = ROZOFS_PRJ_READ_DONE) [0..<nat (rozofs_get_rozofs_safe layout)]))"
  shows "\<exists>r. rozofs_storcli_transform_inverse_check ctxs layout bsize b corr = Some r \<and> ret r = rozofs_get_rozofs_inverse layout
    \<and> res_timestamp r = 0 \<and> res_length r = word_of_int (ROZOFS_BSIZE_BYTES bsize) \<and> corrupted r = corr"
  using assms by (rule holes_check)

section \<open>Validation of the received headers\<close>

lemma psizes_in_msg:
  assumes "0 \<le> layout" "layout < 3" "0 \<le> bsize" "bsize \<le> 3" "0 \<le> q"
  shows "rozofs_get_psizes layout bsize q = 2 * rozofs_get_128bits_psizes layout bsize q"
    "0 \<le> rozofs_get_128bits_psizes layout bsize q" "rozofs_get_128bits_psizes layout bsize q + 1 < msg_cells layout bsize"
    "rozofs_get_psizes layout bsize q \<noteq> 0 \<longrightarrow> q < rozofs_get_rozofs_forward layout"
proof -
  have t: "list_all (\<lambda>layout. list_all (\<lambda>bsize. 1 < msg_cells layout bsize \<and> list_all (\<lambda>q.
      rozofs_get_psizes layout bsize q = 2 * rozofs_get_128bits_psizes layout bsize q \<and> 0 \<le> rozofs_get_128bits_psizes layout bsize q
      \<and> rozofs_get_128bits_psizes layout bsize q + 1 < msg_cells layout bsize)
      [0..rozofs_get_rozofs_forward layout - 1]) [0, 1, 2, 3]) [0, 1, 2]" by code_simp
  have m: "layout \<in> set [0, 1, 2]" "bsize \<in> set [0, 1, 2, 3]" using assms by auto
  have one: "1 < msg_cells layout bsize"
    using t m unfolding list_all_iff by blast
  have out: "rozofs_get_psizes layout bsize q = 0 \<and> rozofs_get_128bits_psizes layout bsize q = 0" if "\<not> q < rozofs_get_rozofs_forward layout"
    using that assms(2) by (simp add: rozofs_get_psizes_def rozofs_get_128bits_psizes_def psize_field_def rozofs_get_rozofs_forward_def layout_field_def Let_def)
  have inn: "rozofs_get_psizes layout bsize q = 2 * rozofs_get_128bits_psizes layout bsize q \<and> 0 \<le> rozofs_get_128bits_psizes layout bsize q
      \<and> rozofs_get_128bits_psizes layout bsize q + 1 < msg_cells layout bsize" if "q < rozofs_get_rozofs_forward layout"
  proof -
    have "q \<in> set [0..rozofs_get_rozofs_forward layout - 1]" using that assms(5) by simp
    then show ?thesis using t m unfolding list_all_iff by blast
  qed
  show "rozofs_get_psizes layout bsize q = 2 * rozofs_get_128bits_psizes layout bsize q"
    "0 \<le> rozofs_get_128bits_psizes layout bsize q" "rozofs_get_128bits_psizes layout bsize q + 1 < msg_cells layout bsize"
    "rozofs_get_psizes layout bsize q \<noteq> 0 \<longrightarrow> q < rozofs_get_rozofs_forward layout"
    using inn out one by fastforce+
qed

definition rcv_block_hdr :: "int \<Rightarrow> int \<Rightarrow> u128 list \<Rightarrow> int \<Rightarrow> rozofs_stor_bins_hdr_t" where
  "rcv_block_hdr layout bsize payload b = hdr_load (payload ! nat (msg_cells layout bsize * b))"

definition rcv_block_foot :: "int \<Rightarrow> int \<Rightarrow> u128 list \<Rightarrow> int \<Rightarrow> int \<Rightarrow> u64" where
  "rcv_block_foot layout bsize payload b q =
     foot_load (payload ! nat (msg_cells layout bsize * b + 1 + rozofs_get_128bits_psizes layout bsize q))"

text \<open>A received block holds data when its header names a projection of the layout and its footer agrees.\<close>

definition rcv_valid :: "int \<Rightarrow> int \<Rightarrow> u128 list \<Rightarrow> int \<Rightarrow> bool" where
  "rcv_valid layout bsize payload b \<longleftrightarrow> (let h = rcv_block_hdr layout bsize payload b; q = uint (projection_id h) in
     projection_id h \<noteq> 0xff \<and> timestamp h \<noteq> 0 \<and> rozofs_get_psizes layout bsize q \<noteq> 0
     \<and> rcv_block_foot layout bsize payload b q = timestamp h)"

definition checked_hdr :: "int \<Rightarrow> int \<Rightarrow> u128 list \<Rightarrow> int \<Rightarrow> rozofs_stor_bins_hdr_t \<Rightarrow> bool" where
  "checked_hdr layout bsize payload b t \<longleftrightarrow>
     (if rcv_valid layout bsize payload b
      then let h = rcv_block_hdr layout bsize payload b in
        timestamp t = timestamp h \<and> effective_length t = effective_length h \<and> projection_id t = projection_id h
      else timestamp t = 0 \<and> effective_length t = word_of_int (ROZOFS_BSIZE_BYTES bsize) \<and> projection_id t = 0)"

lemma check_received_block_spec:
  assumes lb: "0 \<le> layout" "layout < 3" "0 \<le> bsize" "bsize \<le> 3" and b: "0 \<le> b" "msg_cells layout bsize * (b + 1) \<le> int (length payload)"
  shows "\<exists>t. check_received_block layout bsize payload b old = Some (t, projection_id (rcv_block_hdr layout bsize payload b) = 0xff)
    \<and> checked_hdr layout bsize payload b t"
proof -
  let ?h = "rcv_block_hdr layout bsize payload b" let ?q = "uint (projection_id ?h)"
  note ps = psizes_in_msg[OF lb, of ?q, simplified]
  have m: "0 \<le> msg_cells layout bsize * b" using ps(2,3) b by simp
  have c: "arr_get payload (msg_cells layout bsize * b) = Some (payload ! nat (msg_cells layout bsize * b))"
    using m ps(2,3) b by (intro arr_get_in) (auto simp: algebra_simps)
  have f: "arr_get payload (msg_cells layout bsize * b + 1 + rozofs_get_128bits_psizes layout bsize ?q)
      = Some (payload ! nat (msg_cells layout bsize * b + 1 + rozofs_get_128bits_psizes layout bsize ?q))"
    using m ps(2,3) b by (intro arr_get_in) (auto simp: algebra_simps)
  show ?thesis
    using c f ps(1) by (auto simp: check_received_block_def Let_def checked_hdr_def rcv_valid_def rcv_block_hdr_def rcv_block_foot_def hole_hdr_def)
qed

definition headers_checked ::
  "int \<Rightarrow> int \<Rightarrow> rozofs_storcli_projection_ctx_t \<Rightarrow> int set \<Rightarrow> rozofs_storcli_projection_ctx_t \<Rightarrow> bool"
where
  "headers_checked layout bsize c0 A c \<longleftrightarrow> prj_bins c = prj_bins c0 \<and> prj_state c = prj_state c0 \<and> stor_idx c = stor_idx c0
     \<and> rebuild_req c = rebuild_req c0
     \<and> length (block_hdr_tab c) = length (block_hdr_tab c0) \<and> length (rcv_hdr c) = length (rcv_hdr c0)
     \<and> length (crc_err_bitmap c) = length (crc_err_bitmap c0)
     \<and> bitmap_members (crc_err_bitmap c) = bitmap_members (crc_err_bitmap c0)
         \<union> {b \<in> A. projection_id (rcv_block_hdr layout bsize (prj_bins c0) b) = 0xff}
     \<and> (\<forall>b\<in>A. checked_hdr layout bsize (prj_bins c0) b (block_hdr_tab c ! nat b)
          \<and> rcv_hdr c ! nat b = rcv_block_hdr layout bsize (prj_bins c0) b)"

lemma bitmap_set_if:
  "0 \<le> b \<Longrightarrow> b < 64 * int (length bm) \<Longrightarrow> \<exists>bm'. (if P then ROZOFS_BITMAP64_SET b bm else Some bm) = Some bm' \<and> length bm' = length bm
     \<and> bitmap_members bm' = bitmap_members bm \<union> (if P then {b} else {})"
  using bm64.members_bset[of b bm] by auto

lemma update_header_step:
  assumes lb: "0 \<le> layout" "layout < 3" "0 \<le> bsize" "bsize \<le> 3" and inv: "headers_checked layout bsize c0 A c"
    and b: "0 \<le> b" "b \<notin> A" "A \<subseteq> {0..}" "b < int (length (block_hdr_tab c0))" "b < int (length (rcv_hdr c0))" "b < 64 * int (length (crc_err_bitmap c0))"
    and pay: "msg_cells layout bsize * (b + 1) \<le> int (length (prj_bins c0))"
  shows "\<exists>c'. do { x \<leftarrow> arr_get (prj_bins c) (msg_cells layout bsize * b);
         rcv \<leftarrow> arr_set (rcv_hdr c) b (hdr_load x);
         old \<leftarrow> arr_get (block_hdr_tab c) b;
         (h, crc) \<leftarrow> check_received_block layout bsize (prj_bins c) b old;
         bm \<leftarrow> (if crc then ROZOFS_BITMAP64_SET b (crc_err_bitmap c) else Some (crc_err_bitmap c));
         tab \<leftarrow> arr_set (block_hdr_tab c) b h;
         Some (c\<lparr>rcv_hdr := rcv, block_hdr_tab := tab, crc_err_bitmap := bm\<rparr>) } = Some c'
     \<and> headers_checked layout bsize c0 (insert b A) c'"
proof -
  obtain t where t: "check_received_block layout bsize (prj_bins c0) b (block_hdr_tab c ! nat b)
      = Some (t, projection_id (rcv_block_hdr layout bsize (prj_bins c0) b) = 0xff)" "checked_hdr layout bsize (prj_bins c0) b t"
    using check_received_block_spec[OF lb b(1) pay] by blast
  have m: "0 \<le> msg_cells layout bsize" using psizes_in_msg(2,3)[OF lb, of 0] by simp
  then have "0 \<le> msg_cells layout bsize * b" "msg_cells layout bsize * b < int (length (prj_bins c0))"
    using pay b psizes_in_msg(2,3)[OF lb, of 0] by (auto simp: algebra_simps)
  then have x: "arr_get (prj_bins c) (msg_cells layout bsize * b) = Some (prj_bins c0 ! nat (msg_cells layout bsize * b))"
    using inv by (simp add: headers_checked_def arr_get_in)
  have "b < 64 * int (length (crc_err_bitmap c))" using b inv by (simp add: headers_checked_def)
  from bitmap_set_if[OF b(1) this] obtain bm where bm: "(if projection_id (rcv_block_hdr layout bsize (prj_bins c0) b) = 0xff then ROZOFS_BITMAP64_SET b (crc_err_bitmap c) else Some (crc_err_bitmap c)) = Some bm"
    "length bm = length (crc_err_bitmap c)"
    "bitmap_members bm = bitmap_members (crc_err_bitmap c) \<union> (if projection_id (rcv_block_hdr layout bsize (prj_bins c0) b) = 0xff then {b} else {})"
    by blast
  have A: "nat b \<noteq> nat a" if "a \<in> A" for a using that b by (auto simp: nat_eq_iff)
  define c' where "c' = c\<lparr>rcv_hdr := (rcv_hdr c)[nat b := rcv_block_hdr layout bsize (prj_bins c0) b],
    block_hdr_tab := (block_hdr_tab c)[nat b := t], crc_err_bitmap := bm\<rparr>"
  have set: "{a \<in> insert b A. P a} = {a \<in> A. P a} \<union> (if P b then {b} else {})" for P by auto
  have "headers_checked layout bsize c0 (insert b A) c'"
    unfolding headers_checked_def set using inv bm(2,3) t(2) b A
    by (simp add: headers_checked_def c'_def Un_assoc nth_list_update)
  moreover have "arr_get (block_hdr_tab c) b = Some (block_hdr_tab c ! nat b)"
    "arr_set (block_hdr_tab c) b t = Some ((block_hdr_tab c)[nat b := t])"
    "arr_set (rcv_hdr c) b v = Some ((rcv_hdr c)[nat b := v])" "prj_bins c = prj_bins c0" for v
    using inv b by (auto simp: headers_checked_def arr_get_in arr_set_in)
  ultimately show ?thesis using x t(1) bm(1) by (simp add: c'_def rcv_block_hdr_def)
qed

lemma update_headers_first_loop:
  fixes c0 :: rozofs_storcli_projection_ctx_t
  assumes lb: "0 \<le> layout" "layout < 3" "0 \<le> bsize" "bsize \<le> 3"
    and n: "n \<le> int (length (block_hdr_tab c0))" "n \<le> int (length (rcv_hdr c0))" "n \<le> 64 * int (length (crc_err_bitmap c0))"
    and pay: "msg_cells layout bsize * n \<le> int (length (prj_bins c0))"
  shows "\<exists>c. foldM (\<lambda>block_idx ctx. do {
         c \<leftarrow> arr_get (prj_bins ctx) (msg_cells layout bsize * block_idx);
         rcv \<leftarrow> arr_set (rcv_hdr ctx) block_idx (hdr_load c);
         old \<leftarrow> arr_get (block_hdr_tab ctx) block_idx;
         (h, crc) \<leftarrow> check_received_block layout bsize (prj_bins ctx) block_idx old;
         bm \<leftarrow> (if crc then ROZOFS_BITMAP64_SET block_idx (crc_err_bitmap ctx) else Some (crc_err_bitmap ctx));
         tab \<leftarrow> arr_set (block_hdr_tab ctx) block_idx h;
         Some (ctx\<lparr>rcv_hdr := rcv, block_hdr_tab := tab, crc_err_bitmap := bm\<rparr>) }) [0..n - 1] c0 = Some c
     \<and> headers_checked layout bsize c0 (set [0..n - 1]) c"
proof (rule foldM_invariant[where I = "\<lambda>pre. headers_checked layout bsize c0 (set pre)"])
  show "headers_checked layout bsize c0 (set []) c0" by (simp add: headers_checked_def)
  fix pre b post c assume split: "[0..n - 1] = pre @ b # post" and inv: "headers_checked layout bsize c0 (set pre) c"
  have "b \<in> set [0..n - 1]" "set pre \<subseteq> set [0..n - 1]" unfolding split by auto
  moreover have "distinct (pre @ b # post)" by (metis split distinct_upto)
  ultimately have b: "0 \<le> b" "b < n" "b \<notin> set pre" "set pre \<subseteq> {0..}" by auto
  have "msg_cells layout bsize * (b + 1) \<le> msg_cells layout bsize * n"
    using b psizes_in_msg(2,3)[OF lb, of 0] by (intro mult_left_mono) auto
  then show "\<exists>t'. do { x \<leftarrow> arr_get (prj_bins c) (msg_cells layout bsize * b);
         rcv \<leftarrow> arr_set (rcv_hdr c) b (hdr_load x);
         old \<leftarrow> arr_get (block_hdr_tab c) b;
         (h, crc) \<leftarrow> check_received_block layout bsize (prj_bins c) b old;
         bm \<leftarrow> (if crc then ROZOFS_BITMAP64_SET b (crc_err_bitmap c) else Some (crc_err_bitmap c));
         tab \<leftarrow> arr_set (block_hdr_tab c) b h;
         Some (c\<lparr>rcv_hdr := rcv, block_hdr_tab := tab, crc_err_bitmap := bm\<rparr>) } = Some t'
     \<and> headers_checked layout bsize c0 (set (pre @ [b])) t'"
    using update_header_step[OF lb inv b(1,3,4)] n pay b by auto
qed

lemma update_headers_second_loop:
  assumes "0 \<le> a" "n \<le> int (length (block_hdr_tab c0))"
  shows "\<exists>c. foldM (\<lambda>block_idx ctx. do {
         old \<leftarrow> arr_get (block_hdr_tab ctx) block_idx;
         tab \<leftarrow> arr_set (block_hdr_tab ctx) block_idx (old\<lparr>projection_id := 0, timestamp := 0, effective_length := 0\<rparr>);
         Some (ctx\<lparr>block_hdr_tab := tab\<rparr>) }) [a..n - 1] c0 = Some c
     \<and> (\<exists>tab. c = c0\<lparr>block_hdr_tab := tab\<rparr> \<and> length tab = length (block_hdr_tab c0)
       \<and> (\<forall>b. 0 \<le> b \<and> b < int (length tab) \<longrightarrow> (if b \<in> set [a..n - 1] then timestamp (tab ! nat b) = 0 \<and> effective_length (tab ! nat b) = 0
            \<and> projection_id (tab ! nat b) = 0 else tab ! nat b = block_hdr_tab c0 ! nat b)))" (is "\<exists>c. foldM ?f _ _ = _ \<and> ?Q (set [a..n - 1]) c")
proof (rule foldM_invariant[where I = "\<lambda>pre. ?Q (set pre)"])
  show "?Q (set []) c0" by (rule exI[of _ "block_hdr_tab c0"]) simp
  fix pre b post c assume split: "[a..n - 1] = pre @ b # post" and "?Q (set pre) c"
  then obtain tab where tab: "c = c0\<lparr>block_hdr_tab := tab\<rparr>" "length tab = length (block_hdr_tab c0)"
    "\<And>x. 0 \<le> x \<Longrightarrow> x < int (length tab) \<Longrightarrow> (if x \<in> set pre then timestamp (tab ! nat x) = 0 \<and> effective_length (tab ! nat x) = 0
            \<and> projection_id (tab ! nat x) = 0 else tab ! nat x = block_hdr_tab c0 ! nat x)" by auto
  have "b \<in> set [a..n - 1]" unfolding split by simp
  then have b: "0 \<le> b" "b < int (length tab)" using assms tab(2) by auto
  let ?t = "tab[nat b := (tab ! nat b)\<lparr>projection_id := 0, timestamp := 0, effective_length := 0\<rparr>]"
  have "?Q (set (pre @ [b])) (c0\<lparr>block_hdr_tab := ?t\<rparr>)"
    using b tab(2,3) by (intro exI[of _ ?t]) (auto simp: nth_list_update nat_eq_iff split: if_splits)
  moreover have "?f b c = Some (c0\<lparr>block_hdr_tab := ?t\<rparr>)" using b tab(1) by (simp add: arr_get_in arr_set_in)
  ultimately show "\<exists>t'. ?f b c = Some t' \<and> ?Q (set (pre @ [b])) t'" by blast
qed

lemma update_headers_spec:
  assumes lb: "0 \<le> layout" "layout < 3" "0 \<le> bsize" "bsize \<le> 3" and rr: "0 \<le> returned" "returned \<le> requested"
    and "requested \<le> int (length (block_hdr_tab ctx))" "returned \<le> int (length (rcv_hdr ctx))" "returned \<le> 64 * int (length (crc_err_bitmap ctx))"
    and "msg_cells layout bsize * returned \<le> int (length (prj_bins ctx))"
  shows "\<exists>ctx'. rozofs_storcli_transform_update_headers ctx layout bsize returned requested rsize = Some ctx'
    \<and> (\<forall>b. 0 \<le> b \<and> b < returned \<longrightarrow> checked_hdr layout bsize (prj_bins ctx) b (block_hdr_tab ctx' ! nat b))
    \<and> (\<forall>b. returned \<le> b \<and> b < requested \<longrightarrow> timestamp (block_hdr_tab ctx' ! nat b) = 0 \<and> effective_length (block_hdr_tab ctx' ! nat b) = 0
         \<and> projection_id (block_hdr_tab ctx' ! nat b) = 0)
    \<and> bitmap_members (crc_err_bitmap ctx') = bitmap_members (crc_err_bitmap ctx)
         \<union> {b. 0 \<le> b \<and> b < returned \<and> projection_id (rcv_block_hdr layout bsize (prj_bins ctx) b) = 0xff}
    \<and> prj_bins ctx' = prj_bins ctx \<and> prj_state ctx' = prj_state ctx \<and> length (block_hdr_tab ctx') = length (block_hdr_tab ctx)
    \<and> length (crc_err_bitmap ctx') = length (crc_err_bitmap ctx)"
proof -
  let ?c0 = "ctx\<lparr>raw_file_size := rsize\<rparr>"
  note first = update_headers_first_loop[OF lb, of returned ?c0]
  obtain c1 where c1: "rozofs_storcli_transform_update_headers ctx layout bsize returned requested rsize = foldM (\<lambda>block_idx ctx. do {
         old \<leftarrow> arr_get (block_hdr_tab ctx) block_idx;
         tab \<leftarrow> arr_set (block_hdr_tab ctx) block_idx (old\<lparr>projection_id := 0, timestamp := 0, effective_length := 0\<rparr>);
         Some (ctx\<lparr>block_hdr_tab := tab\<rparr>) }) [returned..requested - 1] c1"
    "headers_checked layout bsize ?c0 (set [0..returned - 1]) c1"
    using first assms by (auto simp: rozofs_storcli_transform_update_headers_def Let_def)
  have len: "length (block_hdr_tab c1) = length (block_hdr_tab ctx)" using c1(2) by (simp add: headers_checked_def)
  then obtain tab where tab: "rozofs_storcli_transform_update_headers ctx layout bsize returned requested rsize = Some (c1\<lparr>block_hdr_tab := tab\<rparr>)"
    "length tab = length (block_hdr_tab c1)"
    "\<And>b. 0 \<le> b \<Longrightarrow> b < int (length tab) \<Longrightarrow> (if b \<in> set [returned..requested - 1] then timestamp (tab ! nat b) = 0 \<and> effective_length (tab ! nat b) = 0
            \<and> projection_id (tab ! nat b) = 0 else tab ! nat b = block_hdr_tab c1 ! nat b)"
    using update_headers_second_loop[OF rr(1), of requested c1] assms(7) c1(1) by auto
  have new: "checked_hdr layout bsize (prj_bins ctx) b (tab ! nat b)" if "0 \<le> b" "b < returned" for b
    using tab(2) tab(3)[of b] that c1(2) len assms(6,7) by (auto simp: headers_checked_def)
  have old: "timestamp (tab ! nat b) = 0 \<and> effective_length (tab ! nat b) = 0 \<and> projection_id (tab ! nat b) = 0"
    if "returned \<le> b" "b < requested" for b
    using tab(2) tab(3)[of b] that len assms(5-7) by auto
  show ?thesis
    using tab(1,2) new old len c1(2) by (auto simp: headers_checked_def)
qed

text \<open>
  C28. After a read, each returned block has a header that passed validation: either its projection number,
  timestamp, length and footer agree and are copied, or it is recorded as a hole of full length; the CRC
  error bitmap gains exactly the blocks flagged by the storage; the blocks that were asked for and not
  returned are recorded as beyond the end of the file.
\<close>

theorem update_headers_validates:
  assumes lb: "0 \<le> layout" "layout < 3" "0 \<le> bsize" "bsize \<le> 3" and rr: "0 \<le> returned" "returned \<le> requested"
    and "requested \<le> int (length (block_hdr_tab ctx))" "returned \<le> int (length (rcv_hdr ctx))" "returned \<le> 64 * int (length (crc_err_bitmap ctx))"
    and "msg_cells layout bsize * returned \<le> int (length (prj_bins ctx))"
  shows "\<exists>ctx'. rozofs_storcli_transform_update_headers ctx layout bsize returned requested rsize = Some ctx'
    \<and> (\<forall>b. 0 \<le> b \<and> b < returned \<longrightarrow> checked_hdr layout bsize (prj_bins ctx) b (block_hdr_tab ctx' ! nat b))
    \<and> (\<forall>b. returned \<le> b \<and> b < requested \<longrightarrow> timestamp (block_hdr_tab ctx' ! nat b) = 0 \<and> effective_length (block_hdr_tab ctx' ! nat b) = 0
         \<and> projection_id (block_hdr_tab ctx' ! nat b) = 0)
    \<and> bitmap_members (crc_err_bitmap ctx') = bitmap_members (crc_err_bitmap ctx)
         \<union> {b. 0 \<le> b \<and> b < returned \<and> projection_id (rcv_block_hdr layout bsize (prj_bins ctx) b) = 0xff}
    \<and> prj_bins ctx' = prj_bins ctx \<and> prj_state ctx' = prj_state ctx \<and> length (block_hdr_tab ctx') = length (block_hdr_tab ctx)
    \<and> length (crc_err_bitmap ctx') = length (crc_err_bitmap ctx)"
  using assms by (rule update_headers_spec)

section \<open>Sample contexts\<close>

text \<open>Four contexts of layout 0: an old block, two projections of the last write, and a storage without the file.\<close>

definition sample_ctx :: "int \<Rightarrow> rozofs_read_req_state_e \<Rightarrow> u64 \<Rightarrow> u8 \<Rightarrow> rozofs_storcli_projection_ctx_t" where
  "sample_ctx i st ts q = (let h = \<lparr>timestamp = ts, effective_length = 4096, projection_id = q, version = 0, filler = 0\<rparr> in
     \<lparr>stor_idx = i, rebuild_req = False, prj_state = st, prj_bins = replicate 130 0, block_hdr_tab = [h], rcv_hdr = [h],
      raw_file_size = 0, crc_err_bitmap = [0]\<rparr>)"

definition sample_ctxs :: "rozofs_storcli_projection_ctx_t list" where
  "sample_ctxs = [sample_ctx 0 ROZOFS_PRJ_READ_DONE 4 0, sample_ctx 1 ROZOFS_PRJ_READ_DONE 7 1,
     sample_ctx 2 ROZOFS_PRJ_READ_DONE 7 2, sample_ctx 3 ROZOFS_PRJ_READ_ENOENT 0 0]"

theorem inverse_check_sound_witness:
  "good_choice sample_ctxs 2 4 0 [1, 2] 7 4096"
proof -
  let ?r = "the (rozofs_storcli_transform_inverse_check sample_ctxs 0 0 0 0)"
  have r: "rozofs_storcli_transform_inverse_check sample_ctxs 0 0 0 0 = Some ?r" "0 < ret ?r" "chosen ?r = [1, 2]"
    "res_timestamp ?r = 7" "res_length ?r = 4096" by code_simp+
  from inverse_check_sound[OF r(1,2)] show ?thesis using r by (simp add: layout_params)
qed

lemma sample_ready: "ctxs_ready sample_ctxs 4 0" "prjids_ok sample_ctxs 4 0"
proof -
  show "ctxs_ready sample_ctxs 4 0" by (simp add: ctxs_ready_def sample_ctxs_def sample_ctx_def Let_def)
  have "i = 0 \<or> i = 1 \<or> i = 2 \<or> i = 3" if "int i < 4" for i using that by auto
  then show "prjids_ok sample_ctxs 4 0"
    by (fastforce simp: prjids_ok_def ctx_hdr_def ctx_state_def sample_ctxs_def sample_ctx_def Let_def)
qed

theorem inverse_check_complete_witness: "\<exists>r. rozofs_storcli_transform_inverse_check sample_ctxs 0 0 0 0 = Some r \<and> 0 < ret r"
proof -
  have "holders sample_ctxs 4 0 7 4096 = {1, 2}"
  proof -
    have "holders sample_ctxs 4 0 7 4096 = set (filter (\<lambda>i. ctx_state sample_ctxs i = ROZOFS_PRJ_READ_DONE
       \<and> projection_id (ctx_hdr sample_ctxs 0 i) \<noteq> 0xff \<and> timestamp (ctx_hdr sample_ctxs 0 i) = 7
       \<and> effective_length (ctx_hdr sample_ctxs 0 i) = 4096) [0..<4])" by (auto simp: holders_def)
    also have "\<dots> = set [1, 2]" by (rule arg_cong[of _ _ set]) code_simp
    finally show ?thesis by simp
  qed
  then have "2 \<le> available sample_ctxs 4 0 7 4096" by (simp add: available_def ctx_hdr_def sample_ctxs_def sample_ctx_def Let_def)
  then show ?thesis using inverse_check_complete[of 0 sample_ctxs 0 7 4096 0 0] sample_ready by (simp add: layout_params)
qed

definition torn_ctxs :: "rozofs_storcli_projection_ctx_t list" where
  "torn_ctxs = [sample_ctx 0 ROZOFS_PRJ_READ_DONE 4 0, sample_ctx 1 ROZOFS_PRJ_READ_DONE 7 1,
     sample_ctx 2 ROZOFS_PRJ_READ_DONE 9 2, sample_ctx 3 ROZOFS_PRJ_READ_ENOENT 0 0]"

theorem corrupted_only_if_incomplete_witness: "available torn_ctxs 4 0 7 4096 + unanswered torn_ctxs 4 < 3"
proof -
  let ?r = "the (rozofs_storcli_transform_inverse_check torn_ctxs 0 0 0 0)"
  have r: "rozofs_storcli_transform_inverse_check torn_ctxs 0 0 0 0 = Some ?r" "corrupted ?r \<noteq> 0" by code_simp+
  from corrupted_only_if_incomplete[OF r, of 7 4096] show ?thesis by (simp add: layout_params)
qed

definition damaged_ctxs :: "rozofs_storcli_projection_ctx_t list" where
  "damaged_ctxs = map (\<lambda>i. sample_ctx i ROZOFS_PRJ_READ_DONE 0 0) [0, 1, 2, 3]"

theorem damaged_blocks_read_as_hole_witness:
  "\<exists>r. rozofs_storcli_transform_inverse_check damaged_ctxs 0 0 0 5 = Some r \<and> ret r = 2 \<and> res_timestamp r = 0 \<and> corrupted r = 5"
proof -
  have "\<exists>old. ctx_hdr damaged_ctxs 0 i = hole_hdr (ROZOFS_BSIZE_BYTES 0) old" if "int i < 4" for i
  proof -
    have "i = 0 \<or> i = 1 \<or> i = 2 \<or> i = 3" using that by auto
    then show ?thesis
      by (intro exI[of _ "\<lparr>timestamp = 0, effective_length = 4096, projection_id = 0, version = 0, filler = 0\<rparr>"])
        (auto simp: ctx_hdr_def damaged_ctxs_def sample_ctx_def Let_def hole_hdr_def ROZOFS_BSIZE_BYTES_def)
  qed
  moreover have "ctxs_ready damaged_ctxs 4 0" by (simp add: ctxs_ready_def damaged_ctxs_def sample_ctx_def Let_def)
  moreover have "int (length (filter (\<lambda>i. ctx_state damaged_ctxs i = ROZOFS_PRJ_READ_DONE) [0..<nat 4])) = 4" by code_simp
  ultimately show ?thesis using damaged_blocks_read_as_hole[of 0 0 damaged_ctxs 0 5] by (auto simp: layout_params)
qed

theorem update_headers_validates_witness:
  "\<exists>ctx'. rozofs_storcli_transform_update_headers (sample_ctx 1 ROZOFS_PRJ_READ_DONE 7 1) 0 0 1 1 99 = Some ctx'
     \<and> checked_hdr 0 0 (replicate 130 0) 0 (block_hdr_tab ctx' ! 0)"
proof -
  have "msg_cells 0 0 = 130" by code_simp
  then show ?thesis using update_headers_validates[of 0 0 1 1 "sample_ctx 1 ROZOFS_PRJ_READ_DONE 7 1" 99]
    by (force simp: sample_ctx_def Let_def)
qed

section \<open>Choosing a block to repair\<close>

fun repair_fault ::
  "rozofs_storcli_projection_ctx_t list \<Rightarrow> int \<Rightarrow> int \<Rightarrow> rozofs_storcli_inverse_block_t list \<Rightarrow> int \<times> int \<Rightarrow> bool"
where
  "repair_fault ctxs nfwd cells blks (b, i) \<longleftrightarrow> blk_timestamp (blks ! nat b) \<noteq> 0
     \<and> prj_state (ctxs ! nat i) = ROZOFS_PRJ_READ_DONE \<and> stor_idx (ctxs ! nat i) < nfwd
     \<and> timestamp (hdr_load (prj_bins (ctxs ! nat i) ! nat (cells * b))) = 0"

lemma repair_scan_filter:
  assumes "repair_scan ctxs nfwd cells blks ixs found = Some res"
  shows "res = (case found of
      None \<Rightarrow> (case filter (repair_fault ctxs nfwd cells blks) ixs of [] \<Rightarrow> Some None | [x] \<Rightarrow> Some (Some x) | _ \<Rightarrow> None)
    | Some x \<Rightarrow> (case filter (repair_fault ctxs nfwd cells blks) ixs of [] \<Rightarrow> Some (Some x) | _ \<Rightarrow> None))"
  using assms
proof (induction ixs arbitrary: found)
  case (Cons x ixs)
  obtain b i where x: "x = (b, i)" by fastforce
  obtain blk where blk: "arr_get blks b = Some blk" "blk = blks ! nat b"
    using Cons.prems by (auto simp: x arr_get_Some_iff split: bind_splits)
  show ?case
  proof (cases "blk_timestamp blk = 0")
    case True
    then have "repair_scan ctxs nfwd cells blks ixs found = Some res" "\<not> repair_fault ctxs nfwd cells blks x"
      using Cons.prems blk by (simp_all add: x)
    then show ?thesis using Cons.IH[of found] by (cases found) simp_all
  next
    case nz: False
    obtain c where c: "arr_get ctxs i = Some c" "c = ctxs ! nat i"
      using Cons.prems blk nz by (auto simp: x arr_get_Some_iff split: bind_splits)
    show ?thesis
    proof (cases "prj_state c \<noteq> ROZOFS_PRJ_READ_DONE \<or> stor_idx c \<ge> nfwd")
      case True
      then have "repair_scan ctxs nfwd cells blks ixs found = Some res" "\<not> repair_fault ctxs nfwd cells blks x"
        using Cons.prems blk nz c by (auto simp: x split: if_splits)
      then show ?thesis using Cons.IH[of found] by (cases found) simp_all
    next
      case False
      then obtain h where h: "arr_get (prj_bins c) (cells * b) = Some h" "h = prj_bins c ! nat (cells * b)"
        using Cons.prems blk nz c by (auto simp: x arr_get_Some_iff split: bind_splits)
      then have "repair_fault ctxs nfwd cells blks x = (timestamp (hdr_load h) = 0)" using False nz blk c by (auto simp: x)
      moreover have "(if timestamp (hdr_load h) = 0
         then (case found of None \<Rightarrow> repair_scan ctxs nfwd cells blks ixs (Some x) | Some _ \<Rightarrow> Some None)
         else repair_scan ctxs nfwd cells blks ixs found) = Some res"
        using Cons.prems blk(1) c(1) h(1) nz False unfolding x by simp
      ultimately show ?thesis using Cons.IH[of found] Cons.IH[of "Some x"]
        by (cases found) (auto split: if_splits list.splits)
    qed
  qed
qed (auto split: option.splits)

text \<open>
  After a successful read, at most one block of one projection is scheduled for repair: the mark is
  set only when exactly one of the regular storages that answered lacks exactly one block that the other
  storages have, and it is set on that block of that projection.
\<close>

theorem repair_single_fault:
  assumes "rozofs_storcli_check_block_2_repair ctxs inv_nb nfwd safe cells n blks = Some ctxs'"
  shows "ctxs' = ctxs \<or> (\<exists>b i bm. 5 \<le> n \<and> filter (repair_fault ctxs nfwd cells blks) (List.product [0..n - 1] [0..safe - 1]) = [(b, i)]
    \<and> ROZOFS_BITMAP64_SET b (crc_err_bitmap (ctxs ! nat i)) = Some bm
    \<and> ctxs' = ctxs[nat i := (ctxs ! nat i)\<lparr>crc_err_bitmap := bm\<rparr>])"
proof -
  have "\<exists>x. filter (repair_fault ctxs nfwd cells blks) (List.product [0..n - 1] [0..safe - 1]) = [x] \<and> res = Some (Some x)"
    if "repair_scan ctxs nfwd cells blks (List.product [0..n - 1] [0..safe - 1]) None = Some res" "res = Some (Some y)" for res y
    using repair_scan_filter[OF that(1)] that(2) by (auto split: list.splits)
  then show ?thesis
    using assms by (fastforce simp: rozofs_storcli_check_block_2_repair_def arr_get_Some_iff arr_set_Some_iff
        split: if_splits bind_splits option.splits)
qed

definition repair_ctxs :: "rozofs_storcli_projection_ctx_t list" where
  "repair_ctxs = map (\<lambda>i. (sample_ctx i ROZOFS_PRJ_READ_DONE 7 0)\<lparr>prj_bins := map (\<lambda>b. if i = 2 \<and> b = 3 then 0 else 7) [0..4]\<rparr>) [0, 1, 2, 3]"

definition repair_blks :: "rozofs_storcli_inverse_block_t list" where
  "repair_blks = replicate 5 \<lparr>blk_state = ROZOFS_BLK_TRANSFORM_DONE, blk_effective_length = 4096, blk_timestamp = 7\<rparr>"

theorem repair_single_fault_witness:
  "\<exists>b i. filter (repair_fault repair_ctxs 3 1 repair_blks) (List.product [0..4] [0..3]) = [(b, i)]"
proof -
  let ?r = "the (rozofs_storcli_check_block_2_repair repair_ctxs 2 3 4 1 5 repair_blks)"
  have r: "rozofs_storcli_check_block_2_repair repair_ctxs 2 3 4 1 5 repair_blks = Some ?r" by code_simp
  have "crc_err_bitmap (?r ! 2) = [8]" "crc_err_bitmap (repair_ctxs ! 2) = [0]" by code_simp+
  then have "?r \<noteq> repair_ctxs" by auto
  then show ?thesis using repair_single_fault[OF r] by auto
qed

end
