(* ===== verification/Storcli_Transform.thy ===== *)
theory Storcli_Transform
  imports Storcli_Check
begin

text \<open>
  Encoding and decoding of the blocks of a message by the storage client
  (\<^verbatim>\<open>src/storcli/rozofs_storcli_transform.c\<close>). A write turns each block into the bins, header and footer of
  its projections, in one message per projection; a read decodes the projections chosen by the check.
  Data buffers are lists of 128-bit cells; \<^verbatim>\<open>data\<close> of a block is the slice of \<^verbatim>\<open>bbytes / 16\<close> cells.
\<close>

section \<open>Model\<close>

definition arr_slice :: "'a list \<Rightarrow> int \<Rightarrow> int \<Rightarrow> 'a list option" where
  "arr_slice xs a n = (if 0 \<le> a \<and> 0 \<le> n \<and> a + n \<le> int (length xs) then Some (take (nat n) (drop (nat a) xs)) else None)"

definition arr_paste :: "'a list \<Rightarrow> int \<Rightarrow> 'a list \<Rightarrow> 'a list option" where
  "arr_paste xs a ys = (if 0 \<le> a \<and> a + int (length ys) \<le> int (length xs)
     then Some (take (nat a) xs @ ys @ drop (nat a + length ys) xs) else None)"

definition rozofs_data_block_check_empty :: "u128 list \<Rightarrow> bool" where
  "rozofs_data_block_check_empty blk = list_all (\<lambda>c. c = 0) blk"

definition empty_hdr :: rozofs_stor_bins_hdr_t where
  "empty_hdr = \<lparr>timestamp = 0, effective_length = 0, projection_id = 0, version = 0, filler = 0\<rparr>"

subsection \<open>Forward\<close>

text \<open>The header of each projection of one block, at cell \<open>base\<close> of its message.\<close>

definition write_headers ::
  "int \<Rightarrow> (int \<Rightarrow> rozofs_stor_bins_hdr_t) \<Rightarrow> int \<Rightarrow> rozofs_storcli_projection_ctx_t list \<Rightarrow> rozofs_storcli_projection_ctx_t list option"
where
  "write_headers nfwd h base ctxs = foldM (\<lambda>q ctxs. do {
     c \<leftarrow> arr_get ctxs q;
     c \<leftarrow> do { p \<leftarrow> arr_set (prj_bins c) base (hdr_store (h q)); Some (c\<lparr>prj_bins := p\<rparr>) };
     arr_set ctxs q c }) [0..nfwd - 1] ctxs"

text \<open>
  The bins of each projection follow its header; \<^const>\<open>transform128_forward\<close> works on them in place, and
  the footer comes right after the kept bins.
\<close>

definition write_bins ::
  "int \<Rightarrow> int \<Rightarrow> u64 \<Rightarrow> int \<Rightarrow> prj128 list \<Rightarrow> rozofs_storcli_projection_ctx_t list \<Rightarrow> rozofs_storcli_projection_ctx_t list option"
where
  "write_bins layout bsize ts base prjs ctxs = foldM (\<lambda>q ctxs. do {
     c \<leftarrow> arr_get ctxs q;
     c \<leftarrow> do {
       pr \<leftarrow> arr_get prjs q;
       p \<leftarrow> arr_paste (prj_bins c) (base + 1) (bins pr);
       let f = base + 1 + rozofs_get_psizes layout bsize q div 2;
       x \<leftarrow> arr_get p f;
       p \<leftarrow> arr_set p f (foot_store ts x);
       Some (c\<lparr>prj_bins := p\<rparr>) };
     arr_set ctxs q c }) [0..rozofs_get_rozofs_forward layout - 1] ctxs"

definition forward_block ::
  "int \<Rightarrow> int \<Rightarrow> int \<Rightarrow> int \<Rightarrow> u64 \<Rightarrow> u16 \<Rightarrow> u128 list \<Rightarrow> int \<Rightarrow> rozofs_storcli_projection_ctx_t list
   \<Rightarrow> rozofs_storcli_projection_ctx_t list option"
where
  "forward_block layout bsize first_block_idx number_of_blocks ts last_block_size data i ctxs = do {
     let bbytes = ROZOFS_BSIZE_BYTES bsize;
     let inv_nb = rozofs_get_rozofs_inverse layout;
     let nfwd = rozofs_get_rozofs_forward layout;
     blk \<leftarrow> arr_slice data (i * (bbytes div 16)) (bbytes div 16);
     let base = msg_cells layout bsize * (first_block_idx + i);
     if rozofs_data_block_check_empty blk then write_headers nfwd (\<lambda>q. empty_hdr) base ctxs
     else do {
       let len = (if i = number_of_blocks - 1 then last_block_size else word_of_int bbytes);
       ctxs \<leftarrow> write_headers nfwd (\<lambda>q. \<lparr>timestamp = ts, effective_length = len, projection_id = word_of_int q,
          version = 0, filler = 0\<rparr>) base ctxs;
       let prjs = map (\<lambda>(q, c). layout_projection layout bsize (int q) (drop (nat (base + 1)) (prj_bins c)))
          (enumerate 0 (take (nat nfwd) ctxs));
       prjs \<leftarrow> transform128_forward blk inv_nb (bbytes div inv_nb div 8) nfwd prjs;
       write_bins layout bsize ts base prjs ctxs } }"

definition rozofs_storcli_transform_forward ::
  "rozofs_storcli_projection_ctx_t list \<Rightarrow> int \<Rightarrow> int \<Rightarrow> int \<Rightarrow> int \<Rightarrow> u64 \<Rightarrow> u16 \<Rightarrow> u128 list
   \<Rightarrow> rozofs_storcli_projection_ctx_t list option"
where
  "rozofs_storcli_transform_forward ctxs layout bsize first_block_idx number_of_blocks ts last_block_size data =
     foldM (forward_block layout bsize first_block_idx number_of_blocks ts last_block_size data) [0..number_of_blocks - 1] ctxs"

subsection \<open>Inverse\<close>

text \<open>\<^verbatim>\<open>memset\<close> to zero from byte \<open>n\<close> of a block to its end.\<close>

definition clear_tail :: "int \<Rightarrow> u128 list \<Rightarrow> u128 list" where
  "clear_tail n blk = map (\<lambda>(j, c). if 16 * (int j + 1) \<le> n then c
     else if n \<le> 16 * int j then 0 else take_bit (nat (8 * (n - 16 * int j))) c) (enumerate 0 blk)"

text \<open>The table of projections of one block, from the contexts \<open>row\<close>.\<close>

definition read_projections ::
  "rozofs_storcli_projection_ctx_t list \<Rightarrow> int \<Rightarrow> int \<Rightarrow> int \<Rightarrow> nat list \<Rightarrow> prj128 list option"
where
  "read_projections ctxs layout bsize block_idx row =
     foldM (\<lambda>k prjs. do {
         i \<leftarrow> arr_get row k;
         c \<leftarrow> arr_get ctxs (int i);
         x \<leftarrow> arr_get (prj_bins c) (msg_cells layout bsize * block_idx);
         let q = uint (projection_id (hdr_load x));
         Some (prjs @ [layout_projection layout bsize q (drop (nat (msg_cells layout bsize * block_idx + 1)) (prj_bins c))]) })
       [0..rozofs_get_rozofs_inverse layout - 1] []"

text \<open>
  One block. \<open>stack b\<close> is the place and the content of the stack buffer that the decoder finds for block \<open>b\<close>.
  The boolean of the result says that the end of the file was reached.
\<close>

type_synonym inverse_state = "rozofs_storcli_inverse_block_t list \<times> u128 list"

definition inverse_block ::
  "rozofs_storcli_projection_ctx_t list \<Rightarrow> int \<Rightarrow> int \<Rightarrow> int \<Rightarrow> (int \<Rightarrow> int \<times> u128 list) \<Rightarrow> (int \<Rightarrow> nat list) \<Rightarrow> int
   \<Rightarrow> inverse_state \<Rightarrow> (bool \<times> inverse_state) option"
where
  "inverse_block ctxs layout bsize first_block_idx stack tbl b = (\<lambda>(blks, data). do {
     let bbytes = ROZOFS_BSIZE_BYTES bsize;
     let inv_nb = rozofs_get_rozofs_inverse layout;
     let pos = (bbytes div 16) * (first_block_idx + b);
     blk \<leftarrow> arr_get blks b;
     if blk_state blk = ROZOFS_BLK_TRANSFORM_DONE then Some (False, blks, data)
     else do {
       blks' \<leftarrow> arr_set blks b (blk\<lparr>blk_state := ROZOFS_BLK_TRANSFORM_DONE\<rparr>);
       if blk_timestamp blk = 0 \<and> uint (blk_effective_length blk) = bbytes
       then do {
         data \<leftarrow> arr_paste data pos (replicate (nat (bbytes div 16)) 0);
         Some (False, blks', data) }
       else if blk_timestamp blk = 0 \<and> blk_effective_length blk = 0
       then Some (True, blks', data)
       else do {
         prjs \<leftarrow> read_projections ctxs layout bsize b (tbl b);
         support \<leftarrow> arr_slice data pos (bbytes div 16);
         (support, _, _) \<leftarrow> transform128_inverse_copy support inv_nb (bbytes div inv_nb div 8) inv_nb prjs
            (rozofs_get_max_psize layout bsize * 8) (fst (stack b)) (snd (stack b));
         let support = (if uint (blk_effective_length blk) < bbytes then clear_tail (uint (blk_effective_length blk)) support else support);
         data \<leftarrow> arr_paste data pos support;
         Some (False, blks', data) } } })"

text \<open>The loop over the blocks; the number of blocks when it stops at the end of the file.\<close>

fun inverse_blocks ::
  "(int \<Rightarrow> inverse_state \<Rightarrow> (bool \<times> inverse_state) option) \<Rightarrow> int list \<Rightarrow> inverse_state \<Rightarrow> (int option \<times> inverse_state) option"
where
  "inverse_blocks f [] st = Some (None, st)"
| "inverse_blocks f (b # bs) st = do {
     (stop, st) \<leftarrow> f b st;
     if stop then Some (Some b, st) else inverse_blocks f bs st }"

definition rozofs_storcli_transform_inverse ::
  "rozofs_storcli_projection_ctx_t list \<Rightarrow> int \<Rightarrow> int \<Rightarrow> int \<Rightarrow> int \<Rightarrow> rozofs_storcli_inverse_block_t list \<Rightarrow> u128 list
   \<Rightarrow> (int \<Rightarrow> nat list) \<Rightarrow> (int \<Rightarrow> int \<times> u128 list)
   \<Rightarrow> (int \<times> rozofs_storcli_projection_ctx_t list \<times> rozofs_storcli_inverse_block_t list \<times> u128 list) option"
where
  "rozofs_storcli_transform_inverse ctxs layout bsize first_block_idx number_of_blocks blks data tbl stack = do {
     (inv_nb, nfwd, safe, _) \<leftarrow> rozofs_get_rozofs_invers_forward_safe layout;
     (eof, blks, data) \<leftarrow> inverse_blocks (inverse_block ctxs layout bsize first_block_idx stack tbl) [0..number_of_blocks - 1] (blks, data);
     case eof of
       Some n \<Rightarrow> Some (n, ctxs, blks, data)
     | None \<Rightarrow> do {
         ctxs \<leftarrow> rozofs_storcli_check_block_2_repair ctxs inv_nb nfwd safe (msg_cells layout bsize) number_of_blocks blks;
         Some (number_of_blocks, ctxs, blks, data) } }"

end
