(* ===== verification/Storcli_Read.thy ===== *)
theory Storcli_Read
  imports Storcli_Transform
begin

text \<open>
  Correctness of the read path of the storage client: what the check of the headers says of each block, and that
  decoding the chosen projections gives the block of the write they belong to.
\<close>

section \<open>Decoding\<close>

lemma decode_row:
  fixes row :: "nat list"
  assumes lb: "0 \<le> layout" "layout < 3" "bsize = 0 \<or> bsize = 1"
    and row: "int (length row) = rozofs_get_rozofs_inverse layout" "distinct row" "inj_on q (set row)"
    and q: "\<And>i. i \<in> set row \<Longrightarrow> 0 \<le> q i \<and> q i < rozofs_get_rozofs_forward layout"
    and prj: "\<And>i. i \<in> set row \<Longrightarrow> is_projection128 D (rozofs_get_rozofs_inverse layout) (block_cols layout bsize)
      (layout_projection layout bsize (q i) (pl i))"
    and len: "int (length D) = ROZOFS_BSIZE_BYTES bsize div 16" "length out = length D" "length buff = 1152"
  defines "R \<equiv> rozofs_get_rozofs_inverse layout"
  shows "\<exists>left mem. transform128_inverse_copy out R (ROZOFS_BSIZE_BYTES bsize div R div 8) R
     (map (\<lambda>i. layout_projection layout bsize (q i) (pl i)) row) (rozofs_get_max_psize layout bsize * 8) slot buff = Some (D, left, mem)"
proof -
  define bs where "bs = (\<lambda>k. pl (the_inv_into (set row) q k))"
  have bs: "bs (q i) = pl i" if "i \<in> set row" for i using that row(3) by (simp add: bs_def the_inv_into_f_f)
  note f = layout_facts[OF lb, folded R_def]
  have "decodable128 D R (block_cols layout bsize) (layout_step layout bsize) (map (\<lambda>k. layout_projection layout bsize k (bs k)) (map q row))"
    unfolding R_def by (rule layout_decodable[OF lb]) (use row q prj len bs in \<open>auto simp: distinct_map\<close>)
  moreover have "map (\<lambda>k. layout_projection layout bsize k (bs k)) (map q row) = map (\<lambda>i. layout_projection layout bsize (q i) (pl i)) row"
    using bs by simp
  ultimately have "decodable128 D R (block_cols layout bsize) (layout_step layout bsize) (map (\<lambda>i. layout_projection layout bsize (q i) (pl i)) row)"
    by (simp only:)
  from transform128_inverse_copy_recovers[OF this, of out buff slot] show ?thesis using len f(4-7) by simp
qed

lemma read_projections_eq:
  assumes "int (length row) = rozofs_get_rozofs_inverse layout" "0 \<le> msg_cells layout bsize * b"
    and "\<And>i. i \<in> set row \<Longrightarrow> i < length ctxs \<and> msg_cells layout bsize * b < int (length (prj_bins (ctxs ! i)))"
  shows "read_projections ctxs layout bsize b row = Some (map (\<lambda>i. layout_projection layout bsize
     (uint (projection_id (rcv_block_hdr layout bsize (prj_bins (ctxs ! i)) b)))
     (drop (nat (msg_cells layout bsize * b + 1)) (prj_bins (ctxs ! i)))) row)"
proof -
  let ?g = "\<lambda>i. layout_projection layout bsize (uint (projection_id (rcv_block_hdr layout bsize (prj_bins (ctxs ! i)) b)))
     (drop (nat (msg_cells layout bsize * b + 1)) (prj_bins (ctxs ! i)))"
  let ?f = "\<lambda>k prjs. do { i \<leftarrow> arr_get row k; c \<leftarrow> arr_get ctxs (int i); x \<leftarrow> arr_get (prj_bins c) (msg_cells layout bsize * b);
         let q = uint (projection_id (hdr_load x));
         Some (prjs @ [layout_projection layout bsize q (drop (nat (msg_cells layout bsize * b + 1)) (prj_bins c))]) }"
  have "n \<le> length row \<Longrightarrow> foldM ?f [0..int n - 1] [] = Some (map ?g (take n row))" for n
  proof (induction n)
    case (Suc n)
    have "[0..int (Suc n) - 1] = [0..int n - 1] @ [int n]" using upto_snoc[of 0 "int n"] by simp
    then show ?case using Suc assms(2) assms(3)[of "row ! n"]
      by (simp add: foldM_append arr_get_in take_Suc_conv_app_nth rcv_block_hdr_def Let_def del: of_nat_Suc)
  qed simp
  from this[of "length row"] show ?thesis using assms(1) by (simp add: read_projections_def)
qed

section \<open>What a message holds\<close>

text \<open>Message \<open>payload\<close> holds projection \<open>q\<close> of the block \<open>D\<close> at position \<open>b\<close>.\<close>

definition holds_projection :: "int \<Rightarrow> int \<Rightarrow> u128 list \<Rightarrow> int \<Rightarrow> int \<Rightarrow> u128 list \<Rightarrow> bool" where
  "holds_projection layout bsize payload b q D \<longleftrightarrow> int (length D) = ROZOFS_BSIZE_BYTES bsize div 16
     \<and> is_projection128 D (rozofs_get_rozofs_inverse layout) (block_cols layout bsize)
         (layout_projection layout bsize q (drop (nat (msg_cells layout bsize * b + 1)) payload))"

text \<open>
  \<open>written ts len b\<close> is the block that the write of timestamp \<open>ts\<close> and length \<open>len\<close> put at position \<open>b\<close>. The
  storages are honest: a block that passes validation holds its projection of that write.
\<close>

definition honest ::
  "int \<Rightarrow> int \<Rightarrow> (u64 \<Rightarrow> u16 \<Rightarrow> int \<Rightarrow> u128 list) \<Rightarrow> int \<Rightarrow> rozofs_storcli_projection_ctx_t \<Rightarrow> bool"
where
  "honest layout bsize written b c \<longleftrightarrow> msg_cells layout bsize * (b + 1) \<le> int (length (prj_bins c)) \<and>
     (let h = rcv_block_hdr layout bsize (prj_bins c) b in
       rcv_valid layout bsize (prj_bins c) b \<longrightarrow>
       holds_projection layout bsize (prj_bins c) b (uint (projection_id h)) (written (timestamp h) (effective_length h) b))"

text \<open>The contexts as validation leaves them for block \<open>b\<close>.\<close>

definition checked_ctxs ::
  "int \<Rightarrow> int \<Rightarrow> (u64 \<Rightarrow> u16 \<Rightarrow> int \<Rightarrow> u128 list) \<Rightarrow> int \<Rightarrow> rozofs_storcli_projection_ctx_t list \<Rightarrow> bool"
where
  "checked_ctxs layout bsize written b ctxs \<longleftrightarrow> (\<forall>c\<in>set ctxs. b < int (length (block_hdr_tab c)) \<and> (prj_state c = ROZOFS_PRJ_READ_DONE \<longrightarrow>
     timestamp (block_hdr_tab c ! nat b) = 0 \<and> effective_length (block_hdr_tab c ! nat b) = 0 \<and> projection_id (block_hdr_tab c ! nat b) = 0
     \<or> honest layout bsize written b c \<and> checked_hdr layout bsize (prj_bins c) b (block_hdr_tab c ! nat b)))"

lemma chosen_projections:
  assumes lb: "0 \<le> layout" "layout < 3" "bsize = 0 \<or> bsize = 1" "0 \<le> b"
    and good: "good_choice ctxs (rozofs_get_rozofs_inverse layout) (rozofs_get_rozofs_safe layout) b row ts len" and ts: "ts \<noteq> 0"
    and chk: "checked_ctxs layout bsize written b ctxs" and "rozofs_get_rozofs_safe layout \<le> int (length ctxs)" and i: "i \<in> set row"
  defines "h \<equiv> rcv_block_hdr layout bsize (prj_bins (ctxs ! i)) b"
  shows "i < length ctxs" "msg_cells layout bsize * (b + 1) \<le> int (length (prj_bins (ctxs ! i)))"
    "projection_id h = projection_id (ctx_hdr ctxs b i)" "uint (projection_id h) < rozofs_get_rozofs_forward layout"
    "holds_projection layout bsize (prj_bins (ctxs ! i)) b (uint (projection_id h)) (written ts len b)"
proof -
  have g: "int i < rozofs_get_rozofs_safe layout" "prj_state (ctxs ! i) = ROZOFS_PRJ_READ_DONE"
    "timestamp (block_hdr_tab (ctxs ! i) ! nat b) = ts" "effective_length (block_hdr_tab (ctxs ! i) ! nat b) = len"
    using good i by (auto simp: good_choice_def ctx_state_def ctx_hdr_def)
  show il: "i < length ctxs" using g assms(8) by linarith
  have hon: "honest layout bsize written b (ctxs ! i)" "checked_hdr layout bsize (prj_bins (ctxs ! i)) b (block_hdr_tab (ctxs ! i) ! nat b)"
    using chk nth_mem[OF il] g ts by (auto simp: checked_ctxs_def)
  then have valid: "rcv_valid layout bsize (prj_bins (ctxs ! i)) b" using g ts by (auto simp: checked_hdr_def split: if_splits)
  then have h: "timestamp h = ts" "effective_length h = len" "projection_id h = projection_id (ctx_hdr ctxs b i)"
    using hon(2) g by (auto simp: checked_hdr_def Let_def h_def ctx_hdr_def)
  then show "projection_id h = projection_id (ctx_hdr ctxs b i)" by simp
  show "msg_cells layout bsize * (b + 1) \<le> int (length (prj_bins (ctxs ! i)))" using hon(1) by (simp add: honest_def)
  have "rozofs_get_psizes layout bsize (uint (projection_id h)) \<noteq> 0" using valid by (simp add: rcv_valid_def Let_def h_def)
  then show "uint (projection_id h) < rozofs_get_rozofs_forward layout"
    using psizes_in_msg(4)[OF lb(1,2), of bsize "uint (projection_id h)"] lb(3) by auto
  show "holds_projection layout bsize (prj_bins (ctxs ! i)) b (uint (projection_id h)) (written ts len b)"
    using hon(1) valid h by (simp add: honest_def Let_def h_def)
qed

text \<open>Decoding a good choice gives the block of the write it belongs to.\<close>

lemma decode_good_choice:
  assumes lb: "0 \<le> layout" "layout < 3" "bsize = 0 \<or> bsize = 1" "0 \<le> b"
    and good: "good_choice ctxs (rozofs_get_rozofs_inverse layout) (rozofs_get_rozofs_safe layout) b row ts len" and ts: "ts \<noteq> 0"
    and chk: "checked_ctxs layout bsize written b ctxs" and safe: "rozofs_get_rozofs_safe layout \<le> int (length ctxs)"
    and out: "int (length out) = ROZOFS_BSIZE_BYTES bsize div 16" "length buff = 1152"
  shows "\<exists>prjs left mem. read_projections ctxs layout bsize b row = Some prjs \<and>
    transform128_inverse_copy out (rozofs_get_rozofs_inverse layout) (ROZOFS_BSIZE_BYTES bsize div rozofs_get_rozofs_inverse layout div 8)
      (rozofs_get_rozofs_inverse layout) prjs (rozofs_get_max_psize layout bsize * 8) slot buff = Some (written ts len b, left, mem)"
proof -
  let ?R = "rozofs_get_rozofs_inverse layout"
  define q where "q = (\<lambda>i. uint (projection_id (rcv_block_hdr layout bsize (prj_bins (ctxs ! i)) b)))"
  note ch = chosen_projections[OF lb good ts chk safe]
  have row: "int (length row) = ?R" "distinct row" using good by (auto simp: good_choice_def)
  have "inj_on (\<lambda>i. projection_id (ctx_hdr ctxs b i)) (set row)" using good ts by (simp add: good_choice_def)
  then have inj: "inj_on q (set row)" using ch(3) by (simp add: inj_on_def q_def word_uint_eq_iff)
  have cells: "1 < msg_cells layout bsize" using psizes_in_msg(2,3)[OF lb(1,2), of bsize 0] lb(3) by auto
  have rd: "read_projections ctxs layout bsize b row = Some (map (\<lambda>i. layout_projection layout bsize (q i)
     (drop (nat (msg_cells layout bsize * b + 1)) (prj_bins (ctxs ! i)))) row)"
    unfolding q_def using row(1)
  proof (rule read_projections_eq)
    show "0 \<le> msg_cells layout bsize * b" using cells lb(4) by simp
    show "i < length ctxs \<and> msg_cells layout bsize * b < int (length (prj_bins (ctxs ! i)))" if "i \<in> set row" for i
      using ch(1,2)[OF that] cells by (simp add: algebra_simps)
  qed
  have "length out = length (written ts len b)" if "i \<in> set row" for i
    using ch(5)[OF that] out(1) by (simp add: holds_projection_def)
  moreover have "row \<noteq> []" using row(1) layout_small[OF lb(1,2)] by auto
  ultimately have len: "length out = length (written ts len b)" "int (length (written ts len b)) = ROZOFS_BSIZE_BYTES bsize div 16"
    using out(1) by (metis list.set_sel(1))+
  show ?thesis
    using rd decode_row[OF lb(1-3) row inj, of "written ts len b" "\<lambda>i. drop (nat (msg_cells layout bsize * b + 1)) (prj_bins (ctxs ! i))" out buff slot]
      ch(4,5) len out(2) by (simp add: q_def holds_projection_def)
qed

section \<open>The check of all blocks\<close>

definition same_data :: "rozofs_storcli_projection_ctx_t list \<Rightarrow> rozofs_storcli_projection_ctx_t list \<Rightarrow> bool" where
  "same_data ctxs ctxs' \<longleftrightarrow> length ctxs' = length ctxs \<and> (\<forall>i < length ctxs. prj_state (ctxs' ! i) = prj_state (ctxs ! i)
     \<and> prj_bins (ctxs' ! i) = prj_bins (ctxs ! i) \<and> block_hdr_tab (ctxs' ! i) = block_hdr_tab (ctxs ! i)
     \<and> crc_err_bitmap (ctxs' ! i) = crc_err_bitmap (ctxs ! i))"

lemma same_data_refl: "same_data ctxs ctxs"
  by (simp add: same_data_def)

lemma same_data_trans: "same_data a b \<Longrightarrow> same_data b c \<Longrightarrow> same_data a c"
  by (simp add: same_data_def)

lemma only_marks_same_data: "only_marks A ctxs ctxs' \<Longrightarrow> same_data ctxs ctxs'"
  by (fastforce simp: only_marks_def same_data_def)

lemma same_data_checked: "same_data ctxs ctxs' \<Longrightarrow> checked_ctxs layout bsize w b ctxs \<Longrightarrow> checked_ctxs layout bsize w b ctxs'"
  by (simp add: checked_ctxs_def same_data_def honest_def all_set_conv_all_nth)

lemma same_data_good:
  assumes "same_data ctxs ctxs'" "safe \<le> int (length ctxs)" "good_choice ctxs R safe b row ts len"
  shows "good_choice ctxs' R safe b row ts len"
proof -
  have "ctx_state ctxs' i = ctx_state ctxs i \<and> ctx_hdr ctxs' b i = ctx_hdr ctxs b i" if "i \<in> set row" for i
  proof -
    have "i < length ctxs" using assms(2,3) that by (force simp: good_choice_def)
    then show ?thesis using assms(1) by (simp add: same_data_def ctx_state_def ctx_hdr_def)
  qed
  then show ?thesis using assms(3) by (auto simp: good_choice_def inj_on_def)
qed

text \<open>What a check without error says of a block: a hole, the end of the file, or a good choice.\<close>

definition verdict :: "int \<Rightarrow> int \<Rightarrow> rozofs_storcli_projection_ctx_t list \<Rightarrow> int \<Rightarrow> nat list \<Rightarrow> u64 \<Rightarrow> u16 \<Rightarrow> bool" where
  "verdict layout bsize ctxs b row ts len \<longleftrightarrow>
     (if ts = 0 then len = 0 \<or> len = word_of_int (ROZOFS_BSIZE_BYTES bsize)
      else good_choice ctxs (rozofs_get_rozofs_inverse layout) (rozofs_get_rozofs_safe layout) b row ts len)"

lemma same_data_verdict:
  "same_data ctxs ctxs' \<Longrightarrow> rozofs_get_rozofs_safe layout \<le> int (length ctxs) \<Longrightarrow> verdict layout bsize ctxs' b row ts len
     \<Longrightarrow> verdict layout bsize ctxs b row ts len"
proof -
  assume a: "same_data ctxs ctxs'" "rozofs_get_rozofs_safe layout \<le> int (length ctxs)" "verdict layout bsize ctxs' b row ts len"
  have "same_data ctxs' ctxs" "length ctxs' = length ctxs" using a(1) by (auto simp: same_data_def)
  then show ?thesis using a same_data_good[of ctxs' ctxs] by (auto simp: verdict_def split: if_splits)
qed

lemma check_ret_zero:
  assumes "rozofs_storcli_transform_inverse_check ctxs layout bsize b corr = Some r" "ret r = 0" "0 \<le> layout" "layout < 3"
  shows "res_timestamp r = 0 \<and> (res_length r = 0 \<or> res_length r = word_of_int (ROZOFS_BSIZE_BYTES bsize)) \<and> ctxs_after r = ctxs"
proof -
  have "rozofs_get_rozofs_inverse layout \<noteq> 0" using layout_small[OF assms(3,4)] by simp
  then show ?thesis
    using assms(1,2) by (auto simp: rozofs_storcli_transform_inverse_check_def rozofs_storcli_transform_inverse_check_timestamp_tb_def
        Let_def split: bind_splits if_splits option.splits)
qed

lemma check_ret_neg:
  assumes "rozofs_storcli_transform_inverse_check ctxs layout bsize b corr = Some r" "ret r < 0" "0 \<le> layout" "layout < 3"
  shows "ctxs_after r = ctxs"
proof -
  have "0 < rozofs_get_rozofs_inverse layout" using layout_small[OF assms(3,4)] by simp
  then show ?thesis
    using assms(1,2) by (auto simp: rozofs_storcli_transform_inverse_check_def rozofs_storcli_transform_inverse_check_timestamp_tb_def
        Let_def split: bind_splits if_splits option.splits)
qed

lemma check_verdict:
  assumes run: "rozofs_storcli_transform_inverse_check ctxs layout bsize b corr = Some r" and lay: "0 \<le> layout" "layout < 3"
    and chk: "checked_ctxs layout bsize w b ctxs" and safe: "rozofs_get_rozofs_safe layout \<le> int (length ctxs)"
  shows "same_data ctxs (ctxs_after r)" "0 \<le> ret r \<Longrightarrow> verdict layout bsize ctxs b (chosen r) (res_timestamp r) (res_length r)"
proof -
  consider "ret r < 0" | "ret r = 0" | "0 < ret r" by linarith
  then have "same_data ctxs (ctxs_after r) \<and> (0 \<le> ret r \<longrightarrow> verdict layout bsize ctxs b (chosen r) (res_timestamp r) (res_length r))"
  proof cases
    case 1
    then show ?thesis using check_ret_neg[OF run _ lay] by (simp add: same_data_refl)
  next
    case 2
    then show ?thesis using check_ret_zero[OF run 2 lay] by (auto simp: same_data_refl verdict_def)
  next
    case 3
    have good: "good_choice ctxs (rozofs_get_rozofs_inverse layout) (rozofs_get_rozofs_safe layout) b (chosen r) (res_timestamp r) (res_length r)"
      and "same_data ctxs (ctxs_after r)"
      using inverse_check_good[OF run 3] only_marks_same_data by auto
    moreover have "res_length r = 0 \<or> res_length r = word_of_int (ROZOFS_BSIZE_BYTES bsize)" if z: "res_timestamp r = 0"
    proof -
      have "chosen r \<noteq> []" using good layout_small[OF lay] by (auto simp: good_choice_def)
      then obtain i where i: "i \<in> set (chosen r)" by (meson last_in_set)
      then have g: "int i < rozofs_get_rozofs_safe layout" "prj_state (ctxs ! i) = ROZOFS_PRJ_READ_DONE"
        "timestamp (block_hdr_tab (ctxs ! i) ! nat b) = 0" "effective_length (block_hdr_tab (ctxs ! i) ! nat b) = res_length r"
        using good z by (auto simp: good_choice_def ctx_state_def ctx_hdr_def)
      then have il: "i < length ctxs" using safe by linarith
      show ?thesis using chk nth_mem[OF il] g by (fastforce simp: checked_ctxs_def checked_hdr_def rcv_valid_def Let_def split: if_splits)
    qed
    ultimately show ?thesis by (auto simp: verdict_def)
  qed
  then show "same_data ctxs (ctxs_after r)" "0 \<le> ret r \<Longrightarrow> verdict layout bsize ctxs b (chosen r) (res_timestamp r) (res_length r)" by auto
qed

text \<open>A block that is ready to decode.\<close>

definition block_ready ::
  "int \<Rightarrow> int \<Rightarrow> rozofs_storcli_projection_ctx_t list \<Rightarrow> rozofs_storcli_inverse_block_t list \<Rightarrow> (int \<Rightarrow> nat list) \<Rightarrow> int \<Rightarrow> bool"
where
  "block_ready layout bsize ctxs blks tbl b \<longleftrightarrow> (let k = blks ! nat b in
     0 \<le> b \<and> b < int (length blks) \<and> blk_state k = ROZOFS_BLK_TRANSFORM_REQ
     \<and> \<not> (blk_timestamp k = 0 \<and> blk_effective_length k = 0)
     \<and> verdict layout bsize ctxs b (tbl b) (blk_timestamp k) (blk_effective_length k))"

lemma check_blocks_sound:
  assumes "check_blocks layout bsize bs (blks, tbl, corr, ctxs) = Some (r, blks', tbl', corr', ctxs')" and lay: "0 \<le> layout" "layout < 3"
    and "distinct bs" "\<And>b. b \<in> set bs \<Longrightarrow> 0 \<le> b \<and> blk_state (blks ! nat b) = ROZOFS_BLK_TRANSFORM_REQ \<and> checked_ctxs layout bsize w b ctxs"
    and "rozofs_get_rozofs_safe layout \<le> int (length ctxs)"
  shows "same_data ctxs ctxs' \<and> length blks' = length blks
     \<and> (\<forall>b. 0 \<le> b \<and> b \<notin> set bs \<longrightarrow> blks' ! nat b = blks ! nat b \<and> tbl' b = tbl b)
     \<and> (\<forall>x. r = Some x \<longrightarrow> fst x = -1 \<or> fst x = 0)
     \<and> (\<exists>ok rest. bs = ok @ rest \<and> (\<forall>b\<in>set ok. block_ready layout bsize ctxs blks' tbl' b)
          \<and> (r = None \<longrightarrow> rest = []) \<and> (\<forall>m. r = Some (0, m) \<longrightarrow> (\<exists>rest'. rest = m # rest')))"
  using assms
proof (induction bs arbitrary: blks tbl corr ctxs)
  case (Cons b bs)
  obtain blk where blk: "arr_get blks b = Some blk" using Cons.prems(1) by (auto split: bind_splits)
  then have b: "0 \<le> b" "b < int (length blks)" "blks ! nat b = blk" "blk_state blk = ROZOFS_BLK_TRANSFORM_REQ"
    using Cons.prems(5)[of b] by (auto simp: arr_get_Some_iff)
  obtain c where c: "rozofs_storcli_transform_inverse_check ctxs layout bsize b corr = Some c"
    using Cons.prems(1) blk b by (auto split: bind_splits)
  let ?blks = "blks[nat b := blk\<lparr>blk_timestamp := res_timestamp c, blk_effective_length := res_length c\<rparr>]"
  have set: "arr_set blks b (blk\<lparr>blk_timestamp := res_timestamp c, blk_effective_length := res_length c\<rparr>) = Some ?blks"
    using b by (simp add: arr_set_in)
  note v = check_verdict[OF c lay conjunct2[OF conjunct2[OF Cons.prems(5)[of b, simplified]]] Cons.prems(6)]
  have sd: "same_data ctxs (ctxs_after c)" by (rule v(1))
  have other: "?blks ! nat x = blks ! nat x" if "0 \<le> x" "x \<noteq> b" for x using that b by (simp add: nth_list_update nat_eq_iff)
  note body = Cons.prems(1)[simplified check_blocks.simps blk c set b Option.bind.bind_lunit Let_def]
  show ?case
  proof (cases "ret c < 0")
    case True
    then have res: "r = Some (-1, 0)" "blks' = ?blks" "tbl' = tbl(b := chosen c)" "ctxs' = ctxs_after c" using body by auto
    from res have ex: "\<exists>ok rest. b # bs = ok @ rest \<and> (\<forall>b\<in>set ok. block_ready layout bsize ctxs blks' tbl' b)
        \<and> (r = None \<longrightarrow> rest = []) \<and> (\<forall>m. r = Some (0, m) \<longrightarrow> (\<exists>rest'. rest = m # rest'))"
      by (intro exI[of _ "[]"] exI[of _ "b # bs"]) auto
    show ?thesis by (intro conjI ex) (use res sd other in auto)
  next
    case pos: False
    then have ver: "verdict layout bsize ctxs b (chosen c) (res_timestamp c) (res_length c)" using v(2) by simp
    show ?thesis
    proof (cases "res_timestamp c = 0 \<and> res_length c = 0")
      case True
      then have res: "r = Some (0, b)" "blks' = ?blks" "tbl' = tbl(b := chosen c)" "ctxs' = ctxs_after c" using body pos by auto
      from res have ex: "\<exists>ok rest. b # bs = ok @ rest \<and> (\<forall>b\<in>set ok. block_ready layout bsize ctxs blks' tbl' b)
        \<and> (r = None \<longrightarrow> rest = []) \<and> (\<forall>m. r = Some (0, m) \<longrightarrow> (\<exists>rest'. rest = m # rest'))"
      by (intro exI[of _ "[]"] exI[of _ "b # bs"]) auto
    show ?thesis by (intro conjI ex) (use res sd other in auto)
    next
      case False
      then have rec: "check_blocks layout bsize bs (?blks, tbl(b := chosen c), corrupted c, ctxs_after c) = Some (r, blks', tbl', corr', ctxs')"
        using body pos by auto
      have nb: "b \<notin> set bs" using Cons.prems(4) by simp
      have pre: "0 \<le> x \<and> blk_state (?blks ! nat x) = ROZOFS_BLK_TRANSFORM_REQ \<and> checked_ctxs layout bsize w x (ctxs_after c)" if "x \<in> set bs" for x
      proof -
        have "x \<noteq> b" using that nb by auto
        then show ?thesis using Cons.prems(5)[of x] that other[of x] same_data_checked[OF sd] by simp
      qed
      have safe: "rozofs_get_rozofs_safe layout \<le> int (length (ctxs_after c))" using sd Cons.prems(6) by (simp add: same_data_def)
      have ih: "same_data (ctxs_after c) ctxs' \<and> length blks' = length ?blks
         \<and> (\<forall>x. 0 \<le> x \<and> x \<notin> set bs \<longrightarrow> blks' ! nat x = ?blks ! nat x \<and> tbl' x = (tbl(b := chosen c)) x)
         \<and> (\<forall>x. r = Some x \<longrightarrow> fst x = -1 \<or> fst x = 0)
         \<and> (\<exists>ok rest. bs = ok @ rest \<and> (\<forall>b\<in>set ok. block_ready layout bsize (ctxs_after c) blks' tbl' b)
              \<and> (r = None \<longrightarrow> rest = []) \<and> (\<forall>m. r = Some (0, m) \<longrightarrow> (\<exists>rest'. rest = m # rest')))"
        by (rule Cons.IH[OF rec lay _ pre safe]) (use Cons.prems(4) in auto)
      then obtain ok rest where ok: "bs = ok @ rest" "\<forall>b\<in>set ok. block_ready layout bsize (ctxs_after c) blks' tbl' b"
        "r = None \<longrightarrow> rest = []" "\<forall>m. r = Some (0, m) \<longrightarrow> (\<exists>rest'. rest = m # rest')" by blast
      have "block_ready layout bsize ctxs blks' tbl' x" if "x \<in> set ok" for x
        using ok(2) that same_data_verdict[OF sd Cons.prems(6)] by (auto simp: block_ready_def Let_def)
      moreover have "block_ready layout bsize ctxs blks' tbl' b"
        using ih nb b ver False by (auto simp: block_ready_def Let_def)
      ultimately have ex: "\<exists>ok rest. b # bs = ok @ rest \<and> (\<forall>b\<in>set ok. block_ready layout bsize ctxs blks' tbl' b)
          \<and> (r = None \<longrightarrow> rest = []) \<and> (\<forall>m. r = Some (0, m) \<longrightarrow> (\<exists>rest'. rest = m # rest'))"
        using ok by (intro exI[of _ "b # ok"] exI[of _ rest]) auto
      show ?thesis by (intro conjI ex) (use ih other same_data_trans[OF sd] in auto)
    qed
  qed
qed (auto simp: same_data_refl)

section \<open>Blocks of a buffer\<close>

lemma arr_slice_length: "arr_slice xs a n = Some ys \<Longrightarrow> int (length ys) = n"
  by (auto simp: arr_slice_def split: if_splits)

lemma arr_paste_block:
  assumes "0 \<le> k" "0 \<le> n" "n * (k + 1) \<le> int (length xs)" "int (length ys) = n"
  shows "\<exists>xs'. arr_paste xs (n * k) ys = Some xs' \<and> length xs' = length xs
     \<and> (\<forall>j. 0 \<le> j \<and> n * (j + 1) \<le> int (length xs) \<longrightarrow> arr_slice xs' (n * j) n = (if j = k then Some ys else arr_slice xs (n * j) n))"
proof -
  define xs' where "xs' = take (nat (n * k)) xs @ ys @ drop (nat (n * k) + length ys) xs"
  have nk: "0 \<le> n * k" "n * k + n \<le> int (length xs)" using assms by (auto simp: algebra_simps)
  have p: "arr_paste xs (n * k) ys = Some xs'" using nk assms(4) by (simp add: arr_paste_def xs'_def)
  have len: "length xs' = length xs" using nk assms(4) by (simp add: xs'_def)
  have nth: "xs' ! i = (if n * k \<le> int i \<and> int i < n * k + n then ys ! (i - nat (n * k)) else xs ! i)" if "i < length xs" for i
    using nk assms(4) that by (auto simp: xs'_def nth_append)
  have "arr_slice xs' (n * j) n = (if j = k then Some ys else arr_slice xs (n * j) n)" if j: "0 \<le> j" "n * (j + 1) \<le> int (length xs)" for j
  proof -
    have nj: "0 \<le> n * j" "n * j + n \<le> int (length xs)" using j assms(2) by (auto simp: algebra_simps)
    have "take (nat n) (drop (nat (n * j)) xs') = (if j = k then ys else take (nat n) (drop (nat (n * j)) xs))"
    proof (rule nth_equalityI)
      show "length (take (nat n) (drop (nat (n * j)) xs')) = length (if j = k then ys else take (nat n) (drop (nat (n * j)) xs))"
        using nj len assms(2,4) by auto
      fix i assume "i < length (take (nat n) (drop (nat (n * j)) xs'))"
      then have i: "int i < n" "nat (n * j) + i < length xs" using nj len by auto
      have "\<not> (n * k \<le> n * j + int i \<and> n * j + int i < n * k + n)" if "j \<noteq> k"
      proof
        assume a: "n * k \<le> n * j + int i \<and> n * j + int i < n * k + n"
        consider "j + 1 \<le> k" | "k + 1 \<le> j" using \<open>j \<noteq> k\<close> by linarith
        then show False
        proof cases
          case 1
          then have "n * (j + 1) \<le> n * k" using assms(2) by (rule mult_left_mono)
          then show False using a i by (simp add: algebra_simps)
        next
          case 2
          then have "n * (k + 1) \<le> n * j" using assms(2) by (rule mult_left_mono)
          then show False using a i by (simp add: algebra_simps)
        qed
      qed
      then show "take (nat n) (drop (nat (n * j)) xs') ! i = (if j = k then ys else take (nat n) (drop (nat (n * j)) xs)) ! i"
        using nth[OF i(2)] nj i len by (auto simp: nat_less_iff)
    qed
    then show ?thesis using nj len assms(2) by (simp add: arr_slice_def)
  qed
  with p len show ?thesis by blast
qed

section \<open>Reading the blocks of a message\<close>

text \<open>What the reader gets for block \<open>b\<close>: zeroes for a hole, else the block that was written, cleared beyond its length.\<close>

definition block_content :: "int \<Rightarrow> (u64 \<Rightarrow> u16 \<Rightarrow> int \<Rightarrow> u128 list) \<Rightarrow> int \<Rightarrow> u64 \<Rightarrow> u16 \<Rightarrow> u128 list" where
  "block_content bsize written b ts len =
     (if ts = 0 then replicate (nat (ROZOFS_BSIZE_BYTES bsize div 16)) 0
      else if uint len < ROZOFS_BSIZE_BYTES bsize then clear_tail (uint len) (written ts len b) else written ts len b)"

lemma length_clear_tail [simp]: "length (clear_tail n blk) = length blk"
  by (simp add: clear_tail_def)

lemma bbytes_small: "bsize = 0 \<or> bsize = 1 \<Longrightarrow> (uint (word_of_int (ROZOFS_BSIZE_BYTES bsize) :: u16) = ROZOFS_BSIZE_BYTES bsize)
    \<and> 0 < ROZOFS_BSIZE_BYTES bsize \<and> 0 < ROZOFS_BSIZE_BYTES bsize div 16"
  by (auto simp: ROZOFS_BSIZE_BYTES_def)

lemma inverse_block_step:
  assumes lb: "0 \<le> layout" "layout < 3" "bsize = 0 \<or> bsize = 1"
    and ready: "block_ready layout bsize ctxs blks tbl b"
    and chk: "checked_ctxs layout bsize written b ctxs" and safe: "rozofs_get_rozofs_safe layout \<le> int (length ctxs)"
    and stack: "length (snd (stack b)) = 1152" and first: "0 \<le> first"
    and data: "(ROZOFS_BSIZE_BYTES bsize div 16) * (first + b + 1) \<le> int (length data)"
  shows "\<exists>k data'. inverse_block ctxs layout bsize first stack tbl b (blks, data) = Some (False, blks[nat b := k], data')
     \<and> blk_timestamp k = blk_timestamp (blks ! nat b) \<and> blk_effective_length k = blk_effective_length (blks ! nat b)
     \<and> length data' = length data
     \<and> (\<forall>j. 0 \<le> j \<and> (ROZOFS_BSIZE_BYTES bsize div 16) * (j + 1) \<le> int (length data) \<longrightarrow>
          arr_slice data' ((ROZOFS_BSIZE_BYTES bsize div 16) * j) (ROZOFS_BSIZE_BYTES bsize div 16) =
            (if j = first + b then Some (block_content bsize written b (blk_timestamp k) (blk_effective_length k))
             else arr_slice data ((ROZOFS_BSIZE_BYTES bsize div 16) * j) (ROZOFS_BSIZE_BYTES bsize div 16)))"
proof -
  define n where "n = ROZOFS_BSIZE_BYTES bsize div 16"
  define k where "k = blks ! nat b"
  have b: "0 \<le> b" "b < int (length blks)" "blk_state k = ROZOFS_BLK_TRANSFORM_REQ"
    "\<not> (blk_timestamp k = 0 \<and> blk_effective_length k = 0)" "verdict layout bsize ctxs b (tbl b) (blk_timestamp k) (blk_effective_length k)"
    using ready by (auto simp: block_ready_def Let_def k_def)
  have n: "0 < n" "n * (first + b + 1) \<le> int (length data)" "0 \<le> first + b" using bbytes_small[OF lb(3)] data b(1) first by (auto simp: n_def)
  let ?k = "k\<lparr>blk_state := ROZOFS_BLK_TRANSFORM_DONE\<rparr>"
  have blk: "arr_get blks b = Some k" "arr_set blks b ?k = Some (blks[nat b := ?k])" using b by (auto simp: arr_get_in arr_set_in k_def)
  let ?D = "block_content bsize written b (blk_timestamp k) (blk_effective_length k)"
  have main: "int (length ?D) = n \<and> inverse_block ctxs layout bsize first stack tbl b (blks, data)
      = do { data \<leftarrow> arr_paste data (n * (first + b)) ?D; Some (False, blks[nat b := ?k], data) }"
  proof (cases "blk_timestamp k = 0")
    case True
    then have "uint (blk_effective_length k) = ROZOFS_BSIZE_BYTES bsize"
      using b(4,5) bbytes_small[OF lb(3)] by (auto simp: verdict_def)
    then show ?thesis using True b(3) blk n(1) by (simp add: inverse_block_def Let_def block_content_def n_def)
  next
    case False
    have "0 \<le> n * (first + b)" using n(1,3) by (intro mult_nonneg_nonneg) simp_all
    moreover have "n * (first + b) + n \<le> int (length data)" using n(2) by (simp add: algebra_simps)
    ultimately obtain out where out: "arr_slice data (n * (first + b)) n = Some out" "int (length out) = n"
      using n(1) by (simp add: arr_slice_def)
    have good: "good_choice ctxs (rozofs_get_rozofs_inverse layout) (rozofs_get_rozofs_safe layout) b (tbl b) (blk_timestamp k) (blk_effective_length k)"
      using b(5) False by (simp add: verdict_def)
    obtain prjs left mem where dec: "read_projections ctxs layout bsize b (tbl b) = Some prjs"
      "transform128_inverse_copy out (rozofs_get_rozofs_inverse layout) (ROZOFS_BSIZE_BYTES bsize div rozofs_get_rozofs_inverse layout div 8)
        (rozofs_get_rozofs_inverse layout) prjs (rozofs_get_max_psize layout bsize * 8) (fst (stack b)) (snd (stack b))
        = Some (written (blk_timestamp k) (blk_effective_length k) b, left, mem)"
      using decode_good_choice[OF lb b(1) good False chk safe _ stack, where out = out and slot = "fst (stack b)"] out(2) by (auto simp: n_def)
    have "tbl b \<noteq> []" using good layout_small[OF lb(1,2)] by (auto simp: good_choice_def)
    then have "int (length (written (blk_timestamp k) (blk_effective_length k) b)) = n"
      using chosen_projections(5)[OF lb b(1) good False chk safe, of "hd (tbl b)"] by (simp add: holds_projection_def n_def)
    then show ?thesis using False b(3) blk out(1) dec by (simp add: inverse_block_def Let_def block_content_def n_def)
  qed
  obtain data' where "arr_paste data (n * (first + b)) ?D = Some data'" "length data' = length data"
    "\<forall>j. 0 \<le> j \<and> n * (j + 1) \<le> int (length data) \<longrightarrow> arr_slice data' (n * j) n = (if j = first + b then Some ?D else arr_slice data (n * j) n)"
    using arr_paste_block[of "first + b" n data ?D] n main by auto
  then show ?thesis using main by (intro exI[of _ ?k] exI[of _ data']) (simp add: k_def n_def)
qed

lemma inverse_blocks_read:
  assumes lb: "0 \<le> layout" "layout < 3" "bsize = 0 \<or> bsize = 1"
    and "distinct bs" "\<And>b. b \<in> set bs \<Longrightarrow> block_ready layout bsize ctxs blks tbl b \<and> checked_ctxs layout bsize written b ctxs
      \<and> (ROZOFS_BSIZE_BYTES bsize div 16) * (first + b + 1) \<le> int (length data)"
    and safe: "rozofs_get_rozofs_safe layout \<le> int (length ctxs)" and stack: "\<And>b. length (snd (stack b)) = 1152" and first: "0 \<le> first"
  shows "\<exists>blks' data'. inverse_blocks (inverse_block ctxs layout bsize first stack tbl) bs (blks, data) = Some (None, blks', data')
     \<and> length blks' = length blks \<and> length data' = length data
     \<and> (\<forall>b\<in>set bs. arr_slice data' ((ROZOFS_BSIZE_BYTES bsize div 16) * (first + b)) (ROZOFS_BSIZE_BYTES bsize div 16)
          = Some (block_content bsize written b (blk_timestamp (blks ! nat b)) (blk_effective_length (blks ! nat b))))
     \<and> (\<forall>j. 0 \<le> j \<and> (ROZOFS_BSIZE_BYTES bsize div 16) * (j + 1) \<le> int (length data) \<and> j - first \<notin> set bs \<longrightarrow>
          arr_slice data' ((ROZOFS_BSIZE_BYTES bsize div 16) * j) (ROZOFS_BSIZE_BYTES bsize div 16) =
          arr_slice data ((ROZOFS_BSIZE_BYTES bsize div 16) * j) (ROZOFS_BSIZE_BYTES bsize div 16))"
  using assms(4,5)
proof (induction bs arbitrary: blks data)
  case (Cons b bs)
  let ?n = "ROZOFS_BSIZE_BYTES bsize div 16"
  have pb: "block_ready layout bsize ctxs blks tbl b" "checked_ctxs layout bsize written b ctxs" "?n * (first + b + 1) \<le> int (length data)"
    using Cons.prems(2)[of b] by auto
  obtain k d where st: "inverse_block ctxs layout bsize first stack tbl b (blks, data) = Some (False, blks[nat b := k], d)"
     "blk_timestamp k = blk_timestamp (blks ! nat b)" "blk_effective_length k = blk_effective_length (blks ! nat b)" "length d = length data"
     "\<And>j. 0 \<le> j \<Longrightarrow> ?n * (j + 1) \<le> int (length data) \<Longrightarrow> arr_slice d (?n * j) ?n =
            (if j = first + b then Some (block_content bsize written b (blk_timestamp k) (blk_effective_length k)) else arr_slice data (?n * j) ?n)"
    using inverse_block_step[of layout bsize ctxs blks tbl b written stack first data] lb pb safe stack first by blast
  have b0: "0 \<le> b" using pb(1) by (simp add: block_ready_def Let_def)
  have other: "blks[nat b := k] ! nat x = blks ! nat x" if "x \<in> set bs" for x
  proof -
    have "x \<noteq> b" "0 \<le> x" using that Cons.prems(1) Cons.prems(2)[of x] by (auto simp: block_ready_def Let_def)
    then show ?thesis using b0 by (simp add: nth_list_update_neq nat_eq_iff)
  qed
  have pre: "block_ready layout bsize ctxs (blks[nat b := k]) tbl x \<and> checked_ctxs layout bsize written x ctxs
      \<and> ?n * (first + x + 1) \<le> int (length d)" if "x \<in> set bs" for x
    using Cons.prems(2)[of x] that other[OF that] st(4) by (simp add: block_ready_def Let_def)
  obtain blks' data' where ih: "inverse_blocks (inverse_block ctxs layout bsize first stack tbl) bs (blks[nat b := k], d) = Some (None, blks', data')"
    "length blks' = length blks" "length data' = length d"
    "\<And>x. x \<in> set bs \<Longrightarrow> arr_slice data' (?n * (first + x)) ?n = Some (block_content bsize written x (blk_timestamp (blks ! nat x)) (blk_effective_length (blks ! nat x)))"
    "\<And>j. 0 \<le> j \<Longrightarrow> ?n * (j + 1) \<le> int (length d) \<Longrightarrow> j - first \<notin> set bs \<Longrightarrow> arr_slice data' (?n * j) ?n = arr_slice d (?n * j) ?n"
    using Cons.IH[OF _ pre] Cons.prems(1) other by auto
  have "arr_slice data' (?n * (first + b)) ?n = Some (block_content bsize written b (blk_timestamp (blks ! nat b)) (blk_effective_length (blks ! nat b)))"
    using ih(5)[of "first + b"] st(2-4) st(5)[of "first + b"] Cons.prems(1) pb(3) b0 first by simp
  moreover have "arr_slice data' (?n * j) ?n = arr_slice data (?n * j) ?n"
    if "0 \<le> j" "?n * (j + 1) \<le> int (length data)" "j - first \<notin> set (b # bs)" for j
    using ih(5)[of j] st(4) st(5)[of j] that by auto
  ultimately show ?case using st(1,4) ih(1-4) by auto
qed simp

section \<open>Reading a message\<close>

lemma repair_scan_total:
  assumes "\<And>b i. (b, i) \<in> set ixs \<Longrightarrow> 0 \<le> b \<and> b < int (length blks) \<and> 0 \<le> i \<and> i < int (length ctxs) \<and> 0 \<le> cells
     \<and> (prj_state (ctxs ! nat i) = ROZOFS_PRJ_READ_DONE \<longrightarrow> cells * b < int (length (prj_bins (ctxs ! nat i))))"
    and "\<And>x. found = Some x \<Longrightarrow> x \<in> S" "set ixs \<subseteq> S"
  shows "\<exists>r. repair_scan ctxs nfwd cells blks ixs found = Some r \<and> (\<forall>x. r = Some (Some x) \<longrightarrow> x \<in> S)"
  using assms
proof (induction ctxs nfwd cells blks ixs found rule: repair_scan.induct)
  case (2 ctxs nfwd cells blks b i ixs found)
  have b: "arr_get blks b = Some (blks ! nat b)" "arr_get ctxs i = Some (ctxs ! nat i)"
    using "2.prems"(1)[of b i] by (auto simp: arr_get_in)
  have c: "arr_get (prj_bins (ctxs ! nat i)) (cells * b) = Some (prj_bins (ctxs ! nat i) ! nat (cells * b))"
    if "prj_state (ctxs ! nat i) = ROZOFS_PRJ_READ_DONE"
    using "2.prems"(1)[of b i] that by (simp add: arr_get_in)
  have pre: "\<And>b i. (b, i) \<in> set ixs \<Longrightarrow> 0 \<le> b \<and> b < int (length blks) \<and> 0 \<le> i \<and> i < int (length ctxs) \<and> 0 \<le> cells
     \<and> (prj_state (ctxs ! nat i) = ROZOFS_PRJ_READ_DONE \<longrightarrow> cells * b < int (length (prj_bins (ctxs ! nat i))))" "set ixs \<subseteq> S" "(b, i) \<in> S"
    using "2.prems" by auto
  show ?case
    using "2.IH"(1)[OF b(1) _ pre(1) "2.prems"(2) pre(2)] "2.IH"(2)[OF b(1) _ b(2) _ pre(1) "2.prems"(2) pre(2)]
      "2.IH"(3)[OF b(1) _ b(2) _ _ pre(1) "2.prems"(2) pre(2)]
      "2.IH"(4)[OF b(1) _ b(2) _ _ c _ _ pre(1) _ pre(2)] "2.IH"(5)[OF b(1) _ b(2) _ _ c _ pre(1) "2.prems"(2) pre(2)] pre(3) b c
    by (auto split: option.splits)
qed simp

text \<open>The contexts are large enough for the message: the cells of each block and one bit per block.\<close>

definition message_room :: "int \<Rightarrow> int \<Rightarrow> rozofs_storcli_projection_ctx_t list \<Rightarrow> bool" where
  "message_room cells n ctxs \<longleftrightarrow> (\<forall>c\<in>set ctxs. n \<le> 64 * int (length (crc_err_bitmap c))
     \<and> (prj_state c = ROZOFS_PRJ_READ_DONE \<longrightarrow> cells * n \<le> int (length (prj_bins c))))"

lemma repair_total:
  assumes "message_room cells n ctxs" "n \<le> int (length blks)" "safe \<le> int (length ctxs)" "0 < cells"
  shows "rozofs_storcli_check_block_2_repair ctxs inv_nb nfwd safe cells n blks \<noteq> None"
proof -
  have rec: "foldM (\<lambda>i n. do { c \<leftarrow> arr_get ctxs i; Some (if prj_state c = ROZOFS_PRJ_READ_DONE then n + 1 else n) }) is (x :: int) \<noteq> None"
    if "set is \<subseteq> {0..safe - 1}" for "is" x
    using that
  proof (induction "is" arbitrary: x)
    case (Cons i "is")
    then show ?case using assms(3) by (simp add: arr_get_in)
  qed simp
  have pre: "0 \<le> b \<and> b < int (length blks) \<and> 0 \<le> i \<and> i < int (length ctxs) \<and> 0 \<le> cells
     \<and> (prj_state (ctxs ! nat i) = ROZOFS_PRJ_READ_DONE \<longrightarrow> cells * b < int (length (prj_bins (ctxs ! nat i))))"
    if "(b, i) \<in> set (List.product [0..n - 1] [0..safe - 1])" for b i
  proof -
    have bi: "0 \<le> b" "b < n" "0 \<le> i" "i < int (length ctxs)" using that assms(3) by auto
    have "cells * b < cells * n" using bi(2) assms(4) by simp
    moreover have "ctxs ! nat i \<in> set ctxs" using bi by simp
    then have "prj_state (ctxs ! nat i) = ROZOFS_PRJ_READ_DONE \<longrightarrow> cells * n \<le> int (length (prj_bins (ctxs ! nat i)))"
      using assms(1) by (simp add: message_room_def)
    ultimately have "prj_state (ctxs ! nat i) = ROZOFS_PRJ_READ_DONE \<longrightarrow> cells * b < int (length (prj_bins (ctxs ! nat i)))"
      by linarith
    then show ?thesis using bi assms(2,4) by auto
  qed
  let ?S = "set (List.product [0..n - 1] [0..safe - 1])"
  obtain r where r: "repair_scan ctxs nfwd cells blks (List.product [0..n - 1] [0..safe - 1]) None = Some r"
    "\<And>x. r = Some (Some x) \<Longrightarrow> x \<in> ?S"
    using repair_scan_total[OF pre, of "List.product [0..n - 1] [0..safe - 1]" None ?S nfwd] by auto
  have "\<exists>bm. arr_get ctxs i = Some (ctxs ! nat i) \<and> ROZOFS_BITMAP64_SET b (crc_err_bitmap (ctxs ! nat i)) = Some bm \<and> i < int (length ctxs) \<and> 0 \<le> i"
    if "(b, i) \<in> ?S" for b i
  proof -
    have bi: "0 \<le> b" "b < n" "0 \<le> i" "i < int (length ctxs)" using that assms(3) by auto
    then have "ctxs ! nat i \<in> set ctxs" by simp
    then have "n \<le> 64 * int (length (crc_err_bitmap (ctxs ! nat i)))" using assms(1) by (simp add: message_room_def)
    then have "b < 64 * int (length (crc_err_bitmap (ctxs ! nat i)))" using bi by linarith
    then have "\<exists>bm. ROZOFS_BITMAP64_SET b (crc_err_bitmap (ctxs ! nat i)) = Some bm" using bm64.set_ok[OF bi(1)] by blast
    then show ?thesis using bi by (simp add: arr_get_in)
  qed
  then show ?thesis using r rec[of "[0..safe - 1]" 0]
    by (fastforce simp: rozofs_storcli_check_block_2_repair_def arr_set_in split: option.splits)
qed


lemma message_room_same: "same_data a b \<Longrightarrow> message_room cells n a \<Longrightarrow> m \<le> n \<Longrightarrow> 0 < cells \<Longrightarrow> message_room cells m b"
proof -
  assume a: "same_data a b" "message_room cells n a" "m \<le> n" "0 < cells"
  have "cells * m \<le> cells * n" using a(3,4) by simp
  then show ?thesis
    using a(1-3) order_trans[OF \<open>cells * m \<le> cells * n\<close>] order_trans[OF a(3)]
    by (simp add: same_data_def message_room_def all_set_conv_all_nth del: mult_le_cancel_left_pos)
qed

lemma invers_forward_safe_small:
  "0 \<le> layout \<Longrightarrow> layout < 3 \<Longrightarrow> rozofs_get_rozofs_invers_forward_safe layout
     = Some (rozofs_get_rozofs_inverse layout, rozofs_get_rozofs_forward layout, rozofs_get_rozofs_safe layout, 0)"
  by (simp add: rozofs_get_rozofs_invers_forward_safe_def rozofs_get_rozofs_inverse_def rozofs_get_rozofs_forward_def rozofs_get_rozofs_safe_def
      layout_field_def arr_get_in rozofs_conf_layout_table_eq)

lemma read_message:
  assumes lb: "0 \<le> layout" "layout < 3" "bsize = 0 \<or> bsize = 1"
    and chk: "\<And>b. 0 \<le> b \<Longrightarrow> b < n \<Longrightarrow> checked_ctxs layout bsize written b ctxs"
    and safe: "rozofs_get_rozofs_safe layout \<le> int (length ctxs)" and room: "message_room (msg_cells layout bsize) n ctxs"
    and blks: "0 \<le> n" "n \<le> int (length blks)" "\<And>b. 0 \<le> b \<Longrightarrow> b < n \<Longrightarrow> blk_state (blks ! nat b) = ROZOFS_BLK_TRANSFORM_REQ"
    and run: "rozofs_storcli_transform_inverse_check_for_thread layout bsize n (blks, tbl, corr, ctxs) = Some ((0, m), blks', tbl', corr', ctxs')"
    and buf: "0 \<le> first" "(ROZOFS_BSIZE_BYTES bsize div 16) * (first + n) \<le> int (length data)" "\<And>b. length (snd (stack b)) = 1152"
  defines "cells \<equiv> ROZOFS_BSIZE_BYTES bsize div 16"
  shows "0 \<le> m \<and> m \<le> n \<and> (\<exists>ctxs'' blks'' data'.
      rozofs_storcli_transform_inverse ctxs' layout bsize first m blks' data tbl' stack = Some (m, ctxs'', blks'', data')
      \<and> length data' = length data
      \<and> (\<forall>b. 0 \<le> b \<and> b < m \<longrightarrow> verdict layout bsize ctxs b (tbl' b) (blk_timestamp (blks' ! nat b)) (blk_effective_length (blks' ! nat b))
           \<and> arr_slice data' (cells * (first + b)) cells
             = Some (block_content bsize written b (blk_timestamp (blks' ! nat b)) (blk_effective_length (blks' ! nat b))))
      \<and> (\<forall>j. 0 \<le> j \<and> cells * (j + 1) \<le> int (length data) \<and> (j < first \<or> first + m \<le> j) \<longrightarrow>
           arr_slice data' (cells * j) cells = arr_slice data (cells * j) cells))"
proof -
  have cells0: "0 < cells" using bbytes_small[OF lb(3)] by (simp add: cells_def)
  have mc: "0 < msg_cells layout bsize" using psizes_in_msg(2,3)[OF lb(1,2), of bsize 0] lb(3) by auto
  obtain r where r: "check_blocks layout bsize [0..n - 1] (blks, tbl, corr, ctxs) = Some (r, blks', tbl', corr', ctxs')"
      "(case r of Some x \<Rightarrow> x | None \<Rightarrow> (0, n)) = (0, m)"
    using run by (auto simp: rozofs_storcli_transform_inverse_check_for_thread_def split: bind_splits)
  note snd = check_blocks_sound[OF r(1) lb(1,2) distinct_upto _ safe, of written]
  from snd chk blks have snd: "same_data ctxs ctxs'" "length blks' = length blks"
    "\<exists>ok rest. [0..n - 1] = ok @ rest \<and> (\<forall>b\<in>set ok. block_ready layout bsize ctxs blks' tbl' b)
          \<and> (r = None \<longrightarrow> rest = []) \<and> (\<forall>m. r = Some (0, m) \<longrightarrow> (\<exists>rest'. rest = m # rest'))" by auto
  then obtain ok rest where ok: "[0..n - 1] = ok @ rest" "\<And>b. b \<in> set ok \<Longrightarrow> block_ready layout bsize ctxs blks' tbl' b"
    "r = None \<longrightarrow> rest = []" "\<forall>m. r = Some (0, m) \<longrightarrow> (\<exists>rest'. rest = m # rest')" by blast
  have m: "0 \<le> m \<and> m \<le> n \<and> ok = [0..m - 1]"
  proof (cases r)
    case None
    then show ?thesis using ok r(2) blks by simp
  next
    case (Some x)
    then obtain rest' where rest: "[0..n - 1] = ok @ m # rest'" using ok r(2) by auto
    have lk: "length ok < nat n" using arg_cong[OF rest, of length] by simp
    have "[0..n - 1] ! length ok = m" using rest by simp
    then have ml: "m = int (length ok)" using lk by simp
    have "ok = take (length ok) [0..n - 1]" using rest by simp
    also have "[0..n - 1] = [0..m - 1] @ [m..n - 1]" using upto_split1[of 0 m "n - 1"] ml lk by simp
    finally show ?thesis using ml lk by simp
  qed
  have ready: "block_ready layout bsize ctxs blks' tbl' b" if "0 \<le> b" "b < m" for b using ok(2)[of b] m that by simp
  have same: "same_data ctxs ctxs'" by (rule snd)
  have ready': "block_ready layout bsize ctxs' blks' tbl' b \<and> checked_ctxs layout bsize written b ctxs' \<and> cells * (first + b + 1) \<le> int (length data)"
    if "b \<in> set [0..m - 1]" for b
  proof -
    have "same_data ctxs' ctxs" "length ctxs' = length ctxs" using same by (auto simp: same_data_def)
    then have "block_ready layout bsize ctxs' blks' tbl' b"
      using ready[of b] that same_data_verdict[of ctxs' ctxs] safe by (auto simp: block_ready_def Let_def)
    moreover have "cells * (first + b + 1) \<le> cells * (first + n)" using that m cells0 by (intro mult_left_mono) auto
    ultimately show ?thesis using same_data_checked[OF same chk[of b]] that m buf(2) by (auto simp: cells_def)
  qed
  have safe': "rozofs_get_rozofs_safe layout \<le> int (length ctxs')" using same safe by (simp add: same_data_def)
  obtain blks'' data' where dec: "inverse_blocks (inverse_block ctxs' layout bsize first stack tbl') [0..m - 1] (blks', data) = Some (None, blks'', data')"
    "length blks'' = length blks'" "length data' = length data"
    "\<forall>b\<in>set [0..m - 1]. arr_slice data' (cells * (first + b)) cells
          = Some (block_content bsize written b (blk_timestamp (blks' ! nat b)) (blk_effective_length (blks' ! nat b)))"
    "\<forall>j. 0 \<le> j \<and> cells * (j + 1) \<le> int (length data) \<and> j - first \<notin> set [0..m - 1] \<longrightarrow> arr_slice data' (cells * j) cells = arr_slice data (cells * j) cells"
    using inverse_blocks_read[where stack = stack, OF lb distinct_upto ready'[unfolded cells_def] safe' buf(3,1), folded cells_def] by blast
  have "message_room (msg_cells layout bsize) m ctxs'" using message_room_same[OF same room _ mc] m by simp
  then obtain ctxs'' where "rozofs_storcli_check_block_2_repair ctxs' (rozofs_get_rozofs_inverse layout) (rozofs_get_rozofs_forward layout)
      (rozofs_get_rozofs_safe layout) (msg_cells layout bsize) m blks'' = Some ctxs''"
    using repair_total[OF _ _ safe' mc] m dec(2) snd(2) blks(2) by (metis order_trans not_None_eq)
  then have "rozofs_storcli_transform_inverse ctxs' layout bsize first m blks' data tbl' stack = Some (m, ctxs'', blks'', data')"
    using dec(1) invers_forward_safe_small[OF lb(1,2)] by (simp add: rozofs_storcli_transform_inverse_def)
  moreover have "verdict layout bsize ctxs b (tbl' b) (blk_timestamp (blks' ! nat b)) (blk_effective_length (blks' ! nat b))" if "0 \<le> b" "b < m" for b
    using ready[OF that] by (simp add: block_ready_def Let_def)
  ultimately show ?thesis using m dec(3-5) by (intro conjI exI[of _ ctxs''] exI[of _ blks''] exI[of _ data']) auto
qed

end
