(* ===== verification/Storcli_Roundtrip.thy ===== *)
theory Storcli_Roundtrip
  imports Storcli_Read
begin

text \<open>
  Correctness of the write path of the storage client, and of a write followed by a read.
\<close>

section \<open>Writing the blocks of a message\<close>

text \<open>Message \<open>payload\<close> stores at position \<open>b\<close> the projection \<open>q\<close> of block \<open>D\<close>, or the mark of an empty block.\<close>

definition stored_block :: "int \<Rightarrow> int \<Rightarrow> u128 list \<Rightarrow> int \<Rightarrow> int \<Rightarrow> u64 \<Rightarrow> u16 \<Rightarrow> u128 list \<Rightarrow> bool" where
  "stored_block layout bsize payload b q ts len D \<longleftrightarrow>
     (if rozofs_data_block_check_empty D then rcv_block_hdr layout bsize payload b = empty_hdr
      else rcv_block_hdr layout bsize payload b = \<lparr>timestamp = ts, effective_length = len, projection_id = word_of_int q, version = 0, filler = 0\<rparr>
        \<and> rcv_block_foot layout bsize payload b q = ts \<and> holds_projection layout bsize payload b q D)"

lemma stored_block_frame:
  assumes lb: "0 \<le> layout" "layout < 3" "0 \<le> bsize" "bsize \<le> 3" and q: "0 \<le> q" "0 \<le> b"
    and len: "length p' = length p" "msg_cells layout bsize * (b + 1) \<le> int (length p)"
    and eq: "\<And>i. int i < msg_cells layout bsize * (b + 1) \<Longrightarrow> p' ! i = p ! i"
    and st: "stored_block layout bsize p b q ts len D"
  shows "stored_block layout bsize p' b q ts len D"
proof -
  define m where "m = msg_cells layout bsize"
  note ps = psizes_in_msg[OF lb q(1), folded m_def]
  have mb: "0 \<le> m * b" "m * (b + 1) = m * b + m" "0 < m" using ps(2,3) q by (auto simp: algebra_simps)
  have "rcv_block_hdr layout bsize p' b = rcv_block_hdr layout bsize p b"
    using eq[of "nat (m * b)"] mb by (simp add: rcv_block_hdr_def m_def)
  moreover have "rcv_block_foot layout bsize p' b q = rcv_block_foot layout bsize p b q"
    using eq[of "nat (m * b + 1 + rozofs_get_128bits_psizes layout bsize q)"] mb ps by (simp add: rcv_block_foot_def m_def)
  moreover have "p' ! (nat (m * b + 1) + nat j) = p ! (nat (m * b + 1) + nat j)" if "0 \<le> j" "j < rozofs_get_128bits_psizes layout bsize q" for j
    using eq[of "nat (m * b + 1) + nat j"] mb ps that by (simp add: m_def)
  ultimately show ?thesis using st len mb
    by (auto simp: stored_block_def holds_projection_def is_projection128_def layout_projection_def m_def split: if_splits)
qed

lemma write_headers_spec:
  assumes "F \<le> int (length ctxs)" "0 \<le> base" "\<And>q. 0 \<le> q \<Longrightarrow> q < F \<Longrightarrow> base < int (length (prj_bins (ctxs ! nat q)))"
  shows "\<exists>ctxs'. write_headers F h base ctxs = Some ctxs' \<and> length ctxs' = length ctxs \<and> (\<forall>q. 0 \<le> q \<and> q < int (length ctxs) \<longrightarrow> ctxs' ! nat q =
     (if q < F then (ctxs ! nat q)\<lparr>prj_bins := (prj_bins (ctxs ! nat q))[nat base := hdr_store (h q)]\<rparr> else ctxs ! nat q))"
proof -
  let ?g = "\<lambda>q c. do { p \<leftarrow> arr_set (prj_bins c) base (hdr_store (h q)); Some (c\<lparr>prj_bins := p\<rparr>) }"
  have "?g q (ctxs ! nat q) = Some ((ctxs ! nat q)\<lparr>prj_bins := (prj_bins (ctxs ! nat q))[nat base := hdr_store (h q)]\<rparr>)" if "0 \<le> q" "q < F" for q
    using assms(2) assms(3)[OF that] by (simp add: arr_set_in)
  from foldM_arr_update[of F ctxs ?g, OF assms(1) this] show ?thesis by (simp add: write_headers_def)
qed

lemma write_bins_spec:
  assumes "rozofs_get_rozofs_forward layout \<le> int (length ctxs)" "0 \<le> base"
    and sz: "\<And>q. 0 \<le> q \<Longrightarrow> q < rozofs_get_rozofs_forward layout \<Longrightarrow> q < int (length prjs)
      \<and> length (bins (prjs ! nat q)) = length (prj_bins (ctxs ! nat q)) - nat (base + 1) \<and> 0 \<le> rozofs_get_psizes layout bsize q
      \<and> base + 1 + rozofs_get_psizes layout bsize q div 2 < int (length (prj_bins (ctxs ! nat q)))"
  shows "\<exists>ctxs'. write_bins layout bsize ts base prjs ctxs = Some ctxs' \<and> length ctxs' = length ctxs \<and> (\<forall>q. 0 \<le> q \<and> q < int (length ctxs) \<longrightarrow>
     (if q < rozofs_get_rozofs_forward layout
      then let p = take (nat (base + 1)) (prj_bins (ctxs ! nat q)) @ bins (prjs ! nat q); f = nat (base + 1 + rozofs_get_psizes layout bsize q div 2) in
        ctxs' ! nat q = (ctxs ! nat q)\<lparr>prj_bins := p[f := foot_store ts (p ! f)]\<rparr>
      else ctxs' ! nat q = ctxs ! nat q))"
proof -
  let ?g = "\<lambda>q c. do { pr \<leftarrow> arr_get prjs q; p \<leftarrow> arr_paste (prj_bins c) (base + 1) (bins pr);
       let f = base + 1 + rozofs_get_psizes layout bsize q div 2; x \<leftarrow> arr_get p f; p \<leftarrow> arr_set p f (foot_store ts x);
       Some (c\<lparr>prj_bins := p\<rparr>) }"
  let ?p = "\<lambda>q. take (nat (base + 1)) (prj_bins (ctxs ! nat q)) @ bins (prjs ! nat q)"
  let ?f = "\<lambda>q. nat (base + 1 + rozofs_get_psizes layout bsize q div 2)"
  let ?h = "\<lambda>q. (ctxs ! nat q)\<lparr>prj_bins := (?p q)[?f q := foot_store ts (?p q ! ?f q)]\<rparr>"
  have "?g q (ctxs ! nat q) = Some (?h q)" if "0 \<le> q" "q < rozofs_get_rozofs_forward layout" for q
  proof -
    note s = sz[OF that]
    have "arr_paste (prj_bins (ctxs ! nat q)) (base + 1) (bins (prjs ! nat q)) = Some (?p q)"
      using s assms(2) by (auto simp: arr_paste_def)
    moreover have "base + 1 + rozofs_get_psizes layout bsize q div 2 < int (length (?p q))" using s assms(2) by (auto simp: min_def of_nat_diff)
    ultimately show ?thesis using s that(1) assms(2) by (simp add: arr_get_in arr_set_in Let_def)
  qed
  then obtain ys where "write_bins layout bsize ts base prjs ctxs = Some ys" "length ys = length ctxs"
    "\<And>q. 0 \<le> q \<Longrightarrow> q < int (length ctxs) \<Longrightarrow> ys ! nat q = (if q < rozofs_get_rozofs_forward layout then ?h q else ctxs ! nat q)"
    using foldM_arr_update[of "rozofs_get_rozofs_forward layout" ctxs ?g ?h, OF assms(1)] unfolding write_bins_def by blast
  then show ?thesis by (intro exI[of _ ys]) (simp add: Let_def)
qed


text \<open>What encoding one block does to the context of projection \<open>q\<close>.\<close>

definition block_written ::
  "int \<Rightarrow> int \<Rightarrow> int \<Rightarrow> u64 \<Rightarrow> u16 \<Rightarrow> u128 list \<Rightarrow> int \<Rightarrow> rozofs_storcli_projection_ctx_t \<Rightarrow> rozofs_storcli_projection_ctx_t \<Rightarrow> bool"
where
  "block_written layout bsize b ts len D q c c' \<longleftrightarrow> c' = c\<lparr>prj_bins := prj_bins c'\<rparr> \<and> length (prj_bins c') = length (prj_bins c)
     \<and> (\<forall>j. int j < msg_cells layout bsize * b \<longrightarrow> prj_bins c' ! j = prj_bins c ! j)
     \<and> (if q < rozofs_get_rozofs_forward layout then stored_block layout bsize (prj_bins c') b q ts len D else c' = c)"

lemma forward_block_empty:
  assumes lb: "0 \<le> layout" "layout < 3" "bsize = 0 \<or> bsize = 1" and pos: "0 \<le> first" "0 \<le> i"
    and blk: "arr_slice data (i * (ROZOFS_BSIZE_BYTES bsize div 16)) (ROZOFS_BSIZE_BYTES bsize div 16) = Some blk"
      "rozofs_data_block_check_empty blk"
    and ctxs: "rozofs_get_rozofs_forward layout \<le> int (length ctxs)"
      "\<And>q. 0 \<le> q \<Longrightarrow> q < rozofs_get_rozofs_forward layout \<Longrightarrow> msg_cells layout bsize * (first + i + 1) \<le> int (length (prj_bins (ctxs ! nat q)))"
  shows "\<exists>ctxs'. forward_block layout bsize first n ts lbs data i ctxs = Some ctxs' \<and> length ctxs' = length ctxs
     \<and> (\<forall>q. 0 \<le> q \<and> q < int (length ctxs) \<longrightarrow> block_written layout bsize (first + i) ts len blk q (ctxs ! nat q) (ctxs' ! nat q))"
proof -
  define m where "m = msg_cells layout bsize"
  have m: "0 < m" using psizes_in_msg(2,3)[OF lb(1,2), of bsize 0] lb(3) by (auto simp: m_def)
  define base where "base = m * (first + i)"
  have b0: "0 \<le> base" using m pos by (simp add: base_def)
  have b1: "base < int (length (prj_bins (ctxs ! nat q)))" if "0 \<le> q" "q < rozofs_get_rozofs_forward layout" for q
    using ctxs(2)[of q] that m by (simp add: base_def m_def algebra_simps)
  obtain c1 where c1: "write_headers (rozofs_get_rozofs_forward layout) (\<lambda>q. empty_hdr) base ctxs = Some c1" "length c1 = length ctxs"
      "\<And>q. 0 \<le> q \<Longrightarrow> q < int (length ctxs) \<Longrightarrow> c1 ! nat q = (if q < rozofs_get_rozofs_forward layout
        then (ctxs ! nat q)\<lparr>prj_bins := (prj_bins (ctxs ! nat q))[nat base := hdr_store empty_hdr]\<rparr> else ctxs ! nat q)"
    using write_headers_spec[OF ctxs(1) b0 b1, of "\<lambda>q. empty_hdr"] by blast
  have "forward_block layout bsize first n ts lbs data i ctxs = Some c1"
    using c1(1) blk by (simp add: forward_block_def Let_def base_def m_def)
  moreover have "block_written layout bsize (first + i) ts len blk q (ctxs ! nat q) (c1 ! nat q)" if "0 \<le> q" "q < int (length ctxs)" for q
    using c1(3)[OF that] b0 b1[of q] that blk(2)
    by (auto simp: block_written_def stored_block_def rcv_block_hdr_def simp flip: m_def base_def)
  ultimately show ?thesis using c1(2) by blast
qed

lemma forward_block_data:
  assumes lb: "0 \<le> layout" "layout < 3" "bsize = 0 \<or> bsize = 1" and pos: "0 \<le> first" "0 \<le> i"
    and blk: "arr_slice data (i * (ROZOFS_BSIZE_BYTES bsize div 16)) (ROZOFS_BSIZE_BYTES bsize div 16) = Some blk"
      "\<not> rozofs_data_block_check_empty blk"
    and ctxs: "rozofs_get_rozofs_forward layout \<le> int (length ctxs)"
      "\<And>q. 0 \<le> q \<Longrightarrow> q < rozofs_get_rozofs_forward layout \<Longrightarrow> msg_cells layout bsize * (first + i + 1) \<le> int (length (prj_bins (ctxs ! nat q)))"
    and len: "len = (if i = n - 1 then lbs else word_of_int (ROZOFS_BSIZE_BYTES bsize))"
  shows "\<exists>ctxs'. forward_block layout bsize first n ts lbs data i ctxs = Some ctxs' \<and> length ctxs' = length ctxs
     \<and> (\<forall>q. 0 \<le> q \<and> q < int (length ctxs) \<longrightarrow> block_written layout bsize (first + i) ts len blk q (ctxs ! nat q) (ctxs' ! nat q))"
proof -
  define m F R C where "m = msg_cells layout bsize" and "F = rozofs_get_rozofs_forward layout" and "R = rozofs_get_rozofs_inverse layout"
    and "C = block_cols layout bsize"
  define base where "base = m * (first + i)"
  define z where "z = rozofs_get_128bits_psizes layout bsize"
  note ctxs = ctxs[folded F_def m_def]
  note f = layout_facts[OF lb, folded R_def F_def C_def z_def]
  have bs: "0 \<le> bsize" "bsize \<le> 3" using lb(3) by auto
  note ps = psizes_in_msg[OF lb(1,2) bs, folded m_def z_def]
  have m: "0 < m" using ps(2,3)[of 0] by auto
  have b0: "0 \<le> base" using m pos by (simp add: base_def)
  have room: "base + m \<le> int (length (prj_bins (ctxs ! nat q)))" if "0 \<le> q" "q < F" for q
    using ctxs(2)[OF that] by (simp add: base_def algebra_simps)
  then have b1: "base < int (length (prj_bins (ctxs ! nat q)))" if "0 \<le> q" "q < F" for q using that m by fastforce
  define h where "h q = \<lparr>timestamp = ts, effective_length = len, projection_id = word_of_int q, version = 0, filler = 0\<rparr>" for q
  obtain c1 where c1: "write_headers F h base ctxs = Some c1" "length c1 = length ctxs"
      "\<And>q. 0 \<le> q \<Longrightarrow> q < int (length ctxs) \<Longrightarrow> c1 ! nat q = (if q < F
        then (ctxs ! nat q)\<lparr>prj_bins := (prj_bins (ctxs ! nat q))[nat base := hdr_store (h q)]\<rparr> else ctxs ! nat q)"
    using write_headers_spec[OF ctxs(1) b0 b1, of h] by blast
  have len1: "length (prj_bins (c1 ! nat q)) = length (prj_bins (ctxs ! nat q))" if "0 \<le> q" "q < int (length ctxs)" for q
    using c1(3)[OF that] by simp
  define prjs where "prjs = map (\<lambda>(q, c). layout_projection layout bsize (int q) (drop (nat (base + 1)) (prj_bins c))) (enumerate 0 (take (nat F) c1))"
  have lp: "int (length prjs) = F" "length prjs = nat F" using f(1,10) ctxs(1) c1(2) layout_small[OF lb(1,2)] by (auto simp: prjs_def F_def)
  have np: "prjs ! k = layout_projection layout bsize (int k) (drop (nat (base + 1)) (prj_bins (c1 ! k)))" if "k < nat F" for k
    using that lp by (simp add: prjs_def nth_enumerate_eq)
  have "psize pr \<le> int (length (bins pr))" if prin: "pr \<in> set prjs" for pr
  proof -
    obtain k where k: "k < nat F" "pr = prjs ! k" using prin lp(2) by (auto simp: in_set_conv_nth)
    have kF: "int k < F" "int k < int (length ctxs)" using k(1) ctxs(1) by auto
    have "z (int k) + 1 < m" "base + m \<le> int (length (prj_bins (ctxs ! k)))" "length (prj_bins (c1 ! k)) = length (prj_bins (ctxs ! k))"
      using ps(3)[of "int k"] room[of "int k"] len1[of "int k"] kF by simp_all
    then have "z (int k) \<le> int (length (prj_bins (c1 ! k)) - nat (base + 1))" using b0 by simp
    then show ?thesis using np[OF k(1)] k(2) by (simp add: layout_projection_def z_def)
  qed
  moreover have supp: "int (length blk) = R * C" using arr_slice_length[OF blk(1)] f(4) by simp
  ultimately obtain prjs' where fw: "transform128_forward blk R (2 * C) (int (length prjs)) prjs = Some prjs'" "length prjs' = length prjs"
    and ok: "\<And>k. k < length prjs \<Longrightarrow> angle (prjs' ! k) = angle (prjs ! k) \<and> psize (prjs' ! k) = psize (prjs ! k)
        \<and> length (bins (prjs' ! k)) = length (bins (prjs ! k)) \<and> is_projection128 blk R C (prjs' ! k)"
    using transform128_forward_projects[of C R blk prjs] f(1,3,10) lp by auto
  have pr: "length (bins (prjs' ! nat q)) = length (prj_bins (c1 ! nat q)) - nat (base + 1)
     \<and> is_projection128 blk R C (layout_projection layout bsize q (bins (prjs' ! nat q)))" if "0 \<le> q" "q < F" for q
  proof -
    have "layout_projection layout bsize q (bins (prjs' ! nat q)) = prjs' ! nat q"
      using ok[of "nat q"] np[of "nat q"] that lp by (auto simp: layout_projection_def)
    moreover have "length (bins (prjs' ! nat q)) = length (prj_bins (c1 ! nat q)) - nat (base + 1)" "is_projection128 blk R C (prjs' ! nat q)"
      using ok[of "nat q"] np[of "nat q"] that lp by (simp_all add: layout_projection_def)
    ultimately show ?thesis by simp
  qed
  have "\<exists>c2. write_bins layout bsize ts base prjs' c1 = Some c2 \<and> length c2 = length c1 \<and> (\<forall>q. 0 \<le> q \<and> q < int (length c1) \<longrightarrow>
     (if q < F
      then let p = take (nat (base + 1)) (prj_bins (c1 ! nat q)) @ bins (prjs' ! nat q); f = nat (base + 1 + rozofs_get_psizes layout bsize q div 2) in
        c2 ! nat q = (c1 ! nat q)\<lparr>prj_bins := p[f := foot_store ts (p ! f)]\<rparr>
      else c2 ! nat q = c1 ! nat q))"
    unfolding F_def
  proof (rule write_bins_spec)
    fix q assume "0 \<le> q" "q < rozofs_get_rozofs_forward layout"
    then show "q < int (length prjs') \<and> length (bins (prjs' ! nat q)) = length (prj_bins (c1 ! nat q)) - nat (base + 1)
      \<and> 0 \<le> rozofs_get_psizes layout bsize q \<and> base + 1 + rozofs_get_psizes layout bsize q div 2 < int (length (prj_bins (c1 ! nat q)))"
      using pr[of q] fw(2) lp ps(1-3)[of q] len1[of q] room[of q] ctxs(1) by (auto simp: F_def)
  qed (use ctxs(1) c1(2) b0 in \<open>simp_all add: F_def\<close>)
  then obtain c2 where c2: "write_bins layout bsize ts base prjs' c1 = Some c2" "length c2 = length c1"
    "\<And>q. 0 \<le> q \<Longrightarrow> q < int (length c1) \<Longrightarrow> (if q < F
      then let p = take (nat (base + 1)) (prj_bins (c1 ! nat q)) @ bins (prjs' ! nat q); f = nat (base + 1 + rozofs_get_psizes layout bsize q div 2) in
        c2 ! nat q = (c1 ! nat q)\<lparr>prj_bins := p[f := foot_store ts (p ! f)]\<rparr>
      else c2 ! nat q = c1 ! nat q)" by blast
  have run: "forward_block layout bsize first n ts lbs data i ctxs = Some c2"
    using c1(1) c2(1) fw(1) blk lp f(5)
    by (simp add: forward_block_def Let_def base_def m_def F_def R_def prjs_def h_def[abs_def] len)
  have "block_written layout bsize (first + i) ts len blk q (ctxs ! nat q) (c2 ! nat q)" if q: "0 \<le> q" "q < int (length ctxs)" for q
  proof (cases "q < F")
    case True
    define p where "p = take (nat (base + 1)) (prj_bins (c1 ! nat q)) @ bins (prjs' ! nat q)"
    define g where "g = nat (base + 1 + z q)"
    have c2q: "c2 ! nat q = (c1 ! nat q)\<lparr>prj_bins := p[g := foot_store ts (p ! g)]\<rparr>"
      using c2(3)[of q] c1(2) q True ps(1)[of q] by (simp add: p_def g_def Let_def)
    have c1q: "c1 ! nat q = (ctxs ! nat q)\<lparr>prj_bins := (prj_bins (ctxs ! nat q))[nat base := hdr_store (h q)]\<rparr>"
      using c1(3) q True by simp
    have rm: "base + 1 + z q < int (length (prj_bins (ctxs ! nat q)))" "0 \<le> z q" using room[of q] ps(2,3)[of q] q True by auto
    have lenp: "length p = length (prj_bins (ctxs ! nat q))" using pr[of q] q True rm b0 len1[of q] by (auto simp: p_def)
    have g: "g < length p" "nat base < g" using lenp rm b0 by (auto simp: g_def)
    have low: "p ! j = prj_bins (c1 ! nat q) ! j" if "int j \<le> base" for j
    proof -
      have "j < nat (base + 1)" using that by linarith
      then show ?thesis using rm len1[OF q] by (simp add: p_def nth_append)
    qed
    have dr: "drop (nat (base + 1)) p = bins (prjs' ! nat q)" using rm b0 len1[OF q] by (simp add: p_def)
    let ?p' = "p[g := foot_store ts (p ! g)]"
    have hd: "rcv_block_hdr layout bsize ?p' (first + i) = h q"
      using low[of "nat base"] g b0 c1q lenp by (simp add: rcv_block_hdr_def nth_list_update flip: m_def base_def)
    have ft: "rcv_block_foot layout bsize ?p' (first + i) q = ts"
      using g by (simp add: rcv_block_foot_def g_def flip: m_def base_def z_def)
    have "is_projection128 blk R C (layout_projection layout bsize q (drop (nat (base + 1)) ?p'))"
    proof -
      have "drop (nat (base + 1)) ?p' = (bins (prjs' ! nat q))[nat (z q) := foot_store ts (p ! g)]"
        using dr rm b0 by (simp add: drop_update_swap g_def nat_add_distrib)
      then show ?thesis using pr[of q] q True by (auto simp: is_projection128_def layout_projection_def z_def nth_list_update)
    qed
    then have hp: "holds_projection layout bsize ?p' (first + i) q blk"
      using arr_slice_length[OF blk(1)] by (simp add: holds_projection_def R_def C_def flip: m_def base_def)
    have "stored_block layout bsize ?p' (first + i) q ts len blk"
      using hd ft hp blk(2) by (simp add: stored_block_def h_def)
    moreover have "?p' ! j = prj_bins (ctxs ! nat q) ! j" if "int j < base" for j
      using low[of j] that g c1q b0 by (simp add: nth_list_update)
    ultimately show ?thesis using c2q c1q lenp True by (simp add: block_written_def F_def flip: m_def base_def)
  next
    case False
    then have "c2 ! nat q = ctxs ! nat q" using c2(3)[of q] c1(2,3) q by simp
    then show ?thesis using False by (simp add: block_written_def F_def)
  qed
  then show ?thesis using run c1(2) c2(2) by (intro exI[of _ c2]) simp
qed


lemma write_message:
  assumes lb: "0 \<le> layout" "layout < 3" "bsize = 0 \<or> bsize = 1" and pos: "0 \<le> first" "0 \<le> n"
    and data: "n * (ROZOFS_BSIZE_BYTES bsize div 16) \<le> int (length data)"
    and ctxs: "rozofs_get_rozofs_forward layout \<le> int (length ctxs)"
      "\<And>q. 0 \<le> q \<Longrightarrow> q < rozofs_get_rozofs_forward layout \<Longrightarrow> msg_cells layout bsize * (first + n) \<le> int (length (prj_bins (ctxs ! nat q)))"
  defines "cells \<equiv> ROZOFS_BSIZE_BYTES bsize div 16"
  shows "\<exists>ctxs'. rozofs_storcli_transform_forward ctxs layout bsize first n ts lbs data = Some ctxs' \<and> length ctxs' = length ctxs
     \<and> (\<forall>q. 0 \<le> q \<and> q < int (length ctxs) \<longrightarrow> ctxs' ! nat q = (ctxs ! nat q)\<lparr>prj_bins := prj_bins (ctxs' ! nat q)\<rparr>
         \<and> length (prj_bins (ctxs' ! nat q)) = length (prj_bins (ctxs ! nat q))
         \<and> (\<forall>j. int j < msg_cells layout bsize * first \<longrightarrow> prj_bins (ctxs' ! nat q) ! j = prj_bins (ctxs ! nat q) ! j)
         \<and> (if q < rozofs_get_rozofs_forward layout
            then \<forall>i. 0 \<le> i \<and> i < n \<longrightarrow> stored_block layout bsize (prj_bins (ctxs' ! nat q)) (first + i) q ts
              (if i = n - 1 then lbs else word_of_int (ROZOFS_BSIZE_BYTES bsize)) (take (nat cells) (drop (nat (i * cells)) data))
            else ctxs' ! nat q = ctxs ! nat q))"
proof -
  define F m where "F = rozofs_get_rozofs_forward layout" and "m = msg_cells layout bsize"
  have bs: "0 \<le> bsize" "bsize \<le> 3" using lb(3) by auto
  have m: "0 < m" using psizes_in_msg(2,3)[OF lb(1,2) bs, of 0] by (simp add: m_def)
  have c0: "0 < cells" using bbytes_small[OF lb(3)] by (simp add: cells_def)
  let ?blk = "\<lambda>i. take (nat cells) (drop (nat (i * cells)) data)"
  let ?len = "\<lambda>i. if i = n - 1 then lbs else word_of_int (ROZOFS_BSIZE_BYTES bsize)"
  define I where "I k cs \<longleftrightarrow> length cs = length ctxs \<and> (\<forall>q. 0 \<le> q \<and> q < int (length ctxs) \<longrightarrow>
      cs ! nat q = (ctxs ! nat q)\<lparr>prj_bins := prj_bins (cs ! nat q)\<rparr> \<and> length (prj_bins (cs ! nat q)) = length (prj_bins (ctxs ! nat q))
      \<and> (\<forall>j. int j < m * first \<longrightarrow> prj_bins (cs ! nat q) ! j = prj_bins (ctxs ! nat q) ! j)
      \<and> (if q < F then \<forall>i. 0 \<le> i \<and> i < k \<longrightarrow> stored_block layout bsize (prj_bins (cs ! nat q)) (first + i) q ts (?len i) (?blk i)
         else cs ! nat q = ctxs ! nat q))" for k cs
  have step: "\<exists>cs'. forward_block layout bsize first n ts lbs data k cs = Some cs' \<and> I (k + 1) cs'" if k: "0 \<le> k" "k < n" and inv: "I k cs" for k cs
  proof -
    have kb: "0 \<le> k * cells" "k * cells + cells \<le> n * cells" "m * (first + k + 1) \<le> m * (first + n)"
      using k c0 mult_right_mono[of "k + 1" n cells] mult_left_mono[of "first + k + 1" "first + n" m] m by (auto simp: algebra_simps)
    then have blk: "arr_slice data (k * cells) cells = Some (?blk k)" using data c0 by (simp add: arr_slice_def cells_def)
    have cs: "F \<le> int (length cs)" "length cs = length ctxs" "\<And>q. 0 \<le> q \<Longrightarrow> q < F \<Longrightarrow> m * (first + k + 1) \<le> int (length (prj_bins (cs ! nat q)))"
      using inv ctxs kb(3) order_trans by (auto simp: I_def F_def m_def)
    obtain cs' where cs': "forward_block layout bsize first n ts lbs data k cs = Some cs'" "length cs' = length cs"
      "\<And>q. 0 \<le> q \<Longrightarrow> q < int (length cs) \<Longrightarrow> block_written layout bsize (first + k) ts (?len k) (?blk k) q (cs ! nat q) (cs' ! nat q)"
      using forward_block_empty[OF lb pos(1) k(1) blk[unfolded cells_def] _ cs(1,3)[unfolded F_def m_def], of n ts lbs "?len k"]
        forward_block_data[OF lb pos(1) k(1) blk[unfolded cells_def] _ cs(1,3)[unfolded F_def m_def], of "?len k" n lbs ts]
      by (cases "rozofs_data_block_check_empty (?blk k)") (auto simp: cells_def)
    have "I (k + 1) cs'"
      unfolding I_def
    proof (intro conjI allI impI)
      show "length cs' = length ctxs" using cs' cs by simp
      fix q :: int assume q: "0 \<le> q \<and> q < int (length ctxs)"
      let ?p = "prj_bins (cs ! nat q)" and ?p' = "prj_bins (cs' ! nat q)"
      have w: "cs' ! nat q = (cs ! nat q)\<lparr>prj_bins := ?p'\<rparr>" "length ?p' = length ?p"
          "\<And>j. int j < m * (first + k) \<Longrightarrow> ?p' ! j = ?p ! j"
          "if q < F then stored_block layout bsize ?p' (first + k) q ts (?len k) (?blk k) else cs' ! nat q = cs ! nat q"
        using cs'(3)[of q] q cs by (auto simp: block_written_def m_def F_def)
      have v: "cs ! nat q = (ctxs ! nat q)\<lparr>prj_bins := ?p\<rparr>" "length ?p = length (prj_bins (ctxs ! nat q))"
          "\<And>j. int j < m * first \<Longrightarrow> ?p ! j = prj_bins (ctxs ! nat q) ! j"
          "if q < F then \<forall>i. 0 \<le> i \<and> i < k \<longrightarrow> stored_block layout bsize ?p (first + i) q ts (?len i) (?blk i) else cs ! nat q = ctxs ! nat q"
        using inv q by (auto simp: I_def)
      show "cs' ! nat q = (ctxs ! nat q)\<lparr>prj_bins := ?p'\<rparr>"
        by (subst w(1), subst v(1)) simp
      show "length ?p' = length (prj_bins (ctxs ! nat q))" using w v by simp
      show "?p' ! j = prj_bins (ctxs ! nat q) ! j" if "int j < m * first" for j
      proof -
        have "m * first \<le> m * (first + k)" using m k by simp
        then show ?thesis using w(3)[of j] v(3)[OF that] that by simp
      qed
      have old: "stored_block layout bsize ?p' (first + i) q ts (?len i) (?blk i)" if i: "0 \<le> i" "i < k" and qF: "q < F" for i
      proof (rule stored_block_frame[OF lb(1,2) bs])
        have le: "m * (first + i + 1) \<le> m * (first + k)" using m i by simp
        also have "\<dots> \<le> m * (first + k + 1)" using m by simp
        finally show "msg_cells layout bsize * (first + i + 1) \<le> int (length ?p)" using cs(3)[of q] q qF by (simp add: m_def)
        show "?p' ! j = ?p ! j" if "int j < msg_cells layout bsize * (first + i + 1)" for j
          using w(3)[of j] that le by (simp add: m_def)
        show "stored_block layout bsize ?p (first + i) q ts (?len i) (?blk i)" using v(4) i qF by simp
      qed (use q pos i w in auto)
      show "if q < F then \<forall>i. 0 \<le> i \<and> i < k + 1 \<longrightarrow> stored_block layout bsize ?p' (first + i) q ts (?len i) (?blk i) else cs' ! nat q = ctxs ! nat q"
      proof (cases "q < F")
        case True
        have "stored_block layout bsize ?p' (first + i) q ts (?len i) (?blk i)" if "0 \<le> i" "i < k + 1" for i
          using old[of i] w(4) that True by (cases "i = k") auto
        then show ?thesis using True by simp
      next
        case False
        then show ?thesis using w(4) v(4) by simp
      qed
    qed
    then show ?thesis using cs'(1) by blast
  qed
  have "\<exists>cs. foldM (forward_block layout bsize first n ts lbs data) [0..int k - 1] ctxs = Some cs \<and> I (int k) cs" if "int k \<le> n" for k
    using that
  proof (induction k)
    case 0
    then show ?case by (auto simp: I_def)
  next
    case (Suc k)
    then obtain cs where cs: "foldM (forward_block layout bsize first n ts lbs data) [0..int k - 1] ctxs = Some cs" "I (int k) cs" by auto
    obtain cs' where "forward_block layout bsize first n ts lbs data (int k) cs = Some cs'" "I (int k + 1) cs'"
      using step[of "int k" cs] cs(2) Suc.prems by auto
    moreover have "[0..int (Suc k) - 1] = [0..int k - 1] @ [int k]" using upto_snoc[of 0 "int k"] by simp
    ultimately show ?case using cs(1) by (simp add: foldM_append add.commute)
  qed
  from this[of "nat n"] pos(2) obtain cs where "rozofs_storcli_transform_forward ctxs layout bsize first n ts lbs data = Some cs" "I n cs"
    by (auto simp: rozofs_storcli_transform_forward_def)
  then show ?thesis unfolding I_def F_def m_def by blast
qed

text \<open>
  C29. What a write sends: \<^const>\<open>rozofs_storcli_transform_forward\<close> never leaves its buffers and puts, for each block and
  each projection of the layout, a header and a footer with the timestamp of the write around the bins of that
  projection, or the mark of an empty block when the block is all zeroes. The other contexts and the
  blocks before the first one are untouched.
\<close>

theorem forward_stores_projections:
  assumes "0 \<le> layout" "layout < 3" "bsize = 0 \<or> bsize = 1" "0 \<le> first" "0 \<le> n"
    and "n * (ROZOFS_BSIZE_BYTES bsize div 16) \<le> int (length data)" "rozofs_get_rozofs_forward layout \<le> int (length ctxs)"
    and "\<forall>q. 0 \<le> q \<and> q < rozofs_get_rozofs_forward layout \<longrightarrow> msg_cells layout bsize * (first + n) \<le> int (length (prj_bins (ctxs ! nat q)))"
  shows "\<exists>ctxs'. rozofs_storcli_transform_forward ctxs layout bsize first n ts lbs data = Some ctxs' \<and> length ctxs' = length ctxs
     \<and> (\<forall>q. 0 \<le> q \<and> q < int (length ctxs) \<longrightarrow> ctxs' ! nat q = (ctxs ! nat q)\<lparr>prj_bins := prj_bins (ctxs' ! nat q)\<rparr>
         \<and> length (prj_bins (ctxs' ! nat q)) = length (prj_bins (ctxs ! nat q))
         \<and> (\<forall>j. int j < msg_cells layout bsize * first \<longrightarrow> prj_bins (ctxs' ! nat q) ! j = prj_bins (ctxs ! nat q) ! j)
         \<and> (if q < rozofs_get_rozofs_forward layout
            then \<forall>i. 0 \<le> i \<and> i < n \<longrightarrow> stored_block layout bsize (prj_bins (ctxs' ! nat q)) (first + i) q ts
              (if i = n - 1 then lbs else word_of_int (ROZOFS_BSIZE_BYTES bsize))
              (take (nat (ROZOFS_BSIZE_BYTES bsize div 16)) (drop (nat (i * (ROZOFS_BSIZE_BYTES bsize div 16))) data))
            else ctxs' ! nat q = ctxs ! nat q))"
  using assms by (intro write_message) auto

section \<open>Write, then read\<close>

lemma check_blocks_all:
  assumes "distinct bs" "\<And>b. b \<in> set bs \<Longrightarrow> 0 \<le> b \<and> b < int (length blks) \<and> blk_state (blks ! nat b) = ROZOFS_BLK_TRANSFORM_REQ \<and> e b \<noteq> (0, 0)"
    and "\<And>b ctxs' corr. b \<in> set bs \<Longrightarrow> same_data ctxs ctxs' \<Longrightarrow>
      \<exists>r. rozofs_storcli_transform_inverse_check ctxs' layout bsize b corr = Some r \<and> 0 < ret r \<and> (res_timestamp r, res_length r) = e b"
  shows "\<exists>blks' tbl' corr' ctxs'. check_blocks layout bsize bs (blks, tbl, corr, ctxs) = Some (None, blks', tbl', corr', ctxs')
     \<and> (\<forall>b. 0 \<le> b \<longrightarrow> (if b \<in> set bs then (blk_timestamp (blks' ! nat b), blk_effective_length (blks' ! nat b)) = e b else blks' ! nat b = blks ! nat b))"
  using assms
proof (induction bs arbitrary: blks tbl corr ctxs)
  case (Cons b bs)
  have b: "0 \<le> b" "b < int (length blks)" "blk_state (blks ! nat b) = ROZOFS_BLK_TRANSFORM_REQ" "e b \<noteq> (0, 0)" using Cons.prems(2)[of b] by auto
  obtain r where r: "rozofs_storcli_transform_inverse_check ctxs layout bsize b corr = Some r" "0 < ret r" "(res_timestamp r, res_length r) = e b"
    using Cons.prems(3)[of b ctxs corr] same_data_refl by auto
  let ?blks = "blks[nat b := (blks ! nat b)\<lparr>blk_timestamp := res_timestamp r, blk_effective_length := res_length r\<rparr>]"
  have sd: "same_data ctxs (ctxs_after r)" using inverse_check_good[OF r(1,2)] only_marks_same_data by blast
  have other: "?blks ! nat x = blks ! nat x" if "0 \<le> x" "x \<noteq> b" for x using that b by (simp add: nth_list_update nat_eq_iff)
  have nb: "b \<notin> set bs" using Cons.prems(1) by simp
  have "\<exists>blks' tbl' corr' ctxs'. check_blocks layout bsize bs (?blks, tbl(b := chosen r), corrupted r, ctxs_after r) = Some (None, blks', tbl', corr', ctxs')
     \<and> (\<forall>b. 0 \<le> b \<longrightarrow> (if b \<in> set bs then (blk_timestamp (blks' ! nat b), blk_effective_length (blks' ! nat b)) = e b else blks' ! nat b = ?blks ! nat b))"
  proof (rule Cons.IH)
    show "distinct bs" using Cons.prems(1) by simp
    show "0 \<le> x \<and> x < int (length ?blks) \<and> blk_state (?blks ! nat x) = ROZOFS_BLK_TRANSFORM_REQ \<and> e x \<noteq> (0, 0)" if "x \<in> set bs" for x
      using Cons.prems(2)[of x] that nb other[of x] by (cases "x = b") auto
    show "\<exists>r. rozofs_storcli_transform_inverse_check ctxs' layout bsize x corr = Some r \<and> 0 < ret r \<and> (res_timestamp r, res_length r) = e x"
      if "x \<in> set bs" "same_data (ctxs_after r) ctxs'" for x ctxs' corr
      using Cons.prems(3)[of x ctxs' corr] that same_data_trans[OF sd] by simp
  qed
  then obtain blks' tbl' corr' ctxs' where ih: "check_blocks layout bsize bs (?blks, tbl(b := chosen r), corrupted r, ctxs_after r) = Some (None, blks', tbl', corr', ctxs')"
    "\<And>x. 0 \<le> x \<Longrightarrow> (if x \<in> set bs then (blk_timestamp (blks' ! nat x), blk_effective_length (blks' ! nat x)) = e x else blks' ! nat x = ?blks ! nat x)" by blast
  have "check_blocks layout bsize (b # bs) (blks, tbl, corr, ctxs) = Some (None, blks', tbl', corr', ctxs')"
    using b r ih(1) by (auto simp: arr_get_in arr_set_in Let_def)
  moreover have "if x \<in> set (b # bs) then (blk_timestamp (blks' ! nat x), blk_effective_length (blks' ! nat x)) = e x else blks' ! nat x = blks ! nat x" if "0 \<le> x" for x
    using ih(2)[OF that] other[OF that] nb b r(3) by (cases "x = b") (auto split: if_splits)
  ultimately show ?case by blast
qed simp

text \<open>
  Contexts of a read of the \<open>n\<close> blocks of a message: context \<open>i\<close>, if its storage answered, received the payload that
  the write made for projection \<open>pj i\<close>, and its headers went through validation.
\<close>

definition delivered ::
  "int \<Rightarrow> int \<Rightarrow> int \<Rightarrow> rozofs_storcli_projection_ctx_t list \<Rightarrow> (nat \<Rightarrow> nat) \<Rightarrow> rozofs_storcli_projection_ctx_t list \<Rightarrow> bool"
where
  "delivered layout bsize n sent pj ctxs \<longleftrightarrow> rozofs_get_rozofs_safe layout \<le> int (length ctxs)
     \<and> (\<forall>c\<in>set ctxs. n \<le> int (length (block_hdr_tab c)) \<and> n \<le> 64 * int (length (crc_err_bitmap c)))
     \<and> (\<forall>i < length ctxs. prj_state (ctxs ! i) = ROZOFS_PRJ_READ_DONE \<longrightarrow> int (pj i) < rozofs_get_rozofs_forward layout
          \<and> (\<exists>c rsize. prj_bins c = prj_bins (sent ! pj i) \<and> n \<le> int (length (block_hdr_tab c)) \<and> n \<le> int (length (rcv_hdr c))
               \<and> n \<le> 64 * int (length (crc_err_bitmap c)) \<and> rozofs_storcli_transform_update_headers c layout bsize n n rsize = Some (ctxs ! i)))"

definition answered :: "int \<Rightarrow> rozofs_storcli_projection_ctx_t list \<Rightarrow> nat set" where
  "answered layout ctxs = {i. int i < rozofs_get_rozofs_safe layout \<and> prj_state (ctxs ! i) = ROZOFS_PRJ_READ_DONE}"

lemma delivered_ctx:
  assumes lb: "0 \<le> layout" "layout < 3" "0 \<le> bsize" "bsize \<le> 3" and del: "delivered layout bsize n sent pj ctxs"
    and i: "i < length ctxs" "prj_state (ctxs ! i) = ROZOFS_PRJ_READ_DONE" and b: "0 \<le> b" "b < n"
    and sent: "\<And>q. int q < rozofs_get_rozofs_forward layout \<Longrightarrow> msg_cells layout bsize * n \<le> int (length (prj_bins (sent ! q)))"
  shows "prj_bins (ctxs ! i) = prj_bins (sent ! pj i)" "checked_hdr layout bsize (prj_bins (sent ! pj i)) b (block_hdr_tab (ctxs ! i) ! nat b)"
    "int (pj i) < rozofs_get_rozofs_forward layout"
proof -
  obtain c rsize where c: "prj_bins c = prj_bins (sent ! pj i)" "n \<le> int (length (block_hdr_tab c))" "n \<le> int (length (rcv_hdr c))"
     "n \<le> 64 * int (length (crc_err_bitmap c))" "rozofs_storcli_transform_update_headers c layout bsize n n rsize = Some (ctxs ! i)"
     and pj: "int (pj i) < rozofs_get_rozofs_forward layout"
    using del i unfolding delivered_def by blast
  show "int (pj i) < rozofs_get_rozofs_forward layout" by (rule pj)
  obtain c' where "rozofs_storcli_transform_update_headers c layout bsize n n rsize = Some c'"
     "\<forall>b. 0 \<le> b \<and> b < n \<longrightarrow> checked_hdr layout bsize (prj_bins c) b (block_hdr_tab c' ! nat b)" "prj_bins c' = prj_bins c"
    using update_headers_spec[OF lb _ order_refl c(2,3,4), of rsize] sent[OF pj] b c(1) by auto
  then show "prj_bins (ctxs ! i) = prj_bins (sent ! pj i)" "checked_hdr layout bsize (prj_bins (sent ! pj i)) b (block_hdr_tab (ctxs ! i) ! nat b)"
    using c(1,5) b by auto
qed


lemma kept_bins_positive:
  assumes "0 \<le> layout" "layout < 3" "bsize = 0 \<or> bsize = 1" "0 \<le> q" "q < rozofs_get_rozofs_forward layout"
  shows "rozofs_get_psizes layout bsize q \<noteq> 0"
proof -
  note f = layout_facts[OF assms(1-3)]
  have "0 < rozofs_get_128bits_psizes layout bsize q"
    using f(1,10) f(11)[OF assms(4,5)] extra_bins_nonneg[of "rozofs_get_rozofs_inverse layout" q "rozofs_get_rozofs_forward layout"] assms(4,5) by auto
  moreover have "0 \<le> bsize" "bsize \<le> 3" using assms(3) by auto
  ultimately show ?thesis using psizes_in_msg(1)[of layout bsize q] assms by simp
qed

lemma delivered_check:
  assumes lb3: "0 \<le> layout" "layout < 3" "bsize = 0 \<or> bsize = 1" and del: "delivered layout bsize n sent pj ctxs"
    and b: "0 \<le> b" "b < n"
    and sent: "\<And>q. int q < rozofs_get_rozofs_forward layout \<Longrightarrow> msg_cells layout bsize * n \<le> int (length (prj_bins (sent ! q)))"
      "\<And>q. int q < rozofs_get_rozofs_forward layout \<Longrightarrow> stored_block layout bsize (prj_bins (sent ! q)) b (int q) ts len D"
    and many: "rozofs_get_rozofs_inverse layout \<le> int (card (pj ` answered layout ctxs))" and ts: "ts \<noteq> 0"
    and same: "same_data ctxs ctxs'"
  shows "\<exists>r. rozofs_storcli_transform_inverse_check ctxs' layout bsize b corr = Some r \<and> 0 < ret r
     \<and> (res_timestamp r, res_length r) = (if rozofs_data_block_check_empty D then (0, word_of_int (ROZOFS_BSIZE_BYTES bsize)) else (ts, len))"
proof -
  have lb: "0 \<le> layout" "layout < 3" "0 \<le> bsize" "bsize \<le> 3" using lb3 by auto
  define R S F where "R = rozofs_get_rozofs_inverse layout" and "S = rozofs_get_rozofs_safe layout" and "F = rozofs_get_rozofs_forward layout"
  have R: "1 < R" "F \<le> 16" "0 \<le> S" using layout_small[OF lb(1,2)] by (auto simp: R_def F_def S_def)
  have S: "S \<le> int (length ctxs)" "length ctxs' = length ctxs" using del same by (auto simp: delivered_def S_def same_data_def)
  have ready: "ctxs_ready ctxs' S b"
    using S del same b by (fastforce simp: ctxs_ready_def delivered_def same_data_def all_set_conv_all_nth)
  have st: "ctx_state ctxs' i = prj_state (ctxs ! i)" "ctx_hdr ctxs' b i = block_hdr_tab (ctxs ! i) ! nat b" if "int i < S" for i
    using same S that by (auto simp: ctx_state_def ctx_hdr_def same_data_def)
  have fin: "finite (answered layout ctxs)" by (rule finite_subset[of _ "{..<nat S}"]) (auto simp: answered_def S_def)
  have mem: "i \<in> answered layout ctxs \<longleftrightarrow> int i < S \<and> ctx_state ctxs' i = ROZOFS_PRJ_READ_DONE" for i
    using st(1)[of i] by (auto simp: answered_def S_def)
  have hdr: "int (pj i) < F \<and> checked_hdr layout bsize (prj_bins (sent ! pj i)) b (ctx_hdr ctxs' b i)
     \<and> stored_block layout bsize (prj_bins (sent ! pj i)) b (int (pj i)) ts len D" if "i \<in> answered layout ctxs" for i
    using delivered_ctx[OF lb del _ _ b sent(1), of i] sent(2)[of "pj i"] that st[of i] mem[of i] S by (auto simp: F_def)
  show ?thesis
  proof (cases "rozofs_data_block_check_empty D")
    case True
    have "ctx_hdr ctxs' b i = hole_hdr (ROZOFS_BSIZE_BYTES bsize) (ctx_hdr ctxs' b i)" if "i \<in> answered layout ctxs" for i
      using hdr[OF that] True by (simp add: checked_hdr_def rcv_valid_def stored_block_def empty_hdr_def hole_hdr_def Let_def)
    then have rec: "\<forall>i. int i < S \<and> ctx_state ctxs' i = ROZOFS_PRJ_READ_DONE \<longrightarrow> (\<exists>old. ctx_hdr ctxs' b i = hole_hdr (ROZOFS_BSIZE_BYTES bsize) old)"
      using mem by blast
    have "card (pj ` answered layout ctxs) \<le> card (answered layout ctxs)" using fin by (rule card_image_le)
    moreover have "answered layout ctxs = set (filter (\<lambda>i. ctx_state ctxs' i = ROZOFS_PRJ_READ_DONE) [0..<nat S])"
      by (rule set_eqI) (auto simp: mem zless_nat_eq_int_zless)
    then have "card (answered layout ctxs) = length (filter (\<lambda>i. ctx_state ctxs' i = ROZOFS_PRJ_READ_DONE) [0..<nat S])"
      by (simp only: distinct_card[OF distinct_filter[OF distinct_upt]])
    ultimately have "R \<le> int (length (filter (\<lambda>i. ctx_state ctxs' i = ROZOFS_PRJ_READ_DONE) [0..<nat S]))" using many by (simp add: R_def)
    then show ?thesis using holes_check[OF lb ready[unfolded S_def] rec[unfolded S_def], of corr] True R by (auto simp: R_def S_def)
  next
    case False
    have h: "timestamp (ctx_hdr ctxs' b i) = ts \<and> effective_length (ctx_hdr ctxs' b i) = len
        \<and> projection_id (ctx_hdr ctxs' b i) = word_of_int (int (pj i)) \<and> uint (projection_id (ctx_hdr ctxs' b i)) = int (pj i) \<and> pj i < 16"
      if "i \<in> answered layout ctxs" for i
    proof -
      let ?p = "prj_bins (sent ! pj i)" let ?h = "rcv_block_hdr layout bsize ?p b"
      have q: "int (pj i) < F" "stored_block layout bsize ?p b (int (pj i)) ts len D" "checked_hdr layout bsize ?p b (ctx_hdr ctxs' b i)"
        using hdr[OF that] by auto
      have eq: "uint (word_of_int (int (pj i)) :: u8) = int (pj i)" using q(1) R(2) by (simp add: uint_word_of_int del: of_int_of_nat_eq)
      have "word_of_int (int (pj i)) \<noteq> (0xff :: u8)"
      proof
        assume "word_of_int (int (pj i)) = (0xff :: u8)"
        then have "int (pj i) = 255" using eq by simp
        then show False using q(1) R(2) by simp
      qed
      then have "rcv_valid layout bsize ?p b"
        using q(2) False ts kept_bins_positive[OF lb3, of "int (pj i)"] q(1) eq by (simp add: rcv_valid_def stored_block_def Let_def F_def)
      then show ?thesis using q False eq R(2) by (simp add: checked_hdr_def stored_block_def Let_def)
    qed
    have ids: "unat (projection_id (ctx_hdr ctxs' b i)) < 31 \<and> projection_id (ctx_hdr ctxs' b i) \<noteq> 0xff" if "i \<in> answered layout ctxs" for i
    proof -
      have u: "uint (projection_id (ctx_hdr ctxs' b i)) = int (pj i)" "pj i < 16" using h[OF that] by auto
      then have "projection_id (ctx_hdr ctxs' b i) \<noteq> 0xff" by fastforce
      moreover have "unat (projection_id (ctx_hdr ctxs' b i)) < 31" using u by (simp add: unat_eq_nat_uint)
      ultimately show ?thesis by simp
    qed
    then have pid: "prjids_ok ctxs' S b" using mem by (auto simp: prjids_ok_def)
    have hold: "holders ctxs' S b ts len = answered layout ctxs" using h ids mem by (auto simp: holders_def)
    have "(\<lambda>i. projection_id (ctx_hdr ctxs' b i)) ` answered layout ctxs = (\<lambda>k. word_of_int (int k) :: u8) ` pj ` answered layout ctxs"
      using h by (auto simp: image_iff)
    moreover have "inj_on (\<lambda>k. word_of_int (int k) :: u8) (pj ` answered layout ctxs)"
      using h by (intro inj_onI) (metis image_iff of_nat_eq_iff)
    ultimately have "available ctxs' S b ts len = int (card (pj ` answered layout ctxs))"
      by (simp only: available_def hold card_image)
    then obtain r where r: "rozofs_storcli_transform_inverse_check ctxs' layout bsize b corr = Some r" "0 < ret r"
      using inverse_check_available[OF lb(1,2), of ctxs' b ts len bsize corr] ready pid many ts by (auto simp: S_def)
    have g: "good_choice ctxs' R S b (chosen r) (res_timestamp r) (res_length r)" using inverse_check_good[OF r] by (simp add: R_def S_def)
    then have "chosen r \<noteq> []" using R by (auto simp: good_choice_def)
    then obtain i where "i \<in> set (chosen r)" by (meson last_in_set)
    then have "i \<in> answered layout ctxs" "timestamp (ctx_hdr ctxs' b i) = res_timestamp r" "effective_length (ctx_hdr ctxs' b i) = res_length r"
      using g mem by (auto simp: good_choice_def)
    then show ?thesis using h[of i] r False by auto
  qed
qed

definition data_block :: "int \<Rightarrow> u128 list \<Rightarrow> int \<Rightarrow> u128 list" where
  "data_block bsize data b = take (nat (ROZOFS_BSIZE_BYTES bsize div 16)) (drop (nat (b * (ROZOFS_BSIZE_BYTES bsize div 16))) data)"

text \<open>What a reader gets of block \<open>b\<close> of \<open>n\<close>: the block, cleared beyond the length of the last one.\<close>

definition read_back :: "int \<Rightarrow> int \<Rightarrow> u16 \<Rightarrow> u128 list \<Rightarrow> int \<Rightarrow> u128 list" where
  "read_back bsize n last_block_size data b =
     (if b = n - 1 \<and> uint last_block_size < ROZOFS_BSIZE_BYTES bsize then clear_tail (uint last_block_size) (data_block bsize data b)
      else data_block bsize data b)"

lemma empty_block_eq: "rozofs_data_block_check_empty D \<Longrightarrow> D = replicate (length D) 0"
  by (auto simp: rozofs_data_block_check_empty_def list_all_iff intro: replicate_eqI)

lemma clear_tail_zero: "clear_tail k (replicate n 0) = replicate n 0"
  by (rule nth_equalityI) (auto simp: clear_tail_def nth_enumerate_eq)

lemma data_block_length:
  assumes "0 \<le> b" "b < n" "n * (ROZOFS_BSIZE_BYTES bsize div 16) \<le> int (length data)" "bsize = 0 \<or> bsize = 1"
  shows "length (data_block bsize data b) = nat (ROZOFS_BSIZE_BYTES bsize div 16)"
proof -
  define k where "k = ROZOFS_BSIZE_BYTES bsize div 16"
  have k: "0 < k" using bbytes_small[OF assms(4)] by (simp add: k_def)
  have "(b + 1) * k \<le> n * k" using assms(1,2) k by (intro mult_right_mono) auto
  then have "b * k + k \<le> int (length data)" "0 \<le> b * k" using assms(1,3) k by (auto simp: algebra_simps k_def)
  then show ?thesis using k by (auto simp: data_block_def simp flip: k_def)
qed

lemma read_back_content:
  assumes "0 \<le> b" "b < n" "n * (ROZOFS_BSIZE_BYTES bsize div 16) \<le> int (length data)" "bsize = 0 \<or> bsize = 1" "ts \<noteq> 0"
    and tl: "(t, l) = (if rozofs_data_block_check_empty (data_block bsize data b) then (0, word_of_int (ROZOFS_BSIZE_BYTES bsize))
       else (ts, if b = n - 1 then lbs else word_of_int (ROZOFS_BSIZE_BYTES bsize)))"
  shows "block_content bsize (\<lambda>ts len b. data_block bsize data b) b t l = read_back bsize n lbs data b"
proof (cases "rozofs_data_block_check_empty (data_block bsize data b)")
  case True
  then show ?thesis
    using tl empty_block_eq[OF True] data_block_length[OF assms(1-4)] clear_tail_zero[of "uint lbs"]
    by (auto simp: block_content_def read_back_def)
next
  case False
  then show ?thesis using tl assms(5) bbytes_small[OF assms(4)] by (auto simp: block_content_def read_back_def)
qed

lemma delivered_checked:
  assumes lb3: "0 \<le> layout" "layout < 3" "bsize = 0 \<or> bsize = 1" and del: "delivered layout bsize n sent pj ctxs" and b: "0 \<le> b" "b < n"
    and sent: "\<And>q. int q < rozofs_get_rozofs_forward layout \<Longrightarrow> msg_cells layout bsize * n \<le> int (length (prj_bins (sent ! q)))"
      "\<And>q. int q < rozofs_get_rozofs_forward layout \<Longrightarrow> stored_block layout bsize (prj_bins (sent ! q)) b (int q) ts len (D b)"
  shows "checked_ctxs layout bsize (\<lambda>ts len b. D b) b ctxs"
  unfolding checked_ctxs_def
proof (intro ballI conjI impI disjI2)
  fix c assume c: "c \<in> set ctxs"
  then show "b < int (length (block_hdr_tab c))" using del b by (fastforce simp: delivered_def)
  obtain i where i: "i < length ctxs" "c = ctxs ! i" using c by (auto simp: in_set_conv_nth)
  assume rd: "prj_state c = ROZOFS_PRJ_READ_DONE"
  have lb: "0 \<le> layout" "layout < 3" "0 \<le> bsize" "bsize \<le> 3" using lb3 by auto
  note d = delivered_ctx[OF lb del i(1) rd[unfolded i(2)] b sent(1)]
  show "checked_hdr layout bsize (prj_bins c) b (block_hdr_tab c ! nat b)" using d i(2) by simp
  let ?p = "prj_bins (sent ! pj i)"
  have st: "stored_block layout bsize ?p b (int (pj i)) ts len (D b)" using sent(2) d(3) by simp
  have small: "int (pj i) < 16" using d(3) layout_small[OF lb(1,2)] by linarith
  then have eq: "uint (word_of_int (int (pj i)) :: u8) = int (pj i)" by (simp add: uint_word_of_int del: of_int_of_nat_eq)
  have m: "0 < msg_cells layout bsize" using psizes_in_msg(2,3)[OF lb, of 0] by simp
  have "msg_cells layout bsize * (b + 1) \<le> msg_cells layout bsize * n" using b m by (intro mult_left_mono) auto
  then have "msg_cells layout bsize * (b + 1) \<le> int (length ?p)" using sent(1)[OF d(3)] by linarith
  moreover have "holds_projection layout bsize ?p b (uint (projection_id (rcv_block_hdr layout bsize ?p b))) (D b)" if "rcv_valid layout bsize ?p b"
    using st that eq by (auto simp: stored_block_def rcv_valid_def empty_hdr_def Let_def split: if_splits)
  ultimately show "honest layout bsize (\<lambda>ts len b. D b) b c" using d(1) i(2) by (simp add: honest_def Let_def)
qed


lemma write_read:
  assumes lb3: "0 \<le> layout" "layout < 3" "bsize = 0 \<or> bsize = 1" and n: "0 \<le> n" and ts: "ts \<noteq> 0"
    and data: "n * (ROZOFS_BSIZE_BYTES bsize div 16) \<le> int (length data)"
    and wr: "rozofs_get_rozofs_forward layout \<le> int (length wctxs)"
      "\<And>q. int q < rozofs_get_rozofs_forward layout \<Longrightarrow> msg_cells layout bsize * n \<le> int (length (prj_bins (wctxs ! q)))"
    and fw: "rozofs_storcli_transform_forward wctxs layout bsize 0 n ts lbs data = Some sent"
    and del: "delivered layout bsize n sent pj ctxs"
    and many: "rozofs_get_rozofs_inverse layout \<le> int (card (pj ` answered layout ctxs))"
    and blks: "n \<le> int (length blks)" "\<And>b. 0 \<le> b \<Longrightarrow> b < n \<Longrightarrow> blk_state (blks ! nat b) = ROZOFS_BLK_TRANSFORM_REQ"
    and buf: "0 \<le> first" "(ROZOFS_BSIZE_BYTES bsize div 16) * (first + n) \<le> int (length out)" "\<And>b. length (snd (stack b)) = 1152"
  defines "cells \<equiv> ROZOFS_BSIZE_BYTES bsize div 16"
  shows "\<exists>blks' tbl' corr' ctxs'.
      rozofs_storcli_transform_inverse_check_for_thread layout bsize n (blks, tbl, corr, ctxs) = Some ((0, n), blks', tbl', corr', ctxs')
      \<and> (\<exists>ctxs'' blks'' out'. rozofs_storcli_transform_inverse ctxs' layout bsize first n blks' out tbl' stack = Some (n, ctxs'', blks'', out')
         \<and> length out' = length out
         \<and> (\<forall>b. 0 \<le> b \<and> b < n \<longrightarrow> arr_slice out' (cells * (first + b)) cells = Some (read_back bsize n lbs data b))
         \<and> (\<forall>j. 0 \<le> j \<and> cells * (j + 1) \<le> int (length out) \<and> (j < first \<or> first + n \<le> j) \<longrightarrow>
              arr_slice out' (cells * j) cells = arr_slice out (cells * j) cells))"
proof -
  let ?D = "data_block bsize data"
  let ?len = "\<lambda>b. if b = n - 1 then lbs else word_of_int (ROZOFS_BSIZE_BYTES bsize)"
  let ?e = "\<lambda>b. if rozofs_data_block_check_empty (?D b) then (0, word_of_int (ROZOFS_BSIZE_BYTES bsize)) else (ts, ?len b)"
  have room: "msg_cells layout bsize * (0 + n) \<le> int (length (prj_bins (wctxs ! nat q)))" if "0 \<le> q" "q < rozofs_get_rozofs_forward layout" for q
    using wr(2)[of "nat q"] that by simp
  have wm: "length sent = length wctxs" "\<And>q. 0 \<le> q \<Longrightarrow> q < int (length wctxs) \<Longrightarrow> length (prj_bins (sent ! nat q)) = length (prj_bins (wctxs ! nat q))
      \<and> (if q < rozofs_get_rozofs_forward layout
            then \<forall>i. 0 \<le> i \<and> i < n \<longrightarrow> stored_block layout bsize (prj_bins (sent ! nat q)) (0 + i) q ts (?len i)
              (take (nat (ROZOFS_BSIZE_BYTES bsize div 16)) (drop (nat (i * (ROZOFS_BSIZE_BYTES bsize div 16))) data))
            else sent ! nat q = wctxs ! nat q)"
    using write_message[OF lb3 order_refl n data wr(1) room, of ts lbs] unfolding fw option.inject by blast+
  have w: "length sent = length wctxs" "\<And>q. 0 \<le> q \<Longrightarrow> q < int (length wctxs) \<Longrightarrow> length (prj_bins (sent ! nat q)) = length (prj_bins (wctxs ! nat q))"
    "\<And>q b. 0 \<le> q \<Longrightarrow> q < rozofs_get_rozofs_forward layout \<Longrightarrow> 0 \<le> b \<Longrightarrow> b < n \<Longrightarrow> stored_block layout bsize (prj_bins (sent ! nat q)) b q ts (?len b) (?D b)"
  proof -
    show "length sent = length wctxs" by (rule wm)
    show "length (prj_bins (sent ! nat q)) = length (prj_bins (wctxs ! nat q))" if "0 \<le> q" "q < int (length wctxs)" for q using wm(2)[OF that] by simp
    show "stored_block layout bsize (prj_bins (sent ! nat q)) b q ts (?len b) (?D b)"
      if "0 \<le> q" "q < rozofs_get_rozofs_forward layout" "0 \<le> b" "b < n" for q b
      using wm(2)[of q] wr(1) that by (simp add: data_block_def)
  qed
  have sent1: "msg_cells layout bsize * n \<le> int (length (prj_bins (sent ! q)))" if "int q < rozofs_get_rozofs_forward layout" for q
    using w(2)[of "int q"] wr(2)[OF that] wr(1) that by simp
  have sent2: "stored_block layout bsize (prj_bins (sent ! q)) b (int q) ts (?len b) (?D b)" if "int q < rozofs_get_rozofs_forward layout" "0 \<le> b" "b < n" for q b
    using w(3)[of "int q" b] that by simp
  have chk: "checked_ctxs layout bsize (\<lambda>ts len b. ?D b) b ctxs" if "0 \<le> b" "b < n" for b
    by (rule delivered_checked[where D = ?D, OF lb3 del that sent1 sent2[OF _ that]])
  have one: "\<exists>r. rozofs_storcli_transform_inverse_check ctxs' layout bsize b corr = Some r \<and> 0 < ret r \<and> (res_timestamp r, res_length r) = ?e b"
    if "b \<in> set [0..n - 1]" "same_data ctxs ctxs'" for b ctxs' corr
  proof -
    have "0 \<le> b" "b < n" using that(1) by auto
    then show ?thesis using delivered_check[OF lb3 del _ _ sent1 sent2 many ts that(2)] by simp
  qed
  have bb: "word_of_int (ROZOFS_BSIZE_BYTES bsize) \<noteq> (0 :: u16)" using bbytes_small[OF lb3(3)] by (metis less_numeral_extra(3) uint_0_eq)
  obtain blks' tbl' corr' ctxs' where cb: "check_blocks layout bsize [0..n - 1] (blks, tbl, corr, ctxs) = Some (None, blks', tbl', corr', ctxs')"
    "\<And>b. 0 \<le> b \<Longrightarrow> b < n \<Longrightarrow> (blk_timestamp (blks' ! nat b), blk_effective_length (blks' ! nat b)) = ?e b"
  proof -
    have "\<exists>blks' tbl' corr' ctxs'. check_blocks layout bsize [0..n - 1] (blks, tbl, corr, ctxs) = Some (None, blks', tbl', corr', ctxs')
     \<and> (\<forall>b. 0 \<le> b \<longrightarrow> (if b \<in> set [0..n - 1] then (blk_timestamp (blks' ! nat b), blk_effective_length (blks' ! nat b)) = ?e b else blks' ! nat b = blks ! nat b))"
      by (rule check_blocks_all[OF distinct_upto _ one]) (use blks ts bb in auto)
    then show thesis using that by (metis atLeastAtMost_iff set_upto zle_diff1_eq)
  qed
  then have run: "rozofs_storcli_transform_inverse_check_for_thread layout bsize n (blks, tbl, corr, ctxs) = Some ((0, n), blks', tbl', corr', ctxs')"
    by (simp add: rozofs_storcli_transform_inverse_check_for_thread_def)
  have safe: "rozofs_get_rozofs_safe layout \<le> int (length ctxs)" using del by (simp add: delivered_def)
  have mr: "message_room (msg_cells layout bsize) n ctxs"
    unfolding message_room_def
  proof (intro ballI conjI impI)
    fix c assume c: "c \<in> set ctxs"
    then show "n \<le> 64 * int (length (crc_err_bitmap c))" using del by (simp add: delivered_def)
    obtain i where i: "i < length ctxs" "c = ctxs ! i" using c by (auto simp: in_set_conv_nth)
    assume "prj_state c = ROZOFS_PRJ_READ_DONE"
    then show "msg_cells layout bsize * n \<le> int (length (prj_bins c))"
      using delivered_ctx(1,3)[of layout bsize n sent pj ctxs i 0] sent1 i del lb3 n by (cases "n = 0") auto
  qed
  have "block_content bsize (\<lambda>ts len b. ?D b) b (blk_timestamp (blks' ! nat b)) (blk_effective_length (blks' ! nat b)) = read_back bsize n lbs data b"
    if "0 \<le> b" "b < n" for b
    by (rule read_back_content[OF that data lb3(3) ts cb(2)[OF that]])
  note content = this
  obtain ctxs'' blks'' out' where rd: "rozofs_storcli_transform_inverse ctxs' layout bsize first n blks' out tbl' stack = Some (n, ctxs'', blks'', out')"
     "length out' = length out"
     "\<And>b. 0 \<le> b \<Longrightarrow> b < n \<Longrightarrow> arr_slice out' (cells * (first + b)) cells = Some (block_content bsize (\<lambda>ts len b. ?D b) b
        (blk_timestamp (blks' ! nat b)) (blk_effective_length (blks' ! nat b)))"
     "\<And>j. 0 \<le> j \<Longrightarrow> cells * (j + 1) \<le> int (length out) \<Longrightarrow> j < first \<or> first + n \<le> j \<Longrightarrow> arr_slice out' (cells * j) cells = arr_slice out (cells * j) cells"
    using read_message[where stack = stack, OF lb3 chk safe mr n blks run buf, folded cells_def] by blast
  show ?thesis
    by (intro exI conjI, rule run, rule rd(1)) (use rd(2-4) content in auto)
qed

text \<open>
  C1. Reading what was written. A message of \<open>n\<close> blocks is encoded by \<^const>\<open>rozofs_storcli_transform_forward\<close> into one payload
  per projection. Whatever storages answer a later read, in whatever order, as long as they bring
  \<^verbatim>\<open>rozofs_inverse\<close> different projections of it, the check of the read succeeds on all the blocks and
  \<^const>\<open>rozofs_storcli_transform_inverse\<close> puts the blocks back at their place: unchanged, except for the last one, cleared
  beyond the length given by the writer. The rest of the output buffer is untouched.
\<close>

theorem write_read_roundtrip:
  assumes "0 \<le> layout" "layout < 3" "bsize = 0 \<or> bsize = 1" "0 \<le> n" "ts \<noteq> 0"
    and "n * (ROZOFS_BSIZE_BYTES bsize div 16) \<le> int (length data)" "rozofs_get_rozofs_forward layout \<le> int (length wctxs)"
    and "\<forall>q. int q < rozofs_get_rozofs_forward layout \<longrightarrow> msg_cells layout bsize * n \<le> int (length (prj_bins (wctxs ! q)))"
    and "rozofs_storcli_transform_forward wctxs layout bsize 0 n ts lbs data = Some sent"
    and "delivered layout bsize n sent pj ctxs" "rozofs_get_rozofs_inverse layout \<le> int (card (pj ` answered layout ctxs))"
    and "n \<le> int (length blks)" "\<forall>b. 0 \<le> b \<and> b < n \<longrightarrow> blk_state (blks ! nat b) = ROZOFS_BLK_TRANSFORM_REQ"
    and "0 \<le> first" "(ROZOFS_BSIZE_BYTES bsize div 16) * (first + n) \<le> int (length out)" "\<forall>b. length (snd (stack b)) = 1152"
  shows "\<exists>blks' tbl' corr' ctxs'.
      rozofs_storcli_transform_inverse_check_for_thread layout bsize n (blks, tbl, corr, ctxs) = Some ((0, n), blks', tbl', corr', ctxs')
      \<and> (\<exists>ctxs'' blks'' out'. rozofs_storcli_transform_inverse ctxs' layout bsize first n blks' out tbl' stack = Some (n, ctxs'', blks'', out')
         \<and> length out' = length out
         \<and> (\<forall>b. 0 \<le> b \<and> b < n \<longrightarrow> arr_slice out' ((ROZOFS_BSIZE_BYTES bsize div 16) * (first + b)) (ROZOFS_BSIZE_BYTES bsize div 16)
              = Some (read_back bsize n lbs data b))
         \<and> (\<forall>j. 0 \<le> j \<and> (ROZOFS_BSIZE_BYTES bsize div 16) * (j + 1) \<le> int (length out) \<and> (j < first \<or> first + n \<le> j) \<longrightarrow>
              arr_slice out' ((ROZOFS_BSIZE_BYTES bsize div 16) * j) (ROZOFS_BSIZE_BYTES bsize div 16)
              = arr_slice out ((ROZOFS_BSIZE_BYTES bsize div 16) * j) (ROZOFS_BSIZE_BYTES bsize div 16)))"
  using assms by (intro write_read) auto

definition write_ctxs :: "rozofs_storcli_projection_ctx_t list" where
  "write_ctxs = [sample_ctx 0 ROZOFS_PRJ_READ_DONE 0 0, sample_ctx 1 ROZOFS_PRJ_READ_IDLE 0 0,
     sample_ctx 2 ROZOFS_PRJ_READ_DONE 0 0, sample_ctx 3 ROZOFS_PRJ_READ_IDLE 0 0]"

text \<open>One block written with layout 0, then read from the storages of projections 0 and 2.\<close>

theorem write_read_roundtrip_witness:
  "\<exists>sent ctxs blks' tbl' corr' ctxs' ctxs'' blks'' out'.
     rozofs_storcli_transform_forward write_ctxs 0 0 0 1 7 4096 (replicate 256 5) = Some sent
     \<and> rozofs_storcli_transform_inverse_check_for_thread 0 0 1 ([\<lparr>blk_state = ROZOFS_BLK_TRANSFORM_REQ, blk_effective_length = 0, blk_timestamp = 0\<rparr>],
          \<lambda>b. [], 0, ctxs) = Some ((0, 1), blks', tbl', corr', ctxs')
     \<and> rozofs_storcli_transform_inverse ctxs' 0 0 0 1 blks' (replicate 256 9) tbl' (\<lambda>b. (3, replicate 1152 1)) = Some (1, ctxs'', blks'', out')
     \<and> arr_slice out' 0 256 = Some (replicate 256 5)"
proof -
  let ?data = "replicate 256 5 :: u128 list"
  have e: "msg_cells 0 0 = 130" "ROZOFS_BSIZE_BYTES 0 = 4096" by code_simp+
  have p: "length (prj_bins (write_ctxs ! q)) = 130 \<and> length (block_hdr_tab (write_ctxs ! q)) = 1 \<and> length (rcv_hdr (write_ctxs ! q)) = 1
      \<and> length (crc_err_bitmap (write_ctxs ! q)) = 1" if "q < 4" for q
    using that by (auto simp: write_ctxs_def sample_ctx_def Let_def less_Suc_eq numeral_eq_Suc)
  have l: "length write_ctxs = 4" by (simp add: write_ctxs_def)
  obtain sent where s: "rozofs_storcli_transform_forward write_ctxs 0 0 0 1 7 4096 ?data = Some sent"
    "\<And>q. 0 \<le> q \<Longrightarrow> q < int (length write_ctxs) \<Longrightarrow> sent ! nat q = (write_ctxs ! nat q)\<lparr>prj_bins := prj_bins (sent ! nat q)\<rparr>
       \<and> length (prj_bins (sent ! nat q)) = length (prj_bins (write_ctxs ! nat q))"
    using write_message[of 0 0 0 1 ?data write_ctxs 7 4096] p l e by (auto simp: layout_params)
  have f: "length (block_hdr_tab (sent ! q)) = 1" "length (rcv_hdr (sent ! q)) = 1" "length (crc_err_bitmap (sent ! q)) = 1"
     "prj_state (sent ! q) = prj_state (write_ctxs ! q)" "length (prj_bins (sent ! q)) = 130" if q: "q < 4" for q
  proof -
    have eq: "sent ! q = (write_ctxs ! q)\<lparr>prj_bins := prj_bins (sent ! q)\<rparr>" "length (prj_bins (sent ! q)) = 130"
      using s(2)[of "int q"] l p[OF q] q by auto
    show "length (block_hdr_tab (sent ! q)) = 1" "length (rcv_hdr (sent ! q)) = 1" "length (crc_err_bitmap (sent ! q)) = 1"
      "prj_state (sent ! q) = prj_state (write_ctxs ! q)"
      by (subst eq(1), use p[OF q] in simp)+
    show "length (prj_bins (sent ! q)) = 130" by (rule eq(2))
  qed
  have "\<exists>c. rozofs_storcli_transform_update_headers (sent ! q) 0 0 1 1 0 = Some c \<and> prj_state c = prj_state (write_ctxs ! q)
      \<and> length (block_hdr_tab c) = 1 \<and> length (crc_err_bitmap c) = 1" if "q < 4" for q
    using update_headers_spec[of 0 0 1 1 "sent ! q" 0] f[OF that] e by auto
  then obtain c where c: "\<And>q. q < 4 \<Longrightarrow> rozofs_storcli_transform_update_headers (sent ! q) 0 0 1 1 0 = Some (c q) \<and> prj_state (c q) = prj_state (write_ctxs ! q)
      \<and> length (block_hdr_tab (c q)) = 1 \<and> length (crc_err_bitmap (c q)) = 1" by metis
  let ?ctxs = "map c [0..<4]"
  have del: "delivered 0 0 1 sent id ?ctxs"
    unfolding delivered_def
  proof (intro conjI ballI allI impI)
    show "rozofs_get_rozofs_safe 0 \<le> int (length ?ctxs)" by (simp add: layout_params)
    show "1 \<le> int (length (block_hdr_tab x))" "1 \<le> 64 * int (length (crc_err_bitmap x))" if "x \<in> set ?ctxs" for x
      using that c by auto
    fix i assume i: "i < length ?ctxs" "prj_state (?ctxs ! i) = ROZOFS_PRJ_READ_DONE"
    then have "i < 4" "prj_state (write_ctxs ! i) = ROZOFS_PRJ_READ_DONE" using c[of i] by auto
    moreover from this have "i \<noteq> 3" by (auto simp: write_ctxs_def sample_ctx_def Let_def)
    ultimately show "int (id i) < rozofs_get_rozofs_forward 0" by (simp add: layout_params)
    show "\<exists>d rsize. prj_bins d = prj_bins (sent ! id i) \<and> 1 \<le> int (length (block_hdr_tab d)) \<and> 1 \<le> int (length (rcv_hdr d))
        \<and> 1 \<le> 64 * int (length (crc_err_bitmap d)) \<and> rozofs_storcli_transform_update_headers d 0 0 1 1 rsize = Some (?ctxs ! i)"
      using \<open>i < 4\<close> c[of i] f[of i] by (intro exI[of _ "sent ! i"] exI[of _ 0]) simp
  qed
  have fl: "filter (\<lambda>q. prj_state (write_ctxs ! q) = ROZOFS_PRJ_READ_DONE) [0..<4] = [0, 2]" by code_simp
  have "answered 0 ?ctxs = set (filter (\<lambda>q. prj_state (write_ctxs ! q) = ROZOFS_PRJ_READ_DONE) [0..<4])"
  proof (rule set_eqI)
    fix q
    show "q \<in> answered 0 ?ctxs \<longleftrightarrow> q \<in> set (filter (\<lambda>q. prj_state (write_ctxs ! q) = ROZOFS_PRJ_READ_DONE) [0..<4])"
      using c[of q] by (cases "q < 4") (auto simp: answered_def layout_params simp del: upt_rec_numeral)
  qed
  then have ans: "answered 0 ?ctxs = {0, 2}" unfolding fl by simp
  have rb: "read_back 0 1 4096 ?data 0 = ?data" using e by (simp add: read_back_def data_block_def)
  have room: "\<forall>q. int q < rozofs_get_rozofs_forward 0 \<longrightarrow> msg_cells 0 0 * 1 \<le> int (length (prj_bins (write_ctxs ! q)))"
    using p e by (simp add: layout_params)
  have len: "1 * (ROZOFS_BSIZE_BYTES 0 div 16) \<le> int (length ?data)" "rozofs_get_rozofs_forward 0 \<le> int (length write_ctxs)"
    "rozofs_get_rozofs_inverse 0 \<le> int (card (id ` answered 0 ?ctxs))" "(ROZOFS_BSIZE_BYTES 0 div 16) * (0 + 1) \<le> int (length (replicate 256 (9 :: u128)))"
    using e l ans by (simp_all add: layout_params)
  have "\<exists>blks' tbl' corr' ctxs'.
      rozofs_storcli_transform_inverse_check_for_thread 0 0 1 ([\<lparr>blk_state = ROZOFS_BLK_TRANSFORM_REQ, blk_effective_length = 0, blk_timestamp = 0\<rparr>], \<lambda>b. [], 0, ?ctxs)
        = Some ((0, 1), blks', tbl', corr', ctxs')
      \<and> (\<exists>ctxs'' blks'' out'. rozofs_storcli_transform_inverse ctxs' 0 0 0 1 blks' (replicate 256 9) tbl' (\<lambda>b. (3, replicate 1152 1)) = Some (1, ctxs'', blks'', out')
         \<and> length out' = length (replicate 256 (9 :: u128))
         \<and> (\<forall>b. 0 \<le> b \<and> b < 1 \<longrightarrow> arr_slice out' ((ROZOFS_BSIZE_BYTES 0 div 16) * (0 + b)) (ROZOFS_BSIZE_BYTES 0 div 16) = Some (read_back 0 1 4096 ?data b))
         \<and> (\<forall>j. 0 \<le> j \<and> (ROZOFS_BSIZE_BYTES 0 div 16) * (j + 1) \<le> int (length (replicate 256 (9 :: u128))) \<and> (j < 0 \<or> 0 + 1 \<le> j) \<longrightarrow>
              arr_slice out' ((ROZOFS_BSIZE_BYTES 0 div 16) * j) (ROZOFS_BSIZE_BYTES 0 div 16)
              = arr_slice (replicate 256 9) ((ROZOFS_BSIZE_BYTES 0 div 16) * j) (ROZOFS_BSIZE_BYTES 0 div 16)))"
    by (rule write_read_roundtrip[OF _ _ _ _ _ len(1,2) room s(1) del len(3) _ _ _ len(4)]) simp_all
  then obtain blks' tbl' corr' ctxs' ctxs'' blks'' out' where r:
    "rozofs_storcli_transform_inverse_check_for_thread 0 0 1 ([\<lparr>blk_state = ROZOFS_BLK_TRANSFORM_REQ, blk_effective_length = 0, blk_timestamp = 0\<rparr>], \<lambda>b. [], 0, ?ctxs)
        = Some ((0, 1), blks', tbl', corr', ctxs')"
    "rozofs_storcli_transform_inverse ctxs' 0 0 0 1 blks' (replicate 256 9) tbl' (\<lambda>b. (3, replicate 1152 1)) = Some (1, ctxs'', blks'', out')"
    "\<forall>b. 0 \<le> b \<and> b < 1 \<longrightarrow> arr_slice out' ((ROZOFS_BSIZE_BYTES 0 div 16) * (0 + b)) (ROZOFS_BSIZE_BYTES 0 div 16) = Some (read_back 0 1 4096 ?data b)"
    by blast
  have "arr_slice out' 0 256 = Some ?data" using r(3)[rule_format, of 0] rb e by simp
  then show ?thesis using s(1) r(1,2) by blast
qed

theorem forward_stores_projections_witness:
  "\<exists>sent. rozofs_storcli_transform_forward write_ctxs 0 0 0 1 7 4096 (replicate 256 5) = Some sent
     \<and> stored_block 0 0 (prj_bins (sent ! 1)) 0 1 7 4096 (replicate 256 5)"
proof -
  have e: "msg_cells 0 0 = 130" "ROZOFS_BSIZE_BYTES 0 = 4096" by code_simp+
  have l: "length write_ctxs = 4" by (simp add: write_ctxs_def)
  have p: "\<forall>q. 0 \<le> q \<and> q < rozofs_get_rozofs_forward 0 \<longrightarrow> msg_cells 0 0 * (0 + 1) \<le> int (length (prj_bins (write_ctxs ! nat q)))"
  proof -
    have "length (prj_bins (write_ctxs ! q)) = 130" if "q < 4" for q
      using that by (auto simp: write_ctxs_def sample_ctx_def Let_def less_Suc_eq numeral_eq_Suc)
    then show ?thesis using e by (simp add: layout_params nat_less_iff)
  qed
  obtain sent where s: "rozofs_storcli_transform_forward write_ctxs 0 0 0 1 7 4096 (replicate 256 5) = Some sent"
    "\<forall>q. 0 \<le> q \<and> q < int (length write_ctxs) \<longrightarrow> (if q < rozofs_get_rozofs_forward 0
       then \<forall>i. 0 \<le> i \<and> i < 1 \<longrightarrow> stored_block 0 0 (prj_bins (sent ! nat q)) (0 + i) q 7 (if i = 1 - 1 then 4096 else word_of_int (ROZOFS_BSIZE_BYTES 0))
              (take (nat (ROZOFS_BSIZE_BYTES 0 div 16)) (drop (nat (i * (ROZOFS_BSIZE_BYTES 0 div 16))) (replicate 256 5)))
       else sent ! nat q = write_ctxs ! nat q)"
    using forward_stores_projections[OF _ _ _ _ _ _ _ p, of "replicate 256 5" 7 4096] l e by (simp add: layout_params) blast
  then show ?thesis using s(2)[rule_format, of 1] l e by (auto simp: layout_params)
qed

end
