(* ===== verification/Contract.thy ===== *)
theory Contract
  imports Prelude
begin

text \<open>
  The contract between a component and its callers: in a good state every admissible request returns, keeps the
  state good, and does to the abstract state what the specification allows. A caller's session is a
  sequence of requests; the locale lifts the contract of one request to sessions. The components interpret it on their
  own operations.
\<close>

primrec session :: "('q \<Rightarrow> 's \<Rightarrow> ('r \<times> 's) option) \<Rightarrow> 'q list \<Rightarrow> 's \<Rightarrow> ('r list \<times> 's) option" where
  "session run [] s = Some ([], s)"
| "session run (q # qs) s = do { (r, s) \<leftarrow> run q s; (rs, s) \<leftarrow> session run qs s; Some (r # rs, s) }"

inductive session_spec :: "('q \<Rightarrow> 'a \<Rightarrow> 'r \<Rightarrow> 'a \<Rightarrow> bool) \<Rightarrow> 'q list \<Rightarrow> 'a \<Rightarrow> 'r list \<Rightarrow> 'a \<Rightarrow> bool" for spec where
  nil: "session_spec spec [] a [] a"
| cons: "spec q a r b \<Longrightarrow> session_spec spec qs b rs c \<Longrightarrow> session_spec spec (q # qs) a (r # rs) c"

inductive_cases session_spec_nilE: "session_spec spec [] a rs b"
inductive_cases session_spec_consE: "session_spec spec (q # qs) a rs b"

inductive_simps session_spec_simps: "session_spec spec [] a rs b" "session_spec spec (q # qs) a rs b"

lemma session_append:
  "session run (qs @ qs') s = do { (rs, s) \<leftarrow> session run qs s; (rs', s) \<leftarrow> session run qs' s; Some (rs @ rs', s) }"
  by (induction qs arbitrary: s) (auto split: bind_splits)

locale contract =
  fixes good :: "'s \<Rightarrow> bool" and ok :: "'q \<Rightarrow> bool" and run :: "'q \<Rightarrow> 's \<Rightarrow> ('r \<times> 's) option"
    and abs :: "'s \<Rightarrow> 'a" and spec :: "'q \<Rightarrow> 'a \<Rightarrow> 'r \<Rightarrow> 'a \<Rightarrow> bool"
  assumes progress: "good s \<Longrightarrow> ok q \<Longrightarrow> run q s \<noteq> None"
    and keeps_good: "good s \<Longrightarrow> ok q \<Longrightarrow> run q s = Some (r, s') \<Longrightarrow> good s'"
    and simulates: "good s \<Longrightarrow> ok q \<Longrightarrow> run q s = Some (r, s') \<Longrightarrow> spec q (abs s) r (abs s')"
begin

lemma session_ok:
  assumes "good s" "\<And>q. q \<in> set qs \<Longrightarrow> ok q"
  shows "\<exists>rs s'. session run qs s = Some (rs, s') \<and> good s' \<and> session_spec spec qs (abs s) rs (abs s')"
  using assms
proof (induction qs arbitrary: s)
  case (Cons q qs)
  then have "ok q" by simp
  then obtain r t where t: "run q s = Some (r, t)" using progress[OF Cons.prems(1)] by fastforce
  with Cons \<open>ok q\<close> obtain rs s' where "session run qs t = Some (rs, s')" "good s'" "session_spec spec qs (abs t) rs (abs s')"
    using keeps_good by (metis list.set_intros(2))
  with t simulates[OF Cons.prems(1) \<open>ok q\<close> t] show ?case by (auto intro: session_spec.cons)
qed (auto intro: session_spec.nil)

lemma session_invariant:
  assumes P: "\<And>q a r b. ok q \<Longrightarrow> spec q a r b \<Longrightarrow> P a \<Longrightarrow> P b"
    and "good s" "\<And>q. q \<in> set qs \<Longrightarrow> ok q" "session run qs s = Some (rs, s')" "P (abs s)"
  shows "P (abs s')"
  using assms(2-)
proof (induction qs arbitrary: s rs)
  case (Cons q qs)
  then obtain r t rs' where t: "run q s = Some (r, t)" "session run qs t = Some (rs', s')" by (auto split: bind_splits prod.splits)
  have "ok q" using Cons.prems(2) by simp
  with Cons.IH[OF keeps_good[OF Cons.prems(1) _ t(1)] _ t(2)] P[OF _ simulates[OF Cons.prems(1) _ t(1)]] Cons.prems show ?case by simp
qed simp

end

text \<open>A component whose counters are bounded serves a bounded number of requests; one that is not serves any number.\<close>

locale budget_contract =
  fixes good :: "nat \<Rightarrow> 's \<Rightarrow> bool" and ok :: "'q \<Rightarrow> bool" and run :: "'q \<Rightarrow> 's \<Rightarrow> ('r \<times> 's) option"
    and abs :: "'s \<Rightarrow> 'a" and spec :: "'q \<Rightarrow> 'a \<Rightarrow> 'r \<Rightarrow> 'a \<Rightarrow> bool"
  assumes step: "good (Suc n) s \<Longrightarrow> ok q \<Longrightarrow> \<exists>r s'. run q s = Some (r, s') \<and> good n s' \<and> spec q (abs s) r (abs s')"
begin

lemma session_within:
  assumes "good (length qs + n) s" "\<And>q. q \<in> set qs \<Longrightarrow> ok q"
  shows "\<exists>rs s'. session run qs s = Some (rs, s') \<and> good n s' \<and> session_spec spec qs (abs s) rs (abs s')"
  using assms
proof (induction qs arbitrary: s)
  case (Cons q qs)
  then obtain r t where t: "run q s = Some (r, t)" "good (length qs + n) t" "spec q (abs s) r (abs t)" using step[of "length qs + n" s q] by auto
  with Cons.IH[OF t(2)] Cons.prems(2) obtain rs s' where "session run qs t = Some (rs, s')" "good n s'" "session_spec spec qs (abs t) rs (abs s')" by auto
  with t show ?case by (auto intro: session_spec.cons)
qed (auto intro: session_spec.nil)

end

sublocale contract \<subseteq> unbounded: budget_contract "\<lambda>n. good" ok run abs spec
  using progress keeps_good simulates by unfold_locales fastforce



end
