(* ===== verification/Storcli_Ring.thy ===== *)
theory Storcli_Ring
  imports Contract Fid_Bitmap
begin

text \<open>
  The request ring of the storage client (\<^verbatim>\<open>src/storcli/storcli_ring.c\<close>): requests on the same file wait while
  an earlier one works on the same blocks. A request is an entry embedded in its object, so an entry is known by
  its object; the linked lists are lists of entries in order.
\<close>

section \<open>Model\<close>

record stc_rng_entry_t =
  rng_obj :: nat
  rng_bid :: u64
  rng_nb_blks :: u64
  rng_opcode :: u8
  rng_state :: u8

abbreviation (input) STORCLI_RUN :: u8 where "STORCLI_RUN \<equiv> 1"
abbreviation (input) STORCLI_WAIT :: u8 where "STORCLI_WAIT \<equiv> 0"
abbreviation (input) STC_RNG_HASH_SZ :: nat where "STC_RNG_HASH_SZ \<equiv> 16"
abbreviation (input) STC_RNG_HASH_ENTRIES :: nat where "STC_RNG_HASH_ENTRIES \<equiv> 128"
abbreviation (input) STC_RNG_HASH_ENTRIES_WORD :: nat where "STC_RNG_HASH_ENTRIES_WORD \<equiv> 4"

record stc_rng_hash_entry_t =
  hash_bit :: "u32 list"
  fid_table :: "fid_t list"
  list_table :: "stc_rng_entry_t list list"

record stc_ring =
  stc_ring_tb :: "stc_rng_hash_entry_t list"
  stc_rng_collision_count :: u64
  stc_rng_full_count :: u64
  stc_rng_hash_collision_count :: u64
  stc_rng_submit_count :: u64
  stc_rng_parallel_count :: u64
  stc_rng_serialize :: bool

definition stc_rng_init :: stc_ring where
  "stc_rng_init = \<lparr>stc_ring_tb = replicate STC_RNG_HASH_SZ
       \<lparr>hash_bit = replicate STC_RNG_HASH_ENTRIES_WORD 0, fid_table = replicate STC_RNG_HASH_ENTRIES (0, 0), list_table = replicate STC_RNG_HASH_ENTRIES []\<rparr>,
     stc_rng_collision_count = 0, stc_rng_full_count = 0, stc_rng_hash_collision_count = 0, stc_rng_submit_count = 0,
     stc_rng_parallel_count = 0, stc_rng_serialize = False\<rparr>"

text \<open>The hash runs over the last byte of the identifier only.\<close>

definition fid_hash :: "fid_t \<Rightarrow> u32" where
  "fid_hash fid = (let c = ucast (drop_bit 56 (snd fid)); hash = 0 in c + push_bit 6 hash + push_bit 16 hash - hash)"

definition builtin_ffs :: "u32 \<Rightarrow> nat" where
  "builtin_ffs w = (case List.find (\<lambda>n. bit w n) [0..<32] of None \<Rightarrow> 0 | Some n \<Rightarrow> n + 1)"

definition clear_bit :: "u32 \<Rightarrow> nat \<Rightarrow> u32" where
  "clear_bit w n = w AND NOT (push_bit n 1)"

lemma bit_clear_bit: "bit (clear_bit w n) m \<longleftrightarrow> bit w m \<and> m \<noteq> n"
  using bit_imp_le_length[of w m] by (auto simp: clear_bit_def bit_simps)

lemma clear_bit_less:
  assumes "bit w n" shows "unat (clear_bit w n) < unat w"
proof -
  have "clear_bit w n \<noteq> w" using assms bit_clear_bit by metis
  moreover have "clear_bit w n \<le> w" by (simp add: clear_bit_def word_and_le2)
  ultimately show ?thesis by (simp add: word_less_nat_alt[symmetric] order_le_neq_trans)
qed

lemma ffs_bit: "w \<noteq> 0 \<Longrightarrow> builtin_ffs w \<noteq> 0 \<and> bit w (builtin_ffs w - 1)"
proof -
  assume "w \<noteq> 0"
  then obtain n where "bit w n" by (auto simp: bit_eq_iff)
  then have "n \<in> set [0..<32]" using bit_imp_le_length[of w n] by simp
  with \<open>bit w n\<close> have "List.find (\<lambda>n. bit w n) [0..<32] \<noteq> None" by (auto simp: find_None_iff)
  then show ?thesis by (auto simp: builtin_ffs_def find_Some_iff split: option.splits)
qed

text \<open>The search among the set bits of a word: the index found, and the number of mismatches.\<close>

function search_word :: "fid_t \<Rightarrow> fid_t list \<Rightarrow> nat \<Rightarrow> u32 \<Rightarrow> u64 \<Rightarrow> nat option \<times> u64" where
  "search_word fid fids cur_entry_id val32 coll =
     (if val32 = 0 then (None, coll)
      else let b = builtin_ffs val32 in
        if fids ! (cur_entry_id + b - 1) \<noteq> fid then search_word fid fids cur_entry_id (clear_bit val32 (b - 1)) (coll + 1)
        else (Some (cur_entry_id + b - 1), coll))"
  by pat_completeness auto
termination
  by (relation "measure (\<lambda>(fid, fids, c, w, k). unat w)") (use ffs_bit clear_bit_less in auto)

declare search_word.simps [simp del]

fun search_words :: "fid_t \<Rightarrow> fid_t list \<Rightarrow> nat \<Rightarrow> u32 list \<Rightarrow> u64 \<Rightarrow> nat option \<times> u64" where
  "search_words fid fids cur [] coll = (None, coll)"
| "search_words fid fids cur (w # ws) coll =
     (case search_word fid fids cur w coll of
        (Some idx, coll) \<Rightarrow> (Some idx, coll) | (None, coll) \<Rightarrow> search_words fid fids (cur + 32) ws coll)"

text \<open>The first clear bit.\<close>

fun find_free :: "nat \<Rightarrow> u32 list \<Rightarrow> nat option" where
  "find_free cur [] = None"
| "find_free cur (w # ws) = (case List.find (\<lambda>j. \<not> bit w j) [0..<32] of Some j \<Rightarrow> Some (cur + j) | None \<Rightarrow> find_free (cur + 32) ws)"

definition no_collision :: "u64 \<Rightarrow> u64 \<Rightarrow> stc_rng_entry_t \<Rightarrow> bool" where
  "no_collision bid nb elt \<longleftrightarrow> bid + nb \<le> rng_bid elt \<or> bid \<ge> rng_bid elt + rng_nb_blks elt"

text \<open>The result: the count of entries passed, whether the request may run, and whether it collided.\<close>

fun engage :: "bool \<Rightarrow> u64 \<Rightarrow> u64 \<Rightarrow> stc_rng_entry_t list \<Rightarrow> nat \<Rightarrow> nat \<times> bool \<times> bool" where
  "engage serialize bid nb [] found = (found, True, False)"
| "engage serialize bid nb (elt # es) found =
     (if serialize then (found, False, False)
      else if no_collision bid nb elt then engage serialize bid nb es (found + 1)
      else (0, False, True))"

text \<open>\<^term>\<open>None\<close> as the entry index is the return value -1.\<close>

definition stc_rng_insert ::
  "nat \<Rightarrow> u8 \<Rightarrow> fid_t \<Rightarrow> u64 \<Rightarrow> u64 \<Rightarrow> stc_ring \<Rightarrow> (bool \<times> u32) option \<times> stc_ring"
where
  "stc_rng_insert obj opcode fid bid nb_blks r = (
     let r = r\<lparr>stc_rng_submit_count := stc_rng_submit_count r + 1\<rparr>;
         rng_tb_idx = unat (fid_hash fid mod 16);
         tb = stc_ring_tb r ! rng_tb_idx;
         (found, coll) = search_words fid (fid_table tb) 0 (hash_bit tb) (stc_rng_hash_collision_count r);
         r = r\<lparr>stc_rng_hash_collision_count := coll\<rparr>;
         (found_idx, tb) = (case found of Some i \<Rightarrow> (Some i, tb)
           | None \<Rightarrow> (case find_free 0 (hash_bit tb) of None \<Rightarrow> (None, tb)
               | Some i \<Rightarrow> (Some i, tb\<lparr>hash_bit := (hash_bit tb)[i div 32 := hash_bit tb ! (i div 32) OR push_bit (i mod 32) 1],
                    fid_table := (fid_table tb)[i := fid], list_table := (list_table tb)[i := []]\<rparr>))) in
     case found_idx of None \<Rightarrow> (None, r\<lparr>stc_rng_full_count := stc_rng_full_count r + 1\<rparr>)
     | Some i \<Rightarrow>
         let (passed, runnable, collided) = engage (stc_rng_serialize r) bid nb_blks (list_table tb ! i) 0;
             entry = \<lparr>rng_obj = obj, rng_bid = bid, rng_nb_blks = nb_blks, rng_opcode = opcode, rng_state = (if runnable then 1 else 0)\<rparr>;
             tb = tb\<lparr>list_table := (list_table tb)[i := list_table tb ! i @ [entry]]\<rparr> in
         (Some (runnable, (word_of_nat rng_tb_idx AND 0xff) OR push_bit 8 (word_of_nat i)),
          r\<lparr>stc_ring_tb := (stc_ring_tb r)[rng_tb_idx := tb],
            stc_rng_collision_count := stc_rng_collision_count r + (if collided then 1 else 0),
            stc_rng_parallel_count := stc_rng_parallel_count r + (if passed \<noteq> 0 then 1 else 0)\<rparr>))"

definition unlink_obj :: "nat \<Rightarrow> stc_rng_entry_t list \<Rightarrow> stc_rng_entry_t list" where
  "unlink_obj obj q = filter (\<lambda>e. rng_obj e \<noteq> obj) q"

text \<open>
  The release of an entry, given its object: the entry is unlinked, and when it was the first of its list the next one is started if it waits.
  The result of \<open>release_queue\<close> is the object and opcode of the request to start, if any.
\<close>

definition release_queue :: "nat \<Rightarrow> stc_rng_entry_t list \<Rightarrow> (nat \<times> u8) option \<times> stc_rng_entry_t list" where
  "release_queue obj q = (
     let first = (case q of [] \<Rightarrow> False | e # _ \<Rightarrow> rng_obj e = obj); q = unlink_obj obj q in
     case q of [] \<Rightarrow> (None, q)
     | e # es \<Rightarrow> if first \<and> rng_state e \<noteq> STORCLI_RUN then (Some (rng_obj e, rng_opcode e), e\<lparr>rng_state := STORCLI_RUN\<rparr> # es) else (None, q))"

definition stc_rng_release_entry :: "u32 \<Rightarrow> nat \<Rightarrow> stc_ring \<Rightarrow> (nat \<times> u8) option \<times> stc_ring" where
  "stc_rng_release_entry entry_idx obj r = (
     let rng_tb_idx = unat (entry_idx AND 0xff);
         found_idx = unat (drop_bit 8 entry_idx);
         tb = stc_ring_tb r ! rng_tb_idx;
         (next_running, q) = release_queue obj (list_table tb ! found_idx);
         tb = tb\<lparr>list_table := (list_table tb)[found_idx := q]\<rparr>;
         tb = (if q = [] then tb\<lparr>hash_bit := (hash_bit tb)[found_idx div 32 := clear_bit (hash_bit tb ! (found_idx div 32)) (found_idx mod 32)]\<rparr> else tb) in
     (next_running, r\<lparr>stc_ring_tb := (stc_ring_tb r)[rng_tb_idx := tb]\<rparr>))"

declare split_paired_All [simp del] split_paired_Ex [simp del]

section \<open>The tables\<close>

definition slot_used :: "stc_rng_hash_entry_t \<Rightarrow> nat \<Rightarrow> bool" where
  "slot_used tb i \<longleftrightarrow> bit (hash_bit tb ! (i div 32)) (i mod 32)"

lemma search_word_spec:
  "search_word fid fids cur w coll = (res, c) \<Longrightarrow>
    (case res of None \<Rightarrow> \<forall>j. bit w j \<longrightarrow> fids ! (cur + j) \<noteq> fid | Some i \<Rightarrow> \<exists>j. i = cur + j \<and> bit w j \<and> fids ! i = fid)"
proof (induction fid fids cur w coll rule: search_word.induct)
  case (1 fid fids cur w coll)
  show ?case
  proof (cases "w = 0")
    case True
    then show ?thesis using 1 by (simp add: search_word.simps[of fid fids cur])
  next
    case False
    let ?b = "builtin_ffs w"
    have b: "?b \<noteq> 0" "bit w (?b - 1)" using ffs_bit[OF False] by auto
    show ?thesis
    proof (cases "fids ! (cur + ?b - 1) = fid")
      case True
      then have "res = Some (cur + ?b - 1)" using 1(2) False by (simp add: search_word.simps[of fid fids cur] Let_def)
      with b True show ?thesis by (auto intro!: exI[of _ "?b - 1"])
    next
      case ne: False
      then have "search_word fid fids cur (clear_bit w (?b - 1)) (coll + 1) = (res, c)" using 1(2) False by (simp add: search_word.simps[of fid fids cur w] Let_def)
      from 1(1)[OF False refl ne this] show ?thesis using ne b by (fastforce simp: bit_clear_bit split: option.splits)
    qed
  qed
qed

lemma search_words_spec:
  "search_words fid fids cur ws coll = (res, c) \<Longrightarrow>
    (case res of None \<Rightarrow> \<forall>k < length ws. \<forall>j. bit (ws ! k) j \<longrightarrow> fids ! (cur + 32 * k + j) \<noteq> fid
     | Some i \<Rightarrow> \<exists>k < length ws. \<exists>j. i = cur + 32 * k + j \<and> bit (ws ! k) j \<and> fids ! i = fid)"
proof (induction fid fids cur ws coll rule: search_words.induct)
  case (2 fid fids cur w ws coll)
  obtain res1 c1 where s1: "search_word fid fids cur w coll = (res1, c1)" by fastforce
  show ?case
  proof (cases res1)
    case (Some i)
    then have "res = Some i" using 2(2) s1 by simp
    moreover have "\<exists>k < length (w # ws). \<exists>j. i = cur + 32 * k + j \<and> bit ((w # ws) ! k) j \<and> fids ! i = fid"
      by (rule exI[of _ 0]) (use search_word_spec[OF s1] Some in auto)
    ultimately show ?thesis by simp
  next
    case None
    then have "search_words fid fids (cur + 32) ws c1 = (res, c)" using 2(2) s1 by simp
    from 2(1)[OF s1[symmetric] None this] search_word_spec[OF s1] None show ?thesis
      by (fastforce simp: nth_Cons less_Suc_eq_0_disj algebra_simps split: option.splits nat.splits)
  qed
qed auto

lemma find_free_spec:
  "case find_free cur ws of None \<Rightarrow> \<forall>k < length ws. \<forall>j < 32. bit (ws ! k) j
     | Some i \<Rightarrow> \<exists>k < length ws. \<exists>j < 32. i = cur + 32 * k + j \<and> \<not> bit (ws ! k) j"
proof (induction cur ws rule: find_free.induct)
  case (2 cur w ws)
  show ?case
  proof (cases "List.find (\<lambda>j. \<not> bit w j) [0..<32]")
    case None
    then have "\<forall>j < 32. bit w j" by (auto simp: find_None_iff)
    with 2[OF None] None show ?thesis
      by (fastforce simp: nth_Cons less_Suc_eq_0_disj algebra_simps split: option.splits nat.splits)
  next
    case (Some j)
    then have "j < 32" "\<not> bit w j" by (auto simp: find_Some_iff)
    then have "\<exists>k < length (w # ws). \<exists>j' < 32. cur + j = cur + 32 * k + j' \<and> \<not> bit ((w # ws) ! k) j'"
      by (intro exI[of _ 0]) auto
    with Some show ?thesis by simp
  qed
qed simp


definition queue_ok :: "stc_rng_entry_t list \<Rightarrow> bool" where
  "queue_ok q \<longleftrightarrow> (q \<noteq> [] \<longrightarrow> rng_state (hd q) = STORCLI_RUN) \<and> distinct (map rng_obj q)
     \<and> sorted_wrt (\<lambda>e e'. rng_state e' = STORCLI_RUN \<longrightarrow> no_collision (rng_bid e') (rng_nb_blks e') e) q"

definition tb_ok :: "nat \<Rightarrow> stc_rng_hash_entry_t \<Rightarrow> bool" where
  "tb_ok k tb \<longleftrightarrow> length (hash_bit tb) = 4 \<and> length (fid_table tb) = 128 \<and> length (list_table tb) = 128
     \<and> (\<forall>i < 128. slot_used tb i \<longleftrightarrow> list_table tb ! i \<noteq> [])
     \<and> (\<forall>i < 128. slot_used tb i \<longrightarrow> unat (fid_hash (fid_table tb ! i) mod 16) = k)
     \<and> (\<forall>i < 128. \<forall>j < 128. slot_used tb i \<longrightarrow> slot_used tb j \<longrightarrow> fid_table tb ! i = fid_table tb ! j \<longrightarrow> i = j)
     \<and> (\<forall>i < 128. queue_ok (list_table tb ! i))"

definition ring_ok :: "stc_ring \<Rightarrow> bool" where
  "ring_ok r \<longleftrightarrow> length (stc_ring_tb r) = 16 \<and> (\<forall>k < 16. tb_ok k (stc_ring_tb r ! k))"

lemma tb_okD:
  assumes "tb_ok k tb"
  shows "length (hash_bit tb) = 4" "length (fid_table tb) = 128" "length (list_table tb) = 128"
    "i < 128 \<Longrightarrow> slot_used tb i \<longleftrightarrow> list_table tb ! i \<noteq> []" "i < 128 \<Longrightarrow> slot_used tb i \<Longrightarrow> unat (fid_hash (fid_table tb ! i) mod 16) = k"
    "i < 128 \<Longrightarrow> j < 128 \<Longrightarrow> slot_used tb i \<Longrightarrow> slot_used tb j \<Longrightarrow> fid_table tb ! i = fid_table tb ! j \<Longrightarrow> i = j"
    "i < 128 \<Longrightarrow> queue_ok (list_table tb ! i)"
  using assms unfolding tb_ok_def by blast+

lemma slot_split: "i < 128 \<longleftrightarrow> (\<exists>k j. k < 4 \<and> j < 32 \<and> i = 32 * k + j)" for i :: nat
proof
  assume "i < 128"
  then show "\<exists>k j. k < 4 \<and> j < 32 \<and> i = 32 * k + j" by (intro exI[of _ "i div 32"] exI[of _ "i mod 32"]) auto
qed auto

lemma slot_used_split [simp]: "j < 32 \<Longrightarrow> slot_used tb (32 * k + j) \<longleftrightarrow> bit (hash_bit tb ! k) j"
  by (simp add: slot_used_def)

lemma search_slot:
  assumes "tb_ok k tb" "search_words fid (fid_table tb) 0 (hash_bit tb) c = (res, c')"
  shows "case res of None \<Rightarrow> \<forall>i < 128. slot_used tb i \<longrightarrow> fid_table tb ! i \<noteq> fid | Some i \<Rightarrow> i < 128 \<and> slot_used tb i \<and> fid_table tb ! i = fid"
proof (cases res)
  case None
  then have "\<forall>k < 4. \<forall>j. bit (hash_bit tb ! k) j \<longrightarrow> fid_table tb ! (32 * k + j) \<noteq> fid"
    using search_words_spec[OF assms(2)] tb_okD(1)[OF assms(1)] by simp
  then have "fid_table tb ! i \<noteq> fid" if "i < 128" "slot_used tb i" for i
    using that(1)[unfolded slot_split] that(2) by (metis slot_used_split)
  then show ?thesis using None by simp
next
  case (Some i)
  then obtain k' j where kj: "k' < 4" "i = 32 * k' + j" "bit (hash_bit tb ! k') j" "fid_table tb ! i = fid"
    using search_words_spec[OF assms(2)] tb_okD(1)[OF assms(1)] by auto
  moreover have "j < 32" using bit_imp_le_length[OF kj(3)] by simp
  ultimately show ?thesis using Some by (auto simp: slot_split)
qed

lemma free_slot:
  assumes "tb_ok k tb"
  shows "case find_free 0 (hash_bit tb) of None \<Rightarrow> \<forall>i < 128. slot_used tb i | Some i \<Rightarrow> i < 128 \<and> \<not> slot_used tb i"
  using find_free_spec[where cur = 0 and ws = "hash_bit tb"] tb_okD(1)[OF assms]
  by (cases "find_free 0 (hash_bit tb)") (auto simp: slot_split)

lemma slot_used_set:
  assumes "length (hash_bit tb) = 4" "i < 128" "j < 128"
  shows "slot_used (tb\<lparr>hash_bit := (hash_bit tb)[i div 32 := hash_bit tb ! (i div 32) OR push_bit (i mod 32) 1]\<rparr>) j \<longleftrightarrow> slot_used tb j \<or> j = i"
proof (cases "j div 32 = i div 32")
  case True
  have "j mod 32 = i mod 32 \<longleftrightarrow> j = i" using True by (metis div_mult_mod_eq)
  moreover have "i div 32 < 4" using assms(2) by simp
  ultimately show ?thesis using True assms by (auto simp: slot_used_def bit_simps)
next
  case False
  then show ?thesis by (auto simp: slot_used_def)
qed

lemma slot_used_clear:
  assumes "length (hash_bit tb) = 4" "i < 128" "j < 128"
  shows "slot_used (tb\<lparr>hash_bit := (hash_bit tb)[i div 32 := clear_bit (hash_bit tb ! (i div 32)) (i mod 32)]\<rparr>) j \<longleftrightarrow> slot_used tb j \<and> j \<noteq> i"
proof (cases "j div 32 = i div 32")
  case True
  have "j mod 32 = i mod 32 \<longleftrightarrow> j = i" using True by (metis div_mult_mod_eq)
  moreover have "i div 32 < 4" using assms(2) by simp
  ultimately show ?thesis using True assms by (auto simp: slot_used_def bit_clear_bit)
next
  case False
  then show ?thesis by (auto simp: slot_used_def)
qed

lemma slot_used_lists [simp]:
  "slot_used (tb\<lparr>list_table := ls\<rparr>) i = slot_used tb i" "slot_used (tb\<lparr>fid_table := fs\<rparr>) i = slot_used tb i"
  by (simp_all add: slot_used_def)

section \<open>Queues\<close>

text \<open>The queue of a file.\<close>

definition fid_slot :: "stc_ring \<Rightarrow> fid_t \<Rightarrow> nat option" where
  "fid_slot r fid = (let tb = stc_ring_tb r ! unat (fid_hash fid mod 16) in
     List.find (\<lambda>i. slot_used tb i \<and> fid_table tb ! i = fid) [0..<128])"

definition rng_queue :: "stc_ring \<Rightarrow> fid_t \<Rightarrow> stc_rng_entry_t list" where
  "rng_queue r fid = (case fid_slot r fid of None \<Rightarrow> [] | Some i \<Rightarrow> list_table (stc_ring_tb r ! unat (fid_hash fid mod 16)) ! i)"

abbreviation (input) tb_of :: "fid_t \<Rightarrow> nat" where "tb_of fid \<equiv> unat (fid_hash fid mod 16)"

lemma tb_of_less [simp]: "tb_of fid < 16"
  by (simp add: unat_mod)

lemma fid_slot_Some:
  assumes "ring_ok r"
  shows "fid_slot r fid = Some i \<longleftrightarrow> i < 128 \<and> slot_used (stc_ring_tb r ! tb_of fid) i \<and> fid_table (stc_ring_tb r ! tb_of fid) ! i = fid"
proof -
  let ?tb = "stc_ring_tb r ! tb_of fid"
  have ok: "tb_ok (tb_of fid) ?tb" using assms by (simp add: ring_ok_def)
  show ?thesis
  proof
    assume "fid_slot r fid = Some i"
    then show "i < 128 \<and> slot_used ?tb i \<and> fid_table ?tb ! i = fid" by (auto simp: fid_slot_def Let_def find_Some_iff)
  next
    assume i: "i < 128 \<and> slot_used ?tb i \<and> fid_table ?tb ! i = fid"
    then have "List.find (\<lambda>i. slot_used ?tb i \<and> fid_table ?tb ! i = fid) [0..<128] \<noteq> None" by (auto simp: find_None_iff)
    then obtain j where j: "List.find (\<lambda>i. slot_used ?tb i \<and> fid_table ?tb ! i = fid) [0..<128] = Some j" by auto
    then have "j < 128 \<and> slot_used ?tb j \<and> fid_table ?tb ! j = fid" by (auto simp: find_Some_iff)
    with i tb_okD(6)[OF ok, of i j] have "j = i" by simp
    with j show "fid_slot r fid = Some i" by (simp add: fid_slot_def Let_def)
  qed
qed

lemma rng_queue_slot:
  assumes "ring_ok r" "i < 128" "slot_used (stc_ring_tb r ! tb_of fid) i" "fid_table (stc_ring_tb r ! tb_of fid) ! i = fid"
  shows "rng_queue r fid = list_table (stc_ring_tb r ! tb_of fid) ! i"
  using assms fid_slot_Some[OF assms(1), of fid i] by (simp add: rng_queue_def)

lemma rng_queue_nil:
  assumes "ring_ok r" "\<And>i. i < 128 \<Longrightarrow> slot_used (stc_ring_tb r ! tb_of fid) i \<Longrightarrow> fid_table (stc_ring_tb r ! tb_of fid) ! i \<noteq> fid"
  shows "rng_queue r fid = []"
  using assms fid_slot_Some[OF assms(1), of fid] by (cases "fid_slot r fid") (auto simp: rng_queue_def)

lemma rng_queue_ok: "ring_ok r \<Longrightarrow> queue_ok (rng_queue r fid)"
  using fid_slot_Some[of r fid] tb_okD(7)[of "tb_of fid" "stc_ring_tb r ! tb_of fid"]
  by (cases "fid_slot r fid") (auto simp: rng_queue_def ring_ok_def queue_ok_def)


lemma no_collision_state [simp]: "no_collision bid nb (e\<lparr>rng_state := x\<rparr>) = no_collision bid nb e"
  by (simp add: no_collision_def)

lemma engage_spec:
  "engage s bid nb q n = (p, run, coll) \<Longrightarrow> run \<longleftrightarrow> q = [] \<or> (\<not> s \<and> (\<forall>e \<in> set q. no_collision bid nb e))"
  by (induction s bid nb q n rule: engage.induct) (auto split: if_splits)

lemma queue_ok_append:
  assumes "queue_ok q" "rng_obj e \<notin> rng_obj ` set q" "rng_state e = (if run then 1 else 0)"
    and "run \<longrightarrow> q = [] \<or> (\<forall>e' \<in> set q. no_collision (rng_bid e) (rng_nb_blks e) e')" "q = [] \<longrightarrow> run"
  shows "queue_ok (q @ [e])"
  using assms by (auto simp: queue_ok_def sorted_wrt_append hd_append)

lemma queue_ok_filter: "sorted_wrt R q \<Longrightarrow> distinct (map g q) \<Longrightarrow> sorted_wrt R (filter P q) \<and> distinct (map g (filter P q))"
  by (simp add: sorted_wrt_filter distinct_map_filter)

lemma release_queue_ok:
  assumes "queue_ok q" shows "queue_ok (snd (release_queue obj q))"
proof (cases q)
  case (Cons e es)
  then have e: "rng_state e = STORCLI_RUN" "distinct (map rng_obj (e # es))"
    "sorted_wrt (\<lambda>e e'. rng_state e' = STORCLI_RUN \<longrightarrow> no_collision (rng_bid e') (rng_nb_blks e') e) (e # es)" using assms by (auto simp: queue_ok_def)
  note f = queue_ok_filter[OF e(3,2), of "\<lambda>e. rng_obj e \<noteq> obj"]
  show ?thesis
  proof (cases "rng_obj e = obj")
    case True
    then have "unlink_obj obj q = es" using e(2) Cons by (auto simp: unlink_obj_def filter_id_conv image_iff)
    then show ?thesis using e True Cons by (cases es) (auto simp: release_queue_def queue_ok_def)
  next
    case False
    then show ?thesis using f e Cons by (auto simp: release_queue_def queue_ok_def unlink_obj_def)
  qed
qed (simp add: release_queue_def unlink_obj_def queue_ok_def)

lemma ring_ok_update:
  assumes "ring_ok r" "tb_ok k tb" "k < 16" "stc_ring_tb r' = (stc_ring_tb r)[k := tb]"
  shows "ring_ok r'"
  using assms by (auto simp: ring_ok_def nth_list_update)

lemma option_eqI: "(\<And>j. x = Some j \<longleftrightarrow> y = Some j) \<Longrightarrow> x = y"
  by (cases x; cases y) auto

lemma fid_slot_other:
  assumes "stc_ring_tb r' = (stc_ring_tb r)[k := tb]" "tb_of f \<noteq> k"
  shows "fid_slot r' f = fid_slot r f" "rng_queue r' f = rng_queue r f"
proof -
  have "stc_ring_tb r' ! tb_of f = stc_ring_tb r ! tb_of f" using assms by simp
  then show "fid_slot r' f = fid_slot r f" "rng_queue r' f = rng_queue r f" by (simp_all only: fid_slot_def rng_queue_def)
qed

text \<open>A table in which one slot gets a new list: the slot is in use when the list is not empty, and every other slot keeps its state.\<close>

definition slot_update :: "nat \<Rightarrow> fid_t \<Rightarrow> stc_rng_entry_t list \<Rightarrow> stc_rng_hash_entry_t \<Rightarrow> stc_rng_hash_entry_t \<Rightarrow> bool" where
  "slot_update i fid q tb tb' \<longleftrightarrow> length (hash_bit tb') = 4 \<and> length (fid_table tb') = 128 \<and> list_table tb' = (list_table tb)[i := q]
     \<and> (\<forall>j < 128. slot_used tb' j \<longleftrightarrow> (if j = i then q \<noteq> [] else slot_used tb j)) \<and> (\<forall>j < 128. fid_table tb' ! j = (if j = i then fid else fid_table tb ! j))"

lemma slot_update_ok:
  assumes ok: "ring_ok r" and i: "i < 128" and u: "slot_update i fid q (stc_ring_tb r ! tb_of fid) tb'" and q: "queue_ok q"
    and own: "\<And>j. j < 128 \<Longrightarrow> slot_used (stc_ring_tb r ! tb_of fid) j \<Longrightarrow> fid_table (stc_ring_tb r ! tb_of fid) ! j = fid \<longleftrightarrow> j = i"
    and r': "stc_ring_tb r' = (stc_ring_tb r)[tb_of fid := tb']"
  shows "ring_ok r'" and "f \<noteq> fid \<Longrightarrow> fid_slot r' f = fid_slot r f \<and> rng_queue r' f = rng_queue r f"
    and "fid_slot r' fid = (if q = [] then None else Some i)" and "rng_queue r' fid = q"
proof -
  let ?tb = "stc_ring_tb r ! tb_of fid"
  have tok: "tb_ok (tb_of fid) ?tb" and len: "length (stc_ring_tb r) = 16" using ok by (simp_all add: ring_ok_def)
  note D = tb_okD[OF tok]
  have U: "length (hash_bit tb') = 4" "length (fid_table tb') = 128" "list_table tb' = (list_table ?tb)[i := q]"
    "\<And>j. j < 128 \<Longrightarrow> slot_used tb' j \<longleftrightarrow> (if j = i then q \<noteq> [] else slot_used ?tb j)" "\<And>j. j < 128 \<Longrightarrow> fid_table tb' ! j = (if j = i then fid else fid_table ?tb ! j)"
    using u by (simp_all add: slot_update_def)
  have L: "list_table tb' ! j = (if j = i then q else list_table ?tb ! j)" if "j < 128" for j using that U(3) D(3) by simp
  have "tb_ok (tb_of fid) tb'" unfolding tb_ok_def
  proof (intro conjI allI impI)
    show "length (hash_bit tb') = 4" "length (fid_table tb') = 128" "length (list_table tb') = 128" using U D(3) by simp_all
    show "slot_used tb' j \<longleftrightarrow> list_table tb' ! j \<noteq> []" if "j < 128" for j using that U(4) L D(4) by simp
    show "unat (fid_hash (fid_table tb' ! j) mod 16) = tb_of fid" if "j < 128" "slot_used tb' j" for j using that U(4,5) D(5)[of j] by auto
    show "j = k" if "j < 128" "k < 128" "slot_used tb' j" "slot_used tb' k" "fid_table tb' ! j = fid_table tb' ! k" for j k
    proof (cases "j = i \<or> k = i")
      case True
      then show ?thesis using that(1,2) that(3,4)[unfolded U(4)[OF that(1)] U(4)[OF that(2)]]
          that(5)[unfolded U(5)[OF that(1)] U(5)[OF that(2)]] own[of j] own[of k] by metis
    next
      case False
      have "slot_used ?tb j" "slot_used ?tb k" using that(3,4) False by (simp_all add: U(4)[OF that(1)] U(4)[OF that(2)])
      moreover have "fid_table ?tb ! j = fid_table ?tb ! k" using that(5) False by (simp add: U(5)[OF that(1)] U(5)[OF that(2)])
      ultimately show ?thesis by (rule D(6)[OF that(1,2)])
    qed
    show "queue_ok (list_table tb' ! j)" if "j < 128" for j using that L q D(7) by simp
  qed
  from ring_ok_update[OF ok this tb_of_less r'] show ok': "ring_ok r'" .
  have tb'_eq: "stc_ring_tb r' ! tb_of fid = tb'" using r' len by simp
  show slot: "fid_slot r' fid = (if q = [] then None else Some i)"
  proof (rule option_eqI)
    fix j show "fid_slot r' fid = Some j \<longleftrightarrow> (if q = [] then None else Some i) = Some j"
      unfolding fid_slot_Some[OF ok'] tb'_eq using U(4,5)[of j] own[of j] i by auto
  qed
  then show "rng_queue r' fid = q" using tb'_eq L i by (simp add: rng_queue_def)
  show "fid_slot r' f = fid_slot r f \<and> rng_queue r' f = rng_queue r f" if "f \<noteq> fid"
  proof (cases "tb_of f = tb_of fid")
    case False
    then show ?thesis using fid_slot_other[OF r'] by simp
  next
    case True
    have s: "fid_slot r' f = fid_slot r f"
    proof (rule option_eqI)
      fix j show "fid_slot r' f = Some j \<longleftrightarrow> fid_slot r f = Some j"
        unfolding fid_slot_Some[OF ok'] fid_slot_Some[OF ok] True tb'_eq using U(4,5)[of j] own[of j] that by (cases "j = i") auto
    qed
    moreover have "rng_queue r' f = rng_queue r f"
    proof (cases "fid_slot r f")
      case (Some j)
      then have "j < 128" "j \<noteq> i" using fid_slot_Some[OF ok, of f j] own[of j] that unfolding True by auto
      then show ?thesis using Some s L tb'_eq True by (simp add: rng_queue_def)
    qed (use s in \<open>simp add: rng_queue_def\<close>)
    ultimately show ?thesis by simp
  qed
qed


section \<open>Insertion and release\<close>

text \<open>The handle of a file: the index that an insertion returns.\<close>

definition rng_handle :: "stc_ring \<Rightarrow> fid_t \<Rightarrow> u32 \<Rightarrow> bool" where
  "rng_handle r fid idx \<longleftrightarrow> unat (idx AND 0xff) = tb_of fid \<and> fid_slot r fid = Some (unat (drop_bit 8 idx))"

lemma small_bits:
  assumes "k < 2 ^ m" "m \<le> n" shows "\<not> bit (word_of_nat k :: u32) n"
proof -
  have "k < 2 ^ n" using assms power_increasing[of m n "2::nat"] by linarith
  then show ?thesis by (simp add: bit_simps bit_nat_def)
qed

lemma handle_bits:
  assumes "k < 16" "i < 128"
  shows "unat (((word_of_nat k AND 0xff) OR push_bit 8 (word_of_nat i)) AND 0xff :: u32) = k"
    "unat (drop_bit 8 ((word_of_nat k AND 0xff) OR push_bit 8 (word_of_nat i) :: u32)) = i"
proof -
  have k: "unat (word_of_nat k :: u32) = k" and i: "unat (word_of_nat i :: u32) = i" using assms by (simp_all add: unat_of_nat)
  have ff: "(0xff :: u32) = mask 8" by (simp add: mask_eq_exp_minus_1)
  have low: "(word_of_nat k :: u32) AND 0xff = word_of_nat k"
    unfolding ff by (rule less_mask_eq) (use assms k in \<open>simp add: word_less_nat_alt\<close>)
  have "((word_of_nat k OR push_bit 8 (word_of_nat i)) AND 0xff :: u32) = word_of_nat k AND 0xff"
    unfolding ff by (rule bit_word_eqI) (auto simp: bit_simps)
  then show "unat (((word_of_nat k AND 0xff) OR push_bit 8 (word_of_nat i)) AND 0xff :: u32) = k" using low k by simp
  have dk: "drop_bit 8 (word_of_nat k :: u32) = 0"
    using small_bits[of k 8] assms(1) by (intro bit_word_eqI) (simp add: bit_simps)
  have di: "drop_bit 8 (push_bit 8 (word_of_nat i) :: u32) = word_of_nat i"
  proof (rule bit_word_eqI)
    fix n assume "n < LENGTH(32)"
    have "\<not> bit (word_of_nat i :: u32) m" if "24 \<le> m" for m using small_bits[of i 24 m] assms(2) that by simp
    then show "bit (drop_bit 8 (push_bit 8 (word_of_nat i) :: u32)) n = bit (word_of_nat i :: u32) n" using \<open>n < _\<close> by (cases "n < 24") (auto simp: bit_simps)
  qed
  show "unat (drop_bit 8 ((word_of_nat k AND 0xff) OR push_bit 8 (word_of_nat i) :: u32)) = i"
    using low dk di i by (simp add: drop_bit_or)
qed

definition new_request :: "stc_ring \<Rightarrow> nat \<Rightarrow> u8 \<Rightarrow> fid_t \<Rightarrow> u64 \<Rightarrow> u64 \<Rightarrow> stc_rng_entry_t" where
  "new_request r obj opcode fid bid nb = \<lparr>rng_obj = obj, rng_bid = bid, rng_nb_blks = nb, rng_opcode = opcode,
     rng_state = (if rng_queue r fid = [] \<or> (\<not> stc_rng_serialize r \<and> (\<forall>e \<in> set (rng_queue r fid). no_collision bid nb e)) then 1 else 0)\<rparr>"


lemma insert_ok:
  assumes ok: "ring_ok r" and obj: "obj \<notin> rng_obj ` set (rng_queue r fid)"
  shows "case stc_rng_insert obj opcode fid bid nb r of
      (None, r') \<Rightarrow> stc_ring_tb r' = stc_ring_tb r \<and> rng_queue r fid = [] \<and> (\<forall>i < 128. slot_used (stc_ring_tb r ! tb_of fid) i)
    | (Some (run, idx), r') \<Rightarrow> ring_ok r' \<and> (run \<longleftrightarrow> rng_state (new_request r obj opcode fid bid nb) = 1) \<and> rng_handle r' fid idx
        \<and> rng_queue r' fid = rng_queue r fid @ [new_request r obj opcode fid bid nb]
        \<and> (\<forall>f. f \<noteq> fid \<longrightarrow> fid_slot r' f = fid_slot r f \<and> rng_queue r' f = rng_queue r f) \<and> (fid_slot r fid \<noteq> None \<longrightarrow> fid_slot r' fid = fid_slot r fid)"
proof -
  let ?tb = "stc_ring_tb r ! tb_of fid" and ?e = "new_request r obj opcode fid bid nb"
  have tok: "tb_ok (tb_of fid) ?tb" and len: "length (stc_ring_tb r) = 16" using ok by (simp_all add: ring_ok_def)
  note D = tb_okD[OF tok]
  obtain res c where sw: "search_words fid (fid_table ?tb) 0 (hash_bit ?tb) (stc_rng_hash_collision_count r) = (res, c)" by fastforce
  note ss = search_slot[OF tok sw]
  have qok: "queue_ok (rng_queue r fid @ [?e])"
    by (rule queue_ok_append[OF rng_queue_ok[OF ok], where run = "rng_state ?e = 1"]) (use obj in \<open>auto simp: new_request_def split: if_splits\<close>)
  have main: "ring_ok r' \<and> rng_handle r' fid ((word_of_nat (tb_of fid) AND 0xff) OR push_bit 8 (word_of_nat i)) \<and> rng_queue r' fid = rng_queue r fid @ [?e]
      \<and> (\<forall>f. f \<noteq> fid \<longrightarrow> fid_slot r' f = fid_slot r f \<and> rng_queue r' f = rng_queue r f) \<and> fid_slot r' fid = Some i"
    if i: "i < 128" and u: "slot_update i fid (rng_queue r fid @ [?e]) ?tb tb'" and r': "stc_ring_tb r' = (stc_ring_tb r)[tb_of fid := tb']"
      and own: "\<And>j. j < 128 \<Longrightarrow> slot_used ?tb j \<Longrightarrow> fid_table ?tb ! j = fid \<longleftrightarrow> j = i" for i tb' r'
    using slot_update_ok[OF ok i u qok own r'] handle_bits[OF tb_of_less i, of fid] by (simp add: rng_handle_def)
  show ?thesis
  proof (cases res)
    case (Some i)
    then have i: "i < 128" "slot_used ?tb i" "fid_table ?tb ! i = fid" using ss by auto
    have q: "rng_queue r fid = list_table ?tb ! i" by (rule rng_queue_slot[OF ok i])
    have slot: "fid_slot r fid = Some i" using fid_slot_Some[OF ok] i by simp
    obtain p run coll where eng: "engage (stc_rng_serialize r) bid nb (list_table ?tb ! i) 0 = (p, run, coll)" by (metis prod_cases3)
    have run: "run \<longleftrightarrow> rng_state ?e = 1" using engage_spec[OF eng] q by (auto simp: new_request_def)
    have e: "\<lparr>rng_obj = obj, rng_bid = bid, rng_nb_blks = nb, rng_opcode = opcode, rng_state = (if run then 1 else 0)\<rparr> = ?e"
      using run by (auto simp: new_request_def split: if_splits)
    let ?tb' = "?tb\<lparr>list_table := (list_table ?tb)[i := list_table ?tb ! i @ [?e]]\<rparr>"
    have u: "slot_update i fid (rng_queue r fid @ [?e]) ?tb ?tb'" using D i q by (simp add: slot_update_def)
    have own: "fid_table ?tb ! j = fid \<longleftrightarrow> j = i" if "j < 128" "slot_used ?tb j" for j using D(6)[of j i] that i by auto
    obtain idx r' where ins: "stc_rng_insert obj opcode fid bid nb r = (Some (run, idx), r')" "idx = (word_of_nat (tb_of fid) AND 0xff) OR push_bit 8 (word_of_nat i)"
      "stc_ring_tb r' = (stc_ring_tb r)[tb_of fid := ?tb']"
      using sw Some eng e by (simp add: stc_rng_insert_def Let_def)
    from main[OF i(1) u ins(3) own] ins run slot show ?thesis by simp
  next
    case None
    then have none: "fid_table ?tb ! i \<noteq> fid" if "i < 128" "slot_used ?tb i" for i using ss that by simp
    have q: "rng_queue r fid = []" by (rule rng_queue_nil[OF ok none])
    have noslot: "fid_slot r fid = None" using fid_slot_Some[OF ok, of fid] none by (cases "fid_slot r fid") auto
    note fs = free_slot[OF tok]
    show ?thesis
    proof (cases "find_free 0 (hash_bit ?tb)")
      case nf: None
      have "stc_rng_insert obj opcode fid bid nb r = (None, r\<lparr>stc_rng_submit_count := stc_rng_submit_count r + 1, stc_rng_hash_collision_count := c, stc_rng_full_count := stc_rng_full_count r + 1\<rparr>)"
        using sw None nf by (simp add: stc_rng_insert_def Let_def)
      then show ?thesis using nf fs q by simp
    next
      case nf: (Some i)
      then have i: "i < 128" "\<not> slot_used ?tb i" using fs by auto
      let ?tb' = "?tb\<lparr>hash_bit := (hash_bit ?tb)[i div 32 := hash_bit ?tb ! (i div 32) OR push_bit (i mod 32) 1],
                    fid_table := (fid_table ?tb)[i := fid], list_table := (list_table ?tb)[i := [], i := [?e]]\<rparr>"
      have run: "rng_state ?e = 1" using q by (simp add: new_request_def)
      have e: "\<lparr>rng_obj = obj, rng_bid = bid, rng_nb_blks = nb, rng_opcode = opcode, rng_state = 1\<rparr> = ?e" using q by (simp add: new_request_def)
      have "slot_used ?tb' j \<longleftrightarrow> (if j = i then True else slot_used ?tb j)" if "j < 128" for j
        using slot_used_set[OF D(1) i(1) that] by (simp add: slot_used_def)
      then have u: "slot_update i fid (rng_queue r fid @ [?e]) ?tb ?tb'" using D(1-3) i q by (simp add: slot_update_def)
      have own: "fid_table ?tb ! j = fid \<longleftrightarrow> j = i" if "j < 128" "slot_used ?tb j" for j using none[OF that] that i by auto
      obtain idx r' where ins: "stc_rng_insert obj opcode fid bid nb r = (Some (True, idx), r')" "idx = (word_of_nat (tb_of fid) AND 0xff) OR push_bit 8 (word_of_nat i)"
        "stc_ring_tb r' = (stc_ring_tb r)[tb_of fid := ?tb']"
        using sw None nf e i D(3) by (simp add: stc_rng_insert_def Let_def)
      from main[OF i(1) u ins(3) own] ins run noslot show ?thesis by simp
    qed
  qed
qed

lemma release_ok:
  assumes ok: "ring_ok r" and h: "rng_handle r fid idx" and res: "stc_rng_release_entry idx obj r = (nr, r')"
  shows "ring_ok r'" and "nr = fst (release_queue obj (rng_queue r fid))" and "rng_queue r' fid = snd (release_queue obj (rng_queue r fid))"
    and "f \<noteq> fid \<Longrightarrow> fid_slot r' f = fid_slot r f \<and> rng_queue r' f = rng_queue r f" and "rng_queue r' fid \<noteq> [] \<Longrightarrow> fid_slot r' fid = fid_slot r fid"
proof -
  let ?tb = "stc_ring_tb r ! tb_of fid" let ?i = "unat (drop_bit 8 idx)"
  have tok: "tb_ok (tb_of fid) ?tb" using ok by (simp add: ring_ok_def)
  note D = tb_okD[OF tok]
  have slot: "fid_slot r fid = Some ?i" and k: "unat (idx AND 0xff) = tb_of fid" using h by (simp_all add: rng_handle_def)
  then have i: "?i < 128" "slot_used ?tb ?i" "fid_table ?tb ! ?i = fid" using fid_slot_Some[OF ok] by blast+
  have q: "list_table ?tb ! ?i = rng_queue r fid" by (rule rng_queue_slot[OF ok i, symmetric])
  obtain nr' q' where rq: "release_queue obj (rng_queue r fid) = (nr', q')" by fastforce
  let ?tb1 = "?tb\<lparr>list_table := (list_table ?tb)[?i := q']\<rparr>"
  let ?tb' = "if q' = [] then ?tb1\<lparr>hash_bit := (hash_bit ?tb1)[?i div 32 := clear_bit (hash_bit ?tb1 ! (?i div 32)) (?i mod 32)]\<rparr> else ?tb1"
  have nr: "nr = nr'" and r': "stc_ring_tb r' = (stc_ring_tb r)[tb_of fid := ?tb']"
    using res k q rq by (auto simp: stc_rng_release_entry_def Let_def)
  have "slot_used ?tb' j \<longleftrightarrow> (if j = ?i then q' \<noteq> [] else slot_used ?tb j)" if "j < 128" for j
    using slot_used_clear[of ?tb1 ?i j] D(1) i that by auto
  then have u: "slot_update ?i fid q' ?tb ?tb'" using D(1-3) i(3) by (auto simp: slot_update_def)
  have qok: "queue_ok q'" using release_queue_ok[OF rng_queue_ok[OF ok], of obj fid] rq by simp
  have own: "fid_table ?tb ! j = fid \<longleftrightarrow> j = ?i" if "j < 128" "slot_used ?tb j" for j using D(6)[of j ?i] that i by auto
  note S = slot_update_ok[OF ok i(1) u qok own r']
  show "ring_ok r'" by (rule S)
  show "nr = fst (release_queue obj (rng_queue r fid))" using nr rq by simp
  show "rng_queue r' fid = snd (release_queue obj (rng_queue r fid))" using S(4) rq by simp
  show "fid_slot r' f = fid_slot r f \<and> rng_queue r' f = rng_queue r f" if "f \<noteq> fid" using S(2) that by blast
  show "fid_slot r' fid = fid_slot r fid" if "rng_queue r' fid \<noteq> []" using that S(3,4) slot by simp
qed


section \<open>The requests of the storage client\<close>

text \<open>
  The client keeps with each object the file and the index that the insertion returned; it inserts an object that is not in the ring,
  and releases an object with that index when its request is done. The serialisation flag is set from the
  debug interface at any time.
\<close>

inductive rng_reach :: "stc_ring \<Rightarrow> (nat \<Rightarrow> (fid_t \<times> u32) option) \<Rightarrow> bool" where
  init: "rng_reach stc_rng_init (\<lambda>_. None)"
| insert: "rng_reach r H \<Longrightarrow> H obj = None \<Longrightarrow> stc_rng_insert obj opcode fid bid nb r = (Some (run, idx), r') \<Longrightarrow> rng_reach r' (H(obj \<mapsto> (fid, idx)))"
| full: "rng_reach r H \<Longrightarrow> H obj = None \<Longrightarrow> stc_rng_insert obj opcode fid bid nb r = (None, r') \<Longrightarrow> rng_reach r' H"
| release: "rng_reach r H \<Longrightarrow> H obj = Some (fid, idx) \<Longrightarrow> stc_rng_release_entry idx obj r = (nr, r') \<Longrightarrow> rng_reach r' (H(obj := None))"
| serialize: "rng_reach r H \<Longrightarrow> rng_reach (r\<lparr>stc_rng_serialize := b\<rparr>) H"

definition rng_inv :: "stc_ring \<Rightarrow> (nat \<Rightarrow> (fid_t \<times> u32) option) \<Rightarrow> bool" where
  "rng_inv r H \<longleftrightarrow> ring_ok r \<and> (\<forall>fid e. e \<in> set (rng_queue r fid) \<longrightarrow> (\<exists>idx. H (rng_obj e) = Some (fid, idx)))
     \<and> (\<forall>obj fid idx. H obj = Some (fid, idx) \<longrightarrow> rng_handle r fid idx \<and> obj \<in> rng_obj ` set (rng_queue r fid))"

lemma same_tb:
  assumes "stc_ring_tb r' = stc_ring_tb r"
  shows "ring_ok r' = ring_ok r" "rng_queue r' = rng_queue r" "rng_handle r' = rng_handle r"
proof -
  have "fid_slot r' f = fid_slot r f" for f by (simp only: fid_slot_def assms)
  then show "ring_ok r' = ring_ok r" "rng_queue r' = rng_queue r" "rng_handle r' = rng_handle r"
    by (simp only: ring_ok_def assms, intro ext, simp only: rng_queue_def assms, intro ext, simp only: rng_handle_def)
qed

lemma release_queue_objs:
  assumes "queue_ok q"
  shows "rng_obj ` set (snd (release_queue obj q)) = rng_obj ` set q - {obj}"
proof -
  have "rng_obj ` set (snd (release_queue obj q)) = rng_obj ` set (unlink_obj obj q)"
    by (cases "unlink_obj obj q") (auto simp: release_queue_def Let_def)
  then show ?thesis by (auto simp: unlink_obj_def)
qed

lemma replicate_tb_ok: "tb_ok k \<lparr>hash_bit = replicate 4 0, fid_table = replicate 128 (0, 0), list_table = replicate 128 []\<rparr>"
  by (simp add: tb_ok_def slot_used_def queue_ok_def less_mult_imp_div_less)

lemma rng_inv_init: "rng_inv stc_rng_init (\<lambda>_. None)"
proof -
  have ok: "ring_ok stc_rng_init" using replicate_tb_ok by (simp add: ring_ok_def stc_rng_init_def)
  have tb: "stc_ring_tb stc_rng_init ! tb_of fid = \<lparr>hash_bit = replicate 4 0, fid_table = replicate 128 (0, 0), list_table = replicate 128 []\<rparr>" for fid
    using tb_of_less[of fid] by (simp add: stc_rng_init_def)
  have "rng_queue stc_rng_init fid = []" for fid
    by (rule rng_queue_nil[OF ok]) (simp add: tb slot_used_def less_mult_imp_div_less)
  with ok show ?thesis by (simp add: rng_inv_def)
qed

lemma rng_inv_fresh: "rng_inv r H \<Longrightarrow> H obj = None \<Longrightarrow> obj \<notin> rng_obj ` set (rng_queue r fid)"
  unfolding rng_inv_def by (metis image_iff option.distinct(1))

lemma rng_reach_inv: "rng_reach r H \<Longrightarrow> rng_inv r H"
proof (induction rule: rng_reach.induct)
  case init
  show ?case by (rule rng_inv_init)
next
  case (insert r H obj opcode fid bid nb run idx r')
  have ok: "ring_ok r" and Q: "\<And>fid e. e \<in> set (rng_queue r fid) \<Longrightarrow> \<exists>idx. H (rng_obj e) = Some (fid, idx)"
    and Hd: "\<And>obj fid idx. H obj = Some (fid, idx) \<Longrightarrow> rng_handle r fid idx \<and> obj \<in> rng_obj ` set (rng_queue r fid)" using insert.IH by (simp_all add: rng_inv_def)
  have new: "obj \<notin> rng_obj ` set (rng_queue r fid)" by (rule rng_inv_fresh[OF insert.IH insert.hyps(2)])
  let ?e = "new_request r obj opcode fid bid nb"
  from insert_ok[OF ok new, of opcode bid nb] insert.hyps(3) have I: "ring_ok r'" "rng_handle r' fid idx" "rng_queue r' fid = rng_queue r fid @ [?e]"
    "\<And>f. f \<noteq> fid \<Longrightarrow> fid_slot r' f = fid_slot r f \<and> rng_queue r' f = rng_queue r f" "fid_slot r fid \<noteq> None \<Longrightarrow> fid_slot r' fid = fid_slot r fid" by simp_all
  have obj: "rng_obj ?e = obj" by (simp add: new_request_def)
  have "\<exists>idx'. (H(obj \<mapsto> (fid, idx))) (rng_obj e) = Some (f, idx')" if "e \<in> set (rng_queue r' f)" for f e
  proof (cases "f = fid \<and> e = ?e")
    case False
    then have "e \<in> set (rng_queue r f)" using that I(3,4) by (cases "f = fid") auto
    from Q[OF this] insert.hyps(2) show ?thesis by (cases "rng_obj e = obj") auto
  qed (simp add: obj)
  moreover have "rng_handle r' f i \<and> ob \<in> rng_obj ` set (rng_queue r' f)" if "(H(obj \<mapsto> (fid, idx))) ob = Some (f, i)" for ob f i
  proof (cases "ob = obj")
    case True
    then show ?thesis using that I(2,3) obj by auto
  next
    case False
    then have h: "rng_handle r f i" "ob \<in> rng_obj ` set (rng_queue r f)" using that Hd by auto
    have "fid_slot r' f = fid_slot r f" using h(1) I(4,5) by (cases "f = fid") (auto simp: rng_handle_def)
    with h I(3,4) show ?thesis by (cases "f = fid") (auto simp: rng_handle_def)
  qed
  ultimately show ?case using I(1) unfolding rng_inv_def by blast
next
  case (full r H obj opcode fid bid nb r')
  have ok: "ring_ok r" using full.IH by (simp add: rng_inv_def)
  from insert_ok[OF ok rng_inv_fresh[OF full.IH full.hyps(2)], of fid opcode bid nb] full.hyps(3) have "stc_ring_tb r' = stc_ring_tb r" by simp
  from same_tb[OF this] full.IH show ?case by (simp add: rng_inv_def)
next
  case (release r H obj fid idx nr r')
  have ok: "ring_ok r" and Q: "\<And>fid e. e \<in> set (rng_queue r fid) \<Longrightarrow> \<exists>idx. H (rng_obj e) = Some (fid, idx)"
    and Hd: "\<And>obj fid idx. H obj = Some (fid, idx) \<Longrightarrow> rng_handle r fid idx \<and> obj \<in> rng_obj ` set (rng_queue r fid)" using release.IH by (simp_all add: rng_inv_def)
  have h: "rng_handle r fid idx" using Hd[OF release.hyps(2)] by simp
  note R = release_ok[OF ok h release.hyps(3)]
  have objs: "rng_obj ` set (rng_queue r' fid) = rng_obj ` set (rng_queue r fid) - {obj}"
    unfolding R(3) by (rule release_queue_objs[OF rng_queue_ok[OF ok]])
  have "\<exists>i. (H(obj := None)) (rng_obj e) = Some (f, i)" if e: "e \<in> set (rng_queue r' f)" for f e
  proof (cases "f = fid")
    case True
    then obtain e' where "e' \<in> set (rng_queue r fid)" "rng_obj e' = rng_obj e" "rng_obj e \<noteq> obj" using e objs by (metis DiffE image_eqI imageE singletonI)
    with Q True show ?thesis by (metis fun_upd_other)
  next
    case False
    then have "e \<in> set (rng_queue r f)" using e R(4) by simp
    with Q False release.hyps(2) show ?thesis by (metis fun_upd_other option.inject prod.inject)
  qed
  moreover have "rng_handle r' f i \<and> ob \<in> rng_obj ` set (rng_queue r' f)" if "(H(obj := None)) ob = Some (f, i)" for ob f i
  proof -
    have ob: "ob \<noteq> obj" "H ob = Some (f, i)" using that by (auto split: if_splits)
    then have m: "rng_handle r f i" "ob \<in> rng_obj ` set (rng_queue r f)" using Hd by auto
    show ?thesis
    proof (cases "f = fid")
      case True
      then have "ob \<in> rng_obj ` set (rng_queue r' fid)" using m(2) ob(1) objs by simp
      moreover from this have "fid_slot r' fid = fid_slot r fid" using R(5) by force
      ultimately show ?thesis using m True by (simp add: rng_handle_def)
    next
      case False
      then show ?thesis using m R(4) by (simp add: rng_handle_def)
    qed
  qed
  ultimately show ?case using R(1) unfolding rng_inv_def by blast
next
  case (serialize r H b)
  have "stc_ring_tb (r\<lparr>stc_rng_serialize := b\<rparr>) = stc_ring_tb r" by simp
  from same_tb[OF this] serialize.IH show ?case by (simp add: rng_inv_def)
qed


lemma running_apart:
  assumes "queue_ok q" "e \<in> set q" "e' \<in> set q" "e \<noteq> e'" "rng_state e = STORCLI_RUN" "rng_state e' = STORCLI_RUN"
  shows "no_collision (rng_bid e) (rng_nb_blks e) e' \<or> no_collision (rng_bid e') (rng_nb_blks e') e"
proof -
  obtain i j where ij: "i < length q" "q ! i = e" "j < length q" "q ! j = e'" using assms(2,3) by (auto simp: in_set_conv_nth)
  then have "i < j \<or> j < i" using assms(4) by (metis linorder_neqE_nat)
  with ij assms(1,5,6) show ?thesis unfolding queue_ok_def sorted_wrt_iff_nth_less by metis
qed

definition request_blocks :: "stc_rng_entry_t \<Rightarrow> nat set" where
  "request_blocks e = {unat (rng_bid e) ..< unat (rng_bid e) + unat (rng_nb_blks e)}"

lemma no_collision_disjoint:
  assumes "no_collision (rng_bid e) (rng_nb_blks e) e'"
    and w: "unat (rng_bid e) + unat (rng_nb_blks e) < 2 ^ 64" "unat (rng_bid e') + unat (rng_nb_blks e') < 2 ^ 64"
  shows "request_blocks e \<inter> request_blocks e' = {}"
proof -
  have "unat (rng_bid e + rng_nb_blks e) = unat (rng_bid e) + unat (rng_nb_blks e)" "unat (rng_bid e' + rng_nb_blks e') = unat (rng_bid e') + unat (rng_nb_blks e')"
    using w by (simp_all add: unat_word_ariths)
  with assms(1) show ?thesis by (auto simp: no_collision_def request_blocks_def word_le_nat_alt)
qed

section \<open>Properties\<close>

text \<open>
  C6. Exclusion. Whatever requests the storage client submits and completes, two requests that run at the same time on the same file
  never work on the same block, as long as their last block fits in 64 bits.
\<close>

theorem ring_exclusion:
  assumes "rng_reach r H" "e \<in> set (rng_queue r fid)" "e' \<in> set (rng_queue r fid)" "e \<noteq> e'"
    and "rng_state e = STORCLI_RUN" "rng_state e' = STORCLI_RUN"
    and "unat (rng_bid e) + unat (rng_nb_blks e) < 2 ^ 64" "unat (rng_bid e') + unat (rng_nb_blks e') < 2 ^ 64"
  shows "request_blocks e \<inter> request_blocks e' = {}"
proof -
  have "queue_ok (rng_queue r fid)" using rng_reach_inv[OF assms(1)] rng_queue_ok by (simp add: rng_inv_def)
  from running_apart[OF this assms(2-6)] no_collision_disjoint[OF _ assms(7,8)] no_collision_disjoint[OF _ assms(8,7)] show ?thesis by blast
qed

text \<open>
  What happens from a state on: submissions, whether the ring has room or not, completions in any order, and changes of the flag. \<open>D\<close> is the set of the objects whose requests were completed.
\<close>

inductive rng_trace :: "stc_ring \<Rightarrow> (nat \<Rightarrow> (fid_t \<times> u32) option) \<Rightarrow> nat set \<Rightarrow> stc_ring \<Rightarrow> (nat \<Rightarrow> (fid_t \<times> u32) option) \<Rightarrow> bool" for r0 H0 where
  stop: "rng_trace r0 H0 {} r0 H0"
| submitted: "rng_trace r0 H0 D r H \<Longrightarrow> H obj = None \<Longrightarrow> stc_rng_insert obj opcode fid bid nb r = (Some (run, idx), r') \<Longrightarrow> rng_trace r0 H0 D r' (H(obj \<mapsto> (fid, idx)))"
| no_room: "rng_trace r0 H0 D r H \<Longrightarrow> H obj = None \<Longrightarrow> stc_rng_insert obj opcode fid bid nb r = (None, r') \<Longrightarrow> rng_trace r0 H0 D r' H"
| completed: "rng_trace r0 H0 D r H \<Longrightarrow> H obj = Some (fid, idx) \<Longrightarrow> stc_rng_release_entry idx obj r = (nr, r') \<Longrightarrow> rng_trace r0 H0 (insert obj D) r' (H(obj := None))"
| flag: "rng_trace r0 H0 D r H \<Longrightarrow> rng_trace r0 H0 D (r\<lparr>stc_rng_serialize := b\<rparr>) H"

lemma trace_reach: "rng_trace r0 H0 D r H \<Longrightarrow> rng_reach r0 H0 \<Longrightarrow> rng_reach r H"
  by (induction rule: rng_trace.induct) (auto intro: rng_reach.intros)

lemma release_split:
  assumes "rng_obj e \<noteq> obj"
  shows "\<exists>pre' e' post'. snd (release_queue obj (pre @ e # post)) = pre' @ e' # post' \<and> rng_obj e' = rng_obj e
    \<and> map rng_obj pre' = filter (\<lambda>ob. ob \<noteq> obj) (map rng_obj pre) \<and> (rng_state e = STORCLI_RUN \<longrightarrow> rng_state e' = STORCLI_RUN)"
proof -
  have u: "unlink_obj obj (pre @ e # post) = unlink_obj obj pre @ e # unlink_obj obj post" using assms by (simp add: unlink_obj_def)
  have m: "map rng_obj (unlink_obj obj pre) = filter (\<lambda>ob. ob \<noteq> obj) (map rng_obj pre)" by (simp add: unlink_obj_def filter_map comp_def)
  show ?thesis
  proof (cases "unlink_obj obj pre")
    case Nil
    then have q: "unlink_obj obj (pre @ e # post) = e # unlink_obj obj post" using u by simp
    then have "snd (release_queue obj (pre @ e # post)) = e # unlink_obj obj post \<or> snd (release_queue obj (pre @ e # post)) = e\<lparr>rng_state := 1\<rparr> # unlink_obj obj post"
      by (simp add: release_queue_def Let_def)
    then obtain e' where "snd (release_queue obj (pre @ e # post)) = [] @ e' # unlink_obj obj post" "rng_obj e' = rng_obj e" "rng_state e = STORCLI_RUN \<longrightarrow> rng_state e' = STORCLI_RUN"
      by (elim disjE) (metis append_Nil, force)
    then show ?thesis using m Nil by (intro exI[of _ "[]"] exI[of _ e'] exI[of _ "unlink_obj obj post"]) simp
  next
    case (Cons a as)
    then have q: "unlink_obj obj (pre @ e # post) = a # as @ e # unlink_obj obj post" using u by simp
    then have "snd (release_queue obj (pre @ e # post)) = a # as @ e # unlink_obj obj post \<or> snd (release_queue obj (pre @ e # post)) = a\<lparr>rng_state := 1\<rparr> # as @ e # unlink_obj obj post"
      by (simp add: release_queue_def Let_def)
    then obtain a' where "snd (release_queue obj (pre @ e # post)) = (a' # as) @ e # unlink_obj obj post" "rng_obj a' = rng_obj a"
      by (elim disjE) (metis append_Cons, force)
    then show ?thesis using m Cons by (intro exI[of _ "a' # as"] exI[of _ e] exI[of _ "unlink_obj obj post"]) simp
  qed
qed

text \<open>The place of a request in its queue.\<close>

lemma trace_place:
  assumes "rng_trace r0 H0 D r H" "rng_reach r0 H0" "rng_queue r0 fid = pre @ e # post" "rng_obj e \<notin> D"
  shows "\<exists>pre' e' post'. rng_queue r fid = pre' @ e' # post' \<and> rng_obj e' = rng_obj e
    \<and> map rng_obj pre' = filter (\<lambda>ob. ob \<notin> D) (map rng_obj pre) \<and> (rng_state e = STORCLI_RUN \<longrightarrow> rng_state e' = STORCLI_RUN)"
  using assms
proof (induction rule: rng_trace.induct)
  case stop
  then show ?case by (intro exI[of _ pre] exI[of _ e] exI[of _ post]) simp
next
  case (submitted D r H obj opcode f bid nb run idx r')
  have inv: "rng_inv r H" by (rule rng_reach_inv[OF trace_reach[OF submitted.hyps(1) submitted.prems(1)]])
  then have ok: "ring_ok r" by (simp add: rng_inv_def)
  from insert_ok[OF ok rng_inv_fresh[OF inv submitted.hyps(2)], of f opcode bid nb] submitted.hyps(3)
  obtain more where "rng_queue r' fid = rng_queue r fid @ more" by (cases "f = fid") auto
  moreover obtain pre1 e1 post1 where "rng_queue r fid = pre1 @ e1 # post1" "rng_obj e1 = rng_obj e"
    "map rng_obj pre1 = filter (\<lambda>ob. ob \<notin> D) (map rng_obj pre)" "rng_state e = STORCLI_RUN \<longrightarrow> rng_state e1 = STORCLI_RUN" using submitted.IH[OF submitted.prems] by blast
  ultimately show ?case by (intro exI[of _ pre1] exI[of _ e1] exI[of _ "post1 @ more"]) simp
next
  case (no_room D r H obj opcode f bid nb r')
  have inv: "rng_inv r H" by (rule rng_reach_inv[OF trace_reach[OF no_room.hyps(1) no_room.prems(1)]])
  then have ok: "ring_ok r" by (simp add: rng_inv_def)
  from insert_ok[OF ok rng_inv_fresh[OF inv no_room.hyps(2)], of f opcode bid nb] no_room.hyps(3) have "stc_ring_tb r' = stc_ring_tb r" by simp
  then show ?case using no_room.IH[OF no_room.prems] same_tb(2) by metis
next
  case (completed D r H obj f idx nr r')
  have inv: "rng_inv r H" by (rule rng_reach_inv[OF trace_reach[OF completed.hyps(1) completed.prems(1)]])
  then have ok: "ring_ok r" "rng_handle r f idx" using completed.hyps(2) by (auto simp: rng_inv_def)
  note R = release_ok[OF ok completed.hyps(3)]
  have e: "rng_obj e \<notin> D" "rng_obj e \<noteq> obj" using completed.prems(3) by auto
  from completed.IH[OF completed.prems(1,2) e(1)] obtain pre1 e1 post1 where 1: "rng_queue r fid = pre1 @ e1 # post1" "rng_obj e1 = rng_obj e"
    "map rng_obj pre1 = filter (\<lambda>ob. ob \<notin> D) (map rng_obj pre)" "rng_state e = STORCLI_RUN \<longrightarrow> rng_state e1 = STORCLI_RUN" by blast
  show ?case
  proof (cases "f = fid")
    case True
    have "rng_obj e1 \<noteq> obj" using e(2) 1(2) by simp
    from release_split[OF this, of pre1 post1] obtain pre2 e2 post2 where 2: "rng_queue r' fid = pre2 @ e2 # post2" "rng_obj e2 = rng_obj e"
      "map rng_obj pre2 = filter (\<lambda>ob. ob \<noteq> obj) (map rng_obj pre1)" "rng_state e1 = STORCLI_RUN \<longrightarrow> rng_state e2 = STORCLI_RUN" using R(3) 1(1,2) True by auto
    have "map rng_obj pre2 = filter (\<lambda>ob. ob \<notin> insert obj D) (map rng_obj pre)" unfolding 2(3) 1(3) filter_filter by (intro filter_cong) auto
    then show ?thesis using 1(4) 2 by (intro exI[of _ pre2] exI[of _ e2] exI[of _ post2]) simp
  next
    case False
    have "obj \<notin> rng_obj ` set pre1"
    proof
      assume "obj \<in> rng_obj ` set pre1"
      then obtain a where "a \<in> set (rng_queue r fid)" "rng_obj a = obj" using 1(1) by auto
      then show False using inv completed.hyps(2) False unfolding rng_inv_def by (metis option.inject prod.inject)
    qed
    then have "map rng_obj pre1 = filter (\<lambda>ob. ob \<noteq> obj) (map rng_obj pre1)" by (intro filter_True[symmetric]) auto
    also have "\<dots> = filter (\<lambda>ob. ob \<notin> insert obj D) (map rng_obj pre)" unfolding 1(3) filter_filter by (intro filter_cong) auto
    finally show ?thesis using R(4)[of fid] False 1 by (intro exI[of _ pre1] exI[of _ e1] exI[of _ post1]) simp
  qed
next
  case (flag D r H b)
  have "stc_ring_tb (r\<lparr>stc_rng_serialize := b\<rparr>) = stc_ring_tb r" by simp
  then show ?case using flag.IH[OF flag.prems] same_tb(2) by metis
qed

text \<open>
  C17. No request waits for ever. Whatever is submitted and completed after it, in whatever order, a request keeps its place behind the requests that were submitted before it for its file and are not
  completed, and nothing gets in front of it. It runs at the latest when all of these are completed, it does not stop running before it is completed itself, and as long as it is in the queue
  some request of the file runs: the first of the queue. (A request that collides with no other may run at once, before earlier ones.)
\<close>

theorem ring_no_starvation:
  assumes "rng_reach r H" "rng_queue r fid = pre @ e # post" "rng_trace r H D r' H'" "rng_obj e \<notin> D"
  shows "\<exists>pre' e' post'. rng_queue r' fid = pre' @ e' # post' \<and> rng_obj e' = rng_obj e
    \<and> map rng_obj pre' = filter (\<lambda>ob. ob \<notin> D) (map rng_obj pre)
    \<and> (rng_state e = STORCLI_RUN \<or> rng_obj ` set pre \<subseteq> D \<longrightarrow> rng_state e' = STORCLI_RUN)
    \<and> rng_state (hd (rng_queue r' fid)) = STORCLI_RUN"
proof -
  obtain pre' e' post' where q: "rng_queue r' fid = pre' @ e' # post'" "rng_obj e' = rng_obj e"
    "map rng_obj pre' = filter (\<lambda>ob. ob \<notin> D) (map rng_obj pre)" "rng_state e = STORCLI_RUN \<longrightarrow> rng_state e' = STORCLI_RUN"
    using trace_place[OF assms(3,1,2,4)] by blast
  have "queue_ok (rng_queue r' fid)" using rng_reach_inv[OF trace_reach[OF assms(3,1)]] rng_queue_ok by (simp add: rng_inv_def)
  then have first: "rng_state (hd (rng_queue r' fid)) = STORCLI_RUN" using q(1) by (simp add: queue_ok_def)
  have "rng_state e' = STORCLI_RUN" if "rng_obj ` set pre \<subseteq> D"
  proof -
    have "filter (\<lambda>ob. ob \<notin> D) (map rng_obj pre) = []" using that by (auto simp: filter_empty_conv)
    then have "pre' = []" using q(3) by simp
    then show ?thesis using first q(1) by simp
  qed
  then show ?thesis using q first by blast
qed

text \<open>
  Submission. It appends the request to the queue of its file and no other queue changes; it runs exactly when the queue is empty or, without
  the serialisation flag, when it collides with no request before it. It fails only when the 128 places of its hash value are taken by other files.
\<close>

theorem ring_submission:
  assumes "rng_reach r H" "H obj = None"
  shows "case stc_rng_insert obj opcode fid bid nb r of
      (None, r') \<Rightarrow> rng_queue r' = rng_queue r \<and> rng_queue r fid = [] \<and> (\<forall>i < 128. list_table (stc_ring_tb r ! unat (fid_hash fid mod 16)) ! i \<noteq> [])
    | (Some (run, idx), r') \<Rightarrow> rng_queue r' = (rng_queue r)(fid := rng_queue r fid @ [new_request r obj opcode fid bid nb]) \<and> (run \<longleftrightarrow> rng_state (new_request r obj opcode fid bid nb) = 1)"
proof -
  have inv: "rng_inv r H" by (rule rng_reach_inv[OF assms(1)])
  then have ok: "ring_ok r" by (simp add: rng_inv_def)
  note I = insert_ok[OF ok rng_inv_fresh[OF inv assms(2)], of fid opcode bid nb]
  have tb: "tb_ok (tb_of fid) (stc_ring_tb r ! tb_of fid)" using ok by (simp add: ring_ok_def)
  obtain res r' where ins: "stc_rng_insert obj opcode fid bid nb r = (res, r')" by fastforce
  show ?thesis
  proof (cases res)
    case None
    then show ?thesis using I ins tb_okD(4)[OF tb] same_tb(2)[of r' r] by simp
  next
    case (Some ri)
    then obtain run idx where "res = Some (run, idx)" by fastforce
    moreover have "rng_queue r' = (rng_queue r)(fid := rng_queue r fid @ [new_request r obj opcode fid bid nb])"
      using I ins calculation by (intro ext) simp
    ultimately show ?thesis using I ins by simp
  qed
qed

text \<open>
  Completion. It takes the request out of the queue of its file and no other queue changes; when it was the first, the next one is started unless
  it already runs.
\<close>

theorem ring_completion:
  assumes "rng_reach r H" "H obj = Some (fid, idx)"
  shows "case stc_rng_release_entry idx obj r of
      (nr, r') \<Rightarrow> nr = fst (release_queue obj (rng_queue r fid)) \<and> rng_queue r' = (rng_queue r)(fid := snd (release_queue obj (rng_queue r fid)))
        \<and> map rng_obj (rng_queue r' fid) = filter (\<lambda>ob. ob \<noteq> obj) (map rng_obj (rng_queue r fid))"
proof -
  have inv: "rng_inv r H" by (rule rng_reach_inv[OF assms(1)])
  then have ok: "ring_ok r" "rng_handle r fid idx" using assms(2) by (auto simp: rng_inv_def)
  obtain nr r' where rel: "stc_rng_release_entry idx obj r = (nr, r')" by fastforce
  note R = release_ok[OF ok rel]
  have "map rng_obj (snd (release_queue obj q)) = filter (\<lambda>ob. ob \<noteq> obj) (map rng_obj q)" for q
    by (cases "unlink_obj obj q") (auto simp: release_queue_def Let_def filter_map comp_def unlink_obj_def[symmetric])
  moreover have "rng_queue r' = (rng_queue r)(fid := snd (release_queue obj (rng_queue r fid)))" using R by (intro ext) simp
  ultimately show ?thesis using R rel by simp
qed

definition sample_ring :: "stc_ring \<times> (nat \<Rightarrow> (fid_t \<times> u32) option)" where
  "sample_ring = (case stc_rng_insert 1 0 (0, 0) 0 10 stc_rng_init of (r1, s1) \<Rightarrow> (case stc_rng_insert 2 0 (0, 0) 5 10 s1 of (r2, s2) \<Rightarrow>
     (s2, (\<lambda>_. None)(1 \<mapsto> ((0, 0), snd (the r1)), 2 \<mapsto> ((0, 0), snd (the r2))))))"


lemma sample_ring_reach: "rng_reach (fst sample_ring) (snd sample_ring)"
proof -
  obtain x1 s1 where i1: "stc_rng_insert 1 0 (0, 0) 0 10 stc_rng_init = (x1, s1)" by fastforce
  obtain x2 s2 where i2: "stc_rng_insert 2 0 (0, 0) 5 10 s1 = (x2, s2)" by fastforce
  have "fst (stc_rng_insert 1 0 (0, 0) 0 10 stc_rng_init) \<noteq> None \<and> fst (stc_rng_insert 2 0 (0, 0) 5 10 (snd (stc_rng_insert 1 0 (0, 0) 0 10 stc_rng_init))) \<noteq> None" by code_simp
  with i1 i2 obtain b1 h1 b2 h2 where x: "x1 = Some (b1, h1)" "x2 = Some (b2, h2)" by auto
  have "rng_reach s1 ((\<lambda>_. None)(1 \<mapsto> ((0, 0), h1)))" by (rule rng_reach.insert[OF rng_reach.init _ i1[unfolded x]]) simp
  then have "rng_reach s2 ((\<lambda>_. None)(1 \<mapsto> ((0, 0), h1), 2 \<mapsto> ((0, 0), h2)))" by (rule rng_reach.insert[OF _ _ i2[unfolded x]]) simp
  then show ?thesis using i1 i2 x by (simp add: sample_ring_def)
qed

text \<open>Two requests on the same file: the second overlaps the first and waits.\<close>

definition sample_apart :: "stc_ring \<times> (nat \<Rightarrow> (fid_t \<times> u32) option)" where
  "sample_apart = (case stc_rng_insert 3 0 (0, 0) 20 10 (fst sample_ring) of (x, s) \<Rightarrow> (s, (snd sample_ring)(3 \<mapsto> ((0, 0), snd (the x)))))"

lemma sample_apart_reach: "rng_reach (fst sample_apart) (snd sample_apart)"
proof -
  obtain x s where i: "stc_rng_insert 3 0 (0, 0) 20 10 (fst sample_ring) = (x, s)" by fastforce
  have "fst (stc_rng_insert 3 0 (0, 0) 20 10 (fst sample_ring)) \<noteq> None \<and> snd sample_ring 3 = None" by code_simp
  with i obtain b h where x: "x = Some (b, h)" "snd sample_ring 3 = None" by auto
  from rng_reach.insert[OF sample_ring_reach x(2) i[unfolded x(1)]] show ?thesis using i x by (simp add: sample_apart_def)
qed

theorem ring_exclusion_witness:
  "\<exists>e e'. rng_queue (fst sample_apart) (0, 0) ! 0 = e \<and> rng_queue (fst sample_apart) (0, 0) ! 2 = e' \<and> rng_state e = 1 \<and> rng_state e' = 1 \<and> request_blocks e \<inter> request_blocks e' = {}"
proof -
  let ?q = "rng_queue (fst sample_apart) (0, 0)"
  have q: "map (\<lambda>e. (rng_obj e, rng_state e, rng_bid e, rng_nb_blks e)) ?q = [(1, 1, 0, 10), (2, 0, 5, 10), (3, 1, 20, 10)]" by code_simp
  obtain a b c where abc: "?q = [a, b, c]" using q by (auto simp: map_eq_Cons_conv)
  have c: "rng_state a = 1" "rng_state c = 1" "rng_obj a \<noteq> rng_obj c" "rng_bid a = 0" "rng_nb_blks a = 10" "rng_bid c = 20" "rng_nb_blks c = 10" using q abc by auto
  have m: "a \<in> set ?q" "c \<in> set ?q" "a \<noteq> c" using abc c(3) by auto
  from ring_exclusion[OF sample_apart_reach m] c show ?thesis by (simp add: abc)
qed

theorem ring_no_starvation_witness:
  "\<exists>r'. stc_rng_release_entry 0 1 (fst sample_ring) = (Some (2, 0), r') \<and> map (\<lambda>e. (rng_obj e, rng_state e)) (rng_queue r' (0, 0)) = [(2, 1)]"
proof -
  have h: "snd sample_ring 1 = Some ((0, 0), 0)" and x: "map rng_obj (rng_queue (fst sample_ring) (0, 0)) = [1, 2]"
    and nr: "fst (stc_rng_release_entry 0 1 (fst sample_ring)) = Some (2, 0)" and len: "length (rng_queue (snd (stc_rng_release_entry 0 1 (fst sample_ring))) (0, 0)) = 1" by code_simp+
  obtain a b where q: "rng_queue (fst sample_ring) (0, 0) = [a] @ b # []" "rng_obj a = 1" "rng_obj b = 2" using x by (auto simp: map_eq_Cons_conv)
  obtain r' where rel: "stc_rng_release_entry 0 1 (fst sample_ring) = (Some (2, 0), r')" using nr by (metis prod.collapse)
  have "rng_trace (fst sample_ring) (snd sample_ring) (insert 1 {}) r' ((snd sample_ring)(1 := None))" 
    by (rule rng_trace.completed[where r = "fst sample_ring" and H = "snd sample_ring", OF rng_trace.stop h rel])
  from ring_no_starvation[OF sample_ring_reach q(1) this] q(2,3) obtain e' post' where "rng_queue r' (0, 0) = e' # post'" "rng_obj e' = 2" "rng_state e' = 1" by auto
  then show ?thesis using rel len by (auto simp: length_Suc_conv)
qed

theorem ring_submission_witness:
  "\<exists>idx r'. stc_rng_insert 3 0 (0, 0) 8 1 (fst sample_ring) = (Some (False, idx), r')"
proof -
  have n: "snd sample_ring 3 = None" and x: "map_option fst (fst (stc_rng_insert 3 0 (0, 0) 8 1 (fst sample_ring))) = Some False" by code_simp+
  from ring_submission[OF sample_ring_reach n, where opcode = 0 and fid = "(0, 0)" and bid = 8 and nb = 1] x show ?thesis
    by (cases "stc_rng_insert 3 0 (0, 0) 8 1 (fst sample_ring)") auto
qed

theorem ring_completion_witness:
  "\<exists>r'. stc_rng_release_entry 0 1 (fst sample_ring) = (Some (2, 0), r') \<and> map rng_obj (rng_queue r' (0, 0)) = [2]"
proof -
  have h: "snd sample_ring 1 = Some ((0, 0), 0)" and x: "fst (release_queue 1 (rng_queue (fst sample_ring) (0, 0))) = Some (2, 0) \<and> map rng_obj (rng_queue (fst sample_ring) (0, 0)) = [1, 2]" by code_simp+
  obtain nr r' where rel: "stc_rng_release_entry 0 1 (fst sample_ring) = (nr, r')" by fastforce
  from ring_completion[OF sample_ring_reach h, unfolded rel prod.case] have "nr = Some (2, 0)" "map rng_obj (rng_queue r' (0, 0)) = filter (\<lambda>ob. ob \<noteq> 1) [1, 2]"
    using conjunct1[OF x] conjunct2[OF x] by metis+
  with rel show ?thesis by simp
qed



end
