(* ===== verification/Storio_Serial.thy ===== *)
theory Storio_Serial
  imports Prelude
begin

text \<open>
  Serialisation of the disk requests of a file in the storage daemon
  (\<^verbatim>\<open>src/storaged/storio_serialization.c\<close> and \<^verbatim>\<open>storio_disk_serial\<close> of \<^verbatim>\<open>src/storaged/storio_disk_thread.c\<close>). The main thread queues the
  requests of a file in its context and wakes one disk thread with a message when none is
  working for the file; the disk threads take the queued requests and run them. The steps below are
  what happens between two changes of the shared state; a section under the lock of the context is one step,
  and the tests made without the lock are steps of their own.
\<close>

section \<open>Model\<close>

record rozorpc_srv_ctx_t =
  rpc_id :: nat
  rpc_opcode :: nat

record storio_ctx =
  serial_is_running :: bool
  serial_pending_request :: "rozorpc_srv_ctx_t list"

abbreviation (input) MAX_PENDING_REQUEST :: int where "MAX_PENDING_REQUEST \<equiv> 64"

text \<open>
  The contexts by index, the list of the contexts in use in the order of their last use, the activation messages under way,
  and the counters.
\<close>

record storio_state =
  sio_ctx :: "nat \<Rightarrow> storio_ctx"
  sio_initialized :: "nat list"
  sio_msgs :: "nat list"
  af_unix_disk_pending_req_count :: int
  af_unix_disk_pending_req_tbl :: "int \<Rightarrow> u64"
  storage_direct_req :: "nat \<Rightarrow> u64"
  storage_queued_req :: "nat \<Rightarrow> u64"

definition ctx_update :: "nat \<Rightarrow> (storio_ctx \<Rightarrow> storio_ctx) \<Rightarrow> storio_state \<Rightarrow> storio_state" where
  "ctx_update f g s = s\<lparr>sio_ctx := (sio_ctx s)(f := g (sio_ctx s f))\<rparr>"

definition storio_device_mapping_refresh :: "nat \<Rightarrow> storio_state \<Rightarrow> storio_state" where
  "storio_device_mapping_refresh f s = s\<lparr>sio_initialized := remove1 f (sio_initialized s) @ [f]\<rparr>"

definition storio_insert_pending_request_list :: "nat \<Rightarrow> rozorpc_srv_ctx_t \<Rightarrow> storio_state \<Rightarrow> bool \<times> storio_state" where
  "storio_insert_pending_request_list f req s =
     (\<not> serial_is_running (sio_ctx s f),
      ctx_update f (\<lambda>c. c\<lparr>serial_is_running := True, serial_pending_request := serial_pending_request c @ [req]\<rparr>) s)"

definition storio_disk_thread_intf_serial_send :: "nat \<Rightarrow> storio_state \<Rightarrow> storio_state" where
  "storio_disk_thread_intf_serial_send f s = s\<lparr>sio_msgs := sio_msgs s @ [f]\<rparr>"

definition storio_serialization_begin :: "nat \<Rightarrow> rozorpc_srv_ctx_t \<Rightarrow> storio_state \<Rightarrow> storio_state" where
  "storio_serialization_begin f req s = (
     let s = storio_device_mapping_refresh f s;
         n = af_unix_disk_pending_req_count s + 1;
         i = (if n < MAX_PENDING_REQUEST then n else MAX_PENDING_REQUEST - 1);
         s = s\<lparr>af_unix_disk_pending_req_count := n, af_unix_disk_pending_req_tbl := (af_unix_disk_pending_req_tbl s)(i := af_unix_disk_pending_req_tbl s i + 1)\<rparr>;
         (need2activate, s) = storio_insert_pending_request_list f req s in
     if need2activate
     then storio_disk_thread_intf_serial_send f
       (s\<lparr>storage_direct_req := (storage_direct_req s)(rpc_opcode req := storage_direct_req s (rpc_opcode req) + 1)\<rparr>)
     else s\<lparr>storage_queued_req := (storage_queued_req s)(rpc_opcode req := storage_queued_req s (rpc_opcode req) + 1)\<rparr>)"

text \<open>
  A disk thread: waiting for a message; about to look for requests (with the requests it already took); about to check, under
  the lock, that there is no more request; about to take the queued requests under the lock; about to run its first request.
\<close>

datatype disk_thread =
    Waiting
  | Looking nat "rozorpc_srv_ctx_t list"
  | Ending nat
  | Taking nat "rozorpc_srv_ctx_t list"
  | Running nat "rozorpc_srv_ctx_t list"

text \<open>\<^term>\<open>None\<close> when the list to move is empty, which \<^verbatim>\<open>list_move_nocheck\<close> does not support.\<close>

definition move_pending :: "'a list \<Rightarrow> 'a list \<Rightarrow> ('a list \<times> 'a list) option" where
  "move_pending to frm = (if frm = [] then None else Some (to @ frm, []))"

text \<open>The pieces of \<^verbatim>\<open>storio_get_pending_request_list\<close>: the tests without the lock, and the two sections under the lock.\<close>

definition get_tests :: "nat \<Rightarrow> rozorpc_srv_ctx_t list \<Rightarrow> storio_state \<Rightarrow> disk_thread" where
  "get_tests f diskthread_list s =
     (if serial_pending_request (sio_ctx s f) = [] then (if diskthread_list = [] then Ending f else Running f diskthread_list)
      else Taking f diskthread_list)"

definition get_take :: "nat \<Rightarrow> rozorpc_srv_ctx_t list \<Rightarrow> storio_state \<Rightarrow> (disk_thread \<times> storio_state) option" where
  "get_take f diskthread_list s = do {
     (l, p) \<leftarrow> move_pending diskthread_list (serial_pending_request (sio_ctx s f));
     Some (Running f l, ctx_update f (\<lambda>c. c\<lparr>serial_pending_request := p\<rparr>) s) }"

definition get_end :: "nat \<Rightarrow> storio_state \<Rightarrow> (disk_thread \<times> storio_state) option" where
  "get_end f s =
     (if serial_pending_request (sio_ctx s f) = [] then Some (Waiting, ctx_update f (\<lambda>c. c\<lparr>serial_is_running := False\<rparr>) s)
      else get_take f [] s)"

text \<open>One step of a disk thread; running the first request, with \<^verbatim>\<open>list_first_entry\<close> and \<^verbatim>\<open>list_remove\<close>, gives that request.\<close>

fun disk_step :: "disk_thread \<Rightarrow> storio_state \<Rightarrow> (rozorpc_srv_ctx_t option \<times> disk_thread \<times> storio_state) option" where
  "disk_step Waiting s = (case sio_msgs s of [] \<Rightarrow> None | f # fs \<Rightarrow> Some (None, Looking f [], s\<lparr>sio_msgs := fs\<rparr>))"
| "disk_step (Looking f l) s = Some (None, get_tests f l s, s)"
| "disk_step (Ending f) s = map_option (Pair None) (get_end f s)"
| "disk_step (Taking f l) s = map_option (Pair None) (get_take f l s)"
| "disk_step (Running f l) s = (case l of [] \<Rightarrow> None | r # rs \<Rightarrow> Some (Some r, Looking f rs, s))"

text \<open>The system: the shared state and the disk threads, with the requests submitted and run for each file so far.\<close>

record storio_system =
  sys_state :: storio_state
  sys_threads :: "nat \<Rightarrow> disk_thread"
  sys_submitted :: "nat \<Rightarrow> rozorpc_srv_ctx_t list"
  sys_run :: "nat \<Rightarrow> rozorpc_srv_ctx_t list"

fun thread_file :: "disk_thread \<Rightarrow> nat option" where
  "thread_file Waiting = None" | "thread_file (Looking f l) = Some f" | "thread_file (Ending f) = Some f"
| "thread_file (Taking f l) = Some f" | "thread_file (Running f l) = Some f"

fun thread_list :: "disk_thread \<Rightarrow> rozorpc_srv_ctx_t list" where
  "thread_list (Looking f l) = l" | "thread_list (Taking f l) = l" | "thread_list (Running f l) = l" | "thread_list _ = []"

definition submit :: "nat \<Rightarrow> rozorpc_srv_ctx_t \<Rightarrow> storio_system \<Rightarrow> storio_system" where
  "submit f req y = y\<lparr>sys_state := storio_serialization_begin f req (sys_state y), sys_submitted := (sys_submitted y)(f := sys_submitted y f @ [req])\<rparr>"

definition thread_step :: "nat \<Rightarrow> storio_system \<Rightarrow> storio_system option" where
  "thread_step t y = do {
     (r, d, s) \<leftarrow> disk_step (sys_threads y t) (sys_state y);
     Some (y\<lparr>sys_state := s, sys_threads := (sys_threads y)(t := d),
       sys_run := (case r of None \<Rightarrow> sys_run y
         | Some r \<Rightarrow> (sys_run y)(the (thread_file (sys_threads y t)) := sys_run y (the (thread_file (sys_threads y t))) @ [r]))\<rparr>) }"

definition storio_start :: storio_system where
  "storio_start = \<lparr>sys_state = \<lparr>sio_ctx = (\<lambda>f. \<lparr>serial_is_running = False, serial_pending_request = []\<rparr>), sio_initialized = [], sio_msgs = [],
     af_unix_disk_pending_req_count = 0, af_unix_disk_pending_req_tbl = (\<lambda>i. 0), storage_direct_req = (\<lambda>i. 0), storage_queued_req = (\<lambda>i. 0)\<rparr>,
     sys_threads = (\<lambda>t. Waiting), sys_submitted = (\<lambda>f. []), sys_run = (\<lambda>f. [])\<rparr>"

text \<open>Any interleaving of submissions and steps of the disk threads.\<close>

inductive sio_reach :: "storio_system \<Rightarrow> bool" where
  start: "sio_reach storio_start"
| submit: "sio_reach y \<Longrightarrow> sio_reach (submit f req y)"
| thread: "sio_reach y \<Longrightarrow> thread_step t y = Some y' \<Longrightarrow> sio_reach y'"

inductive_cases sio_reachE: "sio_reach y"

section \<open>Invariant\<close>

definition works_for :: "storio_system \<Rightarrow> nat \<Rightarrow> nat \<Rightarrow> bool" where
  "works_for y t f \<longleftrightarrow> thread_file (sys_threads y t) = Some f"

abbreviation (input) pending :: "storio_system \<Rightarrow> nat \<Rightarrow> rozorpc_srv_ctx_t list" where
  "pending y f \<equiv> serial_pending_request (sio_ctx (sys_state y) f)"

abbreviation (input) running :: "storio_system \<Rightarrow> nat \<Rightarrow> bool" where
  "running y f \<equiv> serial_is_running (sio_ctx (sys_state y) f)"

text \<open>For a file that is not running there is nothing to do; for a running one there is one message or one thread, and that thread holds the requests taken.\<close>

definition file_ok :: "storio_system \<Rightarrow> nat \<Rightarrow> bool" where
  "file_ok y f \<longleftrightarrow>
     (\<not> running y f \<and> pending y f = [] \<and> f \<notin> set (sio_msgs (sys_state y)) \<and> (\<forall>t. \<not> works_for y t f) \<and> sys_submitted y f = sys_run y f)
   \<or> (running y f \<and> count_list (sio_msgs (sys_state y)) f = 1 \<and> (\<forall>t. \<not> works_for y t f) \<and> pending y f \<noteq> [] \<and> sys_submitted y f = sys_run y f @ pending y f)
   \<or> (running y f \<and> f \<notin> set (sio_msgs (sys_state y)) \<and> (\<exists>t. works_for y t f \<and> (\<forall>u. works_for y u f \<longrightarrow> u = t)
        \<and> sys_submitted y f = sys_run y f @ thread_list (sys_threads y t) @ pending y f
        \<and> (case sys_threads y t of Taking _ l \<Rightarrow> pending y f \<noteq> [] | Running _ l \<Rightarrow> l \<noteq> [] | _ \<Rightarrow> True)))"


lemma file_ok_other:
  assumes "file_ok y g" "sio_ctx (sys_state y') g = sio_ctx (sys_state y) g" "count_list (sio_msgs (sys_state y')) g = count_list (sio_msgs (sys_state y)) g"
    and w: "\<And>t. works_for y' t g \<longleftrightarrow> works_for y t g" "\<And>t. works_for y t g \<Longrightarrow> sys_threads y' t = sys_threads y t"
    and "sys_submitted y' g = sys_submitted y g" "sys_run y' g = sys_run y g"
  shows "file_ok y' g"
proof -
  have m: "g \<in> set (sio_msgs (sys_state y')) \<longleftrightarrow> g \<in> set (sio_msgs (sys_state y))" using assms(3) by (metis count_list_0_iff)
  show ?thesis using assms(1) unfolding file_ok_def assms(2,3,6,7) w(1) m using w(2) by metis
qed

lemma file_ok_working:
  assumes "running y f" "f \<notin> set (sio_msgs (sys_state y))" "\<And>u. works_for y u f \<longleftrightarrow> u = t"
    "sys_submitted y f = sys_run y f @ thread_list (sys_threads y t) @ pending y f"
    "case sys_threads y t of Taking _ l \<Rightarrow> pending y f \<noteq> [] | Running _ l \<Rightarrow> l \<noteq> [] | _ \<Rightarrow> True"
  shows "file_ok y f"
  unfolding file_ok_def using assms by blast

lemma begin_state:
  "sio_ctx (storio_serialization_begin f req s) = (sio_ctx s)(f := \<lparr>serial_is_running = True, serial_pending_request = serial_pending_request (sio_ctx s f) @ [req]\<rparr>)"
  "sio_msgs (storio_serialization_begin f req s) = sio_msgs s @ (if serial_is_running (sio_ctx s f) then [] else [f])"
  by (auto simp: storio_serialization_begin_def storio_device_mapping_refresh_def storio_insert_pending_request_list_def
      storio_disk_thread_intf_serial_send_def ctx_update_def Let_def)

lemma submit_ok:
  assumes "\<And>g. file_ok y g"
  shows "file_ok (submit f req y) g"
proof -
  let ?y = "submit f req y"
  have th: "works_for ?y t g = works_for y t g" "sys_threads ?y = sys_threads y" for t g by (simp_all add: submit_def works_for_def)
  have st: "sio_ctx (sys_state ?y) = (sio_ctx (sys_state y))(f := \<lparr>serial_is_running = True, serial_pending_request = pending y f @ [req]\<rparr>)"
    "sio_msgs (sys_state ?y) = sio_msgs (sys_state y) @ (if running y f then [] else [f])" by (simp_all add: submit_def begin_state)
  have h: "sys_submitted ?y = (sys_submitted y)(f := sys_submitted y f @ [req])" "sys_run ?y = sys_run y" by (simp_all add: submit_def)
  show ?thesis
  proof (cases "g = f")
    case False
    then show ?thesis using file_ok_other[OF assms[of g], of ?y] by (simp add: th st h)
  next
    case True
    from assms[of f] have "file_ok ?y f" unfolding file_ok_def[of y f]
    proof (elim disjE conjE exE)
      assume "\<not> running y f" "pending y f = []" "f \<notin> set (sio_msgs (sys_state y))" "\<forall>t. \<not> works_for y t f" "sys_submitted y f = sys_run y f"
      then show ?thesis by (simp add: file_ok_def th st h)
    next
      assume "running y f" "count_list (sio_msgs (sys_state y)) f = 1" "\<forall>t. \<not> works_for y t f" "pending y f \<noteq> []" "sys_submitted y f = sys_run y f @ pending y f"
      then show ?thesis by (simp add: file_ok_def th st h)
    next
      fix t assume "running y f" "f \<notin> set (sio_msgs (sys_state y))" "works_for y t f" "\<forall>u. works_for y u f \<longrightarrow> u = t"
        "sys_submitted y f = sys_run y f @ thread_list (sys_threads y t) @ pending y f"
        "case sys_threads y t of Taking _ l \<Rightarrow> pending y f \<noteq> [] | Running _ l \<Rightarrow> l \<noteq> [] | _ \<Rightarrow> True"
      note a = this
      have "works_for ?y u f \<longleftrightarrow> u = t" for u using a(3,4) th(1) by blast
      moreover have "case sys_threads ?y t of Taking _ l \<Rightarrow> pending ?y f \<noteq> [] | Running _ l \<Rightarrow> l \<noteq> [] | _ \<Rightarrow> True"
        using a(6) by (cases "sys_threads y t") (simp_all add: th st)
      ultimately show ?thesis using a(1,2,5) by (intro file_ok_working[where t = t]) (simp_all add: th(2) st h)
    qed
    with True show ?thesis by simp
  qed
qed

text \<open>What is known of a file when a thread works for it.\<close>

lemma working:
  assumes "file_ok y f" "works_for y t f"
  shows "running y f" "f \<notin> set (sio_msgs (sys_state y))" "works_for y u f \<Longrightarrow> u = t"
    "sys_submitted y f = sys_run y f @ thread_list (sys_threads y t) @ pending y f"
    "case sys_threads y t of Taking _ l \<Rightarrow> pending y f \<noteq> [] | Running _ l \<Rightarrow> l \<noteq> [] | _ \<Rightarrow> True"
  using assms unfolding file_ok_def by auto

lemma thread_step_other:
  assumes ok: "file_ok y g" and step: "thread_step t y = Some y'" and g: "thread_file (sys_threads y t) \<noteq> Some g" "thread_file (sys_threads y' t) \<noteq> Some g"
  shows "file_ok y' g"
proof (rule file_ok_other[OF ok])
  from step obtain r d s where d: "disk_step (sys_threads y t) (sys_state y) = Some (r, d, s)"
    and y': "y' = y\<lparr>sys_state := s, sys_threads := (sys_threads y)(t := d),
       sys_run := (case r of None \<Rightarrow> sys_run y
         | Some r \<Rightarrow> (sys_run y)(the (thread_file (sys_threads y t)) := sys_run y (the (thread_file (sys_threads y t))) @ [r]))\<rparr>"
    by (auto simp: thread_step_def split: bind_splits)
  have nd: "thread_file d \<noteq> Some g" using g(2) y' by simp
  show "sio_ctx (sys_state y') g = sio_ctx (sys_state y) g"
    using d g(1) y' by (cases "sys_threads y t") (auto simp: get_end_def get_take_def ctx_update_def split: if_splits bind_splits list.splits)
  show "count_list (sio_msgs (sys_state y')) g = count_list (sio_msgs (sys_state y)) g"
    using d g(1) nd y' by (cases "sys_threads y t") (auto simp: get_end_def get_take_def ctx_update_def split: if_splits bind_splits list.splits)
  show "works_for y' u g \<longleftrightarrow> works_for y u g" for u using g nd y' by (auto simp: works_for_def)
  show "sys_threads y' u = sys_threads y u" if "works_for y u g" for u using that g y' by (auto simp: works_for_def)
  show "sys_submitted y' g = sys_submitted y g" using y' by simp
  show "sys_run y' g = sys_run y g" using d g(1) y' by (cases "sys_threads y t") (auto split: option.splits list.splits)
qed

lemma thread_step_own:
  assumes ok: "\<And>g. file_ok y g" and step: "thread_step t y = Some y'" and g: "thread_file (sys_threads y t) = Some g \<or> thread_file (sys_threads y' t) = Some g"
  shows "file_ok y' g"
proof (cases "sys_threads y t")
  case Waiting
  then obtain fs where m: "sio_msgs (sys_state y) = g # fs" and y': "y' = y\<lparr>sys_state := (sys_state y)\<lparr>sio_msgs := fs\<rparr>, sys_threads := (sys_threads y)(t := Looking g [])\<rparr>"
    using step g by (auto simp: thread_step_def split: list.splits)
  from ok[of g] m have "running y g" "count_list (sio_msgs (sys_state y)) g = 1" "\<forall>t. \<not> works_for y t g" "pending y g \<noteq> []" "sys_submitted y g = sys_run y g @ pending y g"
    unfolding file_ok_def by auto
  moreover from this m have "g \<notin> set fs" by (simp add: count_list_0_iff)
  ultimately show ?thesis using y' by (intro file_ok_working[where t = t]) (auto simp: works_for_def)
next
  case (Looking f l)
  then have y': "y' = y\<lparr>sys_threads := (sys_threads y)(t := get_tests f l (sys_state y))\<rparr>" and gf: "g = f"
    using step g by (auto simp: thread_step_def get_tests_def split: if_splits)
  have w: "works_for y t f" using Looking by (simp add: works_for_def)
  note W = working[OF ok w]
  have "thread_file (get_tests f l (sys_state y)) = Some f" by (simp add: get_tests_def)
  then have u: "works_for y' u f \<longleftrightarrow> u = t" for u using W(3)[of u] w unfolding y' by (cases "u = t") (auto simp: works_for_def)
  then have "file_ok y' f" using W(1,2,4) y' Looking by (intro file_ok_working[where t = t]) (auto simp: get_tests_def)
  with gf show ?thesis by simp
next
  case (Ending f)
  have w: "works_for y t f" using Ending by (simp add: works_for_def)
  note W = working[OF ok w]
  show ?thesis
  proof (cases "pending y f = []")
    case True
    then have y': "y' = y\<lparr>sys_state := ctx_update f (\<lambda>c. c\<lparr>serial_is_running := False\<rparr>) (sys_state y), sys_threads := (sys_threads y)(t := Waiting)\<rparr>" and gf: "g = f"
      using step g Ending by (auto simp: thread_step_def get_end_def)
    have "\<not> works_for y' u f" for u using W(3)[of u] y' by (auto simp: works_for_def)
    then show ?thesis using W gf y' True Ending by (simp add: file_ok_def ctx_update_def)
  next
    case False
    then have y': "y' = y\<lparr>sys_state := ctx_update f (\<lambda>c. c\<lparr>serial_pending_request := []\<rparr>) (sys_state y), sys_threads := (sys_threads y)(t := Running f (pending y f))\<rparr>" and gf: "g = f"
      using step g Ending by (auto simp: thread_step_def get_end_def get_take_def move_pending_def)
    have "works_for y' u f \<longleftrightarrow> u = t" for u using W(3)[of u] y' by (auto simp: works_for_def)
    then have "file_ok y' f" using W(1,2,4) y' False Ending by (intro file_ok_working[where t = t]) (auto simp: ctx_update_def)
    with gf show ?thesis by simp
  qed
next
  case (Taking f l)
  have w: "works_for y t f" using Taking by (simp add: works_for_def)
  note W = working[OF ok w]
  have y': "y' = y\<lparr>sys_state := ctx_update f (\<lambda>c. c\<lparr>serial_pending_request := []\<rparr>) (sys_state y), sys_threads := (sys_threads y)(t := Running f (l @ pending y f))\<rparr>" and gf: "g = f"
    using step g Taking W(5) by (auto simp: thread_step_def get_take_def move_pending_def)
  have "works_for y' u f \<longleftrightarrow> u = t" for u using W(3)[of u] y' by (auto simp: works_for_def)
  then have "file_ok y' f" using W y' Taking by (intro file_ok_working[where t = t]) (auto simp: ctx_update_def)
  with gf show ?thesis by simp
next
  case (Running f l)
  have w: "works_for y t f" using Running by (simp add: works_for_def)
  note W = working[OF ok w]
  obtain r rs where l: "l = r # rs" using W(5) Running by (cases l) auto
  have y': "y' = y\<lparr>sys_threads := (sys_threads y)(t := Looking f rs), sys_run := (sys_run y)(f := sys_run y f @ [r])\<rparr>" and gf: "g = f"
    using step g Running l by (auto simp: thread_step_def)
  have "works_for y' u f \<longleftrightarrow> u = t" for u using W(3)[of u] y' by (auto simp: works_for_def)
  then have "file_ok y' f" using W(1,2,4) y' Running l by (intro file_ok_working[where t = t]) auto
  with gf show ?thesis by simp
qed

lemma sio_reach_ok: "sio_reach y \<Longrightarrow> file_ok y g"
proof (induction arbitrary: g rule: sio_reach.induct)
  case start
  show ?case by (simp add: file_ok_def storio_start_def works_for_def)
next
  case (submit y f req)
  then show ?case by (intro submit_ok)
next
  case (thread y t y' g)
  show ?case
  proof (cases "thread_file (sys_threads y t) = Some g \<or> thread_file (sys_threads y' t) = Some g")
    case True
    then show ?thesis by (rule thread_step_own[OF thread.IH thread.hyps(2)])
  next
    case False
    then show ?thesis using thread_step_other[OF thread.IH thread.hyps(2)] by blast
  qed
qed


section \<open>Properties\<close>

text \<open>
  C16. One disk thread per file. At any moment at most one disk thread works for a file, and none when an activation message
  of the file is under way; there is a message or a thread exactly when the file is marked as running.
\<close>

theorem serial_one_thread:
  assumes "sio_reach y"
  shows "(\<forall>t u. works_for y t f \<longrightarrow> works_for y u f \<longrightarrow> t = u)
    \<and> (\<forall>t. works_for y t f \<longrightarrow> f \<notin> set (sio_msgs (sys_state y)))
    \<and> (serial_is_running (sio_ctx (sys_state y) f) \<longleftrightarrow> f \<in> set (sio_msgs (sys_state y)) \<or> (\<exists>t. works_for y t f))"
proof -
  have "\<exists>t. works_for y t f" if "running y f" "f \<notin> set (sio_msgs (sys_state y))"
    using sio_reach_ok[OF assms, of f] that unfolding file_ok_def by (auto simp: count_list_0_iff[symmetric])
  moreover have "running y f" if "f \<in> set (sio_msgs (sys_state y))" using sio_reach_ok[OF assms, of f] that unfolding file_ok_def by auto
  ultimately show ?thesis using working[OF sio_reach_ok[OF assms, of f]] by metis
qed

text \<open>The requests of a file that a disk thread took and did not run yet.\<close>

definition taken :: "storio_system \<Rightarrow> nat \<Rightarrow> rozorpc_srv_ctx_t list \<Rightarrow> bool" where
  "taken y f l \<longleftrightarrow> (\<exists>t. works_for y t f \<and> l = thread_list (sys_threads y t)) \<or> ((\<forall>t. \<not> works_for y t f) \<and> l = [])"

text \<open>
  C8. First come, first served. The requests submitted for a file are those that were run, then those that the disk thread of the file took, then those that
  are queued, in the order of submission: none is lost, none is run twice, and none overtakes another.
\<close>

theorem serial_fifo:
  assumes "sio_reach y"
  shows "\<exists>l. taken y f l \<and> sys_submitted y f = sys_run y f @ l @ serial_pending_request (sio_ctx (sys_state y) f)"
proof (cases "\<exists>t. works_for y t f")
  case True
  then obtain t where t: "works_for y t f" by blast
  from working(4)[OF sio_reach_ok[OF assms] t] t show ?thesis by (auto simp: taken_def)
next
  case False
  then show ?thesis using sio_reach_ok[OF assms, of f] unfolding file_ok_def taken_def by auto
qed

fun thread_rank :: "disk_thread \<Rightarrow> nat" where
  "thread_rank (Looking f l) = 2" | "thread_rank (Ending f) = 1" | "thread_rank (Taking f l) = 1" | "thread_rank (Running f l) = 0" | "thread_rank Waiting = 3"

text \<open>
  The disk threads always advance. A thread that works for a file has a next step, so that it never moves or reads an empty list; with that step it runs the oldest request not yet run, or it comes
  closer to running it, or it stops because every request submitted was run.
\<close>

theorem serial_progress:
  assumes "sio_reach y" "works_for y t f"
  shows "\<exists>y'. thread_step t y = Some y' \<and>
    ((works_for y' t f \<and> length (sys_run y f) < length (sys_submitted y f) \<and> sys_run y' f = sys_run y f @ [sys_submitted y f ! length (sys_run y f)])
     \<or> (works_for y' t f \<and> sys_run y' f = sys_run y f \<and> thread_rank (sys_threads y' t) < thread_rank (sys_threads y t))
     \<or> (sys_threads y' t = Waiting \<and> sys_run y' f = sys_submitted y f))"
proof -
  note W = working[OF sio_reach_ok[OF assms(1)] assms(2)]
  show ?thesis
  proof (cases "sys_threads y t")
    case Waiting
    then show ?thesis using assms(2) by (simp add: works_for_def)
  next
    case (Looking g l)
    then have "g = f" using assms(2) by (simp add: works_for_def)
    with Looking show ?thesis by (auto simp: thread_step_def works_for_def get_tests_def)
  next
    case (Ending g)
    then have "g = f" using assms(2) by (simp add: works_for_def)
    with Ending W(4) show ?thesis by (auto simp: thread_step_def works_for_def get_end_def get_take_def move_pending_def)
  next
    case (Taking g l)
    then have "g = f" using assms(2) by (simp add: works_for_def)
    with Taking W(5) show ?thesis by (auto simp: thread_step_def works_for_def get_take_def move_pending_def)
  next
    case (Running g l)
    then have gf: "g = f" using assms(2) by (simp add: works_for_def)
    obtain r rs where "l = r # rs" using W(5) Running by (cases l) auto
    with Running gf W(4) show ?thesis by (auto simp: thread_step_def works_for_def nth_append)
  qed
qed

text \<open>One request submitted, and the thread 0 woken for it.\<close>

definition sample_system :: storio_system where
  "sample_system = submit 5 \<lparr>rpc_id = 1, rpc_opcode = 2\<rparr> storio_start"

definition sample_woken :: storio_system where
  "sample_woken = the (thread_step 0 sample_system)"

lemma sample_woken_reach: "sio_reach sample_woken" "works_for sample_woken 0 5"
proof -
  have "thread_step 0 sample_system \<noteq> None" and w: "thread_file (sys_threads sample_woken 0) = Some 5" by code_simp+
  then have "thread_step 0 sample_system = Some sample_woken" by (auto simp: sample_woken_def)
  then show "sio_reach sample_woken" by (rule sio_reach.thread[rotated]) (simp add: sample_system_def sio_reach.start sio_reach.submit)
  show "works_for sample_woken 0 5" using w by (simp add: works_for_def)
qed

theorem serial_one_thread_witness: "serial_is_running (sio_ctx (sys_state sample_woken) 5)"
  using serial_one_thread[OF sample_woken_reach(1), of 5] sample_woken_reach(2) by blast

theorem serial_fifo_witness: "\<exists>l. taken sample_woken 5 l \<and> sys_submitted sample_woken 5 = sys_run sample_woken 5 @ l @ serial_pending_request (sio_ctx (sys_state sample_woken) 5)"
  by (rule serial_fifo[OF sample_woken_reach(1)])

theorem serial_progress_witness: "\<exists>y'. thread_step 0 sample_woken = Some y'"
  using serial_progress[OF sample_woken_reach] by blast



end
