(* ===== verification/Lock_Range.thy ===== *)
theory Lock_Range
  imports Layout
begin

text \<open>
  Byte ranges of the file locks: the ranges that a client asks for (\<^verbatim>\<open>src/rozofsmount/rozofs_file_lock.c\<close>) and
  their comparison, merging and splitting by the export daemon (\<^verbatim>\<open>src/exportd/cache.c\<close>). A lock has a user
  range in bytes and an effective range in blocks; offsets are 64-bit unsigned.
\<close>

section \<open>Model\<close>

datatype ep_lock_mode_t = EP_LOCK_FREE | EP_LOCK_READ | EP_LOCK_WRITE

datatype ep_lock_size_t = EP_LOCK_NULL | EP_LOCK_TOTAL | EP_LOCK_FROM_START | EP_LOCK_TO_END | EP_LOCK_PARTIAL

record ep_lock_range_t =
  range_size :: ep_lock_size_t
  offset_start :: u64
  offset_stop :: u64

record ep_lock_t =
  lock_mode :: ep_lock_mode_t
  lock_client :: u64
  lock_owner :: u64
  user_range :: ep_lock_range_t
  effective_range :: ep_lock_range_t

subsection \<open>The range a client asks for\<close>

datatype l_whence = SEEK_SET | SEEK_CUR | SEEK_END

definition int64_ok :: "int \<Rightarrow> int option" where
  "int64_ok x = (if - (2 ^ 63) \<le> x \<and> x < 2 ^ 63 then Some x else None)"

text \<open>The result is the size with the two offsets; \<^term>\<open>None\<close> stands for a signed overflow.\<close>

definition rozofs_flock_canonical ::
  "l_whence \<Rightarrow> int \<Rightarrow> int \<Rightarrow> int \<Rightarrow> int \<Rightarrow> (ep_lock_size_t \<times> int \<times> int) option"
where
  "rozofs_flock_canonical whence l_start l_len current_pos file_size = do {
     let base = (case whence of SEEK_CUR \<Rightarrow> current_pos | SEEK_END \<Rightarrow> file_size | SEEK_SET \<Rightarrow> 0);
     start \<leftarrow> int64_ok (base + l_start);
     if start < 0 then Some (EP_LOCK_NULL, start, 0)
     else if l_len < 0 \<and> start + l_len < 0 then Some (EP_LOCK_NULL, start + l_len, start)
     else do {
       (start, stop) \<leftarrow>
         (if l_len < 0 then Some (start + l_len, start)
          else if l_len > 0 then do { stop \<leftarrow> int64_ok (start + l_len); Some (start, stop) }
          else Some (start, 0));
       Some (if stop = 0 then (if start = 0 then EP_LOCK_TOTAL else EP_LOCK_TO_END)
             else if start = 0 then EP_LOCK_FROM_START else EP_LOCK_PARTIAL, start, stop) } }"

definition bbytes64 :: "int \<Rightarrow> u64" where
  "bbytes64 bsize = word_of_int (ROZOFS_BSIZE_BYTES bsize)"

text \<open>The client's version of \<^verbatim>\<open>compute_effective_lock_range\<close>.\<close>

definition client_compute_effective_lock_range :: "int \<Rightarrow> ep_lock_t \<Rightarrow> ep_lock_t" where
  "client_compute_effective_lock_range bsize lock = (
     let bbytes = bbytes64 bsize; u = user_range lock; start = offset_start u div bbytes in
     if range_size u = EP_LOCK_TOTAL
     then lock\<lparr>effective_range := \<lparr>range_size = EP_LOCK_TOTAL, offset_start = 0, offset_stop = 0\<rparr>\<rparr>
     else if range_size u = EP_LOCK_TO_END
     then lock\<lparr>effective_range := \<lparr>range_size = (if start = 0 then EP_LOCK_TOTAL else EP_LOCK_TO_END), offset_start = start, offset_stop = 0\<rparr>\<rparr>
     else lock\<lparr>effective_range := \<lparr>range_size = (if start = 0 then EP_LOCK_FROM_START else EP_LOCK_PARTIAL), offset_start = start,
       offset_stop = (if offset_stop u mod bbytes = 0 then offset_stop u div bbytes else offset_stop u div bbytes + 1)\<rparr>\<rparr>)"

subsection \<open>The export daemon\<close>

text \<open>
  The daemon's version has no return after the case of a total range, and tests the old effective stop offset
  where the client tests the user's.
\<close>

definition compute_effective_lock_range :: "int \<Rightarrow> ep_lock_t \<Rightarrow> ep_lock_t" where
  "compute_effective_lock_range bsize lock = (
     let bbytes = bbytes64 bsize; u = user_range lock;
         e0 = (if range_size u = EP_LOCK_TOTAL then \<lparr>range_size = EP_LOCK_TOTAL, offset_start = 0, offset_stop = 0\<rparr> else effective_range lock);
         e1 = e0\<lparr>offset_start := offset_start u div bbytes\<rparr> in
     if range_size u = EP_LOCK_TO_END
     then lock\<lparr>effective_range := e1\<lparr>offset_stop := 0, range_size := (if offset_start e1 = 0 then EP_LOCK_TOTAL else EP_LOCK_TO_END)\<rparr>\<rparr>
     else lock\<lparr>effective_range := e1\<lparr>
       offset_stop := (if offset_stop e1 mod bbytes = 0 then offset_stop u div bbytes else offset_stop u div bbytes + 1),
       range_size := (if offset_start e1 = 0 then EP_LOCK_FROM_START else EP_LOCK_PARTIAL)\<rparr>\<rparr>)"

definition are_file_locks_compatible :: "ep_lock_t \<Rightarrow> ep_lock_t \<Rightarrow> bool" where
  "are_file_locks_compatible lock1 lock2 = (
     if lock_mode lock1 = EP_LOCK_READ \<and> lock_mode lock2 = EP_LOCK_READ then True
     else let p1 = effective_range lock1; p2 = effective_range lock2 in
       case (range_size p1, range_size p2) of
         (EP_LOCK_FROM_START, EP_LOCK_TO_END) \<Rightarrow> offset_stop p1 \<le> offset_start p2
       | (EP_LOCK_FROM_START, EP_LOCK_PARTIAL) \<Rightarrow> offset_stop p1 \<le> offset_start p2
       | (EP_LOCK_PARTIAL, EP_LOCK_TO_END) \<Rightarrow> offset_stop p1 \<le> offset_start p2
       | (EP_LOCK_TO_END, EP_LOCK_FROM_START) \<Rightarrow> offset_start p1 \<ge> offset_stop p2
       | (EP_LOCK_TO_END, EP_LOCK_PARTIAL) \<Rightarrow> offset_start p1 \<ge> offset_stop p2
       | (EP_LOCK_PARTIAL, EP_LOCK_FROM_START) \<Rightarrow> offset_start p1 \<ge> offset_stop p2
       | (EP_LOCK_PARTIAL, EP_LOCK_PARTIAL) \<Rightarrow>
           (if offset_start p1 \<le> offset_start p2 then offset_stop p1 \<le> offset_start p2 else offset_stop p2 \<le> offset_start p1)
       | _ \<Rightarrow> False)"

definition are_file_locks_overlapping :: "ep_lock_t \<Rightarrow> ep_lock_t \<Rightarrow> bool" where
  "are_file_locks_overlapping lock1 lock2 = (
     let p1 = user_range lock1; p2 = user_range lock2 in
     case (range_size p1, range_size p2) of
       (EP_LOCK_FROM_START, EP_LOCK_TO_END) \<Rightarrow> \<not> offset_stop p1 < offset_start p2
     | (EP_LOCK_FROM_START, EP_LOCK_PARTIAL) \<Rightarrow> \<not> offset_stop p1 < offset_start p2
     | (EP_LOCK_PARTIAL, EP_LOCK_TO_END) \<Rightarrow> \<not> offset_stop p1 < offset_start p2
     | (EP_LOCK_TO_END, EP_LOCK_FROM_START) \<Rightarrow> \<not> offset_start p1 > offset_stop p2
     | (EP_LOCK_TO_END, EP_LOCK_PARTIAL) \<Rightarrow> \<not> offset_start p1 > offset_stop p2
     | (EP_LOCK_PARTIAL, EP_LOCK_FROM_START) \<Rightarrow> \<not> offset_start p1 > offset_stop p2
     | (EP_LOCK_PARTIAL, EP_LOCK_PARTIAL) \<Rightarrow>
         (if offset_start p1 \<le> offset_start p2 then \<not> offset_stop p1 < offset_start p2 else \<not> offset_stop p2 < offset_start p1)
     | _ \<Rightarrow> True)"

text \<open>The new value of the first lock, or \<^term>\<open>None\<close> when it returns 0.\<close>

definition try_file_locks_concatenate :: "int \<Rightarrow> ep_lock_t \<Rightarrow> ep_lock_t \<Rightarrow> ep_lock_t option" where
  "try_file_locks_concatenate bsize lock1 lock2 = (
     let p1 = user_range lock1; p2 = user_range lock2;
         upd = (\<lambda>r. Some (compute_effective_lock_range bsize (lock1\<lparr>user_range := r\<rparr>))) in
     case (range_size p1, range_size p2) of
       (EP_LOCK_FROM_START, EP_LOCK_TO_END) \<Rightarrow>
         if offset_stop p1 < offset_start p2 then None
         else upd (p1\<lparr>range_size := EP_LOCK_TOTAL, offset_stop := offset_stop p2\<rparr>)
     | (EP_LOCK_FROM_START, EP_LOCK_PARTIAL) \<Rightarrow>
         if offset_stop p1 < offset_start p2 then None
         else upd (p1\<lparr>offset_stop := max (offset_stop p2) (offset_stop p1)\<rparr>)
     | (EP_LOCK_PARTIAL, EP_LOCK_TO_END) \<Rightarrow>
         if offset_stop p1 < offset_start p2 then None
         else upd (p1\<lparr>range_size := EP_LOCK_TO_END, offset_start := min (offset_start p2) (offset_start p1), offset_stop := offset_stop p2\<rparr>)
     | (EP_LOCK_TO_END, EP_LOCK_FROM_START) \<Rightarrow>
         if offset_start p1 > offset_stop p2 then None
         else upd (p1\<lparr>range_size := EP_LOCK_TOTAL, offset_start := offset_start p2\<rparr>)
     | (EP_LOCK_TO_END, EP_LOCK_PARTIAL) \<Rightarrow>
         if offset_start p1 > offset_stop p2 then None
         else upd (p1\<lparr>offset_start := min (offset_start p2) (offset_start p1)\<rparr>)
     | (EP_LOCK_PARTIAL, EP_LOCK_FROM_START) \<Rightarrow>
         if offset_start p1 > offset_stop p2 then None
         else upd (p1\<lparr>range_size := EP_LOCK_FROM_START, offset_stop := max (offset_stop p2) (offset_stop p1), offset_start := offset_start p2\<rparr>)
     | (EP_LOCK_PARTIAL, EP_LOCK_PARTIAL) \<Rightarrow>
         if offset_start p1 \<le> offset_start p2
         then (if offset_stop p1 < offset_start p2 then None else upd (p1\<lparr>offset_stop := max (offset_stop p2) (offset_stop p1)\<rparr>))
         else if offset_stop p2 < offset_start p1 then None
         else upd (p1\<lparr>offset_start := offset_start p2, offset_stop := max (offset_stop p2) (offset_stop p1)\<rparr>)
     | (EP_LOCK_FROM_START, EP_LOCK_FROM_START) \<Rightarrow> upd (p1\<lparr>offset_stop := max (offset_stop p2) (offset_stop p1)\<rparr>)
     | (EP_LOCK_TO_END, EP_LOCK_TO_END) \<Rightarrow> upd (p1\<lparr>offset_start := min (offset_start p2) (offset_start p1)\<rparr>)
     | (EP_LOCK_TOTAL, EP_LOCK_NULL) \<Rightarrow> None
     | (EP_LOCK_TOTAL, _) \<Rightarrow> Some lock1
     | (EP_LOCK_NULL, _) \<Rightarrow> None
     | (_, EP_LOCK_TOTAL) \<Rightarrow> upd (p1\<lparr>range_size := EP_LOCK_TOTAL, offset_start := offset_start p2, offset_stop := offset_stop p2\<rparr>)
     | _ \<Rightarrow> None)"

text \<open>
  What freeing a range does to a lock: whether the lock goes away, its new value, and the new lock to be
  allocated when it is split.
\<close>

definition must_file_lock_be_removed ::
  "int \<Rightarrow> ep_lock_t \<Rightarrow> ep_lock_t \<Rightarrow> bool \<times> ep_lock_t \<times> ep_lock_t option"
where
  "must_file_lock_be_removed bsize lock_free lock_set = (
     if lock_client lock_free \<noteq> lock_client lock_set then (False, lock_set, None)
     else if lock_owner lock_free \<noteq> lock_owner lock_set then (False, lock_set, None)
     else let f = user_range lock_free; l = user_range lock_set;
              gone = (True, lock_set, None); same = (False, lock_set, None);
              eff = (\<lambda>r. compute_effective_lock_range bsize (lock_set\<lparr>user_range := r\<rparr>));
              keep = (\<lambda>r. (False, eff r, None)) in
       case (range_size f, range_size l) of
         (EP_LOCK_TOTAL, EP_LOCK_NULL) \<Rightarrow> same
       | (EP_LOCK_TOTAL, _) \<Rightarrow> gone
       | (EP_LOCK_FROM_START, EP_LOCK_TOTAL) \<Rightarrow> keep (l\<lparr>offset_start := offset_stop f, range_size := EP_LOCK_TO_END\<rparr>)
       | (EP_LOCK_FROM_START, EP_LOCK_FROM_START) \<Rightarrow>
           if offset_stop f \<ge> offset_stop l then gone
           else keep (l\<lparr>offset_start := offset_stop f, range_size := EP_LOCK_PARTIAL\<rparr>)
       | (EP_LOCK_FROM_START, EP_LOCK_TO_END) \<Rightarrow>
           if offset_stop f \<le> offset_start l then same else keep (l\<lparr>offset_start := offset_stop f\<rparr>)
       | (EP_LOCK_FROM_START, EP_LOCK_PARTIAL) \<Rightarrow>
           if offset_stop f \<le> offset_start l then same
           else if offset_stop l \<le> offset_stop f then gone
           else keep (l\<lparr>offset_start := offset_stop f\<rparr>)
       | (EP_LOCK_TO_END, EP_LOCK_TOTAL) \<Rightarrow> keep (l\<lparr>offset_stop := offset_start f, range_size := EP_LOCK_FROM_START\<rparr>)
       | (EP_LOCK_TO_END, EP_LOCK_FROM_START) \<Rightarrow>
           if offset_start f \<ge> offset_stop l then same else keep (l\<lparr>offset_stop := offset_start f\<rparr>)
       | (EP_LOCK_TO_END, EP_LOCK_TO_END) \<Rightarrow>
           if offset_start f \<le> offset_start l then gone
           else keep (l\<lparr>offset_stop := offset_start f, range_size := EP_LOCK_PARTIAL\<rparr>)
       | (EP_LOCK_TO_END, EP_LOCK_PARTIAL) \<Rightarrow>
           if offset_stop l \<le> offset_start f then same
           else if offset_start l \<ge> offset_start f then gone
           else keep (l\<lparr>offset_stop := offset_start f\<rparr>)
       | (EP_LOCK_PARTIAL, EP_LOCK_TOTAL) \<Rightarrow>
           (False, eff (l\<lparr>offset_start := offset_stop f, range_size := EP_LOCK_TO_END\<rparr>),
            Some (eff (l\<lparr>range_size := EP_LOCK_FROM_START, offset_stop := offset_start f\<rparr>)))
       | (EP_LOCK_PARTIAL, EP_LOCK_TO_END) \<Rightarrow>
           if offset_stop f \<le> offset_start l then same
           else (False, eff (l\<lparr>offset_start := offset_stop f\<rparr>),
             if offset_start f > offset_start l then Some (eff (l\<lparr>range_size := EP_LOCK_PARTIAL, offset_stop := offset_start f\<rparr>)) else None)
       | (EP_LOCK_PARTIAL, EP_LOCK_FROM_START) \<Rightarrow>
           if offset_start f \<ge> offset_stop l then same
           else if offset_stop l \<le> offset_stop f then keep (l\<lparr>offset_stop := offset_start f\<rparr>)
           else (False, eff (l\<lparr>offset_stop := offset_start f\<rparr>),
             Some (eff (l\<lparr>range_size := EP_LOCK_PARTIAL, offset_start := offset_stop f\<rparr>)))
       | (EP_LOCK_PARTIAL, EP_LOCK_PARTIAL) \<Rightarrow>
           if offset_start f \<ge> offset_stop l then same
           else if offset_start l \<ge> offset_stop f then same
           else if offset_start f \<le> offset_start l
           then (if offset_stop f \<ge> offset_stop l then gone else keep (l\<lparr>offset_start := offset_stop f\<rparr>))
           else if offset_stop f \<ge> offset_stop l then keep (l\<lparr>offset_stop := offset_start f\<rparr>)
           else (False, lock_set\<lparr>user_range := l\<lparr>offset_start := offset_stop f\<rparr>\<rparr>,
             Some (eff (l\<lparr>offset_stop := offset_start f\<rparr>)))
       | _ \<Rightarrow> same)"

section \<open>Ranges as sets of offsets\<close>

definition offsets :: "ep_lock_range_t \<Rightarrow> u64 set" where
  "offsets r = (case range_size r of EP_LOCK_NULL \<Rightarrow> {} | EP_LOCK_TOTAL \<Rightarrow> UNIV
     | EP_LOCK_FROM_START \<Rightarrow> {x. x < offset_stop r} | EP_LOCK_TO_END \<Rightarrow> {x. offset_start r \<le> x}
     | EP_LOCK_PARTIAL \<Rightarrow> {x. offset_start r \<le> x \<and> x < offset_stop r})"

text \<open>The ranges that the client builds.\<close>

definition canonical :: "ep_lock_range_t \<Rightarrow> bool" where
  "canonical r = (case range_size r of EP_LOCK_NULL \<Rightarrow> False
     | EP_LOCK_TOTAL \<Rightarrow> offset_start r = 0 \<and> offset_stop r = 0
     | EP_LOCK_FROM_START \<Rightarrow> offset_start r = 0 \<and> 0 < offset_stop r
     | EP_LOCK_TO_END \<Rightarrow> 0 < offset_start r \<and> offset_stop r = 0
     | EP_LOCK_PARTIAL \<Rightarrow> 0 < offset_start r \<and> offset_start r < offset_stop r)"

lemmas range_simps = offsets_def canonical_def

lemma compute_effective_fields [simp]:
  "lock_mode (compute_effective_lock_range bsize l) = lock_mode l"
  "lock_client (compute_effective_lock_range bsize l) = lock_client l"
  "lock_owner (compute_effective_lock_range bsize l) = lock_owner l"
  "user_range (compute_effective_lock_range bsize l) = user_range l"
  by (simp_all add: compute_effective_lock_range_def Let_def)

lemma client_effective_fields [simp]:
  "lock_mode (client_compute_effective_lock_range bsize l) = lock_mode l"
  "lock_client (client_compute_effective_lock_range bsize l) = lock_client l"
  "lock_owner (client_compute_effective_lock_range bsize l) = lock_owner l"
  "user_range (client_compute_effective_lock_range bsize l) = user_range l"
  by (simp_all add: client_compute_effective_lock_range_def Let_def)

lemma canonical_cases [consumes 1, case_names total from_start to_end partial]:
  assumes "canonical r"
  obtains "range_size r = EP_LOCK_TOTAL" "offset_start r = 0" "offset_stop r = 0"
  | "range_size r = EP_LOCK_FROM_START" "offset_start r = 0" "0 < offset_stop r"
  | "range_size r = EP_LOCK_TO_END" "0 < offset_start r" "offset_stop r = 0"
  | "range_size r = EP_LOCK_PARTIAL" "0 < offset_start r" "offset_start r < offset_stop r"
  using assms by (cases "range_size r") (auto simp: canonical_def)

section \<open>Merging and splitting\<close>

text \<open>Two ranges touch when they meet or one starts where the other stops.\<close>

lemma concatenate_spec:
  assumes c: "canonical (user_range l1)" "canonical (user_range l2)"
  shows "case try_file_locks_concatenate bsize l1 l2 of
      None \<Rightarrow> \<not> are_file_locks_overlapping l1 l2
    | Some l \<Rightarrow> are_file_locks_overlapping l1 l2 \<and> canonical (user_range l)
        \<and> offsets (user_range l) = offsets (user_range l1) \<union> offsets (user_range l2)
        \<and> lock_mode l = lock_mode l1 \<and> lock_client l = lock_client l1 \<and> lock_owner l = lock_owner l1"
  using c(1)
proof (cases rule: canonical_cases)
  case total
  show ?thesis using c(2) by (cases rule: canonical_cases)
    (use total in \<open>auto simp: try_file_locks_concatenate_def are_file_locks_overlapping_def range_simps Let_def\<close>)
next
  case from_start
  show ?thesis using c(2) by (cases rule: canonical_cases)
    (use from_start in \<open>auto simp: try_file_locks_concatenate_def are_file_locks_overlapping_def range_simps Let_def max_def\<close>)
next
  case to_end
  show ?thesis using c(2) by (cases rule: canonical_cases)
    (use to_end in \<open>auto simp: try_file_locks_concatenate_def are_file_locks_overlapping_def range_simps Let_def min_def\<close>)
next
  case partial
  show ?thesis using c(2) by (cases rule: canonical_cases)
    (use partial in \<open>auto simp: try_file_locks_concatenate_def are_file_locks_overlapping_def range_simps Let_def min_def max_def\<close>)
qed

lemma free_spec:
  assumes c: "canonical (user_range f)" "canonical (user_range l)" and own: "lock_client f = lock_client l" "lock_owner f = lock_owner l"
    and res: "must_file_lock_be_removed bsize f l = (gone, l', new)"
  shows "(gone \<longrightarrow> offsets (user_range l) \<subseteq> offsets (user_range f) \<and> new = None)
     \<and> (\<not> gone \<longrightarrow> canonical (user_range l') \<and> (\<forall>n. new = Some n \<longrightarrow> canonical (user_range n))
         \<and> offsets (user_range l') \<union> (case new of None \<Rightarrow> {} | Some n \<Rightarrow> offsets (user_range n)) = offsets (user_range l) - offsets (user_range f))
     \<and> lock_mode l' = lock_mode l \<and> lock_client l' = lock_client l \<and> lock_owner l' = lock_owner l
     \<and> (\<forall>n. new = Some n \<longrightarrow> lock_mode n = lock_mode l \<and> lock_client n = lock_client l \<and> lock_owner n = lock_owner l)"
  using c(1)
proof (cases rule: canonical_cases)
  case total
  show ?thesis using c(2) by (cases rule: canonical_cases)
    (use total res own in \<open>auto simp: must_file_lock_be_removed_def range_simps Let_def\<close>)
next
  case from_start
  show ?thesis using c(2) by (cases rule: canonical_cases)
    (use from_start res own in \<open>auto simp: must_file_lock_be_removed_def range_simps Let_def split: if_splits\<close>)
next
  case to_end
  show ?thesis using c(2) by (cases rule: canonical_cases)
    (use to_end res own in \<open>auto simp: must_file_lock_be_removed_def range_simps Let_def split: if_splits\<close>)
next
  case partial
  show ?thesis using c(2) by (cases rule: canonical_cases)
    (use partial res own in \<open>auto simp: must_file_lock_be_removed_def range_simps Let_def split: if_splits\<close>)
qed

section \<open>Blocks of a range\<close>

text \<open>A range in blocks that is not empty.\<close>

definition block_range :: "ep_lock_range_t \<Rightarrow> bool" where
  "block_range r = (case range_size r of EP_LOCK_NULL \<Rightarrow> False | EP_LOCK_TOTAL \<Rightarrow> True | EP_LOCK_FROM_START \<Rightarrow> 0 < offset_stop r
     | EP_LOCK_TO_END \<Rightarrow> True | EP_LOCK_PARTIAL \<Rightarrow> offset_start r < offset_stop r)"

lemma interval_meets:
  fixes a b c d :: "'a :: linorder"
  shows "{x. x < b} \<inter> {x. c \<le> x} = {} \<longleftrightarrow> b \<le> c" "{x. c \<le> x} \<inter> {x. x < b} = {} \<longleftrightarrow> b \<le> c"
    "c < d \<Longrightarrow> {x. x < b} \<inter> {x. c \<le> x \<and> x < d} = {} \<longleftrightarrow> b \<le> c" "c < d \<Longrightarrow> {x. c \<le> x \<and> x < d} \<inter> {x. x < b} = {} \<longleftrightarrow> b \<le> c"
    "a < b \<Longrightarrow> {x. a \<le> x \<and> x < b} \<inter> {x. c \<le> x} = {} \<longleftrightarrow> b \<le> c" "a < b \<Longrightarrow> {x. c \<le> x} \<inter> {x. a \<le> x \<and> x < b} = {} \<longleftrightarrow> b \<le> c"
    "a < b \<Longrightarrow> c < d \<Longrightarrow> {x. a \<le> x \<and> x < b} \<inter> {x. c \<le> x \<and> x < d} = {} \<longleftrightarrow> (if a \<le> c then b \<le> c else d \<le> a)"
    "{x. a \<le> x} \<inter> {x. c \<le> x} \<noteq> {}"
proof -
  show "{x. x < b} \<inter> {x. c \<le> x} = {} \<longleftrightarrow> b \<le> c" "{x. c \<le> x} \<inter> {x. x < b} = {} \<longleftrightarrow> b \<le> c" by (auto simp: disjoint_iff not_less[symmetric])
  show "{x. x < b} \<inter> {x. c \<le> x \<and> x < d} = {} \<longleftrightarrow> b \<le> c" "{x. c \<le> x \<and> x < d} \<inter> {x. x < b} = {} \<longleftrightarrow> b \<le> c" if "c < d"
    using that by (auto simp: disjoint_iff not_less[symmetric])
  show "{x. a \<le> x \<and> x < b} \<inter> {x. c \<le> x} = {} \<longleftrightarrow> b \<le> c" "{x. c \<le> x} \<inter> {x. a \<le> x \<and> x < b} = {} \<longleftrightarrow> b \<le> c" if "a < b"
  proof -
    have m: "max a c \<in> {x. a \<le> x \<and> x < b} \<inter> {x. c \<le> x}" if "\<not> b \<le> c" using that \<open>a < b\<close> by auto
    have "b \<le> c \<Longrightarrow> {x. a \<le> x \<and> x < b} \<inter> {x. c \<le> x} = {}" by auto
    then show "{x. a \<le> x \<and> x < b} \<inter> {x. c \<le> x} = {} \<longleftrightarrow> b \<le> c" using m by blast
    then show "{x. c \<le> x} \<inter> {x. a \<le> x \<and> x < b} = {} \<longleftrightarrow> b \<le> c" by (simp add: Int_commute)
  qed
  show "{x. a \<le> x \<and> x < b} \<inter> {x. c \<le> x \<and> x < d} = {} \<longleftrightarrow> (if a \<le> c then b \<le> c else d \<le> a)" if "a < b" "c < d"
    using that by (auto simp: disjoint_iff not_less[symmetric])
  have "max a c \<in> {x. a \<le> x} \<inter> {x. c \<le> x}" by simp
  then show "{x. a \<le> x} \<inter> {x. c \<le> x} \<noteq> {}" by blast
qed

lemma compatible_disjoint:
  assumes "block_range (effective_range l1)" "block_range (effective_range l2)"
  shows "are_file_locks_compatible l1 l2 \<longleftrightarrow> lock_mode l1 = EP_LOCK_READ \<and> lock_mode l2 = EP_LOCK_READ
     \<or> offsets (effective_range l1) \<inter> offsets (effective_range l2) = {}"
proof (cases "lock_mode l1 = EP_LOCK_READ \<and> lock_mode l2 = EP_LOCK_READ")
  case False
  have ne: "{x. x < b} \<noteq> {}" if "0 < b" for b :: u64 using that by blast
  have fs: "{x. x < b} \<inter> {x. x < c} \<noteq> {}" if "0 < b" "0 < c" for b c :: u64 using that by blast
  have "are_file_locks_compatible l1 l2 \<longleftrightarrow> offsets (effective_range l1) \<inter> offsets (effective_range l2) = {}"
    using assms False
    by (cases "range_size (effective_range l1)"; cases "range_size (effective_range l2)")
      (auto simp add: are_file_locks_compatible_def offsets_def block_range_def Let_def interval_meets ne fs)
  then show ?thesis using False by blast
qed (simp add: are_file_locks_compatible_def)

lemma bbytes64_unat: "0 \<le> bsize \<Longrightarrow> bsize \<le> 3 \<Longrightarrow> unat (bbytes64 bsize) = 4096 * 2 ^ nat bsize"
proof -
  assume a: "0 \<le> bsize" "bsize \<le> 3"
  then have "bsize = 0 \<or> bsize = 1 \<or> bsize = 2 \<or> bsize = 3" by auto
  then show ?thesis by (auto simp: bbytes64_def ROZOFS_BSIZE_BYTES_def)
qed

lemma bbytes64_bounds: "0 \<le> bsize \<Longrightarrow> bsize \<le> 3 \<Longrightarrow> 4096 \<le> unat (bbytes64 bsize)"
  by (simp add: bbytes64_unat)

lemma div_succ_unat:
  assumes "4096 \<le> unat (b :: u64)"
  shows "unat (x div b + 1) = unat x div unat b + 1"
proof -
  have "unat x div unat b \<le> unat x div 4096" using assms by (intro div_le_mono2) auto
  also have "\<dots> < 2 ^ 52" using unsigned_less[of x, where 'a = nat] by (simp add: less_mult_imp_div_less)
  finally have "unat (x div b) < 2 ^ 52" by (simp add: unat_div)
  then show ?thesis by (subst unat_add_lem[THEN iffD1]) (simp_all add: unat_div)
qed

text \<open>The block of the last byte: rounding up.\<close>

lemma round_up:
  fixes stop b :: u64
  assumes "4096 \<le> unat b"
  defines "s \<equiv> (if stop mod b = 0 then stop div b else stop div b + 1)"
  shows "y < s \<longleftrightarrow> unat y * unat b < unat stop"
proof -
  have b: "0 < unat b" using assms(1) by simp
  have "stop mod b = 0 \<longleftrightarrow> unat stop mod unat b = 0" by (metis unat_eq_zero unat_mod)
  then have s: "unat s = (if unat stop mod unat b = 0 then unat stop div unat b else unat stop div unat b + 1)"
    using div_succ_unat[OF assms(1), of stop] by (simp add: s_def unat_div)
  have "y < s \<longleftrightarrow> unat y < unat s" by (simp add: word_less_nat_alt)
  also have "\<dots> \<longleftrightarrow> unat y * unat b < unat stop"
  proof (cases "unat stop mod unat b = 0")
    case True
    then obtain k where "unat stop = unat b * k" by auto
    then show ?thesis using s True b by (simp add: mult.commute)
  next
    case False
    have "unat y < unat stop div unat b + 1 \<longleftrightarrow> unat y \<le> unat stop div unat b" by linarith
    also have "\<dots> \<longleftrightarrow> unat y * unat b \<le> unat stop" using b by (simp add: less_eq_div_iff_mult_less_eq)
    also have "\<dots> \<longleftrightarrow> unat y * unat b < unat stop" using False by (metis mod_mult_self2_is_0 le_neq_implies_less less_imp_le)
    finally show ?thesis using s False by simp
  qed
  finally show ?thesis .
qed

lemma client_effective_proper:
  assumes "0 \<le> bsize" "bsize \<le> 3" "canonical (user_range l)"
  shows "block_range (effective_range (client_compute_effective_lock_range bsize l))"
  using assms(3)
proof (cases rule: canonical_cases)
  case partial
  have b: "4096 \<le> unat (bbytes64 bsize)" using bbytes64_bounds[OF assms(1,2)] .
  have "unat (offset_start (user_range l) div bbytes64 bsize) * unat (bbytes64 bsize) < unat (offset_stop (user_range l))"
    using partial(3) by (simp add: unat_div word_less_nat_alt) (metis div_times_less_eq_dividend le_less_trans)
  then show ?thesis using partial round_up[OF b] by (auto simp: client_compute_effective_lock_range_def block_range_def Let_def)
next
  case from_start
  have b: "4096 \<le> unat (bbytes64 bsize)" using bbytes64_bounds[OF assms(1,2)] .
  show ?thesis using from_start round_up[OF b, of 0] by (auto simp: client_compute_effective_lock_range_def block_range_def Let_def word_less_nat_alt)
qed (auto simp: client_compute_effective_lock_range_def block_range_def Let_def)

definition first_block :: "ep_lock_range_t \<Rightarrow> u64" where
  "first_block r = (if range_size r = EP_LOCK_TO_END \<or> range_size r = EP_LOCK_PARTIAL then offset_start r else 0)"

lemma word_div_mono: "x \<le> y \<Longrightarrow> x div b \<le> y div b" for x y b :: u64
  by (simp add: word_le_nat_alt unat_div div_le_mono)

lemma client_effective_covers:
  assumes "0 \<le> bsize" "bsize \<le> 3" "canonical (user_range l)" "x \<in> offsets (user_range l)"
  shows "x div bbytes64 bsize \<in> offsets (effective_range (client_compute_effective_lock_range bsize l))"
proof -
  have b: "4096 \<le> unat (bbytes64 bsize)" using bbytes64_bounds[OF assms(1,2)] .
  have up: "x div bbytes64 bsize < (if s mod bbytes64 bsize = 0 then s div bbytes64 bsize else s div bbytes64 bsize + 1)" if "x < s" for s
  proof -
    have "unat (x div bbytes64 bsize) * unat (bbytes64 bsize) \<le> unat x" by (simp add: unat_div)
    also have "\<dots> < unat s" using that by (simp add: word_less_nat_alt)
    finally show ?thesis using round_up[OF b] by simp
  qed
  show ?thesis using assms(3)
  proof (cases rule: canonical_cases)
    case partial
    then show ?thesis using assms(4) up word_div_mono[of "offset_start (user_range l)" x "bbytes64 bsize"]
      by (auto simp: client_compute_effective_lock_range_def offsets_def Let_def)
  next
    case to_end
    then show ?thesis using assms(4) word_div_mono[of "offset_start (user_range l)" x "bbytes64 bsize"]
      by (auto simp: client_compute_effective_lock_range_def offsets_def Let_def)
  qed (use assms(4) up in \<open>auto simp: client_compute_effective_lock_range_def offsets_def Let_def\<close>)
qed

lemma client_effective_tight:
  assumes "0 \<le> bsize" "bsize \<le> 3" "canonical (user_range l)" and y: "y \<le> (- 1) div bbytes64 bsize"
    "y \<in> offsets (effective_range (client_compute_effective_lock_range bsize l))"
  shows "\<exists>x \<in> offsets (user_range l). x div bbytes64 bsize = y"
proof -
  define b where "b = bbytes64 bsize"
  have b: "4096 \<le> unat b" using bbytes64_bounds[OF assms(1,2)] by (simp add: b_def)
  have "unat y * unat b \<le> unat (- 1 :: u64)"
    using y(1) b by (simp add: word_le_nat_alt unat_div less_eq_div_iff_mult_less_eq flip: b_def)
  then have yb: "unat (y * b) = unat y * unat b" using unsigned_less[of "-1 :: u64", where 'a = nat] by (subst unat_mult_lem[THEN iffD1]) auto
  have dy: "y * b div b = y" using yb b by (intro word_unat_eq_iff[THEN iffD2]) (simp add: unat_div)
  define s where "s = offset_start (user_range l)"
  have key: "\<exists>x. x div b = y \<and> s \<le> x \<and> (\<forall>t. s < t \<longrightarrow> unat y * unat b < unat t \<longrightarrow> x < t)" if "s div b \<le> y"
  proof (cases "s \<le> y * b")
    case True
    then show ?thesis using dy yb by (intro exI[of _ "y * b"]) (auto simp: word_less_nat_alt)
  next
    case False
    then have "y * b div b \<le> s div b" by (intro word_div_mono) simp
    then have "s div b = y" using that dy by simp
    then show ?thesis by (intro exI[of _ s]) simp
  qed
  show ?thesis using assms(3)
  proof (cases rule: canonical_cases)
    case total
    then show ?thesis using dy by (auto simp: offsets_def b_def)
  next
    case from_start
    then have "s = 0" by (simp add: s_def)
    moreover have "unat y * unat b < unat (offset_stop (user_range l))"
      using y(2) from_start round_up[OF b, of y] by (auto simp: client_compute_effective_lock_range_def offsets_def Let_def simp flip: b_def split: if_splits)
    ultimately show ?thesis using key from_start by (auto simp: offsets_def b_def)
  next
    case to_end
    then have "s div b \<le> y" using y(2) by (auto simp: client_compute_effective_lock_range_def offsets_def Let_def s_def b_def split: if_splits)
    then show ?thesis using key to_end by (auto simp: offsets_def b_def s_def)
  next
    case partial
    then have "s div b \<le> y" "unat y * unat b < unat (offset_stop (user_range l))"
      using y(2) round_up[OF b, of y] by (auto simp: client_compute_effective_lock_range_def offsets_def Let_def s_def simp flip: b_def split: if_splits)
    then show ?thesis using key partial by (auto simp: offsets_def b_def s_def)
  qed
qed

lemma first_block_meet:
  assumes "block_range r1" "block_range r2" "offsets r1 \<inter> offsets r2 \<noteq> {}"
  shows "max (first_block r1) (first_block r2) \<in> offsets r1 \<inter> offsets r2"
proof -
  obtain y where "y \<in> offsets r1" "y \<in> offsets r2" using assms(3) by blast
  then show ?thesis using assms(1,2)
    by (cases "range_size r1"; cases "range_size r2") (auto simp: offsets_def first_block_def block_range_def max_def)
qed

text \<open>
  Exclusion at block level. For the ranges that clients build (\<^const>\<open>canonical\<close>) and the effective ranges they compute
  from them, the daemon finds two locks compatible exactly when both are read locks or no
  block holds bytes of both.
\<close>

theorem client_locks_exclusion:
  assumes "0 \<le> bsize" "bsize \<le> 3" "canonical (user_range l1)" "canonical (user_range l2)"
  shows "are_file_locks_compatible (client_compute_effective_lock_range bsize l1) (client_compute_effective_lock_range bsize l2)
    \<longleftrightarrow> lock_mode l1 = EP_LOCK_READ \<and> lock_mode l2 = EP_LOCK_READ
      \<or> (\<forall>x\<in>offsets (user_range l1). \<forall>y\<in>offsets (user_range l2). x div bbytes64 bsize \<noteq> y div bbytes64 bsize)"
proof -
  let ?b = "bbytes64 bsize"
  let ?e1 = "effective_range (client_compute_effective_lock_range bsize l1)" and ?e2 = "effective_range (client_compute_effective_lock_range bsize l2)"
  have p: "block_range ?e1" "block_range ?e2" using client_effective_proper assms by auto
  have fb: "first_block (effective_range (client_compute_effective_lock_range bsize l)) \<le> (- 1) div ?b" for l
    using word_div_mono[of "offset_start (user_range l)" "- 1" ?b] by (auto simp: first_block_def client_compute_effective_lock_range_def Let_def)
  have "offsets ?e1 \<inter> offsets ?e2 = {} \<longleftrightarrow> (\<forall>x\<in>offsets (user_range l1). \<forall>y\<in>offsets (user_range l2). x div ?b \<noteq> y div ?b)"
  proof
    assume "offsets ?e1 \<inter> offsets ?e2 = {}"
    then show "\<forall>x\<in>offsets (user_range l1). \<forall>y\<in>offsets (user_range l2). x div ?b \<noteq> y div ?b"
      using client_effective_covers[OF assms(1,2,3)] client_effective_covers[OF assms(1,2,4)] by (metis disjoint_iff)
  next
    assume a: "\<forall>x\<in>offsets (user_range l1). \<forall>y\<in>offsets (user_range l2). x div ?b \<noteq> y div ?b"
    show "offsets ?e1 \<inter> offsets ?e2 = {}"
    proof (rule ccontr)
      assume "offsets ?e1 \<inter> offsets ?e2 \<noteq> {}"
      then have m: "max (first_block ?e1) (first_block ?e2) \<in> offsets ?e1 \<inter> offsets ?e2" by (rule first_block_meet[OF p])
      have "max (first_block ?e1) (first_block ?e2) \<le> (- 1) div ?b" using fb by (simp add: max_def)
      then show False using m a client_effective_tight[OF assms(1,2,3)] client_effective_tight[OF assms(1,2,4)] by (metis IntD1 IntD2)
    qed
  qed
  then show ?thesis using compatible_disjoint[OF p] by simp
qed

definition sample_lock :: "u64 \<Rightarrow> ep_lock_mode_t \<Rightarrow> ep_lock_size_t \<Rightarrow> u64 \<Rightarrow> u64 \<Rightarrow> ep_lock_t" where
  "sample_lock client mode sz start stop = client_compute_effective_lock_range 0
     \<lparr>lock_mode = mode, lock_client = client, lock_owner = 1, user_range = \<lparr>range_size = sz, offset_start = start, offset_stop = stop\<rparr>,
      effective_range = \<lparr>range_size = EP_LOCK_NULL, offset_start = 0, offset_stop = 0\<rparr>\<rparr>"

theorem client_locks_exclusion_witness:
  "\<not> are_file_locks_compatible (sample_lock 1 EP_LOCK_WRITE EP_LOCK_FROM_START 0 5000) (sample_lock 2 EP_LOCK_READ EP_LOCK_PARTIAL 6000 7000)"
proof -
  have "\<exists>x < 5000 :: u64. \<exists>y \<ge> 6000. y < 7000 \<and> x div 4096 = y div 4096"
    by (rule exI[of _ 4999], intro conjI exI[of _ 6000]) code_simp+
  then show ?thesis unfolding sample_lock_def
    by (subst client_locks_exclusion) (auto simp: canonical_def offsets_def bbytes64_def ROZOFS_BSIZE_BYTES_def)
qed

text \<open>
  Merging locks. For canonical ranges, the daemon merges a lock into the requested one exactly when their user ranges
  overlap or touch; the merged range is canonical and holds exactly the bytes of both, for the same client, owner and mode.
\<close>

theorem merge_is_union:
  assumes "canonical (user_range l1)" "canonical (user_range l2)"
  shows "case try_file_locks_concatenate bsize l1 l2 of
      None \<Rightarrow> \<not> are_file_locks_overlapping l1 l2
    | Some l \<Rightarrow> are_file_locks_overlapping l1 l2 \<and> canonical (user_range l)
        \<and> offsets (user_range l) = offsets (user_range l1) \<union> offsets (user_range l2)
        \<and> lock_mode l = lock_mode l1 \<and> lock_client l = lock_client l1 \<and> lock_owner l = lock_owner l1"
  by (rule concatenate_spec[OF assms])

theorem merge_is_union_witness:
  "\<exists>l. try_file_locks_concatenate 0 (sample_lock 1 EP_LOCK_READ EP_LOCK_PARTIAL 10 20) (sample_lock 1 EP_LOCK_READ EP_LOCK_TO_END 20 0) = Some l
     \<and> offsets (user_range l) = {x. 10 \<le> x}"
proof -
  let ?l1 = "sample_lock 1 EP_LOCK_READ EP_LOCK_PARTIAL 10 20" and ?l2 = "sample_lock 1 EP_LOCK_READ EP_LOCK_TO_END 20 0"
  have u: "user_range ?l1 = \<lparr>range_size = EP_LOCK_PARTIAL, offset_start = 10, offset_stop = 20\<rparr>"
    "user_range ?l2 = \<lparr>range_size = EP_LOCK_TO_END, offset_start = 20, offset_stop = 0\<rparr>" by (simp_all add: sample_lock_def)
  have "are_file_locks_overlapping ?l1 ?l2" using u by (simp add: are_file_locks_overlapping_def Let_def)
  moreover have "{x. 10 \<le> x \<and> x < 20} \<union> {x. 20 \<le> x} = {x :: u64. 10 \<le> x}" by (auto intro: order_trans[of 10 20])
  ultimately show ?thesis using merge_is_union[of ?l1 ?l2 0] u by (auto simp: canonical_def offsets_def split: option.splits)
qed

text \<open>
  Freeing a range. A lock of the same client and owner goes away only if all its bytes are freed; otherwise what is left of
  it, with the lock that is split off when the freed range is in its middle, holds exactly its bytes
  minus the freed ones. Locks of other owners are untouched.
\<close>

theorem unlock_is_difference:
  assumes "canonical (user_range f)" "canonical (user_range l)" "must_file_lock_be_removed bsize f l = (gone, l', new)"
  shows "if lock_client f = lock_client l \<and> lock_owner f = lock_owner l
    then (if gone then offsets (user_range l) \<subseteq> offsets (user_range f) \<and> new = None
          else canonical (user_range l') \<and> (\<forall>n. new = Some n \<longrightarrow> canonical (user_range n) \<and> lock_mode n = lock_mode l)
            \<and> offsets (user_range l') \<union> (case new of None \<Rightarrow> {} | Some n \<Rightarrow> offsets (user_range n)) = offsets (user_range l) - offsets (user_range f))
    else \<not> gone \<and> l' = l \<and> new = None"
proof (cases "lock_client f = lock_client l \<and> lock_owner f = lock_owner l")
  case True
  then have c: "lock_client f = lock_client l" "lock_owner f = lock_owner l" by auto
  note s = free_spec[OF assms(1,2) c assms(3)]
  show ?thesis
  proof (cases gone)
    case g: True
    show ?thesis unfolding if_P[OF True] if_P[OF g] using s g by blast
  next
    case g: False
    show ?thesis unfolding if_P[OF True] if_not_P[OF g] using s g by blast
  qed
next
  case False
  then show ?thesis using assms(3) by (auto simp: must_file_lock_be_removed_def split: if_splits)
qed

theorem unlock_is_difference_witness:
  "\<exists>l' n. must_file_lock_be_removed 0 (sample_lock 1 EP_LOCK_FREE EP_LOCK_PARTIAL 10 20) (sample_lock 1 EP_LOCK_WRITE EP_LOCK_TOTAL 0 0) = (False, l', Some n)
     \<and> offsets (user_range l') \<union> offsets (user_range n) = - {x. 10 \<le> x \<and> x < 20}"
proof -
  let ?f = "sample_lock 1 EP_LOCK_FREE EP_LOCK_PARTIAL 10 20" and ?l = "sample_lock 1 EP_LOCK_WRITE EP_LOCK_TOTAL 0 0"
  have u: "user_range ?f = \<lparr>range_size = EP_LOCK_PARTIAL, offset_start = 10, offset_stop = 20\<rparr>" "lock_client ?f = 1" "lock_owner ?f = 1"
    "user_range ?l = \<lparr>range_size = EP_LOCK_TOTAL, offset_start = 0, offset_stop = 0\<rparr>" "lock_client ?l = 1" "lock_owner ?l = 1"
    by (simp_all add: sample_lock_def)
  obtain l' n where r: "must_file_lock_be_removed 0 ?f ?l = (False, l', Some n)"
    using u by (simp add: must_file_lock_be_removed_def Let_def)
  have "- {x. 10 \<le> x \<and> x < 20} = (UNIV :: u64 set) - {x. 10 \<le> x \<and> x < 20}" by auto
  then show ?thesis using unlock_is_difference[OF _ _ r] r u by (auto simp: canonical_def offsets_def)
qed

text \<open>
  The range that a client builds from a POSIX request (\<^verbatim>\<open>fcntl\<close>), when it does not refuse it: canonical, and made of
  the bytes from the start of the request to its end, or to the end of the file when its length is 0. Requests that reach below
  offset 0 are refused.
\<close>

theorem flock_canonical_range:
  assumes "rozofs_flock_canonical whence l_start l_len cur fsize = Some (sz, start, stop)"
  defines "req \<equiv> (case whence of SEEK_SET \<Rightarrow> 0 | SEEK_CUR \<Rightarrow> cur | SEEK_END \<Rightarrow> fsize) + l_start"
  shows "(sz = EP_LOCK_NULL \<longleftrightarrow> req < 0 \<or> req + l_len < 0)
    \<and> (sz \<noteq> EP_LOCK_NULL \<longrightarrow> canonical \<lparr>range_size = sz, offset_start = word_of_int start, offset_stop = word_of_int stop\<rparr>
        \<and> offsets \<lparr>range_size = sz, offset_start = word_of_int start, offset_stop = word_of_int stop\<rparr>
          = {x. (if l_len < 0 then req + l_len else req) \<le> uint x \<and> (l_len = 0 \<or> uint x < (if l_len < 0 then req else req + l_len))})"
proof -
  have w: "uint (word_of_int x :: u64) = x" if "0 \<le> x" "x < 2 ^ 63" for x using that by (simp add: uint_word_of_int)
  have z: "(word_of_int x :: u64) = 0 \<longleftrightarrow> x = 0" if "0 \<le> x" "x < 2 ^ 63" for x using w[OF that] by (metis of_int_0 unsigned_0)
  have base: "(case whence of SEEK_CUR \<Rightarrow> cur | SEEK_END \<Rightarrow> fsize | SEEK_SET \<Rightarrow> 0) + l_start = req" by (cases whence) (simp_all add: req_def)
  have ord: "(word_of_int x :: u64) \<le> y \<longleftrightarrow> x \<le> uint y" "y < (word_of_int x :: u64) \<longleftrightarrow> uint y < x" if "0 \<le> x" "x < 2 ^ 63" for x y
    using w[OF that] by (simp_all add: word_le_def word_less_def)
  note run = assms(1)[unfolded rozofs_flock_canonical_def Let_def base int64_ok_def]
  consider "req < 0" | "0 \<le> req" "req + l_len < 0" | "0 \<le> req" "0 \<le> req + l_len" by linarith
  then show ?thesis
  proof cases
    case 3
    have r: "req < 2 ^ 63" using run 3 by (auto split: if_splits)
    show ?thesis
    proof (cases "l_len < 0")
      case True
      then have "start = req + l_len" "stop = req" "sz = (if start = 0 then EP_LOCK_FROM_START else EP_LOCK_PARTIAL)"
        using run 3 by (auto split: if_splits)
      then show ?thesis using 3 True r z[of "req + l_len"] by (auto simp: canonical_def offsets_def ord word_less_def w simp del: of_int_add)
    next
      case len: False
      then have st: "start = req" "stop = (if l_len = 0 then 0 else req + l_len)" "l_len \<noteq> 0 \<Longrightarrow> stop < 2 ^ 63"
        "sz = (if l_len = 0 then (if req = 0 then EP_LOCK_TOTAL else EP_LOCK_TO_END) else if req = 0 then EP_LOCK_FROM_START else EP_LOCK_PARTIAL)"
        using run 3 by (auto split: if_splits)
      show ?thesis
      proof (cases "l_len = 0")
        case True
        then show ?thesis using st 3 r by (auto simp: canonical_def offsets_def ord word_less_def w simp del: of_int_add)
      next
        case False
        then show ?thesis using st(1,2,4) st(3)[OF False] 3 len r by (auto simp: canonical_def offsets_def ord word_less_def w simp del: of_int_add)
      qed
    qed
  qed (use run in \<open>auto split: if_splits\<close>)
qed

theorem flock_canonical_range_witness:
  "offsets \<lparr>range_size = EP_LOCK_PARTIAL, offset_start = 90, offset_stop = 100\<rparr> = {x. 90 \<le> uint x \<and> uint x < 100}"
proof -
  have "rozofs_flock_canonical SEEK_END 0 (- 10) 7 100 = Some (EP_LOCK_PARTIAL, 90, 100)" by code_simp
  from flock_canonical_range[OF this] show ?thesis by simp
qed

text \<open>
  The daemon's own computation of the effective range loses part of the lock: after it, a lock of the whole file has an
  empty effective range, and the last, partly filled, block of a range is missing when the stop offset that was there before is
  a multiple of the block size.
\<close>

theorem daemon_effective_range_loses_blocks:
  assumes "0 \<le> bsize" "bsize \<le> 3"
  shows "(range_size (user_range l) = EP_LOCK_TOTAL \<and> canonical (user_range l) \<longrightarrow>
       offsets (effective_range (compute_effective_lock_range bsize l)) = {})
    \<and> (range_size (user_range l) = EP_LOCK_PARTIAL \<and> canonical (user_range l) \<and> offset_stop (effective_range l) mod bbytes64 bsize = 0
         \<and> offset_stop (user_range l) mod bbytes64 bsize \<noteq> 0 \<longrightarrow>
       (offset_stop (user_range l) - 1) div bbytes64 bsize \<notin> offsets (effective_range (compute_effective_lock_range bsize l)))"
proof (intro conjI impI)
  assume "range_size (user_range l) = EP_LOCK_TOTAL \<and> canonical (user_range l)"
  then show "offsets (effective_range (compute_effective_lock_range bsize l)) = {}"
    by (auto simp: canonical_def compute_effective_lock_range_def offsets_def Let_def)
next
  let ?b = "bbytes64 bsize" and ?s = "offset_stop (user_range l)"
  assume a: "range_size (user_range l) = EP_LOCK_PARTIAL \<and> canonical (user_range l) \<and> offset_stop (effective_range l) mod ?b = 0 \<and> ?s mod ?b \<noteq> 0"
  have b: "4096 \<le> unat ?b" using bbytes64_bounds[OF assms] .
  have "?s \<noteq> 0" using a by auto
  then have "unat (?s - 1) = unat ?s - 1" by (simp add: unat_minus_one)
  moreover have m: "unat ?s mod unat ?b \<noteq> 0" using a by (metis unat_eq_zero unat_mod)
  ultimately have "unat ((?s - 1) div ?b) = (unat ?s - 1) div unat ?b" by (simp add: unat_div)
  also have "\<dots> = unat ?s div unat ?b"
  proof -
    have "unat ?s = Suc (unat ?s - 1)" using \<open>?s \<noteq> 0\<close> by (simp add: unat_gt_0)
    then show ?thesis using m by (metis div_Suc)
  qed
  finally have "(?s - 1) div ?b = ?s div ?b" by (simp add: word_unat_eq_iff unat_div)
  then show "(?s - 1) div ?b \<notin> offsets (effective_range (compute_effective_lock_range bsize l))"
    using a by (auto simp: compute_effective_lock_range_def offsets_def Let_def)
qed

theorem daemon_effective_range_loses_blocks_witness:
  "offsets (effective_range (compute_effective_lock_range 0 (sample_lock 1 EP_LOCK_WRITE EP_LOCK_TOTAL 0 0))) = {}
   \<and> 1 \<notin> offsets (effective_range (compute_effective_lock_range 0 ((sample_lock 1 EP_LOCK_WRITE EP_LOCK_PARTIAL 4096 5000)
        \<lparr>effective_range := \<lparr>range_size = EP_LOCK_PARTIAL, offset_start = 1, offset_stop = 0\<rparr>\<rparr>)))"
proof -
  let ?l = "(sample_lock 1 EP_LOCK_WRITE EP_LOCK_PARTIAL 4096 5000)\<lparr>effective_range := \<lparr>range_size = EP_LOCK_PARTIAL, offset_start = 1, offset_stop = 0\<rparr>\<rparr>"
  have "canonical (user_range ?l)" "(offset_stop (user_range ?l) - 1) div bbytes64 0 = 1" "offset_stop (user_range ?l) mod bbytes64 0 \<noteq> 0"
    by code_simp+
  then show ?thesis
    using daemon_effective_range_loses_blocks[of 0 "sample_lock 1 EP_LOCK_WRITE EP_LOCK_TOTAL 0 0"] daemon_effective_range_loses_blocks[of 0 ?l]
    by (auto simp: sample_lock_def canonical_def)
qed

end
