(* ===== verification/Lock_Service.thy ===== *)
theory Lock_Service
  imports Lock_Range Contract Fid_Bitmap
begin

text \<open>
  The file lock service of the export daemon: the locks of each file and of each client
  (\<^verbatim>\<open>src/exportd/cache.c\<close>) and the requests on them (\<^verbatim>\<open>src/exportd/export_tracking.c\<close>).

  A lock is an allocated cell of a heap, linked in the list of its file and in the list of its
  client; unlinking takes it out of both. Reading or freeing a cell that is not allocated is \<^term>\<open>None\<close>.
  Clients are identified by their reference, which is unique in the list of an export
  (an invariant below).
\<close>

section \<open>Model\<close>

record ep_client_info_t =
  info_vers :: string
  info_diag_port :: u16
  info_socketRef :: u32

record rozofs_file_lock_client_t =
  client_ref :: u64
  client_info :: ep_client_info_t
  last_poll_time :: u64
  nb_lock :: u64
  file_lock_list :: "nat list"

record file_lock_stat_t =
  nb_file_lock :: u64
  nb_client_file_lock :: u64
  nb_lock_unlink :: u64
  nb_lock_allocate :: u64
  nb_remove_client :: u64
  nb_add_client :: u64

text \<open>
  The state: the heap of locks, the next free address, the client list of each export, and for each file
  its lock list and its count \<^verbatim>\<open>nb_locks\<close>.
\<close>

record lock_state =
  lk_heap :: "nat \<Rightarrow> ep_lock_t option"
  lk_next :: nat
  lk_clients :: "int \<Rightarrow> rozofs_file_lock_client_t list"
  lk_fid :: "fid_t \<Rightarrow> nat list"
  lk_nb :: "fid_t \<Rightarrow> int"
  lk_stat :: file_lock_stat_t

abbreviation (input) EXPGW_EID_MAX_IDX :: int where "EXPGW_EID_MAX_IDX \<equiv> 1024"

definition file_lock_service_init :: "lock_state \<Rightarrow> lock_state" where
  "file_lock_service_init s = s\<lparr>lk_stat := \<lparr>nb_file_lock = 0, nb_client_file_lock = 0, nb_lock_unlink = 0, nb_lock_allocate = 0,
     nb_remove_client = 0, nb_add_client = 0\<rparr>, lk_clients := (\<lambda>idx. [])\<rparr>"

definition eid_slot :: "int \<Rightarrow> int option" where
  "eid_slot eid = (if 1 \<le> eid \<and> eid \<le> EXPGW_EID_MAX_IDX then Some (eid - 1) else None)"

definition xfree :: "nat \<Rightarrow> lock_state \<Rightarrow> lock_state option" where
  "xfree a s = do { _ \<leftarrow> lk_heap s a; Some (s\<lparr>lk_heap := (lk_heap s)(a := None)\<rparr>) }"

definition file_lock_unlink :: "nat \<Rightarrow> lock_state \<Rightarrow> lock_state option" where
  "file_lock_unlink a s = do {
     _ \<leftarrow> lk_heap s a;
     let st = lk_stat s;
     Some (s\<lparr>lk_stat := st\<lparr>nb_lock_unlink := nb_lock_unlink st + 1, nb_file_lock := nb_file_lock st - 1\<rparr>,
       lk_fid := (\<lambda>f. remove1 a (lk_fid s f)),
       lk_clients := (\<lambda>i. map (\<lambda>c. c\<lparr>file_lock_list := remove1 a (file_lock_list c)\<rparr>) (lk_clients s i))\<rparr>) }"

subsection \<open>Clients\<close>

definition find_client :: "u64 \<Rightarrow> rozofs_file_lock_client_t list \<Rightarrow> rozofs_file_lock_client_t option" where
  "find_client ref cs = List.find (\<lambda>c. client_ref c = ref) cs"

definition update_client ::
  "u64 \<Rightarrow> (rozofs_file_lock_client_t \<Rightarrow> rozofs_file_lock_client_t) \<Rightarrow> rozofs_file_lock_client_t list \<Rightarrow> rozofs_file_lock_client_t list"
where
  "update_client ref f cs = map (\<lambda>c. if client_ref c = ref then f c else c) cs"

text \<open>The loop of \<^verbatim>\<open>file_lock_remove_one_client\<close>, also that of \<^verbatim>\<open>file_lock_remove_fid_locks\<close>: it empties a list of locks.\<close>

definition drop_locks :: "nat list \<Rightarrow> lock_state \<Rightarrow> lock_state option" where
  "drop_locks = foldM (\<lambda>a s. do { s \<leftarrow> file_lock_unlink a s; xfree a s })"

definition file_lock_remove_one_client :: "int \<Rightarrow> rozofs_file_lock_client_t \<Rightarrow> lock_state \<Rightarrow> lock_state option" where
  "file_lock_remove_one_client i client s = do {
     let s = s\<lparr>lk_stat := (lk_stat s)\<lparr>nb_remove_client := nb_remove_client (lk_stat s) + 1\<rparr>\<rparr>;
     s \<leftarrow> drop_locks (file_lock_list client) s;
     Some (s\<lparr>lk_clients := (lk_clients s)(i := filter (\<lambda>c. client_ref c \<noteq> client_ref client) (lk_clients s i)),
       lk_stat := (lk_stat s)\<lparr>nb_client_file_lock := nb_client_file_lock (lk_stat s) - 1\<rparr>\<rparr>) }"

definition file_lock_remove_client :: "int \<Rightarrow> u64 \<Rightarrow> lock_state \<Rightarrow> lock_state option" where
  "file_lock_remove_client eid ref s = do {
     i \<leftarrow> eid_slot eid;
     case find_client ref (lk_clients s i) of
       None \<Rightarrow> Some s
     | Some client \<Rightarrow> file_lock_remove_one_client i client s }"

text \<open>\<open>export_exists\<close> stands for \<^verbatim>\<open>exports_lookup_export\<close>.\<close>

definition file_lock_reload :: "(int \<Rightarrow> bool) \<Rightarrow> lock_state \<Rightarrow> lock_state option" where
  "file_lock_reload export_exists s = foldM (\<lambda>idx s.
     if lk_clients s idx = [] \<or> export_exists (idx + 1) then Some s
     else foldM (\<lambda>ref s. do {
         client \<leftarrow> find_client ref (lk_clients s idx);
         file_lock_remove_one_client idx client s }) (map client_ref (lk_clients s idx)) s)
     [0..EXPGW_EID_MAX_IDX - 1] s"

definition file_lock_create_client :: "int \<Rightarrow> u64 \<Rightarrow> ep_client_info_t \<Rightarrow> u64 \<Rightarrow> lock_state \<Rightarrow> lock_state option" where
  "file_lock_create_client eid ref info now s = do {
     i \<leftarrow> eid_slot eid;
     let st = lk_stat s;
     Some (s\<lparr>lk_stat := st\<lparr>nb_add_client := nb_add_client st + 1, nb_client_file_lock := nb_client_file_lock st + 1\<rparr>,
       lk_clients := (lk_clients s)(i := \<lparr>client_ref = ref, client_info = info, last_poll_time = now, nb_lock = 0, file_lock_list = []\<rparr> # lk_clients s i)\<rparr>) }"

text \<open>
  The loop visits the clients that were in the list when it started. Times are unsigned: a client whose last poll is in the
  future counts as very old.
\<close>

definition file_lock_poll_client ::
  "u64 \<Rightarrow> u64 \<Rightarrow> int \<Rightarrow> u64 \<Rightarrow> ep_client_info_t \<Rightarrow> lock_state \<Rightarrow> lock_state option"
where
  "file_lock_poll_client delay_max now eid ref info s = do {
     i \<leftarrow> eid_slot eid;
     (found, s) \<leftarrow> foldM (\<lambda>r (found, s). do {
         client \<leftarrow> find_client r (lk_clients s i);
         if client_ref client = ref
         then Some (True, s\<lparr>lk_clients := (lk_clients s)(i := update_client r (\<lambda>c. c\<lparr>last_poll_time := now\<rparr>) (lk_clients s i))\<rparr>)
         else if now - last_poll_time client > delay_max
         then do { s \<leftarrow> file_lock_remove_client eid (client_ref client) s; Some (found, s) }
         else Some (found, s) }) (map client_ref (lk_clients s i)) (False, s);
     if found then Some s else file_lock_create_client eid ref info now s }"

definition file_lock_remove_fid_locks :: "fid_t \<Rightarrow> lock_state \<Rightarrow> lock_state option" where
  "file_lock_remove_fid_locks fid s = drop_locks (lk_fid s fid) s"

subsection \<open>Locks\<close>

definition file_lock_add_lock_to_client :: "u64 \<Rightarrow> int \<Rightarrow> nat \<Rightarrow> ep_client_info_t \<Rightarrow> lock_state \<Rightarrow> lock_state option" where
  "file_lock_add_lock_to_client now eid a info s = do {
     i \<leftarrow> eid_slot eid;
     lock \<leftarrow> lk_heap s a;
     s \<leftarrow> (case find_client (lock_client lock) (lk_clients s i) of
         Some _ \<Rightarrow> Some s | None \<Rightarrow> file_lock_create_client eid (lock_client lock) info now s);
     Some (s\<lparr>lk_clients := (lk_clients s)(i := update_client (lock_client lock)
       (\<lambda>c. c\<lparr>file_lock_list := a # file_lock_list c, nb_lock := nb_lock c + 1\<rparr>) (lk_clients s i))\<rparr>) }"

definition lv2_cache_allocate_file_lock :: "u64 \<Rightarrow> int \<Rightarrow> ep_lock_t \<Rightarrow> ep_client_info_t \<Rightarrow> lock_state \<Rightarrow> (nat \<times> lock_state) option" where
  "lv2_cache_allocate_file_lock now eid lock info s = do {
     let a = lk_next s;
     let st = lk_stat s;
     s \<leftarrow> file_lock_add_lock_to_client now eid a info
       (s\<lparr>lk_heap := (lk_heap s)(a \<mapsto> lock), lk_next := a + 1,
          lk_stat := st\<lparr>nb_file_lock := nb_file_lock st + 1, nb_lock_allocate := nb_lock_allocate st + 1\<rparr>\<rparr>);
     Some (a, s) }"

definition lv2_cache_free_file_lock :: "int \<Rightarrow> nat \<Rightarrow> lock_state \<Rightarrow> lock_state option" where
  "lv2_cache_free_file_lock eid a s = do {
     i \<leftarrow> eid_slot eid;
     lock \<leftarrow> lk_heap s a;
     s \<leftarrow> (case find_client (lock_client lock) (lk_clients s i) of
         None \<Rightarrow> Some s
       | Some _ \<Rightarrow> file_lock_unlink a (s\<lparr>lk_clients := (lk_clients s)(i := update_client (lock_client lock) (\<lambda>c. c\<lparr>nb_lock := nb_lock c - 1\<rparr>) (lk_clients s i))\<rparr>));
     xfree a s }"

definition list_push_fid :: "fid_t \<Rightarrow> nat \<Rightarrow> lock_state \<Rightarrow> lock_state" where
  "list_push_fid fid a s = s\<lparr>lk_fid := (lk_fid s)(fid := a # lk_fid s fid), lk_nb := (lk_nb s)(fid := lk_nb s fid + 1)\<rparr>"

definition drop_fid_lock :: "int \<Rightarrow> fid_t \<Rightarrow> nat \<Rightarrow> lock_state \<Rightarrow> lock_state option" where
  "drop_fid_lock eid fid a s = do {
     s \<leftarrow> lv2_cache_free_file_lock eid a s;
     Some (s\<lparr>lk_nb := (lk_nb s)(fid := (if lk_fid s fid = [] then 0 else lk_nb s fid - 1))\<rparr>) }"

section \<open>Requests\<close>

record export_ctx =
  ex_eid :: int
  ex_bsize :: int

datatype lock_status = Lock_ok | Would_block ep_lock_t | No_entry

text \<open>
  Freeing a range: one pass over the list of the file. The first lock to remove is freed and the pass starts again
  (\<^verbatim>\<open>reloop\<close>); \<open>fuel\<close> bounds the number of passes.
\<close>

fun free_pass ::
  "u64 \<Rightarrow> export_ctx \<Rightarrow> fid_t \<Rightarrow> ep_lock_t \<Rightarrow> ep_client_info_t \<Rightarrow> nat list \<Rightarrow> lock_state \<Rightarrow> (bool \<times> lock_state) option"
where
  "free_pass now e fid req info [] s = Some (False, s)"
| "free_pass now e fid req info (a # as) s = do {
     l \<leftarrow> lk_heap s a;
     let (gone, l', new) = must_file_lock_be_removed (ex_bsize e) req l;
     if gone then do { s \<leftarrow> drop_fid_lock (ex_eid e) fid a s; Some (lk_fid s fid \<noteq> [], s) }
     else do {
       let s = s\<lparr>lk_heap := (lk_heap s)(a \<mapsto> l')\<rparr>;
       s \<leftarrow> (case new of None \<Rightarrow> Some s
         | Some n \<Rightarrow> do { (b, s) \<leftarrow> lv2_cache_allocate_file_lock now (ex_eid e) n info s; Some (list_push_fid fid b s) });
       free_pass now e fid req info as s } }"

fun free_loop :: "nat \<Rightarrow> u64 \<Rightarrow> export_ctx \<Rightarrow> fid_t \<Rightarrow> ep_lock_t \<Rightarrow> ep_client_info_t \<Rightarrow> lock_state \<Rightarrow> lock_state option" where
  "free_loop 0 now e fid req info s = None"
| "free_loop (Suc fuel) now e fid req info s = do {
     (again, s) \<leftarrow> free_pass now e fid req info (lk_fid s fid) s;
     if again then free_loop fuel now e fid req info s else Some s }"

text \<open>
  The check of a new lock against the locks of the file: the first blocking lock, or the number of locks of the
  same owner and mode that overlap it.
\<close>

fun check_locks :: "ep_lock_t \<Rightarrow> ep_lock_t list \<Rightarrow> nat \<Rightarrow> ep_lock_t + nat" where
  "check_locks req [] overlap = Inr overlap"
| "check_locks req (l # ls) overlap =
     (if lock_client l \<noteq> lock_client req \<or> lock_owner l \<noteq> lock_owner req
      then (if \<not> are_file_locks_compatible l req then Inl l else check_locks req ls overlap)
      else if lock_mode l = lock_mode req
      then check_locks req ls (if are_file_locks_overlapping req l then overlap + 1 else overlap)
      else check_locks req ls overlap)"

text \<open>One pass of the \<^verbatim>\<open>concatenate\<close> loop: the first lock that merges, with the merged lock.\<close>

fun find_merge :: "int \<Rightarrow> ep_lock_t \<Rightarrow> (nat \<times> ep_lock_t) list \<Rightarrow> (nat \<times> ep_lock_t) option" where
  "find_merge bsize req [] = None"
| "find_merge bsize req ((a, l) # ls) =
     (if lock_client l \<noteq> lock_client req \<or> lock_owner l \<noteq> lock_owner req \<or> lock_mode l \<noteq> lock_mode req then find_merge bsize req ls
      else case try_file_locks_concatenate bsize req l of
        Some r \<Rightarrow> Some (a, r) | None \<Rightarrow> find_merge bsize req ls)"

definition fid_locks :: "lock_state \<Rightarrow> fid_t \<Rightarrow> (nat \<times> ep_lock_t) list option" where
  "fid_locks s fid = foldM (\<lambda>a ls. do { l \<leftarrow> lk_heap s a; Some (ls @ [(a, l)]) }) (lk_fid s fid) []"

fun merge_loop :: "nat \<Rightarrow> export_ctx \<Rightarrow> fid_t \<Rightarrow> nat \<Rightarrow> ep_lock_t \<Rightarrow> lock_state \<Rightarrow> (ep_lock_t \<times> lock_state) option" where
  "merge_loop 0 e fid overlap req s = None"
| "merge_loop (Suc fuel) e fid overlap req s =
     (if overlap = 0 then Some (req, s)
      else do {
        ls \<leftarrow> fid_locks s fid;
        case find_merge (ex_bsize e) req ls of
          None \<Rightarrow> Some (req, s)
        | Some (a, r) \<Rightarrow> do { s \<leftarrow> drop_fid_lock (ex_eid e) fid a s; merge_loop fuel e fid (overlap - 1) r s } })"

text \<open>\<open>known\<close> says whether \<^verbatim>\<open>EXPORT_LOOKUP_FID\<close> finds the file; \<^term>\<open>No_entry\<close> is its error return.\<close>

definition export_set_file_lock ::
  "(fid_t \<Rightarrow> bool) \<Rightarrow> u64 \<Rightarrow> export_ctx \<Rightarrow> fid_t \<Rightarrow> ep_lock_t \<Rightarrow> ep_client_info_t \<Rightarrow> lock_state \<Rightarrow> (lock_status \<times> lock_state) option"
where
  "export_set_file_lock known now e fid req info s =
     (if \<not> known fid then Some (No_entry, s)
      else if lock_mode req = EP_LOCK_FREE then
        (if lk_nb s fid = 0 then Some (Lock_ok, s)
         else if lk_fid s fid = [] then Some (Lock_ok, s\<lparr>lk_nb := (lk_nb s)(fid := 0)\<rparr>)
         else do { s \<leftarrow> free_loop (Suc (length (lk_fid s fid))) now e fid req info s; Some (Lock_ok, s) })
      else do {
        ls \<leftarrow> fid_locks s fid;
        case check_locks req (map snd ls) 0 of
          Inl l \<Rightarrow> Some (Would_block l, s)
        | Inr overlap \<Rightarrow> do {
            (req, s) \<leftarrow> merge_loop (Suc (length (lk_fid s fid))) e fid overlap req s;
            (a, s) \<leftarrow> lv2_cache_allocate_file_lock now (ex_eid e) req info s;
            Some (Lock_ok, list_push_fid fid a s) } })"

definition export_get_file_lock :: "(fid_t \<Rightarrow> bool) \<Rightarrow> fid_t \<Rightarrow> ep_lock_t \<Rightarrow> lock_state \<Rightarrow> lock_status option" where
  "export_get_file_lock known fid req s =
     (if \<not> known fid then Some No_entry
      else if lock_mode req = EP_LOCK_FREE then Some Lock_ok
      else do {
        ls \<leftarrow> fid_locks s fid;
        Some (case List.find (\<lambda>l. \<not> are_file_locks_compatible l req) (map snd ls) of
          Some l \<Rightarrow> Would_block l | None \<Rightarrow> Lock_ok) })"

definition export_clear_client_file_lock ::
  "u64 \<Rightarrow> u64 \<Rightarrow> export_ctx \<Rightarrow> ep_lock_t \<Rightarrow> ep_client_info_t \<Rightarrow> lock_state \<Rightarrow> lock_state option"
where
  "export_clear_client_file_lock delay_max now e req info s = do {
     s \<leftarrow> file_lock_remove_client (ex_eid e) (lock_client req) s;
     file_lock_poll_client delay_max now (ex_eid e) (lock_client req) info s }"

fun owner_loop :: "nat \<Rightarrow> export_ctx \<Rightarrow> fid_t \<Rightarrow> ep_lock_t \<Rightarrow> lock_state \<Rightarrow> lock_state option" where
  "owner_loop 0 e fid req s = None"
| "owner_loop (Suc fuel) e fid req s = do {
     ls \<leftarrow> fid_locks s fid;
     case List.find (\<lambda>(a, l). lock_client l = lock_client req \<and> lock_owner l = lock_owner req) ls of
       None \<Rightarrow> Some s
     | Some (a, l) \<Rightarrow> do {
         s \<leftarrow> drop_fid_lock (ex_eid e) fid a s;
         if lk_fid s fid = [] then Some s else owner_loop fuel e fid req s } }"

text \<open>\<open>enoent\<close> says whether a failed lookup set \<^verbatim>\<open>errno\<close> to \<^verbatim>\<open>ENOENT\<close>, which counts as a success.\<close>

definition export_clear_owner_file_lock ::
  "(fid_t \<Rightarrow> bool) \<Rightarrow> bool \<Rightarrow> export_ctx \<Rightarrow> fid_t \<Rightarrow> ep_lock_t \<Rightarrow> lock_state \<Rightarrow> (lock_status \<times> lock_state) option"
where
  "export_clear_owner_file_lock known enoent e fid req s =
     (if \<not> known fid then Some (if enoent then Lock_ok else No_entry, s)
      else do { s \<leftarrow> owner_loop (Suc (length (lk_fid s fid))) e fid req s; Some (Lock_ok, s) })"

definition export_poll_file_lock ::
  "u64 \<Rightarrow> u64 \<Rightarrow> export_ctx \<Rightarrow> ep_lock_t \<Rightarrow> ep_client_info_t \<Rightarrow> lock_state \<Rightarrow> lock_state option"
where
  "export_poll_file_lock delay_max now e req info s = file_lock_poll_client delay_max now (ex_eid e) (lock_client req) info s"

declare split_paired_All [simp del] split_paired_Ex [simp del]

section \<open>The invariant\<close>

text \<open>
  The invariant is stated on four parts of the state: the heap \<open>h\<close>, the next address \<open>n\<close>, the lists \<open>v\<close> of clients with
  their locks, and the lists \<open>fd\<close> of the files. \<open>ex\<close> gives the export of each file.
\<close>

definition lkinv ::
  "(fid_t \<Rightarrow> int) \<Rightarrow> (nat \<Rightarrow> ep_lock_t option) \<Rightarrow> nat \<Rightarrow> (int \<Rightarrow> (u64 \<times> nat list) list) \<Rightarrow> (fid_t \<Rightarrow> nat list) \<Rightarrow> bool"
where
  "lkinv ex h n v fd \<longleftrightarrow>
     (\<forall>f. distinct (fd f)) \<and> (\<forall>f g a. a \<in> set (fd f) \<longrightarrow> a \<in> set (fd g) \<longrightarrow> f = g)
   \<and> (\<forall>i. distinct (map fst (v i))) \<and> (\<forall>i r as. (r, as) \<in> set (v i) \<longrightarrow> distinct as)
   \<and> (\<forall>f a. a \<in> set (fd f) \<longrightarrow> (\<exists>l as. h a = Some l \<and> canonical (user_range l) \<and> lock_mode l \<noteq> EP_LOCK_FREE
        \<and> (lock_client l, as) \<in> set (v (ex f - 1)) \<and> a \<in> set as))
   \<and> (\<forall>i r as a. (r, as) \<in> set (v i) \<longrightarrow> a \<in> set as \<longrightarrow> (\<exists>f l. a \<in> set (fd f) \<and> ex f - 1 = i \<and> h a = Some l \<and> lock_client l = r))
   \<and> (\<forall>a. h a \<noteq> None \<longrightarrow> a < n \<and> (\<exists>f. a \<in> set (fd f)))"

lemma lkinvD:
  assumes "lkinv ex h n v fd"
  shows "distinct (fd f)" "a \<in> set (fd f) \<Longrightarrow> a \<in> set (fd g) \<Longrightarrow> f = g" "distinct (map fst (v i))" "(r, as) \<in> set (v i) \<Longrightarrow> distinct as"
    "a \<in> set (fd f) \<Longrightarrow> \<exists>l as. h a = Some l \<and> canonical (user_range l) \<and> lock_mode l \<noteq> EP_LOCK_FREE \<and> (lock_client l, as) \<in> set (v (ex f - 1)) \<and> a \<in> set as"
    "(r, as) \<in> set (v i) \<Longrightarrow> a \<in> set as \<Longrightarrow> \<exists>f l. a \<in> set (fd f) \<and> ex f - 1 = i \<and> h a = Some l \<and> lock_client l = r"
    "h a = Some l \<Longrightarrow> a < n" "h a = Some l \<Longrightarrow> \<exists>f. a \<in> set (fd f)"
  using assms unfolding lkinv_def by blast+

lemma lkinvI:
  assumes "\<And>f. distinct (fd f)" "\<And>f g a. a \<in> set (fd f) \<Longrightarrow> a \<in> set (fd g) \<Longrightarrow> f = g"
    "\<And>i. distinct (map fst (v i))" "\<And>i r as. (r, as) \<in> set (v i) \<Longrightarrow> distinct as"
    "\<And>f a. a \<in> set (fd f) \<Longrightarrow> \<exists>l as. h a = Some l \<and> canonical (user_range l) \<and> lock_mode l \<noteq> EP_LOCK_FREE \<and> (lock_client l, as) \<in> set (v (ex f - 1)) \<and> a \<in> set as"
    "\<And>i r as a. (r, as) \<in> set (v i) \<Longrightarrow> a \<in> set as \<Longrightarrow> \<exists>f l. a \<in> set (fd f) \<and> ex f - 1 = i \<and> h a = Some l \<and> lock_client l = r"
    "\<And>a l. h a = Some l \<Longrightarrow> a < n \<and> (\<exists>f. a \<in> set (fd f))"
  shows "lkinv ex h n v fd"
  unfolding lkinv_def by (intro conjI allI impI; (erule not_None_eq[THEN iffD1, THEN exE])?) (use assms in blast)+

definition drop_view :: "nat \<Rightarrow> (int \<Rightarrow> (u64 \<times> nat list) list) \<Rightarrow> int \<Rightarrow> (u64 \<times> nat list) list" where
  "drop_view a v = (\<lambda>i. map (\<lambda>(r, as). (r, remove1 a as)) (v i))"

lemma set_drop_view: "(r, bs) \<in> set (drop_view a v i) \<longleftrightarrow> (\<exists>as. (r, as) \<in> set (v i) \<and> bs = remove1 a as)"
  by (force simp: drop_view_def)

lemma lkinv_drop:
  assumes inv: "lkinv ex h n v fd"
  shows "lkinv ex (h(a := None)) n (drop_view a v) (\<lambda>f. remove1 a (fd f))"
proof (rule lkinvI)
  note D = lkinvD[OF inv]
  have fst: "map fst (drop_view a v i) = map fst (v i)" for i by (auto simp: drop_view_def)
  show "distinct (map fst (drop_view a v i))" for i using D(3) by (simp add: fst)
  show "distinct (remove1 a (fd f))" for f using D(1) by simp
  show "f = g" if "b \<in> set (remove1 a (fd f))" "b \<in> set (remove1 a (fd g))" for f g b
    using D(2) that by (meson notin_set_remove1)
  show "distinct bs" if "(r, bs) \<in> set (drop_view a v i)" for i r bs
    using that D(4) by (auto simp: set_drop_view)
  show "\<exists>l as. (h(a := None)) b = Some l \<and> canonical (user_range l) \<and> lock_mode l \<noteq> EP_LOCK_FREE
      \<and> (lock_client l, as) \<in> set (drop_view a v (ex f - 1)) \<and> b \<in> set as" if b: "b \<in> set (remove1 a (fd f))" for f b
  proof -
    have "b \<noteq> a" "b \<in> set (fd f)" using b D(1)[of f] by auto
    moreover then obtain l as where "h b = Some l \<and> canonical (user_range l) \<and> lock_mode l \<noteq> EP_LOCK_FREE" "(lock_client l, as) \<in> set (v (ex f - 1))" "b \<in> set as"
      using D(5) by blast
    ultimately show ?thesis by (intro exI[of _ l] exI[of _ "remove1 a as"]) (auto simp: set_drop_view)
  qed
  show "\<exists>f l. b \<in> set (remove1 a (fd f)) \<and> ex f - 1 = i \<and> (h(a := None)) b = Some l \<and> lock_client l = r"
    if bs: "(r, bs) \<in> set (drop_view a v i)" and b: "b \<in> set bs" for i r bs b
  proof -
    obtain as where as: "(r, as) \<in> set (v i)" "bs = remove1 a as" using bs by (auto simp: set_drop_view)
    with b D(4) have "b \<noteq> a" "b \<in> set as" by (metis set_remove1_eq Diff_iff insertI1, metis notin_set_remove1)
    with D(6)[OF as(1), of b] show ?thesis by auto
  qed
  show "b < n \<and> (\<exists>f. b \<in> set (remove1 a (fd f)))" if "(h(a := None)) b = Some l" for b l
  proof -
    have "b \<noteq> a" "h b = Some l" using that by (auto split: if_splits)
    then show ?thesis using D(7,8)[of b l] by auto
  qed
qed

lemma lkinv_update:
  assumes inv: "lkinv ex h n v fd" and a: "h a = Some l" "lock_client l' = lock_client l" "lock_mode l' = lock_mode l" "canonical (user_range l')"
  shows "lkinv ex (h(a \<mapsto> l')) n v fd"
proof (rule lkinvI)
  note D = lkinvD[OF inv]
  show "\<exists>k as. (h(a \<mapsto> l')) b = Some k \<and> canonical (user_range k) \<and> lock_mode k \<noteq> EP_LOCK_FREE \<and> (lock_client k, as) \<in> set (v (ex f - 1)) \<and> b \<in> set as"
    if b: "b \<in> set (fd f)" for f b
    using D(5)[OF b] a by (cases "b = a") auto
  show "\<exists>f k. b \<in> set (fd f) \<and> ex f - 1 = i \<and> (h(a \<mapsto> l')) b = Some k \<and> lock_client k = r" if "(r, as) \<in> set (v i)" "b \<in> set as" for i r as b
    using D(6)[OF that] a by (cases "b = a") auto
  show "b < n \<and> (\<exists>f. b \<in> set (fd f))" if "(h(a \<mapsto> l')) b = Some k" for b k
    using that D(7,8) a by (cases "b = a") auto
qed (use lkinvD[OF inv] in blast)+

lemma lkinv_new_client:
  assumes inv: "lkinv ex h n v fd" and r: "r \<notin> fst ` set (v i)"
  shows "lkinv ex h n (v(i := (r, []) # v i)) fd"
proof (rule lkinvI)
  note D = lkinvD[OF inv]
  show "distinct (map fst ((v(i := (r, []) # v i)) j))" for j using D(3) r by simp
  show "distinct as" if "(q, as) \<in> set ((v(i := (r, []) # v i)) j)" for j q as
    using that D(4)[of q as j] by (auto split: if_splits)
  show "\<exists>l as. h a = Some l \<and> canonical (user_range l) \<and> lock_mode l \<noteq> EP_LOCK_FREE \<and> (lock_client l, as) \<in> set ((v(i := (r, []) # v i)) (ex f - 1)) \<and> a \<in> set as"
    if "a \<in> set (fd f)" for f a using D(5)[OF that] by auto
  show "\<exists>f l. a \<in> set (fd f) \<and> ex f - 1 = j \<and> h a = Some l \<and> lock_client l = q"
    if "(q, as) \<in> set ((v(i := (r, []) # v i)) j)" "a \<in> set as" for j q as a
    using that D(6)[of q as j a] by (auto split: if_splits)
qed (use lkinvD[OF inv] in blast)+

lemma lkinv_del_client:
  assumes inv: "lkinv ex h n v fd" and r: "\<And>as. (r, as) \<in> set (v i) \<Longrightarrow> as = []"
  shows "lkinv ex h n (v(i := filter (\<lambda>c. fst c \<noteq> r) (v i))) fd"
proof (rule lkinvI)
  note D = lkinvD[OF inv]
  show "distinct (map fst ((v(i := filter (\<lambda>c. fst c \<noteq> r) (v i))) j))" for j
    using D(3) by (simp add: distinct_map_filter)
  show "distinct as" if "(q, as) \<in> set ((v(i := filter (\<lambda>c. fst c \<noteq> r) (v i))) j)" for j q as
    using that D(4)[of q as j] by (auto split: if_splits)
  show "\<exists>l as. h a = Some l \<and> canonical (user_range l) \<and> lock_mode l \<noteq> EP_LOCK_FREE \<and> (lock_client l, as) \<in> set ((v(i := filter (\<lambda>c. fst c \<noteq> r) (v i))) (ex f - 1)) \<and> a \<in> set as"
    if "a \<in> set (fd f)" for f a using D(5)[OF that] r by fastforce
  show "\<exists>f l. a \<in> set (fd f) \<and> ex f - 1 = j \<and> h a = Some l \<and> lock_client l = q"
    if "(q, as) \<in> set ((v(i := filter (\<lambda>c. fst c \<noteq> r) (v i))) j)" "a \<in> set as" for j q as a
    using that D(6)[of q as j a] by (auto split: if_splits)
qed (use lkinvD[OF inv] in blast)+

definition add_view :: "int \<Rightarrow> u64 \<Rightarrow> nat \<Rightarrow> (int \<Rightarrow> (u64 \<times> nat list) list) \<Rightarrow> int \<Rightarrow> (u64 \<times> nat list) list" where
  "add_view i r a v = v(i := map (\<lambda>(q, as). (q, if q = r then a # as else as)) (v i))"

lemma set_add_view:
  "(q, bs) \<in> set (add_view i r a v j) \<longleftrightarrow> (\<exists>as. (q, as) \<in> set (v j) \<and> bs = (if j = i \<and> q = r then a # as else as))"
  unfolding add_view_def by (cases "j = i"; cases "q = r") (force simp: image_iff)+

lemma lkinv_add:
  assumes inv: "lkinv ex h n v fd" and r: "lock_client l \<in> fst ` set (v i)"
    and l: "canonical (user_range l)" "lock_mode l \<noteq> EP_LOCK_FREE" and i: "i = ex f - 1"
  shows "lkinv ex (h(n \<mapsto> l)) (n + 1) (add_view i (lock_client l) n v) (fd(f := n # fd f))"
proof (rule lkinvI)
  note D = lkinvD[OF inv]
  have fresh: "n \<notin> set (fd g)" for g using D(5,7) by (metis less_irrefl)
  have freshc: "n \<notin> set as" if "(q, as) \<in> set (v j)" for q as j using D(6)[OF that] D(7) by (metis less_irrefl)
  have fst: "map fst (add_view i (lock_client l) n v j) = map fst (v j)" for j by (auto simp: add_view_def)
  show "distinct (map fst (add_view i (lock_client l) n v j))" for j using D(3) by (simp add: fst)
  show "distinct ((fd(f := n # fd f)) g)" for g using D(1) fresh by simp
  show "g = k" if "a \<in> set ((fd(f := n # fd f)) g)" "a \<in> set ((fd(f := n # fd f)) k)" for g k a
    using that fresh[of g] fresh[of k] D(2)[of a g k] D(2)[of a g f] D(2)[of a f k] by (simp split: if_splits) blast+
  show "distinct bs" if "(q, bs) \<in> set (add_view i (lock_client l) n v j)" for j q bs
    using that D(4) freshc by (auto simp: set_add_view)
  show "\<exists>k as. (h(n \<mapsto> l)) a = Some k \<and> canonical (user_range k) \<and> lock_mode k \<noteq> EP_LOCK_FREE
      \<and> (lock_client k, as) \<in> set (add_view i (lock_client l) n v (ex g - 1)) \<and> a \<in> set as" if a: "a \<in> set ((fd(f := n # fd f)) g)" for g a
  proof (cases "a = n")
    case True
    then have "g = f" using a fresh by (auto split: if_splits)
    obtain as where "(lock_client l, as) \<in> set (v i)" using r by auto
    with True l \<open>g = f\<close> i show ?thesis by (intro exI[of _ l] exI[of _ "n # as"]) (auto simp: set_add_view)
  next
    case False
    then have "a \<in> set (fd g)" using a by (auto split: if_splits)
    with D(5) obtain k as where k: "h a = Some k" "canonical (user_range k)" "lock_mode k \<noteq> EP_LOCK_FREE" "(lock_client k, as) \<in> set (v (ex g - 1))" "a \<in> set as" by blast
    show ?thesis
      by (rule exI[of _ k], rule exI[of _ "if ex g - 1 = i \<and> lock_client k = lock_client l then n # as else as"])
        (use k False in \<open>auto simp: set_add_view\<close>)
  qed
  show "\<exists>g k. a \<in> set ((fd(f := n # fd f)) g) \<and> ex g - 1 = j \<and> (h(n \<mapsto> l)) a = Some k \<and> lock_client k = q"
    if q: "(q, bs) \<in> set (add_view i (lock_client l) n v j)" and a: "a \<in> set bs" for j q bs a
  proof (cases "a = n")
    case True
    then have "j = i" "q = lock_client l" using q a freshc by (auto simp: set_add_view split: if_splits)
    with True i show ?thesis by (intro exI[of _ f] exI[of _ l]) simp
  next
    case False
    then obtain as where as: "(q, as) \<in> set (v j)" "a \<in> set as" using q a by (auto simp: set_add_view split: if_splits)
    from D(6)[OF this] obtain g k where g: "a \<in> set (fd g)" "ex g - 1 = j" "h a = Some k" "lock_client k = q" by blast
    show ?thesis by (rule exI[of _ g], rule exI[of _ k]) (use g False in auto)
  qed
  show "a < n + 1 \<and> (\<exists>g. a \<in> set ((fd(f := n # fd f)) g))" if "(h(n \<mapsto> l)) a = Some k" for a k
  proof (cases "a = n")
    case False
    then have "h a = Some k" using that by simp
    then obtain g where "a < n" "a \<in> set (fd g)" using D(7,8) by blast
    then show ?thesis by (auto intro!: exI[of _ g])
  qed (auto intro!: exI[of _ f])
qed

section \<open>The operations keep the invariant\<close>

definition cview :: "lock_state \<Rightarrow> int \<Rightarrow> (u64 \<times> nat list) list" where
  "cview s = (\<lambda>i. map (\<lambda>c. (client_ref c, file_lock_list c)) (lk_clients s i))"

definition Inv :: "(fid_t \<Rightarrow> int) \<Rightarrow> lock_state \<Rightarrow> bool" where
  "Inv ex s \<longleftrightarrow> lkinv ex (lk_heap s) (lk_next s) (cview s) (lk_fid s) \<and> (\<forall>f. int (length (lk_fid s f)) \<le> lk_nb s f)"

lemma Inv_lkinv: "Inv ex s \<Longrightarrow> lkinv ex (lk_heap s) (lk_next s) (cview s) (lk_fid s)"
  and Inv_nb: "Inv ex s \<Longrightarrow> int (length (lk_fid s f)) \<le> lk_nb s f"
  by (simp_all add: Inv_def)

lemmas InvD = lkinvD[OF Inv_lkinv]

text \<open>The cells and the file lists after a lock is dropped; the clients and counters may change otherwise.\<close>

definition dropped :: "nat \<Rightarrow> lock_state \<Rightarrow> lock_state \<Rightarrow> bool" where
  "dropped a s s' \<longleftrightarrow> lk_heap s' = (lk_heap s)(a := None) \<and> lk_fid s' = (\<lambda>f. remove1 a (lk_fid s f))"

lemma file_lock_in_heap:
  assumes "Inv ex s" "a \<in> set (lk_fid s f)"
  obtains l where "lk_heap s a = Some l" "canonical (user_range l)" "lock_mode l \<noteq> EP_LOCK_FREE"
  using InvD(5)[OF assms] by blast

lemma cview_map:
  assumes "\<And>c. client_ref (g c) = client_ref c \<and> file_lock_list (g c) = file_lock_list c"
  shows "map (\<lambda>c. (client_ref c, file_lock_list c)) (map g cs) = map (\<lambda>c. (client_ref c, file_lock_list c)) cs"
  using assms by simp

lemma cview_remove1:
  "cview (s\<lparr>lk_clients := (\<lambda>i. map (\<lambda>c. c\<lparr>file_lock_list := remove1 a (file_lock_list c)\<rparr>) (lk_clients s i))\<rparr>) = drop_view a (cview s)"
  by (rule ext) (simp add: cview_def drop_view_def)

lemma unlink_free:
  assumes inv: "Inv ex s" and a: "lk_heap s a = Some l"
  shows "\<exists>s'. (do { s \<leftarrow> file_lock_unlink a s; xfree a s }) = Some s' \<and> dropped a s s' \<and> Inv ex s' \<and> lk_nb s' = lk_nb s \<and> cview s' = drop_view a (cview s)"
proof -
  let ?s = "s\<lparr>lk_heap := (lk_heap s)(a := None), lk_stat := (lk_stat s)\<lparr>nb_lock_unlink := nb_lock_unlink (lk_stat s) + 1, nb_file_lock := nb_file_lock (lk_stat s) - 1\<rparr>,
    lk_fid := (\<lambda>f. remove1 a (lk_fid s f)), lk_clients := (\<lambda>i. map (\<lambda>c. c\<lparr>file_lock_list := remove1 a (file_lock_list c)\<rparr>) (lk_clients s i))\<rparr>"
  have v: "cview ?s = drop_view a (cview s)" by (rule ext) (simp add: cview_def drop_view_def)
  have "int (length (remove1 a (lk_fid s f))) \<le> lk_nb s f" for f
    using Inv_nb[OF inv, of f] by (auto simp: length_remove1)
  then have "Inv ex ?s" unfolding Inv_def v using lkinv_drop[OF Inv_lkinv[OF inv], of a] by simp
  then show ?thesis using a v by (intro exI[of _ ?s]) (simp add: file_lock_unlink_def xfree_def dropped_def Let_def)
qed

lemma find_distinct: "distinct (map g cs) \<Longrightarrow> List.find (\<lambda>c. g c = r) cs = Some c \<longleftrightarrow> c \<in> set cs \<and> g c = r"
  by (induction cs) (auto simp: image_iff)

lemma find_client_view:
  assumes "distinct (map fst (cview s i))"
  shows "find_client r (lk_clients s i) = None \<longleftrightarrow> r \<notin> fst ` set (cview s i)"
    "find_client r (lk_clients s i) = Some c \<longleftrightarrow> c \<in> set (lk_clients s i) \<and> client_ref c = r"
proof -
  show "find_client r (lk_clients s i) = None \<longleftrightarrow> r \<notin> fst ` set (cview s i)"
    by (auto simp: find_client_def cview_def find_None_iff image_iff)
  have "distinct (map client_ref (lk_clients s i))" using assms by (simp add: cview_def comp_def)
  then show "find_client r (lk_clients s i) = Some c \<longleftrightarrow> c \<in> set (lk_clients s i) \<and> client_ref c = r"
    unfolding find_client_def by (rule find_distinct)
qed

lemma lv2_free_ok:
  assumes inv: "Inv ex s" and a: "a \<in> set (lk_fid s f)" and eid: "ex f = eid" "eid_slot eid = Some (eid - 1)"
  shows "\<exists>s'. lv2_cache_free_file_lock eid a s = Some s' \<and> dropped a s s' \<and> Inv ex s' \<and> lk_nb s' = lk_nb s"
proof -
  from InvD(5)[OF inv a] obtain l as where l: "lk_heap s a = Some l" "(lock_client l, as) \<in> set (cview s (eid - 1))" "a \<in> set as"
    using eid by blast
  then obtain c where c: "find_client (lock_client l) (lk_clients s (eid - 1)) = Some c"
    using find_client_view(1)[OF InvD(3)[OF inv], of "lock_client l" "eid - 1"] by (force simp: image_iff)
  let ?t = "s\<lparr>lk_clients := (lk_clients s)(eid - 1 := update_client (lock_client l) (\<lambda>c. c\<lparr>nb_lock := nb_lock c - 1\<rparr>) (lk_clients s (eid - 1)))\<rparr>"
  have v: "cview ?t = cview s" by (rule ext) (simp add: cview_def update_client_def)
  have "Inv ex ?t" using inv v by (simp add: Inv_def)
  from unlink_free[OF this, of a l] l obtain s' where "(do { s \<leftarrow> file_lock_unlink a ?t; xfree a s }) = Some s'" "dropped a ?t s'" "Inv ex s'" "lk_nb s' = lk_nb ?t"
    by auto
  moreover have "lv2_cache_free_file_lock eid a s = do { s \<leftarrow> file_lock_unlink a ?t; xfree a s }"
    using l c eid by (simp add: lv2_cache_free_file_lock_def)
  ultimately show ?thesis by (auto simp: dropped_def)
qed

lemma drop_fid_lock_ok:
  assumes inv: "Inv ex s" and a: "a \<in> set (lk_fid s f)" and eid: "ex f = eid" "eid_slot eid = Some (eid - 1)"
  shows "\<exists>s'. drop_fid_lock eid f a s = Some s' \<and> dropped a s s' \<and> Inv ex s'"
proof -
  from lv2_free_ok[OF assms] obtain t where t: "lv2_cache_free_file_lock eid a s = Some t" "dropped a s t" "Inv ex t" "lk_nb t = lk_nb s" by blast
  let ?s = "t\<lparr>lk_nb := (lk_nb t)(f := (if lk_fid t f = [] then 0 else lk_nb t f - 1))\<rparr>"
  have len: "int (length (lk_fid t f)) \<le> lk_nb s f - 1"
    using t(2) a Inv_nb[OF inv, of f] length_pos_if_in_set[OF a] by (simp add: dropped_def length_remove1 of_nat_diff Suc_le_eq)
  have "cview ?s = cview t" by (simp add: cview_def)
  then have "Inv ex ?s" using t len Inv_nb[OF t(3)] by (auto simp: Inv_def)
  with t show ?thesis by (intro exI[of _ ?s]) (auto simp: drop_fid_lock_def dropped_def)
qed

text \<open>A new lock is in the first cell that was never used.\<close>

definition added :: "fid_t \<Rightarrow> ep_lock_t \<Rightarrow> lock_state \<Rightarrow> lock_state \<Rightarrow> bool" where
  "added f l s s' \<longleftrightarrow> (\<exists>a. lk_heap s a = None \<and> (\<forall>g. a \<notin> set (lk_fid s g)) \<and> lk_heap s' = (lk_heap s)(a \<mapsto> l) \<and> lk_fid s' = (lk_fid s)(f := a # lk_fid s f))"

lemma create_client_ok:
  assumes inv: "lkinv ex h n (cview s) fd" and new: "find_client r (lk_clients s (eid - 1)) = None" and eid: "eid_slot eid = Some (eid - 1)"
  shows "\<exists>s'. file_lock_create_client eid r info now s = Some s' \<and> cview s' = (cview s)(eid - 1 := (r, []) # cview s (eid - 1))
     \<and> lkinv ex h n (cview s') fd \<and> lk_heap s' = lk_heap s \<and> lk_next s' = lk_next s \<and> lk_fid s' = lk_fid s \<and> lk_nb s' = lk_nb s"
proof -
  have "r \<notin> fst ` set (cview s (eid - 1))" using find_client_view(1)[OF lkinvD(3)[OF inv]] new by blast
  note inv' = lkinv_new_client[OF inv this]
  let ?s = "s\<lparr>lk_stat := (lk_stat s)\<lparr>nb_add_client := nb_add_client (lk_stat s) + 1, nb_client_file_lock := nb_client_file_lock (lk_stat s) + 1\<rparr>,
       lk_clients := (lk_clients s)(eid - 1 := \<lparr>client_ref = r, client_info = info, last_poll_time = now, nb_lock = 0, file_lock_list = []\<rparr> # lk_clients s (eid - 1))\<rparr>"
  have v: "cview ?s = (cview s)(eid - 1 := (r, []) # cview s (eid - 1))" by (rule ext) (simp add: cview_def)
  show ?thesis using inv' v by (intro exI[of _ ?s]) (simp add: file_lock_create_client_def eid Let_def)
qed

lemma allocate_ok:
  assumes inv: "Inv ex s" and l: "canonical (user_range l)" "lock_mode l \<noteq> EP_LOCK_FREE" and eid: "ex f = eid" "eid_slot eid = Some (eid - 1)"
  shows "\<exists>a s'. lv2_cache_allocate_file_lock now eid l info s = Some (a, s') \<and> added f l s (list_push_fid f a s') \<and> Inv ex (list_push_fid f a s')"
proof -
  let ?a = "lk_next s" let ?i = "eid - 1" let ?r = "lock_client l"
  have fresh: "lk_heap s ?a = None" "?a \<notin> set (lk_fid s g)" for g
    using InvD(7)[OF inv, of ?a] InvD(5)[OF inv, of ?a g] by (fastforce dest: InvD(7)[OF inv])+
  let ?t = "s\<lparr>lk_heap := (lk_heap s)(?a \<mapsto> l), lk_next := Suc ?a,
          lk_stat := (lk_stat s)\<lparr>nb_file_lock := nb_file_lock (lk_stat s) + 1, nb_lock_allocate := nb_lock_allocate (lk_stat s) + 1\<rparr>\<rparr>"
  have vt: "cview ?t = cview s" by (simp add: cview_def)
  obtain u where u: "(case find_client ?r (lk_clients s ?i) of Some _ \<Rightarrow> Some ?t | None \<Rightarrow> file_lock_create_client eid ?r info now ?t) = Some u"
    "lkinv ex (lk_heap s) ?a (cview u) (lk_fid s)" "?r \<in> fst ` set (cview u ?i)" "lk_heap u = lk_heap ?t" "lk_next u = Suc ?a" "lk_fid u = lk_fid s" "lk_nb u = lk_nb s"
  proof (cases "find_client ?r (lk_clients s ?i)")
    case None
    have "find_client ?r (lk_clients ?t (eid - 1)) = None" using None by simp
    from create_client_ok[where s = ?t, OF _ this eid(2), of ex "lk_heap s" ?a "lk_fid s" info now] Inv_lkinv[OF inv] vt
    obtain u where "file_lock_create_client eid ?r info now ?t = Some u" "cview u = (cview ?t)(?i := (?r, []) # cview ?t ?i)"
      "lkinv ex (lk_heap s) ?a (cview u) (lk_fid s)" "lk_heap u = lk_heap ?t" "lk_next u = lk_next ?t" "lk_fid u = lk_fid ?t" "lk_nb u = lk_nb ?t" by auto
    with None show thesis by (intro that[of u]) auto
  next
    case (Some c)
    then have "?r \<in> fst ` set (cview s ?i)" using find_client_view(1)[OF InvD(3)[OF inv]] by (metis option.distinct(1))
    with Some vt Inv_lkinv[OF inv] show thesis by (intro that[of ?t]) auto
  qed
  let ?w = "u\<lparr>lk_clients := (lk_clients u)(?i := update_client ?r (\<lambda>c. c\<lparr>file_lock_list := ?a # file_lock_list c, nb_lock := nb_lock c + 1\<rparr>) (lk_clients u ?i))\<rparr>"
  let ?s' = "list_push_fid f ?a ?w"
  have run: "lv2_cache_allocate_file_lock now eid l info s = Some (?a, ?w)"
    using u(1) eid by (simp add: lv2_cache_allocate_file_lock_def file_lock_add_lock_to_client_def Let_def)
  have "cview ?s' = add_view ?i ?r ?a (cview u)"
    by (rule ext) (simp add: cview_def add_view_def list_push_fid_def update_client_def)
  then have "Inv ex ?s'" unfolding Inv_def
    using lkinv_add[OF u(2,3) l, of f] eid u(4-) Inv_nb[OF inv] by (auto simp: list_push_fid_def)
  moreover have "added f l s ?s'" unfolding added_def using fresh u(4,6) by (intro exI[of _ ?a]) (simp add: list_push_fid_def)
  ultimately show ?thesis using run by blast
qed

lemma update_ok:
  assumes "Inv ex s" "lk_heap s a = Some l" "lock_client l' = lock_client l" "lock_mode l' = lock_mode l" "canonical (user_range l')"
  shows "Inv ex (s\<lparr>lk_heap := (lk_heap s)(a \<mapsto> l')\<rparr>)"
proof -
  have "cview (s\<lparr>lk_heap := (lk_heap s)(a \<mapsto> l')\<rparr>) = cview s" by (simp add: cview_def)
  then show ?thesis using lkinv_update[OF Inv_lkinv assms(2-)] assms(1) by (simp add: Inv_def)
qed

lemma drop_locks_ok:
  assumes inv: "Inv ex s" and d: "distinct as" and h: "\<And>a. a \<in> set as \<Longrightarrow> lk_heap s a \<noteq> None"
  shows "\<exists>s'. drop_locks as s = Some s' \<and> Inv ex s' \<and> lk_heap s' = (\<lambda>a. if a \<in> set as then None else lk_heap s a)
     \<and> lk_fid s' = (\<lambda>f. filter (\<lambda>a. a \<notin> set as) (lk_fid s f)) \<and> cview s' = (\<lambda>i. map (\<lambda>(r, bs). (r, filter (\<lambda>a. a \<notin> set as) bs)) (cview s i))"
  using assms
proof (induction as arbitrary: s)
  case Nil
  then show ?case by (simp add: drop_locks_def)
next
  case (Cons a as)
  from Cons.prems(3) obtain l where "lk_heap s a = Some l" by auto
  from unlink_free[OF Cons.prems(1) this] obtain t where t: "(do { s \<leftarrow> file_lock_unlink a s; xfree a s }) = Some t"
    "dropped a s t" "Inv ex t" "cview t = drop_view a (cview s)" by blast
  have "lk_heap t b \<noteq> None" if "b \<in> set as" for b using t(2) that Cons.prems(2,3) by (auto simp: dropped_def)
  from Cons.IH[OF t(3) _ this] Cons.prems(2) obtain s' where s': "drop_locks as t = Some s'" "Inv ex s'"
    "lk_heap s' = (\<lambda>a. if a \<in> set as then None else lk_heap t a)" "lk_fid s' = (\<lambda>f. filter (\<lambda>a. a \<notin> set as) (lk_fid t f))"
    "cview s' = (\<lambda>i. map (\<lambda>(r, bs). (r, filter (\<lambda>a. a \<notin> set as) bs)) (cview t i))" by auto
  have rm: "filter (\<lambda>b. b \<notin> set as) (remove1 a bs) = filter (\<lambda>b. b \<notin> insert a (set as)) bs" if "distinct bs" for bs
    using that by (simp add: distinct_remove1_removeAll removeAll_filter_not_eq) (rule filter_cong, auto)
  have "drop_locks (a # as) s = Some s'" using t(1) s'(1) by (simp add: drop_locks_def Option.bind_assoc split: bind_splits)
  moreover have "lk_fid s' = (\<lambda>f. filter (\<lambda>b. b \<notin> set (a # as)) (lk_fid s f))"
    using s'(4) t(2) rm InvD(1)[OF Cons.prems(1)] by (simp add: dropped_def)
  moreover have "cview s' = (\<lambda>i. map (\<lambda>(r, bs). (r, filter (\<lambda>b. b \<notin> set (a # as)) bs)) (cview s i))"
    using s'(5) t(4) rm InvD(4)[OF Cons.prems(1)] by (auto simp: drop_view_def fun_eq_iff)
  moreover have "lk_heap s' = (\<lambda>b. if b \<in> set (a # as) then None else lk_heap s b)"
    using s'(3) t(2) by (auto simp: dropped_def)
  ultimately show ?case using s'(2) by blast
qed

end
