(* ===== verification/Lock_Session.thy ===== *)
theory Lock_Session
  imports Lock_Service
begin

text \<open>
  What the lock service does: the offsets that each owner holds on each file after every request, the requests as
  a state machine, and its refinement of a set of locked offsets.
\<close>

section \<open>What the locks hold\<close>

text \<open>Who holds a lock: its client, its owner there, and the mode.\<close>

definition lock_key :: "ep_lock_t \<Rightarrow> u64 \<times> u64 \<times> ep_lock_mode_t" where
  "lock_key l = (lock_client l, lock_owner l, lock_mode l)"

definition holds :: "lock_state \<Rightarrow> fid_t \<Rightarrow> u64 \<times> u64 \<times> ep_lock_mode_t \<Rightarrow> u64 \<Rightarrow> bool" where
  "holds s f k x \<longleftrightarrow> (\<exists>a \<in> set (lk_fid s f). \<exists>l. lk_heap s a = Some l \<and> lock_key l = k \<and> x \<in> offsets (user_range l))"

text \<open>The locks of a file, as values.\<close>

definition recs :: "lock_state \<Rightarrow> fid_t \<Rightarrow> ep_lock_t set" where
  "recs s f = {l. \<exists>a \<in> set (lk_fid s f). lk_heap s a = Some l}"

lemma holds_recs: "holds s f k x \<longleftrightarrow> (\<exists>l \<in> recs s f. lock_key l = k \<and> x \<in> offsets (user_range l))"
  by (auto simp: holds_def recs_def)

definition owned_by :: "ep_lock_t \<Rightarrow> u64 \<times> u64 \<times> ep_lock_mode_t \<Rightarrow> bool" where
  "owned_by req k \<longleftrightarrow> fst k = lock_client req \<and> fst (snd k) = lock_owner req"

lemma holdsI: "a \<in> set (lk_fid s f) \<Longrightarrow> lk_heap s a = Some l \<Longrightarrow> lock_key l = k \<Longrightarrow> x \<in> offsets (user_range l) \<Longrightarrow> holds s f k x"
  unfolding holds_def by blast

lemma holdsE:
  assumes "holds s f k x"
  obtains a l where "a \<in> set (lk_fid s f)" "lk_heap s a = Some l" "lock_key l = k" "x \<in> offsets (user_range l)"
  using assms unfolding holds_def by blast

lemma holds_dropped:
  assumes inv: "Inv ex s" and d: "dropped a s s'" and a: "a \<in> set (lk_fid s f)" "lk_heap s a = Some l"
  shows "holds s' g k x \<Longrightarrow> holds s g k x"
    "holds s g k x \<Longrightarrow> holds s' g k x \<or> (g = f \<and> k = lock_key l \<and> x \<in> offsets (user_range l))"
proof -
  have mem: "b \<in> set (lk_fid s' g) \<longleftrightarrow> b \<in> set (lk_fid s g) \<and> b \<noteq> a" for b g
    using d InvD(1)[OF inv, of g] by (auto simp: dropped_def)
  have h: "lk_heap s' b = lk_heap s b" if "b \<noteq> a" for b using d that by (simp add: dropped_def)
  show "holds s g k x" if "holds s' g k x" using that by (rule holdsE) (metis holdsI mem h)
  show "holds s' g k x \<or> (g = f \<and> k = lock_key l \<and> x \<in> offsets (user_range l))" if "holds s g k x"
    using that
  proof (rule holdsE)
    fix b m assume b: "b \<in> set (lk_fid s g)" "lk_heap s b = Some m" "lock_key m = k" "x \<in> offsets (user_range m)"
    show ?thesis
    proof (cases "b = a")
      case True
      then have "g = f" "m = l" using InvD(2)[OF inv] a b by (blast, simp)
      with b show ?thesis by simp
    next
      case False
      then show ?thesis using b mem h by (metis holdsI)
    qed
  qed
qed

lemma holds_added:
  assumes "added f l s s'"
  shows "holds s' g k x \<longleftrightarrow> holds s g k x \<or> (g = f \<and> k = lock_key l \<and> x \<in> offsets (user_range l))"
proof -
  obtain a where a: "lk_heap s a = None" "\<And>g. a \<notin> set (lk_fid s g)" "lk_heap s' = (lk_heap s)(a \<mapsto> l)" "lk_fid s' = (lk_fid s)(f := a # lk_fid s f)"
    using assms unfolding added_def by blast
  have "holds s' g k x" if "holds s g k x" using that
  proof (rule holdsE)
    fix b m assume b: "b \<in> set (lk_fid s g)" "lk_heap s b = Some m" "lock_key m = k" "x \<in> offsets (user_range m)"
    then have "b \<noteq> a" using a(2) by blast
    then show ?thesis using b a(3,4) by (intro holdsI[of b]) auto
  qed
  moreover have "holds s' g k x" if "g = f \<and> k = lock_key l \<and> x \<in> offsets (user_range l)"
    by (rule holdsI[of a]) (use a that in auto)
  moreover have "holds s g k x \<or> (g = f \<and> k = lock_key l \<and> x \<in> offsets (user_range l))" if "holds s' g k x"
    using that
  proof (rule holdsE)
    fix b m assume b: "b \<in> set (lk_fid s' g)" "lk_heap s' b = Some m" "lock_key m = k" "x \<in> offsets (user_range m)"
    show ?thesis
    proof (cases "b = a")
      case True
      then have "g = f" "m = l" using b a by (auto split: if_splits)
      with b show ?thesis by simp
    next
      case False
      then have "b \<in> set (lk_fid s g)" "lk_heap s b = Some m" using b a by (auto split: if_splits)
      with b show ?thesis by (meson holdsI)
    qed
  qed
  ultimately show ?thesis by blast
qed

lemma holds_updated:
  assumes inv: "Inv ex s" and a: "a \<in> set (lk_fid s f)" "lk_heap s a = Some l" and l': "lock_key l' = lock_key l" "offsets (user_range l') \<subseteq> offsets (user_range l)"
    and s': "s' = s\<lparr>lk_heap := (lk_heap s)(a \<mapsto> l')\<rparr>"
  shows "holds s' g k x \<Longrightarrow> holds s g k x"
    "holds s g k x \<Longrightarrow> holds s' g k x \<or> (g = f \<and> k = lock_key l \<and> x \<in> offsets (user_range l) - offsets (user_range l'))"
proof -
  show "holds s g k x" if "holds s' g k x" using that
  proof (rule holdsE)
    fix b m assume b: "b \<in> set (lk_fid s' g)" "lk_heap s' b = Some m" "lock_key m = k" "x \<in> offsets (user_range m)"
    then show ?thesis using a l' s' by (cases "b = a") (auto intro: holdsI)
  qed
  show "holds s' g k x \<or> (g = f \<and> k = lock_key l \<and> x \<in> offsets (user_range l) - offsets (user_range l'))" if "holds s g k x"
    using that
  proof (rule holdsE)
    fix b m assume b: "b \<in> set (lk_fid s g)" "lk_heap s b = Some m" "lock_key m = k" "x \<in> offsets (user_range m)"
    show ?thesis
    proof (cases "b = a")
      case True
      then have "g = f" "m = l" using InvD(2)[OF inv] a b by (blast, simp)
      moreover have "holds s' f k x" if "x \<in> offsets (user_range l')" by (rule holdsI[of a]) (use that a l' s' b \<open>m = l\<close> in auto)
      ultimately show ?thesis using b by blast
    next
      case False
      then show ?thesis using b s' by (auto intro!: holdsI[of b])
    qed
  qed
qed

lemma recs_dropped:
  assumes inv: "Inv ex s" and d: "dropped a s s'" and a: "a \<in> set (lk_fid s f)" "lk_heap s a = Some l"
  shows "recs s' g \<subseteq> recs s g" "m \<in> recs s g \<Longrightarrow> m \<in> recs s' g \<or> (g = f \<and> m = l)"
proof -
  have mem: "b \<in> set (lk_fid s' g) \<longleftrightarrow> b \<in> set (lk_fid s g) \<and> b \<noteq> a" for b
    using d InvD(1)[OF inv, of g] by (auto simp: dropped_def)
  have h: "lk_heap s' b = (if b = a then None else lk_heap s b)" for b using d by (simp add: dropped_def)
  show "recs s' g \<subseteq> recs s g" by (auto simp: recs_def mem h split: if_splits)
  assume "m \<in> recs s g"
  then obtain b where b: "b \<in> set (lk_fid s g)" "lk_heap s b = Some m" by (auto simp: recs_def)
  then show "m \<in> recs s' g \<or> (g = f \<and> m = l)"
    using InvD(2)[OF inv b(1), of f] a mem[of b] h[of b] by (cases "b = a") (auto simp: recs_def)
qed

lemma recs_added:
  assumes "added f l s s'"
  shows "recs s' g = (if g = f then insert l (recs s f) else recs s g)"
proof -
  obtain a where a: "lk_heap s a = None" "\<And>g. a \<notin> set (lk_fid s g)" "lk_heap s' = (lk_heap s)(a \<mapsto> l)" "lk_fid s' = (lk_fid s)(f := a # lk_fid s f)"
    using assms unfolding added_def by blast
  have "(\<exists>b \<in> set (lk_fid s h). (if b = a then Some l else lk_heap s b) = Some m) \<longleftrightarrow> (\<exists>b \<in> set (lk_fid s h). lk_heap s b = Some m)" for h m
    using a(2)[of h] by (intro bex_cong refl) auto
  then show ?thesis unfolding recs_def a(3,4) by (auto simp: fun_upd_def)
qed

lemma recs_updated:
  assumes inv: "Inv ex s" and a: "a \<in> set (lk_fid s f)" "lk_heap s a = Some l" and s': "s' = s\<lparr>lk_heap := (lk_heap s)(a \<mapsto> l')\<rparr>"
  shows "m \<in> recs s' g \<Longrightarrow> m \<in> recs s g \<or> (g = f \<and> m = l')" "m \<in> recs s g \<Longrightarrow> m \<in> recs s' g \<or> (g = f \<and> m = l)"
proof -
  have g: "a \<in> set (lk_fid s g) \<Longrightarrow> g = f" using InvD(2)[OF inv _ a(1)] .
  show "m \<in> recs s g \<or> (g = f \<and> m = l')" if "m \<in> recs s' g" using that g by (auto simp: recs_def s' split: if_splits)
  show "m \<in> recs s' g \<or> (g = f \<and> m = l)" if "m \<in> recs s g"
  proof -
    from that obtain b where b: "b \<in> set (lk_fid s g)" "lk_heap s b = Some m" by (auto simp: recs_def)
    then show ?thesis using g a by (cases "b = a") (auto simp: recs_def s')
  qed
qed

section \<open>What a request leaves alone\<close>

definition pview :: "lock_state \<Rightarrow> int \<Rightarrow> (u64 \<times> u64) list" where
  "pview s = (\<lambda>i. map (\<lambda>c. (client_ref c, last_poll_time c)) (lk_clients s i))"

text \<open>The daemon computed the effective range of a lock from its range. Or the lock is a part of another one of \<open>S\<close> or of such one, with its effective range.\<close>

definition derived :: "int \<Rightarrow> ep_lock_t \<Rightarrow> bool" where
  "derived bsize l \<longleftrightarrow> (\<exists>r. l = compute_effective_lock_range bsize (l\<lparr>effective_range := r\<rparr>))"

definition part_of :: "int \<Rightarrow> ep_lock_t set \<Rightarrow> ep_lock_t \<Rightarrow> bool" where
  "part_of bsize S l \<longleftrightarrow> (\<exists>l0. lock_key l0 = lock_key l \<and> effective_range l0 = effective_range l \<and> offsets (user_range l) \<subseteq> offsets (user_range l0) \<and> (l0 \<in> S \<or> derived bsize l0))"

lemma part_ofI: "l \<in> S \<Longrightarrow> part_of b S l" "derived b l \<Longrightarrow> part_of b S l"
  unfolding part_of_def by blast+

lemma part_of_trans: "(\<And>m. m \<in> S \<Longrightarrow> part_of b T m) \<Longrightarrow> part_of b S l \<Longrightarrow> part_of b T l"
  unfolding part_of_def by (metis subset_trans)

lemma derived_compute: "derived b (compute_effective_lock_range b l)"
proof -
  have "compute_effective_lock_range b l = compute_effective_lock_range b ((compute_effective_lock_range b l)\<lparr>effective_range := effective_range l\<rparr>)"
    by (simp add: compute_effective_lock_range_def Let_def)
  then show ?thesis unfolding derived_def by blast
qed

text \<open>Only locks of the file \<open>f\<close> with a key in \<open>K\<close> change.\<close>

definition kept :: "int \<Rightarrow> fid_t \<Rightarrow> (u64 \<times> u64 \<times> ep_lock_mode_t) set \<Rightarrow> lock_state \<Rightarrow> lock_state \<Rightarrow> bool" where
  "kept bsize f K s s' \<longleftrightarrow> pview s' = pview s \<and> (\<forall>g l. g \<noteq> f \<or> lock_key l \<notin> K \<longrightarrow> (l \<in> recs s' g \<longleftrightarrow> l \<in> recs s g))
     \<and> (\<forall>l \<in> recs s' f. part_of bsize (recs s f) l)"

lemma kept_refl: "kept b f K s s"
  by (simp add: kept_def part_ofI)

lemma kept_trans: "kept b f K s t \<Longrightarrow> kept b f K t u \<Longrightarrow> kept b f K s u"
  unfolding kept_def using part_of_trans[of "recs t f" b "recs s f"] by (metis (lifting))

lemma kept_dropped:
  assumes "Inv ex s" "dropped a s s'" "a \<in> set (lk_fid s f)" "lk_heap s a = Some l" "lock_key l \<in> K" "pview s' = pview s"
  shows "kept b f K s s'"
  unfolding kept_def using assms(5,6) recs_dropped[OF assms(1-4)] part_ofI(1) by blast

lemma kept_updated:
  assumes "Inv ex s" "a \<in> set (lk_fid s f)" "lk_heap s a = Some l" "lock_key l \<in> K" "lock_key l' = lock_key l"
    "effective_range l' = effective_range l \<or> derived b l'" "offsets (user_range l') \<subseteq> offsets (user_range l)"
  shows "kept b f K s (s\<lparr>lk_heap := (lk_heap s)(a \<mapsto> l')\<rparr>)"
proof -
  have "l \<in> recs s f" using assms(2,3) by (auto simp: recs_def)
  moreover have "pview (s\<lparr>lk_heap := (lk_heap s)(a \<mapsto> l')\<rparr>) = pview s" by (simp add: pview_def)
  moreover have "part_of b (recs s f) l'" using calculation(1) assms(5-7) unfolding part_of_def by (metis order_refl)
  ultimately show ?thesis unfolding kept_def using assms(4,5) recs_updated[OF assms(1-3) refl] part_ofI(1) by metis
qed

lemma kept_added:
  assumes "added f l s s'" "lock_key l \<in> K" "derived b l" "pview s' = pview s"
  shows "kept b f K s s'"
  unfolding kept_def recs_added[OF assms(1)] using assms(2-4) part_ofI by auto

lemma recs_client:
  assumes "Inv ex s" "l \<in> recs s f" shows "lock_client l \<in> fst ` set (pview s (ex f - 1))"
proof -
  obtain a where a: "a \<in> set (lk_fid s f)" "lk_heap s a = Some l" using assms(2) by (auto simp: recs_def)
  then obtain as where "(lock_client l, as) \<in> set (cview s (ex f - 1))" using InvD(5)[OF assms(1) a(1)] by auto
  then show ?thesis by (force simp: cview_def pview_def)
qed

lemma drop_fid_lock_pview: "drop_fid_lock eid f a s = Some s' \<Longrightarrow> pview s' = pview s"
  by (auto simp: drop_fid_lock_def lv2_cache_free_file_lock_def file_lock_unlink_def xfree_def pview_def update_client_def Let_def fun_eq_iff comp_def
      split: bind_splits option.splits if_splits)

lemma allocate_pview:
  assumes "lv2_cache_allocate_file_lock now eid l info s = Some (a, s')" "eid_slot eid = Some i"
  shows "pview (list_push_fid f a s') = (if lock_client l \<in> fst ` set (pview s i) then pview s else (pview s)(i := (lock_client l, now) # pview s i))"
proof -
  have find: "find_client r (lk_clients s i) = None \<longleftrightarrow> r \<notin> fst ` set (pview s i)" for r
    by (auto simp: find_client_def find_None_iff pview_def image_iff)
  show ?thesis
  proof (cases "find_client (lock_client l) (lk_clients s i)")
    case None
    then have "lock_client l \<notin> fst ` set (pview s i)" using find by blast
    then show ?thesis using assms None
      by (auto simp: lv2_cache_allocate_file_lock_def file_lock_add_lock_to_client_def file_lock_create_client_def list_push_fid_def pview_def update_client_def Let_def fun_eq_iff)
  next
    case (Some c)
    then have "lock_client l \<in> fst ` set (pview s i)" using find by (metis option.distinct(1))
    then show ?thesis using assms Some
      by (auto simp: lv2_cache_allocate_file_lock_def file_lock_add_lock_to_client_def list_push_fid_def pview_def update_client_def Let_def fun_eq_iff)
  qed
qed

lemma must_derived:
  assumes "must_file_lock_be_removed b req l = (gone, l', new)"
  shows "effective_range l' = effective_range l \<or> derived b l'" "new = Some n \<Longrightarrow> derived b n"
  using assms by (auto simp: must_file_lock_be_removed_def Let_def derived_compute split: if_splits ep_lock_size_t.splits)

lemma canonical_nonempty: "canonical r \<Longrightarrow> offsets r \<noteq> {}"
  by (erule canonical_cases) (auto simp: offsets_def)

section \<open>Freeing a range\<close>

definition freed :: "fid_t \<Rightarrow> ep_lock_t \<Rightarrow> lock_state \<Rightarrow> lock_state \<Rightarrow> bool" where
  "freed f req s s' \<longleftrightarrow> (\<forall>g k x. (holds s' g k x \<longrightarrow> holds s g k x)
     \<and> (holds s g k x \<longrightarrow> holds s' g k x \<or> (g = f \<and> owned_by req k \<and> x \<in> offsets (user_range req))))"

lemma freed_refl: "freed f req s s"
  and freed_trans: "freed f req s t \<Longrightarrow> freed f req t u \<Longrightarrow> freed f req s u"
  unfolding freed_def by blast+

text \<open>The locks of the owner that meet the freed range.\<close>

definition dirty :: "fid_t \<Rightarrow> ep_lock_t \<Rightarrow> lock_state \<Rightarrow> nat set" where
  "dirty f req s = {a \<in> set (lk_fid s f). \<exists>l. lk_heap s a = Some l \<and> owned_by req (lock_key l) \<and> offsets (user_range l) \<inter> offsets (user_range req) \<noteq> {}}"

lemma finite_dirty [simp]: "finite (dirty f req s)"
  by (simp add: dirty_def)

lemma not_owned: "\<not> owned_by req (lock_key l) \<Longrightarrow> must_file_lock_be_removed bsize req l = (False, l, None)"
  by (auto simp: owned_by_def lock_key_def must_file_lock_be_removed_def)

lemma dirty_dropped:
  assumes "Inv ex s" "dropped a s s'"
  shows "dirty f req s' = dirty f req s - {a}"
proof -
  have mem: "b \<in> set (lk_fid s' f) \<longleftrightarrow> b \<in> set (lk_fid s f) \<and> b \<noteq> a" for b
    using assms(2) InvD(1)[OF assms(1), of f] by (auto simp: dropped_def)
  show ?thesis using assms(2) unfolding dirty_def mem by (auto simp: dropped_def)
qed

lemma dirty_updated:
  assumes "a \<in> set (lk_fid s f)" and "offsets (user_range l') \<inter> offsets (user_range req) = {}"
  shows "dirty f req (s\<lparr>lk_heap := (lk_heap s)(a \<mapsto> l')\<rparr>) = dirty f req s - {a}"
  using assms by (auto simp: dirty_def)

lemma dirty_added:
  assumes "added f l s s'" and "offsets (user_range l) \<inter> offsets (user_range req) = {}"
  shows "dirty f req s' = dirty f req s"
proof -
  obtain a where a: "lk_heap s a = None" "a \<notin> set (lk_fid s f)" "lk_heap s' = (lk_heap s)(a \<mapsto> l)" "lk_fid s' = (lk_fid s)(f := a # lk_fid s f)"
    using assms unfolding added_def by blast
  then show ?thesis using assms(2) by (auto simp: dirty_def)
qed

text \<open>One lock of the pass that stays: it loses the freed range, and a new lock may hold the part behind it.\<close>

definition free_one ::
  "u64 \<Rightarrow> export_ctx \<Rightarrow> fid_t \<Rightarrow> ep_client_info_t \<Rightarrow> nat \<Rightarrow> ep_lock_t \<Rightarrow> ep_lock_t option \<Rightarrow> lock_state \<Rightarrow> lock_state option"
where
  "free_one now e f info a l' new s = do {
     let s = s\<lparr>lk_heap := (lk_heap s)(a \<mapsto> l')\<rparr>;
     case new of None \<Rightarrow> Some s
       | Some n \<Rightarrow> do { (b, s) \<leftarrow> lv2_cache_allocate_file_lock now (ex_eid e) n info s; Some (list_push_fid f b s) } }"

lemma free_one_ok:
  assumes inv: "Inv ex s" and a: "a \<in> set (lk_fid s f)" "lk_heap s a = Some l"
    and e: "ex f = ex_eid e" "eid_slot (ex_eid e) = Some (ex_eid e - 1)" and req: "canonical (user_range req)"
    and own: "owned_by req (lock_key l)" and must: "must_file_lock_be_removed (ex_bsize e) req l = (False, l', new)"
  shows "\<exists>s'. free_one now e f info a l' new s = Some s' \<and> Inv ex s' \<and> freed f req s s' \<and> dirty f req s' = dirty f req s - {a}
     \<and> set (lk_fid s f) \<subseteq> set (lk_fid s' f) \<and> kept (ex_bsize e) f {k. owned_by req k} s s'"
proof -
  obtain l0 where l0: "lk_heap s a = Some l0" "canonical (user_range l0)" "lock_mode l0 \<noteq> EP_LOCK_FREE" by (rule file_lock_in_heap[OF inv a(1)])
  then have l: "canonical (user_range l)" "lock_mode l \<noteq> EP_LOCK_FREE" using a(2) by simp_all
  have "lock_client req = lock_client l" "lock_owner req = lock_owner l" using own by (simp_all add: owned_by_def lock_key_def)
  note fs = free_spec[OF req l(1) this must]
  have c: "canonical (user_range l')" and key: "lock_key l' = lock_key l" "lock_mode l' = lock_mode l" "lock_client l' = lock_client l"
    and un: "offsets (user_range l') \<union> (case new of None \<Rightarrow> {} | Some n \<Rightarrow> offsets (user_range n)) = offsets (user_range l) - offsets (user_range req)"
    and nw: "\<And>n. new = Some n \<Longrightarrow> canonical (user_range n) \<and> lock_key n = lock_key l \<and> lock_mode n \<noteq> EP_LOCK_FREE"
    using fs l by (auto simp: lock_key_def)
  define t where "t = s\<lparr>lk_heap := (lk_heap s)(a \<mapsto> l')\<rparr>"
  have it: "Inv ex t" unfolding t_def by (rule update_ok[OF inv a(2) key(3,2) c])
  have sub: "offsets (user_range l') \<subseteq> offsets (user_range l)" and disj: "offsets (user_range l') \<inter> offsets (user_range req) = {}" using un by auto
  note hu = holds_updated[OF inv a key(1) sub t_def]
  have kt: "kept (ex_bsize e) f {k. owned_by req k} s t" unfolding t_def
    by (rule kept_updated[OF inv a]) (use own key(1) sub must_derived(1)[OF must] in simp_all)
  have dt: "dirty f req t = dirty f req s - {a}" unfolding t_def by (rule dirty_updated[OF a(1) disj])
  show ?thesis
  proof (cases new)
    case None
    then have "offsets (user_range l) - offsets (user_range l') \<subseteq> offsets (user_range req)" using un by auto
    then have "freed f req s t" unfolding freed_def using hu own by blast
    with None it dt kt show ?thesis by (intro exI[of _ t]) (simp add: free_one_def t_def)
  next
    case (Some n)
    from allocate_ok[OF it _ _ e, of n now info] nw[OF Some] obtain b u
      where u: "lv2_cache_allocate_file_lock now (ex_eid e) n info t = Some (b, u)" "added f n t (list_push_fid f b u)" "Inv ex (list_push_fid f b u)" by blast
    let ?s' = "list_push_fid f b u"
    have "freed f req s ?s'" unfolding freed_def holds_added[OF u(2)]
    proof (intro allI conjI impI)
      fix g k x
      show "holds s g k x" if "holds t g k x \<or> g = f \<and> k = lock_key n \<and> x \<in> offsets (user_range n)"
        using that
      proof
        assume "g = f \<and> k = lock_key n \<and> x \<in> offsets (user_range n)"
        moreover from this have "x \<in> offsets (user_range l)" using un Some by auto
        ultimately show ?thesis using nw[OF Some] a by (auto intro: holdsI)
      qed (rule hu)
      show "(holds t g k x \<or> g = f \<and> k = lock_key n \<and> x \<in> offsets (user_range n)) \<or> g = f \<and> owned_by req k \<and> x \<in> offsets (user_range req)"
        if "holds s g k x" using hu(2)[OF that] un own nw[OF Some] Some by auto
    qed
    moreover have "dirty f req ?s' = dirty f req s - {a}"
      using dirty_added[OF u(2), of req] un Some dt by auto
    moreover have "set (lk_fid s f) \<subseteq> set (lk_fid ?s' f)" using u(2) by (auto simp: added_def t_def)
    moreover have "kept (ex_bsize e) f {k. owned_by req k} t ?s'"
    proof (rule kept_added[OF u(2)])
      have "l' \<in> recs t f" using a(1) by (auto simp: recs_def t_def)
      from recs_client[OF it this] have "lock_client n \<in> fst ` set (pview t (ex_eid e - 1))" using nw[OF Some] key e(1) by (simp add: lock_key_def)
      then show "pview ?s' = pview t" using allocate_pview[OF u(1) e(2), of f] by simp
    qed (use nw[OF Some] own must_derived(2)[OF must Some] in simp_all)
    ultimately show ?thesis using u Some kept_trans[OF kt] by (intro exI[of _ ?s']) (simp add: free_one_def t_def[symmetric])
  qed
qed

lemma free_pass_ok:
  assumes "Inv ex s" "set as \<subseteq> set (lk_fid s f)" "distinct as" "dirty f req s \<subseteq> set as"
    and e: "ex f = ex_eid e" "eid_slot (ex_eid e) = Some (ex_eid e - 1)" and req: "canonical (user_range req)"
  shows "\<exists>again s'. free_pass now e f req info as s = Some (again, s') \<and> Inv ex s' \<and> freed f req s s' \<and> kept (ex_bsize e) f {k. owned_by req k} s s'
     \<and> (if again then card (dirty f req s') < card (dirty f req s) else dirty f req s' = {})"
  using assms(1-4)
proof (induction as arbitrary: s)
  case Nil
  then show ?case using freed_refl kept_refl by (fastforce intro: exI[of _ False])
next
  case (Cons a as)
  note inv = Cons.prems(1)
  have a: "a \<in> set (lk_fid s f)" using Cons.prems(2) by simp
  then obtain l where l: "lk_heap s a = Some l" "canonical (user_range l)" by (rule file_lock_in_heap[OF inv])
  obtain gone l' new where must: "must_file_lock_be_removed (ex_bsize e) req l = (gone, l', new)" by (metis prod_cases3)
  show ?case
  proof (cases "owned_by req (lock_key l)")
    case False
    then have "gone = False" "l' = l" "new = None" using must by (simp_all add: not_owned)
    moreover have "a \<notin> dirty f req s" using False l by (simp add: dirty_def)
    then have "dirty f req s \<subseteq> set as" using Cons.prems(4) by auto
    moreover have "s\<lparr>lk_heap := (lk_heap s)(a \<mapsto> l)\<rparr> = s" using l by (simp add: fun_upd_idem)
    ultimately show ?thesis using Cons.IH[OF inv] Cons.prems l must by (simp add: Let_def)
  next
    case own: True
    show ?thesis
    proof (cases gone)
      case True
      obtain t where t: "drop_fid_lock (ex_eid e) f a s = Some t" "dropped a s t" "Inv ex t" using drop_fid_lock_ok[OF inv a e] by blast
      have "lock_client req = lock_client l" "lock_owner req = lock_owner l" using own by (simp_all add: owned_by_def lock_key_def)
      from free_spec[OF req l(2) this must] True have sub: "offsets (user_range l) \<subseteq> offsets (user_range req)" by simp
      have "a \<in> dirty f req s" using sub own l a canonical_nonempty[OF l(2)] by (auto simp: dirty_def)
      then have card: "card (dirty f req t) < card (dirty f req s)"
        unfolding dirty_dropped[OF inv t(2)] by (intro psubset_card_mono) auto
      have "freed f req s t" unfolding freed_def using holds_dropped[OF inv t(2) a l(1)] own sub by blast
      moreover have "dirty f req t = {}" if "lk_fid t f = []" using that by (simp add: dirty_def)
      moreover have "kept (ex_bsize e) f {k. owned_by req k} s t" by (rule kept_dropped[OF inv t(2) a l(1)]) (use own drop_fid_lock_pview[OF t(1)] in simp_all)
      ultimately show ?thesis using t card True must l by (intro exI[of _ "lk_fid t f \<noteq> []"] exI[of _ t]) (simp add: Let_def)
    next
      case False
      from must False have must': "must_file_lock_be_removed (ex_bsize e) req l = (False, l', new)" by simp
      from free_one_ok[OF inv a l(1) e req own must', of now info] obtain t where t: "free_one now e f info a l' new s = Some t" "Inv ex t" "freed f req s t"
        "dirty f req t = dirty f req s - {a}" "set (lk_fid s f) \<subseteq> set (lk_fid t f)" "kept (ex_bsize e) f {k. owned_by req k} s t" by blast
      have "set as \<subseteq> set (lk_fid t f)" "distinct as" "dirty f req t \<subseteq> set as" using t(4,5) Cons.prems by auto
      from Cons.IH[OF t(2) this] obtain again s' where s': "free_pass now e f req info as t = Some (again, s')" "Inv ex s'" "freed f req t s'"
        "kept (ex_bsize e) f {k. owned_by req k} t s'" "if again then card (dirty f req s') < card (dirty f req t) else dirty f req s' = {}" by blast
      have "card (dirty f req t) \<le> card (dirty f req s)" unfolding t(4) by (intro card_mono) auto
      moreover have "free_pass now e f req info (a # as) s = Some (again, s')"
        using t(1) s'(1) must' l by (simp add: free_one_def Let_def)
      ultimately show ?thesis using s' freed_trans[OF t(3) s'(3)] kept_trans[OF t(6) s'(4)] by (intro exI[of _ again] exI[of _ s']) (auto split: if_splits)
    qed
  qed
qed

lemma free_loop_ok:
  assumes "Inv ex s" "card (dirty f req s) < fuel"
    and e: "ex f = ex_eid e" "eid_slot (ex_eid e) = Some (ex_eid e - 1)" and req: "canonical (user_range req)"
  shows "\<exists>s'. free_loop fuel now e f req info s = Some s' \<and> Inv ex s' \<and> freed f req s s' \<and> kept (ex_bsize e) f {k. owned_by req k} s s' \<and> dirty f req s' = {}"
  using assms(1,2)
proof (induction fuel arbitrary: s)
  case (Suc fuel)
  have "dirty f req s \<subseteq> set (lk_fid s f)" by (auto simp: dirty_def)
  from free_pass_ok[OF Suc.prems(1) order_refl InvD(1)[OF Suc.prems(1)] this e req, of now info] obtain again t
    where t: "free_pass now e f req info (lk_fid s f) s = Some (again, t)" "Inv ex t" "freed f req s t"
      "kept (ex_bsize e) f {k. owned_by req k} s t" "if again then card (dirty f req t) < card (dirty f req s) else dirty f req t = {}" by blast
  show ?case
  proof (cases again)
    case True
    then have "card (dirty f req t) < fuel" using t(5) Suc.prems(2) by simp
    from Suc.IH[OF t(2) this] obtain s' where "free_loop fuel now e f req info t = Some s'" "Inv ex s'" "freed f req t s'" "kept (ex_bsize e) f {k. owned_by req k} t s'" "dirty f req s' = {}" by blast
    with True t freed_trans[OF t(3)] kept_trans[OF t(4)] show ?thesis by auto
  qed (use t in auto)
qed simp

lemma freed_exact:
  assumes "freed f req s s'" "dirty f req s' = {}"
  shows "holds s' g k x \<longleftrightarrow> holds s g k x \<and> \<not> (g = f \<and> owned_by req k \<and> x \<in> offsets (user_range req))"
proof -
  have "\<not> holds s' f k x" if "owned_by req k" "x \<in> offsets (user_range req)"
  proof
    assume "holds s' f k x"
    then obtain a l where "a \<in> set (lk_fid s' f)" "lk_heap s' a = Some l" "lock_key l = k" "x \<in> offsets (user_range l)" by (rule holdsE)
    with that have "a \<in> dirty f req s'" by (auto simp: dirty_def)
    with assms(2) show False by simp
  qed
  with assms(1) show ?thesis unfolding freed_def by blast
qed

section \<open>The abstract state\<close>

text \<open>The locks of each file, and the clients of each export with the time of their last poll.\<close>

record lock_table =
  tb_locks :: "fid_t \<Rightarrow> ep_lock_t set"
  tb_polls :: "int \<Rightarrow> u64 \<rightharpoonup> u64"

definition lock_abs :: "lock_state \<Rightarrow> lock_table" where
  "lock_abs s = \<lparr>tb_locks = recs s, tb_polls = (\<lambda>eid. map_of (pview s (eid - 1)))\<rparr>"

lemma lock_abs_sel [simp]: "tb_locks (lock_abs s) = recs s" "tb_polls (lock_abs s) eid = map_of (pview s (eid - 1))"
  by (simp_all add: lock_abs_def)

text \<open>What the locks hold: triples of file, key and offset.\<close>

definition held :: "lock_table \<Rightarrow> (fid_t \<times> (u64 \<times> u64 \<times> ep_lock_mode_t) \<times> u64) set" where
  "held A = {(f, k, x). \<exists>l \<in> tb_locks A f. lock_key l = k \<and> x \<in> offsets (user_range l)}"

lemma held_abs: "(f, k, x) \<in> held (lock_abs s) \<longleftrightarrow> holds s f k x"
  by (simp add: held_def holds_recs)

lemma held_eqI: "(\<And>f k x. holds s f k x \<longleftrightarrow> (f, k, x) \<in> X) \<Longrightarrow> held (lock_abs s) = X"
  unfolding held_abs[symmetric] by (intro set_eqI) (metis prod_cases3)

text \<open>
  A granted lock adds its range for its owner and mode. One lock at most is new, the request itself or its union with locks of the same owner and mode, which it
  replaces; without an overlap it is the request. All other locks stay.
\<close>

definition grants :: "u64 \<Rightarrow> export_ctx \<Rightarrow> fid_t \<Rightarrow> ep_lock_t \<Rightarrow> lock_table \<Rightarrow> lock_table \<Rightarrow> bool" where
  "grants now e f req A A' \<longleftrightarrow>
     held A' = held A \<union> {(g, k, x). g = f \<and> k = lock_key req \<and> x \<in> offsets (user_range req)}
   \<and> (\<forall>g l. g \<noteq> f \<or> lock_key l \<noteq> lock_key req \<longrightarrow> (l \<in> tb_locks A' g \<longleftrightarrow> l \<in> tb_locks A g))
   \<and> (\<exists>r \<in> tb_locks A' f. lock_key r = lock_key req \<and> (r = req \<or> derived (ex_bsize e) r) \<and> tb_locks A' f \<subseteq> insert r (tb_locks A f))
   \<and> ((\<forall>l \<in> tb_locks A f. lock_key l = lock_key req \<longrightarrow> \<not> are_file_locks_overlapping req l) \<longrightarrow> tb_locks A' f = insert req (tb_locks A f))
   \<and> tb_polls A' = (tb_polls A)(ex_eid e := (tb_polls A (ex_eid e))(lock_client req := (case tb_polls A (ex_eid e) (lock_client req) of None \<Rightarrow> Some now | t \<Rightarrow> t)))"

text \<open>A release takes its range from the locks of its owner, in every mode. What is left of a lock keeps its effective range or gets a new one. All other locks stay.\<close>

definition releases :: "export_ctx \<Rightarrow> fid_t \<Rightarrow> ep_lock_t \<Rightarrow> lock_table \<Rightarrow> lock_table \<Rightarrow> bool" where
  "releases e f req A A' \<longleftrightarrow>
     held A' = held A - {(g, k, x). g = f \<and> owned_by req k \<and> x \<in> offsets (user_range req)}
   \<and> (\<forall>g l. g \<noteq> f \<or> \<not> owned_by req (lock_key l) \<longrightarrow> (l \<in> tb_locks A' g \<longleftrightarrow> l \<in> tb_locks A g))
   \<and> (\<forall>l \<in> tb_locks A' f. part_of (ex_bsize e) (tb_locks A f) l) \<and> tb_polls A' = tb_polls A"

definition without :: "(fid_t \<Rightarrow> ep_lock_t \<Rightarrow> bool) \<Rightarrow> lock_table \<Rightarrow> lock_table" where
  "without P A = A\<lparr>tb_locks := (\<lambda>g. {l \<in> tb_locks A g. \<not> P g l})\<rparr>"

definition drop_client :: "(fid_t \<Rightarrow> int) \<Rightarrow> int \<Rightarrow> u64 \<Rightarrow> lock_table \<Rightarrow> lock_table" where
  "drop_client ex eid c A = (without (\<lambda>g l. ex g = eid \<and> lock_client l = c) A)\<lparr>tb_polls := (tb_polls A)(eid := (tb_polls A eid)(c := None))\<rparr>"

definition expired :: "u64 \<Rightarrow> u64 \<Rightarrow> u64 option \<Rightarrow> bool" where
  "expired delay_max now t \<longleftrightarrow> (case t of None \<Rightarrow> False | Some t \<Rightarrow> now - t > delay_max)"

definition polled :: "(fid_t \<Rightarrow> int) \<Rightarrow> u64 \<Rightarrow> u64 \<Rightarrow> int \<Rightarrow> u64 \<Rightarrow> lock_table \<Rightarrow> lock_table" where
  "polled ex delay_max now eid c A =
     (without (\<lambda>g l. ex g = eid \<and> lock_client l \<noteq> c \<and> expired delay_max now (tb_polls A eid (lock_client l))) A)
     \<lparr>tb_polls := (tb_polls A)(eid := (\<lambda>q. if q = c then Some now else if expired delay_max now (tb_polls A eid q) then None else tb_polls A eid q))\<rparr>"

lemma lock_abs_eqI:
  assumes "\<And>g. recs s g = tb_locks A g" "\<And>eid. map_of (pview s (eid - 1)) = tb_polls A eid"
  shows "lock_abs s = A"
  using assms by (cases A) (simp add: lock_abs_def fun_eq_iff)

section \<open>Setting a lock\<close>

lemma fid_locks_ok:
  assumes inv: "Inv ex s"
  shows "fid_locks s f = Some (map (\<lambda>a. (a, the (lk_heap s a))) (lk_fid s f))"
proof -
  have "foldM (\<lambda>a ls. do { l \<leftarrow> lk_heap s a; Some (ls @ [(a, l)]) }) as ls = Some (ls @ map (\<lambda>a. (a, the (lk_heap s a))) as)"
    if "\<forall>a \<in> set as. lk_heap s a \<noteq> None" for as ls
    using that by (induction as arbitrary: ls) auto
  moreover have "\<forall>a \<in> set (lk_fid s f). lk_heap s a \<noteq> None" using InvD(5)[OF inv, of _ f] by auto
  ultimately show ?thesis by (simp add: fid_locks_def)
qed

lemma fid_locks_heap:
  assumes inv: "Inv ex s" and m: "(a, l) \<in> set (map (\<lambda>a. (a, the (lk_heap s a))) (lk_fid s f))"
  shows "a \<in> set (lk_fid s f)" "lk_heap s a = Some l" "canonical (user_range l)"
proof -
  show a: "a \<in> set (lk_fid s f)" using m by auto
  obtain l0 where "lk_heap s a = Some l0" "canonical (user_range l0)" by (rule file_lock_in_heap[OF inv a])
  with m show "lk_heap s a = Some l" "canonical (user_range l)" by auto
qed

lemma find_merge_Some:
  "find_merge bsize req ls = Some (a, r) \<Longrightarrow> \<exists>l. (a, l) \<in> set ls \<and> lock_key l = lock_key req \<and> try_file_locks_concatenate bsize req l = Some r"
  by (induction bsize req ls rule: find_merge.induct) (auto simp: lock_key_def split: if_splits option.splits)

lemma concatenate_derived: "try_file_locks_concatenate b l1 l2 = Some r \<Longrightarrow> r = l1 \<or> derived b r"
  by (auto simp: try_file_locks_concatenate_def Let_def derived_compute split: if_splits ep_lock_size_t.splits)

text \<open>Whatever the number of overlaps counted, the loop ends and keeps the union of what is held and asked for.\<close>

lemma merge_loop_ok:
  assumes "Inv ex s" "overlap < fuel" "canonical (user_range req)"
    and e: "ex f = ex_eid e" "eid_slot (ex_eid e) = Some (ex_eid e - 1)"
  shows "\<exists>r s'. merge_loop fuel e f overlap req s = Some (r, s') \<and> Inv ex s' \<and> canonical (user_range r) \<and> lock_key r = lock_key req
     \<and> kept (ex_bsize e) f {lock_key req} s s' \<and> recs s' f \<subseteq> recs s f \<and> (r = req \<or> derived (ex_bsize e) r) \<and> (overlap = 0 \<longrightarrow> r = req \<and> s' = s)
     \<and> (\<forall>g k x. holds s' g k x \<or> (g = f \<and> k = lock_key req \<and> x \<in> offsets (user_range r))
          \<longleftrightarrow> holds s g k x \<or> (g = f \<and> k = lock_key req \<and> x \<in> offsets (user_range req)))"
  using assms(1-3)
proof (induction fuel arbitrary: s overlap req)
  case (Suc fuel)
  note inv = Suc.prems(1) and fl = fid_locks_ok[OF Suc.prems(1), of f]
  let ?ls = "map (\<lambda>a. (a, the (lk_heap s a))) (lk_fid s f)"
  show ?case
  proof (cases "overlap = 0 \<or> find_merge (ex_bsize e) req ?ls = None")
    case True
    then show ?thesis using Suc.prems fl kept_refl[of "ex_bsize e" f "{lock_key req}" s] by (auto simp: Let_def)
  next
    case False
    then obtain a r where fm: "overlap \<noteq> 0" "find_merge (ex_bsize e) req ?ls = Some (a, r)" by auto
    then obtain l where l: "(a, l) \<in> set ?ls" "lock_key l = lock_key req" "try_file_locks_concatenate (ex_bsize e) req l = Some r"
      using find_merge_Some by blast
    note al = fid_locks_heap[OF inv l(1)]
    from concatenate_spec[OF Suc.prems(3) al(3), of "ex_bsize e"] l have r: "canonical (user_range r)" "lock_key r = lock_key req"
      "offsets (user_range r) = offsets (user_range req) \<union> offsets (user_range l)" by (simp_all add: lock_key_def)
    obtain t where t: "drop_fid_lock (ex_eid e) f a s = Some t" "dropped a s t" "Inv ex t" using drop_fid_lock_ok[OF inv al(1) e] by blast
    have "overlap - 1 < fuel" using fm Suc.prems(2) by simp
    from Suc.IH[OF t(3) this r(1)] obtain r' s' where s': "merge_loop fuel e f (overlap - 1) r t = Some (r', s')" "Inv ex s'"
      "canonical (user_range r')" "lock_key r' = lock_key req" "kept (ex_bsize e) f {lock_key req} t s'" "recs s' f \<subseteq> recs t f" "r' = r \<or> derived (ex_bsize e) r'"
      "\<And>g k x. holds s' g k x \<or> (g = f \<and> k = lock_key req \<and> x \<in> offsets (user_range r'))
          \<longleftrightarrow> holds t g k x \<or> (g = f \<and> k = lock_key req \<and> x \<in> offsets (user_range r))" unfolding r(2) by blast
    have "holds t g k x \<or> (g = f \<and> k = lock_key req \<and> x \<in> offsets (user_range r))
       \<longleftrightarrow> holds s g k x \<or> (g = f \<and> k = lock_key req \<and> x \<in> offsets (user_range req))" for g k x
      using holds_dropped[OF inv t(2) al(1,2), of g k x] holdsI[OF al(1,2) l(2), of x] unfolding r(3) l(2) by blast
    with s'(8) have "\<forall>g k x. holds s' g k x \<or> (g = f \<and> k = lock_key req \<and> x \<in> offsets (user_range r'))
       \<longleftrightarrow> holds s g k x \<or> (g = f \<and> k = lock_key req \<and> x \<in> offsets (user_range req))" by blast
    moreover have "merge_loop (Suc fuel) e f overlap req s = Some (r', s')" using fm fl t(1) s'(1) by simp
    moreover have "kept (ex_bsize e) f {lock_key req} s t" by (rule kept_dropped[OF inv t(2) al(1,2)]) (use l(2) drop_fid_lock_pview[OF t(1)] in simp_all)
    moreover have "recs s' f \<subseteq> recs s f" using s'(6) recs_dropped(1)[OF inv t(2) al(1,2), of f] by blast
    moreover have "r' = req \<or> derived (ex_bsize e) r'" using s'(7) concatenate_derived[OF l(3)] by blast
    ultimately show ?thesis using s'(2-4) kept_trans[OF _ s'(5)] fm(1) by blast
  qed
qed simp

lemma check_locks_le: "check_locks req ls n = Inr m \<Longrightarrow> m \<le> n + length ls"
  by (induction req ls n rule: check_locks.induct) (fastforce split: if_splits)+

text \<open>Two locks of different owners.\<close>

definition other_owner :: "ep_lock_t \<Rightarrow> ep_lock_t \<Rightarrow> bool" where
  "other_owner req l \<longleftrightarrow> lock_client l \<noteq> lock_client req \<or> lock_owner l \<noteq> lock_owner req"

lemma check_locks_Inl:
  "check_locks req ls n = Inl l \<Longrightarrow> l \<in> set ls \<and> other_owner req l \<and> \<not> are_file_locks_compatible l req"
  by (induction req ls n rule: check_locks.induct) (auto simp: other_owner_def split: if_splits)

lemma check_locks_Inr:
  "check_locks req ls n = Inr m \<Longrightarrow> l \<in> set ls \<Longrightarrow> other_owner req l \<Longrightarrow> are_file_locks_compatible l req"
  by (induction req ls n rule: check_locks.induct) (auto simp: other_owner_def split: if_splits)

lemma check_locks_apart:
  assumes "check_locks req ls n = Inr m" "\<And>l. l \<in> set ls \<Longrightarrow> lock_key l = lock_key req \<Longrightarrow> \<not> are_file_locks_overlapping req l"
  shows "m = n"
  using assms by (induction req ls n rule: check_locks.induct) (auto simp: lock_key_def split: if_splits)

lemma set_lock_ok:
  assumes inv: "Inv ex s" and e: "ex f = ex_eid e" "eid_slot (ex_eid e) = Some (ex_eid e - 1)"
    and req: "canonical (user_range req)" "lock_mode req \<noteq> EP_LOCK_FREE" and known: "known f"
  shows "(\<exists>a l. export_set_file_lock known now e f req info s = Some (Would_block l, s) \<and> a \<in> set (lk_fid s f) \<and> lk_heap s a = Some l
        \<and> other_owner req l \<and> \<not> are_file_locks_compatible l req)
    \<or> (\<exists>s'. export_set_file_lock known now e f req info s = Some (Lock_ok, s') \<and> Inv ex s'
        \<and> (\<forall>a \<in> set (lk_fid s f). \<forall>l. lk_heap s a = Some l \<longrightarrow> other_owner req l \<longrightarrow> are_file_locks_compatible l req)
        \<and> grants now e f req (lock_abs s) (lock_abs s'))"
proof -
  note fl = fid_locks_ok[OF inv, of f]
  let ?ls = "map (\<lambda>a. (a, the (lk_heap s a))) (lk_fid s f)"
  show ?thesis
  proof (cases "check_locks req (map snd ?ls) 0")
    case (Inl l)
    then obtain a where "(a, l) \<in> set ?ls" using check_locks_Inl[OF Inl] by auto
    with fid_locks_heap[OF inv] check_locks_Inl[OF Inl] have "a \<in> set (lk_fid s f)" "lk_heap s a = Some l" "other_owner req l" "\<not> are_file_locks_compatible l req"
      by blast+
    moreover have "export_set_file_lock known now e f req info s = Some (Would_block l, s)"
      using Inl fl req known by (simp add: export_set_file_lock_def comp_def)
    ultimately show ?thesis by blast
  next
    case (Inr overlap)
    have comp: "\<forall>a \<in> set (lk_fid s f). \<forall>l. lk_heap s a = Some l \<longrightarrow> other_owner req l \<longrightarrow> are_file_locks_compatible l req"
      using check_locks_Inr[OF Inr] by force
    have "overlap < Suc (length (lk_fid s f))" using check_locks_le[OF Inr] by simp
    from merge_loop_ok[OF inv this req(1) e] obtain r t where t: "merge_loop (Suc (length (lk_fid s f))) e f overlap req s = Some (r, t)"
      "Inv ex t" "canonical (user_range r)" "lock_key r = lock_key req"
      "kept (ex_bsize e) f {lock_key req} s t" "recs t f \<subseteq> recs s f" "r = req \<or> derived (ex_bsize e) r" "overlap = 0 \<Longrightarrow> r = req \<and> t = s"
      "\<And>g k x. holds t g k x \<or> (g = f \<and> k = lock_key req \<and> x \<in> offsets (user_range r))
          \<longleftrightarrow> holds s g k x \<or> (g = f \<and> k = lock_key req \<and> x \<in> offsets (user_range req))" by blast
    have "lock_mode r \<noteq> EP_LOCK_FREE" using t(4) req(2) by (simp add: lock_key_def)
    from allocate_ok[OF t(2,3) this e, of now info] obtain a u where u: "lv2_cache_allocate_file_lock now (ex_eid e) r info t = Some (a, u)"
      "added f r t (list_push_fid f a u)" "Inv ex (list_push_fid f a u)" by blast
    have run: "export_set_file_lock known now e f req info s = Some (Lock_ok, list_push_fid f a u)"
      using Inr fl req known t(1) u(1) by (simp add: export_set_file_lock_def comp_def del: merge_loop.simps)
    let ?s' = "list_push_fid f a u"
    note ru = recs_added[OF u(2)]
    have "grants now e f req (lock_abs s) (lock_abs ?s')"
      unfolding grants_def
    proof (intro conjI)
      have "holds ?s' g k x \<longleftrightarrow> holds s g k x \<or> (g = f \<and> k = lock_key req \<and> x \<in> offsets (user_range req))" for g k x
        unfolding holds_added[OF u(2)] t(4) using t(9) by blast
      then show "held (lock_abs ?s') = held (lock_abs s) \<union> {(g, k, x). g = f \<and> k = lock_key req \<and> x \<in> offsets (user_range req)}"
        by (intro held_eqI) (simp only: Un_iff held_abs mem_Collect_eq prod.case)
      show "\<forall>g l. g \<noteq> f \<or> lock_key l \<noteq> lock_key req \<longrightarrow> (l \<in> tb_locks (lock_abs ?s') g \<longleftrightarrow> l \<in> tb_locks (lock_abs s) g)"
        using t(4,5) by (simp only: lock_abs_sel ru kept_def insert_iff if_split) blast
      show "\<exists>r \<in> tb_locks (lock_abs ?s') f. lock_key r = lock_key req \<and> (r = req \<or> derived (ex_bsize e) r) \<and> tb_locks (lock_abs ?s') f \<subseteq> insert r (tb_locks (lock_abs s) f)"
        using t(4,6,7) by (intro bexI[of _ r]) (auto simp: ru)
      have "overlap = 0" if "\<forall>l \<in> recs s f. lock_key l = lock_key req \<longrightarrow> \<not> are_file_locks_overlapping req l"
      proof (rule check_locks_apart[OF Inr])
        fix l assume "l \<in> set (map snd ?ls)"
        then obtain a where "(a, l) \<in> set ?ls" by auto
        from fid_locks_heap(1,2)[OF inv this] have "l \<in> recs s f" by (auto simp: recs_def)
        then show "lock_key l = lock_key req \<Longrightarrow> \<not> are_file_locks_overlapping req l" using that by blast
      qed
      then show "(\<forall>l \<in> tb_locks (lock_abs s) f. lock_key l = lock_key req \<longrightarrow> \<not> are_file_locks_overlapping req l)
          \<longrightarrow> tb_locks (lock_abs ?s') f = insert req (tb_locks (lock_abs s) f)" using t(8) by (auto simp: ru)
      have c: "lock_client r = lock_client req" using t(4) by (simp add: lock_key_def)
      have "pview t = pview s" using t(5) by (simp add: kept_def)
      with allocate_pview[OF u(1) e(2), of f] have pv: "pview ?s' = (if lock_client req \<in> fst ` set (pview s (ex_eid e - 1)) then pview s
          else (pview s)(ex_eid e - 1 := (lock_client req, now) # pview s (ex_eid e - 1)))" unfolding c by simp
      show "tb_polls (lock_abs ?s') = (tb_polls (lock_abs s))(ex_eid e := (tb_polls (lock_abs s) (ex_eid e))(lock_client req := (case tb_polls (lock_abs s) (ex_eid e) (lock_client req) of None \<Rightarrow> Some now | t \<Rightarrow> t)))"
      proof (cases "map_of (pview s (ex_eid e - 1)) (lock_client req)")
        case None
        then have "lock_client req \<notin> fst ` set (pview s (ex_eid e - 1))" by (simp only: map_of_eq_None_iff not_False_eq_True)
        then show ?thesis using pv None by (auto simp: fun_eq_iff)
      next
        case (Some t)
        then have "lock_client req \<in> fst ` set (pview s (ex_eid e - 1))" by (metis map_of_eq_None_iff option.distinct(1))
        then show ?thesis using pv Some by (auto simp: fun_eq_iff)
      qed
    qed
    with run u(3) comp show ?thesis by blast
  qed
qed

lemma free_lock_ok:
  assumes inv: "Inv ex s" and e: "ex f = ex_eid e" "eid_slot (ex_eid e) = Some (ex_eid e - 1)"
    and req: "canonical (user_range req)" "lock_mode req = EP_LOCK_FREE" and known: "known f"
  shows "\<exists>s'. export_set_file_lock known now e f req info s = Some (Lock_ok, s') \<and> Inv ex s'
     \<and> releases e f req (lock_abs s) (lock_abs s')"
proof (cases "lk_fid s f = []")
  case True
  let ?s = "if lk_nb s f = 0 then s else s\<lparr>lk_nb := (lk_nb s)(f := 0)\<rparr>"
  have "export_set_file_lock known now e f req info s = Some (Lock_ok, ?s)" using True req known by (simp add: export_set_file_lock_def)
  moreover have "Inv ex ?s" using inv True by (auto simp: Inv_def cview_def)
  moreover have "recs ?s = recs s" by (rule ext) (simp add: recs_def)
  moreover from this have "lock_abs ?s = lock_abs s" by (simp add: lock_abs_def pview_def)
  moreover have "releases e f req (lock_abs s) (lock_abs s)" using True by (auto simp: releases_def held_def recs_def)
  ultimately show ?thesis by (intro exI[of _ ?s]) simp
next
  case False
  then have "lk_nb s f \<noteq> 0" using Inv_nb[OF inv, of f] by auto
  have "dirty f req s \<subseteq> set (lk_fid s f)" by (auto simp: dirty_def)
  then have "card (dirty f req s) \<le> card (set (lk_fid s f))" by (intro card_mono) simp_all
  then have "card (dirty f req s) < Suc (length (lk_fid s f))" using card_length[of "lk_fid s f"] by linarith
  from free_loop_ok[OF inv this e req(1), of now info] obtain s' where s': "free_loop (Suc (length (lk_fid s f))) now e f req info s = Some s'"
    "Inv ex s'" "freed f req s s'" "kept (ex_bsize e) f {k. owned_by req k} s s'" "dirty f req s' = {}" by blast
  have "export_set_file_lock known now e f req info s = Some (Lock_ok, s')"
    using s'(1) False \<open>lk_nb s f \<noteq> 0\<close> req known by (simp add: export_set_file_lock_def del: free_loop.simps)
  moreover have "releases e f req (lock_abs s) (lock_abs s')"
    using s'(4) freed_exact[OF s'(3,5)] by (auto simp: releases_def kept_def held_abs fun_eq_iff)
  ultimately show ?thesis using s'(2) by blast
qed

section \<open>Clearing the locks of an owner\<close>

lemma find_SomeD: "List.find P xs = Some x \<Longrightarrow> x \<in> set xs \<and> P x"
  by (auto simp: find_Some_iff)

lemma without_none: "(\<And>g l. l \<in> tb_locks A g \<Longrightarrow> \<not> P g l) \<Longrightarrow> without P A = A"
  by (cases A) (auto simp: without_def fun_eq_iff)

lemma without_sel [simp]: "tb_locks (without P A) g = {l \<in> tb_locks A g. \<not> P g l}" "tb_polls (without P A) = tb_polls A"
  by (simp_all add: without_def)

lemma owner_loop_ok:
  assumes "Inv ex s" "length (lk_fid s f) < fuel" and e: "ex f = ex_eid e" "eid_slot (ex_eid e) = Some (ex_eid e - 1)"
  shows "\<exists>s'. owner_loop fuel e f req s = Some s' \<and> Inv ex s' \<and> lock_abs s' = without (\<lambda>g l. g = f \<and> owned_by req (lock_key l)) (lock_abs s)"
  using assms(1,2)
proof (induction fuel arbitrary: s)
  case (Suc fuel)
  note inv = Suc.prems(1) and fl = fid_locks_ok[OF Suc.prems(1), of f]
  let ?ls = "map (\<lambda>a. (a, the (lk_heap s a))) (lk_fid s f)"
  let ?P = "\<lambda>(a, l). lock_client l = lock_client req \<and> lock_owner l = lock_owner req"
  let ?W = "without (\<lambda>g l. g = f \<and> owned_by req (lock_key l))"
  show ?case
  proof (cases "List.find ?P ?ls")
    case None
    have "\<not> owned_by req (lock_key l)" if "l \<in> recs s f" for l
    proof
      assume o: "owned_by req (lock_key l)"
      from that obtain a where "a \<in> set (lk_fid s f)" "lk_heap s a = Some l" by (auto simp: recs_def)
      with None o show False by (force simp: find_None_iff owned_by_def lock_key_def)
    qed
    then have "?W (lock_abs s) = lock_abs s" by (intro without_none) auto
    with None fl inv show ?thesis by (intro exI[of _ s]) auto
  next
    case (Some al)
    then obtain a l where al: "al = (a, l)" "(a, l) \<in> set ?ls" "owned_by req (lock_key l)"
      using find_SomeD[OF Some] by (cases al) (auto simp: owned_by_def lock_key_def)
    note h = fid_locks_heap[OF inv al(2)]
    obtain t where t: "drop_fid_lock (ex_eid e) f a s = Some t" "dropped a s t" "Inv ex t" using drop_fid_lock_ok[OF inv h(1) e] by blast
    have "{m \<in> recs t g. \<not> (g = f \<and> owned_by req (lock_key m))} = {m \<in> recs s g. \<not> (g = f \<and> owned_by req (lock_key m))}" for g
      using recs_dropped(1)[OF inv t(2) h(1,2), of g] recs_dropped(2)[OF inv t(2) h(1,2), where g = g] al(3) by blast
    then have wt: "?W (lock_abs t) = ?W (lock_abs s)" using drop_fid_lock_pview[OF t(1)] by (simp add: without_def lock_abs_def)
    have "length (lk_fid t f) < length (lk_fid s f)"
      using t(2) h(1) length_pos_if_in_set[OF h(1)] by (simp add: dropped_def length_remove1)
    then have "length (lk_fid t f) < fuel" using Suc.prems(2) by simp
    from Suc.IH[OF t(3) this] obtain s' where s': "owner_loop fuel e f req t = Some s'" "Inv ex s'" "lock_abs s' = ?W (lock_abs s)" unfolding wt by blast
    show ?thesis
    proof (cases "lk_fid t f = []")
      case True
      then have "?W (lock_abs t) = lock_abs t" by (intro without_none) (auto simp: recs_def)
      moreover have "owner_loop (Suc fuel) e f req s = Some t" using True t(1) Some al(1) fl by simp
      ultimately show ?thesis using t(3) wt by auto
    next
      case False
      have "owner_loop (Suc fuel) e f req s = Some s'" using False s'(1) t(1) Some al(1) fl by simp
      then show ?thesis using s'(2,3) by blast
    qed
  qed
qed simp

section \<open>Removing clients\<close>

lemma drop_locks_pview: "drop_locks as s = Some s' \<Longrightarrow> pview s' = pview s"
  unfolding drop_locks_def
  by (erule foldM_preserves[where P = "\<lambda>t. pview t = pview s"])
    (auto simp: file_lock_unlink_def xfree_def pview_def Let_def comp_def split: bind_splits)

lemma map_of_without: "map_of (filter (\<lambda>p. fst p \<noteq> r) xs) = (map_of xs)(r := None)"
  by (induction xs) auto

lemma remove_one_client_ok:
  assumes inv: "Inv ex s" and c: "c \<in> set (lk_clients s i)"
  shows "\<exists>s'. file_lock_remove_one_client i c s = Some s' \<and> Inv ex s' \<and> lock_abs s' = drop_client ex (i + 1) (client_ref c) (lock_abs s)"
proof -
  define t where "t = s\<lparr>lk_stat := (lk_stat s)\<lparr>nb_remove_client := nb_remove_client (lk_stat s) + 1\<rparr>\<rparr>"
  let ?as = "file_lock_list c" let ?r = "client_ref c"
  have ct: "cview t = cview s" by (simp add: t_def cview_def)
  then have it: "Inv ex t" using inv by (simp add: Inv_def t_def)
  have mem: "(?r, ?as) \<in> set (cview s i)" using c by (auto simp: cview_def)
  have "lk_heap t a \<noteq> None" if "a \<in> set ?as" for a using InvD(6)[OF inv mem that] by (auto simp: t_def)
  from drop_locks_ok[OF it InvD(4)[OF inv mem] this] obtain u where u: "drop_locks ?as t = Some u" "Inv ex u"
    "lk_heap u = (\<lambda>a. if a \<in> set ?as then None else lk_heap t a)" "lk_fid u = (\<lambda>f. filter (\<lambda>a. a \<notin> set ?as) (lk_fid t f))"
    "cview u = (\<lambda>i. map (\<lambda>(r, bs). (r, filter (\<lambda>a. a \<notin> set ?as) bs)) (cview t i))" by blast
  let ?s = "u\<lparr>lk_clients := (lk_clients u)(i := filter (\<lambda>c. client_ref c \<noteq> ?r) (lk_clients u i)),
       lk_stat := (lk_stat u)\<lparr>nb_client_file_lock := nb_client_file_lock (lk_stat u) - 1\<rparr>\<rparr>"
  have run: "file_lock_remove_one_client i c s = Some ?s"
    using u(1) by (simp add: file_lock_remove_one_client_def t_def Let_def)
  have v: "cview ?s = (cview u)(i := filter (\<lambda>c. fst c \<noteq> ?r) (cview u i))"
    by (rule ext) (simp add: cview_def filter_map comp_def)
  have uniq: "as = ?as" if "(?r, as) \<in> set (cview s i)" for as
    using eq_key_imp_eq_value[OF InvD(3)[OF inv, of i] that mem] .
  have "bs = []" if "(?r, bs) \<in> set (cview u i)" for bs using that uniq unfolding u(5) ct by auto
  from lkinv_del_client[OF Inv_lkinv[OF u(2)] this] have "Inv ex ?s" unfolding Inv_def v using Inv_nb[OF u(2)] by simp
  moreover have "lock_abs ?s = drop_client ex (i + 1) ?r (lock_abs s)"
  proof (rule lock_abs_eqI)
    have "pview u = pview s" using drop_locks_pview[OF u(1)] by (simp add: t_def pview_def)
    moreover have "pview ?s = (pview u)(i := filter (\<lambda>p. fst p \<noteq> ?r) (pview u i))"
      by (rule ext) (simp add: pview_def filter_map comp_def)
    ultimately show "map_of (pview ?s (eid - 1)) = tb_polls (drop_client ex (i + 1) ?r (lock_abs s)) eid" for eid
      by (simp add: drop_client_def map_of_without)
    fix g
    have own: "a \<in> set ?as \<longleftrightarrow> ex g - 1 = i \<and> lock_client l = ?r" if a: "a \<in> set (lk_fid s g)" "lk_heap s a = Some l" for a l
    proof
      assume "a \<in> set ?as"
      from InvD(6)[OF inv mem this] obtain g' l' where g': "a \<in> set (lk_fid s g')" "ex g' - 1 = i" "lk_heap s a = Some l'" "lock_client l' = ?r" by blast
      moreover have "g' = g" using InvD(2)[OF inv g'(1) a(1)] .
      ultimately show "ex g - 1 = i \<and> lock_client l = ?r" using a(2) by simp
    next
      assume r: "ex g - 1 = i \<and> lock_client l = ?r"
      from InvD(5)[OF inv a(1)] a(2) obtain as where as: "(lock_client l, as) \<in> set (cview s (ex g - 1))" "a \<in> set as" by auto
      with r uniq show "a \<in> set ?as" by auto
    qed
    have "l \<in> recs ?s g \<longleftrightarrow> (\<exists>a \<in> set (lk_fid s g). lk_heap s a = Some l \<and> a \<notin> set ?as)" for l by (auto simp: recs_def u(3,4) t_def split: if_splits)
    then show "recs ?s g = tb_locks (drop_client ex (i + 1) ?r (lock_abs s)) g" using own by (auto simp: drop_client_def recs_def)
  qed
  ultimately show ?thesis using run by blast
qed

lemma polls_find:
  assumes "Inv ex s"
  shows "tb_polls (lock_abs s) (i + 1) r = map_option last_poll_time (find_client r (lk_clients s i))"
proof -
  have "map_of (map (\<lambda>c. (client_ref c, last_poll_time c)) cs) r = map_option last_poll_time (find_client r cs)" for cs
    by (induction cs) (auto simp: find_client_def)
  then show ?thesis by (simp add: pview_def)
qed

lemma client_known:
  assumes "Inv ex s" "l \<in> recs s g" shows "tb_polls (lock_abs s) (ex g) (lock_client l) \<noteq> None"
  using recs_client[OF assms] by (simp add: map_of_eq_None_iff)

lemma remove_client_ok:
  assumes inv: "Inv ex s" and e: "eid_slot eid = Some (eid - 1)"
  shows "\<exists>s'. file_lock_remove_client eid r s = Some s' \<and> Inv ex s' \<and> lock_abs s' = drop_client ex eid r (lock_abs s)"
proof (cases "find_client r (lk_clients s (eid - 1))")
  case None
  then have p: "tb_polls (lock_abs s) eid r = None" using polls_find[OF inv, of "eid - 1" r] by simp
  have "\<not> (ex g = eid \<and> lock_client l = r)" if "l \<in> recs s g" for g l using client_known[OF inv that] p by auto
  then have "without (\<lambda>g l. ex g = eid \<and> lock_client l = r) (lock_abs s) = lock_abs s" by (intro without_none) (simp only: lock_abs_sel not_False_eq_True)
  then have "drop_client ex eid r (lock_abs s) = lock_abs s" using p by (simp add: drop_client_def fun_upd_idem)
  moreover have "file_lock_remove_client eid r s = Some s" using None e by (simp add: file_lock_remove_client_def)
  ultimately show ?thesis using inv by auto
next
  case (Some c)
  then have c: "c \<in> set (lk_clients s (eid - 1))" "client_ref c = r" using find_client_view(2)[OF InvD(3)[OF inv]] by blast+
  from remove_one_client_ok[OF inv c(1)] Some e c(2) show ?thesis by (simp add: file_lock_remove_client_def)
qed

section \<open>Polling\<close>

lemma Inv_clients:
  assumes "Inv ex s" "\<And>i. map (\<lambda>c. (client_ref c, file_lock_list c)) (cs i) = map (\<lambda>c. (client_ref c, file_lock_list c)) (lk_clients s i)"
  shows "Inv ex (s\<lparr>lk_clients := cs\<rparr>)"
proof -
  have "cview (s\<lparr>lk_clients := cs\<rparr>) = cview s" using assms(2) by (simp add: cview_def)
  then show ?thesis using assms(1) by (simp add: Inv_def)
qed

lemma distinct_pview: "Inv ex s \<Longrightarrow> distinct (map fst (pview s i))"
  using InvD(3)[of ex s i] by (simp add: cview_def pview_def comp_def)

definition poll_step :: "u64 \<Rightarrow> u64 \<Rightarrow> int \<Rightarrow> u64 \<Rightarrow> u64 \<Rightarrow> bool \<times> lock_state \<Rightarrow> (bool \<times> lock_state) option" where
  "poll_step delay_max now eid ref r = (\<lambda>(found, s). do {
     client \<leftarrow> find_client r (lk_clients s (eid - 1));
     if client_ref client = ref
     then Some (True, s\<lparr>lk_clients := (lk_clients s)(eid - 1 := update_client r (\<lambda>c. c\<lparr>last_poll_time := now\<rparr>) (lk_clients s (eid - 1)))\<rparr>)
     else if now - last_poll_time client > delay_max
     then do { s \<leftarrow> file_lock_remove_client eid (client_ref client) s; Some (found, s) }
     else Some (found, s) })"

text \<open>What a step does to the table.\<close>

definition poll_one :: "(fid_t \<Rightarrow> int) \<Rightarrow> u64 \<Rightarrow> u64 \<Rightarrow> int \<Rightarrow> u64 \<Rightarrow> u64 \<Rightarrow> lock_table \<Rightarrow> lock_table" where
  "poll_one ex delay_max now eid ref r A =
     (if r = ref then A\<lparr>tb_polls := (tb_polls A)(eid := (tb_polls A eid)(r \<mapsto> now))\<rparr>
      else if expired delay_max now (tb_polls A eid r) then drop_client ex eid r A else A)"

lemma poll_one_polls: "q \<noteq> r \<Longrightarrow> tb_polls (poll_one ex delay_max now eid ref r A) eid q = tb_polls A eid q"
  by (auto simp: poll_one_def drop_client_def)

lemma poll_step_ok:
  assumes inv: "Inv ex s" and e: "eid_slot eid = Some (eid - 1)" and r: "tb_polls (lock_abs s) eid r \<noteq> None"
  shows "\<exists>s'. poll_step delay_max now eid ref r (found, s) = Some (found \<or> r = ref, s') \<and> Inv ex s'
     \<and> lock_abs s' = poll_one ex delay_max now eid ref r (lock_abs s)"
proof -
  have pf: "tb_polls (lock_abs s) eid r = map_option last_poll_time (find_client r (lk_clients s (eid - 1)))" using polls_find[OF inv, of "eid - 1"] by simp
  then obtain c where fc: "find_client r (lk_clients s (eid - 1)) = Some c" using r by (cases "find_client r (lk_clients s (eid - 1))") auto
  then have c: "c \<in> set (lk_clients s (eid - 1))" "client_ref c = r" using find_client_view(2)[OF InvD(3)[OF inv]] by blast+
  have p: "tb_polls (lock_abs s) eid r = Some (last_poll_time c)" using pf fc by simp
  consider "r = ref" | "r \<noteq> ref" "now - last_poll_time c > delay_max" | "r \<noteq> ref" "\<not> now - last_poll_time c > delay_max" by blast
  then show ?thesis
  proof cases
    case 1
    let ?cs = "(lk_clients s)(eid - 1 := update_client r (\<lambda>c. c\<lparr>last_poll_time := now\<rparr>) (lk_clients s (eid - 1)))"
    let ?t = "s\<lparr>lk_clients := ?cs\<rparr>"
    have "Inv ex ?t" by (rule Inv_clients[OF inv]) (simp add: update_client_def)
    moreover have "lock_abs ?t = poll_one ex delay_max now eid ref r (lock_abs s)"
    proof (rule lock_abs_eqI)
      have "map_of (map (\<lambda>c. (client_ref c, last_poll_time c)) (update_client r (\<lambda>c. c\<lparr>last_poll_time := now\<rparr>) cs)) q
         = (if q = r \<and> map_of (map (\<lambda>c. (client_ref c, last_poll_time c)) cs) q \<noteq> None then Some now else map_of (map (\<lambda>c. (client_ref c, last_poll_time c)) cs) q)" for cs q
        by (induction cs) (auto simp: update_client_def)
      then show "map_of (pview ?t (k - 1)) = tb_polls (poll_one ex delay_max now eid ref r (lock_abs s)) k" for k
        using 1 r by (auto simp: poll_one_def pview_def fun_eq_iff)
    qed (use 1 in \<open>simp add: poll_one_def recs_def\<close>)
    ultimately show ?thesis using 1 fc c by (intro exI[of _ ?t]) (simp add: poll_step_def)
  next
    case 2
    from remove_client_ok[OF inv e, of r] obtain s' where "file_lock_remove_client eid r s = Some s'" "Inv ex s'" "lock_abs s' = drop_client ex eid r (lock_abs s)" by blast
    with 2 fc c p show ?thesis by (intro exI[of _ s']) (auto simp: poll_step_def poll_one_def expired_def)
  next
    case 3
    then show ?thesis using inv fc c p by (intro exI[of _ s]) (auto simp: poll_step_def poll_one_def expired_def)
  qed
qed

lemma poll_loop_ok:
  assumes inv: "Inv ex s" and e: "eid_slot eid = Some (eid - 1)"
    and rs: "distinct rs" "\<And>r. r \<in> set rs \<Longrightarrow> tb_polls (lock_abs s) eid r \<noteq> None"
  shows "\<exists>s'. foldM (poll_step delay_max now eid ref) rs (found, s) = Some (found \<or> ref \<in> set rs, s') \<and> Inv ex s'
     \<and> lock_abs s' = fold (poll_one ex delay_max now eid ref) rs (lock_abs s)"
  using inv rs
proof (induction rs arbitrary: s found)
  case (Cons r rs)
  from poll_step_ok[OF Cons.prems(1) e, of r] Cons.prems(3)[of r] obtain u where u: "poll_step delay_max now eid ref r (found, s) = Some (found \<or> r = ref, u)" "Inv ex u"
    "lock_abs u = poll_one ex delay_max now eid ref r (lock_abs s)" by (metis list.set_intros(1))
  have "tb_polls (lock_abs u) eid q \<noteq> None" if q: "q \<in> set rs" for q
  proof -
    have "q \<noteq> r" "q \<in> set (r # rs)" using q Cons.prems(2) by auto
    then show ?thesis using Cons.prems(3)[of q] unfolding u(3) by (simp only: poll_one_polls not_False_eq_True)
  qed
  moreover have "distinct rs" using Cons.prems(2) by simp
  ultimately obtain s' where s': "foldM (poll_step delay_max now eid ref) rs (found \<or> r = ref, u) = Some ((found \<or> r = ref) \<or> ref \<in> set rs, s')"
    "Inv ex s'" "lock_abs s' = fold (poll_one ex delay_max now eid ref) rs (lock_abs u)" using Cons.IH[OF u(2)] by blast
  show ?case using u s' by (intro exI[of _ s']) auto
qed auto

text \<open>The loop over all the clients.\<close>

lemma poll_fold:
  assumes "distinct rs"
  shows "fold (poll_one ex delay_max now eid ref) rs A =
    (without (\<lambda>g l. ex g = eid \<and> lock_client l \<in> set rs \<and> lock_client l \<noteq> ref \<and> expired delay_max now (tb_polls A eid (lock_client l))) A)
     \<lparr>tb_polls := (tb_polls A)(eid := (\<lambda>q. if q \<in> set rs then if q = ref then Some now else if expired delay_max now (tb_polls A eid q) then None else tb_polls A eid q
        else tb_polls A eid q))\<rparr>"
  using assms
proof (induction rs arbitrary: A)
  case Nil
  then show ?case by (cases A) (simp add: without_def fun_upd_def fun_eq_iff)
next
  case (Cons r rs)
  let ?B = "poll_one ex delay_max now eid ref r A"
  have r: "r \<notin> set rs" "distinct rs" using Cons.prems by auto
  have p: "tb_polls ?B eid q = tb_polls A eid q" if "q \<in> set rs" for q using that r(1) by (intro poll_one_polls) auto
  have l: "tb_locks ?B g = {l \<in> tb_locks A g. \<not> (ex g = eid \<and> lock_client l = r \<and> r \<noteq> ref \<and> expired delay_max now (tb_polls A eid r))}" for g
    by (auto simp: poll_one_def drop_client_def)
  have pp: "tb_polls ?B = (tb_polls A)(eid := (tb_polls A eid)(r := if r = ref then Some now else if expired delay_max now (tb_polls A eid r) then None else tb_polls A eid r))"
    by (auto simp: poll_one_def drop_client_def fun_eq_iff)
  show ?case unfolding fold.simps comp_apply Cons.IH[OF r(2)]
  proof (rule lock_table.equality)
    show "tb_locks (without (\<lambda>g l. ex g = eid \<and> lock_client l \<in> set rs \<and> lock_client l \<noteq> ref \<and> expired delay_max now (tb_polls ?B eid (lock_client l))) ?B\<lparr>tb_polls := X\<rparr>)
       = tb_locks (without (\<lambda>g l. ex g = eid \<and> lock_client l \<in> set (r # rs) \<and> lock_client l \<noteq> ref \<and> expired delay_max now (tb_polls A eid (lock_client l))) A\<lparr>tb_polls := Y\<rparr>)" for X Y
      using p by (auto simp: l fun_eq_iff without_def)
  qed (use r(1) p in \<open>auto simp: pp fun_eq_iff\<close>)
qed

lemma poll_unfold:
  assumes "eid_slot eid = Some (eid - 1)"
  shows "file_lock_poll_client delay_max now eid ref info s = do {
     (found, s) \<leftarrow> foldM (poll_step delay_max now eid ref) (map client_ref (lk_clients s (eid - 1))) (False, s);
     if found then Some s else file_lock_create_client eid ref info now s }"
  using assms by (simp add: file_lock_poll_client_def poll_step_def[abs_def])

lemma create_client_abs:
  assumes "file_lock_create_client eid ref info now t = Some s'" "eid_slot eid = Some (eid - 1)"
  shows "lock_abs s' = (lock_abs t)\<lparr>tb_polls := (tb_polls (lock_abs t))(eid := (tb_polls (lock_abs t) eid)(ref \<mapsto> now))\<rparr>"
  using assms by (intro lock_abs_eqI) (auto simp: file_lock_create_client_def Let_def recs_def pview_def fun_eq_iff)

lemma poll_ok:
  assumes inv: "Inv ex s" and e: "eid_slot eid = Some (eid - 1)"
  shows "\<exists>s'. file_lock_poll_client delay_max now eid ref info s = Some s' \<and> Inv ex s' \<and> lock_abs s' = polled ex delay_max now eid ref (lock_abs s)"
proof -
  let ?rs = "map client_ref (lk_clients s (eid - 1))" let ?A = "lock_abs s"
  have rs: "r \<in> set ?rs \<longleftrightarrow> tb_polls ?A eid r \<noteq> None" for r by (auto simp: pview_def map_of_eq_None_iff image_image)
  have "distinct ?rs" using distinct_pview[OF inv, of "eid - 1"] by (simp add: pview_def comp_def)
  from poll_loop_ok[OF inv e this, of delay_max now ref False] poll_fold[OF this, of ex delay_max now eid ref ?A] rs
  obtain t where t: "foldM (poll_step delay_max now eid ref) ?rs (False, s) = Some (ref \<in> set ?rs, t)" "Inv ex t"
    "lock_abs t = (without (\<lambda>g l. ex g = eid \<and> lock_client l \<in> set ?rs \<and> lock_client l \<noteq> ref \<and> expired delay_max now (tb_polls ?A eid (lock_client l))) ?A)
     \<lparr>tb_polls := (tb_polls ?A)(eid := (\<lambda>q. if q \<in> set ?rs then if q = ref then Some now else if expired delay_max now (tb_polls ?A eid q) then None else tb_polls ?A eid q
        else tb_polls ?A eid q))\<rparr>" by auto
  have "expired delay_max now (tb_polls ?A eid q) \<Longrightarrow> q \<in> set ?rs" for q unfolding rs by (auto simp: expired_def split: option.splits)
  then have P: "(ex g = eid \<and> lock_client l \<in> set ?rs \<and> lock_client l \<noteq> ref \<and> expired delay_max now (tb_polls ?A eid (lock_client l)))
      \<longleftrightarrow> (ex g = eid \<and> lock_client l \<noteq> ref \<and> expired delay_max now (tb_polls ?A eid (lock_client l)))"
    "(if q \<in> set ?rs then if q = ref then Some now else if expired delay_max now (tb_polls ?A eid q) then None else tb_polls ?A eid q else tb_polls ?A eid q)
     = (if q = ref \<and> ref \<in> set ?rs then Some now else if q \<noteq> ref \<and> expired delay_max now (tb_polls ?A eid q) then None else tb_polls ?A eid q)" for g l q
    by auto
  note abs_t = t(3)[unfolded P]
  show ?thesis
  proof (cases "ref \<in> set ?rs")
    case True
    then have "lock_abs t = polled ex delay_max now eid ref ?A" unfolding abs_t polled_def by (auto simp: fun_eq_iff)
    with True t show ?thesis by (intro exI[of _ t]) (simp add: poll_unfold[OF e])
  next
    case False
    have "tb_polls (lock_abs t) eid ref = None" using False rs[of ref] unfolding abs_t by simp
    then have "find_client ref (lk_clients t (eid - 1)) = None" using polls_find[OF t(2), of "eid - 1" ref] by simp
    from create_client_ok[OF Inv_lkinv[OF t(2)] this e, of info now] obtain s' where s': "file_lock_create_client eid ref info now t = Some s'"
      "lkinv ex (lk_heap t) (lk_next t) (cview s') (lk_fid t)" "lk_heap s' = lk_heap t" "lk_next s' = lk_next t" "lk_fid s' = lk_fid t" "lk_nb s' = lk_nb t" by blast
    have "Inv ex s'" using s'(2-) Inv_nb[OF t(2)] by (simp add: Inv_def)
    moreover have "lock_abs s' = polled ex delay_max now eid ref ?A"
      unfolding create_client_abs[OF s'(1) e] abs_t polled_def using False by (auto simp: fun_eq_iff)
    ultimately show ?thesis using t(1) False s'(1) by (intro exI[of _ s']) (simp add: poll_unfold[OF e])
  qed
qed

section \<open>Deleted exports and deleted files\<close>

definition drop_export :: "(fid_t \<Rightarrow> int) \<Rightarrow> int \<Rightarrow> lock_table \<Rightarrow> lock_table" where
  "drop_export ex eid A = (without (\<lambda>g l. ex g = eid) A)\<lparr>tb_polls := (tb_polls A)(eid := Map.empty)\<rparr>"

definition reloaded :: "(fid_t \<Rightarrow> int) \<Rightarrow> (int \<Rightarrow> bool) \<Rightarrow> lock_table \<Rightarrow> lock_table" where
  "reloaded ex exists A = (without (\<lambda>g l. \<not> exists (ex g)) A)\<lparr>tb_polls := (\<lambda>eid. if 1 \<le> eid \<and> eid \<le> EXPGW_EID_MAX_IDX \<and> \<not> exists eid then Map.empty else tb_polls A eid)\<rparr>"

lemma remove_clients_ok:
  assumes inv: "Inv ex s" and rs: "distinct rs" "\<And>r. r \<in> set rs \<Longrightarrow> tb_polls (lock_abs s) (i + 1) r \<noteq> None"
  shows "\<exists>s'. foldM (\<lambda>ref s. do { client \<leftarrow> find_client ref (lk_clients s i); file_lock_remove_one_client i client s }) rs s = Some s' \<and> Inv ex s'
     \<and> lock_abs s' = fold (drop_client ex (i + 1)) rs (lock_abs s)"
  using inv rs
proof (induction rs arbitrary: s)
  case (Cons r rs)
  have "tb_polls (lock_abs s) (i + 1) r \<noteq> None" using Cons.prems(3)[of r] by simp
  then obtain c where c: "find_client r (lk_clients s i) = Some c" unfolding polls_find[OF Cons.prems(1)] by auto
  then have cm: "c \<in> set (lk_clients s i)" "client_ref c = r" using find_client_view(2)[OF InvD(3)[OF Cons.prems(1)]] by blast+
  from remove_one_client_ok[OF Cons.prems(1) cm(1)] cm(2) obtain t where t: "file_lock_remove_one_client i c s = Some t" "Inv ex t"
    "lock_abs t = drop_client ex (i + 1) r (lock_abs s)" by blast
  have "tb_polls (lock_abs t) (i + 1) q \<noteq> None" if "q \<in> set rs" for q
  proof -
    have "q \<noteq> r" "q \<in> set (r # rs)" using that Cons.prems(2) by auto
    then show ?thesis using Cons.prems(3)[of q] unfolding t(3) drop_client_def by simp
  qed
  moreover have "distinct rs" using Cons.prems(2) by simp
  ultimately obtain s' where "foldM (\<lambda>ref s. do { client \<leftarrow> find_client ref (lk_clients s i); file_lock_remove_one_client i client s }) rs t = Some s'"
    "Inv ex s'" "lock_abs s' = fold (drop_client ex (i + 1)) rs (lock_abs t)" using Cons.IH[OF t(2)] by blast
  with c t(1,3) show ?case by auto
qed auto

lemma drop_fold:
  "fold (drop_client ex eid) rs A = (without (\<lambda>g l. ex g = eid \<and> lock_client l \<in> set rs) A)\<lparr>tb_polls := (tb_polls A)(eid := (\<lambda>q. if q \<in> set rs then None else tb_polls A eid q))\<rparr>"
proof (induction rs arbitrary: A)
  case Nil
  then show ?case by (cases A) (simp add: without_def fun_upd_def fun_eq_iff)
next
  case (Cons r rs)
  show ?case unfolding fold.simps comp_apply Cons.IH
    by (rule lock_table.equality) (auto simp: drop_client_def without_def fun_eq_iff)
qed

definition reload_step :: "(int \<Rightarrow> bool) \<Rightarrow> int \<Rightarrow> lock_state \<Rightarrow> lock_state option" where
  "reload_step export_exists idx s =
     (if lk_clients s idx = [] \<or> export_exists (idx + 1) then Some s
      else foldM (\<lambda>ref s. do { client \<leftarrow> find_client ref (lk_clients s idx); file_lock_remove_one_client idx client s }) (map client_ref (lk_clients s idx)) s)"

lemma reload_step_ok:
  assumes inv: "Inv ex s"
  shows "\<exists>s'. reload_step exists idx s = Some s' \<and> Inv ex s' \<and> lock_abs s' = (if exists (idx + 1) then lock_abs s else drop_export ex (idx + 1) (lock_abs s))"
proof (cases "exists (idx + 1)")
  case True
  then show ?thesis using inv by (intro exI[of _ s]) (simp add: reload_step_def)
next
  case False
  let ?rs = "map client_ref (lk_clients s idx)" let ?A = "lock_abs s"
  have rs: "r \<in> set ?rs \<longleftrightarrow> tb_polls ?A (idx + 1) r \<noteq> None" for r by (auto simp: pview_def map_of_eq_None_iff image_image)
  have "distinct ?rs" using distinct_pview[OF inv, of idx] by (simp add: pview_def comp_def)
  from remove_clients_ok[OF inv this, of idx] rs obtain s' where
    s': "foldM (\<lambda>ref s. do { client \<leftarrow> find_client ref (lk_clients s idx); file_lock_remove_one_client idx client s }) ?rs s = Some s'" "Inv ex s'"
      "lock_abs s' = fold (drop_client ex (idx + 1)) ?rs ?A" by blast
  have c: "lock_client l \<in> set ?rs" if "l \<in> recs s g" "ex g = idx + 1" for g l unfolding rs using client_known[OF inv that(1)] that(2) by simp
  have "lock_abs s' = drop_export ex (idx + 1) ?A"
  proof (rule lock_abs_eqI)
    show "recs s' g = tb_locks (drop_export ex (idx + 1) ?A) g" for g
    proof -
      have "recs s' g = tb_locks (lock_abs s') g" by simp
      also have "\<dots> = {l \<in> recs s g. \<not> (ex g = idx + 1 \<and> lock_client l \<in> set ?rs)}" unfolding s'(3) drop_fold by simp
      finally show ?thesis using c[of _ g] by (auto simp: drop_export_def)
    qed
    show "map_of (pview s' (eid - 1)) = tb_polls (drop_export ex (idx + 1) ?A) eid" for eid
    proof -
      have "map_of (pview s' (eid - 1)) = tb_polls (lock_abs s') eid" by simp
      also have "\<dots> = tb_polls (drop_export ex (idx + 1) ?A) eid" unfolding s'(3) drop_fold drop_export_def using rs by (auto simp: fun_eq_iff)
      finally show ?thesis .
    qed
  qed
  moreover have "reload_step exists idx s = Some s'" using s'(1) False by (auto simp: reload_step_def)
  ultimately show ?thesis using s'(2) False by simp
qed

lemma reload_ok:
  assumes inv: "Inv ex s" and ex: "\<And>f. 1 \<le> ex f \<and> ex f \<le> EXPGW_EID_MAX_IDX"
  shows "\<exists>s'. file_lock_reload exists s = Some s' \<and> Inv ex s' \<and> lock_abs s' = reloaded ex exists (lock_abs s)"
proof -
  let ?R = "\<lambda>pre. (without (\<lambda>g l. ex g - 1 \<in> set pre \<and> \<not> exists (ex g)) (lock_abs s))
      \<lparr>tb_polls := (\<lambda>eid. if eid - 1 \<in> set pre \<and> \<not> exists eid then Map.empty else tb_polls (lock_abs s) eid)\<rparr>"
  let ?I = "\<lambda>pre t. Inv ex t \<and> lock_abs t = ?R pre"
  have "\<exists>t. foldM (reload_step exists) [0..EXPGW_EID_MAX_IDX - 1] s = Some t \<and> ?I [0..EXPGW_EID_MAX_IDX - 1] t"
  proof (rule foldM_invariant)
    show "?I [] s" using inv by (simp add: without_def lock_abs_def)
    fix pre x post t assume t: "?I pre t"
    from reload_step_ok[of ex t exists x] t obtain t' where t': "reload_step exists x t = Some t'" "Inv ex t'"
      "lock_abs t' = (if exists (x + 1) then ?R pre else drop_export ex (x + 1) (?R pre))" by auto
    have x: "ex g = x + 1 \<longleftrightarrow> ex g - 1 = x" "eid = x + 1 \<longleftrightarrow> eid - 1 = x" for g eid by auto
    have "lock_abs t' = ?R (pre @ [x])" unfolding t'(3)
      by (rule lock_table.equality) (auto simp: drop_export_def without_def fun_eq_iff)
    with t' show "\<exists>t'. reload_step exists x t = Some t' \<and> ?I (pre @ [x]) t'" by blast
  qed
  then obtain s' where s': "foldM (reload_step exists) [0..EXPGW_EID_MAX_IDX - 1] s = Some s'" "Inv ex s'" "lock_abs s' = ?R [0..EXPGW_EID_MAX_IDX - 1]" by blast
  have "eid - 1 \<in> set [0..EXPGW_EID_MAX_IDX - 1] \<longleftrightarrow> 1 \<le> eid \<and> eid \<le> EXPGW_EID_MAX_IDX" for eid by auto
  then have "lock_abs s' = reloaded ex exists (lock_abs s)" unfolding s'(3) reloaded_def using ex by (simp only: conj_assoc simp_thms)
  moreover have "file_lock_reload exists s = foldM (reload_step exists) [0..EXPGW_EID_MAX_IDX - 1] s"
    by (simp only: file_lock_reload_def reload_step_def[abs_def])
  ultimately show ?thesis using s'(1,2) by auto
qed

lemma remove_fid_ok:
  assumes inv: "Inv ex s"
  shows "\<exists>s'. file_lock_remove_fid_locks f s = Some s' \<and> Inv ex s' \<and> lock_abs s' = without (\<lambda>g l. g = f) (lock_abs s)"
proof -
  have "lk_heap s a \<noteq> None" if "a \<in> set (lk_fid s f)" for a using InvD(5)[OF inv that] by auto
  from drop_locks_ok[OF inv InvD(1)[OF inv] this] obtain s' where s': "drop_locks (lk_fid s f) s = Some s'" "Inv ex s'"
    "lk_heap s' = (\<lambda>a. if a \<in> set (lk_fid s f) then None else lk_heap s a)" "lk_fid s' = (\<lambda>g. filter (\<lambda>a. a \<notin> set (lk_fid s f)) (lk_fid s g))" by blast
  have "lock_abs s' = without (\<lambda>g l. g = f) (lock_abs s)"
  proof (rule lock_abs_eqI)
    show "recs s' g = tb_locks (without (\<lambda>g l. g = f) (lock_abs s)) g" for g
    proof (cases "g = f")
      case True
      then show ?thesis by (auto simp: recs_def s'(4))
    next
      case False
      have "a \<notin> set (lk_fid s f)" if "a \<in> set (lk_fid s g)" for a using InvD(2)[OF inv that, of f] False by blast
      then show ?thesis using False by (auto simp: recs_def s'(3,4) split: if_splits)
    qed
  qed (use drop_locks_pview[OF s'(1)] in simp)
  with s'(1,2) show ?thesis by (intro exI[of _ s']) (simp only: file_lock_remove_fid_locks_def simp_thms)
qed

section \<open>The service as a state machine\<close>

datatype lock_request =
    Set_lock export_ctx fid_t ep_lock_t ep_client_info_t
  | Get_lock fid_t ep_lock_t
  | Clear_client export_ctx ep_lock_t ep_client_info_t
  | Clear_owner export_ctx fid_t ep_lock_t
  | Poll export_ctx ep_lock_t ep_client_info_t
  | Evict_file fid_t
  | Reload "int \<Rightarrow> bool"

text \<open>\<open>known\<close> and \<open>enoent\<close> are the outcome of the lookup of the file, \<open>delay_max\<close> the poll delay and \<open>now\<close> the time.\<close>

fun serve ::
  "(fid_t \<Rightarrow> bool) \<Rightarrow> bool \<Rightarrow> u64 \<Rightarrow> u64 \<Rightarrow> lock_request \<Rightarrow> lock_state \<Rightarrow> (lock_status \<times> lock_state) option"
where
  "serve known enoent delay_max now (Set_lock e f req info) s = export_set_file_lock known now e f req info s"
| "serve known enoent delay_max now (Get_lock f req) s = do { st \<leftarrow> export_get_file_lock known f req s; Some (st, s) }"
| "serve known enoent delay_max now (Clear_client e req info) s = do { s \<leftarrow> export_clear_client_file_lock delay_max now e req info s; Some (Lock_ok, s) }"
| "serve known enoent delay_max now (Clear_owner e f req) s = export_clear_owner_file_lock known enoent e f req s"
| "serve known enoent delay_max now (Poll e req info) s = do { s \<leftarrow> export_poll_file_lock delay_max now e req info s; Some (Lock_ok, s) }"
| "serve known enoent delay_max now (Evict_file f) s = do { s \<leftarrow> file_lock_remove_fid_locks f s; Some (Lock_ok, s) }"
| "serve known enoent delay_max now (Reload exists) s = do { s \<leftarrow> file_lock_reload exists s; Some (Lock_ok, s) }"

text \<open>A request names the export of its file and a range that the client library builds.\<close>

fun valid_request :: "(fid_t \<Rightarrow> int) \<Rightarrow> lock_request \<Rightarrow> bool" where
  "valid_request ex (Set_lock e f req info) \<longleftrightarrow> ex f = ex_eid e \<and> canonical (user_range req)"
| "valid_request ex (Get_lock f req) \<longleftrightarrow> True"
| "valid_request ex (Clear_client e req info) \<longleftrightarrow> eid_slot (ex_eid e) \<noteq> None"
| "valid_request ex (Clear_owner e f req) \<longleftrightarrow> ex f = ex_eid e"
| "valid_request ex (Poll e req info) \<longleftrightarrow> eid_slot (ex_eid e) \<noteq> None"
| "valid_request ex (Evict_file f) \<longleftrightarrow> True"
| "valid_request ex (Reload exists) \<longleftrightarrow> True"

definition lock_service_start :: lock_state where
  "lock_service_start = file_lock_service_init \<lparr>lk_heap = (\<lambda>_. None), lk_next = 0, lk_clients = (\<lambda>_. []), lk_fid = (\<lambda>_. []), lk_nb = (\<lambda>_. 0),
     lk_stat = \<lparr>nb_file_lock = 0, nb_client_file_lock = 0, nb_lock_unlink = 0, nb_lock_allocate = 0, nb_remove_client = 0, nb_add_client = 0\<rparr>\<rparr>"

inductive lock_reach :: "(fid_t \<Rightarrow> int) \<Rightarrow> lock_state \<Rightarrow> bool" for ex where
  start: "lock_reach ex lock_service_start"
| step: "lock_reach ex s \<Longrightarrow> valid_request ex q \<Longrightarrow> serve known enoent delay_max now q s = Some (st, s') \<Longrightarrow> lock_reach ex s'"

definition valid_exports :: "(fid_t \<Rightarrow> int) \<Rightarrow> bool" where
  "valid_exports ex \<longleftrightarrow> (\<forall>f. 1 \<le> ex f \<and> ex f \<le> EXPGW_EID_MAX_IDX)"

text \<open>A call: the outcome of the lookup, the poll delay, the time, and the request.\<close>

type_synonym lock_call = "(fid_t \<Rightarrow> bool) \<times> bool \<times> u64 \<times> u64 \<times> lock_request"



text \<open>
  The specification of a call: the answer, and the table after it. Only a failed lookup gives \<^term>\<open>No_entry\<close>. A lock is refused exactly when a lock of another owner on the file is not
  compatible with it; the answer to a question is the same, except that it also looks at the locks of the asking owner.
\<close>

inductive lock_spec :: "(fid_t \<Rightarrow> int) \<Rightarrow> lock_call \<Rightarrow> lock_table \<Rightarrow> lock_status \<Rightarrow> lock_table \<Rightarrow> bool" for ex where
  set_unknown: "\<not> known f \<Longrightarrow> lock_spec ex (known, enoent, delay_max, now, Set_lock e f req info) A No_entry A"
| set_blocked: "known f \<Longrightarrow> lock_mode req \<noteq> EP_LOCK_FREE \<Longrightarrow> l \<in> tb_locks A f \<Longrightarrow> other_owner req l \<Longrightarrow> \<not> are_file_locks_compatible l req
    \<Longrightarrow> lock_spec ex (known, enoent, delay_max, now, Set_lock e f req info) A (Would_block l) A"
| set_granted: "known f \<Longrightarrow> lock_mode req \<noteq> EP_LOCK_FREE \<Longrightarrow> \<forall>l \<in> tb_locks A f. other_owner req l \<longrightarrow> are_file_locks_compatible l req \<Longrightarrow> grants now e f req A A'
    \<Longrightarrow> lock_spec ex (known, enoent, delay_max, now, Set_lock e f req info) A Lock_ok A'"
| set_released: "known f \<Longrightarrow> lock_mode req = EP_LOCK_FREE \<Longrightarrow> releases e f req A A'
    \<Longrightarrow> lock_spec ex (known, enoent, delay_max, now, Set_lock e f req info) A Lock_ok A'"
| get_unknown: "\<not> known f \<Longrightarrow> lock_spec ex (known, enoent, delay_max, now, Get_lock f req) A No_entry A"
| get_blocked: "known f \<Longrightarrow> lock_mode req \<noteq> EP_LOCK_FREE \<Longrightarrow> l \<in> tb_locks A f \<Longrightarrow> \<not> are_file_locks_compatible l req
    \<Longrightarrow> lock_spec ex (known, enoent, delay_max, now, Get_lock f req) A (Would_block l) A"
| get_allowed: "known f \<Longrightarrow> lock_mode req = EP_LOCK_FREE \<or> (\<forall>l \<in> tb_locks A f. are_file_locks_compatible l req)
    \<Longrightarrow> lock_spec ex (known, enoent, delay_max, now, Get_lock f req) A Lock_ok A"
| client_cleared: "lock_spec ex (known, enoent, delay_max, now, Clear_client e req info) A Lock_ok
     (polled ex delay_max now (ex_eid e) (lock_client req) (drop_client ex (ex_eid e) (lock_client req) A))"
| owner_unknown: "\<not> known f \<Longrightarrow> lock_spec ex (known, enoent, delay_max, now, Clear_owner e f req) A (if enoent then Lock_ok else No_entry) A"
| owner_cleared: "known f \<Longrightarrow> lock_spec ex (known, enoent, delay_max, now, Clear_owner e f req) A Lock_ok (without (\<lambda>g l. g = f \<and> owned_by req (lock_key l)) A)"
| poll_done: "lock_spec ex (known, enoent, delay_max, now, Poll e req info) A Lock_ok (polled ex delay_max now (ex_eid e) (lock_client req) A)"
| file_evicted: "lock_spec ex (known, enoent, delay_max, now, Evict_file f) A Lock_ok (without (\<lambda>g l. g = f) A)"
| reload_done: "lock_spec ex (known, enoent, delay_max, now, Reload exists) A Lock_ok (reloaded ex exists A)"

lemma slotI: "valid_exports ex \<Longrightarrow> ex f = eid \<Longrightarrow> eid_slot eid = Some (eid - 1)"
  unfolding valid_exports_def eid_slot_def by (metis (full_types))

lemma slot_eq: "eid_slot eid \<noteq> None \<Longrightarrow> eid_slot eid = Some (eid - 1)"
  by (auto simp: eid_slot_def split: if_splits)

definition serves :: "(fid_t \<Rightarrow> int) \<Rightarrow> lock_call \<Rightarrow> lock_state \<Rightarrow> (lock_status \<times> lock_state) option \<Rightarrow> bool" where
  "serves ex c s r \<longleftrightarrow> (\<exists>st s'. r = Some (st, s') \<and> Inv ex s' \<and> lock_spec ex c (lock_abs s) st (lock_abs s'))"

lemma servesI: "r = Some (st, s') \<Longrightarrow> Inv ex s' \<Longrightarrow> lock_abs s' = A \<Longrightarrow> lock_spec ex c (lock_abs s) st A \<Longrightarrow> serves ex c s r"
  unfolding serves_def by blast

lemma serve_set:
  assumes "Inv ex s" "valid_exports ex" "valid_request ex (Set_lock e f req info)"
  shows "serves ex (known, enoent, delay_max, now, Set_lock e f req info) s (export_set_file_lock known now e f req info s)"
proof -
  have e: "ex f = ex_eid e" "canonical (user_range req)" "eid_slot (ex_eid e) = Some (ex_eid e - 1)" using assms slotI[OF assms(2), of f] by auto
  consider "\<not> known f" | "known f" "lock_mode req = EP_LOCK_FREE" | "known f" "lock_mode req \<noteq> EP_LOCK_FREE" by blast
  then show ?thesis
  proof cases
    case 1
    then show ?thesis using assms(1) set_unknown[where known = known and f = f, OF 1] by (auto intro!: servesI simp: export_set_file_lock_def)
  next
    case 2
    from free_lock_ok[where known = known, OF assms(1) e(1,3,2) 2(2,1), of now info] obtain s' where
      s': "export_set_file_lock known now e f req info s = Some (Lock_ok, s')" "Inv ex s'" "releases e f req (lock_abs s) (lock_abs s')" by blast
    then show ?thesis using set_released[where known = known and f = f, OF 2 s'(3)] by (auto intro: servesI)
  next
    case 3
    from set_lock_ok[where known = known, OF assms(1) e(1,3,2) 3(2,1), of now info] show ?thesis
    proof (elim disjE exE conjE)
      fix a l assume r: "export_set_file_lock known now e f req info s = Some (Would_block l, s)" and l: "a \<in> set (lk_fid s f)" "lk_heap s a = Some l"
        "other_owner req l" "\<not> are_file_locks_compatible l req"
      have "l \<in> tb_locks (lock_abs s) f" using l(1,2) by (auto simp: recs_def)
      from servesI[OF r assms(1) refl set_blocked[where known = known and f = f, OF 3 this l(3,4)]] show ?thesis .
    next
      fix s' assume s': "export_set_file_lock known now e f req info s = Some (Lock_ok, s')" "Inv ex s'" "grants now e f req (lock_abs s) (lock_abs s')"
        "\<forall>a \<in> set (lk_fid s f). \<forall>l. lk_heap s a = Some l \<longrightarrow> other_owner req l \<longrightarrow> are_file_locks_compatible l req"
      then have "\<forall>l \<in> tb_locks (lock_abs s) f. other_owner req l \<longrightarrow> are_file_locks_compatible l req" by (auto simp: recs_def)
      from servesI[OF s'(1,2) refl set_granted[where known = known and f = f, OF 3 this s'(3)]] show ?thesis .
    qed
  qed
qed

lemma serve_get:
  assumes "Inv ex s"
  shows "serves ex (known, enoent, delay_max, now, Get_lock f req) s (do { st \<leftarrow> export_get_file_lock known f req s; Some (st, s) })"
proof -
  let ?ls = "map snd (map (\<lambda>a. (a, the (lk_heap s a))) (lk_fid s f))" let ?bad = "\<lambda>l. \<not> are_file_locks_compatible l req"
  have ls: "set ?ls = recs s f" using InvD(5)[OF assms, of _ f] by (force simp: recs_def)
  consider "\<not> known f" | "known f" "lock_mode req = EP_LOCK_FREE \<or> List.find ?bad ?ls = None" | l where "known f" "lock_mode req \<noteq> EP_LOCK_FREE" "List.find ?bad ?ls = Some l" by auto
  then show ?thesis
  proof cases
    case 1
    then show ?thesis using servesI[OF _ assms refl get_unknown[where known = known and f = f, OF 1]] by (simp add: export_get_file_lock_def)
  next
    case 2
    have "lock_mode req = EP_LOCK_FREE \<or> (\<forall>l \<in> tb_locks (lock_abs s) f. are_file_locks_compatible l req)"
      using 2(2) ls by (simp only: find_None_iff lock_abs_sel) blast
    from servesI[OF _ assms refl get_allowed[where known = known and f = f, OF 2(1) this]] show ?thesis using 2 fid_locks_ok[OF assms, of f] by (auto simp: export_get_file_lock_def)
  next
    case 3
    then have "l \<in> tb_locks (lock_abs s) f" "?bad l" using find_SomeD[OF 3(3)] ls by auto
    from servesI[OF _ assms refl get_blocked[where known = known and f = f, OF 3(1,2) this]] show ?thesis using 3 fid_locks_ok[OF assms, of f] by (simp add: export_get_file_lock_def)
  qed
qed

lemma serve_clear_client:
  assumes "Inv ex s" "valid_request ex (Clear_client e req info)"
  shows "serves ex (known, enoent, delay_max, now, Clear_client e req info) s (do { s \<leftarrow> export_clear_client_file_lock delay_max now e req info s; Some (Lock_ok, s) })"
proof -
  have e: "eid_slot (ex_eid e) = Some (ex_eid e - 1)" using assms(2) slot_eq by auto
  from remove_client_ok[OF assms(1) e, of "lock_client req"] obtain t where t: "file_lock_remove_client (ex_eid e) (lock_client req) s = Some t" "Inv ex t"
    "lock_abs t = drop_client ex (ex_eid e) (lock_client req) (lock_abs s)" by blast
  from poll_ok[OF t(2) e, of delay_max now "lock_client req" info] obtain u where u: "file_lock_poll_client delay_max now (ex_eid e) (lock_client req) info t = Some u" "Inv ex u"
    "lock_abs u = polled ex delay_max now (ex_eid e) (lock_client req) (lock_abs t)" by blast
  show ?thesis by (rule servesI[OF _ u(2) _ client_cleared]) (use t u in \<open>simp_all add: export_clear_client_file_lock_def\<close>)
qed

lemma serve_clear_owner:
  assumes "Inv ex s" "valid_exports ex" "valid_request ex (Clear_owner e f req)"
  shows "serves ex (known, enoent, delay_max, now, Clear_owner e f req) s (export_clear_owner_file_lock known enoent e f req s)"
proof -
  have e: "ex f = ex_eid e" "eid_slot (ex_eid e) = Some (ex_eid e - 1)" using assms slotI[OF assms(2), of f] by auto
  show ?thesis
  proof (cases "known f")
    case True
    from owner_loop_ok[OF assms(1) lessI e, of req] obtain s' where s': "owner_loop (Suc (length (lk_fid s f))) e f req s = Some s'" "Inv ex s'"
      "lock_abs s' = without (\<lambda>g l. g = f \<and> owned_by req (lock_key l)) (lock_abs s)" by blast
    have run: "export_clear_owner_file_lock known enoent e f req s = Some (Lock_ok, s')"
      using True s'(1) by (simp add: export_clear_owner_file_lock_def del: owner_loop.simps)
    show ?thesis by (rule servesI[OF run s'(2,3) owner_cleared[where known = known and f = f, OF True]])
  next
    case False
    show ?thesis by (rule servesI[OF _ assms(1) refl owner_unknown[where known = known and f = f, OF False]]) (simp add: False export_clear_owner_file_lock_def)
  qed
qed

lemma serve_poll:
  assumes "Inv ex s" "valid_request ex (Poll e req info)"
  shows "serves ex (known, enoent, delay_max, now, Poll e req info) s (do { s \<leftarrow> export_poll_file_lock delay_max now e req info s; Some (Lock_ok, s) })"
proof -
  have e: "eid_slot (ex_eid e) = Some (ex_eid e - 1)" using assms(2) slot_eq by auto
  from poll_ok[OF assms(1) e, of delay_max now "lock_client req" info] obtain u where u: "file_lock_poll_client delay_max now (ex_eid e) (lock_client req) info s = Some u" "Inv ex u"
    "lock_abs u = polled ex delay_max now (ex_eid e) (lock_client req) (lock_abs s)" by blast
  show ?thesis by (rule servesI[OF _ u(2,3) poll_done]) (use u in \<open>simp add: export_poll_file_lock_def\<close>)
qed

lemma serve_evict:
  assumes "Inv ex s"
  shows "serves ex (known, enoent, delay_max, now, Evict_file f) s (do { s \<leftarrow> file_lock_remove_fid_locks f s; Some (Lock_ok, s) })"
proof -
  from remove_fid_ok[OF assms, of f] obtain s' where s': "file_lock_remove_fid_locks f s = Some s'" "Inv ex s'" "lock_abs s' = without (\<lambda>g l. g = f) (lock_abs s)" by blast
  show ?thesis by (rule servesI[OF _ s'(2,3) file_evicted]) (use s' in simp)
qed

lemma serve_reload:
  assumes "Inv ex s" "valid_exports ex"
  shows "serves ex (known, enoent, delay_max, now, Reload exists) s (do { s \<leftarrow> file_lock_reload exists s; Some (Lock_ok, s) })"
proof -
  have "1 \<le> ex f \<and> ex f \<le> EXPGW_EID_MAX_IDX" for f using assms(2) by (simp add: valid_exports_def)
  from reload_ok[OF assms(1) this, of exists] obtain s' where s': "file_lock_reload exists s = Some s'" "Inv ex s'" "lock_abs s' = reloaded ex exists (lock_abs s)" by blast
  show ?thesis by (rule servesI[OF _ s'(2,3) reload_done]) (use s' in simp)
qed

lemma serve_ok:
  assumes "Inv ex s" "valid_exports ex" "valid_request ex q"
  shows "serves ex (known, enoent, delay_max, now, q) s (serve known enoent delay_max now q s)"
  using assms by (cases q) (auto intro: serve_set serve_get serve_clear_client serve_clear_owner serve_poll serve_evict serve_reload)

lemma Inv_start: "Inv ex lock_service_start"
  by (simp add: Inv_def lkinv_def cview_def lock_service_start_def file_lock_service_init_def)

lemma reach_Inv: "lock_reach ex s \<Longrightarrow> valid_exports ex \<Longrightarrow> Inv ex s"
proof (induction rule: lock_reach.induct)
  case (step s q known enoent delay_max now st s')
  from serve_ok[OF step.IH[OF step.prems] step.prems step.hyps(2), of known enoent delay_max now] step.hyps(3) show ?case
    by (auto simp: serves_def)
qed (rule Inv_start)

section \<open>Properties\<close>

text \<open>C19. The lock service never fails. In every state the requests can lead to, every request returns: the loops that free, merge and clear end
  within as many rounds as the file has locks, and no lock is read or freed after it was freed.\<close>

theorem lock_requests_return:
  assumes "lock_reach ex s" "valid_exports ex" "valid_request ex q"
  shows "\<exists>st s'. serve known enoent delay_max now q s = Some (st, s')"
  using serve_ok[OF reach_Inv[OF assms(1,2)] assms(2,3), of known enoent delay_max now] by (auto simp: serves_def)

theorem lock_requests_return_witness:
  "\<exists>st s'. serve (\<lambda>f. True) False 90 0 (Set_lock \<lparr>ex_eid = 1, ex_bsize = 0\<rparr> (0, 0)
     \<lparr>lock_mode = EP_LOCK_WRITE, lock_client = 1, lock_owner = 1, user_range = \<lparr>range_size = EP_LOCK_TOTAL, offset_start = 0, offset_stop = 0\<rparr>,
       effective_range = \<lparr>range_size = EP_LOCK_TOTAL, offset_start = 0, offset_stop = 0\<rparr>\<rparr> \<lparr>info_vers = [], info_diag_port = 0, info_socketRef = 0\<rparr>)
     lock_service_start = Some (st, s')"
  by (rule lock_requests_return[where ex = "\<lambda>f. 1"]) (auto intro: lock_reach.start simp: valid_exports_def canonical_def)

text \<open>C13. The lists agree. In every state the requests can lead to, each lock of a file is allocated, is in the list of one file only, and is in the list
  of its client in the export of that file; each lock of a client is in the list of a file of that export; and
  no allocated lock is left out of the lists.\<close>

theorem lock_lists_agree:
  assumes "lock_reach ex s" "valid_exports ex"
  shows "(\<forall>f. distinct (lk_fid s f)) \<and> (\<forall>f g a. a \<in> set (lk_fid s f) \<longrightarrow> a \<in> set (lk_fid s g) \<longrightarrow> f = g)
    \<and> (\<forall>f a. a \<in> set (lk_fid s f) \<longrightarrow> (\<exists>l c. lk_heap s a = Some l \<and> c \<in> set (lk_clients s (ex f - 1)) \<and> client_ref c = lock_client l \<and> a \<in> set (file_lock_list c)))
    \<and> (\<forall>i c a. c \<in> set (lk_clients s i) \<longrightarrow> a \<in> set (file_lock_list c)
         \<longrightarrow> (\<exists>f l. a \<in> set (lk_fid s f) \<and> ex f - 1 = i \<and> lk_heap s a = Some l \<and> lock_client l = client_ref c))
    \<and> (\<forall>a. lk_heap s a \<noteq> None \<longrightarrow> (\<exists>f. a \<in> set (lk_fid s f)))"
proof -
  note inv = reach_Inv[OF assms]
  have "\<exists>l c. lk_heap s a = Some l \<and> c \<in> set (lk_clients s (ex f - 1)) \<and> client_ref c = lock_client l \<and> a \<in> set (file_lock_list c)" if "a \<in> set (lk_fid s f)" for a f
    using InvD(5)[OF inv that] by (auto simp: cview_def)
  moreover have "\<exists>f l. a \<in> set (lk_fid s f) \<and> ex f - 1 = i \<and> lk_heap s a = Some l \<and> lock_client l = client_ref c"
    if "c \<in> set (lk_clients s i)" "a \<in> set (file_lock_list c)" for i c a
    using InvD(6)[OF inv, of "client_ref c" "file_lock_list c" i a] that by (force simp: cview_def)
  moreover have "\<exists>f. a \<in> set (lk_fid s f)" if "lk_heap s a \<noteq> None" for a using that InvD(8)[OF inv] by blast
  ultimately show ?thesis using InvD(1,2)[OF inv] by blast
qed

definition sample_request :: "u64 \<Rightarrow> ep_lock_size_t \<Rightarrow> u64 \<Rightarrow> u64 \<Rightarrow> ep_lock_t" where
  "sample_request c sz a b = client_compute_effective_lock_range 0
     \<lparr>lock_mode = EP_LOCK_WRITE, lock_client = c, lock_owner = 1, user_range = \<lparr>range_size = sz, offset_start = a, offset_stop = b\<rparr>,
       effective_range = \<lparr>range_size = EP_LOCK_NULL, offset_start = 0, offset_stop = 0\<rparr>\<rparr>"

definition sample_export :: export_ctx where "sample_export = \<lparr>ex_eid = 1, ex_bsize = 0\<rparr>"

definition sample_info :: ep_client_info_t where "sample_info = \<lparr>info_vers = [], info_diag_port = 0, info_socketRef = 0\<rparr>"

definition sample_set :: "u64 \<Rightarrow> ep_lock_size_t \<Rightarrow> u64 \<Rightarrow> u64 \<Rightarrow> lock_state \<Rightarrow> (lock_status \<times> lock_state) option" where
  "sample_set c sz a b s = serve (\<lambda>f. True) False 90 0 (Set_lock sample_export (0, 0) (sample_request c sz a b) sample_info) s"

definition sample_table :: "lock_state \<Rightarrow> (nat \<times> ep_lock_t option) list" where
  "sample_table s = map (\<lambda>a. (a, lk_heap s a)) (lk_fid s (0, 0))"

lemma sample_reach:
  assumes "lock_reach (\<lambda>f. 1) s" "sample_set c sz a b s = Some (st, s')" "canonical \<lparr>range_size = sz, offset_start = a, offset_stop = b\<rparr>"
  shows "lock_reach (\<lambda>f. 1) s'"
  using assms(1) _ assms(2)[unfolded sample_set_def]
  by (rule lock_reach.step) (use assms(3) in \<open>simp add: sample_export_def sample_request_def\<close>)

lemma sample_holds:
  assumes "(a, Some l) \<in> set (sample_table s)" "x \<in> offsets (user_range l)"
  shows "holds s (0, 0) (lock_key l) x"
  by (rule holdsI[of a _ _ l]) (use assms in \<open>auto simp: sample_table_def\<close>)

lemma sample_set_returns: "\<exists>st s. sample_set 1 EP_LOCK_FROM_START 0 4096 lock_service_start = Some (st, s)"
proof -
  have "map_option (\<lambda>r. True) (sample_set 1 EP_LOCK_FROM_START 0 4096 lock_service_start) = Some True" by code_simp
  then show ?thesis by auto
qed

theorem lock_lists_agree_witness:
  "\<exists>s. map_option snd (sample_set 1 EP_LOCK_FROM_START 0 4096 lock_service_start) = Some s \<and> lk_heap s 0 \<noteq> None \<and> (\<exists>f. 0 \<in> set (lk_fid s f))"
proof -
  obtain st s where s: "sample_set 1 EP_LOCK_FROM_START 0 4096 lock_service_start = Some (st, s)"
    using sample_set_returns by blast
  have "map_option (\<lambda>(st, s). lk_heap s 0 \<noteq> None) (sample_set 1 EP_LOCK_FROM_START 0 4096 lock_service_start) = Some True" by code_simp
  then have h: "lk_heap s 0 \<noteq> None" using s by simp
  have "lock_reach (\<lambda>f. 1) s" by (rule sample_reach[OF lock_reach.start s]) (simp add: canonical_def)
  from lock_lists_agree[OF this] h s show ?thesis by (simp add: valid_exports_def)
qed





text \<open>C31. A lock is refused exactly when a lock of another owner on the file is not compatible with it; the answer then names such a lock and nothing changes.\<close>

theorem set_lock_refused_iff_conflict:
  assumes "lock_reach ex s" "valid_exports ex" "valid_request ex (Set_lock e f req info)" "known f" "lock_mode req \<noteq> EP_LOCK_FREE"
  shows "case export_set_file_lock known now e f req info s of
      Some (Lock_ok, s') \<Rightarrow> \<forall>a \<in> set (lk_fid s f). \<forall>l. lk_heap s a = Some l \<longrightarrow> other_owner req l \<longrightarrow> are_file_locks_compatible l req
    | Some (Would_block l, s') \<Rightarrow> s' = s \<and> (\<exists>a \<in> set (lk_fid s f). lk_heap s a = Some l) \<and> other_owner req l \<and> \<not> are_file_locks_compatible l req
    | _ \<Rightarrow> False"
proof -
  have e: "ex f = ex_eid e" "canonical (user_range req)" "eid_slot (ex_eid e) = Some (ex_eid e - 1)" using assms slotI[OF assms(2), of f] by auto
  from set_lock_ok[where known = known, OF reach_Inv[OF assms(1,2)] e(1,3,2) assms(5,4), of now info] show ?thesis by auto
qed

theorem set_lock_refused_iff_conflict_witness:
  "\<exists>s l. map_option snd (sample_set 1 EP_LOCK_FROM_START 0 4096 lock_service_start) = Some s
     \<and> export_set_file_lock (\<lambda>f. True) 0 sample_export (0, 0) (sample_request 2 EP_LOCK_FROM_START 0 4096) sample_info s = Some (Would_block l, s)"
proof -
  obtain st s where s: "sample_set 1 EP_LOCK_FROM_START 0 4096 lock_service_start = Some (st, s)"
    using sample_set_returns by blast
  have r: "lock_reach (\<lambda>f. 1) s" by (rule sample_reach[OF lock_reach.start s]) (simp add: canonical_def)
  let ?r = "export_set_file_lock (\<lambda>f. True) 0 sample_export (0, 0) (sample_request 2 EP_LOCK_FROM_START 0 4096) sample_info s"
  have "map_option (\<lambda>(st, s). map_option (\<lambda>(st, s). st = Lock_ok) (export_set_file_lock (\<lambda>f. True) 0 sample_export (0, 0) (sample_request 2 EP_LOCK_FROM_START 0 4096) sample_info s))
      (sample_set 1 EP_LOCK_FROM_START 0 4096 lock_service_start) = Some (Some False)" by code_simp
  then have "map_option (\<lambda>(st, s). st = Lock_ok) ?r = Some False" using s by simp
  then obtain st' s' where r': "?r = Some (st', s')" "st' \<noteq> Lock_ok" by (cases ?r) auto
  have "valid_request (\<lambda>f. 1) (Set_lock sample_export (0, 0) (sample_request 2 EP_LOCK_FROM_START 0 4096) sample_info)"
    by (simp add: sample_export_def sample_request_def canonical_def)
  from set_lock_refused_iff_conflict[OF r _ this, of "\<lambda>f. True" 0] r' s show ?thesis
    by (cases st') (auto simp: valid_exports_def sample_request_def)
qed

text \<open>C20. Two clients can hold a write lock on the same bytes. When the same owner locks the first block and then the rest of the file, the merged
  lock covers the whole file but its effective range is empty, so that the lock of another client is granted.\<close>

theorem merged_lock_stops_blocking:
  "\<exists>s. lock_reach (\<lambda>f. 1) s \<and> holds s (0, 0) (1, 1, EP_LOCK_WRITE) 8192 \<and> holds s (0, 0) (2, 1, EP_LOCK_WRITE) 8192"
proof -
  let ?run = "do { (r1, s1) \<leftarrow> sample_set 1 EP_LOCK_FROM_START 0 4096 lock_service_start; (r2, s2) \<leftarrow> sample_set 1 EP_LOCK_TO_END 4096 0 s1; sample_set 2 EP_LOCK_PARTIAL 8192 12288 s2 }"
  let ?l1 = "\<lparr>lock_mode = EP_LOCK_WRITE, lock_client = 1, lock_owner = 1, user_range = \<lparr>range_size = EP_LOCK_TOTAL, offset_start = 0, offset_stop = 0\<rparr>,
    effective_range = \<lparr>range_size = EP_LOCK_FROM_START, offset_start = 0, offset_stop = 0\<rparr>\<rparr>"
  let ?l2 = "\<lparr>lock_mode = EP_LOCK_WRITE, lock_client = 2, lock_owner = 1, user_range = \<lparr>range_size = EP_LOCK_PARTIAL, offset_start = 8192, offset_stop = 12288\<rparr>,
    effective_range = \<lparr>range_size = EP_LOCK_PARTIAL, offset_start = 2, offset_stop = 3\<rparr>\<rparr>"
  have eval: "map_option (sample_table \<circ> snd) ?run = Some [(2, Some ?l2), (1, Some ?l1)]" by code_simp
  then obtain st3 s3 where run: "?run = Some (st3, s3)" by (cases ?run) auto
  then obtain st1 s1 st2 s2 where s: "sample_set 1 EP_LOCK_FROM_START 0 4096 lock_service_start = Some (st1, s1)"
    "sample_set 1 EP_LOCK_TO_END 4096 0 s1 = Some (st2, s2)" "sample_set 2 EP_LOCK_PARTIAL 8192 12288 s2 = Some (st3, s3)"
    by (auto split: bind_splits)
  have "lock_reach (\<lambda>f. 1) s1" by (rule sample_reach[OF lock_reach.start s(1)]) (simp add: canonical_def)
  then have "lock_reach (\<lambda>f. 1) s2" by (rule sample_reach[OF _ s(2)]) (simp add: canonical_def)
  then have "lock_reach (\<lambda>f. 1) s3" by (rule sample_reach[OF _ s(3)]) (simp add: canonical_def)
  moreover have table: "sample_table s3 = [(2, Some ?l2), (1, Some ?l1)]" using eval run by simp
  have "holds s3 (0, 0) (lock_key ?l1) 8192" by (rule sample_holds[of 1]) (simp_all add: table offsets_def)
  moreover have "holds s3 (0, 0) (lock_key ?l2) 8192" by (rule sample_holds[of 2]) (simp_all add: table offsets_def)
  ultimately show ?thesis by (auto simp: lock_key_def)
qed



end
