(* ===== verification/Disk_Table.thy ===== *)
theory Disk_Table
  imports Contract
begin

text \<open>
  The tables on disk of \<^verbatim>\<open>rozofs/core/disk_table_service.c\<close>: records of one size, found by a number. A table is a set of files; a file holds
  the records of 2048 consecutive numbers, behind a header that gives for each number the place of its record. A bitmap, in memory and on disk, says
  which files exist. The system calls of the operating system are modelled on byte sequences; each call consumes an outcome, which is success
  when the list of the outcomes is exhausted.
\<close>

section \<open>Model\<close>

definition DISK_TB_EMPTY_ENTRY :: u16 where "DISK_TB_EMPTY_ENTRY = 0x8000"

definition DISK_TABLE_MAX_ENTRY_PER_FILE :: nat where "DISK_TABLE_MAX_ENTRY_PER_FILE = 2048"

definition DISK_TB_HEADER_SZ :: nat where "DISK_TB_HEADER_SZ = DISK_TABLE_MAX_ENTRY_PER_FILE * 2"

text \<open>
  The context of a table, with its files (\<open>tb_files\<close>, by their number; \<open>tb_btmap\<close>, the file of the bitmap) and the outcomes of the next system calls: \<^term>\<open>None\<close> is success,
  \<^term>\<open>Some n\<close> a failure after \<open>n\<close> bytes.
\<close>

record disk_table_header_t =
  entry_sz :: nat
  bitmap_size :: nat
  bitmap :: "u8 list"
  dirty :: bool

record disk_tb = disk_table_header_t +
  tb_files :: "nat \<rightharpoonup> u8 list"
  tb_btmap :: "u8 list option"
  tb_io :: "nat option list"

definition DISK_MAX_IDX_FOR_FILE_ID :: "disk_tb \<Rightarrow> nat" where
  "DISK_MAX_IDX_FOR_FILE_ID t = bitmap_size t * 8"

subsection \<open>System calls\<close>

definition next_io :: "disk_tb \<Rightarrow> nat option \<times> disk_tb" where
  "next_io t = (case tb_io t of [] \<Rightarrow> (None, t) | r # rs \<Rightarrow> (r, t\<lparr>tb_io := rs\<rparr>))"

definition transferred :: "nat option \<Rightarrow> u8 list \<Rightarrow> u8 list" where
  "transferred r d = (case r of None \<Rightarrow> d | Some n \<Rightarrow> take n d)"

definition file_pread :: "u8 list \<Rightarrow> nat \<Rightarrow> nat \<Rightarrow> u8 list" where
  "file_pread f count off = take count (drop off f)"

definition file_pwrite :: "u8 list \<Rightarrow> u8 list \<Rightarrow> nat \<Rightarrow> u8 list" where
  "file_pwrite f d off = (if d = [] then f else take off f @ replicate (off - length f) 0 @ d @ drop (off + length d) f)"

definition contents :: "disk_tb \<Rightarrow> nat \<Rightarrow> u8 list" where
  "contents t idx = (case tb_files t idx of None \<Rightarrow> [] | Some f \<Rightarrow> f)"

definition pread_fd :: "nat \<Rightarrow> nat \<Rightarrow> nat \<Rightarrow> disk_tb \<Rightarrow> u8 list \<times> disk_tb" where
  "pread_fd idx count off t = (case next_io t of (r, t) \<Rightarrow> (transferred r (file_pread (contents t idx) count off), t))"

definition pwrite_fd :: "nat \<Rightarrow> u8 list \<Rightarrow> nat \<Rightarrow> disk_tb \<Rightarrow> nat \<times> disk_tb" where
  "pwrite_fd idx d off t = (case next_io t of (r, t) \<Rightarrow>
     let d = transferred r d in (length d, t\<lparr>tb_files := (tb_files t)(idx \<mapsto> file_pwrite (contents t idx) d off)\<rparr>))"

datatype open_result = Opened | Enoent | Failed

definition open_fd :: "nat \<Rightarrow> bool \<Rightarrow> disk_tb \<Rightarrow> open_result \<times> disk_tb" where
  "open_fd idx creat t = (case next_io t of (r, t) \<Rightarrow>
     if r \<noteq> None then (Failed, t)
     else if tb_files t idx \<noteq> None then (Opened, t)
     else if creat then (Opened, t\<lparr>tb_files := (tb_files t)(idx \<mapsto> [])\<rparr>)
     else (Enoent, t))"

definition memalign :: "disk_tb \<Rightarrow> bool \<times> disk_tb" where
  "memalign t = (case next_io t of (r, t) \<Rightarrow> (r = None, t))"

text \<open>A \<^verbatim>\<open>uint16_t\<close> in memory, on a little-endian machine.\<close>

definition u16_bytes :: "u16 \<Rightarrow> u8 list" where
  "u16_bytes w = [ucast w, ucast (drop_bit 8 w)]"

definition bytes_u16 :: "u8 list \<Rightarrow> u16" where
  "bytes_u16 bs = ucast (bs ! 0) OR push_bit 8 (ucast (bs ! 1))"

subsection \<open>The bitmap of the files\<close>

definition disk_tb_load_bitmap_file :: "disk_tb \<Rightarrow> int \<times> disk_tb" where
  "disk_tb_load_bitmap_file t = (case memalign t of (ok, t) \<Rightarrow>
     if \<not> ok then (-1, t)
     else let t = t\<lparr>bitmap := replicate (bitmap_size t) 0, dirty := False\<rparr> in
       (case next_io t of (r, t) \<Rightarrow>
          if r \<noteq> None then (-1, t)
          else case tb_btmap t of None \<Rightarrow> (0, t)
            | Some f \<Rightarrow> (case next_io t of (r, t) \<Rightarrow>
                let d = transferred r (file_pread f (bitmap_size t) 0) in
                (0, t\<lparr>bitmap := d @ drop (length d) (bitmap t)\<rparr>))))"

definition disk_tb_file_bitmap_update :: "nat \<Rightarrow> bool \<Rightarrow> disk_tb \<Rightarrow> disk_tb option" where
  "disk_tb_file_bitmap_update file_idx st t =
     (if file_idx > DISK_MAX_IDX_FOR_FILE_ID t then Some t
      else do {
        let byte_idx = int (file_idx div 8);
        let bit_idx = file_idx mod 8;
        b \<leftarrow> arr_get (bitmap t) byte_idx;
        if st
        then if b AND push_bit bit_idx 1 \<noteq> 0 then Some t
          else do { bm \<leftarrow> arr_set (bitmap t) byte_idx (b OR push_bit bit_idx 1); Some (t\<lparr>bitmap := bm, dirty := True\<rparr>) }
        else if b AND push_bit bit_idx 1 = 0 then Some t
          else do { bm \<leftarrow> arr_set (bitmap t) byte_idx (b AND NOT (push_bit bit_idx 1)); Some (t\<lparr>bitmap := bm, dirty := True\<rparr>) } })"

definition disk_tb_check_file_idx_bit :: "nat \<Rightarrow> disk_tb \<Rightarrow> bool option" where
  "disk_tb_check_file_idx_bit file_idx t =
     (if file_idx > DISK_MAX_IDX_FOR_FILE_ID t then Some True
      else do { b \<leftarrow> arr_get (bitmap t) (int (file_idx div 8)); Some (b AND push_bit (file_idx mod 8) 1 \<noteq> 0) })"

definition disk_tb_bitmap_flush :: "disk_tb \<Rightarrow> int \<times> disk_tb" where
  "disk_tb_bitmap_flush t =
     (if \<not> dirty t then (0, t)
      else case next_io t of (r, t) \<Rightarrow>
        if r \<noteq> None then (-1, t)
        else (case next_io t of (r, t) \<Rightarrow>
          let d = transferred r (bitmap t);
              t = t\<lparr>tb_btmap := Some (file_pwrite (case tb_btmap t of None \<Rightarrow> [] | Some f \<Rightarrow> f) d 0)\<rparr> in
          if length d \<noteq> bitmap_size t then (-1, t) else (0, t\<lparr>dirty := False\<rparr>)))"

definition disk_tb_ctx_allocate :: "nat \<Rightarrow> nat \<Rightarrow> disk_tb \<Rightarrow> bool \<times> disk_tb" where
  "disk_tb_ctx_allocate sz bitmap_sz_powerof2 t = (case memalign t of (ok, t) \<Rightarrow>
     if \<not> ok then (False, t)
     else (case memalign t of (ok, t) \<Rightarrow>
       if \<not> ok then (False, t)
       else (case memalign t of (ok, t) \<Rightarrow>
         if \<not> ok then (False, t)
         else (case disk_tb_load_bitmap_file (t\<lparr>entry_sz := sz, bitmap_size := 2 ^ bitmap_sz_powerof2\<rparr>) of (ret, t) \<Rightarrow> (0 \<le> ret, t)))))"

subsection \<open>Records\<close>

definition disk_tb_read_entry :: "nat \<Rightarrow> u8 list \<Rightarrow> disk_tb \<Rightarrow> (int \<times> u8 list \<times> disk_tb) option" where
  "disk_tb_read_entry entry_id data t = (
     let entry_file_idx = entry_id div DISK_TABLE_MAX_ENTRY_PER_FILE;
         idx_in_file = entry_id mod DISK_TABLE_MAX_ENTRY_PER_FILE in
     if entry_file_idx \<ge> DISK_MAX_IDX_FOR_FILE_ID t then Some (-1, data, t)
     else do {
       ret \<leftarrow> disk_tb_check_file_idx_bit entry_file_idx t;
       if \<not> ret then Some (0, data, t)
       else case open_fd entry_file_idx False t of
         (Enoent, t) \<Rightarrow> do { t \<leftarrow> disk_tb_file_bitmap_update entry_file_idx False t; Some (0, data, t) }
       | (Failed, t) \<Rightarrow> Some (-1, data, t)
       | (Opened, t) \<Rightarrow> (case pread_fd entry_file_idx 2 (idx_in_file * 2) t of (v, t) \<Rightarrow>
           if length v \<noteq> 2 then Some (-1, data, t)
           else let val16 = bytes_u16 v in
             if val16 = 0xffff \<or> val16 AND DISK_TB_EMPTY_ENTRY \<noteq> 0 then Some (0, data, t)
             else (case pread_fd entry_file_idx (entry_sz t) (unat val16 * entry_sz t + DISK_TB_HEADER_SZ) t of (d, t) \<Rightarrow>
               let data = d @ drop (length d) data in
               if length d \<noteq> entry_sz t then Some (-1, data, t) else Some (int (length d), data, t))) })"

text \<open>The branches of \<^verbatim>\<open>disk_tb_write_entry\<close>: the creation of a file, and the addition of a record to a file.\<close>

definition write_new_file :: "nat \<Rightarrow> nat \<Rightarrow> u8 list \<Rightarrow> disk_tb \<Rightarrow> (int \<times> disk_tb) option" where
  "write_new_file entry_file_idx idx_in_file data t =
     (case open_fd entry_file_idx True t of
        (Opened, t) \<Rightarrow> (case memalign t of (ok, t) \<Rightarrow>
          if \<not> ok then Some (-1, t)
          else let bufall = replicate DISK_TB_HEADER_SZ 0xff; bufall = bufall[2 * idx_in_file := 0, 2 * idx_in_file + 1 := 0] in
            (case pwrite_fd entry_file_idx bufall 0 t of (count, t) \<Rightarrow>
              if count \<noteq> DISK_TB_HEADER_SZ then Some (-1, t)
              else (case pwrite_fd entry_file_idx data DISK_TB_HEADER_SZ t of (count, t) \<Rightarrow>
                if count \<noteq> entry_sz t then Some (-1, t)
                else do {
                  t \<leftarrow> disk_tb_file_bitmap_update entry_file_idx True t;
                  Some (int count, snd (disk_tb_bitmap_flush t)) })))
      | (_, t) \<Rightarrow> Some (-1, t))"

definition append_record :: "nat \<Rightarrow> nat \<Rightarrow> u8 list \<Rightarrow> disk_tb \<Rightarrow> int \<times> disk_tb" where
  "append_record entry_file_idx idx_in_file data t =
     (case next_io t of (r, t) \<Rightarrow>
        let st_size = length (contents t entry_file_idx); my_size = st_size - DISK_TB_HEADER_SZ; last_entry = my_size div entry_sz t in
        if r \<noteq> None then (-1, t)
        else if st_size < DISK_TB_HEADER_SZ then (-1, t)
        else if my_size mod entry_sz t \<noteq> 0 then (-1, t)
        else if last_entry \<ge> DISK_TABLE_MAX_ENTRY_PER_FILE then (-1, t)
        else (case pwrite_fd entry_file_idx (u16_bytes (of_nat last_entry)) (idx_in_file * 2) t of (count, t) \<Rightarrow>
          if count \<noteq> 2 then (-1, t)
          else (case pwrite_fd entry_file_idx data (last_entry * entry_sz t + DISK_TB_HEADER_SZ) t of (count, t) \<Rightarrow>
            if count \<noteq> entry_sz t then (-1, t) else (int count, t))))"

definition update_record :: "nat \<Rightarrow> nat \<Rightarrow> u16 \<Rightarrow> u8 list \<Rightarrow> disk_tb \<Rightarrow> int \<times> disk_tb" where
  "update_record entry_file_idx idx_in_file val16 data t = (
     let released = (val16 AND DISK_TB_EMPTY_ENTRY \<noteq> 0);
         val16 = (if released then val16 AND NOT DISK_TB_EMPTY_ENTRY else val16) in
     (case (if released then pwrite_fd entry_file_idx (u16_bytes val16) (idx_in_file * 2) t else (DISK_TB_HEADER_SZ, t)) of (count, t) \<Rightarrow>
       if count \<noteq> DISK_TB_HEADER_SZ then (-1, t)
       else (case pwrite_fd entry_file_idx data (unat val16 * entry_sz t + DISK_TB_HEADER_SZ) t of (count, t) \<Rightarrow>
         if count \<noteq> entry_sz t then (-1, t) else (int count, t))))"

partial_function (option) recreate :: "nat \<Rightarrow> nat \<Rightarrow> u8 list \<Rightarrow> disk_tb \<Rightarrow> (int \<times> disk_tb) option" where
  "recreate entry_file_idx idx_in_file data t = do {
     ret \<leftarrow> disk_tb_check_file_idx_bit entry_file_idx t;
     if \<not> ret then write_new_file entry_file_idx idx_in_file data t
     else case open_fd entry_file_idx False t of
       (Enoent, t) \<Rightarrow> do { t \<leftarrow> disk_tb_file_bitmap_update entry_file_idx False t; recreate entry_file_idx idx_in_file data t }
     | (Failed, t) \<Rightarrow> Some (-1, t)
     | (Opened, t) \<Rightarrow> (case pread_fd entry_file_idx 2 (idx_in_file * 2) t of (v, t) \<Rightarrow>
         if length v \<noteq> 2 then Some (-1, t)
         else let val16 = bytes_u16 v in
           if val16 = 0xffff then Some (append_record entry_file_idx idx_in_file data t)
           else Some (update_record entry_file_idx idx_in_file val16 data t)) }"

declare recreate.simps [code]

definition disk_tb_write_entry :: "nat \<Rightarrow> u8 list \<Rightarrow> disk_tb \<Rightarrow> (int \<times> disk_tb) option" where
  "disk_tb_write_entry entry_id data t = (
     let entry_file_idx = entry_id div DISK_TABLE_MAX_ENTRY_PER_FILE;
         idx_in_file = entry_id mod DISK_TABLE_MAX_ENTRY_PER_FILE in
     if entry_file_idx \<ge> DISK_MAX_IDX_FOR_FILE_ID t then Some (-1, t)
     else recreate entry_file_idx idx_in_file data t)"

subsection \<open>Listing of a table\<close>

partial_function (option) disk_tb_get_next_file_entry :: "nat \<Rightarrow> nat \<Rightarrow> disk_tb \<Rightarrow> (int \<times> nat \<times> disk_tb) option" where
  "disk_tb_get_next_file_entry file_idx_next entry_file_idx t =
     (if entry_file_idx < DISK_MAX_IDX_FOR_FILE_ID t
      then do {
        ret \<leftarrow> disk_tb_check_file_idx_bit entry_file_idx t;
        if \<not> ret then disk_tb_get_next_file_entry file_idx_next (entry_file_idx + 1) t
        else case open_fd entry_file_idx False t of
          (Enoent, t) \<Rightarrow> do {
            t \<leftarrow> disk_tb_file_bitmap_update entry_file_idx False t;
            disk_tb_get_next_file_entry file_idx_next (entry_file_idx + 1) t }
        | (Failed, t) \<Rightarrow> disk_tb_get_next_file_entry file_idx_next (entry_file_idx + 1) t
        | (Opened, t) \<Rightarrow> Some (int entry_file_idx, entry_file_idx + 1, t) }
      else Some (-1, file_idx_next, t))"

definition disk_tb_get_nb_records :: "nat \<Rightarrow> disk_tb \<Rightarrow> (int \<times> disk_tb) option" where
  "disk_tb_get_nb_records entry_file_idx t =
     (case open_fd entry_file_idx False t of
        (Enoent, t) \<Rightarrow> do { t \<leftarrow> disk_tb_file_bitmap_update entry_file_idx False t; Some (-1, t) }
      | (Failed, t) \<Rightarrow> Some (-1, t)
      | (Opened, t) \<Rightarrow> (case next_io t of (r, t) \<Rightarrow>
          let st_size = length (contents t entry_file_idx); my_size = st_size - DISK_TB_HEADER_SZ in
          if r \<noteq> None then Some (-1, t)
          else if st_size < DISK_TB_HEADER_SZ then Some (-1, t)
          else if my_size mod entry_sz t \<noteq> 0 then Some (-1, t)
          else Some (int (my_size div entry_sz t), t)))"

definition disk_tb_get_next_record :: "nat \<Rightarrow> nat \<Rightarrow> u8 list \<Rightarrow> disk_tb \<Rightarrow> int \<times> u8 list \<times> disk_tb" where
  "disk_tb_get_next_record record_id fd data t =
     (case pread_fd fd (entry_sz t) (record_id * entry_sz t + DISK_TB_HEADER_SZ) t of (d, t) \<Rightarrow>
       let data = d @ drop (length d) data in
       if length d = 0 then (0, data, t)
       else if length d \<noteq> entry_sz t then (-1, data, t)
       else (int (length d), data, t))"


section \<open>Files as bytes\<close>

lemma file_pread_self [simp]: "file_pread f count off = [] \<longleftrightarrow> count = 0 \<or> length f \<le> off"
  by (auto simp: file_pread_def)

lemma length_file_pread [simp]: "length (file_pread f count off) = min count (length f - off)"
  by (simp add: file_pread_def)

lemma length_file_pwrite: "d \<noteq> [] \<Longrightarrow> length (file_pwrite f d off) = max (length f) (off + length d)"
  by (auto simp: file_pwrite_def)

lemma file_pread_pwrite_same [simp]: "file_pread (file_pwrite f d off) (length d) off = d"
  by (cases "d = []") (auto simp: file_pread_def file_pwrite_def)

lemma file_pread_nth: "i < min count (length f - off) \<Longrightarrow> file_pread f count off ! i = f ! (off + i)"
  by (auto simp: file_pread_def less_diff_conv)

lemma file_pwrite_nth:
  assumes "i < length f" "i < off \<or> off + length d \<le> i"
  shows "file_pwrite f d off ! i = f ! i"
proof (cases "d = []")
  case False
  then show ?thesis using assms by (auto simp: file_pwrite_def nth_append)
qed (simp add: file_pwrite_def)

lemma file_pread_pwrite_other:
  assumes "off' + count \<le> length f" "off' + count \<le> off \<or> off + length d \<le> off'"
  shows "file_pread (file_pwrite f d off) count off' = file_pread f count off'"
proof (rule nth_equalityI)
  have l: "length f \<le> length (file_pwrite f d off)" by (cases "d = []") (simp_all add: length_file_pwrite file_pwrite_def)
  then show "length (file_pread (file_pwrite f d off) count off') = length (file_pread f count off')" using assms(1) by simp
  fix i assume "i < length (file_pread (file_pwrite f d off) count off')"
  then show "file_pread (file_pwrite f d off) count off' ! i = file_pread f count off' ! i"
    using assms l file_pwrite_nth[of "off' + i" f off d] by (auto simp: file_pread_nth)
qed

lemma bytes_u16_u16_bytes [simp]: "bytes_u16 (u16_bytes w) = w"
  by (rule bit_word_eqI) (auto simp: bytes_u16_def u16_bytes_def bit_simps)

lemma length_u16_bytes [simp]: "length (u16_bytes w) = 2"
  by (simp add: u16_bytes_def)

subsection \<open>A file of a table\<close>

abbreviation header_cells :: "nat set" where "header_cells \<equiv> {..<DISK_TABLE_MAX_ENTRY_PER_FILE}"

definition cell :: "u8 list \<Rightarrow> nat \<Rightarrow> u16" where
  "cell f i = bytes_u16 (file_pread f 2 (i * 2))"

definition allocated :: "u8 list \<Rightarrow> nat set" where
  "allocated f = {i \<in> header_cells. cell f i \<noteq> 0xffff}"

definition record_at :: "nat \<Rightarrow> u8 list \<Rightarrow> nat \<Rightarrow> u8 list" where
  "record_at sz f p = file_pread f sz (p * sz + DISK_TB_HEADER_SZ)"

text \<open>The records of the header's cells are the records of the file, each once.\<close>

definition file_ok :: "nat \<Rightarrow> nat \<Rightarrow> u8 list \<Rightarrow> bool" where
  "file_ok sz n f \<longleftrightarrow> length f = DISK_TB_HEADER_SZ + n * sz \<and> bij_betw (\<lambda>i. unat (cell f i)) (allocated f) {..<n}"

definition file_map :: "nat \<Rightarrow> u8 list \<Rightarrow> nat \<Rightarrow> u8 list option" where
  "file_map sz f i = (if i \<in> allocated f then Some (record_at sz f (unat (cell f i))) else None)"

lemma finite_allocated [simp]: "finite (allocated f)"
  by (simp add: allocated_def)

lemma file_ok_card: "file_ok sz n f \<Longrightarrow> card (allocated f) = n"
  unfolding file_ok_def using bij_betw_same_card by fastforce

lemma file_ok_le: "file_ok sz n f \<Longrightarrow> n \<le> DISK_TABLE_MAX_ENTRY_PER_FILE"
  using file_ok_card[of sz n f] card_mono[of header_cells "allocated f"] by (auto simp: allocated_def)

lemma file_ok_room:
  assumes "file_ok sz n f" "i \<in> header_cells" "i \<notin> allocated f"
  shows "n < DISK_TABLE_MAX_ENTRY_PER_FILE"
  using file_ok_card[OF assms(1)] psubset_card_mono[of header_cells "allocated f"] assms(2,3) by (auto simp: allocated_def)

lemma file_ok_cell: "file_ok sz n f \<Longrightarrow> i \<in> allocated f \<Longrightarrow> unat (cell f i) < n"
  by (auto simp: file_ok_def bij_betw_def)

lemma small_cell:
  assumes "unat w < DISK_TABLE_MAX_ENTRY_PER_FILE"
  shows "w AND DISK_TB_EMPTY_ENTRY = 0" "w \<noteq> 0xffff"
proof -
  have "\<not> bit (unat w) 15" using assms by (simp add: bit_iff_odd DISK_TABLE_MAX_ENTRY_PER_FILE_def)
  then have "\<not> bit w 15" by (simp add: bit_unsigned_iff)
  moreover have "DISK_TB_EMPTY_ENTRY = 2 ^ 15" by (simp add: DISK_TB_EMPTY_ENTRY_def)
  then have "bit DISK_TB_EMPTY_ENTRY j \<Longrightarrow> j = 15" for j by (metis bit_exp_iff)
  ultimately show "w AND DISK_TB_EMPTY_ENTRY = 0" by (auto intro!: bit_word_eqI simp: bit_and_iff)
  show "w \<noteq> 0xffff"
  proof
    assume "w = 0xffff"
    then have "unat w = unat (0xffff :: u16)" by (rule arg_cong)
    then show False using assms by (simp add: DISK_TABLE_MAX_ENTRY_PER_FILE_def)
  qed
qed

lemma file_ok_not_empty: "file_ok sz n f \<Longrightarrow> i \<in> allocated f \<Longrightarrow> cell f i AND DISK_TB_EMPTY_ENTRY = 0"
  by (meson file_ok_cell file_ok_le less_le_trans small_cell(1))

lemma header_fits: "i \<in> header_cells \<Longrightarrow> i * 2 + 2 \<le> DISK_TB_HEADER_SZ"
  by (simp add: DISK_TB_HEADER_SZ_def)

lemma cell_pwrite_data: "i \<in> header_cells \<Longrightarrow> DISK_TB_HEADER_SZ \<le> length f \<Longrightarrow> DISK_TB_HEADER_SZ \<le> off \<Longrightarrow> cell (file_pwrite f d off) i = cell f i"
  unfolding cell_def using header_fits[of i] by (subst file_pread_pwrite_other) auto

lemma cell_pwrite_cell:
  assumes "i \<in> header_cells" "j \<in> header_cells" "DISK_TB_HEADER_SZ \<le> length f"
  shows "cell (file_pwrite f (u16_bytes w) (i * 2)) j = (if i = j then w else cell f j)"
proof (cases "i = j")
  case True
  then show ?thesis using file_pread_pwrite_same[of f "u16_bytes w" "i * 2"] by (simp add: cell_def)
next
  case False
  have "j * 2 + 2 \<le> i * 2 \<or> i * 2 + 2 \<le> j * 2" using False by linarith
  then show ?thesis unfolding cell_def using False header_fits[OF assms(2)] assms(3) by (subst file_pread_pwrite_other) auto
qed

lemma record_fits: "p < n \<Longrightarrow> p * sz + sz \<le> n * sz" for p n sz :: nat
  by (metis add.commute less_eq_Suc_le mult_Suc mult_le_mono1)

lemma record_pwrite_cell:
  "i \<in> header_cells \<Longrightarrow> length f = DISK_TB_HEADER_SZ + n * sz \<Longrightarrow> p < n \<Longrightarrow> record_at sz (file_pwrite f (u16_bytes w) (i * 2)) p = record_at sz f p"
  unfolding record_at_def using header_fits[of i] record_fits[of p n sz] by (subst file_pread_pwrite_other) auto

lemma record_pwrite_other:
  assumes "length d = sz" "length f = DISK_TB_HEADER_SZ + n * sz" "p < n" "p \<noteq> q"
  shows "record_at sz (file_pwrite f d (q * sz + DISK_TB_HEADER_SZ)) p = record_at sz f p"
proof -
  have "p * sz + sz \<le> q * sz \<or> q * sz + sz \<le> p * sz" using assms(4) record_fits[of p q sz] record_fits[of q p sz] by linarith
  then show ?thesis unfolding record_at_def using assms record_fits[of p n sz] by (subst file_pread_pwrite_other) auto
qed

lemma record_pwrite_same: "length d = sz \<Longrightarrow> record_at sz (file_pwrite f d (q * sz + DISK_TB_HEADER_SZ)) q = d"
  unfolding record_at_def using file_pread_pwrite_same by blast

lemma file_update:
  assumes ok: "file_ok sz n f" and i: "i \<in> allocated f" and d: "length d = sz" "0 < sz"
  defines "g \<equiv> file_pwrite f d (unat (cell f i) * sz + DISK_TB_HEADER_SZ)"
  shows "file_ok sz n g" "file_map sz g = (file_map sz f)(i \<mapsto> d)"
proof -
  have f: "length f = DISK_TB_HEADER_SZ + n * sz" and b: "bij_betw (\<lambda>i. unat (cell f i)) (allocated f) {..<n}" using ok by (simp_all add: file_ok_def)
  have c: "cell g j = cell f j" if "j \<in> header_cells" for j unfolding g_def using that f by (intro cell_pwrite_data) auto
  then have a: "allocated g = allocated f" by (auto simp: allocated_def)
  have p: "unat (cell f i) < n" by (rule file_ok_cell[OF ok i])
  have "length g = length f" unfolding g_def using d f record_fits[OF p, of sz] by (subst length_file_pwrite) auto
  moreover have "bij_betw (\<lambda>j. unat (cell g j)) (allocated g) {..<n}"
    using b unfolding a by (rule bij_betw_cong[THEN iffD1, rotated]) (simp add: c allocated_def)
  ultimately show "file_ok sz n g" using f by (simp add: file_ok_def)
  have "record_at sz g (unat (cell f j)) = record_at sz f (unat (cell f j))" if "j \<in> allocated f" "j \<noteq> i" for j
  proof -
    have "unat (cell f j) \<noteq> unat (cell f i)" using b that i by (auto simp: bij_betw_def inj_on_def)
    then show ?thesis unfolding g_def by (rule record_pwrite_other[OF d(1) f file_ok_cell[OF ok that(1)]])
  qed
  moreover have "record_at sz g (unat (cell f i)) = d" unfolding g_def by (rule record_pwrite_same[OF d(1)])
  ultimately show "file_map sz g = (file_map sz f)(i \<mapsto> d)" using a c i by (auto simp: file_map_def fun_eq_iff allocated_def)
qed

lemma file_append:
  assumes ok: "file_ok sz n f" and i: "i \<in> header_cells" "i \<notin> allocated f" and d: "length d = sz" "0 < sz"
  defines "g \<equiv> file_pwrite (file_pwrite f (u16_bytes (of_nat n)) (i * 2)) d (n * sz + DISK_TB_HEADER_SZ)"
  shows "file_ok sz (Suc n) g" "file_map sz g = (file_map sz f)(i \<mapsto> d)"
proof -
  let ?f = "file_pwrite f (u16_bytes (of_nat n)) (i * 2)"
  have f: "length f = DISK_TB_HEADER_SZ + n * sz" and b: "bij_betw (\<lambda>i. unat (cell f i)) (allocated f) {..<n}" using ok by (simp_all add: file_ok_def)
  have ne: "u16_bytes w \<noteq> []" for w by (simp add: u16_bytes_def)
  have lf: "length ?f = length f" using header_fits[OF i(1)] f by (simp add: length_file_pwrite[OF ne])
  have n: "n < 2048" using file_ok_room[OF ok i] by (simp add: DISK_TABLE_MAX_ENTRY_PER_FILE_def)
  have un: "unat (of_nat n :: u16) = n" using n by (simp add: unat_of_nat)
  have nf: "(of_nat n :: u16) \<noteq> 0xffff" using small_cell(2)[of "of_nat n"] file_ok_room[OF ok i] un by simp
  have c: "cell g j = (if j = i then of_nat n else cell f j)" if "j \<in> header_cells" for j
    unfolding g_def using cell_pwrite_data[OF that] cell_pwrite_cell[OF i(1) that] f lf by auto
  then have a: "allocated g = insert i (allocated f)" using nf i(1) by (auto simp: allocated_def split: if_splits)
  have lg: "length g = DISK_TB_HEADER_SZ + Suc n * sz" unfolding g_def using d f lf by (subst length_file_pwrite) auto
  have "bij_betw (\<lambda>j. unat (cell g j)) (allocated f) {..<n}"
    using b by (rule bij_betw_cong[THEN iffD1, rotated]) (use c i in \<open>auto simp: allocated_def\<close>)
  then have "bij_betw (\<lambda>j. unat (cell g j)) (insert i (allocated f)) (insert n {..<n})"
    using c[OF i(1)] un i(2) notIn_Un_bij_betw[of i "allocated f" "\<lambda>j. unat (cell g j)" "{..<n}"] by simp
  then show "file_ok sz (Suc n) g" using lg a by (simp add: file_ok_def lessThan_Suc)
  have "record_at sz g (unat (cell f j)) = record_at sz f (unat (cell f j))" if "j \<in> allocated f" for j
  proof -
    have p: "unat (cell f j) < n" by (rule file_ok_cell[OF ok that])
    then show ?thesis unfolding g_def
      using record_pwrite_other[OF d(1), of ?f n "unat (cell f j)" n] record_pwrite_cell[OF i(1) f p] lf f by simp
  qed
  moreover have "record_at sz g n = d" unfolding g_def by (rule record_pwrite_same[OF d(1)])
  ultimately show "file_map sz g = (file_map sz f)(i \<mapsto> d)" using a c i un by (auto simp: file_map_def fun_eq_iff allocated_def)
qed


definition new_file :: "nat \<Rightarrow> u8 list \<Rightarrow> u8 list" where
  "new_file c d = file_pwrite (file_pwrite [] ((replicate DISK_TB_HEADER_SZ 0xff)[2 * c := 0, 2 * c + 1 := 0]) 0) d DISK_TB_HEADER_SZ"

lemma file_new:
  assumes i: "i \<in> header_cells" and d: "length d = sz" "0 < sz"
  defines "g \<equiv> new_file i d"
  shows "file_ok sz 1 g" "file_map sz g = [i \<mapsto> d]"
proof -
  let ?h = "(replicate DISK_TB_HEADER_SZ (0xff :: u8))[2 * i := 0, 2 * i + 1 := 0]"
  have pos: "0 < DISK_TB_HEADER_SZ" by (simp add: DISK_TB_HEADER_SZ_def DISK_TABLE_MAX_ENTRY_PER_FILE_def)
  then have ne: "?h \<noteq> []" by simp
  have h: "file_pwrite [] ?h 0 = ?h" by (simp add: file_pwrite_def)
  have ch: "cell ?h j = (if j = i then 0 else 0xffff)" if "j \<in> header_cells" for j
  proof -
    have "file_pread ?h 2 (j * 2) = [?h ! (j * 2), ?h ! (j * 2 + 1)]"
      using header_fits[OF that] by (intro nth_equalityI) (auto simp: file_pread_nth less_Suc_eq numeral_2_eq_2)
    moreover have "?h ! (j * 2) = (if j = i then 0 else 0xff)" "?h ! (j * 2 + 1) = (if j = i then 0 else 0xff)"
      using header_fits[OF that] by (auto simp: nth_list_update)
    ultimately show ?thesis by (simp add: cell_def bytes_u16_def)
  qed
  have c: "cell g j = (if j = i then 0 else 0xffff)" if "j \<in> header_cells" for j
    unfolding g_def new_file_def h using cell_pwrite_data[OF that] ch[OF that] by simp
  then have a: "allocated g = {i}" using i by (auto simp: allocated_def split: if_splits)
  have "length g = DISK_TB_HEADER_SZ + 1 * sz" unfolding g_def new_file_def h using d by (subst length_file_pwrite) auto
  then show "file_ok sz 1 g" using a c[OF i] by (auto simp: file_ok_def bij_betw_def)
  have "record_at sz g 0 = d" unfolding g_def new_file_def using record_pwrite_same[OF d(1), of _ 0] by simp
  then show "file_map sz g = [i \<mapsto> d]" using a c[OF i] by (auto simp: file_map_def fun_eq_iff)
qed

section \<open>The bitmap\<close>

definition bm_bit :: "u8 list \<Rightarrow> nat \<Rightarrow> bool" where
  "bm_bit bm i = bit (bm ! (i div 8)) (i mod 8)"

lemma check_bit:
  "length (bitmap t) = bitmap_size t \<Longrightarrow> i < DISK_MAX_IDX_FOR_FILE_ID t \<Longrightarrow> disk_tb_check_file_idx_bit i t = Some (bm_bit (bitmap t) i)"
  by (simp add: disk_tb_check_file_idx_bit_def DISK_MAX_IDX_FOR_FILE_ID_def arr_get_in bm_bit_def and_exp_eq_0_iff_not_bit nat_div_distrib)

lemma bm_bit_update:
  assumes "i div 8 < length bm"
  shows "bm_bit (bm[i div 8 := bm ! (i div 8) OR 2 ^ (i mod 8)]) j \<longleftrightarrow> j = i \<or> bm_bit bm j"
    "bm_bit (bm[i div 8 := bm ! (i div 8) AND NOT (2 ^ (i mod 8))]) j \<longleftrightarrow> j \<noteq> i \<and> bm_bit bm j"
proof -
  have "j = i \<longleftrightarrow> j div 8 = i div 8 \<and> j mod 8 = i mod 8" by (metis mult_div_mod_eq)
  then show "bm_bit (bm[i div 8 := bm ! (i div 8) OR 2 ^ (i mod 8)]) j \<longleftrightarrow> j = i \<or> bm_bit bm j"
    "bm_bit (bm[i div 8 := bm ! (i div 8) AND NOT (2 ^ (i mod 8))]) j \<longleftrightarrow> j \<noteq> i \<and> bm_bit bm j"
    using assms by (auto simp: bm_bit_def nth_list_update bit_simps)
qed

lemma update_set:
  assumes "length (bitmap t) = bitmap_size t" "i < DISK_MAX_IDX_FOR_FILE_ID t" "\<not> bm_bit (bitmap t) i"
  obtains bm where "disk_tb_file_bitmap_update i True t = Some (t\<lparr>bitmap := bm, dirty := True\<rparr>)" "length bm = length (bitmap t)"
    "\<And>j. bm_bit bm j \<longleftrightarrow> j = i \<or> bm_bit (bitmap t) j"
proof -
  have i: "i div 8 < length (bitmap t)" using assms(1,2) by (simp add: DISK_MAX_IDX_FOR_FILE_ID_def) 
  show thesis
    by (rule that[of "(bitmap t)[i div 8 := bitmap t ! (i div 8) OR 2 ^ (i mod 8)]"])
      (use assms i in \<open>simp_all add: disk_tb_file_bitmap_update_def DISK_MAX_IDX_FOR_FILE_ID_def arr_get_in arr_set_in bm_bit_update(1) and_exp_eq_0_iff_not_bit nat_div_distrib bm_bit_def[of "bitmap t" i]\<close>)
qed

lemma update_clear:
  assumes "length (bitmap t) = bitmap_size t" "i < DISK_MAX_IDX_FOR_FILE_ID t" "bm_bit (bitmap t) i"
  obtains bm where "disk_tb_file_bitmap_update i False t = Some (t\<lparr>bitmap := bm, dirty := True\<rparr>)" "length bm = length (bitmap t)"
    "\<And>j. bm_bit bm j \<longleftrightarrow> j \<noteq> i \<and> bm_bit (bitmap t) j"
proof -
  have i: "i div 8 < length (bitmap t)" using assms(1,2) by (simp add: DISK_MAX_IDX_FOR_FILE_ID_def)
  show thesis
    by (rule that[of "(bitmap t)[i div 8 := bitmap t ! (i div 8) AND NOT (2 ^ (i mod 8))]"])
      (use assms i in \<open>simp_all add: disk_tb_file_bitmap_update_def DISK_MAX_IDX_FOR_FILE_ID_def arr_get_in arr_set_in bm_bit_update(2) and_exp_eq_0_iff_not_bit nat_div_distrib bm_bit_def[of "bitmap t" i]\<close>)
qed


section \<open>A table is a map\<close>

text \<open>
  In a good table every file is in the bitmap, in memory and on disk, and no failure is to come.
\<close>

definition tb_ok :: "nat \<Rightarrow> nat \<Rightarrow> disk_tb \<Rightarrow> bool" where
  "tb_ok sz k t \<longleftrightarrow> entry_sz t = sz \<and> 0 < sz \<and> bitmap_size t = 2 ^ k \<and> length (bitmap t) = 2 ^ k \<and> tb_io t = []
     \<and> (\<forall>b. tb_btmap t = Some b \<longrightarrow> length b = 2 ^ k)
     \<and> (\<forall>i f. tb_files t i = Some f \<longrightarrow> i < 2 ^ k * 8 \<and> (\<exists>n. file_ok sz n f) \<and> bm_bit (bitmap t) i \<and> (\<exists>b. tb_btmap t = Some b \<and> bm_bit b i))"

definition tb_map :: "disk_tb \<Rightarrow> nat \<Rightarrow> u8 list option" where
  "tb_map t eid = (case tb_files t (eid div DISK_TABLE_MAX_ENTRY_PER_FILE) of None \<Rightarrow> None
     | Some f \<Rightarrow> file_map (entry_sz t) f (eid mod DISK_TABLE_MAX_ENTRY_PER_FILE))"

definition tb_capacity :: "nat \<Rightarrow> nat" where
  "tb_capacity k = 2 ^ k * 8 * DISK_TABLE_MAX_ENTRY_PER_FILE"

lemma next_io_nil [simp]: "tb_io t = [] \<Longrightarrow> next_io t = (None, t)"
  by (simp add: next_io_def)

lemma transferred_None [simp]: "transferred None d = d"
  by (simp add: transferred_def)

lemma max_entry_pos [simp]: "0 < DISK_TABLE_MAX_ENTRY_PER_FILE"
  by (simp add: DISK_TABLE_MAX_ENTRY_PER_FILE_def)

lemma in_capacity: "eid < tb_capacity k \<longleftrightarrow> eid div DISK_TABLE_MAX_ENTRY_PER_FILE < 2 ^ k * 8"
  by (simp add: tb_capacity_def div_less_iff_less_mult)

lemma tb_map_upd_file:
  assumes "file_map sz g = m(eid mod DISK_TABLE_MAX_ENTRY_PER_FILE \<mapsto> d)" "entry_sz t = sz" "entry_sz t' = sz"
    "tb_files t' = (tb_files t)(eid div DISK_TABLE_MAX_ENTRY_PER_FILE \<mapsto> g)"
    "(case tb_files t (eid div DISK_TABLE_MAX_ENTRY_PER_FILE) of None \<Rightarrow> Map.empty | Some f \<Rightarrow> file_map sz f) = m"
  shows "tb_map t' = (tb_map t)(eid \<mapsto> d)"
proof
  fix j
  have "j = eid \<longleftrightarrow> j div DISK_TABLE_MAX_ENTRY_PER_FILE = eid div DISK_TABLE_MAX_ENTRY_PER_FILE \<and> j mod DISK_TABLE_MAX_ENTRY_PER_FILE = eid mod DISK_TABLE_MAX_ENTRY_PER_FILE"
    by (metis mult_div_mod_eq)
  then show "tb_map t' j = ((tb_map t)(eid \<mapsto> d)) j"
    using assms by (auto simp: tb_map_def fun_eq_iff split: option.splits)
qed

lemma tb_ok_file:
  assumes "tb_ok sz k t" "tb_files t i = Some f"
  obtains n where "file_ok sz n f" "i < 2 ^ k * 8" "bm_bit (bitmap t) i"
  using assms unfolding tb_ok_def by blast

lemma read_entry_ok:
  assumes ok: "tb_ok sz k t" and eid: "eid < tb_capacity k"
  shows "\<exists>t'. disk_tb_read_entry eid data t = Some (case tb_map t eid of None \<Rightarrow> 0 | Some d \<Rightarrow> int sz,
      case tb_map t eid of None \<Rightarrow> data | Some d \<Rightarrow> d @ drop sz data, t') \<and> tb_ok sz k t' \<and> tb_map t' = tb_map t"
proof -
  let ?i = "eid div DISK_TABLE_MAX_ENTRY_PER_FILE" and ?c = "eid mod DISK_TABLE_MAX_ENTRY_PER_FILE"
  have i: "?i < DISK_MAX_IDX_FOR_FILE_ID t" and bm: "length (bitmap t) = bitmap_size t"
    using ok eid by (simp_all add: tb_ok_def DISK_MAX_IDX_FOR_FILE_ID_def in_capacity)
  have c: "?c \<in> header_cells" by simp
  show ?thesis
  proof (cases "tb_files t ?i")
    case None
    show ?thesis
    proof (cases "bm_bit (bitmap t) ?i")
      case True
      obtain bm' where u: "disk_tb_file_bitmap_update ?i False t = Some (t\<lparr>bitmap := bm', dirty := True\<rparr>)" "length bm' = length (bitmap t)"
        "\<And>j. bm_bit bm' j \<longleftrightarrow> j \<noteq> ?i \<and> bm_bit (bitmap t) j" using update_clear[OF bm i True] by blast
      have "disk_tb_read_entry eid data t = Some (0, data, t\<lparr>bitmap := bm', dirty := True\<rparr>)"
        using i check_bit[OF bm i] True None ok u(1) by (simp add: disk_tb_read_entry_def Let_def open_fd_def tb_ok_def)
      moreover have "tb_ok sz k (t\<lparr>bitmap := bm', dirty := True\<rparr>)" using ok u None by (fastforce simp: tb_ok_def)
      ultimately show ?thesis using None by (auto simp: tb_map_def fun_eq_iff split: option.splits)
    next
      case False
      then have "disk_tb_read_entry eid data t = Some (0, data, t)" using i check_bit[OF bm i] by (simp add: disk_tb_read_entry_def Let_def)
      then show ?thesis using None ok by (simp add: tb_map_def)
    qed
  next
    case (Some f)
    with tb_ok_file[OF ok] obtain n where f: "file_ok sz n f" and b: "bm_bit (bitmap t) ?i" by blast
    have io: "tb_io t = []" "entry_sz t = sz" "contents t ?i = f" using ok Some by (simp_all add: tb_ok_def contents_def)
    have l2: "length (file_pread f 2 (?c * 2)) = 2" using f header_fits[OF c] by (simp add: file_ok_def)
    have rd: "disk_tb_read_entry eid data t = (if cell f ?c = 0xffff \<or> cell f ?c AND DISK_TB_EMPTY_ENTRY \<noteq> 0 then Some (0, data, t)
       else let d = record_at sz f (unat (cell f ?c)) in
         if length d \<noteq> sz then Some (-1, d @ drop (length d) data, t) else Some (int (length d), d @ drop (length d) data, t))"
      using i check_bit[OF bm i] b Some io l2 by (simp add: disk_tb_read_entry_def Let_def open_fd_def pread_fd_def cell_def record_at_def del: length_file_pread)
    show ?thesis
    proof (cases "?c \<in> allocated f")
      case True
      then have "cell f ?c AND DISK_TB_EMPTY_ENTRY = 0" "cell f ?c \<noteq> 0xffff" using file_ok_not_empty[OF f] by (simp_all add: allocated_def)
      moreover have "length (record_at sz f (unat (cell f ?c))) = sz"
        using f file_ok_cell[OF f True] record_fits[of "unat (cell f ?c)" n sz] by (simp add: record_at_def file_ok_def)
      ultimately show ?thesis using rd True Some ok io by (simp add: tb_map_def file_map_def)
    next
      case False
      then have "cell f ?c = 0xffff" using c by (simp add: allocated_def)
      then show ?thesis using rd False Some ok io by (simp add: tb_map_def file_map_def)
    qed
  qed
qed


lemma pwrite_ok: "tb_io t = [] \<Longrightarrow> pwrite_fd i d off t = (length d, t\<lparr>tb_files := (tb_files t)(i \<mapsto> file_pwrite (contents t i) d off)\<rparr>)"
  by (simp add: pwrite_fd_def Let_def)

lemma tb_ok_write:
  assumes "tb_ok sz k t" "tb_files t i = Some f" "file_ok sz n g"
  shows "tb_ok sz k (t\<lparr>tb_files := (tb_files t)(i \<mapsto> g)\<rparr>)"
  using assms by (fastforce simp: tb_ok_def)

lemma append_record_ok:
  assumes ok: "tb_ok sz k t" and f: "tb_files t i = Some f" "file_ok sz n f" and c: "c \<in> header_cells" "c \<notin> allocated f" and d: "length d = sz"
  shows "append_record i c d t = (int sz, t\<lparr>tb_files := (tb_files t)(i \<mapsto> file_pwrite (file_pwrite f (u16_bytes (of_nat n)) (c * 2)) d (n * sz + DISK_TB_HEADER_SZ))\<rparr>)"
proof -
  have t: "tb_io t = []" "entry_sz t = sz" "0 < sz" using ok by (simp_all add: tb_ok_def)
  have l: "length f = DISK_TB_HEADER_SZ + n * sz" using f(2) by (simp add: file_ok_def)
  have "n < DISK_TABLE_MAX_ENTRY_PER_FILE" by (rule file_ok_room[OF f(2) c])
  then show ?thesis using t l f(1) d by (simp add: append_record_def Let_def pwrite_ok contents_def)
qed

lemma update_record_ok:
  assumes ok: "tb_ok sz k t" and f: "tb_files t i = Some f" "file_ok sz n f" "c \<in> allocated f" and d: "length d = sz"
  shows "update_record i c (cell f c) d t = (int sz, t\<lparr>tb_files := (tb_files t)(i \<mapsto> file_pwrite f d (unat (cell f c) * sz + DISK_TB_HEADER_SZ))\<rparr>)"
  using ok f(1) d file_ok_not_empty[OF f(2,3)] by (simp add: update_record_def Let_def pwrite_ok contents_def tb_ok_def)

lemma write_new_ok:
  assumes ok: "tb_ok sz k t" and i: "i < 2 ^ k * 8" "tb_files t i = None" "\<not> bm_bit (bitmap t) i" and d: "length d = sz" and c: "c \<in> header_cells"
  shows "\<exists>t'. write_new_file i c d t = Some (int sz, t') \<and> tb_ok sz k t' \<and> tb_files t' = (tb_files t)(i \<mapsto> new_file c d)"
proof -
  let ?g = "new_file c d"
  have t: "tb_io t = []" "entry_sz t = sz" "0 < sz" "length (bitmap t) = bitmap_size t" "bitmap_size t = 2 ^ k" using ok by (simp_all add: tb_ok_def)
  let ?t = "t\<lparr>tb_files := (tb_files t)(i \<mapsto> ?g)\<rparr>"
  obtain bm where bm: "disk_tb_file_bitmap_update i True ?t = Some (?t\<lparr>bitmap := bm, dirty := True\<rparr>)" "length bm = 2 ^ k"
    "\<And>j. bm_bit bm j \<longleftrightarrow> j = i \<or> bm_bit (bitmap t) j" using update_set[of ?t i] t i by (auto simp: DISK_MAX_IDX_FOR_FILE_ID_def)
  let ?t' = "?t\<lparr>bitmap := bm, dirty := False, tb_btmap := Some (file_pwrite (case tb_btmap t of None \<Rightarrow> [] | Some f \<Rightarrow> f) bm 0)\<rparr>"
  have ne: "bm \<noteq> []" using bm(2) by auto
  have "file_pwrite (case tb_btmap t of None \<Rightarrow> [] | Some f \<Rightarrow> f) bm 0 = bm"
    using ok bm(2) ne by (auto simp: file_pwrite_def tb_ok_def split: option.splits)
  then have "tb_ok sz k ?t'" using ok bm file_new(1)[OF c d t(3)] i(1) by (fastforce simp: tb_ok_def)
  moreover
  have nf: "file_pwrite (file_pwrite [] ((replicate DISK_TB_HEADER_SZ 0xff)[2 * c := 0, Suc (2 * c) := 0]) 0) d DISK_TB_HEADER_SZ = ?g"
    by (simp add: new_file_def)
  have "write_new_file i c d t = Some (int sz, ?t')"
    using t i(2) bm d by (simp add: write_new_file_def open_fd_def memalign_def Let_def pwrite_ok contents_def disk_tb_bitmap_flush_def nf)
  ultimately show ?thesis by auto
qed


lemma recreate_new:
  assumes ok: "tb_ok sz k t" and i: "i < 2 ^ k * 8" "tb_files t i = None" and d: "length d = sz" and c: "c \<in> header_cells"
  shows "\<exists>t'. recreate i c d t = Some (int sz, t') \<and> tb_ok sz k t' \<and> tb_files t' = (tb_files t)(i \<mapsto> new_file c d)"
proof -
  have max: "i < DISK_MAX_IDX_FOR_FILE_ID t" and bm: "length (bitmap t) = bitmap_size t" and io: "tb_io t = []"
    using ok i by (simp_all add: tb_ok_def DISK_MAX_IDX_FOR_FILE_ID_def)
  have new: "recreate i c d u = write_new_file i c d u"
    if "length (bitmap u) = bitmap_size u" "i < DISK_MAX_IDX_FOR_FILE_ID u" "\<not> bm_bit (bitmap u) i" for u
    using check_bit[OF that(1,2)] that(3) by (simp add: recreate.simps)
  show ?thesis
  proof (cases "bm_bit (bitmap t) i")
    case True
    obtain bm' where u: "disk_tb_file_bitmap_update i False t = Some (t\<lparr>bitmap := bm', dirty := True\<rparr>)" "length bm' = length (bitmap t)"
      "\<And>j. bm_bit bm' j \<longleftrightarrow> j \<noteq> i \<and> bm_bit (bitmap t) j" using update_clear[OF bm max True] by blast
    let ?t = "t\<lparr>bitmap := bm', dirty := True\<rparr>"
    have "tb_ok sz k ?t" using ok u i(2) by (fastforce simp: tb_ok_def)
    from write_new_ok[OF this i(1) _ _ d c] obtain t' where t': "write_new_file i c d ?t = Some (int sz, t')" "tb_ok sz k t'" "tb_files t' = (tb_files t)(i \<mapsto> new_file c d)"
      using i(2) u(3) by auto
    have "recreate i c d t = recreate i c d ?t"
      using check_bit[OF bm max] True i(2) io u(1) by (simp add: recreate.simps[of i c d t] open_fd_def)
    also have "\<dots> = write_new_file i c d ?t" using bm max u by (intro new) (simp_all add: DISK_MAX_IDX_FOR_FILE_ID_def)
    finally show ?thesis using t' by auto
  next
    case False
    then show ?thesis using new[OF bm max False] write_new_ok[OF ok i False d c] by simp
  qed
qed

lemma recreate_old:
  assumes ok: "tb_ok sz k t" and f: "tb_files t i = Some f" "file_ok sz n f" "bm_bit (bitmap t) i" "i < 2 ^ k * 8" and c: "c \<in> header_cells"
  shows "recreate i c d t = Some (if c \<in> allocated f then update_record i c (cell f c) d t else append_record i c d t)"
proof -
  have max: "i < DISK_MAX_IDX_FOR_FILE_ID t" and bm: "length (bitmap t) = bitmap_size t" and io: "tb_io t = []"
    using ok f by (simp_all add: tb_ok_def DISK_MAX_IDX_FOR_FILE_ID_def)
  have "length (file_pread f 2 (c * 2)) = 2" using f(2) header_fits[OF c] by (simp add: file_ok_def)
  then show ?thesis using check_bit[OF bm max] f io c
    by (auto simp: recreate.simps[of i c d t] open_fd_def pread_fd_def contents_def cell_def allocated_def simp del: length_file_pread)
qed

lemma write_entry_ok:
  assumes ok: "tb_ok sz k t" and eid: "eid < tb_capacity k" and d: "length d = sz"
  shows "\<exists>t'. disk_tb_write_entry eid d t = Some (int sz, t') \<and> tb_ok sz k t' \<and> tb_map t' = (tb_map t)(eid \<mapsto> d)"
proof -
  let ?i = "eid div DISK_TABLE_MAX_ENTRY_PER_FILE" and ?c = "eid mod DISK_TABLE_MAX_ENTRY_PER_FILE"
  have i: "?i < 2 ^ k * 8" and c: "?c \<in> header_cells" and sz: "entry_sz t = sz" "0 < sz" using ok eid by (simp_all add: in_capacity tb_ok_def)
  have w: "disk_tb_write_entry eid d t = recreate ?i ?c d t"
    using i ok by (simp add: disk_tb_write_entry_def Let_def DISK_MAX_IDX_FOR_FILE_ID_def tb_ok_def)
  show ?thesis
  proof (cases "tb_files t ?i")
    case None
    from recreate_new[OF ok i None d c] obtain t' where t': "recreate ?i ?c d t = Some (int sz, t')" "tb_ok sz k t'" "tb_files t' = (tb_files t)(?i \<mapsto> new_file ?c d)" by blast
    have "entry_sz t' = sz" using t'(2) by (simp add: tb_ok_def)
    then have "tb_map t' = (tb_map t)(eid \<mapsto> d)" by (rule tb_map_upd_file[OF file_new(2)[OF c d sz(2)] sz(1) _ t'(3)]) (simp add: None)
    then show ?thesis using w t' by auto
  next
    case (Some f)
    with tb_ok_file[OF ok] obtain n where f: "file_ok sz n f" "bm_bit (bitmap t) ?i" by blast
    have r: "recreate ?i ?c d t = Some (if ?c \<in> allocated f then update_record ?i ?c (cell f ?c) d t else append_record ?i ?c d t)"
      by (rule recreate_old[OF ok Some f i c])
    obtain g m where g: "disk_tb_write_entry eid d t = Some (int sz, t\<lparr>tb_files := (tb_files t)(?i \<mapsto> g)\<rparr>)" "file_ok sz m g" "file_map sz g = (file_map sz f)(?c \<mapsto> d)"
    proof (cases "?c \<in> allocated f")
      case True
      show thesis by (rule that[OF _ file_update[OF f(1) True d sz(2)]]) (use w r True update_record_ok[OF ok Some f(1) True d] in simp)
    next
      case False
      show thesis by (rule that[OF _ file_append[OF f(1) c False d sz(2)]]) (use w r False append_record_ok[OF ok Some f(1) c False d] in simp)
    qed
    have "tb_map (t\<lparr>tb_files := (tb_files t)(?i \<mapsto> g)\<rparr>) = (tb_map t)(eid \<mapsto> d)"
      by (rule tb_map_upd_file[OF g(3) sz(1)]) (simp_all add: sz Some)
    then show ?thesis using g tb_ok_write[OF ok Some g(2)] by auto
  qed
qed


lemma restart_ok:
  assumes "tb_ok sz k t"
  shows "\<exists>t'. disk_tb_ctx_allocate sz k t = (True, t') \<and> tb_ok sz k t' \<and> tb_map t' = tb_map t"
proof -
  let ?bm = "case tb_btmap t of None \<Rightarrow> replicate (2 ^ k) 0 | Some b \<Rightarrow> b"
  let ?t = "t\<lparr>bitmap := ?bm, dirty := False\<rparr>"
  have upd: "t\<lparr>entry_sz := sz, bitmap_size := 2 ^ k\<rparr> = t" using assms by (simp add: tb_ok_def)
  have "disk_tb_ctx_allocate sz k t = (True, ?t)"
    using assms upd by (cases "tb_btmap t") (auto simp: disk_tb_ctx_allocate_def memalign_def disk_tb_load_bitmap_file_def Let_def tb_ok_def file_pread_def)
  moreover have "tb_ok sz k ?t" using assms unfolding tb_ok_def by (auto split: option.splits)
  moreover have "tb_map ?t = tb_map t" by (auto simp: tb_map_def fun_eq_iff split: option.splits)
  ultimately show ?thesis by blast
qed

subsection \<open>Sessions\<close>

datatype tb_op = Tb_read nat "u8 list" | Tb_write nat "u8 list" | Tb_restart

primrec tb_run :: "nat \<Rightarrow> nat \<Rightarrow> tb_op \<Rightarrow> disk_tb \<Rightarrow> ((int \<times> u8 list) \<times> disk_tb) option" where
  "tb_run sz k (Tb_read eid data) t = do { (ret, data, t) \<leftarrow> disk_tb_read_entry eid data t; Some ((ret, data), t) }"
| "tb_run sz k (Tb_write eid data) t = do { (ret, t) \<leftarrow> disk_tb_write_entry eid data t; Some ((ret, data), t) }"
| "tb_run sz k Tb_restart t = (case disk_tb_ctx_allocate sz k t of (ok, t) \<Rightarrow> Some ((if ok then 0 else -1, []), t))"

primrec tb_spec :: "nat \<Rightarrow> nat \<Rightarrow> tb_op \<Rightarrow> (nat \<rightharpoonup> u8 list) \<Rightarrow> int \<times> u8 list \<Rightarrow> (nat \<rightharpoonup> u8 list) \<Rightarrow> bool" where
  "tb_spec sz k (Tb_read eid data) m r m' \<longleftrightarrow> m' = m \<and>
     r = (if tb_capacity k \<le> eid then (-1, data) else case m eid of None \<Rightarrow> (0, data) | Some d \<Rightarrow> (int sz, d @ drop sz data))"
| "tb_spec sz k (Tb_write eid data) m r m' \<longleftrightarrow>
     (if tb_capacity k \<le> eid then m' = m \<and> r = (-1, data) else m' = m(eid \<mapsto> data) \<and> r = (int sz, data))"
| "tb_spec sz k Tb_restart m r m' \<longleftrightarrow> m' = m \<and> r = (0, [])"

primrec tb_op_ok :: "nat \<Rightarrow> tb_op \<Rightarrow> bool" where
  "tb_op_ok sz (Tb_read eid data) \<longleftrightarrow> True"
| "tb_op_ok sz (Tb_write eid data) \<longleftrightarrow> length data = sz"
| "tb_op_ok sz Tb_restart \<longleftrightarrow> True"

lemma out_of_range:
  assumes "tb_ok sz k t" "tb_capacity k \<le> eid"
  shows "disk_tb_read_entry eid data t = Some (-1, data, t)" "disk_tb_write_entry eid data t = Some (-1, t)"
  using assms in_capacity[of eid k]
  by (simp_all add: disk_tb_read_entry_def disk_tb_write_entry_def Let_def DISK_MAX_IDX_FOR_FILE_ID_def tb_ok_def)

lemma tb_step:
  assumes "tb_ok sz k t" "tb_op_ok sz q"
  shows "\<exists>r t'. tb_run sz k q t = Some (r, t') \<and> tb_ok sz k t' \<and> tb_spec sz k q (tb_map t) r (tb_map t')"
proof (cases q)
  case (Tb_read eid data)
  then show ?thesis using out_of_range(1)[OF assms(1)] read_entry_ok[OF assms(1), of eid data] assms(1)
    by (cases "tb_capacity k \<le> eid"; cases "tb_map t eid") auto
next
  case (Tb_write eid data)
  then show ?thesis using out_of_range(2)[OF assms(1)] write_entry_ok[OF assms(1), of eid data] assms
    by (cases "tb_capacity k \<le> eid") auto
next
  case Tb_restart
  then show ?thesis using restart_ok[OF assms(1)] by auto
qed

interpretation dt: contract "tb_ok sz k" "tb_op_ok sz" "tb_run sz k" tb_map "tb_spec sz k" for sz k
  using tb_step by unfold_locales (metis option.inject option.distinct(1) prod.inject)+

subsection \<open>Listing\<close>

lemma get_next_file:
  assumes "tb_ok sz k t" "2 ^ k * 8 - i = fuel"
  shows "\<exists>t' r nx. disk_tb_get_next_file_entry n i t = Some (r, nx, t') \<and> tb_ok sz k t' \<and> tb_files t' = tb_files t \<and>
     (if \<exists>j\<ge>i. tb_files t j \<noteq> None then r = int (LEAST j. i \<le> j \<and> tb_files t j \<noteq> None) \<and> int nx = r + 1 else r = -1 \<and> nx = n)"
  using assms
proof (induction fuel arbitrary: i t)
  case 0
  then have "\<not> i < DISK_MAX_IDX_FOR_FILE_ID t" by (simp add: tb_ok_def DISK_MAX_IDX_FOR_FILE_ID_def)
  moreover have "tb_files t j = None" if "i \<le> j" for j using 0 that tb_ok_file[OF 0(1), of j] by (metis diff_is_0_eq' leD le_trans not_None_eq diff_is_0_eq)
  ultimately show ?case using 0(1) by (auto simp: disk_tb_get_next_file_entry.simps)
next
  case (Suc fuel)
  have max: "i < DISK_MAX_IDX_FOR_FILE_ID t" and bm: "length (bitmap t) = bitmap_size t" and io: "tb_io t = []"
    using Suc.prems by (simp_all add: tb_ok_def DISK_MAX_IDX_FOR_FILE_ID_def)
  show ?case
  proof (cases "tb_files t i")
    case (Some f)
    with tb_ok_file[OF Suc.prems(1)] have "bm_bit (bitmap t) i" by blast
    then have "disk_tb_get_next_file_entry n i t = Some (int i, i + 1, t)"
      using check_bit[OF bm max] Some max io by (simp add: disk_tb_get_next_file_entry.simps open_fd_def)
    moreover have "(LEAST j. i \<le> j \<and> tb_files t j \<noteq> None) = i" using Some by (intro Least_equality) auto
    ultimately show ?thesis using Suc.prems(1) Some by auto
  next
    case None
    obtain u where u: "disk_tb_get_next_file_entry n i t = disk_tb_get_next_file_entry n (i + 1) u" "tb_ok sz k u" "tb_files u = tb_files t"
    proof (cases "bm_bit (bitmap t) i")
      case True
      obtain bm' where b: "disk_tb_file_bitmap_update i False t = Some (t\<lparr>bitmap := bm', dirty := True\<rparr>)" "length bm' = length (bitmap t)"
        "\<And>j. bm_bit bm' j \<longleftrightarrow> j \<noteq> i \<and> bm_bit (bitmap t) j" using update_clear[OF bm max True] by blast
      show thesis
      proof (rule that)
        show "disk_tb_get_next_file_entry n i t = disk_tb_get_next_file_entry n (i + 1) (t\<lparr>bitmap := bm', dirty := True\<rparr>)"
          using check_bit[OF bm max] True None max io b(1) by (simp add: disk_tb_get_next_file_entry.simps[of n i] open_fd_def)
        show "tb_ok sz k (t\<lparr>bitmap := bm', dirty := True\<rparr>)" using Suc.prems(1) b None by (fastforce simp: tb_ok_def)
      qed simp
    next
      case False
      show thesis by (rule that[OF _ Suc.prems(1)]) (use check_bit[OF bm max] False max in \<open>simp_all add: disk_tb_get_next_file_entry.simps[of n i]\<close>)
    qed
    have eq: "i \<le> j \<and> tb_files t j \<noteq> None \<longleftrightarrow> i + 1 \<le> j \<and> tb_files t j \<noteq> None" for j using None by (metis Suc_eq_plus1 le_eq_less_or_eq less_eq_Suc_le)
    have "2 ^ k * 8 - (i + 1) = fuel" using Suc.prems(2) by simp
    from Suc.IH[OF u(2) this] show ?thesis unfolding u(1,3) eq by blast
  qed
qed

lemma nb_records:
  assumes "tb_ok sz k t" "tb_files t i = Some f" "file_ok sz n f"
  shows "disk_tb_get_nb_records i t = Some (int n, t)"
  using assms by (auto simp: disk_tb_get_nb_records_def open_fd_def contents_def file_ok_def tb_ok_def)

lemma records_of_file:
  assumes ok: "tb_ok sz k t" and f: "tb_files t i = Some f" "file_ok sz n f"
  shows "p < n \<Longrightarrow> disk_tb_get_next_record p i data t = (int sz, record_at sz f p @ drop sz data, t)"
    "bij_betw (\<lambda>c. unat (cell f c)) (allocated f) {..<n}" "c \<in> allocated f \<Longrightarrow> file_map sz f c = Some (record_at sz f (unat (cell f c)))"
proof -
  have t: "tb_io t = []" "entry_sz t = sz" "0 < sz" using ok by (simp_all add: tb_ok_def)
  show "disk_tb_get_next_record p i data t = (int sz, record_at sz f p @ drop sz data, t)" if "p < n"
  proof -
    have "length (record_at sz f p) = sz" using f(2) record_fits[OF that, of sz] by (simp add: record_at_def file_ok_def)
    moreover from this have "record_at sz f p \<noteq> []" using t(3) by auto
    ultimately show ?thesis using t f(1) by (simp add: disk_tb_get_next_record_def pread_fd_def contents_def record_at_def Let_def del: length_file_pread file_pread_self)
  qed
qed (use f(2) in \<open>simp_all add: file_ok_def file_map_def\<close>)

lemma places_of_file:
  assumes ok: "tb_ok sz k t" and f: "tb_files t j = Some f" "file_ok sz n f"
  shows "bij_betw (\<lambda>e. unat (cell f (e mod DISK_TABLE_MAX_ENTRY_PER_FILE))) {e. e div DISK_TABLE_MAX_ENTRY_PER_FILE = j \<and> tb_map t e \<noteq> None} {..<n}"
proof -
  let ?M = DISK_TABLE_MAX_ENTRY_PER_FILE
  have sz: "entry_sz t = sz" using ok by (simp add: tb_ok_def)
  have m: "tb_map t e \<noteq> None \<longleftrightarrow> e mod ?M \<in> allocated f" if "e div ?M = j" for e using that f(1) sz by (simp add: tb_map_def file_map_def)
  have "bij_betw (\<lambda>e. e mod ?M) {e. e div ?M = j \<and> tb_map t e \<noteq> None} (allocated f)"
    by (rule bij_betw_byWitness[where f' = "\<lambda>c. j * ?M + c"]) (use m div_mult_mod_eq[of _ ?M] in \<open>auto simp: allocated_def\<close>)
  from bij_betw_trans[OF this records_of_file(2)[OF ok f]] show ?thesis by (simp add: comp_def)
qed

subsection \<open>Two numbers at one place\<close>

lemma append_any:
  assumes t: "tb_io t = []" "entry_sz t = sz" "0 < sz" "length (bitmap t) = bitmap_size t" "i < DISK_MAX_IDX_FOR_FILE_ID t" "bm_bit (bitmap t) i"
    and f: "tb_files t i = Some f" "length f = DISK_TB_HEADER_SZ + n * sz" "n < DISK_TABLE_MAX_ENTRY_PER_FILE"
    and c: "c \<in> header_cells" "cell f c = 0xffff" and d: "length d = sz"
  defines "f' \<equiv> file_pwrite f (u16_bytes (of_nat n)) (c * 2)"
  shows "recreate i c d t = Some (int sz, t\<lparr>tb_files := (tb_files t)(i \<mapsto> file_pwrite f' d (n * sz + DISK_TB_HEADER_SZ))\<rparr>)"
    "recreate i c d (t\<lparr>tb_io := [None, None, None, None, Some 0]\<rparr>) = Some (-1, t\<lparr>tb_files := (tb_files t)(i \<mapsto> f')\<rparr>)"
proof -
  let ?u = "t\<lparr>tb_io := [None, None, None, None, Some 0]\<rparr>"
  have l2: "length (file_pread f 2 (c * 2)) = 2" using f(2) header_fits[OF c(1)] by simp
  have cell: "bytes_u16 (file_pread f 2 (c * 2)) = 0xffff" using c(2) by (simp add: cell_def)
  have cb: "disk_tb_check_file_idx_bit i t = Some True" "disk_tb_check_file_idx_bit i ?u = Some True"
    using check_bit[of t i] check_bit[of ?u i] t by (simp_all add: DISK_MAX_IDX_FOR_FILE_ID_def)
  have w0: "file_pwrite g [] off = g" for g off by (simp add: file_pwrite_def)
  have upd: "t\<lparr>tb_io := [], tb_files := h\<rparr> = t\<lparr>tb_files := h\<rparr>" for h using t(1) by simp
  show "recreate i c d t = Some (int sz, t\<lparr>tb_files := (tb_files t)(i \<mapsto> file_pwrite f' d (n * sz + DISK_TB_HEADER_SZ))\<rparr>)"
    using cb(1) t(1-3) f d l2 cell unfolding f'_def
    by (subst recreate.simps) (simp add: Let_def open_fd_def pread_fd_def contents_def append_record_def pwrite_ok del: length_file_pread)
  show "recreate i c d ?u = Some (-1, t\<lparr>tb_files := (tb_files t)(i \<mapsto> f')\<rparr>)"
    using cb(2) t(1-3) f d l2 cell unfolding f'_def
    by (subst recreate.simps)
      (simp add: Let_def open_fd_def pread_fd_def contents_def append_record_def pwrite_fd_def next_io_def transferred_def w0 upd del: length_file_pread)
qed

lemma read_any:
  assumes t: "tb_io t = []" "entry_sz t = sz" "0 < sz" "length (bitmap t) = bitmap_size t" "i < DISK_MAX_IDX_FOR_FILE_ID t" "bm_bit (bitmap t) i"
    and e: "i = e div DISK_TABLE_MAX_ENTRY_PER_FILE" "c = e mod DISK_TABLE_MAX_ENTRY_PER_FILE"
    and f: "tb_files t i = Some f" "DISK_TB_HEADER_SZ + n * sz \<le> length f" "unat (cell f c) < n" "n \<le> DISK_TABLE_MAX_ENTRY_PER_FILE"
  shows "disk_tb_read_entry e data t = Some (int sz, record_at sz f (unat (cell f c)) @ drop sz data, t)"
proof -
  have c: "c \<in> header_cells" using e by simp
  have l2: "length (file_pread f 2 (c * 2)) = 2" using f(2) header_fits[OF c] by simp
  have "cell f c AND DISK_TB_EMPTY_ENTRY = 0" "cell f c \<noteq> 0xffff" using small_cell[of "cell f c"] f(3,4) by simp_all
  moreover have "length (record_at sz f (unat (cell f c))) = sz" using f(2) record_fits[OF f(3), of sz] by (simp add: record_at_def)
  ultimately show ?thesis using check_bit[OF t(4,5)] t(1,2,5,6) f(1) l2
    by (simp add: disk_tb_read_entry_def e Let_def open_fd_def pread_fd_def contents_def cell_def record_at_def del: length_file_pread)
qed

section \<open>Properties\<close>

text \<open>
  C34. A table is a map from numbers to records, over every sequence of reads, writes and restarts of the daemon: when no system call fails, every request returns, a read
  gives the record written last, or 0 when there is none, and no number out of range is stored.
\<close>

theorem disk_table_refines_map:
  assumes "tb_ok sz k t" "\<forall>q\<in>set qs. tb_op_ok sz q"
  shows "\<exists>rs t'. session (tb_run sz k) qs t = Some (rs, t') \<and> tb_ok sz k t' \<and> session_spec (tb_spec sz k) qs (tb_map t) rs (tb_map t')"
  using dt.session_ok[OF assms(1)] assms(2) by blast

definition empty_table :: "nat \<Rightarrow> nat \<Rightarrow> disk_tb" where
  "empty_table sz k = \<lparr>entry_sz = sz, bitmap_size = 2 ^ k, bitmap = replicate (2 ^ k) 0, dirty = False, tb_files = Map.empty, tb_btmap = None, tb_io = []\<rparr>"

lemma empty_table_ok: "0 < sz \<Longrightarrow> tb_ok sz k (empty_table sz k)" "tb_map (empty_table sz k) = Map.empty"
  by (auto simp: tb_ok_def empty_table_def tb_map_def fun_eq_iff)

theorem disk_table_refines_map_witness:
  "\<exists>t. session (tb_run 1 0) [Tb_write 5 [7], Tb_write 2049 [8], Tb_restart, Tb_write 5 [9], Tb_read 5 [0], Tb_read 6 [0]] (empty_table 1 0)
     = Some ([(1, [7]), (1, [8]), (0, []), (1, [9]), (1, [9]), (0, [0])], t)"
proof -
  let ?qs = "[Tb_write 5 [7], Tb_write 2049 [8], Tb_restart, Tb_write 5 [9], Tb_read 5 [0], Tb_read 6 [0]]"
  have "\<forall>q\<in>set ?qs. tb_op_ok 1 q" by simp
  from disk_table_refines_map[OF empty_table_ok(1)[of 1 0] this] show ?thesis
    by (auto simp: session_spec_simps tb_capacity_def DISK_TABLE_MAX_ENTRY_PER_FILE_def empty_table_ok(2))
qed


text \<open>
  The listing of a table visits each record once: the files are found in increasing order, the number of records of a file is the number of its stored
  numbers, and a one-to-one correspondence gives each stored number the place at which its record is read.
\<close>

theorem disk_table_listing:
  assumes "tb_ok sz k t"
  shows "(\<exists>t' r nx. disk_tb_get_next_file_entry i i t = Some (r, nx, t') \<and> tb_ok sz k t' \<and> tb_map t' = tb_map t \<and>
       (if \<exists>j\<ge>i. tb_files t j \<noteq> None then r = int (LEAST j. i \<le> j \<and> tb_files t j \<noteq> None) \<and> int nx = r + 1 else r = -1 \<and> nx = i))
    \<and> (\<forall>j f. tb_files t j = Some f \<longrightarrow> (\<exists>n place. disk_tb_get_nb_records j t = Some (int n, t) \<and>
       bij_betw place {e. e div DISK_TABLE_MAX_ENTRY_PER_FILE = j \<and> tb_map t e \<noteq> None} {..<n} \<and>
       (\<forall>e d data. e div DISK_TABLE_MAX_ENTRY_PER_FILE = j \<and> tb_map t e = Some d \<longrightarrow> disk_tb_get_next_record (place e) j data t = (int sz, d @ drop sz data, t))))"
proof (intro conjI allI impI)
  show "\<exists>t' r nx. disk_tb_get_next_file_entry i i t = Some (r, nx, t') \<and> tb_ok sz k t' \<and> tb_map t' = tb_map t \<and>
       (if \<exists>j\<ge>i. tb_files t j \<noteq> None then r = int (LEAST j. i \<le> j \<and> tb_files t j \<noteq> None) \<and> int nx = r + 1 else r = -1 \<and> nx = i)"
  proof -
    from get_next_file[OF assms refl, of i i] obtain t' r nx where g: "disk_tb_get_next_file_entry i i t = Some (r, nx, t')" "tb_ok sz k t'" "tb_files t' = tb_files t"
      "if \<exists>j\<ge>i. tb_files t j \<noteq> None then r = int (LEAST j. i \<le> j \<and> tb_files t j \<noteq> None) \<and> int nx = r + 1 else r = -1 \<and> nx = i" by blast
    have "entry_sz t' = entry_sz t" using assms g(2) by (simp add: tb_ok_def)
    then have "tb_map t' = tb_map t" using g(3) by (simp add: tb_map_def fun_eq_iff split: option.splits)
    with g show ?thesis by blast
  qed
  fix j f assume f: "tb_files t j = Some f"
  with tb_ok_file[OF assms] obtain n where n: "file_ok sz n f" by blast
  let ?place = "\<lambda>e. unat (cell f (e mod DISK_TABLE_MAX_ENTRY_PER_FILE))"
  have "disk_tb_get_next_record (?place e) j data t = (int sz, d @ drop sz data, t)" if "e div DISK_TABLE_MAX_ENTRY_PER_FILE = j" "tb_map t e = Some d" for e d data
  proof -
    have "e mod DISK_TABLE_MAX_ENTRY_PER_FILE \<in> allocated f" "d = record_at sz f (?place e)"
      using that f assms by (auto simp: tb_map_def file_map_def tb_ok_def split: if_splits)
    then show ?thesis using records_of_file(1)[OF assms f n file_ok_cell[OF n]] by blast
  qed
  then show "\<exists>n place. disk_tb_get_nb_records j t = Some (int n, t) \<and>
       bij_betw place {e. e div DISK_TABLE_MAX_ENTRY_PER_FILE = j \<and> tb_map t e \<noteq> None} {..<n} \<and>
       (\<forall>e d data. e div DISK_TABLE_MAX_ENTRY_PER_FILE = j \<and> tb_map t e = Some d \<longrightarrow> disk_tb_get_next_record (place e) j data t = (int sz, d @ drop sz data, t))"
    using nb_records[OF assms f n] places_of_file[OF assms f n] by blast
qed

theorem disk_table_listing_witness:
  "\<exists>t n. disk_tb_write_entry 5 [7] (empty_table 1 0) = Some (1, t) \<and> disk_tb_get_nb_records 0 t = Some (int n, t) \<and> 0 < n"
proof -
  from write_entry_ok[OF empty_table_ok(1)[of 1 0], of 5 "[7]"] obtain t where
    t: "disk_tb_write_entry 5 [7] (empty_table 1 0) = Some (1, t)" "tb_ok 1 0 t" "tb_map t = [5 \<mapsto> [7]]"
    by (auto simp: tb_capacity_def DISK_TABLE_MAX_ENTRY_PER_FILE_def empty_table_ok(2))
  have "tb_map t 5 \<noteq> None" using t(3) by simp
  then obtain f where "tb_files t 0 = Some f" by (auto simp: tb_map_def DISK_TABLE_MAX_ENTRY_PER_FILE_def split: option.splits)
  with disk_table_listing[OF t(2)] obtain n place where
    n: "disk_tb_get_nb_records 0 t = Some (int n, t)" "bij_betw place {e. e div DISK_TABLE_MAX_ENTRY_PER_FILE = 0 \<and> tb_map t e \<noteq> None} {..<n}" by blast
  have "5 \<in> {e. e div DISK_TABLE_MAX_ENTRY_PER_FILE = 0 \<and> tb_map t e \<noteq> None}" using t(3) by (simp add: DISK_TABLE_MAX_ENTRY_PER_FILE_def)
  from bij_betw_apply[OF n(2) this] have "0 < n" by simp
  with t n show ?thesis by blast
qed

text \<open>
  C35. A failed write can merge two records for ever. When the header is written and the record is not, the next new record of the file is given the same place: a read of the
  first number then returns the record of the second.
\<close>

theorem failed_append_shares_record:
  assumes ok: "tb_ok sz k t" and ab: "a \<noteq> b" "a div DISK_TABLE_MAX_ENTRY_PER_FILE = b div DISK_TABLE_MAX_ENTRY_PER_FILE"
    and new: "tb_map t a = None" "tb_map t b = None" and f: "tb_files t (a div DISK_TABLE_MAX_ENTRY_PER_FILE) \<noteq> None" and d: "length da = sz" "length db = sz"
  shows "\<exists>t1 t2 t3. disk_tb_write_entry a da (t\<lparr>tb_io := [None, None, None, None, Some 0]\<rparr>) = Some (-1, t1) \<and> tb_io t1 = []
     \<and> disk_tb_write_entry b db t1 = Some (int sz, t2) \<and> disk_tb_read_entry a data t2 = Some (int sz, db @ drop sz data, t3)"
proof -
  let ?M = DISK_TABLE_MAX_ENTRY_PER_FILE and ?ca = "a mod DISK_TABLE_MAX_ENTRY_PER_FILE" and ?cb = "b mod DISK_TABLE_MAX_ENTRY_PER_FILE"
  define i where "i = a div ?M"
  obtain f where fi1: "tb_files t i = Some f" using f by (auto simp: i_def)
  obtain n where fi2: "file_ok sz n f" "i < 2 ^ k * 8" "bm_bit (bitmap t) i" by (rule tb_ok_file[OF ok fi1])
  note fi = fi1 fi2
  have t: "tb_io t = []" "entry_sz t = sz" "0 < sz" "length (bitmap t) = bitmap_size t" "i < DISK_MAX_IDX_FOR_FILE_ID t"
    using ok fi(3) by (simp_all add: tb_ok_def DISK_MAX_IDX_FOR_FILE_ID_def)
  have h: "?ca \<in> header_cells" "?cb \<in> header_cells" and cab: "?ca \<noteq> ?cb" using ab by (simp, simp, metis mult_div_mod_eq)
  have na: "?ca \<notin> allocated f" "?cb \<notin> allocated f" using new ab(2) fi(1) t(2) by (auto simp: tb_map_def file_map_def i_def split: if_splits)
  then have c: "cell f ?ca = 0xffff" "cell f ?cb = 0xffff" using h by (simp_all add: allocated_def)
  have n: "n < ?M" by (rule file_ok_room[OF fi(2) h(1) na(1)])
  have l: "length f = DISK_TB_HEADER_SZ + n * sz" using fi(2) by (simp add: file_ok_def)
  have un: "unat (of_nat n :: u16) = n" using n by (simp add: unat_of_nat DISK_TABLE_MAX_ENTRY_PER_FILE_def)
  have len: "length (file_pwrite g (u16_bytes w) (x * 2)) = length g" if "x \<in> header_cells" "DISK_TB_HEADER_SZ \<le> length g" for g w x
    using header_fits[OF that(1)] that(2) by (subst length_file_pwrite) (auto simp: u16_bytes_def)
  let ?f1 = "file_pwrite f (u16_bytes (of_nat n)) (?ca * 2)" let ?t1 = "t\<lparr>tb_files := (tb_files t)(i \<mapsto> ?f1)\<rparr>"
  let ?f2 = "file_pwrite (file_pwrite ?f1 (u16_bytes (of_nat n)) (?cb * 2)) db (n * sz + DISK_TB_HEADER_SZ)" let ?t2 = "?t1\<lparr>tb_files := (tb_files ?t1)(i \<mapsto> ?f2)\<rparr>"
  have l1: "length ?f1 = DISK_TB_HEADER_SZ + n * sz" using len[OF h(1), of f] l by simp
  have "disk_tb_write_entry a da (t\<lparr>tb_io := [None, None, None, None, Some 0]\<rparr>) = Some (-1, ?t1)"
    using append_any(2)[OF t fi(4,1) l n h(1) c(1) d(1)] t(5) by (simp add: disk_tb_write_entry_def Let_def DISK_MAX_IDX_FOR_FILE_ID_def i_def)
  note wa = this
  have wb: "disk_tb_write_entry b db ?t1 = Some (int sz, ?t2)"
    using append_any(1)[of ?t1 sz i ?f1 n ?cb db] t fi(4) l1 n h c cab cell_pwrite_cell[OF h(1,2), of f] l d(2) ab(2)
    by (simp add: disk_tb_write_entry_def Let_def DISK_MAX_IDX_FOR_FILE_ID_def i_def)
  have "cell ?f2 ?ca = of_nat n"
    using cell_pwrite_data[OF h(1)] cell_pwrite_cell[OF h(2) h(1)] cell_pwrite_cell[OF h(1) h(1)] cab l l1 len[OF h(2), of ?f1] by simp
  moreover have "db \<noteq> []" using d(2) t(3) by auto
  then have "DISK_TB_HEADER_SZ + Suc n * sz \<le> length ?f2" using length_file_pwrite[of db _ "n * sz + DISK_TB_HEADER_SZ"] d(2) by simp
  ultimately have "disk_tb_read_entry a data ?t2 = Some (int sz, db @ drop sz data, ?t2)"
    using read_any[of ?t2 sz i a ?ca ?f2 "Suc n" data] t fi(4) n un record_pwrite_same[OF d(2)]
    by (simp add: i_def DISK_MAX_IDX_FOR_FILE_ID_def)
  with wa wb show ?thesis using t(1) by auto
qed

theorem failed_append_shares_record_witness:
  "\<exists>t t1 t2 t3. tb_ok 1 0 t \<and> disk_tb_write_entry 6 [7] (t\<lparr>tb_io := [None, None, None, None, Some 0]\<rparr>) = Some (-1, t1) \<and> disk_tb_write_entry 7 [8] t1 = Some (1, t2)
     \<and> disk_tb_read_entry 6 [0] t2 = Some (1, [8], t3)"
proof -
  from write_entry_ok[OF empty_table_ok(1)[of 1 0], of 5 "[7]"] obtain t where t: "tb_ok 1 0 t" "tb_map t = [5 \<mapsto> [7]]"
    by (auto simp: tb_capacity_def DISK_TABLE_MAX_ENTRY_PER_FILE_def empty_table_ok(2))
  have "tb_map t 5 \<noteq> None" using t(2) by simp
  then have "tb_files t 0 \<noteq> None" by (auto simp: tb_map_def DISK_TABLE_MAX_ENTRY_PER_FILE_def split: option.splits)
  then show ?thesis using failed_append_shares_record[OF t(1), of 6 7 "[7]" "[8]" "[0]"] t by (auto simp: DISK_TABLE_MAX_ENTRY_PER_FILE_def)
qed



end
