(* ===== verification/Quota_Wbcache.thy ===== *)
theory Quota_Wbcache
  imports Fid_Bitmap Disk_Table
begin

text \<open>
  The write-back cache of the quotas (\<^verbatim>\<open>src/exportd/quota_writeback_cache.c\<close>) on top of the tables on disk. A quota is found by a key: the export, the type of the quota and
  the identifier of the user, group or share. The cache has 4096 entries of 16 chunks; a chunk holds a quota and counts its writes since it was last written to disk. A thread flushes the entries
  in turn. The sections under the lock of an entry are single steps; statistics are left out.
\<close>

section \<open>Model\<close>

subsection \<open>Keys and quotas\<close>

definition key_eid :: "u64 \<Rightarrow> u64" where "key_eid k = bits_get 0 10 k"
definition key_type :: "u64 \<Rightarrow> u64" where "key_type k = bits_get 10 4 k"
definition key_qid :: "u64 \<Rightarrow> u64" where "key_qid k = bits_get 14 32 k"
definition key_filler :: "u64 \<Rightarrow> u64" where "key_filler k = bits_get 46 18 k"

definition quota_key :: "int \<Rightarrow> int \<Rightarrow> int \<Rightarrow> u64" where
  "quota_key eid type qid = bits_set 10 4 (word_of_int type) (bits_set 0 10 (word_of_int eid) (bits_set 14 32 (word_of_int qid) 0))"

record rozo_mem_dqblk =
  dqb_bhardlimit :: u64
  dqb_bsoftlimit :: u64
  dqb_curspace :: u64
  dqb_rsvspace :: u64
  dqb_ihardlimit :: u64
  dqb_isoftlimit :: u64
  dqb_curinodes :: u64
  dqb_btime :: u64
  dqb_itime :: u64

record rozofs_dquot_t =
  dq_key :: u64
  dq_quota :: rozo_mem_dqblk

definition zero_dqblk :: rozo_mem_dqblk where
  "zero_dqblk = \<lparr>dqb_bhardlimit = 0, dqb_bsoftlimit = 0, dqb_curspace = 0, dqb_rsvspace = 0, dqb_ihardlimit = 0, dqb_isoftlimit = 0, dqb_curinodes = 0, dqb_btime = 0, dqb_itime = 0\<rparr>"

text \<open>The structures in memory, as they are written to disk by a little-endian machine.\<close>

definition u64_bytes :: "u64 \<Rightarrow> u8 list" where
  "u64_bytes w = map (\<lambda>i. ucast (drop_bit (8 * i) w)) [0..<8]"

definition bytes_u64 :: "u8 list \<Rightarrow> u64" where
  "bytes_u64 bs = foldr (\<lambda>b w. ucast b OR push_bit 8 w) bs 0"

definition dquot_words :: "rozofs_dquot_t \<Rightarrow> u64 list" where
  "dquot_words d = (let q = dq_quota d in
     [dq_key d, dqb_bhardlimit q, dqb_bsoftlimit q, dqb_curspace q, dqb_rsvspace q, dqb_ihardlimit q, dqb_isoftlimit q, dqb_curinodes q, dqb_btime q, dqb_itime q])"

definition dquot_bytes :: "rozofs_dquot_t \<Rightarrow> u8 list" where
  "dquot_bytes d = concat (map u64_bytes (dquot_words d))"

definition bytes_dquot :: "u8 list \<Rightarrow> rozofs_dquot_t" where
  "bytes_dquot bs = (let w = (\<lambda>i. bytes_u64 (take 8 (drop (8 * i) bs))) in
     \<lparr>dq_key = w 0, dq_quota = \<lparr>dqb_bhardlimit = w 1, dqb_bsoftlimit = w 2, dqb_curspace = w 3, dqb_rsvspace = w 4, dqb_ihardlimit = w 5,
        dqb_isoftlimit = w 6, dqb_curinodes = w 7, dqb_btime = w 8, dqb_itime = w 9\<rparr>\<rparr>)"

definition DQUOT_SZ :: nat where "DQUOT_SZ = 80"

subsection \<open>The cache\<close>

definition QUOTA_CACHE_MAX_ENTRY :: nat where "QUOTA_CACHE_MAX_ENTRY = 4096"
definition QUOTA_CACHE_MAX_CHUNK :: nat where "QUOTA_CACHE_MAX_CHUNK = 16"

type_synonym table_ref = "u64 \<times> u64"

record quota_chunk_cache_t =
  wr_cpt :: u32
  ck_size :: nat
  ck_key :: u64
  ctx_p :: table_ref
  chunk_p :: "rozofs_dquot_t option"

record quota_wbcache_entry_t =
  wb_state :: int
  wb_chunk :: "quota_chunk_cache_t list"

text \<open>The entries, the tables on disk, and the outcomes of the next allocations (success when the list is exhausted).\<close>

record quota_store =
  qs_wb :: "quota_wbcache_entry_t list"
  qs_disk :: "table_ref \<Rightarrow> disk_tb"
  qs_mem :: "bool list"

definition quota_wbcache_init :: "(table_ref \<Rightarrow> disk_tb) \<Rightarrow> quota_store" where
  "quota_wbcache_init disk = \<lparr>qs_wb = replicate QUOTA_CACHE_MAX_ENTRY
      \<lparr>wb_state = 0, wb_chunk = replicate QUOTA_CACHE_MAX_CHUNK \<lparr>wr_cpt = 0, ck_size = 0, ck_key = 0, ctx_p = (0, 0), chunk_p = None\<rparr>\<rparr>,
     qs_disk = disk, qs_mem = []\<rparr>"

definition next_mem :: "quota_store \<Rightarrow> bool \<times> quota_store" where
  "next_mem s = (case qs_mem s of [] \<Rightarrow> (True, s) | r # rs \<Rightarrow> (r, s\<lparr>qs_mem := rs\<rparr>))"

definition quota_wbcache_get_index :: "u64 \<Rightarrow> nat" where
  "quota_wbcache_get_index key =
     unat (foldl (\<lambda>h d. (h * 16777619) XOR ucast d) (2166136261 :: u32) (u64_bytes key)) mod QUOTA_CACHE_MAX_ENTRY"

definition quota_wbcache_check_write_pending :: "quota_wbcache_entry_t \<Rightarrow> bool" where
  "quota_wbcache_check_write_pending e \<longleftrightarrow> (\<exists>c\<in>set (wb_chunk e). wr_cpt c \<noteq> 0)"

text \<open>A write of a chunk to its table. The chunk must hold a quota.\<close>

definition write_chunk :: "quota_chunk_cache_t \<Rightarrow> (table_ref \<Rightarrow> disk_tb) \<Rightarrow> (int \<times> (table_ref \<Rightarrow> disk_tb)) option" where
  "write_chunk c disk = do {
     p \<leftarrow> chunk_p c;
     (ret, t) \<leftarrow> disk_tb_write_entry (unat (key_qid (dq_key p))) (dquot_bytes p) (disk (ctx_p c));
     Some (ret, disk(ctx_p c := t)) }"

fun flush_chunks :: "quota_chunk_cache_t list \<Rightarrow> (table_ref \<Rightarrow> disk_tb) \<Rightarrow> (quota_chunk_cache_t list \<times> (table_ref \<Rightarrow> disk_tb)) option" where
  "flush_chunks [] disk = Some ([], disk)"
| "flush_chunks (c # cs) disk =
     (if wr_cpt c = 0 then do { (cs, disk) \<leftarrow> flush_chunks cs disk; Some (c # cs, disk) }
      else do {
        (ret, disk) \<leftarrow> write_chunk c disk;
        (cs, disk) \<leftarrow> flush_chunks cs disk;
        Some (c\<lparr>wr_cpt := 0\<rparr> # cs, disk) })"

definition quota_wbcache_diskflush :: "nat \<Rightarrow> quota_store \<Rightarrow> quota_store option" where
  "quota_wbcache_diskflush i s = do {
     e \<leftarrow> arr_get (qs_wb s) (int i);
     (cs, disk) \<leftarrow> flush_chunks (wb_chunk e) (qs_disk s);
     wb \<leftarrow> arr_set (qs_wb s) (int i) (e\<lparr>wb_chunk := cs\<rparr>);
     Some (s\<lparr>qs_wb := wb, qs_disk := disk\<rparr>) }"

text \<open>The write-back thread: what it does for one entry, and a round over all entries.\<close>

definition thread_entry :: "nat \<Rightarrow> quota_store \<Rightarrow> quota_store option" where
  "thread_entry i s = do {
     e \<leftarrow> arr_get (qs_wb s) (int i);
     if wb_state e = 0 then Some s
     else if \<not> quota_wbcache_check_write_pending e then Some s
     else quota_wbcache_diskflush i s }"

definition quota_wbcache_thread :: "quota_store \<Rightarrow> quota_store option" where
  "quota_wbcache_thread s = foldM thread_entry [0..<QUOTA_CACHE_MAX_ENTRY] s"

definition quota_wbcache_read :: "table_ref \<Rightarrow> rozofs_dquot_t \<Rightarrow> quota_store \<Rightarrow> (int \<times> rozofs_dquot_t \<times> quota_store) option" where
  "quota_wbcache_read disk_p buf s = do {
     e \<leftarrow> arr_get (qs_wb s) (int (quota_wbcache_get_index (dq_key buf)));
     (case Option.bind (List.find (\<lambda>c. ck_key c = dq_key buf) (wb_chunk e)) chunk_p of
        Some p \<Rightarrow> Some (int DQUOT_SZ, p, s)
      | None \<Rightarrow> do {
          (ret, data, t) \<leftarrow> disk_tb_read_entry (unat (key_qid (dq_key buf))) (dquot_bytes buf) (qs_disk s disk_p);
          let s = s\<lparr>qs_disk := (qs_disk s)(disk_p := t)\<rparr>;
          Some (if ret < 0 then -1 else int DQUOT_SZ, bytes_dquot data, s) }) }"

text \<open>The search of a chunk for a write: the chunk of the key, or the first that is free.\<close>

fun search_chunk :: "u64 \<Rightarrow> quota_chunk_cache_t list \<Rightarrow> nat \<Rightarrow> nat option \<Rightarrow> nat + nat option" where
  "search_chunk key [] i free_chunk = Inr free_chunk"
| "search_chunk key (c # cs) i free_chunk =
     (if ck_key c = key then Inl i
      else search_chunk key cs (i + 1) (if (ck_key c = 0 \<or> wr_cpt c = 0) \<and> free_chunk = None then Some i else free_chunk))"

definition fill_chunk :: "table_ref \<Rightarrow> rozofs_dquot_t \<Rightarrow> quota_chunk_cache_t \<Rightarrow> quota_chunk_cache_t" where
  "fill_chunk disk_p buf c = c\<lparr>chunk_p := Some buf, ck_key := dq_key buf, ctx_p := disk_p, ck_size := DQUOT_SZ, wr_cpt := wr_cpt c + 1\<rparr>"

definition quota_wbcache_chunk_diskflush :: "quota_wbcache_entry_t \<Rightarrow> (table_ref \<Rightarrow> disk_tb) \<Rightarrow> (int \<times> quota_wbcache_entry_t \<times> (table_ref \<Rightarrow> disk_tb)) option" where
  "quota_wbcache_chunk_diskflush e disk = do {
     c \<leftarrow> arr_get (wb_chunk e) 0;
     (ret, disk) \<leftarrow> write_chunk c disk;
     if ret < 0 then Some (-1, e, disk)
     else do { cs \<leftarrow> arr_set (wb_chunk e) 0 (c\<lparr>wr_cpt := 0\<rparr>); Some (0, e\<lparr>wb_chunk := cs\<rparr>, disk) } }"

text \<open>A chunk without memory gets its memory first; when there is none left the write fails.\<close>

definition store_chunk :: "table_ref \<Rightarrow> rozofs_dquot_t \<Rightarrow> nat \<Rightarrow> quota_wbcache_entry_t \<Rightarrow> quota_store \<Rightarrow> (bool \<times> quota_wbcache_entry_t \<times> quota_store) option" where
  "store_chunk disk_p buf i e s = do {
     c \<leftarrow> arr_get (wb_chunk e) (int i);
     (case (if chunk_p c = None then next_mem s else (True, s)) of (ok, s) \<Rightarrow>
        if \<not> ok then Some (False, e, s)
        else do { cs \<leftarrow> arr_set (wb_chunk e) (int i) (fill_chunk disk_p buf c); Some (True, e\<lparr>wb_chunk := cs\<rparr>, s) }) }"

definition quota_wbcache_write :: "table_ref \<Rightarrow> rozofs_dquot_t \<Rightarrow> quota_store \<Rightarrow> (int \<times> quota_store) option" where
  "quota_wbcache_write disk_p buf s = do {
     let i = int (quota_wbcache_get_index (dq_key buf));
     e \<leftarrow> arr_get (qs_wb s) i;
     (case search_chunk (dq_key buf) (wb_chunk e) 0 None of
        Inl j \<Rightarrow> do {
          (ok, e, s) \<leftarrow> store_chunk disk_p buf j e s;
          wb \<leftarrow> arr_set (qs_wb s) i (e\<lparr>wb_state := 1\<rparr>);
          Some (if ok then int DQUOT_SZ else -1, s\<lparr>qs_wb := wb\<rparr>) }
      | Inr (Some j) \<Rightarrow> do {
          (ok, e, s) \<leftarrow> store_chunk disk_p buf j e s;
          if \<not> ok then Some (-1, s)
          else do { wb \<leftarrow> arr_set (qs_wb s) i (e\<lparr>wb_state := 1\<rparr>); Some (int DQUOT_SZ, s\<lparr>qs_wb := wb\<rparr>) } }
      | Inr None \<Rightarrow> do {
          (ret, e, disk) \<leftarrow> quota_wbcache_chunk_diskflush e (qs_disk s);
          let s = s\<lparr>qs_disk := disk\<rparr>;
          if ret < 0 then do { wb \<leftarrow> arr_set (qs_wb s) i (e\<lparr>wb_state := 1\<rparr>); Some (-1, s\<lparr>qs_wb := wb\<rparr>) }
          else do {
            (ok, e, s) \<leftarrow> store_chunk disk_p buf 0 e s;
            if \<not> ok then do { wb \<leftarrow> arr_set (qs_wb s) i e; Some (-1, s\<lparr>qs_wb := wb\<rparr>) }
            else do { wb \<leftarrow> arr_set (qs_wb s) i (e\<lparr>wb_state := 1\<rparr>); Some (int DQUOT_SZ, s\<lparr>qs_wb := wb\<rparr>) } } }) }"


section \<open>Keys and quotas in memory\<close>

lemma bytes_u64_range: "bytes_u64 (map (\<lambda>i. ucast (drop_bit (8 * i) w)) [k..<k + m]) = take_bit (8 * m) (drop_bit (8 * k) w)"
proof (induction m arbitrary: k)
  case (Suc m)
  have u: "[k..<k + Suc m] = k # [Suc k..<Suc k + m]" by (simp add: upt_rec)
  have "bytes_u64 (map (\<lambda>i. ucast (drop_bit (8 * i) w)) [k..<k + Suc m])
      = ucast (ucast (drop_bit (8 * k) w) :: u8) OR push_bit 8 (take_bit (8 * m) (drop_bit (8 * Suc k) w))"
    unfolding u list.map using Suc[of "Suc k"] by (simp add: bytes_u64_def)
  also have "\<dots> = take_bit (8 * Suc m) (drop_bit (8 * k) w)"
    by (rule bit_word_eqI) (auto simp: bit_simps)
  finally show ?case .
qed (simp add: bytes_u64_def)

lemma bytes_u64_u64_bytes [simp]: "bytes_u64 (u64_bytes w) = w"
proof -
  have "take_bit 64 w = w" by (rule bit_word_eqI) (simp add: bit_simps)
  then show ?thesis using bytes_u64_range[of w 0 8] by (simp add: u64_bytes_def)
qed

lemma length_u64_bytes [simp]: "length (u64_bytes w) = 8"
  by (simp add: u64_bytes_def)

lemma length_dquot_bytes [simp]: "length (dquot_bytes d) = DQUOT_SZ"
  by (simp add: dquot_bytes_def dquot_words_def Let_def DQUOT_SZ_def)

lemma take_drop_bytes [simp]:
  "take 8 (u64_bytes w @ bs) = u64_bytes w" "drop (Suc (Suc (Suc (Suc (Suc (Suc (Suc (Suc n)))))))) (u64_bytes w @ bs) = drop n bs"
  by simp_all

lemma bytes_dquot_dquot_bytes [simp]: "bytes_dquot (dquot_bytes d) = d"
  by (simp add: bytes_dquot_def dquot_bytes_def dquot_words_def Let_def)

lemma dquot_bytes_inject [simp]: "dquot_bytes d = dquot_bytes d' \<longleftrightarrow> d = d'"
  by (metis bytes_dquot_dquot_bytes)

definition key_table :: "u64 \<Rightarrow> table_ref" where
  "key_table k = (key_eid k, key_type k)"

text \<open>The keys in use: the export is not 0 and the unused bits are.\<close>

definition valid_key :: "u64 \<Rightarrow> bool" where
  "valid_key k \<longleftrightarrow> key_eid k \<noteq> 0 \<and> key_filler k = 0"

lemma valid_key_nonzero: "valid_key k \<Longrightarrow> k \<noteq> 0"
  by (auto simp: valid_key_def key_eid_def bits_get_def)

lemma key_inject:
  assumes "key_table k = key_table k'" "key_qid k = key_qid k'" "valid_key k" "valid_key k'"
  shows "k = k'"
proof (rule bit_word_eqI)
  fix n assume n: "n < LENGTH(64)"
  have f: "bits_get 0 10 k = bits_get 0 10 k'" "bits_get 10 4 k = bits_get 10 4 k'" "bits_get 14 32 k = bits_get 14 32 k'" "bits_get 46 18 k = bits_get 46 18 k'"
    using assms by (simp_all add: key_table_def key_eid_def key_type_def key_qid_def valid_key_def key_filler_def)
  have g: "bit (bits_get b m w) (n - b) \<longleftrightarrow> bit w n" if "b \<le> n" "n < b + m" for b m and w :: u64
    using that n by (auto simp: bits_get_def bit_simps)
  consider "n < 10" | "10 \<le> n" "n < 14" | "14 \<le> n" "n < 46" | "46 \<le> n" by linarith
  then show "bit k n \<longleftrightarrow> bit k' n"
    using g[of 0 10 k] g[of 0 10 k'] g[of 10 4 k] g[of 10 4 k'] g[of 14 32 k] g[of 14 32 k'] g[of 46 18 k] g[of 46 18 k'] f n by cases auto
qed

lemma key_qid_range: "unat (key_qid k) < tb_capacity 18"
proof -
  have "unat (key_qid k) < 2 ^ 32" unfolding key_qid_def bits_get_def unsigned_take_bit_eq by (rule take_bit_nat_less_exp)
  then show ?thesis by (simp add: tb_capacity_def DISK_TABLE_MAX_ENTRY_PER_FILE_def)
qed

lemma quota_key_fields:
  assumes "0 < eid" "eid < 1024" "0 \<le> type" "type < 16"
  shows "key_table (quota_key eid type qid) = (word_of_int eid, word_of_int type)" "key_qid (quota_key eid type qid) = take_bit 32 (word_of_int qid)" "valid_key (quota_key eid type qid)"
proof -
  have tb: "take_bit m (word_of_int x :: u64) = word_of_int x" if "0 \<le> x" "x < 2 ^ m" for x m
  proof -
    have "take_bit m (word_of_int x :: u64) = word_of_int (take_bit m x)" by (rule bit_word_eqI) (auto simp: bit_simps)
    then show ?thesis using that by (simp add: take_bit_int_eq_self)
  qed
  have e: "take_bit 10 (word_of_int eid :: u64) = word_of_int eid" "take_bit 4 (word_of_int type :: u64) = word_of_int type" using assms tb by simp_all
  have "uint (word_of_int eid :: u64) = eid" using assms by (simp add: uint_word_of_int)
  then have "(word_of_int eid :: u64) \<noteq> 0" using assms(1) by auto
  moreover have "bits_get 46 18 (0 :: u64) = 0" by (simp add: bits_get_def)
  ultimately show "key_table (quota_key eid type qid) = (word_of_int eid, word_of_int type)" "key_qid (quota_key eid type qid) = take_bit 32 (word_of_int qid)" "valid_key (quota_key eid type qid)"
    using e by (simp_all add: key_table_def key_eid_def key_type_def key_qid_def valid_key_def key_filler_def quota_key_def bits_get_set_same bits_get_set_other)
qed


section \<open>Invariant\<close>

definition zero_dquot :: "u64 \<Rightarrow> rozofs_dquot_t" where
  "zero_dquot k = \<lparr>dq_key = k, dq_quota = zero_dqblk\<rparr>"

text \<open>What the tables hold for a key, and what a client of the store sees: the chunk of the key, or the record on disk, or a quota of zeros.\<close>

definition stored :: "(table_ref \<Rightarrow> disk_tb) \<Rightarrow> u64 \<Rightarrow> u8 list option" where
  "stored disk k = tb_map (disk (key_table k)) (unat (key_qid k))"

definition disk_view :: "(table_ref \<Rightarrow> disk_tb) \<Rightarrow> u64 \<Rightarrow> rozofs_dquot_t" where
  "disk_view disk k = (case stored disk k of None \<Rightarrow> zero_dquot k | Some b \<Rightarrow> bytes_dquot b)"

definition cached :: "quota_chunk_cache_t list \<Rightarrow> u64 \<Rightarrow> rozofs_dquot_t option" where
  "cached cs k = Option.bind (List.find (\<lambda>c. ck_key c = k) cs) chunk_p"

definition store_view :: "quota_store \<Rightarrow> u64 \<Rightarrow> rozofs_dquot_t" where
  "store_view s k = (case cached (wb_chunk (qs_wb s ! quota_wbcache_get_index k)) k of Some d \<Rightarrow> d | None \<Rightarrow> disk_view (qs_disk s) k)"

definition disk_ok :: "(table_ref \<Rightarrow> disk_tb) \<Rightarrow> bool" where
  "disk_ok disk \<longleftrightarrow> (\<forall>p. tb_ok DQUOT_SZ 18 (disk p)) \<and> (\<forall>k b. valid_key k \<longrightarrow> stored disk k = Some b \<longrightarrow> (\<exists>d. b = dquot_bytes d \<and> dq_key d = k))"

text \<open>A chunk in use holds the quota of its key; when it counts no write, the disk holds it too. \<open>n\<close> more writes do not exhaust its counter.\<close>

definition chunk_used :: "nat \<Rightarrow> nat \<Rightarrow> (table_ref \<Rightarrow> disk_tb) \<Rightarrow> quota_chunk_cache_t \<Rightarrow> bool" where
  "chunk_used n i disk c \<longleftrightarrow> valid_key (ck_key c) \<and> quota_wbcache_get_index (ck_key c) = i \<and> ctx_p c = key_table (ck_key c) \<and> unat (wr_cpt c) + n < 2 ^ 32
     \<and> (\<exists>d. chunk_p c = Some d \<and> dq_key d = ck_key c \<and> (wr_cpt c = 0 \<longrightarrow> stored disk (ck_key c) = Some (dquot_bytes d)))"

definition chunk_ok :: "nat \<Rightarrow> nat \<Rightarrow> (table_ref \<Rightarrow> disk_tb) \<Rightarrow> quota_chunk_cache_t \<Rightarrow> bool" where
  "chunk_ok n i disk c \<longleftrightarrow> (ck_key c = 0 \<and> chunk_p c = None \<and> wr_cpt c = 0) \<or> chunk_used n i disk c"

definition keys_apart :: "quota_chunk_cache_t list \<Rightarrow> bool" where
  "keys_apart cs \<longleftrightarrow> (\<forall>a<length cs. \<forall>b<length cs. a \<noteq> b \<longrightarrow> ck_key (cs ! a) = ck_key (cs ! b) \<longrightarrow> ck_key (cs ! a) = 0)"

definition chunks_ok :: "nat \<Rightarrow> nat \<Rightarrow> (table_ref \<Rightarrow> disk_tb) \<Rightarrow> quota_chunk_cache_t list \<Rightarrow> bool" where
  "chunks_ok n i disk cs \<longleftrightarrow> (\<forall>c\<in>set cs. chunk_ok n i disk c) \<and> keys_apart cs"

definition store_ok :: "nat \<Rightarrow> quota_store \<Rightarrow> bool" where
  "store_ok n s \<longleftrightarrow> n < 2 ^ 32 \<and> qs_mem s = [] \<and> disk_ok (qs_disk s) \<and> length (qs_wb s) = QUOTA_CACHE_MAX_ENTRY
     \<and> (\<forall>i<QUOTA_CACHE_MAX_ENTRY. length (wb_chunk (qs_wb s ! i)) = QUOTA_CACHE_MAX_CHUNK \<and> chunks_ok n i (qs_disk s) (wb_chunk (qs_wb s ! i))
          \<and> (wb_state (qs_wb s ! i) = 0 \<longrightarrow> \<not> quota_wbcache_check_write_pending (qs_wb s ! i)))"

lemma index_less [simp]: "quota_wbcache_get_index k < QUOTA_CACHE_MAX_ENTRY"
  by (simp add: quota_wbcache_get_index_def QUOTA_CACHE_MAX_ENTRY_def)

lemma find_chunk:
  assumes "keys_apart cs" "k \<noteq> 0"
  shows "List.find (\<lambda>c. ck_key c = k) cs = Some c \<longleftrightarrow> c \<in> set cs \<and> ck_key c = k"
proof
  assume "c \<in> set cs \<and> ck_key c = k"
  then obtain a where a: "a < length cs" "cs ! a = c" "ck_key c = k" by (auto simp: in_set_conv_nth)
  have "ck_key (cs ! b) \<noteq> k" if "b < a" for b
  proof -
    have "b < length cs" "b \<noteq> a" using that a(1) by simp_all
    then show ?thesis using assms a unfolding keys_apart_def by metis
  qed
  with a show "List.find (\<lambda>c. ck_key c = k) cs = Some c" unfolding find_Some_iff by (intro exI[of _ a]) auto
next
  assume "List.find (\<lambda>c. ck_key c = k) cs = Some c"
  then show "c \<in> set cs \<and> ck_key c = k" unfolding find_Some_iff by auto
qed

lemma cached_None: "(\<And>c. c \<in> set cs \<Longrightarrow> ck_key c \<noteq> k) \<Longrightarrow> cached cs k = None"
proof -
  assume "\<And>c. c \<in> set cs \<Longrightarrow> ck_key c \<noteq> k"
  then have "List.find (\<lambda>c. ck_key c = k) cs = None" by (simp add: find_None_iff)
  then show ?thesis by (simp add: cached_def)
qed

lemma cached_Some:
  assumes "keys_apart cs" "k \<noteq> 0" "c \<in> set cs" "ck_key c = k"
  shows "cached cs k = chunk_p c"
  using find_chunk[OF assms(1,2), of c] assms(3,4) by (simp add: cached_def)

definition only_at :: "quota_chunk_cache_t list \<Rightarrow> nat \<Rightarrow> u64 \<Rightarrow> bool" where
  "only_at cs j key \<longleftrightarrow> (\<forall>a<length cs. a \<noteq> j \<longrightarrow> ck_key (cs ! a) \<noteq> key)"

lemma keys_apart_update:
  assumes "keys_apart cs" "only_at cs j (ck_key c)"
  shows "keys_apart (cs[j := c])"
proof (cases "j < length cs")
  case True
  show ?thesis unfolding keys_apart_def
  proof (intro allI impI)
    fix a b assume h: "a < length (cs[j := c])" "b < length (cs[j := c])" "a \<noteq> b" "ck_key (cs[j := c] ! a) = ck_key (cs[j := c] ! b)"
    then have "a \<noteq> j" "b \<noteq> j" using assms(2) True by (auto simp: only_at_def nth_list_update split: if_splits)
    then show "ck_key (cs[j := c] ! a) = 0" using h assms(1) by (auto simp: keys_apart_def)
  qed
next
  case False
  then have "cs[j := c] = cs" by (simp add: list_update_beyond)
  then show ?thesis using assms(1) by simp
qed

lemma cached_update:
  assumes ap: "keys_apart cs" and j: "j < length cs" and new: "only_at cs j (ck_key c)" and k: "k \<noteq> 0"
  shows "cached (cs[j := c]) k = (if k = ck_key c then chunk_p c else if k = ck_key (cs ! j) then None else cached cs k)"
proof -
  have ap': "keys_apart (cs[j := c])" by (rule keys_apart_update[OF ap new])
  consider "k = ck_key c" | "k \<noteq> ck_key c" "k = ck_key (cs ! j)" | "k \<noteq> ck_key c" "k \<noteq> ck_key (cs ! j)" by blast
  then show ?thesis
  proof cases
    case 1
    then show ?thesis using cached_Some[OF ap' k set_update_memI[OF j]] by simp
  next
    case 2
    have "ck_key x \<noteq> k" if "x \<in> set (cs[j := c])" for x
      using that ap 2 k j unfolding in_set_conv_nth keys_apart_def by (auto simp: nth_list_update split: if_splits)
    then show ?thesis using 2 cached_None[of "cs[j := c]" k] by simp
  next
    case 3
    show ?thesis
    proof (cases "\<exists>x\<in>set cs. ck_key x = k")
      case True
      then obtain x where x: "x \<in> set cs" "ck_key x = k" by blast
      then obtain a where "a < length cs" "cs ! a = x" by (auto simp: in_set_conv_nth)
      with x 3 have "x \<in> set (cs[j := c])" by (metis length_list_update nth_list_update_neq nth_mem)
      then show ?thesis using cached_Some[OF ap' k] cached_Some[OF ap k] x 3 by simp
    next
      case False
      then have "ck_key x \<noteq> k" if "x \<in> set (cs[j := c])" for x using that 3 set_update_subset_insert[of cs j c] by blast
      then have "cached (cs[j := c]) k = None" by (rule cached_None)
      moreover have "cached cs k = None" using False by (intro cached_None) blast
      ultimately show ?thesis using 3 by simp
    qed
  qed
qed


section \<open>Operations\<close>

subsection \<open>Writes to disk\<close>

lemma stored_write:
  assumes k: "valid_key k" "valid_key k'" and t: "tb_map t = (tb_map (disk (key_table k)))(unat (key_qid k) \<mapsto> b)"
  shows "stored (disk(key_table k := t)) k' = (if k' = k then Some b else stored disk k')"
proof -
  have "k' = k" if "key_table k' = key_table k" "unat (key_qid k') = unat (key_qid k)" using that key_inject[of k' k] k by (simp add: word_unat_eq_iff)
  then show ?thesis using t by (auto simp: stored_def)
qed

lemma write_chunk_ok:
  assumes d: "disk_ok disk" and c: "chunk_used n i disk c"
  obtains disk' p where "write_chunk c disk = Some (int DQUOT_SZ, disk')" "chunk_p c = Some p" "disk_ok disk'"
    "\<And>k. valid_key k \<Longrightarrow> stored disk' k = (if k = ck_key c then Some (dquot_bytes p) else stored disk k)"
proof -
  let ?k = "ck_key c"
  obtain p where p: "chunk_p c = Some p" "dq_key p = ?k" and k: "valid_key ?k" and x: "ctx_p c = key_table ?k" using c by (auto simp: chunk_used_def)
  have ok: "tb_ok DQUOT_SZ 18 (disk (key_table ?k))" using d unfolding disk_ok_def by blast
  obtain t where t: "disk_tb_write_entry (unat (key_qid ?k)) (dquot_bytes p) (disk (key_table ?k)) = Some (int DQUOT_SZ, t)" "tb_ok DQUOT_SZ 18 t"
    "tb_map t = (tb_map (disk (key_table ?k)))(unat (key_qid ?k) \<mapsto> dquot_bytes p)"
    using write_entry_ok[OF ok key_qid_range[of ?k] length_dquot_bytes[of p]] by blast
  have st: "stored (disk(key_table ?k := t)) k = (if k = ?k then Some (dquot_bytes p) else stored disk k)" if "valid_key k" for k
    by (rule stored_write[where disk = disk, OF k that t(3)])
  show thesis
  proof (rule that[OF _ p(1) _ st])
    show "write_chunk c disk = Some (int DQUOT_SZ, disk(key_table ?k := t))" using p x t(1) by (simp add: write_chunk_def)
    show "disk_ok (disk(key_table ?k := t))" using d t(2) st p(2) unfolding disk_ok_def by (auto split: if_splits)
  qed
qed

lemma chunk_ok_disk:
  assumes "chunk_ok n i disk c" "ck_key c \<noteq> 0 \<Longrightarrow> stored disk' (ck_key c) = stored disk (ck_key c)"
  shows "chunk_ok n i disk' c"
  using assms by (auto simp: chunk_ok_def chunk_used_def valid_key_nonzero)

lemma chunk_ok_less: "chunk_ok (Suc n) i disk c \<Longrightarrow> chunk_ok n i disk c"
  by (auto simp: chunk_ok_def chunk_used_def)

text \<open>The store keeps its invariant when the disk changes only where no chunk is clean, or to what the chunk holds.\<close>

lemma flush_chunks_ok:
  assumes "disk_ok disk" "\<And>c. c \<in> set cs \<Longrightarrow> chunk_ok n i disk c" "keys_apart cs"
  shows "\<exists>cs' disk'. flush_chunks cs disk = Some (cs', disk') \<and> disk_ok disk' \<and> map ck_key cs' = map ck_key cs \<and> map chunk_p cs' = map chunk_p cs
     \<and> (\<forall>c\<in>set cs'. chunk_ok n i disk' c \<and> wr_cpt c = 0) \<and> (\<forall>k. valid_key k \<longrightarrow> (\<forall>c\<in>set cs. ck_key c \<noteq> k) \<longrightarrow> stored disk' k = stored disk k)"
  using assms
proof (induction cs arbitrary: disk)
  case (Cons c cs)
  have ap: "keys_apart cs" using Cons.prems(3) unfolding keys_apart_def by (metis Suc_less_eq length_Cons nat.inject nth_Cons_Suc)
  have apart: "ck_key x \<noteq> ck_key c" if "x \<in> set cs" "ck_key c \<noteq> 0" for x
  proof -
    obtain a where "a < length cs" "cs ! a = x" using \<open>x \<in> set cs\<close> by (auto simp: in_set_conv_nth)
    then show ?thesis using Cons.prems(3) that(2) unfolding keys_apart_def by (metis Suc_less_eq Zero_not_Suc length_Cons nth_Cons_0 nth_Cons_Suc zero_less_Suc)
  qed
  show ?case
  proof (cases "wr_cpt c = 0")
    case True
    obtain cs' disk' where r: "flush_chunks cs disk = Some (cs', disk')" "disk_ok disk'" "map ck_key cs' = map ck_key cs" "map chunk_p cs' = map chunk_p cs"
      "\<forall>c\<in>set cs'. chunk_ok n i disk' c \<and> wr_cpt c = 0" "\<forall>k. valid_key k \<longrightarrow> (\<forall>c\<in>set cs. ck_key c \<noteq> k) \<longrightarrow> stored disk' k = stored disk k"
      using Cons.IH[OF Cons.prems(1) _ ap] Cons.prems(2) by auto
    have "chunk_ok n i disk' c"
    proof (rule chunk_ok_disk[of n i disk])
      show "chunk_ok n i disk c" using Cons.prems(2) by simp
      then show "stored disk' (ck_key c) = stored disk (ck_key c)" if "ck_key c \<noteq> 0" using that apart r(6) by (auto simp: chunk_ok_def chunk_used_def)
    qed
    then show ?thesis using True r by simp
  next
    case False
    then have cu: "chunk_used n i disk c" using Cons.prems(2)[of c] by (auto simp: chunk_ok_def)
    then have k: "valid_key (ck_key c)" by (simp add: chunk_used_def)
    obtain disk1 p where w: "write_chunk c disk = Some (int DQUOT_SZ, disk1)" "chunk_p c = Some p" "disk_ok disk1"
      "\<And>k. valid_key k \<Longrightarrow> stored disk1 k = (if k = ck_key c then Some (dquot_bytes p) else stored disk k)" using write_chunk_ok[OF Cons.prems(1) cu] by blast
    have cs: "chunk_ok n i disk1 x" if "x \<in> set cs" for x
    proof (rule chunk_ok_disk[of n i disk])
      show ok: "chunk_ok n i disk x" using Cons.prems(2) that by simp
      show "stored disk1 (ck_key x) = stored disk (ck_key x)" if "ck_key x \<noteq> 0"
        using w(4)[of "ck_key x"] ok that apart[OF \<open>x \<in> set cs\<close>] valid_key_nonzero[OF k] by (auto simp: chunk_ok_def chunk_used_def)
    qed
    obtain cs' disk' where r: "flush_chunks cs disk1 = Some (cs', disk')" "disk_ok disk'" "map ck_key cs' = map ck_key cs" "map chunk_p cs' = map chunk_p cs"
      "\<forall>c\<in>set cs'. chunk_ok n i disk' c \<and> wr_cpt c = 0" "\<forall>k. valid_key k \<longrightarrow> (\<forall>c\<in>set cs. ck_key c \<noteq> k) \<longrightarrow> stored disk' k = stored disk1 k"
      using Cons.IH[OF w(3) cs ap] by auto
    have "stored disk' (ck_key c) = Some (dquot_bytes p)" using r(6) k apart valid_key_nonzero[OF k] w(4)[OF k] by auto
    then have "chunk_ok n i disk' (c\<lparr>wr_cpt := 0\<rparr>)" using cu w(2) by (auto simp: chunk_ok_def chunk_used_def)
    then show ?thesis using False w r by auto
  qed
qed simp


lemma cached_cong: "map ck_key cs' = map ck_key cs \<Longrightarrow> map chunk_p cs' = map chunk_p cs \<Longrightarrow> cached cs' k = cached cs k"
proof (induction cs arbitrary: cs')
  case (Cons c cs)
  then obtain c' cs'' where cs': "cs' = c' # cs''" by (cases cs') auto
  have "ck_key c' = ck_key c" "chunk_p c' = chunk_p c" "cached cs'' k = cached cs k" using Cons.prems Cons.IH[of cs''] unfolding cs' by simp_all
  then show ?case unfolding cs' cached_def by simp
qed simp

lemma keys_apart_cong: "map ck_key cs' = map ck_key cs \<Longrightarrow> keys_apart cs \<Longrightarrow> keys_apart cs'"
proof -
  assume h: "map ck_key cs' = map ck_key cs" "keys_apart cs"
  have l: "length cs' = length cs" by (rule map_eq_imp_length_eq[OF h(1)])
  have "ck_key (cs' ! a) = ck_key (cs ! a)" if "a < length cs" for a using arg_cong[OF h(1), of "\<lambda>xs. xs ! a"] that l by simp
  then show ?thesis using h(2) unfolding keys_apart_def l by presburger
qed

lemma store_change:
  assumes s: "store_ok m s" "n \<le> m" and i: "i < QUOTA_CACHE_MAX_ENTRY" and cs: "chunks_ok n i disk (wb_chunk e)" "length (wb_chunk e) = QUOTA_CACHE_MAX_CHUNK" "wb_state e = 0 \<Longrightarrow> \<not> quota_wbcache_check_write_pending e"
    and d: "disk_ok disk" "\<forall>k. valid_key k \<longrightarrow> quota_wbcache_get_index k \<noteq> i \<longrightarrow> stored disk k = stored (qs_disk s) k"
  defines "s' \<equiv> s\<lparr>qs_wb := (qs_wb s)[i := e], qs_disk := disk\<rparr>"
  shows "store_ok n s'"
    "valid_key k \<Longrightarrow> store_view s' k = (if quota_wbcache_get_index k = i then case cached (wb_chunk e) k of Some d \<Rightarrow> d | None \<Rightarrow> disk_view disk k else store_view s k)"
proof -
  have "chunks_ok n j disk (wb_chunk (qs_wb s ! j))" if "j < QUOTA_CACHE_MAX_ENTRY" "j \<noteq> i" for j
  proof -
    have o: "chunks_ok m j (qs_disk s) (wb_chunk (qs_wb s ! j))" using s(1) that(1) by (simp add: store_ok_def)
    have "chunk_ok n j disk c" if "c \<in> set (wb_chunk (qs_wb s ! j))" for c
    proof (rule chunk_ok_disk[of n j "qs_disk s"])
      have c: "chunk_ok m j (qs_disk s) c" using o that by (simp add: chunks_ok_def)
      then show "chunk_ok n j (qs_disk s) c" using s(2) by (auto simp: chunk_ok_def chunk_used_def)
      show "stored disk (ck_key c) = stored (qs_disk s) (ck_key c)" if "ck_key c \<noteq> 0"
        using c that d(2) \<open>j \<noteq> i\<close> by (auto simp: chunk_ok_def chunk_used_def)
    qed
    then show ?thesis using o by (simp add: chunks_ok_def)
  qed
  then show "store_ok n s'" using s i cs d(1) unfolding s'_def by (auto simp: store_ok_def nth_list_update)
  have "i < length (qs_wb s)" using s(1) i by (simp add: store_ok_def)
  then show "store_view s' k = (if quota_wbcache_get_index k = i then case cached (wb_chunk e) k of Some d \<Rightarrow> d | None \<Rightarrow> disk_view disk k else store_view s k)"
    if "valid_key k" using d(2) that unfolding s'_def by (auto simp: store_view_def nth_list_update disk_view_def split: option.splits)
qed

lemma diskflush_ok:
  assumes s: "store_ok n s" and i: "i < QUOTA_CACHE_MAX_ENTRY"
  shows "\<exists>s'. quota_wbcache_diskflush i s = Some s' \<and> store_ok n s' \<and> (\<forall>k. valid_key k \<longrightarrow> store_view s' k = store_view s k)
     \<and> (\<forall>k. valid_key k \<and> quota_wbcache_get_index k = i \<longrightarrow> disk_view (qs_disk s') k = store_view s k)
     \<and> (\<forall>k. valid_key k \<and> quota_wbcache_get_index k \<noteq> i \<longrightarrow> disk_view (qs_disk s') k = disk_view (qs_disk s) k)"
proof -
  let ?e = "qs_wb s ! i"
  have e: "chunks_ok n i (qs_disk s) (wb_chunk ?e)" "length (wb_chunk ?e) = QUOTA_CACHE_MAX_CHUNK" "disk_ok (qs_disk s)" "i < length (qs_wb s)"
    using s i by (auto simp: store_ok_def)
  then have c: "\<And>c. c \<in> set (wb_chunk ?e) \<Longrightarrow> chunk_ok n i (qs_disk s) c" and ap: "keys_apart (wb_chunk ?e)" by (auto simp: chunks_ok_def)
  obtain cs disk where f: "flush_chunks (wb_chunk ?e) (qs_disk s) = Some (cs, disk)" "disk_ok disk" "map ck_key cs = map ck_key (wb_chunk ?e)" "map chunk_p cs = map chunk_p (wb_chunk ?e)"
    "\<forall>c\<in>set cs. chunk_ok n i disk c \<and> wr_cpt c = 0" "\<forall>k. valid_key k \<longrightarrow> (\<forall>c\<in>set (wb_chunk ?e). ck_key c \<noteq> k) \<longrightarrow> stored disk k = stored (qs_disk s) k"
    using flush_chunks_ok[OF e(3) c ap] by blast
  let ?e' = "?e\<lparr>wb_chunk := cs\<rparr>" and ?s' = "s\<lparr>qs_wb := (qs_wb s)[i := ?e\<lparr>wb_chunk := cs\<rparr>], qs_disk := disk\<rparr>"
  have ap': "keys_apart cs" by (rule keys_apart_cong[OF f(3) ap])
  have ok: "chunks_ok n i disk (wb_chunk ?e')" "length (wb_chunk ?e') = QUOTA_CACHE_MAX_CHUNK"
    using f(5) ap' map_eq_imp_length_eq[OF f(3)] e(2) by (auto simp: chunks_ok_def)
  have st: "stored disk k = stored (qs_disk s) k" if "valid_key k" "\<forall>c\<in>set (wb_chunk ?e). ck_key c \<noteq> k" for k using f(6) that by blast
  have "ck_key x \<noteq> k" if "x \<in> set (wb_chunk ?e)" "valid_key k" "quota_wbcache_get_index k \<noteq> i" for x k
    using c[OF that(1)] that(2,3) valid_key_nonzero[OF that(2)] by (auto simp: chunk_ok_def chunk_used_def)
  then have out: "\<forall>k. valid_key k \<longrightarrow> quota_wbcache_get_index k \<noteq> i \<longrightarrow> stored disk k = stored (qs_disk s) k" using st by blast
  have clean: "\<not> quota_wbcache_check_write_pending ?e'" using f(5) by (simp add: quota_wbcache_check_write_pending_def)
  note sc = store_change[OF s order_refl i ok clean f(2) out]
  have none: "stored disk k = stored (qs_disk s) k" if "valid_key k" "cached (wb_chunk ?e) k = None" for k
  proof (rule st[OF that(1)], rule ballI)
    fix x assume x: "x \<in> set (wb_chunk ?e)"
    show "ck_key x \<noteq> k"
    proof
      assume "ck_key x = k"
      then have "chunk_p x = None" using cached_Some[OF ap valid_key_nonzero[OF that(1)] x] that(2) by simp
      then show False using c[OF x] valid_key_nonzero[OF that(1)] \<open>ck_key x = k\<close> by (auto simp: chunk_ok_def chunk_used_def)
    qed
  qed
  have view: "store_view ?s' k = store_view s k" if "valid_key k" for k
    using sc(2)[OF that] none[OF that] cached_cong[OF f(3,4), of k] by (auto simp: store_view_def disk_view_def split: option.splits)
  moreover have "disk_view disk k = store_view s k" if "valid_key k" "quota_wbcache_get_index k = i" for k
  proof (cases "cached (wb_chunk ?e) k")
    case None
    then show ?thesis using none[OF that(1)] that(2) by (simp add: store_view_def disk_view_def)
  next
    case (Some d)
    have "\<exists>x\<in>set cs. ck_key x = k" using cached_None[of cs k] Some cached_cong[OF f(3,4), of k] by force
    then obtain x where x: "x \<in> set cs" "ck_key x = k" by blast
    then have "chunk_p x = Some d" using cached_Some[OF ap' valid_key_nonzero[OF that(1)] x] Some cached_cong[OF f(3,4), of k] by simp
    then have "stored disk k = Some (dquot_bytes d)" using f(5) x valid_key_nonzero[OF that(1)] by (auto simp: chunk_ok_def chunk_used_def)
    then show ?thesis using Some that(2) by (simp add: disk_view_def store_view_def)
  qed
  moreover have "quota_wbcache_diskflush i s = Some ?s'" using f(1) e(4) by (simp add: quota_wbcache_diskflush_def arr_get_in arr_set_in)
  moreover have "disk_view disk k = disk_view (qs_disk s) k" if "valid_key k" "quota_wbcache_get_index k \<noteq> i" for k using out that by (simp add: disk_view_def)
  ultimately show ?thesis using sc(1) by auto
qed


lemma clean_view:
  assumes s: "store_ok n s" and k: "valid_key k" and clean: "\<not> quota_wbcache_check_write_pending (qs_wb s ! quota_wbcache_get_index k)"
  shows "disk_view (qs_disk s) k = store_view s k"
proof (cases "cached (wb_chunk (qs_wb s ! quota_wbcache_get_index k)) k")
  case (Some d)
  let ?cs = "wb_chunk (qs_wb s ! quota_wbcache_get_index k)"
  have cs: "chunks_ok n (quota_wbcache_get_index k) (qs_disk s) ?cs" using s index_less unfolding store_ok_def by blast
  obtain x where x: "x \<in> set ?cs" "ck_key x = k" using cached_None[of ?cs k] Some by force
  have "chunk_p x = Some d" using cached_Some[OF _ valid_key_nonzero[OF k] x] cs Some by (simp add: chunks_ok_def)
  then have "stored (qs_disk s) k = Some (dquot_bytes d)" using cs x clean valid_key_nonzero[OF k]
    by (auto simp: chunks_ok_def chunk_ok_def chunk_used_def quota_wbcache_check_write_pending_def)
  then show ?thesis using Some by (simp add: disk_view_def store_view_def)
qed (simp add: store_view_def)

lemma thread_entry_ok:
  assumes s: "store_ok n s" and i: "i < QUOTA_CACHE_MAX_ENTRY"
  shows "\<exists>s'. thread_entry i s = Some s' \<and> store_ok n s' \<and> (\<forall>k. valid_key k \<longrightarrow> store_view s' k = store_view s k)
     \<and> (\<forall>k. valid_key k \<and> quota_wbcache_get_index k = i \<longrightarrow> disk_view (qs_disk s') k = store_view s k)
     \<and> (\<forall>k. valid_key k \<and> quota_wbcache_get_index k \<noteq> i \<longrightarrow> disk_view (qs_disk s') k = disk_view (qs_disk s) k)"
proof (cases "quota_wbcache_check_write_pending (qs_wb s ! i)")
  case True
  then have "wb_state (qs_wb s ! i) \<noteq> 0" "i < length (qs_wb s)" using s i by (auto simp: store_ok_def)
  then have "thread_entry i s = quota_wbcache_diskflush i s" using True by (simp add: thread_entry_def arr_get_in)
  then show ?thesis using diskflush_ok[OF s i] by simp
next
  case False
  have "i < length (qs_wb s)" using s i by (auto simp: store_ok_def)
  then have "thread_entry i s = Some s" using False by (simp add: thread_entry_def arr_get_in)
  then show ?thesis using s clean_view[OF s] False by auto
qed

lemma thread_round:
  assumes "store_ok n s" "m \<le> QUOTA_CACHE_MAX_ENTRY"
  shows "\<exists>s'. foldM thread_entry [0..<m] s = Some s' \<and> store_ok n s' \<and> (\<forall>k. valid_key k \<longrightarrow> store_view s' k = store_view s k)
     \<and> (\<forall>k. valid_key k \<and> quota_wbcache_get_index k < m \<longrightarrow> disk_view (qs_disk s') k = store_view s k)"
  using assms(2)
proof (induction m)
  case (Suc m)
  then obtain t where t: "foldM thread_entry [0..<m] s = Some t" "store_ok n t" "\<forall>k. valid_key k \<longrightarrow> store_view t k = store_view s k"
    "\<forall>k. valid_key k \<and> quota_wbcache_get_index k < m \<longrightarrow> disk_view (qs_disk t) k = store_view s k" by auto
  obtain s' where s': "thread_entry m t = Some s'" "store_ok n s'" "\<forall>k. valid_key k \<longrightarrow> store_view s' k = store_view t k"
    "\<forall>k. valid_key k \<and> quota_wbcache_get_index k = m \<longrightarrow> disk_view (qs_disk s') k = store_view t k"
    "\<forall>k. valid_key k \<and> quota_wbcache_get_index k \<noteq> m \<longrightarrow> disk_view (qs_disk s') k = disk_view (qs_disk t) k"
    using thread_entry_ok[OF t(2), of m] Suc.prems by auto
  have "foldM thread_entry [0..<Suc m] s = Some s'" using t(1) s'(1) by (simp add: foldM_append)
  moreover have "disk_view (qs_disk s') k = store_view s k" if "valid_key k" "quota_wbcache_get_index k < Suc m" for k
    using s'(4,5) t(3,4) that by (cases "quota_wbcache_get_index k = m") (auto simp: less_Suc_eq)
  ultimately show ?case using s'(2,3) t(3) by auto
qed (use assms(1) in simp)

subsection \<open>Reads and writes\<close>

lemma search_chunk_found:
  "search_chunk key cs i f = Inl j \<Longrightarrow> i \<le> j \<and> j - i < length cs \<and> ck_key (cs ! (j - i)) = key"
proof (induction cs arbitrary: i f)
  case (Cons c cs)
  show ?case
  proof (cases "ck_key c = key")
    case False
    then have "search_chunk key cs (i + 1) (if (ck_key c = 0 \<or> wr_cpt c = 0) \<and> f = None then Some i else f) = Inl j" using Cons.prems by simp
    from Cons.IH[OF this] show ?thesis by (auto simp: nth_Cons' Suc_le_eq)
  qed (use Cons.prems in simp)
qed simp

lemma search_chunk_absent:
  "search_chunk key cs i f = Inr r \<Longrightarrow> (\<forall>c\<in>set cs. ck_key c \<noteq> key)
     \<and> (f \<noteq> None \<longrightarrow> r = f) \<and> (f = None \<longrightarrow> (case r of None \<Rightarrow> \<forall>c\<in>set cs. ck_key c \<noteq> 0 \<and> wr_cpt c \<noteq> 0
          | Some j \<Rightarrow> i \<le> j \<and> j - i < length cs \<and> (ck_key (cs ! (j - i)) = 0 \<or> wr_cpt (cs ! (j - i)) = 0)))"
proof (induction cs arbitrary: i f)
  case (Cons c cs)
  let ?f = "if (ck_key c = 0 \<or> wr_cpt c = 0) \<and> f = None then Some i else f"
  have k: "ck_key c \<noteq> key" and r: "search_chunk key cs (i + 1) ?f = Inr r" using Cons.prems by (auto split: if_splits)
  note ih = Cons.IH[OF r]
  show ?case
  proof (cases "ck_key c = 0 \<or> wr_cpt c = 0")
    case True
    then show ?thesis using ih k by (cases f) auto
  next
    case False
    then show ?thesis using ih k by (auto split: option.splits simp: nth_Cons' Suc_le_eq)
  qed
qed (auto split: option.splits)


definition entry_view :: "(table_ref \<Rightarrow> disk_tb) \<Rightarrow> quota_chunk_cache_t list \<Rightarrow> u64 \<Rightarrow> rozofs_dquot_t" where
  "entry_view disk cs k = (case cached cs k of Some d \<Rightarrow> d | None \<Rightarrow> disk_view disk k)"

lemma fill_chunk_ok:
  assumes cs: "chunks_ok (Suc n) i disk cs" and n: "Suc n < 2 ^ 32" and j: "j < length cs" and key: "valid_key (dq_key buf)" "quota_wbcache_get_index (dq_key buf) = i"
    and new: "only_at cs j (dq_key buf)" and free: "ck_key (cs ! j) = dq_key buf \<or> ck_key (cs ! j) = 0 \<or> wr_cpt (cs ! j) = 0"
  defines "cs' \<equiv> cs[j := fill_chunk (key_table (dq_key buf)) buf (cs ! j)]"
  shows "chunks_ok n i disk cs'" "valid_key k \<Longrightarrow> entry_view disk cs' k = (if k = dq_key buf then buf else entry_view disk cs k)"
proof -
  let ?c = "cs ! j" and ?k = "dq_key buf" let ?c' = "fill_chunk (key_table ?k) buf ?c"
  have c: "chunk_ok (Suc n) i disk ?c" and ap: "keys_apart cs" using cs j by (auto simp: chunks_ok_def)
  then have b: "unat (wr_cpt ?c) + Suc n < 2 ^ 32" using n by (auto simp: chunk_ok_def chunk_used_def)
  then have u: "unat (wr_cpt ?c + 1) = unat (wr_cpt ?c) + 1" by (simp add: unat_word_ariths(1))
  then have "wr_cpt ?c + 1 \<noteq> 0" by (metis add_is_0 one_neq_zero unat_0)
  then have c': "chunk_ok n i disk ?c'" using key b u by (simp add: chunk_ok_def chunk_used_def fill_chunk_def)
  have k': "ck_key ?c' = ?k" "chunk_p ?c' = Some buf" by (simp_all add: fill_chunk_def)
  have "chunk_ok n i disk x" if "x \<in> set cs'" for x
    using that c' cs set_update_subset_insert[of cs j ?c'] chunk_ok_less unfolding cs'_def chunks_ok_def by blast
  then show "chunks_ok n i disk cs'" using keys_apart_update[OF ap, of j ?c'] new k'(1) by (simp add: chunks_ok_def cs'_def)
  show "entry_view disk cs' k = (if k = ?k then buf else entry_view disk cs k)" if k: "valid_key k"
  proof (cases "k \<noteq> ?k \<and> k = ck_key ?c")
    case True
    then have "wr_cpt ?c = 0" "chunk_used (Suc n) i disk ?c" using free c valid_key_nonzero[OF k] by (auto simp: chunk_ok_def)
    then obtain d where d: "chunk_p ?c = Some d" "stored disk k = Some (dquot_bytes d)" using True by (auto simp: chunk_used_def)
    have "cached cs k = Some d" using cached_Some[OF ap valid_key_nonzero[OF k] nth_mem[OF j]] True d(1) by simp
    moreover have "cached cs' k = None" using cached_update[OF ap j _ valid_key_nonzero[OF k], of ?c'] new k' True by (auto simp: cs'_def)
    ultimately show ?thesis using True d(2) by (auto simp: entry_view_def disk_view_def)
  next
    case False
    then show ?thesis using cached_update[OF ap j _ valid_key_nonzero[OF k], of ?c'] new k' by (auto simp: entry_view_def cs'_def split: option.splits)
  qed
qed

lemma store_view_entry: "store_view s k = entry_view (qs_disk s) (wb_chunk (qs_wb s ! quota_wbcache_get_index k)) k"
  by (simp add: store_view_def entry_view_def)

lemma fill_entry_ok:
  assumes s: "store_ok (Suc n) s" and key: "valid_key (dq_key buf)" and j: "j < QUOTA_CACHE_MAX_CHUNK"
    and e: "chunks_ok (Suc n) (quota_wbcache_get_index (dq_key buf)) disk cs" "length cs = QUOTA_CACHE_MAX_CHUNK" "disk_ok disk"
    and st: "\<forall>k. valid_key k \<longrightarrow> quota_wbcache_get_index k \<noteq> quota_wbcache_get_index (dq_key buf) \<longrightarrow> stored disk k = stored (qs_disk s) k"
    and ev: "\<And>k. valid_key k \<Longrightarrow> quota_wbcache_get_index k = quota_wbcache_get_index (dq_key buf) \<Longrightarrow> entry_view disk cs k = store_view s k"
    and new: "only_at cs j (dq_key buf)" and free: "ck_key (cs ! j) = dq_key buf \<or> ck_key (cs ! j) = 0 \<or> wr_cpt (cs ! j) = 0"
    and e': "wb_chunk e' = cs[j := fill_chunk (key_table (dq_key buf)) buf (cs ! j)]" "wb_state e' = 1"
  defines "s' \<equiv> s\<lparr>qs_wb := (qs_wb s)[quota_wbcache_get_index (dq_key buf) := e'], qs_disk := disk\<rparr>"
  shows "store_ok n s' \<and> (\<forall>k. valid_key k \<longrightarrow> store_view s' k = (if k = dq_key buf then buf else store_view s k))"
proof -
  let ?i = "quota_wbcache_get_index (dq_key buf)"
  have n: "Suc n < 2 ^ 32" using s by (simp add: store_ok_def)
  have jl: "j < length cs" using j e(2) by simp
  note f = fill_chunk_ok[OF e(1) n jl key refl new free]
  have ok: "chunks_ok n ?i disk (wb_chunk e')" "length (wb_chunk e') = QUOTA_CACHE_MAX_CHUNK" "wb_state e' = 0 \<Longrightarrow> \<not> quota_wbcache_check_write_pending e'"
    using f(1) e(2) e' by simp_all
  note sc = store_change[OF s _ index_less ok e(3) st]
  have "store_view s' k = (if k = dq_key buf then buf else store_view s k)" if "valid_key k" for k
    using sc(2)[OF _ _ that] f(2)[OF that] ev[OF that] e'(1) unfolding s'_def by (auto simp: entry_view_def)
  then show ?thesis using sc(1) unfolding s'_def by simp
qed


lemma keys_apart_only_at: "keys_apart cs \<Longrightarrow> j < length cs \<Longrightarrow> ck_key (cs ! j) = key \<Longrightarrow> key \<noteq> 0 \<Longrightarrow> only_at cs j key"
  by (auto simp: keys_apart_def only_at_def)

lemma store_chunk_ok:
  assumes "qs_mem s = []" "j < length (wb_chunk e)"
  shows "store_chunk p buf j e s = Some (True, e\<lparr>wb_chunk := (wb_chunk e)[j := fill_chunk p buf (wb_chunk e ! j)]\<rparr>, s)"
  using assms by (simp add: store_chunk_def next_mem_def arr_get_in arr_set_in)

lemma write_back_ok:
  assumes d: "disk_ok disk" and cs: "chunks_ok n i disk cs" and j: "j < length cs" and cu: "chunk_used n i disk (cs ! j)"
  defines "cs' \<equiv> cs[j := (cs ! j)\<lparr>wr_cpt := 0\<rparr>]"
  obtains disk' where "write_chunk (cs ! j) disk = Some (int DQUOT_SZ, disk')" "disk_ok disk'" "chunks_ok n i disk' cs'"
    "\<forall>k. valid_key k \<longrightarrow> quota_wbcache_get_index k \<noteq> i \<longrightarrow> stored disk' k = stored disk k" "\<And>k. valid_key k \<Longrightarrow> entry_view disk' cs' k = entry_view disk cs k"
proof -
  let ?c = "cs ! j"
  obtain disk' p where w: "write_chunk ?c disk = Some (int DQUOT_SZ, disk')" "chunk_p ?c = Some p" "disk_ok disk'"
    "\<And>k. valid_key k \<Longrightarrow> stored disk' k = (if k = ck_key ?c then Some (dquot_bytes p) else stored disk k)" using write_chunk_ok[OF d cu] by blast
  have k: "valid_key (ck_key ?c)" "quota_wbcache_get_index (ck_key ?c) = i" using cu by (simp_all add: chunk_used_def)
  have ap: "keys_apart cs" using cs by (simp add: chunks_ok_def)
  have m: "map ck_key cs' = map ck_key cs" "map chunk_p cs' = map chunk_p cs" by (simp_all add: cs'_def map_update list_update_id[of "map _ cs" j, simplified nth_map[OF j]])
  have "chunk_ok n i disk' x" if x: "x \<in> set cs'" for x
  proof (cases "ck_key x = ck_key ?c")
    case True
    obtain a where a: "a < length cs" "x = cs' ! a" using x by (auto simp: in_set_conv_nth cs'_def)
    have "a = j" using True a ap j valid_key_nonzero[OF k(1)] unfolding keys_apart_def cs'_def by (metis nth_list_update_neq)
    then have "x = ?c\<lparr>wr_cpt := 0\<rparr>" using a j by (simp add: cs'_def)
    then show ?thesis using cu w(2) w(4)[OF k(1)] by (auto simp: chunk_ok_def chunk_used_def)
  next
    case False
    then have "x \<in> set cs" using x set_update_subset_insert[of cs j "?c\<lparr>wr_cpt := 0\<rparr>"] unfolding cs'_def by auto
    then have c: "chunk_ok n i disk x" using cs by (simp add: chunks_ok_def)
    show ?thesis by (rule chunk_ok_disk[OF c]) (use c False w(4) in \<open>auto simp: chunk_ok_def chunk_used_def\<close>)
  qed
  then have ok: "chunks_ok n i disk' cs'" using keys_apart_cong[OF m(1) ap] by (simp add: chunks_ok_def)
  have ev: "entry_view disk' cs' x = entry_view disk cs x" if "valid_key x" for x
  proof (cases "x = ck_key ?c")
    case True
    then show ?thesis using cached_cong[OF m] cached_Some[OF ap valid_key_nonzero[OF that] nth_mem[OF j]] w(2) by (simp add: entry_view_def)
  qed (use cached_cong[OF m] w(4)[OF that] in \<open>simp add: entry_view_def disk_view_def split: option.splits\<close>)
  show thesis by (rule that[OF w(1,3) ok _ ev]) (use w(4) k(2) in auto)
qed

lemma write_ok:
  assumes s: "store_ok (Suc n) s" and key: "valid_key (dq_key buf)"
  shows "\<exists>s'. quota_wbcache_write (key_table (dq_key buf)) buf s = Some (int DQUOT_SZ, s') \<and> store_ok n s'
     \<and> (\<forall>k. valid_key k \<longrightarrow> store_view s' k = (if k = dq_key buf then buf else store_view s k))"
proof -
  let ?k = "dq_key buf" let ?i = "quota_wbcache_get_index ?k" let ?e = "qs_wb s ! ?i" let ?cs = "wb_chunk ?e"
  have e: "chunks_ok (Suc n) ?i (qs_disk s) ?cs" "length ?cs = QUOTA_CACHE_MAX_CHUNK" "disk_ok (qs_disk s)" "?i < length (qs_wb s)" "qs_mem s = []"
    using s index_less[of ?k] unfolding store_ok_def by auto
  have ap: "keys_apart ?cs" using e(1) by (simp add: chunks_ok_def)
  have get: "arr_get (qs_wb s) (int ?i) = Some ?e" and set: "arr_set (qs_wb s) (int ?i) x = Some ((qs_wb s)[?i := x])" for x
    using e(4) by (simp_all add: arr_get_in arr_set_in)
  have sd: "s\<lparr>qs_wb := w\<rparr> = s\<lparr>qs_wb := w, qs_disk := qs_disk s\<rparr>" for w by simp
  have here: "\<exists>s'. (\<exists>e'. s' = s\<lparr>qs_wb := (qs_wb s)[?i := e'\<lparr>wb_chunk := ?cs[j := fill_chunk (key_table ?k) buf (?cs ! j)], wb_state := 1\<rparr>]\<rparr> \<and> e' = ?e) \<and> store_ok n s'
     \<and> (\<forall>k. valid_key k \<longrightarrow> store_view s' k = (if k = ?k then buf else store_view s k))"
    if j: "j < QUOTA_CACHE_MAX_CHUNK" "only_at ?cs j ?k" "ck_key (?cs ! j) = ?k \<or> ck_key (?cs ! j) = 0 \<or> wr_cpt (?cs ! j) = 0" for j
    using fill_entry_ok[OF s key j(1) e(1,2,3) _ _ j(2,3), of "?e\<lparr>wb_chunk := ?cs[j := fill_chunk (key_table ?k) buf (?cs ! j)], wb_state := 1\<rparr>"]
    by (auto simp: store_view_entry)
  show ?thesis
  proof (cases "search_chunk ?k ?cs 0 None")
    case (Inl j)
    then have j: "j < length ?cs" "ck_key (?cs ! j) = ?k" using search_chunk_found by fastforce+
    have "quota_wbcache_write (key_table ?k) buf s = Some (int DQUOT_SZ, s\<lparr>qs_wb := (qs_wb s)[?i := ?e\<lparr>wb_chunk := ?cs[j := fill_chunk (key_table ?k) buf (?cs ! j)], wb_state := 1\<rparr>]\<rparr>)"
      using Inl get set store_chunk_ok[OF e(5) j(1), of "key_table ?k" buf] by (simp add: quota_wbcache_write_def)
    then show ?thesis using here[of j] j e(2) keys_apart_only_at[OF ap j valid_key_nonzero[OF key]] by auto
  next
    case (Inr r)
    note ab = search_chunk_absent[OF Inr]
    show ?thesis
    proof (cases r)
      case (Some j)
      then have j: "j < length ?cs" "ck_key (?cs ! j) = 0 \<or> wr_cpt (?cs ! j) = 0" using ab by auto
      have "quota_wbcache_write (key_table ?k) buf s = Some (int DQUOT_SZ, s\<lparr>qs_wb := (qs_wb s)[?i := ?e\<lparr>wb_chunk := ?cs[j := fill_chunk (key_table ?k) buf (?cs ! j)], wb_state := 1\<rparr>]\<rparr>)"
        using Inr Some get set store_chunk_ok[OF e(5) j(1), of "key_table ?k" buf] by (simp add: quota_wbcache_write_def)
      moreover have "only_at ?cs j ?k" using ab by (auto simp: only_at_def)
      ultimately show ?thesis using here[of j] j e(2) by auto
    next
      case None
      have l: "0 < length ?cs" using e(2) by (simp add: QUOTA_CACHE_MAX_CHUNK_def)
      let ?c = "?cs ! 0"
      have dirty: "ck_key ?c \<noteq> 0" "wr_cpt ?c \<noteq> 0" "ck_key ?c \<noteq> ?k" using ab None l nth_mem[OF l] by auto
      then have cu: "chunk_used (Suc n) ?i (qs_disk s) ?c" using e(1) nth_mem[OF l] by (auto simp: chunks_ok_def chunk_ok_def)
      let ?cs1 = "?cs[0 := ?c\<lparr>wr_cpt := 0\<rparr>]"
      obtain disk where w: "write_chunk ?c (qs_disk s) = Some (int DQUOT_SZ, disk)" "disk_ok disk" "chunks_ok (Suc n) ?i disk ?cs1"
        "\<forall>k. valid_key k \<longrightarrow> quota_wbcache_get_index k \<noteq> ?i \<longrightarrow> stored disk k = stored (qs_disk s) k" "\<And>k. valid_key k \<Longrightarrow> entry_view disk ?cs1 k = entry_view (qs_disk s) ?cs k"
        using write_back_ok[OF e(3,1) l cu] by blast
      let ?e' = "?e\<lparr>wb_chunk := ?cs1[0 := fill_chunk (key_table ?k) buf (?cs1 ! 0)], wb_state := 1\<rparr>"
      let ?s' = "s\<lparr>qs_wb := (qs_wb s)[?i := ?e'], qs_disk := disk\<rparr>"
      have o: "only_at ?cs1 0 ?k" using ab by (auto simp: only_at_def)
      have l1: "length ?cs1 = QUOTA_CACHE_MAX_CHUNK" "0 < QUOTA_CACHE_MAX_CHUNK" "wr_cpt (?cs1 ! 0) = 0" using e(2) l by simp_all
      have ok: "store_ok n ?s' \<and> (\<forall>k. valid_key k \<longrightarrow> store_view ?s' k = (if k = ?k then buf else store_view s k))"
        by (rule fill_entry_ok[OF s key l1(2) w(3) l1(1) w(2,4) _ o]) (use w(5) l1(3) in \<open>simp_all add: store_view_entry\<close>)
      have "quota_wbcache_chunk_diskflush ?e (qs_disk s) = Some (0, ?e\<lparr>wb_chunk := ?cs1\<rparr>, disk)"
        using w(1) l by (simp add: quota_wbcache_chunk_diskflush_def arr_get_in arr_set_in)
      moreover have "store_chunk (key_table ?k) buf 0 (?e\<lparr>wb_chunk := ?cs1\<rparr>) (s\<lparr>qs_disk := disk\<rparr>) = Some (True, ?e'\<lparr>wb_state := wb_state ?e\<rparr>, s\<lparr>qs_disk := disk\<rparr>)"
        using store_chunk_ok[of "s\<lparr>qs_disk := disk\<rparr>" 0 "?e\<lparr>wb_chunk := ?cs1\<rparr>" "key_table ?k" buf] e(5) l by simp
      ultimately have "quota_wbcache_write (key_table ?k) buf s = Some (int DQUOT_SZ, ?s')"
        using Inr None get set by (simp add: quota_wbcache_write_def)
      with ok show ?thesis by blast
    qed
  qed
qed


lemma same_tables:
  assumes s: "store_ok n s" and t: "tb_ok DQUOT_SZ 18 t" "tb_map t = tb_map (qs_disk s p)"
  shows "store_ok n (s\<lparr>qs_disk := (qs_disk s)(p := t)\<rparr>)" "store_view (s\<lparr>qs_disk := (qs_disk s)(p := t)\<rparr>) = store_view s"
proof -
  have st: "stored ((qs_disk s)(p := t)) = stored (qs_disk s)" using t(2) by (auto simp: stored_def fun_eq_iff)
  then show "store_ok n (s\<lparr>qs_disk := (qs_disk s)(p := t)\<rparr>)"
    using s t(1) unfolding store_ok_def disk_ok_def chunks_ok_def chunk_ok_def chunk_used_def by simp
  show "store_view (s\<lparr>qs_disk := (qs_disk s)(p := t)\<rparr>) = store_view s" using st by (simp add: store_view_def disk_view_def fun_eq_iff split: option.splits)
qed

lemma read_ok:
  assumes s: "store_ok n s" and key: "valid_key k" and b: "dq_key buf = k" "dq_quota buf = zero_dqblk"
  shows "\<exists>s'. quota_wbcache_read (key_table k) buf s = Some (int DQUOT_SZ, store_view s k, s') \<and> store_ok n s' \<and> (\<forall>k'. valid_key k' \<longrightarrow> store_view s' k' = store_view s k')"
proof (cases "cached (wb_chunk (qs_wb s ! quota_wbcache_get_index k)) k")
  case None
  let ?q = "unat (key_qid k)"
  have i: "quota_wbcache_get_index k < length (qs_wb s)" and d: "disk_ok (qs_disk s)" using s by (simp_all add: store_ok_def)
  have tb: "tb_ok DQUOT_SZ 18 (qs_disk s (key_table k))" using d unfolding disk_ok_def by blast
  have z: "buf = zero_dquot k" using b by (simp add: zero_dquot_def)
  obtain t where t: "disk_tb_read_entry ?q (dquot_bytes buf) (qs_disk s (key_table k)) = Some (case stored (qs_disk s) k of None \<Rightarrow> 0 | Some d \<Rightarrow> int DQUOT_SZ,
      case stored (qs_disk s) k of None \<Rightarrow> dquot_bytes buf | Some d \<Rightarrow> d @ drop DQUOT_SZ (dquot_bytes buf), t)" "tb_ok DQUOT_SZ 18 t" "tb_map t = tb_map (qs_disk s (key_table k))"
    using read_entry_ok[OF tb key_qid_range, of k "dquot_bytes buf"] unfolding stored_def by blast
  let ?disk = "(qs_disk s)(key_table k := t)" let ?s' = "s\<lparr>qs_disk := ?disk\<rparr>"
  have "quota_wbcache_read (key_table k) buf s = Some (int DQUOT_SZ, store_view s k, ?s')"
    using None i t(1) b(1) z by (simp add: quota_wbcache_read_def arr_get_in cached_def store_view_def disk_view_def split: option.splits)
  moreover note same_tables[OF s t(2,3)]
  ultimately show ?thesis by simp
next
  case (Some d)
  have "quota_wbcache_get_index k < length (qs_wb s)" using s by (simp add: store_ok_def)
  then have "quota_wbcache_read (key_table k) buf s = Some (int DQUOT_SZ, d, s)" using Some b(1) by (simp add: quota_wbcache_read_def arr_get_in cached_def)
  then show ?thesis using s Some by (simp add: store_view_def)
qed

lemma store_view_key: "store_ok n s \<Longrightarrow> valid_key k \<Longrightarrow> dq_key (store_view s k) = k"
proof -
  assume s: "store_ok n s" and k: "valid_key k"
  let ?cs = "wb_chunk (qs_wb s ! quota_wbcache_get_index k)"
  have cs: "chunks_ok n (quota_wbcache_get_index k) (qs_disk s) ?cs" and d: "disk_ok (qs_disk s)" using s by (simp_all add: store_ok_def)
  show ?thesis
  proof (cases "cached ?cs k")
    case None
    have "dq_key (bytes_dquot b) = k" if "stored (qs_disk s) k = Some b" for b using d k that bytes_dquot_dquot_bytes unfolding disk_ok_def by metis
    then show ?thesis using None by (auto simp: store_view_def disk_view_def zero_dquot_def split: option.splits)
  next
    case (Some d)
    obtain x where x: "x \<in> set ?cs" "ck_key x = k" using cached_None[of ?cs k] Some by force
    then have "chunk_p x = Some d" "chunk_used n (quota_wbcache_get_index k) (qs_disk s) x"
      using cached_Some[OF _ valid_key_nonzero[OF k] x] cs Some valid_key_nonzero[OF k] by (auto simp: chunks_ok_def chunk_ok_def)
    then show ?thesis using x Some by (auto simp: chunk_used_def store_view_def)
  qed
qed

subsection \<open>Sessions\<close>

text \<open>What the quota service and the write-back thread do in turn.\<close>

datatype wb_op = Wb_read u64 | Wb_write rozofs_dquot_t | Wb_flush nat

primrec wb_op_ok :: "wb_op \<Rightarrow> bool" where
  "wb_op_ok (Wb_read k) \<longleftrightarrow> valid_key k"
| "wb_op_ok (Wb_write d) \<longleftrightarrow> valid_key (dq_key d)"
| "wb_op_ok (Wb_flush i) \<longleftrightarrow> i < QUOTA_CACHE_MAX_ENTRY"

primrec wb_run :: "wb_op \<Rightarrow> quota_store \<Rightarrow> (rozofs_dquot_t option \<times> quota_store) option" where
  "wb_run (Wb_read k) s = do { (ret, d, s) \<leftarrow> quota_wbcache_read (key_table k) (zero_dquot k) s; Some (if ret < 0 then None else Some d, s) }"
| "wb_run (Wb_write d) s = do { (ret, s) \<leftarrow> quota_wbcache_write (key_table (dq_key d)) d s; Some (if ret < 0 then None else Some d, s) }"
| "wb_run (Wb_flush i) s = do { s \<leftarrow> thread_entry i s; Some (None, s) }"

text \<open>The specification: a function from keys to quotas.\<close>

primrec wb_spec :: "wb_op \<Rightarrow> (u64 \<Rightarrow> rozofs_dquot_t) \<Rightarrow> rozofs_dquot_t option \<Rightarrow> (u64 \<Rightarrow> rozofs_dquot_t) \<Rightarrow> bool" where
  "wb_spec (Wb_read k) m r m' \<longleftrightarrow> r = Some (m k) \<and> m' = m"
| "wb_spec (Wb_write d) m r m' \<longleftrightarrow> r = Some d \<and> m' = m(dq_key d := d)"
| "wb_spec (Wb_flush i) m r m' \<longleftrightarrow> r = None \<and> m' = m"

definition quotas :: "quota_store \<Rightarrow> u64 \<Rightarrow> rozofs_dquot_t" where
  "quotas s k = (if valid_key k then store_view s k else zero_dquot k)"

lemma store_ok_less: "store_ok (Suc n) s \<Longrightarrow> store_ok n s"
  unfolding store_ok_def chunks_ok_def using chunk_ok_less by auto

lemma wb_step:
  assumes s: "store_ok (Suc n) s" and q: "wb_op_ok q"
  shows "\<exists>r s'. wb_run q s = Some (r, s') \<and> store_ok n s' \<and> wb_spec q (quotas s) r (quotas s')"
proof (cases q)
  case (Wb_read k)
  then show ?thesis using read_ok[OF store_ok_less[OF s], of k "zero_dquot k"] q by (fastforce simp: zero_dquot_def quotas_def DQUOT_SZ_def)
next
  case (Wb_write d)
  then show ?thesis using write_ok[OF s, of d] q by (fastforce simp: quotas_def DQUOT_SZ_def)
next
  case (Wb_flush i)
  then show ?thesis using thread_entry_ok[OF store_ok_less[OF s], of i] q by (fastforce simp: quotas_def)
qed

interpretation wb: budget_contract store_ok wb_op_ok wb_run quotas wb_spec
  using wb_step by unfold_locales blast

lemma init_ok:
  assumes "disk_ok disk" "n < 2 ^ 32"
  shows "store_ok n (quota_wbcache_init disk)" "store_view (quota_wbcache_init disk) k = disk_view disk k"
proof -
  let ?c = "\<lparr>wr_cpt = 0, ck_size = 0, ck_key = 0, ctx_p = (0, 0), chunk_p = None\<rparr> :: quota_chunk_cache_t"
  let ?cs = "replicate QUOTA_CACHE_MAX_CHUNK ?c"
  have "chunks_ok n i disk ?cs" for i by (simp add: chunks_ok_def chunk_ok_def keys_apart_def)
  then show "store_ok n (quota_wbcache_init disk)" using assms by (simp add: store_ok_def quota_wbcache_init_def quota_wbcache_check_write_pending_def)
  have "cached (replicate m ?c) k = None" for m by (induction m) (simp_all add: cached_def)
  then show "store_view (quota_wbcache_init disk) k = disk_view disk k" by (simp add: store_view_def quota_wbcache_init_def)
qed

lemma empty_disk_ok: "disk_ok (\<lambda>_. empty_table DQUOT_SZ 18)" "disk_view (\<lambda>_. empty_table DQUOT_SZ 18) k = zero_dquot k"
  using empty_table_ok[of DQUOT_SZ 18] by (simp_all add: disk_ok_def disk_view_def stored_def DQUOT_SZ_def)

text \<open>A round of the write-back thread leaves every quota on disk.\<close>

lemma round_saves:
  assumes "store_ok n s"
  shows "\<exists>s'. quota_wbcache_thread s = Some s' \<and> store_ok n s' \<and> quotas s' = quotas s
     \<and> (\<forall>k. quotas (quota_wbcache_init (qs_disk s')) k = quotas s k)"
proof -
  obtain s' where s': "quota_wbcache_thread s = Some s'" "store_ok n s'" "\<forall>k. valid_key k \<longrightarrow> store_view s' k = store_view s k"
    "\<forall>k. valid_key k \<longrightarrow> disk_view (qs_disk s') k = store_view s k" using thread_round[OF assms, of QUOTA_CACHE_MAX_ENTRY] unfolding quota_wbcache_thread_def by auto
  have "disk_ok (qs_disk s')" using s'(2) by (simp add: store_ok_def)
  then show ?thesis using s' init_ok(2)[of "qs_disk s'" 0] by (auto simp: quotas_def fun_eq_iff)
qed

section \<open>Properties\<close>

text \<open>
  C12. The write-back cache over its tables is a function from keys to quotas: over every sequence of reads, writes and flushes by the thread, when no system call fails, every request
  returns, a read gives the quota written last for its key, or a quota of zeros, and flushes change nothing of it. The number of writes is bounded: the counter of a chunk has 32 bits.
\<close>

theorem quota_wbcache_refines:
  assumes "store_ok (length qs + n) s" "\<forall>q\<in>set qs. wb_op_ok q"
  shows "\<exists>rs s'. session wb_run qs s = Some (rs, s') \<and> store_ok n s' \<and> session_spec wb_spec qs (quotas s) rs (quotas s')"
  using wb.session_within[OF assms(1)] assms(2) by blast

lemma a_key: "valid_key (quota_key 1 0 5)" "valid_key (quota_key 1 0 6)" "quota_key 1 0 5 \<noteq> quota_key 1 0 6"
  using quota_key_fields[of 1 0 5] quota_key_fields[of 1 0 6] by auto

theorem quota_wbcache_refines_witness:
  "let k = quota_key 1 0 5; d = \<lparr>dq_key = k, dq_quota = zero_dqblk\<lparr>dqb_curspace := 7\<rparr>\<rparr>; k' = quota_key 1 0 6 in
   \<exists>s'. session wb_run [Wb_write d, Wb_flush 3, Wb_read k, Wb_read k'] (quota_wbcache_init (\<lambda>_. empty_table DQUOT_SZ 18)) = Some ([Some d, None, Some d, Some (zero_dquot k')], s')"
proof -
  let ?s = "quota_wbcache_init (\<lambda>_. empty_table DQUOT_SZ 18)" and ?k = "quota_key 1 0 5"
  let ?d = "\<lparr>dq_key = ?k, dq_quota = zero_dqblk\<lparr>dqb_curspace := 7\<rparr>\<rparr>"
  let ?qs = "[Wb_write ?d, Wb_flush 3, Wb_read ?k, Wb_read (quota_key 1 0 6)]"
  have q: "quotas ?s (quota_key 1 0 6) = zero_dquot (quota_key 1 0 6)" using init_ok(2)[OF empty_disk_ok(1), of 0] empty_disk_ok(2) by (simp add: quotas_def)
  have "\<forall>q\<in>set ?qs. wb_op_ok q" using a_key by (simp add: QUOTA_CACHE_MAX_ENTRY_def)
  from quota_wbcache_refines[OF init_ok(1)[OF empty_disk_ok(1)] this, of 0] obtain rs s' where
    "session wb_run ?qs ?s = Some (rs, s')" "session_spec wb_spec ?qs (quotas ?s) rs (quotas s')" by auto
  then show ?thesis using q a_key(3) unfolding Let_def by (auto simp: session_spec_simps simp del: wb_run.simps session.simps)
qed



end
