(* ===== verification/Htable.thy ===== *)
theory Htable
  imports Contract
begin

text \<open>
  The hash tables of \<^verbatim>\<open>rozofs/common/htable.c\<close> and \<^verbatim>\<open>htable.h\<close>. A bucket is the sequence of the entries of its linked list; a value is a pointer, 0 when it is
  null. The hash and the comparison of the keys are arguments of the table. The functions for several threads take the hash from the caller; their sections under the lock are
  separate definitions.
\<close>

section \<open>Model\<close>

definition ROZOFS_HTABLE_MAX_LOCK :: nat where "ROZOFS_HTABLE_MAX_LOCK = 16"

record 'k hash_entry =
  he_list :: nat
  he_key :: 'k
  he_value :: nat

record 'k htable =
  ht_hash :: "'k \<Rightarrow> u32"
  ht_cmp :: "'k \<Rightarrow> 'k \<Rightarrow> int"
  ht_size :: nat
  ht_lock_size :: nat
  ht_buckets :: "'k hash_entry list list"

definition htable_initialize :: "nat \<Rightarrow> ('k \<Rightarrow> u32) \<Rightarrow> ('k \<Rightarrow> 'k \<Rightarrow> int) \<Rightarrow> 'k htable" where
  "htable_initialize sz hash cmp =
     \<lparr>ht_hash = hash, ht_cmp = cmp, ht_size = sz, ht_lock_size = ROZOFS_HTABLE_MAX_LOCK, ht_buckets = replicate sz []\<rparr>"

definition htable_initialize_th :: "nat \<Rightarrow> nat \<Rightarrow> ('k \<Rightarrow> u32) \<Rightarrow> ('k \<Rightarrow> 'k \<Rightarrow> int) \<Rightarrow> 'k htable" where
  "htable_initialize_th sz lock_size hash cmp =
     \<lparr>ht_hash = hash, ht_cmp = cmp, ht_size = sz,
      ht_lock_size = (if lock_size > ROZOFS_HTABLE_MAX_LOCK then ROZOFS_HTABLE_MAX_LOCK else lock_size), ht_buckets = replicate sz []\<rparr>"

definition bucket_index :: "'k htable \<Rightarrow> u32 \<Rightarrow> int option" where
  "bucket_index h hash = (if ht_size h = 0 then None else Some (int (unat hash mod ht_size h)))"

definition with_bucket :: "'k htable \<Rightarrow> u32 \<Rightarrow> ('k hash_entry list \<Rightarrow> 'r \<times> 'k hash_entry list) \<Rightarrow> ('r \<times> 'k htable) option" where
  "with_bucket h hash f = do {
     i \<leftarrow> bucket_index h hash;
     b \<leftarrow> arr_get (ht_buckets h) i;
     let (r, b) = f b;
     bs \<leftarrow> arr_set (ht_buckets h) i b;
     Some (r, h\<lparr>ht_buckets := bs\<rparr>) }"

text \<open>The loops on a bucket: replace the value of the entry of a key, find it, remove it.\<close>

fun bucket_replace :: "('k \<Rightarrow> 'k \<Rightarrow> int) \<Rightarrow> 'k \<Rightarrow> nat \<Rightarrow> 'k hash_entry list \<Rightarrow> bool \<times> 'k hash_entry list" where
  "bucket_replace cmp key value [] = (False, [])"
| "bucket_replace cmp key value (he # b) =
     (if cmp (he_key he) key = 0 then (True, he\<lparr>he_value := value\<rparr> # b)
      else (case bucket_replace cmp key value b of (found, b) \<Rightarrow> (found, he # b)))"

fun bucket_get :: "('k \<Rightarrow> 'k \<Rightarrow> int) \<Rightarrow> 'k \<Rightarrow> 'k hash_entry list \<Rightarrow> nat" where
  "bucket_get cmp key [] = 0"
| "bucket_get cmp key (he # b) = (if cmp (he_key he) key = 0 then he_value he else bucket_get cmp key b)"

fun bucket_del :: "('k \<Rightarrow> 'k \<Rightarrow> int) \<Rightarrow> 'k \<Rightarrow> 'k hash_entry list \<Rightarrow> nat \<times> 'k hash_entry list" where
  "bucket_del cmp key [] = (0, [])"
| "bucket_del cmp key (he # b) =
     (if cmp (he_key he) key = 0 then (he_value he, b) else (case bucket_del cmp key b of (value, b) \<Rightarrow> (value, he # b)))"

definition htable_put :: "'k \<Rightarrow> nat \<Rightarrow> nat \<Rightarrow> 'k htable \<Rightarrow> 'k htable option" where
  "htable_put key value new h = map_option snd (with_bucket h (ht_hash h key) (\<lambda>b.
     case bucket_replace (ht_cmp h) key value b of (found, b) \<Rightarrow> ((), if found then b else b @ [\<lparr>he_list = new, he_key = key, he_value = value\<rparr>])))"

definition htable_get :: "'k \<Rightarrow> 'k htable \<Rightarrow> nat option" where
  "htable_get key h = do { i \<leftarrow> bucket_index h (ht_hash h key); b \<leftarrow> arr_get (ht_buckets h) i; Some (bucket_get (ht_cmp h) key b) }"

definition htable_del :: "'k \<Rightarrow> 'k htable \<Rightarrow> (nat \<times> 'k htable) option" where
  "htable_del key h = with_bucket h (ht_hash h key) (bucket_del (ht_cmp h) key)"

definition htable_put_entry :: "'k hash_entry \<Rightarrow> 'k htable \<Rightarrow> 'k htable option" where
  "htable_put_entry entry h = map_option snd (with_bucket h (ht_hash h (he_key entry)) (\<lambda>b. ((), entry # b)))"

definition htable_del_entry :: "nat \<Rightarrow> 'k htable \<Rightarrow> 'k htable" where
  "htable_del_entry entry h = h\<lparr>ht_buckets := map (filter (\<lambda>he. he_list he \<noteq> entry)) (ht_buckets h)\<rparr>"

definition htable_release :: "'k htable \<Rightarrow> nat list \<times> 'k htable" where
  "htable_release h = (map he_list (concat (ht_buckets h)), h\<lparr>ht_buckets := [], ht_size := 0\<rparr>)"

definition htable_get_th :: "'k \<Rightarrow> u32 \<Rightarrow> 'k htable \<Rightarrow> nat option" where
  "htable_get_th key hash h = do { i \<leftarrow> bucket_index h hash; b \<leftarrow> arr_get (ht_buckets h) i; Some (bucket_get (ht_cmp h) key b) }"

definition htable_del_th :: "'k \<Rightarrow> u32 \<Rightarrow> 'k htable \<Rightarrow> (nat \<times> 'k htable) option" where
  "htable_del_th key hash h = with_bucket h hash (bucket_del (ht_cmp h) key)"

text \<open>The two sections of \<^verbatim>\<open>htable_put_th\<close>: the search under the read lock and the insertion under the write lock.\<close>

definition put_th_search :: "'k \<Rightarrow> nat \<Rightarrow> u32 \<Rightarrow> 'k htable \<Rightarrow> (bool \<times> 'k htable) option" where
  "put_th_search key value hash h = with_bucket h hash (bucket_replace (ht_cmp h) key value)"

definition put_th_insert :: "'k \<Rightarrow> nat \<Rightarrow> nat \<Rightarrow> u32 \<Rightarrow> 'k htable \<Rightarrow> 'k htable option" where
  "put_th_insert key value new hash h = map_option snd (with_bucket h hash (\<lambda>b. ((), b @ [\<lparr>he_list = new, he_key = key, he_value = value\<rparr>])))"

definition htable_put_th :: "'k \<Rightarrow> nat \<Rightarrow> nat \<Rightarrow> u32 \<Rightarrow> 'k htable \<Rightarrow> 'k htable option" where
  "htable_put_th key value new hash h = do {
     (found, h) \<leftarrow> put_th_search key value hash h;
     if found then Some h else put_th_insert key value new hash h }"

section \<open>Well-formed tables\<close>

text \<open>What a table asks of its keys: the comparison is an equivalence and equal keys have the same hash.\<close>

locale hash_keys =
  fixes hash :: "'k \<Rightarrow> u32" and cmp :: "'k \<Rightarrow> 'k \<Rightarrow> int"
  assumes cmp_refl [simp]: "cmp a a = 0"
    and cmp_sym: "cmp a b = 0 \<Longrightarrow> cmp b a = 0"
    and cmp_trans: "cmp a b = 0 \<Longrightarrow> cmp b c = 0 \<Longrightarrow> cmp a c = 0"
    and cmp_hash: "cmp a b = 0 \<Longrightarrow> hash a = hash b"

definition bucket_of :: "('k \<Rightarrow> u32) \<Rightarrow> nat \<Rightarrow> 'k \<Rightarrow> nat" where
  "bucket_of hash sz k = unat (hash k) mod sz"

definition htable_ok :: "('k \<Rightarrow> u32) \<Rightarrow> ('k \<Rightarrow> 'k \<Rightarrow> int) \<Rightarrow> nat \<Rightarrow> 'k htable \<Rightarrow> bool" where
  "htable_ok hash cmp sz h \<longleftrightarrow> ht_hash h = hash \<and> ht_cmp h = cmp \<and> ht_size h = sz \<and> 0 < sz \<and> length (ht_buckets h) = sz
     \<and> (\<forall>i < sz. (\<forall>he\<in>set (ht_buckets h ! i). bucket_of hash sz (he_key he) = i)
          \<and> sorted_wrt (\<lambda>a b. cmp (he_key a) (he_key b) \<noteq> 0) (ht_buckets h ! i))"

definition htable_map :: "'k htable \<Rightarrow> 'k \<Rightarrow> nat" where
  "htable_map h k = bucket_get (ht_cmp h) k (ht_buckets h ! (unat (ht_hash h k) mod ht_size h))"

text \<open>The keys that a table holds, in the order of the buckets.\<close>

definition htable_entries :: "'k htable \<Rightarrow> 'k hash_entry list" where
  "htable_entries h = concat (ht_buckets h)"

lemma with_bucket_ok:
  assumes "htable_ok hash cmp sz h"
  shows "with_bucket h hs f = (case f (ht_buckets h ! (unat hs mod sz)) of (r, b) \<Rightarrow> Some (r, h\<lparr>ht_buckets := (ht_buckets h)[unat hs mod sz := b]\<rparr>))"
  using assms by (simp add: with_bucket_def bucket_index_def htable_ok_def arr_get_in arr_set_in Let_def nat_mod_distrib split: prod.splits)

context hash_keys
begin

lemma cmp_cong: "cmp a b = 0 \<Longrightarrow> cmp c a = 0 \<longleftrightarrow> cmp c b = 0"
  using cmp_sym cmp_trans by blast

lemma cmp_left: "cmp a b = 0 \<Longrightarrow> cmp a c = 0 \<longleftrightarrow> cmp b c = 0"
  using cmp_sym cmp_trans by blast

lemma cmp_apart: "cmp a b \<noteq> 0 \<Longrightarrow> cmp a c = 0 \<Longrightarrow> cmp b c \<noteq> 0"
  using cmp_sym cmp_trans by blast

lemma replace_ok:
  assumes "bucket_replace cmp key value b = (found, b')" "sorted_wrt (\<lambda>a b. cmp (he_key a) (he_key b) \<noteq> 0) b"
  shows "map he_key b' = map he_key b" "found \<longleftrightarrow> (\<exists>he\<in>set b. cmp (he_key he) key = 0)"
    "found \<Longrightarrow> bucket_get cmp k b' = (if cmp key k = 0 then value else bucket_get cmp k b)" "\<not> found \<Longrightarrow> b' = b"
proof -
  have "map he_key b' = map he_key b \<and> (found \<longleftrightarrow> (\<exists>he\<in>set b. cmp (he_key he) key = 0))
     \<and> (found \<longrightarrow> bucket_get cmp k b' = (if cmp key k = 0 then value else bucket_get cmp k b)) \<and> (\<not> found \<longrightarrow> b' = b)"
    using assms
  proof (induction b arbitrary: b' found)
    case (Cons he b)
    show ?case
    proof (cases "cmp (he_key he) key = 0")
      case True
      then show ?thesis using Cons.prems(1) cmp_left[OF True, of k] by auto
    next
      case False
      obtain f c where fc: "bucket_replace cmp key value b = (f, c)" by fastforce
      then show ?thesis using Cons.IH[OF fc] Cons.prems False cmp_apart[OF False, of k] by auto
    qed
  qed simp
  then show "map he_key b' = map he_key b" "found \<longleftrightarrow> (\<exists>he\<in>set b. cmp (he_key he) key = 0)"
    "found \<Longrightarrow> bucket_get cmp k b' = (if cmp key k = 0 then value else bucket_get cmp k b)" "\<not> found \<Longrightarrow> b' = b" by blast+
qed


lemma get_append: "bucket_get cmp k (b @ [he]) = (if \<exists>x\<in>set b. cmp (he_key x) k = 0 then bucket_get cmp k b else bucket_get cmp k [he])"
  by (induction b) auto

lemma get_absent: "\<forall>x\<in>set b. cmp (he_key x) k \<noteq> 0 \<Longrightarrow> bucket_get cmp k b = 0"
  by (induction b) auto

lemma del_ok:
  assumes "bucket_del cmp key b = (v, b')" "sorted_wrt (\<lambda>a b. cmp (he_key a) (he_key b) \<noteq> 0) b"
  shows "v = bucket_get cmp key b" "bucket_get cmp k b' = (if cmp key k = 0 then 0 else bucket_get cmp k b)"
    "set b' = {he \<in> set b. cmp (he_key he) key \<noteq> 0}" "sorted_wrt (\<lambda>a b. cmp (he_key a) (he_key b) \<noteq> 0) b'"
proof -
  have "v = bucket_get cmp key b \<and> bucket_get cmp k b' = (if cmp key k = 0 then 0 else bucket_get cmp k b)
     \<and> set b' = {he \<in> set b. cmp (he_key he) key \<noteq> 0} \<and> sorted_wrt (\<lambda>a b. cmp (he_key a) (he_key b) \<noteq> 0) b'"
    using assms
  proof (induction b arbitrary: b')
    case (Cons he b)
    show ?case
    proof (cases "cmp (he_key he) key = 0")
      case True
      have "cmp (he_key he) (he_key x) \<noteq> 0" if "x \<in> set b" for x using Cons.prems(2) that by simp
      then have "cmp (he_key x) key \<noteq> 0" if "x \<in> set b" for x using that True cmp_sym cmp_trans by blast
      moreover have "cmp (he_key x) k \<noteq> 0" if "x \<in> set b" "cmp key k = 0" for x using calculation[OF that(1)] that(2) cmp_sym cmp_trans by blast
      ultimately show ?thesis using Cons.prems True cmp_left[OF True, of k] get_absent[of b k] by auto
    next
      case False
      obtain c where fc: "bucket_del cmp key b = (v, c)" using Cons.prems(1) False by (auto split: prod.splits)
      then show ?thesis using Cons.IH[OF fc] Cons.prems False cmp_apart[OF False, of k] by auto
    qed
  qed simp
  then show "v = bucket_get cmp key b" "bucket_get cmp k b' = (if cmp key k = 0 then 0 else bucket_get cmp k b)"
    "set b' = {he \<in> set b. cmp (he_key he) key \<noteq> 0}" "sorted_wrt (\<lambda>a b. cmp (he_key a) (he_key b) \<noteq> 0) b'" by blast+
qed

lemma htable_map_bucket:
  "htable_ok hash cmp sz h \<Longrightarrow> htable_map h k = bucket_get cmp k (ht_buckets h ! bucket_of hash sz k)"
  by (simp add: htable_map_def htable_ok_def bucket_of_def)

lemma bucket_of_cong: "cmp a b = 0 \<Longrightarrow> bucket_of hash sz a = bucket_of hash sz b"
  using cmp_hash by (simp add: bucket_of_def)

lemma update_bucket:
  assumes ok: "htable_ok hash cmp sz h" and b: "\<And>he. he \<in> set b \<Longrightarrow> bucket_of hash sz (he_key he) = bucket_of hash sz key" "sorted_wrt (\<lambda>a b. cmp (he_key a) (he_key b) \<noteq> 0) b"
    and get: "\<And>k. bucket_get cmp k b = (if cmp key k = 0 then v else bucket_get cmp k (ht_buckets h ! bucket_of hash sz key))"
  defines "h' \<equiv> h\<lparr>ht_buckets := (ht_buckets h)[bucket_of hash sz key := b]\<rparr>"
  shows "htable_ok hash cmp sz h'" "htable_map h' k = (if cmp key k = 0 then v else htable_map h k)"
proof -
  have l: "bucket_of hash sz key < length (ht_buckets h)" using ok by (simp add: htable_ok_def bucket_of_def)
  show ok': "htable_ok hash cmp sz h'" using ok b l unfolding h'_def by (auto simp: htable_ok_def nth_list_update split: if_splits)
  show "htable_map h' k = (if cmp key k = 0 then v else htable_map h k)"
    using get[of k] bucket_of_cong[of key k] l unfolding htable_map_bucket[OF ok] htable_map_bucket[OF ok'] by (auto simp: h'_def nth_list_update)
qed


lemma put_ok:
  assumes ok: "htable_ok hash cmp sz h"
  shows "\<exists>h'. htable_put key v new h = Some h' \<and> htable_ok hash cmp sz h' \<and> (\<forall>k. htable_map h' k = (if cmp key k = 0 then v else htable_map h k))"
proof -
  let ?b = "ht_buckets h ! bucket_of hash sz key" and ?n = "\<lparr>he_list = new, he_key = key, he_value = v\<rparr>"
  obtain found c where r: "bucket_replace cmp key v ?b = (found, c)" by fastforce
  let ?c = "if found then c else c @ [?n]"
  have h: "ht_hash h = hash" "ht_cmp h = cmp" "bucket_of hash sz key < sz" using ok by (simp_all add: htable_ok_def bucket_of_def)
  have b: "\<And>he. he \<in> set ?b \<Longrightarrow> bucket_of hash sz (he_key he) = bucket_of hash sz key" "sorted_wrt (\<lambda>a b. cmp (he_key a) (he_key b) \<noteq> 0) ?b"
    using ok h(3) by (auto simp: htable_ok_def)
  note ro = replace_ok[OF r b(2)]
  have keys: "map he_key ?c = (if found then map he_key ?b else map he_key ?b @ [key])" using ro(1) by simp
  have "sorted_wrt (\<lambda>a b. cmp a b \<noteq> 0) (map he_key ?b)" using b(2) by (simp add: sorted_wrt_map)
  then have "sorted_wrt (\<lambda>a b. cmp a b \<noteq> 0) (map he_key ?c)" unfolding keys using ro(2) by (auto simp: sorted_wrt_append)
  then have s: "sorted_wrt (\<lambda>a b. cmp (he_key a) (he_key b) \<noteq> 0) ?c" by (simp only: sorted_wrt_map)
  have "set (map he_key ?c) \<subseteq> insert key (set (map he_key ?b))" unfolding keys by auto
  then have i: "bucket_of hash sz (he_key he) = bucket_of hash sz key" if "he \<in> set ?c" for he using that b(1) by (auto simp only: set_map)
  have g: "bucket_get cmp k ?c = (if cmp key k = 0 then v else bucket_get cmp k ?b)" for k
  proof (cases found)
    case False
    then have "cmp (he_key x) key \<noteq> 0" if "x \<in> set ?b" for x using ro(2) that by blast
    then have "cmp (he_key x) k \<noteq> 0" if "x \<in> set ?b" "cmp key k = 0" for x using that cmp_apart by blast
    then show ?thesis using False ro(4) get_append[of k c ?n] get_absent[of ?b k] by (cases "cmp key k = 0") auto
  qed (simp add: ro(3))
  have "htable_put key v new h = Some (h\<lparr>ht_buckets := (ht_buckets h)[bucket_of hash sz key := ?c]\<rparr>)"
    using r h by (simp add: htable_put_def bucket_of_def with_bucket_ok[OF ok])
  then show ?thesis using update_bucket[OF ok i s g] by blast
qed

lemma get_ok:
  assumes "htable_ok hash cmp sz h"
  shows "htable_get key h = Some (htable_map h key)"
  using assms by (simp add: htable_get_def bucket_index_def htable_map_def htable_ok_def arr_get_in nat_mod_distrib)

lemma delete_ok:
  assumes ok: "htable_ok hash cmp sz h"
  shows "\<exists>h'. htable_del key h = Some (htable_map h key, h') \<and> htable_ok hash cmp sz h' \<and> (\<forall>k. htable_map h' k = (if cmp key k = 0 then 0 else htable_map h k))"
proof -
  let ?b = "ht_buckets h ! bucket_of hash sz key"
  obtain v c where r: "bucket_del cmp key ?b = (v, c)" by fastforce
  have h: "ht_hash h = hash" "ht_cmp h = cmp" "bucket_of hash sz key < sz" using ok by (simp_all add: htable_ok_def bucket_of_def)
  have b: "\<And>he. he \<in> set ?b \<Longrightarrow> bucket_of hash sz (he_key he) = bucket_of hash sz key" "sorted_wrt (\<lambda>a b. cmp (he_key a) (he_key b) \<noteq> 0) ?b"
    using ok h(3) by (auto simp: htable_ok_def)
  note d = del_ok[OF r b(2)]
  have "htable_del key h = Some (v, h\<lparr>ht_buckets := (ht_buckets h)[bucket_of hash sz key := c]\<rparr>)"
    using r h by (simp add: htable_del_def bucket_of_def with_bucket_ok[OF ok])
  moreover have "bucket_of hash sz (he_key he) = bucket_of hash sz key" if "he \<in> set c" for he using that d(3) b(1) by auto
  note update_bucket[OF ok this d(4) d(2)]
  moreover have "v = htable_map h key" using d(1) by (simp add: htable_map_bucket[OF ok])
  ultimately show ?thesis by blast
qed

lemma initialize_ok:
  assumes "0 < sz"
  shows "htable_ok hash cmp sz (htable_initialize sz hash cmp)" "htable_map (htable_initialize sz hash cmp) k = 0"
  using assms by (simp_all add: htable_ok_def htable_initialize_def htable_map_def)

text \<open>Called one at a time with the hash of the key, the functions for threads do the same.\<close>

lemma th_functions:
  assumes ok: "htable_ok hash cmp sz h"
  shows "htable_get_th key (hash key) h = htable_get key h" "htable_del_th key (hash key) h = htable_del key h"
    "htable_put_th key v new (hash key) h = htable_put key v new h"
proof -
  have h: "ht_hash h = hash" "ht_cmp h = cmp" "unat (hash key) mod sz < length (ht_buckets h)" using ok by (simp_all add: htable_ok_def)
  show "htable_get_th key (hash key) h = htable_get key h" "htable_del_th key (hash key) h = htable_del key h"
    using h by (simp_all add: htable_get_th_def htable_get_def htable_del_th_def htable_del_def)
  let ?b = "ht_buckets h ! (unat (hash key) mod sz)"
  obtain found c where r: "bucket_replace cmp key v ?b = (found, c)" by fastforce
  have "sorted_wrt (\<lambda>a b. cmp (he_key a) (he_key b) \<noteq> 0) ?b" using ok h(3) by (auto simp: htable_ok_def)
  note c = replace_ok(4)[OF r this]
  show "htable_put_th key v new (hash key) h = htable_put key v new h"
  proof (cases found)
    case True
    then show ?thesis using h r by (simp add: htable_put_th_def put_th_search_def htable_put_def with_bucket_ok[OF ok])
  next
    case False
    with c have s: "put_th_search key v (hash key) h = Some (False, h)" using h r by (simp add: put_th_search_def with_bucket_ok[OF ok])
    show ?thesis using False h r c s by (simp add: htable_put_th_def put_th_insert_def htable_put_def with_bucket_ok[OF ok])
  qed
qed

end

section \<open>Sessions\<close>

datatype 'k ht_op = Ht_put 'k nat nat | Ht_get 'k | Ht_del 'k | Ht_put_th 'k nat nat | Ht_get_th 'k | Ht_del_th 'k

primrec ht_run :: "('k \<Rightarrow> u32) \<Rightarrow> 'k ht_op \<Rightarrow> 'k htable \<Rightarrow> (nat \<times> 'k htable) option" where
  "ht_run hash (Ht_put k v new) h = map_option (Pair 0) (htable_put k v new h)"
| "ht_run hash (Ht_get k) h = map_option (\<lambda>v. (v, h)) (htable_get k h)"
| "ht_run hash (Ht_del k) h = htable_del k h"
| "ht_run hash (Ht_put_th k v new) h = map_option (Pair 0) (htable_put_th k v new (hash k) h)"
| "ht_run hash (Ht_get_th k) h = map_option (\<lambda>v. (v, h)) (htable_get_th k (hash k) h)"
| "ht_run hash (Ht_del_th k) h = htable_del_th k (hash k) h"

primrec ht_spec :: "('k \<Rightarrow> 'k \<Rightarrow> int) \<Rightarrow> 'k ht_op \<Rightarrow> ('k \<Rightarrow> nat) \<Rightarrow> nat \<Rightarrow> ('k \<Rightarrow> nat) \<Rightarrow> bool" where
  "ht_spec cmp (Ht_put key v new) m r m' \<longleftrightarrow> r = 0 \<and> m' = (\<lambda>k. if cmp key k = 0 then v else m k)"
| "ht_spec cmp (Ht_get key) m r m' \<longleftrightarrow> r = m key \<and> m' = m"
| "ht_spec cmp (Ht_del key) m r m' \<longleftrightarrow> r = m key \<and> m' = (\<lambda>k. if cmp key k = 0 then 0 else m k)"
| "ht_spec cmp (Ht_put_th key v new) m r m' \<longleftrightarrow> r = 0 \<and> m' = (\<lambda>k. if cmp key k = 0 then v else m k)"
| "ht_spec cmp (Ht_get_th key) m r m' \<longleftrightarrow> r = m key \<and> m' = m"
| "ht_spec cmp (Ht_del_th key) m r m' \<longleftrightarrow> r = m key \<and> m' = (\<lambda>k. if cmp key k = 0 then 0 else m k)"

context hash_keys
begin

lemma ht_step:
  assumes "htable_ok hash cmp sz h"
  shows "\<exists>r h'. ht_run hash q h = Some (r, h') \<and> htable_ok hash cmp sz h' \<and> ht_spec cmp q (htable_map h) r (htable_map h')"
  using put_ok[OF assms] get_ok[OF assms] delete_ok[OF assms] assms by (cases q) (fastforce simp: th_functions[OF assms])+

end

sublocale hash_keys \<subseteq> tab: contract "htable_ok hash cmp sz" "\<lambda>q. True" "ht_run hash" htable_map "ht_spec cmp" for sz
  using ht_step by unfold_locales (metis option.inject option.distinct(1) prod.inject)+


context hash_keys
begin

lemma table_session:
  "htable_ok hash cmp sz h \<Longrightarrow> \<exists>rs h'. session (ht_run hash) qs h = Some (rs, h') \<and> htable_ok hash cmp sz h' \<and> session_spec (ht_spec cmp) qs (htable_map h) rs (htable_map h')"
  by (rule tab.session_ok) simp_all

end

section \<open>Properties\<close>

text \<open>
  C36. A hash table is a map from the classes of equal keys to pointers, over every sequence of insertions, searches and removals, with the functions for one thread or those
  for several called one at a time: every call returns, with the pointer put last for an equal key, or null.
\<close>

theorem htable_refines_map:
  assumes "hash_keys hash cmp" "htable_ok hash cmp sz h"
  shows "\<exists>rs h'. session (ht_run hash) qs h = Some (rs, h') \<and> htable_ok hash cmp sz h' \<and> session_spec (ht_spec cmp) qs (htable_map h) rs (htable_map h')"
  by (rule hash_keys.table_session[OF assms])

theorem htable_refines_map_witness:
  "\<exists>h. session (ht_run ucast) [Ht_put 3 7 1, Ht_put_th 19 8 2, Ht_put 3 9 3, Ht_get_th 3, Ht_del 19, Ht_get 19] (htable_initialize 16 ucast (\<lambda>a b :: u16. if a = b then 0 else 1))
     = Some ([0, 0, 0, 9, 8, 0], h)"
proof -
  have k: "hash_keys (ucast :: u16 \<Rightarrow> u32) (\<lambda>a b. if a = b then 0 else 1)" by unfold_locales (auto split: if_splits)
  have i: "htable_ok (ucast :: u16 \<Rightarrow> u32) (\<lambda>a b. if a = b then 0 else 1) 16 (htable_initialize 16 ucast (\<lambda>a b. if a = b then 0 else 1))"
    by (rule hash_keys.initialize_ok(1)[OF k]) simp
  have z: "htable_map (htable_initialize 16 ucast (\<lambda>a b :: u16. if a = b then 0 else 1)) = (\<lambda>k. 0)"
    using hash_keys.initialize_ok(2)[OF k, of 16] by auto
  from htable_refines_map[OF k i, of "[Ht_put 3 7 1, Ht_put_th 19 8 2, Ht_put 3 9 3, Ht_get_th 3, Ht_del 19, Ht_get 19]"] show ?thesis
    by (auto simp: session_spec_simps z)
qed



end
