(* ===== verification/Quota_Cache.thy ===== *)
theory Quota_Cache
  imports Quota_Wbcache Htable
begin

text \<open>
  The cache of quotas of the export daemon (\<^verbatim>\<open>src/exportd/rozofs_quota.c\<close>): entries in memory, found by a hash table and ordered by their last use, above the
  write-back cache. An entry is an address; the daemon changes the quota of an entry in place and then puts it in the write-back cache.
\<close>

section \<open>Model\<close>

definition ROZOFS_QT_BUKETS :: nat where "ROZOFS_QT_BUKETS = 32 * 1024"
definition ROZOFS_QT_MAX_ENTRIES :: int where "ROZOFS_QT_MAX_ENTRIES = 64 * 1024"

definition rozofs_qt_hash :: "u64 \<Rightarrow> u32" where
  "rozofs_qt_hash key = foldl (\<lambda>hash c. ucast c + push_bit 6 hash + push_bit 16 hash - hash) 0 (u64_bytes key)"

fun memcmp :: "u8 list \<Rightarrow> u8 list \<Rightarrow> int" where
  "memcmp (a # as) (b # bs) = (if a < b then -1 else if b < a then 1 else memcmp as bs)"
| "memcmp as bs = 0"

definition rozofs_qt_cmp :: "u64 \<Rightarrow> u64 \<Rightarrow> int" where
  "rozofs_qt_cmp k1 k2 = memcmp (u64_bytes k1) (u64_bytes k2)"

record rozofs_qt_cache_t =
  qc_max :: int
  qc_size :: int
  qc_hit :: u64
  qc_miss :: u64
  qc_lru_del :: u64
  qc_lru :: "nat list"
  qc_htable :: "u64 htable"

text \<open>The cache with the memory of its entries, the next address that the allocator gives, and the layers below.\<close>

record qt_state =
  qt_cache :: rozofs_qt_cache_t
  qt_mem :: "nat \<rightharpoonup> rozofs_dquot_t"
  qt_next :: nat
  qt_store :: quota_store

definition rozofs_qt_cache_update_lru :: "nat \<Rightarrow> rozofs_qt_cache_t \<Rightarrow> rozofs_qt_cache_t" where
  "rozofs_qt_cache_update_lru entry c = c\<lparr>qc_lru := entry # remove1 entry (qc_lru c)\<rparr>"

definition rozofs_qt_cache_unlink :: "nat \<Rightarrow> qt_state \<Rightarrow> qt_state" where
  "rozofs_qt_cache_unlink entry s = (let c = qt_cache s in
     s\<lparr>qt_cache := c\<lparr>qc_lru := remove1 entry (qc_lru c), qc_size := qc_size c - 1\<rparr>, qt_mem := (qt_mem s)(entry := None)\<rparr>)"

definition rozofs_qt_cache_entry_alloc :: "qt_state \<Rightarrow> nat \<times> qt_state" where
  "rozofs_qt_cache_entry_alloc s = (case next_mem (qt_store s) of (ok, st) \<Rightarrow>
     if \<not> ok then (0, s\<lparr>qt_store := st\<rparr>)
     else (qt_next s, s\<lparr>qt_mem := (qt_mem s)(qt_next s \<mapsto> zero_dquot 0), qt_next := qt_next s + 1, qt_store := st\<rparr>))"

definition rozofs_qt_cache_initialize :: rozofs_qt_cache_t where
  "rozofs_qt_cache_initialize = \<lparr>qc_max = ROZOFS_QT_MAX_ENTRIES, qc_size = 0, qc_hit = 0, qc_miss = 0, qc_lru_del = 0, qc_lru = [],
     qc_htable = htable_initialize ROZOFS_QT_BUKETS rozofs_qt_hash rozofs_qt_cmp\<rparr>"

text \<open>The removal of an entry from the hash table and the list. Reading the key of an entry that is not allocated has no result.\<close>

definition remove_entry :: "nat \<Rightarrow> qt_state \<Rightarrow> qt_state option" where
  "remove_entry entry s = do {
     d \<leftarrow> qt_mem s entry;
     (_, h) \<leftarrow> htable_del (dq_key d) (qc_htable (qt_cache s));
     Some (rozofs_qt_cache_unlink entry (s\<lparr>qt_cache := (qt_cache s)\<lparr>qc_htable := h\<rparr>\<rparr>)) }"

definition rozofs_qt_cache_release :: "qt_state \<Rightarrow> qt_state option" where
  "rozofs_qt_cache_release s = foldM remove_entry (qc_lru (qt_cache s)) s"

function make_room :: "nat \<Rightarrow> qt_state \<Rightarrow> qt_state option" where
  "make_room count s =
     (if qc_size (qt_cache s) \<ge> qc_max (qt_cache s) \<and> qc_lru (qt_cache s) \<noteq> [] then do {
        s \<leftarrow> remove_entry (last (qc_lru (qt_cache s))) s;
        let s = s\<lparr>qt_cache := (qt_cache s)\<lparr>qc_lru_del := qc_lru_del (qt_cache s) + 1\<rparr>\<rparr>;
        if count + 1 \<ge> 3 then Some s else make_room (count + 1) s }
      else Some s)"
  by auto
termination by (relation "measure (\<lambda>(count, s). 3 - count)") auto

declare make_room.simps [simp del]

definition rozofs_qt_cache_get :: "table_ref \<Rightarrow> u64 \<Rightarrow> qt_state \<Rightarrow> (nat \<times> qt_state) option" where
  "rozofs_qt_cache_get disk_p key s = do {
     entry \<leftarrow> htable_get key (qc_htable (qt_cache s));
     if entry \<noteq> 0 then
       (let c = rozofs_qt_cache_update_lru entry (qt_cache s) in Some (entry, s\<lparr>qt_cache := c\<lparr>qc_hit := qc_hit c + 1\<rparr>\<rparr>))
     else (case rozofs_qt_cache_entry_alloc s of (entry, s) \<Rightarrow>
       if entry = 0 then Some (0, s)
       else do {
         d \<leftarrow> qt_mem s entry;
         (ret, d, st) \<leftarrow> quota_wbcache_read disk_p (d\<lparr>dq_key := key\<rparr>) (qt_store s);
         let s = s\<lparr>qt_mem := (qt_mem s)(entry \<mapsto> d), qt_store := st\<rparr>;
         if ret < 0 then Some (0, s\<lparr>qt_mem := (qt_mem s)(entry := None)\<rparr>)
         else do {
           let s = s\<lparr>qt_cache := (qt_cache s)\<lparr>qc_miss := qc_miss (qt_cache s) + 1\<rparr>\<rparr>;
           s \<leftarrow> make_room 0 s;
           let c = rozofs_qt_cache_update_lru entry (qt_cache s);
           d \<leftarrow> qt_mem s entry;
           h \<leftarrow> htable_put (dq_key d) entry (qt_next s) (qc_htable c);
           Some (entry, s\<lparr>qt_cache := c\<lparr>qc_htable := h, qc_size := qc_size c + 1\<rparr>, qt_next := qt_next s + 1\<rparr>) } }) }"

definition rozofs_qt_cache_put :: "table_ref \<Rightarrow> nat \<Rightarrow> qt_state \<Rightarrow> qt_state option" where
  "rozofs_qt_cache_put disk_p entry s = do {
     d \<leftarrow> qt_mem s entry;
     (ret, st) \<leftarrow> quota_wbcache_write disk_p d (qt_store s);
     Some (s\<lparr>qt_store := st\<rparr>) }"

section \<open>Keys\<close>

lemma memcmp_zero: "length as = length bs \<Longrightarrow> memcmp as bs = 0 \<longleftrightarrow> as = bs"
  by (induction as bs rule: memcmp.induct) auto

lemma qt_cmp_zero [simp]: "rozofs_qt_cmp a b = 0 \<longleftrightarrow> a = b"
proof -
  have "u64_bytes a = u64_bytes b \<longleftrightarrow> a = b" by (metis bytes_u64_u64_bytes)
  then show ?thesis by (simp add: rozofs_qt_cmp_def memcmp_zero)
qed

interpretation qt: hash_keys rozofs_qt_hash rozofs_qt_cmp
  by unfold_locales simp_all

section \<open>Invariant\<close>

text \<open>The entries of the list are the allocated ones and the ones of the hash table, and each holds what the layers below hold for its key.\<close>

definition entry_ok :: "qt_state \<Rightarrow> nat \<Rightarrow> bool" where
  "entry_ok s a \<longleftrightarrow> 0 < a \<and> a < qt_next s \<and> (case qt_mem s a of None \<Rightarrow> False
     | Some d \<Rightarrow> htable_map (qc_htable (qt_cache s)) (dq_key d) = a \<and> valid_key (dq_key d) \<and> store_view (qt_store s) (dq_key d) = d)"

definition key_ok :: "qt_state \<Rightarrow> u64 \<Rightarrow> bool" where
  "key_ok s k \<longleftrightarrow> (let a = htable_map (qc_htable (qt_cache s)) k in a = 0 \<or> a \<in> set (qc_lru (qt_cache s)) \<and> map_option dq_key (qt_mem s a) = Some k)"

definition cache_ok :: "qt_state \<Rightarrow> bool" where
  "cache_ok s \<longleftrightarrow> htable_ok rozofs_qt_hash rozofs_qt_cmp ROZOFS_QT_BUKETS (qc_htable (qt_cache s)) \<and> distinct (qc_lru (qt_cache s))
     \<and> qc_size (qt_cache s) = int (length (qc_lru (qt_cache s))) \<and> (\<forall>a\<in>set (qc_lru (qt_cache s)). entry_ok s a) \<and> (\<forall>k. key_ok s k)"

lemma entry_okE:
  assumes "entry_ok s a"
  obtains d where "0 < a" "a < qt_next s" "qt_mem s a = Some d" "htable_map (qc_htable (qt_cache s)) (dq_key d) = a" "valid_key (dq_key d)" "store_view (qt_store s) (dq_key d) = d"
  using assms by (auto simp: entry_ok_def split: option.splits)

definition qt_ok :: "nat \<Rightarrow> qt_state \<Rightarrow> bool" where
  "qt_ok n s \<longleftrightarrow> store_ok n (qt_store s) \<and> cache_ok s \<and> 0 < qt_next s \<and> dom (qt_mem s) = set (qc_lru (qt_cache s))
     \<and> qc_max (qt_cache s) = ROZOFS_QT_MAX_ENTRIES \<and> qc_size (qt_cache s) \<le> ROZOFS_QT_MAX_ENTRIES"

lemma remove_entry_ok:
  assumes s: "cache_ok s" and a: "a \<in> set (qc_lru (qt_cache s))"
  shows "\<exists>s'. remove_entry a s = Some s' \<and> cache_ok s' \<and> qc_lru (qt_cache s') = remove1 a (qc_lru (qt_cache s)) \<and> qt_mem s' = (qt_mem s)(a := None)
     \<and> qt_next s' = qt_next s \<and> qt_store s' = qt_store s \<and> qc_max (qt_cache s') = qc_max (qt_cache s)
     \<and> (\<forall>k. htable_map (qc_htable (qt_cache s')) k = (if htable_map (qc_htable (qt_cache s)) k = a then 0 else htable_map (qc_htable (qt_cache s)) k))"
proof -
  let ?h = "qc_htable (qt_cache s)"
  have hok: "htable_ok rozofs_qt_hash rozofs_qt_cmp ROZOFS_QT_BUKETS ?h" and ea: "entry_ok s a" using s a by (simp_all add: cache_ok_def)
  obtain d where a0: "0 < a" and d: "qt_mem s a = Some d" "htable_map ?h (dq_key d) = a" using ea by (rule entry_okE)
  obtain h' where h': "htable_del (dq_key d) ?h = Some (a, h')" "htable_ok rozofs_qt_hash rozofs_qt_cmp ROZOFS_QT_BUKETS h'"
    "\<And>k. htable_map h' k = (if dq_key d = k then 0 else htable_map ?h k)" using qt.delete_ok[OF hok, of "dq_key d"] d(2) by auto
  have only: "htable_map ?h k = a \<longleftrightarrow> k = dq_key d" for k
  proof
    assume "htable_map ?h k = a"
    moreover have "key_ok s k" using s by (simp add: cache_ok_def)
    ultimately have "map_option dq_key (qt_mem s a) = Some k" using a0 by (auto simp: key_ok_def Let_def)
    then show "k = dq_key d" using d(1) by simp
  qed (use d(2) in simp)
  let ?s' = "rozofs_qt_cache_unlink a (s\<lparr>qt_cache := (qt_cache s)\<lparr>qc_htable := h'\<rparr>\<rparr>)"
  have m: "htable_map h' k = (if htable_map ?h k = a then 0 else htable_map ?h k)" for k using h'(3) only by auto
  have l: "int (length (qc_lru (qt_cache s))) - 1 = int (length (remove1 a (qc_lru (qt_cache s))))" using a length_pos_if_in_set[OF a] by (simp add: length_remove1 of_nat_diff Suc_le_eq del: length_greater_0_conv)
  have di: "distinct (qc_lru (qt_cache s))" using s by (simp add: cache_ok_def)
  have "entry_ok ?s' b" if "b \<in> set (qc_lru (qt_cache s))" "b \<noteq> a" for b
  proof -
    have "entry_ok s b" using s that(1) by (simp add: cache_ok_def)
    then show ?thesis by (rule entry_okE) (use m that(2) in \<open>simp add: entry_ok_def rozofs_qt_cache_unlink_def Let_def\<close>)
  qed
  moreover have "key_ok ?s' k" for k
  proof -
    have "key_ok s k" using s by (simp add: cache_ok_def)
    then show ?thesis using m[of k] by (auto simp: key_ok_def rozofs_qt_cache_unlink_def Let_def set_remove1_eq[OF di])
  qed
  ultimately have "cache_ok ?s'"
    using s l h'(2) di by (simp add: cache_ok_def rozofs_qt_cache_unlink_def Let_def set_remove1_eq distinct_remove1)
  then show ?thesis using d h'(1) m by (simp add: remove_entry_def rozofs_qt_cache_unlink_def Let_def)
qed

lemma cache_ok_update:
  assumes s: "cache_ok s" and c: "qc_htable (qt_cache s') = qc_htable (qt_cache s)" "qc_size (qt_cache s') = qc_size (qt_cache s)"
    "set (qc_lru (qt_cache s')) = set (qc_lru (qt_cache s))" "length (qc_lru (qt_cache s')) = length (qc_lru (qt_cache s))"
    and m: "\<forall>a\<in>set (qc_lru (qt_cache s)). qt_mem s' a = qt_mem s a" "qt_next s \<le> qt_next s'" "\<forall>k. valid_key k \<longrightarrow> store_view (qt_store s') k = store_view (qt_store s) k"
  shows "cache_ok s'"
proof -
  have "distinct (qc_lru (qt_cache s'))" using s c(3,4) unfolding cache_ok_def by (metis card_distinct distinct_card)
  moreover have "entry_ok s' a" if "a \<in> set (qc_lru (qt_cache s))" for a
  proof -
    have "entry_ok s a" using s that by (simp add: cache_ok_def)
    then show ?thesis by (rule entry_okE) (use c(1) m that in \<open>simp add: entry_ok_def\<close>)
  qed
  moreover have "key_ok s' k" for k
  proof -
    have "key_ok s k" using s by (simp add: cache_ok_def)
    then show ?thesis using c(1,3) m(1) by (auto simp: key_ok_def Let_def)
  qed
  ultimately show ?thesis using s c by (simp add: cache_ok_def)
qed

text \<open>A full cache loses its oldest entry; no other entry is touched.\<close>

lemma make_room_ok:
  assumes s: "cache_ok s" and m: "qc_size (qt_cache s) \<le> qc_max (qt_cache s)" "0 < qc_max (qt_cache s)"
  shows "\<exists>s'. make_room 0 s = Some s' \<and> cache_ok s' \<and> set (qc_lru (qt_cache s')) \<subseteq> set (qc_lru (qt_cache s))
     \<and> (\<forall>a. qt_mem s' a = (if a \<in> set (qc_lru (qt_cache s)) \<and> a \<notin> set (qc_lru (qt_cache s')) then None else qt_mem s a))
     \<and> qt_next s' = qt_next s \<and> qt_store s' = qt_store s \<and> qc_max (qt_cache s') = qc_max (qt_cache s) \<and> qc_size (qt_cache s') < qc_max (qt_cache s)
     \<and> (\<forall>k. htable_map (qc_htable (qt_cache s)) k = 0 \<longrightarrow> htable_map (qc_htable (qt_cache s')) k = 0)"
proof (cases "qc_size (qt_cache s) = qc_max (qt_cache s)")
  case True
  let ?l = "qc_lru (qt_cache s)"
  have l: "qc_size (qt_cache s) = int (length ?l)" "distinct ?l" using s by (simp_all add: cache_ok_def)
  then have ne: "?l \<noteq> []" using True m(2) by auto
  then have la: "last ?l \<in> set ?l" by simp
  then obtain s1 where s1: "remove_entry (last ?l) s = Some s1" "cache_ok s1" "qc_lru (qt_cache s1) = remove1 (last ?l) ?l" "qt_mem s1 = (qt_mem s)(last ?l := None)"
    "qt_next s1 = qt_next s" "qt_store s1 = qt_store s" "qc_max (qt_cache s1) = qc_max (qt_cache s)"
    "\<forall>k. htable_map (qc_htable (qt_cache s1)) k = (if htable_map (qc_htable (qt_cache s)) k = last ?l then 0 else htable_map (qc_htable (qt_cache s)) k)"
    using remove_entry_ok[OF s] by blast
  let ?s' = "s1\<lparr>qt_cache := (qt_cache s1)\<lparr>qc_lru_del := qc_lru_del (qt_cache s1) + 1\<rparr>\<rparr>"
  have ok: "cache_ok ?s'" by (rule cache_ok_update[OF s1(2)]) simp_all
  have sz: "qc_size (qt_cache s1) < qc_max (qt_cache s1)"
    using s1(2,3,7) la ne l True by (simp add: cache_ok_def length_remove1)
  then have "make_room (Suc 0) ?s' = Some ?s'" by (simp add: make_room.simps)
  then have "make_room 0 s = Some ?s'" using True ne s1(1) by (subst make_room.simps) simp
  moreover have "set (qc_lru (qt_cache ?s')) = set ?l - {last ?l}" using s1(3) l(2) by (simp add: set_remove1_eq)
  ultimately show ?thesis using ok s1 sz la by auto
next
  case False
  then have "make_room 0 s = Some s" using m(1) by (simp add: make_room.simps)
  then show ?thesis using s m False by auto
qed

lemma insert_entry_ok:
  assumes s: "cache_ok s" and a: "a \<notin> set (qc_lru (qt_cache s))" "0 < a" "a < qt_next s" "qt_mem s a = Some d" "valid_key (dq_key d)" "store_view (qt_store s) (dq_key d) = d"
    and free: "htable_map (qc_htable (qt_cache s)) (dq_key d) = 0"
    and h: "htable_ok rozofs_qt_hash rozofs_qt_cmp ROZOFS_QT_BUKETS h" "\<And>k. htable_map h k = (if dq_key d = k then a else htable_map (qc_htable (qt_cache s)) k)" and n: "qt_next s \<le> n"
  shows "cache_ok (s\<lparr>qt_cache := (rozofs_qt_cache_update_lru a (qt_cache s))\<lparr>qc_htable := h, qc_size := qc_size (qt_cache s) + 1\<rparr>, qt_next := n\<rparr>)"
proof -
  let ?s' = "s\<lparr>qt_cache := (rozofs_qt_cache_update_lru a (qt_cache s))\<lparr>qc_htable := h, qc_size := qc_size (qt_cache s) + 1\<rparr>, qt_next := n\<rparr>"
  have "entry_ok ?s' b" if "b \<in> set (qc_lru (qt_cache s))" for b
  proof -
    have "entry_ok s b" using s that by (simp add: cache_ok_def)
    then show ?thesis by (rule entry_okE) (use h(2) free n in \<open>auto simp: entry_ok_def\<close>)
  qed
  moreover have "entry_ok ?s' a" using a h(2) n by (simp add: entry_ok_def)
  moreover have "key_ok ?s' k" for k
  proof -
    have "key_ok s k" using s by (simp add: cache_ok_def)
    then show ?thesis using a(4) h(2)[of k] by (auto simp: key_ok_def Let_def rozofs_qt_cache_update_lru_def remove1_idem[OF a(1)])
  qed
  ultimately show ?thesis using s a(1) h(1) by (auto simp: cache_ok_def rozofs_qt_cache_update_lru_def remove1_idem)
qed

section \<open>Operations\<close>

lemma qt_next_mem: "qt_ok n s \<Longrightarrow> rozofs_qt_cache_entry_alloc s = (qt_next s, s\<lparr>qt_mem := (qt_mem s)(qt_next s \<mapsto> zero_dquot 0), qt_next := qt_next s + 1\<rparr>)"
  by (simp add: rozofs_qt_cache_entry_alloc_def next_mem_def qt_ok_def store_ok_def)

lemma qt_store_change:
  assumes s: "qt_ok n s" and st: "store_ok n st" "\<forall>k. valid_key k \<longrightarrow> store_view st k = store_view (qt_store s) k"
  shows "qt_ok n (s\<lparr>qt_store := st\<rparr>)"
proof -
  have c: "cache_ok s" using s by (simp add: qt_ok_def)
  have "cache_ok (s\<lparr>qt_store := st\<rparr>)" by (rule cache_ok_update[OF c]) (use st(2) in simp_all)
  then show ?thesis using s st(1) by (simp add: qt_ok_def)
qed

lemma cache_hit:
  assumes s: "qt_ok n s" and a: "htable_map (qc_htable (qt_cache s)) k = a" "a \<noteq> 0"
  shows "\<exists>s'. rozofs_qt_cache_get disk_p k s = Some (a, s') \<and> qt_ok n s' \<and> a \<in> set (qc_lru (qt_cache s')) \<and> qt_mem s' a = Some (store_view (qt_store s) k) \<and> qt_store s' = qt_store s"
proof -
  have c: "cache_ok s" using s by (simp add: qt_ok_def)
  then have hok: "htable_ok rozofs_qt_hash rozofs_qt_cmp ROZOFS_QT_BUKETS (qc_htable (qt_cache s))" and "key_ok s k" and di: "distinct (qc_lru (qt_cache s))" by (simp_all add: cache_ok_def)
  then have al: "a \<in> set (qc_lru (qt_cache s))" "map_option dq_key (qt_mem s a) = Some k" using a by (auto simp: key_ok_def Let_def)
  then have "entry_ok s a" using c by (simp add: cache_ok_def)
  then have m: "qt_mem s a = Some (store_view (qt_store s) k)" by (rule entry_okE) (use al(2) in auto)
  let ?c = "rozofs_qt_cache_update_lru a (qt_cache s)" let ?s' = "s\<lparr>qt_cache := ?c\<lparr>qc_hit := qc_hit ?c + 1\<rparr>\<rparr>"
  have "set (qc_lru ?c) = set (qc_lru (qt_cache s))" "length (qc_lru ?c) = length (qc_lru (qt_cache s))"
    using al(1) di length_pos_if_in_set[OF al(1)] by (auto simp: rozofs_qt_cache_update_lru_def set_remove1_eq length_remove1)
  moreover from this have "cache_ok ?s'" by (intro cache_ok_update[OF c]) (simp_all add: rozofs_qt_cache_update_lru_def)
  ultimately have "qt_ok n ?s'" using s by (simp add: qt_ok_def rozofs_qt_cache_update_lru_def)
  then show ?thesis using qt.get_ok[OF hok, of k] a m by (simp add: rozofs_qt_cache_get_def Let_def rozofs_qt_cache_update_lru_def)
qed

lemma cache_miss:
  assumes s: "qt_ok n s" and k: "valid_key k" and a: "htable_map (qc_htable (qt_cache s)) k = 0"
  shows "\<exists>a s'. rozofs_qt_cache_get (key_table k) k s = Some (a, s') \<and> qt_ok n s' \<and> a \<noteq> 0 \<and> a \<in> set (qc_lru (qt_cache s')) \<and> qt_mem s' a = Some (store_view (qt_store s) k)
     \<and> (\<forall>k. valid_key k \<longrightarrow> store_view (qt_store s') k = store_view (qt_store s) k)"
proof -
  let ?a = "qt_next s"
  have c: "cache_ok s" and st: "store_ok n (qt_store s)" and d: "dom (qt_mem s) = set (qc_lru (qt_cache s))" and mx: "qc_max (qt_cache s) = ROZOFS_QT_MAX_ENTRIES"
    "qc_size (qt_cache s) \<le> ROZOFS_QT_MAX_ENTRIES" and pos: "0 < ?a" using s by (simp_all add: qt_ok_def)
  have hok: "htable_ok rozofs_qt_hash rozofs_qt_cmp ROZOFS_QT_BUKETS (qc_htable (qt_cache s))" using c by (simp add: cache_ok_def)
  have new: "?a \<notin> set (qc_lru (qt_cache s))" using c by (auto simp: cache_ok_def entry_ok_def)
  obtain st' where r: "quota_wbcache_read (key_table k) ((zero_dquot 0)\<lparr>dq_key := k\<rparr>) (qt_store s) = Some (int DQUOT_SZ, store_view (qt_store s) k, st')" "store_ok n st'"
    "\<forall>k. valid_key k \<longrightarrow> store_view st' k = store_view (qt_store s) k" using read_ok[OF st k, of "(zero_dquot 0)\<lparr>dq_key := k\<rparr>"] by (auto simp: zero_dquot_def)
  let ?d = "store_view (qt_store s) k"
  let ?s1 = "s\<lparr>qt_next := ?a + 1, qt_mem := (qt_mem s)(?a \<mapsto> ?d), qt_store := st', qt_cache := (qt_cache s)\<lparr>qc_miss := qc_miss (qt_cache s) + 1\<rparr>\<rparr>"
  have kd: "dq_key ?d = k" by (rule store_view_key[OF st k])
  have c1: "cache_ok ?s1" by (rule cache_ok_update[OF c]) (use new r(3) in auto)
  obtain s2 where s2: "make_room 0 ?s1 = Some s2" "cache_ok s2" "set (qc_lru (qt_cache s2)) \<subseteq> set (qc_lru (qt_cache s))"
    "\<forall>b. qt_mem s2 b = (if b \<in> set (qc_lru (qt_cache s)) \<and> b \<notin> set (qc_lru (qt_cache s2)) then None else qt_mem ?s1 b)"
    "qt_next s2 = ?a + 1" "qt_store s2 = st'" "qc_max (qt_cache s2) = ROZOFS_QT_MAX_ENTRIES" "qc_size (qt_cache s2) < ROZOFS_QT_MAX_ENTRIES"
    "\<forall>k. htable_map (qc_htable (qt_cache s)) k = 0 \<longrightarrow> htable_map (qc_htable (qt_cache s2)) k = 0"
    using make_room_ok[OF c1] mx by (auto simp: ROZOFS_QT_MAX_ENTRIES_def)
  have m2: "qt_mem s2 ?a = Some ?d" and new2: "?a \<notin> set (qc_lru (qt_cache s2))" using s2(3,4) new by auto
  have hok2: "htable_ok rozofs_qt_hash rozofs_qt_cmp ROZOFS_QT_BUKETS (qc_htable (qt_cache s2))" using s2(2) by (simp add: cache_ok_def)
  obtain h where h: "htable_put k ?a (?a + 1) (qc_htable (qt_cache s2)) = Some h" "htable_ok rozofs_qt_hash rozofs_qt_cmp ROZOFS_QT_BUKETS h"
    "\<forall>k'. htable_map h k' = (if k = k' then ?a else htable_map (qc_htable (qt_cache s2)) k')" using qt.put_ok[OF hok2, of k ?a "?a + 1"] by auto
  let ?s' = "s2\<lparr>qt_cache := (rozofs_qt_cache_update_lru ?a (qt_cache s2))\<lparr>qc_htable := h, qc_size := qc_size (qt_cache s2) + 1\<rparr>, qt_next := ?a + 2\<rparr>"
  have "cache_ok ?s'"
    by (rule insert_entry_ok[OF s2(2) new2 pos _ m2 _ _ _ h(2)]) (use kd k r(3) h(3) s2(5,6,9) a in auto)
  moreover have "dom (qt_mem ?s') = set (qc_lru (qt_cache ?s'))"
    using s2(3,4) d new new2 by (auto simp: rozofs_qt_cache_update_lru_def remove1_idem dom_def split: if_splits)
  ultimately have "qt_ok n ?s'" using s2(6,7,8) r(2) by (simp add: qt_ok_def rozofs_qt_cache_update_lru_def)
  moreover have "rozofs_qt_cache_get (key_table k) k s = Some (?a, ?s')"
    using qt.get_ok[OF hok, of k] a qt_next_mem[OF s] pos r(1) s2(1,5) m2 kd h(1)
    by (simp add: rozofs_qt_cache_get_def Let_def rozofs_qt_cache_update_lru_def DQUOT_SZ_def)
  ultimately show ?thesis using pos m2 r(3) s2(6) by (auto simp: rozofs_qt_cache_update_lru_def)
qed

lemma cache_get_ok:
  assumes s: "qt_ok n s" and k: "valid_key k"
  obtains a s' where "rozofs_qt_cache_get (key_table k) k s = Some (a, s')" "qt_ok n s'" "a \<noteq> 0" "a \<in> set (qc_lru (qt_cache s'))" "qt_mem s' a = Some (store_view (qt_store s) k)"
    "quotas (qt_store s') = quotas (qt_store s)"
proof (cases "htable_map (qc_htable (qt_cache s)) k = 0")
  case True
  from cache_miss[OF s k True] show thesis by (auto intro!: that simp: quotas_def fun_eq_iff)
next
  case False
  from cache_hit[OF s refl False, of "key_table k"] show thesis using False by (auto intro!: that simp: quotas_def fun_eq_iff)
qed

text \<open>A quota changed in place and put back in the write-back cache.\<close>

lemma cache_put_ok:
  assumes s: "qt_ok (Suc n) s" and a: "a \<in> set (qc_lru (qt_cache s))" "qt_mem s a = Some d" and d': "dq_key d' = dq_key d"
  obtains s' where "rozofs_qt_cache_put (key_table (dq_key d)) a (s\<lparr>qt_mem := (qt_mem s)(a \<mapsto> d')\<rparr>) = Some s'" "qt_ok n s'" "quotas (qt_store s') = (quotas (qt_store s))(dq_key d := d')"
proof -
  let ?k = "dq_key d" and ?s1 = "s\<lparr>qt_mem := (qt_mem s)(a \<mapsto> d')\<rparr>"
  have c: "cache_ok s" and st: "store_ok (Suc n) (qt_store s)" using s by (simp_all add: qt_ok_def)
  have "entry_ok s a" using c a(1) by (simp add: cache_ok_def)
  then have k: "valid_key ?k" "htable_map (qc_htable (qt_cache s)) ?k = a" using a(2) by (simp_all add: entry_ok_def)
  obtain st' where w: "quota_wbcache_write (key_table ?k) d' (qt_store s) = Some (int DQUOT_SZ, st')" "store_ok n st'"
    "\<forall>k. valid_key k \<longrightarrow> store_view st' k = (if k = ?k then d' else store_view (qt_store s) k)" using write_ok[OF st, of d'] k(1) d' by auto
  let ?s' = "?s1\<lparr>qt_store := st'\<rparr>"
  have "entry_ok ?s' b" if "b \<in> set (qc_lru (qt_cache s))" for b
  proof -
    have "entry_ok s b" using c that by (simp add: cache_ok_def)
    then obtain x where x: "0 < b" "b < qt_next s" "qt_mem s b = Some x" "htable_map (qc_htable (qt_cache s)) (dq_key x) = b" "valid_key (dq_key x)" "store_view (qt_store s) (dq_key x) = x"
      by (rule entry_okE)
    show ?thesis
    proof (cases "b = a")
      case False
      then have "dq_key x \<noteq> ?k" using x(4) k(2) by auto
      then show ?thesis using x w(3) False by (simp add: entry_ok_def)
    qed (use x k w(3) d' a(2) in \<open>simp add: entry_ok_def\<close>)
  qed
  moreover have "key_ok ?s' x" for x
  proof -
    have "key_ok s x" using c by (simp add: cache_ok_def)
    then show ?thesis using a(2) d' by (auto simp: key_ok_def Let_def)
  qed
  ultimately have "cache_ok ?s'" using c by (simp add: cache_ok_def)
  then have "qt_ok n ?s'" using s w(2) a by (auto simp: qt_ok_def)
  moreover have "quotas st' = (quotas (qt_store s))(?k := d')" using w(3) k(1) by (auto simp: quotas_def fun_eq_iff)
  ultimately show thesis using that[of ?s'] w(1) by (simp add: rozofs_qt_cache_put_def)
qed

lemma cache_release_ok:
  assumes "cache_ok s"
  shows "\<exists>s'. foldM remove_entry (qc_lru (qt_cache s)) s = Some s' \<and> cache_ok s' \<and> qc_lru (qt_cache s') = [] \<and> qt_mem s' = qt_mem s |` (- set (qc_lru (qt_cache s))) \<and> qt_store s' = qt_store s"
  using assms
proof (induction "qc_lru (qt_cache s)" arbitrary: s)
  case Nil
  then show ?case by (simp flip: Nil.hyps)
next
  case (Cons a l)
  note l = Cons.hyps(2)[symmetric]
  have "a \<in> set (qc_lru (qt_cache s))" unfolding l by simp
  from remove_entry_ok[OF Cons.prems this] obtain s1 where s1: "remove_entry a s = Some s1" "cache_ok s1" "qc_lru (qt_cache s1) = l" "qt_mem s1 = (qt_mem s)(a := None)" "qt_store s1 = qt_store s"
    unfolding l by auto
  from Cons.hyps(1)[OF s1(3)[symmetric] s1(2)] obtain s' where "foldM remove_entry l s1 = Some s'" "cache_ok s'" "qc_lru (qt_cache s') = []" "qt_mem s' = qt_mem s1 |` (- set l)" "qt_store s' = qt_store s1"
    unfolding s1(3) by blast
  then show ?case using s1(1,4,5) unfolding l by (auto simp: restrict_map_def fun_eq_iff)
qed

section \<open>Properties\<close>

text \<open>
  C14. The cache of quotas is transparent and bounded. In every state that satisfies the invariant a lookup of a valid key returns an entry that holds the quota that the layers below hold, keeps the invariant and changes no quota. The
  cache never has more than its maximum of entries, the list of entries is exactly the allocated memory, so nothing leaks when an old entry makes room, and a release frees every entry.
\<close>

theorem cache_transparent:
  assumes "qt_ok n s" "valid_key k"
  shows "\<exists>a s'. rozofs_qt_cache_get (key_table k) k s = Some (a, s') \<and> a \<noteq> 0 \<and> qt_mem s' a = Some (quotas (qt_store s) k) \<and> quotas (qt_store s') = quotas (qt_store s)
     \<and> qt_ok n s' \<and> int (card (dom (qt_mem s'))) \<le> ROZOFS_QT_MAX_ENTRIES \<and> (\<exists>s''. rozofs_qt_cache_release s' = Some s'' \<and> qt_mem s'' = Map.empty \<and> qc_size (qt_cache s'') = 0)"
proof -
  obtain a s' where g: "rozofs_qt_cache_get (key_table k) k s = Some (a, s')" "qt_ok n s'" "a \<noteq> 0" "qt_mem s' a = Some (store_view (qt_store s) k)" "quotas (qt_store s') = quotas (qt_store s)"
    by (rule cache_get_ok[OF assms]) blast
  have c: "cache_ok s'" "dom (qt_mem s') = set (qc_lru (qt_cache s'))" "qc_size (qt_cache s') \<le> ROZOFS_QT_MAX_ENTRIES" using g(2) by (simp_all add: qt_ok_def)
  then have "int (card (dom (qt_mem s'))) = qc_size (qt_cache s')" by (simp add: cache_ok_def distinct_card)
  moreover obtain s'' where r: "rozofs_qt_cache_release s' = Some s''" "cache_ok s''" "qc_lru (qt_cache s'') = []" "qt_mem s'' = qt_mem s' |` (- set (qc_lru (qt_cache s')))"
    using cache_release_ok[OF c(1)] unfolding rozofs_qt_cache_release_def by blast
  moreover have "qt_mem s'' = Map.empty" using r(4) c(2) by (auto simp: restrict_map_def fun_eq_iff dom_def)
  moreover have "qc_size (qt_cache s'') = 0" using r(2,3) by (simp add: cache_ok_def)
  ultimately show ?thesis using g c(3) assms(2) by (auto simp: quotas_def)
qed

definition qt_start :: "quota_store \<Rightarrow> qt_state" where
  "qt_start st = \<lparr>qt_cache = rozofs_qt_cache_initialize, qt_mem = Map.empty, qt_next = 1, qt_store = st\<rparr>"

lemma qt_start_ok: "store_ok n st \<Longrightarrow> qt_ok n (qt_start st)"
  using qt.initialize_ok[of ROZOFS_QT_BUKETS] by (simp add: qt_ok_def cache_ok_def qt_start_def rozofs_qt_cache_initialize_def key_ok_def ROZOFS_QT_BUKETS_def ROZOFS_QT_MAX_ENTRIES_def)

theorem cache_transparent_witness:
  "let k = quota_key 1 0 5; s = qt_start (quota_wbcache_init (\<lambda>_. empty_table DQUOT_SZ 18)) in
   \<exists>a s'. rozofs_qt_cache_get (key_table k) k s = Some (a, s') \<and> qt_mem s' a = Some (zero_dquot k)"
proof -
  let ?s = "qt_start (quota_wbcache_init (\<lambda>_. empty_table DQUOT_SZ 18))"
  have "store_ok 0 (quota_wbcache_init (\<lambda>_. empty_table DQUOT_SZ 18))" by (rule init_ok(1)[OF empty_disk_ok(1)]) simp
  from cache_transparent[OF qt_start_ok[OF this] a_key(1)] show ?thesis
    using init_ok(2)[OF empty_disk_ok(1), of 0] empty_disk_ok(2) a_key(1) by (auto simp: quotas_def qt_start_def Let_def)
qed



end
