(* ===== verification/Quota.thy ===== *)
theory Quota
  imports Quota_Cache
begin

text \<open>
  The quota service of the export daemon (\<^verbatim>\<open>src/exportd/rozofs_quota.c\<close>): the accounts of users, groups and shares. The files and blocks of an export
  are charged to the accounts; a file is created only when no account is over its limits. The counters of an account and its times are signed integers of 64 bits. The time that a
  call reads is an argument.
\<close>

section \<open>Model\<close>

definition EXPGW_EID_MAX_IDX :: int where "EXPGW_EID_MAX_IDX = 1024"
definition USRQUOTA :: int where "USRQUOTA = 0"
definition GRPQUOTA :: int where "GRPQUOTA = 1"
definition SHRQUOTA :: int where "SHRQUOTA = 2"
definition MAXQUOTAS :: nat where "MAXQUOTAS = 3"
definition ROZOFS_QT_INC :: int where "ROZOFS_QT_INC = 1"

record rozofs_quota_info_t =
  dqi_flags :: u64
  dqi_bgrace :: u32
  dqi_igrace :: u32
  dqi_maxblimit :: u64
  dqi_maxilimit :: u64
  qi_enable :: u32

record rozofs_qt_export_t =
  quota_inode :: "table_ref list"
  quota_super :: "rozofs_quota_info_t list"

text \<open>
  The daemon: the exports, the cache, the files that hold the information of each export and type, the outcomes of the next system calls on these files (\<^term>\<open>None\<close> is
  success, \<^term>\<open>Some n\<close> a failure after \<open>n\<close> bytes), and whether \<^verbatim>\<open>errno\<close> is \<^verbatim>\<open>ENOENT\<close>.
\<close>

record quota_ctx =
  export_quota_table :: "rozofs_qt_export_t option list"
  qx_qt :: qt_state
  rozofs_qt_init_done :: bool
  qx_files :: "int \<times> int \<Rightarrow> u8 list option"
  qx_io :: "nat option list"
  qx_enoent :: bool

subsection \<open>Limits and grace times\<close>

text \<open>Sums of signed integers that overflow have no result.\<close>

definition s64_add :: "u64 \<Rightarrow> u64 \<Rightarrow> u64 option" where
  "s64_add a b = (let r = sint a + sint b in if - (2 ^ 63) \<le> r \<and> r < 2 ^ 63 then Some (word_of_int r) else None)"

definition rozofs_toqb :: "u64 \<Rightarrow> int option" where
  "rozofs_toqb x = map_option (\<lambda>y. (sint y - 1) div 2 ^ 10) (s64_add x 1024)"

text \<open>The test of a limit: none is set when it is 0.\<close>

definition blocks_over :: "u64 \<Rightarrow> rozo_mem_dqblk \<Rightarrow> bool option" where
  "blocks_over limit q = (if limit = 0 then Some False else map_option (\<lambda>b. b > sint limit) (rozofs_toqb (dqb_curspace q)))"

definition inodes_over :: "u64 \<Rightarrow> rozo_mem_dqblk \<Rightarrow> bool" where
  "inodes_over limit q \<longleftrightarrow> limit \<noteq> 0 \<and> sint (dqb_curinodes q) > sint limit"

definition rozofs_quota_check_grace_times :: "u64 \<Rightarrow> rozo_mem_dqblk \<Rightarrow> int option" where
  "rozofs_quota_check_grace_times now q = do {
     hard \<leftarrow> blocks_over (dqb_bhardlimit q) q;
     if hard then Some (-1)
     else do {
       soft \<leftarrow> blocks_over (dqb_bsoftlimit q) q;
       if soft \<and> sint (dqb_btime q) < sint now then Some (-1)
       else if inodes_over (dqb_ihardlimit q) q then Some (-1)
       else if inodes_over (dqb_isoftlimit q) q \<and> sint (dqb_itime q) < sint now then Some (-1)
       else Some 0 } }"

definition rozofs_quota_update_grace_times_blocks :: "u64 \<Rightarrow> rozofs_quota_info_t \<Rightarrow> rozo_mem_dqblk \<Rightarrow> rozo_mem_dqblk option" where
  "rozofs_quota_update_grace_times_blocks now info q = do {
     soft \<leftarrow> blocks_over (dqb_bsoftlimit q) q;
     if soft then (if dqb_btime q = 0 then do { t \<leftarrow> s64_add now (ucast (dqi_bgrace info)); Some (q\<lparr>dqb_btime := t\<rparr>) } else Some q)
     else Some (q\<lparr>dqb_btime := 0\<rparr>) }"

definition rozofs_quota_update_grace_times_inodes :: "u64 \<Rightarrow> rozofs_quota_info_t \<Rightarrow> rozo_mem_dqblk \<Rightarrow> rozo_mem_dqblk option" where
  "rozofs_quota_update_grace_times_inodes now info q =
     (if inodes_over (dqb_isoftlimit q) q then (if dqb_itime q = 0 then do { t \<leftarrow> s64_add now (ucast (dqi_igrace info)); Some (q\<lparr>dqb_itime := t\<rparr>) } else Some q)
      else Some (q\<lparr>dqb_itime := 0\<rparr>))"

definition rozofs_quota_update_grace_times :: "u64 \<Rightarrow> u64 \<Rightarrow> rozofs_quota_info_t \<Rightarrow> rozo_mem_dqblk \<Rightarrow> rozo_mem_dqblk option" where
  "rozofs_quota_update_grace_times now_i now_b info q = do {
     q \<leftarrow> rozofs_quota_update_grace_times_inodes now_i info q;
     rozofs_quota_update_grace_times_blocks now_b info q }"

subsection \<open>Accounts\<close>

text \<open>A quota looked up in the cache, changed in place and put back; the pointer is 0 when the lookup failed.\<close>

definition change_quota :: "table_ref \<Rightarrow> u64 \<Rightarrow> (rozo_mem_dqblk \<Rightarrow> rozo_mem_dqblk option) \<Rightarrow> qt_state \<Rightarrow> (nat \<times> qt_state) option" where
  "change_quota disk_p key f s = do {
     (dquot, s) \<leftarrow> rozofs_qt_cache_get disk_p key s;
     if dquot = 0 then Some (0, s)
     else do {
       d \<leftarrow> qt_mem s dquot;
       q \<leftarrow> f (dq_quota d);
       s \<leftarrow> rozofs_qt_cache_put disk_p dquot (s\<lparr>qt_mem := (qt_mem s)(dquot \<mapsto> d\<lparr>dq_quota := q\<rparr>)\<rparr>);
       Some (dquot, s) } }"

text \<open>The counter after a change: sums wrap around, and a counter that becomes negative is set to 0 by a decrement.\<close>

definition add_count :: "int \<Rightarrow> u64 \<Rightarrow> u64 \<Rightarrow> u64" where
  "add_count action count c = (if action = ROZOFS_QT_INC then c + count else let c = c - count in if sint c < 0 then 0 else c)"

definition rozofs_qt_dqot_inode_update :: "table_ref \<Rightarrow> int \<Rightarrow> int \<Rightarrow> int \<Rightarrow> u64 \<Rightarrow> int \<Rightarrow> rozofs_quota_info_t \<Rightarrow> u64 \<Rightarrow> qt_state \<Rightarrow> (int \<times> qt_state) option" where
  "rozofs_qt_dqot_inode_update disk_p eid type qid count action info now s = do {
     (dquot, s) \<leftarrow> change_quota disk_p (quota_key eid type qid)
       (\<lambda>q. rozofs_quota_update_grace_times_inodes now info (q\<lparr>dqb_curinodes := add_count action count (dqb_curinodes q)\<rparr>)) s;
     Some (if dquot = 0 then -1 else 0, s) }"

definition rozofs_qt_dqot_block_update :: "table_ref \<Rightarrow> int \<Rightarrow> int \<Rightarrow> int \<Rightarrow> u64 \<Rightarrow> int \<Rightarrow> rozofs_quota_info_t \<Rightarrow> u64 \<Rightarrow> qt_state \<Rightarrow> (int \<times> qt_state) option" where
  "rozofs_qt_dqot_block_update disk_p eid type qid count action info now s = do {
     (dquot, s) \<leftarrow> change_quota disk_p (quota_key eid type qid)
       (\<lambda>q. rozofs_quota_update_grace_times_blocks now info (q\<lparr>dqb_curspace := add_count action count (dqb_curspace q)\<rparr>)) s;
     Some (if dquot = 0 then -1 else 0, s) }"

text \<open>The call for the account of a type, when its condition holds. \<open>now\<close> is the time that is read for each type.\<close>

definition account :: "(table_ref \<Rightarrow> int \<Rightarrow> int \<Rightarrow> int \<Rightarrow> u64 \<Rightarrow> int \<Rightarrow> rozofs_quota_info_t \<Rightarrow> u64 \<Rightarrow> qt_state \<Rightarrow> (int \<times> qt_state) option) \<Rightarrow>
    rozofs_qt_export_t \<Rightarrow> bool \<Rightarrow> int \<Rightarrow> int \<Rightarrow> int \<Rightarrow> u64 \<Rightarrow> int \<Rightarrow> (int \<Rightarrow> u64) \<Rightarrow> qt_state \<Rightarrow> qt_state option" where
  "account upd p cond eid type qid count action now s =
     (if \<not> cond then Some s
      else do {
        disk_p \<leftarrow> arr_get (quota_inode p) type;
        info \<leftarrow> arr_get (quota_super p) type;
        (_, s) \<leftarrow> upd disk_p eid type qid count action info (now type) s;
        Some s })"

definition rozofs_qt_inode_update :: "int \<Rightarrow> int \<Rightarrow> int \<Rightarrow> int \<Rightarrow> int \<Rightarrow> u16 \<Rightarrow> (int \<Rightarrow> u64) \<Rightarrow> quota_ctx \<Rightarrow> (int \<times> quota_ctx) option" where
  "rozofs_qt_inode_update eid user_id grp_id nb_inode action share now x =
     (if eid > EXPGW_EID_MAX_IDX then Some (-1, x)
      else do {
        e \<leftarrow> arr_get (export_quota_table x) eid;
        (case e of None \<Rightarrow> Some (-1, x)
         | Some p \<Rightarrow> do {
             s \<leftarrow> account rozofs_qt_dqot_inode_update p (user_id \<noteq> -1) eid USRQUOTA user_id (word_of_int nb_inode) action now (qx_qt x);
             s \<leftarrow> account rozofs_qt_dqot_inode_update p (grp_id \<noteq> -1) eid GRPQUOTA grp_id (word_of_int nb_inode) action now s;
             s \<leftarrow> account rozofs_qt_dqot_inode_update p (share \<noteq> 0) eid SHRQUOTA (uint share) (word_of_int nb_inode) action now s;
             Some (0, x\<lparr>qx_qt := s\<rparr>) }) })"

definition rozofs_qt_block_update :: "int \<Rightarrow> int \<Rightarrow> int \<Rightarrow> u64 \<Rightarrow> int \<Rightarrow> u16 \<Rightarrow> (int \<Rightarrow> u64) \<Rightarrow> quota_ctx \<Rightarrow> (int \<times> quota_ctx) option" where
  "rozofs_qt_block_update eid user_id grp_id sz action share now x =
     (if eid > EXPGW_EID_MAX_IDX then Some (-1, x)
      else do {
        e \<leftarrow> arr_get (export_quota_table x) eid;
        (case e of None \<Rightarrow> Some (-1, x)
         | Some p \<Rightarrow> do {
             s \<leftarrow> account rozofs_qt_dqot_block_update p (user_id \<noteq> -1) eid USRQUOTA user_id sz action now (qx_qt x);
             s \<leftarrow> account rozofs_qt_dqot_block_update p (grp_id \<noteq> -1) eid GRPQUOTA user_id sz action now s;
             s \<leftarrow> account rozofs_qt_dqot_block_update p (share \<noteq> 0) eid SHRQUOTA (uint share) sz action now s;
             Some (0, x\<lparr>qx_qt := s\<rparr>) }) })"

text \<open>The values of \<^verbatim>\<open>errno\<close>; \<open>ESYS\<close> stands for the one of a failed system call.\<close>

datatype qt_errno = ERANGE | ENOENT | EFAULT | EPROTO | ESYS

definition rozofs_qt_get_quota :: "int \<Rightarrow> int \<Rightarrow> int \<Rightarrow> quota_ctx \<Rightarrow> ((qt_errno + nat) \<times> quota_ctx) option" where
  "rozofs_qt_get_quota eid type identifier x =
     (if eid > EXPGW_EID_MAX_IDX then Some (Inl ERANGE, x)
      else do {
        e \<leftarrow> arr_get (export_quota_table x) eid;
        (case e of None \<Rightarrow> Some (Inl ENOENT, x)
         | Some p \<Rightarrow> do {
             disk_p \<leftarrow> arr_get (quota_inode p) type;
             (dquot, s) \<leftarrow> rozofs_qt_cache_get disk_p (quota_key eid type identifier) (qx_qt x);
             Some (if dquot = 0 then Inl EFAULT else Inr dquot, x\<lparr>qx_qt := s\<rparr>) }) })"

text \<open>The check of one account of \<^verbatim>\<open>rozofs_qt_check_quota\<close>.\<close>

definition check_account :: "rozofs_qt_export_t \<Rightarrow> int \<Rightarrow> int \<Rightarrow> int \<Rightarrow> (int \<Rightarrow> u64) \<Rightarrow> qt_state \<Rightarrow> (int \<times> qt_state) option" where
  "check_account p eid type qid now s = do {
     disk_p \<leftarrow> arr_get (quota_inode p) type;
     (dquot, s) \<leftarrow> rozofs_qt_cache_get disk_p (quota_key eid type qid) s;
     if dquot = 0 then Some (0, s)
     else do { d \<leftarrow> qt_mem s dquot; ret \<leftarrow> rozofs_quota_check_grace_times (now type) (dq_quota d); Some (ret, s) } }"

definition enabled :: "rozofs_qt_export_t \<Rightarrow> int \<Rightarrow> bool option" where
  "enabled p type = map_option (\<lambda>i. qi_enable i \<noteq> 0) (arr_get (quota_super p) type)"

definition rozofs_qt_check_quota :: "int \<Rightarrow> int \<Rightarrow> int \<Rightarrow> int \<Rightarrow> (int \<Rightarrow> u64) \<Rightarrow> quota_ctx \<Rightarrow> (int \<times> quota_ctx) option" where
  "rozofs_qt_check_quota eid user_id grp_id share_id now x =
     (if eid > EXPGW_EID_MAX_IDX then Some (-1, x)
      else do {
        e \<leftarrow> arr_get (export_quota_table x) eid;
        (case e of None \<Rightarrow> Some (-1, x)
         | Some p \<Rightarrow> do {
             en \<leftarrow> enabled p USRQUOTA;
             (ret, s) \<leftarrow> (if en then check_account p eid USRQUOTA user_id now (qx_qt x) else Some (0, qx_qt x));
             if ret < 0 then Some (-1, x\<lparr>qx_qt := s\<rparr>) else do {
             en \<leftarrow> enabled p GRPQUOTA;
             (ret, s) \<leftarrow> (if en then check_account p eid GRPQUOTA grp_id now s else Some (0, s));
             if ret < 0 then Some (-1, x\<lparr>qx_qt := s\<rparr>) else do {
             en \<leftarrow> enabled p SHRQUOTA;
             (ret, s) \<leftarrow> (if en \<and> share_id \<noteq> 0 then check_account p eid SHRQUOTA share_id now s else Some (0, s));
             Some (if ret < 0 then -1 else 0, x\<lparr>qx_qt := s\<rparr>) } } }) })"

subsection \<open>Administration\<close>

record sq_dqblk =
  rq_bhardlimit :: u64
  rq_bsoftlimit :: u64
  rq_curblocks :: u64
  rq_fhardlimit :: u64
  rq_fsoftlimit :: u64
  rq_curfiles :: u64
  rq_btimeleft :: u64
  rq_ftimeleft :: u64

definition QIF_BLIMITS :: u32 where "QIF_BLIMITS = 1"
definition QIF_ILIMITS :: u32 where "QIF_ILIMITS = 4"
definition QIF_TIMES :: u32 where "QIF_TIMES = 16 OR 32"

definition set_limits :: "u32 \<Rightarrow> sq_dqblk \<Rightarrow> rozo_mem_dqblk \<Rightarrow> rozo_mem_dqblk" where
  "set_limits sqa_cmd src q = (
     let q = (if sqa_cmd AND QIF_BLIMITS \<noteq> 0 then q\<lparr>dqb_bhardlimit := rq_bhardlimit src, dqb_bsoftlimit := rq_bsoftlimit src\<rparr> else q);
         q = (if sqa_cmd AND QIF_TIMES \<noteq> 0 then q\<lparr>dqb_btime := rq_btimeleft src, dqb_itime := rq_ftimeleft src\<rparr> else q) in
     if sqa_cmd AND QIF_ILIMITS \<noteq> 0 then q\<lparr>dqb_ihardlimit := rq_fhardlimit src, dqb_isoftlimit := rq_fsoftlimit src\<rparr> else q)"

definition rozofs_qt_set_quota :: "int \<Rightarrow> int \<Rightarrow> int \<Rightarrow> u32 \<Rightarrow> sq_dqblk \<Rightarrow> u64 \<Rightarrow> u64 \<Rightarrow> quota_ctx \<Rightarrow> ((qt_errno + unit) \<times> quota_ctx) option" where
  "rozofs_qt_set_quota eid type identifier sqa_cmd src now_i now_b x =
     (if eid > EXPGW_EID_MAX_IDX then Some (Inl ERANGE, x)
      else do {
        e \<leftarrow> arr_get (export_quota_table x) eid;
        (case e of None \<Rightarrow> Some (Inl ENOENT, x)
         | Some p \<Rightarrow> do {
             disk_p \<leftarrow> arr_get (quota_inode p) type;
             info \<leftarrow> arr_get (quota_super p) type;
             (dquot, s) \<leftarrow> change_quota disk_p (quota_key eid type identifier)
               (\<lambda>q. rozofs_quota_update_grace_times now_i now_b info (set_limits sqa_cmd src q)) (qx_qt x);
             Some (if dquot = 0 then Inl EFAULT else Inr (), x\<lparr>qx_qt := s\<rparr>) }) })"

subsection \<open>Exports\<close>

definition ROZOFS_MAX_DQ_TIME :: u32 where "ROZOFS_MAX_DQ_TIME = 604800"
definition ROZOFS_MAX_IQ_TIME :: u32 where "ROZOFS_MAX_IQ_TIME = 604800"
definition ROZOFS_QUOTA_DISK_TB_SZ_POWER2 :: nat where "ROZOFS_QUOTA_DISK_TB_SZ_POWER2 = 18"
definition QUOTA_INFO_SZ :: nat where "QUOTA_INFO_SZ = 40"

text \<open>The information in memory: two words of 32 bits share 8 bytes, and the last 4 bytes are padding, which is 0.\<close>

definition info_bytes :: "rozofs_quota_info_t \<Rightarrow> u8 list" where
  "info_bytes i = concat (map u64_bytes [dqi_flags i, ucast (dqi_bgrace i) OR push_bit 32 (ucast (dqi_igrace i)), dqi_maxblimit i, dqi_maxilimit i, ucast (qi_enable i)])"

definition bytes_info :: "u8 list \<Rightarrow> rozofs_quota_info_t" where
  "bytes_info bs = (let w = (\<lambda>i. bytes_u64 (take 8 (drop (8 * i) bs))) in
     \<lparr>dqi_flags = w 0, dqi_bgrace = ucast (w 1), dqi_igrace = ucast (drop_bit 32 (w 1)), dqi_maxblimit = w 2, dqi_maxilimit = w 3, qi_enable = ucast (w 4)\<rparr>)"

definition next_outcome :: "quota_ctx \<Rightarrow> nat option \<times> quota_ctx" where
  "next_outcome x = (case qx_io x of [] \<Rightarrow> (None, x) | r # rs \<Rightarrow> (r, x\<lparr>qx_io := rs\<rparr>))"

definition rozofs_qt_write_quota_info :: "int \<Rightarrow> int \<Rightarrow> rozofs_quota_info_t \<Rightarrow> quota_ctx \<Rightarrow> int \<times> quota_ctx" where
  "rozofs_qt_write_quota_info eid type info x = (case next_outcome x of (r, x) \<Rightarrow>
     if r \<noteq> None then (-1, x\<lparr>qx_enoent := False\<rparr>)
     else (case next_outcome x of (r, x) \<Rightarrow>
       let d = transferred r (info_bytes info);
           f = (case qx_files x (eid, type) of None \<Rightarrow> [] | Some f \<Rightarrow> f);
           x = x\<lparr>qx_files := (qx_files x)((eid, type) := Some (file_pwrite f d 0))\<rparr> in
       if length d \<noteq> QUOTA_INFO_SZ then (-1, x) else (0, x)))"

definition rozofs_qt_read_quota_info :: "int \<Rightarrow> int \<Rightarrow> rozofs_quota_info_t \<Rightarrow> quota_ctx \<Rightarrow> int \<times> rozofs_quota_info_t \<times> quota_ctx" where
  "rozofs_qt_read_quota_info eid type info x = (case next_outcome x of (r, x) \<Rightarrow>
     if r \<noteq> None then (-1, info, x\<lparr>qx_enoent := False\<rparr>)
     else (case qx_files x (eid, type) of None \<Rightarrow> (-1, info, x\<lparr>qx_enoent := True\<rparr>)
       | Some f \<Rightarrow> (case next_outcome x of (r, x) \<Rightarrow>
           let d = transferred r (file_pread f QUOTA_INFO_SZ 0);
               info = bytes_info (d @ drop (length d) (info_bytes info)) in
           if length d \<noteq> QUOTA_INFO_SZ then (-1, info, x) else (0, info, x))))"

text \<open>A change of the information of an export, written to its file.\<close>

definition change_info :: "int \<Rightarrow> int \<Rightarrow> (rozofs_quota_info_t \<Rightarrow> rozofs_quota_info_t) \<Rightarrow> quota_ctx \<Rightarrow> ((qt_errno + unit) \<times> quota_ctx) option" where
  "change_info eid type f x =
     (if eid > EXPGW_EID_MAX_IDX then Some (Inl ERANGE, x)
      else do {
        e \<leftarrow> arr_get (export_quota_table x) eid;
        (case e of None \<Rightarrow> Some (Inl ENOENT, x)
         | Some p \<Rightarrow> do {
             info \<leftarrow> arr_get (quota_super p) type;
             super \<leftarrow> arr_set (quota_super p) type (f info);
             tab \<leftarrow> arr_set (export_quota_table x) eid (Some (p\<lparr>quota_super := super\<rparr>));
             (case rozofs_qt_write_quota_info eid type (f info) (x\<lparr>export_quota_table := tab\<rparr>) of (ret, x) \<Rightarrow>
               Some (if ret < 0 then Inl ESYS else Inr (), x)) }) })"

definition rozofs_qt_set_quotainfo :: "int \<Rightarrow> int \<Rightarrow> sq_dqblk \<Rightarrow> quota_ctx \<Rightarrow> ((qt_errno + unit) \<times> quota_ctx) option" where
  "rozofs_qt_set_quotainfo eid type src = change_info eid type (\<lambda>i. i\<lparr>dqi_bgrace := ucast (rq_btimeleft src), dqi_igrace := ucast (rq_ftimeleft src)\<rparr>)"

definition rozofs_qt_set_quotastate :: "int \<Rightarrow> int \<Rightarrow> int \<Rightarrow> quota_ctx \<Rightarrow> ((qt_errno + unit) \<times> quota_ctx) option" where
  "rozofs_qt_set_quotastate eid type cmd = change_info eid type (\<lambda>i. i\<lparr>qi_enable := word_of_int cmd\<rparr>)"

text \<open>The creation of the context of an export: the information of each type is read from its file, which is created when there is none, and the tables are opened.\<close>

definition default_info :: rozofs_quota_info_t where
  "default_info = \<lparr>dqi_flags = 0, dqi_bgrace = ROZOFS_MAX_DQ_TIME, dqi_igrace = ROZOFS_MAX_IQ_TIME, dqi_maxblimit = 0xffffffffffffffff, dqi_maxilimit = 0xffffffffffffffff, qi_enable = 1\<rparr>"

definition load_info :: "int \<Rightarrow> int \<Rightarrow> rozofs_quota_info_t list \<times> quota_ctx \<Rightarrow> rozofs_quota_info_t list \<times> quota_ctx" where
  "load_info eid type = (\<lambda>(super, x). case rozofs_qt_read_quota_info eid type default_info x of (ret, info, x) \<Rightarrow>
     if ret < 0 \<and> qx_enoent x then
       (case rozofs_qt_write_quota_info eid type info x of (ret, x) \<Rightarrow> (super @ [if ret < 0 then info\<lparr>qi_enable := 0\<rparr> else info], x))
     else (super @ [info], x))"

definition open_table :: "int \<Rightarrow> int \<Rightarrow> bool \<times> quota_ctx \<Rightarrow> bool \<times> quota_ctx" where
  "open_table eid type = (\<lambda>(ok, x). if \<not> ok then (False, x) else
     let p = (word_of_int eid, word_of_int type); st = qt_store (qx_qt x) in
     case disk_tb_ctx_allocate DQUOT_SZ ROZOFS_QUOTA_DISK_TB_SZ_POWER2 (qs_disk st p) of (ok, t) \<Rightarrow>
       (ok, x\<lparr>qx_qt := (qx_qt x)\<lparr>qt_store := st\<lparr>qs_disk := (qs_disk st)(p := t)\<rparr>\<rparr>\<rparr>))"

definition next_mem_ctx :: "quota_ctx \<Rightarrow> bool \<times> quota_ctx" where
  "next_mem_ctx x = (case next_mem (qt_store (qx_qt x)) of (ok, st) \<Rightarrow> (ok, x\<lparr>qx_qt := (qx_qt x)\<lparr>qt_store := st\<rparr>\<rparr>))"

definition rozofs_qt_alloc_context :: "int \<Rightarrow> quota_ctx \<Rightarrow> (bool \<times> quota_ctx) option" where
  "rozofs_qt_alloc_context eid x =
     (if \<not> rozofs_qt_init_done x then Some (False, x)
      else if eid > EXPGW_EID_MAX_IDX then Some (False, x)
      else do {
        e \<leftarrow> arr_get (export_quota_table x) eid;
        if e \<noteq> None then Some (True, x)
        else (case next_mem_ctx x of (ok, x) \<Rightarrow>
          if \<not> ok then Some (False, x)
          else (case next_mem_ctx x of (ok, x) \<Rightarrow>
            if \<not> ok then Some (False, x)
            else (case fold (load_info eid) [USRQUOTA, GRPQUOTA, SHRQUOTA] ([], x) of (super, x) \<Rightarrow>
              (case fold (open_table eid) [USRQUOTA, GRPQUOTA, SHRQUOTA] (True, x) of (ok, x) \<Rightarrow>
                if \<not> ok then Some (False, x)
                else do {
                  tab \<leftarrow> arr_set (export_quota_table x) eid
                    (Some \<lparr>quota_inode = map (\<lambda>i. (word_of_int eid, word_of_int i)) [USRQUOTA, GRPQUOTA, SHRQUOTA], quota_super = super\<rparr>);
                  Some (True, x\<lparr>export_quota_table := tab\<rparr>) })))) })"

text \<open>The start of the daemon on the tables and files of a disk; \<open>ret\<close> is what the creation of the locks and of the thread of the write-back cache returns, at the end of its initialisation.\<close>

definition rozofs_qt_init :: "int \<Rightarrow> quota_ctx \<Rightarrow> int \<times> quota_ctx" where
  "rozofs_qt_init ret x =
     (if rozofs_qt_init_done x then (0, x)
      else let x = x\<lparr>qx_qt := (qx_qt x)\<lparr>qt_cache := rozofs_qt_cache_initialize, qt_store := quota_wbcache_init (qs_disk (qt_store (qx_qt x)))\<rparr>\<rparr>
        in if ret < 0 then (-1, x) else (0, x\<lparr>rozofs_qt_init_done := True\<rparr>))"

section \<open>Specification\<close>

text \<open>The counters as integers, the sizes in blocks of 1024 bytes rounded up.\<close>

definition charged :: "int \<Rightarrow> int \<Rightarrow> int \<Rightarrow> int" where
  "charged action count c = (if action = ROZOFS_QT_INC then c + count else max 0 (c - count))"

definition space_over :: "u64 \<Rightarrow> rozo_mem_dqblk \<Rightarrow> bool" where
  "space_over limit q \<longleftrightarrow> limit \<noteq> 0 \<and> (sint (dqb_curspace q) + 1023) div 1024 > sint limit"

definition over_limits :: "u64 \<Rightarrow> rozo_mem_dqblk \<Rightarrow> bool" where
  "over_limits now q \<longleftrightarrow> space_over (dqb_bhardlimit q) q \<or> space_over (dqb_bsoftlimit q) q \<and> sint (dqb_btime q) < sint now
     \<or> inodes_over (dqb_ihardlimit q) q \<or> inodes_over (dqb_isoftlimit q) q \<and> sint (dqb_itime q) < sint now"

text \<open>The end of the grace time starts when the soft limit is passed, stays while it is, and is cleared after.\<close>

definition grace_end :: "bool \<Rightarrow> u64 \<Rightarrow> u32 \<Rightarrow> u64 \<Rightarrow> u64" where
  "grace_end over now grace t = (if \<not> over then 0 else if t = 0 then now + ucast grace else t)"

definition block_grace :: "u64 \<Rightarrow> rozofs_quota_info_t \<Rightarrow> rozo_mem_dqblk \<Rightarrow> rozo_mem_dqblk" where
  "block_grace now info q = q\<lparr>dqb_btime := grace_end (space_over (dqb_bsoftlimit q) q) now (dqi_bgrace info) (dqb_btime q)\<rparr>"

definition inode_grace :: "u64 \<Rightarrow> rozofs_quota_info_t \<Rightarrow> rozo_mem_dqblk \<Rightarrow> rozo_mem_dqblk" where
  "inode_grace now info q = q\<lparr>dqb_itime := grace_end (inodes_over (dqb_isoftlimit q) q) now (dqi_igrace info) (dqb_itime q)\<rparr>"

definition block_account :: "int \<Rightarrow> u64 \<Rightarrow> rozofs_quota_info_t \<Rightarrow> u64 \<Rightarrow> rozo_mem_dqblk \<Rightarrow> rozo_mem_dqblk" where
  "block_account action count info now q = block_grace now info (q\<lparr>dqb_curspace := word_of_int (charged action (uint count) (sint (dqb_curspace q)))\<rparr>)"

definition inode_account :: "int \<Rightarrow> u64 \<Rightarrow> rozofs_quota_info_t \<Rightarrow> u64 \<Rightarrow> rozo_mem_dqblk \<Rightarrow> rozo_mem_dqblk" where
  "inode_account action count info now q = inode_grace now info (q\<lparr>dqb_curinodes := word_of_int (charged action (uint count) (sint (dqb_curinodes q)))\<rparr>)"

definition apply_account :: "(rozofs_quota_info_t \<Rightarrow> u64 \<Rightarrow> rozo_mem_dqblk \<Rightarrow> rozo_mem_dqblk) \<Rightarrow> (int \<Rightarrow> rozofs_quota_info_t) \<Rightarrow> int \<Rightarrow> (int \<Rightarrow> u64) \<Rightarrow>
    bool \<times> int \<times> int \<Rightarrow> (u64 \<Rightarrow> rozofs_dquot_t) \<Rightarrow> u64 \<Rightarrow> rozofs_dquot_t" where
  "apply_account f info eid now = (\<lambda>(cond, type, qid) m.
     if cond then let k = quota_key eid type qid in m(k := \<lparr>dq_key = k, dq_quota = f (info type) (now type) (dq_quota (m k))\<rparr>) else m)"

section \<open>Counters and limits\<close>

lemma sint_word: "- (2 ^ 63) \<le> z \<Longrightarrow> z < 2 ^ 63 \<Longrightarrow> sint (word_of_int z :: u64) = z"
  by (simp add: signed_of_int signed_take_bit_int_eq_self)

lemma s64_add_ok: "- (2 ^ 63) \<le> sint a + sint b \<Longrightarrow> sint a + sint b < 2 ^ 63 \<Longrightarrow> s64_add a b = Some (a + b)"
  by (simp add: s64_add_def Let_def)

lemma toqb_ok: "0 \<le> sint x \<Longrightarrow> sint x + 1024 < 2 ^ 63 \<Longrightarrow> rozofs_toqb x = Some ((sint x + 1023) div 1024)"
  using sint_word[of "sint x + 1024"] by (simp add: rozofs_toqb_def s64_add_def Let_def)

text \<open>An account with room: \<open>n\<close> more charges of at most \<open>B\<close> bytes or files do not overflow its counters.\<close>

definition room :: "nat \<Rightarrow> nat \<Rightarrow> rozo_mem_dqblk \<Rightarrow> bool" where
  "room B n q \<longleftrightarrow> 0 \<le> sint (dqb_curspace q) \<and> sint (dqb_curspace q) + int (n * B) + 1024 < 2 ^ 63
     \<and> 0 \<le> sint (dqb_curinodes q) \<and> sint (dqb_curinodes q) + int (n * B) < 2 ^ 63"

definition count_ok :: "nat \<Rightarrow> int \<Rightarrow> u64 \<Rightarrow> bool" where
  "count_ok B action count \<longleftrightarrow> uint count < 2 ^ 63 \<and> (action = ROZOFS_QT_INC \<longrightarrow> uint count \<le> int B)"

definition time_ok :: "u64 \<Rightarrow> bool" where
  "time_ok now \<longleftrightarrow> 0 \<le> sint now \<and> sint now < 2 ^ 62"

lemma charged_range:
  assumes "count_ok B action count" "0 \<le> c" "c + int (Suc n * B) + e < 2 ^ 63" "0 \<le> e"
  shows "0 \<le> charged action (uint count) c" "charged action (uint count) c + int (n * B) + e < 2 ^ 63"
proof -
  obtain u where u: "uint count = u" "0 \<le> u" using uint_ge_0 by blast
  show "0 \<le> charged action (uint count) c" "charged action (uint count) c + int (n * B) + e < 2 ^ 63"
    using assms u(2) unfolding charged_def count_ok_def u(1) by (auto simp: max_def simp del: of_nat_mult)
qed

lemma add_count_ok:
  assumes "count_ok B action count" "0 \<le> sint c" "sint c + int B < 2 ^ 63"
  shows "add_count action count c = word_of_int (charged action (uint count) (sint c))"
proof -
  have w: "c = word_of_int (sint c)" "count = word_of_int (uint count)" by simp_all
  have "c + count = word_of_int (sint c + uint count)" "c - count = word_of_int (sint c - uint count)" by simp_all
  moreover have "sint (word_of_int (sint c - uint count) :: u64) = sint c - uint count"
  proof (rule sint_word)
    obtain u where u: "uint count = u" "0 \<le> u" using uint_ge_0 by blast
    show "- (2 ^ 63) \<le> sint c - uint count" "sint c - uint count < 2 ^ 63" using assms u(2) unfolding count_ok_def u(1) by auto
  qed
  ultimately show ?thesis by (simp add: add_count_def charged_def Let_def max_def)
qed

lemma blocks_over_ok: "room B n q \<Longrightarrow> blocks_over limit q = Some (space_over limit q)"
  using toqb_ok[of "dqb_curspace q"] by (auto simp: blocks_over_def space_over_def room_def simp del: of_nat_mult)

lemma check_grace_ok: "room B n q \<Longrightarrow> rozofs_quota_check_grace_times now q = Some (if over_limits now q then -1 else 0)"
  by (simp add: rozofs_quota_check_grace_times_def blocks_over_ok over_limits_def)

lemma grace_sum: "time_ok now \<Longrightarrow> s64_add now (ucast (g :: u32)) = Some (now + ucast g)"
proof -
  assume t: "time_ok now"
  obtain u where u: "uint g = u" "0 \<le> u" using uint_ge_0 by blast
  then have "u < 2 ^ 32" using uint_bounded[of g] by simp
  moreover from this have "- (2 ^ 63) \<le> uint g" "uint g < 2 ^ 63" using u by auto
  from sint_word[OF this] have "sint (ucast g :: u64) = uint g" by simp
  ultimately show ?thesis using t u by (intro s64_add_ok) (auto simp: time_ok_def)
qed

lemma update_blocks_ok: "room B n q \<Longrightarrow> time_ok now \<Longrightarrow> rozofs_quota_update_grace_times_blocks now info q = Some (block_grace now info q)"
  by (simp add: rozofs_quota_update_grace_times_blocks_def blocks_over_ok grace_sum block_grace_def grace_end_def)

lemma update_inodes_ok: "time_ok now \<Longrightarrow> rozofs_quota_update_grace_times_inodes now info q = Some (inode_grace now info q)"
  by (simp add: rozofs_quota_update_grace_times_inodes_def grace_sum inode_grace_def grace_end_def)

lemma account_updates:
  assumes "room B (Suc n) q" "count_ok B action count" "time_ok now"
  shows "rozofs_quota_update_grace_times_blocks now info (q\<lparr>dqb_curspace := add_count action count (dqb_curspace q)\<rparr>) = Some (block_account action count info now q)"
    "rozofs_quota_update_grace_times_inodes now info (q\<lparr>dqb_curinodes := add_count action count (dqb_curinodes q)\<rparr>) = Some (inode_account action count info now q)"
    "room B n (block_account action count info now q)" "room B n (inode_account action count info now q)"
proof -
  let ?b = "charged action (uint count) (sint (dqb_curspace q))" and ?i = "charged action (uint count) (sint (dqb_curinodes q))"
  have q: "0 \<le> sint (dqb_curspace q)" "sint (dqb_curspace q) + int (Suc n * B) + 1024 < 2 ^ 63" "0 \<le> sint (dqb_curinodes q)" "sint (dqb_curinodes q) + int (Suc n * B) + 0 < 2 ^ 63"
    using assms(1) by (simp_all add: room_def)
  note b = charged_range[OF assms(2) q(1,2)] and i = charged_range[OF assms(2) q(3,4)]
  have ac: "add_count action count (dqb_curspace q) = word_of_int ?b" "add_count action count (dqb_curinodes q) = word_of_int ?i"
    using q by (auto intro!: add_count_ok[OF assms(2)] simp del: of_nat_mult)
  have "sint (word_of_int ?b :: u64) = ?b" "sint (word_of_int ?i :: u64) = ?i" using b i by (auto intro!: sint_word simp del: of_nat_mult)
  then have r: "room B n (q\<lparr>dqb_curspace := word_of_int ?b\<rparr>)" "room B n (q\<lparr>dqb_curinodes := word_of_int ?i\<rparr>)" using b i q by (simp_all add: room_def)
  then show "room B n (block_account action count info now q)" "room B n (inode_account action count info now q)"
    by (simp_all add: block_account_def inode_account_def block_grace_def inode_grace_def room_def)
  show "rozofs_quota_update_grace_times_blocks now info (q\<lparr>dqb_curspace := add_count action count (dqb_curspace q)\<rparr>) = Some (block_account action count info now q)"
    "rozofs_quota_update_grace_times_inodes now info (q\<lparr>dqb_curinodes := add_count action count (dqb_curinodes q)\<rparr>) = Some (inode_account action count info now q)"
    unfolding ac using update_blocks_ok[OF r(1) assms(3)] update_inodes_ok[OF assms(3)] by (simp_all add: block_account_def inode_account_def)
qed

section \<open>Operations\<close>

definition accounts_ok :: "nat \<Rightarrow> nat \<Rightarrow> qt_state \<Rightarrow> bool" where
  "accounts_ok B n s \<longleftrightarrow> qt_ok n s \<and> (\<forall>k. room B n (dq_quota (quotas (qt_store s) k)))"

lemma room_less: "room B (Suc n) q \<Longrightarrow> room B n q"
  by (auto simp: room_def simp del: of_nat_mult)

lemma qt_ok_less: "qt_ok (Suc n) s \<Longrightarrow> qt_ok n s"
  using store_ok_less by (auto simp: qt_ok_def)

lemma accounts_ok_less: "accounts_ok B (Suc n) s \<Longrightarrow> accounts_ok B n s"
  using qt_ok_less room_less by (auto simp: accounts_ok_def)

lemma change_quota_ok:
  assumes s: "accounts_ok B (Suc n) s" and k: "valid_key k" and f: "f (dq_quota (quotas (qt_store s) k)) = Some q" "room B n q"
  obtains a s' where "change_quota (key_table k) k f s = Some (a, s')" "a \<noteq> 0" "accounts_ok B n s'" "quotas (qt_store s') = (quotas (qt_store s))(k := \<lparr>dq_key = k, dq_quota = q\<rparr>)"
proof -
  have st: "qt_ok (Suc n) s" "store_ok (Suc n) (qt_store s)" using s by (simp_all add: accounts_ok_def qt_ok_def)
  obtain a s1 where g: "rozofs_qt_cache_get (key_table k) k s = Some (a, s1)" "qt_ok (Suc n) s1" "a \<noteq> 0" "a \<in> set (qc_lru (qt_cache s1))" "qt_mem s1 a = Some (store_view (qt_store s) k)"
    "quotas (qt_store s1) = quotas (qt_store s)" using cache_get_ok[OF st(1) k] by blast
  let ?d = "store_view (qt_store s) k" let ?d' = "?d\<lparr>dq_quota := q\<rparr>"
  have d: "dq_key ?d = k" "quotas (qt_store s) k = ?d" using store_view_key[OF st(2) k] k by (simp_all add: quotas_def)
  have d': "dq_key ?d' = dq_key ?d" "?d' = \<lparr>dq_key = k, dq_quota = q\<rparr>" using d(1) by simp_all
  obtain s' where p: "rozofs_qt_cache_put (key_table k) a (s1\<lparr>qt_mem := (qt_mem s1)(a \<mapsto> ?d')\<rparr>) = Some s'" "qt_ok n s'" "quotas (qt_store s') = (quotas (qt_store s1))(k := ?d')"
    using cache_put_ok[OF g(2,4,5) d'(1)] unfolding d(1) by blast
  have "change_quota (key_table k) k f s = Some (a, s')" using g(1,3,5) f(1) p(1) unfolding d(2) by (simp add: change_quota_def)
  moreover have "accounts_ok B n s'" using s p(2,3) f(2) room_less g(6) by (auto simp: accounts_ok_def)
  ultimately show thesis using that g(3,6) p(3) d'(2) by metis
qed

definition export_ok :: "int \<Rightarrow> rozofs_qt_export_t \<Rightarrow> bool" where
  "export_ok eid p \<longleftrightarrow> quota_inode p = map (\<lambda>i. (word_of_int eid, word_of_int i)) [USRQUOTA, GRPQUOTA, SHRQUOTA] \<and> length (quota_super p) = MAXQUOTAS"

definition type_ok :: "int \<Rightarrow> bool" where
  "type_ok type \<longleftrightarrow> 0 \<le> type \<and> type < int MAXQUOTAS"

lemma types_ok [simp]: "type_ok USRQUOTA" "type_ok GRPQUOTA" "type_ok SHRQUOTA"
  by (simp_all add: type_ok_def USRQUOTA_def GRPQUOTA_def SHRQUOTA_def MAXQUOTAS_def)

definition eid_ok :: "int \<Rightarrow> bool" where
  "eid_ok eid \<longleftrightarrow> 0 < eid \<and> eid < EXPGW_EID_MAX_IDX"

lemma export_tables:
  assumes "export_ok eid p" "eid_ok eid" "type_ok type"
  shows "arr_get (quota_inode p) type = Some (key_table (quota_key eid type qid))" "arr_get (quota_super p) type = Some (quota_super p ! nat type)" "valid_key (quota_key eid type qid)"
proof -
  have t: "0 < eid" "eid < 1024" "0 \<le> type" "type < 3" using assms(2,3) by (simp_all add: eid_ok_def type_ok_def EXPGW_EID_MAX_IDX_def MAXQUOTAS_def)
  then have "type = 0 \<or> type = 1 \<or> type = 2" by linarith
  then show "arr_get (quota_inode p) type = Some (key_table (quota_key eid type qid))"
    using quota_key_fields(1)[of eid type qid] t assms(1) by (auto simp: export_ok_def arr_get_def USRQUOTA_def GRPQUOTA_def SHRQUOTA_def)
  show "arr_get (quota_super p) type = Some (quota_super p ! nat type)" using t assms(1) by (simp add: export_ok_def arr_get_in MAXQUOTAS_def)
  show "valid_key (quota_key eid type qid)" using quota_key_fields(3)[of eid type qid] t by simp
qed

text \<open>What the two updates have in common: they change the quota of a key by a function.\<close>

definition changes :: "nat \<Rightarrow> (table_ref \<Rightarrow> int \<Rightarrow> int \<Rightarrow> int \<Rightarrow> u64 \<Rightarrow> int \<Rightarrow> rozofs_quota_info_t \<Rightarrow> u64 \<Rightarrow> qt_state \<Rightarrow> (int \<times> qt_state) option) \<Rightarrow> u64 \<Rightarrow> int \<Rightarrow>
    (rozofs_quota_info_t \<Rightarrow> u64 \<Rightarrow> rozo_mem_dqblk \<Rightarrow> rozo_mem_dqblk) \<Rightarrow> bool" where
  "changes B upd count action f \<longleftrightarrow> (\<forall>n s eid type qid info now. accounts_ok B (Suc n) s \<longrightarrow> valid_key (quota_key eid type qid) \<longrightarrow> time_ok now \<longrightarrow>
     (\<exists>s'. upd (key_table (quota_key eid type qid)) eid type qid count action info now s = Some (0, s') \<and> accounts_ok B n s'
        \<and> quotas (qt_store s') = (quotas (qt_store s))(quota_key eid type qid :=
            \<lparr>dq_key = quota_key eid type qid, dq_quota = f info now (dq_quota (quotas (qt_store s) (quota_key eid type qid)))\<rparr>)))"

lemma updates_change:
  assumes c: "count_ok B action count"
  shows "changes B rozofs_qt_dqot_inode_update count action (inode_account action count)" "changes B rozofs_qt_dqot_block_update count action (block_account action count)"
proof -
  have r: "room B (Suc n) (dq_quota (quotas (qt_store s) k))" if "accounts_ok B (Suc n) s" for n s k using that by (simp add: accounts_ok_def)
  show "changes B rozofs_qt_dqot_inode_update count action (inode_account action count)" unfolding changes_def
  proof (intro allI impI)
    fix n s eid type qid info now assume h: "accounts_ok B (Suc n) s" "valid_key (quota_key eid type qid)" "time_ok now"
    note u = account_updates[OF r[OF h(1)] c h(3)]
    show "\<exists>s'. rozofs_qt_dqot_inode_update (key_table (quota_key eid type qid)) eid type qid count action info now s = Some (0, s') \<and> accounts_ok B n s'
        \<and> quotas (qt_store s') = (quotas (qt_store s))(quota_key eid type qid :=
            \<lparr>dq_key = quota_key eid type qid, dq_quota = inode_account action count info now (dq_quota (quotas (qt_store s) (quota_key eid type qid)))\<rparr>)"
      by (rule change_quota_ok[where f = "\<lambda>q. rozofs_quota_update_grace_times_inodes now info (q\<lparr>dqb_curinodes := add_count action count (dqb_curinodes q)\<rparr>)", OF h(1,2) u(2,4)])
        (auto simp: rozofs_qt_dqot_inode_update_def)
  qed
  show "changes B rozofs_qt_dqot_block_update count action (block_account action count)" unfolding changes_def
  proof (intro allI impI)
    fix n s eid type qid info now assume h: "accounts_ok B (Suc n) s" "valid_key (quota_key eid type qid)" "time_ok now"
    note u = account_updates[OF r[OF h(1)] c h(3)]
    show "\<exists>s'. rozofs_qt_dqot_block_update (key_table (quota_key eid type qid)) eid type qid count action info now s = Some (0, s') \<and> accounts_ok B n s'
        \<and> quotas (qt_store s') = (quotas (qt_store s))(quota_key eid type qid :=
            \<lparr>dq_key = quota_key eid type qid, dq_quota = block_account action count info now (dq_quota (quotas (qt_store s) (quota_key eid type qid)))\<rparr>)"
      by (rule change_quota_ok[where f = "\<lambda>q. rozofs_quota_update_grace_times_blocks now info (q\<lparr>dqb_curspace := add_count action count (dqb_curspace q)\<rparr>)", OF h(1,2) u(1,3)])
        (auto simp: rozofs_qt_dqot_block_update_def)
  qed
qed

lemma account_ok:
  assumes upd: "changes B upd count action f" and s: "accounts_ok B (Suc n) s" and p: "export_ok eid p" "eid_ok eid" "type_ok type" and now: "\<forall>type. time_ok (now type)"
  obtains s' where "account upd p cond eid type qid count action now s = Some s'" "accounts_ok B n s'" "quotas (qt_store s') = apply_account f (\<lambda>t. quota_super p ! nat t) eid now (cond, type, qid) (quotas (qt_store s))"
proof (cases cond)
  case True
  let ?k = "quota_key eid type qid"
  have "time_ok (now type)" using now by blast
  then obtain s' where s': "upd (key_table ?k) eid type qid count action (quota_super p ! nat type) (now type) s = Some (0, s')" "accounts_ok B n s'"
      "quotas (qt_store s') = (quotas (qt_store s))(?k := \<lparr>dq_key = ?k, dq_quota = f (quota_super p ! nat type) (now type) (dq_quota (quotas (qt_store s) ?k))\<rparr>)"
    using upd s export_tables(3)[OF p, of qid] unfolding changes_def by blast
  show thesis by (rule that[OF _ s'(2)]) (use True s' export_tables(1)[OF p, of qid] export_tables(2)[OF p] in \<open>simp_all add: account_def apply_account_def Let_def\<close>)
qed (use that[of s] accounts_ok_less[OF s] in \<open>simp add: account_def apply_account_def\<close>)

lemma accounts_chain:
  assumes upd: "changes B upd count action f" and s: "accounts_ok B (n + 3) s" and p: "export_ok eid p" "eid_ok eid" and now: "\<forall>type. time_ok (now type)"
  obtains s1 s2 s3 where "account upd p cu eid USRQUOTA u count action now s = Some s1" "account upd p cg eid GRPQUOTA g count action now s1 = Some s2" "account upd p cs eid SHRQUOTA sh count action now s2 = Some s3"
    "accounts_ok B n s3" "quotas (qt_store s3) = fold (apply_account f (\<lambda>t. quota_super p ! nat t) eid now) [(cu, USRQUOTA, u), (cg, GRPQUOTA, g), (cs, SHRQUOTA, sh)] (quotas (qt_store s))"
proof -
  have s0: "accounts_ok B (Suc (Suc (Suc n))) s" using s by (simp add: eval_nat_numeral)
  obtain s1 where s1: "account upd p cu eid USRQUOTA u count action now s = Some s1" "accounts_ok B (Suc (Suc n)) s1" "quotas (qt_store s1) = apply_account f (\<lambda>t. quota_super p ! nat t) eid now (cu, USRQUOTA, u) (quotas (qt_store s))"
    by (rule account_ok[OF upd s0 p types_ok(1) now])
  obtain s2 where s2: "account upd p cg eid GRPQUOTA g count action now s1 = Some s2" "accounts_ok B (Suc n) s2" "quotas (qt_store s2) = apply_account f (\<lambda>t. quota_super p ! nat t) eid now (cg, GRPQUOTA, g) (quotas (qt_store s1))"
    by (rule account_ok[OF upd s1(2) p types_ok(2) now])
  obtain s3 where "account upd p cs eid SHRQUOTA sh count action now s2 = Some s3" "accounts_ok B n s3" "quotas (qt_store s3) = apply_account f (\<lambda>t. quota_super p ! nat t) eid now (cs, SHRQUOTA, sh) (quotas (qt_store s2))"
    by (rule account_ok[OF upd s2(2) p types_ok(3) now])
  with s1 s2 that show thesis by simp
qed

lemma check_account_ok:
  assumes s: "accounts_ok B n s" and p: "export_ok eid p" "eid_ok eid" "type_ok type"
  obtains s' where "check_account p eid type qid now s = Some (if over_limits (now type) (dq_quota (quotas (qt_store s) (quota_key eid type qid))) then -1 else 0, s')" "accounts_ok B n s'"
    "quotas (qt_store s') = quotas (qt_store s)"
proof -
  let ?k = "quota_key eid type qid"
  have st: "qt_ok n s" using s by (simp add: accounts_ok_def)
  have k: "valid_key ?k" by (rule export_tables(3)[OF p])
  obtain a s' where g: "rozofs_qt_cache_get (key_table ?k) ?k s = Some (a, s')" "qt_ok n s'" "a \<noteq> 0" "qt_mem s' a = Some (store_view (qt_store s) ?k)" "quotas (qt_store s') = quotas (qt_store s)"
    using cache_get_ok[OF st k] by blast
  have r: "room B n (dq_quota (quotas (qt_store s) ?k))" using s by (simp add: accounts_ok_def)
  have "accounts_ok B n s'" using s g(2,5) by (simp add: accounts_ok_def)
  moreover have "quotas (qt_store s) ?k = store_view (qt_store s) ?k" using k by (simp add: quotas_def)
  ultimately show thesis using that[of s'] g export_tables(1)[OF p, of qid] check_grace_ok[OF r] by (simp add: check_account_def)
qed



end
