(* ===== verification/Quota_Session.thy ===== *)
theory Quota_Session
  imports Quota
begin

text \<open>
  The clients of the quota service: the export daemon, which charges accounts and checks them, and the administration tools, whose messages
  \<^verbatim>\<open>src/exportd/rozofs_quota_intf_srv_thread.c\<close> dispatches. The service refines a specification with one quota for each key and the information of each export. A response is
  its status and, in case of an error, its error code.
\<close>

section \<open>Messages\<close>

record rquota =
  rq_bsize :: int
  rq_active :: int
  rq_data :: sq_dqblk

datatype quota_msg =
    GETQUOTA int int int
  | SETQUOTA int int int u32 sq_dqblk
  | GETGRACE
  | SETGRACE int int sq_dqblk
  | SETSTATE int int int
  | OTHER

datatype quota_rsp = Rsp_error qt_errno | Rsp_ok | Rsp_quota rquota

definition known_type :: "int \<Rightarrow> bool" where
  "known_type type \<longleftrightarrow> type = USRQUOTA \<or> type = GRPQUOTA \<or> type = SHRQUOTA"

definition status_rsp :: "(qt_errno + unit) \<times> quota_ctx \<Rightarrow> quota_rsp \<times> quota_ctx" where
  "status_rsp = (\<lambda>(r, x). (case r of Inl e \<Rightarrow> Rsp_error e | Inr _ \<Rightarrow> Rsp_ok, x))"

definition rozofs_qt_set_quota_msg_process :: "int \<Rightarrow> int \<Rightarrow> int \<Rightarrow> u32 \<Rightarrow> sq_dqblk \<Rightarrow> u64 \<Rightarrow> u64 \<Rightarrow> quota_ctx \<Rightarrow> (quota_rsp \<times> quota_ctx) option" where
  "rozofs_qt_set_quota_msg_process eid type qid cmd src now_i now_b x =
     (if \<not> known_type type then Some (Rsp_error EPROTO, x) else map_option status_rsp (rozofs_qt_set_quota eid type qid cmd src now_i now_b x))"

definition quota_data :: "rozo_mem_dqblk \<Rightarrow> rquota" where
  "quota_data q = \<lparr>rq_bsize = 1024, rq_active = 1, rq_data = \<lparr>rq_bhardlimit = dqb_bhardlimit q, rq_bsoftlimit = dqb_bsoftlimit q, rq_curblocks = dqb_curspace q,
     rq_fhardlimit = dqb_ihardlimit q, rq_fsoftlimit = dqb_isoftlimit q, rq_curfiles = dqb_curinodes q, rq_btimeleft = dqb_btime q, rq_ftimeleft = dqb_itime q\<rparr>\<rparr>"

definition rozofs_qt_get_quota_msg_process :: "int \<Rightarrow> int \<Rightarrow> int \<Rightarrow> quota_ctx \<Rightarrow> (quota_rsp \<times> quota_ctx) option" where
  "rozofs_qt_get_quota_msg_process eid type qid x =
     (if \<not> known_type type then Some (Rsp_error EPROTO, x)
      else do {
        (r, x) \<leftarrow> rozofs_qt_get_quota eid type qid x;
        (case r of Inl e \<Rightarrow> Some (Rsp_error e, x)
         | Inr dquot \<Rightarrow> do { d \<leftarrow> qt_mem (qx_qt x) dquot; Some (Rsp_quota (quota_data (dq_quota d)), x) }) })"

definition rozofs_qt_set_grace_msg_process :: "int \<Rightarrow> int \<Rightarrow> sq_dqblk \<Rightarrow> quota_ctx \<Rightarrow> (quota_rsp \<times> quota_ctx) option" where
  "rozofs_qt_set_grace_msg_process eid type src x =
     (if \<not> known_type type then Some (Rsp_error EPROTO, x) else map_option status_rsp (rozofs_qt_set_quotainfo eid type src x))"

definition rozofs_qt_set_quota_state_msg_process :: "int \<Rightarrow> int \<Rightarrow> int \<Rightarrow> quota_ctx \<Rightarrow> (quota_rsp \<times> quota_ctx) option" where
  "rozofs_qt_set_quota_state_msg_process eid type cmd x =
     (if \<not> known_type type then Some (Rsp_error EPROTO, x) else map_option status_rsp (rozofs_qt_set_quotastate eid type cmd x))"

text \<open>The dispatch on the operation; a message with another one gets no response.\<close>

fun af_unix_quota_cmd_process :: "quota_msg \<Rightarrow> u64 \<Rightarrow> u64 \<Rightarrow> quota_ctx \<Rightarrow> (quota_rsp option \<times> quota_ctx) option" where
  "af_unix_quota_cmd_process (GETQUOTA eid type qid) now_i now_b x = map_option (apfst Some) (rozofs_qt_get_quota_msg_process eid type qid x)"
| "af_unix_quota_cmd_process (SETQUOTA eid type qid cmd src) now_i now_b x = map_option (apfst Some) (rozofs_qt_set_quota_msg_process eid type qid cmd src now_i now_b x)"
| "af_unix_quota_cmd_process GETGRACE now_i now_b x = Some (Some (Rsp_error EPROTO), x)"
| "af_unix_quota_cmd_process (SETGRACE eid type src) now_i now_b x = map_option (apfst Some) (rozofs_qt_set_grace_msg_process eid type src x)"
| "af_unix_quota_cmd_process (SETSTATE eid type cmd) now_i now_b x = map_option (apfst Some) (rozofs_qt_set_quota_state_msg_process eid type cmd x)"
| "af_unix_quota_cmd_process OTHER now_i now_b x = Some (None, x)"

section \<open>Specification\<close>

text \<open>The quotas, the information of each export and type (the default before the export was created) and the exports that are known.\<close>

record quota_spec =
  sp_quota :: "u64 \<Rightarrow> rozofs_dquot_t"
  sp_info :: "int \<times> int \<Rightarrow> rozofs_quota_info_t"
  sp_known :: "int \<Rightarrow> bool"

definition file_info :: "quota_ctx \<Rightarrow> int \<times> int \<Rightarrow> rozofs_quota_info_t" where
  "file_info x k = (case qx_files x k of None \<Rightarrow> default_info | Some f \<Rightarrow> bytes_info f)"

definition known :: "quota_ctx \<Rightarrow> int \<Rightarrow> bool" where
  "known x eid \<longleftrightarrow> eid_ok eid \<and> export_quota_table x ! nat eid \<noteq> None"

definition spec_of :: "quota_ctx \<Rightarrow> quota_spec" where
  "spec_of x = \<lparr>sp_quota = quotas (qt_store (qx_qt x)), sp_info = file_info x, sp_known = known x\<rparr>"

datatype quota_op =
    Q_inode int int int int int u16 "int \<Rightarrow> u64"
  | Q_block int int int u64 int u16 "int \<Rightarrow> u64"
  | Q_check int int int int "int \<Rightarrow> u64"
  | Q_create int
  | Q_msg quota_msg u64 u64
  | Q_flush nat

datatype quota_res = Status int | Response "quota_rsp option"

primrec quota_run :: "quota_op \<Rightarrow> quota_ctx \<Rightarrow> (quota_res \<times> quota_ctx) option" where
  "quota_run (Q_inode eid user_id grp_id nb action share now) x = map_option (apfst Status) (rozofs_qt_inode_update eid user_id grp_id nb action share now x)"
| "quota_run (Q_block eid user_id grp_id sz action share now) x = map_option (apfst Status) (rozofs_qt_block_update eid user_id grp_id sz action share now x)"
| "quota_run (Q_check eid user_id grp_id share_id now) x = map_option (apfst Status) (rozofs_qt_check_quota eid user_id grp_id share_id now x)"
| "quota_run (Q_create eid) x = map_option (apfst (\<lambda>ok. Status (if ok then 0 else -1))) (rozofs_qt_alloc_context eid x)"
| "quota_run (Q_msg msg now_i now_b) x = map_option (apfst Response) (af_unix_quota_cmd_process msg now_i now_b x)"
| "quota_run (Q_flush i) x = map_option (\<lambda>st. (Status 0, x\<lparr>qx_qt := (qx_qt x)\<lparr>qt_store := st\<rparr>\<rparr>)) (thread_entry i (qt_store (qx_qt x)))"

text \<open>What the specification does for each request.\<close>

definition charge :: "(rozofs_quota_info_t \<Rightarrow> u64 \<Rightarrow> rozo_mem_dqblk \<Rightarrow> rozo_mem_dqblk) \<Rightarrow> int \<Rightarrow> (int \<Rightarrow> u64) \<Rightarrow> (bool \<times> int \<times> int) list \<Rightarrow> quota_spec \<Rightarrow> quota_spec" where
  "charge f eid now accounts a = a\<lparr>sp_quota := fold (apply_account f (\<lambda>t. sp_info a (eid, t)) eid now) accounts (sp_quota a)\<rparr>"

definition refused :: "quota_spec \<Rightarrow> int \<Rightarrow> (int \<Rightarrow> u64) \<Rightarrow> bool \<times> int \<times> int \<Rightarrow> bool" where
  "refused a eid now = (\<lambda>(cond, type, qid). cond \<and> qi_enable (sp_info a (eid, type)) \<noteq> 0 \<and> over_limits (now type) (dq_quota (sp_quota a (quota_key eid type qid))))"

definition msg_error :: "quota_spec \<Rightarrow> int \<Rightarrow> int \<Rightarrow> qt_errno option" where
  "msg_error a eid type = (if \<not> known_type type then Some EPROTO else if eid > EXPGW_EID_MAX_IDX then Some ERANGE else if \<not> sp_known a eid then Some ENOENT else None)"

primrec msg_spec :: "quota_msg \<Rightarrow> u64 \<Rightarrow> u64 \<Rightarrow> quota_spec \<Rightarrow> quota_rsp option \<times> quota_spec" where
  "msg_spec (GETQUOTA eid type qid) now_i now_b a = (case msg_error a eid type of Some e \<Rightarrow> (Some (Rsp_error e), a)
     | None \<Rightarrow> (Some (Rsp_quota (quota_data (dq_quota (sp_quota a (quota_key eid type qid))))), a))"
| "msg_spec (SETQUOTA eid type qid cmd src) now_i now_b a = (case msg_error a eid type of Some e \<Rightarrow> (Some (Rsp_error e), a)
     | None \<Rightarrow> (Some Rsp_ok, charge (\<lambda>info now q. block_grace now_b info (inode_grace now_i info (set_limits cmd src q))) eid (\<lambda>_. 0) [(True, type, qid)] a))"
| "msg_spec GETGRACE now_i now_b a = (Some (Rsp_error EPROTO), a)"
| "msg_spec (SETGRACE eid type src) now_i now_b a = (case msg_error a eid type of Some e \<Rightarrow> (Some (Rsp_error e), a)
     | None \<Rightarrow> (Some Rsp_ok, a\<lparr>sp_info := (sp_info a)((eid, type) := (sp_info a (eid, type))\<lparr>dqi_bgrace := ucast (rq_btimeleft src), dqi_igrace := ucast (rq_ftimeleft src)\<rparr>)\<rparr>))"
| "msg_spec (SETSTATE eid type cmd) now_i now_b a = (case msg_error a eid type of Some e \<Rightarrow> (Some (Rsp_error e), a)
     | None \<Rightarrow> (Some Rsp_ok, a\<lparr>sp_info := (sp_info a)((eid, type) := (sp_info a (eid, type))\<lparr>qi_enable := word_of_int cmd\<rparr>)\<rparr>))"
| "msg_spec OTHER now_i now_b a = (None, a)"

primrec quota_step :: "quota_op \<Rightarrow> quota_spec \<Rightarrow> quota_res \<Rightarrow> quota_spec \<Rightarrow> bool" where
  "quota_step (Q_inode eid user_id grp_id nb action share now) a r b \<longleftrightarrow>
     (if sp_known a eid then r = Status 0 \<and> b = charge (inode_account action (word_of_int nb)) eid now
        [(user_id \<noteq> -1, USRQUOTA, user_id), (grp_id \<noteq> -1, GRPQUOTA, grp_id), (share \<noteq> 0, SHRQUOTA, uint share)] a
      else r = Status (-1) \<and> b = a)"
| "quota_step (Q_block eid user_id grp_id sz action share now) a r b \<longleftrightarrow>
     (if sp_known a eid then r = Status 0 \<and> b = charge (block_account action sz) eid now
        [(user_id \<noteq> -1, USRQUOTA, user_id), (grp_id \<noteq> -1, GRPQUOTA, user_id), (share \<noteq> 0, SHRQUOTA, uint share)] a
      else r = Status (-1) \<and> b = a)"
| "quota_step (Q_check eid user_id grp_id share_id now) a r b \<longleftrightarrow>
     r = Status (if sp_known a eid \<and> (\<forall>acc\<in>{(True, USRQUOTA, user_id), (True, GRPQUOTA, grp_id), (share_id \<noteq> 0, SHRQUOTA, share_id)}. \<not> refused a eid now acc) then 0 else -1) \<and> b = a"
| "quota_step (Q_create eid) a r b \<longleftrightarrow>
     (if eid > EXPGW_EID_MAX_IDX then r = Status (-1) \<and> b = a else r = Status 0 \<and> b = a\<lparr>sp_known := (sp_known a)(eid := True)\<rparr>)"
| "quota_step (Q_msg msg now_i now_b) a r b \<longleftrightarrow> (case msg_spec msg now_i now_b a of (rsp, a') \<Rightarrow> r = Response rsp \<and> b = a')"
| "quota_step (Q_flush i) a r b \<longleftrightarrow> r = Status 0 \<and> b = a"

text \<open>The requests that the service admits: an export from 1 to 1023, or one that it refuses as out of range; a charge of at most \<open>B\<close>; a clock before the year 146 billion.\<close>

definition eid_arg :: "int \<Rightarrow> bool" where
  "eid_arg eid \<longleftrightarrow> eid_ok eid \<or> eid > EXPGW_EID_MAX_IDX"

primrec msg_ok :: "quota_msg \<Rightarrow> bool" where
  "msg_ok (GETQUOTA eid type qid) \<longleftrightarrow> eid_arg eid"
| "msg_ok (SETQUOTA eid type qid cmd src) \<longleftrightarrow> eid_arg eid"
| "msg_ok GETGRACE \<longleftrightarrow> True"
| "msg_ok (SETGRACE eid type src) \<longleftrightarrow> eid_arg eid"
| "msg_ok (SETSTATE eid type cmd) \<longleftrightarrow> eid_arg eid"
| "msg_ok OTHER \<longleftrightarrow> True"

primrec quota_op_ok :: "nat \<Rightarrow> quota_op \<Rightarrow> bool" where
  "quota_op_ok B (Q_inode eid user_id grp_id nb action share now) \<longleftrightarrow> eid_arg eid \<and> count_ok B action (word_of_int nb) \<and> (\<forall>t. time_ok (now t))"
| "quota_op_ok B (Q_block eid user_id grp_id sz action share now) \<longleftrightarrow> eid_arg eid \<and> count_ok B action sz \<and> (\<forall>t. time_ok (now t))"
| "quota_op_ok B (Q_check eid user_id grp_id share_id now) \<longleftrightarrow> eid_arg eid"
| "quota_op_ok B (Q_create eid) \<longleftrightarrow> eid_arg eid"
| "quota_op_ok B (Q_msg msg now_i now_b) \<longleftrightarrow> msg_ok msg \<and> time_ok now_i \<and> time_ok now_b"
| "quota_op_ok B (Q_flush i) \<longleftrightarrow> i < QUOTA_CACHE_MAX_ENTRY"

section \<open>Invariant\<close>

definition exports_ok :: "quota_ctx \<Rightarrow> bool" where
  "exports_ok x \<longleftrightarrow> rozofs_qt_init_done x \<and> qx_io x = [] \<and> length (export_quota_table x) = 1025 \<and> (\<forall>k f. qx_files x k = Some f \<longrightarrow> QUOTA_INFO_SZ \<le> length f)
     \<and> (\<forall>eid p. eid_ok eid \<longrightarrow> export_quota_table x ! nat eid = Some p \<longrightarrow> export_ok eid p \<and> (\<forall>type. type_ok type \<longrightarrow> qx_files x (eid, type) \<noteq> None \<and> quota_super p ! nat type = file_info x (eid, type)))"

definition ctx_ok :: "nat \<Rightarrow> nat \<Rightarrow> quota_ctx \<Rightarrow> bool" where
  "ctx_ok B n x \<longleftrightarrow> accounts_ok B (3 * n) (qx_qt x) \<and> exports_ok x"

lemma known_type_ok: "known_type type \<longleftrightarrow> type_ok type"
  by (auto simp: known_type_def type_ok_def USRQUOTA_def GRPQUOTA_def SHRQUOTA_def MAXQUOTAS_def)

lemma length_info_bytes [simp]: "length (info_bytes i) = QUOTA_INFO_SZ"
  by (simp add: info_bytes_def QUOTA_INFO_SZ_def)

lemma two_words: "ucast (ucast a OR push_bit 32 (ucast b) :: u64) = (a :: u32)" "ucast (drop_bit 32 (ucast a) OR drop_bit 32 (push_bit 32 (ucast b)) :: u64) = (b :: u32)" for a b :: u32
  by (rule bit_word_eqI, auto simp: bit_simps dest: bit_imp_le_length)+

lemma ucast_back: "ucast (ucast a :: u64) = (a :: u32)"
  by (rule bit_word_eqI) (simp add: bit_simps)

lemma bytes_info_info_bytes [simp]: "bytes_info (info_bytes i @ r) = i"
  by (simp add: bytes_info_def info_bytes_def Let_def two_words ucast_back)

lemma find_export:
  assumes "exports_ok x" "eid_ok eid"
  shows "\<not> eid > EXPGW_EID_MAX_IDX" "arr_get (export_quota_table x) eid = Some (export_quota_table x ! nat eid)" "arr_set (export_quota_table x) eid v = Some ((export_quota_table x)[nat eid := v])"
  using assms by (simp_all add: exports_ok_def eid_ok_def EXPGW_EID_MAX_IDX_def arr_get_in arr_set_in)

lemma export_info:
  assumes "exports_ok x" "eid_ok eid" "export_quota_table x ! nat eid = Some p"
  shows "export_ok eid p" "type_ok type \<Longrightarrow> quota_super p ! nat type = file_info x (eid, type)" "type_ok type \<Longrightarrow> qx_files x (eid, type) \<noteq> None"
  using assms unfolding exports_ok_def by blast+

lemma exports_ok_qt [simp]: "exports_ok (x\<lparr>qx_qt := s\<rparr>) = exports_ok x" "file_info (x\<lparr>qx_qt := s\<rparr>) = file_info x" "known (x\<lparr>qx_qt := s\<rparr>) = known x"
  by (simp_all add: exports_ok_def file_info_def known_def fun_eq_iff)

lemma fold_accounts:
  assumes "exports_ok x" "eid_ok eid" "export_quota_table x ! nat eid = Some p" "\<forall>(c, t, q)\<in>set accs. type_ok t"
  shows "fold (apply_account f (\<lambda>t. quota_super p ! nat t) eid now) accs m = fold (apply_account f (\<lambda>t. file_info x (eid, t)) eid now) accs m"
  using assms(4) export_info(2)[OF assms(1-3)] by (induction accs arbitrary: m) (auto simp: apply_account_def)

section \<open>Requests\<close>

lemma accounts_ok_le: "accounts_ok B (n + m) s \<Longrightarrow> accounts_ok B n s"
  using accounts_ok_less by (induction m) auto

lemma ctx_ok_less: "ctx_ok B (Suc n) x \<Longrightarrow> ctx_ok B n x"
  using accounts_ok_le[of B "3 * n" 3] by (simp add: ctx_ok_def add.commute)

lemma unknown_range: "eid > EXPGW_EID_MAX_IDX \<Longrightarrow> \<not> known x eid"
  by (simp add: known_def eid_ok_def)

text \<open>A request about one export: it is out of range, not known, or has a context.\<close>

lemma export_cases [consumes 2]:
  assumes "exports_ok x" "eid_arg eid"
  obtains (range) "eid > EXPGW_EID_MAX_IDX" "\<not> known x eid"
    | (unknown) "eid_ok eid" "arr_get (export_quota_table x) eid = Some None" "\<not> eid > EXPGW_EID_MAX_IDX" "\<not> known x eid"
    | (known) p where "eid_ok eid" "arr_get (export_quota_table x) eid = Some (Some p)" "\<not> eid > EXPGW_EID_MAX_IDX" "known x eid" "export_quota_table x ! nat eid = Some p"
proof (cases "eid > EXPGW_EID_MAX_IDX")
  case True
  then show thesis using range unknown_range by blast
next
  case False
  then have "eid_ok eid" using assms(2) by (simp add: eid_arg_def)
  then show thesis using find_export(2)[OF assms(1)] False unknown known by (cases "export_quota_table x ! nat eid") (auto simp: known_def)
qed

lemma update_step:
  assumes upd: "changes B upd count action f" and x: "ctx_ok B (Suc n) x" and p: "eid_ok eid" "export_quota_table x ! nat eid = Some p" and now: "\<forall>t. time_ok (now t)"
  obtains s1 s2 s3 where "account upd p cu eid USRQUOTA u count action now (qx_qt x) = Some s1" "account upd p cg eid GRPQUOTA g count action now s1 = Some s2" "account upd p cs eid SHRQUOTA sh count action now s2 = Some s3"
    "ctx_ok B n (x\<lparr>qx_qt := s3\<rparr>)" "spec_of (x\<lparr>qx_qt := s3\<rparr>) = charge f eid now [(cu, USRQUOTA, u), (cg, GRPQUOTA, g), (cs, SHRQUOTA, sh)] (spec_of x)"
proof -
  have s: "accounts_ok B (3 * n + 3) (qx_qt x)" and e: "exports_ok x" using x by (simp_all add: ctx_ok_def add.commute)
  obtain s1 s2 s3 where c: "account upd p cu eid USRQUOTA u count action now (qx_qt x) = Some s1" "account upd p cg eid GRPQUOTA g count action now s1 = Some s2" "account upd p cs eid SHRQUOTA sh count action now s2 = Some s3"
    "accounts_ok B (3 * n) s3" "quotas (qt_store s3) = fold (apply_account f (\<lambda>t. quota_super p ! nat t) eid now) [(cu, USRQUOTA, u), (cg, GRPQUOTA, g), (cs, SHRQUOTA, sh)] (quotas (qt_store (qx_qt x)))"
    by (rule accounts_chain[OF upd s export_info(1)[OF e p] p(1) now])
  have "\<forall>(c, t, q)\<in>set [(cu, USRQUOTA, u), (cg, GRPQUOTA, g), (cs, SHRQUOTA, sh)]. type_ok t" by simp
  note fa = fold_accounts[OF e p this]
  show thesis by (rule that[OF c(1,2,3)]) (use c(4) c(5)[unfolded fa] e in \<open>simp_all add: ctx_ok_def spec_of_def charge_def\<close>)
qed

lemma inode_step:
  assumes x: "ctx_ok B (Suc n) x" and q: "quota_op_ok B (Q_inode eid u g nb action share now)"
  shows "\<exists>r x'. quota_run (Q_inode eid u g nb action share now) x = Some (r, x') \<and> ctx_ok B n x' \<and> quota_step (Q_inode eid u g nb action share now) (spec_of x) r (spec_of x')"
proof -
  have e: "exports_ok x" using x by (simp add: ctx_ok_def)
  have "eid_arg eid" using q by simp
  with e show ?thesis
  proof (cases rule: export_cases)
    case (known p)
    have c: "changes B rozofs_qt_dqot_inode_update (word_of_int nb) action (inode_account action (word_of_int nb))" using updates_change(1) q by simp
    have now: "\<forall>t. time_ok (now t)" using q by simp
    show ?thesis by (rule update_step[OF c x known(1,5) now, of "u \<noteq> -1" u "g \<noteq> -1" g "share \<noteq> 0" "uint share"])
      (use known in \<open>simp add: rozofs_qt_inode_update_def spec_of_def\<close>)
  qed (use ctx_ok_less[OF x] in \<open>simp_all add: rozofs_qt_inode_update_def spec_of_def\<close>)
qed

lemma block_step:
  assumes x: "ctx_ok B (Suc n) x" and q: "quota_op_ok B (Q_block eid u g sz action share now)"
  shows "\<exists>r x'. quota_run (Q_block eid u g sz action share now) x = Some (r, x') \<and> ctx_ok B n x' \<and> quota_step (Q_block eid u g sz action share now) (spec_of x) r (spec_of x')"
proof -
  have e: "exports_ok x" using x by (simp add: ctx_ok_def)
  have "eid_arg eid" using q by simp
  with e show ?thesis
  proof (cases rule: export_cases)
    case (known p)
    have c: "changes B rozofs_qt_dqot_block_update sz action (block_account action sz)" using updates_change(2) q by simp
    have now: "\<forall>t. time_ok (now t)" using q by simp
    show ?thesis by (rule update_step[OF c x known(1,5) now, of "u \<noteq> -1" u "g \<noteq> -1" u "share \<noteq> 0" "uint share"])
      (use known in \<open>simp add: rozofs_qt_block_update_def spec_of_def\<close>)
  qed (use ctx_ok_less[OF x] in \<open>simp_all add: rozofs_qt_block_update_def spec_of_def\<close>)
qed

lemma ctx_qt:
  assumes "exports_ok x" "accounts_ok B (3 * n) s" "quotas (qt_store s) = quotas (qt_store (qx_qt x))"
  shows "ctx_ok B n (x\<lparr>qx_qt := s\<rparr>)" "spec_of (x\<lparr>qx_qt := s\<rparr>) = spec_of x"
  using assms by (simp_all add: ctx_ok_def spec_of_def)

lemma check_one:
  assumes x: "exports_ok x" "eid_ok eid" "export_quota_table x ! nat eid = Some p" and t: "type_ok type" and s: "accounts_ok B n s" "quotas (qt_store s) = quotas (qt_store (qx_qt x))"
  shows "enabled p type = Some (qi_enable (file_info x (eid, type)) \<noteq> 0)"
    "\<exists>s'. (if qi_enable (file_info x (eid, type)) \<noteq> 0 \<and> c then check_account p eid type qid now s else Some (0, s)) = Some (if refused (spec_of x) eid now (c, type, qid) then -1 else 0, s')
       \<and> accounts_ok B n s' \<and> quotas (qt_store s') = quotas (qt_store (qx_qt x))"
proof -
  note p = export_info(1)[OF x]
  show "enabled p type = Some (qi_enable (file_info x (eid, type)) \<noteq> 0)" using export_tables(2)[OF p x(2) t] export_info(2)[OF x t] by (simp add: enabled_def)
  show "\<exists>s'. (if qi_enable (file_info x (eid, type)) \<noteq> 0 \<and> c then check_account p eid type qid now s else Some (0, s)) = Some (if refused (spec_of x) eid now (c, type, qid) then -1 else 0, s')
       \<and> accounts_ok B n s' \<and> quotas (qt_store s') = quotas (qt_store (qx_qt x))"
    by (rule check_account_ok[OF s(1) p x(2) t, of qid now]) (use s in \<open>auto simp: refused_def spec_of_def\<close>)
qed

lemma check_step:
  assumes x: "ctx_ok B n x" and q: "quota_op_ok B (Q_check eid u g sh now)"
  shows "\<exists>r x'. quota_run (Q_check eid u g sh now) x = Some (r, x') \<and> ctx_ok B n x' \<and> quota_step (Q_check eid u g sh now) (spec_of x) r (spec_of x')"
proof -
  have e: "exports_ok x" and s: "accounts_ok B (3 * n) (qx_qt x)" using x by (simp_all add: ctx_ok_def)
  have "eid_arg eid" using q by simp
  with e show ?thesis
  proof (cases rule: export_cases)
    case (known p)
    note one = check_one[OF e known(1,5)]
    let ?r = "refused (spec_of x) eid now" and ?en = "\<lambda>t. qi_enable (file_info x (eid, t)) \<noteq> 0"
    obtain s1 where s1: "(if ?en USRQUOTA then check_account p eid USRQUOTA u now (qx_qt x) else Some (0, qx_qt x)) = Some (if ?r (True, USRQUOTA, u) then -1 else 0, s1)"
      "accounts_ok B (3 * n) s1" "quotas (qt_store s1) = quotas (qt_store (qx_qt x))" using one(2)[OF types_ok(1) s refl, of True u now] by auto
    obtain s2 where s2: "(if ?en GRPQUOTA then check_account p eid GRPQUOTA g now s1 else Some (0, s1)) = Some (if ?r (True, GRPQUOTA, g) then -1 else 0, s2)"
      "accounts_ok B (3 * n) s2" "quotas (qt_store s2) = quotas (qt_store (qx_qt x))" using one(2)[OF types_ok(2) s1(2,3), of True g now] by auto
    obtain s3 where s3: "(if ?en SHRQUOTA \<and> sh \<noteq> 0 then check_account p eid SHRQUOTA sh now s2 else Some (0, s2)) = Some (if ?r (sh \<noteq> 0, SHRQUOTA, sh) then -1 else 0, s3)"
      "accounts_ok B (3 * n) s3" "quotas (qt_store s3) = quotas (qt_store (qx_qt x))" using one(2)[OF types_ok(3) s2(2,3), of "sh \<noteq> 0" sh now] by auto
    have en: "enabled p t = Some (?en t)" if "type_ok t" for t by (rule one(1)[OF that s refl])
    have "rozofs_qt_check_quota eid u g sh now x = Some (if ?r (True, USRQUOTA, u) then (-1, x\<lparr>qx_qt := s1\<rparr>) else if ?r (True, GRPQUOTA, g) then (-1, x\<lparr>qx_qt := s2\<rparr>)
       else (if ?r (sh \<noteq> 0, SHRQUOTA, sh) then -1 else 0, x\<lparr>qx_qt := s3\<rparr>))"
      unfolding rozofs_qt_check_quota_def using known(2,3) by (simp add: en s1(1) s2(1) s3(1))
    then show ?thesis using known(4) ctx_qt[OF e s1(2,3)] ctx_qt[OF e s2(2,3)] ctx_qt[OF e s3(2,3)] by (auto simp: spec_of_def)
  qed (use x in \<open>simp_all add: rozofs_qt_check_quota_def spec_of_def\<close>)
qed

lemma flush_step:
  assumes x: "ctx_ok B n x" and q: "quota_op_ok B (Q_flush i)"
  shows "\<exists>r x'. quota_run (Q_flush i) x = Some (r, x') \<and> ctx_ok B n x' \<and> quota_step (Q_flush i) (spec_of x) r (spec_of x')"
proof -
  have e: "exports_ok x" and s: "accounts_ok B (3 * n) (qx_qt x)" using x by (simp_all add: ctx_ok_def)
  have qt: "qt_ok (3 * n) (qx_qt x)" "store_ok (3 * n) (qt_store (qx_qt x))" using s by (simp_all add: accounts_ok_def qt_ok_def)
  obtain st where st: "thread_entry i (qt_store (qx_qt x)) = Some st" "store_ok (3 * n) st" "\<forall>k. valid_key k \<longrightarrow> store_view st k = store_view (qt_store (qx_qt x)) k"
    using thread_entry_ok[OF qt(2), of i] q by auto
  let ?s = "(qx_qt x)\<lparr>qt_store := st\<rparr>"
  have qs: "quotas (qt_store ?s) = quotas (qt_store (qx_qt x))" using st(3) by (simp add: quotas_def fun_eq_iff)
  then have "accounts_ok B (3 * n) ?s" using s qt_store_change[OF qt(1) st(2,3)] by (simp add: accounts_ok_def)
  from ctx_qt[OF e this qs] show ?thesis using st(1) by simp
qed

text \<open>Messages about the quotas.\<close>

lemma get_msg_step:
  assumes x: "ctx_ok B n x" and e: "eid_arg eid"
  shows "\<exists>r x'. rozofs_qt_get_quota_msg_process eid type qid x = Some (r, x') \<and> ctx_ok B n x' \<and> (Some r, spec_of x') = msg_spec (GETQUOTA eid type qid) now_i now_b (spec_of x)"
proof (cases "known_type type")
  case True
  have ex: "exports_ok x" and s: "accounts_ok B (3 * n) (qx_qt x)" using x by (simp_all add: ctx_ok_def)
  from ex e show ?thesis
  proof (cases rule: export_cases)
    case (known p)
    let ?k = "quota_key eid type qid"
    have t: "type_ok type" using True by (simp add: known_type_ok)
    note ep = export_tables[OF export_info(1)[OF ex known(1,5)] known(1) t]
    have qt: "qt_ok (3 * n) (qx_qt x)" using s by (simp add: accounts_ok_def)
    obtain a s' where g: "rozofs_qt_cache_get (key_table ?k) ?k (qx_qt x) = Some (a, s')" "qt_ok (3 * n) s'" "a \<noteq> 0" "qt_mem s' a = Some (store_view (qt_store (qx_qt x)) ?k)"
      "quotas (qt_store s') = quotas (qt_store (qx_qt x))" using cache_get_ok[OF qt ep(3)] by blast
    have "accounts_ok B (3 * n) s'" using s g(2,5) by (simp add: accounts_ok_def)
    note cx = ctx_qt[OF ex this g(5)]
    have "store_view (qt_store (qx_qt x)) ?k = sp_quota (spec_of x) ?k" using ep(3) by (simp add: spec_of_def quotas_def)
    moreover have "msg_error (spec_of x) eid type = None" using known(3,4) True by (simp add: msg_error_def spec_of_def)
    moreover have "rozofs_qt_get_quota_msg_process eid type qid x = Some (Rsp_quota (quota_data (dq_quota (store_view (qt_store (qx_qt x)) ?k))), x\<lparr>qx_qt := s'\<rparr>)"
      using True known(2,3) ep(1)[of qid] g by (simp add: rozofs_qt_get_quota_msg_process_def rozofs_qt_get_quota_def)
    ultimately show ?thesis using cx by simp
  qed (use x True in \<open>simp_all add: rozofs_qt_get_quota_msg_process_def rozofs_qt_get_quota_def msg_error_def spec_of_def\<close>)
qed (use x in \<open>simp add: rozofs_qt_get_quota_msg_process_def msg_error_def\<close>)

lemma set_msg_step:
  assumes x: "ctx_ok B (Suc n) x" and e: "eid_arg eid" and now: "time_ok now_i" "time_ok now_b"
  shows "\<exists>r x'. rozofs_qt_set_quota_msg_process eid type qid cmd src now_i now_b x = Some (r, x') \<and> ctx_ok B n x' \<and> (Some r, spec_of x') = msg_spec (SETQUOTA eid type qid cmd src) now_i now_b (spec_of x)"
proof (cases "known_type type")
  case True
  have three: "3 * Suc n = Suc (3 * n) + 2" by simp
  have ex: "exports_ok x" and s: "accounts_ok B (Suc (3 * n)) (qx_qt x)" using x accounts_ok_le unfolding ctx_ok_def three by blast+
  from ex e show ?thesis
  proof (cases rule: export_cases)
    case (known p)
    let ?k = "quota_key eid type qid" and ?i = "file_info x (eid, type)"
    let ?f = "\<lambda>q. rozofs_quota_update_grace_times now_i now_b ?i (set_limits cmd src q)"
    let ?g = "\<lambda>q. block_grace now_b ?i (inode_grace now_i ?i (set_limits cmd src q))"
    have t: "type_ok type" using True by (simp add: known_type_ok)
    note ep = export_tables[OF export_info(1)[OF ex known(1,5)] known(1) t]
    have r: "room B (Suc (3 * n)) (dq_quota (quotas (qt_store (qx_qt x)) ?k))" using s by (simp add: accounts_ok_def)
    then have r': "room B (Suc (3 * n)) (inode_grace now_i ?i (set_limits cmd src (dq_quota (quotas (qt_store (qx_qt x)) ?k))))" by (simp add: inode_grace_def room_def set_limits_def Let_def)
    have f: "?f (dq_quota (quotas (qt_store (qx_qt x)) ?k)) = Some (?g (dq_quota (quotas (qt_store (qx_qt x)) ?k)))"
      using update_blocks_ok[OF r' now(2)] update_inodes_ok[OF now(1)] by (simp add: rozofs_quota_update_grace_times_def)
    have "room B (3 * n) (?g (dq_quota (quotas (qt_store (qx_qt x)) ?k)))" using room_less[OF r'] by (simp add: block_grace_def room_def)
    then obtain a s' where c: "change_quota (key_table ?k) ?k ?f (qx_qt x) = Some (a, s')" "a \<noteq> 0" "accounts_ok B (3 * n) s'"
      "quotas (qt_store s') = (quotas (qt_store (qx_qt x)))(?k := \<lparr>dq_key = ?k, dq_quota = ?g (dq_quota (quotas (qt_store (qx_qt x)) ?k))\<rparr>)"
      using change_quota_ok[where f = ?f, OF s ep(3) f] by blast
    have "rozofs_qt_set_quota_msg_process eid type qid cmd src now_i now_b x = Some (Rsp_ok, x\<lparr>qx_qt := s'\<rparr>)"
      using True known(2,3) ep(1)[of qid] ep(2) c(1,2) export_info(2)[OF ex known(1,5) t] by (simp add: rozofs_qt_set_quota_msg_process_def rozofs_qt_set_quota_def status_rsp_def)
    moreover have "msg_error (spec_of x) eid type = None" using known(3,4) True by (simp add: msg_error_def spec_of_def)
    moreover have "ctx_ok B n (x\<lparr>qx_qt := s'\<rparr>)" using ex c(3) by (simp add: ctx_ok_def)
    ultimately show ?thesis using c(4) by (simp add: spec_of_def charge_def apply_account_def Let_def)
  qed (use ctx_ok_less[OF x] True in \<open>simp_all add: rozofs_qt_set_quota_msg_process_def rozofs_qt_set_quota_def msg_error_def spec_of_def status_rsp_def\<close>)
qed (use ctx_ok_less[OF x] in \<open>simp add: rozofs_qt_set_quota_msg_process_def msg_error_def\<close>)

text \<open>The files that hold the information.\<close>

lemma next_outcome_ok [simp]: "qx_io x = [] \<Longrightarrow> next_outcome x = (None, x)"
  by (simp add: next_outcome_def)

definition files_ok :: "quota_ctx \<Rightarrow> bool" where
  "files_ok x \<longleftrightarrow> qx_io x = [] \<and> (\<forall>k f. qx_files x k = Some f \<longrightarrow> QUOTA_INFO_SZ \<le> length f)"

lemma write_info_ok:
  assumes "files_ok x"
  obtains f where "rozofs_qt_write_quota_info eid type i x = (0, x\<lparr>qx_files := (qx_files x)((eid, type) := Some f)\<rparr>)" "QUOTA_INFO_SZ \<le> length f" "bytes_info f = i"
proof -
  let ?o = "case qx_files x (eid, type) of None \<Rightarrow> [] | Some f \<Rightarrow> f"
  have "info_bytes i \<noteq> []" by (metis length_info_bytes list.size(3) QUOTA_INFO_SZ_def zero_neq_numeral)
  then have f: "file_pwrite ?o (info_bytes i) 0 = info_bytes i @ drop QUOTA_INFO_SZ ?o" by (simp add: file_pwrite_def)
  show thesis by (rule that[of "info_bytes i @ drop QUOTA_INFO_SZ ?o"])
    (use assms f in \<open>simp_all add: files_ok_def rozofs_qt_write_quota_info_def Let_def\<close>)
qed

lemma bytes_info_take: "bytes_info (take QUOTA_INFO_SZ f) = bytes_info f"
  by (simp add: bytes_info_def QUOTA_INFO_SZ_def Let_def drop_take)

lemma change_info_ok:
  assumes x: "ctx_ok B n x" and p: "eid_ok eid" "export_quota_table x ! nat eid = Some p" and t: "type_ok type"
  obtains x' where "change_info eid type f x = Some (Inr (), x')" "ctx_ok B n x'" "spec_of x' = (spec_of x)\<lparr>sp_info := (file_info x)((eid, type) := f (file_info x (eid, type)))\<rparr>"
proof -
  have ex: "exports_ok x" and s: "accounts_ok B (3 * n) (qx_qt x)" using x by (simp_all add: ctx_ok_def)
  note e = export_info[OF ex p] and tab = find_export[OF ex p(1)]
  have ty: "0 \<le> type" "type < int (length (quota_super p))" using t e(1) by (simp_all add: type_ok_def export_ok_def)
  let ?i = "f (file_info x (eid, type))" let ?p = "p\<lparr>quota_super := (quota_super p)[nat type := ?i]\<rparr>"
  let ?x1 = "x\<lparr>export_quota_table := (export_quota_table x)[nat eid := Some ?p]\<rparr>"
  have "files_ok ?x1" using ex by (simp add: files_ok_def exports_ok_def)
  then obtain b where w: "rozofs_qt_write_quota_info eid type ?i ?x1 = (0, ?x1\<lparr>qx_files := (qx_files ?x1)((eid, type) := Some b)\<rparr>)" "QUOTA_INFO_SZ \<le> length b" "bytes_info b = ?i"
    using write_info_ok by blast
  let ?x' = "?x1\<lparr>qx_files := (qx_files x)((eid, type) := Some b)\<rparr>"
  have fi: "file_info ?x' = (file_info x)((eid, type) := ?i)" using w(3) by (auto simp: file_info_def fun_eq_iff)
  have le: "nat eid < length (export_quota_table x)" using ex p(1) by (auto simp: exports_ok_def eid_ok_def EXPGW_EID_MAX_IDX_def)
  have "export_ok eid' q \<and> (\<forall>t'. type_ok t' \<longrightarrow> qx_files ?x' (eid', t') \<noteq> None \<and> quota_super q ! nat t' = file_info ?x' (eid', t'))"
    if q: "eid_ok eid'" "export_quota_table ?x' ! nat eid' = Some q" for eid' q
  proof (cases "eid' = eid")
    case True
    then have q': "q = ?p" using q(2) le by simp
    have "(quota_super ?p) ! nat t' = file_info ?x' (eid, t')" if "type_ok t'" for t'
      using e(2)[OF that] ty that unfolding fi by (cases "t' = type") (auto simp: nth_list_update type_ok_def)
    then show ?thesis using True q' e(1,3) by (auto simp: export_ok_def)
  next
    case False
    then have "nat eid' \<noteq> nat eid" using q(1) p(1) by (auto simp: eid_ok_def)
    then have "export_quota_table x ! nat eid' = Some q" using q(2) by simp
    from export_info[OF ex q(1) this] False fi show ?thesis by auto
  qed
  then have "exports_ok ?x'" using ex w(2) by (auto simp: exports_ok_def split: if_splits)
  then have "ctx_ok B n ?x'" using s by (simp add: ctx_ok_def)
  moreover have "known ?x' = known x" using le p by (auto simp: known_def fun_eq_iff nth_list_update)
  moreover have "change_info eid type f x = Some (Inr (), ?x')"
    using tab p(2) ty e(2)[OF t] w(1) by (simp add: change_info_def arr_get_in arr_set_in)
  ultimately show thesis using that[of ?x'] fi by (simp add: spec_of_def)
qed

lemma info_msg_step:
  assumes x: "ctx_ok B n x" and e: "eid_arg eid"
  shows "\<exists>r x'. rozofs_qt_set_grace_msg_process eid type src x = Some (r, x') \<and> ctx_ok B n x' \<and> (Some r, spec_of x') = msg_spec (SETGRACE eid type src) now_i now_b (spec_of x)"
    "\<exists>r x'. rozofs_qt_set_quota_state_msg_process eid type cmd x = Some (r, x') \<and> ctx_ok B n x' \<and> (Some r, spec_of x') = msg_spec (SETSTATE eid type cmd) now_i now_b (spec_of x)"
proof -
  have ex: "exports_ok x" using x by (simp add: ctx_ok_def)
  have *: "\<exists>r x'. (if \<not> known_type type then Some (Rsp_error EPROTO, x) else map_option status_rsp (change_info eid type f x)) = Some (r, x') \<and> ctx_ok B n x'
     \<and> (Some r, spec_of x') = (case msg_error (spec_of x) eid type of Some e \<Rightarrow> (Some (Rsp_error e), spec_of x)
         | None \<Rightarrow> (Some Rsp_ok, (spec_of x)\<lparr>sp_info := (sp_info (spec_of x))((eid, type) := f (sp_info (spec_of x) (eid, type)))\<rparr>))" for f
  proof (cases "known_type type")
    case True
    from ex e show ?thesis
    proof (cases rule: export_cases)
      case (known p)
      obtain x' where "change_info eid type f x = Some (Inr (), x')" "ctx_ok B n x'" "spec_of x' = (spec_of x)\<lparr>sp_info := (file_info x)((eid, type) := f (file_info x (eid, type)))\<rparr>"
        using change_info_ok[OF x known(1,5)] True known_type_ok by blast
      then show ?thesis using True known(3,4) by (simp add: status_rsp_def msg_error_def spec_of_def)
    qed (use x True in \<open>simp_all add: change_info_def status_rsp_def msg_error_def spec_of_def\<close>)
  qed (use x in \<open>simp add: msg_error_def\<close>)
  show "\<exists>r x'. rozofs_qt_set_grace_msg_process eid type src x = Some (r, x') \<and> ctx_ok B n x' \<and> (Some r, spec_of x') = msg_spec (SETGRACE eid type src) now_i now_b (spec_of x)"
    unfolding rozofs_qt_set_grace_msg_process_def rozofs_qt_set_quotainfo_def msg_spec.simps by (rule *)
  show "\<exists>r x'. rozofs_qt_set_quota_state_msg_process eid type cmd x = Some (r, x') \<and> ctx_ok B n x' \<and> (Some r, spec_of x') = msg_spec (SETSTATE eid type cmd) now_i now_b (spec_of x)"
    unfolding rozofs_qt_set_quota_state_msg_process_def rozofs_qt_set_quotastate_def msg_spec.simps by (rule *)
qed

text \<open>The creation of an export.\<close>

definition same_info :: "quota_ctx \<Rightarrow> quota_ctx \<Rightarrow> bool" where
  "same_info x x' \<longleftrightarrow> files_ok x' \<and> file_info x' = file_info x \<and> dom (qx_files x) \<subseteq> dom (qx_files x') \<and> export_quota_table x' = export_quota_table x
     \<and> rozofs_qt_init_done x' = rozofs_qt_init_done x \<and> qx_qt x' = qx_qt x"

lemma load_info_ok:
  assumes x: "files_ok x"
  shows "\<exists>x'. load_info eid type (super, x) = (super @ [file_info x (eid, type)], x') \<and> same_info x x' \<and> qx_files x' (eid, type) \<noteq> None"
proof (cases "qx_files x (eid, type)")
  case None
  have "files_ok (x\<lparr>qx_enoent := True\<rparr>)" using x by (simp add: files_ok_def)
  then obtain f where w: "rozofs_qt_write_quota_info eid type default_info (x\<lparr>qx_enoent := True\<rparr>) = (0, x\<lparr>qx_enoent := True, qx_files := (qx_files x)((eid, type) := Some f)\<rparr>)" "QUOTA_INFO_SZ \<le> length f" "bytes_info f = default_info"
    using write_info_ok[of "x\<lparr>qx_enoent := True\<rparr>" eid type default_info] by auto
  have "load_info eid type (super, x) = (super @ [default_info], x\<lparr>qx_enoent := True, qx_files := (qx_files x)((eid, type) := Some f)\<rparr>)"
    using None x w(1) by (simp add: load_info_def rozofs_qt_read_quota_info_def files_ok_def)
  moreover have "same_info x (x\<lparr>qx_enoent := True, qx_files := (qx_files x)((eid, type) := Some f)\<rparr>)"
    using x w(2,3) None by (auto simp: same_info_def files_ok_def file_info_def fun_eq_iff)
  ultimately show ?thesis using None by (simp add: file_info_def)
next
  case (Some f)
  then have l: "QUOTA_INFO_SZ \<le> length f" using x by (simp add: files_ok_def)
  have "load_info eid type (super, x) = (super @ [bytes_info f], x)"
    using Some x l bytes_info_take[of f] by (simp add: load_info_def rozofs_qt_read_quota_info_def files_ok_def file_pread_def Let_def)
  then show ?thesis using Some x by (simp add: same_info_def file_info_def)
qed

lemma open_table_ok:
  assumes s: "accounts_ok B n (qx_qt x)"
  shows "\<exists>s'. open_table eid type (True, x) = (True, x\<lparr>qx_qt := s'\<rparr>) \<and> accounts_ok B n s' \<and> quotas (qt_store s') = quotas (qt_store (qx_qt x))"
proof -
  let ?p = "(word_of_int eid, word_of_int type)" and ?st = "qt_store (qx_qt x)"
  have st: "qt_ok n (qx_qt x)" "store_ok n ?st" using s by (simp_all add: accounts_ok_def qt_ok_def)
  then have "tb_ok DQUOT_SZ 18 (qs_disk ?st ?p)" unfolding store_ok_def disk_ok_def by blast
  then obtain t where t: "disk_tb_ctx_allocate DQUOT_SZ 18 (qs_disk ?st ?p) = (True, t)" "tb_ok DQUOT_SZ 18 t" "tb_map t = tb_map (qs_disk ?st ?p)" using restart_ok by blast
  let ?s' = "(qx_qt x)\<lparr>qt_store := ?st\<lparr>qs_disk := (qs_disk ?st)(?p := t)\<rparr>\<rparr>"
  note same = same_tables[OF st(2) t(2,3)]
  have q: "quotas (qt_store ?s') = quotas ?st" using same(2) by (simp add: quotas_def fun_eq_iff)
  have "qt_ok n ?s'" by (rule qt_store_change[OF st(1) same(1)]) (simp add: same(2))
  then have "accounts_ok B n ?s'" using s q by (simp add: accounts_ok_def)
  moreover have "open_table eid type (True, x) = (True, x\<lparr>qx_qt := ?s'\<rparr>)" using t(1) by (simp add: open_table_def ROZOFS_QUOTA_DISK_TB_SZ_POWER2_def Let_def)
  ultimately show ?thesis using q by blast
qed

lemma load_infos:
  assumes x: "files_ok x"
  obtains x' where "fold (load_info eid) [USRQUOTA, GRPQUOTA, SHRQUOTA] ([], x) = (map (\<lambda>t. file_info x (eid, t)) [USRQUOTA, GRPQUOTA, SHRQUOTA], x')" "same_info x x'"
    "\<forall>t. type_ok t \<longrightarrow> qx_files x' (eid, t) \<noteq> None"
proof -
  obtain x1 where x1: "load_info eid USRQUOTA ([], x) = ([file_info x (eid, USRQUOTA)], x1)" "same_info x x1" "qx_files x1 (eid, USRQUOTA) \<noteq> None" using load_info_ok[OF x, of eid USRQUOTA "[]"] by auto
  then have "files_ok x1" by (simp add: same_info_def)
  then obtain x2 where x2: "load_info eid GRPQUOTA ([file_info x (eid, USRQUOTA)], x1) = ([file_info x (eid, USRQUOTA), file_info x1 (eid, GRPQUOTA)], x2)" "same_info x1 x2" "qx_files x2 (eid, GRPQUOTA) \<noteq> None"
    using load_info_ok[of x1 eid GRPQUOTA "[file_info x (eid, USRQUOTA)]"] by auto
  then have "files_ok x2" by (simp add: same_info_def)
  then obtain x3 where x3: "load_info eid SHRQUOTA ([file_info x (eid, USRQUOTA), file_info x1 (eid, GRPQUOTA)], x2) = ([file_info x (eid, USRQUOTA), file_info x1 (eid, GRPQUOTA), file_info x2 (eid, SHRQUOTA)], x3)"
    "same_info x2 x3" "qx_files x3 (eid, SHRQUOTA) \<noteq> None" using load_info_ok[of x2 eid SHRQUOTA "[file_info x (eid, USRQUOTA), file_info x1 (eid, GRPQUOTA)]"] by auto
  have d: "dom (qx_files x1) \<subseteq> dom (qx_files x2)" "dom (qx_files x2) \<subseteq> dom (qx_files x3)" using x2(2) x3(2) by (simp_all add: same_info_def)
  have ty: "t = USRQUOTA \<or> t = GRPQUOTA \<or> t = SHRQUOTA" if "type_ok t" for t using that known_type_ok by (simp add: known_type_def)
  have "qx_files x3 (eid, t) \<noteq> None" if "type_ok t" for t using ty[OF that] x1(3) x2(3) x3(3) d by (auto simp: dom_def subset_iff)
  moreover have "same_info x x3" using x1(2) x2(2) x3(2) by (simp add: same_info_def) blast
  moreover have "file_info x1 = file_info x" "file_info x2 = file_info x" using x1(2) x2(2) by (simp_all add: same_info_def)
  ultimately show thesis using that[of x3] x1(1) x2(1) x3(1) by simp
qed

lemma open_tables:
  assumes s: "accounts_ok B n (qx_qt x)"
  obtains s' where "fold (open_table eid) [USRQUOTA, GRPQUOTA, SHRQUOTA] (True, x) = (True, x\<lparr>qx_qt := s'\<rparr>)" "accounts_ok B n s'" "quotas (qt_store s') = quotas (qt_store (qx_qt x))"
proof -
  obtain s1 where s1: "open_table eid USRQUOTA (True, x) = (True, x\<lparr>qx_qt := s1\<rparr>)" "accounts_ok B n (qx_qt (x\<lparr>qx_qt := s1\<rparr>))" "quotas (qt_store s1) = quotas (qt_store (qx_qt x))" using open_table_ok[OF s, of eid USRQUOTA] by auto
  obtain s2 where s2: "open_table eid GRPQUOTA (True, x\<lparr>qx_qt := s1\<rparr>) = (True, x\<lparr>qx_qt := s2\<rparr>)" "accounts_ok B n (qx_qt (x\<lparr>qx_qt := s2\<rparr>))" "quotas (qt_store s2) = quotas (qt_store s1)"
    using open_table_ok[OF s1(2), of eid GRPQUOTA] by auto
  obtain s3 where "open_table eid SHRQUOTA (True, x\<lparr>qx_qt := s2\<rparr>) = (True, x\<lparr>qx_qt := s3\<rparr>)" "accounts_ok B n s3" "quotas (qt_store s3) = quotas (qt_store s2)"
    using open_table_ok[OF s2(2), of eid SHRQUOTA] by auto
  with s1 s2 that show thesis by simp
qed

lemma create_step:
  assumes x: "ctx_ok B n x" and q: "quota_op_ok B (Q_create eid)"
  shows "\<exists>r x'. quota_run (Q_create eid) x = Some (r, x') \<and> ctx_ok B n x' \<and> quota_step (Q_create eid) (spec_of x) r (spec_of x')"
proof -
  have ex: "exports_ok x" and s: "accounts_ok B (3 * n) (qx_qt x)" using x by (simp_all add: ctx_ok_def)
  have init: "rozofs_qt_init_done x" "files_ok x" using ex by (simp_all add: exports_ok_def files_ok_def)
  have "eid_arg eid" using q by simp
  with ex show ?thesis
  proof (cases rule: export_cases)
    case unknown
    have le: "nat eid < length (export_quota_table x)" using ex unknown(1) by (auto simp: exports_ok_def eid_ok_def EXPGW_EID_MAX_IDX_def)
    have mem: "next_mem_ctx x = (True, x)" using s by (simp add: next_mem_ctx_def next_mem_def accounts_ok_def qt_ok_def store_ok_def)
    obtain x1 where l: "fold (load_info eid) [USRQUOTA, GRPQUOTA, SHRQUOTA] ([], x) = (map (\<lambda>t. file_info x (eid, t)) [USRQUOTA, GRPQUOTA, SHRQUOTA], x1)" "same_info x x1"
      "\<forall>t. type_ok t \<longrightarrow> qx_files x1 (eid, t) \<noteq> None" by (rule load_infos[OF init(2)])
    have sx: "qx_qt x1 = qx_qt x" "export_quota_table x1 = export_quota_table x" "file_info x1 = file_info x" "rozofs_qt_init_done x1" "files_ok x1" "dom (qx_files x) \<subseteq> dom (qx_files x1)"
      using l(2) init(1) by (simp_all add: same_info_def)
    have "accounts_ok B (3 * n) (qx_qt x1)" using s sx(1) by simp
    then obtain s' where o: "fold (open_table eid) [USRQUOTA, GRPQUOTA, SHRQUOTA] (True, x1) = (True, x1\<lparr>qx_qt := s'\<rparr>)" "accounts_ok B (3 * n) s'" "quotas (qt_store s') = quotas (qt_store (qx_qt x))"
      using open_tables[of B "3 * n" x1 eid] sx(1) by metis
    let ?p = "\<lparr>quota_inode = map (\<lambda>i. (word_of_int eid, word_of_int i)) [USRQUOTA, GRPQUOTA, SHRQUOTA], quota_super = map (\<lambda>t. file_info x (eid, t)) [USRQUOTA, GRPQUOTA, SHRQUOTA]\<rparr>"
    let ?x' = "x1\<lparr>qx_qt := s', export_quota_table := (export_quota_table x)[nat eid := Some ?p]\<rparr>"
    have "arr_set (export_quota_table x) eid (Some ?p) = Some ((export_quota_table x)[nat eid := Some ?p])" by (rule find_export(3)[OF ex unknown(1)])
    then have run: "quota_run (Q_create eid) x = Some (Status 0, ?x')"
      using unknown(2,3) init(1) mem l(1) o(1) sx(2) by (simp add: rozofs_qt_alloc_context_def del: fold_simps list.map)
    have "export_ok eid' p \<and> (\<forall>t. type_ok t \<longrightarrow> qx_files ?x' (eid', t) \<noteq> None \<and> quota_super p ! nat t = file_info ?x' (eid', t))"
      if p: "eid_ok eid'" "export_quota_table ?x' ! nat eid' = Some p" for eid' p
    proof (cases "eid' = eid")
      case True
      then have p': "p = ?p" using p(2) le by simp
      have "quota_super ?p ! nat t = file_info x (eid, t)" if "type_ok t" for t using that known_type_ok[of t] by (auto simp: known_type_def USRQUOTA_def GRPQUOTA_def SHRQUOTA_def)
      then show ?thesis using True p' l(3) sx(3) by (auto simp: export_ok_def MAXQUOTAS_def file_info_def fun_eq_iff)
    next
      case False
      then have "nat eid' \<noteq> nat eid" using p(1) unknown(1) by (auto simp: eid_ok_def)
      then have "export_quota_table x ! nat eid' = Some p" using p(2) by simp
      from export_info[OF ex p(1) this] sx(3,6) show ?thesis by (auto simp: file_info_def fun_eq_iff dom_def subset_iff)
    qed
    then have "exports_ok ?x'" using ex sx(4,5) by (simp add: exports_ok_def files_ok_def)
    then have "ctx_ok B n ?x'" using o(2) by (simp add: ctx_ok_def)
    moreover have "known ?x' = (known x)(eid := True)" using le unknown(1) by (auto simp: known_def fun_eq_iff nth_list_update eid_ok_def)
    moreover have "file_info ?x' = file_info x" using sx(3) by (simp add: file_info_def fun_eq_iff)
    ultimately have "quota_step (Q_create eid) (spec_of x) (Status 0) (spec_of ?x')" using unknown(3) o(3) by (simp add: spec_of_def)
    with run \<open>ctx_ok B n ?x'\<close> show ?thesis by blast
  next
    case (known p)
    then have "quota_run (Q_create eid) x = Some (Status 0, x)" using init(1) by (simp add: rozofs_qt_alloc_context_def)
    moreover have "(known x)(eid := True) = known x" using known(4) by (simp add: fun_eq_iff)
    ultimately have "quota_step (Q_create eid) (spec_of x) (Status 0) (spec_of x)" "quota_run (Q_create eid) x = Some (Status 0, x)" using known(3) by (simp_all add: spec_of_def)
    with x show ?thesis by blast
  qed (use x init(1) in \<open>simp add: rozofs_qt_alloc_context_def\<close>)
qed

lemma msg_step:
  assumes x: "ctx_ok B (Suc n) x" and q: "quota_op_ok B (Q_msg msg now_i now_b)"
  shows "\<exists>r x'. quota_run (Q_msg msg now_i now_b) x = Some (r, x') \<and> ctx_ok B n x' \<and> quota_step (Q_msg msg now_i now_b) (spec_of x) r (spec_of x')"
proof -
  have "\<exists>r x'. af_unix_quota_cmd_process msg now_i now_b x = Some (r, x') \<and> ctx_ok B n x' \<and> (r, spec_of x') = msg_spec msg now_i now_b (spec_of x)"
  proof (cases msg)
    case (GETQUOTA eid type qid)
    then show ?thesis using get_msg_step[OF ctx_ok_less[OF x], of eid type qid now_i now_b] q by fastforce
  next
    case (SETQUOTA eid type qid cmd src)
    then show ?thesis using set_msg_step[OF x, of eid now_i now_b type qid cmd src] q by fastforce
  next
    case (SETGRACE eid type src)
    then show ?thesis using info_msg_step(1)[OF ctx_ok_less[OF x], of eid type src now_i now_b] q by fastforce
  next
    case (SETSTATE eid type cmd)
    then show ?thesis using info_msg_step(2)[OF ctx_ok_less[OF x], of eid type cmd now_i now_b] q by fastforce
  qed (use ctx_ok_less[OF x] in simp_all)
  then obtain r x' where m: "af_unix_quota_cmd_process msg now_i now_b x = Some (r, x')" "ctx_ok B n x'" "msg_spec msg now_i now_b (spec_of x) = (r, spec_of x')" by metis
  then have "quota_step (Q_msg msg now_i now_b) (spec_of x) (Response r) (spec_of x')" by simp
  moreover have "quota_run (Q_msg msg now_i now_b) x = Some (Response r, x')" using m(1) by simp
  ultimately show ?thesis using m(2) by blast
qed

lemma quota_op_step:
  assumes x: "ctx_ok B (Suc n) x" and q: "quota_op_ok B q"
  shows "\<exists>r x'. quota_run q x = Some (r, x') \<and> ctx_ok B n x' \<and> quota_step q (spec_of x) r (spec_of x')"
proof (cases q)
  case Q_inode
  then show ?thesis using inode_step[OF x] q by blast
next
  case Q_block
  then show ?thesis using block_step[OF x] q by blast
next
  case Q_check
  then show ?thesis using check_step[OF ctx_ok_less[OF x]] q by blast
next
  case Q_create
  then show ?thesis using create_step[OF ctx_ok_less[OF x]] q by blast
next
  case Q_msg
  then show ?thesis using msg_step[OF x] q by blast
next
  case Q_flush
  then show ?thesis using flush_step[OF ctx_ok_less[OF x]] q by blast
qed

interpretation qs: budget_contract "ctx_ok B" "quota_op_ok B" quota_run spec_of quota_step for B
  using quota_op_step by unfold_locales blast

section \<open>Properties\<close>

text \<open>
  C2. The quota service, from its messages down to its files on disk, refines one quota for each key and one record of information for each export and type. When no system call fails, over every sequence of
  charges, checks, creations of exports, messages and flushes by the write-back thread, every request returns the result that the specification gives and has its effect only: charges count files and bytes exactly, and are
  bounded below by 0, the grace time starts, stays and ends with the soft limit, a check refuses exactly when an enabled account is over a hard limit or has been over a soft limit for its grace time, and messages about unknown
  exports or types are errors. The number of requests is bounded by the width of the counters.
\<close>

theorem quota_service_refines:
  assumes "ctx_ok B (length qs + n) x" "\<forall>q\<in>set qs. quota_op_ok B q"
  shows "\<exists>rs x'. session quota_run qs x = Some (rs, x') \<and> ctx_ok B n x' \<and> session_spec quota_step qs (spec_of x) rs (spec_of x')"
  using qs.session_within[OF assms(1)] assms(2) by blast

text \<open>The daemon on an empty disk.\<close>

definition fresh_ctx :: quota_ctx where
  "fresh_ctx = \<lparr>export_quota_table = replicate 1025 None, qx_qt = qt_start (quota_wbcache_init (\<lambda>_. empty_table DQUOT_SZ 18)), rozofs_qt_init_done = True, qx_files = (\<lambda>_. None), qx_io = [], qx_enoent = False\<rparr>"

lemma fresh_quotas: "quotas (qt_store (qx_qt fresh_ctx)) k = zero_dquot k"
  using init_ok(2)[OF empty_disk_ok(1), of 0 k] empty_disk_ok(2)[of k] by (simp add: quotas_def fresh_ctx_def qt_start_def)

lemma zero_room: "int (n * B) + 1024 < 2 ^ 63 \<Longrightarrow> room B n (dq_quota (zero_dquot k))"
  by (simp add: room_def zero_dquot_def zero_dqblk_def del: of_nat_mult)

lemma fresh_ctx_ok: "n < 2 ^ 28 \<Longrightarrow> B \<le> 2 ^ 30 \<Longrightarrow> ctx_ok B n fresh_ctx"
proof -
  assume n: "n < 2 ^ 28" "B \<le> 2 ^ 30"
  have "3 * n * B \<le> 3 * 2 ^ 28 * 2 ^ 30" using n by (intro mult_le_mono) auto
  also have "\<dots> < (9223372036854774784 :: nat)" by simp
  finally have lt: "3 * n * B < 9223372036854774784" .
  have "int m + 1024 < 2 ^ 63" if "m < 9223372036854774784" for m using that by simp
  from this[OF lt] have "int (3 * n * B) + 1024 < 2 ^ 63" .
  then have "room B (3 * n) (dq_quota (zero_dquot k))" for k by (rule zero_room)
  moreover have "store_ok (3 * n) (quota_wbcache_init (\<lambda>_. empty_table DQUOT_SZ 18))" using n by (intro init_ok(1)[OF empty_disk_ok(1)]) simp
  then have "qt_ok (3 * n) (qx_qt fresh_ctx)" using qt_start_ok by (simp add: fresh_ctx_def)
  ultimately have "accounts_ok B (3 * n) (qx_qt fresh_ctx)" by (simp add: accounts_ok_def fresh_quotas)
  moreover have "exports_ok fresh_ctx" by (auto simp: exports_ok_def fresh_ctx_def eid_ok_def EXPGW_EID_MAX_IDX_def nth_replicate)
  ultimately show ?thesis by (simp add: ctx_ok_def)
qed

lemma fresh_spec: "spec_of fresh_ctx = \<lparr>sp_quota = zero_dquot, sp_info = (\<lambda>_. default_info), sp_known = (\<lambda>_. False)\<rparr>"
  using fresh_quotas by (auto simp: spec_of_def file_info_def known_def fun_eq_iff fresh_ctx_def eid_ok_def EXPGW_EID_MAX_IDX_def)

theorem quota_service_refines_witness:
  "\<exists>x'. session quota_run [Q_create 1, Q_inode 1 5 7 2 1 0 (\<lambda>_. 100), Q_inode 1 5 (-1) 3 0 0 (\<lambda>_. 101), Q_check 1 5 7 0 (\<lambda>_. 102), Q_msg (GETQUOTA 1 9 5) 0 0] fresh_ctx
     = Some ([Status 0, Status 0, Status 0, Status 0, Response (Some (Rsp_error EPROTO))], x')
     \<and> dqb_curinodes (dq_quota (quotas (qt_store (qx_qt x')) (quota_key 1 0 5))) = 0 \<and> dqb_curinodes (dq_quota (quotas (qt_store (qx_qt x')) (quota_key 1 1 7))) = 2"
proof -
  let ?qs = "[Q_create 1, Q_inode 1 5 7 2 1 0 (\<lambda>_. 100), Q_inode 1 5 (-1) 3 0 0 (\<lambda>_. 101), Q_check 1 5 7 0 (\<lambda>_. 102), Q_msg (GETQUOTA 1 9 5) 0 0]"
  have ok: "\<forall>q\<in>set ?qs. quota_op_ok 1000 q" by (simp add: eid_arg_def eid_ok_def EXPGW_EID_MAX_IDX_def count_ok_def time_ok_def ROZOFS_QT_INC_def)
  have "ctx_ok 1000 (length ?qs + 0) fresh_ctx" by (rule fresh_ctx_ok) simp_all
  from quota_service_refines[OF this ok] obtain rs x' where r: "session quota_run ?qs fresh_ctx = Some (rs, x')" "session_spec quota_step ?qs (spec_of fresh_ctx) rs (spec_of x')" by blast
  have ne: "quota_key 1 0 5 \<noteq> quota_key 1 1 7" "quota_key 1 1 7 \<noteq> quota_key 1 0 5" using quota_key_fields(1)[of 1 0 5] quota_key_fields(1)[of 1 1 7] by auto
  have s: "sp_quota (spec_of x') = quotas (qt_store (qx_qt x'))" by (simp add: spec_of_def)
  have "rs = [Status 0, Status 0, Status 0, Status 0, Response (Some (Rsp_error EPROTO))] \<and> dqb_curinodes (dq_quota (sp_quota (spec_of x') (quota_key 1 0 5))) = 0
    \<and> dqb_curinodes (dq_quota (sp_quota (spec_of x') (quota_key 1 1 7))) = 2"
    using r(2) ne unfolding fresh_spec
    by (auto simp: session_spec_simps charge_def apply_account_def Let_def inode_account_def inode_grace_def charged_def ROZOFS_QT_INC_def USRQUOTA_def GRPQUOTA_def SHRQUOTA_def
      zero_dquot_def zero_dqblk_def refused_def over_limits_def space_over_def inodes_over_def msg_error_def known_type_def EXPGW_EID_MAX_IDX_def)
  then show ?thesis using r(1) s by auto
qed

text \<open>
  C38. The blocks of a file are charged to the wrong group: an update of the blocks of user \<open>u\<close> and group \<open>g\<close> leaves the account of group \<open>g\<close> as it is and charges the
  group whose number is \<open>u\<close>.
\<close>

theorem block_update_wrong_group:
  assumes "ctx_ok B (Suc n) x" "known x eid" "u \<noteq> -1" "g \<noteq> -1" "quota_key eid GRPQUOTA u \<noteq> quota_key eid GRPQUOTA g" "uint sz \<le> int B" "uint sz < 2 ^ 63" "\<forall>t. time_ok (now t)"
  shows "\<exists>x'. rozofs_qt_block_update eid u g sz ROZOFS_QT_INC 0 now x = Some (0, x')
     \<and> quotas (qt_store (qx_qt x')) (quota_key eid GRPQUOTA g) = quotas (qt_store (qx_qt x)) (quota_key eid GRPQUOTA g)
     \<and> sint (dqb_curspace (dq_quota (quotas (qt_store (qx_qt x')) (quota_key eid GRPQUOTA u))))
         = sint (dqb_curspace (dq_quota (quotas (qt_store (qx_qt x)) (quota_key eid GRPQUOTA u)))) + uint sz"
proof -
  let ?q = "Q_block eid u g sz ROZOFS_QT_INC 0 now" and ?k = "quota_key eid GRPQUOTA u" and ?m = "quotas (qt_store (qx_qt x))"
  have c: "count_ok B ROZOFS_QT_INC sz" using assms(6,7) by (simp add: count_ok_def)
  have e: "eid_ok eid" using assms(2) by (simp add: known_def)
  have "quota_op_ok B ?q" using c e assms(8) by (simp add: eid_arg_def)
  from block_step[OF assms(1) this] obtain r x' where r: "quota_run ?q x = Some (r, x')" "quota_step ?q (spec_of x) r (spec_of x')" by blast
  have ke: "0 < eid" "eid < 1024" using e by (simp_all add: eid_ok_def EXPGW_EID_MAX_IDX_def)
  have "key_table (quota_key eid USRQUOTA u) \<noteq> key_table (quota_key eid GRPQUOTA v)" for v
    using quota_key_fields(1)[of eid 0 u] quota_key_fields(1)[of eid 1 v] ke by (simp add: USRQUOTA_def GRPQUOTA_def)
  then have ne: "quota_key eid GRPQUOTA v \<noteq> quota_key eid USRQUOTA u" for v by metis
  have "known x eid \<and> r = Status 0 \<and> quotas (qt_store (qx_qt x')) = ?m(quota_key eid USRQUOTA u := \<lparr>dq_key = quota_key eid USRQUOTA u,
      dq_quota = block_account ROZOFS_QT_INC sz (file_info x (eid, USRQUOTA)) (now USRQUOTA) (dq_quota (?m (quota_key eid USRQUOTA u)))\<rparr>,
      ?k := \<lparr>dq_key = ?k, dq_quota = block_account ROZOFS_QT_INC sz (file_info x (eid, GRPQUOTA)) (now GRPQUOTA) (dq_quota (?m ?k))\<rparr>)"
    using r(2) assms(2-4) ne by (simp add: spec_of_def charge_def apply_account_def Let_def)
  then have m: "r = Status 0" "quotas (qt_store (qx_qt x')) (quota_key eid GRPQUOTA g) = ?m (quota_key eid GRPQUOTA g)"
    "dqb_curspace (dq_quota (quotas (qt_store (qx_qt x')) ?k)) = word_of_int (sint (dqb_curspace (dq_quota (?m ?k))) + uint sz)"
    using assms(5) ne by (simp_all add: block_account_def block_grace_def charged_def)
  have three: "3 * Suc n = Suc (3 * n + 2)" by simp
  have "room B (Suc (3 * n + 2)) (dq_quota (?m ?k))" using assms(1) unfolding ctx_ok_def accounts_ok_def three by blast
  then have "0 \<le> sint (dqb_curspace (dq_quota (?m ?k)))" "sint (dqb_curspace (dq_quota (?m ?k))) + int (Suc (3 * n + 2) * B) + 1024 < 2 ^ 63" by (simp_all only: room_def)
  from charged_range[OF c this] have "sint (word_of_int (sint (dqb_curspace (dq_quota (?m ?k))) + uint sz) :: u64) = sint (dqb_curspace (dq_quota (?m ?k))) + uint sz"
    by (intro sint_word) (auto simp: charged_def simp del: of_nat_mult)
  then show ?thesis using r(1) m by auto
qed

lemma one_export:
  assumes "n < 2 ^ 28" "B \<le> 2 ^ 30"
  obtains x where "ctx_ok B n x" "known x 1" "spec_of x = \<lparr>sp_quota = zero_dquot, sp_info = (\<lambda>_. default_info), sp_known = (\<lambda>_. False)(1 := True)\<rparr>"
proof -
  have "quota_op_ok B (Q_create 1)" by (simp add: eid_arg_def eid_ok_def EXPGW_EID_MAX_IDX_def)
  from create_step[OF fresh_ctx_ok[OF assms] this] obtain r x where x: "ctx_ok B n x" "quota_step (Q_create 1) (spec_of fresh_ctx) r (spec_of x)" by blast
  then have s: "spec_of x = \<lparr>sp_quota = zero_dquot, sp_info = (\<lambda>_. default_info), sp_known = (\<lambda>_. False)(1 := True)\<rparr>" by (simp add: fresh_spec EXPGW_EID_MAX_IDX_def)
  have "known x 1" using arg_cong[OF s, of "\<lambda>a. sp_known a 1"] by (simp add: spec_of_def)
  with x(1) s that show thesis by blast
qed

theorem block_update_wrong_group_witness:
  "\<exists>x x'. known x 1 \<and> rozofs_qt_block_update 1 5 7 4096 ROZOFS_QT_INC 0 (\<lambda>_. 100) x = Some (0, x')
     \<and> quotas (qt_store (qx_qt x')) (quota_key 1 GRPQUOTA 7) = quotas (qt_store (qx_qt x)) (quota_key 1 GRPQUOTA 7)
     \<and> sint (dqb_curspace (dq_quota (quotas (qt_store (qx_qt x')) (quota_key 1 GRPQUOTA 5)))) = 4096"
proof -
  obtain x where x: "ctx_ok 4096 (Suc 0) x" "known x 1" "spec_of x = \<lparr>sp_quota = zero_dquot, sp_info = (\<lambda>_. default_info), sp_known = (\<lambda>_. False)(1 := True)\<rparr>"
    by (rule one_export[of "Suc 0" 4096]) simp_all
  have q: "quotas (qt_store (qx_qt x)) = zero_dquot" using arg_cong[OF x(3), of sp_quota] by (simp add: spec_of_def)
  have "quota_key 1 GRPQUOTA 5 \<noteq> quota_key 1 GRPQUOTA 7" using quota_key_fields(2)[of 1 1 5] quota_key_fields(2)[of 1 1 7] by (auto simp: GRPQUOTA_def)
  from block_update_wrong_group[OF x(1,2) _ _ this, of 4096 "\<lambda>_. 100"] x(2) q show ?thesis by (auto simp: time_ok_def zero_dquot_def zero_dqblk_def)
qed

lemma keys_apart: "eid_ok eid \<Longrightarrow> {t, t'} \<subseteq> {USRQUOTA, GRPQUOTA, SHRQUOTA} \<Longrightarrow> t \<noteq> t' \<Longrightarrow> quota_key eid t i \<noteq> quota_key eid t' j"
  using quota_key_fields(1)[of eid t i] quota_key_fields(1)[of eid t' j] by (auto simp: eid_ok_def EXPGW_EID_MAX_IDX_def USRQUOTA_def GRPQUOTA_def SHRQUOTA_def)

text \<open>A request charges each of the three accounts once.\<close>

lemma charge_one:
  assumes "eid_ok eid" "(True, t, i) \<in> {(cu, USRQUOTA, u), (cg, GRPQUOTA, g), (cs, SHRQUOTA, s)}"
  shows "sp_quota (charge f eid now [(cu, USRQUOTA, u), (cg, GRPQUOTA, g), (cs, SHRQUOTA, s)] a) (quota_key eid t i)
     = \<lparr>dq_key = quota_key eid t i, dq_quota = f (sp_info a (eid, t)) (now t) (dq_quota (sp_quota a (quota_key eid t i)))\<rparr>"
proof -
  have "USRQUOTA \<noteq> GRPQUOTA" "USRQUOTA \<noteq> SHRQUOTA" "GRPQUOTA \<noteq> SHRQUOTA" by (simp_all add: USRQUOTA_def GRPQUOTA_def SHRQUOTA_def)
  then have "quota_key eid USRQUOTA u \<noteq> quota_key eid GRPQUOTA g" "quota_key eid USRQUOTA u \<noteq> quota_key eid SHRQUOTA s" "quota_key eid GRPQUOTA g \<noteq> quota_key eid SHRQUOTA s"
    by (intro keys_apart[OF assms(1)]; simp)+
  then show ?thesis using assms(2) by (auto simp: charge_def apply_account_def Let_def)
qed

text \<open>
  C37. What the hard limit of files guarantees to an account of a user, a group or a share: a creation makes one check and then charges \<open>nb\<close> files, with the user, the group and the share that it has checked. When the check
  lets it through, the quota of the account is enabled and has a hard limit, the account has exactly \<open>nb\<close> files more afterwards and at most \<open>nb\<close> more than its limit, since the check compares the files before the creation.
\<close>

theorem hard_limit_slack:
  assumes x: "ctx_ok B (Suc n) x" and "known x eid" "\<forall>t. time_ok (now' t)" and nb: "0 \<le> nb" "nb \<le> int B" "nb < 2 ^ 31"
    and acc: "(True, t, i) \<in> {(u \<noteq> -1, USRQUOTA, u), (g \<noteq> -1, GRPQUOTA, g), (sh \<noteq> 0, SHRQUOTA, uint sh)}"
    and en: "qi_enable (file_info x (eid, t)) \<noteq> 0"
    and lim: "dqb_ihardlimit (dq_quota (quotas (qt_store (qx_qt x)) (quota_key eid t i))) = l" "l \<noteq> 0"
    and chk: "rozofs_qt_check_quota eid u g (uint sh) now x = Some (0, x1)"
  shows "\<exists>x2. rozofs_qt_inode_update eid u g nb ROZOFS_QT_INC sh now' x1 = Some (0, x2)
     \<and> sint (dqb_curinodes (dq_quota (quotas (qt_store (qx_qt x2)) (quota_key eid t i))))
         = sint (dqb_curinodes (dq_quota (quotas (qt_store (qx_qt x)) (quota_key eid t i)))) + nb
     \<and> sint (dqb_curinodes (dq_quota (quotas (qt_store (qx_qt x2)) (quota_key eid t i)))) \<le> sint l + nb"
proof -
  let ?k = "quota_key eid t i" and ?m = "quotas (qt_store (qx_qt x))" let ?q = "dq_quota (?m ?k)"
  have eo: "eid_ok eid" and e: "eid_arg eid" using assms(2) by (simp_all add: known_def eid_arg_def)
  obtain r x' where "quota_run (Q_check eid u g (uint sh) now) x = Some (r, x')" "ctx_ok B (Suc n) x'" "quota_step (Q_check eid u g (uint sh) now) (spec_of x) r (spec_of x')"
    using check_step[OF x, of eid u g "uint sh" now] e by auto
  with chk have c: "ctx_ok B (Suc n) x1" "spec_of x1 = spec_of x" "\<not> refused (spec_of x) eid now (True, t, i)"
    using assms(2) acc by (auto split: if_splits simp: refused_def unsigned_eq_0_iff)
  then have "\<not> over_limits (now t) ?q" using en by (simp add: refused_def spec_of_def)
  then have i: "sint (dqb_curinodes ?q) \<le> sint l" using lim by (simp add: over_limits_def inodes_over_def)
  let ?o = "Q_inode eid u g nb ROZOFS_QT_INC sh now'"
  have w: "uint (word_of_int nb :: u64) = nb" using nb by (simp add: unsigned_of_int take_bit_int_eq_self)
  have ok: "count_ok B ROZOFS_QT_INC (word_of_int nb)" using nb w by (simp add: count_ok_def)
  then have "quota_op_ok B ?o" using e assms(3) by simp
  from inode_step[OF c(1) this] obtain r x2 where s: "quota_run ?o x1 = Some (r, x2)" "quota_step ?o (spec_of x) r (spec_of x2)" unfolding c(2) by blast
  have kn: "sp_known (spec_of x) eid" using assms(2) by (simp add: spec_of_def)
  with s(2) have "r = Status 0" and b: "spec_of x2 = charge (inode_account ROZOFS_QT_INC (word_of_int nb)) eid now' [(u \<noteq> -1, USRQUOTA, u), (g \<noteq> -1, GRPQUOTA, g), (sh \<noteq> 0, SHRQUOTA, uint sh)] (spec_of x)"
    by simp_all
  have "sp_quota (spec_of x2) ?k = \<lparr>dq_key = ?k, dq_quota = inode_account ROZOFS_QT_INC (word_of_int nb) (file_info x (eid, t)) (now' t) ?q\<rparr>"
    unfolding b charge_one[OF eo acc] by (simp add: spec_of_def)
  then have "quotas (qt_store (qx_qt x2)) ?k = \<lparr>dq_key = ?k, dq_quota = inode_account ROZOFS_QT_INC (word_of_int nb) (file_info x (eid, t)) (now' t) ?q\<rparr>"
    by (simp add: spec_of_def)
  moreover have three: "3 * Suc n = Suc (3 * n + 2)" by simp
  have "room B (Suc (3 * n + 2)) ?q" using x unfolding ctx_ok_def accounts_ok_def three by blast
  then have "0 \<le> sint (dqb_curinodes ?q)" "sint (dqb_curinodes ?q) + int (Suc (3 * n + 2) * B) + 0 < 2 ^ 63" by (simp_all only: room_def add_0_right)
  from charged_range[OF ok this] have "sint (word_of_int (sint (dqb_curinodes ?q) + nb) :: u64) = sint (dqb_curinodes ?q) + nb"
    by (intro sint_word) (auto simp: charged_def w simp del: of_nat_mult)
  ultimately show ?thesis using s(1) i \<open>r = Status 0\<close> w by (auto simp: inode_account_def inode_grace_def charged_def)
qed

text \<open>A user with a limit of one file and one file creates three more, a file with two more parts, after one check.\<close>

theorem hard_limit_slack_witness:
  "\<exists>x x1 x2. rozofs_qt_check_quota 1 5 7 0 (\<lambda>_. 100) x = Some (0, x1) \<and> rozofs_qt_inode_update 1 5 7 3 ROZOFS_QT_INC 0 (\<lambda>_. 101) x1 = Some (0, x2)
     \<and> dqb_ihardlimit (dq_quota (quotas (qt_store (qx_qt x)) (quota_key 1 USRQUOTA 5))) = 1
     \<and> sint (dqb_curinodes (dq_quota (quotas (qt_store (qx_qt x2)) (quota_key 1 USRQUOTA 5)))) = 4"
proof -
  let ?src = "\<lparr>rq_bhardlimit = 0, rq_bsoftlimit = 0, rq_curblocks = 0, rq_fhardlimit = 1, rq_fsoftlimit = 0, rq_curfiles = 0, rq_btimeleft = 0, rq_ftimeleft = 0\<rparr> :: sq_dqblk"
  let ?qs = "[Q_create 1, Q_msg (SETQUOTA 1 USRQUOTA 5 QIF_ILIMITS ?src) 0 0, Q_inode 1 5 (-1) 1 ROZOFS_QT_INC 0 (\<lambda>_. 100)]" and ?k = "quota_key 1 USRQUOTA 5"
  have ok: "\<And>q. q \<in> set ?qs \<Longrightarrow> quota_op_ok 1000 q" by (auto simp: eid_arg_def eid_ok_def EXPGW_EID_MAX_IDX_def count_ok_def time_ok_def)
  have "ctx_ok 1000 (length ?qs + Suc 0) fresh_ctx" by (rule fresh_ctx_ok) simp_all
  from qs.session_within[OF this ok] obtain rs x where x: "ctx_ok 1000 (Suc 0) x" "session_spec quota_step ?qs (spec_of fresh_ctx) rs (spec_of x)" by blast
  then have "sp_known (spec_of x) 1 \<and> sp_info (spec_of x) = (\<lambda>_. default_info) \<and> dqb_ihardlimit (dq_quota (sp_quota (spec_of x) ?k)) = 1
     \<and> sp_quota (spec_of x) = zero_dquot(?k := \<lparr>dq_key = ?k, dq_quota = zero_dqblk\<lparr>dqb_ihardlimit := 1, dqb_curinodes := 1\<rparr>\<rparr>)"
    unfolding fresh_spec by (auto simp: session_spec_simps charge_def apply_account_def Let_def inode_account_def inode_grace_def block_grace_def grace_end_def space_over_def inodes_over_def set_limits_def charged_def
      QIF_BLIMITS_def QIF_ILIMITS_def QIF_TIMES_def zero_dquot_def zero_dqblk_def msg_error_def known_type_def EXPGW_EID_MAX_IDX_def)
  then have s: "known x 1" "file_info x = (\<lambda>_. default_info)" "dqb_ihardlimit (dq_quota (quotas (qt_store (qx_qt x)) ?k)) = 1"
    "quotas (qt_store (qx_qt x)) = zero_dquot(?k := \<lparr>dq_key = ?k, dq_quota = zero_dqblk\<lparr>dqb_ihardlimit := 1, dqb_curinodes := 1\<rparr>\<rparr>)" by (simp_all add: spec_of_def)
  obtain r x1 where c: "quota_run (Q_check 1 5 7 0 (\<lambda>_. 100)) x = Some (r, x1)" "quota_step (Q_check 1 5 7 0 (\<lambda>_. 100)) (spec_of x) r (spec_of x1)"
    using check_step[OF x(1), of 1 5 7 0 "\<lambda>_. 100"] by (auto simp: eid_arg_def eid_ok_def EXPGW_EID_MAX_IDX_def)
  then have "r = Status 0" using s(1,4) by (simp add: spec_of_def refused_def over_limits_def space_over_def inodes_over_def zero_dquot_def zero_dqblk_def)
  with c(1) have chk: "rozofs_qt_check_quota 1 5 7 0 (\<lambda>_. 100) x = Some (0, x1)" by simp
  have "qi_enable (file_info x (1, USRQUOTA)) \<noteq> 0" using s(2) by (simp add: default_info_def)
  from hard_limit_slack[OF x(1) s(1) _ _ _ _ _ this s(3), where u = 5 and g = 7 and sh = 0 and now = "\<lambda>_. 100" and now' = "\<lambda>_. 101" and nb = 3] chk
  obtain x2 where "rozofs_qt_inode_update 1 5 7 3 ROZOFS_QT_INC 0 (\<lambda>_. 101) x1 = Some (0, x2)"
    "sint (dqb_curinodes (dq_quota (quotas (qt_store (qx_qt x2)) ?k))) = sint (dqb_curinodes (dq_quota (quotas (qt_store (qx_qt x)) ?k))) + 3" by (auto simp: time_ok_def)
  moreover have "sint (dqb_curinodes (dq_quota (quotas (qt_store (qx_qt x)) ?k))) = 1" using s(4) by simp
  ultimately show ?thesis using chk s(3) by auto
qed

text \<open>C15. A restart loses nothing: after a round of the write-back thread the daemon that starts on the same disk, with its own thread and locks created, has the quotas and the information of the one that stopped.\<close>

theorem restart_keeps_quotas:
  assumes x: "ctx_ok B n x" and stop: "export_quota_table y = replicate 1025 None" "\<not> rozofs_qt_init_done y" "qx_files y = qx_files x" "qx_io y = []"
    and proc: "qt_mem (qx_qt y) = Map.empty" "qt_next (qx_qt y) = 1"
    and disk: "quota_wbcache_thread (qt_store (qx_qt x)) = Some st" "qs_disk (qt_store (qx_qt y)) = qs_disk st"
  shows "\<exists>y'. rozofs_qt_init 0 y = (0, y') \<and> ctx_ok B n y' \<and> spec_of y' = (spec_of x)\<lparr>sp_known := \<lambda>_. False\<rparr>"
proof -
  have ex: "exports_ok x" and s: "accounts_ok B (3 * n) (qx_qt x)" using x by (simp_all add: ctx_ok_def)
  then have so: "store_ok (3 * n) (qt_store (qx_qt x))" by (simp add: accounts_ok_def qt_ok_def)
  from round_saves[OF so] disk(1) have st: "store_ok (3 * n) st" "quotas (quota_wbcache_init (qs_disk st)) = quotas (qt_store (qx_qt x))" by auto
  let ?s = "qt_start (quota_wbcache_init (qs_disk st))" let ?y = "y\<lparr>qx_qt := ?s, rozofs_qt_init_done := True\<rparr>"
  have "(qx_qt y)\<lparr>qt_cache := rozofs_qt_cache_initialize, qt_store := quota_wbcache_init (qs_disk st)\<rparr> = ?s" using proc by (simp add: qt_start_def)
  then have run: "rozofs_qt_init 0 y = (0, ?y)" using stop(2) disk(2) by (simp add: rozofs_qt_init_def Let_def)
  have "disk_ok (qs_disk st)" "3 * n < 2 ^ 32" using st(1) by (simp_all add: store_ok_def)
  then have "qt_ok (3 * n) ?s" by (intro qt_start_ok init_ok(1))
  moreover have q: "quotas (qt_store ?s) = quotas (qt_store (qx_qt x))" using st(2) by (simp add: qt_start_def)
  ultimately have "accounts_ok B (3 * n) ?s" using s by (simp add: accounts_ok_def)
  moreover have "exports_ok ?y" using ex stop by (auto simp: exports_ok_def eid_ok_def EXPGW_EID_MAX_IDX_def)
  ultimately have "ctx_ok B n ?y" by (simp add: ctx_ok_def)
  moreover have "spec_of ?y = (spec_of x)\<lparr>sp_known := \<lambda>_. False\<rparr>"
    using q stop(1,3) by (auto simp: spec_of_def file_info_def known_def fun_eq_iff eid_ok_def EXPGW_EID_MAX_IDX_def)
  ultimately show ?thesis using run by blast
qed

theorem restart_keeps_quotas_witness:
  "\<exists>x y st y'. known x 1 \<and> quota_wbcache_thread (qt_store (qx_qt x)) = Some st \<and> qs_disk (qt_store (qx_qt y)) = qs_disk st \<and> rozofs_qt_init 0 y = (0, y') \<and> quotas (qt_store (qx_qt y')) = quotas (qt_store (qx_qt x))"
proof -
  obtain x where x: "ctx_ok 1 0 x" "known x 1" by (rule one_export[of 0 1]) simp_all
  then have "store_ok 0 (qt_store (qx_qt x))" by (simp add: ctx_ok_def accounts_ok_def qt_ok_def)
  from round_saves[OF this] obtain st where st: "quota_wbcache_thread (qt_store (qx_qt x)) = Some st" by blast
  let ?y = "\<lparr>export_quota_table = replicate 1025 None, qx_qt = qt_start st, rozofs_qt_init_done = False, qx_files = qx_files x, qx_io = [], qx_enoent = False\<rparr>"
  obtain y' where y: "rozofs_qt_init 0 ?y = (0, y')" "spec_of y' = (spec_of x)\<lparr>sp_known := \<lambda>_. False\<rparr>"
    using restart_keeps_quotas[OF x(1), of ?y st] st by (auto simp: qt_start_def)
  have "quotas (qt_store (qx_qt y')) = quotas (qt_store (qx_qt x))" using arg_cong[OF y(2), of sp_quota] by (simp add: spec_of_def)
  moreover have "qs_disk (qt_store (qx_qt ?y)) = qs_disk st" by (simp add: qt_start_def)
  ultimately show ?thesis using x(2) st y(1) by blast
qed



end
