(* ===== verification/Linked_List.thy ===== *)
theory Linked_List
  imports Prelude
begin

text \<open>
  The intrusive doubly linked lists of \<^verbatim>\<open>rozofs/common/list.h\<close>, on an explicit memory of links. An address is a number and the
  null pointer is 0. A list is a head and the nodes reached from it; \<open>dll m h xs\<close> says that the memory links
  \<open>h\<close> and \<open>xs\<close> in a ring, in both directions.
\<close>

section \<open>Model\<close>

record list_mem =
  l_next :: "nat \<Rightarrow> nat"
  l_prev :: "nat \<Rightarrow> nat"

definition set_next :: "nat \<Rightarrow> nat \<Rightarrow> list_mem \<Rightarrow> list_mem" where
  "set_next a b m = m\<lparr>l_next := (l_next m)(a := b)\<rparr>"

definition set_prev :: "nat \<Rightarrow> nat \<Rightarrow> list_mem \<Rightarrow> list_mem" where
  "set_prev a b m = m\<lparr>l_prev := (l_prev m)(a := b)\<rparr>"

lemma set_links [simp]:
  "l_next (set_next a b m) = (l_next m)(a := b)" "l_prev (set_next a b m) = l_prev m"
  "l_prev (set_prev a b m) = (l_prev m)(a := b)" "l_next (set_prev a b m) = l_next m"
  by (simp_all add: set_next_def set_prev_def)

definition list_init :: "nat \<Rightarrow> list_mem \<Rightarrow> list_mem" where
  "list_init list m = set_prev list list (set_next list list m)"

definition list_insert :: "nat \<Rightarrow> nat \<Rightarrow> nat \<Rightarrow> list_mem \<Rightarrow> list_mem" where
  "list_insert new prev nxt m = set_next prev new (set_prev new prev (set_next new nxt (set_prev nxt new m)))"

definition list_push_front :: "nat \<Rightarrow> nat \<Rightarrow> list_mem \<Rightarrow> list_mem" where
  "list_push_front head new m = list_insert new head (l_next m head) m"

definition list_push_back :: "nat \<Rightarrow> nat \<Rightarrow> list_mem \<Rightarrow> list_mem" where
  "list_push_back head new m = list_insert new (l_prev m head) head m"

definition list_remove :: "nat \<Rightarrow> list_mem \<Rightarrow> list_mem" where
  "list_remove list m = (
     let m = set_prev (l_next m list) (l_prev m list) m;
         m = set_next (l_prev m list) (l_next m list) m;
         m = set_next list list m in
     set_prev list list m)"

definition list_empty :: "nat \<Rightarrow> list_mem \<Rightarrow> bool" where
  "list_empty head m \<longleftrightarrow> l_next m head = head"

definition list_move_nocheck :: "nat \<Rightarrow> nat \<Rightarrow> list_mem \<Rightarrow> list_mem" where
  "list_move_nocheck to frm m = (
     let m = set_next (l_prev m to) (l_next m frm) m;
         m = set_prev (l_next m frm) (l_prev m to) m;
         m = set_next (l_prev m frm) to m;
         m = set_prev to (l_prev m frm) m in
     list_init frm m)"

definition list_move :: "nat \<Rightarrow> nat \<Rightarrow> list_mem \<Rightarrow> list_mem" where
  "list_move to frm m = (if list_empty frm m then m else list_move_nocheck to frm m)"

text \<open>The loops \<^verbatim>\<open>list_for_each_forward\<close> and \<^verbatim>\<open>list_for_each_backward\<close>: the nodes they visit, or \<^term>\<open>None\<close> when they do not end.\<close>

partial_function (option) forward_from :: "list_mem \<Rightarrow> nat \<Rightarrow> nat \<Rightarrow> nat list option" where
  "forward_from m head pos = (if pos = head then Some [] else do { r \<leftarrow> forward_from m head (l_next m pos); Some (pos # r) })"

partial_function (option) backward_from :: "list_mem \<Rightarrow> nat \<Rightarrow> nat \<Rightarrow> nat list option" where
  "backward_from m head pos = (if pos = head then Some [] else do { r \<leftarrow> backward_from m head (l_prev m pos); Some (pos # r) })"

definition list_for_each_forward :: "nat \<Rightarrow> list_mem \<Rightarrow> nat list option" where
  "list_for_each_forward head m = forward_from m head (l_next m head)"

definition list_for_each_backward :: "nat \<Rightarrow> list_mem \<Rightarrow> nat list option" where
  "list_for_each_backward head m = backward_from m head (l_prev m head)"

partial_function (option) list_size_from :: "list_mem \<Rightarrow> nat \<Rightarrow> nat \<Rightarrow> int \<Rightarrow> int option" where
  "list_size_from m head iterator n = (if iterator = head then Some n else list_size_from m head (l_next m iterator) (n + 1))"

definition list_size :: "nat \<Rightarrow> list_mem \<Rightarrow> int option" where
  "list_size head m = list_size_from m head (l_next m head) 0"

declare forward_from.simps [code] backward_from.simps [code] list_size_from.simps [code]

section \<open>Rings\<close>

definition linked :: "list_mem \<Rightarrow> nat \<Rightarrow> nat \<Rightarrow> bool" where
  "linked m x y \<longleftrightarrow> l_next m x = y \<and> l_prev m y = x"

definition dll :: "list_mem \<Rightarrow> nat \<Rightarrow> nat list \<Rightarrow> bool" where
  "dll m h xs \<longleftrightarrow> distinct (h # xs) \<and> successively (linked m) (h # xs @ [h])"

lemma linked_frame:
  assumes "successively (linked m) zs" "\<And>u. u \<in> set (butlast zs) \<Longrightarrow> l_next m' u = l_next m u" "\<And>v. v \<in> set (tl zs) \<Longrightarrow> l_prev m' v = l_prev m v"
  shows "successively (linked m') zs"
  using assms
proof (induction zs rule: induct_list012)
  case (3 x y zs)
  then have "successively (linked m') (y # zs)" by (auto split: if_splits)
  with 3 show ?case by (auto simp: linked_def split: if_splits)
qed auto

lemma dll_nil: "dll m h [] \<longleftrightarrow> l_next m h = h \<and> l_prev m h = h"
  by (auto simp: dll_def linked_def)

lemma dll_next: "dll m h xs \<Longrightarrow> l_next m h = hd (xs @ [h])"
  by (cases xs) (auto simp: dll_def linked_def)

lemma dll_prev: "dll m h xs \<Longrightarrow> l_prev m h = last (h # xs)"
proof -
  assume "dll m h xs"
  then have "successively (linked m) ((h # xs) @ [h])" by (simp add: dll_def)
  then show ?thesis unfolding successively_append_iff by (auto simp: linked_def)
qed

lemma dll_empty: "dll m h xs \<Longrightarrow> list_empty h m \<longleftrightarrow> xs = []"
  using dll_next[of m h xs] by (cases xs) (auto simp: list_empty_def dll_def)

lemma list_init_dll: "dll (list_init h m) h []"
  by (simp add: dll_nil list_init_def)

lemma last_notin_butlast: "distinct zs \<Longrightarrow> zs \<noteq> [] \<Longrightarrow> last zs \<notin> set (butlast zs)"
  by (cases zs rule: rev_cases) auto

text \<open>Insertion between two neighbours of a sequence, the last of which may be the first again.\<close>

lemma insert_linked:
  assumes s: "successively (linked m) (A @ B)" and ne: "A \<noteq> []" "B \<noteq> []" and d: "distinct A" "distinct B" "set A \<inter> set (butlast B) = {}" "set B \<inter> set (tl A) = {}"
    and new: "new \<notin> set A" "new \<notin> set B"
  shows "successively (linked (list_insert new (last A) (hd B) m)) (A @ new # B)"
proof -
  let ?m = "list_insert new (last A) (hd B) m"
  have n: "l_next ?m = (l_next m)(new := hd B, last A := new)" and p: "l_prev ?m = (l_prev m)(hd B := new, new := last A)"
    by (simp_all add: list_insert_def)
  have la: "last A \<notin> set (butlast A)" by (rule last_notin_butlast[OF d(1) ne(1)])
  have A: "successively (linked ?m) A"
  proof (rule linked_frame[where m = m])
    show "successively (linked m) A" using s by (simp add: successively_append_iff)
    show "l_next ?m u = l_next m u" if "u \<in> set (butlast A)" for u using that la new in_set_butlastD by (fastforce simp: n)
    show "l_prev ?m v = l_prev m v" if "v \<in> set (tl A)" for v using that d(4) new list.set_sel(2)[OF ne(1)] hd_in_set[OF ne(2)] by (simp add: p) blast
  qed
  have B: "successively (linked ?m) B"
  proof (rule linked_frame[where m = m])
    show "successively (linked m) B" using s by (simp add: successively_append_iff)
    show "l_next ?m u = l_next m u" if "u \<in> set (butlast B)" for u using that d(3) new in_set_butlastD last_in_set[OF ne(1)] by (fastforce simp: n)
    show "l_prev ?m v = l_prev m v" if "v \<in> set (tl B)" for v
    proof -
      have "v \<noteq> hd B" "v \<noteq> new" using that d(2) new by (cases B; auto)+
      then show ?thesis by (simp add: p)
    qed
  qed
  have nb: "new \<noteq> last A" "new \<noteq> hd B" using new last_in_set[OF ne(1)] hd_in_set[OF ne(2)] by metis+
  have "linked ?m (last A) new" "linked ?m new (hd B)" using nb by (simp_all add: linked_def n p)
  then show ?thesis using A B ne by (cases B) (simp_all add: successively_append_iff)
qed

lemma list_push_front_dll:
  assumes "dll m h xs" "new \<notin> set (h # xs)"
  shows "dll (list_push_front h new m) h (new # xs)"
proof -
  have "successively (linked (list_insert new (last [h]) (hd (xs @ [h])) m)) ([h] @ new # xs @ [h])"
    by (rule insert_linked) (use assms in \<open>auto simp: dll_def\<close>)
  then show ?thesis using assms dll_next[OF assms(1)] by (auto simp: dll_def list_push_front_def)
qed

lemma list_push_back_dll:
  assumes "dll m h xs" "new \<notin> set (h # xs)"
  shows "dll (list_push_back h new m) h (xs @ [new])"
proof -
  have "successively (linked (list_insert new (last (h # xs)) (hd [h]) m)) ((h # xs) @ new # [h])"
    by (rule insert_linked) (use assms in \<open>auto simp: dll_def\<close>)
  then show ?thesis using assms dll_prev[OF assms(1)] by (auto simp: dll_def list_push_back_def)
qed

lemma list_remove_dll:
  assumes "dll m h xs" "x \<in> set xs"
  shows "dll (list_remove x m) h (remove1 x xs)" "dll (list_remove x m) x []"
proof -
  obtain ys zs where xs: "xs = ys @ x # zs" "x \<notin> set ys" using assms(2) by (metis split_list_first)
  let ?A = "h # ys" and ?B = "zs @ [h]" and ?m = "list_remove x m"
  have d: "distinct (h # ys @ x # zs)" and s: "successively (linked m) (?A @ x # ?B)" using assms(1) xs by (simp_all add: dll_def)
  have x: "l_prev m x = last ?A" "l_next m x = hd ?B" using s by (auto simp: successively_append_iff linked_def successively_Cons)
  have nx: "hd ?B \<noteq> x" "last ?A \<noteq> x" using d by (cases zs; auto simp: last_in_set)+
  have n: "l_next ?m = (l_next m)(last ?A := hd ?B, x := x)" and p: "l_prev ?m = (l_prev m)(hd ?B := last ?A, x := x)"
    using nx x by (simp_all add: list_remove_def Let_def fun_upd_twist)
  have A: "successively (linked ?m) ?A"
  proof (rule linked_frame[where m = m])
    show "successively (linked m) ?A" using s by (simp only: successively_append_iff)
    show "l_next ?m u = l_next m u" if "u \<in> set (butlast ?A)" for u
    proof -
      have "u \<in> set ?A" "u \<noteq> last ?A" using that last_notin_butlast[of ?A] d in_set_butlastD[OF that] by auto
      then show ?thesis using d by (auto simp: n)
    qed
    show "l_prev ?m v = l_prev m v" if "v \<in> set (tl ?A)" for v using that d by (cases zs) (auto simp: p)
  qed
  have B: "successively (linked ?m) ?B"
  proof (rule linked_frame[where m = m])
    show "successively (linked m) ?B" using s by (simp add: successively_append_iff successively_Cons)
    show "l_next ?m u = l_next m u" if "u \<in> set (butlast ?B)" for u
    proof -
      have "u \<notin> set ?A" "u \<noteq> x" using that d by auto
      then show ?thesis using last_in_set[of ?A] by (auto simp: n)
    qed
    show "l_prev ?m v = l_prev m v" if "v \<in> set (tl ?B)" for v using that d by (cases zs) (auto simp: p)
  qed
  have "linked ?m (last ?A) (hd ?B)" using nx by (simp add: linked_def n p)
  with A B have "successively (linked ?m) (?A @ ?B)" unfolding successively_append_iff[of _ ?A ?B] by blast
  then show "dll ?m h (remove1 x xs)" using d xs by (auto simp: dll_def remove1_append)
  show "dll ?m x []" by (simp add: dll_nil n p)
qed


lemma list_move_dll:
  assumes t: "dll m t xs" and f: "dll m f ys" and ne: "ys \<noteq> []" and disj: "set (t # xs) \<inter> set (f # ys) = {}"
  shows "dll (list_move_nocheck t f m) t (xs @ ys)" "dll (list_move_nocheck t f m) f []"
proof -
  let ?m = "list_move_nocheck t f m" and ?A = "t # xs"
  have tp: "l_prev m t = last ?A" and fn: "l_next m f = hd ys" and fp: "l_prev m f = last ys"
    using dll_prev[OF t] dll_next[OF f] dll_prev[OF f] ne by simp_all
  have ds: "distinct ?A" "distinct (f # ys)" and st: "successively (linked m) (?A @ [t])" and sf: "successively (linked m) (f # ys @ [f])"
    using t f by (simp_all add: dll_def)
  have la: "last ?A \<in> set ?A" "last ys \<in> set ys" "hd ys \<in> set ys" using ne by (simp_all add: last_in_set)
  have nq: "last ?A \<noteq> f" "last ?A \<noteq> last ys" "last ys \<noteq> f" "hd ys \<noteq> t" "hd ys \<noteq> f" "t \<noteq> f" "last ys \<noteq> t" using la disj ds(2) by auto
  have n: "l_next ?m = (l_next m)(last ?A := hd ys, last ys := t, f := f)" and p: "l_prev ?m = (l_prev m)(hd ys := last ?A, t := last ys, f := f)"
    using nq by (simp_all add: list_move_nocheck_def list_init_def Let_def tp fn fp del: last.simps)
  have A: "successively (linked ?m) ?A"
  proof (rule linked_frame[where m = m])
    show "successively (linked m) ?A" using st by (simp only: successively_append_iff)
    show "l_next ?m u = l_next m u" if "u \<in> set (butlast ?A)" for u
    proof -
      have "u \<in> set ?A" "u \<noteq> last ?A" using in_set_butlastD[OF that] that last_notin_butlast[of ?A] ds(1) by auto
      then show ?thesis using disj la by (auto simp: n simp del: last.simps)
    qed
    show "l_prev ?m v = l_prev m v" if "v \<in> set (tl ?A)" for v
    proof -
      have "v \<in> set xs" "v \<noteq> t" using that ds(1) by auto
      then show ?thesis using disj la by (auto simp: p)
    qed
  qed
  have Y: "successively (linked ?m) ys"
  proof (rule linked_frame[where m = m])
    show "successively (linked m) ys" using sf by (simp add: successively_append_iff successively_Cons)
    show "l_next ?m u = l_next m u" if "u \<in> set (butlast ys)" for u
    proof -
      have "u \<in> set ys" "u \<noteq> last ys" using in_set_butlastD[OF that] that last_notin_butlast[of ys] ds(2) ne by auto
      then show ?thesis using disj la ds(2) by (auto simp: n simp del: last.simps)
    qed
    show "l_prev ?m v = l_prev m v" if "v \<in> set (tl ys)" for v
    proof -
      have "v \<in> set ys" "v \<noteq> hd ys" using that ds(2) ne by (cases ys; auto)+
      then show ?thesis using disj ds(2) by (auto simp: p)
    qed
  qed
  have "linked ?m (last ?A) (hd ys)" "linked ?m (last ys) t" using nq by (auto simp: linked_def n p simp del: last.simps)
  then have "successively (linked ?m) (?A @ ys @ [t])"
    unfolding successively_append_iff[of _ ?A] successively_append_iff[of _ ys] using A Y ne by (simp del: last.simps)
  then show "dll ?m t (xs @ ys)" using ds disj by (auto simp: dll_def)
  show "dll ?m f []" by (simp add: dll_nil n p)
qed

text \<open>A list whose cells are not written stays as it is.\<close>

lemma dll_frame:
  assumes "dll m h xs" "\<And>u. u \<in> set (h # xs) \<Longrightarrow> l_next m' u = l_next m u \<and> l_prev m' u = l_prev m u"
  shows "dll m' h xs"
proof -
  have "successively (linked m') (h # xs @ [h])"
    by (rule linked_frame[where m = m]) (use assms in \<open>auto simp: dll_def butlast_append split: if_splits\<close>)
  then show ?thesis using assms(1) by (simp add: dll_def)
qed

lemma linked_suffix:
  "dll m h (ys @ x # zs) \<Longrightarrow> l_next m x = hd (zs @ [h])" "dll m h (ys @ x # zs) \<Longrightarrow> l_prev m x = last (h # ys)"
proof -
  assume "dll m h (ys @ x # zs)"
  then have "successively (linked m) ((h # ys) @ x # zs @ [h])" by (simp add: dll_def)
  then show "l_next m x = hd (zs @ [h])" "l_prev m x = last (h # ys)"
    unfolding successively_append_iff by (auto simp: successively_Cons linked_def)
qed

lemma forward_suffix:
  "dll m h (ys @ zs) \<Longrightarrow> forward_from m h (hd (zs @ [h])) = Some zs"
proof (induction zs arbitrary: ys)
  case Nil
  then show ?case by (simp add: forward_from.simps)
next
  case (Cons z zs)
  have "z \<noteq> h" using Cons.prems by (auto simp: dll_def)
  moreover have "forward_from m h (hd (zs @ [h])) = Some zs" using Cons.IH[of "ys @ [z]"] Cons.prems by simp
  ultimately show ?case using linked_suffix(1)[OF Cons.prems] by (simp add: forward_from.simps[of m h z])
qed

lemma backward_prefix:
  "dll m h (ys @ zs) \<Longrightarrow> backward_from m h (last (h # ys)) = Some (rev ys)"
proof (induction ys arbitrary: zs rule: rev_induct)
  case Nil
  then show ?case by (simp add: backward_from.simps)
next
  case (snoc y ys)
  have "y \<noteq> h" using snoc.prems by (auto simp: dll_def)
  moreover have "backward_from m h (last (h # ys)) = Some (rev ys)" using snoc.IH[of "y # zs"] snoc.prems by simp
  moreover have "l_prev m y = last (h # ys)" using linked_suffix(2)[of m h ys y zs] snoc.prems by simp
  ultimately have "backward_from m h y = Some (y # rev ys)" by (subst backward_from.simps) (simp del: last.simps)
  then show ?case by simp
qed

lemma size_suffix:
  "dll m h (ys @ zs) \<Longrightarrow> list_size_from m h (hd (zs @ [h])) n = Some (n + int (length zs))"
proof (induction zs arbitrary: ys n)
  case Nil
  then show ?case by (simp add: list_size_from.simps)
next
  case (Cons z zs)
  have "z \<noteq> h" using Cons.prems by (auto simp: dll_def)
  moreover have "list_size_from m h (hd (zs @ [h])) (n + 1) = Some (n + 1 + int (length zs))" using Cons.IH[of "ys @ [z]"] Cons.prems by simp
  ultimately show ?case using linked_suffix(1)[OF Cons.prems] by (simp add: list_size_from.simps[of m h z])
qed

lemma traversals:
  assumes "dll m h xs"
  shows "list_for_each_forward h m = Some xs" "list_for_each_backward h m = Some (rev xs)" "list_size h m = Some (int (length xs))"
  using forward_suffix[of m h "[]" xs] backward_prefix[of m h xs "[]"] size_suffix[of m h "[]" xs 0] dll_next[OF assms] dll_prev[OF assms] assms
  by (simp_all add: list_for_each_forward_def list_for_each_backward_def list_size_def)


section \<open>Properties\<close>

text \<open>
  C33. The list operations do on the memory what the sequence operations do: pushing a new node at either end, removing a node, which is then a list of its own, moving
  a list behind another, and the traversals in both directions, which end and visit each node once.
\<close>

theorem list_operations_refine:
  assumes "dll m h xs"
  shows "(\<forall>x. x \<notin> set (h # xs) \<longrightarrow> dll (list_push_front h x m) h (x # xs) \<and> dll (list_push_back h x m) h (xs @ [x]))
     \<and> (\<forall>x. x \<in> set xs \<longrightarrow> dll (list_remove x m) h (remove1 x xs) \<and> dll (list_remove x m) x [])
     \<and> (\<forall>t ys. dll m t ys \<longrightarrow> set (t # ys) \<inter> set (h # xs) = {} \<longrightarrow> dll (list_move t h m) t (ys @ xs) \<and> dll (list_move t h m) h [])
     \<and> (list_empty h m \<longleftrightarrow> xs = []) \<and> list_size h m = Some (int (length xs))
     \<and> list_for_each_forward h m = Some xs \<and> list_for_each_backward h m = Some (rev xs)"
proof -
  have "dll (list_move t h m) t (ys @ xs) \<and> dll (list_move t h m) h []" if "dll m t ys" "set (t # ys) \<inter> set (h # xs) = {}" for t ys
  proof (cases "xs = []")
    case True
    then show ?thesis using that assms dll_empty[OF assms] by (simp add: list_move_def)
  next
    case False
    then show ?thesis using list_move_dll[OF that(1) assms False that(2)] dll_empty[OF assms] by (simp add: list_move_def)
  qed
  then show ?thesis using list_push_front_dll[OF assms] list_push_back_dll[OF assms] list_remove_dll[OF assms] dll_empty[OF assms] traversals[OF assms] by simp
qed

theorem list_operations_refine_witness:
  "list_for_each_backward 1 (list_remove 2 (list_push_back 1 3 (list_push_front 1 2 (list_init 1 \<lparr>l_next = (\<lambda>x. 0), l_prev = (\<lambda>x. 0)\<rparr>)))) = Some [3]"
proof -
  let ?m = "list_init 1 \<lparr>l_next = (\<lambda>x. 0), l_prev = (\<lambda>x. 0)\<rparr>"
  have "dll (list_push_front 1 2 ?m) 1 [2]" using list_operations_refine[OF list_init_dll, of 1] by simp
  from list_operations_refine[OF this] have "dll (list_push_back 1 3 (list_push_front 1 2 ?m)) 1 [2, 3]" by simp
  from list_operations_refine[OF this] have "dll (list_remove 2 (list_push_back 1 3 (list_push_front 1 2 ?m))) 1 [3]" by simp
  from list_operations_refine[OF this] show ?thesis by simp
qed



end
