(* ===== verification/List_Sort.thy ===== *)
theory List_Sort
  imports Linked_List "HOL-Library.Multiset"
begin

text \<open>
  The merge sort on linked lists, \<^verbatim>\<open>list_sort\<close> of \<^verbatim>\<open>rozofs/common/list.h\<close>. The head is taken out of the ring; each pass cuts the ring into runs, merges
  the runs two by two and closes the ring again, and the length of the runs is doubled until a pass makes one merge. The comparison of two nodes does not depend
  on their links.
\<close>

section \<open>Model\<close>

abbreviation (input) NULL :: nat where "NULL \<equiv> 0"

text \<open>The loop that finds the second run: the length of the first run and the first node behind it.\<close>

fun advance :: "list_mem \<Rightarrow> nat \<Rightarrow> nat \<Rightarrow> nat \<Rightarrow> nat \<Rightarrow> nat \<times> nat" where
  "advance m oldhead 0 psize q = (psize, q)"
| "advance m oldhead (Suc n) psize q = (
     let psize = psize + 1; q = (if l_next m q = oldhead then NULL else l_next m q) in
     if q = NULL then (psize, q) else advance m oldhead n psize q)"

definition emit :: "nat \<Rightarrow> list_mem \<Rightarrow> nat \<Rightarrow> nat \<Rightarrow> list_mem \<times> nat \<times> nat" where
  "emit e m list tail =
     (if tail \<noteq> NULL then (set_prev e tail (set_next tail e m), list, e) else (set_prev e tail m, e, e))"

definition after :: "list_mem \<Rightarrow> nat \<Rightarrow> nat \<Rightarrow> nat" where
  "after m oldhead p = (if l_next m p = oldhead then NULL else l_next m p)"

text \<open>The merge of two runs: the memory, the first node behind both runs, and the ends of the output.\<close>

function merge_run ::
  "(nat \<Rightarrow> nat \<Rightarrow> int) \<Rightarrow> nat \<Rightarrow> list_mem \<Rightarrow> nat \<Rightarrow> nat \<Rightarrow> nat \<Rightarrow> nat \<Rightarrow> nat \<Rightarrow> nat \<Rightarrow> list_mem \<times> nat \<times> nat \<times> nat"
where
  "merge_run cmp oldhead m p psize q qsize list tail =
     (if psize > 0 \<or> (qsize > 0 \<and> q \<noteq> NULL)
      then if psize = 0
        then (case emit q m list tail of (m', list', tail') \<Rightarrow> merge_run cmp oldhead m' p psize (after m oldhead q) (qsize - 1) list' tail')
      else if qsize = 0 \<or> q = NULL
        then (case emit p m list tail of (m', list', tail') \<Rightarrow> merge_run cmp oldhead m' (after m oldhead p) (psize - 1) q qsize list' tail')
      else if cmp p q \<le> 0
        then (case emit p m list tail of (m', list', tail') \<Rightarrow> merge_run cmp oldhead m' (after m oldhead p) (psize - 1) q qsize list' tail')
        else (case emit q m list tail of (m', list', tail') \<Rightarrow> merge_run cmp oldhead m' p psize (after m oldhead q) (qsize - 1) list' tail')
      else (m, q, list, tail))"
  by pat_completeness auto
termination
  by (relation "measure (\<lambda>(cmp, oldhead, m, p, psize, q, qsize, list, tail). psize + qsize)") auto

declare merge_run.simps [simp del]

partial_function (option) sort_pass ::
  "(nat \<Rightarrow> nat \<Rightarrow> int) \<Rightarrow> nat \<Rightarrow> nat \<Rightarrow> list_mem \<Rightarrow> nat \<Rightarrow> nat \<Rightarrow> nat \<Rightarrow> nat \<Rightarrow> (list_mem \<times> nat \<times> nat \<times> nat) option"
where
  "sort_pass cmp oldhead insize m p list tail nmerges =
     (if p = NULL then Some (m, list, tail, nmerges)
      else case advance m oldhead insize 0 p of (psize, q) \<Rightarrow>
        (case merge_run cmp oldhead m p psize q insize list tail of (m, q, list, tail) \<Rightarrow>
           sort_pass cmp oldhead insize m q list tail (nmerges + 1)))"

partial_function (option) sort_loop :: "(nat \<Rightarrow> nat \<Rightarrow> int) \<Rightarrow> nat \<Rightarrow> list_mem \<Rightarrow> nat \<Rightarrow> (list_mem \<times> nat) option" where
  "sort_loop cmp insize m list = do {
     (m, list, tail, nmerges) \<leftarrow> sort_pass cmp list insize m list NULL NULL 0;
     let m = set_prev list tail (set_next tail list m);
     if nmerges \<le> 1 then Some (m, list) else sort_loop cmp (2 * insize) m list }"

declare sort_pass.simps [code] sort_loop.simps [code]

definition list_sort :: "(nat \<Rightarrow> nat \<Rightarrow> int) \<Rightarrow> nat \<Rightarrow> list_mem \<Rightarrow> list_mem option" where
  "list_sort cmp head m =
     (if list_empty head m then Some m
      else do {
        let list = l_next m head;
        let m = list_remove head m;
        (m, list) \<leftarrow> sort_loop cmp 1 m list;
        let m = set_next head list m;
        let m = set_prev head (l_prev m list) m;
        let m = set_next (l_prev m list) head m;
        Some (set_prev list head m) })"

section \<open>Merge sort on sequences\<close>

fun merge :: "('a \<Rightarrow> 'a \<Rightarrow> int) \<Rightarrow> 'a list \<Rightarrow> 'a list \<Rightarrow> 'a list" where
  "merge cmp [] ys = ys"
| "merge cmp xs [] = xs"
| "merge cmp (x # xs) (y # ys) = (if cmp x y \<le> 0 then x # merge cmp xs (y # ys) else y # merge cmp (x # xs) ys)"

function merge_pass :: "('a \<Rightarrow> 'a \<Rightarrow> int) \<Rightarrow> nat \<Rightarrow> 'a list \<Rightarrow> 'a list" where
  "merge_pass cmp n xs = (if xs = [] \<or> n = 0 then [] else merge cmp (take n xs) (take n (drop n xs)) @ merge_pass cmp n (drop n (drop n xs)))"
  by pat_completeness auto
termination
  by (relation "measure (\<lambda>(cmp, n, xs). length xs)") auto

declare merge_pass.simps [simp del]

function nmerges :: "nat \<Rightarrow> 'a list \<Rightarrow> nat" where
  "nmerges n xs = (if xs = [] \<or> n = 0 then 0 else Suc (nmerges n (drop n (drop n xs))))"
  by pat_completeness auto
termination
  by (relation "measure (\<lambda>(n, xs). length xs)") auto

declare nmerges.simps [simp del]

lemma merge_nil [simp]: "merge cmp xs [] = xs"
  by (cases xs) auto

lemma set_merge [simp]: "set (merge cmp xs ys) = set xs \<union> set ys"
  by (induction cmp xs ys rule: merge.induct) auto

lemma mset_merge [simp]: "mset (merge cmp xs ys) = mset xs + mset ys"
  by (induction cmp xs ys rule: merge.induct) auto

lemma length_merge [simp]: "length (merge cmp xs ys) = length xs + length ys"
  by (metis mset_merge size_mset size_union)

lemma mset_merge_pass: "0 < n \<Longrightarrow> mset (merge_pass cmp n xs) = mset xs"
proof (induction cmp n xs rule: merge_pass.induct)
  case (1 cmp n xs)
  show ?case
  proof (cases "xs = []")
    case False
    have "mset xs = mset (take n xs) + (mset (take n (drop n xs)) + mset (drop n (drop n xs)))"
      by (metis append_take_drop_id mset_append)
    with 1 False show ?thesis by (subst merge_pass.simps) simp
  qed (simp add: merge_pass.simps)
qed

lemma length_merge_pass: "0 < n \<Longrightarrow> length (merge_pass cmp n xs) = length xs"
  by (metis mset_merge_pass size_mset)

lemma nmerges_le_1: "0 < n \<Longrightarrow> nmerges n xs \<le> 1 \<longleftrightarrow> length xs \<le> 2 * n"
proof -
  assume n: "0 < n"
  have "nmerges n (drop n (drop n xs)) = 0 \<longleftrightarrow> length xs \<le> 2 * n"
    using n by (subst nmerges.simps) (auto simp: drop_eq_Nil)
  then show ?thesis using n by (cases "xs = []") (auto simp: nmerges.simps[of n xs])
qed


section \<open>The passes on the memory compute those on sequences\<close>

definition nexts :: "list_mem \<Rightarrow> nat list \<Rightarrow> bool" where
  "nexts m zs \<longleftrightarrow> successively (\<lambda>x y. l_next m x = y) zs"

lemma nexts_frame:
  assumes "nexts m zs" "\<And>u. u \<in> set (butlast zs) \<Longrightarrow> l_next m' u = l_next m u"
  shows "nexts m' zs"
  using assms
proof (induction zs rule: induct_list012)
  case (3 x y zs)
  then have "nexts m' (y # zs)" by (auto simp: nexts_def split: if_splits)
  with 3 show ?case by (auto simp: nexts_def split: if_splits)
qed (auto simp: nexts_def)

lemma nexts_simps [simp]: "nexts m []" "nexts m [x]" "nexts m (x # y # zs) \<longleftrightarrow> l_next m x = y \<and> nexts m (y # zs)"
  by (auto simp: nexts_def)

text \<open>What is left to merge, from \<open>q\<close> to the end of the old ring, and what is merged already.\<close>

definition rest :: "list_mem \<Rightarrow> nat \<Rightarrow> nat \<Rightarrow> nat list \<Rightarrow> bool" where
  "rest m oldhead q Q \<longleftrightarrow> (if Q = [] then q = NULL else q = hd Q \<and> nexts m (Q @ [oldhead]))"

definition emitted :: "list_mem \<Rightarrow> nat \<Rightarrow> nat \<Rightarrow> nat list \<Rightarrow> bool" where
  "emitted m list tail E \<longleftrightarrow> (if E = [] then list = NULL \<and> tail = NULL else list = hd E \<and> tail = last E \<and> successively (linked m) E)"

definition same_links :: "nat set \<Rightarrow> list_mem \<Rightarrow> list_mem \<Rightarrow> bool" where
  "same_links X m m' \<longleftrightarrow> (\<forall>u. u \<notin> X \<longrightarrow> l_next m' u = l_next m u \<and> l_prev m' u = l_prev m u)"

lemma emit_ok:
  assumes e: "emitted m list tail E" "x \<notin> set E" "distinct E" "x \<noteq> NULL" "NULL \<notin> set E" and em: "emit x m list tail = (m', list', tail')"
  shows "emitted m' list' tail' (E @ [x])" "same_links (set (E @ [x])) m m'" "u \<notin> set E \<Longrightarrow> l_next m' u = l_next m u"
proof -
  have "emitted m' list' tail' (E @ [x]) \<and> same_links (set (E @ [x])) m m' \<and> (\<forall>u. u \<notin> set E \<longrightarrow> l_next m' u = l_next m u)"
  proof (cases "E = []")
    case True
    then show ?thesis using e em by (auto simp: emitted_def emit_def same_links_def)
  next
    case False
    have le: "last E \<in> set E" using False by simp
    then have "last E \<noteq> NULL" using e(5) by metis
    with le have t: "tail = last E" "list = hd E" "successively (linked m) E" "tail \<noteq> NULL" "tail \<in> set E" using e False by (simp_all add: emitted_def)
    then have m': "m' = set_prev x tail (set_next tail x m)" "list' = list" "tail' = x" using em by (auto simp: emit_def)
    have "successively (linked m') E"
      by (rule linked_frame[OF t(3)]) (use m' t e False last_notin_butlast[of E] in_set_butlastD list.set_sel(2)[of E] in \<open>auto simp del: last.simps\<close>)
    moreover have "linked m' (last E) x" using m' t by (simp add: linked_def)
    ultimately show ?thesis using m' t False e by (auto simp: emitted_def successively_append_iff same_links_def)
  qed
  then show "emitted m' list' tail' (E @ [x])" "same_links (set (E @ [x])) m m'" "u \<notin> set E \<Longrightarrow> l_next m' u = l_next m u" by blast+
qed

lemma rest_frame: "rest m oh q Q \<Longrightarrow> (\<And>u. u \<in> set Q \<Longrightarrow> l_next m' u = l_next m u) \<Longrightarrow> rest m' oh q Q"
  unfolding rest_def by (auto intro: nexts_frame)

lemma rest_Cons:
  assumes "rest m oh q (x # Q)" "oh \<notin> set Q"
  shows "rest m oh (after m oh q) Q" "q = x"
  using assms by (cases Q; auto simp: rest_def after_def)+

text \<open>Two of the four branches emit from the second run, two from the first.\<close>

abbreviation from_second :: "(nat \<Rightarrow> nat \<Rightarrow> int) \<Rightarrow> nat \<Rightarrow> nat \<Rightarrow> nat \<Rightarrow> nat \<Rightarrow> bool" where
  "from_second cmp p psize q qsize \<equiv> psize = 0 \<or> \<not> (qsize = 0 \<or> q = NULL) \<and> \<not> cmp p q \<le> 0"

lemma merge_run_branches:
  assumes "psize > 0 \<or> (qsize > 0 \<and> q \<noteq> NULL)"
  shows "from_second cmp p psize q qsize \<Longrightarrow> emit q m list tail = (m', list', tail') \<Longrightarrow>
       merge_run cmp oh m p psize q qsize list tail = merge_run cmp oh m' p psize (after m oh q) (qsize - 1) list' tail'"
    "\<not> from_second cmp p psize q qsize \<Longrightarrow> emit p m list tail = (m', list', tail') \<Longrightarrow>
       merge_run cmp oh m p psize q qsize list tail = merge_run cmp oh m' (after m oh p) (psize - 1) q qsize list' tail'"
  using assms by (auto simp: merge_run.simps[of cmp oh m p psize q])

lemma merge_run_induct [case_names step]:
  assumes "\<And>cmp oh m p psize q qsize list tail.
     (\<And>m' list' tail'. psize > 0 \<or> (qsize > 0 \<and> q \<noteq> NULL) \<Longrightarrow> from_second cmp p psize q qsize \<Longrightarrow> emit q m list tail = (m', list', tail') \<Longrightarrow>
        Pr cmp oh m' p psize (after m oh q) (qsize - 1) list' tail') \<Longrightarrow>
     (\<And>m' list' tail'. psize > 0 \<or> (qsize > 0 \<and> q \<noteq> NULL) \<Longrightarrow> \<not> from_second cmp p psize q qsize \<Longrightarrow> emit p m list tail = (m', list', tail') \<Longrightarrow>
        Pr cmp oh m' (after m oh p) (psize - 1) q qsize list' tail') \<Longrightarrow>
     Pr cmp oh m p psize q qsize list tail"
  shows "Pr cmp oh m p psize q qsize list tail"
proof (induction cmp oh m p psize q qsize list tail rule: merge_run.induct)
  case (1 cmp oh m p psize q qsize list tail)
  show ?case by (rule assms; cases "psize = 0"; cases "qsize = 0 \<or> q = NULL"; cases "cmp p q \<le> 0") (use 1 in auto)
qed

lemma merge_run_ok:
  assumes "emitted m list tail E" "distinct (E @ P @ Q)" "NULL \<notin> set (E @ P @ Q)"
    and "nexts m P" "P \<noteq> [] \<longrightarrow> p = hd P" "psize = length P" "rest m oh q Q" "oh \<notin> set Q" "oh \<notin> set (tl P)" "oh \<noteq> NULL"
  shows "\<exists>m' q' list' tail'. merge_run cmp oh m p psize q qsize list tail = (m', q', list', tail')
     \<and> emitted m' list' tail' (E @ merge cmp P (take qsize Q)) \<and> rest m' oh q' (drop qsize Q) \<and> same_links (set (E @ P @ Q)) m m'"
  using assms
proof (induction cmp oh m p psize q qsize list tail arbitrary: E P Q rule: merge_run_induct)
  case (step cmp oh m p psize q qsize list tail)
  note prems = step.prems
  show ?case
  proof (cases "psize > 0 \<or> (qsize > 0 \<and> q \<noteq> NULL)")
    case False
    then have "P = []" "take qsize Q = []" "drop qsize Q = Q" using prems(3,6,7) by (cases Q; auto simp: rest_def)+
    moreover have "merge_run cmp oh m p psize q qsize list tail = (m, q, list, tail)" using False by (subst merge_run.simps) auto
    ultimately show ?thesis using prems(1,7) by (auto simp: same_links_def)
  next
    case loop: True
    let ?fromq = "from_second cmp p psize q qsize"
    show ?thesis
    proof (cases ?fromq)
      case True
      then have q: "qsize > 0" "q \<noteq> NULL" using loop by auto
      then obtain y Q' where Q: "Q = y # Q'" using prems(7) by (cases Q) (auto simp: rest_def)
      obtain m1 l1 t1 where em: "emit q m list tail = (m1, l1, t1)" by (metis prod_cases3)
      have r: "rest m oh (after m oh q) Q'" "q = y" using rest_Cons[of m oh q y Q'] prems(7,8) Q by auto
      have E: "emitted m1 l1 t1 (E @ [y])" "same_links (set (E @ [y])) m m1" "\<And>u. u \<notin> set E \<Longrightarrow> l_next m1 u = l_next m u"
        using emit_ok[OF prems(1) _ _ _ _ em] prems(2,3) Q r(2) by auto
      have nP: "nexts m1 P" by (rule nexts_frame[OF prems(4)]) (use E(3) prems(2) in_set_butlastD in fastforce)
      have nQ: "rest m1 oh (after m oh q) Q'" by (rule rest_frame[OF r(1)]) (use E(3) prems(2) Q in auto)
      have "\<exists>m' q' list' tail'. merge_run cmp oh m1 p psize (after m oh q) (qsize - 1) l1 t1 = (m', q', list', tail')
         \<and> emitted m' list' tail' ((E @ [y]) @ merge cmp P (take (qsize - 1) Q')) \<and> rest m' oh q' (drop (qsize - 1) Q') \<and> same_links (set ((E @ [y]) @ P @ Q')) m1 m'"
        by (rule step.IH(1)[OF loop True em E(1) _ _ nP prems(5,6) nQ _ prems(9,10)]) (use prems(2,3,8) Q in auto)
      moreover have "merge cmp P (take qsize Q) = y # merge cmp P (take (qsize - 1) Q')"
      proof (cases P)
        case Nil
        then show ?thesis using Q q by (cases qsize) auto
      next
        case (Cons x P')
        then have "\<not> cmp x y \<le> 0" using True prems(5,6) r(2) by auto
        then show ?thesis using Cons Q q by (cases qsize) auto
      qed
      moreover have "drop qsize Q = drop (qsize - 1) Q'" using Q q by (cases qsize) auto
      moreover have "merge_run cmp oh m p psize q qsize list tail = merge_run cmp oh m1 p psize (after m oh q) (qsize - 1) l1 t1"
        using True em by (rule merge_run_branches(1)[OF loop])
      moreover have "same_links (set (E @ P @ Q)) m m'" if "same_links (set ((E @ [y]) @ P @ Q')) m1 m'" for m'
        using that E(2) Q by (auto simp: same_links_def)
      ultimately show ?thesis by auto
    next
      case False
      then obtain x P' where P: "P = x # P'" using prems(6) by (cases P) auto
      have px: "p = x" using prems(5) P by simp
      obtain m1 l1 t1 where em: "emit p m list tail = (m1, l1, t1)" by (metis prod_cases3)
      have E: "emitted m1 l1 t1 (E @ [x])" "same_links (set (E @ [x])) m m1" "\<And>u. u \<notin> set E \<Longrightarrow> l_next m1 u = l_next m u"
        using emit_ok[OF prems(1) _ _ _ _ em] prems(2,3) P px by auto
      have "nexts m P'" using prems(4) P by (cases P') auto
      then have nP: "nexts m1 P'"
      proof (rule nexts_frame)
        fix u assume "u \<in> set (butlast P')"
        then have "u \<in> set P'" by (rule in_set_butlastD)
        then show "l_next m1 u = l_next m u" using E(3)[of u] prems(2) P by auto
      qed
      have hP: "P' \<noteq> [] \<longrightarrow> after m oh p = hd P'" using prems(4,9) P px by (cases P') (auto simp: after_def)
      have lP: "psize - 1 = length P'" using prems(6) P by simp
      have oP: "oh \<notin> set (tl P')" using prems(9) P by (cases P') auto
      have nQ: "rest m1 oh q Q" by (rule rest_frame[OF prems(7)]) (use E(3) prems(2) in auto)
      have "\<exists>m' q' list' tail'. merge_run cmp oh m1 (after m oh p) (psize - 1) q qsize l1 t1 = (m', q', list', tail')
         \<and> emitted m' list' tail' ((E @ [x]) @ merge cmp P' (take qsize Q)) \<and> rest m' oh q' (drop qsize Q) \<and> same_links (set ((E @ [x]) @ P' @ Q)) m1 m'"
        by (rule step.IH(2)[OF loop False em E(1) _ _ nP hP lP nQ prems(8) oP prems(10)]) (use prems(2,3) P in auto)
      moreover have "merge cmp P (take qsize Q) = x # merge cmp P' (take qsize Q)"
      proof (cases "take qsize Q")
        case (Cons y Q1)
        then have "qsize \<noteq> 0" "q = y" "q \<noteq> NULL" using prems(3,7) by (cases Q; cases qsize; auto simp: rest_def)+
        then have "cmp x y \<le> 0" using False px by auto
        then show ?thesis using P Cons by simp
      next
        case Nil
        then show ?thesis by (simp only: P merge_nil)
      qed
      moreover have "merge_run cmp oh m p psize q qsize list tail = merge_run cmp oh m1 (after m oh p) (psize - 1) q qsize l1 t1"
        using False em by (rule merge_run_branches(2)[OF loop])
      moreover have "same_links (set (E @ P @ Q)) m m'" if "same_links (set ((E @ [x]) @ P' @ Q)) m1 m'" for m'
        using that E(2) P by (auto simp: same_links_def)
      ultimately show ?thesis by auto
    qed
  qed
qed


lemma advance_ok:
  assumes "rest m oh q Q" "Q \<noteq> []" "oh \<notin> set (tl Q)" "NULL \<notin> set Q"
  shows "advance m oh n k q = (k + min n (length Q), if n < length Q then Q ! n else NULL) \<or> n = 0 \<and> advance m oh n k q = (k, q)"
  using assms
proof (induction n arbitrary: k q Q)
  case (Suc n)
  then obtain x Q' where Q: "Q = x # Q'" by (cases Q) auto
  have r: "rest m oh (after m oh q) Q'" "q = x" using rest_Cons[of m oh q x Q'] Suc.prems(1,3) Q by auto
  show ?case
  proof (cases Q')
    case Nil
    then have "after m oh q = NULL" using r(1) by (simp add: rest_def)
    then show ?thesis using Q Nil by (simp add: Let_def after_def)
  next
    case (Cons y Q'')
    then have "after m oh q = y" "y \<noteq> NULL" using r(1) Suc.prems(4) Q by (auto simp: rest_def)
    then have "advance m oh (Suc n) k q = advance m oh n (k + 1) y" by (auto simp: Let_def after_def split: if_splits)
    moreover have "advance m oh n (k + 1) y = (k + 1 + min n (length Q'), if n < length Q' then Q' ! n else NULL) \<or> n = 0 \<and> advance m oh n (k + 1) y = (k + 1, y)"
      using Suc.IH[of y Q' "k + 1"] r(1) \<open>after m oh q = y\<close> Suc.prems(3,4) Q Cons by simp
    ultimately show ?thesis using Q Cons by auto
  qed
qed simp

lemma advance_run:
  assumes "rest m oh q Q" "Q \<noteq> []" "oh \<notin> set (tl Q)" "NULL \<notin> set Q" "0 < n"
  shows "advance m oh n 0 q = (min n (length Q), if n < length Q then Q ! n else NULL)"
  using advance_ok[OF assms(1-4), of n 0] assms(5) by simp

lemma nexts_append: "nexts m (xs @ ys) \<Longrightarrow> nexts m xs \<and> nexts m ys"
  by (simp add: nexts_def successively_append_iff)

lemma sort_pass_ok:
  assumes "emitted m list tail E" "rest m oh p R" "distinct (E @ R)" "NULL \<notin> set (E @ R)" "R \<noteq> [] \<longrightarrow> oh \<notin> set (tl R)" "oh \<noteq> NULL" and n: "0 < n"
  shows "\<exists>m' list' tail'. sort_pass cmp oh n m p list tail k = Some (m', list', tail', k + nmerges n R)
     \<and> emitted m' list' tail' (E @ merge_pass cmp n R) \<and> same_links (set (E @ R)) m m'"
  using assms(1-6)
proof (induction R arbitrary: m p list tail E k rule: length_induct)
  case (1 R)
  note prems = "1.prems"
  show ?case
  proof (cases "R = []")
    case True
    then show ?thesis using prems(1,2) by (simp add: sort_pass.simps rest_def merge_pass.simps nmerges.simps same_links_def)
  next
    case False
    let ?P = "take n R" and ?Q = "drop n R"
    obtain m1 q1 l1 t1 where m1: "merge_run cmp oh m p (min n (length R)) (if n < length R then R ! n else NULL) n list tail = (m1, q1, l1, t1)" by (metis prod_cases4)
    have nR: "p = hd R" "nexts m (R @ [oh])" using prems(2) False by (auto simp: rest_def)
    have nP: "nexts m ?P" using nexts_append[of m R "[oh]"] nexts_append[of m ?P ?Q] nR(2) by simp
    have nQ: "nexts m (?Q @ [oh])" using nexts_append[of m ?P "?Q @ [oh]"] nR(2) by (metis append.assoc append_take_drop_id)
    have rQ: "rest m oh (if n < length R then R ! n else NULL) ?Q" using nQ by (simp add: rest_def hd_drop_conv_nth)
    have sub: "set ?P \<subseteq> set R" "set ?Q \<subseteq> set R" by (simp_all add: set_take_subset set_drop_subset)
    have oQ: "oh \<notin> set ?Q" using prems(5) False n set_drop_subset[of "n - 1" "tl R"] by (cases R; cases n; auto)
    have oP: "oh \<notin> set (tl ?P)" using prems(5) False n set_take_subset[of "n - 1" "tl R"] by (cases R; cases n; auto)
    have d: "distinct (E @ ?P @ ?Q)" "NULL \<notin> set (E @ ?P @ ?Q)" using prems(3,4) by simp_all
    have hP: "?P \<noteq> [] \<longrightarrow> p = hd ?P" using nR(1) n by (cases R; cases n; simp)
    from merge_run_ok[where cmp = cmp and qsize = n, OF prems(1) d nP hP _ rQ oQ oP prems(6), of "min n (length R)"] m1
    have M: "emitted m1 l1 t1 (E @ merge cmp ?P (take n ?Q))" "rest m1 oh q1 (drop n ?Q)" "same_links (set (E @ R)) m m1" by (simp_all add: min.commute)
    have run: "sort_pass cmp oh n m p list tail k = sort_pass cmp oh n m1 q1 l1 t1 (k + 1)"
    proof -
      have "p \<noteq> NULL" using nR(1) prems(4) False by (metis UnI2 hd_in_set set_append)
      moreover have "advance m oh n 0 p = (min n (length R), if n < length R then R ! n else NULL)"
        by (rule advance_run[OF prems(2) False _ _ n]) (use prems(4,5) False in auto)
      ultimately show ?thesis using m1 by (simp add: sort_pass.simps[of cmp oh n m p])
    qed
    let ?E = "E @ merge cmp ?P (take n ?Q)" and ?R = "drop n ?Q"
    have split: "mset R = mset ?P + mset (take n ?Q) + mset ?R" by (metis append_take_drop_id mset_append union_assoc)
    then have sets: "set (?E @ ?R) = set (E @ R)" by (metis (no_types, lifting) Un_assoc mset_merge set_append set_mset_mset set_mset_union)
    have "mset (?E @ ?R) = mset (E @ R)" using split by simp
    then have "distinct (?E @ ?R)" using prems(3) mset_eq_imp_distinct_iff by blast
    moreover have "NULL \<notin> set (?E @ ?R)" using prems(4) sets by simp
    moreover have "?R \<noteq> [] \<longrightarrow> oh \<notin> set (tl ?R)" using oQ by (metis in_set_dropD list.set_sel(2))
    moreover have "length ?R < length R" using False n by simp
    ultimately obtain m' list' tail' where IH: "sort_pass cmp oh n m1 q1 l1 t1 (k + 1) = Some (m', list', tail', k + 1 + nmerges n ?R)"
      "emitted m' list' tail' (?E @ merge_pass cmp n ?R)" "same_links (set (?E @ ?R)) m1 m'"
      using "1.IH"[rule_format, of ?R m1 l1 t1 ?E q1 "k + 1"] M(1,2) prems(6) by blast
    have "k + 1 + nmerges n ?R = k + nmerges n R" using False n by (simp add: nmerges.simps[of n R])
    moreover have "?E @ merge_pass cmp n ?R = E @ merge_pass cmp n R" using False n by (simp add: merge_pass.simps[of cmp n R])
    moreover have "same_links (set (E @ R)) m m'" using M(3) IH(3) unfolding sets by (auto simp: same_links_def)
    ultimately show ?thesis using run IH(1,2) by auto
  qed
qed

text \<open>A ring of nodes without a head.\<close>

definition ring :: "list_mem \<Rightarrow> nat list \<Rightarrow> bool" where
  "ring m xs \<longleftrightarrow> xs \<noteq> [] \<and> distinct xs \<and> NULL \<notin> set xs \<and> successively (linked m) xs \<and> linked m (last xs) (hd xs)"

lemma ring_rest: "ring m xs \<Longrightarrow> rest m (hd xs) (hd xs) xs"
proof -
  assume r: "ring m xs"
  then have "successively (linked m) (xs @ [hd xs])" by (simp add: ring_def successively_append_iff)
  then have "nexts m (xs @ [hd xs])" unfolding nexts_def by (rule successively_mono) (simp add: linked_def)
  with r show ?thesis by (simp add: rest_def ring_def)
qed

lemma close_ring:
  assumes "emitted m list tail xs" "xs \<noteq> []" "distinct xs" "NULL \<notin> set xs"
  shows "ring (set_prev list tail (set_next tail list m)) xs"
proof -
  let ?m = "set_prev list tail (set_next tail list m)"
  have e: "list = hd xs" "tail = last xs" "successively (linked m) xs" using assms(1,2) by (auto simp: emitted_def)
  have "successively (linked ?m) xs"
  proof (rule linked_frame[OF e(3)])
    show "l_next ?m u = l_next m u" if "u \<in> set (butlast xs)" for u using that last_notin_butlast[OF assms(3,2)] e(2) by auto
    show "l_prev ?m v = l_prev m v" if "v \<in> set (tl xs)" for v using that assms(2,3) e(1) by (cases xs) auto
  qed
  then show ?thesis using assms e by (simp add: ring_def linked_def)
qed

function sort_iter :: "('a \<Rightarrow> 'a \<Rightarrow> int) \<Rightarrow> nat \<Rightarrow> 'a list \<Rightarrow> 'a list" where
  "sort_iter cmp n xs = (if n = 0 then xs else if length xs \<le> 2 * n then merge_pass cmp n xs else sort_iter cmp (2 * n) (merge_pass cmp n xs))"
  by pat_completeness auto
termination
  by (relation "measure (\<lambda>(cmp, n, xs). length xs - n)") (auto simp: length_merge_pass)

declare sort_iter.simps [simp del]

lemma merge_pass_facts:
  assumes "0 < n"
  shows "set (merge_pass cmp n xs) = set xs" "distinct (merge_pass cmp n xs) = distinct xs" "merge_pass cmp n xs = [] \<longleftrightarrow> xs = []"
proof -
  note m = mset_merge_pass[OF assms, of cmp xs]
  show "set (merge_pass cmp n xs) = set xs" by (metis m set_mset_mset)
  show "distinct (merge_pass cmp n xs) = distinct xs" by (metis m mset_eq_imp_distinct_iff)
  show "merge_pass cmp n xs = [] \<longleftrightarrow> xs = []" by (metis m mset_zero_iff)
qed

lemma sort_loop_ok:
  assumes "ring m xs" "0 < n"
  shows "\<exists>m'. sort_loop cmp n m (hd xs) = Some (m', hd (sort_iter cmp n xs)) \<and> ring m' (sort_iter cmp n xs) \<and> same_links (set xs) m m' \<and> mset (sort_iter cmp n xs) = mset xs"
  using assms
proof (induction cmp n xs arbitrary: m rule: sort_iter.induct)
  case (1 cmp n xs)
  let ?ys = "merge_pass cmp n xs"
  have x: "xs \<noteq> []" "distinct xs" "NULL \<notin> set xs" using "1.prems"(1) by (auto simp: ring_def)
  have E: "emitted m NULL NULL []" by (simp add: emitted_def)
  have h: "xs \<noteq> [] \<longrightarrow> hd xs \<notin> set (tl xs)" "hd xs \<noteq> NULL" using x by (cases xs; auto)+
  from sort_pass_ok[OF E ring_rest[OF "1.prems"(1)] _ _ h "1.prems"(2), of cmp 0] x obtain m1 l1 t1 where
    p: "sort_pass cmp (hd xs) n m (hd xs) NULL NULL 0 = Some (m1, l1, t1, nmerges n xs)" "emitted m1 l1 t1 ?ys" "same_links (set xs) m m1" by auto
  let ?m = "set_prev l1 t1 (set_next t1 l1 m1)"
  note F = merge_pass_facts[OF "1.prems"(2), of cmp xs]
  have y: "?ys \<noteq> []" "distinct ?ys" "NULL \<notin> set ?ys" using x F by auto
  have r: "ring ?m ?ys" by (rule close_ring[OF p(2) y])
  have l: "l1 = hd ?ys" "t1 = last ?ys" using p(2) y(1) by (auto simp: emitted_def)
  have "l1 \<in> set xs" "t1 \<in> set xs" using l y(1) F(1) hd_in_set last_in_set by metis+
  then have s: "same_links (set xs) m ?m" using p(3) by (auto simp: same_links_def)
  show ?case
  proof (cases "length xs \<le> 2 * n")
    case True
    then have "sort_loop cmp n m (hd xs) = Some (?m, hd ?ys)" "sort_iter cmp n xs = ?ys"
      using p(1) nmerges_le_1[OF "1.prems"(2), of xs] l(1) "1.prems"(2) by (simp_all add: sort_loop.simps[of cmp n m] sort_iter.simps[of cmp n xs] Let_def)
    with r s mset_merge_pass[OF "1.prems"(2)] show ?thesis by auto
  next
    case False
    have "\<exists>m'. sort_loop cmp (2 * n) ?m (hd ?ys) = Some (m', hd (sort_iter cmp (2 * n) ?ys)) \<and> ring m' (sort_iter cmp (2 * n) ?ys) \<and> same_links (set ?ys) ?m m' \<and> mset (sort_iter cmp (2 * n) ?ys) = mset ?ys"
      using "1.IH"[OF _ False r] "1.prems"(2) by simp
    then obtain m' where m': "sort_loop cmp (2 * n) ?m (hd ?ys) = Some (m', hd (sort_iter cmp (2 * n) ?ys))" "ring m' (sort_iter cmp (2 * n) ?ys)" "same_links (set ?ys) ?m m'"
      "mset (sort_iter cmp (2 * n) ?ys) = mset ?ys" by blast
    have "sort_iter cmp n xs = sort_iter cmp (2 * n) ?ys" using False "1.prems"(2) by (subst sort_iter.simps) simp
    moreover have "sort_loop cmp n m (hd xs) = sort_loop cmp (2 * n) ?m (hd ?ys)"
      using p(1) nmerges_le_1[OF "1.prems"(2), of xs] l(1) False by (simp add: sort_loop.simps[of cmp n m] Let_def)
    moreover have "same_links (set xs) m m'" using s m'(3) F(1) by (auto simp: same_links_def)
    ultimately show ?thesis using m' mset_merge_pass[OF "1.prems"(2)] by auto
  qed
qed


section \<open>The sequence is sorted\<close>

function runs_sorted :: "('a \<Rightarrow> 'a \<Rightarrow> bool) \<Rightarrow> nat \<Rightarrow> 'a list \<Rightarrow> bool" where
  "runs_sorted R n xs = (if xs = [] \<or> n = 0 then True else sorted_wrt R (take n xs) \<and> runs_sorted R n (drop n xs))"
  by pat_completeness auto
termination
  by (relation "measure (\<lambda>(R, n, xs). length xs)") auto

declare runs_sorted.simps [simp del]

lemma runs_sorted_nil [simp]: "runs_sorted R n []"
  by (simp add: runs_sorted.simps)

lemma runs_sorted_step: "runs_sorted R n xs \<Longrightarrow> 0 < n \<Longrightarrow> sorted_wrt R (take n xs) \<and> runs_sorted R n (drop n xs)"
  by (cases "xs = []") (auto simp: runs_sorted.simps[of R n xs])

lemma runs_sorted_1: "runs_sorted R 1 xs"
proof (induction xs)
  case (Cons x xs)
  then show ?case by (subst runs_sorted.simps) simp
qed simp

lemma runs_sorted_whole: "runs_sorted R n xs \<Longrightarrow> length xs \<le> n \<Longrightarrow> sorted_wrt R xs"
  by (cases "n = 0") (auto dest: runs_sorted_step)

text \<open>
  What the callers of the sort rely on: the comparison function sides with a transitive relation, whichever way it answers. It may answer both ways on elements of equal rank, so that
  a comparison that returns the truth value of \<open>\<le>\<close> or of \<open><\<close> will do.
\<close>

locale sort_cmp =
  fixes cmp :: "'a \<Rightarrow> 'a \<Rightarrow> int" and R :: "'a \<Rightarrow> 'a \<Rightarrow> bool"
  assumes le: "cmp x y \<le> 0 \<Longrightarrow> R x y"
    and gt: "\<not> cmp x y \<le> 0 \<Longrightarrow> R y x"
    and tr: "R x y \<Longrightarrow> R y z \<Longrightarrow> R x z"
begin

lemma merge_sorted: "c = cmp \<Longrightarrow> sorted_wrt R xs \<Longrightarrow> sorted_wrt R ys \<Longrightarrow> sorted_wrt R (merge c xs ys)"
proof (induction c xs ys rule: merge.induct)
  case (3 c x xs y ys)
  show ?case
  proof (cases "cmp x y \<le> 0")
    case True
    have "R x z" if "z \<in> set ys" for z using tr[OF le[OF True]] that "3.prems"(3) by simp
    then show ?thesis using "3.IH"(1) "3.prems" True le[OF True] by auto
  next
    case False
    have "R y z" if "z \<in> set xs" for z using tr[OF gt[OF False]] that "3.prems"(2) by simp
    then show ?thesis using "3.IH"(2) "3.prems" False gt[OF False] by auto
  qed
qed auto

lemma merge_pass_sorted: "c = cmp \<Longrightarrow> 0 < n \<Longrightarrow> runs_sorted R n xs \<Longrightarrow> runs_sorted R (2 * n) (merge_pass c n xs)"
proof (induction c n xs rule: merge_pass.induct)
  case (1 c n xs)
  show ?case
  proof (cases "xs = []")
    case False
    let ?P = "take n xs" and ?Q = "take n (drop n xs)" and ?R = "drop n (drop n xs)"
    have s: "sorted_wrt R ?P" "sorted_wrt R ?Q" "runs_sorted R n ?R"
      using runs_sorted_step[OF "1.prems"(3,2)] runs_sorted_step[of R n "drop n xs"] "1.prems"(2) by auto
    have IH: "runs_sorted R (2 * n) (merge_pass c n ?R)" using "1.IH" "1.prems"(1,2) s(3) False by simp
    have mp: "merge_pass c n xs = merge c ?P ?Q @ merge_pass c n ?R" using False "1.prems"(2) by (simp add: merge_pass.simps[of c n xs])
    have m: "sorted_wrt R (merge c ?P ?Q)" by (rule merge_sorted[OF "1.prems"(1) s(1,2)])
    show ?thesis
    proof (cases "length xs \<le> 2 * n")
      case True
      then have "merge_pass c n xs = merge c ?P ?Q" using mp by (simp add: merge_pass.simps[of c n "[]"])
      then show ?thesis using m True by (subst runs_sorted.simps) (auto simp: runs_sorted.simps)
    next
      case long: False
      then have "length (merge c ?P ?Q) = 2 * n" by simp
      then show ?thesis using mp m IH by (subst runs_sorted.simps) simp
    qed
  qed (simp add: merge_pass.simps)
qed

lemma sort_iter_sorted: "c = cmp \<Longrightarrow> 0 < n \<Longrightarrow> runs_sorted R n xs \<Longrightarrow> sorted_wrt R (sort_iter c n xs)"
proof (induction c n xs rule: sort_iter.induct)
  case (1 c n xs)
  note P = merge_pass_sorted[OF "1.prems"]
  show ?case
  proof (cases "length xs \<le> 2 * n")
    case True
    then show ?thesis
      using runs_sorted_whole[OF P] length_merge_pass[OF "1.prems"(2), of c xs] "1.prems"(2) by (simp add: sort_iter.simps[of c n xs])
  next
    case False
    have "sort_iter c n xs = sort_iter c (2 * n) (merge_pass c n xs)" using False "1.prems"(2) by (subst sort_iter.simps) simp
    with "1.IH"[OF _ False "1.prems"(1)] P "1.prems"(2) show ?thesis by simp
  qed
qed

lemma sorts: "sorted_wrt R (sort_iter cmp 1 xs)"
  by (rule sort_iter_sorted[OF refl _ runs_sorted_1]) simp

end

lemma mset_sort_iter [simp]: "mset (sort_iter cmp n xs) = mset xs"
proof (induction cmp n xs rule: sort_iter.induct)
  case (1 cmp n xs)
  then show ?case using mset_merge_pass[of n cmp xs] by (simp add: sort_iter.simps[of cmp n xs])
qed

lemma set_sort_iter [simp]: "set (sort_iter cmp n xs) = set xs"
  by (metis mset_sort_iter set_mset_mset)

lemma length_sort_iter [simp]: "length (sort_iter cmp n xs) = length xs"
  by (metis mset_sort_iter size_mset)

lemma distinct_map_sort_iter [simp]: "distinct (map f (sort_iter cmp n xs)) = distinct (map f xs)"
  by (metis mset_eq_imp_distinct_iff mset_map mset_sort_iter)

subsection \<open>Stability\<close>

definition cmp_le :: "('a \<Rightarrow> 'a \<Rightarrow> int) \<Rightarrow> 'a \<Rightarrow> 'a \<Rightarrow> bool" where
  "cmp_le cmp x y \<longleftrightarrow> cmp x y \<le> 0"

text \<open>A comparison function that is a total preorder.\<close>

definition order_cmp :: "('a \<Rightarrow> 'a \<Rightarrow> int) \<Rightarrow> bool" where
  "order_cmp cmp \<longleftrightarrow> (\<forall>x y. cmp x y \<le> 0 \<or> cmp y x \<le> 0) \<and> (\<forall>x y z. cmp x y \<le> 0 \<longrightarrow> cmp y z \<le> 0 \<longrightarrow> cmp x z \<le> 0)"

definition same_rank :: "('a \<Rightarrow> 'a \<Rightarrow> int) \<Rightarrow> 'a \<Rightarrow> 'a \<Rightarrow> bool" where
  "same_rank cmp x y \<longleftrightarrow> cmp x y \<le> 0 \<and> cmp y x \<le> 0"

lemma order_cmpD:
  assumes "order_cmp cmp"
  shows "\<not> cmp x y \<le> 0 \<Longrightarrow> cmp y x \<le> 0" "cmp x y \<le> 0 \<Longrightarrow> cmp y z \<le> 0 \<Longrightarrow> cmp x z \<le> 0"
  using assms unfolding order_cmp_def by blast+

lemma order_sort_cmp: "order_cmp cmp \<Longrightarrow> sort_cmp cmp (cmp_le cmp)"
  by unfold_locales (use order_cmpD[of cmp] in \<open>unfold cmp_le_def, blast+\<close>)

lemma merge_stable:
  "order_cmp cmp \<Longrightarrow> sorted_wrt (cmp_le cmp) xs \<Longrightarrow> filter (same_rank cmp a) (merge cmp xs ys) = filter (same_rank cmp a) xs @ filter (same_rank cmp a) ys"
proof (induction cmp xs ys rule: merge.induct)
  case (3 cmp x xs y ys)
  note tr = order_cmpD(2)[OF "3.prems"(1)]
  show ?case
  proof (cases "cmp x y \<le> 0")
    case True
    then show ?thesis using 3 by auto
  next
    case False
    have "\<not> same_rank cmp a z" if "same_rank cmp a y" "z \<in> set (x # xs)" for z
    proof
      assume "same_rank cmp a z"
      then have "cmp z y \<le> 0" using that(1) tr[of z a y] by (simp add: same_rank_def)
      moreover have "z = x \<or> cmp x z \<le> 0" using that(2) "3.prems"(2) by (auto simp: cmp_le_def)
      ultimately show False using False tr[of x z y] by auto
    qed
    then have "filter (same_rank cmp a) (x # xs) = []" if "same_rank cmp a y" using that by (simp add: filter_empty_conv)
    then show ?thesis using "3.IH"(2)[OF False] "3.prems" False by (cases "same_rank cmp a y") auto
  qed
qed auto

lemma merge_pass_stable:
  "order_cmp cmp \<Longrightarrow> 0 < n \<Longrightarrow> runs_sorted (cmp_le cmp) n xs \<Longrightarrow> filter (same_rank cmp a) (merge_pass cmp n xs) = filter (same_rank cmp a) xs"
proof (induction cmp n xs rule: merge_pass.induct)
  case (1 cmp n xs)
  show ?case
  proof (cases "xs = []")
    case False
    let ?P = "take n xs" and ?Q = "take n (drop n xs)" and ?R = "drop n (drop n xs)"
    have s: "sorted_wrt (cmp_le cmp) ?P" "runs_sorted (cmp_le cmp) n ?R"
      using runs_sorted_step[OF "1.prems"(3,2)] runs_sorted_step[of "cmp_le cmp" n "drop n xs"] "1.prems"(2) by auto
    have IH: "filter (same_rank cmp a) (merge_pass cmp n ?R) = filter (same_rank cmp a) ?R" using "1.IH" "1.prems"(1,2) s(2) False by simp
    have mp: "merge_pass cmp n xs = merge cmp ?P ?Q @ merge_pass cmp n ?R" using False "1.prems"(2) by (simp add: merge_pass.simps[of cmp n xs])
    have "xs = ?P @ ?Q @ ?R" by (metis append_take_drop_id)
    then have "filter (same_rank cmp a) xs = filter (same_rank cmp a) ?P @ filter (same_rank cmp a) ?Q @ filter (same_rank cmp a) ?R" by (metis filter_append)
    then show ?thesis using mp merge_stable[OF "1.prems"(1) s(1), of a ?Q] IH by simp
  qed (simp add: merge_pass.simps)
qed

lemma sort_iter_stable:
  "order_cmp cmp \<Longrightarrow> 0 < n \<Longrightarrow> runs_sorted (cmp_le cmp) n xs \<Longrightarrow> filter (same_rank cmp a) (sort_iter cmp n xs) = filter (same_rank cmp a) xs"
proof (induction cmp n xs rule: sort_iter.induct)
  case (1 cmp n xs)
  note P = merge_pass_stable[OF "1.prems", of a]
  show ?case
  proof (cases "length xs \<le> 2 * n")
    case True
    then show ?thesis using P "1.prems"(2) by (simp add: sort_iter.simps[of cmp n xs])
  next
    case False
    have "sort_iter cmp n xs = sort_iter cmp (2 * n) (merge_pass cmp n xs)" using False "1.prems"(2) by (subst sort_iter.simps) simp
    with "1.IH"[OF _ False "1.prems"(1)] P sort_cmp.merge_pass_sorted[OF order_sort_cmp[OF "1.prems"(1)] refl "1.prems"(2,3)] "1.prems"(2) show ?thesis by simp
  qed
qed

section \<open>The head\<close>

lemma list_remove_head:
  assumes "dll m h xs" "xs \<noteq> []" "NULL \<notin> set xs"
  shows "ring (list_remove h m) xs" "same_links (set (h # xs)) m (list_remove h m)"
proof -
  let ?m = "list_remove h m"
  have n: "l_next m h = hd xs" "l_prev m h = last xs" using dll_next[OF assms(1)] dll_prev[OF assms(1)] assms(2) by simp_all
  have d: "distinct (h # xs)" and s: "successively (linked m) ([h] @ xs @ [h])" using assms(1) by (simp_all add: dll_def)
  have hl: "hd xs \<in> set xs" "last xs \<in> set xs" using assms(2) by auto
  then have nh: "hd xs \<noteq> h" "last xs \<noteq> h" using d by auto
  have e: "l_next ?m = (l_next m)(last xs := hd xs, h := h)" "l_prev ?m = (l_prev m)(hd xs := last xs, h := h)"
    using n nh by (simp_all add: list_remove_def Let_def)
  have "successively (linked ?m) xs"
  proof (rule linked_frame[where m = m])
    show "successively (linked m) xs" using s by (simp only: successively_append_iff)
    show "l_next ?m u = l_next m u" if "u \<in> set (butlast xs)" for u
      using that in_set_butlastD[OF that] last_notin_butlast[of xs] d assms(2) by (auto simp: e)
    show "l_prev ?m v = l_prev m v" if "v \<in> set (tl xs)" for v
      using that d assms(2) by (cases xs) (auto simp: e)
  qed
  moreover have "linked ?m (last xs) (hd xs)" using nh by (simp add: linked_def e)
  ultimately show "ring ?m xs" using assms d by (simp add: ring_def)
  show "same_links (set (h # xs)) m ?m" using hl by (auto simp: same_links_def e)
qed

lemma insert_head:
  assumes r: "ring m xs" and h: "h \<notin> set xs"
  shows "dll (set_prev (hd xs) h (set_next (last xs) h (set_prev h (last xs) (set_next h (hd xs) m)))) h xs"
proof -
  let ?m = "set_prev (hd xs) h (set_next (last xs) h (set_prev h (last xs) (set_next h (hd xs) m)))"
  have x: "xs \<noteq> []" "distinct xs" "successively (linked m) xs" using r by (auto simp: ring_def)
  have hl: "hd xs \<noteq> h" "last xs \<noteq> h" using h x(1) by (metis hd_in_set, metis last_in_set)
  have "successively (linked ?m) xs"
  proof (rule linked_frame[OF x(3)])
    show "l_next ?m u = l_next m u" if "u \<in> set (butlast xs)" for u
      using that in_set_butlastD[OF that] last_notin_butlast[OF x(2,1)] h by auto
    show "l_prev ?m v = l_prev m v" if "v \<in> set (tl xs)" for v using that x(1,2) h by (cases xs) auto
  qed
  moreover have "linked ?m h (hd xs)" "linked ?m (last xs) h" using hl by (auto simp: linked_def)
  ultimately have "successively (linked ?m) ([h] @ xs @ [h])" using x(1) by (simp add: successively_append_iff successively_Cons)
  then show ?thesis using x(2) h by (simp add: dll_def)
qed

lemma list_sort_iter:
  assumes "dll m h xs" "NULL \<notin> set xs"
  shows "\<exists>m'. list_sort cmp h m = Some m' \<and> dll m' h (sort_iter cmp 1 xs)
     \<and> (\<forall>u. u \<notin> set (h # xs) \<longrightarrow> l_next m' u = l_next m u \<and> l_prev m' u = l_prev m u)"
proof (cases "xs = []")
  case True
  then show ?thesis using assms(1) dll_empty[OF assms(1)] by (intro exI[of _ m]) (simp add: list_sort_def sort_iter.simps[of cmp] merge_pass.simps)
next
  case False
  let ?ys = "sort_iter cmp 1 xs"
  note R = list_remove_head[OF assms(1) False assms(2)]
  from sort_loop_ok[OF R(1), of 1 cmp] obtain m1 where m1: "sort_loop cmp 1 (list_remove h m) (hd xs) = Some (m1, hd ?ys)" "ring m1 ?ys"
    "same_links (set xs) (list_remove h m) m1" "mset ?ys = mset xs" by auto
  have set: "set ?ys = set xs" using m1(4) by (metis set_mset_mset)
  have h: "h \<notin> set ?ys" using assms(1) set by (simp add: dll_def)
  have y: "?ys \<noteq> []" using m1(2) by (simp add: ring_def)
  have hl: "hd ?ys \<in> set xs" "last ?ys \<in> set xs" using hd_in_set[OF y] last_in_set[OF y] unfolding set by blast+
  have nh: "hd ?ys \<noteq> h" using hl(1) assms(1) by (auto simp: dll_def)
  have lp: "l_prev m1 (hd ?ys) = last ?ys" using m1(2) by (simp add: ring_def linked_def)
  define m2 where "m2 = set_prev (hd ?ys) h (set_next (last ?ys) h (set_prev h (last ?ys) (set_next h (hd ?ys) m1)))"
  have "list_sort cmp h m = Some m2"
    using m1(1) dll_empty[OF assms(1)] False dll_next[OF assms(1)] nh lp by (simp add: list_sort_def m2_def Let_def)
  moreover have "dll m2 h ?ys" unfolding m2_def by (rule insert_head[OF m1(2) h])
  moreover have "\<forall>u. u \<notin> set (h # xs) \<longrightarrow> l_next m2 u = l_next m u \<and> l_prev m2 u = l_prev m u"
    using R(2) m1(3) hl by (auto simp: same_links_def m2_def)
  ultimately show ?thesis by blast
qed


text \<open>Sorting the nodes by what they hold sorts what they hold.\<close>

lemma map_merge: "c = (\<lambda>a b. cmp (f a) (f b)) \<Longrightarrow> map f (merge c xs ys) = merge cmp (map f xs) (map f ys)"
  by (induction c xs ys rule: merge.induct) auto

lemma map_merge_pass: "c = (\<lambda>a b. cmp (f a) (f b)) \<Longrightarrow> map f (merge_pass c n xs) = merge_pass cmp n (map f xs)"
proof (induction c n xs rule: merge_pass.induct)
  case (1 c n xs)
  note IH = "1.IH"[OF _ "1.prems"] and M = map_merge[where cmp = cmp and f = f, OF "1.prems"]
  show ?case using IH by (simp add: merge_pass.simps[of c n xs] merge_pass.simps[of cmp n "map f xs"] M take_map drop_map)
qed

lemma map_sort_iter: "c = (\<lambda>a b. cmp (f a) (f b)) \<Longrightarrow> map f (sort_iter c n xs) = sort_iter cmp n (map f xs)"
proof (induction c n xs rule: sort_iter.induct)
  case (1 c n xs)
  show ?case by (simp add: "1.IH"[OF _ _ "1.prems"] sort_iter.simps[of c n xs] sort_iter.simps[of cmp n "map f xs"] map_merge_pass[where cmp = cmp and f = f, OF "1.prems"])
qed

lemma list_sort_values:
  assumes "dll m h xs" "NULL \<notin> set xs"
  shows "\<exists>m' ys. list_sort (\<lambda>a b. cmp (f a) (f b)) h m = Some m' \<and> dll m' h ys \<and> mset ys = mset xs \<and> map f ys = sort_iter cmp 1 (map f xs)"
  using list_sort_iter[OF assms, of "\<lambda>a b. cmp (f a) (f b)"] map_sort_iter[where cmp = cmp and f = f, OF refl] mset_sort_iter by metis

text \<open>
  C32. \<^verbatim>\<open>list_sort\<close> ends and sorts the list in place: the list then holds the same nodes in the order of the comparison function, nodes of equal rank stay in their old order, the links
  are right in both directions, and no other node of the memory is written.
\<close>

theorem list_sort_sorts:
  assumes "dll m h xs" "NULL \<notin> set xs" "order_cmp cmp"
  shows "\<exists>m' ys. list_sort cmp h m = Some m' \<and> dll m' h ys \<and> mset ys = mset xs \<and> sorted_wrt (\<lambda>x y. cmp x y \<le> 0) ys
     \<and> (\<forall>a. filter (same_rank cmp a) ys = filter (same_rank cmp a) xs)
     \<and> (\<forall>u. u \<notin> set (h # xs) \<longrightarrow> l_next m' u = l_next m u \<and> l_prev m' u = l_prev m u)"
proof -
  have "cmp_le cmp = (\<lambda>x y. cmp x y \<le> 0)" by (intro ext) (simp add: cmp_le_def)
  then have "sorted_wrt (\<lambda>x y. cmp x y \<le> 0) (sort_iter cmp 1 xs)" using sort_cmp.sorts[OF order_sort_cmp[OF assms(3)], of xs] by simp
  moreover have "\<forall>a. filter (same_rank cmp a) (sort_iter cmp 1 xs) = filter (same_rank cmp a) xs"
    using sort_iter_stable[OF assms(3) _ runs_sorted_1] by simp
  ultimately show ?thesis using list_sort_iter[OF assms(1,2), of cmp] by (metis mset_sort_iter)
qed

text \<open>Three nodes, sorted by decreasing address.\<close>

definition sample_mem :: list_mem where
  "sample_mem = list_push_back 1 4 (list_push_back 1 3 (list_push_back 1 2 (list_init 1 \<lparr>l_next = (\<lambda>x. 0), l_prev = (\<lambda>x. 0)\<rparr>)))"

definition sample_cmp :: "nat \<Rightarrow> nat \<Rightarrow> int" where
  "sample_cmp x y = int y - int x"

lemma sample_mem_dll: "dll sample_mem 1 [2, 3, 4]"
proof -
  have "dll (list_push_back 1 2 (list_init 1 \<lparr>l_next = (\<lambda>x. 0), l_prev = (\<lambda>x. 0)\<rparr>)) 1 ([] @ [2])" by (rule list_push_back_dll[OF list_init_dll]) simp
  then have "dll (list_push_back 1 3 (list_push_back 1 2 (list_init 1 \<lparr>l_next = (\<lambda>x. 0), l_prev = (\<lambda>x. 0)\<rparr>))) 1 (([] @ [2]) @ [3])" by (rule list_push_back_dll) simp
  then have "dll sample_mem 1 ((([] @ [2]) @ [3]) @ [4])" unfolding sample_mem_def by (rule list_push_back_dll) simp
  then show ?thesis by simp
qed

theorem list_sort_sorts_witness:
  "\<exists>m' ys. list_sort sample_cmp 1 sample_mem = Some m' \<and> dll m' 1 ys \<and> mset ys = mset [2, 3, 4] \<and> sorted_wrt (\<lambda>x y. sample_cmp x y \<le> 0) ys"
proof -
  have "order_cmp sample_cmp" by (auto simp: order_cmp_def sample_cmp_def)
  from list_sort_sorts[OF sample_mem_dll _ this] show ?thesis by auto
qed



end
