(* ===== verification/Selection.thy ===== *)
theory Selection
  imports Main
begin

text \<open>
  What a selection of storages on different locations is to do. The storages are pairs of a key and a location. A pass takes the storages in turn, skips the ones that are selected and the
  ones whose location is marked, and marks the location of each one it selects; the next pass starts with no mark. The storages are then spread evenly: two locations differ by one
  storage at most, unless the smaller one has no storage left.
\<close>

type_synonym 'k choice = "'k list \<times> int set \<times> nat"

fun pick :: "nat \<Rightarrow> ('k \<times> int) list \<Rightarrow> 'k choice \<Rightarrow> bool \<times> 'k choice" where
  "pick nb [] st = (False, st)"
| "pick nb ((k, l) # items) (S, M, c) =
     (if k \<in> set S then pick nb items (S, M, c)
      else if l \<in> M then pick nb items (S, M, c + 1)
      else if length S + 1 = nb then (True, S @ [k], insert l M, c)
      else pick nb items (S @ [k], insert l M, c))"

fun passes :: "nat \<Rightarrow> nat \<Rightarrow> ('k \<times> int) list \<Rightarrow> 'k choice \<Rightarrow> bool \<times> 'k choice" where
  "passes 0 nb items st = (False, st)"
| "passes (Suc n) nb items st = (case pick nb items st of (found, S, M, c) \<Rightarrow>
     if found then (True, S, M, c)
     else if length S + c < nb then (False, S, M, c)
     else passes n nb items (S, {}, 0))"

definition keys_at :: "('k \<times> int) set \<Rightarrow> int \<Rightarrow> 'k set" where
  "keys_at I l = {k. (k, l) \<in> I}"

text \<open>After \<open>L\<close> whole passes, each location has given \<open>L\<close> storages or all it has, and one more when it is marked.\<close>

definition spread :: "('k \<times> int) set \<Rightarrow> nat \<Rightarrow> 'k list \<Rightarrow> int set \<Rightarrow> bool" where
  "spread I L S M \<longleftrightarrow> distinct S \<and> set S \<subseteq> fst ` I
     \<and> (\<forall>l. card (keys_at I l \<inter> set S) = min (card (keys_at I l)) L + (if l \<in> M then 1 else 0))
     \<and> (\<forall>l \<in> M. L < card (keys_at I l))"

text \<open>What \<open>n\<close> passes can give.\<close>

definition capacity :: "('k \<times> int) set \<Rightarrow> nat \<Rightarrow> nat" where
  "capacity I n = (\<Sum>l \<in> snd ` I. min (card (keys_at I l)) n)"

definition evenly :: "('k \<times> int) set \<Rightarrow> 'k set \<Rightarrow> bool" where
  "evenly I S \<longleftrightarrow> (\<forall>l l'. card (keys_at I l \<inter> S) \<le> card (keys_at I l' \<inter> S) + 1 \<or> keys_at I l' \<subseteq> S)"

definition keyed :: "('k \<times> int) set \<Rightarrow> bool" where
  "keyed I \<longleftrightarrow> finite I \<and> inj_on fst I"

lemma keyed_set: "distinct (map fst items) \<Longrightarrow> keyed (set items)"
  by (simp add: keyed_def distinct_map)

lemma finite_keys_at: "keyed I \<Longrightarrow> finite (keys_at I l)"
  unfolding keys_at_def keyed_def by (rule finite_subset[of _ "fst ` I"]) force+

lemma keyed_unique: "keyed I \<Longrightarrow> (k, l) \<in> I \<Longrightarrow> (k, l') \<in> I \<Longrightarrow> l = l'"
  unfolding keyed_def inj_on_def by fastforce

lemma spread_init: "spread I 0 [] {}"
  by (simp add: spread_def)

lemma spread_take:
  assumes I: "keyed I" and s: "spread I L S M" and k: "(k, l) \<in> I" "k \<notin> set S" "l \<notin> M"
  shows "spread I L (S @ [k]) (insert l M)"
proof -
  have c: "card (keys_at I l \<inter> set S) = min (card (keys_at I l)) L" using s k(3) by (simp add: spread_def)
  have "keys_at I l \<inter> set S \<subset> keys_at I l" using k by (auto simp: keys_at_def)
  then have "card (keys_at I l \<inter> set S) < card (keys_at I l)" by (rule psubset_card_mono[OF finite_keys_at[OF I]])
  then have lt: "L < card (keys_at I l)" using c by (simp add: min_def split: if_splits)
  have "keys_at I l \<inter> set (S @ [k]) = insert k (keys_at I l \<inter> set S)" using k by (auto simp: keys_at_def)
  then have "card (keys_at I l \<inter> set (S @ [k])) = min (card (keys_at I l)) L + 1" using c k(2) by simp
  moreover have "keys_at I l' \<inter> set (S @ [k]) = keys_at I l' \<inter> set S" if "l' \<noteq> l" for l'
    using keyed_unique[OF I k(1)] that by (auto simp: keys_at_def)
  ultimately have "card (keys_at I l' \<inter> set (S @ [k])) = min (card (keys_at I l')) L + (if l' \<in> insert l M then 1 else 0)" for l'
    using s by (cases "l' = l") (simp_all add: spread_def)
  moreover have "k \<in> fst ` I" using k(1) by force
  ultimately show ?thesis using s k(2) lt by (simp add: spread_def)
qed

lemma pick_spread:
  assumes "keyed I"
  shows "pick nb items (S, M, c) = (found, S', M', c') \<Longrightarrow> set items \<subseteq> I \<Longrightarrow> spread I L S M \<Longrightarrow> length S < nb \<Longrightarrow>
    spread I L S' M' \<and> set S \<subseteq> set S' \<and> M \<subseteq> M' \<and> (if found then length S' = nb else length S' < nb \<and> (\<forall>(k, l) \<in> set items. k \<in> set S' \<or> l \<in> M'))"
proof (induction nb items "(S, M, c)" arbitrary: S M c rule: pick.induct)
  case (2 nb k l items S M c)
  show ?case
  proof (cases "k \<in> set S \<or> l \<in> M")
    case True
    have "pick nb items (S, M, if k \<in> set S then c else c + 1) = (found, S', M', c')" using True "2.prems"(1) by (simp split: if_splits)
    then have "spread I L S' M' \<and> set S \<subseteq> set S' \<and> M \<subseteq> M' \<and> (if found then length S' = nb else length S' < nb \<and> (\<forall>(k, l) \<in> set items. k \<in> set S' \<or> l \<in> M'))"
      using "2.hyps"(1,2) "2.prems"(2-4) True by (cases "k \<in> set S") simp_all
    then show ?thesis using True by (auto split: if_splits)
  next
    case False
    then have t: "spread I L (S @ [k]) (insert l M)" using spread_take[OF assms "2.prems"(3)] "2.prems"(2) by simp
    show ?thesis
    proof (cases "length S + 1 = nb")
      case True
      then show ?thesis using "2.prems"(1) False t by auto
    next
      case more: False
      then have "length (S @ [k]) < nb" using "2.prems"(4) by simp
      moreover have "pick nb items (S @ [k], insert l M, c) = (found, S', M', c')" using "2.prems"(1) False more by simp
      ultimately have "spread I L S' M' \<and> set (S @ [k]) \<subseteq> set S' \<and> insert l M \<subseteq> M' \<and> (if found then length S' = nb else length S' < nb \<and> (\<forall>(k, l) \<in> set items. k \<in> set S' \<or> l \<in> M'))"
        using "2.hyps"(3) "2.prems"(2) False more t by simp
      then show ?thesis by (auto split: if_splits)
    qed
  qed
qed simp

lemma pick_end:
  assumes I: "keyed I" and s: "spread I L S M" and all: "\<And>k l. (k, l) \<in> I \<Longrightarrow> k \<in> set S \<or> l \<in> M"
  shows "spread I (Suc L) S {}"
proof -
  have "card (keys_at I l \<inter> set S) = min (card (keys_at I l)) (Suc L)" for l
  proof (cases "l \<in> M")
    case True
    then have "card (keys_at I l \<inter> set S) = min (card (keys_at I l)) L + 1" "L < card (keys_at I l)" using s by (simp_all add: spread_def)
    then show ?thesis by simp
  next
    case False
    then have "keys_at I l \<inter> set S = keys_at I l" using all by (auto simp: keys_at_def)
    moreover have "card (keys_at I l \<inter> set S) = min (card (keys_at I l)) L" using s False by (simp add: spread_def)
    ultimately show ?thesis by (metis min.absorb_iff2 min.cobounded2 min_le_iff_disj not_less_eq_eq nle_le)
  qed
  then show ?thesis using s by (simp add: spread_def)
qed

text \<open>The collisions of a pass are the storages that are left.\<close>

lemma pick_collisions:
  "pick nb items (S, M, c) = (False, S', M', c') \<Longrightarrow> distinct (map fst items) \<Longrightarrow>
    c' \<ge> c + length (filter (\<lambda>k. k \<notin> set S') (map fst items)) \<and> set S \<subseteq> set S'"
proof (induction nb items "(S, M, c)" arbitrary: S M c rule: pick.induct)
  case (2 nb k l items S M c)
  show ?case
  proof (cases "k \<in> set S")
    case True
    then show ?thesis using 2 by auto
  next
    case k: False
    show ?thesis
    proof (cases "l \<in> M")
      case True
      then show ?thesis using 2 k by fastforce
    next
      case False
      then have "length S + 1 \<noteq> nb" using 2 k by auto
      then show ?thesis using "2.hyps"(3)[OF k False] "2.prems" k False by auto
    qed
  qed
qed simp

lemma pick_exhausts:
  assumes "pick nb items (S, M, c) = (False, S', M', c')" "distinct (map fst items)"
  shows "length items \<le> length S' + c'"
proof -
  let ?P = "\<lambda>k. k \<notin> set S'"
  have "length (filter (\<lambda>k. k \<in> set S') (map fst items)) = card (set (filter (\<lambda>k. k \<in> set S') (map fst items)))"
    using assms(2) distinct_card distinct_filter by metis
  also have "\<dots> \<le> card (set S')" by (rule card_mono) auto
  also have "\<dots> \<le> length S'" by (rule card_length)
  finally show ?thesis using pick_collisions[OF assms] sum_length_filter_compl[of "\<lambda>k. k \<in> set S'" "map fst items"] by simp
qed

section \<open>Any number of passes\<close>

lemma spread_length:
  assumes I: "keyed I" and s: "spread I L S M"
  shows "length S = (\<Sum>l \<in> snd ` I. card (keys_at I l \<inter> set S))"
proof -
  have "set S = (\<Union>l \<in> snd ` I. keys_at I l \<inter> set S)" using s by (force simp: spread_def keys_at_def)
  moreover have "card (\<Union>l \<in> snd ` I. keys_at I l \<inter> set S) = (\<Sum>l \<in> snd ` I. card (keys_at I l \<inter> set S))"
    using I keyed_unique[OF I] by (intro card_UN_disjoint) (auto simp: keyed_def keys_at_def)
  ultimately show ?thesis using s by (metis distinct_card spread_def)
qed

lemma spread_capacity:
  assumes "keyed I" "spread I L S M"
  shows "capacity I L \<le> length S" "length S \<le> capacity I (Suc L)"
proof -
  have c: "card (keys_at I l \<inter> set S) = min (card (keys_at I l)) L + (if l \<in> M then 1 else 0)" "l \<in> M \<Longrightarrow> L < card (keys_at I l)" for l
    using assms(2) by (simp_all add: spread_def)
  show "capacity I L \<le> length S" unfolding spread_length[OF assms] capacity_def by (intro sum_mono) (simp add: c(1))
  have "card (keys_at I l \<inter> set S) \<le> min (card (keys_at I l)) (Suc L)" for l using c[of l] by (cases "l \<in> M") simp_all
  then show "length S \<le> capacity I (Suc L)" unfolding spread_length[OF assms] capacity_def by (intro sum_mono)
qed

lemma capacity_mono: "m \<le> n \<Longrightarrow> capacity I m \<le> capacity I n"
  unfolding capacity_def by (intro sum_mono) auto

lemma sum_keys_at:
  assumes "keyed I"
  shows "(\<Sum>l \<in> snd ` I. card (keys_at I l)) = card I"
proof -
  have "(\<Sum>l \<in> snd ` I. card (keys_at I l)) = card (\<Union>l \<in> snd ` I. keys_at I l)"
    using assms keyed_unique[OF assms] finite_keys_at[OF assms] by (intro card_UN_disjoint[symmetric]) (auto simp: keys_at_def keyed_def)
  also have "(\<Union>l \<in> snd ` I. keys_at I l) = fst ` I" by (force simp: keys_at_def)
  also have "card (fst ` I) = card I" using assms by (simp add: keyed_def card_image)
  finally show ?thesis .
qed

lemma capacity_le_length: "distinct (map fst items) \<Longrightarrow> capacity (set items) n \<le> length items"
proof -
  assume d: "distinct (map fst items)"
  have "capacity (set items) n \<le> (\<Sum>l \<in> snd ` set items. card (keys_at (set items) l))" unfolding capacity_def by (intro sum_mono) simp
  then show ?thesis using sum_keys_at[OF keyed_set[OF d]] card_length[of items] by linarith
qed

text \<open>More passes give more, or they give all there is.\<close>

lemma capacity_step:
  assumes "keyed I"
  shows "capacity I (L + m) = card I \<or> capacity I L + m \<le> capacity I (L + m)"
proof (cases "\<forall>l \<in> snd ` I. card (keys_at I l) \<le> L + m")
  case True
  then have "capacity I (L + m) = (\<Sum>l \<in> snd ` I. card (keys_at I l))" unfolding capacity_def by (intro sum.cong) auto
  then show ?thesis using sum_keys_at[OF assms] by simp
next
  case False
  then obtain l where l: "l \<in> snd ` I" "L + m < card (keys_at I l)" by (meson not_le)
  have fin: "finite (snd ` I)" using assms by (simp add: keyed_def)
  have "capacity I (L + m) = (L + m) + (\<Sum>l \<in> snd ` I - {l}. min (card (keys_at I l)) (L + m))"
    unfolding capacity_def using sum.remove[OF fin l(1), of "\<lambda>l. min (card (keys_at I l)) (L + m)"] l(2) by simp
  moreover have "capacity I L = L + (\<Sum>l \<in> snd ` I - {l}. min (card (keys_at I l)) L)"
    unfolding capacity_def using sum.remove[OF fin l(1), of "\<lambda>l. min (card (keys_at I l)) L"] l(2) by simp
  moreover have "(\<Sum>l \<in> snd ` I - {l}. min (card (keys_at I l)) L) \<le> (\<Sum>l \<in> snd ` I - {l}. min (card (keys_at I l)) (L + m))"
    by (intro sum_mono) auto
  ultimately show ?thesis by simp
qed

text \<open>The names of the keys do not matter.\<close>

lemma keys_at_rekey: "keys_at ((\<lambda>(k, l). (f k, l)) ` I) l = f ` keys_at I l"
  by (force simp: keys_at_def)

lemma capacity_rekey:
  assumes "inj_on f (fst ` I)"
  shows "capacity ((\<lambda>(k, l). (f k, l)) ` I) n = capacity I n"
proof -
  have "inj_on f (keys_at I l)" for l using assms by (rule inj_on_subset) (force simp: keys_at_def)
  then have "card (keys_at ((\<lambda>(k, l). (f k, l)) ` I) l) = card (keys_at I l)" for l by (simp add: keys_at_rekey card_image)
  moreover have "snd ` (\<lambda>(k, l). (f k, l)) ` I = snd ` I" by force
  ultimately show ?thesis by (simp add: capacity_def)
qed

lemma evenly_rekey:
  assumes f: "inj_on f (fst ` I)" and S: "S \<subseteq> fst ` I" "evenly I S"
  shows "evenly ((\<lambda>(k, l). (f k, l)) ` I) (f ` S)"
proof -
  have "f ` keys_at I l \<inter> f ` S = f ` (keys_at I l \<inter> S)" for l
    by (rule inj_on_image_Int[OF f, symmetric]) (use S(1) in \<open>force simp: keys_at_def\<close>)+
  moreover have "card (f ` (keys_at I l \<inter> S)) = card (keys_at I l \<inter> S)" for l
    by (rule card_image, rule inj_on_subset[OF f]) (use S(1) in blast)
  ultimately show ?thesis using S(2) unfolding evenly_def keys_at_rekey by (metis image_mono)
qed

lemma spread_evenly:
  assumes I: "keyed I" and s: "spread I L S M"
  shows "evenly I (set S)"
  unfolding evenly_def
proof (intro allI)
  fix l l'
  have c: "card (keys_at I l \<inter> set S) = min (card (keys_at I l)) L + (if l \<in> M then 1 else 0)" for l using s by (simp add: spread_def)
  show "card (keys_at I l \<inter> set S) \<le> card (keys_at I l' \<inter> set S) + 1 \<or> keys_at I l' \<subseteq> set S"
  proof (cases "L \<le> card (keys_at I l' \<inter> set S)")
    case True
    then show ?thesis using c[of l] by auto
  next
    case False
    then have "card (keys_at I l' \<inter> set S) = card (keys_at I l')" using c[of l'] s by (auto simp: spread_def min_def split: if_splits)
    then have "keys_at I l' \<inter> set S = keys_at I l'" by (intro card_subset_eq finite_keys_at[OF I]) auto
    then show ?thesis by blast
  qed
qed

text \<open>From \<open>L\<close> whole passes, \<open>n\<close> more find the storages exactly when \<open>L + n\<close> passes can give that many.\<close>

lemma passes_spread:
  assumes d: "distinct (map fst items)"
  shows "passes n nb items (S, M, c) = (found, S', M', c') \<Longrightarrow> spread (set items) L S M \<Longrightarrow> length S < nb \<Longrightarrow>
    (found \<longleftrightarrow> nb \<le> capacity (set items) (L + n)) \<and> (found \<longrightarrow> length S' = nb \<and> (\<exists>L'. spread (set items) L' S' M'))"
proof (induction n arbitrary: S M c L)
  case 0
  then show ?case using spread_capacity[OF keyed_set[OF d] "0.prems"(2)] by simp
next
  case (Suc n)
  note I = keyed_set[OF d]
  obtain b S1 M1 c1 where p: "pick nb items (S, M, c) = (b, S1, M1, c1)" by (metis prod_cases4)
  have P: "spread (set items) L S1 M1" "if b then length S1 = nb else length S1 < nb \<and> (\<forall>(k, l) \<in> set items. k \<in> set S1 \<or> l \<in> M1)"
    using pick_spread[OF I p subset_refl Suc.prems(2,3)] by auto
  show ?case
  proof (cases b)
    case True
    then have "nb \<le> capacity (set items) (Suc L)" using P spread_capacity(2)[OF I P(1)] by simp
    also have "\<dots> \<le> capacity (set items) (L + Suc n)" by (rule capacity_mono) simp
    finally show ?thesis using Suc.prems(1) p True P by auto
  next
    case False
    have s: "spread (set items) (Suc L) S1 {}" using pick_end[OF I P(1)] P(2) False by auto
    have e: "length items \<le> length S1 + c1" using pick_exhausts[OF _ d, of nb S M c S1 M1 c1] p False by simp
    show ?thesis
    proof (cases "length S1 + c1 < nb")
      case True
      then have "capacity (set items) (L + Suc n) < nb" using e capacity_le_length[OF d, of "L + Suc n"] by linarith
      then show ?thesis using Suc.prems(1) p True False by simp
    next
      case more: False
      then have "passes n nb items (S1, {}, 0) = (found, S', M', c')" using Suc.prems(1) p False by simp
      from Suc.IH[OF this s] P(2) False show ?thesis by simp
    qed
  qed
qed

section \<open>Scanning loops\<close>

text \<open>
  What a loop over scans has to provide for these facts: one scan does what a pass does, and the marks and the collisions are cleared between two scans, by \<open>start\<close> before a scan or by
  \<open>next\<close> behind it. \<open>view\<close> reads the selection out of the state of the loop and \<open>wf\<close> is what keeps a scan defined.
\<close>

locale scanner =
  fixes scan :: "nat \<Rightarrow> 's \<Rightarrow> (bool \<times> 's) option"
    and loop :: "nat \<Rightarrow> nat \<Rightarrow> 's \<Rightarrow> (bool \<times> 's) option"
    and start :: "'s \<Rightarrow> 's"
    and "next" :: "'s \<Rightarrow> 's"
    and view :: "'s \<Rightarrow> 'k choice"
    and items :: "'s \<Rightarrow> ('k \<times> int) list"
    and wf :: "'s \<Rightarrow> bool"
  assumes loop_0: "loop 0 nb s = Some (False, s)"
    and loop_Suc: "loop (Suc n) nb s = Option.bind (scan nb (start s)) (\<lambda>(found, s').
      if found then Some (True, s') else if length (fst (view s')) + snd (snd (view s')) < nb then Some (False, s') else loop n nb (next s'))"
    and scan_pick: "wf s \<Longrightarrow> \<exists>found s'. scan nb s = Some (found, s') \<and> wf s' \<and> items s' = items s \<and> pick nb (items s) (view s) = (found, view s')"
    and wf_start: "wf s \<Longrightarrow> wf (start s) \<and> items (start s) = items s \<and> fst (view (start s)) = fst (view s)"
    and wf_next: "wf s \<Longrightarrow> wf (next s) \<and> items (next s) = items s \<and> view (start (next s)) = (fst (view s), {}, 0)"
begin

lemma loop_passes:
  "wf s \<Longrightarrow> \<exists>found s' M' c'. loop n nb s = Some (found, s') \<and> wf s' \<and> items s' = items s
    \<and> passes n nb (items s) (view (start s)) = (found, fst (view s'), M', c') \<and> (found \<longrightarrow> view s' = (fst (view s'), M', c'))"
proof (induction n arbitrary: s)
  case 0
  then show ?case using wf_start[of s] loop_0 by (metis passes.simps(1) surjective_pairing)
next
  case (Suc n)
  obtain b t where t: "scan nb (start s) = Some (b, t)" "wf t" "items t = items s" "pick nb (items s) (view (start s)) = (b, view t)"
    using scan_pick[of "start s" nb] wf_start[OF Suc.prems] by auto
  obtain S M c where v: "view t = (S, M, c)" by (metis surjective_pairing)
  show ?case
  proof (cases "b \<or> length S + c < nb")
    case True
    then have "loop (Suc n) nb s = Some (b, t)" "passes (Suc n) nb (items s) (view (start s)) = (b, S, M, c)"
      using t v by (auto simp: loop_Suc)
    then show ?thesis using t v by auto
  next
    case False
    note N = wf_next[OF t(2)]
    have "loop (Suc n) nb s = loop n nb (next t)" using t(1) v False by (simp add: loop_Suc)
    moreover have "passes (Suc n) nb (items s) (view (start s)) = passes n nb (items (next t)) (view (start (next t)))"
      using t v False N by simp
    ultimately show ?thesis using Suc.IH[of "next t"] N t(3) by simp
  qed
qed

text \<open>So the loop selects as many storages as it is asked for, evenly, exactly when that many passes can give them.\<close>

lemma loop_selects:
  assumes "wf s" "distinct (map fst (items s))" "spread (set (items s)) L (fst (view (start s))) (fst (snd (view (start s))))" "length (fst (view s)) < nb"
  shows "\<exists>found s'. loop n nb s = Some (found, s') \<and> wf s' \<and> items s' = items s \<and> (found \<longleftrightarrow> nb \<le> capacity (set (items s)) (L + n))
    \<and> (found \<longrightarrow> length (fst (view s')) = nb \<and> (\<exists>L'. spread (set (items s)) L' (fst (view s')) (fst (snd (view s')))))"
proof -
  obtain found s' M' c' where l: "loop n nb s = Some (found, s')" "wf s'" "items s' = items s"
    "passes n nb (items s) (view (start s)) = (found, fst (view s'), M', c')" "found \<longrightarrow> view s' = (fst (view s'), M', c')"
    using loop_passes[OF assms(1)] by blast
  obtain S M c where v: "view (start s) = (S, M, c)" by (metis surjective_pairing)
  have "length S < nb" using assms(4) wf_start[OF assms(1)] v by simp
  from passes_spread[OF assms(2) l(4)[unfolded v] _ this] assms(3) v
  have P: "(found \<longleftrightarrow> nb \<le> capacity (set (items s)) (L + n)) \<and> (found \<longrightarrow> length (fst (view s')) = nb \<and> (\<exists>L'. spread (set (items s)) L' (fst (view s')) M'))"
    by simp
  moreover have "fst (snd (view s')) = M'" if found using l(5) that by (metis fst_conv snd_conv)
  ultimately show ?thesis using l(1-3) by auto
qed

end



end
