(* ===== verification/Volume.thy ===== *)
theory Volume
  imports Layout Fid_Bitmap List_Sort Selection
begin

text \<open>
  The distribution of new files on the storages of a volume (\<^verbatim>\<open>src/exportd/volume.c\<close>). A volume has clusters, a cluster has a list of storages for each site, and
  a storage is on a location: its host or, with several sites, its site. A file gets the storages of one cluster, as many as its layout asks for, on different locations when possible.
  Every storage is a node of one list only, so that a list is the sequence of its storages; sorting it is the merge sort of \<^verbatim>\<open>List_Sort\<close> (\<^verbatim>\<open>list_sort_values\<close>). The
  answers of the storage daemons are a parameter. The locks of the volume are taken to succeed, and the operations to run one after the other.
\<close>

section \<open>Model\<close>

subsection \<open>Storages, clusters and volumes\<close>

definition ROZOFS_HOSTNAME_MAX :: nat where "ROZOFS_HOSTNAME_MAX = 128"
definition ROZOFS_GEOREP_MAX_SITE :: nat where "ROZOFS_GEOREP_MAX_SITE = 2"
definition ROZOFS_CLUSTERS_MAX :: int where "ROZOFS_CLUSTERS_MAX = 255"

record volume_storage_t =
  vs_sid :: u8
  vs_host :: string
  host_rank :: u8
  siteNum :: u8
  vs_status :: u8
  stat_size :: u64
  stat_free :: u64
  inverseCounter :: u64
  forwardCounter :: u64
  spareCounter :: u64

record cluster_t =
  cl_cid :: u16
  cl_size :: u64
  cl_free :: u64
  cl_storages :: "volume_storage_t list list"
  cl_nb_host :: "u8 list"

record volume_t =
  vl_vid :: u16
  vl_balanced :: bool
  vl_layout :: u8
  vl_georep :: bool
  vl_multi_site :: bool
  vl_rebalanceCfg :: "string option"
  vl_clusters :: "cluster_t list"
  vl_active_list :: int
  vl_distribute :: "cluster_t list list"

definition volume_storage_initialize :: "u8 \<Rightarrow> string \<Rightarrow> u8 \<Rightarrow> u8 \<Rightarrow> volume_storage_t" where
  "volume_storage_initialize sid hostname rank site =
     \<lparr>vs_sid = sid, vs_host = take ROZOFS_HOSTNAME_MAX hostname, host_rank = rank, siteNum = site, vs_status = 0, stat_size = 0, stat_free = 0,
       inverseCounter = 0, forwardCounter = 0, spareCounter = 0\<rparr>"

text \<open>The number of hosts is set by the callers.\<close>

definition cluster_initialize :: "u16 \<Rightarrow> u64 \<Rightarrow> u64 \<Rightarrow> cluster_t" where
  "cluster_initialize cid sz free =
     \<lparr>cl_cid = cid, cl_size = sz, cl_free = free, cl_storages = replicate ROZOFS_GEOREP_MAX_SITE [], cl_nb_host = replicate ROZOFS_GEOREP_MAX_SITE 0\<rparr>"

definition volume_initialize :: "u16 \<Rightarrow> u8 \<Rightarrow> u8 \<Rightarrow> u8 \<Rightarrow> string option \<Rightarrow> volume_t" where
  "volume_initialize vid layout georep multi_site rebalanceCfg =
     \<lparr>vl_vid = vid, vl_balanced = False, vl_layout = take_bit 6 layout, vl_georep = bit georep 0, vl_multi_site = bit multi_site 0,
       vl_rebalanceCfg = rebalanceCfg, vl_clusters = [], vl_active_list = 0, vl_distribute = [[], []]\<rparr>"

definition cluster_release :: "cluster_t \<Rightarrow> cluster_t" where
  "cluster_release c = c\<lparr>cl_storages := map (\<lambda>_. []) (cl_storages c)\<rparr>"

definition volume_release :: "volume_t \<Rightarrow> volume_t" where
  "volume_release v = v\<lparr>vl_rebalanceCfg := None, vl_clusters := [], vl_distribute := map (\<lambda>_. []) (vl_distribute v)\<rparr>"

text \<open>A copy has no counters.\<close>

definition copy_storage :: "volume_storage_t \<Rightarrow> volume_storage_t" where
  "copy_storage vs =
     (volume_storage_initialize (vs_sid vs) (vs_host vs) (host_rank vs) (siteNum vs))\<lparr>stat_size := stat_size vs, stat_free := stat_free vs, vs_status := vs_status vs\<rparr>"

definition copy_cluster :: "cluster_t \<Rightarrow> cluster_t" where
  "copy_cluster c = (cluster_initialize (cl_cid c) (cl_size c) (cl_free c))\<lparr>cl_nb_host := cl_nb_host c, cl_storages := map (map copy_storage) (cl_storages c)\<rparr>"

definition volume_safe_copy :: "volume_t \<Rightarrow> volume_t \<Rightarrow> volume_t" where
  "volume_safe_copy to from = to\<lparr>vl_vid := vl_vid from, vl_layout := vl_layout from, vl_georep := vl_georep from, vl_multi_site := vl_multi_site from,
     vl_rebalanceCfg := vl_rebalanceCfg from, vl_clusters := map copy_cluster (vl_clusters from)\<rparr>"

definition volume_safe_from_list_copy :: "volume_t \<Rightarrow> cluster_t list \<Rightarrow> volume_t" where
  "volume_safe_from_list_copy to from = to\<lparr>vl_clusters := map copy_cluster from\<rparr>"

definition volume_safe_to_list_copy :: "volume_t \<Rightarrow> cluster_t list" where
  "volume_safe_to_list_copy from = map copy_cluster (vl_clusters from)"

subsection \<open>Orders\<close>

definition volume_storage_compare :: "volume_storage_t \<Rightarrow> volume_storage_t \<Rightarrow> int" where
  "volume_storage_compare e1 e2 =
     (if vs_status e1 = 0 \<and> vs_status e2 \<noteq> 0 \<or> vs_status e1 \<noteq> 0 \<and> vs_status e2 = 0 then uint (vs_status e2) - uint (vs_status e1)
      else if stat_free e1 \<le> stat_free e2 then 1 else 0)"

definition cluster_compare_capacity :: "cluster_t \<Rightarrow> cluster_t \<Rightarrow> int" where
  "cluster_compare_capacity e1 e2 = (if cl_free e1 < cl_free e2 then 1 else 0)"

text \<open>The comparisons of the strict round robin: the difference of two counters of 64 bits, as an integer of 32 bits.\<close>

definition counter_diff :: "u64 \<Rightarrow> u64 \<Rightarrow> int" where
  "counter_diff a b = sint (ucast (a - b) :: u32)"

definition compareInverse :: "volume_storage_t \<Rightarrow> volume_storage_t \<Rightarrow> int" where
  "compareInverse A B = counter_diff (inverseCounter A) (inverseCounter B)"

definition compareForward :: "volume_storage_t \<Rightarrow> volume_storage_t \<Rightarrow> int" where
  "compareForward A B = counter_diff (forwardCounter A) (forwardCounter B)"

definition compareSpare :: "volume_storage_t \<Rightarrow> volume_storage_t \<Rightarrow> int" where
  "compareSpare A B = counter_diff (spareCounter A) (spareCounter B)"

definition sort_list :: "('a \<Rightarrow> 'a \<Rightarrow> int) \<Rightarrow> 'a list \<Rightarrow> 'a list" where
  "sort_list cmp xs = sort_iter cmp 1 xs"

subsection \<open>Balancing\<close>

text \<open>A storage daemon gives no answer, or refuses and the statistics are cleared, or gives its size and its free space.\<close>

datatype stat_reply = No_reply | Refused | Stats u64 u64

type_synonym storaged = "u16 \<Rightarrow> string \<Rightarrow> u8 \<Rightarrow> stat_reply"

definition mstoraged_client_stat :: "storaged \<Rightarrow> u16 \<Rightarrow> volume_storage_t \<Rightarrow> bool \<times> volume_storage_t" where
  "mstoraged_client_stat st cid vs = (case st cid (vs_host vs) (vs_sid vs) of
       No_reply \<Rightarrow> (False, vs)
     | Refused \<Rightarrow> (False, vs\<lparr>stat_size := 0, stat_free := 0\<rparr>)
     | Stats sz free \<Rightarrow> (True, vs\<lparr>stat_size := sz, stat_free := free\<rparr>))"

definition balance_storage :: "storaged \<Rightarrow> u16 \<Rightarrow> volume_storage_t \<Rightarrow> bool \<times> volume_storage_t" where
  "balance_storage st cid vs = (case mstoraged_client_stat st cid vs of (new, vs) \<Rightarrow> (new, vs\<lparr>vs_status := (if new then 1 else 0)\<rparr>))"

definition balance_local :: "storaged \<Rightarrow> int \<Rightarrow> cluster_t \<Rightarrow> cluster_t option" where
  "balance_local st local_site c = do {
     xs \<leftarrow> arr_get (cl_storages c) local_site;
     let rs = map (balance_storage st (cl_cid c)) xs;
     lists \<leftarrow> arr_set (cl_storages c) local_site (map snd rs);
     let reachable = map snd (filter fst rs);
     Some (c\<lparr>cl_storages := lists, cl_free := sum_list (map stat_free reachable), cl_size := sum_list (map stat_size reachable)\<rparr>) }"

definition balance_remote :: "storaged \<Rightarrow> int \<Rightarrow> cluster_t \<Rightarrow> cluster_t option" where
  "balance_remote st local_site c = do {
     xs \<leftarrow> arr_get (cl_storages c) (1 - local_site);
     lists \<leftarrow> arr_set (cl_storages c) (1 - local_site) (map (\<lambda>vs. snd (balance_storage st (cl_cid c) vs)) xs);
     Some (c\<lparr>cl_storages := lists\<rparr>) }"

text \<open>A cluster is ordered after its entry in the table \<^verbatim>\<open>export_rotate_sid\<close> is cleared; the table has no entry for a cluster identifier of 255 or more.\<close>

definition order_site :: "int \<Rightarrow> cluster_t \<Rightarrow> cluster_t option" where
  "order_site site c = do {
     xs \<leftarrow> arr_get (cl_storages c) site;
     lists \<leftarrow> arr_set (cl_storages c) site (sort_list volume_storage_compare xs);
     Some (c\<lparr>cl_storages := lists\<rparr>) }"

definition order_cluster :: "bool \<Rightarrow> int \<Rightarrow> cluster_t \<Rightarrow> cluster_t option" where
  "order_cluster georep local_site c =
     (if ROZOFS_CLUSTERS_MAX \<le> uint (cl_cid c) then None
      else do { c \<leftarrow> order_site local_site c; if georep then order_site (1 - local_site) c else Some c })"

definition rozofs_file_distribution_size_balancing :: int where "rozofs_file_distribution_size_balancing = 0"
definition rozofs_file_distribution_weigthed_round_robin :: int where "rozofs_file_distribution_weigthed_round_robin = 1"
definition rozofs_file_distribution_strict_round_robin_forward :: int where "rozofs_file_distribution_strict_round_robin_forward = 2"
definition rozofs_file_distribution_strict_round_robin_inverse :: int where "rozofs_file_distribution_strict_round_robin_inverse = 3"
definition rozofs_file_distribution_read_round_robin :: int where "rozofs_file_distribution_read_round_robin = 4"

lemmas rule_defs = rozofs_file_distribution_size_balancing_def rozofs_file_distribution_weigthed_round_robin_def
  rozofs_file_distribution_strict_round_robin_forward_def rozofs_file_distribution_strict_round_robin_inverse_def rozofs_file_distribution_read_round_robin_def

definition ordered_rule :: "int \<Rightarrow> bool" where
  "ordered_rule rule \<longleftrightarrow> rule = rozofs_file_distribution_size_balancing \<or> rule = rozofs_file_distribution_weigthed_round_robin"

definition strict_rule :: "int \<Rightarrow> bool" where
  "strict_rule rule \<longleftrightarrow> rule = rozofs_file_distribution_strict_round_robin_forward \<or> rule = rozofs_file_distribution_strict_round_robin_inverse
     \<or> rule = rozofs_file_distribution_read_round_robin"

definition volume_balance :: "storaged \<Rightarrow> int \<Rightarrow> int \<Rightarrow> volume_t \<Rightarrow> volume_t option" where
  "volume_balance st rule local_site v = do {
     let pList = volume_safe_to_list_copy v;
     pList \<leftarrow> those (map (balance_local st local_site) pList);
     pList \<leftarrow> (if vl_georep v then those (map (balance_remote st local_site) pList) else Some pList);
     pList \<leftarrow> (if ordered_rule rule
       then map_option (sort_list cluster_compare_capacity) (those (map (order_cluster (vl_georep v) local_site) pList))
       else Some pList);
     lists \<leftarrow> arr_set (vl_distribute v) (1 - vl_active_list v) pList;
     let v = (volume_safe_from_list_copy v pList)\<lparr>vl_distribute := lists\<rparr>;
     Some (if vl_balanced v \<and> strict_rule rule then v
           else v\<lparr>vl_active_list := 1 - vl_active_list v, vl_balanced := True\<rparr>) }"

definition location :: "bool \<Rightarrow> volume_storage_t \<Rightarrow> int" where
  "location multi_site vs = uint (if multi_site then siteNum vs else host_rank vs)"

subsection \<open>Strict round robin\<close>

datatype role = Inverse | Forward | Spare

record round_robin =
  rr_selected :: "u64 list"
  rr_location :: "u64 list"
  rr_collision :: nat
  rr_sids :: "u8 list"
  rr_weight :: int

definition count_role :: "role \<Rightarrow> int \<Rightarrow> volume_storage_t \<Rightarrow> volume_storage_t" where
  "count_role role weight vs = (case role of
       Inverse \<Rightarrow> vs\<lparr>inverseCounter := inverseCounter vs + 1, forwardCounter := forwardCounter vs + 1\<rparr>
     | Forward \<Rightarrow> vs\<lparr>forwardCounter := forwardCounter vs + 1\<rparr>
     | Spare \<Rightarrow> vs\<lparr>spareCounter := spareCounter vs + word_of_int weight\<rparr>)"

definition take_storage :: "role \<Rightarrow> volume_storage_t \<Rightarrow> int \<Rightarrow> round_robin \<Rightarrow> (volume_storage_t \<times> round_robin) option" where
  "take_storage role vs loc k = do {
     sel \<leftarrow> ROZOFS_BITMAP64_SET (uint (vs_sid vs)) (rr_selected k);
     lbm \<leftarrow> ROZOFS_BITMAP64_SET loc (rr_location k);
     Some (count_role role (rr_weight k) vs,
       k\<lparr>rr_selected := sel, rr_location := lbm, rr_sids := rr_sids k @ [vs_sid vs],
         rr_weight := (if role = Spare \<and> rr_weight k > 1 then rr_weight k - 1 else rr_weight k)\<rparr>) }"

text \<open>One scan of the list for the storages of a role; it is done when \<open>nb\<close> storages are selected.\<close>

fun scan_role :: "role \<Rightarrow> bool \<Rightarrow> nat \<Rightarrow> volume_storage_t list \<Rightarrow> round_robin \<Rightarrow> (bool \<times> volume_storage_t list \<times> round_robin) option" where
  "scan_role role multi_site nb [] k = Some (False, [], k)"
| "scan_role role multi_site nb (vs # xs) k = do {
     taken \<leftarrow> ROZOFS_BITMAP64_TEST1 (uint (vs_sid vs)) (rr_selected k);
     if taken then do { (found, xs, k) \<leftarrow> scan_role role multi_site nb xs k; Some (found, vs # xs, k) }
     else do {
       let loc = location multi_site vs;
       collision \<leftarrow> ROZOFS_BITMAP64_TEST1 loc (rr_location k);
       if collision
       then do { (found, xs, k) \<leftarrow> scan_role role multi_site nb xs (k\<lparr>rr_collision := rr_collision k + 1\<rparr>); Some (found, vs # xs, k) }
       else do {
         (vs, k) \<leftarrow> take_storage role vs loc k;
         if length (rr_sids k) = nb then Some (True, vs # xs, k)
         else do { (found, xs, k) \<leftarrow> scan_role role multi_site nb xs k; Some (found, vs # xs, k) } } } }"

fun loop_role :: "nat \<Rightarrow> role \<Rightarrow> bool \<Rightarrow> nat \<Rightarrow> volume_storage_t list \<Rightarrow> round_robin \<Rightarrow> (bool \<times> volume_storage_t list \<times> round_robin) option" where
  "loop_role 0 role multi_site nb xs k = Some (False, xs, k)"
| "loop_role (Suc loop) role multi_site nb xs k = do {
     (found, xs, k) \<leftarrow> scan_role role multi_site nb xs k;
     if found then Some (True, xs, k)
     else if length (rr_sids k) + rr_collision k < nb then Some (False, xs, k)
     else loop_role loop role multi_site nb xs (k\<lparr>rr_location := ROZOFS_BITMAP64_ALL_RESET (rr_location k), rr_collision := 0\<rparr>) }"

text \<open>The result is the sids, when the distribution succeeds, and the list of storages. The marks of a role are kept for the next role.\<close>

definition do_cluster_distribute_strict_round_robin :: "int \<Rightarrow> bool \<Rightarrow> volume_storage_t list \<Rightarrow> (u8 list option \<times> volume_storage_t list) option" where
  "do_cluster_distribute_strict_round_robin layout multi_site xs = do {
     (rozofs_inverse, rozofs_forward, rozofs_safe, _) \<leftarrow> rozofs_get_rozofs_invers_forward_safe layout;
     let zero = ROZOFS_BITMAP64_ALL_RESET (replicate 4 0);
     (found, xs, k) \<leftarrow> loop_role 4 Inverse multi_site (nat rozofs_inverse) (sort_list compareInverse xs)
       \<lparr>rr_selected = zero, rr_location = zero, rr_collision = 0, rr_sids = [], rr_weight = 0\<rparr>;
     if \<not> found then Some (None, xs)
     else do {
       (found, xs, k) \<leftarrow> loop_role 4 Forward multi_site (nat rozofs_forward) (sort_list compareForward xs) k;
       if \<not> found then Some (None, xs)
       else do {
         (found, xs, k) \<leftarrow> loop_role 4 Spare multi_site (nat rozofs_safe) (sort_list compareSpare xs) (k\<lparr>rr_weight := rozofs_safe - rozofs_forward\<rparr>);
         Some (if found then Some (rr_sids k) else None, xs) } } }"

subsection \<open>Weighted round robin and size balancing\<close>

record weighted =
  wg_taken :: u64
  wg_location :: u64
  wg_collision :: nat
  wg_ok :: nat
  wg_selected :: "nat list"

text \<open>A shift of 1 by 64 or more is not defined.\<close>

definition shift_one :: "nat \<Rightarrow> u64 option" where
  "shift_one n = (if n < 64 then Some (push_bit n 1) else None)"

text \<open>A selected storage is known by its place in the list, which does not move until the selection is done.\<close>

fun scan_weighted :: "bool \<Rightarrow> nat \<Rightarrow> nat \<Rightarrow> volume_storage_t list \<Rightarrow> weighted \<Rightarrow> (bool \<times> weighted) option" where
  "scan_weighted multi_site safe idx [] k = Some (False, k)"
| "scan_weighted multi_site safe idx (vs # xs) k = do {
     taken_bit \<leftarrow> shift_one idx;
     if wg_taken k AND taken_bit \<noteq> 0 then scan_weighted multi_site safe (idx + 1) xs k
     else do {
       location_bit \<leftarrow> shift_one (nat (location multi_site vs));
       if wg_location k AND location_bit \<noteq> 0 then scan_weighted multi_site safe (idx + 1) xs (k\<lparr>wg_collision := wg_collision k + 1\<rparr>)
       else
         let k = k\<lparr>wg_ok := (if vs_status vs \<noteq> 0 \<and> stat_free vs \<noteq> 0 then wg_ok k + 1 else wg_ok k),
                   wg_taken := wg_taken k OR taken_bit, wg_location := wg_location k OR location_bit, wg_selected := wg_selected k @ [idx]\<rparr> in
         if length (wg_selected k) = safe then Some (True, k) else scan_weighted multi_site safe (idx + 1) xs k } }"

fun loop_weighted :: "nat \<Rightarrow> bool \<Rightarrow> nat \<Rightarrow> volume_storage_t list \<Rightarrow> weighted \<Rightarrow> (bool \<times> weighted) option" where
  "loop_weighted 0 multi_site safe xs k = Some (False, k)"
| "loop_weighted (Suc loop) multi_site safe xs k = do {
     (found, k) \<leftarrow> scan_weighted multi_site safe 0 xs (k\<lparr>wg_location := 0, wg_collision := 0\<rparr>);
     if found then Some (True, k)
     else if length (wg_selected k) + wg_collision k < safe then Some (False, k)
     else loop_weighted loop multi_site safe xs k }"

text \<open>The estimate of the free space of a selected storage is decreased.\<close>

definition decrease_free :: "u64 \<Rightarrow> u64 \<Rightarrow> u64" where
  "decrease_free decrease_size free =
     (if decrease_size = 0 then free
      else if free > 256 * decrease_size then free - decrease_size
      else if free > 64 * decrease_size then free - decrease_size div 2
      else if free > decrease_size then free - decrease_size div 8
      else free div 2)"

definition decrease_storages :: "u64 \<Rightarrow> nat list \<Rightarrow> volume_storage_t list \<Rightarrow> volume_storage_t list" where
  "decrease_storages d idxs xs = fold (\<lambda>i xs. xs[i := (xs ! i)\<lparr>stat_free := decrease_free d (stat_free (xs ! i))\<rparr>]) idxs xs"

text \<open>The configured estimate, in megabytes, is an integer of 32 bits, and so is its product.\<close>

definition decrease_size :: "int \<Rightarrow> u64 option" where
  "decrease_size alloc_estimated_mb = (let b = alloc_estimated_mb * (1024 * 1024) in if - (2 ^ 31) \<le> b \<and> b < 2 ^ 31 then Some (word_of_int b) else None)"

text \<open>A selection with too few storages that are online and have free space is refused.\<close>

definition do_cluster_distribute_weighted_round_robin :: "int \<Rightarrow> int \<Rightarrow> bool \<Rightarrow> volume_storage_t list \<Rightarrow> (u8 list option \<times> volume_storage_t list) option" where
  "do_cluster_distribute_weighted_round_robin alloc_estimated_mb layout multi_site xs = do {
     (rozofs_inverse, rozofs_forward, rozofs_safe, _) \<leftarrow> rozofs_get_rozofs_invers_forward_safe layout;
     (found, k) \<leftarrow> loop_weighted 8 multi_site (nat rozofs_safe) xs \<lparr>wg_taken = 0, wg_location = 0, wg_collision = 0, wg_ok = 0, wg_selected = []\<rparr>;
     if \<not> found \<or> int (wg_ok k) < rozofs_forward then Some (None, xs)
     else do {
       d \<leftarrow> decrease_size alloc_estimated_mb;
       let sel = wg_selected k;
       let ys = decrease_storages d (take (nat rozofs_inverse) sel) xs;
       let ys = decrease_storages (d div 2) (drop (nat rozofs_inverse) (take (nat rozofs_forward) sel)) ys;
       let ys = decrease_storages (d div 2 div 16) (drop (nat rozofs_forward) sel) ys;
       Some (Some (map (\<lambda>i. vs_sid (xs ! i)) sel), sort_list volume_storage_compare ys) } }"

text \<open>Size balancing selects in the same way and then computes the free space of the cluster anew.\<close>

definition do_cluster_distribute_size_balancing :: "int \<Rightarrow> int \<Rightarrow> bool \<Rightarrow> u64 \<Rightarrow> volume_storage_t list \<Rightarrow> (u8 list option \<times> u64 \<times> volume_storage_t list) option" where
  "do_cluster_distribute_size_balancing alloc_estimated_mb layout multi_site free xs = do {
     (r, xs) \<leftarrow> do_cluster_distribute_weighted_round_robin alloc_estimated_mb layout multi_site xs;
     Some (r, if r = None then free else sum_list (map stat_free xs), xs) }"

subsection \<open>Volumes\<close>

definition do_cluster_distribute :: "int \<Rightarrow> int \<Rightarrow> int \<Rightarrow> int \<Rightarrow> bool \<Rightarrow> cluster_t \<Rightarrow> (u8 list option \<times> cluster_t) option" where
  "do_cluster_distribute rule alloc_estimated_mb layout site_idx multi_site c = do {
     xs \<leftarrow> arr_get (cl_storages c) site_idx;
     (r, free, xs) \<leftarrow> (
       if rule = rozofs_file_distribution_size_balancing then do_cluster_distribute_size_balancing alloc_estimated_mb layout multi_site (cl_free c) xs
       else if rule = rozofs_file_distribution_weigthed_round_robin
         then map_option (\<lambda>(r, xs). (r, cl_free c, xs)) (do_cluster_distribute_weighted_round_robin alloc_estimated_mb layout multi_site xs)
       else if strict_rule rule then map_option (\<lambda>(r, xs). (r, cl_free c, xs)) (do_cluster_distribute_strict_round_robin layout multi_site xs)
       else Some (None, cl_free c, xs));
     lists \<leftarrow> arr_set (cl_storages c) site_idx xs;
     Some (r, c\<lparr>cl_free := free, cl_storages := lists\<rparr>) }"

text \<open>The clusters are tried in turn. The one that is chosen goes to the end of the list or, with size balancing, behind the clusters that have at least as much free space.\<close>

fun sink_cluster :: "cluster_t \<Rightarrow> cluster_t list \<Rightarrow> cluster_t list" where
  "sink_cluster c [] = [c]"
| "sink_cluster c (n # ns) = (if cl_free c > cl_free n then c # n # ns else n # sink_cluster c ns)"

fun try_clusters :: "int \<Rightarrow> int \<Rightarrow> int \<Rightarrow> int \<Rightarrow> bool \<Rightarrow> cluster_t list \<Rightarrow> ((u16 \<times> u8 list) option \<times> cluster_t list) option" where
  "try_clusters rule mb layout site_idx multi_site [] = Some (None, [])"
| "try_clusters rule mb layout site_idx multi_site (c # cs) = do {
     (r, c) \<leftarrow> do_cluster_distribute rule mb layout site_idx multi_site c;
     (case r of
        Some sids \<Rightarrow> Some (Some (cl_cid c, sids), if rule \<noteq> rozofs_file_distribution_size_balancing then cs @ [c] else sink_cluster c cs)
      | None \<Rightarrow> do { (r, cs) \<leftarrow> try_clusters rule mb layout site_idx multi_site cs; Some (r, c # cs) }) }"

text \<open>No cluster: \<^verbatim>\<open>ENOSPC\<close>.\<close>

definition volume_distribute :: "int \<Rightarrow> int \<Rightarrow> int \<Rightarrow> int \<Rightarrow> int \<Rightarrow> volume_t \<Rightarrow> ((u16 \<times> u8 list) option \<times> volume_t) option" where
  "volume_distribute rule mb local_site layout site_number v = do {
     let site_idx = (if vl_georep v then site_number else local_site);
     cs \<leftarrow> arr_get (vl_distribute v) (vl_active_list v);
     (r, cs) \<leftarrow> try_clusters rule mb layout site_idx (vl_multi_site v) cs;
     lists \<leftarrow> arr_set (vl_distribute v) (vl_active_list v) cs;
     Some (r, v\<lparr>vl_distribute := lists\<rparr>) }"

text \<open>The check of a distribution: the storages of the cluster that are in it are counted.\<close>

fun count_matches :: "nat \<Rightarrow> int list \<Rightarrow> volume_storage_t list \<Rightarrow> nat \<Rightarrow> bool" where
  "count_matches safe sids [] nbMatch = False"
| "count_matches safe sids (vs # xs) nbMatch = (
     let nbMatch = (if uint (vs_sid vs) \<in> set (take safe sids) then nbMatch + 1 else nbMatch) in
     if nbMatch = safe then True else count_matches safe sids xs nbMatch)"

definition volume_distribution_check :: "int \<Rightarrow> nat \<Rightarrow> int \<Rightarrow> int list \<Rightarrow> volume_t \<Rightarrow> bool option" where
  "volume_distribution_check local_site safe cid sids v =
     (case List.find (\<lambda>c. uint (cl_cid c) = cid) (vl_clusters v) of
        None \<Rightarrow> Some False
      | Some c \<Rightarrow> do { xs \<leftarrow> arr_get (cl_storages c) local_site; Some (count_matches safe sids xs 0) })"



end
