(* ===== verification/Volume_Select.thy ===== *)
theory Volume_Select
  imports Volume
begin

text \<open>
  The selection of the storages of a cluster (\<^verbatim>\<open>src/exportd/volume.c\<close>): both scanning loops are passes in the sense of \<^verbatim>\<open>Selection\<close>, so that what they select is spread evenly over the
  locations, and they find a distribution exactly when that many passes can.
\<close>

section \<open>Sorting\<close>

text \<open>The storages that are online come first, then the ones with more free space.\<close>

definition storage_before :: "volume_storage_t \<Rightarrow> volume_storage_t \<Rightarrow> bool" where
  "storage_before a b \<longleftrightarrow> (vs_status a \<noteq> 0 \<and> vs_status b = 0) \<or> ((vs_status a = 0 \<longleftrightarrow> vs_status b = 0) \<and> stat_free b \<le> stat_free a)"

interpretation by_space: sort_cmp volume_storage_compare storage_before
proof
  fix x y
  have "0 < uint (vs_status v)" if "vs_status v \<noteq> 0" for v :: volume_storage_t
    using that by (metis uint_0_iff uint_lt_0 linorder_neqE_linordered_idom)
  then show "volume_storage_compare x y \<le> 0 \<Longrightarrow> storage_before x y" "\<not> volume_storage_compare x y \<le> 0 \<Longrightarrow> storage_before y x"
    by (fastforce simp: volume_storage_compare_def storage_before_def split: if_splits)+
qed (auto simp: storage_before_def)

interpretation by_capacity: sort_cmp cluster_compare_capacity "\<lambda>a b. cl_free b \<le> cl_free a"
  by unfold_locales (auto simp: cluster_compare_capacity_def split: if_splits)

section \<open>Strict round robin\<close>

definition storage_key :: "bool \<Rightarrow> volume_storage_t \<Rightarrow> u8 \<times> int" where
  "storage_key multi_site vs = (vs_sid vs, location multi_site vs)"

definition rr_view :: "round_robin \<Rightarrow> u8 choice" where
  "rr_view k = (rr_sids k, bitmap_members (rr_location k), rr_collision k)"

definition rr_wf :: "round_robin \<Rightarrow> bool" where
  "rr_wf k \<longleftrightarrow> length (rr_selected k) = 4 \<and> length (rr_location k) = 4 \<and> bitmap_members (rr_selected k) = uint ` set (rr_sids k)"

lemma storage_key_count [simp]: "storage_key multi_site (count_role role w vs) = storage_key multi_site vs"
  by (cases role) (simp_all add: storage_key_def count_role_def location_def)

lemma byte_in_bitmap: "length bm = 4 \<Longrightarrow> ROZOFS_BITMAP64_TEST1 (uint b) bm = Some (uint b \<in> bitmap_members bm)" for b :: u8
  using bm64.test_ok[of "uint b" bm] uint_lt2p[of b] by (auto simp: bm64.members_def)

lemma uint_mem [simp]: "uint b \<in> uint ` S \<longleftrightarrow> b \<in> S"
  by (metis image_iff word_of_int_uint)

lemma take_storage_ok:
  assumes "rr_wf k" "loc = location multi_site vs"
  shows "\<exists>k'. take_storage role vs loc k = Some (count_role role (rr_weight k) vs, k') \<and> rr_wf k'
    \<and> rr_view k' = (rr_sids k @ [vs_sid vs], insert loc (bitmap_members (rr_location k)), rr_collision k)"
proof -
  have r: "0 \<le> loc" "loc < 256" using assms(2) uint_lt2p[of "siteNum vs"] uint_lt2p[of "host_rank vs"] by (auto simp: location_def)
  obtain sel where sel: "ROZOFS_BITMAP64_SET (uint (vs_sid vs)) (rr_selected k) = Some sel" "length sel = 4"
    "bitmap_members sel = insert (uint (vs_sid vs)) (bitmap_members (rr_selected k))"
    using bm64.members_bset[of "uint (vs_sid vs)" "rr_selected k"] assms(1) uint_lt2p[of "vs_sid vs"] by (auto simp: rr_wf_def)
  obtain lbm where lbm: "ROZOFS_BITMAP64_SET loc (rr_location k) = Some lbm" "length lbm = 4" "bitmap_members lbm = insert loc (bitmap_members (rr_location k))"
    using bm64.members_bset[of loc "rr_location k"] assms(1) r by (auto simp: rr_wf_def)
  show ?thesis using sel lbm assms(1) by (auto simp: take_storage_def rr_wf_def rr_view_def)
qed

lemma scan_role_pick:
  "rr_wf k \<Longrightarrow> \<exists>found xs' k'. scan_role role multi_site nb xs k = Some (found, xs', k') \<and> rr_wf k'
    \<and> map (storage_key multi_site) xs' = map (storage_key multi_site) xs
    \<and> pick nb (map (storage_key multi_site) xs) (rr_view k) = (found, rr_view k')"
proof (induction xs arbitrary: k)
  case (Cons vs xs)
  have t: "ROZOFS_BITMAP64_TEST1 (uint (vs_sid vs)) (rr_selected k) = Some (vs_sid vs \<in> set (rr_sids k))"
    using byte_in_bitmap[of "rr_selected k"] Cons.prems by (simp add: rr_wf_def)
  have l: "ROZOFS_BITMAP64_TEST1 (location multi_site vs) (rr_location k) = Some (location multi_site vs \<in> bitmap_members (rr_location k))"
    using byte_in_bitmap[of "rr_location k"] Cons.prems by (simp add: rr_wf_def location_def)
  show ?case
  proof (cases "vs_sid vs \<in> set (rr_sids k)")
    case True
    then show ?thesis using Cons.IH[OF Cons.prems] t by (auto simp: storage_key_def rr_view_def)
  next
    case new: False
    show ?thesis
    proof (cases "location multi_site vs \<in> bitmap_members (rr_location k)")
      case True
      have "rr_wf (k\<lparr>rr_collision := rr_collision k + 1\<rparr>)" using Cons.prems by (simp add: rr_wf_def)
      from Cons.IH[OF this] show ?thesis using t l new True by (auto simp: storage_key_def rr_view_def)
    next
      case False
      obtain k1 where k1: "take_storage role vs (location multi_site vs) k = Some (count_role role (rr_weight k) vs, k1)" "rr_wf k1"
        "rr_view k1 = (rr_sids k @ [vs_sid vs], insert (location multi_site vs) (bitmap_members (rr_location k)), rr_collision k)"
        using take_storage_ok[OF Cons.prems refl] by blast
      have len: "length (rr_sids k1) = length (rr_sids k) + 1" using k1(3) by (simp add: rr_view_def)
      have p: "pick nb (map (storage_key multi_site) (vs # xs)) (rr_view k)
          = (if length (rr_sids k) + 1 = nb then (True, rr_view k1) else pick nb (map (storage_key multi_site) xs) (rr_view k1))"
        using new False k1(3) by (simp add: storage_key_def rr_view_def[of k])
      show ?thesis
      proof (cases "length (rr_sids k) + 1 = nb")
        case True
        then show ?thesis using t l new False k1(1,2) len p by auto
      next
        case more: False
        then show ?thesis using Cons.IH[OF k1(2)] t l new False k1(1) len p by auto
      qed
    qed
  qed
qed auto

lemma members_reset [simp]: "bitmap_members (ROZOFS_BITMAP64_ALL_RESET bm) = {}"
  by (simp add: bitmap_members_empty ROZOFS_BITMAP64_ALL_RESET_def)

lemma length_reset [simp]: "length (ROZOFS_BITMAP64_ALL_RESET bm) = length bm"
  by (simp add: ROZOFS_BITMAP64_ALL_RESET_def)

interpretation strict: scanner
  "\<lambda>nb (xs, k). scan_role role multi_site nb xs k"
  "\<lambda>n nb (xs, k). loop_role n role multi_site nb xs k"
  "\<lambda>s. s"
  "\<lambda>(xs, k). (xs, k\<lparr>rr_location := ROZOFS_BITMAP64_ALL_RESET (rr_location k), rr_collision := 0\<rparr>)"
  "\<lambda>(xs, k). rr_view k"
  "\<lambda>(xs, k). map (storage_key multi_site) xs"
  "\<lambda>(xs, k). rr_wf k"
  for role multi_site
proof
  fix s :: "volume_storage_t list \<times> round_robin" and nb
  assume "case s of (xs, k) \<Rightarrow> rr_wf k"
  then show "\<exists>found s'. (case s of (xs, k) \<Rightarrow> scan_role role multi_site nb xs k) = Some (found, s') \<and> (case s' of (xs, k) \<Rightarrow> rr_wf k)
      \<and> (case s' of (xs, k) \<Rightarrow> map (storage_key multi_site) xs) = (case s of (xs, k) \<Rightarrow> map (storage_key multi_site) xs)
      \<and> pick nb (case s of (xs, k) \<Rightarrow> map (storage_key multi_site) xs) (case s of (xs, k) \<Rightarrow> rr_view k) = (found, case s' of (xs, k) \<Rightarrow> rr_view k)"
    using scan_role_pick[of "snd s" role multi_site nb "fst s"] by (fastforce split: prod.splits)
next
  fix n nb and s :: "volume_storage_t list \<times> round_robin"
  obtain xs k where s: "s = (xs, k)" by force
  show "(case s of (xs, k) \<Rightarrow> loop_role (Suc n) role multi_site nb xs k) = Option.bind (case s of (xs, k) \<Rightarrow> scan_role role multi_site nb xs k) (\<lambda>(found, s').
      if found then Some (True, s')
      else if length (fst (case s' of (xs, k) \<Rightarrow> rr_view k)) + snd (snd (case s' of (xs, k) \<Rightarrow> rr_view k)) < nb then Some (False, s')
      else (case (case s' of (xs, k) \<Rightarrow> (xs, k\<lparr>rr_location := ROZOFS_BITMAP64_ALL_RESET (rr_location k), rr_collision := 0\<rparr>)) of
        (xs, k) \<Rightarrow> loop_role n role multi_site nb xs k))"
    unfolding s by (cases "scan_role role multi_site nb xs k") (auto simp: rr_view_def)
qed (auto simp: rr_view_def rr_wf_def)


lemma scan_role_keeps:
  assumes "\<And>w vs. f (count_role role w vs) = f vs"
  shows "scan_role role multi_site nb xs k = Some (found, xs', k') \<Longrightarrow> map f xs' = map f xs"
proof (induction xs arbitrary: k xs')
  case (Cons vs xs)
  from Cons.prems consider (skip) k1 ys where "scan_role role multi_site nb xs k1 = Some (found, ys, k')" "xs' = vs # ys"
    | (last) vs' k1 where "take_storage role vs (location multi_site vs) k = Some (vs', k1)" "xs' = vs' # xs"
    | (more) vs' k1 ys where "take_storage role vs (location multi_site vs) k = Some (vs', k1)" "scan_role role multi_site nb xs k1 = Some (found, ys, k')" "xs' = vs' # ys"
    unfolding scan_role.simps Let_def by (auto simp: bind_eq_Some_conv split: if_splits)
  then show ?case
    by cases (auto simp: take_storage_def bind_eq_Some_conv assms dest!: Cons.IH)
qed simp

lemma loop_role_keeps:
  assumes "\<And>w vs. f (count_role role w vs) = f vs"
  shows "loop_role n role multi_site nb xs k = Some (found, xs', k') \<Longrightarrow> map f xs' = map f xs"
proof (induction n arbitrary: xs k)
  case (Suc n)
  then show ?case using scan_role_keeps[OF assms] by (fastforce simp: bind_eq_Some_conv split: if_splits prod.splits)
qed simp

text \<open>What a distribution leaves of a storage: all but its counters and its free space.\<close>

definition storage_conf :: "volume_storage_t \<Rightarrow> u8 \<times> string \<times> u8 \<times> u8 \<times> u8 \<times> u64" where
  "storage_conf vs = (vs_sid vs, vs_host vs, host_rank vs, siteNum vs, vs_status vs, stat_size vs)"

lemma storage_conf_count [simp]: "storage_conf (count_role role w vs) = storage_conf vs"
  by (cases role) (simp_all add: storage_conf_def count_role_def)

lemma layout_counts:
  assumes "0 \<le> layout" "layout < 3"
  obtains i f s where "rozofs_get_rozofs_invers_forward_safe layout = Some (i, f, s, 0)" "0 < i" "i < f" "f < s" "s \<le> 16" "rozofs_get_rozofs_safe layout = s"
    "layout < 2 \<Longrightarrow> i \<le> 4 \<and> f \<le> i + 2 \<and> s \<le> f + 2 \<and> s \<le> 8" "rozofs_get_rozofs_forward layout = f"
proof -
  have "list_all (\<lambda>l. case rozofs_get_rozofs_invers_forward_safe l of Some (i, f, s, r) \<Rightarrow> r = 0 \<and> 0 < i \<and> i < f \<and> f < s \<and> s \<le> 16 \<and> rozofs_get_rozofs_safe l = s
      \<and> (l < 2 \<longrightarrow> i \<le> 4 \<and> f \<le> i + 2 \<and> s \<le> f + 2 \<and> s \<le> 8) \<and> rozofs_get_rozofs_forward l = f | None \<Rightarrow> False) [0, 1, 2]"
    by code_simp
  moreover have "layout \<in> set [0, 1, 2]" using assms by auto
  ultimately show thesis using that by (auto simp: list_all_iff split: option.splits)
qed

definition same_storages :: "volume_storage_t list \<Rightarrow> volume_storage_t list \<Rightarrow> bool" where
  "same_storages xs ys \<longleftrightarrow> mset (map storage_conf xs) = mset (map storage_conf ys)"

lemma same_storages_refl [simp]: "same_storages xs xs"
  by (simp add: same_storages_def)

lemma same_storages_trans: "same_storages xs ys \<Longrightarrow> same_storages ys zs \<Longrightarrow> same_storages xs zs"
  by (simp add: same_storages_def)

lemma same_storages_map: "map storage_conf xs = map storage_conf ys \<Longrightarrow> same_storages xs ys"
  unfolding same_storages_def by (rule arg_cong)

lemma same_storages_sort [simp]: "same_storages (sort_list cmp xs) xs"
  by (simp add: same_storages_def sort_list_def)

lemma same_storages_image:
  assumes "same_storages xs ys" "\<And>vs. f vs = g (storage_conf vs)"
  shows "mset (map f xs) = mset (map f ys)"
proof -
  have "f = g \<circ> storage_conf" using assms(2) by auto
  then have "mset (map f zs) = image_mset g (mset (map storage_conf zs))" for zs by (simp add: multiset.map_comp)
  then show ?thesis using assms(1) unfolding same_storages_def by simp
qed

lemma same_storages_facts:
  assumes "same_storages xs ys"
  shows "set (map (storage_key multi_site) xs) = set (map (storage_key multi_site) ys)"
    and "distinct (map vs_sid xs) \<longleftrightarrow> distinct (map vs_sid ys)" "set (map vs_sid xs) = set (map vs_sid ys)" "length xs = length ys"
proof -
  show "set (map (storage_key multi_site) xs) = set (map (storage_key multi_site) ys)"
    using same_storages_image[OF assms, of "storage_key multi_site" "\<lambda>(sid, host, rank, site, _). (sid, uint (if multi_site then site else rank))"]
    by (metis (mono_tags, lifting) storage_conf_def storage_key_def location_def case_prod_conv set_mset_mset)
  have m: "mset (map vs_sid xs) = mset (map vs_sid ys)" by (rule same_storages_image[OF assms, of _ fst]) (simp add: storage_conf_def)
  show "distinct (map vs_sid xs) \<longleftrightarrow> distinct (map vs_sid ys)" using mset_eq_imp_distinct_iff[OF m] .
  show "set (map vs_sid xs) = set (map vs_sid ys)" using m mset_eq_setD by blast
  show "length xs = length ys" using m by (metis length_map size_mset)
qed

lemma key_fst [simp]: "fst (storage_key multi_site vs) = vs_sid vs" "fst \<circ> storage_key multi_site = vs_sid"
  by (auto simp: storage_key_def)

lemma loop_role_selects:
  assumes "rr_wf k" "distinct (map vs_sid xs)" "spread (set (map (storage_key multi_site) xs)) L (rr_sids k) (bitmap_members (rr_location k))" "length (rr_sids k) < nb"
  obtains found xs' k' where "loop_role n role multi_site nb xs k = Some (found, xs', k')" "rr_wf k'" "same_storages xs' xs"
    "found \<longleftrightarrow> nb \<le> capacity (set (map (storage_key multi_site) xs)) (L + n)"
    "found \<Longrightarrow> length (rr_sids k') = nb \<and> (\<exists>L'. spread (set (map (storage_key multi_site) xs)) L' (rr_sids k') (bitmap_members (rr_location k')))"
proof -
  from strict.loop_selects[of "(xs, k)" multi_site L nb n role] assms
  obtain found xs' k' where l: "loop_role n role multi_site nb xs k = Some (found, xs', k')" "rr_wf k'"
    "found \<longleftrightarrow> nb \<le> capacity (set (map (storage_key multi_site) xs)) (L + n)"
    "found \<longrightarrow> length (rr_sids k') = nb \<and> (\<exists>L'. spread (set (map (storage_key multi_site) xs)) L' (rr_sids k') (bitmap_members (rr_location k')))"
    by (auto simp: rr_view_def)
  moreover have "same_storages xs' xs" by (rule same_storages_map) (rule loop_role_keeps[OF storage_conf_count l(1)])
  ultimately show thesis using that by blast
qed

text \<open>What a distribution on the storages of a cluster promises: as many different storages as the layout asks for, spread evenly over the locations.\<close>

definition distribution_ok :: "bool \<Rightarrow> nat \<Rightarrow> volume_storage_t list \<Rightarrow> u8 list \<Rightarrow> bool" where
  "distribution_ok multi_site safe xs sids \<longleftrightarrow> length sids = safe \<and> distinct sids \<and> set sids \<subseteq> set (map vs_sid xs)
     \<and> evenly (set (map (storage_key multi_site) xs)) (set sids)"

lemma spread_distribution:
  assumes "distinct (map vs_sid xs)" "spread (set (map (storage_key multi_site) xs)) L sids M"
  shows "distribution_ok multi_site (length sids) xs sids"
proof -
  have I: "keyed (set (map (storage_key multi_site) xs))" by (rule keyed_set) (simp add: assms(1))
  have "fst ` set (map (storage_key multi_site) xs) = set (map vs_sid xs)" by (simp add: storage_key_def image_image)
  then show ?thesis using spread_evenly[OF I assms(2)] assms(2) unfolding distribution_ok_def spread_def by simp
qed

lemma distribution_same: "same_storages xs ys \<Longrightarrow> distribution_ok multi_site safe xs sids = distribution_ok multi_site safe ys sids"
  unfolding distribution_ok_def by (simp only: same_storages_facts)

lemma sorted_role_selects:
  assumes "rr_wf k" "same_storages ys xs" "distinct (map vs_sid xs)"
    "spread (set (map (storage_key multi_site) xs)) L (rr_sids k) (bitmap_members (rr_location k))" "length (rr_sids k) < nb"
  obtains found ys' k' where "loop_role n role multi_site nb (sort_list cmp ys) k = Some (found, ys', k')" "rr_wf k'" "same_storages ys' xs"
    "found \<longleftrightarrow> nb \<le> capacity (set (map (storage_key multi_site) xs)) (L + n)"
    "found \<Longrightarrow> length (rr_sids k') = nb \<and> (\<exists>L'. spread (set (map (storage_key multi_site) xs)) L' (rr_sids k') (bitmap_members (rr_location k')))"
proof -
  let ?zs = "sort_list cmp ys"
  have same: "same_storages ?zs xs" using same_storages_trans[OF same_storages_sort assms(2)] .
  have d: "distinct (map vs_sid ?zs)" using same_storages_facts(2)[OF same] assms(3) by simp
  have I: "set (map (storage_key multi_site) ?zs) = set (map (storage_key multi_site) xs)" by (rule same_storages_facts(1)[OF same])
  show thesis
    by (rule loop_role_selects[OF assms(1) d assms(4)[folded I] assms(5), of n role])
      (use same_storages_trans[OF _ same] I that in \<open>metis\<close>)
qed

text \<open>The small layouts ask for so few storages in each role that four passes give them or exhaust the cluster.\<close>

lemma role_capacity:
  assumes "keyed I" "spread I L S M" "n \<le> length S + 3 \<or> n \<le> 4"
  shows "n \<le> card I \<Longrightarrow> n \<le> capacity I (L + 4)"
  using capacity_step[OF assms(1), of "L + 1" 3] capacity_step[OF assms(1), of L 4] spread_capacity(2)[OF assms(1,2)] assms(3)
  by (auto simp: add.commute[of L 4])

lemma card_keys:
  assumes "distinct (map vs_sid xs)"
  shows "keyed (set (map (storage_key multi_site) xs))" "card (set (map (storage_key multi_site) xs)) = length xs"
proof -
  have d: "distinct (map fst (map (storage_key multi_site) xs))" using assms by simp
  show "keyed (set (map (storage_key multi_site) xs))" by (rule keyed_set[OF d])
  show "card (set (map (storage_key multi_site) xs)) = length xs" using distinct_card[of "map (storage_key multi_site) xs"] d distinct_map by fastforce
qed

lemma strict_distributes:
  assumes layout: "0 \<le> layout" "layout < 3" and d: "distinct (map vs_sid xs)"
  shows "\<exists>r xs'. do_cluster_distribute_strict_round_robin layout multi_site xs = Some (r, xs') \<and> same_storages xs' xs
    \<and> (case r of Some sids \<Rightarrow> distribution_ok multi_site (nat (rozofs_get_rozofs_safe layout)) xs sids
      | None \<Rightarrow> capacity (set (map (storage_key multi_site) xs)) 4 < nat (rozofs_get_rozofs_safe layout)
          \<and> (layout < 2 \<longrightarrow> length xs < nat (rozofs_get_rozofs_safe layout)))"
proof -
  obtain i f s where p: "rozofs_get_rozofs_invers_forward_safe layout = Some (i, f, s, 0)" "0 < i" "i < f" "f < s" "rozofs_get_rozofs_safe layout = s"
      "layout < 2 \<Longrightarrow> i \<le> 4 \<and> f \<le> i + 2 \<and> s \<le> f + 2 \<and> s \<le> 8"
    using layout_counts[OF layout] by metis
  let ?z = "ROZOFS_BITMAP64_ALL_RESET (replicate 4 0)" and ?I = "set (map (storage_key multi_site) xs)"
  let ?k = "\<lparr>rr_selected = ?z, rr_location = ?z, rr_collision = 0, rr_sids = [], rr_weight = 0\<rparr>"
  note keys = card_keys[OF d, of multi_site]
  have small: "capacity ?I 4 < nat s \<and> (layout < 2 \<longrightarrow> length xs < nat s)"
    if "\<not> nat n \<le> capacity ?I (L + 4)" "n \<le> s" "spread ?I L S M" "layout < 2 \<longrightarrow> nat n \<le> length S + 3 \<or> nat n \<le> 4" for n L S M
  proof -
    have "capacity ?I 4 < nat s" using capacity_mono[of 4 "L + 4" ?I] that(1,2) by linarith
    moreover have "length xs < nat s" if "layout < 2"
      using role_capacity[OF keys(1) \<open>spread ?I L S M\<close>, of "nat n"] that \<open>layout < 2 \<longrightarrow> _\<close> \<open>\<not> nat n \<le> _\<close> \<open>n \<le> s\<close> unfolding keys(2) by linarith
    ultimately show ?thesis by simp
  qed
  have "rr_wf ?k" "spread ?I 0 (rr_sids ?k) (bitmap_members (rr_location ?k))" "length (rr_sids ?k) < nat i"
    using spread_init p(2) by (simp_all add: rr_wf_def)
  then obtain b1 x1 k1 where 1: "loop_role 4 Inverse multi_site (nat i) (sort_list compareInverse xs) ?k = Some (b1, x1, k1)" "rr_wf k1" "same_storages x1 xs"
    "b1 \<longleftrightarrow> nat i \<le> capacity ?I (0 + 4)" "b1 \<Longrightarrow> length (rr_sids k1) = nat i \<and> (\<exists>L'. spread ?I L' (rr_sids k1) (bitmap_members (rr_location k1)))"
    using sorted_role_selects[OF _ same_storages_refl d] by metis
  show ?thesis
  proof (cases b1)
    case False
    then have "capacity ?I 4 < nat s \<and> (layout < 2 \<longrightarrow> length xs < nat s)" using 1(4) p small[of i 0 "[]" "{}", OF _ _ spread_init] by force
    then show ?thesis using 1 p False by (simp add: do_cluster_distribute_strict_round_robin_def Let_def)
  next
    case b1: True
    then obtain L1 where L1: "spread ?I L1 (rr_sids k1) (bitmap_members (rr_location k1))" "length (rr_sids k1) < nat f" using 1(5) p(2,3) by auto
    obtain b2 x2 k2 where 2: "loop_role 4 Forward multi_site (nat f) (sort_list compareForward x1) k1 = Some (b2, x2, k2)" "rr_wf k2" "same_storages x2 xs"
      "b2 \<longleftrightarrow> nat f \<le> capacity ?I (L1 + 4)" "b2 \<Longrightarrow> length (rr_sids k2) = nat f \<and> (\<exists>L'. spread ?I L' (rr_sids k2) (bitmap_members (rr_location k2)))"
      using sorted_role_selects[OF 1(2,3) d L1] by metis
    show ?thesis
    proof (cases b2)
      case False
      then have "capacity ?I 4 < nat s \<and> (layout < 2 \<longrightarrow> length xs < nat s)" using 2(4) p small[of f L1, OF _ _ L1(1)] 1(5)[OF b1] by force
      then show ?thesis using 1(1) 2 b1 p False by (simp add: do_cluster_distribute_strict_round_robin_def Let_def)
    next
      case b2: True
      let ?k2 = "k2\<lparr>rr_weight := s - f\<rparr>"
      obtain L2 where L2: "spread ?I L2 (rr_sids ?k2) (bitmap_members (rr_location ?k2))" "length (rr_sids ?k2) < nat s" "rr_wf ?k2"
        using b2 2(2,5) p(2-4) by (auto simp: rr_wf_def)
      obtain b3 x3 k3 where 3: "loop_role 4 Spare multi_site (nat s) (sort_list compareSpare x2) ?k2 = Some (b3, x3, k3)" "same_storages x3 xs"
        "b3 \<longleftrightarrow> nat s \<le> capacity ?I (L2 + 4)" "b3 \<Longrightarrow> length (rr_sids k3) = nat s \<and> (\<exists>L'. spread ?I L' (rr_sids k3) (bitmap_members (rr_location k3)))"
        using sorted_role_selects[OF L2(3) 2(3) d L2(1,2)] by metis
      have "do_cluster_distribute_strict_round_robin layout multi_site xs = Some (if b3 then Some (rr_sids k3) else None, x3)"
        using 1(1) 2(1) 3(1) b1 b2 p(1) by (simp add: do_cluster_distribute_strict_round_robin_def Let_def)
      moreover have "distribution_ok multi_site (nat s) xs (rr_sids k3)" if b3 using 3(4)[OF that] spread_distribution[OF d] by metis
      moreover have "capacity ?I 4 < nat s \<and> (layout < 2 \<longrightarrow> length xs < nat s)" if "\<not> b3"
        using small[of s L2, OF _ _ L2(1)] that 3(3) 2(5)[OF b2] p(2-4,6) by force
      ultimately show ?thesis using 3(2) p(5) by simp
    qed
  qed
qed

section \<open>Weighted round robin\<close>

definition usable :: "volume_storage_t \<Rightarrow> bool" where
  "usable vs \<longleftrightarrow> vs_status vs \<noteq> 0 \<and> stat_free vs \<noteq> 0"

definition mask_members :: "u64 \<Rightarrow> int set" where
  "mask_members w = {l. 0 \<le> l \<and> bit w (nat l)}"

definition wg_view :: "weighted \<Rightarrow> nat choice" where
  "wg_view k = (wg_selected k, mask_members (wg_location k), wg_collision k)"

text \<open>The masks hold 64 storages and 64 locations.\<close>

definition fits_masks :: "bool \<Rightarrow> volume_storage_t list \<Rightarrow> bool" where
  "fits_masks multi_site xs \<longleftrightarrow> length xs \<le> 64 \<and> (\<forall>vs \<in> set xs. location multi_site vs < 64)"

definition wg_wf :: "bool \<Rightarrow> volume_storage_t list \<Rightarrow> weighted \<Rightarrow> bool" where
  "wg_wf multi_site xs k \<longleftrightarrow> fits_masks multi_site xs \<and> (\<forall>i. bit (wg_taken k) i \<longleftrightarrow> i \<in> set (wg_selected k))
     \<and> (\<forall>i \<in> set (wg_selected k). i < length xs) \<and> wg_ok k = length (filter (\<lambda>i. usable (xs ! i)) (wg_selected k))"

definition place_items :: "bool \<Rightarrow> volume_storage_t list \<Rightarrow> (nat \<times> int) list" where
  "place_items multi_site xs = zip [0..<length xs] (map (location multi_site) xs)"

lemma mask_bit: "n < 64 \<Longrightarrow> w AND 2 ^ n \<noteq> 0 \<longleftrightarrow> bit w n" for w :: u64
  using and_bit64[of w "int n"] by (simp add: ROZOFS_BITMAP64_BIT_def)

lemma bit_or_shift: "n < 64 \<Longrightarrow> bit (w OR 2 ^ n) i \<longleftrightarrow> bit w i \<or> i = n" for w :: u64
  by (auto simp: bit_simps dest: bit_imp_le_length)

lemma location_nonneg [simp]: "0 \<le> location multi_site vs"
  by (simp add: location_def)

lemma mask_insert: "n < 64 \<Longrightarrow> mask_members (w OR 2 ^ n) = insert (int n) (mask_members w)"
  unfolding mask_members_def by (auto simp: bit_or_shift)

lemma scan_weighted_pick:
  "wg_wf multi_site xs k \<Longrightarrow> ys = drop idx xs \<Longrightarrow> \<exists>found k'. scan_weighted multi_site nb idx ys k = Some (found, k') \<and> wg_wf multi_site xs k'
    \<and> pick nb (zip [idx..<length xs] (map (location multi_site) ys)) (wg_view k) = (found, wg_view k')"
proof (induction ys arbitrary: idx k)
  case (Cons vs ys)
  let ?l = "location multi_site vs"
  have i: "idx < length xs" "xs ! idx = vs" "ys = drop (idx + 1) xs" "vs \<in> set xs"
    using Cons.prems(2) by (metis drop_all list.distinct(1) not_less, metis nth_via_drop, metis drop_Suc list.sel(3) tl_drop add.commute plus_1_eq_Suc, metis in_set_dropD list.set_intros(1))
  have "fits_masks multi_site xs" using Cons.prems(1) by (simp add: wg_wf_def)
  then have r: "idx < 64" "nat ?l < 64" "int (nat ?l) = ?l" using i(1,4) by (force simp: fits_masks_def)+
  have u: "[idx..<length xs] = idx # [idx + 1..<length xs]" using i(1) by (simp add: upt_conv_Cons)
  have t: "wg_taken k AND 2 ^ idx \<noteq> 0 \<longleftrightarrow> idx \<in> set (wg_selected k)" using mask_bit[OF r(1)] Cons.prems(1) by (simp add: wg_wf_def)
  have l: "wg_location k AND 2 ^ nat ?l \<noteq> 0 \<longleftrightarrow> ?l \<in> mask_members (wg_location k)" using mask_bit[OF r(2)] by (simp add: mask_members_def)
  note IH = Cons.IH[OF _ i(3)]
  show ?case
  proof (cases "idx \<in> set (wg_selected k)")
    case True
    then show ?thesis using IH[OF Cons.prems(1)] t r u by (simp add: shift_one_def wg_view_def)
  next
    case new: False
    show ?thesis
    proof (cases "?l \<in> mask_members (wg_location k)")
      case True
      have "wg_wf multi_site xs (k\<lparr>wg_collision := wg_collision k + 1\<rparr>)" using Cons.prems(1) by (simp add: wg_wf_def)
      from IH[OF this] show ?thesis using t l r u new True by (simp add: shift_one_def wg_view_def)
    next
      case False
      let ?k = "k\<lparr>wg_ok := (if vs_status vs \<noteq> 0 \<and> stat_free vs \<noteq> 0 then wg_ok k + 1 else wg_ok k), wg_taken := wg_taken k OR 2 ^ idx,
        wg_location := wg_location k OR 2 ^ nat ?l, wg_selected := wg_selected k @ [idx]\<rparr>"
      have wf: "wg_wf multi_site xs ?k" using Cons.prems(1) i(1,2) r(1) by (auto simp: wg_wf_def bit_or_shift usable_def)
      have v: "wg_view ?k = (wg_selected k @ [idx], insert ?l (mask_members (wg_location k)), wg_collision k)"
        using mask_insert[OF r(2)] r(3) by (simp add: wg_view_def)
      show ?thesis
      proof (cases "length (wg_selected k) + 1 = nb")
        case True
        then show ?thesis using t l r u new False wf v by (auto simp: shift_one_def wg_view_def[of k] Let_def)
      next
        case more: False
        then show ?thesis using IH[OF wf] t l r u new False v by (auto simp: shift_one_def wg_view_def[of k] Let_def)
      qed
    qed
  qed
qed auto

interpretation weighted: scanner
  "\<lambda>nb k. scan_weighted multi_site nb 0 xs k"
  "\<lambda>n nb k. loop_weighted n multi_site nb xs k"
  "\<lambda>k. k\<lparr>wg_location := 0, wg_collision := 0\<rparr>"
  "\<lambda>k. k"
  wg_view
  "\<lambda>k. place_items multi_site xs"
  "wg_wf multi_site xs"
  for multi_site xs
proof
  fix s nb
  assume "wg_wf multi_site xs s"
  from scan_weighted_pick[OF this, of xs 0 nb]
  show "\<exists>found s'. scan_weighted multi_site nb 0 xs s = Some (found, s') \<and> wg_wf multi_site xs s' \<and> place_items multi_site xs = place_items multi_site xs
      \<and> pick nb (place_items multi_site xs) (wg_view s) = (found, wg_view s')"
    by (simp add: place_items_def)
next
  fix n nb and s :: weighted
  show "loop_weighted (Suc n) multi_site nb xs s = Option.bind (scan_weighted multi_site nb 0 xs (s\<lparr>wg_location := 0, wg_collision := 0\<rparr>)) (\<lambda>(found, s').
      if found then Some (True, s') else if length (fst (wg_view s')) + snd (snd (wg_view s')) < nb then Some (False, s') else loop_weighted n multi_site nb xs s')"
    by (cases "scan_weighted multi_site nb 0 xs (s\<lparr>wg_location := 0, wg_collision := 0\<rparr>)") (auto simp: wg_view_def)
qed (simp_all add: wg_view_def wg_wf_def mask_members_def)

subsection \<open>The distribution\<close>

lemma place_items_alt: "place_items multi_site xs = map (\<lambda>i. (i, location multi_site (xs ! i))) [0..<length xs]"
  unfolding place_items_def by (rule nth_equalityI) auto

lemma place_items_facts:
  "map fst (place_items multi_site xs) = [0..<length xs]"
  "set (map (storage_key multi_site) xs) = (\<lambda>(i, l). (vs_sid (xs ! i), l)) ` set (place_items multi_site xs)"
proof -
  show "map fst (place_items multi_site xs) = [0..<length xs]" by (simp add: place_items_def)
  have "map (storage_key multi_site) xs = map (\<lambda>(i, l). (vs_sid (xs ! i), l)) (place_items multi_site xs)"
    unfolding place_items_alt by (rule nth_equalityI) (auto simp: storage_key_def)
  then show "set (map (storage_key multi_site) xs) = (\<lambda>(i, l). (vs_sid (xs ! i), l)) ` set (place_items multi_site xs)" by (metis set_map)
qed

lemma place_items_inj: "distinct (map vs_sid xs) \<Longrightarrow> inj_on (\<lambda>i. vs_sid (xs ! i)) (fst ` set (place_items multi_site xs))"
  unfolding place_items_alt inj_on_def by (auto simp: distinct_conv_nth) metis

definition usable_count :: "volume_storage_t list \<Rightarrow> u8 list \<Rightarrow> nat" where
  "usable_count xs sids = length (filter (\<lambda>vs. usable vs \<and> vs_sid vs \<in> set sids) xs)"

lemma usable_selected:
  assumes "distinct (map vs_sid xs)" "distinct sel" "\<forall>i \<in> set sel. i < length xs"
  shows "length (filter (\<lambda>i. usable (xs ! i)) sel) = usable_count xs (map (\<lambda>i. vs_sid (xs ! i)) sel)"
proof -
  have "length (filter (\<lambda>i. usable (xs ! i)) sel) = card {i \<in> set sel. usable (xs ! i)}"
    using distinct_card[of "filter (\<lambda>i. usable (xs ! i)) sel"] assms(2) by simp
  also have "{i \<in> set sel. usable (xs ! i)} = {i. i < length xs \<and> usable (xs ! i) \<and> vs_sid (xs ! i) \<in> set (map (\<lambda>i. vs_sid (xs ! i)) sel)}"
    using assms(1,3) by (auto simp: distinct_conv_nth image_iff)
  finally show ?thesis by (simp add: usable_count_def length_filter_conv_card)
qed

lemma decrease_storages_conf [simp]: "map storage_conf (decrease_storages d idxs xs) = map storage_conf xs"
  unfolding decrease_storages_def
proof (induction idxs arbitrary: xs)
  case (Cons i idxs)
  have "map storage_conf (xs[i := (xs ! i)\<lparr>stat_free := f\<rparr>]) = map storage_conf xs" for f
    by (cases "i < length xs") (simp_all add: map_update storage_conf_def list_update_same_conv list_update_beyond)
  then show ?case using Cons by simp
qed simp

lemma weighted_selects:
  assumes "fits_masks multi_site xs" "distinct (map vs_sid xs)" "0 < safe"
  obtains found k where
    "loop_weighted 8 multi_site safe xs \<lparr>wg_taken = 0, wg_location = 0, wg_collision = 0, wg_ok = 0, wg_selected = []\<rparr> = Some (found, k)"
    "found \<longleftrightarrow> safe \<le> capacity (set (map (storage_key multi_site) xs)) 8"
    "found \<Longrightarrow> distribution_ok multi_site safe xs (map (\<lambda>i. vs_sid (xs ! i)) (wg_selected k))
      \<and> wg_ok k = usable_count xs (map (\<lambda>i. vs_sid (xs ! i)) (wg_selected k))"
proof -
  let ?k = "\<lparr>wg_taken = 0, wg_location = 0, wg_collision = 0, wg_ok = 0, wg_selected = []\<rparr>" and ?I = "set (place_items multi_site xs)"
  let ?f = "\<lambda>i. vs_sid (xs ! i)"
  have wf: "wg_wf multi_site xs ?k" using assms(1) by (simp add: wg_wf_def)
  have d: "distinct (map fst (place_items multi_site xs))" by (simp add: place_items_facts)
  note inj = place_items_inj[OF assms(2), of multi_site] and key = place_items_facts(2)[of multi_site xs]
  obtain found k where l: "loop_weighted 8 multi_site safe xs ?k = Some (found, k)" "wg_wf multi_site xs k" "found \<longleftrightarrow> safe \<le> capacity ?I (0 + 8)"
    "found \<longrightarrow> length (wg_selected k) = safe \<and> (\<exists>L'. spread ?I L' (wg_selected k) (mask_members (wg_location k)))"
    using weighted.loop_selects[OF wf d, of 0 safe 8] assms(3) spread_init by (auto simp: wg_view_def mask_members_def)
  moreover have "capacity ?I 8 = capacity (set (map (storage_key multi_site) xs)) 8" unfolding key by (rule capacity_rekey[OF inj, symmetric])
  moreover have "distribution_ok multi_site safe xs (map ?f (wg_selected k)) \<and> wg_ok k = usable_count xs (map ?f (wg_selected k))" if f: found
  proof -
    obtain L M where s: "spread ?I L (wg_selected k) M" "length (wg_selected k) = safe" using l(4) f by blast
    have sel: "distinct (wg_selected k)" "set (wg_selected k) \<subseteq> fst ` ?I" "\<forall>i \<in> set (wg_selected k). i < length xs"
      using s(1) l(2) by (simp_all add: spread_def wg_wf_def)
    have "evenly (set (map (storage_key multi_site) xs)) (?f ` set (wg_selected k))"
      unfolding key by (rule evenly_rekey[OF inj sel(2) spread_evenly[OF keyed_set[OF d] s(1)]])
    moreover have "distinct (map ?f (wg_selected k))" using sel(1) inj_on_subset[OF inj sel(2)] by (simp add: distinct_map)
    ultimately have "distribution_ok multi_site safe xs (map ?f (wg_selected k))" using s(2) sel(3) by (auto simp: distribution_ok_def)
    then show ?thesis using usable_selected[OF assms(2) sel(1,3)] l(2) by (simp add: wg_wf_def)
  qed
  ultimately show thesis using that by simp
qed

definition unusable_count :: "volume_storage_t list \<Rightarrow> nat" where
  "unusable_count xs = length (filter (\<lambda>vs. \<not> usable vs) xs)"

lemma usable_count_bound:
  assumes "distinct (map vs_sid xs)" "distribution_ok multi_site safe xs sids"
  shows "safe \<le> usable_count xs sids + unusable_count xs"
proof -
  let ?ys = "filter (\<lambda>sid. sid \<in> set sids) (map vs_sid xs)"
  have "length (filter (\<lambda>vs. vs_sid vs \<in> set sids) xs) \<le> usable_count xs sids + unusable_count xs"
    unfolding usable_count_def unusable_count_def by (induction xs) auto
  moreover have "length (filter (\<lambda>vs. vs_sid vs \<in> set sids) xs) = length ?ys" by (simp add: filter_map comp_def)
  moreover have "length ?ys = card (set ?ys)" using distinct_card[OF distinct_filter[OF assms(1)]] by simp
  moreover have "set ?ys = set sids" using assms(2) by (auto simp: distribution_ok_def)
  ultimately show ?thesis using assms(2) by (simp add: distribution_ok_def distinct_card)
qed

lemma weighted_distributes:
  assumes layout: "0 \<le> layout" "layout < 3" and xs: "distinct (map vs_sid xs)" "fits_masks multi_site xs" and mb: "decrease_size mb \<noteq> None"
  shows "\<exists>r xs'. do_cluster_distribute_weighted_round_robin mb layout multi_site xs = Some (r, xs') \<and> same_storages xs' xs
    \<and> (case r of Some sids \<Rightarrow> distribution_ok multi_site (nat (rozofs_get_rozofs_safe layout)) xs sids
          \<and> rozofs_get_rozofs_forward layout \<le> int (usable_count xs sids)
      | None \<Rightarrow> rozofs_get_rozofs_safe layout < rozofs_get_rozofs_forward layout + int (unusable_count xs) \<or> capacity (set (map (storage_key multi_site) xs)) 8 < nat (rozofs_get_rozofs_safe layout)
          \<and> (layout < 2 \<longrightarrow> length xs < nat (rozofs_get_rozofs_safe layout)))"
proof -
  obtain i f s where p: "rozofs_get_rozofs_invers_forward_safe layout = Some (i, f, s, 0)" "0 < i" "i < f" "f < s" "rozofs_get_rozofs_safe layout = s"
      "layout < 2 \<Longrightarrow> s \<le> 8" "rozofs_get_rozofs_forward layout = f"
    using layout_counts[OF layout] by metis
  let ?I = "set (map (storage_key multi_site) xs)"
  have "0 < nat s" using p by simp
  then obtain found k where l:
    "loop_weighted 8 multi_site (nat s) xs \<lparr>wg_taken = 0, wg_location = 0, wg_collision = 0, wg_ok = 0, wg_selected = []\<rparr> = Some (found, k)"
    "found \<longleftrightarrow> nat s \<le> capacity ?I 8"
    "found \<Longrightarrow> distribution_ok multi_site (nat s) xs (map (\<lambda>i. vs_sid (xs ! i)) (wg_selected k)) \<and> wg_ok k = usable_count xs (map (\<lambda>i. vs_sid (xs ! i)) (wg_selected k))"
    using weighted_selects[OF xs(2,1)] by metis
  show ?thesis
  proof (cases "\<not> found \<or> int (wg_ok k) < f")
    case True
    have "s < f + int (unusable_count xs)" if found using usable_count_bound[OF xs(1), of multi_site "nat s"] l(3)[OF that] True that p(2-4) by fastforce
    moreover have "capacity ?I 8 < nat s \<and> (layout < 2 \<longrightarrow> length xs < nat s)" if "\<not> found"
    proof -
      have "capacity ?I 8 = length xs \<or> 8 \<le> capacity ?I 8" using capacity_step[OF card_keys(1)[OF xs(1)], of multi_site 0 8] card_keys(2)[OF xs(1), of multi_site] by auto
      then show ?thesis using l(2) that p(6) by auto
    qed
    ultimately have "s < f + int (unusable_count xs) \<or> capacity ?I 8 < nat s \<and> (layout < 2 \<longrightarrow> length xs < nat s)" by blast
    moreover have "do_cluster_distribute_weighted_round_robin mb layout multi_site xs = Some (None, xs)"
      using True l(1) p(1) by (simp add: do_cluster_distribute_weighted_round_robin_def)
    ultimately show ?thesis using p(5,7) by simp
  next
    case False
    obtain d where d: "decrease_size mb = Some d" using mb by blast
    define ys where "ys = decrease_storages (d div 2 div 16) (drop (nat f) (wg_selected k))
      (decrease_storages (d div 2) (drop (nat i) (take (nat f) (wg_selected k))) (decrease_storages d (take (nat i) (wg_selected k)) xs))"
    have "do_cluster_distribute_weighted_round_robin mb layout multi_site xs
        = Some (Some (map (\<lambda>i. vs_sid (xs ! i)) (wg_selected k)), sort_list volume_storage_compare ys)"
      using False l(1) p(1) d by (simp add: do_cluster_distribute_weighted_round_robin_def Let_def ys_def)
    moreover have "same_storages (sort_list volume_storage_compare ys) xs"
      by (rule same_storages_trans[OF same_storages_sort same_storages_map]) (simp add: ys_def)
    moreover have "distribution_ok multi_site (nat s) xs (map (\<lambda>i. vs_sid (xs ! i)) (wg_selected k))" "f \<le> int (usable_count xs (map (\<lambda>i. vs_sid (xs ! i)) (wg_selected k)))"
      using l(3) False by auto
    ultimately show ?thesis using p(5,7) by simp
  qed
qed

section \<open>Clusters of more than 64 storages\<close>

lemma scan_overflows:
  assumes "finite Ls" "card Ls < safe"
  shows "idx \<le> 64 \<Longrightarrow> 64 < idx + length ys \<Longrightarrow> \<forall>vs \<in> set ys. location multi_site vs < 64 \<and> location multi_site vs \<in> Ls \<Longrightarrow> mask_members (wg_location k) \<subseteq> Ls \<Longrightarrow>
    length (wg_selected k) \<le> card (mask_members (wg_location k)) \<Longrightarrow> scan_weighted multi_site safe idx ys k = None"
proof (induction ys arbitrary: idx k)
  case (Cons vs ys)
  let ?l = "location multi_site vs"
  have fin: "finite (mask_members (wg_location k))" using finite_subset[OF Cons.prems(4) assms(1)] .
  show ?case
  proof (cases "idx = 64")
    case True
    then show ?thesis by (simp add: shift_one_def)
  next
    case False
    then have i: "idx < 64" "idx + 1 \<le> 64" "64 < idx + 1 + length ys" using Cons.prems(1,2) by simp_all
    have l: "nat ?l < 64" "int (nat ?l) = ?l" "?l \<in> Ls" using Cons.prems(3) by auto
    have rest: "\<forall>vs \<in> set ys. location multi_site vs < 64 \<and> location multi_site vs \<in> Ls" using Cons.prems(3) by simp
    show ?thesis
    proof (cases "wg_taken k AND 2 ^ idx \<noteq> 0 \<or> wg_location k AND 2 ^ nat ?l \<noteq> 0")
      case True
      then show ?thesis using Cons.IH[OF i(2,3) rest] Cons.prems(4,5) i(1) l(1) by (auto simp: shift_one_def)
    next
      case False
      have new: "?l \<notin> mask_members (wg_location k)" using False mask_bit[OF l(1)] by (simp add: mask_members_def)
      have m: "mask_members (wg_location k OR 2 ^ nat ?l) = insert ?l (mask_members (wg_location k))" using mask_insert[OF l(1)] l(2) by simp
      have "Suc (length (wg_selected k)) \<le> card (insert ?l (mask_members (wg_location k)))" using Cons.prems(5) new fin by simp
      moreover have "card (insert ?l (mask_members (wg_location k))) \<le> card Ls" using l(3) Cons.prems(4) by (intro card_mono assms(1)) simp
      ultimately show ?thesis using Cons.IH[OF i(2,3) rest] Cons.prems(4) i(1) l(1,3) m False assms(2) by (simp add: shift_one_def Let_def)
    qed
  qed
qed simp

text \<open>
  The masks of the rules that look at the free space hold 64 storages. When a cluster has more, and fewer hosts (or sites) than the layout asks for storages, the first pass goes past the
  64th storage and shifts by 64 or more, which is undefined, although a cluster may have up to 255 storages.
\<close>

theorem more_than_64_storages:
  assumes "64 < length xs" "\<forall>vs \<in> set xs. location multi_site vs < 64" "0 \<le> layout" "layout < 3"
    and "int (card (location multi_site ` set xs)) < rozofs_get_rozofs_safe layout"
  shows "do_cluster_distribute_weighted_round_robin mb layout multi_site xs = None"
proof -
  obtain i f s where p: "rozofs_get_rozofs_invers_forward_safe layout = Some (i, f, s, 0)" "rozofs_get_rozofs_safe layout = s" using layout_counts[OF assms(3,4)] by metis
  let ?k = "\<lparr>wg_taken = 0, wg_location = 0, wg_collision = 0, wg_ok = 0, wg_selected = []\<rparr>"
  have "scan_weighted multi_site (nat s) 0 xs (?k\<lparr>wg_location := 0, wg_collision := 0\<rparr>) = None"
    by (rule scan_overflows[of "location multi_site ` set xs"]) (use assms p(2) in \<open>auto simp: mask_members_def\<close>)
  then have "loop_weighted (Suc n) multi_site (nat s) xs ?k = None" for n by simp
  from this[of 7] have "loop_weighted 8 multi_site (nat s) xs ?k = None" by (simp add: eval_nat_numeral)
  then show ?thesis using p(1) by (simp add: do_cluster_distribute_weighted_round_robin_def)
qed

theorem more_than_64_storages_witness:
  "do_cluster_distribute_weighted_round_robin 0 0 False (map (\<lambda>i. volume_storage_initialize (word_of_nat i) ''h'' 0 1) [1..<70]) = None"
proof -
  let ?xs = "map (\<lambda>i. volume_storage_initialize (word_of_nat i) ''h'' 0 1) [1..<70]"
  have "location False ` set ?xs = {0}" by (force simp: location_def volume_storage_initialize_def)
  then show ?thesis using more_than_64_storages[of ?xs False 0 0] layout_params by (auto simp: location_def volume_storage_initialize_def)
qed



end
