(* ===== verification/Volume_Service.thy ===== *)
theory Volume_Service
  imports Volume_Select
begin

text \<open>
  The volumes of the export daemon (\<^verbatim>\<open>src/exportd/volume.c\<close>): balancing, distribution and the check of a distribution, one after the other.
\<close>

section \<open>Configuration of a cluster\<close>

text \<open>What no operation changes: the identifiers of a cluster and of its storages, and where the storages are.\<close>

definition storage_static :: "volume_storage_t \<Rightarrow> u8 \<times> u8 \<times> u8" where
  "storage_static vs = (vs_sid vs, host_rank vs, siteNum vs)"

definition same_static :: "volume_storage_t list \<Rightarrow> volume_storage_t list \<Rightarrow> bool" where
  "same_static xs ys \<longleftrightarrow> mset (map storage_static xs) = mset (map storage_static ys)"

definition same_cluster :: "cluster_t \<Rightarrow> cluster_t \<Rightarrow> bool" where
  "same_cluster c d \<longleftrightarrow> cl_cid c = cl_cid d \<and> list_all2 same_static (cl_storages c) (cl_storages d)"

lemma same_static_image:
  assumes "same_static xs ys" "\<And>vs. f vs = g (storage_static vs)"
  shows "mset (map f xs) = mset (map f ys)"
proof -
  have "f = g \<circ> storage_static" using assms(2) by auto
  then have "mset (map f zs) = image_mset g (mset (map storage_static zs))" for zs by (simp add: multiset.map_comp)
  then show ?thesis using assms(1) unfolding same_static_def by simp
qed

lemma same_static_facts:
  assumes "same_static xs ys"
  shows "mset (map vs_sid xs) = mset (map vs_sid ys)" "mset (map (storage_key multi_site) xs) = mset (map (storage_key multi_site) ys)"
proof -
  show "mset (map vs_sid xs) = mset (map vs_sid ys)" by (rule same_static_image[OF assms, of _ fst]) (simp add: storage_static_def)
  show "mset (map (storage_key multi_site) xs) = mset (map (storage_key multi_site) ys)"
    by (rule same_static_image[OF assms, of _ "\<lambda>(sid, rank, site). (sid, uint (if multi_site then site else rank))"])
      (simp add: storage_static_def storage_key_def location_def)
qed

lemma same_static_cong:
  assumes "same_static xs ys"
  shows "distinct (map vs_sid xs) = distinct (map vs_sid ys)" "fits_masks multi_site xs = fits_masks multi_site ys" "length xs = length ys"
    "set (map vs_sid xs) = set (map vs_sid ys)" "set (map (storage_key multi_site) xs) = set (map (storage_key multi_site) ys)"
proof -
  note f = same_static_facts[OF assms]
  show "distinct (map vs_sid xs) = distinct (map vs_sid ys)" by (rule mset_eq_imp_distinct_iff[OF f(1)])
  show l: "length xs = length ys" using f(1) by (metis length_map size_mset)
  show "set (map vs_sid xs) = set (map vs_sid ys)" using f(1) by (metis set_mset_mset)
  show k: "set (map (storage_key multi_site) xs) = set (map (storage_key multi_site) ys)" for multi_site using f(2) by (metis set_mset_mset)
  have "(\<forall>vs \<in> set zs. location multi_site vs < 64) \<longleftrightarrow> (\<forall>p \<in> set (map (storage_key multi_site) zs). snd p < 64)" for zs
    by (auto simp: storage_key_def)
  then show "fits_masks multi_site xs = fits_masks multi_site ys" by (simp only: fits_masks_def l k)
qed

lemma same_storages_static: "same_storages xs ys \<Longrightarrow> same_static xs ys"
  unfolding same_static_def
  by (rule same_storages_image[of _ _ _ "\<lambda>(sid, host, rank, site, _). (sid, rank, site)"]) (auto simp: storage_conf_def storage_static_def)

lemma same_static_refl [simp]: "same_static xs xs"
  by (simp add: same_static_def)

lemma same_static_trans: "same_static xs ys \<Longrightarrow> same_static ys zs \<Longrightarrow> same_static xs zs"
  by (simp add: same_static_def)

lemma same_cluster_refl [simp]: "same_cluster c c"
  by (simp add: same_cluster_def list.rel_refl)

lemma same_cluster_trans: "same_cluster c d \<Longrightarrow> same_cluster d e \<Longrightarrow> same_cluster c e"
  unfolding same_cluster_def using list_all2_trans[of same_static same_static same_static, OF same_static_trans] by auto

text \<open>The selections keep sids that are different; with the masks, only 64 storages and locations fit, and balancing has a table of 255 clusters.\<close>

definition cluster_ready :: "int \<Rightarrow> bool \<Rightarrow> cluster_t \<Rightarrow> bool" where
  "cluster_ready rule multi_site c \<longleftrightarrow> length (cl_storages c) = 2
     \<and> (\<forall>xs \<in> set (cl_storages c). distinct (map vs_sid xs) \<and> (ordered_rule rule \<longrightarrow> fits_masks multi_site xs))
     \<and> (ordered_rule rule \<longrightarrow> uint (cl_cid c) < ROZOFS_CLUSTERS_MAX)"

lemma list_all2_ball:
  assumes "list_all2 R xs ys" "\<And>x y. R x y \<Longrightarrow> P x = P y"
  shows "(\<forall>x \<in> set xs. P x) = (\<forall>y \<in> set ys. P y)"
  using assms(1) by induction (simp_all add: assms(2))

lemma same_cluster_ready: "same_cluster c d \<Longrightarrow> cluster_ready rule multi_site c = cluster_ready rule multi_site d"
proof -
  assume s: "same_cluster c d"
  then have "list_all2 same_static (cl_storages c) (cl_storages d)" by (simp add: same_cluster_def)
  then have "(\<forall>xs \<in> set (cl_storages c). distinct (map vs_sid xs) \<and> (ordered_rule rule \<longrightarrow> fits_masks multi_site xs))
      = (\<forall>xs \<in> set (cl_storages d). distinct (map vs_sid xs) \<and> (ordered_rule rule \<longrightarrow> fits_masks multi_site xs))"
    by (rule list_all2_ball) (simp add: same_static_cong)
  moreover have "length (cl_storages c) = length (cl_storages d)" using s list_all2_lengthD by (auto simp: same_cluster_def)
  ultimately show ?thesis using s by (simp add: cluster_ready_def same_cluster_def)
qed

lemma same_cluster_site:
  assumes "same_static xs (cl_storages c ! nat site)" "cl_cid c' = cl_cid c" "cl_storages c' = (cl_storages c)[nat site := xs]"
  shows "same_cluster c' c"
  using assms by (auto simp: same_cluster_def list_all2_conv_all_nth) (metis nth_list_update_eq nth_list_update_neq same_static_refl)

section \<open>Distribution on one cluster\<close>

abbreviation (input) site_list :: "int \<Rightarrow> cluster_t \<Rightarrow> volume_storage_t list" where
  "site_list site c \<equiv> cl_storages c ! nat site"

definition layout_safe :: "int \<Rightarrow> nat" where
  "layout_safe layout = nat (rozofs_get_rozofs_safe layout)"

text \<open>A cluster has enough storages: as many as the layout asks for, counting at most as many for a location as there are passes, or no matter where for the two small layouts.
  With the rules that look at the free space, no more storages than the layout can do without are offline or full.\<close>

definition capable :: "int \<Rightarrow> int \<Rightarrow> bool \<Rightarrow> volume_storage_t list \<Rightarrow> bool" where
  "capable rule layout multi_site xs \<longleftrightarrow>
     (layout_safe layout \<le> capacity (set (map (storage_key multi_site) xs)) (if ordered_rule rule then 8 else 4) \<or> layout < 2 \<and> layout_safe layout \<le> length xs)
     \<and> (ordered_rule rule \<longrightarrow> rozofs_get_rozofs_forward layout + int (unusable_count xs) \<le> rozofs_get_rozofs_safe layout)"

definition good_distribution :: "int \<Rightarrow> int \<Rightarrow> bool \<Rightarrow> volume_storage_t list \<Rightarrow> u8 list \<Rightarrow> bool" where
  "good_distribution rule layout multi_site xs sids \<longleftrightarrow> distribution_ok multi_site (layout_safe layout) xs sids
     \<and> (ordered_rule rule \<longrightarrow> rozofs_get_rozofs_forward layout \<le> int (usable_count xs sids))"

lemma cluster_distributes:
  assumes layout: "0 \<le> layout" "layout < 3" and rule: "ordered_rule rule \<or> strict_rule rule" and site: "0 \<le> site" "site < 2"
    and c: "cluster_ready rule multi_site c" and mb: "ordered_rule rule \<longrightarrow> decrease_size mb \<noteq> None"
  shows "\<exists>r c'. do_cluster_distribute rule mb layout site multi_site c = Some (r, c') \<and> same_cluster c' c
    \<and> (case r of Some sids \<Rightarrow> good_distribution rule layout multi_site (site_list site c) sids | None \<Rightarrow> \<not> capable rule layout multi_site (site_list site c))"
proof -
  let ?xs = "site_list site c"
  have len: "length (cl_storages c) = 2" and mem: "?xs \<in> set (cl_storages c)" using c site by (auto simp: cluster_ready_def)
  have d: "distinct (map vs_sid ?xs)" and f: "ordered_rule rule \<Longrightarrow> fits_masks multi_site ?xs" using c mem by (auto simp: cluster_ready_def)
  have upd: "\<exists>r c'. do_cluster_distribute rule mb layout site multi_site c = Some (r, c') \<and> same_cluster c' c \<and> P r"
    if "do_cluster_distribute rule mb layout site multi_site c = map_option (\<lambda>(r, free, xs). (r, c\<lparr>cl_free := free, cl_storages := (cl_storages c)[nat site := xs]\<rparr>)) (Some (r, free, xs))"
      "same_storages xs ?xs" "P r" for r free xs P
    using that same_cluster_site[OF same_storages_static[OF that(2)], of "c\<lparr>cl_free := free, cl_storages := (cl_storages c)[nat site := xs]\<rparr>"] by simp
  show ?thesis
  proof (cases "ordered_rule rule")
    case True
    obtain r xs where w: "do_cluster_distribute_weighted_round_robin mb layout multi_site ?xs = Some (r, xs)" "same_storages xs ?xs"
      "case r of Some sids \<Rightarrow> distribution_ok multi_site (layout_safe layout) ?xs sids \<and> rozofs_get_rozofs_forward layout \<le> int (usable_count ?xs sids)
       | None \<Rightarrow> rozofs_get_rozofs_safe layout < rozofs_get_rozofs_forward layout + int (unusable_count ?xs) \<or> capacity (set (map (storage_key multi_site) ?xs)) 8 < layout_safe layout \<and> (layout < 2 \<longrightarrow> length ?xs < layout_safe layout)"
      using weighted_distributes[OF layout d f[OF True] mp[OF mb True]] unfolding layout_safe_def by blast
    have "case r of Some sids \<Rightarrow> good_distribution rule layout multi_site ?xs sids | None \<Rightarrow> \<not> capable rule layout multi_site ?xs"
      using w(3) True by (auto simp: good_distribution_def capable_def split: option.splits)
    moreover have "do_cluster_distribute rule mb layout site multi_site c = map_option (\<lambda>(r, free, xs). (r, c\<lparr>cl_free := free, cl_storages := (cl_storages c)[nat site := xs]\<rparr>))
        (Some (r, if rule = rozofs_file_distribution_size_balancing \<and> r \<noteq> None then sum_list (map stat_free xs) else cl_free c, xs))"
      using True w(1) site len by (auto simp: do_cluster_distribute_def do_cluster_distribute_size_balancing_def ordered_rule_def rule_defs arr_get_in arr_set_in)
    ultimately show ?thesis using upd w(2) by blast
  next
    case False
    then have s: "strict_rule rule" using rule by simp
    obtain r xs where w: "do_cluster_distribute_strict_round_robin layout multi_site ?xs = Some (r, xs)" "same_storages xs ?xs"
      "case r of Some sids \<Rightarrow> distribution_ok multi_site (layout_safe layout) ?xs sids
       | None \<Rightarrow> capacity (set (map (storage_key multi_site) ?xs)) 4 < layout_safe layout \<and> (layout < 2 \<longrightarrow> length ?xs < layout_safe layout)"
      using strict_distributes[OF layout d] unfolding layout_safe_def by blast
    have "case r of Some sids \<Rightarrow> good_distribution rule layout multi_site ?xs sids | None \<Rightarrow> \<not> capable rule layout multi_site ?xs"
      using w(3) False by (auto simp: good_distribution_def capable_def split: option.splits)
    moreover have "do_cluster_distribute rule mb layout site multi_site c = map_option (\<lambda>(r, free, xs). (r, c\<lparr>cl_free := free, cl_storages := (cl_storages c)[nat site := xs]\<rparr>))
        (Some (r, cl_free c, xs))"
      using False s w(1) site len by (auto simp: do_cluster_distribute_def ordered_rule_def arr_get_in arr_set_in)
    ultimately show ?thesis using upd w(2) by blast
  qed
qed

section \<open>Distribution on a volume\<close>

definition same_clusters :: "cluster_t list \<Rightarrow> cluster_t list \<Rightarrow> bool" where
  "same_clusters cs ds \<longleftrightarrow> rel_mset same_cluster (mset cs) (mset ds)"

lemma same_clusters_Nil [simp]: "same_clusters [] []"
  by (simp add: same_clusters_def)

lemma same_clusters_add: "same_cluster c d \<Longrightarrow> same_clusters cs ds \<Longrightarrow> mset cs' = add_mset c (mset cs) \<Longrightarrow> same_clusters cs' (d # ds)"
  unfolding same_clusters_def by (simp add: rel_mset_Plus)

lemma same_clusters_refl [simp]: "same_clusters cs cs"
  by (simp add: same_clusters_def multiset.rel_refl)

lemma same_clusters_trans: "same_clusters cs ds \<Longrightarrow> same_clusters ds es \<Longrightarrow> same_clusters cs es"
  unfolding same_clusters_def using multiset.rel_transp[of same_cluster] same_cluster_trans unfolding transp_def by blast

lemma same_clusters_list: "list_all2 same_cluster cs ds \<Longrightarrow> same_clusters cs ds"
  unfolding same_clusters_def rel_mset_def by blast

lemma same_clusters_mset: "mset cs = mset cs' \<Longrightarrow> same_clusters cs ds = same_clusters cs' ds"
  by (simp add: same_clusters_def)

lemma same_clusters_obtain:
  assumes "same_clusters cs ds"
  obtains cs' ds' where "mset cs' = mset cs" "mset ds' = mset ds" "list_all2 same_cluster cs' ds'"
  using assms unfolding same_clusters_def rel_mset_def by blast

lemma same_clusters_ready:
  assumes "same_clusters cs ds"
  shows "(\<forall>c \<in> set cs. cluster_ready rule multi_site c) = (\<forall>d \<in> set ds. cluster_ready rule multi_site d)"
proof -
  obtain cs' ds' where l: "mset cs' = mset cs" "mset ds' = mset ds" "list_all2 same_cluster cs' ds'" using same_clusters_obtain[OF assms] .
  have "(\<forall>c \<in> set cs'. cluster_ready rule multi_site c) = (\<forall>d \<in> set ds'. cluster_ready rule multi_site d)"
    by (rule list_all2_ball[OF l(3)]) (rule same_cluster_ready)
  then show ?thesis using mset_eq_setD[OF l(1)] mset_eq_setD[OF l(2)] by simp
qed

lemma same_clusters_member:
  assumes "same_clusters cs ds" "c \<in> set cs"
  obtains d where "d \<in> set ds" "same_cluster c d"
proof -
  obtain cs' ds' where l: "mset cs' = mset cs" "mset ds' = mset ds" "list_all2 same_cluster cs' ds'" using same_clusters_obtain[OF assms(1)] .
  have "c \<in> set cs'" using assms(2) mset_eq_setD[OF l(1)] by simp
  then obtain i where "i < length cs'" "cs' ! i = c" by (auto simp: in_set_conv_nth)
  then have "same_cluster c (ds' ! i)" "ds' ! i \<in> set ds'" using l(3) by (auto simp: list_all2_conv_all_nth)
  then show thesis using that mset_eq_setD[OF l(2)] by blast
qed

lemma mset_sink [simp]: "mset (sink_cluster c cs) = add_mset c (mset cs)"
  by (induction cs) auto

lemma clusters_distribute:
  assumes "0 \<le> layout" "layout < 3" "ordered_rule rule \<or> strict_rule rule" "0 \<le> site" "site < 2" "ordered_rule rule \<longrightarrow> decrease_size mb \<noteq> None"
  shows "\<forall>c \<in> set cs. cluster_ready rule multi_site c \<Longrightarrow> \<exists>r cs'. try_clusters rule mb layout site multi_site cs = Some (r, cs') \<and> same_clusters cs' cs
    \<and> (case r of Some (cid, sids) \<Rightarrow> \<exists>c \<in> set cs. cl_cid c = cid \<and> good_distribution rule layout multi_site (site_list site c) sids
       | None \<Rightarrow> \<forall>c \<in> set cs. \<not> capable rule layout multi_site (site_list site c))"
proof (induction cs)
  case (Cons c cs)
  obtain r c' where c: "do_cluster_distribute rule mb layout site multi_site c = Some (r, c')" "same_cluster c' c"
    "case r of Some sids \<Rightarrow> good_distribution rule layout multi_site (site_list site c) sids | None \<Rightarrow> \<not> capable rule layout multi_site (site_list site c)"
    using cluster_distributes[OF assms(1-5) _ assms(6), of multi_site c] Cons.prems by auto
  have cid: "cl_cid c' = cl_cid c" using c(2) by (simp add: same_cluster_def)
  show ?case
  proof (cases r)
    case None
    from Cons obtain q cs' where q: "try_clusters rule mb layout site multi_site cs = Some (q, cs')" "same_clusters cs' cs"
      "case q of Some (cid, sids) \<Rightarrow> \<exists>c \<in> set cs. cl_cid c = cid \<and> good_distribution rule layout multi_site (site_list site c) sids
       | None \<Rightarrow> \<forall>c \<in> set cs. \<not> capable rule layout multi_site (site_list site c)" by auto
    then show ?thesis using c None same_clusters_add[OF c(2) q(2), of "c' # cs'"] by (auto split: option.splits)
  next
    case (Some sids)
    let ?cs = "if rule \<noteq> rozofs_file_distribution_size_balancing then cs @ [c'] else sink_cluster c' cs"
    have "same_clusters ?cs (c # cs)" by (rule same_clusters_add[OF c(2) same_clusters_refl]) simp
    then show ?thesis using c Some cid by auto
  qed
qed simp

definition active_clusters :: "volume_t \<Rightarrow> cluster_t list" where
  "active_clusters v = vl_distribute v ! nat (vl_active_list v)"

text \<open>Both lists of clusters are there, and the clusters of the active list are ready.\<close>

definition volume_ready :: "int \<Rightarrow> volume_t \<Rightarrow> bool" where
  "volume_ready rule v \<longleftrightarrow> length (vl_distribute v) = 2 \<and> (vl_active_list v = 0 \<or> vl_active_list v = 1)
     \<and> (\<forall>c \<in> set (vl_clusters v). cluster_ready rule (vl_multi_site v) c) \<and> distinct (map cl_cid (vl_clusters v))
     \<and> (vl_balanced v \<longrightarrow> same_clusters (active_clusters v) (vl_clusters v))"

text \<open>The parameters of a call: a known rule and layout, a site and, with a rule that looks at the free space, an estimate below 2048 megabytes.\<close>

definition call_ok :: "int \<Rightarrow> int \<Rightarrow> int \<Rightarrow> int \<Rightarrow> bool" where
  "call_ok rule mb site layout \<longleftrightarrow> (ordered_rule rule \<or> strict_rule rule) \<and> (ordered_rule rule \<longrightarrow> decrease_size mb \<noteq> None) \<and> 0 \<le> site \<and> site < 2 \<and> 0 \<le> layout \<and> layout < 3"

lemma volume_distributes:
  assumes "volume_ready rule v" "vl_balanced v" "call_ok rule mb (if vl_georep v then site_number else local_site) layout"
  shows "\<exists>r v'. volume_distribute rule mb local_site layout site_number v = Some (r, v') \<and> volume_ready rule v' \<and> vl_balanced v'
    \<and> vl_clusters v' = vl_clusters v \<and> vl_georep v' = vl_georep v \<and> vl_multi_site v' = vl_multi_site v
    \<and> (case r of Some (cid, sids) \<Rightarrow> \<exists>c \<in> set (active_clusters v). cl_cid c = cid
          \<and> good_distribution rule layout (vl_multi_site v) (site_list (if vl_georep v then site_number else local_site) c) sids
       | None \<Rightarrow> \<forall>c \<in> set (active_clusters v). \<not> capable rule layout (vl_multi_site v) (site_list (if vl_georep v then site_number else local_site) c))"
proof -
  let ?site = "if vl_georep v then site_number else local_site" and ?cs = "active_clusters v"
  have a: "0 \<le> vl_active_list v" "vl_active_list v < int (length (vl_distribute v))" and s: "same_clusters ?cs (vl_clusters v)"
    using assms(1,2) by (auto simp: volume_ready_def)
  have "\<forall>c \<in> set ?cs. cluster_ready rule (vl_multi_site v) c" using same_clusters_ready[OF s] assms(1) by (simp add: volume_ready_def)
  from clusters_distribute[OF _ _ _ _ _ _ this, of layout ?site mb] assms(3) obtain r cs' where
    t: "try_clusters rule mb layout ?site (vl_multi_site v) ?cs = Some (r, cs')" "same_clusters cs' ?cs" and
    r: "case r of Some (cid, sids) \<Rightarrow> \<exists>c \<in> set ?cs. cl_cid c = cid \<and> good_distribution rule layout (vl_multi_site v) (site_list ?site c) sids
       | None \<Rightarrow> \<forall>c \<in> set ?cs. \<not> capable rule layout (vl_multi_site v) (site_list ?site c)"
    unfolding call_ok_def by blast
  let ?v = "v\<lparr>vl_distribute := (vl_distribute v)[nat (vl_active_list v) := cs']\<rparr>"
  have "volume_distribute rule mb local_site layout site_number v = Some (r, ?v)"
    using t(1) a by (simp add: volume_distribute_def active_clusters_def arr_get_in arr_set_in Let_def)
  moreover have "active_clusters ?v = cs'" using a by (simp add: active_clusters_def nat_less_iff)
  then have "volume_ready rule ?v" using assms(1) same_clusters_trans[OF t(2) s] by (auto simp: volume_ready_def)
  ultimately show ?thesis using r assms(2) by auto
qed

section \<open>The check of a distribution\<close>

lemma count_matches_iff: "n < safe \<Longrightarrow> count_matches safe sids xs n \<longleftrightarrow> safe \<le> n + length (filter (\<lambda>vs. uint (vs_sid vs) \<in> set (take safe sids)) xs)"
  by (induction xs arbitrary: n) (auto simp: Let_def)

lemma matches_all:
  assumes "distinct (map vs_sid xs)" "set sids \<subseteq> set (map vs_sid xs)" "distinct sids"
  shows "length (filter (\<lambda>vs. uint (vs_sid vs) \<in> set (map uint sids)) xs) = length sids"
proof -
  have "length (filter (\<lambda>vs. uint (vs_sid vs) \<in> set (map uint sids)) xs) = length (filter (\<lambda>sid. sid \<in> set sids) (map vs_sid xs))"
    by (simp add: filter_map comp_def)
  also have "\<dots> = card (set (filter (\<lambda>sid. sid \<in> set sids) (map vs_sid xs)))" using distinct_card[OF distinct_filter[OF assms(1)]] by simp
  also have "set (filter (\<lambda>sid. sid \<in> set sids) (map vs_sid xs)) = set sids" using assms(2) by auto
  finally show ?thesis using distinct_card[OF assms(3)] by simp
qed

lemma find_cluster: "distinct (map cl_cid ds) \<Longrightarrow> d \<in> set ds \<Longrightarrow> List.find (\<lambda>c. uint (cl_cid c) = uint (cl_cid d)) ds = Some d"
  by (induction ds) (auto simp flip: word_uint_eq_iff)

lemma layout_safe_pos: "0 \<le> layout \<Longrightarrow> layout < 3 \<Longrightarrow> 0 < layout_safe layout"
  using layout_counts[of layout] unfolding layout_safe_def by (metis less_trans zero_less_nat_eq)

lemma good_distribution_checks:
  assumes v: "volume_ready rule v" "same_clusters cs (vl_clusters v)" and site: "0 \<le> site" "site < 2" and layout: "0 \<le> layout" "layout < 3"
    and c: "c \<in> set cs" "good_distribution rule layout multi_site (site_list site c) sids"
  shows "volume_distribution_check site (layout_safe layout) (uint (cl_cid c)) (map uint sids) v = Some True"
proof -
  have s: "distinct (map cl_cid (vl_clusters v))" using v by (auto simp: volume_ready_def)
  obtain d where d: "d \<in> set (vl_clusters v)" "same_cluster c d" using same_clusters_member[OF v(2) c(1)] .
  have f: "List.find (\<lambda>x. uint (cl_cid x) = uint (cl_cid c)) (vl_clusters v) = Some d"
    using find_cluster[OF s d(1)] d(2) by (simp add: same_cluster_def)
  have ready: "cluster_ready rule (vl_multi_site v) d" using v(1) d(1) by (simp add: volume_ready_def)
  then have len: "nat site < length (cl_storages d)" using site by (simp add: cluster_ready_def nat_less_iff)
  then have dd: "distinct (map vs_sid (site_list site d))" using ready nth_mem by (auto simp: cluster_ready_def)
  have "same_static (site_list site c) (site_list site d)" using d(2) len by (auto simp: same_cluster_def list_all2_conv_all_nth)
  then have sub: "set sids \<subseteq> set (map vs_sid (site_list site d))" using c(2) same_static_cong(4) by (fastforce simp: good_distribution_def distribution_ok_def)
  have sids: "length sids = layout_safe layout" "distinct sids" using c(2) by (auto simp: good_distribution_def distribution_ok_def)
  have "count_matches (layout_safe layout) (map uint sids) (site_list site d) 0"
    using count_matches_iff[OF layout_safe_pos[OF layout]] matches_all[OF dd sub sids(2)] sids(1) by simp
  then show ?thesis using f len site by (simp add: volume_distribution_check_def arr_get_in nat_less_iff)
qed

section \<open>Balancing\<close>

lemma same_clusters_sym: "same_clusters cs ds \<Longrightarrow> same_clusters ds cs"
proof -
  have "same_cluster c d \<Longrightarrow> same_cluster d c" for c d
    unfolding same_cluster_def same_static_def by (auto simp: list_all2_conv_all_nth)
  then have "same_cluster\<inverse>\<inverse> = same_cluster" by (auto intro!: ext)
  then show "same_clusters cs ds \<Longrightarrow> same_clusters ds cs" unfolding same_clusters_def using multiset.rel_flip[of same_cluster] by metis
qed

lemma same_clusters_cids:
  assumes "same_clusters cs ds"
  shows "mset (map cl_cid cs) = mset (map cl_cid ds)"
proof -
  obtain cs' ds' where l: "mset cs' = mset cs" "mset ds' = mset ds" "list_all2 same_cluster cs' ds'" using same_clusters_obtain[OF assms] .
  have "map cl_cid cs' = map cl_cid ds'" using l(3) by induction (auto simp: same_cluster_def)
  then show ?thesis using l(1,2) by (metis mset_map)
qed

lemma those_map:
  assumes "\<And>x. x \<in> set xs \<Longrightarrow> \<exists>y. f x = Some y \<and> P y x"
  obtains ys where "those (map f xs) = Some ys" "list_all2 P ys xs"
proof -
  have "\<exists>ys. those (map f xs) = Some ys \<and> list_all2 P ys xs" using assms
  proof (induction xs)
    case (Cons x xs)
    then obtain y ys where "f x = Some y" "P y x" "those (map f xs) = Some ys" "list_all2 P ys xs" by (metis list.set_intros)
    then show ?case by auto
  qed simp
  then show thesis using that by blast
qed

lemma copy_cluster_same [simp]: "same_cluster (copy_cluster c) c"
proof -
  have "storage_static (copy_storage vs) = storage_static vs" for vs by (simp add: storage_static_def copy_storage_def volume_storage_initialize_def)
  then have "same_static (map copy_storage xs) xs" for xs by (simp add: same_static_def comp_def)
  then show ?thesis by (simp add: same_cluster_def copy_cluster_def cluster_initialize_def list_all2_conv_all_nth)
qed

text \<open>What the answers of the storage daemons say of the storages of a site.\<close>

definition reported :: "storaged \<Rightarrow> u16 \<Rightarrow> volume_storage_t \<Rightarrow> bool" where
  "reported st cid vs \<longleftrightarrow> (case st cid (vs_host vs) (vs_sid vs) of
       Stats sz free \<Rightarrow> vs_status vs = 1 \<and> stat_size vs = sz \<and> stat_free vs = free
     | Refused \<Rightarrow> vs_status vs = 0 \<and> stat_size vs = 0 \<and> stat_free vs = 0
     | No_reply \<Rightarrow> vs_status vs = 0)"

definition online_free :: "volume_storage_t list \<Rightarrow> u64" where
  "online_free xs = sum_list (map stat_free (filter (\<lambda>vs. vs_status vs \<noteq> 0) xs))"

lemma balance_storage_facts:
  "storage_static (snd (balance_storage st cid vs)) = storage_static vs" "reported st cid (snd (balance_storage st cid vs))"
  "fst (balance_storage st cid vs) \<longleftrightarrow> vs_status (snd (balance_storage st cid vs)) \<noteq> 0"
  by (auto simp: balance_storage_def mstoraged_client_stat_def storage_static_def reported_def split: stat_reply.splits)

lemma balance_local_ok:
  assumes "length (cl_storages c) = 2" "0 \<le> site" "site < 2"
  shows "\<exists>c'. balance_local st site c = Some c' \<and> same_cluster c' c
    \<and> list_all (reported st (cl_cid c')) (site_list site c') \<and> cl_free c' = online_free (site_list site c')"
proof -
  let ?rs = "map (balance_storage st (cl_cid c)) (site_list site c)"
  let ?c = "c\<lparr>cl_storages := (cl_storages c)[nat site := map snd ?rs], cl_free := sum_list (map stat_free (map snd (filter fst ?rs))),
    cl_size := sum_list (map stat_size (map snd (filter fst ?rs)))\<rparr>"
  have "balance_local st site c = Some ?c" using assms by (simp add: balance_local_def arr_get_in arr_set_in Let_def)
  moreover have "same_static (map snd ?rs) (site_list site c)" unfolding same_static_def by (simp add: balance_storage_facts(1) comp_def)
  then have "same_cluster ?c c" by (rule same_cluster_site) simp_all
  moreover have s: "site_list site ?c = map snd ?rs" using assms by simp
  moreover have "list_all (reported st (cl_cid ?c)) (map snd ?rs)" by (simp add: list_all_iff balance_storage_facts)
  moreover have "map snd (filter fst ?rs) = filter (\<lambda>vs. vs_status vs \<noteq> 0) (map snd ?rs)"
    by (simp add: filter_map comp_def balance_storage_facts(3))
  then have "cl_free ?c = online_free (map snd ?rs)" by (simp only: online_free_def) simp
  ultimately show ?thesis by metis
qed

text \<open>The local site of a cluster is as the daemons say; with an order, its storages are sorted.\<close>

definition site_reported :: "storaged \<Rightarrow> int \<Rightarrow> cluster_t \<Rightarrow> bool" where
  "site_reported st site c \<longleftrightarrow> list_all (reported st (cl_cid c)) (site_list site c) \<and> cl_free c = online_free (site_list site c)"

lemma other_site: "0 \<le> site \<Longrightarrow> site < 2 \<Longrightarrow> nat (1 - site) \<noteq> nat site"
  by (cases "site = 0"; cases "site = 1") auto

lemma balance_remote_ok:
  assumes "length (cl_storages c) = 2" "0 \<le> site" "site < 2"
  shows "\<exists>c'. balance_remote st site c = Some c' \<and> same_cluster c' c \<and> (site_reported st site c \<longrightarrow> site_reported st site c')"
proof -
  let ?xs = "map (\<lambda>vs. snd (balance_storage st (cl_cid c) vs)) (site_list (1 - site) c)"
  let ?c = "c\<lparr>cl_storages := (cl_storages c)[nat (1 - site) := ?xs]\<rparr>"
  have "balance_remote st site c = Some ?c" using assms by (simp add: balance_remote_def arr_get_in arr_set_in Let_def)
  moreover have "same_static ?xs (site_list (1 - site) c)" unfolding same_static_def by (simp add: balance_storage_facts(1) comp_def)
  then have "same_cluster ?c c" by (rule same_cluster_site) simp_all
  moreover have "site_list site ?c = site_list site c" using other_site[OF assms(2,3)] by simp
  ultimately show ?thesis by (auto simp: site_reported_def)
qed

lemma same_static_mset: "mset xs = mset ys \<Longrightarrow> same_static xs ys"
  by (simp add: same_static_def)

lemma sorted_reported:
  assumes "mset xs = mset ys"
  shows "list_all (reported st cid) xs = list_all (reported st cid) ys" "online_free xs = online_free ys"
proof -
  show "list_all (reported st cid) xs = list_all (reported st cid) ys" using mset_eq_setD[OF assms] by (simp add: list_all_iff)
  have "online_free zs = sum_mset (image_mset stat_free (filter_mset (\<lambda>vs. vs_status vs \<noteq> 0) (mset zs)))" for zs
    by (simp add: online_free_def flip: mset_filter mset_map sum_mset_sum_list)
  then show "online_free xs = online_free ys" using assms by simp
qed

lemma order_site_ok:
  assumes "length (cl_storages c) = 2" "0 \<le> site" "site < 2"
  shows "\<exists>c'. order_site site c = Some c' \<and> same_cluster c' c \<and> cl_free c' = cl_free c
    \<and> (\<forall>i. site_list i c' = (if nat i = nat site then sort_list volume_storage_compare (site_list site c) else site_list i c))"
proof -
  let ?xs = "sort_list volume_storage_compare (site_list site c)"
  let ?c = "c\<lparr>cl_storages := (cl_storages c)[nat site := ?xs]\<rparr>"
  have "order_site site c = Some ?c" using assms by (simp add: order_site_def arr_get_in arr_set_in)
  moreover have "same_static ?xs (site_list site c)" by (rule same_static_mset) (simp add: sort_list_def)
  then have "same_cluster ?c c" by (rule same_cluster_site) simp_all
  moreover have "nat site < length (cl_storages c)" using assms by (simp add: nat_less_iff)
  ultimately show ?thesis by simp
qed

lemma order_cluster_ok:
  assumes "length (cl_storages c) = 2" "0 \<le> site" "site < 2" "uint (cl_cid c) < ROZOFS_CLUSTERS_MAX"
  shows "\<exists>c'. order_cluster georep site c = Some c' \<and> same_cluster c' c \<and> (site_reported st site c \<longrightarrow> site_reported st site c')
    \<and> sorted_wrt storage_before (site_list site c')"
proof -
  let ?xs = "sort_list volume_storage_compare (site_list site c)"
  obtain c1 where c1: "order_site site c = Some c1" "same_cluster c1 c" "cl_free c1 = cl_free c" "site_list site c1 = ?xs"
    using order_site_ok[OF assms(1-3)] by auto
  have l1: "length (cl_storages c1) = 2" using c1(2) assms(1) by (auto simp: same_cluster_def dest: list_all2_lengthD)
  obtain c2 where c2: "order_site (1 - site) c1 = Some c2" "same_cluster c2 c1" "cl_free c2 = cl_free c1" "site_list site c2 = site_list site c1"
    using order_site_ok[OF l1, of "1 - site"] assms(2,3) other_site[OF assms(2,3)] by auto
  have m: "mset ?xs = mset (site_list site c)" by (simp add: sort_list_def)
  have s: "sorted_wrt storage_before ?xs" unfolding sort_list_def by (rule by_space.sorts)
  have cid: "cl_cid c1 = cl_cid c" "cl_cid c2 = cl_cid c" using c1(2) c2(2) by (simp_all add: same_cluster_def)
  have "site_reported st site c \<longrightarrow> site_reported st site c1 \<and> site_reported st site c2"
    using sorted_reported(1)[OF m, of st "cl_cid c"] sorted_reported(2)[OF m] c1(3,4) c2(3,4) cid by (simp add: site_reported_def)
  then show ?thesis using c1 c2 s same_cluster_trans[OF c2(2) c1(2)] assms(4) by (cases georep) (auto simp: order_cluster_def)
qed

lemma list_all2_trans_clusters:
  "list_all2 (\<lambda>a b. same_cluster a b \<and> P a b) xs ys \<Longrightarrow> list_all2 same_cluster ys zs \<Longrightarrow> list_all2 same_cluster xs zs"
  using list_all2_trans[of same_cluster same_cluster same_cluster xs ys zs] same_cluster_trans by (metis (mono_tags, lifting) list_all2_mono)

text \<open>The list of clusters that balancing makes.\<close>

lemma balanced_list:
  assumes ready: "\<forall>c \<in> set cs. cluster_ready rule multi_site c" and site: "0 \<le> site" "site < 2"
  obtains p1 p2 p3 where
    "those (map (balance_local st site) (map copy_cluster cs)) = Some p1"
    "(if georep then those (map (balance_remote st site) p1) else Some p1) = Some p2"
    "(if ordered_rule rule then map_option (sort_list cluster_compare_capacity) (those (map (order_cluster georep site) p2)) else Some p2) = Some p3"
    "same_clusters p3 cs" "list_all (site_reported st site) p3"
    "ordered_rule rule \<Longrightarrow> sorted_wrt (\<lambda>a b. cl_free b \<le> cl_free a) p3 \<and> (\<forall>c \<in> set p3. sorted_wrt storage_before (site_list site c))"
proof -
  have rd: "cluster_ready rule multi_site c" if "list_all2 same_cluster ps cs" "c \<in> set ps" for ps c
    using that same_clusters_ready[OF same_clusters_list[OF that(1)]] ready by blast
  have two: "length (cl_storages c) = 2" "ordered_rule rule \<Longrightarrow> uint (cl_cid c) < ROZOFS_CLUSTERS_MAX" if "list_all2 same_cluster ps cs" "c \<in> set ps" for ps c
    using rd[OF that] by (simp_all add: cluster_ready_def)
  have s0: "list_all2 same_cluster (map copy_cluster cs) cs" by (simp add: list_all2_conv_all_nth)
  obtain p1 where p1: "those (map (balance_local st site) (map copy_cluster cs)) = Some p1"
    "list_all2 (\<lambda>a b. same_cluster a b \<and> site_reported st site a) p1 (map copy_cluster cs)"
    by (rule those_map[of "map copy_cluster cs" "balance_local st site" "\<lambda>a b. same_cluster a b \<and> site_reported st site a"])
      (use balance_local_ok[OF two(1)[OF s0] site] in \<open>auto simp: site_reported_def\<close>)
  have s1: "list_all2 same_cluster p1 cs" "list_all (site_reported st site) p1"
    using list_all2_trans_clusters[OF p1(2) s0] p1(2) by (auto simp: list_all2_conv_all_nth list_all_length)
  obtain p2 where p2: "(if georep then those (map (balance_remote st site) p1) else Some p1) = Some p2" "list_all2 same_cluster p2 cs" "list_all (site_reported st site) p2"
  proof (cases georep)
    case True
    obtain ys where ys: "those (map (balance_remote st site) p1) = Some ys"
      "list_all2 (\<lambda>a b. same_cluster a b \<and> (site_reported st site b \<longrightarrow> site_reported st site a)) ys p1"
      by (rule those_map[of p1 "balance_remote st site" "\<lambda>a b. same_cluster a b \<and> (site_reported st site b \<longrightarrow> site_reported st site a)"]) (use balance_remote_ok[OF two(1)[OF s1(1)] site] in blast)
    moreover have "list_all (site_reported st site) ys" using ys(2) s1(2) by (auto simp: list_all2_conv_all_nth list_all_length)
    ultimately show ?thesis using that[of ys] list_all2_trans_clusters[OF ys(2) s1(1)] True by simp
  next
    case False
    then show ?thesis using that[of p1] s1 by simp
  qed
  show thesis
  proof (cases "ordered_rule rule")
    case True
    obtain ys where ys: "those (map (order_cluster georep site) p2) = Some ys"
      "list_all2 (\<lambda>a b. same_cluster a b \<and> (site_reported st site b \<longrightarrow> site_reported st site a) \<and> sorted_wrt storage_before (site_list site a)) ys p2"
      by (rule those_map[of p2 "order_cluster georep site"
        "\<lambda>a b. same_cluster a b \<and> (site_reported st site b \<longrightarrow> site_reported st site a) \<and> sorted_wrt storage_before (site_list site a)"]) (use order_cluster_ok[OF two(1)[OF p2(2)] site two(2)[OF p2(2) _ True]] in blast)
    have y: "list_all2 same_cluster ys cs" "list_all (site_reported st site) ys" "\<forall>c \<in> set ys. sorted_wrt storage_before (site_list site c)"
      using list_all2_trans_clusters[OF ys(2) p2(2)] ys(2) p2(3) by (auto simp: list_all2_conv_all_nth list_all_length in_set_conv_nth)
    let ?zs = "sort_list cluster_compare_capacity ys"
    have m: "mset ?zs = mset ys" "set ?zs = set ys" by (simp_all add: sort_list_def)
    show thesis
    proof (rule that[OF p1(1) p2(1)])
      show "same_clusters ?zs cs" using same_clusters_list[OF y(1)] same_clusters_mset[OF m(1)] by simp
      show "list_all (site_reported st site) ?zs" using y(2) m(2) by (simp add: list_all_iff)
      show "sorted_wrt (\<lambda>a b. cl_free b \<le> cl_free a) ?zs \<and> (\<forall>c \<in> set ?zs. sorted_wrt storage_before (site_list site c))"
        using by_capacity.sorts[of ys] y(3) m(2) by (simp add: sort_list_def)
    qed (simp add: True ys(1))
  next
    case False
    then show thesis using that[OF p1(1) p2(1), of p2] same_clusters_list[OF p2(2)] p2(3) by simp
  qed
qed

lemma volume_balances:
  assumes v: "volume_ready rule v" and site: "0 \<le> local_site" "local_site < 2"
  shows "\<exists>v'. volume_balance st rule local_site v = Some v' \<and> volume_ready rule v' \<and> vl_balanced v' \<and> same_clusters (vl_clusters v') (vl_clusters v)
    \<and> vl_georep v' = vl_georep v \<and> vl_multi_site v' = vl_multi_site v
    \<and> (if vl_balanced v \<and> strict_rule rule then active_clusters v' = active_clusters v
       else list_all (site_reported st local_site) (active_clusters v')
         \<and> (ordered_rule rule \<longrightarrow> sorted_wrt (\<lambda>a b. cl_free b \<le> cl_free a) (active_clusters v')
              \<and> (\<forall>c \<in> set (active_clusters v'). sorted_wrt storage_before (site_list local_site c))))"
proof -
  have ready: "\<forall>c \<in> set (vl_clusters v). cluster_ready rule (vl_multi_site v) c" and act: "vl_active_list v = 0 \<or> vl_active_list v = 1"
    and len: "length (vl_distribute v) = 2" and cids: "distinct (map cl_cid (vl_clusters v))" using v by (simp_all add: volume_ready_def)
  obtain p1 p2 p3 where p: "those (map (balance_local st local_site) (map copy_cluster (vl_clusters v))) = Some p1"
    "(if vl_georep v then those (map (balance_remote st local_site) p1) else Some p1) = Some p2"
    "(if ordered_rule rule then map_option (sort_list cluster_compare_capacity) (those (map (order_cluster (vl_georep v) local_site) p2)) else Some p2) = Some p3"
    and same: "same_clusters p3 (vl_clusters v)" and rep: "list_all (site_reported st local_site) p3"
    and srt: "ordered_rule rule \<Longrightarrow> sorted_wrt (\<lambda>a b. cl_free b \<le> cl_free a) p3 \<and> (\<forall>c \<in> set p3. sorted_wrt storage_before (site_list local_site c))"
    by (rule balanced_list[OF ready site, where st = st and georep = "vl_georep v"]) blast
  define w where "w = (volume_safe_from_list_copy v p3)\<lparr>vl_distribute := (vl_distribute v)[nat (1 - vl_active_list v) := p3]\<rparr>"
  define v' where "v' = (if vl_balanced v \<and> strict_rule rule then w else w\<lparr>vl_active_list := 1 - vl_active_list w, vl_balanced := True\<rparr>)"
  have idx: "0 \<le> 1 - vl_active_list v" "1 - vl_active_list v < 2" using act by auto
  have eq: "volume_balance st rule local_site v = Some v'"
    using p idx len by (simp add: volume_balance_def volume_safe_to_list_copy_def arr_set_in v'_def w_def volume_safe_from_list_copy_def Let_def)
  have w: "vl_clusters w = map copy_cluster p3" "vl_active_list w = vl_active_list v" "vl_balanced w = vl_balanced v" "vl_georep w = vl_georep v"
    "vl_multi_site w = vl_multi_site v" "vl_distribute w = (vl_distribute v)[nat (1 - vl_active_list v) := p3]"
    by (simp_all add: w_def volume_safe_from_list_copy_def)
  have copies: "same_clusters (vl_clusters w) p3" unfolding w(1) by (rule same_clusters_list) (simp add: list_all2_conv_all_nth)
  have conf: "same_clusters (vl_clusters v') (vl_clusters v)" "vl_clusters v' = vl_clusters w" using same_clusters_trans[OF copies same] by (simp_all add: v'_def)
  have active: "active_clusters v' = (if vl_balanced v \<and> strict_rule rule then active_clusters v else p3)"
    using act len by (auto simp: v'_def w active_clusters_def)
  have "same_clusters (active_clusters v') (vl_clusters v')"
  proof (cases "vl_balanced v \<and> strict_rule rule")
    case True
    then have "same_clusters (active_clusters v) (vl_clusters v)" using v by (simp add: volume_ready_def)
    then show ?thesis using True active same_clusters_trans same_clusters_sym[OF conf(1)] by auto
  next
    case False
    then have "active_clusters v' = p3" using active by auto
    then show ?thesis using conf(2) same_clusters_sym[OF copies] by simp
  qed
  moreover have "distinct (map cl_cid (vl_clusters v'))" using mset_eq_imp_distinct_iff[OF same_clusters_cids[OF conf(1)]] cids by simp
  moreover have "\<forall>c \<in> set (vl_clusters v'). cluster_ready rule (vl_multi_site v) c" using same_clusters_ready[OF conf(1)] ready by blast
  ultimately have "volume_ready rule v'" using act len by (auto simp: volume_ready_def v'_def w)
  moreover have "vl_balanced v'" "vl_georep v' = vl_georep v" "vl_multi_site v' = vl_multi_site v" by (simp_all add: v'_def w)
  ultimately show ?thesis using eq conf(1) active rep srt by simp
qed

section \<open>Sessions\<close>

text \<open>The export daemon balances a volume when it starts and then from time to time, and asks it for a distribution whenever it creates a file.\<close>

datatype volume_op = Balance storaged | Distribute int int

type_synonym placed = "int \<times> u16 \<times> u8 list"

fun volume_step :: "int \<Rightarrow> int \<Rightarrow> int \<Rightarrow> volume_op \<Rightarrow> volume_t \<Rightarrow> (placed list \<times> volume_t) option" where
  "volume_step rule mb local_site (Balance st) v = map_option (\<lambda>v. ([], v)) (volume_balance st rule local_site v)"
| "volume_step rule mb local_site (Distribute layout site) v =
     map_option (\<lambda>(r, v). (case r of None \<Rightarrow> [] | Some (cid, sids) \<Rightarrow> [(layout, cid, sids)], v)) (volume_distribute rule mb local_site layout site v)"

fun volume_run :: "int \<Rightarrow> int \<Rightarrow> int \<Rightarrow> volume_op list \<Rightarrow> volume_t \<Rightarrow> (placed list \<times> volume_t) option" where
  "volume_run rule mb local_site [] v = Some ([], v)"
| "volume_run rule mb local_site (op # ops) v = do {
     (fs, v) \<leftarrow> volume_step rule mb local_site op v;
     (gs, v) \<leftarrow> volume_run rule mb local_site ops v;
     Some (fs @ gs, v) }"

definition op_ok :: "int \<Rightarrow> int \<Rightarrow> int \<Rightarrow> volume_op \<Rightarrow> bool" where
  "op_ok rule mb local_site op \<longleftrightarrow> (case op of Balance _ \<Rightarrow> True | Distribute layout site \<Rightarrow> call_ok rule mb local_site layout)"

definition placed_ok :: "int \<Rightarrow> volume_t \<Rightarrow> placed \<Rightarrow> bool" where
  "placed_ok local_site v p = (case p of (layout, cid, sids) \<Rightarrow> volume_distribution_check local_site (layout_safe layout) (uint cid) (map uint sids) v = Some True)"

text \<open>A request that a strict round robin is sure to serve, whatever the storages are used for.\<close>

definition servable :: "int \<Rightarrow> bool \<Rightarrow> int \<Rightarrow> cluster_t list \<Rightarrow> int \<Rightarrow> bool" where
  "servable rule multi_site site ds layout \<longleftrightarrow> strict_rule rule \<and> (\<exists>d \<in> set ds. capable rule layout multi_site (site_list site d))"

definition requests :: "volume_op list \<Rightarrow> int list" where
  "requests ops = concat (map (\<lambda>op. case op of Balance _ \<Rightarrow> [] | Distribute layout _ \<Rightarrow> [layout]) ops)"

lemma strict_not_ordered: "strict_rule rule \<Longrightarrow> \<not> ordered_rule rule"
  by (auto simp: strict_rule_def ordered_rule_def rule_defs)

lemma same_cluster_site_list:
  assumes "same_cluster c d" "cluster_ready rule multi_site d" "0 \<le> site" "site < 2"
  shows "same_static (site_list site c) (site_list site d)"
  using assms by (auto simp: same_cluster_def cluster_ready_def list_all2_conv_all_nth)

lemma servable_member:
  assumes "servable rule multi_site site ds layout" "same_clusters ds cs" "\<forall>c \<in> set cs. cluster_ready rule multi_site c" "0 \<le> site" "site < 2"
  shows "\<exists>c \<in> set cs. capable rule layout multi_site (site_list site c)"
proof -
  obtain d where d: "d \<in> set ds" "capable rule layout multi_site (site_list site d)" and o: "\<not> ordered_rule rule"
    using assms(1) strict_not_ordered by (auto simp: servable_def)
  obtain c where c: "c \<in> set cs" "same_cluster d c" using same_clusters_member[OF assms(2) d(1)] .
  have "same_static (site_list site d) (site_list site c)" using same_cluster_site_list[OF c(2)] assms(3-5) c(1) by blast
  note k = same_static_cong(3)[OF this] same_static_cong(5)[OF this, of multi_site]
  have "capable rule layout multi_site (site_list site c)" using d(2) o unfolding capable_def k by simp
  then show ?thesis using c(1) by blast
qed

lemma servable_same:
  assumes "servable rule multi_site site ds layout" "same_clusters ds cs" "\<forall>c \<in> set cs. cluster_ready rule multi_site c" "0 \<le> site" "site < 2"
  shows "servable rule multi_site site cs layout"
  using servable_member[OF assms] assms(1) by (simp add: servable_def)

text \<open>What is known of a file as long as the configuration of the volume does not change.\<close>

definition placed_on :: "int \<Rightarrow> bool \<Rightarrow> int \<Rightarrow> cluster_t list \<Rightarrow> placed \<Rightarrow> bool" where
  "placed_on rule multi_site local_site ds p = (case p of (layout, cid, sids) \<Rightarrow> 0 \<le> layout \<and> layout < 3
     \<and> (\<exists>cs c. same_clusters cs ds \<and> c \<in> set cs \<and> cl_cid c = cid \<and> good_distribution rule layout multi_site (site_list local_site c) sids))"

lemma placed_on_same: "placed_on rule multi_site site ds p \<Longrightarrow> same_clusters ds es \<Longrightarrow> placed_on rule multi_site site es p"
  unfolding placed_on_def using same_clusters_trans by (auto split: prod.splits)

lemma placed_on_ok: "volume_ready rule v \<Longrightarrow> 0 \<le> site \<Longrightarrow> site < 2 \<Longrightarrow> placed_on rule multi_site site (vl_clusters v) p \<Longrightarrow> placed_ok site v p"
  unfolding placed_on_def placed_ok_def using good_distribution_checks by (auto split: prod.splits)

lemma volume_step_ok:
  assumes "volume_ready rule v" "vl_balanced v \<or> (\<exists>st. op = Balance st)" "op_ok rule mb site op" "0 \<le> site" "site < 2" "\<not> vl_georep v"
  shows "\<exists>fs v'. volume_step rule mb site op v = Some (fs, v') \<and> volume_ready rule v' \<and> vl_balanced v' \<and> \<not> vl_georep v' \<and> vl_multi_site v' = vl_multi_site v
    \<and> same_clusters (vl_clusters v) (vl_clusters v') \<and> (\<forall>p \<in> set fs. placed_on rule (vl_multi_site v) site (vl_clusters v) p)
    \<and> (list_all (servable rule (vl_multi_site v) site (vl_clusters v)) (requests [op]) \<longrightarrow> map fst fs = requests [op])"
proof (cases op)
  case (Balance st)
  then show ?thesis using volume_balances[OF assms(1,4,5), of st] assms(6) same_clusters_sym by (auto simp: requests_def)
next
  case (Distribute layout s)
  then have b: "vl_balanced v" and c: "call_ok rule mb site layout" using assms(2,3) by (auto simp: op_ok_def)
  have here: "(if vl_georep v then s else site) = site" using assms(6) by simp
  obtain r v' where d: "volume_distribute rule mb site layout s v = Some (r, v')" "volume_ready rule v'" "vl_balanced v'" "vl_clusters v' = vl_clusters v"
    "vl_georep v' = vl_georep v" "vl_multi_site v' = vl_multi_site v"
    "case r of Some (cid, sids) \<Rightarrow> \<exists>c \<in> set (active_clusters v). cl_cid c = cid \<and> good_distribution rule layout (vl_multi_site v) (site_list site c) sids
     | None \<Rightarrow> \<forall>c \<in> set (active_clusters v). \<not> capable rule layout (vl_multi_site v) (site_list site c)"
    using volume_distributes[OF assms(1) b, of mb s site layout] c unfolding here by blast
  let ?fs = "case r of None \<Rightarrow> [] | Some (cid, sids) \<Rightarrow> [(layout, cid, sids)]"
  have same: "same_clusters (active_clusters v) (vl_clusters v)" using assms(1) b by (simp add: volume_ready_def)
  then have "\<forall>p \<in> set ?fs. placed_on rule (vl_multi_site v) site (vl_clusters v) p"
    using d(7) c by (auto simp: placed_on_def call_ok_def split: option.splits)
  moreover have "map fst ?fs = [layout]" if "servable rule (vl_multi_site v) site (vl_clusters v) layout"
  proof -
    have "\<forall>c \<in> set (active_clusters v). cluster_ready rule (vl_multi_site v) c" using same_clusters_ready[OF same] assms(1) by (simp add: volume_ready_def)
    then show ?thesis using servable_member[OF that same_clusters_sym[OF same] _ assms(4,5)] d(7) by (auto split: option.splits)
  qed
  ultimately show ?thesis using d assms(6) Distribute by (auto simp: requests_def)
qed

lemma volume_run_ok:
  assumes "0 \<le> site" "site < 2"
  shows "volume_ready rule v \<Longrightarrow> vl_balanced v \<or> ops = [] \<or> (\<exists>st. hd ops = Balance st) \<Longrightarrow> list_all (op_ok rule mb site) ops \<Longrightarrow> \<not> vl_georep v \<Longrightarrow>
    \<exists>fs v'. volume_run rule mb site ops v = Some (fs, v') \<and> volume_ready rule v' \<and> same_clusters (vl_clusters v) (vl_clusters v')
      \<and> (\<forall>p \<in> set fs. placed_on rule (vl_multi_site v) site (vl_clusters v) p)
      \<and> (list_all (servable rule (vl_multi_site v) site (vl_clusters v)) (requests ops) \<longrightarrow> map fst fs = requests ops)"
proof (induction ops arbitrary: v)
  case (Cons op ops)
  from volume_step_ok[OF Cons.prems(1) _ _ assms Cons.prems(4), of op mb] Cons.prems(2,3)
  obtain fs v1 where 1: "volume_step rule mb site op v = Some (fs, v1)" "volume_ready rule v1" "vl_balanced v1" "\<not> vl_georep v1" "vl_multi_site v1 = vl_multi_site v"
    "same_clusters (vl_clusters v) (vl_clusters v1)" "\<forall>p \<in> set fs. placed_on rule (vl_multi_site v) site (vl_clusters v) p"
    "list_all (servable rule (vl_multi_site v) site (vl_clusters v)) (requests [op]) \<longrightarrow> map fst fs = requests [op]" by auto
  obtain gs v2 where 2: "volume_run rule mb site ops v1 = Some (gs, v2)" "volume_ready rule v2" "same_clusters (vl_clusters v1) (vl_clusters v2)"
    "\<forall>p \<in> set gs. placed_on rule (vl_multi_site v) site (vl_clusters v1) p"
    "list_all (servable rule (vl_multi_site v) site (vl_clusters v1)) (requests ops) \<longrightarrow> map fst gs = requests ops"
    using Cons.IH[OF 1(2) _ _ 1(4)] 1(3,5) Cons.prems(3) by auto
  have "placed_on rule (vl_multi_site v) site (vl_clusters v) p" if "p \<in> set (fs @ gs)" for p
    using that 1(7) 2(4) placed_on_same[OF _ same_clusters_sym[OF 1(6)], of rule "vl_multi_site v" site p] by auto
  moreover have "map fst (fs @ gs) = requests (op # ops)" if "list_all (servable rule (vl_multi_site v) site (vl_clusters v)) (requests (op # ops))"
  proof -
    have "\<forall>c \<in> set (vl_clusters v1). cluster_ready rule (vl_multi_site v) c" using 1(2,5) by (simp add: volume_ready_def)
    then have "list_all (servable rule (vl_multi_site v) site (vl_clusters v1)) (requests ops)"
      using that servable_same[OF _ 1(6) _ assms] by (auto simp: list_all_iff requests_def)
    moreover have "list_all (servable rule (vl_multi_site v) site (vl_clusters v)) (requests [op])" using that by (simp add: requests_def)
    ultimately show ?thesis using 1(8) 2(5) by (simp add: requests_def)
  qed
  ultimately show ?case using 1(1) 2(1,2) same_clusters_trans[OF 1(6) 2(3)] by auto
qed (simp add: requests_def)

section \<open>Properties\<close>

text \<open>A volume of one cluster, with five storages on three hosts.\<close>

definition sample_storage :: "u8 \<Rightarrow> u8 \<Rightarrow> volume_storage_t" where
  "sample_storage sid rank = (volume_storage_initialize sid ''host'' rank 1)\<lparr>vs_status := 1, stat_size := 1000, stat_free := 500\<rparr>"

definition sample_cluster :: cluster_t where
  "sample_cluster = (cluster_initialize 1 5000 2500)\<lparr>cl_storages := [[sample_storage 1 0, sample_storage 2 0, sample_storage 3 0, sample_storage 4 1, sample_storage 5 2], []]\<rparr>"

definition sample_volume :: volume_t where
  "sample_volume = (volume_initialize 1 0 0 0 None)\<lparr>vl_clusters := [sample_cluster], vl_distribute := [[sample_cluster], []], vl_balanced := True\<rparr>"

definition sample_answers :: storaged where
  "sample_answers cid host sid = (if sid = 3 then No_reply else Stats 1000 (400 + word_of_int (uint sid)))"

lemma sample_cluster_ready: "cluster_ready rule False sample_cluster"
proof -
  have "list_all (\<lambda>xs. distinct (map vs_sid xs) \<and> length xs \<le> 64 \<and> list_all (\<lambda>vs. location False vs < 64) xs) (cl_storages sample_cluster)"
    "length (cl_storages sample_cluster) = 2" "uint (cl_cid sample_cluster) < ROZOFS_CLUSTERS_MAX" by code_simp+
  then show ?thesis by (auto simp: cluster_ready_def fits_masks_def list_all_iff)
qed

lemma sample_volume_facts:
  "volume_ready rule sample_volume" "vl_balanced sample_volume" "\<not> vl_georep sample_volume" "active_clusters sample_volume = [sample_cluster]"
  "\<not> vl_multi_site sample_volume" "vl_clusters sample_volume = [sample_cluster]"
  using sample_cluster_ready[of rule]
  by (auto simp: volume_ready_def sample_volume_def volume_initialize_def active_clusters_def)

lemma sample_call: "call_ok 0 1 0 0" "call_ok 2 1 0 0"
  by (auto simp: call_ok_def ordered_rule_def strict_rule_def rule_defs decrease_size_def)

lemma sample_runs: "map_option fst (volume_distribute 0 1 0 0 0 sample_volume) = Some (Some (1, [1, 4, 5, 2]))"
  by code_simp

lemma sample_list: "list_all (\<lambda>vs. vs_status vs \<noteq> 0 \<and> stat_free vs \<noteq> 0) (cl_storages sample_cluster ! 0)" "length (cl_storages sample_cluster ! 0) = 5"
  by code_simp+

lemma sample_servable: "servable 2 False 0 [sample_cluster] 0"
  using sample_list(2) layout_params
  by (simp add: servable_def capable_def layout_safe_def strict_rule_def ordered_rule_def rule_defs)

definition used_at :: "bool \<Rightarrow> volume_storage_t list \<Rightarrow> u8 list \<Rightarrow> int \<Rightarrow> nat" where
  "used_at multi_site xs sids l = length (filter (\<lambda>vs. location multi_site vs = l \<and> vs_sid vs \<in> set sids) xs)"

definition storages_at :: "bool \<Rightarrow> volume_storage_t list \<Rightarrow> int \<Rightarrow> nat" where
  "storages_at multi_site xs l = length (filter (\<lambda>vs. location multi_site vs = l) xs)"

lemma ready_site: "cluster_ready rule multi_site c \<Longrightarrow> 0 \<le> site \<Longrightarrow> site < 2 \<Longrightarrow> distinct (map vs_sid (cl_storages c ! nat site))"
  by (simp add: cluster_ready_def nat_less_iff)

lemma keys_at_count:
  assumes "distinct (map vs_sid xs)"
  shows "card {sid. (sid, l) \<in> set (map (storage_key multi_site) xs) \<and> P sid} = length (filter (\<lambda>vs. location multi_site vs = l \<and> P (vs_sid vs)) xs)"
proof -
  let ?ys = "filter (\<lambda>vs. location multi_site vs = l \<and> P (vs_sid vs)) xs"
  have "{sid. (sid, l) \<in> set (map (storage_key multi_site) xs) \<and> P sid} = set (map vs_sid ?ys)" by (auto simp: storage_key_def)
  moreover have "distinct (map vs_sid ?ys)" using assms by (rule distinct_map_filter)
  ultimately show ?thesis using distinct_card[of "map vs_sid ?ys"] by simp
qed

lemma evenly_used:
  assumes "distinct (map vs_sid xs)" "evenly (set (map (storage_key multi_site) xs)) (set sids)"
  shows "used_at multi_site xs sids l \<le> used_at multi_site xs sids l' + 1 \<or> used_at multi_site xs sids l' = storages_at multi_site xs l'"
proof -
  let ?I = "set (map (storage_key multi_site) xs)"
  have u: "card (keys_at ?I m \<inter> set sids) = used_at multi_site xs sids m" for m
    using keys_at_count[OF assms(1), of m multi_site "\<lambda>sid. sid \<in> set sids"] unfolding keys_at_def used_at_def by (simp add: Int_def)
  have t: "card (keys_at ?I m) = storages_at multi_site xs m" for m
    using keys_at_count[OF assms(1), of m multi_site "\<lambda>_. True"] unfolding keys_at_def storages_at_def by simp
  have "keys_at ?I l' \<subseteq> set sids \<Longrightarrow> card (keys_at ?I l' \<inter> set sids) = card (keys_at ?I l')" by (simp add: inf.absorb1)
  then show ?thesis using assms(2) unfolding evenly_def u t by metis
qed

text \<open>
  C7. A file is placed on one cluster of the volume, on as many different storages of that cluster as its layout asks for. The storages are spread evenly over the hosts (or the sites): two
  of them hold numbers of storages of the file that differ by one at most, unless the smaller has no storage left. With the two rules that look at the free space, at least as many of the storages
  as a write needs are online and have free space; the three strict rules do not look at the state of a storage and promise nothing about it.
\<close>

theorem distribution_spreads:
  assumes "volume_ready rule v" "vl_balanced v" "call_ok rule mb (if vl_georep v then site_number else local_site) layout"
    and "volume_distribute rule mb local_site layout site_number v = Some (Some (cid, sids), v')"
  shows "\<exists>c \<in> set (active_clusters v). cl_cid c = cid \<and> (let xs = cl_storages c ! nat (if vl_georep v then site_number else local_site) in
      int (length sids) = rozofs_get_rozofs_safe layout \<and> distinct sids \<and> set sids \<subseteq> vs_sid ` set xs
      \<and> (\<forall>l l'. used_at (vl_multi_site v) xs sids l \<le> used_at (vl_multi_site v) xs sids l' + 1 \<or> used_at (vl_multi_site v) xs sids l' = storages_at (vl_multi_site v) xs l')
      \<and> (ordered_rule rule \<longrightarrow> rozofs_get_rozofs_forward layout \<le> int (length (filter (\<lambda>vs. vs_status vs \<noteq> 0 \<and> stat_free vs \<noteq> 0 \<and> vs_sid vs \<in> set sids) xs))))"
proof -
  let ?site = "if vl_georep v then site_number else local_site"
  obtain c where c: "c \<in> set (active_clusters v)" "cl_cid c = cid" "good_distribution rule layout (vl_multi_site v) (cl_storages c ! nat ?site) sids"
    using volume_distributes[OF assms(1-3)] assms(4) by auto
  have "same_clusters (active_clusters v) (vl_clusters v)" using assms(1,2) by (simp add: volume_ready_def)
  then have "cluster_ready rule (vl_multi_site v) c" using same_clusters_ready c(1) assms(1) by (fastforce simp: volume_ready_def)
  then have d: "distinct (map vs_sid (cl_storages c ! nat ?site))" using ready_site assms(3) by (simp add: call_ok_def)
  have "0 < layout_safe layout" using assms(3) layout_safe_pos by (simp add: call_ok_def)
  moreover have "usable_count xs sids = length (filter (\<lambda>vs. vs_status vs \<noteq> 0 \<and> stat_free vs \<noteq> 0 \<and> vs_sid vs \<in> set sids) xs)" for xs
    by (simp add: usable_count_def usable_def)
  ultimately show ?thesis using c(2,3) evenly_used[OF d]
    unfolding good_distribution_def distribution_ok_def Let_def by (intro bexI[OF _ c(1)]) (simp add: layout_safe_def)
qed

theorem distribution_spreads_witness:
  "\<exists>c \<in> set (active_clusters sample_volume). cl_cid c = 1 \<and> (let xs = cl_storages c ! 0; sids = [1, 4, 5, 2] in
     int (length sids) = rozofs_get_rozofs_safe 0 \<and> set sids \<subseteq> vs_sid ` set xs
     \<and> (\<forall>l l'. used_at False xs sids l \<le> used_at False xs sids l' + 1 \<or> used_at False xs sids l' = storages_at False xs l')
     \<and> rozofs_get_rozofs_forward 0 \<le> int (length (filter (\<lambda>vs. vs_status vs \<noteq> 0 \<and> stat_free vs \<noteq> 0 \<and> vs_sid vs \<in> set sids) xs)))"
proof -
  obtain v' where "volume_distribute 0 1 0 0 0 sample_volume = Some (Some (1, [1, 4, 5, 2]), v')" using sample_runs by fastforce
  moreover have "ordered_rule 0" by (simp add: ordered_rule_def rule_defs)
  ultimately show ?thesis
    using distribution_spreads[of 0 sample_volume 1 0 0 0 1 "[1, 4, 5, 2]" v'] sample_volume_facts sample_call(1) by (simp add: Let_def)
qed

text \<open>
  C21. A cluster that has enough storages is found. With a strict rule, a request succeeds when a cluster of the volume has as many storages as the layout asks for, online or not, counting at most four
  for a host (or a site). With the rules that look at the free space, it succeeds when a cluster has as many storages, counting at most eight for a host, and no more of its storages are offline or full
  than the layout writes beyond what it needs (\<^verbatim>\<open>rozofs_safe - rozofs_forward\<close>). For the layouts of 4 and 8 storages it does not matter on which hosts the storages are.
\<close>

theorem request_served:
  assumes "volume_ready rule v" "vl_balanced v" "call_ok rule mb (if vl_georep v then site_number else local_site) layout"
    and "c \<in> set (active_clusters v)" "xs = cl_storages c ! nat (if vl_georep v then site_number else local_site)"
    and "ordered_rule rule \<longrightarrow> int (length (filter (\<lambda>vs. vs_status vs = 0 \<or> stat_free vs = 0) xs)) \<le> rozofs_get_rozofs_safe layout - rozofs_get_rozofs_forward layout"
    and "int (\<Sum>l \<in> location (vl_multi_site v) ` set xs. min (storages_at (vl_multi_site v) xs l) (if ordered_rule rule then 8 else 4)) \<ge> rozofs_get_rozofs_safe layout
      \<or> layout < 2 \<and> int (length xs) \<ge> rozofs_get_rozofs_safe layout"
  shows "\<exists>cid sids v'. volume_distribute rule mb local_site layout site_number v = Some (Some (cid, sids), v')"
proof -
  let ?site = "if vl_georep v then site_number else local_site" and ?I = "set (map (storage_key (vl_multi_site v)) xs)"
  have "same_clusters (active_clusters v) (vl_clusters v)" using assms(1,2) by (simp add: volume_ready_def)
  then have "cluster_ready rule (vl_multi_site v) c" using same_clusters_ready assms(4) assms(1) by (fastforce simp: volume_ready_def)
  then have d: "distinct (map vs_sid xs)" using ready_site assms(3,5) by (simp add: call_ok_def)
  have "card (keys_at ?I l) = storages_at (vl_multi_site v) xs l" for l
    using keys_at_count[OF d, of l "vl_multi_site v" "\<lambda>_. True"] unfolding keys_at_def storages_at_def by simp
  moreover have "snd ` ?I = location (vl_multi_site v) ` set xs" by (simp add: image_image storage_key_def)
  ultimately have "capacity ?I n = (\<Sum>l \<in> location (vl_multi_site v) ` set xs. min (storages_at (vl_multi_site v) xs l) n)" for n by (simp add: capacity_def)
  then have "capable rule layout (vl_multi_site v) xs"
    using assms(6,7) unfolding capable_def layout_safe_def unusable_count_def usable_def by (auto simp: nat_le_iff)
  then show ?thesis using volume_distributes[OF assms(1-3)] assms(4,5) by (auto split: option.splits)
qed

theorem request_served_witness: "\<exists>cid sids v'. volume_distribute 0 1 0 0 0 sample_volume = Some (Some (cid, sids), v')"
  using request_served[of 0 sample_volume 1 0 0 0 sample_cluster "cl_storages sample_cluster ! 0"] sample_volume_facts sample_call(1) sample_list layout_params
  by (simp add: list_all_iff)

lemma volume_session_serves_gen:
  assumes "volume_ready rule v" "\<not> vl_georep v" "0 \<le> local_site" "local_site < 2" "list_all (op_ok rule mb local_site) ops"
  shows "\<exists>files v'. volume_run rule mb local_site (Balance st # ops) v = Some (files, v')
    \<and> list_all (\<lambda>(layout, cid, sids). volume_distribution_check local_site (nat (rozofs_get_rozofs_safe layout)) (uint cid) (map uint sids) v' = Some True) files
    \<and> (list_all (servable rule (vl_multi_site v) local_site (vl_clusters v)) (requests ops) \<longrightarrow> map fst files = requests ops)"
proof -
  have "list_all (op_ok rule mb local_site) (Balance st # ops)" using assms(5) by (simp add: op_ok_def)
  from volume_run_ok[OF assms(3,4,1) _ this assms(2)] obtain fs v' where
    f: "volume_run rule mb local_site (Balance st # ops) v = Some (fs, v')" "volume_ready rule v'" "same_clusters (vl_clusters v) (vl_clusters v')"
    "\<forall>p \<in> set fs. placed_on rule (vl_multi_site v) local_site (vl_clusters v) p"
    "list_all (servable rule (vl_multi_site v) local_site (vl_clusters v)) (requests (Balance st # ops)) \<longrightarrow> map fst fs = requests (Balance st # ops)" by auto
  have "placed_ok local_site v' p" if "p \<in> set fs" for p using placed_on_ok[OF f(2) assms(3,4) placed_on_same[OF _ f(3)]] f(4) that by blast
  then have "list_all (\<lambda>(layout, cid, sids). volume_distribution_check local_site (nat (rozofs_get_rozofs_safe layout)) (uint cid) (map uint sids) v' = Some True) fs"
    by (auto simp: list_all_iff placed_ok_def layout_safe_def)
  moreover have "requests (Balance st # ops) = requests ops" by (simp add: requests_def)
  ultimately show ?thesis using f(1,5) by auto
qed

text \<open>
  C11. A session on a volume without geo-replication that is first balanced, with any answers of the storage daemons, any later balancing and any requests: nothing undefined happens, and at the end every
  file that was placed passes the check of its distribution. With a strict rule, when a cluster has enough storages for each of the requests, all of them are served, in their order. A rule that looks
  at the free space needs clusters of at most 64 storages on ranks below 64 (\<open>volume_ready\<close>), and may refuse requests.
\<close>

theorem volume_session_serves:
  assumes "volume_ready rule v" "\<not> vl_georep v" "0 \<le> local_site" "local_site < 2" "list_all (op_ok rule mb local_site) ops"
  shows "\<exists>files v'. volume_run rule mb local_site (Balance st # ops) v = Some (files, v')
    \<and> list_all (\<lambda>(layout, cid, sids). volume_distribution_check local_site (nat (rozofs_get_rozofs_safe layout)) (uint cid) (map uint sids) v' = Some True) files
    \<and> (list_all (servable rule (vl_multi_site v) local_site (vl_clusters v)) (requests ops) \<longrightarrow> map fst files = requests ops)"
  by (rule volume_session_serves_gen[OF assms])

theorem volume_session_serves_witness:
  "\<exists>files v'. volume_run 2 1 0 [Balance sample_answers, Distribute 0 0, Balance sample_answers, Distribute 0 0] sample_volume = Some (files, v')
    \<and> list_all (\<lambda>(layout, cid, sids). volume_distribution_check 0 (nat (rozofs_get_rozofs_safe layout)) (uint cid) (map uint sids) v' = Some True) files
    \<and> map fst files = [0, 0]"
  using volume_session_serves[of 2 sample_volume 0 1 "[Distribute 0 0, Balance sample_answers, Distribute 0 0]" sample_answers]
    sample_volume_facts sample_call(2) sample_servable by (simp add: op_ok_def requests_def)

text \<open>
  Balancing a volume that is not balanced yet, or with a rule that looks at the free space, makes every storage of the local site what its daemon last said of it, and the free space of a
  cluster the sum of the free spaces of its storages that are online. With such a rule the clusters are then sorted by free space, and the storages of each by being online and by free space.
\<close>

theorem balance_orders:
  assumes "volume_ready rule v" "0 \<le> local_site" "local_site < 2" "\<not> (vl_balanced v \<and> strict_rule rule)"
  shows "\<exists>v'. volume_balance st rule local_site v = Some v' \<and> (let cs = vl_distribute v' ! nat (vl_active_list v') in
      (\<forall>c \<in> set cs. (\<forall>vs \<in> set (cl_storages c ! nat local_site).
          (case st (cl_cid c) (vs_host vs) (vs_sid vs) of Stats sz free \<Rightarrow> vs_status vs = 1 \<and> stat_size vs = sz \<and> stat_free vs = free | _ \<Rightarrow> vs_status vs = 0))
        \<and> cl_free c = sum_list (map stat_free (filter (\<lambda>vs. vs_status vs \<noteq> 0) (cl_storages c ! nat local_site))))
      \<and> mset (map cl_cid cs) = mset (map cl_cid (vl_clusters v))
      \<and> (ordered_rule rule \<longrightarrow> sorted_wrt (\<lambda>a b. cl_free b \<le> cl_free a) cs
          \<and> (\<forall>c \<in> set cs. sorted_wrt (\<lambda>a b. vs_status a \<noteq> 0 \<and> vs_status b = 0 \<or> ((vs_status a = 0) = (vs_status b = 0)) \<and> stat_free b \<le> stat_free a)
              (cl_storages c ! nat local_site))))"
proof -
  obtain v' where v': "volume_balance st rule local_site v = Some v'" "volume_ready rule v'" "vl_balanced v'" "same_clusters (vl_clusters v') (vl_clusters v)"
    and rep: "list_all (site_reported st local_site) (active_clusters v')"
    and srt: "ordered_rule rule \<longrightarrow> sorted_wrt (\<lambda>a b. cl_free b \<le> cl_free a) (active_clusters v')
      \<and> (\<forall>c \<in> set (active_clusters v'). sorted_wrt storage_before (cl_storages c ! nat local_site))"
    using volume_balances[OF assms(1-3), of st] assms(4) by auto
  have "same_clusters (active_clusters v') (vl_clusters v)" using v'(2-4) same_clusters_trans by (auto simp: volume_ready_def)
  note cids = same_clusters_cids[OF this]
  have sb: "storage_before = (\<lambda>a b. vs_status a \<noteq> 0 \<and> vs_status b = 0 \<or> ((vs_status a = 0) = (vs_status b = 0)) \<and> stat_free b \<le> stat_free a)"
    by (intro ext) (simp add: storage_before_def)
  have "(case st cid (vs_host vs) (vs_sid vs) of Stats sz free \<Rightarrow> vs_status vs = 1 \<and> stat_size vs = sz \<and> stat_free vs = free | _ \<Rightarrow> vs_status vs = 0)"
    if "reported st cid vs" for cid vs using that by (auto simp: reported_def split: stat_reply.splits)
  then have "\<forall>c \<in> set (active_clusters v'). (\<forall>vs \<in> set (cl_storages c ! nat local_site).
        (case st (cl_cid c) (vs_host vs) (vs_sid vs) of Stats sz free \<Rightarrow> vs_status vs = 1 \<and> stat_size vs = sz \<and> stat_free vs = free | _ \<Rightarrow> vs_status vs = 0))
      \<and> cl_free c = sum_list (map stat_free (filter (\<lambda>vs. vs_status vs \<noteq> 0) (cl_storages c ! nat local_site)))"
    using rep by (simp add: list_all_iff site_reported_def online_free_def)
  with v'(1) cids srt[unfolded sb] show ?thesis unfolding Let_def active_clusters_def[symmetric] by blast
qed

theorem balance_orders_witness:
  "\<exists>v'. volume_balance sample_answers 0 0 sample_volume = Some v' \<and> sorted_wrt (\<lambda>a b. cl_free b \<le> cl_free a) (vl_distribute v' ! nat (vl_active_list v'))
     \<and> mset (map cl_cid (vl_distribute v' ! nat (vl_active_list v'))) = {#1#}"
proof -
  have "ordered_rule 0" "\<not> strict_rule 0" "cl_cid sample_cluster = 1"
    by (simp_all add: ordered_rule_def strict_rule_def rule_defs sample_cluster_def cluster_initialize_def)
  then show ?thesis using balance_orders[of 0 sample_volume 0 sample_answers] sample_volume_facts by (auto simp: Let_def)
qed



end
