(* ===== verification/Econfig.thy ===== *)
theory Econfig
  imports Volume_Service
begin

text \<open>
  The configuration of the export daemon: the numbering of the hosts of a cluster and the validation of a configuration (\<^verbatim>\<open>src/exportd/econfig.c\<close>), and the volumes that are
  made from it (\<^verbatim>\<open>load_volumes_conf\<close> of \<^verbatim>\<open>src/exportd/exportd.c\<close>). The text of the file is read by \<^verbatim>\<open>libconfig\<close> and is not modelled. A list is
  the sequence of its entries. Whether a directory can be reached is a parameter.
\<close>

section \<open>Model\<close>

record storage_node_config_t =
  sn_sid :: u8
  sn_host :: string
  sn_siteNum :: u8
  sn_host_rank :: u8

record cluster_config_t =
  cc_cid :: u16
  cc_storages :: "storage_node_config_t list list"
  cc_nb_host :: "u8 list"

record volume_config_t =
  vc_vid :: u16
  vc_layout :: u8
  vc_georep :: u8
  vc_multi_site :: u8
  vc_clusters :: "cluster_config_t list"
  vc_rebalance_cfg :: "string option"

record export_config_t =
  ex_eid :: u16
  ex_vid :: u16
  ex_layout :: u8
  ex_root :: string
  ex_name :: string

record expgw_config_t =
  gw_daemon_id :: int
  gw_nodes :: "int list"

record econfig_t =
  ec_layout :: u8
  ec_volumes :: "volume_config_t list"
  ec_exports :: "export_config_t list"
  ec_expgw :: "expgw_config_t list"

definition STORAGE_NODES_MAX :: nat where "STORAGE_NODES_MAX = 64"
definition STORAGES_MAX_BY_STORAGE_NODE :: u8 where "STORAGES_MAX_BY_STORAGE_NODE = 128"

definition storage_node_config_initialize :: "u8 \<Rightarrow> string \<Rightarrow> u8 \<Rightarrow> storage_node_config_t option" where
  "storage_node_config_initialize sid host site =
     (if sid < 1 \<or> site = 0 then None else Some \<lparr>sn_sid = sid, sn_host = take ROZOFS_HOSTNAME_MAX host, sn_siteNum = site, sn_host_rank = 0\<rparr>)"

subsection \<open>Numbering\<close>

text \<open>A storage gets the rank of the first storage before it that is on the same host, or a new one. The ranks are counted with an \<^verbatim>\<open>int\<close> and kept in a byte.\<close>

fun number_storages :: "storage_node_config_t list \<Rightarrow> int \<Rightarrow> storage_node_config_t list \<Rightarrow> storage_node_config_t list \<times> int" where
  "number_storages before rank [] = (before, rank)"
| "number_storages before rank (s1 # ss) = (case List.find (\<lambda>s2. sn_host s2 = sn_host s1) before of
       Some s2 \<Rightarrow> number_storages (before @ [s1\<lparr>sn_host_rank := sn_host_rank s2\<rparr>]) rank ss
     | None \<Rightarrow> number_storages (before @ [s1\<lparr>sn_host_rank := word_of_int rank\<rparr>]) (rank + 1) ss)"

definition number_cluster :: "cluster_config_t \<Rightarrow> cluster_config_t" where
  "number_cluster c = c\<lparr>cc_storages := map (\<lambda>ss. fst (number_storages [] 0 ss)) (cc_storages c),
     cc_nb_host := map (\<lambda>ss. word_of_int (snd (number_storages [] 0 ss))) (cc_storages c)\<rparr>"

definition econfig_number_storages_per_cluster :: "volume_config_t \<Rightarrow> volume_config_t" where
  "econfig_number_storages_per_cluster config = config\<lparr>vc_clusters := map number_cluster (vc_clusters config)\<rparr>"

subsection \<open>Validation\<close>

text \<open>The loops that compare each entry with all the other entries.\<close>

definition no_duplicate :: "('a \<Rightarrow> 'b) \<Rightarrow> 'a list \<Rightarrow> nat \<Rightarrow> bool" where
  "no_duplicate key xs i = list_all (\<lambda>j. i = j \<or> key (xs ! i) \<noteq> key (xs ! j)) [0..<length xs]"

definition econfig_validate_storages :: "cluster_config_t \<Rightarrow> bool" where
  "econfig_validate_storages config = list_all (\<lambda>ss. list_all (no_duplicate sn_sid ss) [0..<length ss]) (cc_storages config)"

definition econfig_validate_expgw_node :: "expgw_config_t \<Rightarrow> bool" where
  "econfig_validate_expgw_node config = list_all (no_duplicate id (gw_nodes config)) [0..<length (gw_nodes config)]"

definition econfig_validate_clusters :: "volume_config_t \<Rightarrow> bool" where
  "econfig_validate_clusters config = (let cs = vc_clusters config in
     list_all (\<lambda>i. no_duplicate cc_cid cs i \<and> econfig_validate_storages (cs ! i)) [0..<length cs])"

definition econfig_validate_volume_clusters_vs_layout :: "volume_config_t \<Rightarrow> u8 \<Rightarrow> bool" where
  "econfig_validate_volume_clusters_vs_layout config layout = (let safe = rozofs_get_rozofs_safe (uint layout) in
     list_all (\<lambda>c. safe \<le> int (length (cc_storages c ! 0)) \<and> (vc_georep config = 0 \<or> safe \<le> int (length (cc_storages c ! 1)))) (vc_clusters config))"

text \<open>The storages are counted for each host name; a count is a byte.\<close>

fun count_host :: "string \<Rightarrow> (string \<times> u8) list \<Rightarrow> (string \<times> u8) list option" where
  "count_host host [] = Some [(take ROZOFS_HOSTNAME_MAX host, 1)]"
| "count_host host ((h, n) # nodes) =
     (if host = h then (if n + 1 > STORAGES_MAX_BY_STORAGE_NODE then None else Some ((h, n + 1) # nodes))
      else map_option (\<lambda>nodes. (h, n) # nodes) (count_host host nodes))"

definition add_stor_node :: "string \<Rightarrow> (string \<times> u8) list \<Rightarrow> (string \<times> u8) list option" where
  "add_stor_node host nodes = (if host \<notin> fst ` set nodes \<and> length nodes + 1 > STORAGE_NODES_MAX then None else count_host host nodes)"

definition econfig_validate_storage_nb :: "volume_config_t \<Rightarrow> bool" where
  "econfig_validate_storage_nb config \<longleftrightarrow> econfig_validate_volume_clusters_vs_layout config (vc_layout config)
     \<and> foldM (\<lambda>s nodes. add_stor_node (sn_host s) nodes) (concat (map (\<lambda>j. concat (map (\<lambda>c. cc_storages c ! j) (vc_clusters config))) [0..<ROZOFS_GEOREP_MAX_SITE])) [] \<noteq> None"

definition econfig_validate_volumes :: "econfig_t \<Rightarrow> bool" where
  "econfig_validate_volumes config = (let vs = ec_volumes config in
     list_all (\<lambda>i. uint (vc_layout (vs ! i)) < LAYOUT_MAX \<and> no_duplicate vc_vid vs i \<and> econfig_validate_storage_nb (vs ! i) \<and> econfig_validate_clusters (vs ! i)) [0..<length vs])"

definition econfig_validate_expgw :: "econfig_t \<Rightarrow> bool" where
  "econfig_validate_expgw config = (let gs = ec_expgw config in
     list_all (\<lambda>i. no_duplicate gw_daemon_id gs i \<and> econfig_validate_expgw_node (gs ! i)) [0..<length gs])"

text \<open>An export without a layout takes the one of its volume; the layout -1 of the file is 255 in the byte.\<close>

definition validate_export :: "(string \<Rightarrow> bool) \<Rightarrow> econfig_t \<Rightarrow> nat \<Rightarrow> export_config_t option" where
  "validate_export access config i = (let es = ec_exports config; e1 = es ! i in
     if \<not> (no_duplicate ex_eid es i \<and> no_duplicate ex_root es i \<and> no_duplicate ex_name es i) then None
     else case List.find (\<lambda>e3. ex_vid e1 = vc_vid e3) (ec_volumes config) of
       None \<Rightarrow> None
     | Some e3 \<Rightarrow>
         if \<not> access (ex_root e1) then None
         else if uint (ex_layout e1) > LAYOUT_MAX then Some (e1\<lparr>ex_layout := vc_layout e3\<rparr>)
         else if econfig_validate_volume_clusters_vs_layout e3 (ex_layout e1) then Some e1 else None)"

definition econfig_validate_exports :: "(string \<Rightarrow> bool) \<Rightarrow> econfig_t \<Rightarrow> export_config_t list option" where
  "econfig_validate_exports access config = those (map (validate_export access config) [0..<length (ec_exports config)])"

text \<open>The configuration with the layouts of its exports, when it is valid.\<close>

definition econfig_validate :: "(string \<Rightarrow> bool) \<Rightarrow> econfig_t \<Rightarrow> econfig_t option" where
  "econfig_validate access config =
     (if uint (ec_layout config) > 2 \<or> \<not> econfig_validate_volumes config \<or> \<not> econfig_validate_expgw config then None
      else map_option (\<lambda>es. config\<lparr>ec_exports := es\<rparr>) (econfig_validate_exports access config))"

definition econfig_check_consistency :: "econfig_t \<Rightarrow> econfig_t \<Rightarrow> bool" where
  "econfig_check_consistency from to \<longleftrightarrow> ec_layout from = ec_layout to"

subsection \<open>Loading\<close>

text \<open>The order of the storages is mixed in one of four ways, after the two low bits of the cluster identifier.\<close>

fun mix_storages :: "nat \<Rightarrow> storage_node_config_t list \<Rightarrow> volume_storage_t list \<Rightarrow> nat \<times> volume_storage_t list" where
  "mix_storages flipflop [] xs = (flipflop, xs)"
| "mix_storages flipflop (s # ss) xs = (
     let vs = volume_storage_initialize (sn_sid s) (sn_host s) (sn_host_rank s) (sn_siteNum s) in
     if flipflop = 1 then mix_storages 1 ss (xs @ [vs])
     else if flipflop = 2 then mix_storages 2 ss (vs # xs)
     else if flipflop = 3 then mix_storages 0 ss (xs @ [vs])
     else mix_storages 3 ss (vs # xs))"

fun mix_sites :: "nat \<Rightarrow> storage_node_config_t list list \<Rightarrow> volume_storage_t list list" where
  "mix_sites flipflop [] = []"
| "mix_sites flipflop (ss # sites) = (case mix_storages flipflop ss [] of (flipflop, xs) \<Rightarrow> xs # mix_sites flipflop sites)"

definition load_cluster :: "cluster_config_t \<Rightarrow> cluster_t" where
  "load_cluster cconfig = (cluster_initialize (cc_cid cconfig) 0 0)\<lparr>cl_nb_host := cc_nb_host cconfig, cl_storages := mix_sites (unat (cc_cid cconfig AND 3)) (cc_storages cconfig)\<rparr>"

definition load_volume :: "volume_config_t \<Rightarrow> volume_t" where
  "load_volume vconfig = (volume_initialize (vc_vid vconfig) (vc_layout vconfig) (vc_georep vconfig) (vc_multi_site vconfig) (vc_rebalance_cfg vconfig))
     \<lparr>vl_clusters := map load_cluster (vc_clusters vconfig)\<rparr>"

definition load_volumes_conf :: "econfig_t \<Rightarrow> volume_t list" where
  "load_volumes_conf config = map load_volume (ec_volumes config)"

section \<open>Validation and loading\<close>

lemma no_duplicate_all: "list_all (no_duplicate key xs) [0..<length xs] \<longleftrightarrow> distinct (map key xs)"
  unfolding no_duplicate_def list_all_iff distinct_conv_nth by (auto simp: Ball_def)

definition load_storage :: "storage_node_config_t \<Rightarrow> volume_storage_t" where
  "load_storage s = volume_storage_initialize (sn_sid s) (sn_host s) (sn_host_rank s) (sn_siteNum s)"

lemma mix_storages_mset: "mset (snd (mix_storages flipflop ss xs)) = mset xs + mset (map load_storage ss)"
  by (induction flipflop ss xs rule: mix_storages.induct) (auto simp: load_storage_def Let_def)

lemma mix_sites_mset:
  "list_all2 (\<lambda>xs ss. mset xs = mset (map load_storage ss)) (mix_sites flipflop sites) sites"
proof (induction sites arbitrary: flipflop)
  case (Cons ss sites)
  then show ?case using mix_storages_mset[of flipflop ss "[]"] by (auto split: prod.splits)
qed simp

lemma load_storage_fields [simp]: "vs_sid (load_storage s) = sn_sid s" "host_rank (load_storage s) = sn_host_rank s" "siteNum (load_storage s) = sn_siteNum s"
  by (simp_all add: load_storage_def volume_storage_initialize_def)

lemma loaded_sids: "mset xs = mset (map load_storage ss) \<Longrightarrow> distinct (map vs_sid xs) = distinct (map sn_sid ss) \<and> length xs = length ss"
proof
  assume m: "mset xs = mset (map load_storage ss)"
  show "length xs = length ss" using arg_cong[OF m, of size] by simp
  have "mset (map vs_sid xs) = mset (map vs_sid (map load_storage ss))" using m by (metis mset_map)
  then show "distinct (map vs_sid xs) = distinct (map sn_sid ss)" using mset_eq_imp_distinct_iff by (fastforce simp: comp_def)
qed

text \<open>A cluster of a configuration has a list for each of the two sites.\<close>

definition two_sites :: "volume_config_t \<Rightarrow> bool" where
  "two_sites config \<longleftrightarrow> list_all (\<lambda>c. length (cc_storages c) = ROZOFS_GEOREP_MAX_SITE) (vc_clusters config)"

lemma load_cluster_fields [simp]: "cl_cid (load_cluster c) = cc_cid c" "cl_storages (load_cluster c) = mix_sites (unat (cc_cid c AND 3)) (cc_storages c)"
  by (simp_all add: load_cluster_def cluster_initialize_def)

lemma load_cluster_ready:
  assumes "econfig_validate_storages c" "length (cc_storages c) = 2" "\<not> ordered_rule rule"
  shows "cluster_ready rule multi_site (load_cluster c)"
proof -
  let ?sites = "mix_sites (unat (cc_cid c AND 3)) (cc_storages c)"
  note M = mix_sites_mset[of "unat (cc_cid c AND 3)" "cc_storages c"]
  have ss: "\<forall>ss \<in> set (cc_storages c). distinct (map sn_sid ss)" using assms(1) unfolding econfig_validate_storages_def no_duplicate_all by (simp add: list_all_iff)
  have "distinct (map vs_sid (?sites ! i))" if "i < length ?sites" for i
    using list_all2_nthD[OF M that] loaded_sids ss that list_all2_lengthD[OF M] by fastforce
  then have "\<forall>xs \<in> set ?sites. distinct (map vs_sid xs)" by (auto simp: in_set_conv_nth)
  then show ?thesis using assms(2,3) list_all2_lengthD[OF M] by (simp add: cluster_ready_def)
qed

lemma valid_volume:
  assumes "econfig_validate access config = Some config'" "vc \<in> set (ec_volumes config)"
  shows "uint (vc_layout vc) < 3" "econfig_validate_storage_nb vc" "econfig_validate_clusters vc"
proof -
  have "econfig_validate_volumes config" using assms(1) by (auto simp: econfig_validate_def split: if_splits)
  moreover obtain i where "i < length (ec_volumes config)" "ec_volumes config ! i = vc" using assms(2) by (auto simp: in_set_conv_nth)
  ultimately show "uint (vc_layout vc) < 3" "econfig_validate_storage_nb vc" "econfig_validate_clusters vc"
    by (auto simp: econfig_validate_volumes_def list_all_iff Let_def)
qed

lemma valid_clusters:
  assumes "econfig_validate_clusters vc"
  shows "distinct (map cc_cid (vc_clusters vc))" "\<forall>c \<in> set (vc_clusters vc). econfig_validate_storages c"
proof -
  have "list_all (no_duplicate cc_cid (vc_clusters vc)) [0..<length (vc_clusters vc)]" "\<forall>i < length (vc_clusters vc). econfig_validate_storages (vc_clusters vc ! i)"
    using assms by (auto simp: econfig_validate_clusters_def Let_def list_all_iff)
  then show "distinct (map cc_cid (vc_clusters vc))" "\<forall>c \<in> set (vc_clusters vc). econfig_validate_storages c"
    by (auto simp: no_duplicate_all in_set_conv_nth)
qed

lemma load_volume_ready:
  assumes "econfig_validate_clusters vc" "two_sites vc" "\<not> ordered_rule rule"
  shows "volume_ready rule (load_volume vc)"
proof -
  have "cluster_ready rule m (load_cluster c)" if "c \<in> set (vc_clusters vc)" for c m
    using that load_cluster_ready[OF _ _ assms(3)] valid_clusters(2)[OF assms(1)] assms(2) by (auto simp: two_sites_def list_all_iff ROZOFS_GEOREP_MAX_SITE_def)
  moreover have "map cl_cid (map load_cluster (vc_clusters vc)) = map cc_cid (vc_clusters vc)" by simp
  ultimately show ?thesis using valid_clusters(1)[OF assms(1)] by (auto simp: volume_ready_def load_volume_def volume_initialize_def comp_def)
qed

lemma load_volume_fields: "vl_georep (load_volume vc) = bit (vc_georep vc) 0" "vl_clusters (load_volume vc) = map load_cluster (vc_clusters vc)"
  by (simp_all add: load_volume_def volume_initialize_def)

lemma loaded_servable:
  assumes "strict_rule rule" "vc_clusters vc \<noteq> []" "two_sites vc" "layout < 2" "econfig_validate_volume_clusters_vs_layout vc layout"
  shows "servable rule multi_site 0 (vl_clusters (load_volume vc)) (uint layout)"
proof -
  let ?c = "hd (vc_clusters vc)"
  have c: "?c \<in> set (vc_clusters vc)" using assms(2) by simp
  then have "0 < length (cc_storages ?c)" using assms(3) by (auto simp: two_sites_def list_all_iff ROZOFS_GEOREP_MAX_SITE_def)
  then have "length (cl_storages (load_cluster ?c) ! 0) = length (cc_storages ?c ! 0)"
    using mix_sites_mset[of "unat (cc_cid ?c AND 3)" "cc_storages ?c"] loaded_sids by (auto simp: list_all2_conv_all_nth)
  moreover have "rozofs_get_rozofs_safe (uint layout) \<le> int (length (cc_storages ?c ! 0))"
    using assms(5) c by (simp add: econfig_validate_volume_clusters_vs_layout_def list_all_iff Let_def)
  ultimately have "capable rule (uint layout) multi_site (cl_storages (load_cluster ?c) ! 0)"
    using strict_not_ordered[OF assms(1)] assms(4) by (auto simp: capable_def layout_safe_def word_less_def)
  then show ?thesis using assms(1) c by (auto simp: servable_def load_volume_fields)
qed

section \<open>Ranks of hosts\<close>

definition ranked :: "storage_node_config_t list \<Rightarrow> int \<Rightarrow> bool" where
  "ranked ss rank \<longleftrightarrow> rank = int (card (sn_host ` set ss)) \<and> (\<forall>s \<in> set ss. uint (sn_host_rank s) < rank)
     \<and> (\<forall>a \<in> set ss. \<forall>b \<in> set ss. sn_host_rank a = sn_host_rank b \<longleftrightarrow> sn_host a = sn_host b)"

lemma ranked_old:
  assumes "ranked ss rank" "s2 \<in> set ss" "sn_host s2 = sn_host s"
  shows "ranked (ss @ [s\<lparr>sn_host_rank := sn_host_rank s2\<rparr>]) rank"
proof -
  let ?s = "s\<lparr>sn_host_rank := sn_host_rank s2\<rparr>"
  have eq: "sn_host_rank ?s = sn_host_rank s2" "sn_host ?s = sn_host s2" using assms(3) by simp_all
  have "sn_host ` set (ss @ [?s]) = sn_host ` set ss" using assms(2) eq(2) by auto
  then show ?thesis using assms(1,2) unfolding ranked_def by (auto simp: eq simp del: storage_node_config_t.simps)
qed

lemma ranked_new:
  assumes "ranked ss rank" "sn_host s \<notin> sn_host ` set ss" "rank < 256"
  shows "ranked (ss @ [s\<lparr>sn_host_rank := word_of_int rank\<rparr>]) (rank + 1)"
proof -
  let ?s = "s\<lparr>sn_host_rank := word_of_int rank\<rparr>"
  have "0 \<le> rank" using assms(1) by (simp add: ranked_def)
  then have r: "uint (sn_host_rank ?s) = rank" using assms(3) by (simp add: uint_word_of_int)
  have h: "sn_host ?s = sn_host s" by simp
  have "card (sn_host ` set (ss @ [?s])) = card (sn_host ` set ss) + 1" using assms(2) by simp
  moreover have "uint (sn_host_rank a) < rank" if "a \<in> set ss" for a using assms(1) that unfolding ranked_def by blast
  then have "sn_host_rank a \<noteq> sn_host_rank ?s" if "a \<in> set ss" for a using r that by force
  moreover have "sn_host a \<noteq> sn_host s" if "a \<in> set ss" for a using assms(2) that by (metis imageI)
  ultimately show ?thesis using assms(1,2) r h unfolding ranked_def by (auto simp del: storage_node_config_t.simps)
qed

lemma number_storages_ranked:
  "number_storages before rank ss = (ss', rank') \<Longrightarrow> ranked before rank \<Longrightarrow> length before + length ss \<le> 256 \<Longrightarrow>
    ranked ss' rank' \<and> map (\<lambda>s. (sn_sid s, sn_host s, sn_siteNum s)) ss' = map (\<lambda>s. (sn_sid s, sn_host s, sn_siteNum s)) (before @ ss)"
proof (induction before rank ss rule: number_storages.induct)
  case (2 before rank s1 ss)
  show ?case
  proof (cases "List.find (\<lambda>s2. sn_host s2 = sn_host s1) before")
    case None
    then have "sn_host s1 \<notin> sn_host ` set before" by (fastforce simp: find_None_iff)
    moreover have "rank \<le> int (length before)" using "2.prems"(2) card_image_le[of "set before" sn_host] card_length[of before] by (simp add: ranked_def)
    ultimately have "ranked (before @ [s1\<lparr>sn_host_rank := word_of_int rank\<rparr>]) (rank + 1)" using ranked_new[OF "2.prems"(2)] "2.prems"(3) by simp
    then show ?thesis using "2.IH"(1)[OF None] "2.prems" None by simp
  next
    case (Some s2)
    then have "s2 \<in> set before" "sn_host s2 = sn_host s1" by (auto simp: find_Some_iff in_set_conv_nth)
    then have "ranked (before @ [s1\<lparr>sn_host_rank := sn_host_rank s2\<rparr>]) rank" by (rule ranked_old[OF "2.prems"(2)])
    then show ?thesis using "2.IH"(2)[OF Some] "2.prems" Some by simp
  qed
qed auto

section \<open>Properties\<close>

lemma those_defined: "those (map f xs) \<noteq> None \<longleftrightarrow> (\<forall>x \<in> set xs. f x \<noteq> None)"
  by (induction xs) (auto split: option.splits)

text \<open>
  In a cluster of a validated configuration, two storages of a site have the same host rank exactly when they are on the same host, so that the locations of the distribution are the hosts.
\<close>

theorem host_ranks_are_hosts:
  assumes "econfig_validate_storages (number_cluster c)" "ss \<in> set (cc_storages (number_cluster c))" "a \<in> set ss" "b \<in> set ss"
  shows "sn_host_rank a = sn_host_rank b \<longleftrightarrow> sn_host a = sn_host b"
proof -
  obtain ts where ts: "ts \<in> set (cc_storages c)" "ss = fst (number_storages [] 0 ts)" using assms(2) by (auto simp: number_cluster_def)
  have len: "length ss = length ts"
  proof -
    have "length (fst (number_storages us k ts)) = length us + length ts" for us k ts
      by (induction us k ts rule: number_storages.induct) (auto split: option.splits)
    then show ?thesis using ts(2) by simp
  qed
  have "distinct (map sn_sid ss)" using assms(1,2) unfolding econfig_validate_storages_def no_duplicate_all by (simp add: list_all_iff)
  then have "length ss \<le> card (UNIV :: u8 set)" using distinct_card[of "map sn_sid ss"] card_mono[of "UNIV :: u8 set" "set (map sn_sid ss)"] by simp
  then have "length ts \<le> 256" using len by (simp add: card_word)
  moreover have "ranked [] 0" by (simp add: ranked_def)
  ultimately have "ranked ss (snd (number_storages [] 0 ts))"
    using number_storages_ranked[of "[]" 0 ts ss "snd (number_storages [] 0 ts)"] ts(2) by simp
  then show ?thesis using assms(3,4) by (simp add: ranked_def)
qed

definition sample_node :: "u8 \<Rightarrow> string \<Rightarrow> storage_node_config_t" where
  "sample_node sid host = \<lparr>sn_sid = sid, sn_host = host, sn_siteNum = 1, sn_host_rank = 0\<rparr>"

definition sample_cluster_config :: cluster_config_t where
  "sample_cluster_config = \<lparr>cc_cid = 3, cc_storages = [[sample_node 1 ''a'', sample_node 2 ''b'', sample_node 3 ''a'', sample_node 4 ''c''], []], cc_nb_host = [0, 0]\<rparr>"

theorem host_ranks_are_hosts_witness:
  "sn_host_rank (cc_storages (number_cluster sample_cluster_config) ! 0 ! 2) = sn_host_rank (cc_storages (number_cluster sample_cluster_config) ! 0 ! 0)
    \<longleftrightarrow> sn_host (cc_storages (number_cluster sample_cluster_config) ! 0 ! 2) = sn_host (cc_storages (number_cluster sample_cluster_config) ! 0 ! 0)"
proof -
  let ?c = "number_cluster sample_cluster_config"
  have v: "econfig_validate_storages ?c" by code_simp
  have l: "length (cc_storages ?c) = 2" "length (cc_storages ?c ! 0) = 4" by code_simp+
  have m: "cc_storages ?c ! 0 \<in> set (cc_storages ?c)" "cc_storages ?c ! 0 ! 2 \<in> set (cc_storages ?c ! 0)" "cc_storages ?c ! 0 ! 0 \<in> set (cc_storages ?c ! 0)"
    using l by simp_all
  show ?thesis by (rule host_ranks_are_hosts[OF v m])
qed

text \<open>
  C10. With a strict distribution rule, a volume of a validated configuration serves its files: when it has clusters and no geo-replication, it can be loaded and balanced, whatever the storage daemons
  answer, and on the local site 0 gives every file of a layout of 4 or 8 storages that was validated for the volume a distribution, request after request and balancing after balancing, and each of them
  still passes the check of distributions at the end. The default rule, size balancing, is not covered: it refuses a cluster with too many storages offline.
\<close>

theorem validated_volume_serves:
  assumes "econfig_validate access config = Some config'" "vc \<in> set (ec_volumes config)" "two_sites vc" "vc_clusters vc \<noteq> []" "\<not> bit (vc_georep vc) 0"
    and "strict_rule rule" "requests ops = map uint layouts" "list_all (\<lambda>layout. layout < 2 \<and> econfig_validate_volume_clusters_vs_layout vc layout) layouts"
  shows "\<exists>files v. volume_run rule mb 0 (Balance st # ops) (load_volume vc) = Some (files, v) \<and> map fst files = map uint layouts
    \<and> list_all (\<lambda>(layout, cid, sids). volume_distribution_check 0 (nat (rozofs_get_rozofs_safe layout)) (uint cid) (map uint sids) v = Some True) files"
proof -
  note o = strict_not_ordered[OF assms(6)]
  have ready: "volume_ready rule (load_volume vc)" by (rule load_volume_ready[OF valid_volume(3)[OF assms(1,2)] assms(3) o])
  have sv: "list_all (servable rule (vl_multi_site (load_volume vc)) 0 (vl_clusters (load_volume vc))) (requests ops)"
    using assms(8) loaded_servable[OF assms(6,4,3)] unfolding assms(7) by (auto simp: list_all_iff)
  have "0 \<le> layout \<and> layout < 3" if "layout \<in> set (requests ops)" for layout
    using that assms(8) unfolding assms(7) by (auto simp: list_all_iff word_less_def)
  then have "op_ok rule mb 0 op" if "op \<in> set ops" for op
    using that o assms(6) by (fastforce simp: op_ok_def call_ok_def requests_def split: volume_op.splits)
  then have "list_all (op_ok rule mb 0) ops" by (simp add: list_all_iff)
  from volume_session_serves_gen[OF ready _ _ _ this, of st] sv assms(5,7) show ?thesis
    by (simp add: load_volume_fields conj_commute del: volume_run.simps)
qed

definition sample_volume_config :: volume_config_t where
  "sample_volume_config = econfig_number_storages_per_cluster
     \<lparr>vc_vid = 1, vc_layout = 0, vc_georep = 0, vc_multi_site = 0, vc_clusters = [sample_cluster_config], vc_rebalance_cfg = None\<rparr>"

definition sample_config :: econfig_t where
  "sample_config = \<lparr>ec_layout = 0, ec_volumes = [sample_volume_config],
     ec_exports = [\<lparr>ex_eid = 1, ex_vid = 1, ex_layout = 255, ex_root = ''/r'', ex_name = ''r''\<rparr>], ec_expgw = []\<rparr>"

lemma sample_config_valid:
  "econfig_validate (\<lambda>_. True) sample_config \<noteq> None" "two_sites sample_volume_config" "vc_clusters sample_volume_config \<noteq> []"
  "\<not> bit (vc_georep sample_volume_config) 0" "econfig_validate_volume_clusters_vs_layout sample_volume_config 0"
  by code_simp+

theorem validated_volume_serves_witness:
  "\<exists>files v. volume_run 2 100 0 [Balance sample_answers, Distribute 0 0, Distribute 0 0] (load_volume sample_volume_config) = Some (files, v) \<and> map fst files = [0, 0]"
proof -
  obtain config' where "econfig_validate (\<lambda>_. True) sample_config = Some config'" using sample_config_valid(1) by blast
  moreover have "sample_volume_config \<in> set (ec_volumes sample_config)" by (simp add: sample_config_def)
  moreover have "strict_rule 2" by (simp add: strict_rule_def rule_defs)
  ultimately show ?thesis
    using validated_volume_serves[of "\<lambda>_. True" sample_config config' sample_volume_config 2 "[Distribute 0 0, Distribute 0 0]" "[0, 0]" 100 sample_answers] sample_config_valid(2-5)
    by (auto simp: requests_def simp del: volume_run.simps)
qed

text \<open>
  C39. The validation of the exports lets the layout 3 through, which no table knows: a configuration stays valid when any of its exports is given that layout, and a file that is created with it
  makes every distribution rule read behind the end of the table of layouts.
\<close>

theorem layout_3_accepted:
  assumes "econfig_validate access config \<noteq> None" "i < length (ec_exports config)"
    and "arr_get (cl_storages c) site = Some xs" "ordered_rule rule \<or> strict_rule rule"
  shows "econfig_validate access (config\<lparr>ec_exports := (ec_exports config)[i := (ec_exports config ! i)\<lparr>ex_layout := 3\<rparr>]\<rparr>) \<noteq> None
    \<and> do_cluster_distribute rule mb 3 site multi_site c = None"
proof
  let ?es = "ec_exports config"
  let ?fs = "?es[i := (?es ! i)\<lparr>ex_layout := 3\<rparr>]"
  let ?config = "config\<lparr>ec_exports := ?fs\<rparr>"
  have key: "no_duplicate f ?fs j = no_duplicate f ?es j" if "\<And>e. f (e\<lparr>ex_layout := 3\<rparr>) = f e" for f :: "export_config_t \<Rightarrow> 'a" and j
  proof -
    have "f (?fs ! k) = f (?es ! k)" for k using that assms(2) by (cases "k = i") simp_all
    then show ?thesis by (simp add: no_duplicate_def)
  qed
  have no_safe: "econfig_validate_volume_clusters_vs_layout vc 3" for vc
    by (simp add: econfig_validate_volume_clusters_vs_layout_def list_all_iff rozofs_get_rozofs_safe_def layout_field_def)
  have "validate_export access ?config j \<noteq> None" if "validate_export access config j \<noteq> None" "j < length ?es" for j
    using that assms(2) no_safe
    by (cases "j = i") (auto simp: validate_export_def Let_def key split: if_splits option.splits)
  moreover have "econfig_validate_exports access config \<noteq> None" using assms(1) by (auto simp: econfig_validate_def split: if_splits)
  ultimately have "econfig_validate_exports access ?config \<noteq> None" unfolding econfig_validate_exports_def those_defined by simp
  then show "econfig_validate access ?config \<noteq> None"
    using assms(1) by (auto simp: econfig_validate_def econfig_validate_volumes_def econfig_validate_expgw_def split: if_splits)
  have "rozofs_get_rozofs_invers_forward_safe 3 = None" by code_simp
  then show "do_cluster_distribute rule mb 3 site multi_site c = None"
    using assms(3,4) by (auto simp: do_cluster_distribute_def do_cluster_distribute_size_balancing_def do_cluster_distribute_weighted_round_robin_def
      do_cluster_distribute_strict_round_robin_def ordered_rule_def)
qed

theorem layout_3_accepted_witness:
  "econfig_validate (\<lambda>_. True) (sample_config\<lparr>ec_exports := (ec_exports sample_config)[0 := (ec_exports sample_config ! 0)\<lparr>ex_layout := 3\<rparr>]\<rparr>) \<noteq> None
    \<and> do_cluster_distribute 2 100 3 0 False sample_cluster = None"
proof -
  have "strict_rule 2" by (simp add: strict_rule_def rule_defs)
  moreover have "0 < length (ec_exports sample_config)" by (simp add: sample_config_def)
  moreover obtain xs where "arr_get (cl_storages sample_cluster) 0 = Some xs" by (auto simp: arr_get_in sample_cluster_def cluster_initialize_def)
  ultimately show ?thesis using layout_3_accepted[OF sample_config_valid(1), of 0 sample_cluster 0 xs 2 100 False] by blast
qed



end
