(* ===== verification/Ip_Filter.thy ===== *)
theory Ip_Filter
  imports Prelude "HOL-Library.Multiset"
begin

text \<open>
  The IPv4 filters of the exports (\<^verbatim>\<open>src/exportd/rozofs_ip4_flt.h\<close>, \<^verbatim>\<open>rozofs_ip4_flt.c\<close>) and their configuration (\<^verbatim>\<open>load_filters_conf\<close> of \<^verbatim>\<open>econfig.c\<close>). A filter is a tree of subnets,
  where the sons of a subnet are inside it and apart from each other; an address gets the rule of the deepest subnet it is in. The theory proves that this is the rule of the longest prefix.
  The list of sons is the sequence of the sons. The texts of the configuration file are read by \<^verbatim>\<open>libconfig\<close> and \<^verbatim>\<open>sscanf\<close>; the model starts from the numbers and strings they give.
\<close>

section \<open>Model\<close>

definition ROZOFS_IP4_FORBID :: u8 where "ROZOFS_IP4_FORBID = 0"
definition ROZOFS_IP4_ALLOW :: u8 where "ROZOFS_IP4_ALLOW = 1"

record subnet =
  sb_ip :: u32
  sb_len :: u8
  sb_allow :: u8
  sb_size :: u8
  sb_next :: u8

datatype rozofs_ip4_subnet_t = Subnet (sb: subnet) (sons: "rozofs_ip4_subnet_t list")

text \<open>A shift of 32 bits by 32 or more is undefined.\<close>

definition IP4MASK :: "u8 \<Rightarrow> u32 option" where
  "IP4MASK len = (let n = 32 - uint len in if 0 \<le> n \<and> n < 32 then Some (push_bit (nat n) 0xFFFFFFFF) else None)"

definition rozofs_ip4_filter_reset :: "u32 \<Rightarrow> u32 \<Rightarrow> bool \<Rightarrow> rozofs_ip4_subnet_t" where
  "rozofs_ip4_filter_reset ip len allow =
     Subnet \<lparr>sb_ip = ip, sb_len = ucast len, sb_allow = (if allow then ROZOFS_IP4_ALLOW else ROZOFS_IP4_FORBID), sb_size = 0, sb_next = 0\<rparr> []"

text \<open>1 when the first subnet is the father of the second, 2 when it is the son, -1 when they are equal and 0 when they are apart.\<close>

definition rozofs_subnet_compare :: "subnet \<Rightarrow> subnet \<Rightarrow> int option" where
  "rozofs_subnet_compare subnet1 subnet2 =
     (if sb_len subnet1 = sb_len subnet2 then do {
        m \<leftarrow> IP4MASK (sb_len subnet1);
        Some (if sb_ip subnet1 AND m = sb_ip subnet2 AND m then - 1 else 0) }
      else if sb_len subnet1 < sb_len subnet2 then do {
        m \<leftarrow> IP4MASK (sb_len subnet1);
        Some (if sb_ip subnet1 AND m = sb_ip subnet2 AND m then 1 else 0) }
      else do {
        m \<leftarrow> IP4MASK (sb_len subnet2);
        Some (if sb_ip subnet2 AND m = sb_ip subnet1 AND m then 2 else 0) })"

text \<open>
  The loop of the insertion on the sons that remain, after the sons that stay. A son that is inside the new subnet is moved below it, whatever this insertion returns. The result is whether the
  subnet is inserted, and the sons.
\<close>

partial_function (option) insert_sons ::
  "rozofs_ip4_subnet_t list \<Rightarrow> rozofs_ip4_subnet_t list \<Rightarrow> rozofs_ip4_subnet_t \<Rightarrow> (bool \<times> rozofs_ip4_subnet_t list) option" where
  "insert_sons before rest new = (case rest of
       [] \<Rightarrow> Some (True, before @ [new])
     | pcur # rest \<Rightarrow> do {
         r \<leftarrow> rozofs_subnet_compare (sb pcur) (sb new);
         if r = 1 then do {
           (ok, ss) \<leftarrow> insert_sons [] (sons pcur) new;
           Some (ok, before @ Subnet (sb pcur) ss # rest) }
         else if r = 2 then do {
           (_, ss) \<leftarrow> insert_sons [] (sons new) pcur;
           insert_sons before rest (Subnet (sb new) ss) }
         else if r = - 1 then Some (False, before @ pcur # rest)
         else insert_sons (before @ [pcur]) rest new })"

definition rozofs_ip4_filter_insert :: "rozofs_ip4_subnet_t \<Rightarrow> rozofs_ip4_subnet_t \<Rightarrow> (bool \<times> rozofs_ip4_subnet_t) option" where
  "rozofs_ip4_filter_insert tree new =
     (if sons tree = [] then Some (True, Subnet (sb tree) [new])
      else do { (ok, ss) \<leftarrow> insert_sons [] (sons tree) new; Some (ok, Subnet (sb tree) ss) })"

fun check_sons :: "u8 \<Rightarrow> rozofs_ip4_subnet_t list \<Rightarrow> subnet \<Rightarrow> u8 option" where
  "check_sons allow [] new = Some allow"
| "check_sons allow (Subnet pcur ss # rest) new = do {
     r \<leftarrow> rozofs_subnet_compare pcur new;
     if r = 1 \<or> r = - 1 then check_sons (sb_allow pcur) ss new else check_sons allow rest new }"

definition rozofs_ip4_filter_check_internal :: "rozofs_ip4_subnet_t \<Rightarrow> rozofs_ip4_subnet_t \<Rightarrow> u8 option" where
  "rozofs_ip4_filter_check_internal tree new = check_sons (sb_allow (sb tree)) (sons tree) (sb new)"

text \<open>A filter that is not there is the null pointer.\<close>

definition rozofs_ip4_filter_check :: "rozofs_ip4_subnet_t option \<Rightarrow> u32 \<Rightarrow> u8 option" where
  "rozofs_ip4_filter_check tree ip = (case tree of None \<Rightarrow> Some ROZOFS_IP4_ALLOW
     | Some tree \<Rightarrow> rozofs_ip4_filter_check_internal tree (rozofs_ip4_filter_reset ip 32 False))"

text \<open>The number of subnets is an \<^verbatim>\<open>int\<close> that is kept in a byte.\<close>

definition rozofs_ip4_filter_tree_allocate :: "u8 \<Rightarrow> int \<Rightarrow> rozofs_ip4_subnet_t" where
  "rozofs_ip4_filter_tree_allocate allow nb_subnet =
     (case rozofs_ip4_filter_reset 0 0 (allow \<noteq> 0) of Subnet s ss \<Rightarrow> Subnet (s\<lparr>sb_size := word_of_int nb_subnet, sb_next := 0\<rparr>) ss)"

definition rozofs_ip4_filter_add_subnet :: "rozofs_ip4_subnet_t \<Rightarrow> u32 \<Rightarrow> int \<Rightarrow> u8 \<Rightarrow> (bool \<times> rozofs_ip4_subnet_t) option" where
  "rozofs_ip4_filter_add_subnet tree ip len allow =
     (if sb_size (sb tree) = 0 then Some (False, tree)
      else if len < 0 \<or> len > 32 then Some (False, tree)
      else rozofs_ip4_filter_insert
             (Subnet ((sb tree)\<lparr>sb_next := sb_next (sb tree) + 1, sb_size := sb_size (sb tree) - 1\<rparr>) (sons tree))
             (rozofs_ip4_filter_reset ip (word_of_int len) (allow \<noteq> 0)))"

subsection \<open>Configuration\<close>

text \<open>A subnet, as it is read: its rule, the four numbers of its address and its length.\<close>

record subnet_setting =
  st_rule :: string
  st_scanip :: "u32 \<times> u32 \<times> u32 \<times> u32"
  st_subnetLen :: u32

text \<open>A filter: its name, its rule and its subnets, the last two may be missing.\<close>

record filter_setting =
  fs_name :: string
  fs_rule :: "string option"
  fs_subnets :: "subnet_setting list option"

record filter_config_t =
  fc_name :: string
  fc_filter_tree :: rozofs_ip4_subnet_t

definition tolower :: "char \<Rightarrow> char" where
  "tolower c = (let n = of_char c :: nat in if 65 \<le> n \<and> n \<le> 90 then char_of (n + 32) else c)"

definition strcasecmp_eq :: "string \<Rightarrow> string \<Rightarrow> bool" where
  "strcasecmp_eq a b \<longleftrightarrow> map tolower a = map tolower b"

definition read_rule :: "string \<Rightarrow> u8 option" where
  "read_rule s = (if strcasecmp_eq s ''allow'' then Some ROZOFS_IP4_ALLOW
     else if strcasecmp_eq s ''forbid'' then Some ROZOFS_IP4_FORBID else None)"

text \<open>The result of the loading is \<open>Some None\<close> when the configuration is refused.\<close>

definition load_subnet :: "rozofs_ip4_subnet_t \<Rightarrow> subnet_setting \<Rightarrow> rozofs_ip4_subnet_t option option" where
  "load_subnet tree st = (case read_rule (st_rule st) of None \<Rightarrow> Some None | Some rule \<Rightarrow>
     (case st_scanip st of (a, b, c, d) \<Rightarrow>
       if a > 255 \<or> b > 255 \<or> c > 255 \<or> d > 255 then Some None
       else let ip = push_bit 24 a + push_bit 16 b + push_bit 8 c + d in
         if st_subnetLen st > 32 then Some None
         else do {
           (ok, tree) \<leftarrow> rozofs_ip4_filter_add_subnet tree ip (sint (st_subnetLen st)) rule;
           Some (if ok then Some tree else None) }))"

fun load_subnets :: "rozofs_ip4_subnet_t \<Rightarrow> subnet_setting list \<Rightarrow> rozofs_ip4_subnet_t option option" where
  "load_subnets tree [] = Some (Some tree)"
| "load_subnets tree (st # sts) = do {
     r \<leftarrow> load_subnet tree st;
     case r of None \<Rightarrow> Some None | Some tree \<Rightarrow> load_subnets tree sts }"

definition default_rule :: "string option \<Rightarrow> u8 option" where
  "default_rule r = (case r of None \<Rightarrow> Some ROZOFS_IP4_FORBID | Some s \<Rightarrow> read_rule s)"

fun load_filters_conf :: "filter_config_t list \<Rightarrow> filter_setting list \<Rightarrow> filter_config_t list option option" where
  "load_filters_conf filters [] = Some (Some filters)"
| "load_filters_conf filters (fs # fss) = (case default_rule (fs_rule fs) of None \<Rightarrow> Some None | Some rule \<Rightarrow>
     (case fs_subnets fs of None \<Rightarrow> load_filters_conf filters fss
      | Some sts \<Rightarrow> do {
          r \<leftarrow> load_subnets (rozofs_ip4_filter_tree_allocate rule (int (length sts))) sts;
          case r of None \<Rightarrow> Some None
          | Some tree \<Rightarrow> load_filters_conf (filters @ [\<lparr>fc_name = fs_name fs, fc_filter_tree = tree\<rparr>]) fss }))"

definition rozofs_ip4_flt_get_tree :: "filter_config_t list \<Rightarrow> string option \<Rightarrow> rozofs_ip4_subnet_t option" where
  "rozofs_ip4_flt_get_tree filters name = (case name of None \<Rightarrow> None
     | Some name \<Rightarrow> map_option fc_filter_tree (List.find (\<lambda>entry. strcasecmp_eq (fc_name entry) name) filters))"

text \<open>
  The test of the filter of an export, when a configuration is read: \<^term>\<open>False\<close> when the daemon aborts. The filters are looked for in the configuration that is in use, which is not the one that
  is read after a signal.
\<close>

definition export_filter_known :: "filter_config_t list \<Rightarrow> string option \<Rightarrow> bool" where
  "export_filter_known filters name \<longleftrightarrow> name = None \<or> rozofs_ip4_flt_get_tree filters name \<noteq> None"

section \<open>Prefixes\<close>

text \<open>\<open>covers s t\<close>: the subnet \<open>t\<close> is in the subnet \<open>s\<close>.\<close>

definition covers :: "subnet \<Rightarrow> subnet \<Rightarrow> bool" where
  "covers s t \<longleftrightarrow> unat (sb_len s) \<le> unat (sb_len t)
     \<and> drop_bit (32 - unat (sb_len s)) (sb_ip s) = drop_bit (32 - unat (sb_len s)) (sb_ip t)"

definition apart :: "subnet \<Rightarrow> subnet \<Rightarrow> bool" where
  "apart s t \<longleftrightarrow> \<not> covers s t \<and> \<not> covers t s"

definition inside :: "subnet \<Rightarrow> subnet \<Rightarrow> bool" where
  "inside s t \<longleftrightarrow> covers s t \<and> \<not> covers t s"

definition valid_subnet :: "subnet \<Rightarrow> bool" where
  "valid_subnet s \<longleftrightarrow> 1 \<le> sb_len s \<and> sb_len s \<le> 32"

lemma covers_refl [simp]: "covers s s"
  by (simp add: covers_def)

lemma drop_bit_mono_eq: "drop_bit m a = drop_bit m b \<Longrightarrow> m \<le> n \<Longrightarrow> drop_bit n a = drop_bit n b" for a b :: u32
  by (metis drop_bit_drop_bit le_add_diff_inverse2)

lemma covers_trans: "covers s t \<Longrightarrow> covers t u \<Longrightarrow> covers s u"
  unfolding covers_def using drop_bit_mono_eq[of "32 - unat (sb_len t)" "sb_ip t" "sb_ip u" "32 - unat (sb_len s)"] by auto

text \<open>Two subnets with a common part are one in the other.\<close>

lemma covers_laminar: "covers s u \<Longrightarrow> covers t u \<Longrightarrow> covers s t \<or> covers t s"
  unfolding covers_def
  using drop_bit_mono_eq[of "32 - unat (sb_len s)" "sb_ip s" "sb_ip u" "32 - unat (sb_len t)"]
    drop_bit_mono_eq[of "32 - unat (sb_len t)" "sb_ip t" "sb_ip u" "32 - unat (sb_len s)"]
  by (cases "unat (sb_len s) \<le> unat (sb_len t)") auto

lemma apart_sym: "apart s t \<longleftrightarrow> apart t s"
  by (auto simp: apart_def)

lemma apart_below: "apart s t \<Longrightarrow> covers s a \<Longrightarrow> covers t b \<Longrightarrow> apart a b"
  unfolding apart_def by (meson covers_laminar covers_trans)

lemma mask_eq_drop_bit: "a AND push_bit n 0xFFFFFFFF = b AND push_bit n 0xFFFFFFFF \<longleftrightarrow> drop_bit n a = drop_bit n b" for a b :: u32
proof -
  have m: "(0xFFFFFFFF :: u32) = mask 32" by (simp add: mask_eq_exp_minus_1)
  have "x AND push_bit n (mask 32) = push_bit n (drop_bit n x)" for x :: u32
    by (rule bit_word_eqI) (auto simp: bit_simps)
  moreover have "drop_bit n (push_bit n (drop_bit n x)) = drop_bit n x" for x :: u32
    by (rule bit_word_eqI) (auto simp: bit_simps dest: bit_imp_le_length)
  ultimately show ?thesis by (metis m)
qed

lemma valid_subnet_nat: "valid_subnet s \<longleftrightarrow> 1 \<le> unat (sb_len s) \<and> unat (sb_len s) \<le> 32"
  by (simp add: valid_subnet_def word_le_nat_alt)

lemma IP4MASK_valid:
  assumes "valid_subnet s"
  shows "IP4MASK (sb_len s) = Some (push_bit (32 - unat (sb_len s)) 0xFFFFFFFF)"
proof -
  have u: "uint (sb_len s) = int (unat (sb_len s))" by simp
  have "1 \<le> unat (sb_len s)" "unat (sb_len s) \<le> 32" using assms by (simp_all add: valid_subnet_nat)
  then have "0 \<le> 32 - uint (sb_len s)" "32 - uint (sb_len s) < 32" "nat (32 - uint (sb_len s)) = 32 - unat (sb_len s)"
    unfolding u by linarith+
  then show ?thesis unfolding IP4MASK_def Let_def by simp
qed

lemma compare_covers: 
  assumes "valid_subnet s" "valid_subnet t"
  shows "rozofs_subnet_compare s t = Some (if covers s t then (if covers t s then - 1 else 1) else if covers t s then 2 else 0)"
proof -
  consider "sb_len s = sb_len t" | "unat (sb_len s) < unat (sb_len t)" | "unat (sb_len t) < unat (sb_len s)"
    using less_linear[of "sb_len s" "sb_len t"] by (auto simp: word_less_nat_alt)
  then show ?thesis
    by cases (auto simp: rozofs_subnet_compare_def IP4MASK_valid[OF assms(1)] IP4MASK_valid[OF assms(2)] mask_eq_drop_bit covers_def word_less_nat_alt)
qed

section \<open>Trees\<close>

fun subnets :: "rozofs_ip4_subnet_t \<Rightarrow> subnet list" where
  "subnets (Subnet s ss) = s # concat (map subnets ss)"

abbreviation all_subnets :: "rozofs_ip4_subnet_t list \<Rightarrow> subnet list" where
  "all_subnets ss \<equiv> concat (map subnets ss)"

fun tree_ok :: "rozofs_ip4_subnet_t \<Rightarrow> bool" where
  "tree_ok (Subnet s ss) \<longleftrightarrow> (\<forall>t \<in> set ss. tree_ok t \<and> valid_subnet (sb t) \<and> inside s (sb t)) \<and> sorted_wrt apart (map sb ss)"

lemma subnets_root: "sb t \<in> set (subnets t)"
  by (cases t) simp

lemma subnets_below: "tree_ok t \<Longrightarrow> a \<in> set (subnets t) \<Longrightarrow> covers (sb t) a"
proof (induction t)
  case (Subnet s ss)
  then show ?case by (auto simp: inside_def intro: covers_trans)
qed

lemma length_subnets: "length (subnets t) = Suc (length (all_subnets (sons t)))"
  by (cases t) simp

lemmas compare_simps = compare_covers apart_def inside_def

text \<open>No subnet is given twice: between two groups of subnets, none is equal to another.\<close>

definition differ :: "subnet list \<Rightarrow> subnet list \<Rightarrow> bool" where
  "differ as bs \<longleftrightarrow> (\<forall>a \<in> set as. \<forall>b \<in> set bs. \<not> (covers a b \<and> covers b a))"

lemma differ_append [simp]:
  "differ (as @ bs) cs \<longleftrightarrow> differ as cs \<and> differ bs cs"
  "differ as (bs @ cs) \<longleftrightarrow> differ as bs \<and> differ as cs"
  by (auto simp: differ_def)

lemma differ_Nil [simp]: "differ [] as" "differ as []"
  by (auto simp: differ_def)

lemma differ_sym: "differ as bs \<Longrightarrow> differ bs as"
  by (auto simp: differ_def)

lemma differ_mono: "differ as bs \<Longrightarrow> set as' \<subseteq> set as \<Longrightarrow> set bs' \<subseteq> set bs \<Longrightarrow> differ as' bs'"
  unfolding differ_def by blast

lemma apart_differ: "tree_ok t \<Longrightarrow> tree_ok u \<Longrightarrow> apart (sb t) (sb u) \<Longrightarrow> differ (subnets t) (subnets u)"
  unfolding differ_def using apart_below apart_def subnets_below by blast


text \<open>The sons of \<open>s\<close>.\<close>

definition forest :: "subnet \<Rightarrow> rozofs_ip4_subnet_t list \<Rightarrow> bool" where
  "forest s ss \<longleftrightarrow> tree_ok (Subnet s ss)"

lemma forest_append:
  "forest s (xs @ ys) \<longleftrightarrow> forest s xs \<and> forest s ys \<and> (\<forall>x \<in> set xs. \<forall>y \<in> set ys. apart (sb x) (sb y))"
  by (auto simp: forest_def sorted_wrt_append)

lemma forest_Cons:
  "forest s (t # ts) \<longleftrightarrow> tree_ok t \<and> valid_subnet (sb t) \<and> inside s (sb t) \<and> forest s ts \<and> (\<forall>y \<in> set ts. apart (sb t) (sb y))"
  by (auto simp: forest_def)

lemma forest_Nil [simp]: "forest s []"
  by (simp add: forest_def)

lemmas forest_simps = forest_append forest_Cons

lemma tree_ok_forest: "tree_ok t \<longleftrightarrow> forest (sb t) (sons t)"
  by (cases t) (simp add: forest_def)

lemma forest_differ: "forest s (t # ts) \<Longrightarrow> differ (subnets t) (all_subnets ts)"
  unfolding forest_Cons differ_def
  using apart_differ unfolding differ_def by (fastforce simp: forest_def)

lemma insert_sons_Nil: "insert_sons before [] new = Some (True, before @ [new])"
  by (subst insert_sons.simps) simp

lemma insert_sons_Cons:
  assumes "valid_subnet (sb p)" "valid_subnet (sb new)"
  shows "insert_sons before (p # ps) new =
     (if inside (sb p) (sb new) then do { (ok, ss) \<leftarrow> insert_sons [] (sons p) new; Some (ok, before @ Subnet (sb p) ss # ps) }
      else if inside (sb new) (sb p) then do { (_, ss) \<leftarrow> insert_sons [] (sons new) p; insert_sons before ps (Subnet (sb new) ss) }
      else if apart (sb p) (sb new) then insert_sons (before @ [p]) ps new
      else Some (False, before @ p # ps))"
  by (subst insert_sons.simps) (simp add: compare_covers[OF assms] inside_def apart_def)

text \<open>What an insertion that succeeds gives.\<close>

definition inserted :: "subnet \<Rightarrow> rozofs_ip4_subnet_t list \<Rightarrow> rozofs_ip4_subnet_t \<Rightarrow> (bool \<times> rozofs_ip4_subnet_t list) option \<Rightarrow> bool" where
  "inserted s ss new r \<longleftrightarrow> (\<exists>ss'. r = Some (True, ss') \<and> forest s ss' \<and> mset (all_subnets ss') = mset (all_subnets ss) + mset (subnets new))"

lemma insert_sons_ok:
  assumes "forest s (before @ rest)" "forest s [new]" "\<forall>t \<in> set before. apart (sb t) (sb new)"
    "differ (all_subnets rest) (subnets new)"
  shows "inserted s (before @ rest) new (insert_sons before rest new)"
  using assms
proof (induction "(length (all_subnets rest) + length (subnets new), length rest)" arbitrary: s before rest new
    rule: wf_induct_rule[OF wf_lex_prod[OF wf_less_than wf_less_than]])
  case 1
  show ?case
  proof (cases rest)
    case Nil
    then show ?thesis using 1(2-4) by (auto simp: inserted_def insert_sons_Nil forest_simps)
  next
    case (Cons p ps)
    note IH = 1(1)
    have p: "tree_ok p" "valid_subnet (sb p)" "inside s (sb p)" and new: "tree_ok new" "valid_subnet (sb new)" "inside s (sb new)"
      and ps: "forest s (before @ ps)" "forest s (p # ps)" and bp: "\<forall>t \<in> set before. apart (sb t) (sb p)"
      using 1(2,3) Cons by (auto simp: forest_simps)
    have d: "differ (subnets p) (subnets new)" "differ (all_subnets ps) (subnets new)" using 1(5) Cons by auto
    have ne: "\<not> (covers (sb p) (sb new) \<and> covers (sb new) (sb p))"
      using d(1) subnets_root[of p] subnets_root[of new] by (auto simp: differ_def)
    note step = insert_sons_Cons[OF p(2) new(2)]
    consider (below) "inside (sb p) (sb new)" | (above) "inside (sb new) (sb p)" | (apart) "apart (sb p) (sb new)"
      using ne by (auto simp: inside_def apart_def)
    then show ?thesis
    proof cases
      case below
      have "inserted (sb p) ([] @ sons p) new (insert_sons [] (sons p) new)"
      proof (rule IH)
        show "differ (all_subnets (sons p)) (subnets new)" using d(1) by (cases p) (auto simp: differ_def)
      qed (use Cons p new below in \<open>auto simp: length_subnets tree_ok_forest forest_Cons\<close>)
      then obtain ss where ss: "insert_sons [] (sons p) new = Some (True, ss)" "forest (sb p) ss"
        "mset (all_subnets ss) = mset (all_subnets (sons p)) + mset (subnets new)" by (auto simp: inserted_def)
      have "insert_sons before (p # ps) new = Some (True, before @ Subnet (sb p) ss # ps)"
        using below ss(1) step by simp
      moreover have "mset (subnets (Subnet (sb p) ss)) = mset (subnets p) + mset (subnets new)"
        using ss(3) by (cases p) simp
      ultimately show ?thesis
        using Cons ps bp p ss(2) by (auto simp: inserted_def forest_def sorted_wrt_append)
    next
      case above
      have "inserted (sb new) ([] @ sons new) p (insert_sons [] (sons new) p)"
      proof (rule IH)
        show "differ (all_subnets (sons new)) (subnets p)" using differ_sym[OF d(1)] by (cases new) (auto simp: differ_def)
      qed (use Cons p new above in \<open>auto simp: length_subnets tree_ok_forest forest_Cons\<close>)
      then obtain ss where ss: "insert_sons [] (sons new) p = Some (True, ss)" "forest (sb new) ss"
        "mset (all_subnets ss) = mset (all_subnets (sons new)) + mset (subnets p)" by (auto simp: inserted_def)
      let ?new = "Subnet (sb new) ss"
      have m: "mset (subnets ?new) = mset (subnets new) + mset (subnets p)" using ss(3) by (cases new) simp
      then have l: "length (subnets ?new) = length (subnets new) + length (subnets p)" by (metis size_mset size_union)
      have "inserted s (before @ ps) ?new (insert_sons before ps ?new)"
      proof (rule IH)
        have "set (subnets ?new) = set (subnets new) \<union> set (subnets p)" using arg_cong[OF m, of set_mset] by simp
        then show "differ (all_subnets ps) (subnets ?new)"
          using d(2) differ_sym[OF forest_differ[OF ps(2)]] unfolding differ_def by blast
      qed (use Cons new ss(2) ps 1(4) l in \<open>auto simp: forest_Cons forest_def length_subnets\<close>)
      moreover have "insert_sons before (p # ps) new = insert_sons before ps ?new"
        using above ss(1) step by (simp add: inside_def)
      ultimately show ?thesis using Cons m by (auto simp: inserted_def)
    next
      case apart
      have "inserted s ((before @ [p]) @ ps) new (insert_sons (before @ [p]) ps new)"
        by (rule IH) (use Cons 1(2-4) d apart in \<open>auto simp: forest_simps length_subnets\<close>)
      moreover have "insert_sons before (p # ps) new = insert_sons (before @ [p]) ps new"
        using apart step by (simp add: inside_def apart_def)
      ultimately show ?thesis using Cons by simp
    qed
  qed
qed


text \<open>A subnet that is already in the tree is refused, and the tree does not change.\<close>

lemma insert_sons_duplicate:
  assumes "forest s (before @ rest)" "forest s [new]" "\<forall>t \<in> set before. apart (sb t) (sb new)"
    "n \<in> set (all_subnets rest)" "covers n (sb new)" "covers (sb new) n"
  shows "insert_sons before rest new = Some (False, before @ rest)"
  using assms
proof (induction "(length (all_subnets rest), length rest)" arbitrary: s before rest
    rule: wf_induct_rule[OF wf_lex_prod[OF wf_less_than wf_less_than]])
  case 1
  then obtain p ps where rest: "rest = p # ps" by (cases rest) auto
  have p: "tree_ok p" "valid_subnet (sb p)" and new: "tree_ok new" "valid_subnet (sb new)" and ps: "forest s (p # ps)"
    using 1(2,3) rest by (auto simp: forest_simps)
  note step = insert_sons_Cons[OF p(2) new(2)]
  show ?case
  proof (cases "n \<in> set (subnets p)")
    case True
    then have c: "covers (sb p) (sb new)" using subnets_below[OF p(1)] 1(6) covers_trans by blast
    show ?thesis
    proof (cases "covers (sb new) (sb p)")
      case True
      with c rest step show ?thesis by (auto simp: inside_def apart_def)
    next
      case False
      have "n \<noteq> sb p" using False 1(7) by auto
      with True have n: "n \<in> set (all_subnets (sons p))" by (cases p) auto
      have "insert_sons [] (sons p) new = Some (False, [] @ sons p)"
        by (rule 1(1)[where s = "sb p"]) (use rest p new c False n 1(6,7) in \<open>auto simp: length_subnets tree_ok_forest forest_Cons inside_def\<close>)
      with c False rest step show ?thesis by (simp add: inside_def)
    qed
  next
    case False
    then obtain r where r: "r \<in> set ps" "n \<in> set (subnets r)" using 1(5) rest by auto
    have "apart (sb p) (sb r)" "covers (sb r) n" using ps r subnets_below[of r n] by (auto simp: forest_def)
    then have a: "apart (sb p) (sb new)" using apart_below 1(6) covers_refl covers_trans by blast
    have "insert_sons (before @ [p]) ps new = Some (False, (before @ [p]) @ ps)"
      by (rule 1(1)[where s = s]) (use rest 1(2-7) False a in \<open>auto simp: length_subnets\<close>)
    with a rest step show ?thesis by (simp add: inside_def apart_def)
  qed
qed

section \<open>The longest prefix\<close>

text \<open>The rule of a list of subnets for an address: that of the subnet with the longest prefix among the ones that contain the address.\<close>

fun longest_prefix :: "nat \<Rightarrow> u8 \<Rightarrow> subnet list \<Rightarrow> subnet \<Rightarrow> u8" where
  "longest_prefix l rule [] a = rule"
| "longest_prefix l rule (s # ss) a =
     (if covers s a \<and> l < unat (sb_len s) then longest_prefix (unat (sb_len s)) (sb_allow s) ss a else longest_prefix l rule ss a)"

text \<open>The subnet that decides.\<close>

definition decides :: "subnet set \<Rightarrow> u8 \<Rightarrow> subnet \<Rightarrow> u8 \<Rightarrow> bool" where
  "decides S rule0 a rule \<longleftrightarrow>
     (\<exists>s \<in> S. covers s a \<and> rule = sb_allow s \<and> (\<forall>t \<in> S. covers t a \<longrightarrow> covers t s)) \<or> ((\<forall>t \<in> S. \<not> covers t a) \<and> rule = rule0)"

lemma check_sons_decides:
  "forest s ss \<Longrightarrow> valid_subnet a \<Longrightarrow> sb_len a = 32 \<Longrightarrow>
   \<exists>rule. check_sons allow ss a = Some rule \<and> decides (set (all_subnets ss)) allow a rule"
proof (induction allow ss a arbitrary: s rule: check_sons.induct)
  case (1 allow new)
  then show ?case by (simp add: decides_def)
next
  case (2 allow pcur ss rest new)
  have p: "valid_subnet pcur" "forest pcur ss" "forest s rest" "tree_ok (Subnet pcur ss)"
    "\<forall>y \<in> set rest. apart pcur (sb y) \<and> tree_ok y" using 2(3) by (auto simp: forest_def)
  note c = compare_covers[OF p(1) 2(4)]
  show ?case
  proof (cases "covers pcur new")
    case True
    then have "(if covers new pcur then - 1 else 1 :: int) = 1 \<or> (if covers new pcur then - 1 else 1 :: int) = - 1" by simp
    with 2(1)[OF c[unfolded if_P[OF True]]] p 2(4,5) True
    obtain rule where r: "check_sons (sb_allow pcur) ss new = Some rule" "decides (set (all_subnets ss)) (sb_allow pcur) new rule"
      by (metis (full_types))
    have other: "\<not> covers t new" if "t \<in> set (all_subnets rest)" for t
      using that True p(5) apart_below[of pcur _ new t] subnets_below unfolding apart_def by fastforce
    have above: "covers pcur t" if "t \<in> set (all_subnets ss)" for t using subnets_below[OF p(4)] that by simp
    have "decides (set (all_subnets (Subnet pcur ss # rest))) allow new rule"
      using r(2) other above True unfolding decides_def by (auto; blast)
    with r(1) c True show ?thesis by simp
  next
    case False
    have "covers t new \<longrightarrow> t \<notin> set (subnets (Subnet pcur ss))" for t using False subnets_below[OF p(4)] covers_trans by fastforce
    then have "decides (set (all_subnets (Subnet pcur ss # rest))) allow new rule \<longleftrightarrow> decides (set (all_subnets rest)) allow new rule" for rule
      unfolding decides_def by (simp; blast)
    moreover have "\<exists>rule. check_sons allow rest new = Some rule \<and> decides (set (all_subnets rest)) allow new rule"
      using 2(2)[OF c] p 2(4,5) False by auto
    ultimately show ?thesis using c False by auto
  qed
qed


lemma covers_shorter: "covers s a \<Longrightarrow> covers t a \<Longrightarrow> unat (sb_len t) \<le> unat (sb_len s) \<Longrightarrow> covers t s"
  using covers_laminar[of s a t] by (auto simp: covers_def)

text \<open>The scan with the longest prefix so far.\<close>

definition decided :: "subnet set \<Rightarrow> u8 \<Rightarrow> subnet \<Rightarrow> nat \<Rightarrow> u8 \<Rightarrow> bool" where
  "decided S rule0 a l rule \<longleftrightarrow>
     (\<exists>s \<in> S. covers s a \<and> rule = sb_allow s \<and> l = unat (sb_len s) \<and> (\<forall>t \<in> S. covers t a \<longrightarrow> unat (sb_len t) \<le> l))
     \<or> ((\<forall>t \<in> S. \<not> covers t a) \<and> rule = rule0 \<and> l = 0)"

lemma decided_decides: "decided S rule0 a l rule \<Longrightarrow> decides S rule0 a rule"
  unfolding decided_def decides_def using covers_shorter by blast

lemma longest_prefix_decided:
  "decided S rule0 a l rule \<Longrightarrow> \<forall>s \<in> set ss. valid_subnet s \<Longrightarrow> decides (S \<union> set ss) rule0 a (longest_prefix l rule ss a)"
proof (induction ss arbitrary: S l rule)
  case Nil
  then show ?case by (simp add: decided_decides)
next
  case (Cons s ss)
  show ?case
  proof (cases "covers s a \<and> l < unat (sb_len s)")
    case True
    then have "decided (insert s S) rule0 a (unat (sb_len s)) (sb_allow s)" using Cons.prems(1) by (auto simp: decided_def)
    with Cons.IH[of "insert s S" "unat (sb_len s)" "sb_allow s"] Cons.prems(2) True show ?thesis by auto
  next
    case False
    then have "decided (insert s S) rule0 a l rule" using Cons.prems by (auto simp: decided_def valid_subnet_nat)
    with Cons.IH[of "insert s S" l rule] Cons.prems(2) False show ?thesis by auto
  qed
qed

definition no_twice :: "subnet list \<Rightarrow> bool" where
  "no_twice ss \<longleftrightarrow> sorted_wrt (\<lambda>s t. \<not> (covers s t \<and> covers t s)) ss"

lemma no_twice_eq: "no_twice ss \<Longrightarrow> s \<in> set ss \<Longrightarrow> t \<in> set ss \<Longrightarrow> covers s t \<Longrightarrow> covers t s \<Longrightarrow> s = t"
  unfolding no_twice_def by (induction ss) auto

lemma decides_unique: "no_twice ss \<Longrightarrow> decides (set ss) rule0 a r \<Longrightarrow> decides (set ss) rule0 a r' \<Longrightarrow> r = r'"
  unfolding decides_def using no_twice_eq by metis

lemma check_longest_prefix:
  assumes "forest (sb tree) (sons tree)" "set (all_subnets (sons tree)) = set ss" "no_twice ss" "\<forall>s \<in> set ss. valid_subnet s"
  shows "rozofs_ip4_filter_check (Some tree) ip = Some (longest_prefix 0 (sb_allow (sb tree)) ss (sb (rozofs_ip4_filter_reset ip 32 False)))"
proof -
  let ?a = "sb (rozofs_ip4_filter_reset ip 32 False)"
  have a: "valid_subnet ?a" "sb_len ?a = 32" by (simp_all add: rozofs_ip4_filter_reset_def valid_subnet_def)
  obtain rule where "check_sons (sb_allow (sb tree)) (sons tree) ?a = Some rule" "decides (set ss) (sb_allow (sb tree)) ?a rule"
    using check_sons_decides[OF assms(1) a] assms(2) by metis
  moreover have "decides (set ss) (sb_allow (sb tree)) ?a (longest_prefix 0 (sb_allow (sb tree)) ss ?a)"
    using longest_prefix_decided[of "{}" _ ?a 0 _ ss] assms(4) by (auto simp: decided_def)
  ultimately show ?thesis
    using decides_unique[OF assms(3)] by (simp add: rozofs_ip4_filter_check_def rozofs_ip4_filter_check_internal_def)
qed

section \<open>Configurations\<close>

text \<open>The subnet of a setting, and the settings that are right.\<close>

definition subnet_of :: "subnet_setting \<Rightarrow> subnet" where
  "subnet_of st = (case st_scanip st of (a, b, c, d) \<Rightarrow>
     \<lparr>sb_ip = push_bit 24 a + push_bit 16 b + push_bit 8 c + d, sb_len = ucast (st_subnetLen st),
      sb_allow = the (read_rule (st_rule st)), sb_size = 0, sb_next = 0\<rparr>)"

definition valid_setting :: "subnet_setting \<Rightarrow> bool" where
  "valid_setting st \<longleftrightarrow> read_rule (st_rule st) \<noteq> None \<and> (case st_scanip st of (a, b, c, d) \<Rightarrow> a \<le> 255 \<and> b \<le> 255 \<and> c \<le> 255 \<and> d \<le> 255)
     \<and> 1 \<le> st_subnetLen st \<and> st_subnetLen st \<le> 32"

definition is_root :: "rozofs_ip4_subnet_t \<Rightarrow> bool" where
  "is_root tree \<longleftrightarrow> sb_len (sb tree) = 0 \<and> sb_ip (sb tree) = 0 \<and> forest (sb tree) (sons tree)"

lemma read_rule_bit: "read_rule s = Some rule \<Longrightarrow> (if rule \<noteq> 0 then ROZOFS_IP4_ALLOW else ROZOFS_IP4_FORBID) = rule"
  by (auto simp: read_rule_def ROZOFS_IP4_ALLOW_def ROZOFS_IP4_FORBID_def split: if_splits)

lemma valid_setting_subnet:
  assumes "valid_setting st"
  shows "valid_subnet (subnet_of st)"
proof -
  have "1 \<le> unat (st_subnetLen st)" "unat (st_subnetLen st) \<le> 32" using assms by (auto simp: valid_setting_def word_le_nat_alt)
  then show ?thesis by (auto simp: valid_subnet_nat subnet_of_def unsigned_ucast_eq take_bit_nat_eq_self split: prod.splits)
qed

lemma load_subnet_insert:
  assumes "valid_setting st" "sb_size (sb tree) \<noteq> 0"
  shows "load_subnet tree st = do {
     (ok, tree) \<leftarrow> rozofs_ip4_filter_insert
        (Subnet ((sb tree)\<lparr>sb_next := sb_next (sb tree) + 1, sb_size := sb_size (sb tree) - 1\<rparr>) (sons tree)) (Subnet (subnet_of st) []);
     Some (if ok then Some tree else None) }"
proof -
  obtain rule where r: "read_rule (st_rule st) = Some rule" using assms(1) by (auto simp: valid_setting_def)
  have "uint (st_subnetLen st) \<le> 32" using assms(1) by (auto simp: valid_setting_def word_le_def)
  then have "sint (st_subnetLen st) = int (unat (st_subnetLen st))" "sint (st_subnetLen st) \<le> 32"
    using signed_take_bit_int_eq_self[of 31 "uint (st_subnetLen st)"] uint_ge_0[of "st_subnetLen st"] by (simp_all add: sint_uint)
  with r show ?thesis using assms
    by (auto simp: load_subnet_def valid_setting_def rozofs_ip4_filter_add_subnet_def rozofs_ip4_filter_reset_def subnet_of_def read_rule_bit Let_def
        simp flip: not_le split: prod.splits)
qed


lemma filter_insert_sons:
  "rozofs_ip4_filter_insert tree new = do { (ok, ss) \<leftarrow> insert_sons [] (sons tree) new; Some (ok, Subnet (sb tree) ss) }"
  by (simp add: rozofs_ip4_filter_insert_def insert_sons_Nil)

lemma is_root_inside: "is_root tree \<Longrightarrow> valid_subnet s \<Longrightarrow> inside (sb tree) s"
  by (auto simp: is_root_def inside_def covers_def valid_subnet_nat word_eq_iff_unsigned bit_simps intro!: bit_word_eqI dest: bit_imp_le_length)

lemma forest_cong: "sb_len s = sb_len s' \<Longrightarrow> sb_ip s = sb_ip s' \<Longrightarrow> forest s ss = forest s' ss"
  by (auto simp: forest_def inside_def covers_def)

text \<open>The subnet that was allocated.\<close>

abbreviation allocated :: "subnet \<Rightarrow> subnet" where
  "allocated s \<equiv> s\<lparr>sb_next := sb_next s + 1, sb_size := sb_size s - 1\<rparr>"

lemma is_root_allocated: "is_root tree \<Longrightarrow> is_root (Subnet (allocated (sb tree)) (sons tree))"
  using forest_cong[of "sb tree" "allocated (sb tree)" "sons tree"] by (simp add: is_root_def)

lemma load_subnet_ok:
  assumes "is_root tree" "valid_setting st" "sb_size (sb tree) \<noteq> 0" "differ (all_subnets (sons tree)) [subnet_of st]"
  shows "\<exists>ss. load_subnet tree st = Some (Some (Subnet (allocated (sb tree)) ss)) \<and> is_root (Subnet (allocated (sb tree)) ss)
     \<and> mset (all_subnets ss) = mset (all_subnets (sons tree)) + {#subnet_of st#}"
proof -
  let ?r = "Subnet (allocated (sb tree)) (sons tree)" and ?new = "Subnet (subnet_of st) []"
  have r: "is_root ?r" using assms(1) by (rule is_root_allocated)
  have "forest (sb ?r) [?new]" using is_root_inside[OF r] valid_setting_subnet[OF assms(2)] by (auto simp: forest_def)
  then have "inserted (sb ?r) ([] @ sons tree) ?new (insert_sons [] (sons tree) ?new)"
    by (intro insert_sons_ok) (use r assms(4) in \<open>auto simp: is_root_def\<close>)
  with r show ?thesis
    by (auto simp: load_subnet_insert[OF assms(2,3)] filter_insert_sons inserted_def is_root_def)
qed

lemma load_subnet_twice:
  assumes "is_root tree" "valid_setting st" "n \<in> set (all_subnets (sons tree))" "covers n (subnet_of st)" "covers (subnet_of st) n"
  shows "load_subnet tree st = Some None"
proof (cases "sb_size (sb tree) = 0")
  case True
  then show ?thesis by (auto simp: load_subnet_def rozofs_ip4_filter_add_subnet_def Let_def split: option.splits prod.splits)
next
  case False
  let ?r = "Subnet (allocated (sb tree)) (sons tree)" and ?new = "Subnet (subnet_of st) []"
  have r: "is_root ?r" using assms(1) by (rule is_root_allocated)
  have "forest (sb ?r) [?new]" using is_root_inside[OF r] valid_setting_subnet[OF assms(2)] by (auto simp: forest_def)
  then have "insert_sons [] (sons tree) ?new = Some (False, [] @ sons tree)"
    by (intro insert_sons_duplicate[of "sb ?r"]) (use r assms(3-5) in \<open>auto simp: is_root_def\<close>)
  then show ?thesis by (simp add: load_subnet_insert[OF assms(2) False] filter_insert_sons)
qed

text \<open>A tree that holds the subnets \<open>ss\<close>, with room for \<open>room\<close> more.\<close>

definition holds :: "rozofs_ip4_subnet_t \<Rightarrow> subnet list \<Rightarrow> u8 \<Rightarrow> nat \<Rightarrow> bool" where
  "holds tree ss rule room \<longleftrightarrow> is_root tree \<and> mset (all_subnets (sons tree)) = mset ss \<and> sb_allow (sb tree) = rule
     \<and> unat (sb_size (sb tree)) = room"

lemma holds_set: "holds tree ss rule room \<Longrightarrow> set (all_subnets (sons tree)) = set ss"
  unfolding holds_def by (metis set_mset_mset)

lemma load_subnet_full: "holds tree ss rule 0 \<Longrightarrow> load_subnet tree st = Some None"
  by (auto simp: holds_def unat_eq_0 load_subnet_def rozofs_ip4_filter_add_subnet_def Let_def split: option.splits prod.splits)

lemma load_subnet_holds:
  assumes "holds tree ss rule (Suc room)" "valid_setting st" "differ ss [subnet_of st]"
  shows "\<exists>tree'. load_subnet tree st = Some (Some tree') \<and> holds tree' (ss @ [subnet_of st]) rule room"
proof -
  have z1: "sb_size (sb tree) \<noteq> 0" using assms(1) by (auto simp: holds_def)
  then have z: "unat (sb_size (sb tree) - 1) = room" using assms(1) by (simp add: holds_def unat_minus_one)
  have "differ (all_subnets (sons tree)) [subnet_of st]" using assms(3) holds_set[OF assms(1)] by (simp add: differ_def)
  from load_subnet_ok[OF _ assms(2) z1 this] show ?thesis using assms(1) z by (auto simp: holds_def)
qed

lemma load_subnets_holds:
  "holds tree ss rule room \<Longrightarrow> \<forall>st \<in> set sts. valid_setting st \<Longrightarrow> no_twice (ss @ map subnet_of sts) \<Longrightarrow> length sts \<le> room \<Longrightarrow>
   \<exists>tree'. load_subnets tree sts = Some (Some tree') \<and> holds tree' (ss @ map subnet_of sts) rule (room - length sts)"
proof (induction sts arbitrary: tree ss room)
  case Nil
  then show ?case by simp
next
  case (Cons st sts)
  then obtain room' where room: "room = Suc room'" by (cases room) auto
  have "differ ss [subnet_of st]" using Cons.prems(3) by (auto simp: no_twice_def differ_def sorted_wrt_append)
  with load_subnet_holds[of tree ss rule room' st] Cons.prems room
  obtain tree' where t: "load_subnet tree st = Some (Some tree')" "holds tree' (ss @ [subnet_of st]) rule room'" by auto
  with Cons.IH[OF t(2)] Cons.prems room show ?case by auto
qed

lemma holds_allocate:
  "holds (rozofs_ip4_filter_tree_allocate rule nb) [] (if rule \<noteq> 0 then ROZOFS_IP4_ALLOW else ROZOFS_IP4_FORBID) (nat (nb mod 256))"
  by (simp add: holds_def rozofs_ip4_filter_tree_allocate_def rozofs_ip4_filter_reset_def is_root_def unsigned_of_int take_bit_eq_mod)


lemma load_subnet_invalid:
  "st_subnetLen st \<noteq> 0 \<Longrightarrow> \<not> valid_setting st \<Longrightarrow> load_subnet tree st = Some None"
  by (auto simp: load_subnet_def valid_setting_def Let_def simp flip: not_le word_less_1 split: option.splits prod.splits)

lemma load_subnets_refused:
  "holds tree ss rule room \<Longrightarrow> \<forall>st \<in> set sts. st_subnetLen st \<noteq> 0 \<Longrightarrow> no_twice ss \<Longrightarrow>
   (\<exists>st \<in> set sts. \<not> valid_setting st) \<or> \<not> no_twice (ss @ map subnet_of sts) \<or> room < length sts \<Longrightarrow>
   load_subnets tree sts = Some None"
proof (induction sts arbitrary: tree ss room)
  case Nil
  then show ?case by simp
next
  case (Cons st sts)
  show ?case
  proof (cases "room = 0 \<or> \<not> valid_setting st")
    case True
    then show ?thesis using load_subnet_full load_subnet_invalid Cons.prems(1,2) by auto
  next
    case valid: False
    then obtain room' where Suc: "room = Suc room'" by (cases room) auto
    show ?thesis
    proof (cases "differ ss [subnet_of st]")
      case True
      with load_subnet_holds[of tree ss rule room' st] Cons.prems Suc valid
      obtain tree' where t: "load_subnet tree st = Some (Some tree')" "holds tree' (ss @ [subnet_of st]) rule room'" by auto
      have "no_twice (ss @ [subnet_of st])" using True Cons.prems(3) by (auto simp: no_twice_def differ_def sorted_wrt_append)
      with Cons.IH[OF t(2)] t(1) Cons.prems Suc valid show ?thesis by auto
    next
      case False
      then obtain n where "n \<in> set ss" "covers n (subnet_of st)" "covers (subnet_of st) n" by (auto simp: differ_def)
      then have "load_subnet tree st = Some None"
        using load_subnet_twice[of tree st n] holds_set[OF Cons.prems(1)] Cons.prems(1) valid by (auto simp: holds_def)
      then show ?thesis by simp
    qed
  qed
qed

text \<open>The rule that a filter of the configuration gives to an address.\<close>

definition filter_rule :: "filter_setting \<Rightarrow> u32 \<Rightarrow> u8" where
  "filter_rule fs ip = longest_prefix 0 (the (default_rule (fs_rule fs))) (map subnet_of (the (fs_subnets fs))) (sb (rozofs_ip4_filter_reset ip 32 False))"

definition valid_filter :: "filter_setting \<Rightarrow> bool" where
  "valid_filter fs \<longleftrightarrow> default_rule (fs_rule fs) \<noteq> None \<and> (case fs_subnets fs of None \<Rightarrow> True
     | Some sts \<Rightarrow> length sts \<le> 255 \<and> list_all valid_setting sts \<and> no_twice (map subnet_of sts))"

definition enforces :: "filter_setting \<Rightarrow> filter_config_t \<Rightarrow> bool" where
  "enforces fs f \<longleftrightarrow> fc_name f = fs_name fs \<and> (\<forall>ip. rozofs_ip4_filter_check (Some (fc_filter_tree f)) ip = Some (filter_rule fs ip))"

lemma default_rule_bit: "default_rule r = Some rule \<Longrightarrow> (if rule \<noteq> 0 then ROZOFS_IP4_ALLOW else ROZOFS_IP4_FORBID) = rule"
  by (auto simp: default_rule_def ROZOFS_IP4_FORBID_def dest: read_rule_bit split: option.splits)

lemma load_filter_enforces:
  assumes "valid_filter fs" "default_rule (fs_rule fs) = Some rule" "fs_subnets fs = Some sts"
  shows "\<exists>tree. load_subnets (rozofs_ip4_filter_tree_allocate rule (int (length sts))) sts = Some (Some tree)
     \<and> enforces fs \<lparr>fc_name = fs_name fs, fc_filter_tree = tree\<rparr>"
proof -
  have v: "length sts \<le> 255" "\<forall>st \<in> set sts. valid_setting st" "no_twice (map subnet_of sts)"
    using assms by (auto simp: valid_filter_def list_all_iff)
  have "holds (rozofs_ip4_filter_tree_allocate rule (int (length sts))) [] rule (length sts)"
    using holds_allocate[of rule "int (length sts)"] default_rule_bit[OF assms(2)] v(1) by (simp add: nat_mod_distrib)
  from load_subnets_holds[OF this v(2)] v(3) obtain tree where
    t: "load_subnets (rozofs_ip4_filter_tree_allocate rule (int (length sts))) sts = Some (Some tree)" "holds tree (map subnet_of sts) rule 0"
    by auto
  then show ?thesis
    using check_longest_prefix[of tree "map subnet_of sts"] holds_set[OF t(2)] v assms(2,3) valid_setting_subnet
    by (auto simp: enforces_def filter_rule_def holds_def is_root_def)
qed

lemma load_filters_enforce:
  "\<forall>fs \<in> set fss. valid_filter fs \<Longrightarrow>
   \<exists>fl. load_filters_conf filters fss = Some (Some (filters @ fl)) \<and> list_all2 enforces (filter (\<lambda>fs. fs_subnets fs \<noteq> None) fss) fl"
proof (induction fss arbitrary: filters)
  case Nil
  then show ?case by simp
next
  case (Cons fs fss)
  then obtain rule where rule: "default_rule (fs_rule fs) = Some rule" by (auto simp: valid_filter_def)
  show ?case
  proof (cases "fs_subnets fs")
    case None
    with Cons rule show ?thesis by simp
  next
    case (Some sts)
    from load_filter_enforces[OF _ rule Some] Cons.prems
    obtain tree where t: "load_subnets (rozofs_ip4_filter_tree_allocate rule (int (length sts))) sts = Some (Some tree)"
      "enforces fs \<lparr>fc_name = fs_name fs, fc_filter_tree = tree\<rparr>" by auto
    with Cons.IH[of "filters @ [\<lparr>fc_name = fs_name fs, fc_filter_tree = tree\<rparr>]"] Cons.prems Some rule
    show ?thesis by auto
  qed
qed

lemma find_enforces:
  "list_all2 enforces (filter P fss) fl \<Longrightarrow>
   rel_option enforces (List.find (\<lambda>fs. P fs \<and> strcasecmp_eq (fs_name fs) name) fss) (List.find (\<lambda>f. strcasecmp_eq (fc_name f) name) fl)"
proof (induction fss arbitrary: fl)
  case Nil
  then show ?case by simp
next
  case (Cons fs fss)
  then show ?case by (cases "P fs") (auto simp: list_all2_Cons1 enforces_def)
qed

section \<open>Results\<close>

text \<open>
  C23. A configuration whose filters are right is loaded, and each filter gives every address the rule of the longest prefix among the subnets that contain it, and the rule of the
  filter when none does. A filter is found by its name, whatever the case of its letters; the first one with the name is used, and a filter without a list of subnets is left out.
\<close>

theorem filters_enforced:
  assumes "\<forall>fs \<in> set fss. valid_filter fs"
  shows "\<exists>filters. load_filters_conf [] fss = Some (Some filters) \<and>
     (\<forall>name. case List.find (\<lambda>fs. fs_subnets fs \<noteq> None \<and> strcasecmp_eq (fs_name fs) name) fss of
         None \<Rightarrow> rozofs_ip4_flt_get_tree filters (Some name) = None
       | Some fs \<Rightarrow> \<exists>tree. rozofs_ip4_flt_get_tree filters (Some name) = Some tree
           \<and> (\<forall>ip. rozofs_ip4_filter_check (Some tree) ip = Some (filter_rule fs ip)))"
proof -
  from load_filters_enforce[OF assms, of "[]"] obtain fl where
    fl: "load_filters_conf [] fss = Some (Some fl)" "list_all2 enforces (filter (\<lambda>fs. fs_subnets fs \<noteq> None) fss) fl" by auto
  show ?thesis
  proof (intro exI[of _ fl] conjI allI)
    fix name
    from find_enforces[OF fl(2), of name]
    show "case List.find (\<lambda>fs. fs_subnets fs \<noteq> None \<and> strcasecmp_eq (fs_name fs) name) fss of
         None \<Rightarrow> rozofs_ip4_flt_get_tree fl (Some name) = None
       | Some fs \<Rightarrow> \<exists>tree. rozofs_ip4_flt_get_tree fl (Some name) = Some tree
           \<and> (\<forall>ip. rozofs_ip4_filter_check (Some tree) ip = Some (filter_rule fs ip))"
      by (cases rule: option.rel_cases) (auto simp: rozofs_ip4_flt_get_tree_def enforces_def)
  qed (use fl in simp)
qed

text \<open>
  C40. The loading of the subnets of a filter always returns when no length is 0, and refuses the filter exactly when a setting is wrong (a rule other than allow and forbid, a byte of the address above 255 or a length above
  32), a subnet is there twice, or there are more than 255 subnets. The number of subnets is kept in a byte, so that a filter of 256 subnets has no room for one.
\<close>

theorem filter_refused_iff:
  assumes "\<forall>st \<in> set sts. st_subnetLen st \<noteq> 0"
  shows "\<exists>r. load_subnets (rozofs_ip4_filter_tree_allocate rule (int (length sts))) sts = Some r
     \<and> (r = None \<longleftrightarrow> (\<exists>st \<in> set sts. \<not> valid_setting st) \<or> \<not> no_twice (map subnet_of sts) \<or> 255 < length sts)"
proof (cases "(\<forall>st \<in> set sts. valid_setting st) \<and> no_twice (map subnet_of sts) \<and> length sts \<le> 255")
  case True
  then show ?thesis
    using load_subnets_holds[OF holds_allocate[of rule "int (length sts)"], of sts] by (auto simp: nat_mod_distrib)
next
  case False
  have "int (length sts) mod 256 < int (length sts)" if "255 < length sts" using that by simp
  then have "(\<exists>st \<in> set sts. \<not> valid_setting st) \<or> \<not> no_twice ([] @ map subnet_of sts) \<or> nat (int (length sts) mod 256) < length sts" using False by auto
  from load_subnets_refused[OF holds_allocate assms _ this] False show ?thesis by (auto simp: no_twice_def)
qed


text \<open>A filter with three subnets, one inside the other, given from the outside in and back.\<close>

definition sample_setting :: "u32 \<Rightarrow> u32 \<Rightarrow> u32 \<Rightarrow> string \<Rightarrow> subnet_setting" where
  "sample_setting b c len rule = \<lparr>st_rule = rule, st_scanip = (10, b, c, 0), st_subnetLen = len\<rparr>"

definition sample_filter :: filter_setting where
  "sample_filter = \<lparr>fs_name = ''lab'', fs_rule = Some ''forbid'', fs_subnets =
     Some [sample_setting 1 0 16 ''forbid'', sample_setting 1 2 24 ''Allow'', sample_setting 0 0 8 ''allow'']\<rparr>"

lemma sample_filter_valid: "\<forall>fs \<in> set [sample_filter]. valid_filter fs"
  by code_simp

theorem filters_enforced_witness:
  "\<exists>filters tree. load_filters_conf [] [sample_filter] = Some (Some filters) \<and> rozofs_ip4_flt_get_tree filters (Some ''LAB'') = Some tree
     \<and> rozofs_ip4_filter_check (Some tree) 0x0A010203 = Some ROZOFS_IP4_ALLOW
     \<and> rozofs_ip4_filter_check (Some tree) 0x0A010303 = Some ROZOFS_IP4_FORBID
     \<and> rozofs_ip4_filter_check (Some tree) 0x0A020303 = Some ROZOFS_IP4_ALLOW
     \<and> rozofs_ip4_filter_check (Some tree) 0x0B020303 = Some ROZOFS_IP4_FORBID"
proof -
  have "List.find (\<lambda>fs. fs_subnets fs \<noteq> None \<and> strcasecmp_eq (fs_name fs) ''LAB'') [sample_filter] = Some sample_filter" by code_simp
  moreover have "filter_rule sample_filter 0x0A010203 = ROZOFS_IP4_ALLOW" "filter_rule sample_filter 0x0A010303 = ROZOFS_IP4_FORBID"
    "filter_rule sample_filter 0x0A020303 = ROZOFS_IP4_ALLOW" "filter_rule sample_filter 0x0B020303 = ROZOFS_IP4_FORBID"
    by code_simp+
  ultimately show ?thesis using filters_enforced[OF sample_filter_valid] by (fastforce split: option.splits)
qed

theorem filter_refused_iff_witness:
  "load_subnets (rozofs_ip4_filter_tree_allocate 0 2) [sample_setting 1 2 16 ''allow'', sample_setting 1 7 16 ''forbid''] = Some None
     \<and> load_subnets (rozofs_ip4_filter_tree_allocate 0 1) [sample_setting 300 2 16 ''allow''] = Some None
     \<and> (\<exists>tree. load_subnets (rozofs_ip4_filter_tree_allocate 0 2) [sample_setting 1 2 16 ''allow'', sample_setting 1 7 24 ''forbid''] = Some (Some tree))"
proof -
  let ?twice = "[sample_setting 1 2 16 ''allow'', sample_setting 1 7 16 ''forbid'']" and ?wrong = "[sample_setting 300 2 16 ''allow'']"
    and ?right = "[sample_setting 1 2 16 ''allow'', sample_setting 1 7 24 ''forbid'']"
  have "\<forall>st \<in> set ?twice. st_subnetLen st \<noteq> 0" "\<not> no_twice (map subnet_of ?twice)"
    "\<forall>st \<in> set ?wrong. st_subnetLen st \<noteq> 0" "\<exists>st \<in> set ?wrong. \<not> valid_setting st"
    "\<forall>st \<in> set ?right. st_subnetLen st \<noteq> 0" "\<forall>st \<in> set ?right. valid_setting st" "no_twice (map subnet_of ?right)" by code_simp+
  then show ?thesis using filter_refused_iff[of ?twice 0] filter_refused_iff[of ?wrong 0] filter_refused_iff[of ?right 0] by fastforce
qed

text \<open>
  The subnet of all addresses has the length 0, which is accepted; its mask is a shift by 32, which is undefined. So is then the test of every address.
\<close>

lemma length_0_undefined:
  "\<exists>tree. load_subnets (rozofs_ip4_filter_tree_allocate 0 1) [\<lparr>st_rule = ''allow'', st_scanip = (0, 0, 0, 0), st_subnetLen = 0\<rparr>] = Some (Some tree)
     \<and> (\<forall>ip. rozofs_ip4_filter_check (Some tree) ip = None)"
proof -
  have "\<exists>s. sb_len s = 0 \<and> load_subnets (rozofs_ip4_filter_tree_allocate 0 1) [\<lparr>st_rule = ''allow'', st_scanip = (0, 0, 0, 0), st_subnetLen = 0\<rparr>]
      = Some (Some (Subnet (allocated (sb (rozofs_ip4_filter_tree_allocate 0 1))) [Subnet s []]))"
    by (simp add: load_subnet_def read_rule_def strcasecmp_eq_def rozofs_ip4_filter_tree_allocate_def rozofs_ip4_filter_add_subnet_def
        rozofs_ip4_filter_reset_def rozofs_ip4_filter_insert_def ROZOFS_IP4_ALLOW_def)
  then show ?thesis
    by (force simp: rozofs_ip4_filter_check_def rozofs_ip4_filter_check_internal_def rozofs_ip4_filter_reset_def rozofs_subnet_compare_def IP4MASK_def)
qed



end
