(* ===== verification/Dirent_Bitmap.thy ===== *)
theory Dirent_Bitmap
  imports Prelude
begin

text \<open>
  The bitmaps of the directory files (\<^verbatim>\<open>src/exportd/mdirent.h\<close>): a chunk is free when its bit is set. The searches skip 64, 32, 16, 8 or 4 chunks at a time. The theory proves that
  they find what a search bit by bit finds, and stay within the bitmap. A chunk number is a natural number; the result -1 of a search is \<^term>\<open>None\<close>, within the option
  type of the executions. The counters of the searches are left out.
\<close>

section \<open>Model\<close>

text \<open>An integer of \<open>n\<close> bytes at the index \<open>i\<close> of an array of such integers, on a little-endian machine.\<close>

definition load :: "nat \<Rightarrow> u8 list \<Rightarrow> nat \<Rightarrow> u64 option" where
  "load n p i = (if n * (i + 1) \<le> length p then Some (foldr (\<lambda>b acc. push_bit 8 acc OR ucast b) (take n (drop (n * i) p)) 0) else None)"

text \<open>The cases of the switch: how many bytes are tried, by the place of the byte in its group of eight.\<close>

definition widths :: "nat \<Rightarrow> nat list" where
  "widths align = (if align = 0 then [8, 4, 2, 1] else if align = 4 then [4, 2, 1] else if align = 2 \<or> align = 6 then [2, 1] else [1])"

fun skip_width :: "u8 list \<Rightarrow> nat \<Rightarrow> u64 \<Rightarrow> nat list \<Rightarrow> nat option option" where
  "skip_width p idx val [] = Some None"
| "skip_width p idx val (n # ns) = do {
     v \<leftarrow> load n p (idx div (8 * n));
     if v = val AND mask (8 * n) then Some (Some n) else skip_width p idx val ns }"

lemma skip_width_in: "skip_width p idx val ns = Some (Some n) \<Longrightarrow> n \<in> set ns"
  by (induction ns) (auto split: bind_splits if_splits)

text \<open>The loop; the result is whether it stops before the last chunk, and the chunk.\<close>

function scan_bytes :: "u8 list \<Rightarrow> nat \<Rightarrow> nat \<Rightarrow> u64 \<Rightarrow> (bool \<times> nat) option" where
  "scan_bytes p chunk_idx last_chunk val =
     (if chunk_idx < last_chunk then do {
        w \<leftarrow> skip_width p chunk_idx val (widths (chunk_idx div 8 mod 8));
        case w of
          Some n \<Rightarrow> scan_bytes p (chunk_idx + 8 * n) last_chunk val
        | None \<Rightarrow> do {
            b \<leftarrow> load 1 p (chunk_idx div 8);
            Some (True, if b AND 0xf = val AND 0xf then chunk_idx + 4 else chunk_idx) } }
      else Some (False, chunk_idx))"
  by pat_completeness auto

termination scan_bytes
proof (relation "measure (\<lambda>(p, chunk_idx, last_chunk, val). last_chunk - chunk_idx)")
  fix p chunk_idx last_chunk val w n
  assume "chunk_idx < last_chunk" and "skip_width p chunk_idx val (widths (chunk_idx div 8 mod 8)) = Some w" and "w = Some n"
  then have "n \<in> set (widths (chunk_idx div 8 mod 8))" using skip_width_in by blast
  then have "0 < n" by (auto simp: widths_def split: if_splits)
  with \<open>chunk_idx < last_chunk\<close>
  show "((p, chunk_idx + 8 * n, last_chunk, val), p, chunk_idx, last_chunk, val)
     \<in> measure (\<lambda>(p, chunk_idx, last_chunk, val). last_chunk - chunk_idx)" by simp
qed simp

declare scan_bytes.simps [simp del]

definition check_bytes :: "u8 list \<Rightarrow> nat \<Rightarrow> nat \<Rightarrow> nat option" where
  "check_bytes p first_chunk last_chunk = map_option snd (scan_bytes p first_chunk last_chunk 0)"

definition check_bytes_val :: "u8 list \<Rightarrow> nat \<Rightarrow> nat \<Rightarrow> bool \<Rightarrow> nat option option" where
  "check_bytes_val p first_chunk last_chunk empt = do {
     (found, idx) \<leftarrow> scan_bytes p first_chunk last_chunk (if empt then NOT 0 else 0);
     Some (if found then Some idx else None) }"

definition test_bit :: "u8 list \<Rightarrow> nat \<Rightarrow> nat \<Rightarrow> bool option" where
  "test_bit p i k = do { b \<leftarrow> arr_get p (int i); Some (b AND push_bit k 1 \<noteq> 0) }"

definition raise_bit :: "nat \<Rightarrow> nat \<Rightarrow> u8 list \<Rightarrow> u8 list option" where
  "raise_bit i k p = do { b \<leftarrow> arr_get p (int i); arr_set p (int i) (b OR push_bit k 1) }"

definition lower_bit :: "nat \<Rightarrow> nat \<Rightarrow> u8 list \<Rightarrow> u8 list option" where
  "lower_bit i k p = do { b \<leftarrow> arr_get p (int i); arr_set p (int i) (b AND NOT (push_bit k 1)) }"

text \<open>
  The search of an allocation. The byte index has \<open>wd\<close> values; \<open>skip\<close> is the next chunk to try when the run may not start at a chunk. The loop may not end
  when the alignment is not a power of two.
\<close>

partial_function (option) search_chunks ::
  "nat \<Rightarrow> (nat \<Rightarrow> nat option) \<Rightarrow> nat \<Rightarrow> u8 list \<Rightarrow> nat \<Rightarrow> nat \<Rightarrow> nat option \<Rightarrow> nat \<Rightarrow> nat option option" where
  "search_chunks wd skip nb_chunks p last_chunk chunk_idx start_idx count_idx =
     (if chunk_idx < last_chunk then do {
        free \<leftarrow> test_bit p (chunk_idx div 8 mod wd) (chunk_idx mod 8);
        if \<not> free then
          if chunk_idx mod 8 = 0 then do {
            next \<leftarrow> check_bytes_val p chunk_idx last_chunk False;
            case next of None \<Rightarrow> Some None
            | Some next_chunk_idx \<Rightarrow>
                search_chunks wd skip nb_chunks p last_chunk (if next_chunk_idx = chunk_idx then chunk_idx + 1 else next_chunk_idx) None 0 }
          else search_chunks wd skip nb_chunks p last_chunk (chunk_idx + 1) None 0
        else if start_idx = None then
          if chunk_idx + nb_chunks > last_chunk then Some None
          else (case skip chunk_idx of
              Some next_idx \<Rightarrow> search_chunks wd skip nb_chunks p last_chunk next_idx None count_idx
            | None \<Rightarrow> if 1 < nb_chunks then search_chunks wd skip nb_chunks p last_chunk (chunk_idx + 1) (Some chunk_idx) 1 else Some (Some chunk_idx))
        else if count_idx + 1 < nb_chunks then search_chunks wd skip nb_chunks p last_chunk (chunk_idx + 1) start_idx (count_idx + 1)
        else Some start_idx }
      else Some start_idx)"

definition reserve_chunks :: "nat \<Rightarrow> nat \<Rightarrow> nat \<Rightarrow> u8 list \<Rightarrow> u8 list option" where
  "reserve_chunks wd start_idx nb_chunks p = foldM (\<lambda>k. lower_bit (k div 8 mod wd) (k mod 8)) [start_idx..<start_idx + nb_chunks] p"

definition allocate :: "nat \<Rightarrow> (nat \<Rightarrow> nat option) \<Rightarrow> u8 \<Rightarrow> u8 list \<Rightarrow> nat \<Rightarrow> (nat option \<times> u8 list) option" where
  "allocate wd skip nb_chunks p last_chunk = do {
     start \<leftarrow> search_chunks wd skip (unat nb_chunks) p last_chunk 0 None 0;
     case start of None \<Rightarrow> Some (None, p)
     | Some start_idx \<Rightarrow> do { p \<leftarrow> reserve_chunks wd start_idx (unat nb_chunks) p; Some (Some start_idx, p) } }"

text \<open>The index of a byte is a \<^verbatim>\<open>uint8_t\<close>.\<close>

definition dirent_allocate_chunks :: "u8 \<Rightarrow> u8 list \<Rightarrow> nat \<Rightarrow> (nat option \<times> u8 list) option" where
  "dirent_allocate_chunks nb_chunks p last_chunk = allocate 256 (\<lambda>_. None) nb_chunks p last_chunk"

text \<open>A run is not to start in an array and end in the next one; the index of a byte is a \<^verbatim>\<open>uint16_t\<close>.\<close>

definition skip_array :: "u32 \<Rightarrow> u8 \<Rightarrow> nat \<Rightarrow> nat option" where
  "skip_array alignment nb_chunks chunk_idx = (let msk = NOT (uint alignment - 1);
       first = int chunk_idx AND msk; last = (int chunk_idx + uint nb_chunks) AND msk in
     if first \<noteq> last then Some (nat last) else None)"

definition dirent_allocate_chunks_with_alignment :: "u8 \<Rightarrow> u32 \<Rightarrow> u8 list \<Rightarrow> nat \<Rightarrow> (nat option \<times> u8 list) option" where
  "dirent_allocate_chunks_with_alignment nb_chunks alignment p last_chunk = allocate 65536 (skip_array alignment nb_chunks) nb_chunks p last_chunk"

text \<open>The next chunk that is free, or the next one that is not.\<close>

partial_function (option) dirent_getnext_chunk :: "nat \<Rightarrow> u8 list \<Rightarrow> nat \<Rightarrow> bool \<Rightarrow> nat option option" where
  "dirent_getnext_chunk chunk_idx p last_chunk val =
     (if chunk_idx < last_chunk then do {
        bit_res \<leftarrow> test_bit p (chunk_idx div 8 mod 256) (chunk_idx mod 8);
        if bit_res \<noteq> val then
          if chunk_idx mod 8 = 0 then do {
            next \<leftarrow> check_bytes_val p chunk_idx last_chunk (\<not> val);
            case next of None \<Rightarrow> Some None
            | Some next_chunk_idx \<Rightarrow> dirent_getnext_chunk (if next_chunk_idx = chunk_idx then chunk_idx + 1 else next_chunk_idx) p last_chunk val }
          else dirent_getnext_chunk (chunk_idx + 1) p last_chunk val
        else Some (Some chunk_idx) }
      else Some None)"

text \<open>The result is whether the chunks are released.\<close>

definition dirent_release_chunks :: "nat \<Rightarrow> u8 \<Rightarrow> u8 list \<Rightarrow> nat \<Rightarrow> (bool \<times> u8 list) option" where
  "dirent_release_chunks start_chunk nb_chunks p last_chunk =
     (if start_chunk + unat nb_chunks > last_chunk then Some (False, p)
      else do {
        p \<leftarrow> foldM (\<lambda>k. raise_bit (k div 8) (k mod 8)) [start_chunk..<start_chunk + unat nb_chunks] p;
        Some (True, p) })"

definition dirent_set_chunk_bit :: "nat \<Rightarrow> u8 list \<Rightarrow> u8 list option" where
  "dirent_set_chunk_bit start_chunk p = raise_bit (start_chunk div 8) (start_chunk mod 8) p"

definition dirent_clear_chunk_bit :: "nat \<Rightarrow> u8 list \<Rightarrow> u8 list option" where
  "dirent_clear_chunk_bit start_chunk p = lower_bit (start_chunk div 8) (start_chunk mod 8) p"

definition dirent_test_chunk_bit :: "nat \<Rightarrow> u8 list \<Rightarrow> bool option" where
  "dirent_test_chunk_bit start_chunk p = test_bit p (start_chunk div 8) (start_chunk mod 8)"

fun all_empty :: "nat list \<Rightarrow> u8 list \<Rightarrow> bool option" where
  "all_empty [] p = Some True"
| "all_empty (i # is) p = do { b \<leftarrow> arr_get p (int i); if b \<noteq> 0xff then Some False else all_empty is p }"

text \<open>\<open>Some None\<close> is an error: the range is too long or its length is not a number of bytes.\<close>

definition dirent_check_empty_chunks :: "nat \<Rightarrow> u8 \<Rightarrow> u8 list \<Rightarrow> nat \<Rightarrow> bool option option" where
  "dirent_check_empty_chunks start_chunk nb_chunks p last_chunk =
     (if start_chunk + unat nb_chunks > last_chunk then Some None
      else if unat nb_chunks mod 8 \<noteq> 0 then Some None
      else map_option Some (all_empty [start_chunk div 8..<start_chunk div 8 + unat nb_chunks div 8] p))"


section \<open>Skipping\<close>

definition chunk_free :: "u8 list \<Rightarrow> nat \<Rightarrow> bool" where
  "chunk_free p k = bit (p ! (k div 8)) (k mod 8)"

text \<open>A bitmap of \<open>lc\<close> chunks at least, that is a number of 64-bit integers.\<close>

definition bitmap_ok :: "u8 list \<Rightarrow> nat \<Rightarrow> bool" where
  "bitmap_ok p lc \<longleftrightarrow> lc \<le> 8 * length p \<and> 8 dvd length p"

lemma bit_little_endian:
  "k < 64 \<Longrightarrow> bit (foldr (\<lambda>b acc. push_bit 8 acc OR ucast b) bs (0 :: u64)) k \<longleftrightarrow> k div 8 < length bs \<and> bit ((bs :: u8 list) ! (k div 8)) (k mod 8)"
proof (induction bs arbitrary: k)
  case Nil
  then show ?case by simp
next
  case (Cons b bs)
  show ?case
  proof (cases "k < 8")
    case True
    then show ?thesis by (auto simp: bit_simps)
  next
    case False
    then have "k div 8 = Suc ((k - 8) div 8)" "k mod 8 = (k - 8) mod 8" by (simp_all add: le_div_geq le_mod_geq)
    moreover have "\<not> bit b k" using False bit_imp_le_length[of b k] by auto
    ultimately show ?thesis using False Cons.IH[of "k - 8"] Cons.prems by (auto simp: bit_simps)
  qed
qed

lemma load_bits:
  assumes "load n p i = Some v" "k < 8 * n" "n \<le> 8"
  shows "bit v k \<longleftrightarrow> chunk_free p (8 * n * i + k)"
proof -
  have b: "n * (i + 1) \<le> length p" "v = foldr (\<lambda>b acc. push_bit 8 acc OR ucast b) (take n (drop (n * i) p)) 0"
    using assms(1) by (auto simp: load_def split: if_splits)
  have "(8 * n * i + k) div 8 = n * i + k div 8" "(8 * n * i + k) mod 8 = k mod 8"
    by (simp_all add: mult.assoc)
  moreover have k: "k div 8 < n" "k < 64" using assms(2,3) by auto
  moreover have "length (take n (drop (n * i) p)) = n" "take n (drop (n * i) p) ! (k div 8) = p ! (n * i + k div 8)" using b(1) k by auto
  ultimately show ?thesis using bit_little_endian[of k "take n (drop (n * i) p)"] unfolding b(2) chunk_free_def by simp
qed

abbreviation all_bits :: "bool \<Rightarrow> u64" where "all_bits v \<equiv> if v then NOT 0 else 0"

lemma load_eq_all:
  assumes "load n p i = Some x" "n \<le> 8" "m \<le> 8 * n"
  shows "x AND mask m = all_bits v AND mask m \<longleftrightarrow> (\<forall>k < m. chunk_free p (8 * n * i + k) = v)"
proof -
  have m: "m \<le> 64" using assms by simp
  have "x AND mask m = all_bits v AND mask m \<longleftrightarrow> (\<forall>k < m. bit x k = v)"
    using m by (auto simp: bit_eq_iff bit_simps) (meson less_le_trans)+
  then show ?thesis using load_bits[OF assms(1) _ assms(2)] assms(3) by auto
qed

lemma load_mask: "load n p i = Some x \<Longrightarrow> n \<le> 8 \<Longrightarrow> x AND mask (8 * n) = x"
  by (auto simp: load_def bit_eq_iff bit_simps bit_little_endian split: if_splits dest: bit_imp_le_length)

text \<open>A read of \<open>n\<close> bytes at the chunk \<open>idx\<close> is possible.\<close>

definition readable :: "u8 list \<Rightarrow> nat \<Rightarrow> nat \<Rightarrow> bool" where
  "readable p idx n \<longleftrightarrow> 0 < n \<and> n \<le> 8 \<and> 8 * n dvd idx \<and> idx + 8 * n \<le> 8 * length p"

lemma readable_load: "readable p idx n \<Longrightarrow> \<exists>x. load n p (idx div (8 * n)) = Some x"
  by (auto simp: readable_def load_def elim!: dvdE)

lemma readable_widths:
  assumes "bitmap_ok p lc" "8 dvd idx" "idx < lc" "n \<in> set (widths (idx div 8 mod 8))"
  shows "readable p idx n"
proof -
  obtain a where a: "idx = 8 * a" using assms(2) by auto
  have n: "n \<in> {1, 2, 4, 8}" using assms(4) by (auto simp: widths_def split: if_splits)
  have "a mod 8 = 0 \<Longrightarrow> 8 dvd a \<and> 4 dvd a" "a mod 8 = 4 \<Longrightarrow> 4 dvd a" "a mod 8 = 0 \<or> a mod 8 = 2 \<or> a mod 8 = 4 \<or> a mod 8 = 6 \<Longrightarrow> 2 dvd a"
    by presburger+
  then have d: "n dvd a" using assms(4) a by (auto simp: widths_def split: if_splits)
  have "n dvd length p" using n assms(1) by (auto simp: bitmap_ok_def intro: dvd_trans)
  then obtain b c where b: "a = n * b" "length p = n * c" using d by (auto elim!: dvdE)
  have "a < length p" using assms(1,3) a by (simp add: bitmap_ok_def)
  then have "n * b < n * c" using b by metis
  then have "b + 1 \<le> c" by simp
  then have "n * (b + 1) \<le> n * c" by (rule mult_le_mono2)
  then show ?thesis using n a b by (auto simp: readable_def)
qed

lemma skip_width_spec:
  "(\<And>n. n \<in> set ns \<Longrightarrow> readable p idx n) \<Longrightarrow>
   \<exists>w. skip_width p idx (all_bits v) ns = Some w \<and> (\<forall>n. w = Some n \<longrightarrow> readable p idx n \<and> (\<forall>k < 8 * n. chunk_free p (idx + k) = v))"
proof (induction ns)
  case Nil
  then show ?case by simp
next
  case (Cons n ns)
  have r: "readable p idx n" using Cons.prems by simp
  then have n: "n \<le> 8" "8 * n * (idx div (8 * n)) = idx" by (auto simp: readable_def)
  obtain x where x: "load n p (idx div (8 * n)) = Some x" using readable_load[OF r] by auto
  have "x = all_bits v AND mask (8 * n) \<longleftrightarrow> (\<forall>k < 8 * n. chunk_free p (idx + k) = v)"
    using load_eq_all[OF x n(1), of "8 * n" v] load_mask[OF x n(1)] n(2) by (simp add: and.assoc)
  then show ?case using Cons r x by auto
qed

lemma scan_bytes_spec:
  assumes "bitmap_ok p lc" "8 dvd idx"
  shows "\<exists>found n. scan_bytes p idx lc (all_bits v) = Some (found, n) \<and> idx \<le> n \<and> (\<forall>k \<in> {idx..<n}. chunk_free p k = v) \<and> (\<not> found \<longrightarrow> lc \<le> n)
     \<and> (found \<longrightarrow> n < 8 * length p)"
  using assms
proof (induction p idx lc "all_bits v" rule: scan_bytes.induct)
  case (1 p idx lc)
  show ?case
  proof (cases "idx < lc")
    case False
    then show ?thesis by (intro exI[of _ False] exI[of _ idx]) (subst scan_bytes.simps, simp)
  next
    case True
    obtain w where w: "skip_width p idx (all_bits v) (widths (idx div 8 mod 8)) = Some w"
      "\<And>n. w = Some n \<Longrightarrow> readable p idx n \<and> (\<forall>k < 8 * n. chunk_free p (idx + k) = v)"
      using skip_width_spec[of "widths (idx div 8 mod 8)" p idx v] readable_widths[OF 1(2,3) True] by blast
    show ?thesis
    proof (cases w)
      case None
      have r: "readable p idx 1" using readable_widths[OF 1(2,3) True, of 1] by (auto simp: widths_def)
      then obtain b where b: "load 1 p (idx div 8) = Some b" using readable_load by fastforce
      have "b AND 0xf = all_bits v AND 0xf \<longleftrightarrow> (\<forall>k < 4. chunk_free p (idx + k) = v)"
        using load_eq_all[OF b, of 4 v] 1(3) by (simp add: mask_eq_exp_minus_1)
      moreover have "\<forall>k \<in> {idx..<idx + 4}. chunk_free p k = v" if "\<forall>k < 4. chunk_free p (idx + k) = v"
        using that by (metis add_diff_inverse_nat atLeastLessThan_iff nat_add_left_cancel_less not_le)
      moreover have "idx + 4 < 8 * length p" using r by (auto simp: readable_def)
      ultimately show ?thesis using True w(1) None b by (subst scan_bytes.simps) auto
    next
      case (Some n)
      then have n: "readable p idx n" "\<forall>k < 8 * n. chunk_free p (idx + k) = v" using w(2) by auto
      from 1(1)[OF True w(1) Some 1(2)] 1(3) obtain found m where
        m: "scan_bytes p (idx + 8 * n) lc (all_bits v) = Some (found, m)" "idx + 8 * n \<le> m" "\<forall>k \<in> {idx + 8 * n..<m}. chunk_free p k = v"
        "\<not> found \<longrightarrow> lc \<le> m" "found \<longrightarrow> m < 8 * length p" by auto
      have "chunk_free p k = v" if "k \<in> {idx..<m}" for k
        using that n(2)[rule_format, of "k - idx"] m(3) by (cases "k < idx + 8 * n") auto
      then show ?thesis using True w(1) Some m by (subst scan_bytes.simps) auto
    qed
  qed
qed

lemma check_bytes_val_spec:
  assumes "bitmap_ok p lc" "8 dvd idx"
  shows "\<exists>r. check_bytes_val p idx lc v = Some r \<and> (case r of None \<Rightarrow> \<forall>k \<in> {idx..<lc}. chunk_free p k = v
     | Some n \<Rightarrow> idx \<le> n \<and> n < 8 * length p \<and> (\<forall>k \<in> {idx..<n}. chunk_free p k = v))"
  using scan_bytes_spec[OF assms, of v] by (auto simp: check_bytes_val_def)


section \<open>Searching\<close>

lemma test_bit_free: "k < 8 * length p \<Longrightarrow> test_bit p (k div 8) (k mod 8) = Some (chunk_free p k)"
  by (simp add: test_bit_def chunk_free_def arr_get_in and_exp_eq_0_iff_not_bit flip: push_bit_eq_mult[of _ 1, simplified])

lemma byte_index: "k < lc \<Longrightarrow> lc \<le> 8 * wd \<Longrightarrow> k div 8 mod wd = k div 8" for k :: nat
  by (metis less_mult_imp_div_less mod_less mult.commute less_le_trans)

text \<open>The chunks where a run of \<open>nb\<close> free chunks can start, and the first one.\<close>

definition fits :: "(nat \<Rightarrow> bool) \<Rightarrow> nat \<Rightarrow> u8 list \<Rightarrow> nat \<Rightarrow> nat \<Rightarrow> bool" where
  "fits ok nb p lc s \<longleftrightarrow> ok s \<and> s + nb \<le> lc \<and> list_all (chunk_free p) [s..<s + nb]"

definition first_fit :: "(nat \<Rightarrow> bool) \<Rightarrow> nat \<Rightarrow> u8 list \<Rightarrow> nat \<Rightarrow> nat option" where
  "first_fit ok nb p lc = List.find (fits ok nb p lc) [0..<lc]"

lemma find_upt_Some: "List.find P [0..<n] = Some k \<longleftrightarrow> k < n \<and> P k \<and> (\<forall>j < k. \<not> P j)"
  by (auto simp: find_Some_iff)

lemma find_upt_None: "List.find P [0..<n] = None \<longleftrightarrow> (\<forall>k < n. \<not> P k)"
  by (auto simp: find_None_iff)

lemma fits_first:
  assumes "fits ok nb p lc s" "\<forall>j < s. \<not> fits ok nb p lc j" "0 < nb"
  shows "first_fit ok nb p lc = Some s"
  using assms by (auto simp: first_fit_def find_upt_Some fits_def)

lemma fits_none: "\<forall>j. \<not> fits ok nb p lc j \<Longrightarrow> first_fit ok nb p lc = None"
  by (simp add: first_fit_def find_upt_None)

text \<open>A rule for the start of a run: where the search stays the run may start, and no run may start in what it leaves out.\<close>

locale run_start =
  fixes skip :: "nat \<Rightarrow> nat option" and ok :: "nat \<Rightarrow> bool"
  assumes stay: "skip i = None \<Longrightarrow> ok i"
    and move: "skip i = Some j \<Longrightarrow> i < j \<and> (\<forall>s \<in> {i..<j}. \<not> ok s)"
begin

text \<open>What the search knows: no run starts before the current one, or before the chunk.\<close>

definition searching :: "nat \<Rightarrow> u8 list \<Rightarrow> nat \<Rightarrow> nat \<Rightarrow> nat option \<Rightarrow> nat \<Rightarrow> bool" where
  "searching nb p lc idx start count \<longleftrightarrow> (case start of None \<Rightarrow> \<forall>s < idx. \<not> fits ok nb p lc s
     | Some s0 \<Rightarrow> (\<forall>s < s0. \<not> fits ok nb p lc s) \<and> ok s0 \<and> s0 + nb \<le> lc \<and> idx = s0 + count \<and> count < nb \<and> (\<forall>k \<in> {s0..<idx}. chunk_free p k))"

lemma searching_busy:
  assumes "searching nb p lc idx start count" "0 < nb" "\<forall>k \<in> {idx..<j}. \<not> chunk_free p k" "idx < j"
  shows "searching nb p lc j None 0"
proof -
  have busy: "\<not> chunk_free p idx" using assms(3,4) by auto
  have "\<not> fits ok nb p lc s" if "s < j" for s
  proof (cases "idx \<le> s")
    case True
    then have "\<not> chunk_free p s" using assms(3) that by simp
    then show ?thesis using assms(2) by (auto simp: fits_def list_all_iff intro!: bexI[of _ s])
  next
    case False
    show ?thesis
    proof (cases "start \<noteq> None \<and> the start \<le> s")
      case True
      then have "idx \<in> {s..<s + nb}" using assms(1) False by (auto simp: searching_def)
      then show ?thesis using busy by (auto simp: fits_def list_all_iff)
    qed (use assms(1) False in \<open>auto simp: searching_def not_le split: option.splits\<close>)
  qed
  then show ?thesis by (simp add: searching_def)
qed

lemma search_busy:
  assumes "bitmap_ok p lc" "0 < nb" "idx < lc" "searching nb p lc idx start count"
    and t: "test_bit p (idx div 8 mod wd) (idx mod 8) = Some False" "\<not> chunk_free p idx"
    and IH: "\<And>j. idx < j \<Longrightarrow> searching nb p lc j None 0 \<Longrightarrow> search_chunks wd skip nb p lc j None 0 = Some (first_fit ok nb p lc)"
  shows "search_chunks wd skip nb p lc idx start count = Some (first_fit ok nb p lc)"
proof (cases "idx mod 8 = 0")
  case True
  obtain r where r: "check_bytes_val p idx lc False = Some r" "case r of None \<Rightarrow> \<forall>k \<in> {idx..<lc}. chunk_free p k = False
     | Some n \<Rightarrow> idx \<le> n \<and> n < 8 * length p \<and> (\<forall>k \<in> {idx..<n}. chunk_free p k = False)"
    using check_bytes_val_spec[OF assms(1), of idx False] True by auto
  show ?thesis
  proof (cases r)
    case None
    have "searching nb p lc lc None 0" using searching_busy[OF assms(4,2)] r(2) None assms(3) by simp
    then have "\<forall>s. \<not> fits ok nb p lc s" using assms(2) by (auto simp: searching_def fits_def)
    then show ?thesis using assms(3) t True r(1) None fits_none by (subst search_chunks.simps) simp
  next
    case (Some n)
    let ?j = "if n = idx then idx + 1 else n"
    have "idx \<le> n" "\<forall>k \<in> {idx..<n}. \<not> chunk_free p k" using r(2) Some by auto
    then have "idx < ?j" "\<forall>k \<in> {idx..<?j}. \<not> chunk_free p k" using t(2) by (auto simp: less_Suc_eq_le)
    with IH[of ?j] searching_busy[OF assms(4,2)]
    have "search_chunks wd skip nb p lc ?j None 0 = Some (first_fit ok nb p lc)" by simp
    then show ?thesis using assms(3) t True r(1) Some by (subst search_chunks.simps) simp
  qed
next
  case False
  have "searching nb p lc (idx + 1) None 0" using searching_busy[OF assms(4,2), of "idx + 1"] t(2) by (simp add: less_Suc_eq_le)
  with IH[of "idx + 1"] assms(3) t False show ?thesis by (subst search_chunks.simps) simp
qed

lemma search_start:
  assumes "0 < nb" "idx < lc" "searching nb p lc idx None count"
    and t: "test_bit p (idx div 8 mod wd) (idx mod 8) = Some True" "chunk_free p idx"
    and IH: "\<And>j st c. idx < j \<Longrightarrow> searching nb p lc j st c \<Longrightarrow> search_chunks wd skip nb p lc j st c = Some (first_fit ok nb p lc)"
  shows "search_chunks wd skip nb p lc idx None count = Some (first_fit ok nb p lc)"
proof -
  have before: "\<forall>s < idx. \<not> fits ok nb p lc s" using assms(3) by (simp add: searching_def)
  note step = search_chunks.simps[of wd skip nb p lc idx None count]
  consider (far) "idx + nb > lc" | (later) j where "idx + nb \<le> lc" "skip idx = Some j"
    | (more) "idx + nb \<le> lc" "skip idx = None" "1 < nb" | (one) "idx + nb \<le> lc" "skip idx = None" "nb = 1"
    using assms(1) by (cases "idx + nb > lc"; cases "skip idx"; cases "nb = 1") (auto simp: not_less)
  then show ?thesis
  proof cases
    case far
    then have "\<forall>s. \<not> fits ok nb p lc s" using before by (metis add_le_mono1 fits_def le_trans not_le)
    then show ?thesis using step assms(2) t far fits_none by simp
  next
    case later
    then have "idx < j" "\<forall>s < j. \<not> fits ok nb p lc s" using move[OF later(2)] before by (auto simp: fits_def)
    with IH[of j None count] assms(2) step t later show ?thesis by (simp add: searching_def)
  next
    case more
    have "searching nb p lc (idx + 1) (Some idx) 1"
      using before stay[OF more(2)] more t(2) by (auto simp: searching_def less_Suc_eq_le)
    with IH[of "idx + 1" "Some idx" 1] assms(2) step t more show ?thesis by simp
  next
    case one
    then have "fits ok nb p lc idx" using stay[OF one(2)] t(2) by (simp add: fits_def)
    with fits_first[OF this before assms(1)] assms(2) step t one show ?thesis by simp
  qed
qed

lemma search_chunks_first_fit:
  assumes "bitmap_ok p lc" "lc \<le> 8 * wd" "0 < nb" "searching nb p lc idx start count"
  shows "search_chunks wd skip nb p lc idx start count = Some (first_fit ok nb p lc)"
  using assms(4)
proof (induction "lc - idx" arbitrary: idx start count rule: less_induct)
  case less
  note inv = less.prems
  show ?case
  proof (cases "idx < lc")
    case False
    then have "start = None" using inv by (auto simp: searching_def split: option.splits)
    moreover have "\<forall>s. \<not> fits ok nb p lc s" using inv False assms(3) \<open>start = None\<close> by (auto simp: searching_def fits_def)
    ultimately show ?thesis using False fits_none by (subst search_chunks.simps) simp
  next
    case True
    have "idx < 8 * length p" using True assms(1) by (simp add: bitmap_ok_def)
    then have t: "test_bit p (idx div 8 mod wd) (idx mod 8) = Some (chunk_free p idx)"
      using byte_index[OF True assms(2)] by (simp add: test_bit_free)
    have IH: "search_chunks wd skip nb p lc j st c = Some (first_fit ok nb p lc)" if "idx < j" "searching nb p lc j st c" for j st c
      using less.hyps that True by simp
    consider (busy) "\<not> chunk_free p idx" | (start) "chunk_free p idx" "start = None" | (run) s0 where "chunk_free p idx" "start = Some s0" by auto
    then show ?thesis
    proof cases
      case busy
      then show ?thesis using search_busy[OF assms(1,3) True inv] t IH by simp
    next
      case start
      then show ?thesis using search_start[OF assms(3) True] inv t IH by simp
    next
      case run
      have s0: "\<forall>s < s0. \<not> fits ok nb p lc s" "ok s0" "s0 + nb \<le> lc" "idx = s0 + count" "count < nb" "\<forall>k \<in> {s0..<idx}. chunk_free p k"
        using inv run by (auto simp: searching_def)
      note step = search_chunks.simps[of wd skip nb p lc idx start count]
      show ?thesis
      proof (cases "count + 1 < nb")
        case more: True
        have "searching nb p lc (idx + 1) (Some s0) (count + 1)" using s0 run more by (auto simp: searching_def less_Suc_eq)
        with IH[of "idx + 1" "Some s0" "count + 1"] True step t run more show ?thesis by simp
      next
        case False
        have "{s0..<s0 + nb} = insert idx {s0..<idx}" using s0(4,5) False by auto
        then have "fits ok nb p lc s0" using s0 run by (auto simp: fits_def list_all_iff)
        with fits_first[OF this s0(1) assms(3)] True step t run False show ?thesis by simp
      qed
    qed
  qed
qed

end

section \<open>Changing bits\<close>

lemma chunk_free_update:
  assumes "k < 8 * length p" "j < 8 * length p"
  shows "chunk_free (p[k div 8 := p ! (k div 8) AND NOT (push_bit (k mod 8) 1)]) j \<longleftrightarrow> chunk_free p j \<and> j \<noteq> k"
    and "chunk_free (p[k div 8 := p ! (k div 8) OR push_bit (k mod 8) 1]) j \<longleftrightarrow> chunk_free p j \<or> j = k"
proof -
  have len: "k div 8 < length p" "j div 8 < length p" using assms by auto
  have eq: "j = k \<longleftrightarrow> j div 8 = k div 8 \<and> j mod 8 = k mod 8" by (metis mod_mult_div_eq)
  have m: "j mod 8 < LENGTH(8)" "k mod 8 < LENGTH(8)" by simp_all
  show "chunk_free (p[k div 8 := p ! (k div 8) AND NOT (push_bit (k mod 8) 1)]) j \<longleftrightarrow> chunk_free p j \<and> j \<noteq> k"
    "chunk_free (p[k div 8 := p ! (k div 8) OR push_bit (k mod 8) 1]) j \<longleftrightarrow> chunk_free p j \<or> j = k"
    unfolding chunk_free_def eq using len m by (cases "j div 8 = k div 8"; auto simp: bit_simps)+
qed

lemma lower_bit_eq: "k < 8 * length p \<Longrightarrow> lower_bit (k div 8) (k mod 8) p = Some (p[k div 8 := p ! (k div 8) AND NOT (push_bit (k mod 8) 1)])"
  by (simp add: lower_bit_def arr_simps)

lemma raise_bit_eq: "k < 8 * length p \<Longrightarrow> raise_bit (k div 8) (k mod 8) p = Some (p[k div 8 := p ! (k div 8) OR push_bit (k mod 8) 1])"
  by (simp add: raise_bit_def arr_simps)

text \<open>The chunks of \<open>K\<close> are taken, or given back.\<close>

definition bits_change :: "u8 list \<Rightarrow> u8 list \<Rightarrow> nat set \<Rightarrow> bool \<Rightarrow> bool" where
  "bits_change p p' K v \<longleftrightarrow> length p' = length p \<and> (\<forall>k < 8 * length p. chunk_free p' k = (if k \<in> K then v else chunk_free p k))"

lemma bits_change_fold:
  assumes step: "\<And>k q. k < 8 * length q \<Longrightarrow> \<exists>q'. f k q = Some q' \<and> bits_change q q' {k} v" and "s + n \<le> 8 * length p"
  shows "\<exists>p'. foldM f [s..<s + n] p = Some p' \<and> bits_change p p' {s..<s + n} v"
  using assms(2)
proof (induction n)
  case 0
  then show ?case by (simp add: bits_change_def)
next
  case (Suc n)
  then obtain q where q: "foldM f [s..<s + n] p = Some q" "bits_change p q {s..<s + n} v" by auto
  then have "s + n < 8 * length q" using Suc.prems by (simp add: bits_change_def)
  from step[OF this] obtain q' where "f (s + n) q = Some q'" "bits_change q q' {s + n} v" by auto
  with q show ?case by (auto simp: foldM_simps bits_change_def less_Suc_eq intro!: exI[of _ q'])
qed

lemma lower_bit_change: "k < 8 * length q \<Longrightarrow> \<exists>q'. lower_bit (k div 8) (k mod 8) q = Some q' \<and> bits_change q q' {k} False"
  by (auto simp: lower_bit_eq bits_change_def chunk_free_update simp del: push_bit_of_1)

lemma raise_bit_change: "k < 8 * length q \<Longrightarrow> \<exists>q'. raise_bit (k div 8) (k mod 8) q = Some q' \<and> bits_change q q' {k} True"
  by (auto simp: raise_bit_eq bits_change_def chunk_free_update simp del: push_bit_of_1)

lemma bitmap_ext: "length p = length q \<Longrightarrow> (\<And>k. k < 8 * length p \<Longrightarrow> chunk_free p k = chunk_free q k) \<Longrightarrow> p = q"
proof (rule nth_equalityI)
  fix i assume len: "length p = length q" and eq: "\<And>k. k < 8 * length p \<Longrightarrow> chunk_free p k = chunk_free q k" and i: "i < length p"
  have "bit (p ! i) b = bit (q ! i) b" if "b < 8" for b
    using eq[of "8 * i + b"] i that by (simp add: chunk_free_def)
  then show "p ! i = q ! i" by (auto intro: bit_word_eqI)
qed

lemma reserve_chunks_change:
  assumes "s + n \<le> 8 * length p" "s + n \<le> 8 * wd"
  shows "\<exists>p'. reserve_chunks wd s n p = Some p' \<and> bits_change p p' {s..<s + n} False"
proof -
  have "reserve_chunks wd s n p = foldM (\<lambda>k. lower_bit (k div 8) (k mod 8)) [s..<s + n] p"
    unfolding reserve_chunks_def by (rule foldM_cong) (use assms(2) byte_index[of _ "s + n" wd] in auto)
  then show ?thesis using bits_change_fold[OF lower_bit_change assms(1)] by simp
qed

text \<open>What an allocation gives.\<close>

definition allocated :: "u8 list \<Rightarrow> nat \<Rightarrow> nat option \<Rightarrow> (nat option \<times> u8 list) option \<Rightarrow> bool" where
  "allocated p n start r \<longleftrightarrow> (\<exists>p'. r = Some (start, p') \<and> bits_change p p' (case start of None \<Rightarrow> {} | Some s \<Rightarrow> {s..<s + n}) False)"

context run_start
begin

lemma allocate_first_fit:
  assumes "bitmap_ok p lc" "lc \<le> 8 * wd" "nb \<noteq> 0"
  shows "allocated p (unat nb) (first_fit ok (unat nb) p lc) (allocate wd skip nb p lc)"
proof -
  have nb: "0 < unat nb" using assms(3) by (simp add: unat_gt_0)
  have s: "search_chunks wd skip (unat nb) p lc 0 None 0 = Some (first_fit ok (unat nb) p lc)"
    by (rule search_chunks_first_fit[OF assms(1,2) nb]) (simp add: searching_def)
  show ?thesis
  proof (cases "first_fit ok (unat nb) p lc")
    case None
    then show ?thesis using s by (simp add: allocate_def allocated_def bits_change_def)
  next
    case (Some st)
    then have "st + unat nb \<le> lc" by (auto simp: first_fit_def find_upt_Some fits_def)
    then obtain p' where "reserve_chunks wd st (unat nb) p = Some p'" "bits_change p p' {st..<st + unat nb} False"
      using reserve_chunks_change[of st "unat nb" p wd] assms(1,2) by (auto simp: bitmap_ok_def)
    then show ?thesis using s Some by (simp add: allocate_def allocated_def)
  qed
qed

end

interpretation plain: run_start "\<lambda>_. None" "\<lambda>_. True"
  by unfold_locales auto

lemma and_not_mask_int: "x AND NOT (2 ^ a - 1) = x div 2 ^ a * 2 ^ a" for x :: int
proof -
  have "x AND NOT (2 ^ a - 1) = push_bit a (drop_bit a x)"
    by (rule bit_eqI) (auto simp: bit_simps simp flip: mask_eq_exp_minus_1)
  then show ?thesis by (simp add: push_bit_eq_mult drop_bit_eq_div)
qed

text \<open>An array of chunks in memory.\<close>

definition MDIRENTS_CACHE_NB_CHUNK_PER_CHUNK_ARRAY :: nat where "MDIRENTS_CACHE_NB_CHUNK_PER_CHUNK_ARRAY = 32"

text \<open>The test of the code: the chunk behind the run is in the same array, so that the run leaves out the last chunk of the array.\<close>

definition same_array :: "u8 \<Rightarrow> nat \<Rightarrow> bool" where
  "same_array nb s \<longleftrightarrow> s div MDIRENTS_CACHE_NB_CHUNK_PER_CHUNK_ARRAY = (s + unat nb) div MDIRENTS_CACHE_NB_CHUNK_PER_CHUNK_ARRAY"

lemma skip_array_32: "skip_array 32 nb i = (if same_array nb i then None else Some ((i + unat nb) div 32 * 32))"
proof -
  have m: "uint (32 :: u32) - 1 = 2 ^ 5 - 1" by simp
  have n: "int i + uint nb = int (i + unat nb)" by simp
  have f: "int j AND NOT (2 ^ 5 - 1) = int (j div 32 * 32)" for j unfolding and_not_mask_int by (simp add: zdiv_int)
  show ?thesis unfolding skip_array_def Let_def m n f same_array_def MDIRENTS_CACHE_NB_CHUNK_PER_CHUNK_ARRAY_def by auto
qed

interpretation aligned: run_start "skip_array 32 nb" "same_array nb" for nb
proof
  fix i j
  show "skip_array 32 nb i = None \<Longrightarrow> same_array nb i" by (simp add: skip_array_32 split: if_splits)
  assume "skip_array 32 nb i = Some j"
  then have j: "i div 32 \<noteq> (i + unat nb) div 32" "j = (i + unat nb) div 32 * 32"
    by (auto simp: skip_array_32 same_array_def MDIRENTS_CACHE_NB_CHUNK_PER_CHUNK_ARRAY_def split: if_splits)
  have "i div 32 \<le> (i + unat nb) div 32" by (simp add: div_le_mono)
  with j have d: "i div 32 < (i + unat nb) div 32" by simp
  then have "i < j" unfolding j(2) by (metis div_less_iff_less_mult zero_less_numeral)
  moreover have "\<not> same_array nb s" if "s \<in> {i..<j}" for s
  proof -
    have "s div 32 < j div 32" using that j(2) by (metis atLeastLessThan_iff div_less_iff_less_mult nonzero_mult_div_cancel_right zero_less_numeral zero_neq_numeral)
    moreover have "j div 32 \<le> (s + unat nb) div 32" using that j(2) by (simp add: div_le_mono)
    ultimately show ?thesis by (simp add: same_array_def MDIRENTS_CACHE_NB_CHUNK_PER_CHUNK_ARRAY_def)
  qed
  ultimately show "i < j \<and> (\<forall>s \<in> {i..<j}. \<not> same_array nb s)" by blast
qed


lemma release_chunks_change:
  assumes "s + unat nb \<le> lc" "lc \<le> 8 * length p"
  shows "\<exists>p'. dirent_release_chunks s nb p lc = Some (True, p') \<and> bits_change p p' {s..<s + unat nb} True"
  using bits_change_fold[OF raise_bit_change, of s "unat nb" p] assms by (auto simp: dirent_release_chunks_def)

text \<open>A test of whole bytes.\<close>

lemma byte_empty: "i < length p \<Longrightarrow> p ! i = 0xff \<longleftrightarrow> (\<forall>k \<in> {8 * i..<8 * i + 8}. chunk_free p k)"
proof -
  have f: "(0xff :: u8) = NOT 0" by simp
  have "p ! i = 0xff \<longleftrightarrow> (\<forall>b < 8. bit (p ! i) b)" unfolding f by (auto simp: bit_eq_iff bit_simps)
  also have "\<dots> \<longleftrightarrow> (\<forall>b < 8. chunk_free p (8 * i + b))" by (simp add: chunk_free_def)
  also have "\<dots> \<longleftrightarrow> (\<forall>k \<in> {8 * i..<8 * i + 8}. chunk_free p k)"
    by (metis add_diff_inverse_nat atLeastLessThan_iff le_add1 nat_add_left_cancel_less not_le)
  finally show ?thesis .
qed

lemma all_empty_eq: "\<forall>i \<in> set is. i < length p \<Longrightarrow> all_empty is p = Some (\<forall>i \<in> set is. \<forall>k \<in> {8 * i..<8 * i + 8}. chunk_free p k)"
  by (induction "is") (auto simp: arr_get_in byte_empty)

lemma find_upt_skip:
  "i \<le> j \<Longrightarrow> (\<And>k. i \<le> k \<Longrightarrow> k < j \<Longrightarrow> k < n \<Longrightarrow> \<not> P k) \<Longrightarrow> List.find P [i..<n] = List.find P [j..<n]"
proof (induction j)
  case (Suc j)
  show ?case
  proof (cases "i = Suc j")
    case False
    with Suc have "List.find P [i..<n] = List.find P [j..<n]" by simp
    also have "\<dots> = List.find P [Suc j..<n]" using Suc.prems False by (cases "j < n") (simp_all add: upt_conv_Cons)
    finally show ?thesis .
  qed simp
qed simp

lemma find_upt_from: "List.find P [i..<n] = Some k \<longleftrightarrow> i \<le> k \<and> k < n \<and> P k \<and> (\<forall>j. i \<le> j \<and> j < k \<longrightarrow> \<not> P j)"
proof
  assume "List.find P [i..<n] = Some k"
  then obtain m where m: "m < n - i" "P (i + m)" "k = i + m" "\<forall>j < m. \<not> P (i + j)" by (auto simp: find_Some_iff)
  have "\<not> P j" if "i \<le> j" "j < k" for j using m(3,4) that by (metis add_diff_inverse_nat nat_add_left_cancel_less not_le)
  with m show "i \<le> k \<and> k < n \<and> P k \<and> (\<forall>j. i \<le> j \<and> j < k \<longrightarrow> \<not> P j)" by auto
next
  assume "i \<le> k \<and> k < n \<and> P k \<and> (\<forall>j. i \<le> j \<and> j < k \<longrightarrow> \<not> P j)"
  then show "List.find P [i..<n] = Some k" by (auto simp: find_Some_iff intro!: exI[of _ "k - i"])
qed

lemma getnext_chunk_find:
  assumes "bitmap_ok p lc" "lc \<le> 2048"
  shows "dirent_getnext_chunk i p lc v = Some (List.find (\<lambda>k. chunk_free p k = v) [i..<lc])"
proof (induction "lc - i" arbitrary: i rule: less_induct)
  case less
  show ?case
  proof (cases "i < lc")
    case False
    then show ?thesis by (subst dirent_getnext_chunk.simps) simp
  next
    case True
    have t: "test_bit p (i div 8 mod 256) (i mod 8) = Some (chunk_free p i)"
      using byte_index[OF True, of 256] True assms by (simp add: test_bit_free bitmap_ok_def)
    have go: "dirent_getnext_chunk j p lc v = Some (List.find (\<lambda>k. chunk_free p k = v) [i..<lc])"
      if "i < j" "\<forall>k \<in> {i..<j}. chunk_free p k = (\<not> v)" for j
      using less[of j] find_upt_skip[of i j lc "\<lambda>k. chunk_free p k = v"] that True by simp
    show ?thesis
    proof (cases "chunk_free p i = v")
      case True
      then show ?thesis using t \<open>i < lc\<close> by (subst dirent_getnext_chunk.simps) (simp add: upt_conv_Cons)
    next
      case other: False
      show ?thesis
      proof (cases "i mod 8 = 0")
        case aligned: True
        obtain r where r: "check_bytes_val p i lc (\<not> v) = Some r" "case r of None \<Rightarrow> \<forall>k \<in> {i..<lc}. chunk_free p k = (\<not> v)
           | Some n \<Rightarrow> i \<le> n \<and> n < 8 * length p \<and> (\<forall>k \<in> {i..<n}. chunk_free p k = (\<not> v))"
          using check_bytes_val_spec[OF assms(1), of i "\<not> v"] aligned by auto
        show ?thesis
        proof (cases r)
          case None
          then have "List.find (\<lambda>k. chunk_free p k = v) [i..<lc] = None" using r(2) by (auto simp: find_None_iff)
          then show ?thesis using t True other aligned r(1) None by (subst dirent_getnext_chunk.simps) simp
        next
          case (Some n)
          let ?j = "if n = i then i + 1 else n"
          have "i < ?j" "\<forall>k \<in> {i..<?j}. chunk_free p k = (\<not> v)" using r(2) Some other by (auto simp: less_Suc_eq_le)
          from go[OF this] show ?thesis using t True other aligned r(1) Some by (subst dirent_getnext_chunk.simps) simp
        qed
      next
        case False
        with go[of "i + 1"] t True other show ?thesis by (subst dirent_getnext_chunk.simps) (simp add: less_Suc_eq_le)
      qed
    qed
  qed
qed

section \<open>Results\<close>

text \<open>A run of free chunks at \<open>s\<close>, and whether it ends before the last chunk of the array in which it starts.\<close>

definition free_run :: "nat \<Rightarrow> u8 list \<Rightarrow> nat \<Rightarrow> nat \<Rightarrow> bool" where
  "free_run nb p last_chunk s \<longleftrightarrow> s + nb \<le> last_chunk \<and> (\<forall>k \<in> {s..<s + nb}. chunk_free p k)"

definition ends_before_last :: "nat \<Rightarrow> nat \<Rightarrow> bool" where
  "ends_before_last nb s \<longleftrightarrow> s mod MDIRENTS_CACHE_NB_CHUNK_PER_CHUNK_ARRAY + nb < MDIRENTS_CACHE_NB_CHUNK_PER_CHUNK_ARRAY"

lemma same_array_ends: "same_array nb s \<longleftrightarrow> ends_before_last (unat nb) s"
proof -
  have "(s + n) div 32 = s div 32 + (s mod 32 + n) div 32" for n :: nat
  proof -
    have "s + n = (s mod 32 + n) + s div 32 * 32" using div_mult_mod_eq[of s 32] by linarith
    then have "(s + n) div 32 = ((s mod 32 + n) + s div 32 * 32) div 32" by (rule arg_cong)
    then show ?thesis by (simp only: div_mult_self1 zero_neq_numeral not_False_eq_True simp_thms)
  qed
  then show ?thesis by (auto simp: same_array_def ends_before_last_def MDIRENTS_CACHE_NB_CHUNK_PER_CHUNK_ARRAY_def div_eq_0_iff)
qed

lemma fits_array: "fits (same_array nb) (unat nb) p last_chunk s \<longleftrightarrow> ends_before_last (unat nb) s \<and> free_run (unat nb) p last_chunk s"
  by (auto simp: fits_def same_array_ends free_run_def list_all_iff)

lemma aligned_allocation:
  assumes "bitmap_ok p last_chunk" "last_chunk \<le> 524288" "nb_chunks \<noteq> 0"
  shows "allocated p (unat nb_chunks) (first_fit (same_array nb_chunks) (unat nb_chunks) p last_chunk) (dirent_allocate_chunks_with_alignment nb_chunks 32 p last_chunk)"
  using aligned.allocate_first_fit[OF assms(1) _ assms(3), of 65536] assms(2) by (simp add: dirent_allocate_chunks_with_alignment_def)

lemma no_first_fit:
  assumes "nb_chunks \<noteq> 0" "first_fit (same_array nb_chunks) (unat nb_chunks) p last_chunk = None"
  shows "\<not> (ends_before_last (unat nb_chunks) s \<and> free_run (unat nb_chunks) p last_chunk s)"
proof
  assume r: "ends_before_last (unat nb_chunks) s \<and> free_run (unat nb_chunks) p last_chunk s"
  have "0 < unat nb_chunks" using assms(1) by (simp add: unat_gt_0)
  then have "s < last_chunk" using r by (simp add: free_run_def)
  then show False using assms(2) r by (auto simp: first_fit_def find_upt_None fits_array)
qed

text \<open>
  C24. The allocation of chunks for a name returns the first run of free chunks that lies in one array and leaves out the last chunk of the array, and fails only when there is none. The chunks of the run
  are taken, no other chunk changes, and their release gives the bitmap back. (A run that ends with the last chunk of an array is not considered, although it lies in one array.)
\<close>

theorem name_chunks_allocated:
  assumes "bitmap_ok p last_chunk" "last_chunk \<le> 524288" "nb_chunks \<noteq> 0"
  shows "\<exists>r p'. dirent_allocate_chunks_with_alignment nb_chunks 32 p last_chunk = Some (r, p') \<and> length p' = length p
     \<and> (case r of None \<Rightarrow> p' = p \<and> (\<forall>s. \<not> (ends_before_last (unat nb_chunks) s \<and> free_run (unat nb_chunks) p last_chunk s))
        | Some s \<Rightarrow> ends_before_last (unat nb_chunks) s \<and> free_run (unat nb_chunks) p last_chunk s
            \<and> (\<forall>s' < s. \<not> (ends_before_last (unat nb_chunks) s' \<and> free_run (unat nb_chunks) p last_chunk s'))
            \<and> (\<forall>k < 8 * length p. chunk_free p' k \<longleftrightarrow> chunk_free p k \<and> \<not> (s \<le> k \<and> k < s + unat nb_chunks))
            \<and> dirent_release_chunks s nb_chunks p' last_chunk = Some (True, p))"
proof (cases "first_fit (same_array nb_chunks) (unat nb_chunks) p last_chunk")
  case None
  obtain p' where p': "dirent_allocate_chunks_with_alignment nb_chunks 32 p last_chunk = Some (None, p')" "bits_change p p' {} False"
    using aligned_allocation[OF assms] None by (auto simp: allocated_def)
  then have "p' = p" using bitmap_ext[of _ p] by (auto simp: bits_change_def)
  then show ?thesis using p'(1) no_first_fit[OF assms(3) None] by auto
next
  case (Some s)
  then obtain p' where p': "dirent_allocate_chunks_with_alignment nb_chunks 32 p last_chunk = Some (Some s, p')"
    "bits_change p p' {s..<s + unat nb_chunks} False" using aligned_allocation[OF assms] by (auto simp: allocated_def)
  have f: "ends_before_last (unat nb_chunks) s" "free_run (unat nb_chunks) p last_chunk s"
    "\<forall>s' < s. \<not> (ends_before_last (unat nb_chunks) s' \<and> free_run (unat nb_chunks) p last_chunk s')"
    using Some by (auto simp: first_fit_def find_upt_Some fits_array)
  then obtain p'' where r: "dirent_release_chunks s nb_chunks p' last_chunk = Some (True, p'')" "bits_change p' p'' {s..<s + unat nb_chunks} True"
    using release_chunks_change[of s nb_chunks last_chunk p'] p'(2) assms(1) by (auto simp: bits_change_def bitmap_ok_def free_run_def)
  have "p'' = p" by (rule bitmap_ext) (use p'(2) r(2) f(2) in \<open>auto simp: bits_change_def free_run_def\<close>)
  then show ?thesis using f p' r(1) by (auto simp: bits_change_def)
qed

theorem name_chunks_allocated_witness:
  "\<exists>p'. dirent_allocate_chunks_with_alignment 3 32 [0, 0, 6, 0xF8, 0xFF, 0, 0, 0] 64 = Some (Some 27, p')
     \<and> dirent_release_chunks 27 3 p' 64 = Some (True, [0, 0, 6, 0xF8, 0xFF, 0, 0, 0])"
proof -
  let ?p = "[0, 0, 6, 0xF8, 0xFF, 0, 0, 0] :: u8 list"
  let ?run = "\<lambda>s. ends_before_last (unat (3 :: u8)) s \<and> free_run (unat (3 :: u8)) ?p 64 s"
  have b: "bitmap_ok ?p 64" and none: "list_all (\<lambda>s. \<not> ?run s) [0..<27]" and run: "?run 27" by code_simp+
  have before: "\<not> ?run s" if "s < 27" for s using none that unfolding list_all_iff by (metis atLeast0LessThan lessThan_iff set_upt)
  have "(64 :: nat) \<le> 524288" "(3 :: u8) \<noteq> 0" by simp_all
  from name_chunks_allocated[OF b this] show ?thesis
  proof (elim exE conjE)
    fix r p' assume a: "dirent_allocate_chunks_with_alignment 3 32 ?p 64 = Some (r, p')"
      and c: "case r of None \<Rightarrow> p' = ?p \<and> (\<forall>s. \<not> ?run s)
        | Some s \<Rightarrow> ends_before_last (unat (3 :: u8)) s \<and> free_run (unat (3 :: u8)) ?p 64 s \<and> (\<forall>s' < s. \<not> ?run s')
            \<and> (\<forall>k < 8 * length ?p. chunk_free p' k \<longleftrightarrow> chunk_free ?p k \<and> \<not> (s \<le> k \<and> k < s + unat (3 :: u8))) \<and> dirent_release_chunks s 3 p' 64 = Some (True, ?p)"
    show ?thesis
    proof (cases r)
      case None
      then show ?thesis using c[unfolded None option.case] run by blast
    next
      case (Some s)
      note d = c[unfolded Some option.case]
      have "s = 27" using d before[of s] run by (metis (no_types, lifting) linorder_neqE_nat)
      then show ?thesis using a Some d by blast
    qed
  qed
qed

text \<open>
  The last chunk of an array is lost. When the only free chunks are the last ones of an array, an allocation of as many chunks fails, although they are a free run in one array: the test of the code looks at the
  array of the chunk behind the run.
\<close>

theorem last_chunks_refused:
  assumes "bitmap_ok p last_chunk" "last_chunk \<le> 524288" "nb_chunks \<noteq> 0" "32 * i + 32 \<le> last_chunk" "unat nb_chunks \<le> 32"
    and "\<And>k. k < last_chunk \<Longrightarrow> chunk_free p k \<longleftrightarrow> 32 * i + 32 - unat nb_chunks \<le> k \<and> k < 32 * i + 32"
  shows "free_run (unat nb_chunks) p last_chunk (32 * i + 32 - unat nb_chunks) \<and> (32 * i + 32 - unat nb_chunks) div 32 = (32 * i + 31) div 32
    \<and> dirent_allocate_chunks_with_alignment nb_chunks 32 p last_chunk = Some (None, p)"
proof -
  let ?n = "unat nb_chunks" and ?s = "32 * i + 32 - unat nb_chunks"
  have n: "0 < ?n" using assms(3) by (simp add: unat_gt_0)
  have "\<not> (ends_before_last ?n s \<and> free_run ?n p last_chunk s)" for s
  proof
    assume r: "ends_before_last ?n s \<and> free_run ?n p last_chunk s"
    then have e: "s + ?n \<le> last_chunk" "\<And>k. s \<le> k \<Longrightarrow> k < s + ?n \<Longrightarrow> chunk_free p k" by (auto simp: free_run_def)
    have "chunk_free p s" "chunk_free p (s + ?n - 1)" using e(2)[of s] e(2)[of "s + ?n - 1"] n by auto
    then have "?s \<le> s" "s + ?n - 1 < 32 * i + 32" using assms(6)[of s] assms(6)[of "s + ?n - 1"] e(1) n by auto
    then have "s = ?s" using n assms(5) by linarith
    then have "s + ?n = 32 * (i + 1)" using assms(5) by simp
    moreover have "s mod 32 + ?n < 32" using r by (simp add: ends_before_last_def MDIRENTS_CACHE_NB_CHUNK_PER_CHUNK_ARRAY_def)
    then have "(s + ?n) mod 32 = s mod 32 + ?n" by (metis mod_add_left_eq mod_less)
    ultimately show False using n by simp
  qed
  then have "first_fit (same_array nb_chunks) ?n p last_chunk = None" by (simp add: first_fit_def find_upt_None fits_array)
  then obtain p' where p': "dirent_allocate_chunks_with_alignment nb_chunks 32 p last_chunk = Some (None, p')" "bits_change p p' {} False"
    using aligned_allocation[OF assms(1-3)] by (auto simp: allocated_def)
  then have "p' = p" using bitmap_ext[of _ p] by (auto simp: bits_change_def)
  moreover have "free_run ?n p last_chunk ?s" using assms(4-6) by (auto simp: free_run_def)
  moreover have "?s = (32 - ?n) + i * 32" using assms(5) by simp
  then have "?s div 32 = i" using n by (simp only: div_mult_self1 zero_neq_numeral not_False_eq_True)
  then have "?s div 32 = (32 * i + 31) div 32" by simp
  ultimately show ?thesis using p'(1) by simp
qed

theorem last_chunks_refused_witness:
  "dirent_allocate_chunks_with_alignment 2 32 [0, 0, 0, 0xC0, 0, 0, 0, 0] 64 = Some (None, [0, 0, 0, 0xC0, 0, 0, 0, 0])"
proof -
  let ?p = "[0, 0, 0, 0xC0, 0, 0, 0, 0] :: u8 list"
  have "bitmap_ok ?p 64" by code_simp
  moreover have "list_all (\<lambda>k. chunk_free ?p k \<longleftrightarrow> 30 \<le> k \<and> k < 32) [0..<64]" by code_simp
  ultimately show ?thesis using last_chunks_refused[of ?p 64 2 0] by (auto simp: list_all_iff)
qed

text \<open>
  C26. The search for the next free or used chunk, which skips up to 64 chunks at a time, returns what a search bit by bit returns, and reads nothing outside the bitmap.
\<close>

theorem getnext_chunk_exact:
  assumes "bitmap_ok p last_chunk" "last_chunk \<le> 2048"
  shows "dirent_getnext_chunk first_chunk p last_chunk val = Some (List.find (\<lambda>k. chunk_free p k = val) [first_chunk..<last_chunk])"
  using assms by (rule getnext_chunk_find)

theorem getnext_chunk_exact_witness:
  "dirent_getnext_chunk 0 (replicate 8 0 @ [8] @ replicate 7 0) 72 True = Some (Some 67)"
proof -
  have "bitmap_ok (replicate 8 0 @ [8] @ replicate 7 0) 72" by code_simp
  moreover have "List.find (\<lambda>k. chunk_free (replicate 8 0 @ [8] @ replicate 7 0) k = True) [0..<72] = Some 67" by code_simp
  ultimately show ?thesis using getnext_chunk_exact[of "replicate 8 0 @ [8] @ replicate 7 0" 72 0 True] by simp
qed



end
