(* ===== verification/Dirent_Bucket.thy ===== *)
theory Dirent_Bucket
  imports Dirent_Bitmap Contract
begin

text \<open>
  The cache of the root directory files of the export daemon (\<^verbatim>\<open>src/exportd/dirent_file.c\<close>): a hash table of buckets, each with a bitmap of its free slots and arrays of 32
  slots that are allocated when they are needed. A slot holds the hash of a key and a pointer to the entry, which holds the key. The entries are linked in a list of the cache and a list of their bucket, the last used first; a
  list is the sequence of its entries. A pointer is a number, and 0 is the null pointer; the memory gives the key of an allocated entry. The comparison of two identifiers, \<^verbatim>\<open>uuid_compare\<close>, is
  a function of \<^verbatim>\<open>libuuid\<close> and an argument of the model. Counters are left out.
\<close>

section \<open>Model\<close>

type_synonym uuid = "u8 list"
type_synonym key = "uuid \<times> u16"
type_synonym entry_mem = "nat \<Rightarrow> (uuid \<times> u32) option"

definition DIRENT_BUCKET_MAX_COLLISIONS :: nat where "DIRENT_BUCKET_MAX_COLLISIONS = 256"
definition DIRENT_BUCKET_NB_ENTRY_PER_ARRAY :: nat where "DIRENT_BUCKET_NB_ENTRY_PER_ARRAY = 32"
definition DIRENT_BUCKET_MAX_ROOT_DIRENT :: u32 where "DIRENT_BUCKET_MAX_ROOT_DIRENT = 256000"

lemmas bucket_sizes = DIRENT_BUCKET_MAX_COLLISIONS_def DIRENT_BUCKET_NB_ENTRY_PER_ARRAY_def

record dirent_cache_bucket_entry_t =
  hash_value_table :: "u16 list"
  entry_ptr_table :: "nat list"

record dirent_cache_bucket_t =
  bucket_lru_link :: "nat list"
  bucket_free_bitmap :: "u8 list"
  entry_tb :: "dirent_cache_bucket_entry_t option list"

record dirent_cache_main_t =
  dc_max :: u32
  dc_size :: u32
  global_lru_link :: "nat list"
  dc_htable :: "u16 \<Rightarrow> dirent_cache_bucket_t"
  dc_mem :: entry_mem

definition dirent_cache_bucket_hash_fnv :: "u32 \<Rightarrow> uuid \<Rightarrow> u16 \<Rightarrow> u32" where
  "dirent_cache_bucket_hash_fnv h key1 key2 =
     foldl (\<lambda>h d. (h * 16777619) XOR ucast d) (if h = 0 then 2166136261 else h) (key1 @ [ucast key2, ucast (drop_bit 8 key2)])"

definition hash_bucket :: "uuid \<Rightarrow> u16 \<Rightarrow> u16" where
  "hash_bucket fid index = (let h = dirent_cache_bucket_hash_fnv 0 fid index in ucast (drop_bit 16 h XOR (h AND 0xffff)))"

definition hash_bucket_entry :: "uuid \<Rightarrow> u16 \<Rightarrow> u16" where
  "hash_bucket_entry fid index = ucast (dirent_cache_bucket_hash_fnv 0 fid index AND 0xffff)"

definition dirent_cache_level0_initialize :: dirent_cache_main_t where
  "dirent_cache_level0_initialize = \<lparr>dc_max = DIRENT_BUCKET_MAX_ROOT_DIRENT, dc_size = 0, global_lru_link = [],
     dc_htable = (\<lambda>_. \<lparr>bucket_lru_link = [], bucket_free_bitmap = replicate 32 0xff, entry_tb = replicate 8 None\<rparr>), dc_mem = (\<lambda>_. None)\<rparr>"

text \<open>The loop to the next slot that is free (\<open>v\<close>) or busy.\<close>

partial_function (option) next_slot :: "u8 list \<Rightarrow> bool \<Rightarrow> nat \<Rightarrow> nat option option" where
  "next_slot bitmap v coll_idx =
     (if coll_idx < DIRENT_BUCKET_MAX_COLLISIONS then do {
        r \<leftarrow> (if coll_idx mod 8 = 0 then check_bytes_val bitmap coll_idx DIRENT_BUCKET_MAX_COLLISIONS (\<not> v) else Some (Some coll_idx));
        case r of None \<Rightarrow> Some None
        | Some coll_idx \<Rightarrow> do {
            b \<leftarrow> test_bit bitmap (coll_idx div 8 mod 256) (coll_idx mod 8);
            if b = v then Some (Some coll_idx) else next_slot bitmap v (coll_idx + 1) } }
      else Some None)"

text \<open>Whether a busy slot is the one of a key; \<open>Some None\<close> when its array is missing.\<close>

definition slot_matches :: "(uuid \<Rightarrow> uuid \<Rightarrow> int) \<Rightarrow> entry_mem \<Rightarrow> dirent_cache_bucket_t \<Rightarrow> uuid \<Rightarrow> u16 \<Rightarrow> nat \<Rightarrow> bool option option" where
  "slot_matches uuid_compare mem bucket fid index coll_idx = do {
     a \<leftarrow> arr_get (entry_tb bucket) (int (coll_idx div DIRENT_BUCKET_NB_ENTRY_PER_ARRAY));
     case a of None \<Rightarrow> Some None
     | Some e \<Rightarrow> do {
         let local_idx = coll_idx mod DIRENT_BUCKET_NB_ENTRY_PER_ARRAY;
         h \<leftarrow> arr_get (hash_value_table e) (int local_idx);
         if h \<noteq> hash_bucket_entry fid index then Some (Some False)
         else do {
           ptr \<leftarrow> arr_get (entry_ptr_table e) (int local_idx);
           (dir_fid, dirent_root_idx) \<leftarrow> mem ptr;
           Some (Some (dirent_root_idx = ucast index \<and> uuid_compare fid dir_fid = 0)) } } }"

text \<open>The loop of the search and of the removal; \<open>Some None\<close> when no slot is found, or an array is missing.\<close>

partial_function (option) find_slot :: "(nat \<Rightarrow> bool option option) \<Rightarrow> u8 list \<Rightarrow> nat \<Rightarrow> nat option option" where
  "find_slot matches bitmap coll_idx = do {
     r \<leftarrow> next_slot bitmap False coll_idx;
     case r of None \<Rightarrow> Some None
     | Some coll_idx \<Rightarrow> do {
         m \<leftarrow> matches coll_idx;
         case m of None \<Rightarrow> Some None
         | Some found \<Rightarrow> if found then Some (Some coll_idx) else find_slot matches bitmap (coll_idx + 1) } }"

definition lookup_slot :: "(uuid \<Rightarrow> uuid \<Rightarrow> int) \<Rightarrow> uuid \<Rightarrow> u16 \<Rightarrow> dirent_cache_main_t \<Rightarrow> nat option option" where
  "lookup_slot uuid_compare fid index cache = (let bucket = dc_htable cache (hash_bucket fid index) in
     find_slot (slot_matches uuid_compare (dc_mem cache) bucket fid index) (bucket_free_bitmap bucket) 0)"

definition slot_entry :: "dirent_cache_bucket_t \<Rightarrow> nat \<Rightarrow> dirent_cache_bucket_entry_t option" where
  "slot_entry bucket coll_idx = do { a \<leftarrow> arr_get (entry_tb bucket) (int (coll_idx div DIRENT_BUCKET_NB_ENTRY_PER_ARRAY)); a }"

definition dirent_cache_bucket_search_entry :: "(uuid \<Rightarrow> uuid \<Rightarrow> int) \<Rightarrow> uuid \<Rightarrow> u16 \<Rightarrow> dirent_cache_main_t \<Rightarrow> (nat \<times> dirent_cache_main_t) option" where
  "dirent_cache_bucket_search_entry uuid_compare fid index cache = do {
     r \<leftarrow> lookup_slot uuid_compare fid index cache;
     case r of None \<Rightarrow> Some (0, cache)
     | Some coll_idx \<Rightarrow> do {
         let hb = hash_bucket fid index; let bucket = dc_htable cache hb;
         e \<leftarrow> slot_entry bucket coll_idx;
         ptr \<leftarrow> arr_get (entry_ptr_table e) (int (coll_idx mod DIRENT_BUCKET_NB_ENTRY_PER_ARRAY));
         Some (ptr, cache\<lparr>global_lru_link := ptr # remove1 ptr (global_lru_link cache),
           dc_htable := (dc_htable cache)(hb := bucket\<lparr>bucket_lru_link := ptr # remove1 ptr (bucket_lru_link bucket)\<rparr>)\<rparr>) } }"

text \<open>
  The array of a slot is freed when four bytes of the bitmap are all free. They start at the number of the array, and not at its first slot.
\<close>

definition release_req :: "u8 list \<Rightarrow> nat \<Rightarrow> bool option" where
  "release_req bitmap bucket_entry_array_idx = all_empty [bucket_entry_array_idx..<bucket_entry_array_idx + DIRENT_BUCKET_NB_ENTRY_PER_ARRAY div 8] bitmap"

definition clear_slot :: "nat \<Rightarrow> dirent_cache_bucket_t \<Rightarrow> dirent_cache_bucket_t option" where
  "clear_slot coll_idx bucket = do {
     let a = coll_idx div DIRENT_BUCKET_NB_ENTRY_PER_ARRAY;
     e \<leftarrow> slot_entry bucket coll_idx;
     bitmap \<leftarrow> dirent_set_chunk_bit coll_idx (bucket_free_bitmap bucket);
     hashes \<leftarrow> arr_set (hash_value_table e) (int (coll_idx mod DIRENT_BUCKET_NB_ENTRY_PER_ARRAY)) 0;
     rel \<leftarrow> release_req bitmap a;
     tb \<leftarrow> arr_set (entry_tb bucket) (int a) (if rel then None else Some (e\<lparr>hash_value_table := hashes\<rparr>));
     Some (bucket\<lparr>bucket_free_bitmap := bitmap, entry_tb := tb\<rparr>) }"

definition dirent_cache_bucket_remove_entry :: "(uuid \<Rightarrow> uuid \<Rightarrow> int) \<Rightarrow> uuid \<Rightarrow> u16 \<Rightarrow> dirent_cache_main_t \<Rightarrow> (bool \<times> dirent_cache_main_t) option" where
  "dirent_cache_bucket_remove_entry uuid_compare fid index cache = do {
     r \<leftarrow> lookup_slot uuid_compare fid index cache;
     case r of None \<Rightarrow> Some (False, cache)
     | Some coll_idx \<Rightarrow> do {
         let hb = hash_bucket fid index; let bucket = dc_htable cache hb;
         e \<leftarrow> slot_entry bucket coll_idx;
         ptr \<leftarrow> arr_get (entry_ptr_table e) (int (coll_idx mod DIRENT_BUCKET_NB_ENTRY_PER_ARRAY));
         bucket' \<leftarrow> clear_slot coll_idx (bucket\<lparr>bucket_lru_link := remove1 ptr (bucket_lru_link bucket)\<rparr>);
         Some (True, cache\<lparr>global_lru_link := remove1 ptr (global_lru_link cache), dc_size := dc_size cache - 1,
           dc_htable := (dc_htable cache)(hb := bucket')\<rparr>) } }"

text \<open>The least recently used entry of a list is removed and its memory is released. An empty list has no last entry.\<close>

definition remove_lru :: "(uuid \<Rightarrow> uuid \<Rightarrow> int) \<Rightarrow> nat list \<Rightarrow> dirent_cache_main_t \<Rightarrow> (bool \<times> dirent_cache_main_t) option" where
  "remove_lru uuid_compare lru cache = (if lru = [] then None else do {
     (dir_fid, dirent_root_idx) \<leftarrow> dc_mem cache (last lru);
     (ok, cache) \<leftarrow> dirent_cache_bucket_remove_entry uuid_compare dir_fid (ucast dirent_root_idx) cache;
     Some (if ok then (True, cache\<lparr>dc_mem := (dc_mem cache)(last lru := None)\<rparr>) else (False, cache)) })"

text \<open>The slot is taken before its array is allocated; \<open>malloc_ok\<close> tells whether this succeeds.\<close>

definition fill_slot :: "bool \<Rightarrow> uuid \<Rightarrow> u16 \<Rightarrow> nat \<Rightarrow> nat \<Rightarrow> dirent_cache_bucket_t \<Rightarrow> (bool \<times> dirent_cache_bucket_t) option" where
  "fill_slot malloc_ok fid index entry coll_idx bucket = do {
     let a = coll_idx div DIRENT_BUCKET_NB_ENTRY_PER_ARRAY; let local_idx = coll_idx mod DIRENT_BUCKET_NB_ENTRY_PER_ARRAY;
     bitmap \<leftarrow> dirent_clear_chunk_bit coll_idx (bucket_free_bitmap bucket);
     let bucket = bucket\<lparr>bucket_free_bitmap := bitmap\<rparr>;
     t \<leftarrow> arr_get (entry_tb bucket) (int a);
     if t = None \<and> \<not> malloc_ok then Some (False, bucket)
     else do {
       let e = (case t of Some e \<Rightarrow> e | None \<Rightarrow>
             \<lparr>hash_value_table = replicate DIRENT_BUCKET_NB_ENTRY_PER_ARRAY 0, entry_ptr_table = replicate DIRENT_BUCKET_NB_ENTRY_PER_ARRAY 0\<rparr>);
       hashes \<leftarrow> arr_set (hash_value_table e) (int local_idx) (hash_bucket_entry fid index);
       ptrs \<leftarrow> arr_set (entry_ptr_table e) (int local_idx) entry;
       tb \<leftarrow> arr_set (entry_tb bucket) (int a) (Some \<lparr>hash_value_table = hashes, entry_ptr_table = ptrs\<rparr>);
       Some (True, bucket\<lparr>entry_tb := tb, bucket_lru_link := entry # bucket_lru_link bucket\<rparr>) } }"

partial_function (option) insert_in_bucket ::
  "(uuid \<Rightarrow> uuid \<Rightarrow> int) \<Rightarrow> bool \<Rightarrow> uuid \<Rightarrow> u16 \<Rightarrow> nat \<Rightarrow> dirent_cache_main_t \<Rightarrow> (bool \<times> dirent_cache_main_t) option" where
  "insert_in_bucket uuid_compare malloc_ok fid index entry cache = do {
     let hb = hash_bucket fid index; let bucket = dc_htable cache hb;
     r \<leftarrow> next_slot (bucket_free_bitmap bucket) True 0;
     case r of
       Some coll_idx \<Rightarrow> do {
         (ok, bucket) \<leftarrow> fill_slot malloc_ok fid index entry coll_idx bucket;
         let cache = cache\<lparr>dc_htable := (dc_htable cache)(hb := bucket)\<rparr>;
         Some (if ok then (True, cache\<lparr>global_lru_link := entry # global_lru_link cache, dc_size := dc_size cache + 1\<rparr>) else (False, cache)) }
     | None \<Rightarrow> do {
         (ok, cache) \<leftarrow> remove_lru uuid_compare (bucket_lru_link bucket) cache;
         if ok then insert_in_bucket uuid_compare malloc_ok fid index entry cache else Some (False, cache) } }"

definition dirent_cache_bucket_insert_entry ::
  "(uuid \<Rightarrow> uuid \<Rightarrow> int) \<Rightarrow> bool \<Rightarrow> uuid \<Rightarrow> u16 \<Rightarrow> nat \<Rightarrow> dirent_cache_main_t \<Rightarrow> (bool \<times> dirent_cache_main_t) option" where
  "dirent_cache_bucket_insert_entry uuid_compare malloc_ok fid index entry cache =
     (if dc_size cache \<ge> dc_max cache then do {
        (ok, cache) \<leftarrow> remove_lru uuid_compare (global_lru_link cache) cache;
        if ok then insert_in_bucket uuid_compare malloc_ok fid index entry cache else Some (False, cache) }
      else insert_in_bucket uuid_compare malloc_ok fid index entry cache)"


text \<open>The interface of the cache; \<open>enable\<close> is the flag \<^verbatim>\<open>dirent_bucket_cache_enable\<close>.\<close>

definition dirent_get_root_entry_from_cache :: "(uuid \<Rightarrow> uuid \<Rightarrow> int) \<Rightarrow> bool \<Rightarrow> uuid \<Rightarrow> int \<Rightarrow> dirent_cache_main_t \<Rightarrow> (nat \<times> dirent_cache_main_t) option" where
  "dirent_get_root_entry_from_cache uuid_compare enable fid root_idx cache =
     (if \<not> enable then Some (0, cache) else dirent_cache_bucket_search_entry uuid_compare fid (word_of_int root_idx) cache)"

definition dirent_remove_root_entry_from_cache :: "(uuid \<Rightarrow> uuid \<Rightarrow> int) \<Rightarrow> bool \<Rightarrow> uuid \<Rightarrow> int \<Rightarrow> dirent_cache_main_t \<Rightarrow> (bool \<times> dirent_cache_main_t) option" where
  "dirent_remove_root_entry_from_cache uuid_compare enable fid root_idx cache =
     (if \<not> enable then Some (True, cache) else dirent_cache_bucket_remove_entry uuid_compare fid (word_of_int root_idx) cache)"

definition dirent_put_root_entry_to_cache ::
  "(uuid \<Rightarrow> uuid \<Rightarrow> int) \<Rightarrow> bool \<Rightarrow> bool \<Rightarrow> uuid \<Rightarrow> int \<Rightarrow> nat \<Rightarrow> dirent_cache_main_t \<Rightarrow> (bool \<times> dirent_cache_main_t) option" where
  "dirent_put_root_entry_to_cache uuid_compare enable malloc_ok fid root_idx root_p cache =
     (if \<not> enable then Some (False, cache) else dirent_cache_bucket_insert_entry uuid_compare malloc_ok fid (word_of_int root_idx) root_p cache)"

text \<open>
  Its callers. A root file is looked for in the cache; when it is not there it is read into a new entry, at the next free address, and put into the cache. A root file that is deleted is removed from the cache and its entry
  is released.
\<close>

definition load_root :: "(uuid \<Rightarrow> uuid \<Rightarrow> int) \<Rightarrow> uuid \<Rightarrow> u16 \<Rightarrow> nat \<times> dirent_cache_main_t \<Rightarrow> (nat \<times> nat \<times> dirent_cache_main_t) option" where
  "load_root uuid_compare fid root_idx = (\<lambda>(n, cache). do {
     (ptr, cache) \<leftarrow> dirent_get_root_entry_from_cache uuid_compare True fid (uint root_idx) cache;
     if ptr \<noteq> 0 then Some (ptr, n, cache)
     else do {
       (_, cache) \<leftarrow> dirent_put_root_entry_to_cache uuid_compare True True fid (uint root_idx) n (cache\<lparr>dc_mem := (dc_mem cache)(n \<mapsto> (fid, ucast root_idx))\<rparr>);
       Some (n, n + 1, cache) } })"

definition drop_root :: "(uuid \<Rightarrow> uuid \<Rightarrow> int) \<Rightarrow> uuid \<Rightarrow> u16 \<Rightarrow> nat \<times> dirent_cache_main_t \<Rightarrow> (nat \<times> nat \<times> dirent_cache_main_t) option" where
  "drop_root uuid_compare fid root_idx = (\<lambda>(n, cache). do {
     (ptr, cache) \<leftarrow> dirent_get_root_entry_from_cache uuid_compare True fid (uint root_idx) cache;
     if ptr = 0 then Some (0, n, cache)
     else do {
       (ok, cache) \<leftarrow> dirent_remove_root_entry_from_cache uuid_compare True fid (uint root_idx) cache;
       Some (if ok then (ptr, n, cache\<lparr>dc_mem := (dc_mem cache)(ptr := None)\<rparr>) else (0, n, cache)) } })"

section \<open>Scanning a bucket\<close>

lemma next_slot_find:
  assumes "length p = 32"
  shows "next_slot p v i = Some (List.find (\<lambda>k. chunk_free p k = v) [i..<256])"
proof (induction "256 - i" arbitrary: i rule: less_induct)
  case less
  have ok: "bitmap_ok p 256" using assms by (simp add: bitmap_ok_def)
  show ?case
  proof (cases "i < 256")
    case False
    then show ?thesis by (subst next_slot.simps) (simp add: bucket_sizes)
  next
    case True
    let ?r = "if i mod 8 = 0 then check_bytes_val p i 256 (\<not> v) else Some (Some i)"
    obtain r where r: "?r = Some r" "case r of None \<Rightarrow> \<forall>k \<in> {i..<256}. chunk_free p k = (\<not> v)
       | Some n \<Rightarrow> i \<le> n \<and> n < 256 \<and> (\<forall>k \<in> {i..<n}. chunk_free p k = (\<not> v))"
      using check_bytes_val_spec[OF ok, of i "\<not> v"] True assms by (cases "i mod 8 = 0") (auto split: option.splits)
    have step: "next_slot p v i = do { r \<leftarrow> ?r; case r of None \<Rightarrow> Some None
        | Some j \<Rightarrow> do { b \<leftarrow> test_bit p (j div 8 mod 256) (j mod 8); if b = v then Some (Some j) else next_slot p v (j + 1) } }"
      by (subst next_slot.simps) (simp only: bucket_sizes if_True True)
    show ?thesis
    proof (cases r)
      case None
      then have "List.find (\<lambda>k. chunk_free p k = v) [i..<256] = None" using r(2) by (auto simp: find_None_iff)
      then show ?thesis unfolding step r(1) using None by simp
    next
      case (Some n)
      then have n: "i \<le> n" "n < 256" "\<forall>k \<in> {i..<n}. chunk_free p k = (\<not> v)" using r(2) by auto
      have t: "test_bit p (n div 8 mod 256) (n mod 8) = Some (chunk_free p n)"
        using byte_index[OF n(2), of 256] n(2) assms by (simp add: test_bit_free)
      have f: "List.find (\<lambda>k. chunk_free p k = v) [i..<256] = List.find (\<lambda>k. chunk_free p k = v) [n..<256]"
        by (rule find_upt_skip) (use n in auto)
      show ?thesis unfolding step r(1) f using Some t n(1,2) less[of "n + 1"] by (simp add: upt_conv_Cons)
    qed
  qed
qed

text \<open>The first busy slot that matches, or whose array is missing, ends the loop.\<close>

lemma find_slot_find:
  assumes "length p = 32" "\<And>j. j < 256 \<Longrightarrow> \<not> chunk_free p j \<Longrightarrow> matches j = Some (m j)"
  shows "find_slot matches p i = Some (case List.find (\<lambda>j. \<not> chunk_free p j \<and> m j \<noteq> Some False) [i..<256] of
     None \<Rightarrow> None | Some j \<Rightarrow> if m j = Some True then Some j else None)"
proof (induction "256 - i" arbitrary: i rule: less_induct)
  case less
  show ?case
  proof (cases "List.find (\<lambda>k. chunk_free p k = False) [i..<256]")
    case None
    then have "List.find (\<lambda>j. \<not> chunk_free p j \<and> m j \<noteq> Some False) [i..<256] = None" by (auto simp: find_None_iff)
    then show ?thesis using None by (subst find_slot.simps) (simp add: next_slot_find[OF assms(1)])
  next
    case (Some n)
    then have n: "i \<le> n" "n < 256" "\<not> chunk_free p n" "\<And>k. i \<le> k \<Longrightarrow> k < n \<Longrightarrow> chunk_free p k"
      by (auto simp: find_upt_from)
    have f: "List.find (\<lambda>j. \<not> chunk_free p j \<and> m j \<noteq> Some False) [i..<256] = List.find (\<lambda>j. \<not> chunk_free p j \<and> m j \<noteq> Some False) [n..<256]"
      by (rule find_upt_skip) (use n in auto)
    consider "m n = None" | "m n = Some True" | "m n = Some False" by (cases "m n") auto
    then show ?thesis
      using Some n(1,2,3) f assms(2)[OF n(2,3)] less[of "n + 1"]
      by cases (subst find_slot.simps, simp add: next_slot_find[OF assms(1)] upt_conv_Cons)+
  qed
qed

section \<open>The slots of a bucket\<close>

definition keyed :: "entry_mem \<Rightarrow> nat \<Rightarrow> key \<Rightarrow> bool" where
  "keyed mem ptr k \<longleftrightarrow> mem ptr = Some (fst k, ucast (snd k))"

text \<open>The slots of \<open>f\<close> hold these pointers and the hashes of their keys \<open>K\<close>, and the others are free.\<close>

definition slot_ok :: "(nat \<Rightarrow> key) \<Rightarrow> dirent_cache_bucket_t \<Rightarrow> nat \<Rightarrow> nat option \<Rightarrow> bool" where
  "slot_ok K b i o' \<longleftrightarrow> (case o' of None \<Rightarrow> chunk_free (bucket_free_bitmap b) i
     | Some ptr \<Rightarrow> \<not> chunk_free (bucket_free_bitmap b) i \<and> (\<exists>e. entry_tb b ! (i div 32) = Some e \<and> entry_ptr_table e ! (i mod 32) = ptr
         \<and> hash_value_table e ! (i mod 32) = hash_bucket_entry (fst (K ptr)) (snd (K ptr))))"

definition tables_ok :: "dirent_cache_bucket_t \<Rightarrow> bool" where
  "tables_ok b \<longleftrightarrow> length (bucket_free_bitmap b) = 32 \<and> length (entry_tb b) = 8
     \<and> (\<forall>a < 8. \<forall>e. entry_tb b ! a = Some e \<longrightarrow> length (hash_value_table e) = 32 \<and> length (entry_ptr_table e) = 32)"

definition view :: "(nat \<Rightarrow> key) \<Rightarrow> dirent_cache_bucket_t \<Rightarrow> (nat \<Rightarrow> nat option) \<Rightarrow> bool" where
  "view K b f \<longleftrightarrow> tables_ok b \<and> (\<forall>i < 256. slot_ok K b i (f i)) \<and> (\<forall>i \<ge> 256. f i = None)"

lemma view_cong: "view K b f \<Longrightarrow> (\<And>i ptr. f i = Some ptr \<Longrightarrow> K' ptr = K ptr) \<Longrightarrow> view K' b f"
  by (auto simp: view_def slot_ok_def split: option.splits) metis+

lemma view_busy: "view K b f \<Longrightarrow> i < 256 \<Longrightarrow> \<not> chunk_free (bucket_free_bitmap b) i \<longleftrightarrow> f i \<noteq> None"
  by (auto simp: view_def slot_ok_def split: option.splits)

lemma view_slotE:
  assumes "view K b f" "f i = Some ptr"
  obtains e where "i < 256" "arr_get (entry_tb b) (int (i div 32)) = Some (Some e)"
    "length (hash_value_table e) = 32" "length (entry_ptr_table e) = 32" "entry_ptr_table e ! (i mod 32) = ptr"
    "hash_value_table e ! (i mod 32) = hash_bucket_entry (fst (K ptr)) (snd (K ptr))"
proof -
  have i: "i < 256" using assms by (metis not_le option.simps(3) view_def)
  then obtain e where e: "entry_tb b ! (i div 32) = Some e" "entry_ptr_table e ! (i mod 32) = ptr"
    "hash_value_table e ! (i mod 32) = hash_bucket_entry (fst (K ptr)) (snd (K ptr))"
    using assms by (auto simp: view_def slot_ok_def split: option.splits)
  moreover have "i div 32 < 8" using i by auto
  ultimately show ?thesis using that[of e] i assms(1) by (auto simp: view_def tables_ok_def arr_simps)
qed

lemma ucast_u16_eq: "(ucast a :: u32) = ucast b \<longleftrightarrow> a = b" for a b :: u16
proof
  have "(ucast (ucast w :: u32) :: u16) = w" for w by (rule bit_word_eqI) (auto simp: bit_simps)
  then show "(ucast a :: u32) = ucast b \<Longrightarrow> a = b" by metis
qed simp

lemma slot_matches_view:
  assumes "view K b f" "f i = Some ptr" "keyed mem ptr (K ptr)" "\<And>a b. uuid_compare a b = 0 \<longleftrightarrow> a = b"
  shows "slot_matches uuid_compare mem b fid index i = Some (Some (K ptr = (fid, index)))"
proof -
  obtain e where "i < 256" "arr_get (entry_tb b) (int (i div 32)) = Some (Some e)"
    "length (hash_value_table e) = 32" "length (entry_ptr_table e) = 32" "entry_ptr_table e ! (i mod 32) = ptr"
    "hash_value_table e ! (i mod 32) = hash_bucket_entry (fst (K ptr)) (snd (K ptr))" by (rule view_slotE[OF assms(1,2)])
  then show ?thesis using assms(3,4)
    by (cases "K ptr") (auto simp: slot_matches_def bucket_sizes Let_def arr_simps keyed_def ucast_u16_eq)
qed

lemma find_slot_view:
  assumes "view K b f" "\<And>i ptr. f i = Some ptr \<Longrightarrow> keyed mem ptr (K ptr)" "\<And>a b. uuid_compare a b = 0 \<longleftrightarrow> a = b"
  shows "find_slot (slot_matches uuid_compare mem b fid index) (bucket_free_bitmap b) 0
     = Some (List.find (\<lambda>i. \<exists>ptr. f i = Some ptr \<and> K ptr = (fid, index)) [0..<256])"
proof -
  let ?m = "\<lambda>i. Some (K (the (f i)) = (fid, index))"
  have m: "slot_matches uuid_compare mem b fid index i = Some (?m i)" if "i < 256" "\<not> chunk_free (bucket_free_bitmap b) i" for i
    using slot_matches_view[OF assms(1) _ assms(2,3), of i] view_busy[OF assms(1) that(1)] that(2) by fastforce
  have p: "length (bucket_free_bitmap b) = 32" using assms(1) by (simp add: view_def tables_ok_def)
  have "List.find (\<lambda>j. \<not> chunk_free (bucket_free_bitmap b) j \<and> ?m j \<noteq> Some False) [0..<256]
      = List.find (\<lambda>i. \<exists>ptr. f i = Some ptr \<and> K ptr = (fid, index)) [0..<256]"
    by (rule find_cong) (auto simp: view_busy[OF assms(1)])
  then have "find_slot (slot_matches uuid_compare mem b fid index) (bucket_free_bitmap b) 0
      = Some (case List.find (\<lambda>i. \<exists>ptr. f i = Some ptr \<and> K ptr = (fid, index)) [0..<256] of
          None \<Rightarrow> None | Some j \<Rightarrow> if ?m j = Some True then Some j else None)"
    using find_slot_find[OF p, of _ ?m 0] m by simp
  moreover have "K (the (f i)) = (fid, index)" if "List.find (\<lambda>i. \<exists>ptr. f i = Some ptr \<and> K ptr = (fid, index)) [0..<256] = Some i" for i
    using that by (auto simp: find_upt_from)
  ultimately show ?thesis by (simp split: option.splits)
qed


lemma div_mod_32: "i = j \<longleftrightarrow> i div 32 = j div 32 \<and> i mod 32 = j mod 32" for i j :: nat
  by (metis mod_mult_div_eq)

lemma slot_ok_array:
  assumes "view K b f" "f j = Some ptr" "j div 32 = i div 32"
  shows "entry_tb b ! (i div 32) \<noteq> None"
proof -
  obtain e where "arr_get (entry_tb b) (int (j div 32)) = Some (Some e)" using view_slotE[OF assms(1,2)] by metis
  then show ?thesis using assms(3) by (simp add: arr_get_Some_iff)
qed

lemma fill_slot_view:
  assumes v: "view K b f" and i: "i < 256" "f i = None" and K: "K ptr = (fid, index)"
  shows "\<exists>b'. fill_slot True fid index ptr i b = Some (True, b') \<and> view K b' (f(i \<mapsto> ptr)) \<and> bucket_lru_link b' = ptr # bucket_lru_link b"
proof -
  have len: "length (bucket_free_bitmap b) = 32" "length (entry_tb b) = 8" "i div 32 < 8" "i mod 32 < 32"
    using v i by (auto simp: view_def tables_ok_def)
  obtain p where p: "dirent_clear_chunk_bit i (bucket_free_bitmap b) = Some p" "bits_change (bucket_free_bitmap b) p {i} False"
    using lower_bit_change[of i "bucket_free_bitmap b"] i(1) len(1) by (auto simp: dirent_clear_chunk_bit_def)
  define e where "e = (case entry_tb b ! (i div 32) of Some e \<Rightarrow> e | None \<Rightarrow> 
      \<lparr>hash_value_table = replicate DIRENT_BUCKET_NB_ENTRY_PER_ARRAY 0, entry_ptr_table = replicate DIRENT_BUCKET_NB_ENTRY_PER_ARRAY 0\<rparr>)"
  have e: "length (hash_value_table e) = 32" "length (entry_ptr_table e) = 32"
    using v len(3) by (auto simp: e_def view_def tables_ok_def bucket_sizes split: option.splits)
  let ?e = "\<lparr>hash_value_table = (hash_value_table e)[i mod 32 := hash_bucket_entry fid index], entry_ptr_table = (entry_ptr_table e)[i mod 32 := ptr]\<rparr>"
  let ?b = "b\<lparr>bucket_free_bitmap := p, entry_tb := (entry_tb b)[i div 32 := Some ?e], bucket_lru_link := ptr # bucket_lru_link b\<rparr>"
  have "fill_slot True fid index ptr i b = Some (True, ?b)"
    using p(1) len e by (simp add: fill_slot_def bucket_sizes Let_def arr_simps flip: e_def)
  moreover have "slot_ok K ?b j ((f(i \<mapsto> ptr)) j)" if j: "j < 256" for j
  proof (cases "j = i")
    case True
    then show ?thesis using p(2) len e K i(1) by (simp add: slot_ok_def bits_change_def)
  next
    case False
    then have free: "chunk_free p j = chunk_free (bucket_free_bitmap b) j" using p(2) j len(1) by (simp add: bits_change_def)
    have "slot_ok K b j (f j)" using v j by (simp add: view_def)
    moreover have "i mod 32 \<noteq> j mod 32" if "j div 32 = i div 32" using that False div_mod_32[of i j] by simp
    moreover have "entry_tb b ! (i div 32) = Some e" if "f j = Some x" "j div 32 = i div 32" for x
      using slot_ok_array[OF v that] by (auto simp: e_def)
    ultimately show ?thesis using False free len(2,3)
      by (cases "j div 32 = i div 32") (auto simp: slot_ok_def nth_list_update split: option.splits)
  qed
  moreover have "tables_ok ?b" using v p(2) len e by (auto simp: view_def tables_ok_def bits_change_def nth_list_update)
  ultimately show ?thesis using v i(1) by (intro exI[of _ ?b]) (auto simp: view_def)
qed

text \<open>The bytes that the removal looks at, and what it does.\<close>

definition looks_empty :: "(nat \<Rightarrow> nat option) \<Rightarrow> nat \<Rightarrow> bool" where
  "looks_empty f i \<longleftrightarrow> (\<forall>k \<in> {8 * (i div 32)..<8 * (i div 32) + 32}. k \<noteq> i \<longrightarrow> f k = None)"

lemma release_req_view:
  assumes "length p = 32" "a < 8"
  shows "release_req p a = Some (\<forall>k \<in> {8 * a..<8 * a + 32}. chunk_free p k)"
proof -
  have "release_req p a = Some (\<forall>i \<in> {a..<a + 4}. \<forall>k \<in> {8 * i..<8 * i + 8}. chunk_free p k)"
    unfolding release_req_def bucket_sizes using all_empty_eq[of "[a..<a + 4]" p] assms by simp
  moreover have "(\<forall>i \<in> {a..<a + 4}. \<forall>k \<in> {8 * i..<8 * i + 8}. chunk_free p k) \<longleftrightarrow> (\<forall>k \<in> {8 * a..<8 * a + 32}. chunk_free p k)"
  proof
    assume h: "\<forall>i \<in> {a..<a + 4}. \<forall>k \<in> {8 * i..<8 * i + 8}. chunk_free p k"
    show "\<forall>k \<in> {8 * a..<8 * a + 32}. chunk_free p k"
    proof
      fix k assume "k \<in> {8 * a..<8 * a + 32}"
      then have "k div 8 \<in> {a..<a + 4}" "k \<in> {8 * (k div 8)..<8 * (k div 8) + 8}" by auto
      with h show "chunk_free p k" by blast
    qed
  qed auto
  ultimately show ?thesis by simp
qed

lemma clear_slot_eq:
  assumes v: "view K b f" and f: "f i = Some ptr"
  obtains p e e' where "clear_slot i b = Some (b\<lparr>bucket_free_bitmap := p, entry_tb := (entry_tb b)[i div 32 := if looks_empty f i then None else Some e']\<rparr>)"
    "bits_change (bucket_free_bitmap b) p {i} True" "entry_tb b ! (i div 32) = Some e" "entry_ptr_table e' = entry_ptr_table e"
    "hash_value_table e' = (hash_value_table e)[i mod 32 := 0]"
proof -
  obtain e where e: "i < 256" "arr_get (entry_tb b) (int (i div 32)) = Some (Some e)" "length (hash_value_table e) = 32"
    using view_slotE[OF v f] by metis
  have len: "length (bucket_free_bitmap b) = 32" "length (entry_tb b) = 8" "i div 32 < 8" using v e(1) by (auto simp: view_def tables_ok_def)
  obtain p where p: "dirent_set_chunk_bit i (bucket_free_bitmap b) = Some p" "bits_change (bucket_free_bitmap b) p {i} True"
    using raise_bit_change[of i "bucket_free_bitmap b"] e(1) len(1) by (auto simp: dirent_set_chunk_bit_def)
  have "chunk_free p k \<longleftrightarrow> k = i \<or> f k = None" if "k < 256" for k
    using p(2) that len(1) view_busy[OF v that] by (auto simp: bits_change_def)
  moreover have "k < 256" if "k \<in> {8 * (i div 32)..<8 * (i div 32) + 32}" for k using that len(3) by simp
  ultimately have "(\<forall>k \<in> {8 * (i div 32)..<8 * (i div 32) + 32}. chunk_free p k) \<longleftrightarrow> looks_empty f i" unfolding looks_empty_def by blast
  then have "release_req p (i div 32) = Some (looks_empty f i)"
    using release_req_view[of p "i div 32"] p(2) len by (simp add: bits_change_def)
  then have "clear_slot i b = Some (b\<lparr>bucket_free_bitmap := p,
      entry_tb := (entry_tb b)[i div 32 := if looks_empty f i then None else Some (e\<lparr>hash_value_table := (hash_value_table e)[i mod 32 := 0]\<rparr>)]\<rparr>)"
    using e p(1) len by (simp add: clear_slot_def slot_entry_def bucket_sizes Let_def arr_simps)
  moreover have "entry_tb b ! (i div 32) = Some e" using e(2) len by (simp add: arr_simps)
  ultimately show ?thesis using that[where p = p and e = e and e' = "e\<lparr>hash_value_table := (hash_value_table e)[i mod 32 := 0]\<rparr>"] p(2) by simp
qed

lemma clear_slot_view:
  assumes v: "view K b f" and f: "f i = Some ptr"
    and safe: "looks_empty f i \<Longrightarrow> (\<forall>j. j div 32 = i div 32 \<and> j \<noteq> i \<longrightarrow> f j = None)"
  shows "\<exists>b'. clear_slot i b = Some b' \<and> view K b' (f(i := None)) \<and> bucket_lru_link b' = bucket_lru_link b"
proof -
  obtain p e e' where c: "clear_slot i b = Some (b\<lparr>bucket_free_bitmap := p, entry_tb := (entry_tb b)[i div 32 := if looks_empty f i then None else Some e']\<rparr>)"
    "bits_change (bucket_free_bitmap b) p {i} True" "entry_tb b ! (i div 32) = Some e" "entry_ptr_table e' = entry_ptr_table e"
    "hash_value_table e' = (hash_value_table e)[i mod 32 := 0]" by (rule clear_slot_eq[OF v f])
  let ?b = "b\<lparr>bucket_free_bitmap := p, entry_tb := (entry_tb b)[i div 32 := if looks_empty f i then None else Some e']\<rparr>"
  have i: "i < 256" using view_slotE[OF v f] by metis
  have len: "length (bucket_free_bitmap b) = 32" "length (entry_tb b) = 8" "i div 32 < 8" using v i by (auto simp: view_def tables_ok_def)
  have "slot_ok K ?b j ((f(i := None)) j)" if j: "j < 256" for j
  proof (cases "j = i")
    case True
    then show ?thesis using c(2) len i by (simp add: slot_ok_def bits_change_def)
  next
    case False
    then have free: "chunk_free p j = chunk_free (bucket_free_bitmap b) j" using c(2) j len(1) by (simp add: bits_change_def)
    have "slot_ok K b j (f j)" using v j by (simp add: view_def)
    moreover have "i mod 32 \<noteq> j mod 32" if "j div 32 = i div 32" using that False div_mod_32[of i j] by simp
    ultimately show ?thesis using False free len(2,3) c(3-5) safe
      by (cases "j div 32 = i div 32") (auto simp: slot_ok_def nth_list_update split: option.splits if_splits)
  qed
  moreover have "tables_ok ?b" using v c len by (auto simp: view_def tables_ok_def bits_change_def nth_list_update split: if_splits)
  ultimately show ?thesis using v c(1) by (intro exI[of _ ?b]) (auto simp: view_def)
qed



end
