(* ===== verification/Dirent_Cache.thy ===== *)
theory Dirent_Cache
  imports Dirent_Bucket
begin

text \<open>
  What the cache of the root directory files does. Over the requests of its callers it is a list of keys and entries, the last used first, that loses its last entry when a new
  one comes and it is full. This holds as long as a bucket has at most 32 keys; with more, the removal of an entry can free an array that is still in use, and entries are lost.
\<close>

section \<open>Invariant\<close>

definition entry_key :: "entry_mem \<Rightarrow> nat \<Rightarrow> key" where
  "entry_key mem ptr = (case mem ptr of None \<Rightarrow> ([], 0) | Some (fid, idx) \<Rightarrow> (fid, ucast idx))"

abbreviation bucket_of :: "key \<Rightarrow> u16" where
  "bucket_of k \<equiv> hash_bucket (fst k) (snd k)"

text \<open>\<open>F\<close> gives the entries in the slots of the buckets.\<close>

definition slots_ok :: "(u16 \<Rightarrow> nat \<Rightarrow> nat option) \<Rightarrow> dirent_cache_main_t \<Rightarrow> bool" where
  "slots_ok F c \<longleftrightarrow> (\<forall>hb. view (entry_key (dc_mem c)) (dc_htable c hb) (F hb))
     \<and> (\<forall>hb i ptr. F hb i = Some ptr \<longrightarrow> ptr \<noteq> 0 \<and> keyed (dc_mem c) ptr (entry_key (dc_mem c) ptr) \<and> bucket_of (entry_key (dc_mem c) ptr) = hb)
     \<and> (\<forall>hb i j ptr. F hb i = Some ptr \<and> F hb j = Some ptr \<longrightarrow> i = j)"

definition lists_ok :: "(u16 \<Rightarrow> nat \<Rightarrow> nat option) \<Rightarrow> dirent_cache_main_t \<Rightarrow> bool" where
  "lists_ok F c \<longleftrightarrow> (\<forall>hb. distinct (bucket_lru_link (dc_htable c hb)) \<and> set (bucket_lru_link (dc_htable c hb)) = ran (F hb))
     \<and> distinct (global_lru_link c) \<and> set (global_lru_link c) = (\<Union>hb. ran (F hb))"

definition cache_inv :: "(u16 \<Rightarrow> nat \<Rightarrow> nat option) \<Rightarrow> dirent_cache_main_t \<Rightarrow> bool" where
  "cache_inv F c \<longleftrightarrow> slots_ok F c \<and> lists_ok F c \<and> inj_on (entry_key (dc_mem c)) (set (global_lru_link c))
     \<and> unat (dc_size c) = length (global_lru_link c) \<and> length (global_lru_link c) \<le> unat (dc_max c) \<and> dc_max c \<noteq> 0"

definition uuid_ok :: "(uuid \<Rightarrow> uuid \<Rightarrow> int) \<Rightarrow> bool" where
  "uuid_ok uuid_compare \<longleftrightarrow> (\<forall>a b. uuid_compare a b = 0 \<longleftrightarrow> a = b)"

lemma cache_inv_init: "cache_inv (\<lambda>_ _. None) dirent_cache_level0_initialize"
proof -
  have "chunk_free (replicate 32 0xff) i" if "i < 256" for i
  proof -
    have "i div 8 < 32" "i \<in> {8 * (i div 8)..<8 * (i div 8) + 8}" using that by auto
    then show ?thesis using byte_empty[of "i div 8" "replicate 32 0xff"] by auto
  qed
  then show ?thesis
    by (auto simp: cache_inv_def slots_ok_def lists_ok_def view_def slot_ok_def tables_ok_def dirent_cache_level0_initialize_def DIRENT_BUCKET_MAX_ROOT_DIRENT_def)
qed

lemma keyed_entry_key: "keyed mem ptr k \<Longrightarrow> entry_key mem ptr = k"
proof -
  have "(ucast (ucast w :: u32) :: u16) = w" for w by (rule bit_word_eqI) (auto simp: bit_simps)
  then show "keyed mem ptr k \<Longrightarrow> entry_key mem ptr = k" by (simp add: keyed_def entry_key_def)
qed

section \<open>Lookup\<close>

lemma inv_slot:
  assumes "cache_inv F c" "ptr \<in> set (global_lru_link c)"
  obtains i where "F (bucket_of (entry_key (dc_mem c) ptr)) i = Some ptr"
proof -
  obtain hb i where "F hb i = Some ptr" using assms by (auto simp: cache_inv_def lists_ok_def ran_def)
  moreover have "bucket_of (entry_key (dc_mem c) ptr) = hb" using assms(1) calculation by (auto simp: cache_inv_def slots_ok_def)
  ultimately show ?thesis using that by blast
qed

lemma inv_slotD:
  assumes "cache_inv F c" "F hb i = Some ptr"
  shows "ptr \<in> set (global_lru_link c)" "ptr \<noteq> 0" "keyed (dc_mem c) ptr (entry_key (dc_mem c) ptr)" "bucket_of (entry_key (dc_mem c) ptr) = hb"
    "ptr \<in> set (bucket_lru_link (dc_htable c hb))"
  using assms by (auto simp: cache_inv_def slots_ok_def lists_ok_def ran_def)

lemma inv_inj: "cache_inv F c \<Longrightarrow> F hb i = Some ptr \<Longrightarrow> F hb j = Some ptr \<Longrightarrow> j = i"
  unfolding cache_inv_def slots_ok_def by blast

lemma lookup_slot_find:
  assumes "cache_inv F c" "uuid_ok cmp"
  shows "lookup_slot cmp fid index c
     = Some (List.find (\<lambda>i. \<exists>ptr. F (hash_bucket fid index) i = Some ptr \<and> entry_key (dc_mem c) ptr = (fid, index)) [0..<256])"
  unfolding lookup_slot_def Let_def
  by (rule find_slot_view) (use assms in \<open>auto simp: cache_inv_def slots_ok_def uuid_ok_def\<close>)

lemma lookup_slot_hit:
  assumes "cache_inv F c" "uuid_ok cmp" "ptr \<in> set (global_lru_link c)" "entry_key (dc_mem c) ptr = (fid, index)"
  obtains i where "lookup_slot cmp fid index c = Some (Some i)" "F (hash_bucket fid index) i = Some ptr"
proof -
  let ?P = "\<lambda>i. \<exists>ptr. F (hash_bucket fid index) i = Some ptr \<and> entry_key (dc_mem c) ptr = (fid, index)"
  obtain j where j: "F (hash_bucket fid index) j = Some ptr" using inv_slot[OF assms(1,3)] assms(4) by auto
  then have "j < 256" using assms(1) by (auto simp: cache_inv_def slots_ok_def view_def) (metis not_le option.simps(3))
  then obtain i where i: "List.find ?P [0..<256] = Some i" using j assms(4) by (cases "List.find ?P [0..<256]") (auto simp: find_None_iff)
  then obtain ptr' where p: "F (hash_bucket fid index) i = Some ptr'" "entry_key (dc_mem c) ptr' = (fid, index)" by (auto simp: find_upt_from)
  moreover have "ptr' = ptr"
    using assms(1,3,4) p inv_slotD(1)[OF assms(1) p(1)] by (auto simp: cache_inv_def inj_on_def)
  ultimately show ?thesis using that i lookup_slot_find[OF assms(1,2), of fid index] by simp
qed

lemma lookup_slot_miss:
  assumes "cache_inv F c" "uuid_ok cmp" "\<forall>ptr \<in> set (global_lru_link c). entry_key (dc_mem c) ptr \<noteq> (fid, index)"
  shows "lookup_slot cmp fid index c = Some None"
  using lookup_slot_find[OF assms(1,2), of fid index] inv_slotD(1)[OF assms(1)] assms(3) by (auto simp: find_None_iff)

lemma slot_entry_inv:
  assumes "cache_inv F c" "F hb i = Some ptr"
  obtains e where "slot_entry (dc_htable c hb) i = Some e" "arr_get (entry_ptr_table e) (int (i mod DIRENT_BUCKET_NB_ENTRY_PER_ARRAY)) = Some ptr"
proof -
  have "view (entry_key (dc_mem c)) (dc_htable c hb) (F hb)" using assms(1) by (simp add: cache_inv_def slots_ok_def)
  from view_slotE[OF this assms(2)] obtain e where "arr_get (entry_tb (dc_htable c hb)) (int (i div 32)) = Some (Some e)"
    "length (entry_ptr_table e) = 32" "entry_ptr_table e ! (i mod 32) = ptr" by metis
  then show ?thesis using that[of e] by (simp add: slot_entry_def bucket_sizes arr_simps)
qed


section \<open>Operations\<close>

lemma view_lru [simp]: "view K (b\<lparr>bucket_lru_link := l\<rparr>) f = view K b f"
  by (simp add: view_def tables_ok_def slot_ok_def cong: option.case_cong)

lemma ran_clear:
  assumes "\<And>j. f j = Some ptr \<Longrightarrow> j = i" "f i = Some ptr"
  shows "ran (f(i := None)) = ran f - {ptr}"
proof (intro set_eqI iffI)
  fix x
  show "x \<in> ran (f(i := None)) \<Longrightarrow> x \<in> ran f - {ptr}" using assms(1) by (auto simp: ran_def split: if_splits)
  assume "x \<in> ran f - {ptr}"
  then obtain j where "f j = Some x" "x \<noteq> ptr" by (auto simp: ran_def)
  moreover from this have "j \<noteq> i" using assms(2) by auto
  ultimately show "x \<in> ran (f(i := None))" by (auto simp: ran_def intro!: exI[of _ j])
qed

lemma search_hit:
  assumes inv: "cache_inv F c" and "uuid_ok cmp" "ptr \<in> set (global_lru_link c)" "entry_key (dc_mem c) ptr = (fid, index)"
  shows "\<exists>c'. dirent_cache_bucket_search_entry cmp fid index c = Some (ptr, c') \<and> cache_inv F c'
     \<and> global_lru_link c' = ptr # remove1 ptr (global_lru_link c) \<and> dc_mem c' = dc_mem c \<and> dc_max c' = dc_max c"
proof -
  let ?hb = "hash_bucket fid index"
  obtain i where i: "lookup_slot cmp fid index c = Some (Some i)" "F ?hb i = Some ptr" by (rule lookup_slot_hit[OF assms])
  obtain e where e: "slot_entry (dc_htable c ?hb) i = Some e" "arr_get (entry_ptr_table e) (int (i mod DIRENT_BUCKET_NB_ENTRY_PER_ARRAY)) = Some ptr"
    by (rule slot_entry_inv[OF inv i(2)])
  let ?b = "(dc_htable c ?hb)\<lparr>bucket_lru_link := ptr # remove1 ptr (bucket_lru_link (dc_htable c ?hb))\<rparr>"
  let ?c = "c\<lparr>global_lru_link := ptr # remove1 ptr (global_lru_link c), dc_htable := (dc_htable c)(?hb := ?b)\<rparr>"
  have "dirent_cache_bucket_search_entry cmp fid index c = Some (ptr, ?c)"
    using i(1) e by (simp add: dirent_cache_bucket_search_entry_def Let_def)
  moreover have "slots_ok F ?c" using inv by (auto simp: cache_inv_def slots_ok_def)
  moreover have "lists_ok F ?c" "inj_on (entry_key (dc_mem ?c)) (set (global_lru_link ?c))" 
    using inv inv_slotD(1,5)[OF inv i(2)] by (auto simp: cache_inv_def lists_ok_def insert_absorb)
  moreover have "length (global_lru_link ?c) = length (global_lru_link c)"
    using length_pos_if_in_set[OF inv_slotD(1)[OF inv i(2)]] inv_slotD(1)[OF inv i(2)] by (simp add: length_remove1)
  ultimately show ?thesis using inv by (auto simp: cache_inv_def)
qed

lemma search_miss:
  assumes "cache_inv F c" "uuid_ok cmp" "\<forall>ptr \<in> set (global_lru_link c). entry_key (dc_mem c) ptr \<noteq> (fid, index)"
  shows "dirent_cache_bucket_search_entry cmp fid index c = Some (0, c)"
  using lookup_slot_miss[OF assms] by (simp add: dirent_cache_bucket_search_entry_def)

text \<open>The removal is safe when the array that looks empty is empty, which is so in the first array.\<close>

definition safe_removal :: "(nat \<Rightarrow> nat option) \<Rightarrow> nat \<Rightarrow> bool" where
  "safe_removal f i \<longleftrightarrow> (looks_empty f i \<longrightarrow> (\<forall>j. j div 32 = i div 32 \<and> j \<noteq> i \<longrightarrow> f j = None))"

lemma remove_hit:
  assumes inv: "cache_inv F c" and "uuid_ok cmp" "ptr \<in> set (global_lru_link c)" "entry_key (dc_mem c) ptr = (fid, index)"
    and safe: "\<And>i. F (hash_bucket fid index) i = Some ptr \<Longrightarrow> safe_removal (F (hash_bucket fid index)) i"
  shows "\<exists>c' i. dirent_cache_bucket_remove_entry cmp fid index c = Some (True, c') \<and> F (hash_bucket fid index) i = Some ptr
     \<and> cache_inv (F(hash_bucket fid index := (F (hash_bucket fid index))(i := None))) c'
     \<and> global_lru_link c' = remove1 ptr (global_lru_link c) \<and> dc_mem c' = dc_mem c \<and> dc_max c' = dc_max c"
proof -
  let ?hb = "hash_bucket fid index" and ?b = "dc_htable c (hash_bucket fid index)"
  obtain i where i: "lookup_slot cmp fid index c = Some (Some i)" "F ?hb i = Some ptr" by (rule lookup_slot_hit[OF assms(1-4)])
  obtain e where e: "slot_entry ?b i = Some e" "arr_get (entry_ptr_table e) (int (i mod DIRENT_BUCKET_NB_ENTRY_PER_ARRAY)) = Some ptr"
    by (rule slot_entry_inv[OF inv i(2)])
  have "view (entry_key (dc_mem c)) (?b\<lparr>bucket_lru_link := remove1 ptr (bucket_lru_link ?b)\<rparr>) (F ?hb)"
    using inv by (simp add: cache_inv_def slots_ok_def)
  from clear_slot_view[OF this i(2)] obtain b' where b': "clear_slot i (?b\<lparr>bucket_lru_link := remove1 ptr (bucket_lru_link ?b)\<rparr>) = Some b'"
    "view (entry_key (dc_mem c)) b' ((F ?hb)(i := None))" "bucket_lru_link b' = remove1 ptr (bucket_lru_link ?b)"
    using safe[OF i(2)] by (auto simp: safe_removal_def)
  let ?c = "c\<lparr>global_lru_link := remove1 ptr (global_lru_link c), dc_size := dc_size c - 1, dc_htable := (dc_htable c)(?hb := b')\<rparr>"
  let ?F = "F(?hb := (F ?hb)(i := None))"
  have r: "dirent_cache_bucket_remove_entry cmp fid index c = Some (True, ?c)"
    using i(1) e b'(1) by (simp add: dirent_cache_bucket_remove_entry_def Let_def)
  have ran: "ran ((F ?hb)(i := None)) = ran (F ?hb) - {ptr}"
    using ran_clear[of "F ?hb" ptr i] inv_inj[OF inv i(2)] i(2) by blast
  have other: "ptr \<notin> ran (F hb)" if "hb \<noteq> ?hb" for hb
    using inv_slotD(4)[OF inv, of hb _ ptr] that assms(4) by (auto simp: ran_def)
  have g: "ptr \<in> set (global_lru_link c)" "distinct (global_lru_link c)" using assms(3) inv by (auto simp: cache_inv_def lists_ok_def)
  have "slots_ok ?F ?c" using inv b'(2) by (auto simp: cache_inv_def slots_ok_def split: if_splits)
  moreover have "(\<Union>hb. ran (?F hb)) = (\<Union>hb. ran (F hb)) - {ptr}"
  proof -
    have "ran (?F hb) = ran (F hb) - {ptr}" for hb using ran other by (cases "hb = ?hb") auto
    then show ?thesis by blast
  qed
  then have "lists_ok ?F ?c" using inv b'(3) ran by (auto simp: cache_inv_def lists_ok_def)
  moreover have "dc_size c \<noteq> 0" using inv g(1) by (auto simp: cache_inv_def)
  then have "unat (dc_size ?c) = length (global_lru_link ?c)" using inv g by (simp add: cache_inv_def unat_minus_one length_remove1)
  moreover have "inj_on (entry_key (dc_mem ?c)) (set (global_lru_link ?c))" using inv g by (auto simp: cache_inv_def intro: inj_on_subset)
  ultimately have "cache_inv ?F ?c" using inv by (auto simp: cache_inv_def length_remove1)
  then show ?thesis using r i(2) by (intro exI[of _ ?c] exI[of _ i]) simp
qed

lemma remove_miss:
  assumes "cache_inv F c" "uuid_ok cmp" "\<forall>ptr \<in> set (global_lru_link c). entry_key (dc_mem c) ptr \<noteq> (fid, index)"
  shows "dirent_cache_bucket_remove_entry cmp fid index c = Some (False, c)"
  using lookup_slot_miss[OF assms] by (simp add: dirent_cache_bucket_remove_entry_def)

text \<open>The memory of the entries that are not in the cache does not matter.\<close>

lemma cache_inv_mem:
  assumes inv: "cache_inv F c" and eq: "\<And>ptr. ptr \<in> set (global_lru_link c) \<Longrightarrow> mem ptr = dc_mem c ptr"
  shows "cache_inv F (c\<lparr>dc_mem := mem\<rparr>)"
proof -
  have k: "entry_key mem ptr = entry_key (dc_mem c) ptr" if "F hb i = Some ptr" for hb i ptr
    using eq inv_slotD(1)[OF inv that] by (simp add: entry_key_def)
  have "view (entry_key mem) (dc_htable c hb) (F hb)" for hb
    using inv by (intro view_cong[OF _ k]) (auto simp: cache_inv_def slots_ok_def)
  moreover have "inj_on (entry_key mem) (set (global_lru_link c))"
    using inv eq by (auto simp: cache_inv_def inj_on_def entry_key_def)
  moreover have "keyed mem ptr k \<longleftrightarrow> keyed (dc_mem c) ptr k" if "F hb i = Some ptr" for hb i ptr k
    using eq inv_slotD(1)[OF inv that] by (simp add: keyed_def)
  ultimately show ?thesis using inv k by (auto simp: cache_inv_def slots_ok_def lists_ok_def)
qed


lemma insert_room:
  assumes inv: "cache_inv F c" and new: "ptr \<notin> set (global_lru_link c)" "ptr \<noteq> 0" "keyed (dc_mem c) ptr (fid, index)"
    "\<forall>q \<in> set (global_lru_link c). entry_key (dc_mem c) q \<noteq> (fid, index)"
    and room: "length (global_lru_link c) < unat (dc_max c)" "\<exists>i < 256. F (hash_bucket fid index) i = None"
  shows "\<exists>c' i. insert_in_bucket cmp True fid index ptr c = Some (True, c') \<and> i < 256 \<and> F (hash_bucket fid index) i = None
     \<and> (\<forall>j < i. F (hash_bucket fid index) j \<noteq> None) \<and> cache_inv (F(hash_bucket fid index := (F (hash_bucket fid index))(i \<mapsto> ptr))) c'
     \<and> global_lru_link c' = ptr # global_lru_link c \<and> dc_mem c' = dc_mem c \<and> dc_max c' = dc_max c"
proof -
  let ?hb = "hash_bucket fid index" and ?b = "dc_htable c (hash_bucket fid index)"
  have K: "entry_key (dc_mem c) ptr = (fid, index)" using new(3) by (rule keyed_entry_key)
  have v: "view (entry_key (dc_mem c)) ?b (F ?hb)" using inv by (simp add: cache_inv_def slots_ok_def)
  have len: "length (bucket_free_bitmap ?b) = 32" using v by (simp add: view_def tables_ok_def)
  obtain i where i: "List.find (\<lambda>k. chunk_free (bucket_free_bitmap ?b) k = True) [0..<256] = Some i"
    using room(2) view_busy[OF v] by (cases "List.find (\<lambda>k. chunk_free (bucket_free_bitmap ?b) k = True) [0..<256]") (auto simp: find_None_iff)
  then have i': "i < 256" "chunk_free (bucket_free_bitmap ?b) i" "\<forall>j < i. \<not> chunk_free (bucket_free_bitmap ?b) j" by (auto simp: find_upt_from)
  then have f: "i < 256" "F ?hb i = None" "\<forall>j < i. F ?hb j \<noteq> None" using view_busy[OF v] by (blast, blast, meson less_trans)
  obtain b' where b': "fill_slot True fid index ptr i ?b = Some (True, b')" "view (entry_key (dc_mem c)) b' ((F ?hb)(i \<mapsto> ptr))"
    "bucket_lru_link b' = ptr # bucket_lru_link ?b" using fill_slot_view[OF v f(1,2) K] by auto
  let ?c = "c\<lparr>dc_htable := (dc_htable c)(?hb := b'), global_lru_link := ptr # global_lru_link c, dc_size := dc_size c + 1\<rparr>"
  let ?F = "F(?hb := (F ?hb)(i \<mapsto> ptr))"
  have r: "insert_in_bucket cmp True fid index ptr c = Some (True, ?c)"
    using i b'(1) by (subst insert_in_bucket.simps) (simp add: next_slot_find[OF len] Let_def)
  have notin: "ptr \<notin> ran (F hb)" for hb using new(1) inv_slotD(1)[OF inv] by (auto simp: ran_def)
  have "slots_ok ?F ?c" using inv b'(2) new(2,3) K notin unfolding cache_inv_def slots_ok_def by (auto simp: ran_def)
  moreover have "ran ((F ?hb)(i \<mapsto> ptr)) = insert ptr (ran (F ?hb))" using f(2) by (simp add: ran_map_upd)
  then have "lists_ok ?F ?c" using inv b'(3) notin new(1) by (auto simp: cache_inv_def lists_ok_def split: if_splits)
  moreover have "dc_size c < dc_max c" using inv room(1) by (simp add: cache_inv_def word_less_nat_alt)
  then have "unat (dc_size c) + 1 < 2 ^ LENGTH(32)" using unsigned_less[of "dc_max c", where 'a = nat] by (simp add: word_less_nat_alt)
  then have "unat (dc_size c + 1) = unat (dc_size c) + 1" by (simp add: unat_word_ariths(1))
  moreover have "inj_on (entry_key (dc_mem ?c)) (set (global_lru_link ?c))" using inv new(1,4) K by (auto simp: cache_inv_def)
  ultimately have "cache_inv ?F ?c" using inv room(1) by (auto simp: cache_inv_def)
  then show ?thesis using r f by (intro exI[of _ ?c] exI[of _ i]) simp
qed

lemma remove_lru_last:
  assumes inv: "cache_inv F c" and "uuid_ok cmp" "global_lru_link c \<noteq> []"
    and safe: "\<And>hb i. safe_removal (F hb) i"
  shows "\<exists>c' F'. remove_lru cmp (global_lru_link c) c = Some (True, c') \<and> cache_inv F' c' \<and> (\<forall>hb i. F' hb i \<noteq> None \<longrightarrow> F hb i \<noteq> None)
     \<and> global_lru_link c' = butlast (global_lru_link c) \<and> dc_mem c' = (dc_mem c)(last (global_lru_link c) := None) \<and> dc_max c' = dc_max c"
proof -
  let ?p = "last (global_lru_link c)"
  have p: "?p \<in> set (global_lru_link c)" using assms(3) by simp
  obtain i where "F (bucket_of (entry_key (dc_mem c) ?p)) i = Some ?p" by (rule inv_slot[OF inv p])
  then have k: "keyed (dc_mem c) ?p (entry_key (dc_mem c) ?p)" by (rule inv_slotD(3)[OF inv])
  obtain fid index where K: "entry_key (dc_mem c) ?p = (fid, index)" by fastforce
  have m: "dc_mem c ?p = Some (fid, ucast index)" "(ucast (ucast index :: u32) :: u16) = index"
    using k K keyed_entry_key[OF k] by (auto simp: keyed_def entry_key_def)
  from remove_hit[OF inv assms(2) p K] safe obtain c' i where
    c': "dirent_cache_bucket_remove_entry cmp fid index c = Some (True, c')" "cache_inv (F(hash_bucket fid index := (F (hash_bucket fid index))(i := None))) c'"
    "global_lru_link c' = remove1 ?p (global_lru_link c)" "dc_mem c' = dc_mem c" "dc_max c' = dc_max c" by blast
  have "distinct (global_lru_link c)" using inv by (simp add: cache_inv_def lists_ok_def)
  then have b: "remove1 ?p (global_lru_link c) = butlast (global_lru_link c)" "?p \<notin> set (butlast (global_lru_link c))"
    using assms(3) by (cases "global_lru_link c" rule: rev_cases; simp add: remove1_append)+
  have "cache_inv (F(hash_bucket fid index := (F (hash_bucket fid index))(i := None))) (c'\<lparr>dc_mem := (dc_mem c')(?p := None)\<rparr>)"
    by (rule cache_inv_mem[OF c'(2)]) (use c'(3) b in auto)
  moreover have "remove_lru cmp (global_lru_link c) c = Some (True, c'\<lparr>dc_mem := (dc_mem c')(?p := None)\<rparr>)"
    using assms(3) m c'(1) by (simp add: remove_lru_def)
  moreover have "\<forall>hb j. (F(hash_bucket fid index := (F (hash_bucket fid index))(i := None))) hb j \<noteq> None \<longrightarrow> F hb j \<noteq> None" by simp
  ultimately show ?thesis using c'(3-5) b(1)
    by (intro exI[of _ "c'\<lparr>dc_mem := (dc_mem c')(?p := None)\<rparr>"] exI[of _ "F(hash_bucket fid index := (F (hash_bucket fid index))(i := None))"]) simp
qed


section \<open>Buckets of at most 32 keys\<close>

text \<open>The slots of the first array are enough.\<close>

definition first_array :: "(u16 \<Rightarrow> nat \<Rightarrow> nat option) \<Rightarrow> bool" where
  "first_array F \<longleftrightarrow> (\<forall>hb i. F hb i \<noteq> None \<longrightarrow> i < 32)"

lemma first_array_safe: "first_array F \<Longrightarrow> safe_removal (F hb) i"
  unfolding safe_removal_def
proof (intro impI allI)
  fix j assume F: "first_array F" and e: "looks_empty (F hb) i" and j: "j div 32 = i div 32 \<and> j \<noteq> i"
  show "F hb j = None"
  proof (cases "j < 32")
    case True
    then have "i div 32 = 0" using j by simp
    then show ?thesis using e j True by (auto simp: looks_empty_def)
  next
    case False
    then show ?thesis using F unfolding first_array_def by blast
  qed
qed

lemma insert_entry_served:
  assumes inv: "cache_inv F c" "first_array F" and cmp: "uuid_ok cmp" and new: "ptr \<notin> set (global_lru_link c)" "ptr \<noteq> 0" "keyed (dc_mem c) ptr (fid, index)"
    "\<forall>q \<in> set (global_lru_link c). entry_key (dc_mem c) q \<noteq> (fid, index)" and free: "i0 < 32" "F (hash_bucket fid index) i0 = None"
  shows "\<exists>c' F'. dirent_cache_bucket_insert_entry cmp True fid index ptr c = Some (True, c') \<and> cache_inv F' c' \<and> first_array F'
     \<and> global_lru_link c' = ptr # (if length (global_lru_link c) < unat (dc_max c) then global_lru_link c else butlast (global_lru_link c))
     \<and> (\<forall>q \<in> set (global_lru_link c'). dc_mem c' q = dc_mem c q) \<and> dc_max c' = dc_max c"
proof -
  define g where "g = (if length (global_lru_link c) < unat (dc_max c) then global_lru_link c else butlast (global_lru_link c))"
  have "\<exists>c1 F1. dirent_cache_bucket_insert_entry cmp True fid index ptr c = insert_in_bucket cmp True fid index ptr c1 \<and> cache_inv F1 c1 \<and> first_array F1
     \<and> F1 (hash_bucket fid index) i0 = None \<and> global_lru_link c1 = g \<and> (\<forall>q \<in> insert ptr (set g). dc_mem c1 q = dc_mem c q) \<and> dc_max c1 = dc_max c"
  proof (cases "length (global_lru_link c) < unat (dc_max c)")
    case True
    then have "\<not> dc_max c \<le> dc_size c" using inv(1) by (simp add: cache_inv_def word_le_nat_alt)
    then show ?thesis using inv free(2) True by (intro exI[of _ c] exI[of _ F]) (simp add: dirent_cache_bucket_insert_entry_def g_def)
  next
    case False
    then have full: "dc_max c \<le> dc_size c" "global_lru_link c \<noteq> []"
      using inv(1) by (auto simp: cache_inv_def word_le_nat_alt unat_eq_0)
    from remove_lru_last[OF inv(1) cmp full(2) first_array_safe[OF inv(2)]] obtain c1 F1 where
      c1: "remove_lru cmp (global_lru_link c) c = Some (True, c1)" "cache_inv F1 c1" "\<forall>hb i. F1 hb i \<noteq> None \<longrightarrow> F hb i \<noteq> None"
      "global_lru_link c1 = butlast (global_lru_link c)" "dc_mem c1 = (dc_mem c)(last (global_lru_link c) := None)" "dc_max c1 = dc_max c" by blast
    have "distinct (global_lru_link c)" using inv(1) by (simp add: cache_inv_def lists_ok_def)
    then have "last (global_lru_link c) \<notin> insert ptr (set g)"
      using full(2) new(1) False by (cases "global_lru_link c" rule: rev_cases) (auto simp: g_def)
    moreover have "first_array F1" using c1(3) inv(2) unfolding first_array_def by blast
    moreover have "F1 (hash_bucket fid index) i0 = None" using c1(3) free(2) by blast
    ultimately show ?thesis using c1 full free(2) False
      by (intro exI[of _ c1] exI[of _ F1]) (auto simp: dirent_cache_bucket_insert_entry_def g_def)
  qed
  then obtain c1 F1 where c1: "dirent_cache_bucket_insert_entry cmp True fid index ptr c = insert_in_bucket cmp True fid index ptr c1" "cache_inv F1 c1" "first_array F1"
    "F1 (hash_bucket fid index) i0 = None" "global_lru_link c1 = g" "\<forall>q \<in> insert ptr (set g). dc_mem c1 q = dc_mem c q" "dc_max c1 = dc_max c" by blast
  have g: "set g \<subseteq> set (global_lru_link c)" "length g < unat (dc_max c)"
    using inv(1) by (auto simp: g_def cache_inv_def unat_gt_0 dest: in_set_butlastD)
  have k: "entry_key (dc_mem c1) q = entry_key (dc_mem c) q" if "q \<in> insert ptr (set g)" for q using c1(6) that by (auto simp: entry_key_def)
  have new1: "ptr \<notin> set (global_lru_link c1)" "keyed (dc_mem c1) ptr (fid, index)" "\<forall>q \<in> set (global_lru_link c1). entry_key (dc_mem c1) q \<noteq> (fid, index)"
    using new(1,3,4) g(1) k c1(5,6) by (auto simp: keyed_def)
  have room: "length (global_lru_link c1) < unat (dc_max c1)" "\<exists>i < 256. F1 (hash_bucket fid index) i = None"
    using g(2) c1(4,5,7) free(1) by (auto intro!: exI[of _ i0])
  from insert_room[OF c1(2) new1(1) new(2) new1(2,3) room] obtain c' i where
    c': "insert_in_bucket cmp True fid index ptr c1 = Some (True, c')" "\<forall>j < i. F1 (hash_bucket fid index) j \<noteq> None"
    "cache_inv (F1(hash_bucket fid index := (F1 (hash_bucket fid index))(i \<mapsto> ptr))) c'" "global_lru_link c' = ptr # global_lru_link c1" "dc_mem c' = dc_mem c1"
    "dc_max c' = dc_max c1" by blast
  have "i \<le> i0" using c'(2) c1(4) by (meson not_le)
  then have "first_array (F1(hash_bucket fid index := (F1 (hash_bucket fid index))(i \<mapsto> ptr)))" using c1(3) free(1) by (auto simp: first_array_def)
  then show ?thesis using c' c1 by (auto simp: g_def)
qed


text \<open>Keys of which a bucket has at most 32.\<close>

definition thin :: "key set \<Rightarrow> bool" where
  "thin U \<longleftrightarrow> (\<forall>hb. finite {k \<in> U. bucket_of k = hb} \<and> card {k \<in> U. bucket_of k = hb} \<le> 32)"

lemma thin_room:
  assumes inv: "cache_inv F c" and U: "thin U" "entry_key (dc_mem c) ` set (global_lru_link c) \<subseteq> U" "(fid, index) \<in> U"
    and new: "\<forall>q \<in> set (global_lru_link c). entry_key (dc_mem c) q \<noteq> (fid, index)"
  shows "\<exists>i < 32. F (hash_bucket fid index) i = None"
proof (rule ccontr)
  let ?hb = "hash_bucket fid index" and ?k = "\<lambda>i. entry_key (dc_mem c) (the (F (hash_bucket fid index) i))"
  assume "\<not> ?thesis"
  then have full: "F ?hb i = Some (the (F ?hb i))" if "i < 32" for i using that by fastforce
  note d = inv_slotD[OF inv full]
  have "inj_on ?k {..<32}"
  proof (rule inj_onI)
    fix i j assume ij: "i \<in> {..<32}" "j \<in> {..<32}" "?k i = ?k j"
    then have "the (F ?hb i) = the (F ?hb j)" using inv d(1)[of i] d(1)[of j] by (auto simp: cache_inv_def inj_on_def)
    then show "i = j" using inv_inj[OF inv full[of j], of i] full[of i] ij by simp
  qed
  then have "card (?k ` {..<32}) = 32" by (simp add: card_image)
  moreover have "?k ` {..<32} \<subseteq> {k \<in> U. bucket_of k = ?hb} - {(fid, index)}" using d(1,4) U(2) new by fastforce
  then have "card (?k ` {..<32}) \<le> card ({k \<in> U. bucket_of k = ?hb} - {(fid, index)})" using U(1) by (intro card_mono) (auto simp: thin_def)
  moreover have "card ({k \<in> U. bucket_of k = ?hb} - {(fid, index)}) < card {k \<in> U. bucket_of k = ?hb}"
    using U(1,3) by (intro card_Diff1_less) (auto simp: thin_def)
  moreover have "card {k \<in> U. bucket_of k = ?hb} \<le> 32" using U(1) by (simp add: thin_def)
  ultimately show False by linarith
qed

section \<open>Sessions\<close>

datatype dirent_request = Load key | Drop key

fun request_key :: "dirent_request \<Rightarrow> key" where
  "request_key (Load k) = k"
| "request_key (Drop k) = k"

fun run_request :: "(uuid \<Rightarrow> uuid \<Rightarrow> int) \<Rightarrow> dirent_request \<Rightarrow> nat \<times> dirent_cache_main_t \<Rightarrow> (nat \<times> nat \<times> dirent_cache_main_t) option" where
  "run_request cmp (Load (fid, index)) s = load_root cmp fid index s"
| "run_request cmp (Drop (fid, index)) s = drop_root cmp fid index s"

text \<open>The specification: a list of at most \<open>m\<close> keys and entries, the last used first.\<close>

fun lru_spec :: "nat \<Rightarrow> dirent_request \<Rightarrow> (key \<times> nat) list \<Rightarrow> nat \<Rightarrow> (key \<times> nat) list \<Rightarrow> bool" where
  "lru_spec m (Load k) l r l' \<longleftrightarrow> (case map_of l k of
       Some ptr \<Rightarrow> r = ptr \<and> l' = (k, ptr) # remove1 (k, ptr) l
     | None \<Rightarrow> r \<noteq> 0 \<and> r \<notin> snd ` set l \<and> l' = (k, r) # (if length l < m then l else butlast l))"
| "lru_spec m (Drop k) l r l' \<longleftrightarrow> (case map_of l k of
       Some ptr \<Rightarrow> r = ptr \<and> l' = remove1 (k, ptr) l
     | None \<Rightarrow> r = 0 \<and> l' = l)"

definition lru_view :: "nat \<times> dirent_cache_main_t \<Rightarrow> (key \<times> nat) list" where
  "lru_view s = map (\<lambda>ptr. (entry_key (dc_mem (snd s)) ptr, ptr)) (global_lru_link (snd s))"

definition dirent_good :: "key set \<Rightarrow> nat \<Rightarrow> nat \<times> dirent_cache_main_t \<Rightarrow> bool" where
  "dirent_good U m s \<longleftrightarrow> (case s of (n, c) \<Rightarrow> (\<exists>F. cache_inv F c \<and> first_array F) \<and> entry_key (dc_mem c) ` set (global_lru_link c) \<subseteq> U
     \<and> (\<forall>ptr \<in> set (global_lru_link c). ptr < n) \<and> 0 < n \<and> unat (dc_max c) = m)"

definition dirent_ok :: "(uuid \<Rightarrow> uuid \<Rightarrow> int) \<Rightarrow> key set \<Rightarrow> dirent_request \<Rightarrow> bool" where
  "dirent_ok cmp U q \<longleftrightarrow> uuid_ok cmp \<and> thin U \<and> request_key q \<in> U"

lemma map_of_lru_view:
  assumes "inj_on (entry_key (dc_mem c)) (set (global_lru_link c))"
  shows "map_of (lru_view (n, c)) k = Some ptr \<longleftrightarrow> ptr \<in> set (global_lru_link c) \<and> entry_key (dc_mem c) ptr = k"
proof -
  have "map_of (map (\<lambda>ptr. (entry_key (dc_mem c) ptr, ptr)) l) k = Some ptr \<longleftrightarrow> ptr \<in> set l \<and> entry_key (dc_mem c) ptr = k"
    if "inj_on (entry_key (dc_mem c)) (set l)" for l
    using that by (induction l) (auto simp: inj_on_def)
  then show ?thesis using assms by (simp add: lru_view_def)
qed

lemma lru_view_remove1: "map (\<lambda>ptr. (K ptr, ptr)) (remove1 ptr l) = remove1 (K ptr, ptr) (map (\<lambda>ptr. (K ptr, ptr)) l)"
  by (induction l) auto

lemma word_of_uint [simp]: "word_of_int (uint (w :: u16)) = w"
  by simp

text \<open>A request for a root file that is in the cache, and for one that is not.\<close>

lemma hit_or_miss:
  assumes "cache_inv F c"
  shows "(\<exists>ptr \<in> set (global_lru_link c). entry_key (dc_mem c) ptr = k \<and> map_of (lru_view (n, c)) k = Some ptr)
     \<or> (\<forall>ptr \<in> set (global_lru_link c). entry_key (dc_mem c) ptr \<noteq> k) \<and> map_of (lru_view (n, c)) k = None"
  using assms map_of_lru_view[of c n k] by (cases "map_of (lru_view (n, c)) k") (auto simp: cache_inv_def)


text \<open>What a request is to give.\<close>

definition served :: "key set \<Rightarrow> nat \<Rightarrow> dirent_request \<Rightarrow> nat \<times> dirent_cache_main_t \<Rightarrow> (nat \<times> nat \<times> dirent_cache_main_t) option \<Rightarrow> bool" where
  "served U m q s res \<longleftrightarrow> (\<exists>r s'. res = Some (r, s') \<and> dirent_good U m s' \<and> lru_spec m q (lru_view s) r (lru_view s'))"

lemma load_root_served:
  assumes good: "dirent_good U m (n, c)" and ok: "uuid_ok cmp" "thin U" "(fid, index) \<in> U"
  shows "served U m (Load (fid, index)) (n, c) (load_root cmp fid index (n, c))"
proof -
  obtain F where F: "cache_inv F c" "first_array F" using good by (auto simp: dirent_good_def)
  from hit_or_miss[OF F(1), of "(fid, index)" n] show ?thesis
  proof (elim disjE bexE conjE)
    fix ptr assume p: "ptr \<in> set (global_lru_link c)" "entry_key (dc_mem c) ptr = (fid, index)" "map_of (lru_view (n, c)) (fid, index) = Some ptr"
    obtain i where "F (bucket_of (entry_key (dc_mem c) ptr)) i = Some ptr" by (rule inv_slot[OF F(1) p(1)])
    then have nz: "ptr \<noteq> 0" by (rule inv_slotD(2)[OF F(1)])
    from search_hit[OF F(1) ok(1) p(1,2)] obtain c' where c': "dirent_cache_bucket_search_entry cmp fid index c = Some (ptr, c')" "cache_inv F c'"
      "global_lru_link c' = ptr # remove1 ptr (global_lru_link c)" "dc_mem c' = dc_mem c" "dc_max c' = dc_max c" by blast
    have "load_root cmp fid index (n, c) = Some (ptr, n, c')"
      using c'(1) nz by (simp add: load_root_def dirent_get_root_entry_from_cache_def)
    moreover have "dirent_good U m (n, c')" using good F(2) c'(2-5) p(1) by (auto simp: dirent_good_def dest: notin_set_remove1 set_remove1_subset[THEN subsetD])
    moreover have "lru_view (n, c') = ((fid, index), ptr) # remove1 ((fid, index), ptr) (lru_view (n, c))"
      using c'(3,4) p(2) lru_view_remove1[of "entry_key (dc_mem c)" ptr "global_lru_link c"] by (simp add: lru_view_def)
    ultimately show ?thesis using p(3) by (simp add: served_def)
  next
    assume miss: "\<forall>ptr \<in> set (global_lru_link c). entry_key (dc_mem c) ptr \<noteq> (fid, index)" "map_of (lru_view (n, c)) (fid, index) = None"
    let ?c = "c\<lparr>dc_mem := (dc_mem c)(n \<mapsto> (fid, ucast index))\<rparr>"
    have n: "n \<notin> set (global_lru_link c)" "n \<noteq> 0" using good by (auto simp: dirent_good_def)
    have inv: "cache_inv F ?c" by (rule cache_inv_mem[OF F(1)]) (use n in auto)
    have same: "entry_key (dc_mem ?c) q = entry_key (dc_mem c) q" if "q \<in> set (global_lru_link c)" for q using that n by (auto simp: entry_key_def)
    obtain i0 where "i0 < 32" "F (hash_bucket fid index) i0 = None"
      using thin_room[OF F(1) ok(2) _ ok(3) miss(1)] good by (auto simp: dirent_good_def)
    from insert_entry_served[OF inv F(2) ok(1) _ n(2) _ _ this] obtain c' F' where
      c': "dirent_cache_bucket_insert_entry cmp True fid index n ?c = Some (True, c')" "cache_inv F' c'" "first_array F'"
      "global_lru_link c' = n # (if length (global_lru_link c) < unat (dc_max c) then global_lru_link c else butlast (global_lru_link c))"
      "\<forall>q \<in> set (global_lru_link c'). dc_mem c' q = dc_mem ?c q" "dc_max c' = dc_max c"
      using n(1) miss(1) same by (auto simp: keyed_def)
    have "load_root cmp fid index (n, c) = Some (n, n + 1, c')"
      using search_miss[OF F(1) ok(1) miss(1)] c'(1) by (simp add: load_root_def dirent_get_root_entry_from_cache_def dirent_put_root_entry_to_cache_def)
    moreover have k: "entry_key (dc_mem c') q = (if q = n then (fid, index) else entry_key (dc_mem c) q)" if "q \<in> set (global_lru_link c')" for q
      using c'(5) that keyed_entry_key[of "dc_mem c'" n "(fid, index)"] by (auto simp: entry_key_def keyed_def)
    moreover have sub: "set (global_lru_link c') \<subseteq> insert n (set (global_lru_link c))" using c'(4) by (auto dest: in_set_butlastD split: if_splits)
    then have "dirent_good U m (n + 1, c')" using good c'(2,3,6) k ok(3) by (fastforce simp: dirent_good_def)
    moreover have "lru_view (n + 1, c') = ((fid, index), n) # (if length (lru_view (n, c)) < m then lru_view (n, c) else butlast (lru_view (n, c)))"
      using k c'(4) good n(1) by (auto simp: lru_view_def dirent_good_def map_butlast[symmetric] dest: in_set_butlastD)
    ultimately show ?thesis using miss(2) n by (auto simp: served_def lru_view_def)
  qed
qed

lemma drop_hit:
  assumes inv: "cache_inv F c" and ok: "uuid_ok cmp" and p: "ptr \<in> set (global_lru_link c)" "entry_key (dc_mem c) ptr = (fid, index)"
    and safe: "\<And>i. F (hash_bucket fid index) i = Some ptr \<Longrightarrow> safe_removal (F (hash_bucket fid index)) i"
  shows "\<exists>c' i. drop_root cmp fid index (n, c) = Some (ptr, n, c') \<and> F (hash_bucket fid index) i = Some ptr
     \<and> cache_inv (F(hash_bucket fid index := (F (hash_bucket fid index))(i := None))) c'
     \<and> global_lru_link c' = remove1 ptr (global_lru_link c) \<and> dc_mem c' = (dc_mem c)(ptr := None) \<and> dc_max c' = dc_max c"
proof -
  obtain i where "F (bucket_of (entry_key (dc_mem c) ptr)) i = Some ptr" by (rule inv_slot[OF inv p(1)])
  then have nz: "ptr \<noteq> 0" by (rule inv_slotD(2)[OF inv])
  from search_hit[OF inv ok p] obtain c1 where c1: "dirent_cache_bucket_search_entry cmp fid index c = Some (ptr, c1)" "cache_inv F c1"
    "global_lru_link c1 = ptr # remove1 ptr (global_lru_link c)" "dc_mem c1 = dc_mem c" "dc_max c1 = dc_max c" by blast
  from remove_hit[OF c1(2) ok, of ptr fid index] safe obtain c2 i where
    c2: "dirent_cache_bucket_remove_entry cmp fid index c1 = Some (True, c2)" "F (hash_bucket fid index) i = Some ptr"
    "cache_inv (F(hash_bucket fid index := (F (hash_bucket fid index))(i := None))) c2" "global_lru_link c2 = remove1 ptr (global_lru_link c)"
    "dc_mem c2 = dc_mem c" "dc_max c2 = dc_max c" using c1(3-5) p(2) by auto
  have d: "ptr \<notin> set (global_lru_link c2)" using inv c2(4) by (auto simp: cache_inv_def lists_ok_def)
  then have "cache_inv (F(hash_bucket fid index := (F (hash_bucket fid index))(i := None))) (c2\<lparr>dc_mem := (dc_mem c2)(ptr := None)\<rparr>)"
    by (intro cache_inv_mem[OF c2(3)]) auto
  moreover have "drop_root cmp fid index (n, c) = Some (ptr, n, c2\<lparr>dc_mem := (dc_mem c2)(ptr := None)\<rparr>)"
    using c1(1) c2(1) nz by (simp add: drop_root_def dirent_get_root_entry_from_cache_def dirent_remove_root_entry_from_cache_def)
  ultimately show ?thesis using c2 by (intro exI[of _ "c2\<lparr>dc_mem := (dc_mem c2)(ptr := None)\<rparr>"] exI[of _ i]) simp
qed

lemma drop_root_served:
  assumes good: "dirent_good U m (n, c)" and ok: "uuid_ok cmp"
  shows "served U m (Drop (fid, index)) (n, c) (drop_root cmp fid index (n, c))"
proof -
  obtain F where F: "cache_inv F c" "first_array F" using good by (auto simp: dirent_good_def)
  from hit_or_miss[OF F(1), of "(fid, index)" n] show ?thesis
  proof (elim disjE bexE conjE)
    fix ptr assume p: "ptr \<in> set (global_lru_link c)" "entry_key (dc_mem c) ptr = (fid, index)" "map_of (lru_view (n, c)) (fid, index) = Some ptr"
    from drop_hit[OF F(1) ok p(1,2) first_array_safe[OF F(2)]] obtain c' i where
      c': "drop_root cmp fid index (n, c) = Some (ptr, n, c')" "cache_inv (F(hash_bucket fid index := (F (hash_bucket fid index))(i := None))) c'"
      "global_lru_link c' = remove1 ptr (global_lru_link c)" "dc_mem c' = (dc_mem c)(ptr := None)" "dc_max c' = dc_max c" by blast
    have "distinct (global_lru_link c)" using F(1) by (simp add: cache_inv_def lists_ok_def)
    then have k: "entry_key (dc_mem c') q = entry_key (dc_mem c) q" if "q \<in> set (global_lru_link c')" for q using that c'(3,4) by (auto simp: entry_key_def)
    moreover have "first_array (F(hash_bucket fid index := (F (hash_bucket fid index))(i := None)))" using F(2) by (auto simp: first_array_def)
    moreover have "set (global_lru_link c') \<subseteq> set (global_lru_link c)" using c'(3) by (simp add: set_remove1_subset)
    ultimately have "dirent_good U m (n, c')" using good c'(2,5) unfolding dirent_good_def by fastforce
    moreover have "lru_view (n, c') = remove1 ((fid, index), ptr) (lru_view (n, c))"
      using k c'(3) p(2) lru_view_remove1[of "entry_key (dc_mem c)" ptr "global_lru_link c"] by (simp add: lru_view_def cong: map_cong)
    moreover note c'(1)
    ultimately show ?thesis using p(3) by (auto simp: served_def)
  next
    assume miss: "\<forall>ptr \<in> set (global_lru_link c). entry_key (dc_mem c) ptr \<noteq> (fid, index)" "map_of (lru_view (n, c)) (fid, index) = None"
    then show ?thesis using search_miss[OF F(1) ok miss(1)] good by (simp add: served_def drop_root_def dirent_get_root_entry_from_cache_def)
  qed
qed

lemma dirent_request_served: "dirent_good U m s \<Longrightarrow> dirent_ok cmp U q \<Longrightarrow> served U m q s (run_request cmp q s)"
  using load_root_served drop_root_served by (cases q; cases s) (auto simp: dirent_ok_def)

interpretation dirent: contract "dirent_good U m" "dirent_ok cmp U" "run_request cmp" lru_view "lru_spec m" for U m cmp
  by unfold_locales (use dirent_request_served[of U m _ cmp] in \<open>fastforce simp: served_def\<close>)+


section \<open>Results\<close>

text \<open>
  C22. Over any sequence of loads and deletions of root files, of which no bucket has more than 32, the cache is a list of entries, the last used first: a file that is in the list is found,
  a file that is not is added, and the last one leaves when the list has 256000 entries. Every request returns.
\<close>

theorem dirent_cache_is_lru:
  assumes "uuid_ok uuid_compare" "thin U" "\<forall>q \<in> set qs. request_key q \<in> U"
  shows "\<exists>rs s. session (run_request uuid_compare) qs (1, dirent_cache_level0_initialize) = Some (rs, s)
     \<and> session_spec (lru_spec 256000) qs [] rs (lru_view s)"
proof -
  have m: "unat (dc_max dirent_cache_level0_initialize) = 256000"
    by (simp add: dirent_cache_level0_initialize_def DIRENT_BUCKET_MAX_ROOT_DIRENT_def)
  have g: "global_lru_link dirent_cache_level0_initialize = []" by (simp add: dirent_cache_level0_initialize_def)
  have "dirent_good U 256000 (1, dirent_cache_level0_initialize)"
    using cache_inv_init m g by (auto simp: dirent_good_def first_array_def intro!: exI[of _ "\<lambda>_ _. None"])
  from dirent.session_ok[OF this, of qs uuid_compare] assms show ?thesis using g by (auto simp: dirent_ok_def lru_view_def)
qed

text \<open>A comparison of identifiers, as \<^verbatim>\<open>libuuid\<close> documents it.\<close>

definition sample_compare :: "uuid \<Rightarrow> uuid \<Rightarrow> int" where
  "sample_compare a b = (if a = b then 0 else 1)"

lemma sample_compare_ok: "uuid_ok sample_compare"
  by (simp add: uuid_ok_def sample_compare_def)

theorem dirent_cache_is_lru_witness:
  "\<exists>r s. session (run_request sample_compare) [Load (replicate 16 7, 3), Load (replicate 16 7, 3)] (1, dirent_cache_level0_initialize) = Some ([r, r], s)
     \<and> lru_view s = [((replicate 16 7, 3), r)]"
proof -
  have "thin {(replicate 16 7, 3)}" unfolding thin_def by (auto simp: card_insert_if intro: order_trans[OF card_mono[of "{(replicate 16 7, 3)}"]])
  from dirent_cache_is_lru[OF sample_compare_ok this, of "[Load (replicate 16 7, 3), Load (replicate 16 7, 3)]"]
  show ?thesis by (auto simp: session_spec_simps)
qed



end
