(* ===== verification/Dirent_Lost.thy ===== *)
theory Dirent_Lost
  imports Dirent_Cache
begin

text \<open>
  The cache of the root directory files with more than 32 keys in a bucket. The removal of an entry frees its array of slots when four bytes of the bitmap show only free slots; the bytes are those of the array only for
  the first array. This theory follows a session that loses an entry.
\<close>

text \<open>The keys at the positions \<open>S\<close> of \<open>ks\<close> are in the slots with these numbers.\<close>

definition slots_of :: "key list \<Rightarrow> nat set \<Rightarrow> u16 \<Rightarrow> nat \<Rightarrow> nat option" where
  "slots_of ks S hb i = (if hb = bucket_of (ks ! 0) \<and> i \<in> S then Some (i + 1) else None)"

definition occupied :: "key list \<Rightarrow> nat set \<Rightarrow> dirent_cache_main_t \<Rightarrow> bool" where
  "occupied ks S c \<longleftrightarrow> cache_inv (slots_of ks S) c \<and> (\<forall>i \<in> S. entry_key (dc_mem c) (i + 1) = ks ! i) \<and> dc_max c = DIRENT_BUCKET_MAX_ROOT_DIRENT"

definition one_bucket :: "key list \<Rightarrow> bool" where
  "one_bucket ks \<longleftrightarrow> distinct ks \<and> length ks = 41 \<and> list_all (\<lambda>k. bucket_of k = bucket_of (ks ! 0)) ks"

lemma one_bucketD:
  assumes "one_bucket ks" "i < 41"
  shows "hash_bucket (fst (ks ! i)) (snd (ks ! i)) = hash_bucket (fst (ks ! 0)) (snd (ks ! 0))" "j < 41 \<Longrightarrow> ks ! i = ks ! j \<longleftrightarrow> i = j"
proof -
  have "distinct ks" "length ks = 41" "list_all (\<lambda>k. bucket_of k = bucket_of (ks ! 0)) ks" using assms(1) by (simp_all only: one_bucket_def)
  then have "\<forall>j < length ks. hash_bucket (fst (ks ! j)) (snd (ks ! j)) = hash_bucket (fst (ks ! 0)) (snd (ks ! 0))" unfolding list_all_length by blast
  then show "hash_bucket (fst (ks ! i)) (snd (ks ! i)) = hash_bucket (fst (ks ! 0)) (snd (ks ! 0))" using assms(2) \<open>length ks = 41\<close> by metis
  show "j < 41 \<Longrightarrow> ks ! i = ks ! j \<longleftrightarrow> i = j" using nth_eq_iff_index_eq[OF \<open>distinct ks\<close>] assms(2) \<open>length ks = 41\<close> by metis
qed

lemma occupied_global:
  assumes "occupied ks S c"
  shows "set (global_lru_link c) = Suc ` S"
  using assms by (auto simp: occupied_def cache_inv_def lists_ok_def slots_of_def ran_def)

lemma load_next:
  assumes ks: "one_bucket ks" and occ: "occupied ks {..<n} c" and n: "n < 41" and cmp: "uuid_ok cmp"
  shows "\<exists>c'. run_request cmp (Load (ks ! n)) (n + 1, c) = Some (n + 1, n + 2, c') \<and> occupied ks {..<Suc n} c'"
proof -
  obtain fid index where k: "ks ! n = (fid, index)" by fastforce
  let ?c = "c\<lparr>dc_mem := (dc_mem c)(n + 1 \<mapsto> (fid, ucast index))\<rparr>" and ?F = "slots_of ks {..<n}"
  have inv: "cache_inv ?F c" and K: "\<forall>i < n. entry_key (dc_mem c) (i + 1) = ks ! i" and mx: "dc_max c = DIRENT_BUCKET_MAX_ROOT_DIRENT"
    using occ by (auto simp: occupied_def)
  have g: "set (global_lru_link c) = Suc ` {..<n}" by (rule occupied_global[OF occ])
  have miss: "\<forall>q \<in> set (global_lru_link c). entry_key (dc_mem c) q \<noteq> (fid, index)"
  proof
    fix q assume "q \<in> set (global_lru_link c)"
    then obtain i where "i < n" "q = i + 1" using g by auto
    then show "entry_key (dc_mem c) q \<noteq> (fid, index)" using K one_bucketD(2)[OF ks n, of i] n k by auto
  qed
  have inv1: "cache_inv ?F ?c" by (rule cache_inv_mem[OF inv]) (use g in auto)
  have new: "n + 1 \<notin> set (global_lru_link ?c)" "keyed (dc_mem ?c) (n + 1) (fid, index)" "\<forall>q \<in> set (global_lru_link ?c). entry_key (dc_mem ?c) q \<noteq> (fid, index)"
    using g miss by (auto simp: keyed_def entry_key_def)
  have hb: "hash_bucket fid index = bucket_of (ks ! 0)" using one_bucketD(1)[OF ks n] k by simp
  have "distinct (global_lru_link c)" using inv by (simp add: cache_inv_def lists_ok_def)
  then have len: "length (global_lru_link c) = n" using distinct_card[of "global_lru_link c"] g by (simp add: card_image)
  have room: "length (global_lru_link ?c) < unat (dc_max ?c)" "\<exists>i < 256. ?F (hash_bucket fid index) i = None"
    using len n mx by (auto simp: DIRENT_BUCKET_MAX_ROOT_DIRENT_def slots_of_def)
  from insert_room[OF inv1 new(1) _ new(2,3) room, of cmp] obtain c' i where
    c': "insert_in_bucket cmp True fid index (n + 1) ?c = Some (True, c')" "?F (hash_bucket fid index) i = None" "\<forall>j < i. ?F (hash_bucket fid index) j \<noteq> None"
    "cache_inv (?F(hash_bucket fid index := (?F (hash_bucket fid index))(i \<mapsto> n + 1))) c'" "dc_mem c' = dc_mem ?c" "dc_max c' = dc_max ?c" by auto
  have i: "i = n" using c'(2,3) hb by (auto simp: slots_of_def) (metis lessThan_iff nat_neq_iff not_less_iff_gr_or_eq option.simps(3))
  have "?F(hash_bucket fid index := (?F (hash_bucket fid index))(i \<mapsto> n + 1)) = slots_of ks {..<Suc n}"
    using hb i by (auto simp: slots_of_def fun_eq_iff)
  moreover have "entry_key (dc_mem c') (j + 1) = ks ! j" if "j < Suc n" for j
    using that K k c'(5) keyed_entry_key[OF new(2)] by (cases "j = n") (auto simp: entry_key_def)
  ultimately have "occupied ks {..<Suc n} c'" using c'(4,6) mx by (simp add: occupied_def)
  moreover have "\<not> dc_max c \<le> dc_size c" using inv len mx n by (simp add: cache_inv_def word_le_nat_alt DIRENT_BUCKET_MAX_ROOT_DIRENT_def)
  then have "run_request cmp (Load (ks ! n)) (n + 1, c) = Some (n + 1, n + 2, c')"
    using search_miss[OF inv cmp miss] c'(1) k
    by (simp add: load_root_def dirent_get_root_entry_from_cache_def dirent_put_root_entry_to_cache_def dirent_cache_bucket_insert_entry_def)
  ultimately show ?thesis by blast
qed

lemma load_all:
  assumes "one_bucket ks" "uuid_ok cmp" "n \<le> 41"
  shows "\<exists>rs c. session (run_request cmp) (map Load (take n ks)) (1, dirent_cache_level0_initialize) = Some (rs, n + 1, c) \<and> occupied ks {..<n} c"
  using assms(3)
proof (induction n)
  case 0
  have "slots_of ks {} = (\<lambda>_ _. None)" by (simp add: slots_of_def fun_eq_iff)
  then show ?case using cache_inv_init by (simp add: occupied_def dirent_cache_level0_initialize_def)
next
  case (Suc n)
  then obtain rs c where c: "session (run_request cmp) (map Load (take n ks)) (1, dirent_cache_level0_initialize) = Some (rs, n + 1, c)" "occupied ks {..<n} c" by auto
  have "take (Suc n) ks = take n ks @ [ks ! n]" using Suc.prems assms(1) by (simp add: take_Suc_conv_app_nth one_bucket_def)
  with load_next[OF assms(1) c(2) _ assms(2)] c(1) Suc.prems show ?case by (auto simp: session_append)
qed


lemma drop_one:
  assumes ks: "one_bucket ks" and occ: "occupied ks S c" and j: "j \<in> S" "j < 41" and cmp: "uuid_ok cmp"
    and safe: "safe_removal (slots_of ks S (bucket_of (ks ! 0))) j"
  shows "\<exists>c'. run_request cmp (Drop (ks ! j)) (n, c) = Some (j + 1, n, c') \<and> occupied ks (S - {j}) c'"
proof -
  obtain fid index where k: "ks ! j = (fid, index)" by fastforce
  let ?F = "slots_of ks S"
  have hb: "hash_bucket fid index = bucket_of (ks ! 0)" using one_bucketD(1)[OF ks j(2)] k by simp
  have inv: "cache_inv ?F c" using occ by (simp add: occupied_def)
  have p: "j + 1 \<in> set (global_lru_link c)" "entry_key (dc_mem c) (j + 1) = (fid, index)" using occ j(1) k occupied_global[OF occ] by (auto simp: occupied_def)
  have "safe_removal (?F (hash_bucket fid index)) i" if "?F (hash_bucket fid index) i = Some (j + 1)" for i
    using that safe hb by (auto simp: slots_of_def split: if_splits)
  from drop_hit[OF inv cmp p this, of n] obtain c' i where
    c': "drop_root cmp fid index (n, c) = Some (j + 1, n, c')" "?F (hash_bucket fid index) i = Some (j + 1)"
    "cache_inv (?F(hash_bucket fid index := (?F (hash_bucket fid index))(i := None))) c'" "dc_mem c' = (dc_mem c)(j + 1 := None)" "dc_max c' = dc_max c" by blast
  have "i = j" using c'(2) by (simp add: slots_of_def split: if_splits)
  then have "?F(hash_bucket fid index := (?F (hash_bucket fid index))(i := None)) = slots_of ks (S - {j})" using hb by (auto simp: slots_of_def fun_eq_iff)
  then have "occupied ks (S - {j}) c'" using c'(3-5) occ by (auto simp: occupied_def entry_key_def)
  then show ?thesis using c'(1) k by auto
qed

text \<open>After the first drops, the slots before 8 and from \<open>n\<close> on are in use.\<close>

lemma drop_until_39:
  assumes "one_bucket ks" "uuid_ok cmp" "occupied ks {..<41} c" "8 \<le> n" "n \<le> 39"
  shows "\<exists>rs c'. session (run_request cmp) (map (\<lambda>i. Drop (ks ! i)) [8..<n]) (m, c) = Some (rs, m, c') \<and> occupied ks ({..<41} - {8..<n}) c'"
  using assms(4,5)
proof (induction n rule: dec_induct)
  case base
  then show ?case using assms(3) by simp
next
  case (step n)
  then obtain rs c' where c': "session (run_request cmp) (map (\<lambda>i. Drop (ks ! i)) [8..<n]) (m, c) = Some (rs, m, c')" "occupied ks ({..<41} - {8..<n}) c'" by auto
  have n: "n \<in> {..<41} - {8..<n}" "n < 41" "n < 39" using step by auto
  have "\<not> looks_empty (slots_of ks ({..<41} - {8..<n}) (bucket_of (ks ! 0))) n"
  proof (cases "n < 32")
    case True
    then show ?thesis using step(1) unfolding looks_empty_def by (auto simp: slots_of_def intro!: bexI[of _ 0])
  next
    case False
    then have "n div 32 = 1" using n(3) by (simp add: div_nat_eqI)
    then show ?thesis using False n(3) unfolding looks_empty_def by (auto simp: slots_of_def intro!: bexI[of _ 39])
  qed
  then have "safe_removal (slots_of ks ({..<41} - {8..<n}) (bucket_of (ks ! 0))) n" by (simp add: safe_removal_def)
  from drop_one[OF assms(1) c'(2) n(1,2) assms(2) this, of m] obtain c2 where
    c2: "run_request cmp (Drop (ks ! n)) (m, c') = Some (n + 1, m, c2)" "occupied ks ({..<41} - {8..<n} - {n}) c2" by blast
  have "{..<41} - {8..<n} - {n} = {..<41} - {8..<Suc n}" using step(1) by auto
  then show ?case using c'(1) c2 step(1) by (simp add: session_append)
qed

text \<open>The next removal frees the second array, though the slot 40 is in use.\<close>

lemma drop_39_frees:
  assumes ks: "one_bucket ks" and cmp: "uuid_ok cmp" and occ: "occupied ks ({..<41} - {8..<39}) c"
  shows "\<exists>c'. run_request cmp (Drop (ks ! 39)) (n, c) = Some (40, n, c') \<and> 41 \<in> set (global_lru_link c') \<and> entry_key (dc_mem c') 41 = ks ! 40
     \<and> lookup_slot cmp (fst (ks ! 40)) (snd (ks ! 40)) c' = Some None"
proof -
  let ?F = "slots_of ks ({..<41} - {8..<39})"
  let ?f = "?F (bucket_of (ks ! 0))"
  obtain fid index where k: "ks ! 39 = (fid, index)" by fastforce
  have hb: "hash_bucket fid index = bucket_of (ks ! 0)" using one_bucketD(1)[OF ks, of 39] k by simp
  have inv: "cache_inv ?F c" and K: "\<forall>i \<in> {..<41} - {8..<39}. entry_key (dc_mem c) (i + 1) = ks ! i" using occ by (auto simp: occupied_def)
  have p: "40 \<in> set (global_lru_link c)" "entry_key (dc_mem c) 40 = (fid, index)"
    using K[rule_format, of 39] k occupied_global[OF occ] by (auto intro!: image_eqI[of _ _ 39])
  from search_hit[OF inv cmp p] obtain c1 where c1: "dirent_cache_bucket_search_entry cmp fid index c = Some (40, c1)" "cache_inv ?F c1"
    "global_lru_link c1 = 40 # remove1 40 (global_lru_link c)" "dc_mem c1 = dc_mem c" by blast
  have p1: "40 \<in> set (global_lru_link c1)" "entry_key (dc_mem c1) 40 = (fid, index)" using c1(3,4) p(2) by auto
  obtain i where i: "lookup_slot cmp fid index c1 = Some (Some i)" "?F (hash_bucket fid index) i = Some 40" by (rule lookup_slot_hit[OF c1(2) cmp p1])
  have i39: "i = 39" using i(2) by (simp add: slots_of_def split: if_splits)
  obtain e where e: "slot_entry (dc_htable c1 (hash_bucket fid index)) i = Some e" "arr_get (entry_ptr_table e) (int (i mod DIRENT_BUCKET_NB_ENTRY_PER_ARRAY)) = Some 40"
    by (rule slot_entry_inv[OF c1(2) i(2)])
  let ?b = "(dc_htable c1 (hash_bucket fid index))\<lparr>bucket_lru_link := remove1 40 (bucket_lru_link (dc_htable c1 (hash_bucket fid index)))\<rparr>"
  have v: "view (entry_key (dc_mem c)) ?b ?f" using c1(2,4) hb by (simp add: cache_inv_def slots_ok_def)
  have f: "?f 39 = Some 40" by (simp add: slots_of_def)
  obtain q e0 e' where b': "clear_slot 39 ?b = Some (?b\<lparr>bucket_free_bitmap := q, entry_tb := (entry_tb ?b)[39 div 32 := if looks_empty ?f 39 then None else Some e']\<rparr>)"
    "bits_change (bucket_free_bitmap ?b) q {39} True" "entry_tb ?b ! (39 div 32) = Some e0" by (rule clear_slot_eq[OF v f])
  let ?b' = "?b\<lparr>bucket_free_bitmap := q, entry_tb := (entry_tb ?b)[1 := None]\<rparr>"
  have "looks_empty ?f 39" by (auto simp: looks_empty_def slots_of_def)
  then have clear: "clear_slot i ?b = Some ?b'" using b'(1) i39 by simp
  let ?c = "c1\<lparr>global_lru_link := remove1 40 (global_lru_link c1), dc_size := dc_size c1 - 1, dc_htable := (dc_htable c1)(hash_bucket fid index := ?b'),
     dc_mem := (dc_mem c1)(40 := None)\<rparr>"
  have r: "run_request cmp (Drop (ks ! 39)) (n, c) = Some (40, n, ?c)"
    using c1(1) i(1) e clear k
    by (simp add: drop_root_def dirent_get_root_entry_from_cache_def dirent_remove_root_entry_from_cache_def dirent_cache_bucket_remove_entry_def Let_def)
  have bit: "chunk_free q j \<longleftrightarrow> j = 39 \<or> ?f j = None" if "j < 256" for j
    using b'(2) v that view_busy[OF v that] by (auto simp: bits_change_def view_def tables_ok_def)
  have m: "slot_matches cmp (dc_mem ?c) ?b' (fst (ks ! 40)) (snd (ks ! 40)) j = Some (if j < 8 then Some False else None)"
    if "j < 256" "\<not> chunk_free (bucket_free_bitmap ?b') j" for j
  proof (cases "j < 8")
    case True
    then have fj: "?f j = Some (j + 1)" by (simp add: slots_of_def)
    obtain e where e: "arr_get (entry_tb ?b) (int (j div 32)) = Some (Some e)"
      "length (hash_value_table e) = 32" "length (entry_ptr_table e) = 32" "entry_ptr_table e ! (j mod 32) = j + 1" using view_slotE[OF v fj] by metis
    have "keyed (dc_mem c) (j + 1) (entry_key (dc_mem c) (j + 1))" by (rule inv_slotD(3)[OF inv fj])
    moreover have "entry_key (dc_mem c) (j + 1) = ks ! j" "ks ! j \<noteq> ks ! 40" using K True one_bucketD(2)[OF ks, of j 40] by auto
    ultimately show ?thesis using e True cmp c1(4)
      by (auto simp: slot_matches_def bucket_sizes Let_def arr_simps arr_get_Some_iff keyed_def ucast_u16_eq uuid_ok_def prod_eq_iff)
  next
    case False
    then have "j = 40" using that bit[of j] by (auto simp: slots_of_def split: if_splits)
    moreover have "length (entry_tb ?b) = 8" using v by (simp add: view_def tables_ok_def)
    ultimately show ?thesis by (simp add: slot_matches_def bucket_sizes arr_simps)
  qed
  have "length (bucket_free_bitmap ?b') = 32" using b'(2) v by (simp add: bits_change_def view_def tables_ok_def)
  from find_slot_find[OF this m] have "lookup_slot cmp (fst (ks ! 40)) (snd (ks ! 40)) ?c = Some None"
    using one_bucketD(1)[OF ks, of 40] hb by (auto simp: lookup_slot_def Let_def split: option.splits if_splits)
  moreover have "41 \<in> set (global_lru_link ?c)" using c1(3) occupied_global[OF occ] by (auto intro!: image_eqI[of _ _ 40])
  moreover have "entry_key (dc_mem ?c) 41 = ks ! 40" using K[rule_format, of 40] c1(4) by (simp add: entry_key_def)
  ultimately show ?thesis using r by blast
qed

lemma session_steps:
  assumes "session run qs s = Some (rs, s1)" "session run qs' s1 = Some (rs', s2)"
  shows "session run (qs @ qs') s = Some (rs @ rs', s2)"
  using assms by (simp add: session_append)

text \<open>
  C25. Of 41 root files in one bucket, the ones with the numbers 8 to 39 are deleted. The last file is still in the lists of the cache, but it is not found any more: its array was freed.
\<close>

theorem entry_lost:
  assumes "one_bucket ks" "uuid_ok uuid_compare"
  shows "\<exists>rs s. session (run_request uuid_compare) (map Load ks @ map (\<lambda>i. Drop (ks ! i)) [8..<40]) (1, dirent_cache_level0_initialize) = Some (rs, s)
     \<and> (ks ! 40, 41) \<in> set (lru_view s)
     \<and> dirent_cache_bucket_search_entry uuid_compare (fst (ks ! 40)) (snd (ks ! 40)) (snd s) = Some (0, snd s)"
proof -
  have t: "take 41 ks = ks" using assms(1) by (simp add: one_bucket_def)
  obtain rs c where c: "session (run_request uuid_compare) (map Load ks) (1, dirent_cache_level0_initialize) = Some (rs, 42, c)" "occupied ks {..<41} c"
    using load_all[OF assms, of 41] t by auto
  have le: "8 \<le> (39 :: nat)" "(39 :: nat) \<le> 39" by simp_all
  obtain rs1 c1 where c1: "session (run_request uuid_compare) (map (\<lambda>i. Drop (ks ! i)) [8..<39]) (42, c) = Some (rs1, 42, c1)" "occupied ks ({..<41} - {8..<39}) c1"
    using drop_until_39[OF assms c(2) le, of 42] by blast
  obtain c2 where c2: "run_request uuid_compare (Drop (ks ! 39)) (42, c1) = Some (40, 42, c2)" "41 \<in> set (global_lru_link c2)" "entry_key (dc_mem c2) 41 = ks ! 40"
    "lookup_slot uuid_compare (fst (ks ! 40)) (snd (ks ! 40)) c2 = Some None" using drop_39_frees[OF assms c1(2), of 42] by blast
  have u: "[8..<40] = [8..<39] @ [39]" using upt_add_eq_append[of 8 39 1] by simp
  have "session (run_request uuid_compare) (map Load ks @ map (\<lambda>i. Drop (ks ! i)) [8..<40]) (1, dirent_cache_level0_initialize) = Some (rs @ rs1 @ [40], 42, c2)"
    unfolding u map_append by (intro session_steps[OF c(1)] session_steps[OF c1(1)]) (simp add: c2(1))
  moreover have "(ks ! 40, 41) \<in> set (lru_view (42, c2))" using c2(2,3) by (auto simp: lru_view_def intro!: image_eqI[of _ _ 41])
  moreover have "dirent_cache_bucket_search_entry uuid_compare (fst (ks ! 40)) (snd (ks ! 40)) c2 = Some (0, c2)"
    using c2(4) by (simp add: dirent_cache_bucket_search_entry_def)
  ultimately show ?thesis by (intro exI[of _ "rs @ rs1 @ [40]"] exI[of _ "(42, c2)"]) simp
qed

text \<open>41 identifiers with the same bucket.\<close>

definition sample_keys :: "key list" where
  "sample_keys = map (\<lambda>(a, b, c). (replicate 13 0 @ [a, b, c], 0))
    [(0, 222, 35), (3, 208, 16), (4, 9, 17), (8, 61, 10), (10, 48, 35), (13, 42, 27), (14, 12, 14), (15, 142, 38), (16, 212, 13), (18, 237, 15), (19, 199, 29), (21, 147, 28), (23, 83, 8), (24, 138, 23), (25, 167, 51), (27, 202, 37), (28, 115, 38), (29, 40, 50), (33, 169, 33), (34, 190, 18), (35, 1, 62), (38, 49, 51), (39, 53, 21), (39, 250, 50), (43, 43, 33), (44, 50, 32), (45, 137, 60), (47, 77, 63), (51, 108, 21), (52, 235, 63), (53, 97, 10), (53, 188, 6), (58, 182, 61), (59, 101, 42), (60, 236, 53), (61, 214, 12), (62, 53, 7), (63, 114, 27), (65, 22, 1), (65, 110, 21), (65, 195, 27)]"

lemma sample_keys_one_bucket: "one_bucket sample_keys"
  by code_simp

theorem entry_lost_witness:
  "\<exists>rs s. session (run_request sample_compare) (map Load sample_keys @ map (\<lambda>i. Drop (sample_keys ! i)) [8..<40]) (1, dirent_cache_level0_initialize) = Some (rs, s)
     \<and> dirent_cache_bucket_search_entry sample_compare (fst (sample_keys ! 40)) (snd (sample_keys ! 40)) (snd s) = Some (0, snd s)"
  using entry_lost[OF sample_keys_one_bucket sample_compare_ok] by blast



end
