(* ===== verification/Spec2Isabelle.thy ===== *)
theory Spec2Isabelle
  imports Mojette Storcli_Roundtrip Storcli_Ring Storio_Serial Lock_Session Quota_Session Econfig Ip_Filter Dirent_Lost
begin

text \<open>
  RozoFS is a distributed file system whose data are protected by an erasure code, the Mojette transform. A file is cut
  into blocks; the client encodes a block into projections, one for each storage node of the file, and any
  \<^verbatim>\<open>rozofs_inverse\<close> of them give the block back. This library models the core of RozoFS from its C sources and
  proves it correct.

  \<^bold>\<open>The program.\<close> A FUSE client (\<^verbatim>\<open>src/rozofsmount\<close>) asks an export daemon (\<^verbatim>\<open>src/exportd\<close>) for the metadata of a file
  and its locks, and a storage client (\<^verbatim>\<open>src/storcli\<close>) for its data. The storage client orders the requests on a file (the ring), encodes and decodes
  blocks (the transform), checks what the storage nodes return and exchanges messages with the storage daemons (\<^verbatim>\<open>src/storaged\<close>), whose disk threads run the requests
  of a file one after the other. The library \<^verbatim>\<open>rozofs\<close> holds what they share: the layouts, the transform, identifiers, bitmaps, lists, hash tables and tables on disk.

  \<^bold>\<open>Conventions.\<close> A structure is a record, an enumeration a datatype, an operation one definition with the name of the C function. Operations pass their state explicitly.
  \<^term>\<open>None\<close> is an execution that leaves the C standard or does not end: an access out of bounds or to freed memory, a division by zero, a loop without end. Hence a theorem with
  the conclusion \<open>f s = Some r\<close> says that the code returns. Machine integers are words where the code relies on their width, and integers where their bounds are hypotheses.
  Loops are structural recursions or folds; a loop that may not end is a \<^theory_text>\<open>partial_function\<close> in the option type, or has as fuel a bound that the theorems prove to be enough:
  the loops of the lock service get one more than the number of locks of the file, since each turn but the last removes a lock.
  Linked lists are sequences in the components; \<^verbatim>\<open>Linked_List\<close> proves that the pointer operations do what the sequence operations do.

  \<^bold>\<open>The theories.\<close>
  \<^item> \<^verbatim>\<open>Prelude\<close>: machine words, arrays with C indices, C loops as folds in the option monad. \<^verbatim>\<open>Contract\<close>: the locale \<^verbatim>\<open>contract\<close> of a component that
    serves requests: every request returns, keeps the invariant and follows the specification; its lemmas lift this to sessions of requests. The lock service, the tables on
    disk and the hash tables interpret it, and the layers of the quotas its variant for a bounded number of requests.
  \<^item> \<^verbatim>\<open>Mojette_Geometry\<close>, \<^verbatim>\<open>Mojette\<close>, \<^verbatim>\<open>Mojette128\<close>: the transforms of \<^verbatim>\<open>rozofs/common/transform.c\<close>, \<^verbatim>\<open>transform.h\<close> and \<^verbatim>\<open>mojette_transform128.c\<close>. The decoding of
    any set of projections with different slopes gives the block back, within the bounds of every array; the encoding of one projection, which has loops of its own, agrees with that of all.
  \<^item> \<^verbatim>\<open>Layout\<close>: the layout tables of \<^verbatim>\<open>rozofs_srv.c\<close> and their accessors. The sizes that they store are those that the decoder needs.
  \<^item> \<^verbatim>\<open>Fid_Bitmap\<close>: the bitmaps and the identifiers of \<^verbatim>\<open>rozofs.h\<close>.
  \<^item> \<^verbatim>\<open>Storcli_Ctx\<close>, \<^verbatim>\<open>Storcli_Check\<close>: the contexts of a read (\<^verbatim>\<open>rozofs_storcli_transform.h\<close>), the validation of the received headers and the choice of the projections
    (\<^verbatim>\<open>rozofs_storcli_transform_utility.c\<close>, \<^verbatim>\<open>rozofs_storcli_rebuild_prj.c\<close>): the chosen projections are different and of one write, and they are found whenever they are there.
  \<^item> \<^verbatim>\<open>Storcli_Transform\<close>, \<^verbatim>\<open>Storcli_Read\<close>, \<^verbatim>\<open>Storcli_Roundtrip\<close>: the encoding and decoding of messages (\<^verbatim>\<open>rozofs_storcli_transform.c\<close>), and the composition of encoder, storage nodes, check and
    decoder: what was written is read.
  \<^item> \<^verbatim>\<open>Storcli_Ring\<close>: the request ring (\<^verbatim>\<open>storcli_ring.c\<close>): exclusion on blocks; a request waits only for earlier requests of its file, and runs when these are completed.
  \<^item> \<^verbatim>\<open>Storio_Serial\<close>: the serialisation of the requests in the storage daemon (\<^verbatim>\<open>storio_serialization.c\<close>, \<^verbatim>\<open>storio_disk_thread.c\<close>) as a step relation between the main thread and the
    disk threads, each section under a lock being one step.
  \<^item> \<^verbatim>\<open>Lock_Range\<close>, \<^verbatim>\<open>Lock_Service\<close>, \<^verbatim>\<open>Lock_Session\<close>: the file locks (\<^verbatim>\<open>rozofs_file_lock.c\<close>, \<^verbatim>\<open>cache.c\<close>, \<^verbatim>\<open>export_tracking.c\<close>): ranges, the lists of locks by file and by client,
    and the refinement of every session of calls to a table of the locked offsets of the owners and of the polls of the clients, with the exact answers.
  \<^item> \<^verbatim>\<open>Linked_List\<close>, \<^verbatim>\<open>List_Sort\<close>: the lists of \<^verbatim>\<open>list.h\<close> on an explicit memory, and their merge sort, in the locale \<^verbatim>\<open>sort_cmp\<close> of a comparison. \<^verbatim>\<open>Htable\<close>: the hash tables of \<^verbatim>\<open>htable.c\<close>; the locale \<^verbatim>\<open>hash_keys\<close> is what they
    ask of their keys.
  \<^item> \<^verbatim>\<open>Disk_Table\<close>: the tables of records of \<^verbatim>\<open>disk_table_service.c\<close> on files of bytes, with system calls that may fail.
  \<^item> \<^verbatim>\<open>Quota_Wbcache\<close>, \<^verbatim>\<open>Quota_Cache\<close>, \<^verbatim>\<open>Quota\<close>, \<^verbatim>\<open>Quota_Session\<close>: the quotas of users, groups and shares (\<^verbatim>\<open>quota_writeback_cache.c\<close>, \<^verbatim>\<open>rozofs_quota.c\<close>,
    \<^verbatim>\<open>rozofs_quota_intf_srv_thread.c\<close>): the write-back cache above the tables on disk, the cache of entries above it, which interprets the locale of the hash tables on its keys, the accounts with
    their limits and grace times, and the messages. Each layer refines a function from keys to quotas, and the whole service its specification over sessions of requests. The counters have 32 and 64 bits: the
    invariants carry the number of requests that are still safe, which is the budget of the locale \<^verbatim>\<open>budget_contract\<close> (\<^verbatim>\<open>Contract\<close>).
  \<^item> \<^verbatim>\<open>Selection\<close>, \<^verbatim>\<open>Volume\<close>, \<^verbatim>\<open>Volume_Select\<close>, \<^verbatim>\<open>Volume_Service\<close>: the volumes (\<^verbatim>\<open>volume.c\<close>): their copies and balancing, and the three rules that choose the storages of a new file. The locale \<^verbatim>\<open>scanner\<close>
    of \<^verbatim>\<open>Selection\<close> states what a scan over the storages of a cluster promises; the strict and the weighted rules interpret it. A file gets different storages, spread over the hosts, and a request is
    served when a cluster has enough storages; with the rules that look at the free space, enough of them have to be online and not full.
  \<^item> \<^verbatim>\<open>Econfig\<close>: the configuration of the export daemon (\<^verbatim>\<open>econfig.c\<close>, \<^verbatim>\<open>exportd.c\<close>): numbering of the hosts, validation, loading of the volumes. The volumes of a validated configuration serve their exports with the strict rules.
  \<^item> \<^verbatim>\<open>Ip_Filter\<close>: the filters of client addresses (\<^verbatim>\<open>rozofs_ip4_flt.h\<close>, \<^verbatim>\<open>econfig.c\<close>): the tree of subnets decides an address by the longest prefix.
  \<^item> \<^verbatim>\<open>Dirent_Bitmap\<close>, \<^verbatim>\<open>Dirent_Bucket\<close>, \<^verbatim>\<open>Dirent_Cache\<close>, \<^verbatim>\<open>Dirent_Lost\<close>: the directory files (\<^verbatim>\<open>mdirent.h\<close>, \<^verbatim>\<open>dirent_file.c\<close>). The searches in bitmaps that skip words are those bit by bit; a name gets the first free run that leaves out the last chunk of its array, which the code never uses; the locale \<^verbatim>\<open>run_start\<close>
    covers the allocations with and without alignment. The cache of the root files refines a list in the order of use as long as no bucket needs a second array; with a second array a session is shown that loses an entry.

  \<^bold>\<open>Not modelled.\<close> The code generated from the RPC descriptions and the bindings of the manager; the event loop, sockets, timers, debug commands and profiling of \<^verbatim>\<open>rozofs/core\<close>; the
  FUSE layer and its write buffers; the content of the directory files and their format on disk, the tracking files and the attribute cache of the export daemon, the reading of its configuration file through libconfig and the statistics of a volume in floating point, geo-replication and the trash; the storage of blocks in device files and the
  rebuild. They are input and output around the logic above, or large components of their own that this library does not reach yet. Log messages, statistics and \<^verbatim>\<open>errno\<close>
  are left out of the operations that are modelled.
\<close>

end
